(* ===== verification/Prelude.thy ===== *)
theory Prelude
  imports Main "HOL-Library.Word"
begin

text \<open>
  Shared vocabulary of the development: byte and machine-word types, the outcome type of code
  that reads memory through pointers, little-endian loads and stores (the \<^verbatim>\<open>memcpy\<close> of an
  integer to or from a byte buffer on the little-endian hosts the client is built for), C strings,
  and the generic lemmas the component theories share.
\<close>

named_theorems outcome_simps \<open>rewrite rules for the outcome type\<close>
named_theorems byte_simps \<open>rewrite rules for loads and stores of bytes\<close>

type_synonym u8 = "8 word"
type_synonym u16 = "16 word"
type_synonym u32 = "32 word"
type_synonym u64 = "64 word"

section \<open>Outcomes of code that dereferences pointers\<close>

text \<open>
  \<open>Ok\<close> is a normal return, \<open>Fail\<close> the error value the C function returns (\<^verbatim>\<open>-1\<close> or \<^verbatim>\<open>NULL\<close>),
  \<open>Overread\<close> an access outside the object the code was given (undefined behaviour in C), and
  \<open>NoFuel\<close> the exhaustion of a recursion bound of the model, which the enough-fuel lemmas rule out.
\<close>

datatype 'a outcome = Ok 'a | Fail | Overread | NoFuel

primrec bindo :: "'a outcome \<Rightarrow> ('a \<Rightarrow> 'b outcome) \<Rightarrow> 'b outcome" where
  "bindo (Ok x) f = f x"
| "bindo Fail f = Fail"
| "bindo Overread f = Overread"
| "bindo NoFuel f = NoFuel"

lemma bindo_eq_Ok [outcome_simps]: "bindo m f = Ok y \<longleftrightarrow> (\<exists>x. m = Ok x \<and> f x = Ok y)"
  by (cases m) auto

lemma bindo_eq_NoFuel [outcome_simps]:
  "bindo m f = NoFuel \<longleftrightarrow> m = NoFuel \<or> (\<exists>x. m = Ok x \<and> f x = NoFuel)"
  by (cases m) auto

lemma bindo_eq_Overread [outcome_simps]:
  "bindo m f = Overread \<longleftrightarrow> m = Overread \<or> (\<exists>x. m = Ok x \<and> f x = Overread)"
  by (cases m) auto

section \<open>Little-endian loads and stores\<close>

fun le_load :: "u8 list \<Rightarrow> nat" where
  "le_load [] = 0"
| "le_load (b # bs) = unat b + 256 * le_load bs"

fun le_store :: "nat \<Rightarrow> nat \<Rightarrow> u8 list" where
  "le_store 0 x = []"
| "le_store (Suc n) x = of_nat x # le_store n (x div 256)"

lemma length_le_store [simp]: "length (le_store n x) = n"
  by (induction n arbitrary: x) auto

lemma unat_of_nat_u8 [byte_simps]: "unat (of_nat x :: u8) = x mod 256"
  by (simp add: unat_of_nat)

lemma le_load_store [byte_simps]: "le_load (le_store n x) = x mod 256 ^ n"
proof (induction n arbitrary: x)
  case 0
  then show ?case by simp
next
  case (Suc n)
  have "le_load (le_store (Suc n) x) = x mod 256 + 256 * ((x div 256) mod 256 ^ n)"
    by (simp add: Suc unat_of_nat_u8)
  also have "\<dots> = x mod 256 ^ Suc n"
    by (simp add: mod_mult2_eq)
  finally show ?case .
qed

lemma le_load_less: "le_load bs < 256 ^ length bs"
proof (induction bs)
  case Nil
  then show ?case by simp
next
  case (Cons b bs)
  have "unat b < 256" using unsigned_less [of b] by simp
  with Cons show ?case by simp
qed

lemma u8_256_times [byte_simps]: "256 * w = (0 :: u8)"
proof -
  have "(256 :: u8) = 0" by simp
  then show ?thesis by (simp only: mult_zero_left)
qed

lemma le_store_load: "length bs = n \<Longrightarrow> le_store n (le_load bs) = bs"
proof (induction bs arbitrary: n)
  case Nil
  then show ?case by simp
next
  case (Cons b bs)
  have b: "unat b < 256" using unsigned_less [of b] by simp
  have "of_nat (unat b + 256 * le_load bs) = b"
    by (simp add: u8_256_times)
  moreover have "(unat b + 256 * le_load bs) div 256 = le_load bs"
    using b by simp
  ultimately show ?case using Cons by auto
qed

section \<open>C strings\<close>

text \<open>
  A C string is the bytes before the first NUL; \<open>strcmp\<close> equality compares those prefixes.
\<close>

definition c_str :: "u8 list \<Rightarrow> u8 list" where
  "c_str bs = takeWhile (\<lambda>b. b \<noteq> 0) bs"

definition str_eq :: "u8 list \<Rightarrow> u8 list \<Rightarrow> bool" where
  "str_eq a b \<longleftrightarrow> c_str a = c_str b"

lemma c_str_no_nul [simp]: "0 \<notin> set bs \<Longrightarrow> c_str bs = bs"
  unfolding c_str_def by (induction bs) auto

lemma c_str_append_nul [simp]: "0 \<notin> set bs \<Longrightarrow> c_str (bs @ 0 # cs) = bs"
  unfolding c_str_def by (induction bs) auto

lemma str_eq_refl [simp]: "str_eq a a"
  by (simp add: str_eq_def)

end
