(* ===== verification/ApiParse.thy ===== *)
theory ApiParse
  imports Prelude
begin

text \<open>
  The parser of API responses (\<^verbatim>\<open>papi.c\<close>: \<^verbatim>\<open>calc_ret_len\<close>, \<^verbatim>\<open>do_parse_result\<close>, \<^verbatim>\<open>parse_result\<close>
  and the lookup functions over a parsed \<^verbatim>\<open>binresult\<close>).

  The C code parses in two passes: \<^verbatim>\<open>calc_ret_len\<close> checks the message and computes how many bytes
  and how many string slots the result needs, then \<^verbatim>\<open>do_parse_result\<close> runs over the same bytes with
  no checks at all, bump-allocating from a buffer of exactly that size. The model keeps both passes.
  \<^item> The pair \<open>(*data, *datalen)\<close> of the code is the list of the bytes not yet consumed: both move
    together, and a byte read past the end of the message is \<open>Overread\<close>.
  \<^item> The output pointer \<open>*odata\<close> is its offset from the start of the buffer; the result is the value
    the pointers in the buffer denote.
  \<^item> \<open>strings\<close> / \<open>*nextstrid\<close> is the list of strings stored so far; an index past it is \<open>Overread\<close>.
  Both passes carry fuel, since their recursion is nested; \<open>api_fuel\<close> is proved sufficient.
\<close>

section \<open>Tags and values\<close>

text \<open>Only the tags that are compared or subtracted by name in the code.\<close>

abbreviation (input) "RPARAM_STR1 \<equiv> 0 :: nat"
abbreviation (input) "RPARAM_STR4 \<equiv> 3 :: nat"
abbreviation (input) "RPARAM_RSTR1 \<equiv> 4 :: nat"
abbreviation (input) "RPARAM_RSTR4 \<equiv> 7 :: nat"
abbreviation (input) "RPARAM_NUM1 \<equiv> 8 :: nat"
abbreviation (input) "RPARAM_NUM8 \<equiv> 15 :: nat"
abbreviation (input) "RPARAM_HASH \<equiv> 16 :: nat"
abbreviation (input) "RPARAM_ARRAY \<equiv> 17 :: nat"
abbreviation (input) "RPARAM_BFALSE \<equiv> 18 :: nat"
abbreviation (input) "RPARAM_BTRUE \<equiv> 19 :: nat"
abbreviation (input) "RPARAM_DATA \<equiv> 20 :: nat"
abbreviation (input) "RPARAM_SHORT_STR_BASE \<equiv> 100 :: nat"
abbreviation (input) "RPARAM_SHORT_RSTR_BASE \<equiv> 150 :: nat"
abbreviation (input) "RPARAM_SMALL_NUM_BASE \<equiv> 200 :: nat"
abbreviation (input) "RPARAM_END \<equiv> 255 :: u8"
abbreviation (input) "VSHORT_STR_LEN \<equiv> 50 :: nat"
abbreviation (input) "VSHORT_RSTR_CNT \<equiv> 50 :: nat"
abbreviation (input) "VSMALL_NUMBER_NUM \<equiv> 20 :: nat"
abbreviation (input) "ALIGN_BYTES \<equiv> 8 :: nat"
abbreviation (input) "sizeof_binresult \<equiv> 16 :: nat"
abbreviation (input) "sizeof_ptr \<equiv> 8 :: nat"
abbreviation (input) "sizeof_hashpair \<equiv> 16 :: nat"
abbreviation (input) "offsetof_str \<equiv> 8 :: nat"

text \<open>
  \<^verbatim>\<open>binresult\<close>: the tagged union, with the string stored inline, the array as a list and the hash as a
  list of key/value pairs. \<open>PData\<close> is the length of a data stream that follows the response.
\<close>

datatype binresult =
    PStr "u8 list"
  | PNum nat
  | PBool bool
  | PArray "binresult list"
  | PHash "(u8 list \<times> binresult) list"
  | PData nat

datatype param_type = PARAM_STR | PARAM_NUM | PARAM_BOOL | PARAM_ARRAY | PARAM_HASH | PARAM_DATA

fun res_type :: "binresult \<Rightarrow> param_type" where
  "res_type (PStr _) = PARAM_STR"
| "res_type (PNum _) = PARAM_NUM"
| "res_type (PBool _) = PARAM_BOOL"
| "res_type (PArray _) = PARAM_ARRAY"
| "res_type (PHash _) = PARAM_HASH"
| "res_type (PData _) = PARAM_DATA"

text \<open>The rounding of a string's length: room for the terminating NUL, up to the next multiple of 8.\<close>

definition str_room :: "nat \<Rightarrow> nat" where
  "str_room len = (len + ALIGN_BYTES) div ALIGN_BYTES * ALIGN_BYTES"

section \<open>Pass one: calc-ret-len\<close>

text \<open>\<^verbatim>\<open>_NEED_DATA(n)\<close> followed by the consumption of those bytes.\<close>

definition need_data :: "nat \<Rightarrow> u8 list \<Rightarrow> (u8 list \<times> u8 list) outcome" where
  "need_data n d = (if length d < n then Fail else Ok (take n d, drop n d))"

definition is_short_str :: "nat \<Rightarrow> bool" where
  "is_short_str type \<longleftrightarrow> RPARAM_SHORT_STR_BASE \<le> type \<and> type < RPARAM_SHORT_STR_BASE + VSHORT_STR_LEN"

definition is_str_tag :: "nat \<Rightarrow> bool" where
  "is_str_tag type \<longleftrightarrow> is_short_str type \<or> (RPARAM_STR1 \<le> type \<and> type \<le> RPARAM_STR4)"

definition is_long_rstr :: "nat \<Rightarrow> bool" where
  "is_long_rstr type \<longleftrightarrow> RPARAM_RSTR1 \<le> type \<and> type \<le> RPARAM_RSTR4"

definition is_rstr_tag :: "nat \<Rightarrow> bool" where
  "is_rstr_tag type \<longleftrightarrow> is_long_rstr type \<or>
     (RPARAM_SHORT_RSTR_BASE \<le> type \<and> type < RPARAM_SHORT_RSTR_BASE + VSHORT_RSTR_CNT)"

definition is_num_tag :: "nat \<Rightarrow> bool" where
  "is_num_tag type \<longleftrightarrow> RPARAM_NUM1 \<le> type \<and> type \<le> RPARAM_NUM8"

definition is_small_num :: "nat \<Rightarrow> bool" where
  "is_small_num type \<longleftrightarrow>
     RPARAM_SMALL_NUM_BASE \<le> type \<and> type < RPARAM_SMALL_NUM_BASE + VSMALL_NUMBER_NUM"

text \<open>The string branch, the repeated-string branch and the number branch.\<close>

definition calc_str :: "nat \<Rightarrow> u8 list \<Rightarrow> nat \<Rightarrow> (nat \<times> u8 list \<times> nat) outcome" where
  "calc_str type d strcnt =
     bindo (if is_short_str type then Ok (type - RPARAM_SHORT_STR_BASE, d)
            else bindo (need_data (type - RPARAM_STR1 + 1) d) (\<lambda>(b, d). Ok (le_load b, d)))
       (\<lambda>(len, d). bindo (need_data len d) (\<lambda>(_, d). Ok (offsetof_str + str_room len, d, strcnt + 1)))"

definition calc_rstr :: "nat \<Rightarrow> u8 list \<Rightarrow> nat \<Rightarrow> (nat \<times> u8 list \<times> nat) outcome" where
  "calc_rstr type d strcnt =
     bindo (if is_long_rstr type then
              bindo (need_data (type - RPARAM_RSTR1 + 1) d) (\<lambda>(b, d). Ok (le_load b, d))
            else Ok (type - RPARAM_SHORT_RSTR_BASE, d))
       (\<lambda>(len, d). if len < strcnt then Ok (0, d, strcnt) else Fail)"

definition calc_num :: "nat \<Rightarrow> u8 list \<Rightarrow> nat \<Rightarrow> (nat \<times> u8 list \<times> nat) outcome" where
  "calc_num type d strcnt =
     bindo (need_data (type - RPARAM_NUM1 + 1) d) (\<lambda>(_, d). Ok (sizeof_binresult, d, strcnt))"

text \<open>
  The result is the space in bytes, the rest of the message and the string count. In the two loops
  the test of the \<^verbatim>\<open>while\<close> reads \<^verbatim>\<open>**data\<close> before any check that a byte is left.
\<close>

function (sequential) calc_ret_len :: "nat \<Rightarrow> u8 list \<Rightarrow> nat \<Rightarrow> (nat \<times> u8 list \<times> nat) outcome"
  and calc_array :: "nat \<Rightarrow> u8 list \<Rightarrow> nat \<Rightarrow> nat \<Rightarrow> nat \<Rightarrow> (nat \<times> u8 list \<times> nat) outcome"
  and calc_hash :: "nat \<Rightarrow> u8 list \<Rightarrow> nat \<Rightarrow> nat \<Rightarrow> nat \<Rightarrow> (nat \<times> u8 list \<times> nat) outcome"
where
  "calc_ret_len 0 d strcnt = NoFuel"
| "calc_ret_len (Suc f) d strcnt =
     bindo (need_data 1 d) (\<lambda>(t, d). let type = le_load t in
       if is_str_tag type then calc_str type d strcnt
       else if is_rstr_tag type then calc_rstr type d strcnt
       else if is_num_tag type then calc_num type d strcnt
       else if is_small_num type then Ok (0, d, strcnt)
       else if type = RPARAM_BFALSE \<or> type = RPARAM_BTRUE then Ok (0, d, strcnt)
       else if type = RPARAM_ARRAY then calc_array f d strcnt sizeof_binresult 0
       else if type = RPARAM_HASH then calc_hash f d strcnt sizeof_binresult 0
       else if type = RPARAM_DATA then
         bindo (need_data 8 d) (\<lambda>(_, d). Ok (sizeof_binresult, d, strcnt))
       else Fail)"
| "calc_array 0 d strcnt ret cnt = NoFuel"
| "calc_array (Suc f) d strcnt ret cnt =
     (case d of [] \<Rightarrow> Overread
      | b # d' \<Rightarrow>
        if b = RPARAM_END then Ok (ret + sizeof_ptr * cnt, d', strcnt)
        else bindo (calc_ret_len f d strcnt) (\<lambda>(r, d, strcnt).
             if length d < 1 then Fail else calc_array f d strcnt (ret + r) (cnt + 1)))"
| "calc_hash 0 d strcnt ret cnt = NoFuel"
| "calc_hash (Suc f) d strcnt ret cnt =
     (case d of [] \<Rightarrow> Overread
      | b # d' \<Rightarrow>
        if b = RPARAM_END then Ok (ret + sizeof_hashpair * cnt, d', strcnt)
        else bindo (calc_ret_len f d strcnt) (\<lambda>(r, d, strcnt).
             bindo (calc_ret_len f d strcnt) (\<lambda>(r', d, strcnt).
             if length d < 1 then Fail else calc_hash f d strcnt (ret + r + r') (cnt + 1))))"
  by pat_completeness auto
termination
  by (relation "measure (\<lambda>x. case x of Inl (f, _) \<Rightarrow> f | Inr (Inl (f, _)) \<Rightarrow> f | Inr (Inr (f, _)) \<Rightarrow> f)") auto

section \<open>Pass two: do-parse-result\<close>

text \<open>An unchecked read of \<open>n\<close> message bytes.\<close>

definition rd :: "nat \<Rightarrow> u8 list \<Rightarrow> (u8 list \<times> u8 list) outcome" where
  "rd n d = (if length d < n then Overread else Ok (take n d, drop n d))"

definition parse_str :: "nat \<Rightarrow> u8 list \<Rightarrow> nat \<Rightarrow> u8 list list \<Rightarrow>
      (binresult \<times> u8 list \<times> nat \<times> u8 list list) outcome" where
  "parse_str type d odata strings =
     bindo (if is_short_str type then Ok (type - RPARAM_SHORT_STR_BASE, d)
            else bindo (rd (type - RPARAM_STR1 + 1) d) (\<lambda>(b, d). Ok (le_load b, d)))
       (\<lambda>(len, d). bindo (rd len d) (\<lambda>(s, d).
          Ok (PStr s, d, odata + offsetof_str + str_room len, strings @ [s])))"

definition parse_rstr :: "nat \<Rightarrow> u8 list \<Rightarrow> nat \<Rightarrow> u8 list list \<Rightarrow>
      (binresult \<times> u8 list \<times> nat \<times> u8 list list) outcome" where
  "parse_rstr type d odata strings =
     bindo (if is_long_rstr type then
              bindo (rd (type - RPARAM_RSTR1 + 1) d) (\<lambda>(b, d). Ok (le_load b, d))
            else Ok (type - RPARAM_SHORT_RSTR_BASE, d))
       (\<lambda>(id, d). if id < length strings then Ok (PStr (strings ! id), d, odata, strings) else Overread)"

definition parse_num :: "nat \<Rightarrow> u8 list \<Rightarrow> nat \<Rightarrow> u8 list list \<Rightarrow>
      (binresult \<times> u8 list \<times> nat \<times> u8 list list) outcome" where
  "parse_num type d odata strings =
     bindo (rd (type - RPARAM_NUM1 + 1) d) (\<lambda>(b, d).
       Ok (PNum (le_load b), d, odata + sizeof_binresult, strings))"

text \<open>A pair is kept only when its key is a string.\<close>

fun add_pair :: "binresult \<Rightarrow> binresult \<Rightarrow> (u8 list \<times> binresult) list \<Rightarrow> (u8 list \<times> binresult) list" where
  "add_pair (PStr s) v arr = arr @ [(s, v)]"
| "add_pair _ v arr = arr"

text \<open>
  The result is the parsed value, the rest of the message, the output offset and the string table.
  \<open>Fail\<close> is the \<^verbatim>\<open>return NULL\<close> for a tag that pass one refuses. The C loops collect into a growing
  scratch array and copy it behind the elements, which is where the offset moves by the table size;
  pairs whose key is not a string are dropped.
\<close>

function (sequential) do_parse_result :: "nat \<Rightarrow> u8 list \<Rightarrow> nat \<Rightarrow> u8 list list \<Rightarrow>
      (binresult \<times> u8 list \<times> nat \<times> u8 list list) outcome"
  and parse_array :: "nat \<Rightarrow> u8 list \<Rightarrow> nat \<Rightarrow> u8 list list \<Rightarrow> binresult list \<Rightarrow>
      (binresult list \<times> u8 list \<times> nat \<times> u8 list list) outcome"
  and parse_hash :: "nat \<Rightarrow> u8 list \<Rightarrow> nat \<Rightarrow> u8 list list \<Rightarrow> (u8 list \<times> binresult) list \<Rightarrow>
      ((u8 list \<times> binresult) list \<times> u8 list \<times> nat \<times> u8 list list) outcome"
where
  "do_parse_result 0 d odata strings = NoFuel"
| "do_parse_result (Suc f) d odata strings =
     bindo (rd 1 d) (\<lambda>(t, d). let type = le_load t in
       if is_str_tag type then parse_str type d odata strings
       else if is_rstr_tag type then parse_rstr type d odata strings
       else if is_num_tag type then parse_num type d odata strings
       else if is_small_num type then Ok (PNum (type - RPARAM_SMALL_NUM_BASE), d, odata, strings)
       else if type = RPARAM_BTRUE then Ok (PBool True, d, odata, strings)
       else if type = RPARAM_BFALSE then Ok (PBool False, d, odata, strings)
       else if type = RPARAM_ARRAY then
         bindo (parse_array f d (odata + sizeof_binresult) strings []) (\<lambda>(arr, d, odata, strings).
           Ok (PArray arr, d, odata + sizeof_ptr * length arr, strings))
       else if type = RPARAM_HASH then
         bindo (parse_hash f d (odata + sizeof_binresult) strings []) (\<lambda>(arr, d, odata, strings).
           Ok (PHash arr, d, odata + sizeof_hashpair * length arr, strings))
       else if type = RPARAM_DATA then
         bindo (rd 8 d) (\<lambda>(b, d). Ok (PData (le_load b), d, odata + sizeof_binresult, strings))
       else Fail)"
| "parse_array 0 d odata strings arr = NoFuel"
| "parse_array (Suc f) d odata strings arr =
     (case d of [] \<Rightarrow> Overread
      | b # d' \<Rightarrow>
        if b = RPARAM_END then Ok (arr, d', odata, strings)
        else bindo (do_parse_result f d odata strings) (\<lambda>(v, d, odata, strings).
             parse_array f d odata strings (arr @ [v])))"
| "parse_hash 0 d odata strings arr = NoFuel"
| "parse_hash (Suc f) d odata strings arr =
     (case d of [] \<Rightarrow> Overread
      | b # d' \<Rightarrow>
        if b = RPARAM_END then Ok (arr, d', odata, strings)
        else bindo (do_parse_result f d odata strings) (\<lambda>(key, d, odata, strings).
             bindo (do_parse_result f d odata strings) (\<lambda>(v, d, odata, strings).
             parse_hash f d odata strings (add_pair key v arr))))"
  by pat_completeness auto
termination
  by (relation "measure (\<lambda>x. case x of Inl (f, _) \<Rightarrow> f | Inr (Inl (f, _)) \<Rightarrow> f | Inr (Inr (f, _)) \<Rightarrow> f)") auto

definition api_fuel :: "u8 list \<Rightarrow> nat" where
  "api_fuel d = 2 * length d + 1"

text \<open>
  \<^verbatim>\<open>parse_result\<close>: pass one sizes the buffer and the string table, pass two fills them. The offset
  that pass two ends at and the size that pass one allocated are returned beside the value.
\<close>

definition parse_result :: "u8 list \<Rightarrow> (binresult \<times> nat \<times> nat) outcome" where
  "parse_result data =
     bindo (calc_ret_len (api_fuel data) data 0) (\<lambda>(retlen, _, strcnt).
     bindo (do_parse_result (api_fuel data) data 0 []) (\<lambda>(res, _, odata, strings).
       Ok (res, odata, retlen)))"

section \<open>Lookup in a parsed hash\<close>

fun empty_types :: "param_type \<Rightarrow> binresult" where
  "empty_types PARAM_STR = PStr []"
| "empty_types PARAM_NUM = PNum 0"
| "empty_types PARAM_BOOL = PBool False"
| "empty_types PARAM_ARRAY = PArray []"
| "empty_types PARAM_HASH = PHash []"
| "empty_types PARAM_DATA = PData 0"

text \<open>The loop over \<open>res->hash\<close>: the value at the first key that \<^verbatim>\<open>strcmp\<close> finds equal.\<close>

fun hash_scan :: "(u8 list \<times> binresult) list \<Rightarrow> u8 list \<Rightarrow> binresult option" where
  "hash_scan [] name = None"
| "hash_scan ((k, v) # h) name = (if str_eq k name then Some v else hash_scan h name)"

definition psync_do_get_result :: "binresult option \<Rightarrow> u8 list \<Rightarrow> binresult option" where
  "psync_do_get_result res name =
     (case res of Some (PHash h) \<Rightarrow> hash_scan h name | _ \<Rightarrow> None)"

definition psync_do_check_result :: "binresult option \<Rightarrow> u8 list \<Rightarrow> param_type \<Rightarrow> binresult option" where
  "psync_do_check_result res name type =
     (case res of
        Some (PHash h) \<Rightarrow>
          (case hash_scan h name of
             Some v \<Rightarrow> if res_type v = type then Some v else None
           | None \<Rightarrow> None)
      | _ \<Rightarrow> None)"

definition psync_do_find_result :: "binresult option \<Rightarrow> u8 list \<Rightarrow> param_type \<Rightarrow> binresult" where
  "psync_do_find_result res name type =
     (case res of
        Some (PHash h) \<Rightarrow>
          (case hash_scan h name of
             Some v \<Rightarrow> if res_type v = type then v else empty_types type
           | None \<Rightarrow> empty_types type)
      | _ \<Rightarrow> empty_types type)"

section \<open>Progress and fuel\<close>

lemmas calc_helpers = calc_str_def calc_rstr_def calc_num_def need_data_def
lemmas parse_helpers = parse_str_def parse_rstr_def parse_num_def rd_def
lemmas calc_induct = calc_ret_len_calc_array_calc_hash.induct

lemma need_data_Ok: "need_data n d = Ok (b, d') \<longleftrightarrow> n \<le> length d \<and> b = take n d \<and> d' = drop n d"
  by (auto simp: need_data_def)

lemma rd_Ok: "rd n d = Ok (b, d') \<longleftrightarrow> n \<le> length d \<and> b = take n d \<and> d' = drop n d"
  by (auto simp: rd_def)

lemma need_data_not [simp]: "need_data n d \<noteq> NoFuel" "need_data n d \<noteq> Overread"
  by (auto simp: need_data_def)

lemma rd_not [simp]: "rd n d \<noteq> NoFuel" "rd n d \<noteq> Fail"
  by (auto simp: rd_def)

lemma need_data_rd: "need_data n d = Ok x \<Longrightarrow> rd n d = Ok x"
  by (auto simp: need_data_def rd_def split: if_splits)

text \<open>Every successful call consumes at least its tag byte.\<close>

lemma calc_scalar_rest:
  "calc_str t d sc = Ok (n, d', sc') \<Longrightarrow> length d' \<le> length d"
  "calc_rstr t d sc = Ok (n, d', sc') \<Longrightarrow> length d' \<le> length d"
  "calc_num t d sc = Ok (n, d', sc') \<Longrightarrow> length d' \<le> length d"
  by (auto simp: calc_str_def calc_rstr_def calc_num_def outcome_simps need_data_Ok split: if_splits)

text \<open>The dispatch on the tag, with the tag byte taken off.\<close>

lemma calc_ret_len_Nil: "calc_ret_len (Suc f) [] sc = Fail"
  by (simp add: need_data_def)

lemma calc_ret_len_Cons:
  "calc_ret_len (Suc f) (t # d) sc =
     (if is_str_tag (unat t) then calc_str (unat t) d sc
      else if is_rstr_tag (unat t) then calc_rstr (unat t) d sc
      else if is_num_tag (unat t) then calc_num (unat t) d sc
      else if is_small_num (unat t) then Ok (0, d, sc)
      else if unat t = RPARAM_BFALSE \<or> unat t = RPARAM_BTRUE then Ok (0, d, sc)
      else if unat t = RPARAM_ARRAY then calc_array f d sc sizeof_binresult 0
      else if unat t = RPARAM_HASH then calc_hash f d sc sizeof_binresult 0
      else if unat t = RPARAM_DATA then
        bindo (need_data 8 d) (\<lambda>(_, d). Ok (sizeof_binresult, d, sc))
      else Fail)"
  by (simp add: need_data_def Let_def)

lemma do_parse_result_Cons:
  "do_parse_result (Suc f) (t # d) odata strings =
     (if is_str_tag (unat t) then parse_str (unat t) d odata strings
      else if is_rstr_tag (unat t) then parse_rstr (unat t) d odata strings
      else if is_num_tag (unat t) then parse_num (unat t) d odata strings
      else if is_small_num (unat t) then Ok (PNum (unat t - RPARAM_SMALL_NUM_BASE), d, odata, strings)
      else if unat t = RPARAM_BTRUE then Ok (PBool True, d, odata, strings)
      else if unat t = RPARAM_BFALSE then Ok (PBool False, d, odata, strings)
      else if unat t = RPARAM_ARRAY then
        bindo (parse_array f d (odata + sizeof_binresult) strings []) (\<lambda>(arr, d, odata, strings).
          Ok (PArray arr, d, odata + sizeof_ptr * length arr, strings))
      else if unat t = RPARAM_HASH then
        bindo (parse_hash f d (odata + sizeof_binresult) strings []) (\<lambda>(arr, d, odata, strings).
          Ok (PHash arr, d, odata + sizeof_hashpair * length arr, strings))
      else if unat t = RPARAM_DATA then
        bindo (rd 8 d) (\<lambda>(b, d). Ok (PData (le_load b), d, odata + sizeof_binresult, strings))
      else Fail)"
  by (simp add: rd_def Let_def)

lemmas calc_step = calc_ret_len_Nil calc_ret_len_Cons calc_array.simps(2) calc_hash.simps(2)

lemmas parse_step = do_parse_result_Cons parse_array.simps(2) parse_hash.simps(2)

declare calc_ret_len.simps(2) [simp del] calc_array.simps(2) [simp del] calc_hash.simps(2) [simp del]
declare do_parse_result.simps(2) [simp del] parse_array.simps(2) [simp del] parse_hash.simps(2) [simp del]

lemma calc_rest:
  "(calc_ret_len f d sc = Ok (n, d', sc') \<longrightarrow> length d' < length d) \<and>
   (calc_array f d sc ret cnt = Ok (n, d', sc') \<longrightarrow> length d' < length d) \<and>
   (calc_hash f d sc ret cnt = Ok (n, d', sc') \<longrightarrow> length d' < length d)"
proof (induction f arbitrary: d sc n d' sc' ret cnt)
  case 0
  then show ?case by simp
next
  case (Suc f)
  note IH = Suc.IH [THEN conjunct1, rule_format] Suc.IH [THEN conjunct2, THEN conjunct1, rule_format]
    Suc.IH [THEN conjunct2, THEN conjunct2, rule_format]
  have 1: "length d' < length d" if "calc_ret_len (Suc f) d sc = Ok (n, d', sc')"
  proof (cases d)
    case Nil
    with that show ?thesis by (simp add: calc_step)
  next
    case (Cons t r)
    with that show ?thesis
      by (fastforce simp: calc_step need_data_Ok outcome_simps dest: calc_scalar_rest IH split: if_splits)
  qed
  have 2: "length d' < length d" if "calc_array (Suc f) d sc ret cnt = Ok (n, d', sc')"
    using that by (fastforce simp: calc_step outcome_simps dest: IH split: list.splits if_splits)
  have 3: "length d' < length d" if "calc_hash (Suc f) d sc ret cnt = Ok (n, d', sc')"
    using that by (fastforce simp: calc_step outcome_simps dest: IH split: list.splits if_splits)
  from 1 2 3 show ?case by blast
qed

lemmas calc_ret_len_rest = calc_rest [THEN conjunct1, rule_format]

lemma calc_scalar_no_fuel [simp]:
  "calc_str t d sc \<noteq> NoFuel" "calc_rstr t d sc \<noteq> NoFuel" "calc_num t d sc \<noteq> NoFuel"
  by (auto simp: calc_str_def calc_rstr_def calc_num_def outcome_simps split: if_splits)

text \<open>Fuel for twice the bytes is enough for pass one.\<close>

lemma calc_fuel:
  "(1 \<le> f \<and> 2 * length d \<le> f \<longrightarrow> calc_ret_len f d sc \<noteq> NoFuel) \<and>
   (2 * length d + 1 \<le> f \<longrightarrow> calc_array f d sc ret cnt \<noteq> NoFuel) \<and>
   (2 * length d + 1 \<le> f \<longrightarrow> calc_hash f d sc ret cnt \<noteq> NoFuel)"
proof (induction f arbitrary: d sc ret cnt)
  case 0
  then show ?case by simp
next
  case (Suc f)
  have R: "calc_ret_len f d sc \<noteq> NoFuel" if "1 \<le> f" "2 * length d \<le> f" for d sc
    using Suc.IH that by blast
  have A: "calc_array f d sc ret cnt \<noteq> NoFuel" if "2 * length d + 1 \<le> f" for d sc ret cnt
    using Suc.IH that by blast
  have H: "calc_hash f d sc ret cnt \<noteq> NoFuel" if "2 * length d + 1 \<le> f" for d sc ret cnt
    using Suc.IH that by blast
  have 1: "calc_ret_len (Suc f) d sc \<noteq> NoFuel" if "2 * length d \<le> Suc f"
    using that by (cases d) (auto simp: calc_step outcome_simps A H)
  have 2: "calc_array (Suc f) d sc ret cnt \<noteq> NoFuel" if "2 * length d + 1 \<le> Suc f"
    using that
    by (auto simp: calc_step outcome_simps R split: list.splits dest!: calc_ret_len_rest intro!: A)
  have 3: "calc_hash (Suc f) d sc ret cnt \<noteq> NoFuel" if "2 * length d + 1 \<le> Suc f"
    using that
    by (auto simp: calc_step outcome_simps R split: list.splits dest!: calc_ret_len_rest intro!: H)
  from 1 2 3 show ?case by blast
qed

text \<open>
  A message expands by at most 24 bytes of result per byte, so the sizes that the code adds up as
  \<^verbatim>\<open>ssize_t\<close> stay far from overflow for the 32-bit message lengths of the protocol.
\<close>

lemma str_room_le: "str_room len \<le> len + 8"
  by (simp add: str_room_def)

lemma str_room_gt: "len < str_room len"
  unfolding str_room_def by arith

lemma calc_scalar_bound:
  "calc_str t d sc = Ok (n, d', sc') \<Longrightarrow> n + 8 + 24 * length d' \<le> 24 * length d + 24"
  "calc_rstr t d sc = Ok (n, d', sc') \<Longrightarrow> n + 8 + 24 * length d' \<le> 24 * length d + 24"
  "calc_num t d sc = Ok (n, d', sc') \<Longrightarrow> n + 8 + 24 * length d' \<le> 24 * length d + 24"
  using str_room_le [of "t - RPARAM_SHORT_STR_BASE"] str_room_le [of "le_load (take (Suc t) d)"]
  by (auto simp: calc_str_def calc_rstr_def calc_num_def outcome_simps need_data_Ok split: if_splits)

lemma calc_bound:
  "(calc_ret_len f d sc = Ok (n, d', sc') \<longrightarrow> n + 8 + 24 * length d' \<le> 24 * length d) \<and>
   (calc_array f d sc ret cnt = Ok (n, d', sc') \<longrightarrow>
      n + 24 * length d' + 24 \<le> 24 * length d + ret + 8 * cnt) \<and>
   (calc_hash f d sc ret cnt = Ok (n, d', sc') \<longrightarrow>
      n + 24 * length d' + 24 \<le> 24 * length d + ret + 16 * cnt)"
proof (induction f arbitrary: d sc n d' sc' ret cnt)
  case 0
  then show ?case by simp
next
  case (Suc f)
  note IH = Suc.IH [THEN conjunct1, rule_format] Suc.IH [THEN conjunct2, THEN conjunct1, rule_format]
    Suc.IH [THEN conjunct2, THEN conjunct2, rule_format]
  have 1: "n + 8 + 24 * length d' \<le> 24 * length d" if "calc_ret_len (Suc f) d sc = Ok (n, d', sc')"
  proof (cases d)
    case Nil
    with that show ?thesis by (simp add: calc_step)
  next
    case (Cons t r)
    with that show ?thesis
      by (fastforce simp: calc_step need_data_Ok outcome_simps dest: calc_scalar_bound IH split: if_splits)
  qed
  have 2: "n + 24 * length d' + 24 \<le> 24 * length d + ret + 8 * cnt"
    if "calc_array (Suc f) d sc ret cnt = Ok (n, d', sc')"
    using that by (fastforce simp: calc_step outcome_simps dest: IH split: list.splits if_splits)
  have 3: "n + 24 * length d' + 24 \<le> 24 * length d + ret + 16 * cnt"
    if "calc_hash (Suc f) d sc ret cnt = Ok (n, d', sc')"
    using that by (fastforce simp: calc_step outcome_simps dest: IH split: list.splits if_splits)
  from 1 2 3 show ?case by blast
qed

section \<open>The two passes agree\<close>

lemma scalar_agree:
  "calc_str t d (length ss) = Ok (n, d', sc') \<Longrightarrow>
     \<exists>s. parse_str t d odata ss = Ok (PStr s, d', odata + n, ss @ [s]) \<and> sc' = length ss + 1"
  "calc_rstr t d (length ss) = Ok (n, d', sc') \<Longrightarrow>
     \<exists>s. parse_rstr t d odata ss = Ok (PStr s, d', odata + n, ss) \<and> sc' = length ss"
  "calc_num t d (length ss) = Ok (n, d', sc') \<Longrightarrow>
     \<exists>k. parse_num t d odata ss = Ok (PNum k, d', odata + n, ss) \<and> sc' = length ss"
  by (auto simp: calc_str_def calc_rstr_def calc_num_def parse_str_def parse_rstr_def parse_num_def
      outcome_simps need_data_Ok rd_Ok Let_def split: if_splits)

lemma add_pair_length: "length (add_pair k v arr) \<le> length arr + 1"
  by (cases k) auto

text \<open>
  Where pass one accepts, pass two consumes the same bytes, stores as many strings as were counted
  and ends within the space that was counted.
\<close>

lemma passes_agree:
  "(calc_ret_len f d (length ss) = Ok (n, d', sc') \<longrightarrow>
     (\<exists>v o' ss'. do_parse_result f d odata ss = Ok (v, d', o', ss') \<and> o' \<le> odata + n \<and> length ss' = sc')) \<and>
   (calc_array f d (length ss) ret cnt = Ok (n, d', sc') \<longrightarrow>
     (\<exists>vs o' ss'. parse_array f d odata ss arr = Ok (vs, d', o', ss') \<and> length ss' = sc' \<and>
        o' + 8 * length vs + ret + 8 * cnt \<le> odata + n + 8 * length arr)) \<and>
   (calc_hash f d (length ss) ret cnt = Ok (n, d', sc') \<longrightarrow>
     (\<exists>vs o' ss'. parse_hash f d odata ss harr = Ok (vs, d', o', ss') \<and> length ss' = sc' \<and>
        o' + 16 * length vs + ret + 16 * cnt \<le> odata + n + 16 * length harr))"
proof (induction f arbitrary: d ss n d' sc' ret cnt odata arr harr)
  case 0
  then show ?case by simp
next
  case (Suc f)
  have R: "\<exists>v o' ss'. do_parse_result f d odata ss = Ok (v, d', o', ss') \<and> o' \<le> odata + n \<and> length ss' = sc'"
    if "calc_ret_len f d (length ss) = Ok (n, d', sc')" for d ss n d' sc' odata
    using Suc.IH that by blast
  have A: "\<exists>vs o' ss'. parse_array f d odata ss arr = Ok (vs, d', o', ss') \<and> length ss' = sc' \<and>
        o' + 8 * length vs + ret + 8 * cnt \<le> odata + n + 8 * length arr"
    if "calc_array f d (length ss) ret cnt = Ok (n, d', sc')" for d ss n d' sc' odata ret cnt arr
    using Suc.IH that by blast
  have H: "\<exists>vs o' ss'. parse_hash f d odata ss harr = Ok (vs, d', o', ss') \<and> length ss' = sc' \<and>
        o' + 16 * length vs + ret + 16 * cnt \<le> odata + n + 16 * length harr"
    if "calc_hash f d (length ss) ret cnt = Ok (n, d', sc')" for d ss n d' sc' odata ret cnt harr
    using Suc.IH that by blast
  have 1: "\<exists>v o' ss'. do_parse_result (Suc f) d odata ss = Ok (v, d', o', ss') \<and> o' \<le> odata + n \<and> length ss' = sc'"
    if ok: "calc_ret_len (Suc f) d (length ss) = Ok (n, d', sc')"
  proof (cases d)
    case Nil
    with ok show ?thesis by (simp add: calc_step)
  next
    case (Cons t r)
    let ?scalar = "is_str_tag (unat t) \<or> is_rstr_tag (unat t) \<or> is_num_tag (unat t)"
    consider "?scalar" | "\<not> ?scalar" "unat t = RPARAM_ARRAY" "\<not> is_small_num (unat t)"
      | "\<not> ?scalar" "unat t = RPARAM_HASH" "\<not> is_small_num (unat t)"
      | "\<not> ?scalar" "(unat t \<noteq> RPARAM_ARRAY \<and> unat t \<noteq> RPARAM_HASH) \<or> is_small_num (unat t)"
      by blast
    then show ?thesis
    proof cases
      case 1
      with ok Cons show ?thesis
        by (auto simp: calc_step parse_step dest!: scalar_agree [where odata = odata] split: if_splits)
    next
      case 2
      with ok Cons have "calc_array f r (length ss) 16 0 = Ok (n, d', sc')"
        by (simp add: calc_step)
      from A [OF this, of "odata + 16" "[]"] 2 Cons show ?thesis
        by (auto simp: parse_step)
    next
      case 3
      with ok Cons have "calc_hash f r (length ss) 16 0 = Ok (n, d', sc')"
        by (simp add: calc_step)
      from H [OF this, of "odata + 16" "[]"] 3 Cons show ?thesis
        by (auto simp: parse_step)
    next
      case 4
      with ok Cons show ?thesis
        by (auto simp: calc_step parse_step outcome_simps need_data_Ok rd_Ok split: if_splits)
    qed
  qed
  have 2: "\<exists>vs o' ss'. parse_array (Suc f) d odata ss arr = Ok (vs, d', o', ss') \<and> length ss' = sc' \<and>
        o' + 8 * length vs + ret + 8 * cnt \<le> odata + n + 8 * length arr"
    if ok: "calc_array (Suc f) d (length ss) ret cnt = Ok (n, d', sc')"
  proof (cases "d \<noteq> [] \<and> hd d = RPARAM_END")
    case True
    with ok show ?thesis by (auto simp: calc_step parse_step split: list.splits)
  next
    case False
    with ok obtain r d1 sc1 where 1: "calc_ret_len f d (length ss) = Ok (r, d1, sc1)"
      and 2: "calc_array f d1 sc1 (ret + r) (cnt + 1) = Ok (n, d', sc')"
      by (auto simp: calc_step outcome_simps split: list.splits if_splits)
    from R [OF 1, of odata] obtain v o1 ss1 where
      p1: "do_parse_result f d odata ss = Ok (v, d1, o1, ss1)" "o1 \<le> odata + r" "length ss1 = sc1" by blast
    from A [OF 2 [folded p1(3)], of o1 "arr @ [v]"] False p1 ok show ?thesis
      by (auto simp: calc_step parse_step split: list.splits)
  qed
  have 3: "\<exists>vs o' ss'. parse_hash (Suc f) d odata ss harr = Ok (vs, d', o', ss') \<and> length ss' = sc' \<and>
        o' + 16 * length vs + ret + 16 * cnt \<le> odata + n + 16 * length harr"
    if ok: "calc_hash (Suc f) d (length ss) ret cnt = Ok (n, d', sc')"
  proof (cases "d \<noteq> [] \<and> hd d = RPARAM_END")
    case True
    with ok show ?thesis by (auto simp: calc_step parse_step split: list.splits)
  next
    case False
    with ok obtain r d1 sc1 r' d2 sc2 where 1: "calc_ret_len f d (length ss) = Ok (r, d1, sc1)"
      and 2: "calc_ret_len f d1 sc1 = Ok (r', d2, sc2)"
      and 3: "calc_hash f d2 sc2 (ret + r + r') (cnt + 1) = Ok (n, d', sc')"
      by (auto simp: calc_step outcome_simps split: list.splits if_splits)
    from R [OF 1, of odata] obtain k o1 ss1 where
      p1: "do_parse_result f d odata ss = Ok (k, d1, o1, ss1)" "o1 \<le> odata + r" "length ss1 = sc1" by blast
    from R [OF 2 [folded p1(3)], of o1] obtain v o2 ss2 where
      p2: "do_parse_result f d1 o1 ss1 = Ok (v, d2, o2, ss2)" "o2 \<le> o1 + r'" "length ss2 = sc2" by blast
    from H [OF 3 [folded p2(3)], of o2 "add_pair k v harr"] add_pair_length [of k v harr] False p1 p2 ok
    show ?thesis
      by (auto simp: calc_step parse_step split: list.splits)
  qed
  from 1 2 3 show ?case by blast
qed

section \<open>Reads past the end of the message\<close>

text \<open>Consuming part of a message leaves its last byte the last one.\<close>

lemma calc_scalar_last:
  "calc_str t d sc = Ok (n, d', sc') \<Longrightarrow> d' \<noteq> [] \<Longrightarrow> d \<noteq> [] \<and> last d' = last d"
  "calc_rstr t d sc = Ok (n, d', sc') \<Longrightarrow> d' \<noteq> [] \<Longrightarrow> d \<noteq> [] \<and> last d' = last d"
  "calc_num t d sc = Ok (n, d', sc') \<Longrightarrow> d' \<noteq> [] \<Longrightarrow> d \<noteq> [] \<and> last d' = last d"
  by (auto simp: calc_str_def calc_rstr_def calc_num_def outcome_simps need_data_Ok split: if_splits)

lemma calc_last:
  "(calc_ret_len f d sc = Ok (n, d', sc') \<longrightarrow> d' \<noteq> [] \<longrightarrow> d \<noteq> [] \<and> last d' = last d) \<and>
   (calc_array f d sc ret cnt = Ok (n, d', sc') \<longrightarrow> d' \<noteq> [] \<longrightarrow> d \<noteq> [] \<and> last d' = last d) \<and>
   (calc_hash f d sc ret cnt = Ok (n, d', sc') \<longrightarrow> d' \<noteq> [] \<longrightarrow> d \<noteq> [] \<and> last d' = last d)"
proof (induction f arbitrary: d sc n d' sc' ret cnt)
  case 0
  then show ?case by simp
next
  case (Suc f)
  note IH = Suc.IH [THEN conjunct1, rule_format] Suc.IH [THEN conjunct2, THEN conjunct1, rule_format]
    Suc.IH [THEN conjunct2, THEN conjunct2, rule_format]
  have 1: "d \<noteq> [] \<and> last d' = last d" if "calc_ret_len (Suc f) d sc = Ok (n, d', sc')" "d' \<noteq> []"
  proof (cases d)
    case Nil
    with that show ?thesis by (simp add: calc_step)
  next
    case (Cons t r)
    with that show ?thesis
      by (fastforce simp: calc_step need_data_Ok outcome_simps dest: calc_scalar_last IH split: if_splits)
  qed
  have 2: "d \<noteq> [] \<and> last d' = last d" if "calc_array (Suc f) d sc ret cnt = Ok (n, d', sc')" "d' \<noteq> []"
    using that by (fastforce simp: calc_step outcome_simps dest: IH split: list.splits if_splits)
  have 3: "d \<noteq> [] \<and> last d' = last d" if "calc_hash (Suc f) d sc ret cnt = Ok (n, d', sc')" "d' \<noteq> []"
    using that by (fastforce simp: calc_step outcome_simps dest: IH split: list.splits if_splits)
  from 1 2 3 show ?case by blast
qed

lemma calc_scalar_no_overread [simp]:
  "calc_str t d sc \<noteq> Overread" "calc_rstr t d sc \<noteq> Overread" "calc_num t d sc \<noteq> Overread"
  by (auto simp: calc_str_def calc_rstr_def calc_num_def outcome_simps split: if_splits)

definition container_tag :: "u8 \<Rightarrow> bool" where
  "container_tag t \<longleftrightarrow> unat t = RPARAM_ARRAY \<or> unat t = RPARAM_HASH"

text \<open>The check before each further element makes an over-read possible only right after a tag.\<close>

lemma calc_overread:
  "(calc_ret_len f d sc = Overread \<longrightarrow> d \<noteq> [] \<and> container_tag (last d)) \<and>
   (calc_array f d sc ret cnt = Overread \<longrightarrow> d \<noteq> [] \<longrightarrow> container_tag (last d)) \<and>
   (calc_hash f d sc ret cnt = Overread \<longrightarrow> d \<noteq> [] \<longrightarrow> container_tag (last d))"
proof (induction f arbitrary: d sc ret cnt)
  case 0
  then show ?case by simp
next
  case (Suc f)
  note IH = Suc.IH [THEN conjunct1, rule_format] Suc.IH [THEN conjunct2, THEN conjunct1, rule_format]
    Suc.IH [THEN conjunct2, THEN conjunct2, rule_format]
  note L = calc_last [THEN conjunct1, rule_format]
  have 1: "d \<noteq> [] \<and> container_tag (last d)" if "calc_ret_len (Suc f) d sc = Overread"
  proof (cases d)
    case Nil
    with that show ?thesis by (simp add: calc_step)
  next
    case (Cons t r)
    with that have "container_tag t \<and> (r \<noteq> [] \<longrightarrow> container_tag (last r))"
      by (auto simp: calc_step outcome_simps container_tag_def [of t] dest: IH split: if_splits)
    with Cons show ?thesis by simp
  qed
  have 2: "container_tag (last d)" if "calc_array (Suc f) d sc ret cnt = Overread" "d \<noteq> []"
  proof -
    from that consider "calc_ret_len f d sc = Overread"
      | r d1 sc1 where "calc_ret_len f d sc = Ok (r, d1, sc1)" "d1 \<noteq> []"
          "calc_array f d1 sc1 (ret + r) (cnt + 1) = Overread"
      by (auto simp: calc_step outcome_simps split: list.splits if_splits)
    then show ?thesis by cases (use IH L in \<open>fastforce+\<close>)
  qed
  have 3: "container_tag (last d)" if "calc_hash (Suc f) d sc ret cnt = Overread" "d \<noteq> []"
  proof -
    from that consider "calc_ret_len f d sc = Overread"
      | r d1 sc1 where "calc_ret_len f d sc = Ok (r, d1, sc1)" "calc_ret_len f d1 sc1 = Overread"
      | r d1 sc1 r' d2 sc2 where "calc_ret_len f d sc = Ok (r, d1, sc1)"
          "calc_ret_len f d1 sc1 = Ok (r', d2, sc2)" "d2 \<noteq> []"
          "calc_hash f d2 sc2 (ret + r + r') (cnt + 1) = Overread"
      by (auto simp: calc_step outcome_simps split: list.splits if_splits)
    then show ?thesis
    proof cases
      case 3
      with L have "d1 \<noteq> [] \<and> last d2 = last d1" by blast
      moreover from this 3 L have "last d1 = last d" by blast
      moreover from 3 IH have "container_tag (last d2)" by blast
      ultimately show ?thesis by simp
    qed (use IH L in \<open>fastforce+\<close>)
  qed
  from 1 2 3 show ?case by blast
qed

lemmas tag_defs = is_short_str_def is_str_tag_def is_long_rstr_def is_rstr_tag_def is_num_tag_def
  is_small_num_def

text \<open>
  Which messages these are: an array or hash is begun, some values in it are read, and either there is no
  byte left right after its tag, or a value begins in it for which the same holds. \<open>values_read sc d sc' d'\<close>
  says that the checking pass reads values one after the other from \<open>d\<close>, with \<open>sc\<close> strings before, and
  comes to \<open>d'\<close>.
\<close>

inductive values_read :: "nat \<Rightarrow> u8 list \<Rightarrow> nat \<Rightarrow> u8 list \<Rightarrow> bool" where
  no_value: "values_read sc d sc d"
| one_value: "calc_ret_len f d sc = Ok (n, d1, sc1) \<Longrightarrow> values_read sc1 d1 sc' d' \<Longrightarrow> values_read sc d sc' d'"

inductive cut_open :: "nat \<Rightarrow> u8 list \<Rightarrow> bool" where
  cut_at_tag: "container_tag t \<Longrightarrow> cut_open sc [t]"
| cut_inside: "container_tag t \<Longrightarrow> values_read sc d sc' d' \<Longrightarrow> cut_open sc' d' \<Longrightarrow> cut_open sc (t # d)"

lemma overread_cut:
  "(calc_ret_len f d sc = Overread \<longrightarrow> cut_open sc d) \<and>
   (calc_array f d sc ret cnt = Overread \<longrightarrow> d \<noteq> [] \<longrightarrow> (\<exists>sc' d'. values_read sc d sc' d' \<and> cut_open sc' d')) \<and>
   (calc_hash f d sc ret cnt = Overread \<longrightarrow> d \<noteq> [] \<longrightarrow> (\<exists>sc' d'. values_read sc d sc' d' \<and> cut_open sc' d'))"
proof (induction f arbitrary: d sc ret cnt)
  case 0
  then show ?case by simp
next
  case (Suc f)
  note IH = Suc.IH [THEN conjunct1, rule_format] Suc.IH [THEN conjunct2, THEN conjunct1, rule_format]
    Suc.IH [THEN conjunct2, THEN conjunct2, rule_format]
  have 1: "cut_open sc d" if "calc_ret_len (Suc f) d sc = Overread"
  proof (cases d)
    case Nil
    with that show ?thesis by (simp add: calc_step)
  next
    case (Cons t r)
    with that have "container_tag t \<and> (r \<noteq> [] \<longrightarrow> (\<exists>sc' d'. values_read sc r sc' d' \<and> cut_open sc' d'))"
      by (auto simp: calc_step outcome_simps container_tag_def [of t] dest: IH split: if_splits)
    then show ?thesis using Cons by (cases "r = []") (auto intro: cut_open.intros)
  qed
  have 2: "\<exists>sc' d'. values_read sc d sc' d' \<and> cut_open sc' d'" if "calc_array (Suc f) d sc ret cnt = Overread" "d \<noteq> []"
  proof -
    from that consider "calc_ret_len f d sc = Overread"
      | r d1 sc1 where "calc_ret_len f d sc = Ok (r, d1, sc1)" "d1 \<noteq> []"
          "calc_array f d1 sc1 (ret + r) (cnt + 1) = Overread"
      by (auto simp: calc_step outcome_simps split: list.splits if_splits)
    then show ?thesis by cases (blast dest: IH intro: no_value one_value)+
  qed
  have 3: "\<exists>sc' d'. values_read sc d sc' d' \<and> cut_open sc' d'" if "calc_hash (Suc f) d sc ret cnt = Overread" "d \<noteq> []"
  proof -
    from that consider "calc_ret_len f d sc = Overread"
      | r d1 sc1 where "calc_ret_len f d sc = Ok (r, d1, sc1)" "calc_ret_len f d1 sc1 = Overread"
      | r d1 sc1 r' d2 sc2 where "calc_ret_len f d sc = Ok (r, d1, sc1)"
          "calc_ret_len f d1 sc1 = Ok (r', d2, sc2)" "d2 \<noteq> []"
          "calc_hash f d2 sc2 (ret + r + r') (cnt + 1) = Overread"
      by (auto simp: calc_step outcome_simps split: list.splits if_splits)
    then show ?thesis by cases (blast dest: IH intro: no_value one_value)+
  qed
  from 1 2 3 show ?case by blast
qed

text \<open>More fuel does not change the result.\<close>

lemma calc_more_fuel:
  "(calc_ret_len f d sc \<noteq> NoFuel \<longrightarrow> calc_ret_len (Suc f) d sc = calc_ret_len f d sc) \<and>
   (calc_array f d sc ret cnt \<noteq> NoFuel \<longrightarrow> calc_array (Suc f) d sc ret cnt = calc_array f d sc ret cnt) \<and>
   (calc_hash f d sc ret cnt \<noteq> NoFuel \<longrightarrow> calc_hash (Suc f) d sc ret cnt = calc_hash f d sc ret cnt)"
proof (induction f arbitrary: d sc ret cnt)
  case 0
  then show ?case by simp
next
  case (Suc f)
  have R: "calc_ret_len (Suc f) d sc = calc_ret_len f d sc" if "calc_ret_len f d sc \<noteq> NoFuel" for d sc
    using Suc.IH that by blast
  have A: "calc_array (Suc f) d sc ret cnt = calc_array f d sc ret cnt" if "calc_array f d sc ret cnt \<noteq> NoFuel" for d sc ret cnt
    using Suc.IH that by blast
  have H: "calc_hash (Suc f) d sc ret cnt = calc_hash f d sc ret cnt" if "calc_hash f d sc ret cnt \<noteq> NoFuel" for d sc ret cnt
    using Suc.IH that by blast
  have 1: "calc_ret_len (Suc (Suc f)) d sc = calc_ret_len (Suc f) d sc" if "calc_ret_len (Suc f) d sc \<noteq> NoFuel"
    using that by (cases d) (auto simp: calc_ret_len_Nil calc_ret_len_Cons [of "Suc f"] calc_ret_len_Cons [of f] A H)
  have 2: "calc_array (Suc (Suc f)) d sc ret cnt = calc_array (Suc f) d sc ret cnt" if "calc_array (Suc f) d sc ret cnt \<noteq> NoFuel"
  proof (cases "d = [] \<or> hd d = RPARAM_END")
    case False
    then have n: "calc_ret_len f d sc \<noteq> NoFuel"
      using that by (auto simp: calc_array.simps(2) [of f] neq_Nil_conv)
    have u: "calc_array (Suc h) d sc ret cnt = bindo (calc_ret_len h d sc) (\<lambda>(r, d, sc).
        if length d < 1 then Fail else calc_array h d sc (ret + r) (cnt + 1))" for h
      using False by (cases d) (auto simp: calc_array.simps(2))
    show ?thesis
      using that R [OF n] unfolding u [of f] u [of "Suc f"] by (cases "calc_ret_len f d sc") (auto simp: A)
  qed (auto simp: calc_array.simps(2) split: list.split)
  have 3: "calc_hash (Suc (Suc f)) d sc ret cnt = calc_hash (Suc f) d sc ret cnt" if "calc_hash (Suc f) d sc ret cnt \<noteq> NoFuel"
  proof (cases "d = [] \<or> hd d = RPARAM_END")
    case False
    have u: "calc_hash (Suc h) d sc ret cnt = bindo (calc_ret_len h d sc) (\<lambda>(r, d, sc).
        bindo (calc_ret_len h d sc) (\<lambda>(r', d, sc).
        if length d < 1 then Fail else calc_hash h d sc (ret + r + r') (cnt + 1)))" for h
      using False by (cases d) (auto simp: calc_hash.simps(2))
    show ?thesis
    proof (cases "calc_ret_len f d sc")
      case (Ok x)
      obtain r d1 sc1 where x: "x = (r, d1, sc1)" by (cases x)
      have n: "calc_ret_len f d sc \<noteq> NoFuel" "calc_ret_len f d1 sc1 \<noteq> NoFuel"
        using that Ok x by (auto simp: u [of f])
      show ?thesis
        using that R [OF n(1)] R [OF n(2)] Ok x unfolding u [of f] u [of "Suc f"]
        by (cases "calc_ret_len f d1 sc1") (auto simp: H)
    qed (use that R [of d sc] in \<open>simp_all add: u [of f] u [of "Suc f"]\<close>)
  qed (auto simp: calc_hash.simps(2) split: list.split)
  from 1 2 3 show ?case by blast
qed

lemma calc_enough_fuel: "f \<le> g \<Longrightarrow> calc_ret_len f d sc \<noteq> NoFuel \<Longrightarrow> calc_ret_len g d sc = calc_ret_len f d sc"
  by (induction g rule: dec_induct) (auto simp: calc_more_fuel)

text \<open>Reading values up to where a container is cut open, in an array, and in a hash at a key or a value.\<close>

lemma values_overread:
  assumes "values_read sc d sc' d'" "d' \<noteq> []" "hd d' \<noteq> RPARAM_END" "\<forall>f\<ge>F. calc_ret_len f d' sc' = Overread"
  shows "\<exists>G. \<forall>f\<ge>G. (\<forall>ret cnt. calc_array f d sc ret cnt = Overread \<and> calc_hash f d sc ret cnt = Overread) \<and>
    (calc_ret_len f d sc = Overread \<or> (\<exists>r d1 sc1. calc_ret_len f d sc = Ok (r, d1, sc1) \<and> d1 \<noteq> []
       \<and> (\<forall>ret cnt. calc_hash f d1 sc1 ret cnt = Overread)))"
  using assms
proof (induction rule: values_read.induct)
  case (no_value sc d)
  have "(\<forall>ret cnt. calc_array f d sc ret cnt = Overread \<and> calc_hash f d sc ret cnt = Overread) \<and> calc_ret_len f d sc = Overread"
    if "Suc F \<le> f" for f
    using that no_value by (cases f) (auto simp: calc_array.simps(2) calc_hash.simps(2) neq_Nil_conv)
  then show ?case by blast
next
  case (one_value f d sc n d1 sc1 sc' d')
  then obtain G where G: "\<And>h. G \<le> h \<Longrightarrow> (\<forall>ret cnt. calc_array h d1 sc1 ret cnt = Overread \<and> calc_hash h d1 sc1 ret cnt = Overread) \<and>
    (calc_ret_len h d1 sc1 = Overread \<or> (\<exists>r d2 sc2. calc_ret_len h d1 sc1 = Ok (r, d2, sc2) \<and> d2 \<noteq> []
       \<and> (\<forall>ret cnt. calc_hash h d2 sc2 ret cnt = Overread)))" by blast
  have d: "d \<noteq> []" "hd d \<noteq> RPARAM_END"
    using one_value(1) by (cases f; cases d; auto simp: calc_step tag_defs)+
  have d1: "d1 \<noteq> []"
  proof
    assume "d1 = []"
    then have "calc_ret_len h d1 sc1 = Fail \<or> calc_ret_len h d1 sc1 = NoFuel" for h by (cases h) (auto simp: calc_step)
    then have "calc_ret_len G d1 sc1 = Fail \<or> calc_ret_len G d1 sc1 = NoFuel" by blast
    then show False using G [of G] by auto
  qed
  have "(\<forall>ret cnt. calc_array h d sc ret cnt = Overread \<and> calc_hash h d sc ret cnt = Overread) \<and>
    (calc_ret_len h d sc = Overread \<or> (\<exists>r d1 sc1. calc_ret_len h d sc = Ok (r, d1, sc1) \<and> d1 \<noteq> []
       \<and> (\<forall>ret cnt. calc_hash h d1 sc1 ret cnt = Overread)))" if h: "Suc (f + G) \<le> h" for h
  proof -
    obtain k where k: "h = Suc k" "f \<le> k" "G \<le> k" "G \<le> h" "f \<le> h" using h by (cases h) auto
    have c: "calc_ret_len k d sc = Ok (n, d1, sc1)" "calc_ret_len h d sc = Ok (n, d1, sc1)"
      using calc_enough_fuel [of f _ d sc] one_value(1) k by simp_all
    have a: "calc_array h d sc ret cnt = Overread" "calc_hash h d sc ret cnt = Overread" for ret cnt
      using d d1 c(1) G [OF k(3)] k(1) by (auto simp: calc_array.simps(2) calc_hash.simps(2) neq_Nil_conv)
    show ?thesis using a c(2) d1 G [OF k(4)] by blast
  qed
  then show ?case by blast
qed

lemma cut_overread: "cut_open sc d \<Longrightarrow> \<exists>F. \<forall>f\<ge>F. calc_ret_len f d sc = Overread"
proof (induction rule: cut_open.induct)
  case (cut_at_tag t sc)
  have "calc_ret_len f [t] sc = Overread" if f: "2 \<le> f" for f
  proof -
    obtain k where "f = Suc (Suc k)" using f by (metis add_2_eq_Suc le_Suc_ex)
    then show ?thesis using cut_at_tag by (auto simp: calc_step container_tag_def tag_defs)
  qed
  then show ?case by blast
next
  case (cut_inside t sc d sc' d')
  then obtain F where F: "\<forall>f\<ge>F. calc_ret_len f d' sc' = Overread" by blast
  from cut_inside(3) have "d' \<noteq> [] \<and> hd d' \<noteq> RPARAM_END" by cases (auto simp: container_tag_def)
  then obtain G where G: "\<And>f. G \<le> f \<Longrightarrow> (\<forall>ret cnt. calc_array f d sc ret cnt = Overread \<and> calc_hash f d sc ret cnt = Overread)"
    using values_overread [OF cut_inside(2) _ _ F] by (metis (no_types, lifting))
  have "calc_ret_len f (t # d) sc = Overread" if "Suc G \<le> f" for f
    using that G cut_inside(1) by (cases f) (auto simp: calc_ret_len_Cons container_tag_def tag_defs)
  then show ?case by blast
qed

section \<open>A reference encoder\<close>

text \<open>
  What a server sends for a value, choosing the short forms the protocol has for strings of at most
  49 bytes and numbers below 20.
\<close>

definition encode_str :: "u8 list \<Rightarrow> u8 list" where
  "encode_str s = (if length s < VSHORT_STR_LEN then of_nat (RPARAM_SHORT_STR_BASE + length s) # s
                   else of_nat RPARAM_STR4 # le_store 4 (length s) @ s)"

definition encode_num :: "nat \<Rightarrow> u8 list" where
  "encode_num n = (if n < VSMALL_NUMBER_NUM then [of_nat (RPARAM_SMALL_NUM_BASE + n)]
                   else of_nat RPARAM_NUM8 # le_store 8 n)"

fun encode :: "binresult \<Rightarrow> u8 list" where
  "encode (PStr s) = encode_str s"
| "encode (PNum n) = encode_num n"
| "encode (PBool b) = [of_nat (if b then RPARAM_BTRUE else RPARAM_BFALSE)]"
| "encode (PArray vs) = of_nat RPARAM_ARRAY # concat (map encode vs) @ [RPARAM_END]"
| "encode (PHash ps) =
     of_nat RPARAM_HASH # concat (map (\<lambda>p. encode_str (fst p) @ encode (snd p)) ps) @ [RPARAM_END]"
| "encode (PData n) = of_nat RPARAM_DATA # le_store 8 n"

text \<open>The values the wire format has room for.\<close>

fun encodable :: "binresult \<Rightarrow> bool" where
  "encodable (PStr s) = (length s < 2 ^ 32)"
| "encodable (PNum n) = (n < 2 ^ 64)"
| "encodable (PBool b) = True"
| "encodable (PArray vs) = list_all encodable vs"
| "encodable (PHash ps) = list_all (\<lambda>p. length (fst p) < 2 ^ 32 \<and> encodable (snd p)) ps"
| "encodable (PData n) = (n < 2 ^ 64)"

lemma encode_str_parse:
  assumes "length s < 2 ^ 32"
  shows "\<exists>n. calc_ret_len (Suc f) (encode_str s @ r) sc = Ok (n, r, sc + 1) \<and>
     do_parse_result (Suc f) (encode_str s @ r) odata ss = Ok (PStr s, r, odata + n, ss @ [s])"
proof (cases "length s < 50")
  case True
  then have "unat (of_nat (100 + length s) :: u8) = 100 + length s"
    by (simp only: unat_of_nat_u8) simp
  with True show ?thesis
    by (simp add: encode_str_def calc_step parse_step tag_defs calc_str_def parse_str_def need_data_def rd_def
        outcome_simps)
next
  case False
  with assms show ?thesis
    by (simp add: encode_str_def calc_step parse_step tag_defs calc_str_def parse_str_def need_data_def rd_def
        outcome_simps le_load_store)
qed

definition decodes :: "u8 list \<Rightarrow> binresult \<Rightarrow> bool" where
  "decodes e v \<longleftrightarrow> e \<noteq> [] \<and> hd e \<noteq> RPARAM_END \<and>
     (\<forall>f r odata ss. 2 * length e \<le> f \<longrightarrow>
       (\<exists>n ss' o'. calc_ret_len f (e @ r) (length ss) = Ok (n, r, length ss') \<and>
                   do_parse_result f (e @ r) odata ss = Ok (v, r, o', ss')))"

lemma decodesD:
  assumes "decodes e v" "2 * length e \<le> f"
  obtains n ss' o' where "calc_ret_len f (e @ r) (length ss) = Ok (n, r, length ss')"
    and "do_parse_result f (e @ r) odata ss = Ok (v, r, o', ss')"
  using assms unfolding decodes_def by blast

lemma decodesI:
  assumes "\<And>f r odata ss. length es \<le> f \<Longrightarrow>
     (\<exists>n ss' o'. calc_ret_len (Suc f) (t # es @ r) (length ss) = Ok (n, r, length ss') \<and>
                 do_parse_result (Suc f) (t # es @ r) odata ss = Ok (v, r, o', ss'))"
    and "t \<noteq> RPARAM_END"
  shows "decodes (t # es) v"
  unfolding decodes_def
proof (intro conjI allI impI)
  fix f r odata ss
  assume "2 * length (t # es) \<le> f"
  then obtain g where "f = Suc g" "length es \<le> g" by (cases f) auto
  with assms(1) [of g r ss odata]
  show "\<exists>n ss' o'. calc_ret_len f ((t # es) @ r) (length ss) = Ok (n, r, length ss') \<and>
          do_parse_result f ((t # es) @ r) odata ss = Ok (v, r, o', ss')"
    by simp
qed (use assms(2) in auto)

lemma decodes_str: "length s < 2 ^ 32 \<Longrightarrow> decodes (encode_str s) (PStr s)"
proof -
  assume len: "length s < 2 ^ 32"
  have hd: "encode_str s \<noteq> [] \<and> hd (encode_str s) \<noteq> RPARAM_END"
  proof -
    have "(of_nat (100 + length s) :: u8) \<noteq> 255" if "length s < 50"
    proof
      assume "(of_nat (100 + length s) :: u8) = 255"
      then have "unat (of_nat (100 + length s) :: u8) = 255" by simp
      with that show False by (simp only: unat_of_nat_u8)
    qed
    then show ?thesis by (simp add: encode_str_def)
  qed
  show ?thesis
    unfolding decodes_def
  proof (intro conjI allI impI)
    fix f r odata and ss :: "u8 list list"
    assume "2 * length (encode_str s) \<le> f"
    with hd obtain g where "f = Suc g" by (cases f) auto
    with encode_str_parse [OF len, of g r "length ss" odata ss]
    show "\<exists>n ss' o'. calc_ret_len f (encode_str s @ r) (length ss) = Ok (n, r, length ss') \<and>
            do_parse_result f (encode_str s @ r) odata ss = Ok (PStr s, r, o', ss')"
      by (metis length_append_singleton Suc_eq_plus1)
  qed (use hd in auto)
qed

lemma decodes_num: "n < 2 ^ 64 \<Longrightarrow> decodes (encode_num n) (PNum n)"
proof -
  assume n: "n < 2 ^ 64"
  show ?thesis
  proof (cases "n < 20")
    case True
    then have u: "unat (of_nat (200 + n) :: u8) = 200 + n"
      by (simp only: unat_of_nat_u8) simp
    then have "(of_nat (200 + n) :: u8) \<noteq> 255" using True by auto
    with True u show ?thesis
      unfolding encode_num_def
      by (simp del: of_nat_add) (rule decodesI; simp add: calc_step parse_step tag_defs del: of_nat_add)
  next
    case False
    have "decodes (15 # le_store 8 n) (PNum n)"
      using n
      by (intro decodesI) (simp_all add: calc_step parse_step tag_defs calc_num_def parse_num_def
        need_data_def rd_def le_load_store)
    with False show ?thesis by (simp add: encode_num_def)
  qed
qed

lemma decodes_data: "n < 2 ^ 64 \<Longrightarrow> decodes (of_nat RPARAM_DATA # le_store 8 n) (PData n)"
  by (rule decodesI) (simp_all add: calc_step parse_step tag_defs need_data_def rd_def le_load_store)

lemma decodes_bool: "decodes [of_nat (if b then RPARAM_BTRUE else RPARAM_BFALSE)] (PBool b)"
  by (rule decodesI) (simp_all add: calc_step parse_step tag_defs)

lemma decodes_nonempty: "decodes e v \<Longrightarrow> \<exists>t es. e = t # es \<and> t \<noteq> RPARAM_END"
  unfolding decodes_def by (cases e) auto

lemma decodes_array_loop:
  assumes "\<And>v. v \<in> set vs \<Longrightarrow> decodes (encode v) v"
    and "2 * length (concat (map encode vs)) + 1 \<le> f"
  shows "\<exists>n ss' o'.
     calc_array f (concat (map encode vs) @ RPARAM_END # r) (length ss) ret cnt = Ok (n, r, length ss') \<and>
     parse_array f (concat (map encode vs) @ RPARAM_END # r) odata ss arr = Ok (arr @ vs, r, o', ss')"
  using assms
proof (induction vs arbitrary: f ss ret cnt odata arr)
  case Nil
  then obtain g where "f = Suc g" by (cases f) auto
  then show ?case by (simp add: calc_step parse_step)
next
  case (Cons v vs)
  let ?rest = "concat (map encode vs) @ RPARAM_END # r"
  from Cons.prems(1) have v: "decodes (encode v) v" by simp
  from decodes_nonempty [OF this] obtain t es where t: "encode v = t # es" "t \<noteq> RPARAM_END" by blast
  from Cons.prems(2) t obtain g where g: "f = Suc g" "2 * length (encode v) \<le> g"
    "2 * length (concat (map encode vs)) + 1 \<le> g" by (cases f) auto
  from decodesD [OF v g(2), of ?rest ss odata] obtain n1 ss1 o1 where
    1: "calc_ret_len g (encode v @ ?rest) (length ss) = Ok (n1, ?rest, length ss1)"
       "do_parse_result g (encode v @ ?rest) odata ss = Ok (v, ?rest, o1, ss1)" by blast
  from Cons.IH [OF _ g(3), of ss1 "ret + n1" "cnt + 1" o1 "arr @ [v]"] Cons.prems(1)
  obtain n ss' o' where
    2: "calc_array g ?rest (length ss1) (ret + n1) (cnt + 1) = Ok (n, r, length ss')"
       "parse_array g ?rest o1 ss1 (arr @ [v]) = Ok ((arr @ [v]) @ vs, r, o', ss')" by auto
  with 1 t g(1) show ?case by (simp add: calc_step parse_step)
qed

lemma decodes_hash_loop:
  assumes "\<And>p. p \<in> set ps \<Longrightarrow> length (fst p) < 2 ^ 32 \<and> decodes (encode (snd p)) (snd p)"
    and "2 * length (concat (map (\<lambda>p. encode_str (fst p) @ encode (snd p)) ps)) + 1 \<le> f"
  shows "\<exists>n ss' o'.
     calc_hash f (concat (map (\<lambda>p. encode_str (fst p) @ encode (snd p)) ps) @ RPARAM_END # r)
       (length ss) ret cnt = Ok (n, r, length ss') \<and>
     parse_hash f (concat (map (\<lambda>p. encode_str (fst p) @ encode (snd p)) ps) @ RPARAM_END # r)
       odata ss arr = Ok (arr @ ps, r, o', ss')"
  using assms
proof (induction ps arbitrary: f ss ret cnt odata arr)
  case Nil
  then obtain g where "f = Suc g" by (cases f) auto
  then show ?case by (simp add: calc_step parse_step)
next
  case (Cons p ps)
  let ?rest = "concat (map (\<lambda>p. encode_str (fst p) @ encode (snd p)) ps) @ RPARAM_END # r"
  obtain k v where p: "p = (k, v)" by (cases p)
  from Cons.prems(1) [of p] p have k: "decodes (encode_str k) (PStr k)" and v: "decodes (encode v) v"
    by (auto intro: decodes_str)
  from decodes_nonempty [OF k] obtain t es where t: "encode_str k = t # es" "t \<noteq> RPARAM_END" by blast
  from Cons.prems(2) t p obtain g where g: "f = Suc g" "2 * length (encode_str k) \<le> g"
    "2 * length (encode v) \<le> g"
    "2 * length (concat (map (\<lambda>p. encode_str (fst p) @ encode (snd p)) ps)) + 1 \<le> g"
    by (cases f) auto
  from decodesD [OF k g(2), of "encode v @ ?rest" ss odata] obtain n1 ss1 o1 where
    1: "calc_ret_len g (encode_str k @ encode v @ ?rest) (length ss) = Ok (n1, encode v @ ?rest, length ss1)"
       "do_parse_result g (encode_str k @ encode v @ ?rest) odata ss = Ok (PStr k, encode v @ ?rest, o1, ss1)"
    by blast
  from decodesD [OF v g(3), of ?rest ss1 o1] obtain n2 ss2 o2 where
    2: "calc_ret_len g (encode v @ ?rest) (length ss1) = Ok (n2, ?rest, length ss2)"
       "do_parse_result g (encode v @ ?rest) o1 ss1 = Ok (v, ?rest, o2, ss2)" by blast
  from Cons.IH [OF _ g(4), of ss2 "ret + n1 + n2" "cnt + 1" o2 "arr @ [(k, v)]"] Cons.prems(1)
  obtain n ss' o' where
    3: "calc_hash g ?rest (length ss2) (ret + n1 + n2) (cnt + 1) = Ok (n, r, length ss')"
       "parse_hash g ?rest o2 ss2 (arr @ [(k, v)]) = Ok ((arr @ [(k, v)]) @ ps, r, o', ss')" by auto
  with 1 2 t g(1) p show ?case by (simp add: calc_step parse_step)
qed

lemma decodes_encode: "encodable v \<Longrightarrow> decodes (encode v) v"
proof (induction v)
  case (PArray vs)
  then have "\<And>v. v \<in> set vs \<Longrightarrow> decodes (encode v) v"
    by (simp add: list_all_iff)
  note L = decodes_array_loop [OF this]
  have "decodes (17 # concat (map encode vs) @ [255]) (PArray vs)"
    unfolding decodes_def
  proof (intro conjI allI impI)
    fix f r odata and ss :: "u8 list list"
    assume "2 * length (17 # concat (map encode vs) @ [255 :: u8]) \<le> f"
    then obtain g where g: "f = Suc g" "2 * length (concat (map encode vs)) + 1 \<le> g" by (cases f) auto
    from L [OF _ g(2), of r ss 16 0 "odata + 16" "[]"]
    show "\<exists>n ss' o'. calc_ret_len f ((17 # concat (map encode vs) @ [255]) @ r) (length ss) = Ok (n, r, length ss') \<and>
            do_parse_result f ((17 # concat (map encode vs) @ [255]) @ r) odata ss = Ok (PArray vs, r, o', ss')"
      by (auto simp: g(1) calc_step parse_step tag_defs)
  qed auto
  then show ?case by simp
next
  case (PHash ps)
  then have "\<And>p. p \<in> set ps \<Longrightarrow> length (fst p) < 2 ^ 32 \<and> decodes (encode (snd p)) (snd p)"
    by (fastforce simp: list_all_iff)
  note L = decodes_hash_loop [OF this]
  let ?c = "concat (map (\<lambda>p. encode_str (fst p) @ encode (snd p)) ps)"
  have "decodes (16 # ?c @ [255]) (PHash ps)"
    unfolding decodes_def
  proof (intro conjI allI impI)
    fix f r odata and ss :: "u8 list list"
    assume "2 * length (16 # ?c @ [255 :: u8]) \<le> f"
    then obtain g where g: "f = Suc g" "2 * length ?c + 1 \<le> g" by (cases f) auto
    from L [OF _ g(2), of r ss 16 0 "odata + 16" "[]"]
    show "\<exists>n ss' o'. calc_ret_len f ((16 # ?c @ [255]) @ r) (length ss) = Ok (n, r, length ss') \<and>
            do_parse_result f ((16 # ?c @ [255]) @ r) odata ss = Ok (PHash ps, r, o', ss')"
      by (auto simp: g(1) calc_step parse_step tag_defs)
  qed auto
  then show ?case by simp
qed (use decodes_str decodes_num decodes_bool decodes_data in \<open>simp_all\<close>)

section \<open>Properties\<close>

lemma calc_api_fuel: "calc_ret_len (api_fuel d) d sc \<noteq> NoFuel"
  by (rule calc_fuel [THEN conjunct1, rule_format]) (auto simp: api_fuel_def)

lemma parse_result_Ok_iff:
  "parse_result data = Ok (v, odata, retlen) \<longleftrightarrow>
     (\<exists>rest strcnt rest' strings. calc_ret_len (api_fuel data) data 0 = Ok (retlen, rest, strcnt) \<and>
        do_parse_result (api_fuel data) data 0 [] = Ok (v, rest', odata, strings))"
  by (auto simp: parse_result_def outcome_simps)

lemma parse_result_pass1:
  assumes "calc_ret_len (api_fuel data) data 0 = Ok (retlen, rest, strcnt)"
  shows "\<exists>v odata strings. do_parse_result (api_fuel data) data 0 [] = Ok (v, rest, odata, strings) \<and>
     odata \<le> retlen \<and> length strings = strcnt"
  using passes_agree [THEN conjunct1, rule_format, of "api_fuel data" data "[]" retlen rest strcnt 0] assms
  by auto

lemma res_type_empty [simp]: "res_type (empty_types t) = t"
  by (cases t) auto

lemma parse_result_pass2:
  assumes "calc_ret_len (api_fuel data) data 0 = Ok (retlen, rest, strcnt)"
  obtains v odata strings where "do_parse_result (api_fuel data) data 0 [] = Ok (v, rest, odata, strings)"
    "odata \<le> retlen" "length strings = strcnt" "parse_result data = Ok (v, odata, retlen)"
  using parse_result_pass1 [OF assms] assms by (fastforce simp: parse_result_Ok_iff)

text \<open>
  C1. Memory safety of the two-pass parser: whenever the checking pass accepts a message, the unchecked
  pass succeeds on it. It never reads past the message or the string table, it stores exactly the number
  of strings that the table was allocated for, it stops at the same byte, and it ends inside the
  buffer that the first pass sized.
\<close>

theorem parse_result_memory_safe:
  assumes "calc_ret_len (api_fuel data) data 0 = Ok (retlen, rest, strcnt)"
  shows "\<exists>v odata strings. do_parse_result (api_fuel data) data 0 [] = Ok (v, rest, odata, strings) \<and>
     odata \<le> retlen \<and> length strings = strcnt \<and> parse_result data = Ok (v, odata, retlen)"
  using parse_result_pass2 [OF assms] by metis

theorem parse_result_memory_safe_witness:
  "\<exists>v odata strings. do_parse_result (api_fuel [16, 101, 97, 201, 255]) [16, 101, 97, 201, 255] 0 [] =
      Ok (v, [], odata, strings) \<and> odata \<le> 48 \<and> length strings = 1 \<and>
      parse_result [16, 101, 97, 201, 255] = Ok (v, odata, 48)"
proof -
  have "calc_ret_len (api_fuel [16, 101, 97, 201, 255]) [16, 101, 97, 201, 255] 0 = Ok (48, [], 1)"
    by code_simp
  from parse_result_memory_safe [OF this] show ?thesis .
qed

text \<open>
  C2. Round trip: every value that fits the wire format (strings below 4 GB, 64-bit numbers), at any
  nesting, sent in the server's encoding and followed by anything, is parsed back as that value.
\<close>

theorem parse_result_encode:
  assumes "encodable v"
  shows "\<exists>odata retlen. parse_result (encode v @ r) = Ok (v, odata, retlen)"
proof -
  have "2 * length (encode v) \<le> api_fuel (encode v @ r)" by (simp add: api_fuel_def)
  from decodesD [OF decodes_encode [OF assms] this, of r "[]" 0] obtain n ss' o' where
    "calc_ret_len (api_fuel (encode v @ r)) (encode v @ r) 0 = Ok (n, r, length ss')"
    "do_parse_result (api_fuel (encode v @ r)) (encode v @ r) 0 [] = Ok (v, r, o', ss')"
    by auto
  then show ?thesis by (auto simp: parse_result_Ok_iff)
qed

theorem parse_result_encode_witness:
  "\<exists>odata retlen. parse_result (encode (PHash [([97], PArray [PNum 7, PStr [98, 99]])]) @ [1, 2]) =
     Ok (PHash [([97], PArray [PNum 7, PStr [98, 99]])], odata, retlen)"
  by (rule parse_result_encode) simp

text \<open>
  C38. The over-read of the checking pass: the loop test of an array or hash reads a byte before checking
  that there is one. A message is read past its end exactly when it is cut right after the tag of an
  array or hash that the pass comes to as a value: at the start, or inside such containers after any number of
  values. In particular an over-read message ends in such a tag.
\<close>

theorem parse_result_overread:
  "(parse_result data = Overread \<longleftrightarrow> cut_open 0 data) \<and>
   (parse_result data = Overread \<longrightarrow> data \<noteq> [] \<and> container_tag (last data))"
proof -
  let ?c = "calc_ret_len (api_fuel data) data 0"
  have r: "parse_result data = Overread \<longleftrightarrow> ?c = Overread"
  proof
    assume over: "parse_result data = Overread"
    show "?c = Overread"
    proof (rule ccontr)
      assume "?c \<noteq> Overread"
      with over obtain retlen rest strcnt where "?c = Ok (retlen, rest, strcnt)"
        by (auto simp: parse_result_def outcome_simps)
      from parse_result_pass2 [OF this] over show False by auto
    qed
  qed (simp add: parse_result_def)
  have "cut_open 0 data \<Longrightarrow> ?c = Overread"
  proof -
    assume "cut_open 0 data"
    then obtain F where "\<forall>f\<ge>F. calc_ret_len f data 0 = Overread" using cut_overread by blast
    then have "calc_ret_len (F + api_fuel data) data 0 = Overread" by simp
    then show "?c = Overread"
      using calc_enough_fuel [of "api_fuel data" "F + api_fuel data" data 0] calc_api_fuel [of data 0] by simp
  qed
  then show ?thesis using r overread_cut calc_overread by blast
qed

theorem parse_result_overread_witness:
  "\<not> cut_open 0 [100, 17] \<and> cut_open 0 [16, 101, 97, 17] \<and> container_tag (last [16, 101, 97, 17])"
proof -
  have "parse_result [16, 101, 97, 17] = Overread" "parse_result [100, 17] \<noteq> Overread" by code_simp+
  with parse_result_overread [of "[16, 101, 97, 17]"] parse_result_overread [of "[100, 17]"] show ?thesis by blast
qed

text \<open>
  C39. Termination and size: the recursion ends for every message within fuel linear in its length,
  and the result of an \<open>n\<close>-byte message needs less than \<open>24 * n\<close> bytes.
\<close>

theorem parse_result_terminates:
  "parse_result data \<noteq> NoFuel \<and>
   (parse_result data = Ok (v, odata, retlen) \<longrightarrow> odata \<le> retlen \<and> retlen < 24 * length data)"
proof (intro conjI impI)
  show "parse_result data \<noteq> NoFuel"
  proof
    assume "parse_result data = NoFuel"
    with calc_api_fuel [of data 0] obtain retlen rest strcnt where
      "calc_ret_len (api_fuel data) data 0 = Ok (retlen, rest, strcnt)"
      by (auto simp: parse_result_def outcome_simps)
    from parse_result_pass2 [OF this] \<open>parse_result data = NoFuel\<close> show False by auto
  qed
next
  assume "parse_result data = Ok (v, odata, retlen)"
  then obtain rest strcnt where c: "calc_ret_len (api_fuel data) data 0 = Ok (retlen, rest, strcnt)"
    and "parse_result data = Ok (v, odata, retlen)"
    by (auto simp: parse_result_Ok_iff)
  with parse_result_pass2 [OF c] show "odata \<le> retlen" by auto
  from calc_bound [THEN conjunct1, rule_format, OF c] show "retlen < 24 * length data" by simp
qed

theorem parse_result_terminates_witness:
  "parse_result [16, 101, 97, 201, 255] = Ok (PHash [([97], PNum 1)], 48, 48) \<and> (48::nat) < 24 * 5"
proof -
  have p: "parse_result [16, 101, 97, 201, 255] = Ok (PHash [([97], PNum 1)], 48, 48)" by code_simp
  with parse_result_terminates [of "[16, 101, 97, 201, 255]" "PHash [([97], PNum 1)]" 48 48]
  show ?thesis by simp
qed

text \<open>
  Type safety of lookups: whatever the response (none, not a hash, key missing, wrong type),
  \<^verbatim>\<open>psync_find_result\<close> returns a value of the requested type, and it is the value at the first
  matching key exactly when that has the type; \<^verbatim>\<open>psync_check_result\<close> returns the same value or \<^verbatim>\<open>NULL\<close>.
\<close>

theorem find_result_type_safe:
  "res_type (psync_do_find_result res name type) = type \<and>
   psync_do_find_result res name type =
     (case psync_do_check_result res name type of Some v \<Rightarrow> v | None \<Rightarrow> empty_types type) \<and>
   psync_do_check_result res name type =
     (case psync_do_get_result res name of
        Some v \<Rightarrow> if res_type v = type then Some v else None | None \<Rightarrow> None)"
  by (auto simp: psync_do_find_result_def psync_do_check_result_def psync_do_get_result_def
      split: option.splits binresult.splits)

end
