(* ===== verification/ApiSend.thy ===== *)
theory ApiSend
  imports ApiParse
begin

text \<open>
  The request side and the framing of the API protocol (\<^verbatim>\<open>papi.c\<close>): \<^verbatim>\<open>do_prepare_command\<close> serialises a
  command into a freshly allocated buffer, \<^verbatim>\<open>get_result\<close> reads a length-prefixed response from a
  blocking socket, and \<^verbatim>\<open>get_result_async\<close> does the same as a resumable state machine over a
  non-blocking one. The socket is the environment: what its reads deliver is an argument.
\<close>

unbundle bit_operations_syntax

section \<open>Serialising a command\<close>

text \<open>
  \<^verbatim>\<open>binparam\<close>; \<^verbatim>\<open>paramnamelen\<close> and \<^verbatim>\<open>opts\<close> are the lengths of the name and of the string, as the macros
  \<^verbatim>\<open>P_STR\<close>, \<^verbatim>\<open>P_LSTR\<close>, \<^verbatim>\<open>P_NUM\<close> and \<^verbatim>\<open>P_BOOL\<close>, the only way parameters are built, set them.
\<close>

record binparam =
  paramtype :: nat
  paramname :: "u8 list"
  pnum :: nat
  pstr :: "u8 list"

abbreviation (input) "PARAM_STR_T \<equiv> 0 :: nat"
abbreviation (input) "PARAM_NUM_T \<equiv> 1 :: nat"
abbreviation (input) "PARAM_BOOL_T \<equiv> 2 :: nat"

definition param_plen :: "binparam \<Rightarrow> nat" where
  "param_plen p =
     (if paramtype p = PARAM_STR_T then length (paramname p) + length (pstr p) + 5
      else if paramtype p = PARAM_NUM_T then length (paramname p) + 1 + 8
      else if paramtype p = PARAM_BOOL_T then length (paramname p) + 2
      else 0)"

definition command_plen :: "u8 list \<Rightarrow> binparam list \<Rightarrow> int \<Rightarrow> nat" where
  "command_plen command params datalen =
     length command + 2 + (if datalen \<noteq> -1 then 8 else 0) + sum_list (map param_plen params)"

text \<open>The bytes that one iteration of the second loop stores.\<close>

definition param_bytes :: "binparam \<Rightarrow> u8 list" where
  "param_bytes p =
     of_nat (paramtype p * 2 ^ 6 + length (paramname p)) # paramname p @
     (if paramtype p = PARAM_STR_T then le_store 4 (length (pstr p)) @ pstr p
      else if paramtype p = PARAM_NUM_T then le_store 8 (pnum p)
      else if paramtype p = PARAM_BOOL_T then [of_nat (pnum p) AND 1]
      else [])"

text \<open>
  The buffer contents on success (the code allocates \<open>plen + 2\<close> bytes and the caller's extra space),
  with the value stored to \<^verbatim>\<open>*retlen\<close>; \<open>None\<close> is the \<^verbatim>\<open>NULL\<close> for a command that is too long.
\<close>

definition do_prepare_command ::
  "u8 list \<Rightarrow> binparam list \<Rightarrow> int \<Rightarrow> (u8 list \<times> nat) option" where
  "do_prepare_command command params datalen =
     (let plen = command_plen command params datalen in
      if plen > 0xffff then None
      else Some
        (le_store 2 plen @
         (if datalen \<noteq> -1
          then (of_nat (length command) OR 0x80) # le_store 8 (nat (datalen mod 2 ^ 64))
          else [of_nat (length command)]) @
         command @ [of_nat (length params)] @ concat (map param_bytes params),
         plen + 2))"

section \<open>What the server reads\<close>

text \<open>A decoder of the request format, the specification of the serialiser.\<close>

datatype arg = ArgStr "u8 list" "u8 list" | ArgNum "u8 list" nat | ArgBool "u8 list" bool

fun decode_args :: "nat \<Rightarrow> u8 list \<Rightarrow> arg list option" where
  "decode_args 0 d = (if d = [] then Some [] else None)"
| "decode_args (Suc n) [] = None"
| "decode_args (Suc n) (t # d) =
     (let type = unat t div 64; l = unat t mod 64; name = take l d; d = drop l d in
      if type = 0 then
        (let sl = le_load (take 4 d) in
         map_option ((#) (ArgStr name (take sl (drop 4 d)))) (decode_args n (drop sl (drop 4 d))))
      else if type = 1 then
        map_option ((#) (ArgNum name (le_load (take 8 d)))) (decode_args n (drop 8 d))
      else if type = 2 \<and> d \<noteq> [] then
        map_option ((#) (ArgBool name (hd d = 1))) (decode_args n (tl d))
      else None)"

definition decode_command :: "u8 list \<Rightarrow> (u8 list \<times> nat option \<times> arg list) option" where
  "decode_command d =
     (if length d < 3 \<or> length d \<noteq> le_load (take 2 d) + 2 then None
      else let d = drop 2 d; c = unat (hd d) mod 128;
        dl = (if unat (hd d) \<ge> 128 then Some (le_load (take 8 (tl d))) else None);
        d = (if unat (hd d) \<ge> 128 then drop 8 (tl d) else tl d)
      in if length d \<le> c then None
         else map_option (\<lambda>args. (take c d, dl, args))
                (decode_args (unat (d ! c)) (drop (Suc c) d)))"

definition arg_of :: "binparam \<Rightarrow> arg" where
  "arg_of p =
     (if paramtype p = PARAM_STR_T then ArgStr (paramname p) (pstr p)
      else if paramtype p = PARAM_NUM_T then ArgNum (paramname p) (pnum p)
      else ArgBool (paramname p) (odd (pnum p)))"

text \<open>The limits the format has: 6 bits for a name's length, 7 for the command's, a byte for the count.\<close>

definition param_ok :: "binparam \<Rightarrow> bool" where
  "param_ok p \<longleftrightarrow> paramtype p \<le> 2 \<and> length (paramname p) < 64 \<and>
     length (pstr p) < 2 ^ 32 \<and> pnum p < 2 ^ 64"

definition command_ok :: "u8 list \<Rightarrow> binparam list \<Rightarrow> int \<Rightarrow> bool" where
  "command_ok command params datalen \<longleftrightarrow>
     length command < 128 \<and> length params < 256 \<and> list_all param_ok params \<and>
     -1 \<le> datalen \<and> datalen < 2 ^ 63"

lemma length_param_bytes: "paramtype p \<le> 2 \<Longrightarrow> length (param_bytes p) = param_plen p"
  by (auto simp: param_bytes_def param_plen_def)

lemma length_concat_param_bytes:
  "\<forall>p\<in>set ps. paramtype p \<le> 2 \<Longrightarrow> length (concat (map param_bytes ps)) = sum_list (map param_plen ps)"
  by (induction ps) (auto simp: length_param_bytes)

lemma odd_byte: "((of_nat n :: u8) AND 1 = 1) \<longleftrightarrow> odd n"
proof -
  have "unat ((of_nat n :: u8) AND 1) = unat (of_nat n :: u8) AND 1"
    by (simp only: unsigned_and_eq unsigned_1)
  also have "\<dots> = n mod 2"
    by (simp add: unat_of_nat_u8 and_one_eq mod_mod_cancel)
  finally have "unat ((of_nat n :: u8) AND 1) = n mod 2" .
  then have "((of_nat n :: u8) AND 1 = 1) \<longleftrightarrow> n mod 2 = 1"
    by (metis unat_1 word_unat_eq_iff)
  then show ?thesis by presburger
qed

lemma or_128: "c < 128 \<Longrightarrow> unat ((of_nat c :: u8) OR 0x80) = c + 128"
proof -
  assume c: "c < 128"
  have "unat ((of_nat c :: u8) OR 0x80) = c OR 128"
    using c by (simp add: unsigned_or_eq unat_of_nat_u8)
  also have "\<dots> = set_bit 7 c"
    by (simp add: set_bit_eq_or)
  also have "\<dots> = c + 128"
    using c by (simp add: set_bit_eq bit_iff_odd)
  finally show ?thesis .
qed

lemma param_tag:
  assumes "paramtype p \<le> 2" "length (paramname p) < 64"
  shows "unat (of_nat (paramtype p * 2 ^ 6 + length (paramname p)) :: u8) div 64 = paramtype p"
    and "unat (of_nat (paramtype p * 2 ^ 6 + length (paramname p)) :: u8) mod 64 = length (paramname p)"
  using assms by (simp_all only: unat_of_nat_u8) simp_all

lemma decode_args_step:
  assumes "param_ok p"
  shows "decode_args (Suc n) (param_bytes p @ r) = map_option ((#) (arg_of p)) (decode_args n r)"
proof -
  from assms have ok: "paramtype p \<le> 2" "length (paramname p) < 64" "length (pstr p) < 2 ^ 32"
    "pnum p < 2 ^ 64"
    by (auto simp: param_ok_def)
  note tag = param_tag [OF ok(1,2)]
  consider "paramtype p = 0" | "paramtype p = 1" | "paramtype p = 2" using ok(1) by linarith
  then show ?thesis
  proof cases
    case 1
    with tag ok show ?thesis by (simp add: param_bytes_def arg_of_def le_load_store)
  next
    case 2
    with tag ok show ?thesis by (simp add: param_bytes_def arg_of_def le_load_store)
  next
    case 3
    with tag ok show ?thesis by (simp add: param_bytes_def arg_of_def odd_byte)
  qed
qed

lemma decode_args_bytes:
  "list_all param_ok ps \<Longrightarrow> decode_args (length ps) (concat (map param_bytes ps)) = Some (map arg_of ps)"
  by (induction ps) (simp_all add: decode_args_step)

section \<open>Reading responses\<close>

text \<open>
  The blocking reader: \<open>avail\<close> is what the peer sends before it closes the connection. A short
  read is the \<^verbatim>\<open>NULL\<close> result (\<open>Fail\<close>), as is a response the parser refuses.
\<close>

definition parse_value :: "u8 list \<Rightarrow> binresult outcome" where
  "parse_value m = bindo (parse_result m) (\<lambda>(res, _, _). Ok res)"

definition get_result :: "u8 list \<Rightarrow> binresult outcome" where
  "get_result avail =
     (if length avail < 4 then Fail
      else let ressize = le_load (take 4 avail); rest = drop 4 avail in
        if length rest < ressize then Fail
        else parse_value (take ressize rest))"

text \<open>
  What successive reads of the non-blocking socket find: data that has arrived, nothing yet, an error,
  or the end of the stream. A read takes at most \<open>want\<close> bytes and leaves the rest of a chunk.
\<close>

datatype sockev = Chunk "u8 list" | WouldBlock | SockError | SockEof

datatype rdret = RdData "u8 list" | RdWouldBlock | RdError

fun read_noblock :: "sockev list \<Rightarrow> nat \<Rightarrow> rdret \<times> sockev list" where
  "read_noblock [] want = (RdWouldBlock, [])"
| "read_noblock (WouldBlock # s) want = (RdWouldBlock, s)"
| "read_noblock (SockError # s) want = (RdError, s)"
| "read_noblock (SockEof # s) want = (RdData [], SockEof # s)"
| "read_noblock (Chunk b # s) want =
     (RdData (take want b), if want < length b then Chunk (drop want b) # s else s)"

text \<open>
  \<^verbatim>\<open>async_result_reader\<close>. In state 0 its buffer is its own \<^verbatim>\<open>respsize\<close> field, in state 1 the allocated
  response; \<open>rdata\<close> is the filled part, so that \<^verbatim>\<open>bytesread\<close> is its length.
\<close>

record async_result_reader =
  result :: "binresult outcome"
  rstate :: nat
  bytestoread :: nat
  respsize :: nat
  rdata :: "u8 list"

definition async_result_reader_init :: "async_result_reader \<Rightarrow> async_result_reader" where
  "async_result_reader_init r = r\<lparr>rstate := 0, bytestoread := 4, rdata := []\<rparr>"

datatype async_res = ASYNC_RES_NEEDMORE | ASYNC_RES_READY

function get_result_async ::
  "sockev list \<Rightarrow> async_result_reader \<Rightarrow> async_res \<times> sockev list \<times> async_result_reader" where
  "get_result_async sock reader =
     (case read_noblock sock (bytestoread reader - length (rdata reader)) of
        (RdWouldBlock, sock') \<Rightarrow> (ASYNC_RES_NEEDMORE, sock', reader)
      | (RdError, sock') \<Rightarrow>
          (ASYNC_RES_READY, sock', (async_result_reader_init reader)\<lparr>result := Fail\<rparr>)
      | (RdData b, sock') \<Rightarrow>
          if b = [] then (ASYNC_RES_READY, sock', (async_result_reader_init reader)\<lparr>result := Fail\<rparr>)
          else let reader = reader\<lparr>rdata := rdata reader @ b\<rparr> in
            if length (rdata reader) = bytestoread reader then
              if rstate reader = 0 then
                get_result_async sock'
                  (reader\<lparr>rstate := 1, respsize := le_load (rdata reader),
                          bytestoread := le_load (rdata reader), rdata := []\<rparr>)
              else (ASYNC_RES_READY, sock',
                    (async_result_reader_init reader)
                      \<lparr>result := parse_value (rdata reader)\<rparr>)
            else (ASYNC_RES_NEEDMORE, sock', reader))"
  by pat_completeness auto
termination
  by (relation "measure (\<lambda>(_, reader). if rstate reader = 0 then 1 else 0)") auto

declare get_result_async.simps [simp del]

text \<open>The caller's loop: poll until the result is there, at most \<open>n\<close> times.\<close>

fun poll_result :: "nat \<Rightarrow> sockev list \<Rightarrow> async_result_reader \<Rightarrow> async_result_reader option" where
  "poll_result 0 sock reader = None"
| "poll_result (Suc n) sock reader =
     (case get_result_async sock reader of
        (ASYNC_RES_READY, _, reader') \<Rightarrow> Some reader'
      | (ASYNC_RES_NEEDMORE, sock', reader') \<Rightarrow> poll_result n sock' reader')"

text \<open>The bytes a schedule of reads delivers, for one without errors and without empty chunks.\<close>

fun stream :: "sockev list \<Rightarrow> u8 list" where
  "stream [] = []"
| "stream (Chunk b # s) = b @ stream s"
| "stream (_ # s) = stream s"

definition clean :: "sockev list \<Rightarrow> bool" where
  "clean s \<longleftrightarrow> SockError \<notin> set s \<and> SockEof \<notin> set s \<and> Chunk [] \<notin> set s"

lemma reader_init_simps [simp]:
  "rstate (async_result_reader_init r) = 0"
  "bytestoread (async_result_reader_init r) = 4"
  "rdata (async_result_reader_init r) = []"
  by (simp_all add: async_result_reader_init_def)

text \<open>
  The reader in the middle of a response of \<open>n\<close> bytes: what it has read and what is still to come make
  up the length prefix and the message.
\<close>

definition reader_inv :: "u8 list \<Rightarrow> u8 list \<Rightarrow> async_result_reader \<Rightarrow> sockev list \<Rightarrow> bool" where
  "reader_inv m rest reader sock \<longleftrightarrow> clean sock \<and> m \<noteq> [] \<and> length m < 2 ^ 32 \<and>
     length (rdata reader) < bytestoread reader \<and>
     ((rstate reader = 0 \<and> bytestoread reader = 4 \<and>
         rdata reader @ stream sock = le_store 4 (length m) @ m @ rest) \<or>
      (rstate reader = 1 \<and> bytestoread reader = length m \<and> rdata reader @ stream sock = m @ rest))"

lemma read_noblock_clean:
  assumes "clean sock" "0 < want" "read_noblock sock want = (RdData b, sock')"
  shows "b \<noteq> []" "length b \<le> want" "b @ stream sock' = stream sock" "clean sock'"
  using assms
  by (cases "(sock, want)" rule: read_noblock.cases; auto simp: clean_def split: if_splits)+

definition sock_size :: "sockev list \<Rightarrow> nat" where
  "sock_size s = length s + length (stream s)"

lemma read_noblock_size:
  assumes "clean sock" "0 < want" "sock \<noteq> []"
  shows "sock_size (snd (read_noblock sock want)) < sock_size sock"
  using assms
  by (cases "(sock, want)" rule: read_noblock.cases) (auto simp: sock_size_def clean_def split: if_splits)

lemma read_noblock_cases:
  assumes "clean sock" "0 < want" "stream sock \<noteq> []"
  obtains (block) sock' where "read_noblock sock want = (RdWouldBlock, sock')" "clean sock'"
      "stream sock' = stream sock" "sock_size sock' < sock_size sock"
    | (data) b sock' where "read_noblock sock want = (RdData b, sock')" "clean sock'" "b \<noteq> []"
      "length b \<le> want" "b @ stream sock' = stream sock" "sock_size sock' < sock_size sock"
proof -
  from assms(3) have "sock \<noteq> []" by auto
  note size = read_noblock_size [OF assms(1,2) this]
  obtain r sock' where r: "read_noblock sock want = (r, sock')" by fastforce
  show ?thesis
  proof (cases r)
    case (RdData b)
    with r read_noblock_clean [OF assms(1,2)] size show ?thesis by (intro data) auto
  next
    case RdWouldBlock
    with r assms size have "clean sock' \<and> stream sock' = stream sock"
      by (cases "(sock, want)" rule: read_noblock.cases) (auto simp: clean_def)
    with RdWouldBlock r size show ?thesis by (intro block) auto
  next
    case RdError
    with r assms show ?thesis
      by (cases "(sock, want)" rule: read_noblock.cases) (auto simp: clean_def)
  qed
qed

text \<open>What one call of the reader guarantees.\<close>

definition async_post ::
  "u8 list \<Rightarrow> u8 list \<Rightarrow> sockev list \<Rightarrow> async_res \<times> sockev list \<times> async_result_reader \<Rightarrow> bool" where
  "async_post m rest sock r =
     (case r of
        (ASYNC_RES_NEEDMORE, sock', reader') \<Rightarrow>
          reader_inv m rest reader' sock' \<and> sock_size sock' < sock_size sock
      | (ASYNC_RES_READY, sock', reader') \<Rightarrow>
          result reader' = parse_value m \<and>
          rstate reader' = 0 \<and> bytestoread reader' = 4 \<and> rdata reader' = [] \<and>
          clean sock' \<and> stream sock' = rest)"

lemma async_body:
  assumes inv: "reader_inv m rest reader sock" and st: "rstate reader = 1"
  shows "async_post m rest sock (get_result_async sock reader)"
proof -
  let ?want = "bytestoread reader - length (rdata reader)"
  from inv st have i: "clean sock" "0 < ?want" "stream sock \<noteq> []" "m \<noteq> []"
    "bytestoread reader = length m" "rdata reader @ stream sock = m @ rest" "length (rdata reader) < length m"
    by (auto simp: reader_inv_def)
  from i(1-3) show ?thesis
  proof (cases rule: read_noblock_cases)
    case (block sock')
    with inv st show ?thesis
      by (simp add: get_result_async.simps [of sock] async_post_def reader_inv_def)
  next
    case (data b sock')
    have whole: "rdata reader @ b @ stream sock' = m @ rest" using data i by simp
    show ?thesis
    proof (cases "length (rdata reader @ b) = length m")
      case True
      with whole have "rdata reader @ b = m \<and> stream sock' = rest"
        by (metis append.assoc append_eq_append_conv)
      with True data st i show ?thesis
        by (simp add: get_result_async.simps [of sock] async_post_def)
    next
      case False
      with data(4) i(5,7) have "length (rdata reader @ b) < length m" by simp
      with False whole data st i inv show ?thesis
        by (simp add: get_result_async.simps [of sock] async_post_def reader_inv_def)
    qed
  qed
qed

lemma async_post_mono: "async_post m rest s1 r \<Longrightarrow> sock_size s1 \<le> sock_size s \<Longrightarrow> async_post m rest s r"
  by (auto simp: async_post_def split: async_res.splits)

lemma async_step:
  assumes inv: "reader_inv m rest reader sock"
  shows "async_post m rest sock (get_result_async sock reader)"
proof (cases "rstate reader = 1")
  case True
  with inv show ?thesis by (rule async_body)
next
  case False
  let ?want = "4 - length (rdata reader)"
  from inv False have i: "clean sock" "0 < ?want" "stream sock \<noteq> []" "m \<noteq> []" "length m < 2 ^ 32"
    "rstate reader = 0" "bytestoread reader = 4" "length (rdata reader) < 4"
    "rdata reader @ stream sock = le_store 4 (length m) @ m @ rest"
    by (auto simp: reader_inv_def)
  from i(1-3) show ?thesis
  proof (cases rule: read_noblock_cases)
    case (block sock')
    with inv i show ?thesis
      by (simp add: get_result_async.simps [of sock] async_post_def reader_inv_def)
  next
    case (data b sock')
    have whole: "(rdata reader @ b) @ stream sock' = le_store 4 (length m) @ m @ rest" using data i by simp
    show ?thesis
    proof (cases "length (rdata reader @ b) = 4")
      case True
      with whole have eq: "rdata reader @ b = le_store 4 (length m) \<and> stream sock' = m @ rest"
        by (metis append_eq_append_conv length_le_store)
      let ?reader = "reader\<lparr>rstate := 1, respsize := length m, bytestoread := length m, rdata := []\<rparr>"
      have "reader_inv m rest ?reader sock'"
        using data i eq by (simp add: reader_inv_def)
      then have "async_post m rest sock' (get_result_async sock' ?reader)"
        by (rule async_body) simp
      moreover have "get_result_async sock reader = get_result_async sock' ?reader"
        using data i eq True by (simp add: get_result_async.simps [of sock] le_load_store)
      ultimately show ?thesis using data(6) async_post_mono by fastforce
    next
      case False
      with data(4) i(8) have "length (rdata reader @ b) < 4" by simp
      with False whole data i show ?thesis
        by (simp add: get_result_async.simps [of sock] async_post_def reader_inv_def)
    qed
  qed
qed

lemma poll_result_inv:
  assumes "reader_inv m rest reader sock" "sock_size sock \<le> n"
  shows "\<exists>reader'. poll_result (Suc n) sock reader = Some reader' \<and>
     result reader' = parse_value m \<and>
     rstate reader' = 0 \<and> bytestoread reader' = 4 \<and> rdata reader' = []"
  using assms
proof (induction n arbitrary: sock reader)
  case 0
  obtain a s r where g: "get_result_async sock reader = (a, s, r)" by (cases "get_result_async sock reader")
  with async_step [OF "0.prems"(1)] "0.prems"(2) show ?case
    by (cases a) (auto simp: async_post_def)
next
  case (Suc n)
  obtain a s r where g: "get_result_async sock reader = (a, s, r)" by (cases "get_result_async sock reader")
  with async_step [OF Suc.prems(1)] Suc.prems(2) Suc.IH [of r s] show ?case
    by (cases a) (auto simp: async_post_def simp del: poll_result.simps simp: poll_result.simps(2) [of "Suc n"])
qed

section \<open>Properties\<close>

text \<open>
  C40. The serialised command fills exactly the bytes that were allocated for it, the length stored to
  \<^verbatim>\<open>*retlen\<close> is that number, and \<^verbatim>\<open>NULL\<close> is returned exactly for a payload above 65535 bytes.
\<close>

theorem prepare_command_length:
  assumes "\<forall>p\<in>set params. paramtype p \<le> 2"
  shows "case do_prepare_command command params datalen of
      None \<Rightarrow> command_plen command params datalen > 0xffff
    | Some (bytes, retlen) \<Rightarrow> length bytes = retlen \<and>
        retlen = command_plen command params datalen + 2 \<and> retlen \<le> 0xffff + 2"
  using assms
  by (auto simp: do_prepare_command_def Let_def command_plen_def length_concat_param_bytes)

theorem prepare_command_length_witness:
  "case do_prepare_command [117] [\<lparr>paramtype = 0, paramname = [97], pnum = 0, pstr = [98, 99]\<rparr>] (-1) of
      None \<Rightarrow> command_plen [117] [\<lparr>paramtype = 0, paramname = [97], pnum = 0, pstr = [98, 99]\<rparr>] (-1) > 0xffff
    | Some (bytes, retlen) \<Rightarrow> length bytes = retlen \<and>
        retlen = command_plen [117] [\<lparr>paramtype = 0, paramname = [97], pnum = 0, pstr = [98, 99]\<rparr>] (-1) + 2 \<and>
        retlen \<le> 0xffff + 2"
  by (rule prepare_command_length) simp

text \<open>
  C4. Round trip of requests: within the limits of the format (command name below 128 bytes, parameter
  names below 64, fewer than 256 parameters) the server reads back the command, the length of the data
  that follows and every parameter.
\<close>

theorem prepare_command_roundtrip:
  assumes "command_ok command params datalen"
    and "do_prepare_command command params datalen = Some (bytes, retlen)"
  shows "decode_command bytes =
     Some (command, if datalen = -1 then None else Some (nat datalen), map arg_of params)"
proof -
  from assms(1) have ok: "length command < 128" "length params < 256" "list_all param_ok params"
    "-1 \<le> datalen" "datalen < 2 ^ 63"
    by (auto simp: command_ok_def)
  have types: "\<forall>p\<in>set params. paramtype p \<le> 2"
    using ok(3) by (auto simp: list_all_iff param_ok_def)
  let ?plen = "command_plen command params datalen"
  from assms(2) have plen: "?plen \<le> 0xffff" and bytes: "bytes =
      le_store 2 ?plen @
         (if datalen \<noteq> -1
          then (of_nat (length command) OR 0x80) # le_store 8 (nat (datalen mod 2 ^ 64))
          else [of_nat (length command)]) @
         command @ [of_nat (length params)] @ concat (map param_bytes params)"
    by (auto simp: do_prepare_command_def Let_def split: if_splits)
  from plen have hdr: "le_load (le_store 2 ?plen) = ?plen" by (simp add: le_load_store)
  have len: "length bytes = ?plen + 2"
    unfolding bytes by (simp add: command_plen_def length_concat_param_bytes [OF types])
  have cnt: "unat (of_nat (length params) :: u8) = length params"
    using ok(2) by (simp add: unat_of_nat_u8)
  have cmd: "unat (of_nat (length command) :: u8) = length command"
    using ok(1) by (simp add: unat_of_nat_u8)
  show ?thesis
  proof (cases "datalen = -1")
    case True
    with len cnt cmd ok(1) hdr decode_args_bytes [OF ok(3)] show ?thesis
      by (simp add: decode_command_def Let_def bytes nth_append)
  next
    case False
    with ok have "datalen mod 2 ^ 64 = datalen" "nat datalen < 2 ^ 64" by simp_all
    with False len cnt or_128 [OF ok(1)] ok(1) hdr decode_args_bytes [OF ok(3)] show ?thesis
      by (simp add: decode_command_def Let_def bytes nth_append le_load_store)
  qed
qed

theorem prepare_command_roundtrip_witness:
  "\<exists>bytes. do_prepare_command [117, 115] [\<lparr>paramtype = 2, paramname = [97], pnum = 1, pstr = []\<rparr>] 5 = Some (bytes, 17) \<and>
     decode_command bytes = Some ([117, 115], Some 5, [ArgBool [97] True])"
proof -
  let ?p = "[\<lparr>paramtype = 2, paramname = [97], pnum = 1, pstr = []\<rparr>]"
  have "\<exists>bytes. do_prepare_command [117, 115] ?p 5 = Some (bytes, 17)"
    by (simp add: do_prepare_command_def command_plen_def param_plen_def Let_def)
  then obtain bytes where b: "do_prepare_command [117, 115] ?p 5 = Some (bytes, 17)" by blast
  have "command_ok [117, 115] ?p 5" by (simp add: command_ok_def param_ok_def)
  from prepare_command_roundtrip [OF this b] b show ?thesis by (auto simp: arg_of_def)
qed

text \<open>
  C9. Chunking does not matter: however the bytes of a response are cut into non-empty reads, and
  however often the socket has nothing yet, polling the asynchronous reader ends, within as many calls
  as there are reads and bytes, with the result of the blocking reader, and the reader is ready for
  the next response.
\<close>

theorem get_result_async_chunking:
  assumes "clean sock" and "stream sock = le_store 4 (length m) @ m @ rest"
    and "m \<noteq> []" and "length m < 2 ^ 32"
  shows "\<exists>reader'. poll_result (Suc (sock_size sock)) sock (async_result_reader_init reader) = Some reader' \<and>
     result reader' = get_result (stream sock) \<and>
     reader' = (async_result_reader_init reader')\<lparr>result := get_result (stream sock)\<rparr>"
proof -
  have "reader_inv m rest (async_result_reader_init reader) sock"
    using assms by (simp add: reader_inv_def)
  from poll_result_inv [OF this order_refl] obtain reader' where
    p: "poll_result (Suc (sock_size sock)) sock (async_result_reader_init reader) = Some reader'"
    "result reader' = parse_value m" "rstate reader' = 0" "bytestoread reader' = 4" "rdata reader' = []"
    by blast
  have "get_result (stream sock) = parse_value m"
    using assms by (simp add: get_result_def le_load_store)
  with p show ?thesis by (auto simp: async_result_reader_init_def)
qed

theorem get_result_async_chunking_witness:
  "\<exists>reader'. poll_result 12 [Chunk [2, 0], WouldBlock, Chunk [0], Chunk [0, 101, 97, 9]]
       (async_result_reader_init \<lparr>result = Fail, rstate = 5, bytestoread = 0, respsize = 0, rdata = []\<rparr>) = Some reader' \<and>
     result reader' = get_result [2, 0, 0, 0, 101, 97, 9] \<and>
     reader' = (async_result_reader_init reader')\<lparr>result := get_result [2, 0, 0, 0, 101, 97, 9]\<rparr>"
proof -
  let ?sock = "[Chunk [2, 0], WouldBlock, Chunk [0], Chunk [0, 101, 97, 9]]"
  have size: "Suc (sock_size ?sock) = 12" by (simp add: sock_size_def)
  have str: "stream ?sock = [2, 0, 0, 0, 101, 97, 9]" by simp
  have "stream ?sock = le_store 4 (length [101, 97 :: u8]) @ [101, 97] @ [9]" by code_simp
  from get_result_async_chunking [OF _ this, unfolded size str] show ?thesis by (simp add: clean_def)
qed

end
