(* ===== verification/Timer.thy ===== *)
theory Timer
  imports Prelude "HOL-Library.Multiset"
begin

text \<open>
  The timer wheel (\<^verbatim>\<open>ptimer.c\<close>): three levels of 64 slots. A timer goes into the first level whose span
  covers its interval; whenever the clock crosses a slot boundary of a level, that slot's timers are
  moved one level down, and the timers of the current slot of level 0 fire. A timer that fired is
  re-armed with its interval unless it was stopped meanwhile.

  A timer is identified by a number (its address); the callback and its argument are not modelled, a
  firing is the appearance of the timer in the list that \<^verbatim>\<open>timer_prepare_timers\<close> fills. \<^verbatim>\<open>timer_mutex\<close>
  makes each operation one step. Times are seconds as \<^typ>\<open>nat\<close>.
\<close>

section \<open>State\<close>

abbreviation (input) "TIMER_ARRAY_SIZE_SHIFT \<equiv> 6 :: nat"
abbreviation (input) "TIMER_ARRAY_SIZE \<equiv> 64 :: nat"
abbreviation (input) "TIMER_LEVELS \<equiv> 3 :: nat"

record ptimer =
  tid :: nat
  numsec :: nat
  runat :: nat
  level :: nat
  is_running :: bool      \<comment> \<open>\<^verbatim>\<open>opts & PTIMER_IS_RUNNING\<close>\<close>
  stop_after_run :: bool  \<comment> \<open>\<^verbatim>\<open>opts & PTIMER_STOP_AFTER_RUN\<close>\<close>

type_synonym timerlists = "nat \<Rightarrow> nat \<Rightarrow> ptimer list"

definition put :: "nat \<Rightarrow> nat \<Rightarrow> ptimer list \<Rightarrow> timerlists \<Rightarrow> timerlists" where
  "put l j ts w = w(l := (w l)(j := ts))"

definition list_add_tail :: "nat \<Rightarrow> nat \<Rightarrow> ptimer \<Rightarrow> timerlists \<Rightarrow> timerlists" where
  "list_add_tail l j t w = put l j (w l j @ [t]) w"

text \<open>\<open>runat >> sh\<close> modulo the array size.\<close>

definition slot_of :: "nat \<Rightarrow> nat \<Rightarrow> nat" where
  "slot_of sh r = (r div 2 ^ sh) mod TIMER_ARRAY_SIZE"

section \<open>Operations\<close>

text \<open>
  \<^verbatim>\<open>timer_check_upper_levels\<close>: first the level above, if its slot is due as well, then the timers of
  slot \<open>m\<close> of level \<open>level + 1\<close> go to \<open>level\<close>, and that slot is emptied.
\<close>

function timer_check_upper_levels :: "nat \<Rightarrow> nat \<Rightarrow> nat \<Rightarrow> timerlists \<Rightarrow> timerlists" where
  "timer_check_upper_levels tmdiv lvl sh w =
     (let m = tmdiv mod TIMER_ARRAY_SIZE;
          w = (if m = 0 \<and> lvl < TIMER_LEVELS - 2
               then timer_check_upper_levels (tmdiv div TIMER_ARRAY_SIZE) (lvl + 1) (sh + TIMER_ARRAY_SIZE_SHIFT) w
               else w)
      in put (lvl + 1) m []
           (fold (\<lambda>t. list_add_tail lvl (slot_of sh (runat t)) t) (w (lvl + 1) m) w))"
  by pat_completeness auto
termination
  by (relation "measure (\<lambda>(_, lvl, _). TIMER_LEVELS - lvl)") auto

declare timer_check_upper_levels.simps [simp del]

text \<open>One iteration of the loop of \<^verbatim>\<open>timer_prepare_timers\<close>, for second \<open>i\<close>.\<close>

definition timer_tick :: "nat \<Rightarrow> timerlists \<times> ptimer list \<Rightarrow> timerlists \<times> ptimer list" where
  "timer_tick i s =
     (let (w, lst) = s;
          m = i mod TIMER_ARRAY_SIZE;
          w = (if m = 0 then timer_check_upper_levels (i div TIMER_ARRAY_SIZE) 0 0 w else w)
      in (put 0 m [] w, lst @ map (\<lambda>t. t\<lparr>is_running := True\<rparr>) (w 0 m)))"

definition timer_prepare_timers :: "nat \<Rightarrow> nat \<Rightarrow> timerlists \<times> ptimer list \<Rightarrow> timerlists \<times> ptimer list" where
  "timer_prepare_timers from to s = fold timer_tick [from + 1..<to + 1] s"

text \<open>The loop of \<^verbatim>\<open>psync_timer_register\<close> that chooses the level: first \<open>i\<close> with \<open>numsec \<le> 64 ^ (i + 1)\<close>.\<close>

function choose_level :: "nat \<Rightarrow> nat \<Rightarrow> nat \<Rightarrow> nat \<times> nat" where
  "choose_level secs i n =
     (if i < TIMER_LEVELS then
        if secs \<le> n then (i, n) else choose_level secs (i + 1) (n * TIMER_ARRAY_SIZE)
      else (i, n))"
  by pat_completeness auto
termination
  by (relation "measure (\<lambda>(_, i, _). TIMER_LEVELS - i)") auto

declare choose_level.simps [simp del]

definition psync_timer_register :: "nat \<Rightarrow> nat \<Rightarrow> nat \<Rightarrow> timerlists \<Rightarrow> timerlists" where
  "psync_timer_register now tm secs w =
     (let (i, n) = choose_level secs 0 TIMER_ARRAY_SIZE;
          (i, secs) = (if i = TIMER_LEVELS then (i - 1, n div TIMER_ARRAY_SIZE) else (i, secs));
          t = \<lparr>tid = tm, numsec = secs, runat = now + secs, level = i,
               is_running = False, stop_after_run = False\<rparr>
      in list_add_tail i (slot_of (i * TIMER_ARRAY_SIZE_SHIFT) (runat t)) t w)"

text \<open>
  \<^verbatim>\<open>timer_process_timers\<close> after the callbacks: the timers not stopped meanwhile are re-armed (the rest are
  freed).
\<close>

definition rearm :: "nat \<Rightarrow> ptimer \<Rightarrow> timerlists \<Rightarrow> timerlists" where
  "rearm now t w =
     (if stop_after_run t then w
      else let t = t\<lparr>is_running := False, stop_after_run := False, runat := now + numsec t\<rparr>
           in list_add_tail (level t) (slot_of (level t * TIMER_ARRAY_SIZE_SHIFT) (runat t)) t w)"

definition timer_process_timers :: "nat \<Rightarrow> ptimer list \<Rightarrow> timerlists \<Rightarrow> timerlists" where
  "timer_process_timers now timers w = fold (rearm now) timers w"

text \<open>
  One round of the loop of \<^verbatim>\<open>timer_thread\<close>, between the previous time \<open>lt\<close> and the new one: the due timers
  are taken out, their callbacks run, and they are re-armed. What the callbacks do to the wheel and to the
  list of running timers is the parameter \<open>calls\<close>. The result holds the timers that ran.
\<close>

definition timer_round ::
    "(nat \<Rightarrow> timerlists \<times> ptimer list \<Rightarrow> timerlists \<times> ptimer list) \<Rightarrow> nat \<Rightarrow> nat \<Rightarrow> timerlists \<Rightarrow> timerlists \<times> ptimer list" where
  "timer_round calls lt now w =
     (let (w, timers) = timer_prepare_timers lt now (w, []);
          (w, timers') = (if timers \<noteq> [] then calls now (w, timers) else (w, timers))
      in (timer_process_timers now timers' w, timers))"

fun timer_thread :: "(nat \<Rightarrow> timerlists \<times> ptimer list \<Rightarrow> timerlists \<times> ptimer list) \<Rightarrow>
    nat \<Rightarrow> nat list \<Rightarrow> timerlists \<Rightarrow> timerlists \<times> (nat \<times> ptimer list) list" where
  "timer_thread calls lt [] w = (w, [])"
| "timer_thread calls lt (now # nows) w =
     (let (w, ran) = timer_round calls lt now w;
          (w, runs) = timer_thread calls now nows w
      in (w, (now, ran) # runs))"

text \<open>
  \<^verbatim>\<open>psync_timer_stop\<close>: a running timer is only marked (result 1), a waiting one is unlinked and freed
  (result 0). The running list is the one being processed.
\<close>

definition psync_timer_stop :: "nat \<Rightarrow> timerlists \<times> ptimer list \<Rightarrow> (timerlists \<times> ptimer list) \<times> bool" where
  "psync_timer_stop tm s =
     (let (w, running) = s in
      if (\<exists>t\<in>set running. tid t = tm \<and> is_running t)
      then ((w, map (\<lambda>t. if tid t = tm then t\<lparr>stop_after_run := True\<rparr> else t) running), True)
      else ((\<lambda>l j. filter (\<lambda>t. tid t \<noteq> tm) (w l j), running), False))"

text \<open>All slots empty, as \<^verbatim>\<open>psync_timer_init\<close> leaves them.\<close>

definition psync_timer_init :: timerlists where
  "psync_timer_init = (\<lambda>_ _. [])"

section \<open>Where a timer may be\<close>

definition unit_of :: "nat \<Rightarrow> nat" where
  "unit_of l = 2 ^ (l * 6)"

text \<open>
  After second \<open>T\<close> was processed, a timer in a level waits in the slot of its due time, and its due time
  lies in the 64 units of that level that come next.
\<close>

definition placed :: "nat \<Rightarrow> nat \<Rightarrow> nat \<Rightarrow> nat \<Rightarrow> bool" where
  "placed T l j r \<longleftrightarrow> j = (r div unit_of l) mod 64 \<and>
     T div unit_of l < r div unit_of l \<and> r div unit_of l \<le> T div unit_of l + 64"

definition wheel_inv :: "nat \<Rightarrow> timerlists \<Rightarrow> bool" where
  "wheel_inv T w \<longleftrightarrow> (\<forall>l j. \<forall>t\<in>set (w l j). l < 3 \<and> placed T l j (runat t))"

text \<open>All the timers that wait, each as often as it is linked.\<close>

definition pending :: "timerlists \<Rightarrow> ptimer multiset" where
  "pending w = (\<Sum>l<3. \<Sum>j<64. mset (w l j))"

lemma unit_of_simps [simp]: "unit_of 0 = 1" "unit_of (Suc 0) = 64" "unit_of 2 = 4096" "unit_of (Suc (Suc 0)) = 4096"
  by (simp_all add: unit_of_def)

lemma wheel_invD: "wheel_inv T w \<Longrightarrow> t \<in> set (w l j) \<Longrightarrow> l < 3 \<and> placed T l j (runat t)"
  by (auto simp: wheel_inv_def)

lemma put_apply: "put l j ts w l' j' = (if l' = l \<and> j' = j then ts else w l' j')"
  by (auto simp: put_def)

text \<open>Adding a list of timers to a level, each in a slot computed from it.\<close>

lemma fold_add_tail:
  "fold (\<lambda>t. list_add_tail l (f t) t) ts w l' j' =
     (if l' = l then w l' j' @ filter (\<lambda>t. f t = j') ts else w l' j')"
  by (induction ts arbitrary: w) (auto simp: list_add_tail_def put_apply)

text \<open>A window of 64 values holds one of each residue.\<close>

lemma window_unique:
  fixes a x y :: nat
  assumes "a < x" "x \<le> a + 64" "a < y" "y \<le> a + 64" "x mod 64 = y mod 64"
  shows "x = y"
proof (cases "x \<le> y")
  case True
  with assms(5) obtain k where "y = x + 64 * k" by (metis mod_eq_nat1E)
  with assms show ?thesis by (cases k) auto
next
  case False
  with assms(5) obtain k where "x = y + 64 * k" by (metis mod_eq_nat1E nle_le)
  with assms show ?thesis by (cases k) auto
qed

section \<open>Moving timers down\<close>

text \<open>The two shapes that the recursion takes when it is called from \<^verbatim>\<open>timer_prepare_timers\<close>.\<close>

lemma check_upper_1:
  "timer_check_upper_levels d (Suc 0) 6 w l j =
     (if l = 2 \<and> j = d mod 64 then []
      else if l = 1 then w 1 j @ filter (\<lambda>t. slot_of 6 (runat t) = j) (w 2 (d mod 64))
      else w l j)"
  by (simp add: timer_check_upper_levels.simps [of d] Let_def put_apply fold_add_tail numeral_2_eq_2)

lemma check_upper_0:
  "timer_check_upper_levels d 0 0 w =
     (let w = (if d mod 64 = 0 then timer_check_upper_levels (d div 64) (Suc 0) 6 w else w)
      in put 1 (d mod 64) [] (fold (\<lambda>t. list_add_tail 0 (slot_of 0 (runat t)) t) (w 1 (d mod 64)) w))"
  by (simp add: timer_check_upper_levels.simps [of d 0] Let_def)

lemma slot_of_simps [simp]: "slot_of 0 r = r mod 64" "slot_of 6 r = (r div 64) mod 64"
  by (simp_all add: slot_of_def)

lemma num_4096: "(64 :: nat) dvd 4096"
  by (rule dvdI [of _ _ 64]) simp

lemma div_4096: "(r :: nat) div 4096 = r div 64 div 64"
  by (simp add: div_mult2_eq [symmetric])

text \<open>
  Crossing into a new unit of level 2 empties the slot of that unit onto level 1: afterwards no timer
  of level 2 is due in the unit that begins, and level 1 holds the ones that are.
\<close>

definition stage :: "nat \<Rightarrow> nat \<Rightarrow> timerlists \<Rightarrow> bool" where
  "stage L i w \<longleftrightarrow> (\<forall>l j. \<forall>t\<in>set (w l j). l < 3 \<and> placed (i - 1) l j (runat t) \<and>
     (L \<le> l \<longrightarrow> i div unit_of l < runat t div unit_of l))"

lemma stage_3: "wheel_inv (i - 1) w \<Longrightarrow> stage 3 i w"
  unfolding stage_def wheel_inv_def by (meson leD)

lemma stage_0: "0 < i \<Longrightarrow> stage 0 i w \<Longrightarrow> wheel_inv i w"
proof -
  assume i: "0 < i" and st: "stage 0 i w"
  have "(i - 1) div k \<le> i div k" for k :: nat by (simp add: div_le_mono)
  then show ?thesis
    using st by (force simp: stage_def wheel_inv_def placed_def intro: order_trans add_right_mono)
qed

text \<open>The timers of one level, and of the wheel.\<close>

lemma pending_levels: "pending w = (\<Sum>j<64. mset (w 0 j)) + (\<Sum>j<64. mset (w 1 j)) + (\<Sum>j<64. mset (w 2 j))"
  by (simp add: pending_def numeral_3_eq_3 numeral_2_eq_2 lessThan_Suc add.commute)

lemma level_put:
  "m < (64 :: nat) \<Longrightarrow> (\<Sum>j<64. mset (if j = m then [] else f j)) + mset (f m) = (\<Sum>j<64. mset (f j))"
  by (simp add: sum.remove [of "{..<64}" m] add.commute)

lemma level_fold:
  assumes "\<And>t. t \<in> set ts \<Longrightarrow> g t < 64"
  shows "(\<Sum>j<(64 :: nat). mset (f j @ filter (\<lambda>t. g t = j) ts)) = (\<Sum>j<64. mset (f j)) + mset ts"
  using assms
proof (induction ts)
  case (Cons t ts)
  have "(\<Sum>j<(64 :: nat). mset (f j @ filter (\<lambda>t. g t = j) (t # ts))) =
      (\<Sum>j<64. mset (f j @ filter (\<lambda>t. g t = j) ts) + (if g t = j then {#t#} else {#}))"
    by (rule sum.cong) auto
  also have "\<dots> = (\<Sum>j<64. mset (f j @ filter (\<lambda>t. g t = j) ts)) + {#t#}"
    using Cons.prems by (simp add: sum.distrib)
  finally show ?case using Cons by (simp add: add.assoc)
qed simp

lemma level_move:
  fixes g :: "ptimer \<Rightarrow> nat"
  assumes "m < (64 :: nat)" "\<And>t. g t < 64"
  shows "(\<Sum>j<64. mset (if j = m then [] else h j)) + (\<Sum>j<64. mset (f j @ filter (\<lambda>t. g t = j) (h m))) =
    (\<Sum>j<64. mset (h j)) + (\<Sum>j<64. mset (f j))"
proof -
  have "(\<Sum>j<64. mset (f j @ filter (\<lambda>t. g t = j) (h m))) = (\<Sum>j<64. mset (f j)) + mset (h m)"
    by (rule level_fold) (rule assms(2))
  then show ?thesis
    unfolding level_put [OF assms(1), of h, symmetric] by (simp only: ac_simps)
qed

lemma pending_iff:
  assumes "stage L i w"
  shows "t \<in># pending w \<longleftrightarrow> (\<exists>l j. t \<in> set (w l j))"
proof
  show "t \<in># pending w \<Longrightarrow> \<exists>l j. t \<in> set (w l j)"
    by (auto simp: pending_def set_mset_sum)
  assume "\<exists>l j. t \<in> set (w l j)"
  then obtain l j where t: "t \<in> set (w l j)" by blast
  with assms have "l < 3" "j = (runat t div unit_of l) mod 64" by (auto simp: stage_def placed_def)
  then have "l < 3" "j < 64" by simp_all
  with t show "t \<in># pending w" by (auto simp: pending_def set_mset_sum)
qed

lemma pred_div: "0 < u \<Longrightarrow> 0 < k \<Longrightarrow> (u * k - 1) div u = k - (1 :: nat)"
  by (rule div_nat_eqI) (cases k; simp add: algebra_simps)+

text \<open>
  What one tick does with a timer of a window: in the slot of the unit that begins it is due in that
  unit, in any other slot it is due later.
\<close>

lemma placed_in_unit:
  assumes "placed (i - 1) l j r" "0 < i" "i mod unit_of l = 0"
  shows "r div unit_of l = i div unit_of l \<longleftrightarrow> j = (i div unit_of l) mod 64"
    and "i div unit_of l \<le> r div unit_of l"
proof -
  let ?u = "unit_of l"
  obtain k where k: "i = ?u * k" using assms(3) by (auto simp: mod_eq_0_iff_dvd)
  have u: "0 < ?u" by (simp add: unit_of_def)
  with k assms(2) have kpos: "0 < k" by (cases k) auto
  have "(i - 1) div ?u = k - 1"
    using pred_div [OF u kpos] k by simp
  moreover have "i div ?u = k" using k u by simp
  ultimately show "r div ?u = i div ?u \<longleftrightarrow> j = (i div ?u) mod 64" and "i div ?u \<le> r div ?u"
    using assms(1) kpos window_unique [of "k - 1" "r div ?u" k] by (auto simp: placed_def)
qed

lemma placed_other_unit:
  assumes "placed (i - 1) l j r" "0 < i" "i mod unit_of l \<noteq> 0"
  shows "i div unit_of l < r div unit_of l"
proof -
  have "(i - 1) div unit_of l = i div unit_of l"
    using assms(2,3) by (metis Suc_pred' div_Suc diff_Suc_1)
  with assms(1) show ?thesis by (simp add: placed_def)
qed

text \<open>A timer due in the unit of level \<open>l + 1\<close> that begins fits the next 64 units of level \<open>l\<close>.\<close>

lemma placed_down:
  assumes "r div unit_of (Suc l) = i div unit_of (Suc l)" "i mod unit_of (Suc l) = 0" "0 < i"
  shows "placed (i - 1) l ((r div unit_of l) mod 64) r"
proof -
  let ?u = "unit_of l"
  have u: "0 < ?u" and big: "unit_of (Suc l) = ?u * 64" by (simp_all add: unit_of_def power_add)
  obtain k where k: "i = ?u * 64 * k" using assms(2) big by (auto simp: mod_eq_0_iff_dvd)
  with assms(3) have kpos: "0 < k" by (cases k) auto
  have "r div ?u div 64 = k"
    using assms(1) k u by (simp add: big div_mult2_eq)
  then have r: "64 * k \<le> r div ?u" "r div ?u < 64 * k + 64" by auto
  have "(i - 1) div ?u = 64 * k - 1"
    using pred_div [of ?u "64 * k"] u kpos k by (simp add: mult.assoc)
  with r kpos show ?thesis by (simp add: placed_def)
qed

lemma stage_move:
  assumes "stage (Suc (Suc l)) i w" "0 < i" "i mod unit_of (Suc l) = 0" "Suc l < 3"
    and "w' = put (Suc l) ((i div unit_of (Suc l)) mod 64) []
      (fold (\<lambda>t. list_add_tail l ((runat t div unit_of l) mod 64) t)
        (w (Suc l) ((i div unit_of (Suc l)) mod 64)) w)"
  shows "stage (Suc l) i w'" "pending w' = pending w"
proof -
  let ?m = "(i div unit_of (Suc l)) mod 64"
  have W: "w' l' j = (if l' = Suc l \<and> j = ?m then []
      else if l' = l then w l j @ filter (\<lambda>t. (runat t div unit_of l) mod 64 = j) (w (Suc l) ?m)
      else w l' j)" for l' j
    by (simp add: assms(5) put_apply fold_add_tail)
  have old: "l' < 3 \<and> placed (i - 1) l' j (runat t) \<and>
      (Suc (Suc l) \<le> l' \<longrightarrow> i div unit_of l' < runat t div unit_of l')" if "t \<in> set (w l' j)" for t l' j
    using assms(1) that by (auto simp: stage_def)
  show "stage (Suc l) i w'"
    unfolding stage_def
  proof (intro allI ballI)
    fix l' j t
    assume t: "t \<in> set (w' l' j)"
    show "l' < 3 \<and> placed (i - 1) l' j (runat t) \<and>
        (Suc l \<le> l' \<longrightarrow> i div unit_of l' < runat t div unit_of l')"
    proof (cases "t \<in> set (w l' j)")
      case True
      moreover have "i div unit_of (Suc l) < runat t div unit_of (Suc l)" if "l' = Suc l"
      proof -
        from t that have "j \<noteq> ?m" by (auto simp: W)
        with placed_in_unit [of i "Suc l" j "runat t"] old [OF True] that assms(2,3)
        show ?thesis by (metis le_neq_implies_less)
      qed
      ultimately show ?thesis using old [OF True] by (auto simp: le_Suc_eq Suc_le_eq nat_less_le)
    next
      case False
      with t have 1: "l' = l" "t \<in> set (w (Suc l) ?m)" "j = (runat t div unit_of l) mod 64"
        by (auto simp: W split: if_splits)
      from old [OF 1(2)] placed_in_unit [of i "Suc l" ?m "runat t"] assms(2,3)
      have "runat t div unit_of (Suc l) = i div unit_of (Suc l)" by blast
      from placed_down [OF this assms(3,2)] 1 assms(4) show ?thesis by simp
    qed
  qed
  have m: "?m < 64" by simp
  have lev: "w' l' = (if l' = Suc l then (\<lambda>j. if j = ?m then [] else w l' j)
      else if l' = l then (\<lambda>j. w l' j @ filter (\<lambda>t. (runat t div unit_of l) mod 64 = j) (w (Suc l) ?m))
      else w l')" for l'
    by (auto simp: W)
  have move: "(\<Sum>j<64. mset (w' l j)) + (\<Sum>j<64. mset (w' (Suc l) j)) =
      (\<Sum>j<64. mset (w l j)) + (\<Sum>j<64. mset (w (Suc l) j))"
    using level_move [OF m, of "\<lambda>t. (runat t div unit_of l) mod 64" "w (Suc l)" "w l"]
    by (simp add: lev add.commute)
  have other: "w' l' = w l'" if "l' \<noteq> l" "l' \<noteq> Suc l" for l' using that by (simp add: lev)
  consider "l = 0" | "l = 1" using assms(4) by linarith
  then show "pending w' = pending w"
  proof cases
    case 1
    with move other [of 2] show ?thesis by (simp add: pending_levels)
  next
    case 2
    with move other [of 0] show ?thesis by (simp add: pending_levels numeral_2_eq_2 add.assoc)
  qed
qed

section \<open>One second\<close>

lemma stage_skip:
  assumes "stage (Suc L) i w" "0 < i" "i mod unit_of L \<noteq> 0"
  shows "stage L i w"
  unfolding stage_def
proof (intro allI ballI)
  fix l j t
  assume t: "t \<in> set (w l j)"
  with assms(1) have p: "l < 3" "placed (i - 1) l j (runat t)"
    "Suc L \<le> l \<Longrightarrow> i div unit_of l < runat t div unit_of l"
    by (auto simp: stage_def)
  show "l < 3 \<and> placed (i - 1) l j (runat t) \<and> (L \<le> l \<longrightarrow> i div unit_of l < runat t div unit_of l)"
  proof (cases "l = L")
    case True
    with placed_other_unit [OF p(2) assms(2)] assms(3) p show ?thesis by simp
  next
    case False
    with p show ?thesis by (simp add: Suc_le_eq nat_less_le)
  qed
qed

lemma check_upper_stage:
  assumes "wheel_inv (i - 1) w" "0 < i"
  defines "w' \<equiv> (if i mod 64 = 0 then timer_check_upper_levels (i div 64) 0 0 w else w)"
  shows "stage 1 i w'" "pending w' = pending w"
proof -
  let ?w2 = "if i mod 4096 = 0 then timer_check_upper_levels (i div 4096) (Suc 0) 6 w else w"
  have two: "stage 2 i ?w2 \<and> pending ?w2 = pending w"
  proof (cases "i mod 4096 = 0")
    case True
    have "stage (Suc (Suc 1)) i w" using stage_3 [OF assms(1)] by (simp add: numeral_eq_Suc)
    from stage_move [OF this assms(2)] True show ?thesis
      by (simp add: timer_check_upper_levels.simps [of "i div 4096"] Let_def numeral_2_eq_2)
  next
    case False
    with stage_skip [of 2 i w] stage_3 [OF assms(1)] assms(2) show ?thesis by simp
  qed
  show "stage 1 i w'" "pending w' = pending w"
  proof -
    have "stage 1 i w' \<and> pending w' = pending w"
    proof (cases "i mod 64 = 0")
      case True
      obtain k where "i = 64 * k" using True by (auto simp: mod_eq_0_iff_dvd)
      moreover have "(64 * k) mod (64 * 64) = 64 * (k mod 64)" by (rule mod_mult_mult1)
      ultimately have "(i div 64) mod 64 = 0 \<longleftrightarrow> i mod 4096 = 0" by simp
      then have w': "w' = put 1 (i div 64 mod 64) []
          (fold (\<lambda>t. list_add_tail 0 (runat t mod 64) t) (?w2 1 (i div 64 mod 64)) ?w2)"
        using True by (simp add: w'_def check_upper_0 div_4096 Let_def)
      have "stage (Suc (Suc 0)) i ?w2" using two by (simp add: numeral_2_eq_2)
      from stage_move [OF this assms(2), of w'] True two w' show ?thesis by simp
    next
      case False
      then have "i mod 4096 \<noteq> 0"
        by (metis dvd_trans mod_eq_0_iff_dvd num_4096)
      with False two stage_skip [of 1 i w] assms(2) show ?thesis by (simp add: w'_def numeral_2_eq_2)
    qed
    then show "stage 1 i w'" "pending w' = pending w" by auto
  qed
qed

text \<open>
  Processing second \<open>i\<close> fires exactly the timers due at \<open>i\<close>, keeps all the others, and re-establishes the
  invariant.
\<close>

lemma timer_tick_step:
  assumes "wheel_inv (i - 1) w" "0 < i"
  obtains w' fired where "timer_tick i (w, lst) = (w', lst @ map (\<lambda>t. t\<lparr>is_running := True\<rparr>) fired)"
    "\<forall>t\<in>set fired. runat t = i" "\<forall>t\<in>#pending w'. i < runat t" "pending w = mset fired + pending w'"
    "wheel_inv i w'"
proof
  define w1 where "w1 = (if i mod 64 = 0 then timer_check_upper_levels (i div 64) 0 0 w else w)"
  let ?w' = "put 0 (i mod 64) [] w1"
  note st = check_upper_stage [OF assms, folded w1_def]
  show "timer_tick i (w, lst) = (?w', lst @ map (\<lambda>t. t\<lparr>is_running := True\<rparr>) (w1 0 (i mod 64)))"
    by (simp add: timer_tick_def Let_def w1_def)
  have all: "i \<le> runat t \<and> (runat t = i \<longleftrightarrow> l = 0 \<and> j = i mod 64)" if "t \<in> set (w1 l j)" for t l j
  proof -
    from st(1) that have p: "l < 3" "placed (i - 1) l j (runat t)"
      "1 \<le> l \<Longrightarrow> i div unit_of l < runat t div unit_of l"
      by (auto simp: stage_def)
    show ?thesis
    proof (cases "l = 0")
      case True
      with placed_in_unit [of i l j "runat t"] p(2) assms(2) show ?thesis by simp
    next
      case False
      then have "i < runat t"
        using p(3) div_le_mono [of "runat t" i "unit_of l"] by (metis leD leI less_one)
      with False show ?thesis by simp
    qed
  qed
  then show "\<forall>t\<in>set (w1 0 (i mod 64)). runat t = i" by blast
  have later: "i < runat t" if "t \<in> set (?w' l j)" for t l j
  proof -
    from that have "t \<in> set (w1 l j)" "\<not> (l = 0 \<and> j = i mod 64)" by (auto simp: put_apply split: if_splits)
    with all [of t l j] show ?thesis by (metis le_neq_implies_less)
  qed
  have st0: "stage 0 i ?w'"
    unfolding stage_def
  proof (intro allI ballI)
    fix l j t
    assume t: "t \<in> set (?w' l j)"
    then have "t \<in> set (w1 l j)" by (auto simp: put_apply split: if_splits)
    with st(1) have p: "l < 3" "placed (i - 1) l j (runat t)"
      "1 \<le> l \<Longrightarrow> i div unit_of l < runat t div unit_of l"
      by (auto simp: stage_def)
    with later [OF t]
    show "l < 3 \<and> placed (i - 1) l j (runat t) \<and> (0 \<le> l \<longrightarrow> i div unit_of l < runat t div unit_of l)"
      by (cases "l = 0") simp_all
  qed
  with assms(2) show "wheel_inv i ?w'" by (simp add: stage_0)
  from pending_iff [OF st0] later show "\<forall>t\<in>#pending ?w'. i < runat t" by blast
  have lev: "?w' l = (if l = 0 then (\<lambda>j. if j = i mod 64 then [] else w1 0 j) else w1 l)" for l
    by (auto simp: put_apply)
  show "pending w = mset (w1 0 (i mod 64)) + pending ?w'"
  proof -
    have "(\<Sum>j<64. mset (w1 0 j)) = mset (w1 0 (i mod 64)) + (\<Sum>j<64. mset (?w' 0 j))"
      using level_put [of "i mod 64" "w1 0"] by (simp add: lev add.commute)
    moreover have "?w' 1 = w1 1" "?w' 2 = w1 2" by (simp_all add: lev)
    ultimately have "pending w1 = mset (w1 0 (i mod 64)) + pending ?w'"
      unfolding pending_levels by (simp only: add.assoc)
    with st(2) show ?thesis by simp
  qed
qed

section \<open>Sweeping an interval\<close>

lemma wheel_inv_later: "wheel_inv T w \<Longrightarrow> \<forall>t\<in>#pending w. T < runat t"
proof
  fix t
  assume "wheel_inv T w" "t \<in># pending w"
  then obtain l j where "placed T l j (runat t)"
    by (auto simp: pending_def set_mset_sum) (meson wheel_invD)
  then show "T < runat t" by (meson div_le_mono leD leI placed_def)
qed

text \<open>
  The sweep over the seconds \<open>from + 1 .. to\<close> fires the timers due by \<open>to\<close>, in the order of their due
  times, and nothing else.
\<close>

lemma sweep:
  assumes "wheel_inv from w" "from \<le> to"
  obtains w' fired where "timer_prepare_timers from to (w, lst) = (w', lst @ map (\<lambda>t. t\<lparr>is_running := True\<rparr>) fired)"
    "sorted (map runat fired)" "\<forall>t\<in>set fired. from < runat t \<and> runat t \<le> to"
    "\<forall>t\<in>#pending w'. to < runat t" "pending w = mset fired + pending w'" "wheel_inv to w'"
  using assms(2) that
proof (induction to arbitrary: thesis rule: dec_induct)
  case base
  show ?case
    by (rule base [of w "[]"]) (simp_all add: timer_prepare_timers_def assms wheel_inv_later [OF assms(1)])
next
  case (step n)
  obtain w1 fired1 where 1: "timer_prepare_timers from n (w, lst) = (w1, lst @ map (\<lambda>t. t\<lparr>is_running := True\<rparr>) fired1)"
    "sorted (map runat fired1)" "\<forall>t\<in>set fired1. from < runat t \<and> runat t \<le> n"
    "\<forall>t\<in>#pending w1. n < runat t" "pending w = mset fired1 + pending w1" "wheel_inv n w1"
    using step.IH by blast
  obtain w2 fired2 where 2: "timer_tick (Suc n) (w1, lst @ map (\<lambda>t. t\<lparr>is_running := True\<rparr>) fired1) =
      (w2, (lst @ map (\<lambda>t. t\<lparr>is_running := True\<rparr>) fired1) @ map (\<lambda>t. t\<lparr>is_running := True\<rparr>) fired2)"
    "\<forall>t\<in>set fired2. runat t = Suc n" "\<forall>t\<in>#pending w2. Suc n < runat t"
    "pending w1 = mset fired2 + pending w2" "wheel_inv (Suc n) w2"
    using timer_tick_step [of "Suc n" w1 "lst @ map (\<lambda>t. t\<lparr>is_running := True\<rparr>) fired1"] 1(6) by auto
  show ?case
  proof (rule step.prems)
    show "timer_prepare_timers from (Suc n) (w, lst) =
        (w2, lst @ map (\<lambda>t. t\<lparr>is_running := True\<rparr>) (fired1 @ fired2))"
      using 1(1) 2(1) step.hyps by (simp add: timer_prepare_timers_def)
    have "\<forall>t\<in>set fired1. runat t \<le> Suc n" using 1(3) by auto
    moreover have "map runat fired2 = replicate (length fired2) (Suc n)"
      using 2(2) by (simp add: map_replicate_const [symmetric])
    ultimately show "sorted (map runat (fired1 @ fired2))"
      using 1(2) by (auto simp: sorted_append)
    show "\<forall>t\<in>set (fired1 @ fired2). from < runat t \<and> runat t \<le> Suc n"
      using 1(3) 2(2) step.hyps by auto
    show "\<forall>t\<in>#pending w2. Suc n < runat t" by (rule 2(3))
    show "pending w = mset (fired1 @ fired2) + pending w2" using 1(5) 2(4) by simp
    show "wheel_inv (Suc n) w2" by (rule 2(5))
  qed
qed

section \<open>Registering and re-arming\<close>

text \<open>The interval and the level of a timer fit each other.\<close>

definition armed :: "ptimer \<Rightarrow> bool" where
  "armed t \<longleftrightarrow> level t < 3 \<and> unit_of (level t) \<le> numsec t \<and> numsec t \<le> 64 * unit_of (level t)"

lemma choose_level_simps [simp]:
  "choose_level s 0 64 =
     (if s \<le> 64 then (0, 64) else if s \<le> 4096 then (1, 4096) else if s \<le> 262144 then (2, 262144)
      else (3, 16777216))"
  by (simp add: choose_level.simps [of s 0] choose_level.simps [of s "Suc 0"]
      choose_level.simps [of s 2] choose_level.simps [of s 3] numeral_2_eq_2 [symmetric] eval_nat_numeral(3) [symmetric])

lemma placed_armed:
  assumes "armed t"
  shows "placed now (level t) (slot_of (level t * 6) (now + numsec t)) (now + numsec t)"
proof -
  let ?u = "unit_of (level t)"
  have u: "0 < ?u" by (simp add: unit_of_def)
  have "(now + ?u) div ?u \<le> (now + numsec t) div ?u" "(now + numsec t) div ?u \<le> (now + 64 * ?u) div ?u"
    using assms by (auto simp: armed_def intro: div_le_mono)
  moreover have "(now + ?u) div ?u = now div ?u + 1" "(now + 64 * ?u) div ?u = now div ?u + 64"
    using u by (simp_all add: div_add_self2)
  ultimately show ?thesis by (simp add: placed_def slot_of_def unit_of_def)
qed

lemma pending_add_tail:
  assumes "l < 3" "j < 64"
  shows "pending (list_add_tail l j t w) = add_mset t (pending w)"
proof -
  have 1: "(\<Sum>j'<64. mset (if j' = j then f j @ [t] else f j')) = add_mset t (\<Sum>j'<64. mset (f j'))" for f
    using assms(2) by (simp add: sum.remove [of "{..<64}" j])
  have 2: "list_add_tail l j t w l' = (if l' = l then (\<lambda>j'. if j' = j then w l j @ [t] else w l j') else w l')" for l'
    by (auto simp: list_add_tail_def put_apply)
  consider "l = 0" | "l = 1" | "l = 2" using assms(1) by linarith
  then show ?thesis unfolding pending_levels 2 by cases (simp_all add: 1)
qed

lemma wheel_inv_add_tail:
  "wheel_inv T w \<Longrightarrow> placed T l j (runat t) \<Longrightarrow> l < 3 \<Longrightarrow> wheel_inv T (list_add_tail l j t w)"
  by (auto simp: wheel_inv_def list_add_tail_def put_apply)

lemma register_eq:
  assumes "t = \<lparr>tid = tm, numsec = min secs 262144, runat = now + min secs 262144,
    level = (if secs \<le> 64 then 0 else if secs \<le> 4096 then 1 else 2), is_running = False, stop_after_run = False\<rparr>"
  shows "psync_timer_register now tm secs w = list_add_tail (level t) (slot_of (level t * 6) (runat t)) t w"
    and "0 < secs \<Longrightarrow> armed t"
  by (auto simp: psync_timer_register_def assms armed_def min_def numeral_2_eq_2)

lemma slot_of_less [simp]: "slot_of sh r < 64"
  by (simp add: slot_of_def)

lemma rearm_step:
  assumes "wheel_inv now w" "armed t"
  shows "wheel_inv now (rearm now t w)"
    and "pending (rearm now t w) = (if stop_after_run t then {#}
      else {#t\<lparr>is_running := False, stop_after_run := False, runat := now + numsec t\<rparr>#}) + pending w"
  using assms placed_armed [OF assms(2), of now]
  by (auto simp: rearm_def Let_def armed_def intro!: wheel_inv_add_tail pending_add_tail)

lemma wheel_inv_init: "wheel_inv T psync_timer_init" "pending psync_timer_init = {#}"
  by (simp_all add: psync_timer_init_def wheel_inv_def pending_def)

section \<open>The service\<close>

text \<open>
  What the rest of the program relies on: a queue of deadlines that is swept from time to time. The laws
  say what one sweep hands out; the lemma, what the sweeps of a whole run hand out.
\<close>

lemma filter_split:
  fixes M :: "('a \<times> nat) multiset"
  assumes "a \<le> b"
  shows "filter_mset (\<lambda>(_, d). d \<le> a) M + filter_mset (\<lambda>(_, d). d \<le> b) (filter_mset (\<lambda>(_, d). a < d) M) =
      filter_mset (\<lambda>(_, d). d \<le> b) M"
    and "filter_mset (\<lambda>(_, d). b < d) (filter_mset (\<lambda>(_, d). a < d) M) = filter_mset (\<lambda>(_, d). b < d) M"
  using assms by (induction M) auto

locale deadline_queue =
  fixes inv :: "nat \<Rightarrow> 's \<Rightarrow> bool"
    and contents :: "'s \<Rightarrow> (nat \<times> nat) multiset"
    and sweep :: "nat \<Rightarrow> nat \<Rightarrow> 's \<Rightarrow> 's \<times> (nat \<times> nat) list"
    and add :: "nat \<Rightarrow> nat \<Rightarrow> nat \<Rightarrow> 's \<Rightarrow> 's"
  assumes sweep_inv: "inv T s \<Longrightarrow> T \<le> T' \<Longrightarrow> inv T' (fst (sweep T T' s))"
    and sweep_fired: "inv T s \<Longrightarrow> T \<le> T' \<Longrightarrow>
      mset (snd (sweep T T' s)) = filter_mset (\<lambda>(_, d). d \<le> T') (contents s)"
    and sweep_rest: "inv T s \<Longrightarrow> T \<le> T' \<Longrightarrow>
      contents (fst (sweep T T' s)) = filter_mset (\<lambda>(_, d). T' < d) (contents s)"
    and sweep_sorted: "inv T s \<Longrightarrow> T \<le> T' \<Longrightarrow> sorted (map snd (snd (sweep T T' s)))"
    and later: "inv T s \<Longrightarrow> y \<in># contents s \<Longrightarrow> T < snd y"
    and add_inv: "inv T s \<Longrightarrow> 0 < d \<Longrightarrow> inv T (add T x d s)"
    and add_contents: "inv T s \<Longrightarrow> 0 < d \<Longrightarrow> d \<le> 262144 \<Longrightarrow>
      contents (add T x d s) = add_mset (x, T + d) (contents s)"
begin

fun sweeps :: "nat \<Rightarrow> nat list \<Rightarrow> 's \<Rightarrow> 's \<times> (nat \<times> nat) list" where
  "sweeps T [] s = (s, [])"
| "sweeps T (T' # Ts) s = (let (s1, f1) = sweep T T' s; (s2, f2) = sweeps T' Ts s1 in (s2, f1 @ f2))"

lemma sweeps_correct:
  assumes "inv T s" "sorted (T # Ts)" "sweeps T Ts s = (s', f)"
  shows "inv (last (T # Ts)) s' \<and> mset f = filter_mset (\<lambda>(_, d). d \<le> last (T # Ts)) (contents s) \<and>
    contents s' = filter_mset (\<lambda>(_, d). last (T # Ts) < d) (contents s) \<and> sorted (map snd f)"
  using assms
proof (induction Ts arbitrary: T s s' f)
  case Nil
  moreover from later [OF Nil(1)] have "filter_mset (\<lambda>(_, d). d \<le> T) (contents s) = {#}"
    by force
  moreover from later [OF Nil(1)] have "filter_mset (\<lambda>(_, d). T < d) (contents s) = contents s"
    by (force simp: filter_mset_eq_conv)
  ultimately show ?case by simp
next
  case (Cons T' Ts)
  obtain s1 f1 where 1: "sweep T T' s = (s1, f1)" by fastforce
  obtain s2 f2 where "sweeps T' Ts s1 = (s2, f2)" by fastforce
  with Cons.prems(3) 1 have 2: "sweeps T' Ts s1 = (s', f2)" and f: "f = f1 @ f2" by auto
  have T': "T \<le> T'" "sorted (T' # Ts)" using Cons.prems(2) by auto
  let ?L = "last (T' # Ts)"
  have L: "T' \<le> ?L" using T'(2) by (cases Ts rule: rev_cases) auto
  note S = sweep_inv [OF Cons.prems(1) T'(1)] sweep_fired [OF Cons.prems(1) T'(1)]
    sweep_rest [OF Cons.prems(1) T'(1)] sweep_sorted [OF Cons.prems(1) T'(1)]
  from Cons.IH [OF _ T'(2) 2] S(1) 1
  have R: "inv ?L s'" "mset f2 = filter_mset (\<lambda>(_, d). d \<le> ?L) (contents s1)"
    "contents s' = filter_mset (\<lambda>(_, d). ?L < d) (contents s1)" "sorted (map snd f2)"
    by auto
  have f1: "mset f1 = filter_mset (\<lambda>(_, d). d \<le> T') (contents s)"
    and c1: "contents s1 = filter_mset (\<lambda>(_, d). T' < d) (contents s)" and s1: "sorted (map snd f1)"
    using S(2-4) 1 by auto
  have "mset f = filter_mset (\<lambda>(_, d). d \<le> ?L) (contents s)"
    unfolding f mset_append f1 R(2) c1 by (rule filter_split(1) [OF L])
  moreover have "contents s' = filter_mset (\<lambda>(_, d). ?L < d) (contents s)"
    unfolding R(3) c1 by (rule filter_split(2) [OF L])
  moreover have "\<forall>x\<in>set f1. snd x \<le> T'" "\<forall>x\<in>set f2. T' < snd x"
    using arg_cong [OF f1, of set_mset] arg_cong [OF R(2), of set_mset] c1 by auto
  then have "sorted (map snd f)"
    using s1 R(4) by (force simp: f sorted_append)
  ultimately show ?case using R(1) by simp
qed

end

text \<open>The wheel provides that service.\<close>

definition deadline :: "ptimer \<Rightarrow> nat \<times> nat" where
  "deadline t = (tid t, runat t)"

definition wheel_sweep :: "nat \<Rightarrow> nat \<Rightarrow> timerlists \<Rightarrow> timerlists \<times> (nat \<times> nat) list" where
  "wheel_sweep from to w = (let (w', lst) = timer_prepare_timers from to (w, []) in (w', map deadline lst))"

lemma wheel_sweepE:
  assumes "wheel_inv T w" "T \<le> T'"
  obtains w' fired where "wheel_sweep T T' w = (w', map deadline fired)" "wheel_inv T' w'"
    "sorted (map runat fired)" "pending w = mset fired + pending w'"
    "\<forall>t\<in>set fired. runat t \<le> T'" "\<forall>t\<in>#pending w'. T' < runat t"
proof -
  obtain w' fired where s: "timer_prepare_timers T T' (w, []) = (w', [] @ map (\<lambda>t. t\<lparr>is_running := True\<rparr>) fired)"
    "sorted (map runat fired)" "\<forall>t\<in>set fired. T < runat t \<and> runat t \<le> T'"
    "\<forall>t\<in>#pending w'. T' < runat t" "pending w = mset fired + pending w'" "wheel_inv T' w'"
    using sweep [OF assms, of "[]"] by metis
  show thesis
    by (rule that [of w' fired]) (use s in \<open>auto simp: wheel_sweep_def deadline_def\<close>)
qed

interpretation wheel: deadline_queue wheel_inv "\<lambda>w. image_mset deadline (pending w)" wheel_sweep psync_timer_register
proof
  fix T T' :: nat and w
  assume w: "wheel_inv T w" "T \<le> T'"
  obtain w' fired where s: "wheel_sweep T T' w = (w', map deadline fired)" "wheel_inv T' w'"
    "sorted (map runat fired)" "pending w = mset fired + pending w'"
    "\<forall>t\<in>set fired. runat t \<le> T'" "\<forall>t\<in>#pending w'. T' < runat t"
    by (rule wheel_sweepE [OF w])
  show "wheel_inv T' (fst (wheel_sweep T T' w))" using s(1,2) by simp
  have none: "filter_mset (\<lambda>(_, d). T' < d) (image_mset deadline (mset fired)) = {#}"
    "filter_mset (\<lambda>(_, d). d \<le> T') (image_mset deadline (pending w')) = {#}"
    using s(5,6) by (auto simp: deadline_def)
  have all: "filter_mset (\<lambda>(_, d). d \<le> T') (image_mset deadline (mset fired)) = image_mset deadline (mset fired)"
    "filter_mset (\<lambda>(_, d). T' < d) (image_mset deadline (pending w')) = image_mset deadline (pending w')"
    using s(5,6) by (auto simp: filter_mset_eq_conv deadline_def)
  show "mset (snd (wheel_sweep T T' w)) = filter_mset (\<lambda>(_, d). d \<le> T') (image_mset deadline (pending w))"
    by (simp add: s(1,4) none all)
  show "image_mset deadline (pending (fst (wheel_sweep T T' w))) =
      filter_mset (\<lambda>(_, d). T' < d) (image_mset deadline (pending w))"
    by (simp add: s(1,4) none all)
  show "sorted (map snd (snd (wheel_sweep T T' w)))"
    using s(1,3) by (simp add: deadline_def comp_def)
next
  fix T w x
  assume "wheel_inv T w" "x \<in># image_mset deadline (pending w)"
  then show "T < snd x" using wheel_inv_later by (auto simp: deadline_def)
next
  fix T w d x
  assume w: "wheel_inv T w" "0 < (d :: nat)"
  note r = register_eq [OF refl, where now = T and tm = x and secs = d]
  show "wheel_inv T (psync_timer_register T x d w)"
    using w placed_armed [OF r(2) [OF w(2)], of T] by (simp only: r(1)) (auto intro!: wheel_inv_add_tail)
  show "d \<le> 262144 \<Longrightarrow> image_mset deadline (pending (psync_timer_register T x d w)) =
      add_mset (x, T + d) (image_mset deadline (pending w))"
    by (simp only: r(1)) (simp add: pending_add_tail deadline_def)
qed

section \<open>The timer thread\<close>

text \<open>A timer as \<^verbatim>\<open>timer_process_timers\<close> puts it back.\<close>

definition rearmed :: "nat \<Rightarrow> ptimer \<Rightarrow> ptimer" where
  "rearmed now t = t\<lparr>is_running := False, stop_after_run := False, runat := now + numsec t\<rparr>"

definition waiting :: "ptimer \<Rightarrow> bool" where
  "waiting t \<longleftrightarrow> armed t \<and> \<not> is_running t \<and> \<not> stop_after_run t"

definition timers_ok :: "nat \<Rightarrow> timerlists \<Rightarrow> bool" where
  "timers_ok T w \<longleftrightarrow> wheel_inv T w \<and> (\<forall>t\<in>#pending w. waiting t)"

lemma process_pending:
  assumes "wheel_inv now w" "\<forall>t\<in>set ts. armed t"
  shows "wheel_inv now (timer_process_timers now ts w)"
    and "pending (timer_process_timers now ts w) =
      mset (map (rearmed now) (filter (\<lambda>t. \<not> stop_after_run t) ts)) + pending w"
proof -
  have "wheel_inv now (timer_process_timers now ts w) \<and> pending (timer_process_timers now ts w) =
      mset (map (rearmed now) (filter (\<lambda>t. \<not> stop_after_run t) ts)) + pending w"
    using assms
  proof (induction ts arbitrary: w)
    case (Cons t ts)
    with rearm_step [of now w t] Cons.IH [of "rearm now t w"] show ?case
      by (auto simp: timer_process_timers_def rearmed_def)
  qed (simp add: timer_process_timers_def)
  then show "wheel_inv now (timer_process_timers now ts w)"
    "pending (timer_process_timers now ts w) =
      mset (map (rearmed now) (filter (\<lambda>t. \<not> stop_after_run t) ts)) + pending w"
    by auto
qed

lemma waiting_rearmed [simp]: "waiting (rearmed now t) = armed t"
  by (simp add: waiting_def rearmed_def armed_def)

lemma rearmed_simps [simp]: "tid (rearmed now t) = tid t" "runat (rearmed now t) = now + numsec t"
    "numsec (rearmed now t) = numsec t"
  by (simp_all add: rearmed_def)

text \<open>Callbacks that leave the wheel in order and do not touch timer \<open>tm\<close>.\<close>

definition quiet :: "(nat \<Rightarrow> timerlists \<times> ptimer list \<Rightarrow> timerlists \<times> ptimer list) \<Rightarrow> nat \<Rightarrow> bool" where
  "quiet calls tm \<longleftrightarrow> (\<forall>now w run w' run'. timers_ok now w \<longrightarrow> (\<forall>t\<in>set run. armed t) \<longrightarrow>
     calls now (w, run) = (w', run') \<longrightarrow> timers_ok now w' \<and> (\<forall>t\<in>set run'. armed t) \<and>
       filter_mset (\<lambda>t. tid t = tm) (pending w') = filter_mset (\<lambda>t. tid t = tm) (pending w) \<and>
       filter (\<lambda>t. tid t = tm) run' = filter (\<lambda>t. tid t = tm) run)"

lemma round_step:
  assumes ok: "timers_ok now w" and q: "quiet calls tm"
    and one: "filter_mset (\<lambda>t. tid t = tm) (pending w) = {#t#}"
    and round: "timer_round calls now (Suc now) w = (w', rans)"
  shows "timers_ok (Suc now) w'"
    and "tm \<in> tid ` set rans \<longleftrightarrow> runat t = Suc now"
    and "filter_mset (\<lambda>t. tid t = tm) (pending w') = {#if runat t = Suc now then rearmed (Suc now) t else t#}"
proof -
  let ?P = "\<lambda>t. tid t = tm"
  let ?run = "\<lambda>t. t\<lparr>is_running := True\<rparr>"
  obtain w1 fired where s: "timer_prepare_timers now (Suc now) (w, []) = (w1, map ?run fired)"
    "\<forall>t\<in>set fired. now < runat t \<and> runat t \<le> Suc now" "\<forall>t\<in>#pending w1. Suc now < runat t"
    "pending w = mset fired + pending w1" "wheel_inv (Suc now) w1"
    using sweep [of now w "Suc now" "[]"] ok by (metis append_Nil le_SucI order_refl timers_ok_def)
  have w1: "timers_ok (Suc now) w1" "\<forall>t\<in>set fired. waiting t"
    using ok s(4,5) by (auto simp: timers_ok_def)
  define run where "run = map ?run fired"
  have run: "\<forall>t\<in>set run. armed t" using w1(2) by (auto simp: run_def waiting_def armed_def)
  obtain w2 run' where c: "(if run \<noteq> [] then calls (Suc now) (w1, run) else (w1, run)) = (w2, run')"
    by fastforce
  have "timer_round calls now (Suc now) w = (timer_process_timers (Suc now) run' w2, run)"
    using c unfolding timer_round_def s(1) run_def [symmetric] by (simp only: prod.case Let_def)
  then have w': "w' = timer_process_timers (Suc now) run' w2" and rans: "rans = run"
    using round by auto
  from c have "run \<noteq> [] \<and> calls (Suc now) (w1, run) = (w2, run') \<or> w2 = w1 \<and> run' = run"
    by (metis prod.inject)
  with q w1(1) run have c: "timers_ok (Suc now) w2" "\<forall>t\<in>set run'. armed t"
    "filter_mset ?P (pending w2) = filter_mset ?P (pending w1)" "filter ?P run' = filter ?P run"
    unfolding quiet_def by blast+
  have "wheel_inv (Suc now) w2" using c(1) by (simp add: timers_ok_def)
  note p = process_pending [OF this c(2)]
  show "timers_ok (Suc now) w'"
    using p c by (auto simp: w' timers_ok_def)
  have "mset (filter ?P fired) + filter_mset ?P (pending w1) = {#t#}" using one s(4) by simp
  then consider (fires) "filter ?P fired = [t]" "filter_mset ?P (pending w1) = {#}"
    | (waits) "filter ?P fired = []" "filter_mset ?P (pending w1) = {#t#}"
    unfolding union_is_single mset_single_iff mset_zero_iff by blast
  note two = this
  have run_P: "filter ?P run = map ?run (filter ?P fired)"
    by (simp add: run_def filter_map comp_def)
  have "filter_mset ?P (pending w') =
      mset (map (rearmed (Suc now)) (filter (\<lambda>t. \<not> stop_after_run t) (filter ?P run'))) + filter_mset ?P (pending w1)"
    unfolding w' p(2) filter_union_mset c(3) mset_filter [symmetric] filter_map
    by (simp only: comp_def filter_filter rearmed_simps conj_commute)
  then have new: "filter_mset ?P (pending w') =
      mset (map (rearmed (Suc now)) (filter (\<lambda>t. \<not> stop_after_run t) (filter ?P run))) + filter_mset ?P (pending w1)"
    by (simp only: c(4))
  have mem: "tm \<in> tid ` set rans \<longleftrightarrow> filter ?P run \<noteq> []"
    by (auto simp: rans filter_empty_conv)
  from two show "tm \<in> tid ` set rans \<longleftrightarrow> runat t = Suc now"
  proof cases
    case fires
    then have "t \<in> set (filter ?P fired)" by simp
    then have "t \<in> set fired" by simp
    with fires s(2) show ?thesis unfolding mem run_P by auto
  next
    case waits
    then have "t \<in># pending w1" by (metis multi_member_last mset_subset_eqD multiset_filter_subset)
    with waits s(3) show ?thesis unfolding mem run_P by auto
  qed
  from two show "filter_mset ?P (pending w') = {#if runat t = Suc now then rearmed (Suc now) t else t#}"
  proof cases
    case fires
    then have "t \<in> set (filter ?P fired)" by simp
    then have "t \<in> set fired" by simp
    with s(2) w1(2) have "runat t = Suc now" "\<not> stop_after_run t" by (auto simp: waiting_def)
    with fires show ?thesis unfolding new run_P by (simp add: rearmed_def)
  next
    case waits
    then have "t \<in># pending w1" by (metis multi_member_last mset_subset_eqD multiset_filter_subset)
    with waits s(3) show ?thesis unfolding new run_P by auto
  qed
qed

lemma timer_thread_times:
  "timer_thread calls now ts w = (w', runs) \<Longrightarrow> map fst runs = ts"
  by (induction ts arbitrary: now w runs) (auto simp: Let_def split: prod.splits)

lemma timer_thread_seconds:
  assumes "timers_ok now w" "quiet calls tm" "0 < numsec t" "now < runat t" "runat t \<le> now + numsec t"
    and "filter_mset (\<lambda>t. tid t = tm) (pending w) = {#t#}"
    and "timer_thread calls now (map (\<lambda>k. now + k) [1..<Suc n]) w = (w', runs)"
    and "(i, rans) \<in> set runs"
  shows "tm \<in> tid ` set rans \<longleftrightarrow> numsec t dvd (i + numsec t - runat t)"
  using assms
proof (induction n arbitrary: now w t runs)
  case (Suc n)
  have split: "map (\<lambda>k. now + k) [1..<Suc (Suc n)] = Suc now # map (\<lambda>k. Suc now + k) [1..<Suc n]"
    by (simp add: upt_conv_Cons map_Suc_upt [symmetric] comp_def del: upt_Suc)
  obtain w1 ran1 where 1: "timer_round calls now (Suc now) w = (w1, ran1)" by fastforce
  obtain w2 runs2 where 2: "timer_thread calls (Suc now) (map (\<lambda>k. Suc now + k) [1..<Suc n]) w1 = (w2, runs2)"
    by fastforce
  have runs: "runs = (Suc now, ran1) # runs2" and w': "w' = w2"
    using Suc.prems(7) unfolding split timer_thread.simps(2) 1 prod.case Let_def 2 by simp_all
  note r = round_step [OF Suc.prems(1,2,6) 1]
  show ?case
  proof (cases "(i, rans) = (Suc now, ran1)")
    case True
    have "numsec t dvd (Suc now + numsec t - runat t) \<longleftrightarrow> runat t = Suc now"
    proof
      assume "numsec t dvd (Suc now + numsec t - runat t)"
      then have "numsec t \<le> Suc now + numsec t - runat t" using Suc.prems(3-5) by (intro dvd_imp_le) auto
      then show "runat t = Suc now" using Suc.prems(3,4) by linarith
    qed simp
    with r(2) True show ?thesis by auto
  next
    case False
    with Suc.prems(8) runs have in2: "(i, rans) \<in> set runs2" by auto
    show ?thesis
    proof (cases "runat t = Suc now")
      case True
      have "tm \<in> tid ` set rans \<longleftrightarrow>
          numsec (rearmed (Suc now) t) dvd (i + numsec (rearmed (Suc now) t) - runat (rearmed (Suc now) t))"
        using Suc.IH [OF r(1) Suc.prems(2) _ _ _ _ 2 [folded w'] in2, of "rearmed (Suc now) t"] r(3) Suc.prems(3) True by simp
      moreover have "numsec t dvd (i - Suc now) \<longleftrightarrow> numsec t dvd (i + numsec t - Suc now)" if "Suc now \<le> i"
        using that by (metis Nat.diff_add_assoc2 dvd_add_triv_right_iff)
      moreover have "i \<in> set (map fst runs2)" using in2 by force
      then have "Suc now \<le> i" unfolding timer_thread_times [OF 2] by auto
      ultimately show ?thesis using True by simp
    next
      case neq: False
      then have "Suc now < runat t" "runat t \<le> Suc now + numsec t" using Suc.prems(4,5) by auto
      with Suc.IH [OF r(1) Suc.prems(2,3) _ _ _ 2 [folded w'] in2] r(3) neq show ?thesis by simp
    qed
  qed
qed simp

lemma filter_mset_sum: "finite A \<Longrightarrow> filter_mset P (\<Sum>x\<in>A. f x) = (\<Sum>x\<in>A. filter_mset P (f x))"
  by (induction A rule: finite_induct) auto

lemma pending_unlink:
  "pending (\<lambda>l j. filter P (w l j)) = filter_mset P (pending w)"
  by (simp add: pending_def filter_mset_sum)

section \<open>Properties\<close>

text \<open>
  C13. A sweep of the wheel from the last time to the current one moves to the result exactly the waiting
  timers whose time has come, each once, in the order of their times and marked as running; all the others
  stay, and the wheel is again in order for the next sweep. The intervals may cross any number of slot
  boundaries of every level (a sleep of the machine included).
\<close>

theorem timer_sweep_correct:
  assumes "wheel_inv from w" "from \<le> to"
  shows "\<exists>w' fired. timer_prepare_timers from to (w, lst) = (w', lst @ map (\<lambda>t. t\<lparr>is_running := True\<rparr>) fired) \<and>
    mset fired = filter_mset (\<lambda>t. runat t \<le> to) (pending w) \<and> sorted (map runat fired) \<and>
    pending w' = filter_mset (\<lambda>t. to < runat t) (pending w) \<and> wheel_inv to w'"
proof -
  obtain w' fired where s: "timer_prepare_timers from to (w, lst) = (w', lst @ map (\<lambda>t. t\<lparr>is_running := True\<rparr>) fired)"
    "sorted (map runat fired)" "\<forall>t\<in>set fired. from < runat t \<and> runat t \<le> to"
    "\<forall>t\<in>#pending w'. to < runat t" "pending w = mset fired + pending w'" "wheel_inv to w'"
    by (rule sweep [OF assms])
  have "filter_mset (\<lambda>t. runat t \<le> to) (mset fired) = mset fired"
    "filter_mset (\<lambda>t. to < runat t) (mset fired) = {#}"
    using s(3) by (auto simp: filter_mset_eq_conv)
  moreover have "filter_mset (\<lambda>t. runat t \<le> to) (pending w') = {#}"
    "filter_mset (\<lambda>t. to < runat t) (pending w') = pending w'"
    using s(4) by (auto simp: filter_mset_eq_conv)
  ultimately show ?thesis using s(1,2,5,6) by (metis add_0 add.right_neutral filter_union_mset)
qed

text \<open>A wheel with three timers, one per level, at time 4000.\<close>

definition sample_wheel :: timerlists where
  "sample_wheel = psync_timer_register 4000 3 5000 (psync_timer_register 4000 2 96 (psync_timer_register 4000 1 7 psync_timer_init))"

lemma sample_wheel_inv: "wheel_inv 4000 sample_wheel"
  by (simp add: sample_wheel_def wheel.add_inv wheel_inv_init)

theorem timer_sweep_correct_witness:
  "\<exists>w' fired. timer_prepare_timers 4000 4100 (sample_wheel, []) = (w', [] @ map (\<lambda>t. t\<lparr>is_running := True\<rparr>) fired) \<and>
    mset fired = filter_mset (\<lambda>t. runat t \<le> 4100) (pending sample_wheel) \<and> sorted (map runat fired) \<and>
    pending w' = filter_mset (\<lambda>t. 4100 < runat t) (pending sample_wheel) \<and> wheel_inv 4100 w'"
  by (rule timer_sweep_correct [OF sample_wheel_inv]) simp

text \<open>
  C14. A registered timer is periodic: with a wheel in order, callbacks that do not touch this timer, and the
  timer thread waking every second, timer \<open>tm\<close> runs in the rounds whose distance from the registration is a
  multiple of its interval (at most \<open>64 ^ 3\<close> seconds), and in no other.
\<close>

theorem timer_periodic:
  assumes "timers_ok now w" "quiet calls tm" "0 < secs" "\<forall>t\<in>#pending w. tid t \<noteq> tm"
    and "timer_thread calls now (map (\<lambda>k. now + k) [1..<Suc n]) (psync_timer_register now tm secs w) = (w', runs)"
    and "(i, rans) \<in> set runs"
  shows "now < i \<and> i \<le> now + n \<and> (tm \<in> tid ` set rans \<longleftrightarrow> min secs 262144 dvd i - now)"
proof -
  define t where "t = \<lparr>tid = tm, numsec = min secs 262144, runat = now + min secs 262144,
    level = (if secs \<le> 64 then 0 else if secs \<le> 4096 then 1 else 2), is_running = False, stop_after_run = False\<rparr>"
  note r = register_eq [OF t_def]
  have armed: "armed t" using r(2) assms(3) .
  then have add: "pending (psync_timer_register now tm secs w) = add_mset t (pending w)"
    unfolding r(1) by (simp add: pending_add_tail armed_def)
  have ok: "timers_ok now (psync_timer_register now tm secs w)"
    using wheel.add_inv [of now w secs tm] assms(1,3) armed
    by (auto simp: timers_ok_def add waiting_def) (simp_all add: t_def)
  have "filter_mset (\<lambda>t. tid t = tm) (pending w) = {#}" using assms(4) by simp
  then have one: "filter_mset (\<lambda>t. tid t = tm) (pending (psync_timer_register now tm secs w)) = {#t#}"
    by (simp add: add) (simp add: t_def)
  have "i \<in> set (map fst runs)" using assms(6) by force
  then have i: "now < i" "i \<le> now + n" unfolding timer_thread_times [OF assms(5)] by auto
  have "tm \<in> tid ` set rans \<longleftrightarrow> numsec t dvd (i + numsec t - runat t)"
    by (rule timer_thread_seconds [OF ok assms(2) _ _ _ one assms(5,6)]) (use assms(3) in \<open>auto simp: t_def\<close>)
  with i show ?thesis by (simp add: t_def)
qed

lemma quiet_id: "quiet (\<lambda>_ s. s) tm"
  by (simp add: quiet_def)

theorem timer_periodic_witness:
  "\<exists>w' runs. timer_thread (\<lambda>_ s. s) 62 (map (\<lambda>k. 62 + k) [1..<Suc 5]) (psync_timer_register 62 9 2 psync_timer_init) = (w', runs) \<and>
    (\<exists>ran1. (64, ran1) \<in> set runs \<and> 9 \<in> tid ` set ran1) \<and> (\<exists>ran2. (65, ran2) \<in> set runs \<and> 9 \<notin> tid ` set ran2)"
proof -
  obtain w' runs where r: "timer_thread (\<lambda>_ s. s) 62 (map (\<lambda>k. 62 + k) [1..<Suc 5])
    (psync_timer_register 62 9 2 psync_timer_init) = (w', runs)" by fastforce
  have ok: "timers_ok 62 psync_timer_init" "\<forall>t\<in>#pending psync_timer_init. tid t \<noteq> 9"
    by (simp_all add: timers_ok_def wheel_inv_init)
  note P = timer_periodic [OF ok(1) quiet_id _ ok(2) r]
  have "64 \<in> set (map fst runs)" "65 \<in> set (map fst runs)"
    unfolding timer_thread_times [OF r] by auto
  then obtain ran1 ran2 where "(64, ran1) \<in> set runs" "(65, ran2) \<in> set runs" by auto
  with P [of 64 ran1] P [of 65 ran2] r show ?thesis by auto
qed

text \<open>
  Stopping: after \<^verbatim>\<open>psync_timer_stop\<close>, whether the timer was waiting or its callback was running, the
  timer is in no slot once the timer thread has put back the running ones; the other timers stay.
\<close>

theorem timer_stop_stops:
  assumes "wheel_inv now w" "\<forall>t\<in>set run. armed t \<and> is_running t"
    and "tm \<in> tid ` set run \<Longrightarrow> \<forall>t\<in>#pending w. tid t \<noteq> tm"
    and "psync_timer_stop tm (w, run) = ((w', run'), r)"
  shows "(r \<longleftrightarrow> tm \<in> tid ` set run) \<and> wheel_inv now (timer_process_timers now run' w') \<and>
    pending (timer_process_timers now run' w') =
      filter_mset (\<lambda>t. tid t \<noteq> tm) (pending (timer_process_timers now run w))"
proof (cases "tm \<in> tid ` set run")
  case True
  with assms(2,4) have e: "w' = w" "run' = map (\<lambda>t. if tid t = tm then t\<lparr>stop_after_run := True\<rparr> else t) run" "r"
    by (auto simp: psync_timer_stop_def split: if_splits)
  have arm: "\<forall>t\<in>set run'. armed t" using assms(2) by (auto simp: e armed_def)
  have "filter (\<lambda>t. \<not> stop_after_run t) run' = filter (\<lambda>t. tid t \<noteq> tm) (filter (\<lambda>t. \<not> stop_after_run t) run)"
    unfolding e(2) by (induction run) auto
  then have "mset (map (rearmed now) (filter (\<lambda>t. \<not> stop_after_run t) run')) =
      filter_mset (\<lambda>t. tid t \<noteq> tm) (mset (map (rearmed now) (filter (\<lambda>t. \<not> stop_after_run t) run)))"
    unfolding mset_filter [symmetric] filter_map by (simp add: comp_def)
  moreover have "filter_mset (\<lambda>t. tid t \<noteq> tm) (pending w) = pending w"
    using assms(3) True by (auto simp: filter_mset_eq_conv)
  ultimately show ?thesis
    using True e assms(2) process_pending [OF assms(1) arm] process_pending [OF assms(1), of run] by simp
next
  case False
  with assms(4) have e: "w' = (\<lambda>l j. filter (\<lambda>t. tid t \<noteq> tm) (w l j))" "run' = run" "\<not> r"
    by (auto simp: psync_timer_stop_def split: if_splits)
  have inv: "wheel_inv now w'" using assms(1) by (auto simp: e wheel_inv_def)
  have "filter (\<lambda>t. tid t \<noteq> tm) (map (rearmed now) (filter (\<lambda>t. \<not> stop_after_run t) run)) =
      map (rearmed now) (filter (\<lambda>t. \<not> stop_after_run t) run)"
    using False by (intro filter_True) auto
  then have "filter_mset (\<lambda>t. tid t \<noteq> tm) (mset (map (rearmed now) (filter (\<lambda>t. \<not> stop_after_run t) run))) =
      mset (map (rearmed now) (filter (\<lambda>t. \<not> stop_after_run t) run))"
    unfolding mset_filter [symmetric] by (rule arg_cong)
  then show ?thesis
    using False e assms(2) process_pending [OF inv, of run] process_pending [OF assms(1), of run]
    by (simp add: pending_unlink)
qed

theorem timer_stop_stops_witness:
  "\<exists>w' run' r. psync_timer_stop 2 (sample_wheel, []) = ((w', run'), r) \<and>
    (r \<longleftrightarrow> 2 \<in> tid ` set ([] :: ptimer list)) \<and> wheel_inv 4000 (timer_process_timers 4000 run' w') \<and>
    pending (timer_process_timers 4000 run' w') =
      filter_mset (\<lambda>t. tid t \<noteq> 2) (pending (timer_process_timers 4000 [] sample_wheel))"
proof -
  obtain w' run' r where s: "psync_timer_stop 2 (sample_wheel, []) = ((w', run'), r)"
    by (metis surj_pair)
  have "(r \<longleftrightarrow> 2 \<in> tid ` set ([] :: ptimer list)) \<and> wheel_inv 4000 (timer_process_timers 4000 run' w') \<and>
    pending (timer_process_timers 4000 run' w') =
      filter_mset (\<lambda>t. tid t \<noteq> 2) (pending (timer_process_timers 4000 [] sample_wheel))"
    by (rule timer_stop_stops [OF sample_wheel_inv _ _ s]) simp_all
  with s show ?thesis by blast
qed

text \<open>
  The time that \<^verbatim>\<open>psync_timer_register\<close> reads is set before the timer thread takes the lock: a timer
  of 64 seconds registered between the two lands in the slot that is about to be processed and runs
  at once, in the sweep of the very second it was registered in.
\<close>

theorem timer_register_race:
  "map deadline (snd (timer_prepare_timers 99 100 (psync_timer_register 100 5 64 psync_timer_init, []))) = [(5, 164)]"
  by code_simp

end
