(* ===== verification/Codec.thy ===== *)
theory Codec
  imports Prelude
begin

text \<open>
  The text codecs and string routines of \<^verbatim>\<open>plibs.c\<close>: base32 and base64, the UTF-8 check, glob matching,
  decimal parsing, file-name normalisation and the name of a conflicted copy. Strings are byte lists;
  allocated buffers are the lists returned, and the bounds lemmas compare their lengths (with the
  terminating NUL) to the sizes the code allocates.
\<close>

unbundle bit_operations_syntax

section \<open>Base32\<close>

text \<open>\<^verbatim>\<open>"ABCDEFGHIJKLMNOPQRSTUVWXYZ234567"\<close>\<close>

definition b32_table :: "u8 list" where
  "b32_table = map of_nat [65..<91] @ map of_nat [50..<56]"

definition b32_char :: "nat \<Rightarrow> u32 \<Rightarrow> u8" where
  "b32_char bits buff = b32_table ! unat (0x1f AND drop_bit bits buff)"

function b32_loop :: "u8 list \<Rightarrow> nat \<Rightarrow> u32 \<Rightarrow> nat \<times> u32 \<times> u8 list" where
  "b32_loop str bits buff =
     (if str = [] then (bits, buff, [])
      else let (str, bits, buff) =
             (if bits < 5 then (tl str, bits + 8, push_bit 8 buff OR ucast (hd str)) else (str, bits, buff));
             bits = bits - 5;
             (b, u, out) = b32_loop str bits buff
           in (b, u, b32_char bits buff # out))"
  by pat_completeness auto
termination
  by (relation "measure (\<lambda>(str, bits, _). 8 * length str + bits)")
    (auto split: if_splits simp: neq_Nil_conv)

declare b32_loop.simps [simp del]

function b32_flush :: "nat \<Rightarrow> u32 \<Rightarrow> u8 list" where
  "b32_flush bits buff =
     (if bits = 0 then []
      else let (buff, bits) = (if bits < 5 then (push_bit (5 - bits) buff, 5) else (buff, bits));
             bits = bits - 5
           in b32_char bits buff # b32_flush bits buff)"
  by pat_completeness auto
termination
  by (relation "measure fst") (auto split: if_splits)

declare b32_flush.simps [simp del]

definition psync_base32_encode :: "u8 list \<Rightarrow> u8 list" where
  "psync_base32_encode str = (let (bits, buff, out) = b32_loop str 0 0 in out @ b32_flush bits buff)"

text \<open>The value of a character, in the arithmetic of \<^verbatim>\<open>unsigned char\<close>.\<close>

definition b32_value :: "u8 \<Rightarrow> u8 option" where
  "b32_value ch =
     (if 65 \<le> ch \<and> ch \<le> 90 then Some ((ch AND 0x1f) - 1)
      else if 50 \<le> ch \<and> ch \<le> 55 then Some (ch - (50 - 26))
      else None)"

fun b32_decode_loop :: "u8 list \<Rightarrow> nat \<Rightarrow> u32 \<Rightarrow> u8 list option" where
  "b32_decode_loop [] bits buff = Some []"
| "b32_decode_loop (c # str) bits buff =
     (case b32_value c of
        None \<Rightarrow> None
      | Some ch \<Rightarrow>
          let buff = push_bit 5 buff + ucast ch; bits = bits + 5 in
          if 8 \<le> bits
          then map_option (\<lambda>out. ucast (drop_bit (bits - 8) buff) # out) (b32_decode_loop str (bits - 8) buff)
          else b32_decode_loop str bits buff)"

definition psync_base32_decode :: "u8 list \<Rightarrow> u8 list option" where
  "psync_base32_decode str = b32_decode_loop str 0 0"

section \<open>Base64\<close>

text \<open>\<^verbatim>\<open>base64_table\<close>: letters, digits, \<open>-\<close> and \<open>_\<close>\<close>

definition base64_table :: "u8 list" where
  "base64_table = map of_nat [65..<91] @ map of_nat [97..<123] @ map of_nat [48..<58] @ [45, 95]"

definition base64_reverse_table :: "int list" where
  "base64_reverse_table =
   [-2, -2, -2, -2, -2, -2, -2, -2, -2, -1, -1, -2, -2, -1, -2, -2,
    -2, -2, -2, -2, -2, -2, -2, -2, -2, -2, -2, -2, -2, -2, -2, -2,
    -1, -2, -2, -2, -2, -2, -2, -2, -2, -2, -2, 62, -2, 62, -2, 63,
    52, 53, 54, 55, 56, 57, 58, 59, 60, 61, -2, -2, -2, -1, -2, -2,
    -2, 0, 1, 2, 3, 4, 5, 6, 7, 8, 9, 10, 11, 12, 13, 14,
    15, 16, 17, 18, 19, 20, 21, 22, 23, 24, 25, -2, -2, -2, -2, 63,
    -2, 26, 27, 28, 29, 30, 31, 32, 33, 34, 35, 36, 37, 38, 39, 40,
    41, 42, 43, 44, 45, 46, 47, 48, 49, 50, 51, -2, -2, -2, -2, -2,
    -2, -2, -2, -2, -2, -2, -2, -2, -2, -2, -2, -2, -2, -2, -2, -2,
    -2, -2, -2, -2, -2, -2, -2, -2, -2, -2, -2, -2, -2, -2, -2, -2,
    -2, -2, -2, -2, -2, -2, -2, -2, -2, -2, -2, -2, -2, -2, -2, -2,
    -2, -2, -2, -2, -2, -2, -2, -2, -2, -2, -2, -2, -2, -2, -2, -2,
    -2, -2, -2, -2, -2, -2, -2, -2, -2, -2, -2, -2, -2, -2, -2, -2,
    -2, -2, -2, -2, -2, -2, -2, -2, -2, -2, -2, -2, -2, -2, -2, -2,
    -2, -2, -2, -2, -2, -2, -2, -2, -2, -2, -2, -2, -2, -2, -2, -2,
    -2, -2, -2, -2, -2, -2, -2, -2, -2, -2, -2, -2, -2, -2, -2, -2]"

abbreviation "b64 x \<equiv> base64_table ! unat (x :: u8)"

fun psync_base64_encode :: "u8 list \<Rightarrow> u8 list" where
  "psync_base64_encode (a # b # c # str) =
     [b64 (drop_bit 2 a), b64 (push_bit 4 (a AND 0x03) + drop_bit 4 b),
      b64 (push_bit 2 (b AND 0x0f) + drop_bit 6 c), b64 (c AND 0x3f)] @ psync_base64_encode str"
| "psync_base64_encode [a, b] =
     [b64 (drop_bit 2 a), b64 (push_bit 4 (a AND 0x03) + drop_bit 4 b), b64 (push_bit 2 (b AND 0x0f))]"
| "psync_base64_encode [a] = [b64 (drop_bit 2 a), b64 (push_bit 4 (a AND 0x03))]"
| "psync_base64_encode [] = []"

text \<open>
  The loop of \<^verbatim>\<open>psync_base64_decode\<close>: \<open>i\<close> counts the characters used, \<open>out\<close> holds \<^verbatim>\<open>result[0..j-1]\<close> and \<open>cur\<close>
  is \<^verbatim>\<open>result[j]\<close>.
\<close>

fun b64_loop :: "u8 list \<Rightarrow> nat \<Rightarrow> u8 \<Rightarrow> u8 list \<Rightarrow> u8 list option" where
  "b64_loop [] i cur out = Some out"
| "b64_loop (c # str) i cur out =
     (let t = base64_reverse_table ! unat c in
      if t = -1 then b64_loop str i cur out
      else if t = -2 then None
      else let ch = of_int t :: u8 in
        if i mod 4 = 0 then b64_loop str (i + 1) (push_bit 2 ch) out
        else if i mod 4 = 1 then b64_loop str (i + 1) (push_bit 4 (ch AND 0x0f)) (out @ [cur OR drop_bit 4 ch])
        else if i mod 4 = 2 then b64_loop str (i + 1) (push_bit 6 (ch AND 0x03)) (out @ [cur OR drop_bit 2 ch])
        else b64_loop str (i + 1) 0 (out @ [cur OR ch]))"

definition psync_base64_decode :: "u8 list \<Rightarrow> u8 list option" where
  "psync_base64_decode str = b64_loop str 0 0 []"

section \<open>UTF-8\<close>

definition utf8_trailing :: "int list" where
  "utf8_trailing = replicate 128 0 @ replicate 64 (-1) @ replicate 32 1 @ replicate 16 2 @
     replicate 8 3 @ replicate 8 (-1)"

text \<open>The inner loop: \<open>Ok (Some s)\<close> is the string behind \<open>n\<close> continuation bytes, \<open>Ok None\<close> the \<^verbatim>\<open>return 0\<close>.\<close>

fun utf8_cont :: "nat \<Rightarrow> u8 list \<Rightarrow> u8 list option outcome" where
  "utf8_cont 0 s = Ok (Some s)"
| "utf8_cont (Suc n) [] = Overread"
| "utf8_cont (Suc n) (c # s) = (if c AND 0xc0 \<noteq> 0x80 then Ok None else utf8_cont n s)"

lemma utf8_cont_length: "utf8_cont n s = Ok (Some s') \<Longrightarrow> length s' + n = length s"
  by (induction n s arbitrary: s' rule: utf8_cont.induct) (auto split: if_splits)

function psync_is_valid_utf8 :: "u8 list \<Rightarrow> bool outcome" where
  "psync_is_valid_utf8 [] = Overread"
| "psync_is_valid_utf8 (c # str) =
     (if c = 0 then Ok True
      else let t = utf8_trailing ! unat c in
        if t < 0 then Ok False
        else case utf8_cont (nat t) str of
          Ok (Some str') \<Rightarrow> psync_is_valid_utf8 str'
        | Ok None \<Rightarrow> Ok False
        | Fail \<Rightarrow> Fail | Overread \<Rightarrow> Overread | NoFuel \<Rightarrow> NoFuel)"
  by pat_completeness auto
termination
  by (relation "measure length") (auto dest: utf8_cont_length)

declare psync_is_valid_utf8.simps(2) [simp del]

section \<open>Glob patterns\<close>

abbreviation (input) "CH_STAR \<equiv> 42 :: u8"
abbreviation (input) "CH_QM \<equiv> 63 :: u8"

text \<open>
  \<^verbatim>\<open>psync_match_pattern\<close> on the characters before the NUL of \<^verbatim>\<open>name\<close>: \<open>match_lit\<close> is the outer loop,
  \<open>match_star\<close> the loop behind a star, \<open>match_scan\<close> the \<^verbatim>\<open>strchr\<close> loop over the occurrences of \<open>c\<close>, with the
  recursive call on what follows. Patterns hold no NUL.
\<close>

function (sequential) psync_match_pattern :: "u8 list \<Rightarrow> u8 list \<Rightarrow> bool"
  and match_star :: "u8 list \<Rightarrow> u8 list \<Rightarrow> bool"
  and match_scan :: "u8 \<Rightarrow> u8 list \<Rightarrow> u8 list \<Rightarrow> bool"
where
  "psync_match_pattern name [] \<longleftrightarrow> name = []"
| "psync_match_pattern name (p # pat) \<longleftrightarrow>
     (if p = CH_STAR then match_star name pat
      else case name of [] \<Rightarrow> False
        | c # cs \<Rightarrow> if p \<noteq> c \<and> p \<noteq> CH_QM then False else psync_match_pattern cs pat)"
| "match_star name [] \<longleftrightarrow> True"
| "match_star name (p # pat) \<longleftrightarrow>
     (if p = CH_QM then (case name of [] \<Rightarrow> False | c # cs \<Rightarrow> match_star cs pat)
      else if p = CH_STAR then match_star name pat
      else match_scan p pat name)"
| "match_scan c pat [] \<longleftrightarrow> False"
| "match_scan c pat (x # name) \<longleftrightarrow>
     (if x = c then psync_match_pattern name pat \<or> match_scan c pat name else match_scan c pat name)"
  by pat_completeness auto
termination
  by (relation "measures [\<lambda>x. case x of Inl (_, pat) \<Rightarrow> length pat | Inr (Inl (_, pat)) \<Rightarrow> length pat
        | Inr (Inr (_, pat, _)) \<Rightarrow> length pat,
      \<lambda>x. case x of Inl (name, _) \<Rightarrow> 0 | Inr (Inl (name, _)) \<Rightarrow> 0 | Inr (Inr (_, _, name)) \<Rightarrow> Suc (length name)]") auto

section \<open>Numbers and names\<close>

fun ato64_loop :: "u64 \<Rightarrow> u8 list \<Rightarrow> u64" where
  "ato64_loop n [] = n"
| "ato64_loop n (c # str) = (if 48 \<le> c \<and> c \<le> 57 then ato64_loop (n * 10 + ucast c - 48) str else n)"

definition psync_ato64 :: "u8 list \<Rightarrow> u64" where
  "psync_ato64 str = ato64_loop 0 str"

fun ato32_loop :: "u32 \<Rightarrow> u8 list \<Rightarrow> u32" where
  "ato32_loop n [] = n"
| "ato32_loop n (c # str) = (if 48 \<le> c \<and> c \<le> 57 then ato32_loop (n * 10 + ucast c - 48) str else n)"

definition psync_ato32 :: "u8 list \<Rightarrow> u32" where
  "psync_ato32 str = ato32_loop 0 str"

definition normalize_table :: "u8 \<Rightarrow> u8" where
  "normalize_table = (\<lambda>c. c)(58 := 95, 47 := 95, 92 := 95)"

definition psync_strnormalize_filename :: "u8 list \<Rightarrow> u8 list" where
  "psync_strnormalize_filename str = map normalize_table str"

definition psync_strcat :: "u8 list list \<Rightarrow> u8 list" where
  "psync_strcat strs = concat strs"

text \<open>The index at which \<^verbatim>\<open>psync_rename_conflicted_file\<close> inserts: the last dot, but not one in front.\<close>

fun dot_search :: "u8 list \<Rightarrow> nat \<Rightarrow> nat" where
  "dot_search path 0 = 0"
| "dot_search path (Suc i) = (if (path @ [0]) ! Suc i \<noteq> 46 then dot_search path i else Suc i)"

definition conflict_index :: "u8 list \<Rightarrow> nat" where
  "conflict_index path = (let i = dot_search path (length path) in if i = 0 then length path else i)"

fun dec_digits :: "nat \<Rightarrow> u8 list" where
  "dec_digits n = (if n < 10 then [of_nat (48 + n)] else dec_digits (n div 10) @ [of_nat (48 + n mod 10)])"

declare dec_digits.simps [simp del]

text \<open>\<^verbatim>\<open>" (conflicted)"\<close> and \<^verbatim>\<open>" (conflicted %ld)"\<close>\<close>

definition conflict_mark :: "nat \<Rightarrow> u8 list" where
  "conflict_mark num = [32, 40, 99, 111, 110, 102, 108, 105, 99, 116, 101, 100] @
     (if num = 0 then [] else 32 # dec_digits num) @ [41]"

definition conflict_name :: "u8 list \<Rightarrow> nat \<Rightarrow> u8 list" where
  "conflict_name path num = take (conflict_index path) path @ conflict_mark num @ drop (conflict_index path) path"

text \<open>
  The loop over the numbers: \<open>stat\<close> says whether a path exists (\<^verbatim>\<open>psync_stat\<close> returns 0); the first free
  name is the one the file is renamed to.
\<close>

fun psync_rename_conflicted_file :: "nat \<Rightarrow> (u8 list \<Rightarrow> bool) \<Rightarrow> u8 list \<Rightarrow> nat \<Rightarrow> u8 list option" where
  "psync_rename_conflicted_file 0 stat path num = None"
| "psync_rename_conflicted_file (Suc f) stat path num =
     (if \<not> stat (conflict_name path num) then Some (conflict_name path num)
      else psync_rename_conflicted_file f stat path (num + 1))"

section \<open>Bit streams\<close>

text \<open>The low \<open>n\<close> bits of a word, the most significant first.\<close>

definition vbits :: "nat \<Rightarrow> 'a::len word \<Rightarrow> bool list" where
  "vbits n x = map (bit x) (rev [0..<n])"

definition byte_bits :: "u8 list \<Rightarrow> bool list" where
  "byte_bits s = concat (map (vbits 8) s)"

lemma vbits_eqI: "(\<And>i. i < n \<Longrightarrow> bit x i = bit y i) \<Longrightarrow> vbits n x = vbits n y"
  by (simp add: vbits_def)

lemma length_vbits [simp]: "length (vbits n x) = n"
  by (simp add: vbits_def)

lemma vbits_0 [simp]: "vbits 0 x = []"
  by (simp add: vbits_def)

lemma length_byte_bits [simp]: "length (byte_bits s) = 8 * length s"
  by (induction s) (auto simp: byte_bits_def)

lemma byte_bits_simps [simp]: "byte_bits [] = []" "byte_bits (c # s) = vbits 8 c @ byte_bits s"
  by (simp_all add: byte_bits_def)

lemma nth_vbits: "i < n \<Longrightarrow> vbits n x ! i = bit x (n - 1 - i)"
  by (simp add: vbits_def rev_nth)

lemma vbits_split:
  "(\<And>i. i < k \<Longrightarrow> bit y i = bit x (n + i)) \<Longrightarrow> (\<And>i. i < n \<Longrightarrow> bit z i = bit x i) \<Longrightarrow>
    vbits (n + k) x = vbits k y @ vbits n z"
  by (rule nth_equalityI) (auto simp: nth_append nth_vbits)

lemma vbits_8_inj:
  fixes x y :: u8
  assumes "vbits 8 x = vbits 8 y"
  shows "x = y"
proof (rule bit_word_eqI)
  fix n
  assume "n < LENGTH(8)"
  then have "vbits 8 x ! (7 - n) = bit x n" "vbits 8 y ! (7 - n) = bit y n" by (simp_all add: nth_vbits)
  with assms show "bit x n = bit y n" by simp
qed

lemma byte_bits_inj: "byte_bits s = byte_bits t \<Longrightarrow> s = t"
proof (induction s arbitrary: t)
  case Nil
  then show ?case by (cases t) (auto dest: arg_cong [of _ _ length])
next
  case (Cons c s)
  then obtain d t' where t: "t = d # t'" by (cases t) (auto dest: arg_cong [of _ _ length])
  with Cons.prems have "vbits 8 c = vbits 8 d" "byte_bits s = byte_bits t'" by simp_all
  with Cons.IH t vbits_8_inj show ?case by blast
qed

text \<open>Shifting a byte or a group in, taking a byte or a group out.\<close>

lemma vbits_shift_in_byte:
  fixes x :: u32 and c :: u8
  assumes "n + 8 \<le> 32"
  shows "vbits (n + 8) (push_bit 8 x OR ucast c) = vbits n x @ vbits 8 c"
proof -
  have "vbits (8 + n) (push_bit 8 x OR ucast c) = vbits n x @ vbits 8 c"
  proof (rule vbits_split)
    fix i
    assume "i < n"
    with assms show "bit x i = bit (push_bit 8 x OR ucast c) (8 + i)"
      by (auto simp: bit_simps dest: bit_imp_le_length)
  next
    fix i :: nat
    assume "i < 8"
    with assms show "bit c i = bit (push_bit 8 x OR ucast c) i" by (auto simp: bit_simps)
  qed
  then show ?thesis by (simp add: add.commute)
qed

lemma vbits_take_out:
  fixes x :: u32
  assumes "n + 5 \<le> 32"
  shows "vbits (n + 5) x = vbits 5 (0x1f AND drop_bit n x) @ vbits n x"
proof (rule vbits_split)
  have m: "(0x1f :: u32) = mask 5" by (simp add: mask_eq_exp_minus_1)
  fix i :: nat
  assume "i < 5"
  with assms show "bit (0x1f AND drop_bit n x) i = bit x (n + i)" unfolding m by (auto simp: bit_simps)
qed simp

lemma vbits_take_byte:
  fixes x :: u32
  assumes "n + 8 \<le> 32"
  shows "vbits (n + 8) x = vbits 8 (ucast (drop_bit n x) :: u8) @ vbits n x"
  by (rule vbits_split) (use assms in \<open>auto simp: bit_simps\<close>)

lemma vbits_pad:
  fixes x :: u32
  assumes "n \<le> 5"
  shows "vbits 5 (push_bit (5 - n) x) = vbits n x @ replicate (5 - n) False"
  by (rule nth_equalityI) (use assms in \<open>auto simp: nth_append nth_vbits bit_simps\<close>)

lemma vbits_shift_in_group:
  fixes x :: u32 and c :: u8
  assumes "n + 5 \<le> 32" "c < 32"
  shows "vbits (n + 5) (push_bit 5 x + ucast c) = vbits n x @ vbits 5 c"
proof -
  have c: "\<not> bit c i" if "5 \<le> i" for i
  proof -
    from assms(2) have "c = take_bit 5 c" by (simp add: word_unat_eq_iff unsigned_take_bit_eq take_bit_nat_eq_self word_less_nat_alt)
    then show ?thesis using that by (metis bit_take_bit_iff leD)
  qed
  have or: "push_bit 5 x + ucast c = push_bit 5 x OR (ucast c :: u32)"
    by (rule disjunctive_add) (use c in \<open>auto simp: bit_simps\<close>)
  have "vbits (5 + n) (push_bit 5 x OR (ucast c :: u32)) = vbits n x @ vbits 5 c"
  proof (rule vbits_split)
    fix i
    assume "i < n"
    with assms c [of "5 + i"] show "bit x i = bit (push_bit 5 x OR ucast c) (5 + i)"
      by (auto simp: bit_simps)
  next
    fix i :: nat
    assume "i < 5"
    with assms show "bit c i = bit (push_bit 5 x OR ucast c) i" by (auto simp: bit_simps)
  qed
  then show ?thesis unfolding or by (simp add: add.commute)
qed

section \<open>Base32 on bit streams\<close>

definition char_ok :: "u8 \<Rightarrow> bool" where
  "char_ok c \<longleftrightarrow> (\<exists>v. b32_value c = Some v \<and> v < 32)"

definition char_bits :: "u8 \<Rightarrow> bool list" where
  "char_bits c = (case b32_value c of Some v \<Rightarrow> vbits 5 v | None \<Rightarrow> [])"

lemma b32_value_table:
  assumes "k < 32"
  shows "b32_value (b32_table ! k) = Some (of_nat k)"
proof -
  have "list_all (\<lambda>k. b32_value (b32_table ! k) = Some (of_nat k)) [0..<32]" by code_simp
  with assms show ?thesis by (simp add: list_all_iff)
qed

lemma and_1f: "0x1f AND x = take_bit 5 (x :: u32)"
proof -
  have "(0x1f :: u32) = mask 5" by (simp add: mask_eq_exp_minus_1)
  then show ?thesis by (simp add: take_bit_eq_mask and.commute)
qed

lemma b32_group_less: "unat (0x1f AND x :: u32) < 32"
  using take_bit_nat_less_exp [of 5 "unat x"] by (simp add: and_1f unsigned_take_bit_eq)

lemma b32_char_value: "b32_value (b32_char n x) = Some (ucast (0x1f AND drop_bit n x))"
  using b32_value_table [OF b32_group_less [of "drop_bit n x"]]
  by (simp add: b32_char_def unsigned_of_nat)

lemma b32_char_bits: "char_bits (b32_char n x) = vbits 5 (0x1f AND drop_bit n x)"
  by (simp add: char_bits_def b32_char_value) (rule vbits_eqI, auto simp: bit_simps)

lemma b32_char_ok: "char_ok (b32_char n x)"
proof -
  have "unat (ucast (0x1f AND drop_bit n x) :: u8) \<le> unat (0x1f AND drop_bit n x)"
    by (simp add: unsigned_ucast_eq take_bit_nat_less_eq_self)
  with b32_group_less [of "drop_bit n x"] show ?thesis
    by (simp add: char_ok_def b32_char_value word_less_nat_alt)
qed

lemma b32_loop_bits:
  assumes "b32_loop str bits buff = (b, u, out)" "bits \<le> 7"
  shows "concat (map char_bits out) @ vbits b u = vbits bits buff @ byte_bits str \<and> b \<le> 7 \<and> list_all char_ok out"
  using assms
proof (induction str bits buff arbitrary: b u out rule: b32_loop.induct)
  case (1 str bits buff)
  show ?case
  proof (cases "str = []")
    case True
    with 1(2,3) show ?thesis by (auto simp: b32_loop.simps [of "[]" bits])
  next
    case False
    define s1 where "s1 = (if bits < 5 then tl str else str)"
    define b1 where "b1 = (if bits < 5 then bits + 8 else bits)"
    define u1 where "u1 = (if bits < 5 then push_bit 8 buff OR ucast (hd str) else buff)"
    have triple: "(if bits < 5 then (tl str, bits + 8, push_bit 8 buff OR ucast (hd str)) else (str, bits, buff)) = (s1, b1, u1)"
      by (simp add: s1_def b1_def u1_def)
    obtain out' where r: "b32_loop s1 (b1 - 5) u1 = (b, u, out')" and out: "out = b32_char (b1 - 5) u1 # out'"
      using 1(2) False unfolding b32_loop.simps [of str bits] triple
      by (auto simp: Let_def split: prod.splits)
    have b1: "5 \<le> b1" "b1 - 5 \<le> 7" "b1 - 5 + 5 = b1" "b1 - 5 + 5 \<le> 32"
      using 1(3) by (auto simp: b1_def)
    have "concat (map char_bits out') @ vbits b u = vbits (b1 - 5) u1 @ byte_bits s1 \<and> b \<le> 7 \<and> list_all char_ok out'"
      by (rule 1(1) [OF False triple [symmetric] refl refl refl r b1(2)])
    moreover have "vbits b1 u1 @ byte_bits s1 = vbits bits buff @ byte_bits str"
      using vbits_shift_in_byte [of bits buff "hd str"] 1(3) False
      by (cases str) (auto simp: s1_def b1_def u1_def)
    moreover have "vbits b1 u1 = char_bits (b32_char (b1 - 5) u1) @ vbits (b1 - 5) u1"
      using vbits_take_out [OF b1(4), of u1] by (simp add: b32_char_bits b1(3))
    ultimately show ?thesis by (simp add: out b32_char_ok)
  qed
qed

lemma b32_flush_bits:
  assumes "bits \<le> 7"
  shows "(\<exists>p<5. concat (map char_bits (b32_flush bits buff)) = vbits bits buff @ replicate p False) \<and>
    list_all char_ok (b32_flush bits buff)"
proof -
  have small: "(\<exists>p<5. concat (map char_bits (b32_flush n buff)) = vbits n buff @ replicate p False) \<and>
      list_all char_ok (b32_flush n buff)" if "n < 5" for n
  proof (cases "n = 0")
    case False
    have "b32_flush n buff = [b32_char 0 (push_bit (5 - n) buff)]"
      using that False by (simp add: b32_flush.simps [of n] b32_flush.simps [of 0] Let_def)
    moreover have "vbits 5 (push_bit (5 - n) buff) = vbits n buff @ replicate (5 - n) False"
      using that by (simp add: vbits_pad)
    moreover have "char_bits (b32_char 0 (push_bit (5 - n) buff)) = vbits 5 (push_bit (5 - n) buff)"
      using vbits_take_out [of 0 "push_bit (5 - n) buff"] by (simp add: b32_char_bits)
    ultimately show ?thesis using False by (auto simp: b32_char_ok)
  qed (simp add: b32_flush.simps)
  show ?thesis
  proof (cases "bits < 5")
    case False
    then have "b32_flush bits buff = b32_char (bits - 5) buff # b32_flush (bits - 5) buff"
      by (simp add: b32_flush.simps [of bits] Let_def)
    moreover have "vbits bits buff = char_bits (b32_char (bits - 5) buff) @ vbits (bits - 5) buff"
      using vbits_take_out [of "bits - 5" buff] assms False by (simp add: b32_char_bits)
    ultimately show ?thesis using small [of "bits - 5"] assms by (auto simp: b32_char_ok)
  qed (rule small)
qed

lemma b32_decode_bits:
  assumes "list_all char_ok str" "bits \<le> 7"
  shows "\<exists>out b u. b32_decode_loop str bits buff = Some out \<and> b \<le> 7 \<and>
    byte_bits out @ vbits b (u :: u32) = vbits bits buff @ concat (map char_bits str)"
  using assms
proof (induction str arbitrary: bits buff)
  case Nil
  then show ?case by (intro exI [of _ "[]"] exI [of _ bits] exI [of _ buff]) simp
next
  case (Cons c str)
  from Cons.prems(1) obtain v where v: "b32_value c = Some v" "v < 32" by (auto simp: char_ok_def)
  let ?buff = "push_bit 5 buff + ucast v"
  have g: "vbits (bits + 5) ?buff = vbits bits buff @ char_bits c"
    using vbits_shift_in_group [of bits v buff] v Cons.prems(2) by (simp add: char_bits_def)
  show ?case
  proof (cases "8 \<le> bits + 5")
    case True
    then have "vbits (bits + 5) ?buff = vbits 8 (ucast (drop_bit (bits + 5 - 8) ?buff) :: u8) @ vbits (bits + 5 - 8) ?buff"
      using vbits_take_byte [of "bits + 5 - 8" ?buff] Cons.prems(2) by (simp add: add.commute)
    with g have g': "vbits bits buff @ char_bits c =
        vbits 8 (ucast (drop_bit (bits + 5 - 8) ?buff) :: u8) @ vbits (bits + 5 - 8) ?buff" by simp
    from Cons.prems obtain out b u where r: "b32_decode_loop str (bits + 5 - 8) ?buff = Some out" "b \<le> 7"
      "byte_bits out @ vbits b (u :: u32) = vbits (bits + 5 - 8) ?buff @ concat (map char_bits str)"
      using Cons.IH [of "bits + 5 - 8" ?buff] by (auto simp: le_diff_conv)
    have "b32_decode_loop (c # str) bits buff = Some (ucast (drop_bit (bits + 5 - 8) ?buff) # out)"
      using v True r(1) by (simp add: Let_def)
    moreover have "byte_bits (ucast (drop_bit (bits + 5 - 8) ?buff) # out) @ vbits b u =
        (vbits bits buff @ char_bits c) @ concat (map char_bits str)"
      unfolding g' by (simp add: r(3))
    ultimately show ?thesis using r(2) by auto
  next
    case False
    have "b32_decode_loop (c # str) bits buff = b32_decode_loop str (bits + 5) ?buff"
      using v False by (simp add: Let_def)
    with Cons.IH [of "bits + 5" ?buff] Cons.prems g False show ?thesis by simp
  qed
qed

lemma b32_encode_bits:
  "(\<exists>p<5. concat (map char_bits (psync_base32_encode s)) = byte_bits s @ replicate p False) \<and>
    list_all char_ok (psync_base32_encode s)"
proof -
  obtain b u out where l: "b32_loop s 0 0 = (b, u, out)" using prod_cases3 by blast
  from b32_loop_bits [OF l] have o: "concat (map char_bits out) @ vbits b u = byte_bits s" "b \<le> 7" "list_all char_ok out"
    by auto
  then obtain p where p: "p < 5" "concat (map char_bits (b32_flush b u)) = vbits b u @ replicate p False"
    "list_all char_ok (b32_flush b u)"
    using b32_flush_bits [of b u] by blast
  have e: "psync_base32_encode s = out @ b32_flush b u" by (simp add: psync_base32_encode_def l)
  have "concat (map char_bits (psync_base32_encode s)) = byte_bits s @ replicate p False"
    unfolding e o(1) [symmetric] by (simp add: p(2))
  with p(1,3) o(3) show ?thesis by (auto simp: e)
qed

lemma char_bits_length: "list_all char_ok cs \<Longrightarrow> length (concat (map char_bits cs)) = 5 * length cs"
  by (induction cs) (auto simp: char_ok_def char_bits_def)

section \<open>Base64, group by group\<close>

lemma b64_rev_table:
  assumes "k < 64"
  shows "base64_reverse_table ! unat (base64_table ! k) = int k"
proof -
  have "list_all (\<lambda>k. base64_reverse_table ! unat (base64_table ! k) = int k) [0..<64]" by code_simp
  with assms show ?thesis by (simp add: list_all_iff)
qed

lemma b64_loop_char:
  fixes x :: u8
  assumes "x < 64"
  shows "b64_loop (b64 x # str) i cur out =
    (if i mod 4 = 0 then b64_loop str (i + 1) (push_bit 2 x) out
     else if i mod 4 = 1 then b64_loop str (i + 1) (push_bit 4 (x AND 0x0f)) (out @ [cur OR drop_bit 4 x])
     else if i mod 4 = 2 then b64_loop str (i + 1) (push_bit 6 (x AND 0x03)) (out @ [cur OR drop_bit 2 x])
     else b64_loop str (i + 1) 0 (out @ [cur OR x]))"
proof -
  have "unat x < 64" using assms by (simp add: word_less_nat_alt)
  then have "base64_reverse_table ! unat (b64 x) = int (unat x)" by (rule b64_rev_table)
  moreover have "uint x \<noteq> - 1" "uint x \<noteq> - 2" using unsigned_greater_eq [where ?'a = int, of x] by linarith+
  ultimately show ?thesis by (simp add: Let_def)
qed

lemma b64_bits:
  fixes a b c :: u8
  shows "drop_bit 2 a < 64" "push_bit 4 (a AND 3) + drop_bit 4 b < 64" "push_bit 2 (b AND 15) + drop_bit 6 c < 64"
    "c AND 63 < 64" "push_bit 4 (a AND 3) < 64" "push_bit 2 (b AND 15) < 64"
    "push_bit 2 (drop_bit 2 a) OR drop_bit 4 (push_bit 4 (a AND 3) + drop_bit 4 b) = a"
    "push_bit 4 ((push_bit 4 (a AND 3) + drop_bit 4 b) AND 15) OR drop_bit 2 (push_bit 2 (b AND 15) + drop_bit 6 c) = b"
    "push_bit 6 ((push_bit 2 (b AND 15) + drop_bit 6 c) AND 3) OR (c AND 63) = c"
    "push_bit 2 (drop_bit 2 a) OR drop_bit 4 (push_bit 4 (a AND 3)) = a"
    "push_bit 4 ((push_bit 4 (a AND 3) + drop_bit 4 b) AND 15) OR drop_bit 2 (push_bit 2 (b AND 15)) = b"
proof -
  have m: "(3 :: u8) = mask 2" "(15 :: u8) = mask 4" "(63 :: u8) = mask 6"
    by (simp_all add: mask_eq_exp_minus_1)
  have or1: "push_bit 4 (a AND 3) + drop_bit 4 b = push_bit 4 (a AND 3) OR drop_bit 4 b"
    and or2: "push_bit 2 (b AND 15) + drop_bit 6 c = push_bit 2 (b AND 15) OR drop_bit 6 c"
    unfolding m by (rule disjunctive_add; auto simp: bit_simps dest: bit_imp_le_length)+
  have small: "x < 64" if "\<And>i. 6 \<le> i \<Longrightarrow> i < 8 \<Longrightarrow> \<not> bit x i" for x :: u8
  proof -
    have "x = take_bit 6 x"
      by (rule bit_word_eqI) (use that not_le in \<open>auto simp: bit_simps\<close>)
    then have "unat x < 64"
      using take_bit_nat_less_exp [of 6 "unat x"] unsigned_take_bit_eq [of 6 x, where ?'a = nat] by simp
    then show ?thesis by (simp add: word_less_nat_alt)
  qed
  show "drop_bit 2 a < 64" "push_bit 4 (a AND 3) + drop_bit 4 b < 64" "push_bit 2 (b AND 15) + drop_bit 6 c < 64"
    "c AND 63 < 64" "push_bit 4 (a AND 3) < 64" "push_bit 2 (b AND 15) < 64"
    unfolding or1 or2 unfolding m by (rule small; auto simp: bit_simps dest: bit_imp_le_length)+
  have four: "i < 8 \<longleftrightarrow> i \<in> {0, 1, 2, 3, 4, 5, 6, 7}" for i :: nat by auto
  show "push_bit 2 (drop_bit 2 a) OR drop_bit 4 (push_bit 4 (a AND 3) + drop_bit 4 b) = a"
    "push_bit 4 ((push_bit 4 (a AND 3) + drop_bit 4 b) AND 15) OR drop_bit 2 (push_bit 2 (b AND 15) + drop_bit 6 c) = b"
    "push_bit 6 ((push_bit 2 (b AND 15) + drop_bit 6 c) AND 3) OR (c AND 63) = c"
    "push_bit 2 (drop_bit 2 a) OR drop_bit 4 (push_bit 4 (a AND 3)) = a"
    "push_bit 4 ((push_bit 4 (a AND 3) + drop_bit 4 b) AND 15) OR drop_bit 2 (push_bit 2 (b AND 15)) = b"
    unfolding or1 or2 unfolding m by (rule bit_word_eqI; auto simp: bit_simps four numeral_2_eq_2 [symmetric] numeral_3_eq_3 [symmetric])+
qed

lemma b64_roundtrip:
  assumes "i mod 4 = 0"
  shows "b64_loop (psync_base64_encode s) i cur out = Some (out @ s)"
  using assms
proof (induction s arbitrary: i cur out rule: psync_base64_encode.induct)
  case (1 a b c str)
  then have "(i + 4) mod 4 = 0" "Suc i mod 4 = 1" "Suc (Suc i) mod 4 = 2" "Suc (Suc (Suc i)) mod 4 = 3"
    by presburger+
  with 1 show ?case
    by (simp add: b64_loop_char b64_bits del: b64_loop.simps push_bit_and)
next
  case (2 a b)
  then have "Suc i mod 4 = 1" "Suc (Suc i) mod 4 = 2" by presburger+
  with 2 have "b64_loop (psync_base64_encode [a, b]) i cur out = b64_loop [] (Suc (Suc (Suc i)))
      (push_bit 6 (push_bit 2 (b AND 15) AND 3)) (out @ [a, b])"
    by (simp add: b64_loop_char b64_bits del: b64_loop.simps push_bit_and)
  then show ?case by simp
next
  case (3 a)
  then have "Suc i mod 4 = 1" by presburger
  with 3 have "b64_loop (psync_base64_encode [a]) i cur out = b64_loop [] (Suc (Suc i))
      (push_bit 4 (push_bit 4 (a AND 3) AND 15)) (out @ [a])"
    by (simp add: b64_loop_char b64_bits del: b64_loop.simps push_bit_and)
  then show ?case by simp
qed simp

definition b64_skip :: "u8 \<Rightarrow> bool" where
  "b64_skip c \<longleftrightarrow> base64_reverse_table ! unat c = -1"

lemma b64_loop_skip:
  "b64_loop str i cur out = b64_loop (filter (\<lambda>c. \<not> b64_skip c) str) i cur out"
  by (induction str arbitrary: i cur out) (auto simp: b64_skip_def Let_def)

lemma three_quarters: "3 * Suc i div 4 = 3 * i div 4 + (if i mod 4 = 0 then 0 else 1)"
proof -
  obtain k r where i: "i = 4 * k + r" "r < 4"
    by (metis div_mod_decomp mod_less_divisor mult.commute zero_less_numeral)
  have d: "3 * Suc i div 4 = 3 * k + (3 * r + 3) div 4" "3 * i div 4 = 3 * k + 3 * r div 4"
    using i(1) by (auto intro: div_nat_eqI)
  have "i mod 4 = r" using i by simp
  moreover have "r = 0 \<or> r = 1 \<or> r = 2 \<or> r = 3" using i(2) by linarith
  ultimately show ?thesis unfolding d by auto
qed

lemma b64_loop_length:
  "b64_loop str i cur out = Some res \<Longrightarrow> length out = 3 * i div 4 \<Longrightarrow> length res \<le> 3 * (i + length str) div 4"
proof (induction str arbitrary: i cur out)
  case Nil
  then show ?case by auto
next
  case (Cons c str)
  have step: "3 * Suc i div 4 = 3 * i div 4 + (if i mod 4 = 0 then 0 else 1)"
    by (rule three_quarters)
  have le: "3 * (i + length str) div 4 \<le> 3 * (i + length (c # str)) div 4" by (rule div_le_mono) simp
  have "b64_loop str i cur out = Some res \<or>
      (\<exists>cur' out'. b64_loop str (Suc i) cur' out' = Some res \<and> length out' = 3 * Suc i div 4)"
    using Cons.prems unfolding step
    by (auto simp: Let_def split: if_splits) (metis length_append_singleton)+
  then show ?case
  proof (elim disjE exE conjE)
    assume "b64_loop str i cur out = Some res"
    from Cons.IH [OF this Cons.prems(2)] le show ?thesis by linarith
  next
    fix cur' out'
    assume "b64_loop str (Suc i) cur' out' = Some res" "length out' = 3 * Suc i div 4"
    from Cons.IH [OF this] show ?thesis by simp
  qed
qed

section \<open>Glob patterns\<close>

text \<open>The pattern language: \<open>*\<close> stands for any text, \<open>?\<close> for one character, others for themselves.\<close>

inductive glob :: "u8 list \<Rightarrow> u8 list \<Rightarrow> bool" where
  glob_end: "glob [] []"
| glob_star: "glob pat name \<Longrightarrow> glob (CH_STAR # pat) (pre @ name)"
| glob_any: "glob pat name \<Longrightarrow> glob (CH_QM # pat) (c # name)"
| glob_char: "glob pat name \<Longrightarrow> c \<noteq> CH_STAR \<Longrightarrow> c \<noteq> CH_QM \<Longrightarrow> glob (c # pat) (c # name)"

inductive_simps glob_Nil_pat: "glob [] name"
inductive_simps glob_Cons_pat: "glob (p # pat) name"

text \<open>What \<open>match_star\<close> and \<open>match_scan\<close> decide: a match of some rest of the name.\<close>

lemma match_glob:
  "psync_match_pattern name pat \<longleftrightarrow> glob pat name"
  "match_star name pat \<longleftrightarrow> (\<exists>pre rest. name = pre @ rest \<and> glob pat rest)"
  "match_scan c pat name \<longleftrightarrow> (\<exists>pre rest. name = pre @ c # rest \<and> glob pat rest)"
proof (induction name pat and name pat and c pat name rule: psync_match_pattern_match_star_match_scan.induct)
  case (1 name)
  then show ?case by (auto simp: glob_Nil_pat)
next
  case (2 name p pat)
  then show ?case by (auto simp: glob_Cons_pat split: list.splits if_splits)
next
  case (3 name)
  then show ?case by (auto simp: glob_Nil_pat)
next
  case (4 name p pat)
  have any: "(\<exists>pre rest. name = pre @ rest \<and> (\<exists>c rest'. rest = c # rest' \<and> glob pat rest')) \<longleftrightarrow>
      (\<exists>c cs pre rest. name = c # cs \<and> cs = pre @ rest \<and> glob pat rest)" (is "?L \<longleftrightarrow> ?R")
  proof
    assume ?L
    then obtain pre c rest where n: "name = pre @ c # rest" "glob pat rest" by blast
    show ?R
    proof (cases pre)
      case (Cons x xs)
      with n have "name = x # (xs @ [c]) @ rest" by simp
      with n(2) show ?thesis by blast
    qed (use n in auto)
  next
    assume ?R
    then obtain c pre rest where n: "name = c # pre @ rest" "glob pat rest" by blast
    show ?L
    proof (cases pre rule: rev_cases)
      case (snoc ys y)
      with n have "name = (c # ys) @ y # rest" by simp
      with n(2) show ?thesis by blast
    qed (use n in auto)
  qed
  consider "p = CH_QM" | "p = CH_STAR" | "p \<noteq> CH_QM" "p \<noteq> CH_STAR" by blast
  then show ?case
  proof cases
    case 1
    with 4(1) any show ?thesis by (cases name) (auto simp: glob_Cons_pat)
  next
    case 2
    with 4(2) show ?thesis
      by (auto simp: glob_Cons_pat)
  next
    case 3
    with 4(3) show ?thesis by (auto simp: glob_Cons_pat)
  qed
next
  case (5 c pat)
  then show ?case by simp
next
  case (6 c pat x name)
  then show ?case by (auto simp: Cons_eq_append_conv)
qed

section \<open>UTF-8\<close>

text \<open>The encoding of a code point (RFC 3629).\<close>

definition utf8_encode :: "nat \<Rightarrow> u8 list" where
  "utf8_encode cp =
     (if cp < 0x80 then [of_nat cp]
      else if cp < 0x800 then [of_nat (0xc0 + cp div 64), of_nat (0x80 + cp mod 64)]
      else if cp < 0x10000 then [of_nat (0xe0 + cp div 4096), of_nat (0x80 + cp div 64 mod 64), of_nat (0x80 + cp mod 64)]
      else [of_nat (0xf0 + cp div 262144), of_nat (0x80 + cp div 4096 mod 64), of_nat (0x80 + cp div 64 mod 64),
            of_nat (0x80 + cp mod 64)])"

lemma utf8_cont_byte:
  assumes "x < 64"
  shows "of_nat (0x80 + x) AND (0xc0 :: u8) = 0x80"
proof -
  have "list_all (\<lambda>x. of_nat (0x80 + x) AND (0xc0 :: u8) = 0x80) [0..<64]" by code_simp
  with assms show ?thesis by (simp add: list_all_iff)
qed

lemma utf8_cont_ok:
  "x < 64 \<Longrightarrow> utf8_cont (Suc n) (of_nat (0x80 + x) # s) = utf8_cont n s"
  by (simp only: utf8_cont.simps utf8_cont_byte simp_thms if_False)

lemma utf8_lead:
  fixes n :: nat
  assumes "n < 248" "n < 128 \<or> 192 \<le> n"
  shows "utf8_trailing ! n = (if n < 128 then 0 else if n < 224 then 1 else if n < 240 then 2 else 3)"
proof -
  have "list_all (\<lambda>n. n < 128 \<or> 192 \<le> n \<longrightarrow>
      utf8_trailing ! n = (if n < 128 then 0 else if n < 224 then 1 else if n < 240 then 2 else 3)) [0..<248]"
    by code_simp
  moreover have "n \<in> set [0..<248]" using assms(1) by simp
  ultimately show ?thesis using assms(2) unfolding list_all_iff by blast
qed

lemma utf8_valid_lead:
  assumes "0 < n" "n < 248" "n < 128 \<or> 192 \<le> n"
  shows "psync_is_valid_utf8 (of_nat n # str) =
    (case utf8_cont (if n < 128 then 0 else if n < 224 then 1 else if n < 240 then 2 else 3) str of
       Ok (Some str') \<Rightarrow> psync_is_valid_utf8 str'
     | Ok None \<Rightarrow> Ok False | Fail \<Rightarrow> Fail | Overread \<Rightarrow> Overread | NoFuel \<Rightarrow> NoFuel)"
proof -
  have u: "unat (of_nat n :: u8) = n" using assms(2) by (simp add: unat_of_nat)
  then have "(of_nat n :: u8) \<noteq> 0" using assms(1) by (metis gr_implies_not0 unsigned_0)
  then show ?thesis
    unfolding psync_is_valid_utf8.simps(2) u utf8_lead [OF assms(2,3)] by (simp add: Let_def)
qed

lemma utf8_valid_encode:
  assumes "0 < cp" "cp < 0x110000"
  shows "psync_is_valid_utf8 (utf8_encode cp @ str) = psync_is_valid_utf8 str"
proof -
  have c: "utf8_cont 0 s = Ok (Some s)" "utf8_cont 1 (of_nat (0x80 + a mod 64) # s) = Ok (Some s)"
    "utf8_cont 2 (of_nat (0x80 + b mod 64) # of_nat (0x80 + a mod 64) # s) = Ok (Some s)"
    "utf8_cont 3 (of_nat (0x80 + c mod 64) # of_nat (0x80 + b mod 64) # of_nat (0x80 + a mod 64) # s) = Ok (Some s)"
    for s a b c
    by (simp_all only: One_nat_def numeral_2_eq_2 numeral_3_eq_3 utf8_cont_ok mod_less_divisor zero_less_numeral utf8_cont.simps(1))
  consider "cp < 0x80" | "0x80 \<le> cp" "cp < 0x800" | "0x800 \<le> cp" "cp < 0x10000" | "0x10000 \<le> cp" by linarith
  then show ?thesis
  proof cases
    case 1
    with assms(1) utf8_valid_lead [of cp str] show ?thesis by (simp add: utf8_encode_def)
  next
    case 2
    then have "cp div 64 < 32" by (simp add: less_mult_imp_div_less)
    with utf8_valid_lead [of "0xc0 + cp div 64"] 2 c(2) [of cp str] show ?thesis
      by (simp add: utf8_encode_def del: of_nat_add utf8_cont.simps)
  next
    case 3
    then have "cp div 4096 < 16" by (simp add: less_mult_imp_div_less)
    with utf8_valid_lead [of "0xe0 + cp div 4096"] 3 c(3) [of "cp div 64" cp str] show ?thesis
      by (simp add: utf8_encode_def del: of_nat_add utf8_cont.simps)
  next
    case 4
    have "cp div 262144 < 8" using assms(2) by (simp add: less_mult_imp_div_less)
    with utf8_valid_lead [of "0xf0 + cp div 262144"] 4 c(4) [of "cp div 4096" "cp div 64" cp str] show ?thesis
      by (simp add: utf8_encode_def del: of_nat_add utf8_cont.simps)
  qed
qed

text \<open>On a terminated string nothing behind the terminator is read.\<close>

lemma utf8_cont_term:
  "0 \<notin> set s \<Longrightarrow> (\<forall>r. utf8_cont n (s @ 0 # r) = Ok None) \<or>
    (\<exists>s'. 0 \<notin> set s' \<and> length s' \<le> length s \<and> (\<forall>r. utf8_cont n (s @ 0 # r) = Ok (Some (s' @ 0 # r))))"
proof (induction n arbitrary: s)
  case (Suc n)
  then show ?case
  proof (cases s)
    case (Cons c s')
    with Suc.IH [of s'] Suc.prems show ?thesis by (auto intro: le_SucI)
  qed auto
qed auto

lemma utf8_terminated:
  "0 \<notin> set s \<Longrightarrow> \<exists>b. \<forall>r. psync_is_valid_utf8 (s @ 0 # r) = Ok b"
proof (induction "length s" arbitrary: s rule: less_induct)
  case less
  show ?case
  proof (cases s)
    case Nil
    then show ?thesis by (auto simp: psync_is_valid_utf8.simps(2))
  next
    case (Cons c s1)
    with less.prems have c: "c \<noteq> 0" "0 \<notin> set s1" by auto
    let ?t = "utf8_trailing ! unat c"
    show ?thesis
    proof (cases "?t < 0")
      case True
      with c show ?thesis by (auto simp: Cons psync_is_valid_utf8.simps(2))
    next
      case False
      from utf8_cont_term [OF c(2), of "nat ?t"] show ?thesis
      proof
        assume "\<forall>r. utf8_cont (nat ?t) (s1 @ 0 # r) = Ok None"
        with c False show ?thesis by (auto simp: Cons psync_is_valid_utf8.simps(2))
      next
        assume "\<exists>s'. 0 \<notin> set s' \<and> length s' \<le> length s1 \<and>
          (\<forall>r. utf8_cont (nat ?t) (s1 @ 0 # r) = Ok (Some (s' @ 0 # r)))"
        then obtain s' where s': "0 \<notin> set s'" "length s' \<le> length s1"
          "\<And>r. utf8_cont (nat ?t) (s1 @ 0 # r) = Ok (Some (s' @ 0 # r))" by blast
        with less.hyps [of s'] Cons obtain b where "\<forall>r. psync_is_valid_utf8 (s' @ 0 # r) = Ok b" by auto
        with c False s'(3) show ?thesis by (auto simp: Cons psync_is_valid_utf8.simps(2))
      qed
    qed
  qed
qed

section \<open>Decimal numbers\<close>

definition is_digit :: "u8 \<Rightarrow> bool" where
  "is_digit c \<longleftrightarrow> 48 \<le> c \<and> c \<le> 57"

lemma digit_u8:
  fixes d :: nat
  assumes "d < 10"
  shows "is_digit (of_nat (48 + d))" "unat (of_nat (48 + d) :: u8) = 48 + d"
proof -
  show "unat (of_nat (48 + d) :: u8) = 48 + d" unfolding unat_of_nat using assms by simp
  then show "is_digit (of_nat (48 + d))" using assms by (simp add: is_digit_def word_le_nat_alt del: of_nat_add)
qed

lemma ato64_loop_append:
  "\<forall>c\<in>set ds. is_digit c \<Longrightarrow> ato64_loop n (ds @ str) = ato64_loop (ato64_loop n ds) str"
  by (induction ds arbitrary: n) (auto simp: is_digit_def)

lemma dec_digits_digit: "c \<in> set (dec_digits n) \<Longrightarrow> is_digit c"
proof (induction n arbitrary: c rule: dec_digits.induct)
  case (1 n)
  then show ?case
    using digit_u8(1) [of n] digit_u8(1) [of "n mod 10"]
    by (auto simp: dec_digits.simps [of n] simp del: of_nat_add split: if_splits)
qed

lemma ato64_digit:
  assumes "d < 10"
  shows "ato64_loop n [of_nat (48 + d)] = n * 10 + of_nat d"
proof -
  have "(ucast (of_nat (48 + d) :: u8) :: u64) = of_nat (48 + d)"
    using digit_u8(2) [OF assms] by (metis of_nat_unat unsigned_of_nat)
  then show ?thesis using digit_u8(1) [OF assms] by (simp add: is_digit_def)
qed

lemma ato64_dec_digits: "ato64_loop 0 (dec_digits n) = of_nat n"
proof (induction n rule: dec_digits.induct)
  case (1 n)
  show ?case
  proof (cases "n < 10")
    case True
    with ato64_digit [of n 0] show ?thesis by (simp add: dec_digits.simps [of n] del: ato64_loop.simps of_nat_add)
  next
    case False
    have "ato64_loop 0 (dec_digits n) = ato64_loop (ato64_loop 0 (dec_digits (n div 10))) [of_nat (48 + n mod 10)]"
      using False dec_digits_digit by (simp add: dec_digits.simps [of n] ato64_loop_append del: of_nat_add ato64_loop.simps)
    also have "\<dots> = of_nat (n div 10) * 10 + of_nat (n mod 10)"
      using 1 False by (simp add: ato64_digit del: of_nat_add ato64_loop.simps)
    also have "\<dots> = of_nat n"
      by (metis div_mult_mod_eq of_nat_add of_nat_mult of_nat_numeral)
    finally show ?thesis .
  qed
qed

section \<open>The name of a conflicted copy\<close>

lemma dot_search_skip:
  assumes "i \<le> n" "\<And>j. i < j \<Longrightarrow> j \<le> n \<Longrightarrow> (path @ [0]) ! j \<noteq> 46"
  shows "dot_search path n = dot_search path i"
  using assms
proof (induction n)
  case (Suc n)
  show ?case
  proof (cases "i = Suc n")
    case False
    with Suc.prems have "(path @ [0]) ! Suc n \<noteq> 46" "i \<le> n" by auto
    with Suc.IH Suc.prems(2) show ?thesis by simp
  qed simp
qed simp

lemma dot_search_last:
  assumes "path = d @ 46 # e" "d \<noteq> []" "46 \<notin> set e"
  shows "dot_search path (length path) = length d"
proof -
  have "(path @ [0]) ! j \<noteq> 46" if "length d < j" "j \<le> length path" for j
  proof -
    define k where "k = j - Suc (length d)"
    then have k: "j = length d + Suc k" using that(1) by simp
    have "path @ [0] = (d @ [46]) @ (e @ [0])" "j = length (d @ [46]) + k" by (simp_all add: assms(1) k)
    then have "(path @ [0]) ! j = (e @ [0]) ! k" by (simp only: nth_append_length_plus)
    moreover have "k < length (e @ [0])" using that(2) k by (simp add: assms(1))
    ultimately have "(path @ [0]) ! j \<in> set (e @ [0])" using nth_mem by metis
    with assms(3) show ?thesis by auto
  qed
  then have "dot_search path (length path) = dot_search path (length d)"
    by (intro dot_search_skip) (simp_all add: assms(1))
  also have "\<dots> = length d"
    using assms(2) by (cases "length d") (auto simp: assms(1) nth_append)
  finally show ?thesis .
qed

section \<open>Properties\<close>

text \<open>
  Base32: decoding what the encoder wrote gives the bytes back, for every input; the text fits the
  buffer the encoder allocates (with its terminator), and whatever the decoder accepts fits its own.
\<close>

theorem base32_roundtrip:
  "psync_base32_decode (psync_base32_encode s) = Some s \<and>
   length (psync_base32_encode s) + 1 \<le> (length s + 4) div 5 * 8 + 1"
proof -
  let ?e = "psync_base32_encode s"
  obtain p where p: "p < 5" "concat (map char_bits ?e) = byte_bits s @ replicate p False" "list_all char_ok ?e"
    using b32_encode_bits [of s] by blast
  obtain out b u where d: "b32_decode_loop ?e 0 0 = Some out" "b \<le> 7"
    "byte_bits out @ vbits b (u :: u32) = concat (map char_bits ?e)"
    using b32_decode_bits [OF p(3), of 0 0] by auto
  have eq: "byte_bits out @ vbits b u = byte_bits s @ replicate p False"
    using d(3) p(2) by simp
  then have "8 * length out + b = 8 * length s + p"
    by (metis length_append length_byte_bits length_replicate length_vbits)
  with p(1) d(2) have "length out = length s" by linarith
  with eq have "byte_bits out = byte_bits s" by (metis append_eq_append_conv length_byte_bits)
  then have "out = s" by (rule byte_bits_inj)
  moreover have "5 * length ?e = 8 * length s + p"
    using char_bits_length [OF p(3)] p(2) by simp
  then have "length ?e \<le> (length s + 4) div 5 * 8"
    using p(1) by linarith
  ultimately show ?thesis using d(1) by (simp add: psync_base32_decode_def)
qed

text \<open>
  Base64: a text whose characters, apart from the ignored ones (blanks, line ends, \<open>=\<close>), are the
  encoding of some bytes is decoded to those bytes; the encoder's own output is such a text.
\<close>

theorem base64_roundtrip:
  assumes "filter (\<lambda>c. \<not> b64_skip c) t = psync_base64_encode s"
  shows "psync_base64_decode t = Some s \<and> psync_base64_decode (psync_base64_encode s) = Some s"
  using b64_loop_skip [of t 0 0 "[]"] b64_roundtrip [of 0 s 0 "[]"] assms
  by (simp add: psync_base64_decode_def)

theorem base64_roundtrip_witness:
  "psync_base64_decode [84, 87, 32, 69, 61, 10] = Some [77, 97] \<and> psync_base64_decode (psync_base64_encode [77, 97]) = Some [77, 97]"
proof -
  have "filter (\<lambda>c. \<not> b64_skip c) [84, 87, 32, 69, 61, 10] = psync_base64_encode [77, 97]" by code_simp
  then show ?thesis by (rule base64_roundtrip)
qed

text \<open>
  The base64 buffers are large enough: the encoder's text and its terminator, and the decoder's bytes,
  the byte under construction included, for any input it accepts.
\<close>

theorem base64_bounds:
  "length (psync_base64_encode s) + 1 \<le> (length s + 2) div 3 * 4 + 1 \<and>
   (case psync_base64_decode t of None \<Rightarrow> True | Some r \<Rightarrow> length r + 1 \<le> (length t + 3) div 4 * 3 + 1)"
proof (intro conjI)
  show "length (psync_base64_encode s) + 1 \<le> (length s + 2) div 3 * 4 + 1"
  proof (induction s rule: psync_base64_encode.induct)
    case (1 a b c str)
    have "(length (a # b # c # str) + 2) div 3 = (length str + 2) div 3 + 1"
      using div_add_self2 [of 3 "length str + 2"] by (simp add: ac_simps)
    with 1 show ?case by simp
  qed auto
  have "length r \<le> 3 * length t div 4" if "psync_base64_decode t = Some r" for r
    using b64_loop_length [of t 0 0 "[]" r] that by (simp add: psync_base64_decode_def)
  moreover have "3 * length t div 4 \<le> (length t + 3) div 4 * 3" by linarith
  ultimately show "case psync_base64_decode t of None \<Rightarrow> True
      | Some r \<Rightarrow> length r + 1 \<le> (length t + 3) div 4 * 3 + 1"
    by (fastforce split: option.split)
qed

text \<open>
  UTF-8: on a terminated string the check returns a verdict without reading behind the terminator, and
  every UTF-8 text (the encodings of any code points but 0) is accepted.
\<close>

theorem utf8_check:
  assumes "0 \<notin> set s"
  shows "(\<exists>b. \<forall>r. psync_is_valid_utf8 (s @ 0 # r) = Ok b) \<and>
    (\<forall>cps\<in>lists {0<..<0x110000}. psync_is_valid_utf8 (concat (map utf8_encode cps) @ 0 # r) = Ok True)"
proof (intro conjI ballI)
  show "\<exists>b. \<forall>r. psync_is_valid_utf8 (s @ 0 # r) = Ok b" by (rule utf8_terminated [OF assms])
  fix cps :: "nat list"
  assume "cps \<in> lists {0<..<0x110000}"
  then show "psync_is_valid_utf8 (concat (map utf8_encode cps) @ 0 # r) = Ok True"
    by (induction cps) (auto simp: utf8_valid_encode psync_is_valid_utf8.simps(2))
qed

theorem utf8_check_witness:
  "(\<exists>b. \<forall>r. psync_is_valid_utf8 ([97, 200] @ 0 # r) = Ok b) \<and> psync_is_valid_utf8 [195, 169, 0] = Ok True \<and>
   psync_is_valid_utf8 [200, 0] = Ok False"
proof -
  have "utf8_encode 233 = [195, 169]" by code_simp
  moreover have "psync_is_valid_utf8 [200, 0] = Ok False" by code_simp
  ultimately show ?thesis
    using utf8_check [of "[97, 200]" "[]"] by (auto dest: bspec [of _ _ "[233]"])
qed

text \<open>The matcher implements the glob language, whatever the name and the pattern.\<close>

theorem match_pattern_glob: "psync_match_pattern name pat \<longleftrightarrow> glob pat name"
  by (rule match_glob(1))

text \<open>
  Parsing a decimal numeral followed by anything that is not a digit gives its value modulo \<open>2 ^ 64\<close>.
\<close>

theorem ato64_decimal:
  assumes "str = [] \<or> \<not> is_digit (hd str)"
  shows "psync_ato64 (dec_digits n @ str) = of_nat n"
proof -
  have "ato64_loop m str = m" for m using assms by (cases str) (auto simp: is_digit_def)
  then show ?thesis
    using dec_digits_digit by (simp add: psync_ato64_def ato64_loop_append ato64_dec_digits)
qed

theorem ato64_decimal_witness: "psync_ato64 (dec_digits 405 @ [32, 49]) = 405"
  using ato64_decimal [of "[32, 49]" 405] by (simp add: is_digit_def)

text \<open>
  The name of a conflicted copy is searched for its last dot across the whole path: for a file without
  an extension in a directory whose name has a dot, the mark goes into the name of the directory.
\<close>

theorem conflict_name_directory:
  assumes "path = d @ 46 # e @ 47 # base" "d \<noteq> []" "46 \<notin> set (e @ base)"
  shows "conflict_name path num = (d @ conflict_mark num @ 46 # e) @ 47 # base"
proof -
  have "dot_search path (length path) = length d"
    using dot_search_last [of path d "e @ 47 # base"] assms by auto
  then have "conflict_index path = length d" using assms(2) by (simp add: conflict_index_def)
  then show ?thesis by (simp add: conflict_name_def assms(1))
qed

theorem conflict_name_directory_witness:
  "conflict_name [47, 97, 46, 98, 47, 99] 0 =
     [47, 97, 32, 40, 99, 111, 110, 102, 108, 105, 99, 116, 101, 100, 41, 46, 98, 47, 99]"
  using conflict_name_directory [of "[47, 97, 46, 98, 47, 99]" "[47, 97]" "[98]" "[99]" 0]
  by (simp add: conflict_mark_def)

end
