(* ===== verification/RwLock.thy ===== *)
theory RwLock
  imports Prelude
begin

text \<open>
  The reader/writer lock of \<^verbatim>\<open>plocks.c\<close>: recursive, with a reserved mode (a reader that will become the
  writer) and an upgrade from reader to writer. The state is the counters of \<^verbatim>\<open>psync_rwlock_t\<close> and, per
  thread, the two recursion counters kept in thread-specific data and where the thread is. Everything
  between \<^verbatim>\<open>pthread_mutex_lock\<close> and the unlock or wait that ends it is one step, and the thread-specific
  counters are only touched by their thread. A wait may end by a signal, spuriously or by time-out.
\<close>

section \<open>State\<close>

text \<open>The value of \<^verbatim>\<open>cnt[1]\<close> that marks the reserved mode.\<close>

definition PSYNC_WR_RESERVED :: nat where
  "PSYNC_WR_RESERVED = 2 ^ 32 - 1"

text \<open>The wait loops, by the function they are in.\<close>

datatype kind = KRd | KTimedRd | KStarve | KWr | KTimedWr | KRs | KUp

datatype pc = Idle | Asleep kind | Awake kind

record thread =
  cnt0 :: nat
  cnt1 :: nat
  pc :: pc

record rwlock =
  rcount :: nat
  rwait :: nat
  wcount :: nat
  wwait :: nat
  prefer_read :: bool   \<comment> \<open>\<^verbatim>\<open>opts & PSYNC_RW_OPT_PREFER_READ\<close>\<close>
  reserved :: bool      \<comment> \<open>\<^verbatim>\<open>opts & PSYNC_RW_OPT_RESERVED\<close>\<close>
  threads :: "nat \<Rightarrow> thread"

text \<open>What a step does to the condition variables.\<close>

datatype wake = NoWake | SignalW | BroadcastW | BroadcastR

definition psync_rwlock_init :: rwlock where
  "psync_rwlock_init = \<lparr>rcount = 0, rwait = 0, wcount = 0, wwait = 0, prefer_read = False, reserved = False,
     threads = (\<lambda>_. \<lparr>cnt0 = 0, cnt1 = 0, pc = Idle\<rparr>)\<rparr>"

definition thr :: "nat \<Rightarrow> (thread \<Rightarrow> thread) \<Rightarrow> rwlock \<Rightarrow> rwlock" where
  "thr t f s = s\<lparr>threads := (threads s)(t := f (threads s t))\<rparr>"

definition set_count :: "nat \<Rightarrow> nat \<Rightarrow> nat \<Rightarrow> rwlock \<Rightarrow> rwlock" where
  "set_count t rd wr s = thr t (\<lambda>x. x\<lparr>cnt0 := rd, cnt1 := wr\<rparr>) s"

section \<open>The loop conditions, the waits and the acquisitions\<close>

fun blocked :: "kind \<Rightarrow> rwlock \<Rightarrow> bool" where
  "blocked KRd s \<longleftrightarrow> wcount s > 0 \<or> (wwait s > 0 \<and> \<not> reserved s)"
| "blocked KTimedRd s \<longleftrightarrow> wcount s > 0 \<or> (wwait s > 0 \<and> \<not> reserved s)"
| "blocked KStarve s \<longleftrightarrow> wcount s > 0"
| "blocked KWr s \<longleftrightarrow> rcount s > 0 \<or> wcount s > 0 \<or> reserved s"
| "blocked KTimedWr s \<longleftrightarrow> rcount s > 0 \<or> wcount s > 0 \<or> reserved s"
| "blocked KRs s \<longleftrightarrow> wcount s > 0 \<or> reserved s"
| "blocked KUp s \<longleftrightarrow> rcount s > 0"

fun is_rd :: "kind \<Rightarrow> bool" where
  "is_rd KRd = True"
| "is_rd KTimedRd = True"
| "is_rd KStarve = True"
| "is_rd KWr = False"
| "is_rd KTimedWr = False"
| "is_rd KRs = False"
| "is_rd KUp = False"

definition begin_wait :: "kind \<Rightarrow> nat \<Rightarrow> rwlock \<Rightarrow> rwlock" where
  "begin_wait k t s =
     (let s = thr t (\<lambda>x. x\<lparr>pc := Asleep k\<rparr>) s in
      if is_rd k then s\<lparr>rwait := rwait s + 1, prefer_read := prefer_read s \<or> k = KStarve\<rparr>
      else s\<lparr>wwait := wwait s + 1\<rparr>)"

definition end_wait :: "kind \<Rightarrow> nat \<Rightarrow> rwlock \<Rightarrow> rwlock" where
  "end_wait k t s =
     (let s = thr t (\<lambda>x. x\<lparr>pc := Idle\<rparr>) s in
      if is_rd k then s\<lparr>rwait := rwait s - 1, prefer_read := prefer_read s \<and> k \<noteq> KStarve\<rparr>
      else s\<lparr>wwait := wwait s - 1\<rparr>)"

text \<open>What follows the loop when its condition is false.\<close>

definition acquire :: "kind \<Rightarrow> nat \<Rightarrow> rwlock \<Rightarrow> rwlock \<times> wake" where
  "acquire k t s =
     (if is_rd k then (set_count t 1 0 (s\<lparr>rcount := rcount s + 1\<rparr>), NoWake)
      else if k = KRs then
        (set_count t 1 PSYNC_WR_RESERVED (s\<lparr>rcount := rcount s + 1, reserved := True\<rparr>),
         if rwait s > 0 then BroadcastR else NoWake)
      else if k = KUp then
        (set_count t 0 (cnt0 (threads s t)) (s\<lparr>wcount := wcount s + 1, reserved := False\<rparr>), NoWake)
      else (set_count t 0 1 (s\<lparr>wcount := wcount s + 1\<rparr>), NoWake))"

definition loop_test :: "kind \<Rightarrow> nat \<Rightarrow> rwlock \<Rightarrow> rwlock \<times> wake" where
  "loop_test k t s = (if blocked k s then (begin_wait k t s, NoWake) else acquire k t s)"

text \<open>A woken thread: back from the wait, and round the loop.\<close>

definition retry :: "kind \<Rightarrow> nat \<Rightarrow> rwlock \<Rightarrow> rwlock \<times> wake" where
  "retry k t s = loop_test k t (end_wait k t s)"

text \<open>The time-out of \<^verbatim>\<open>psync_rwlock_timedrdlock\<close> and \<^verbatim>\<open>psync_rwlock_timedwrlock\<close>.\<close>

definition timed_out :: "kind \<Rightarrow> nat \<Rightarrow> rwlock \<Rightarrow> rwlock \<times> wake" where
  "timed_out k t s =
     (let s = end_wait k t s in
      (s, if k = KTimedWr \<and> wwait s = 0 \<and> wcount s = 0 \<and> rwait s > 0 then BroadcastR else NoWake))"

section \<open>Operations\<close>

text \<open>The recursive cases: \<open>Some\<close> of the new state when the thread already holds the lock.\<close>

definition psync_rwlock_check_rdrecursive_in :: "nat \<Rightarrow> rwlock \<Rightarrow> rwlock option" where
  "psync_rwlock_check_rdrecursive_in t s =
     (let x = threads s t in
      if cnt0 x > 0 then Some (set_count t (cnt0 x + 1) (cnt1 x) s)
      else if cnt1 x > 0 then Some (set_count t (cnt0 x) (cnt1 x + 1) s)
      else None)"

definition psync_rwlock_check_wrrecursive_in :: "nat \<Rightarrow> rwlock \<Rightarrow> rwlock option" where
  "psync_rwlock_check_wrrecursive_in t s =
     (let x = threads s t in
      if cnt1 x > 0 then Some (set_count t (cnt0 x) (cnt1 x + 1) s) else None)"

definition psync_rwlock_check_recursive_out :: "nat \<Rightarrow> rwlock \<Rightarrow> rwlock \<times> bool" where
  "psync_rwlock_check_recursive_out t s =
     (let x = threads s t in
      if cnt0 x > 0 then (set_count t (cnt0 x - 1) (cnt1 x) s, cnt0 x - 1 > 0)
      else (set_count t (cnt0 x) (cnt1 x - 1) s, cnt1 x - 1 > 0))"

definition lock_read :: "kind \<Rightarrow> nat \<Rightarrow> rwlock \<Rightarrow> rwlock \<times> wake" where
  "lock_read k t s =
     (case psync_rwlock_check_rdrecursive_in t s of Some s' \<Rightarrow> (s', NoWake) | None \<Rightarrow> loop_test k t s)"

definition lock_write :: "kind \<Rightarrow> nat \<Rightarrow> rwlock \<Rightarrow> rwlock \<times> wake" where
  "lock_write k t s =
     (case psync_rwlock_check_wrrecursive_in t s of Some s' \<Rightarrow> (s', NoWake) | None \<Rightarrow> loop_test k t s)"

definition psync_rwlock_rdlock :: "nat \<Rightarrow> rwlock \<Rightarrow> rwlock \<times> wake" where
  "psync_rwlock_rdlock = lock_read KRd"

definition psync_rwlock_timedrdlock :: "nat \<Rightarrow> rwlock \<Rightarrow> rwlock \<times> wake" where
  "psync_rwlock_timedrdlock = lock_read KTimedRd"

definition psync_rwlock_rdlock_starvewr :: "nat \<Rightarrow> rwlock \<Rightarrow> rwlock \<times> wake" where
  "psync_rwlock_rdlock_starvewr = lock_read KStarve"

definition psync_rwlock_wrlock :: "nat \<Rightarrow> rwlock \<Rightarrow> rwlock \<times> wake" where
  "psync_rwlock_wrlock = lock_write KWr"

definition psync_rwlock_timedwrlock :: "nat \<Rightarrow> rwlock \<Rightarrow> rwlock \<times> wake" where
  "psync_rwlock_timedwrlock = lock_write KTimedWr"

text \<open>The two \<^verbatim>\<open>try\<close> functions, with their result (\<open>True\<close> is 0, \<open>False\<close> is -1).\<close>

definition psync_rwlock_tryrdlock :: "nat \<Rightarrow> rwlock \<Rightarrow> rwlock \<times> bool" where
  "psync_rwlock_tryrdlock t s =
     (case psync_rwlock_check_rdrecursive_in t s of Some s' \<Rightarrow> (s', True)
      | None \<Rightarrow> if blocked KRd s then (s, False) else (fst (acquire KRd t s), True))"

definition psync_rwlock_trywrlock :: "nat \<Rightarrow> rwlock \<Rightarrow> rwlock \<times> bool" where
  "psync_rwlock_trywrlock t s =
     (case psync_rwlock_check_wrrecursive_in t s of Some s' \<Rightarrow> (s', True)
      | None \<Rightarrow> if blocked KWr s then (s, False) else (fst (acquire KWr t s), True))"

definition psync_rwlock_rslock :: "nat \<Rightarrow> rwlock \<Rightarrow> rwlock \<times> wake" where
  "psync_rwlock_rslock t s =
     (let x = threads s t in
      if cnt1 x > 0 then
        (if cnt1 x = PSYNC_WR_RESERVED then set_count t (cnt0 x + 1) (cnt1 x) s
         else set_count t (cnt0 x) (cnt1 x + 1) s, NoWake)
      else loop_test KRs t s)"

text \<open>The upgrade: \<open>False\<close> is the -1 of a reader that finds another thread reserved.\<close>

definition psync_rwlock_towrlock :: "nat \<Rightarrow> rwlock \<Rightarrow> (rwlock \<times> wake) \<times> bool" where
  "psync_rwlock_towrlock t s =
     (let x = threads s t in
      if cnt1 x > 0 \<and> cnt1 x \<noteq> PSYNC_WR_RESERVED then ((s, NoWake), True)
      else if reserved s \<and> cnt1 x \<noteq> PSYNC_WR_RESERVED then ((s, NoWake), False)
      else (loop_test KUp t (s\<lparr>reserved := True, rcount := rcount s - 1\<rparr>), True))"

definition psync_rwlock_unlock :: "nat \<Rightarrow> rwlock \<Rightarrow> rwlock \<times> wake" where
  "psync_rwlock_unlock t s =
     (let (s, still) = psync_rwlock_check_recursive_out t s in
      if still then (s, NoWake)
      else if rcount s > 0 then
        (let s = (if reserved s \<and> cnt1 (threads s t) = PSYNC_WR_RESERVED
                  then (set_count t (cnt0 (threads s t)) 0 s)\<lparr>reserved := False\<rparr> else s);
             s = s\<lparr>rcount := rcount s - 1\<rparr>
         in (s, if rcount s = 0 \<and> wwait s > 0 then (if reserved s then BroadcastW else SignalW) else NoWake))
      else
        (let s = s\<lparr>wcount := wcount s - 1\<rparr>
         in (s, if wcount s \<noteq> 0 then NoWake
                else if reserved s then BroadcastW
                else if prefer_read s then
                  (if rwait s > 0 then BroadcastR else if wwait s > 0 then SignalW else NoWake)
                else (if wwait s > 0 then SignalW else if rwait s > 0 then BroadcastR else NoWake))))"

definition psync_rwlock_num_waiters :: "rwlock \<Rightarrow> nat" where
  "psync_rwlock_num_waiters s = rwait s + wwait s"

definition psync_rwlock_holding_rdlock :: "nat \<Rightarrow> rwlock \<Rightarrow> bool" where
  "psync_rwlock_holding_rdlock t s \<longleftrightarrow> cnt0 (threads s t) \<noteq> 0"

definition psync_rwlock_holding_wrlock :: "nat \<Rightarrow> rwlock \<Rightarrow> bool" where
  "psync_rwlock_holding_wrlock t s \<longleftrightarrow> cnt1 (threads s t) \<noteq> 0 \<and> cnt1 (threads s t) \<noteq> PSYNC_WR_RESERVED"

definition psync_rwlock_holding_lock :: "nat \<Rightarrow> rwlock \<Rightarrow> bool" where
  "psync_rwlock_holding_lock t s \<longleftrightarrow> cnt0 (threads s t) \<noteq> 0 \<or> cnt1 (threads s t) \<noteq> 0"

section \<open>Runs\<close>

text \<open>
  The calls a thread may make, with the assertions of the code (what it may hold when it calls) and a
  recursion depth below the reserved mark as guards.
\<close>

datatype call = RdLock | TimedRd | RdStarve | TryRd | WrLock | TimedWr | TryWr | RsLock | ToWr | Unlock

fun exec :: "call \<Rightarrow> nat \<Rightarrow> rwlock \<Rightarrow> rwlock \<times> wake" where
  "exec RdLock t s = psync_rwlock_rdlock t s"
| "exec TimedRd t s = psync_rwlock_timedrdlock t s"
| "exec RdStarve t s = psync_rwlock_rdlock_starvewr t s"
| "exec TryRd t s = (fst (psync_rwlock_tryrdlock t s), NoWake)"
| "exec WrLock t s = psync_rwlock_wrlock t s"
| "exec TimedWr t s = psync_rwlock_timedwrlock t s"
| "exec TryWr t s = (fst (psync_rwlock_trywrlock t s), NoWake)"
| "exec RsLock t s = psync_rwlock_rslock t s"
| "exec ToWr t s = fst (psync_rwlock_towrlock t s)"
| "exec Unlock t s = psync_rwlock_unlock t s"

fun allowed :: "call \<Rightarrow> thread \<Rightarrow> bool" where
  "allowed WrLock x \<longleftrightarrow> cnt0 x = 0"
| "allowed TimedWr x \<longleftrightarrow> cnt0 x = 0"
| "allowed TryWr x \<longleftrightarrow> cnt0 x = 0"
| "allowed RsLock x \<longleftrightarrow> cnt0 x = 0"
| "allowed ToWr x \<longleftrightarrow> cnt0 x > 0 \<or> cnt1 x > 0"
| "allowed Unlock x \<longleftrightarrow> cnt0 x > 0 \<or> cnt1 x > 0"
| "allowed RdLock x \<longleftrightarrow> True"
| "allowed TimedRd x \<longleftrightarrow> True"
| "allowed RdStarve x \<longleftrightarrow> True"
| "allowed TryRd x \<longleftrightarrow> True"

definition shallow :: "thread \<Rightarrow> bool" where
  "shallow x \<longleftrightarrow> cnt0 x + 1 < PSYNC_WR_RESERVED \<and> (cnt1 x + 1 < PSYNC_WR_RESERVED \<or> cnt1 x = PSYNC_WR_RESERVED)"

fun wake_up :: "(kind \<Rightarrow> bool) \<Rightarrow> pc \<Rightarrow> pc" where
  "wake_up P (Asleep k) = (if P k then Awake k else Asleep k)"
| "wake_up P (Awake k) = Awake k"
| "wake_up P Idle = Idle"

definition broadcast :: "(kind \<Rightarrow> bool) \<Rightarrow> rwlock \<Rightarrow> rwlock" where
  "broadcast P s = s\<lparr>threads := (\<lambda>t. (threads s t)\<lparr>pc := wake_up P (pc (threads s t))\<rparr>)\<rparr>"

text \<open>A signal wakes one thread of the writers' condition variable, if one sleeps there.\<close>

inductive wakes :: "nat set \<Rightarrow> wake \<Rightarrow> rwlock \<Rightarrow> rwlock \<Rightarrow> bool" for T where
  wakes_none: "wakes T NoWake s s"
| wakes_r: "wakes T BroadcastR s (broadcast is_rd s)"
| wakes_w: "wakes T BroadcastW s (broadcast (\<lambda>k. \<not> is_rd k) s)"
| wakes_one: "t \<in> T \<Longrightarrow> pc (threads s t) = Asleep k \<Longrightarrow> \<not> is_rd k \<Longrightarrow>
    wakes T SignalW s (thr t (\<lambda>x. x\<lparr>pc := Awake k\<rparr>) s)"
| wakes_nobody: "\<forall>t\<in>T. \<forall>k. pc (threads s t) = Asleep k \<longrightarrow> is_rd k \<Longrightarrow> wakes T SignalW s s"

inductive rwstep :: "nat set \<Rightarrow> rwlock \<Rightarrow> rwlock \<Rightarrow> bool" for T where
  step_call: "t \<in> T \<Longrightarrow> pc (threads s t) = Idle \<Longrightarrow> allowed c (threads s t) \<Longrightarrow> shallow (threads s t) \<Longrightarrow>
    exec c t s = (s1, w) \<Longrightarrow> wakes T w s1 s2 \<Longrightarrow> rwstep T s s2"
| step_retry: "t \<in> T \<Longrightarrow> pc (threads s t) = Awake k \<Longrightarrow> retry k t s = (s1, w) \<Longrightarrow> wakes T w s1 s2 \<Longrightarrow> rwstep T s s2"
| step_spurious: "t \<in> T \<Longrightarrow> pc (threads s t) = Asleep k \<Longrightarrow> rwstep T s (thr t (\<lambda>x. x\<lparr>pc := Awake k\<rparr>) s)"
| step_timeout: "t \<in> T \<Longrightarrow> pc (threads s t) = Asleep k \<Longrightarrow> k = KTimedRd \<or> k = KTimedWr \<Longrightarrow>
    timed_out k t s = (s1, w) \<Longrightarrow> wakes T w s1 s2 \<Longrightarrow> rwstep T s s2"

text \<open>
  POSIX lets a wait that times out consume a signal sent to it at the same time: the time-out of a thread
  that was already woken.
\<close>

inductive rwstep_posix :: "nat set \<Rightarrow> rwlock \<Rightarrow> rwlock \<Rightarrow> bool" for T where
  posix_step: "rwstep T s s' \<Longrightarrow> rwstep_posix T s s'"
| posix_consume: "t \<in> T \<Longrightarrow> pc (threads s t) = Awake k \<Longrightarrow> k = KTimedRd \<or> k = KTimedWr \<Longrightarrow>
    timed_out k t s = (s1, w) \<Longrightarrow> wakes T w s1 s2 \<Longrightarrow> rwstep_posix T s s2"

text \<open>
  Runs with all the steps POSIX allows: \<open>n\<close> is the number of times that a timed-out wait for the write lock
  consumed a signal.
\<close>

inductive posix_run :: "nat set \<Rightarrow> nat \<Rightarrow> rwlock \<Rightarrow> bool" for T where
  run_init: "posix_run T 0 psync_rwlock_init"
| run_step: "posix_run T n s \<Longrightarrow> rwstep T s s' \<Longrightarrow> posix_run T n s'"
| run_consume: "posix_run T n s \<Longrightarrow> t \<in> T \<Longrightarrow> pc (threads s t) = Awake k \<Longrightarrow> k = KTimedRd \<or> k = KTimedWr \<Longrightarrow>
    timed_out k t s = (s1, w) \<Longrightarrow> wakes T w s1 s2 \<Longrightarrow> posix_run T (if k = KTimedWr then Suc n else n) s2"

lemma posix_run_reach: "(rwstep_posix T)\<^sup>*\<^sup>* psync_rwlock_init s \<longleftrightarrow> (\<exists>n. posix_run T n s)"
proof
  assume "(rwstep_posix T)\<^sup>*\<^sup>* psync_rwlock_init s"
  then show "\<exists>n. posix_run T n s"
  proof (induction rule: rtranclp_induct)
    case base
    then show ?case by (blast intro: run_init)
  next
    case (step s s')
    then obtain n where n: "posix_run T n s" by blast
    from step(2) show ?case by cases (blast intro: n run_step run_consume)+
  qed
next
  assume "\<exists>n. posix_run T n s"
  then obtain n where "posix_run T n s" ..
  then show "(rwstep_posix T)\<^sup>*\<^sup>* psync_rwlock_init s"
    by induction (blast intro: rtranclp.rtrancl_refl rtranclp.rtrancl_into_rtrancl posix_step posix_consume)+
qed

inductive_cases rwstepE: "rwstep T s s'"
inductive_cases wakesE: "wakes T w s s'"
inductive_simps wakes_simps [simp]: "wakes T NoWake s s'" "wakes T BroadcastR s s'" "wakes T BroadcastW s s'"

section \<open>The invariant\<close>

fun wk :: "pc \<Rightarrow> kind option" where
  "wk Idle = None"
| "wk (Asleep k) = Some k"
| "wk (Awake k) = Some k"

text \<open>Threads that read, write, hold the reservation, wait to read and wait to write.\<close>

definition rdr :: "thread \<Rightarrow> bool" where "rdr x \<longleftrightarrow> cnt0 x > 0 \<and> wk (pc x) \<noteq> Some KUp"
definition wtr :: "thread \<Rightarrow> bool" where "wtr x \<longleftrightarrow> cnt1 x > 0 \<and> cnt1 x \<noteq> PSYNC_WR_RESERVED"
definition rsv :: "thread \<Rightarrow> bool" where "rsv x \<longleftrightarrow> wk (pc x) = Some KUp \<or> cnt1 x = PSYNC_WR_RESERVED"
definition rwt :: "thread \<Rightarrow> bool" where "rwt x \<longleftrightarrow> (case wk (pc x) of None \<Rightarrow> False | Some k \<Rightarrow> is_rd k)"
definition wwt :: "thread \<Rightarrow> bool" where "wwt x \<longleftrightarrow> (case wk (pc x) of None \<Rightarrow> False | Some k \<Rightarrow> \<not> is_rd k)"

lemmas roles = rdr_def wtr_def rsv_def rwt_def wwt_def

definition okt :: "thread \<Rightarrow> bool" where
  "okt x \<longleftrightarrow> cnt0 x < PSYNC_WR_RESERVED \<and> cnt1 x \<le> PSYNC_WR_RESERVED \<and> (case wk (pc x) of
      None \<Rightarrow> (cnt1 x = PSYNC_WR_RESERVED \<longrightarrow> cnt0 x > 0) \<and> (cnt0 x = 0 \<or> cnt1 x = 0 \<or> cnt1 x = PSYNC_WR_RESERVED)
    | Some k \<Rightarrow> if k = KUp then cnt0 x > 0 \<and> (cnt1 x = 0 \<or> cnt1 x = PSYNC_WR_RESERVED) else cnt0 x = 0 \<and> cnt1 x = 0)"

definition tally :: "nat set \<Rightarrow> (thread \<Rightarrow> bool) \<Rightarrow> (nat \<Rightarrow> thread) \<Rightarrow> int" where
  "tally T P th = int (card {t \<in> T. P (th t)})"

definition rw_inv :: "nat set \<Rightarrow> rwlock \<Rightarrow> bool" where
  "rw_inv T s \<longleftrightarrow> finite T \<and>
     int (rcount s) = tally T rdr (threads s) \<and> int (wcount s) = tally T wtr (threads s) \<and>
     (of_bool (reserved s) :: int) = tally T rsv (threads s) \<and>
     int (rwait s) = tally T rwt (threads s) \<and> int (wwait s) = tally T wwt (threads s) \<and>
     (\<forall>t\<in>T. okt (threads s t)) \<and> (wcount s > 0 \<longrightarrow> wcount s = 1 \<and> rcount s = 0 \<and> \<not> reserved s)"

lemma reserved_pos [simp]: "0 < PSYNC_WR_RESERVED" "Suc 0 < PSYNC_WR_RESERVED" "Suc 0 \<le> PSYNC_WR_RESERVED" "PSYNC_WR_RESERVED \<noteq> 0" "PSYNC_WR_RESERVED \<noteq> Suc 0"
    "Suc 0 \<noteq> PSYNC_WR_RESERVED" "0 \<noteq> PSYNC_WR_RESERVED"
  by (simp_all add: PSYNC_WR_RESERVED_def)

lemma thr_simps [simp]:
  "threads (thr t f s) = (threads s)(t := f (threads s t))" "rcount (thr t f s) = rcount s"
  "wcount (thr t f s) = wcount s" "rwait (thr t f s) = rwait s" "wwait (thr t f s) = wwait s"
  "reserved (thr t f s) = reserved s" "prefer_read (thr t f s) = prefer_read s"
  by (simp_all add: thr_def)

lemma tally_upd [simp]:
  assumes "finite T" "t \<in> T"
  shows "tally T P (th(t := x)) = tally T P th + of_bool (P x) - of_bool (P (th t))"
proof -
  have split: "{u \<in> T. P (f u)} = {u \<in> T - {t}. P (f u)} \<union> (if P (f t) then {t} else {})" for f :: "nat \<Rightarrow> thread"
    using assms(2) by auto
  have card: "card {u \<in> T. P (f u)} = card {u \<in> T - {t}. P (f u)} + of_bool (P (f t))" for f :: "nat \<Rightarrow> thread"
    unfolding split using assms(1) by (subst card_Un_disjoint) auto
  have "{u \<in> T - {t}. P ((th(t := x)) u)} = {u \<in> T - {t}. P (th u)}" by auto
  then show ?thesis unfolding tally_def card [of "th(t := x)"] card [of th] by simp
qed

lemma tally_member:
  assumes "finite T" "t \<in> T"
  shows "of_bool (P (th t)) \<le> tally T P th"
proof (cases "P (th t)")
  case True
  with assms have "{t} \<subseteq> {u \<in> T. P (th u)}" by auto
  then have "card {t} \<le> card {u \<in> T. P (th u)}" using assms(1) by (intro card_mono) auto
  with True show ?thesis by (simp add: tally_def)
qed (simp add: tally_def)

lemma tally_two:
  assumes "finite T" "t \<in> T" "u \<in> T" "t \<noteq> u" "P (th t)" "P (th u)"
  shows "2 \<le> tally T P th"
proof -
  have "card {t, u} \<le> card {u \<in> T. P (th u)}" using assms by (intro card_mono) auto
  with assms(4) show ?thesis by (simp add: tally_def)
qed

text \<open>What the invariant says of one thread.\<close>

lemma rw_invD:
  assumes "rw_inv T s" "t \<in> T"
  shows "okt (threads s t)" "rdr (threads s t) \<Longrightarrow> rcount s > 0" "wtr (threads s t) \<Longrightarrow> wcount s > 0"
    "rsv (threads s t) \<Longrightarrow> reserved s" "rwt (threads s t) \<Longrightarrow> rwait s > 0" "wwt (threads s t) \<Longrightarrow> wwait s > 0"
  using assms tally_member [of T t rdr "threads s"] tally_member [of T t wtr "threads s"]
    tally_member [of T t rsv "threads s"] tally_member [of T t rwt "threads s"] tally_member [of T t wwt "threads s"]
  by (cases "reserved s"; auto simp: rw_inv_def)+

lemma rw_inv_cong:
  assumes "rw_inv T s" "\<And>t. t \<in> T \<Longrightarrow> cnt0 (threads s' t) = cnt0 (threads s t) \<and> cnt1 (threads s' t) = cnt1 (threads s t) \<and>
      wk (pc (threads s' t)) = wk (pc (threads s t))"
    and "rcount s' = rcount s" "wcount s' = wcount s" "rwait s' = rwait s" "wwait s' = wwait s" "reserved s' = reserved s"
  shows "rw_inv T s'"
proof -
  have t: "tally T P (threads s') = tally T P (threads s)" if "P \<in> {rdr, wtr, rsv, rwt, wwt}" for P
  proof -
    have "{t \<in> T. P (threads s' t)} = {t \<in> T. P (threads s t)}"
      using that assms(2) by (auto simp: roles)
    then show ?thesis by (simp add: tally_def)
  qed
  have "okt (threads s' t) = okt (threads s t)" if "t \<in> T" for t
    using assms(2) [OF that] by (cases "wk (pc (threads s t))") (simp_all add: okt_def)
  with assms(1,3-7) t show ?thesis by (simp add: rw_inv_def)
qed

lemma wk_wake_up [simp]: "wk (wake_up P x) = wk x"
  by (cases x) auto

lemma wakes_inv: "wakes T w s s' \<Longrightarrow> rw_inv T s \<Longrightarrow> rw_inv T s'"
  by (erule wakesE; erule rw_inv_cong) (auto simp: broadcast_def)

section \<open>The operations preserve it\<close>

lemmas lock_defs = begin_wait_def end_wait_def acquire_def loop_test_def retry_def timed_out_def set_count_def
  lock_read_def lock_write_def psync_rwlock_check_rdrecursive_in_def psync_rwlock_check_wrrecursive_in_def
  psync_rwlock_check_recursive_out_def psync_rwlock_rslock_def psync_rwlock_towrlock_def psync_rwlock_unlock_def
  psync_rwlock_rdlock_def psync_rwlock_timedrdlock_def psync_rwlock_rdlock_starvewr_def psync_rwlock_wrlock_def
  psync_rwlock_timedwrlock_def psync_rwlock_tryrdlock_def psync_rwlock_trywrlock_def

text \<open>A step that changes the state of one thread, with the counters changed to match.\<close>

lemma rw_inv_upd:
  assumes "rw_inv T s" "t \<in> T" "threads s1 = (threads s)(t := x)" "okt x"
    and "int (rcount s1) = int (rcount s) + of_bool (rdr x) - of_bool (rdr (threads s t))"
    and "int (wcount s1) = int (wcount s) + of_bool (wtr x) - of_bool (wtr (threads s t))"
    and "(of_bool (reserved s1) :: int) = of_bool (reserved s) + of_bool (rsv x) - of_bool (rsv (threads s t))"
    and "int (rwait s1) = int (rwait s) + of_bool (rwt x) - of_bool (rwt (threads s t))"
    and "int (wwait s1) = int (wwait s) + of_bool (wwt x) - of_bool (wwt (threads s t))"
    and "wcount s1 > 0 \<Longrightarrow> wcount s1 = 1 \<and> rcount s1 = 0 \<and> \<not> reserved s1"
  shows "rw_inv T s1"
proof -
  have "finite T" using assms(1) by (simp add: rw_inv_def)
  with assms show ?thesis unfolding rw_inv_def by (simp add: assms(3))
qed

text \<open>The fields after a wait begins, after it ended, and after the lock was taken.\<close>

lemma begin_wait_simps [simp]:
  "threads (begin_wait k t s) = (threads s)(t := (threads s t)\<lparr>pc := Asleep k\<rparr>)"
  "rcount (begin_wait k t s) = rcount s" "wcount (begin_wait k t s) = wcount s"
  "reserved (begin_wait k t s) = reserved s" "rwait (begin_wait k t s) = rwait s + (if is_rd k then 1 else 0)"
  "wwait (begin_wait k t s) = wwait s + (if is_rd k then 0 else 1)"
  "prefer_read (begin_wait k t s) \<longleftrightarrow> prefer_read s \<or> k = KStarve"
  by (auto simp: begin_wait_def Let_def)

lemma end_wait_simps [simp]:
  "threads (end_wait k t s) = (threads s)(t := (threads s t)\<lparr>pc := Idle\<rparr>)"
  "rcount (end_wait k t s) = rcount s" "wcount (end_wait k t s) = wcount s"
  "reserved (end_wait k t s) = reserved s" "rwait (end_wait k t s) = rwait s - (if is_rd k then 1 else 0)"
  "wwait (end_wait k t s) = wwait s - (if is_rd k then 0 else 1)"
  "prefer_read (end_wait k t s) \<longleftrightarrow> prefer_read s \<and> k \<noteq> KStarve"
  by (auto simp: end_wait_def Let_def)

lemma set_count_simps [simp]:
  "threads (set_count t rd wr s) = (threads s)(t := (threads s t)\<lparr>cnt0 := rd, cnt1 := wr\<rparr>)"
  "rcount (set_count t rd wr s) = rcount s" "wcount (set_count t rd wr s) = wcount s"
  "reserved (set_count t rd wr s) = reserved s" "rwait (set_count t rd wr s) = rwait s"
  "wwait (set_count t rd wr s) = wwait s" "prefer_read (set_count t rd wr s) = prefer_read s"
  by (auto simp: set_count_def)

lemma acquire_simps [simp]:
  "threads (fst (acquire k t s)) = (threads s)(t := (threads s t)\<lparr>cnt0 := if is_rd k \<or> k = KRs then 1 else 0,
      cnt1 := if is_rd k then 0 else if k = KRs then PSYNC_WR_RESERVED else if k = KUp then cnt0 (threads s t) else 1\<rparr>)"
  "rcount (fst (acquire k t s)) = rcount s + (if is_rd k \<or> k = KRs then 1 else 0)"
  "wcount (fst (acquire k t s)) = wcount s + (if is_rd k \<or> k = KRs then 0 else 1)"
  "reserved (fst (acquire k t s)) = (if k = KRs then True else if k = KUp then False else reserved s)"
  "rwait (fst (acquire k t s)) = rwait s" "wwait (fst (acquire k t s)) = wwait s"
  "prefer_read (fst (acquire k t s)) = prefer_read s"
  by (auto simp: acquire_def)

text \<open>Coming to the loop without holding anything, and leaving a wait.\<close>

lemma loop_test_inv:
  assumes "rw_inv T s" "t \<in> T" "pc (threads s t) = Idle" "cnt0 (threads s t) = 0" "cnt1 (threads s t) = 0" "k \<noteq> KUp"
  shows "rw_inv T (fst (loop_test k t s))"
proof (cases "blocked k s")
  case True
  have "rw_inv T (begin_wait k t s)"
    by (rule rw_inv_upd [OF assms(1,2) begin_wait_simps(1)])
      (use assms in \<open>auto simp: okt_def roles rw_inv_def\<close>)
  with True show ?thesis by (simp add: loop_test_def)
next
  case False
  have "wcount s = 0" "\<not> is_rd k \<Longrightarrow> \<not> reserved s" "\<not> is_rd k \<Longrightarrow> k \<noteq> KRs \<Longrightarrow> rcount s = 0"
    using False assms(6) by (cases k; simp)+
  then have "rw_inv T (fst (acquire k t s))"
    by (intro rw_inv_upd [OF assms(1,2) acquire_simps(1)])
      (use assms in \<open>auto simp: okt_def roles\<close>)
  with False show ?thesis by (simp add: loop_test_def)
qed

lemma end_wait_inv:
  assumes "rw_inv T s" "t \<in> T" "wk (pc (threads s t)) = Some k" "k \<noteq> KUp"
  shows "rw_inv T (end_wait k t s)" "cnt0 (threads s t) = 0" "cnt1 (threads s t) = 0"
proof -
  note D = rw_invD [OF assms(1,2)]
  show z: "cnt0 (threads s t) = 0" "cnt1 (threads s t) = 0"
    using D(1) assms(3,4) by (auto simp: okt_def)
  have "is_rd k \<Longrightarrow> rwait s > 0" "\<not> is_rd k \<Longrightarrow> wwait s > 0"
    using D(5,6) assms(3) by (auto simp: roles)
  then show "rw_inv T (end_wait k t s)"
    by (intro rw_inv_upd [OF assms(1,2) end_wait_simps(1)])
      (use assms z in \<open>auto simp: okt_def roles rw_inv_def of_nat_diff\<close>)
qed

lemma retry_up_inv:
  assumes "rw_inv T s" "t \<in> T" "wk (pc (threads s t)) = Some KUp"
  shows "rw_inv T (fst (retry KUp t s))"
proof -
  note D = rw_invD [OF assms(1,2)]
  have pos: "reserved s" "wwait s > 0" "wcount s = 0" "cnt0 (threads s t) > 0" "cnt0 (threads s t) < PSYNC_WR_RESERVED"
    "cnt1 (threads s t) = 0 \<or> cnt1 (threads s t) = PSYNC_WR_RESERVED"
    using D(1,4,6) assms(1,3) by (auto simp: roles rw_inv_def okt_def)
  show ?thesis
  proof (cases "rcount s > 0")
    case True
    then have e: "fst (retry KUp t s) = begin_wait KUp t (end_wait KUp t s)" by (simp add: retry_def loop_test_def)
    have th: "threads (fst (retry KUp t s)) = (threads s)(t := (threads s t)\<lparr>pc := Asleep KUp\<rparr>)"
      by (simp add: e)
    show ?thesis
      by (rule rw_inv_upd [OF assms(1,2) th]) (use pos assms True in \<open>auto simp: e okt_def roles\<close>)
  next
    case False
    then have e: "fst (retry KUp t s) = fst (acquire KUp t (end_wait KUp t s))" by (simp add: retry_def loop_test_def)
    have th: "threads (fst (retry KUp t s)) = (threads s)(t := (threads s t)\<lparr>pc := Idle, cnt0 := 0, cnt1 := cnt0 (threads s t)\<rparr>)"
      by (simp add: e)
    show ?thesis
      by (rule rw_inv_upd [OF assms(1,2) th]) (use pos assms False in \<open>auto simp: e okt_def roles\<close>)
  qed
qed

lemma retry_inv:
  assumes "rw_inv T s" "t \<in> T" "wk (pc (threads s t)) = Some k"
  shows "rw_inv T (fst (retry k t s))"
proof (cases "k = KUp")
  case True
  with retry_up_inv assms show ?thesis by blast
next
  case False
  from end_wait_inv [OF assms False] assms(2) False show ?thesis
    unfolding retry_def by (intro loop_test_inv) simp_all
qed

lemma timed_out_inv:
  assumes "rw_inv T s" "t \<in> T" "wk (pc (threads s t)) = Some k" "k \<noteq> KUp"
  shows "rw_inv T (fst (timed_out k t s))"
  using end_wait_inv(1) [OF assms] by (simp add: timed_out_def Let_def)

text \<open>The recursive cases.\<close>

lemma set_count_inv:
  assumes "rw_inv T s" "t \<in> T" "pc (threads s t) = Idle" "rd < PSYNC_WR_RESERVED" "wr \<le> PSYNC_WR_RESERVED"
    and "rd > 0 \<longleftrightarrow> cnt0 (threads s t) > 0" "wr > 0 \<longleftrightarrow> cnt1 (threads s t) > 0"
    "wr = PSYNC_WR_RESERVED \<longleftrightarrow> cnt1 (threads s t) = PSYNC_WR_RESERVED"
  shows "rw_inv T (set_count t rd wr s)"
proof -
  have "okt (threads s t)" by (rule rw_invD(1) [OF assms(1,2)])
  with assms(3-8) have ok: "okt ((threads s t)\<lparr>cnt0 := rd, cnt1 := wr\<rparr>)" by (auto simp: okt_def)
  show ?thesis
    by (rule rw_inv_upd [OF assms(1,2) set_count_simps(1) ok])
      (use assms in \<open>auto simp: roles rw_inv_def\<close>)
qed

lemma lock_read_inv:
  assumes "rw_inv T s" "t \<in> T" "pc (threads s t) = Idle" "shallow (threads s t)" "is_rd k"
  shows "rw_inv T (fst (lock_read k t s))"
proof (cases "psync_rwlock_check_rdrecursive_in t s")
  case None
  then have "cnt0 (threads s t) = 0" "cnt1 (threads s t) = 0"
    by (auto simp: psync_rwlock_check_rdrecursive_in_def Let_def split: if_splits)
  with None assms show ?thesis by (auto simp: lock_read_def intro: loop_test_inv)
next
  case (Some s')
  have "okt (threads s t)" by (rule rw_invD(1) [OF assms(1,2)])
  with assms(3,4) have "rw_inv T s'"
    using Some by (auto simp: psync_rwlock_check_rdrecursive_in_def Let_def shallow_def okt_def
        intro!: set_count_inv [OF assms(1-3)] split: if_splits)
  with Some show ?thesis by (simp add: lock_read_def)
qed

lemma check_wr_inv:
  assumes "rw_inv T s" "t \<in> T" "pc (threads s t) = Idle" "shallow (threads s t)" "cnt0 (threads s t) = 0"
    and "psync_rwlock_check_wrrecursive_in t s = Some s'"
  shows "rw_inv T s'"
proof -
  have "okt (threads s t)" by (rule rw_invD(1) [OF assms(1,2)])
  with assms(3-6) show ?thesis
    by (auto simp: psync_rwlock_check_wrrecursive_in_def Let_def shallow_def okt_def
        intro!: set_count_inv [OF assms(1-3)] split: if_splits)
qed

lemma lock_write_inv:
  assumes "rw_inv T s" "t \<in> T" "pc (threads s t) = Idle" "shallow (threads s t)" "cnt0 (threads s t) = 0"
    and "k = KWr \<or> k = KTimedWr"
  shows "rw_inv T (fst (lock_write k t s))"
proof (cases "psync_rwlock_check_wrrecursive_in t s")
  case None
  then have "cnt1 (threads s t) = 0"
    by (auto simp: psync_rwlock_check_wrrecursive_in_def Let_def split: if_splits)
  with None assms show ?thesis by (auto simp: lock_write_def intro: loop_test_inv)
next
  case (Some s')
  with check_wr_inv [OF assms(1-5)] show ?thesis by (simp add: lock_write_def)
qed

lemma try_inv:
  assumes "rw_inv T s" "t \<in> T" "pc (threads s t) = Idle" "shallow (threads s t)"
  shows "rw_inv T (fst (psync_rwlock_tryrdlock t s))"
    and "cnt0 (threads s t) = 0 \<Longrightarrow> rw_inv T (fst (psync_rwlock_trywrlock t s))"
proof -
  have "fst (psync_rwlock_tryrdlock t s) = (if psync_rwlock_check_rdrecursive_in t s = None \<and> blocked KRd s then s
      else fst (lock_read KRd t s))"
    by (auto simp: psync_rwlock_tryrdlock_def lock_read_def loop_test_def split: option.split)
  then show "rw_inv T (fst (psync_rwlock_tryrdlock t s))"
    using assms by (auto intro: lock_read_inv)
  assume z: "cnt0 (threads s t) = 0"
  have "fst (psync_rwlock_trywrlock t s) = (if psync_rwlock_check_wrrecursive_in t s = None \<and> blocked KWr s then s
      else fst (lock_write KWr t s))"
    by (auto simp: psync_rwlock_trywrlock_def lock_write_def loop_test_def split: option.split)
  then show "rw_inv T (fst (psync_rwlock_trywrlock t s))"
    using assms z by (auto intro: lock_write_inv)
qed

lemma rslock_inv:
  assumes "rw_inv T s" "t \<in> T" "pc (threads s t) = Idle" "shallow (threads s t)" "cnt0 (threads s t) = 0"
  shows "rw_inv T (fst (psync_rwlock_rslock t s))"
proof -
  have "okt (threads s t)" by (rule rw_invD(1) [OF assms(1,2)])
  with assms show ?thesis
    by (auto simp: psync_rwlock_rslock_def Let_def okt_def shallow_def intro!: loop_test_inv set_count_inv)
qed

text \<open>The upgrade enters its loop as if it had just been woken.\<close>

definition upgrading :: "nat \<Rightarrow> rwlock \<Rightarrow> rwlock" where
  "upgrading t s = thr t (\<lambda>x. x\<lparr>pc := Awake KUp\<rparr>)
     (s\<lparr>reserved := True, rcount := rcount s - 1, wwait := wwait s + 1\<rparr>)"

lemma upgrading_retry:
  "pc (threads s t) = Idle \<Longrightarrow> retry KUp t (upgrading t s) = loop_test KUp t (s\<lparr>reserved := True, rcount := rcount s - 1\<rparr>)"
proof -
  assume "pc (threads s t) = Idle"
  then have "(threads s t)\<lparr>pc := Idle\<rparr> = threads s t" by (cases "threads s t") simp
  then have "end_wait KUp t (upgrading t s) = s\<lparr>reserved := True, rcount := rcount s - 1\<rparr>"
    by (simp add: upgrading_def end_wait_def thr_def Let_def)
  then show ?thesis by (simp add: retry_def)
qed

lemma towrlock_inv:
  assumes "rw_inv T s" "t \<in> T" "pc (threads s t) = Idle" "allowed ToWr (threads s t)"
  shows "rw_inv T (fst (fst (psync_rwlock_towrlock t s)))"
proof -
  note D = rw_invD [OF assms(1,2)]
  let ?x = "threads s t"
  show ?thesis
  proof (cases "cnt1 ?x > 0 \<and> cnt1 ?x \<noteq> PSYNC_WR_RESERVED \<or> reserved s \<and> cnt1 ?x \<noteq> PSYNC_WR_RESERVED")
    case True
    with assms(1) show ?thesis by (auto simp: psync_rwlock_towrlock_def Let_def)
  next
    case False
    have x: "cnt0 ?x > 0" "cnt1 ?x = 0 \<or> cnt1 ?x = PSYNC_WR_RESERVED" "cnt0 ?x < PSYNC_WR_RESERVED"
      "cnt1 ?x = PSYNC_WR_RESERVED \<longleftrightarrow> reserved s" "rcount s > 0" "wcount s = 0"
      using D(1,2,4) False assms by (auto simp: okt_def roles rw_inv_def)
    have th: "threads (upgrading t s) = (threads s)(t := ?x\<lparr>pc := Awake KUp\<rparr>)"
      by (simp add: upgrading_def)
    have "rw_inv T (upgrading t s)"
      by (rule rw_inv_upd [OF assms(1,2) th])
        (use x assms in \<open>auto simp: upgrading_def okt_def roles of_nat_diff\<close>)
    then have "rw_inv T (fst (retry KUp t (upgrading t s)))"
      by (rule retry_up_inv) (simp_all add: th assms)
    with False upgrading_retry [OF assms(3)] show ?thesis
      by (auto simp: psync_rwlock_towrlock_def Let_def)
  qed
qed

text \<open>The three ways out of \<^verbatim>\<open>psync_rwlock_unlock\<close>.\<close>

lemma unlock_cases:
  assumes "rw_inv T s" "t \<in> T" "pc (threads s t) = Idle" "allowed Unlock (threads s t)"
  obtains (recursive) rd wr where "psync_rwlock_unlock t s = (set_count t rd wr s, NoWake)"
      "rd + wr < cnt0 (threads s t) + cnt1 (threads s t)" "rd > 0 \<longleftrightarrow> cnt0 (threads s t) > 0"
      "wr > 0 \<longleftrightarrow> cnt1 (threads s t) > 0" "rd \<le> cnt0 (threads s t)" "wr \<le> cnt1 (threads s t)"
      "wr = PSYNC_WR_RESERVED \<longleftrightarrow> cnt1 (threads s t) = PSYNC_WR_RESERVED"
    | (reader) s1 w where "psync_rwlock_unlock t s = (s1, w)" "rdr (threads s t)" "rcount s > 0" "wcount s = 0"
      "threads s1 = (threads s)(t := \<lparr>cnt0 = 0, cnt1 = 0, pc = Idle\<rparr>)"
      "rcount s1 = rcount s - 1" "wcount s1 = 0" "rwait s1 = rwait s" "wwait s1 = wwait s" "prefer_read s1 = prefer_read s"
      "reserved s1 \<longleftrightarrow> reserved s \<and> cnt1 (threads s t) \<noteq> PSYNC_WR_RESERVED"
      "w = (if rcount s1 = 0 \<and> wwait s > 0 then (if reserved s1 then BroadcastW else SignalW) else NoWake)"
    | (writer) s1 w where "psync_rwlock_unlock t s = (s1, w)" "wtr (threads s t)" "rcount s = 0" "wcount s = 1"
      "threads s1 = (threads s)(t := \<lparr>cnt0 = 0, cnt1 = 0, pc = Idle\<rparr>)"
      "rcount s1 = 0" "wcount s1 = 0" "rwait s1 = rwait s" "wwait s1 = wwait s" "prefer_read s1 = prefer_read s"
      "\<not> reserved s" "\<not> reserved s1"
      "w = (if prefer_read s then (if rwait s > 0 then BroadcastR else if wwait s > 0 then SignalW else NoWake)
            else (if wwait s > 0 then SignalW else if rwait s > 0 then BroadcastR else NoWake))"
proof -
  note D = rw_invD [OF assms(1,2)]
  let ?x = "threads s t"
  obtain rd wr where x: "?x = \<lparr>cnt0 = rd, cnt1 = wr, pc = Idle\<rparr>" using assms(3) by (cases ?x) auto
  have ok: "wr = PSYNC_WR_RESERVED \<longrightarrow> rd > 0" "rd = 0 \<or> wr = 0 \<or> wr = PSYNC_WR_RESERVED" "rd < PSYNC_WR_RESERVED"
    "wr \<le> PSYNC_WR_RESERVED"
    using D(1) by (auto simp: x okt_def)
  have excl: "wcount s > 0 \<longrightarrow> wcount s = 1 \<and> rcount s = 0 \<and> \<not> reserved s"
    using assms(1) by (simp add: rw_inv_def)
  have "rd > 0 \<or> wr > 0" using assms(4) by (simp add: x)
  then consider "rd > 1 \<or> rd = 0 \<and> wr > 1" | "rd = 1" | "rd = 0" "wr = 1" by linarith
  then show thesis
  proof cases
    case 1
    show thesis
      by (rule recursive [of "rd - 1" "if rd > 0 then wr else wr - 1"])
        (use 1 ok in \<open>auto simp: psync_rwlock_unlock_def psync_rwlock_check_recursive_out_def Let_def x\<close>)
  next
    case 2
    have r: "rdr ?x" "rcount s > 0" "wcount s = 0" "wr = PSYNC_WR_RESERVED \<longrightarrow> reserved s" "wr = 0 \<or> wr = PSYNC_WR_RESERVED"
      using D(2,4) excl ok 2 by (auto simp: x roles)
    show thesis
      by (rule reader [OF surjective_pairing r(1-3)])
        (use 2 r in \<open>auto simp: psync_rwlock_unlock_def psync_rwlock_check_recursive_out_def Let_def x\<close>)
  next
    case 3
    have r: "wtr ?x" "wcount s = 1" "rcount s = 0" "\<not> reserved s"
      using D(3) excl 3 by (auto simp: x roles)
    show thesis
      by (rule writer [OF surjective_pairing r(1,3,2)])
        (use 3 r in \<open>auto simp: psync_rwlock_unlock_def psync_rwlock_check_recursive_out_def Let_def x\<close>)
  qed
qed

lemma unlock_inv:
  assumes "rw_inv T s" "t \<in> T" "pc (threads s t) = Idle" "allowed Unlock (threads s t)"
  shows "rw_inv T (fst (psync_rwlock_unlock t s))"
  using assms
proof (cases rule: unlock_cases)
  case (recursive rd wr)
  then have "rw_inv T (set_count t rd wr s)"
    using assms rw_invD(1) [OF assms(1,2)] by (intro set_count_inv) (auto simp: okt_def)
  with recursive show ?thesis by simp
next
  case (reader s1 w)
  have "okt (threads s t)" by (rule rw_invD(1) [OF assms(1,2)])
  with reader rw_invD(4) [OF assms(1,2)] have "rw_inv T s1"
    by (intro rw_inv_upd [OF assms(1,2) reader(5)])
      (use assms(3) in \<open>auto simp: okt_def roles of_nat_diff\<close>)
  with reader show ?thesis by simp
next
  case (writer s1 w)
  have "okt (threads s t)" by (rule rw_invD(1) [OF assms(1,2)])
  with writer have "rw_inv T s1"
    by (intro rw_inv_upd [OF assms(1,2) writer(5)])
      (use assms(3) in \<open>auto simp: okt_def roles of_nat_diff\<close>)
  with writer show ?thesis by simp
qed

lemma exec_inv:
  assumes "rw_inv T s" "t \<in> T" "pc (threads s t) = Idle" "allowed c (threads s t)" "shallow (threads s t)"
  shows "rw_inv T (fst (exec c t s))"
  using assms lock_read_inv [OF assms(1-3,5)] lock_write_inv [OF assms(1-3,5)] try_inv [OF assms(1-3,5)]
    rslock_inv [OF assms(1-3,5)] towrlock_inv [OF assms(1-3)] unlock_inv [OF assms(1-3)]
  by (cases c) (simp_all add: psync_rwlock_rdlock_def psync_rwlock_timedrdlock_def
      psync_rwlock_rdlock_starvewr_def psync_rwlock_wrlock_def psync_rwlock_timedwrlock_def)

lemma rwstep_inv: "rwstep T s s' \<Longrightarrow> rw_inv T s \<Longrightarrow> rw_inv T s'"
proof (induction rule: rwstep.induct)
  case (step_call t s c s1 w s2)
  with exec_inv [of T s t c] wakes_inv show ?case by auto
next
  case (step_retry t s k s1 w s2)
  with retry_inv [of T s t k] wakes_inv show ?case by auto
next
  case (step_spurious t s k)
  then show ?case by (auto intro: rw_inv_cong)
next
  case (step_timeout t s k s1 w s2)
  with timed_out_inv [of T s t k] wakes_inv show ?case by auto
qed

lemma posix_inv: "rwstep_posix T s s' \<Longrightarrow> rw_inv T s \<Longrightarrow> rw_inv T s'"
proof (induction rule: rwstep_posix.induct)
  case (posix_consume t s k s1 w s2)
  with timed_out_inv [of T s t k] wakes_inv show ?case by auto
qed (rule rwstep_inv)

lemma init_inv: "finite T \<Longrightarrow> rw_inv T psync_rwlock_init"
  by (simp add: rw_inv_def psync_rwlock_init_def tally_def roles okt_def)

lemma reachable_inv: "(rwstep_posix T)\<^sup>*\<^sup>* psync_rwlock_init s \<Longrightarrow> finite T \<Longrightarrow> rw_inv T s"
  by (induction rule: rtranclp_induct) (auto intro: init_inv posix_inv)

section \<open>No wake-up is lost\<close>

text \<open>A thread that is awake and whose turn it is whenever the lock is free.\<close>

definition alert :: "nat set \<Rightarrow> rwlock \<Rightarrow> bool" where
  "alert T s \<longleftrightarrow> (\<exists>u\<in>T. \<exists>k. pc (threads s u) = Awake k \<and> (\<not> is_rd k \<or> k = KStarve))"

definition held :: "rwlock \<Rightarrow> bool" where
  "held s \<longleftrightarrow> rcount s > 0 \<or> wcount s > 0 \<or> reserved s"

text \<open>Why a thread may sleep in loop \<open>k\<close>, when \<open>w\<close> is about to be done to the condition variables.\<close>

definition sleep_ok :: "nat set \<Rightarrow> wake \<Rightarrow> rwlock \<Rightarrow> kind \<Rightarrow> bool" where
  "sleep_ok T w s k \<longleftrightarrow>
     (if is_rd k then wcount s > 0 \<or> wwait s > 0 \<or> w = BroadcastR
      else if k = KUp then rcount s > 0 \<or> w = BroadcastW
      else held s \<or> alert T s \<or> w = SignalW \<or> w = BroadcastW \<or>
        (w = BroadcastR \<and> (\<exists>u\<in>T. pc (threads s u) = Asleep KStarve)))"

definition live :: "nat set \<Rightarrow> wake \<Rightarrow> rwlock \<Rightarrow> bool" where
  "live T w s \<longleftrightarrow> (\<forall>t\<in>T. \<forall>k. pc (threads s t) = Asleep k \<longrightarrow> sleep_ok T w s k) \<and>
     (prefer_read s \<longrightarrow> (\<exists>u\<in>T. wk (pc (threads s u)) = Some KStarve))"

lemma wake_up_Asleep [simp]: "wake_up P x = Asleep k \<longleftrightarrow> x = Asleep k \<and> \<not> P k"
  by (cases x) auto

lemma wake_up_Awake [simp]: "wake_up P x = Awake k \<longleftrightarrow> x = Awake k \<or> x = Asleep k \<and> P k"
  by (cases x) auto

lemma broadcast_simps [simp]:
  "rcount (broadcast P s) = rcount s" "wcount (broadcast P s) = wcount s" "reserved (broadcast P s) = reserved s"
  "rwait (broadcast P s) = rwait s" "wwait (broadcast P s) = wwait s" "prefer_read (broadcast P s) = prefer_read s"
  "pc (threads (broadcast P s) t) = wake_up P (pc (threads s t))"
  by (simp_all add: broadcast_def)

lemma live_wakes:
  assumes "live T w s" "wakes T w s s'"
  shows "live T NoWake s'"
  using assms(2)
proof cases
  case wakes_none
  with assms(1) show ?thesis by simp
next
  case wakes_r
  have al: "alert T s'" if "alert T s \<or> (\<exists>u\<in>T. pc (threads s u) = Asleep KStarve)"
    using that by (force simp: wakes_r alert_def)
  have "sleep_ok T NoWake s' k" if "t \<in> T" "pc (threads s' t) = Asleep k" for t k
  proof -
    from that have "pc (threads s t) = Asleep k" "\<not> is_rd k" by (auto simp: wakes_r)
    with assms(1) that(1) have "sleep_ok T w s k" by (auto simp: live_def)
    with \<open>\<not> is_rd k\<close> al show ?thesis by (auto simp: sleep_ok_def held_def wakes_r split: if_splits)
  qed
  with assms(1) show ?thesis by (auto simp: live_def wakes_r)
next
  case wakes_w
  with assms(1) show ?thesis by (auto simp: live_def sleep_ok_def)
next
  case (wakes_one t k)
  then have "alert T s'" by (auto simp: alert_def)
  moreover have "wk (pc (threads s' u)) = wk (pc (threads s u))" for u using wakes_one by simp
  ultimately show ?thesis
    using wakes_one assms(1) by (auto simp: live_def sleep_ok_def held_def split: if_splits)
next
  case wakes_nobody
  with assms(1) show ?thesis by (auto simp: live_def sleep_ok_def split: if_splits)
qed

text \<open>A step that changes one thread: the reasons of the others must survive.\<close>

lemma live_upd:
  assumes "live T NoWake s" "t \<in> T" "threads s1 = (threads s)(t := x)"
    and "\<And>k. pc x = Asleep k \<Longrightarrow> sleep_ok T w s1 k"
    and "\<And>u k. u \<in> T \<Longrightarrow> u \<noteq> t \<Longrightarrow> pc (threads s u) = Asleep k \<Longrightarrow> is_rd k \<Longrightarrow> wcount s > 0 \<or> wwait s > 0 \<Longrightarrow>
      wcount s1 > 0 \<or> wwait s1 > 0 \<or> w = BroadcastR"
    and "\<And>u. u \<in> T \<Longrightarrow> u \<noteq> t \<Longrightarrow> pc (threads s u) = Asleep KUp \<Longrightarrow> rcount s > 0 \<Longrightarrow> rcount s1 > 0 \<or> w = BroadcastW"
    and "\<And>u k. u \<in> T \<Longrightarrow> u \<noteq> t \<Longrightarrow> pc (threads s u) = Asleep k \<Longrightarrow> \<not> is_rd k \<Longrightarrow> k \<noteq> KUp \<Longrightarrow>
      held s \<or> alert T s \<Longrightarrow> sleep_ok T w s1 k"
    and "prefer_read s1 \<Longrightarrow> prefer_read s \<and> wk (pc (threads s t)) \<noteq> Some KStarve \<or> wk (pc x) = Some KStarve"
  shows "live T w s1"
proof -
  have "sleep_ok T w s1 k" if "u \<in> T" "pc (threads s1 u) = Asleep k" for u k
  proof (cases "u = t")
    case True
    with that assms(3,4) show ?thesis by simp
  next
    case False
    with that assms(3) have p: "pc (threads s u) = Asleep k" by simp
    with assms(1) that(1) have ok: "sleep_ok T NoWake s k" by (auto simp: live_def)
    consider "is_rd k" | "k = KUp" | "\<not> is_rd k" "k \<noteq> KUp" by blast
    then show ?thesis
    proof cases
      case 1
      with ok assms(5) [OF that(1) False p] show ?thesis by (auto simp: sleep_ok_def)
    next
      case 2
      with ok assms(6) [OF that(1) False] p show ?thesis by (auto simp: sleep_ok_def)
    next
      case 3
      with ok assms(7) [OF that(1) False p] show ?thesis by (auto simp: sleep_ok_def)
    qed
  qed
  moreover have "\<exists>u\<in>T. wk (pc (threads s1 u)) = Some KStarve" if "prefer_read s1"
    using assms(8) [OF that]
  proof
    assume "prefer_read s \<and> wk (pc (threads s t)) \<noteq> Some KStarve"
    with assms(1) obtain u where "u \<in> T" "wk (pc (threads s u)) = Some KStarve" "u \<noteq> t"
      by (auto simp: live_def)
    with assms(3) show ?thesis by auto
  qed (use assms(2,3) in auto)
  ultimately show ?thesis by (auto simp: live_def)
qed

text \<open>The loop test of an idle thread, and of a woken one.\<close>

lemma free_upgrader:
  assumes "rw_inv T s" "u \<in> T" "pc (threads s u) = Asleep KUp" "\<not> reserved s"
  shows False
  using rw_invD(4) [OF assms(1,2)] assms(3,4) by (simp add: roles)

lemma no_sleeper:
  assumes "rw_inv T s" "u \<in> T" "pc (threads s u) = Asleep k"
  shows "is_rd k \<Longrightarrow> rwait s > 0" "\<not> is_rd k \<Longrightarrow> wwait s > 0"
  using rw_invD(5,6) [OF assms(1,2)] assms(3) by (auto simp: roles)

lemma blocked_ok: "blocked k s \<Longrightarrow> wwait s' = wwait s + (if is_rd k then 0 else 1) \<Longrightarrow> rcount s' = rcount s \<Longrightarrow>
    wcount s' = wcount s \<Longrightarrow> reserved s' = reserved s \<Longrightarrow> sleep_ok T w s' k"
  by (cases k) (auto simp: sleep_ok_def held_def)

lemma held_sleep: "held s \<Longrightarrow> \<not> is_rd k \<Longrightarrow> k \<noteq> KUp \<Longrightarrow> sleep_ok T w s k"
  by (simp add: sleep_ok_def)

lemma alert_other:
  assumes "alert T s" "threads s1 = (threads s)(t := x)" "\<not> (\<exists>k. pc (threads s t) = Awake k \<and> (\<not> is_rd k \<or> k = KStarve))"
  shows "alert T s1"
proof -
  from assms(1) obtain u k where u: "u \<in> T" "pc (threads s u) = Awake k" "\<not> is_rd k \<or> k = KStarve"
    by (auto simp: alert_def)
  with assms(3) have "u \<noteq> t" by auto
  with u assms(2) show ?thesis by (auto simp: alert_def)
qed

lemma live_loop_test:
  assumes "rw_inv T s" "live T NoWake s" "t \<in> T" "pc (threads s t) = Idle" "k \<noteq> KUp"
    "loop_test k t s = (s1, w)"
  shows "live T w s1"
proof (cases "blocked k s")
  case True
  with assms(6) have e: "s1 = begin_wait k t s" "w = NoWake" by (auto simp: loop_test_def)
  have th: "threads s1 = (threads s)(t := (threads s t)\<lparr>pc := Asleep k\<rparr>)" by (simp add: e)
  show ?thesis
  proof (rule live_upd [OF assms(2,3) th])
    show "pc ((threads s t)\<lparr>pc := Asleep k\<rparr>) = Asleep k' \<Longrightarrow> sleep_ok T w s1 k'" for k'
      using blocked_ok [OF True, of s1] by (simp add: e)
    show "u \<in> T \<Longrightarrow> u \<noteq> t \<Longrightarrow> pc (threads s u) = Asleep k' \<Longrightarrow> \<not> is_rd k' \<Longrightarrow> k' \<noteq> KUp \<Longrightarrow>
      held s \<or> alert T s \<Longrightarrow> sleep_ok T w s1 k'" for u k'
      using alert_other [OF _ th] assms(4) by (auto simp: e sleep_ok_def held_def)
  qed (use assms(4) in \<open>auto simp: e\<close>)
next
  case False
  with assms(6) have e: "s1 = fst (acquire k t s)" "w = snd (acquire k t s)" by (auto simp: loop_test_def)
  have free: "wcount s = 0" "\<not> is_rd k \<Longrightarrow> \<not> reserved s" using False assms(5) by (cases k; simp)+
  have w: "w = (if k = KRs \<and> rwait s > 0 then BroadcastR else NoWake)"
    using assms(5) by (cases k) (simp_all add: e(2) acquire_def)
  have held: "held s1" using assms(5) by (simp add: e(1) held_def)
  show ?thesis
  proof (rule live_upd [OF assms(2,3), of s1, unfolded e(1), OF acquire_simps(1), folded e(1)])
    show "u \<in> T \<Longrightarrow> u \<noteq> t \<Longrightarrow> pc (threads s u) = Asleep k' \<Longrightarrow> is_rd k' \<Longrightarrow> wcount s > 0 \<or> wwait s > 0 \<Longrightarrow>
      wcount s1 > 0 \<or> wwait s1 > 0 \<or> w = BroadcastR" for u k'
      by (auto simp: e(1))
    show "u \<in> T \<Longrightarrow> u \<noteq> t \<Longrightarrow> pc (threads s u) = Asleep KUp \<Longrightarrow> rcount s > 0 \<Longrightarrow> rcount s1 > 0 \<or> w = BroadcastW" for u
      by (simp add: e(1))
    show "u \<in> T \<Longrightarrow> u \<noteq> t \<Longrightarrow> pc (threads s u) = Asleep k' \<Longrightarrow> \<not> is_rd k' \<Longrightarrow> k' \<noteq> KUp \<Longrightarrow>
      held s \<or> alert T s \<Longrightarrow> sleep_ok T w s1 k'" for u k'
      using held by (simp add: held_sleep)
  qed (use assms(4) in \<open>auto simp: e(1)\<close>)
qed

lemma live_retry:
  assumes "rw_inv T s" "live T NoWake s" "t \<in> T" "pc (threads s t) = Awake k" "retry k t s = (s1, w)"
  shows "live T w s1"
proof (cases "blocked k (end_wait k t s)")
  case True
  with assms(5) have e: "s1 = begin_wait k t (end_wait k t s)" "w = NoWake" by (auto simp: retry_def loop_test_def)
  have th: "threads s1 = (threads s)(t := (threads s t)\<lparr>pc := Asleep k\<rparr>)" by (simp add: e)
  have "is_rd k \<Longrightarrow> rwait s > 0" "\<not> is_rd k \<Longrightarrow> wwait s > 0"
    using rw_invD(5,6) [OF assms(1,3)] assms(4) by (auto simp: roles)
  then have cnt: "rcount s1 = rcount s" "wcount s1 = wcount s" "wwait s1 = wwait s" "reserved s1 = reserved s"
    "wwait s1 = wwait (end_wait k t s) + (if is_rd k then 0 else 1)"
    by (auto simp: e)
  have turn: "held s" if "\<not> is_rd k \<or> k = KStarve"
    using True that by (cases k) (auto simp: held_def)
  show ?thesis
  proof (rule live_upd [OF assms(2,3) th])
    show "pc ((threads s t)\<lparr>pc := Asleep k\<rparr>) = Asleep k' \<Longrightarrow> sleep_ok T w s1 k'" for k'
      using blocked_ok [OF True, of s1] cnt by simp
    show "u \<in> T \<Longrightarrow> u \<noteq> t \<Longrightarrow> pc (threads s u) = Asleep k' \<Longrightarrow> \<not> is_rd k' \<Longrightarrow> k' \<noteq> KUp \<Longrightarrow>
      held s \<or> alert T s \<Longrightarrow> sleep_ok T w s1 k'" for u k'
    proof -
      assume k': "\<not> is_rd k'" "k' \<noteq> KUp" and "held s \<or> alert T s"
      then have "held s \<or> alert T s1"
        using alert_other [OF _ th, of T] turn assms(4) by (cases "\<not> is_rd k \<or> k = KStarve") auto
      with k' cnt show ?thesis by (auto simp: sleep_ok_def held_def)
    qed
  qed (use assms(4) cnt in \<open>auto simp: e\<close>)
next
  case False
  with assms(5) have e: "s1 = fst (acquire k t (end_wait k t s))" "w = snd (acquire k t (end_wait k t s))"
    by (auto simp: retry_def loop_test_def)
  define x where "x = threads s1 t"
  have th: "threads s1 = (threads s)(t := x)" and x: "pc x = Idle" by (simp_all add: e(1) x_def)
  have free: "wcount s = 0" if "is_rd k \<or> k = KRs" using False that by (cases k) auto
  have w: "k = KRs \<Longrightarrow> rwait s > 0 \<Longrightarrow> w = BroadcastR" by (simp add: e(2) acquire_def)
  have held: "held s1" by (simp add: e(1) held_def)
  show ?thesis
  proof (rule live_upd [OF assms(2,3) th])
    show "u \<in> T \<Longrightarrow> u \<noteq> t \<Longrightarrow> pc (threads s u) = Asleep k' \<Longrightarrow> is_rd k' \<Longrightarrow> wcount s > 0 \<or> wwait s > 0 \<Longrightarrow>
      wcount s1 > 0 \<or> wwait s1 > 0 \<or> w = BroadcastR" for u k'
      using no_sleeper(1) [OF assms(1), of u k'] free w by (auto simp: e(1))
    show "u \<in> T \<Longrightarrow> u \<noteq> t \<Longrightarrow> pc (threads s u) = Asleep k' \<Longrightarrow> \<not> is_rd k' \<Longrightarrow> k' \<noteq> KUp \<Longrightarrow>
      held s \<or> alert T s \<Longrightarrow> sleep_ok T w s1 k'" for u k'
      using held by (simp add: held_sleep)
  qed (use assms(4) x in \<open>auto simp: e(1)\<close>)
qed

lemma live_timed_out:
  assumes "rw_inv T s" "live T NoWake s" "t \<in> T" "pc (threads s t) = Asleep k \<or> pc (threads s t) = Awake k \<and> k = KTimedRd"
    "k = KTimedRd \<or> k = KTimedWr" "timed_out k t s = (s1, w)"
  shows "live T w s1"
proof -
  have e: "s1 = end_wait k t s" and w: "k = KTimedWr \<Longrightarrow> wwait s1 = 0 \<Longrightarrow> wcount s1 = 0 \<Longrightarrow> rwait s1 > 0 \<Longrightarrow> w = BroadcastR"
    using assms(6) by (auto simp: timed_out_def Let_def)
  have th: "threads s1 = (threads s)(t := (threads s t)\<lparr>pc := Idle\<rparr>)" by (simp add: e)
  show ?thesis
  proof (rule live_upd [OF assms(2,3) th])
    show "u \<in> T \<Longrightarrow> u \<noteq> t \<Longrightarrow> pc (threads s u) = Asleep k' \<Longrightarrow> is_rd k' \<Longrightarrow> wcount s > 0 \<or> wwait s > 0 \<Longrightarrow>
      wcount s1 > 0 \<or> wwait s1 > 0 \<or> w = BroadcastR" for u k'
      using no_sleeper(1) [OF assms(1), of u k'] w assms(5) by (cases "wwait s1 = 0"; cases "wcount s1 = 0") (auto simp: e)
    show "u \<in> T \<Longrightarrow> u \<noteq> t \<Longrightarrow> pc (threads s u) = Asleep k' \<Longrightarrow> \<not> is_rd k' \<Longrightarrow> k' \<noteq> KUp \<Longrightarrow>
      held s \<or> alert T s \<Longrightarrow> sleep_ok T w s1 k'" for u k'
      using alert_other [OF _ th] assms(4) by (auto simp: e sleep_ok_def held_def)
  qed (use assms(4,5) in \<open>auto simp: e\<close>)
qed

lemma live_set_count:
  assumes "live T NoWake s" "t \<in> T" "pc (threads s t) = Idle"
  shows "live T NoWake (set_count t rd wr s)"
proof (rule live_upd [OF assms(1,2) set_count_simps(1)])
  show "u \<in> T \<Longrightarrow> u \<noteq> t \<Longrightarrow> pc (threads s u) = Asleep k' \<Longrightarrow> \<not> is_rd k' \<Longrightarrow> k' \<noteq> KUp \<Longrightarrow>
      held s \<or> alert T s \<Longrightarrow> sleep_ok T NoWake (set_count t rd wr s) k'" for u k'
    using alert_other [OF _ set_count_simps(1)] assms(3) by (auto simp: sleep_ok_def held_def)
qed (use assms(3) in auto)

lemma live_unlock:
  assumes "rw_inv T s" "live T NoWake s" "t \<in> T" "pc (threads s t) = Idle" "allowed Unlock (threads s t)"
    "psync_rwlock_unlock t s = (s1, w)"
  shows "live T w s1"
  using assms(1,3-5)
proof (cases rule: unlock_cases)
  case (recursive rd wr)
  with live_set_count [OF assms(2-4), of rd wr] assms(6) show ?thesis by auto
next
  case (reader s1' w')
  with assms(6) have e: "s1' = s1" "w' = w" by auto
  note r = reader [unfolded e]
  have ns: "wwait s > 0" if "u \<in> T" "pc (threads s u) = Asleep k" "\<not> is_rd k" for u k
    using no_sleeper(2) [OF assms(1) that(1,2,3)] .
  show ?thesis
  proof (rule live_upd [OF assms(2,3) r(5)])
    fix u
    assume u: "u \<in> T" "u \<noteq> t" "pc (threads s u) = Asleep KUp"
    have "cnt1 (threads s t) \<noteq> PSYNC_WR_RESERVED"
    proof
      assume "cnt1 (threads s t) = PSYNC_WR_RESERVED"
      with u assms(1,3) have "2 \<le> tally T rsv (threads s)"
        by (intro tally_two [of T t u]) (auto simp: rw_inv_def roles)
      with assms(1) show False by (cases "reserved s") (auto simp: rw_inv_def)
    qed
    moreover have "reserved s" using free_upgrader [OF assms(1) u(1,3)] by blast
    ultimately show "rcount s1 > 0 \<or> w = BroadcastW"
      using r(6,11,12) ns [OF u(1,3)] by auto
  next
    fix u k'
    assume u: "u \<in> T" "u \<noteq> t" "pc (threads s u) = Asleep k'" "\<not> is_rd k'" "k' \<noteq> KUp"
    show "sleep_ok T w s1 k'"
      using r(12) ns [OF u(1,3,4)] u(4,5) by (auto simp: sleep_ok_def held_def)
  qed (use r assms(4) in auto)
next
  case (writer s1' w')
  with assms(6) have e: "s1' = s1" "w' = w" by auto
  note r = writer [unfolded e]
  have ns: "if is_rd k then rwait s > 0 else wwait s > 0" if "u \<in> T" "pc (threads s u) = Asleep k" for u k
    using no_sleeper [OF assms(1) that] by auto
  show ?thesis
  proof (rule live_upd [OF assms(2,3) r(5)])
    fix u k'
    assume u: "u \<in> T" "u \<noteq> t" "pc (threads s u) = Asleep k'" "is_rd k'"
    show "wcount s1 > 0 \<or> wwait s1 > 0 \<or> w = BroadcastR"
      using r(9,13) ns [OF u(1,3)] u(4) by (auto split: if_splits)
  next
    fix u
    assume "u \<in> T" "pc (threads s u) = Asleep KUp"
    with free_upgrader [OF assms(1)] r(11) show "rcount s1 > 0 \<or> w = BroadcastW" by blast
  next
    fix u k'
    assume u: "u \<in> T" "u \<noteq> t" "pc (threads s u) = Asleep k'" "\<not> is_rd k'" "k' \<noteq> KUp"
    show "sleep_ok T w s1 k'"
    proof (cases "w = BroadcastR")
      case True
      with r(13) ns [OF u(1,3)] u(4) have "prefer_read s" by (auto split: if_splits)
      with assms(2) obtain v where v: "v \<in> T" "wk (pc (threads s v)) = Some KStarve" by (auto simp: live_def)
      with assms(4) have "v \<noteq> t" by auto
      with v r(5) have "pc (threads s1 v) = Asleep KStarve \<or> pc (threads s1 v) = Awake KStarve"
        by (cases "pc (threads s v)") auto
      with v(1) True u(4,5) show ?thesis by (auto simp: sleep_ok_def alert_def)
    next
      case False
      with r(13) ns [OF u(1,3)] u(4,5) show ?thesis by (auto simp: sleep_ok_def split: if_splits)
    qed
  qed (use r assms(4) in auto)
qed

lemma live_towrlock:
  assumes "rw_inv T s" "live T NoWake s" "t \<in> T" "pc (threads s t) = Idle" "allowed ToWr (threads s t)"
    "fst (psync_rwlock_towrlock t s) = (s1, w)"
  shows "live T w s1"
proof (cases "cnt1 (threads s t) > 0 \<and> cnt1 (threads s t) \<noteq> PSYNC_WR_RESERVED \<or>
    reserved s \<and> cnt1 (threads s t) \<noteq> PSYNC_WR_RESERVED")
  case True
  with assms(2,6) show ?thesis by (auto simp: psync_rwlock_towrlock_def Let_def split: if_splits)
next
  case False
  note D = rw_invD [OF assms(1,3)]
  have x: "cnt0 (threads s t) > 0" "cnt1 (threads s t) = 0 \<or> cnt1 (threads s t) = PSYNC_WR_RESERVED"
    "cnt1 (threads s t) = PSYNC_WR_RESERVED \<longleftrightarrow> reserved s" "rcount s > 0"
    using D(1,2,4) False assms(4,5) by (auto simp: okt_def roles)
  have th: "threads (upgrading t s) = (threads s)(t := (threads s t)\<lparr>pc := Awake KUp\<rparr>)"
    by (simp add: upgrading_def)
  have nobody: "pc (threads s u) \<noteq> Asleep KUp" if u: "u \<in> T" "u \<noteq> t" for u
  proof
    assume a: "pc (threads s u) = Asleep KUp"
    with free_upgrader [OF assms(1) u(1)] x(3) have "cnt1 (threads s t) = PSYNC_WR_RESERVED" by blast
    with u a assms(1,3) have "2 \<le> tally T rsv (threads s)"
      by (intro tally_two [of T t u]) (auto simp: rw_inv_def roles)
    with assms(1) show False by (cases "reserved s") (auto simp: rw_inv_def)
  qed
  have "okt (threads s t)" by (rule D(1))
  have inv: "rw_inv T (upgrading t s)"
  proof (rule rw_inv_upd [OF assms(1,3) th])
    show "wcount (upgrading t s) > 0 \<Longrightarrow>
        wcount (upgrading t s) = 1 \<and> rcount (upgrading t s) = 0 \<and> \<not> reserved (upgrading t s)"
      using assms(1) x(4) by (auto simp: upgrading_def rw_inv_def)
  qed (use x assms(4) \<open>okt (threads s t)\<close> in \<open>auto simp: upgrading_def okt_def roles of_nat_diff\<close>)
  have liv: "live T NoWake (upgrading t s)"
  proof (rule live_upd [OF assms(2,3) th])
    show "u \<in> T \<Longrightarrow> u \<noteq> t \<Longrightarrow> pc (threads s u) = Asleep KUp \<Longrightarrow> rcount s > 0 \<Longrightarrow>
        rcount (upgrading t s) > 0 \<or> NoWake = BroadcastW" for u
      using nobody by blast
    show "u \<in> T \<Longrightarrow> u \<noteq> t \<Longrightarrow> pc (threads s u) = Asleep k \<Longrightarrow> \<not> is_rd k \<Longrightarrow> k \<noteq> KUp \<Longrightarrow>
        held s \<or> alert T s \<Longrightarrow> sleep_ok T NoWake (upgrading t s) k" for u k
      by (simp add: sleep_ok_def held_def upgrading_def)
  qed (use assms(4) in \<open>auto simp: upgrading_def\<close>)
  have "retry KUp t (upgrading t s) = (s1, w)"
    using assms(6) False upgrading_retry [OF assms(4)] by (auto simp: psync_rwlock_towrlock_def Let_def split: if_splits)
  with live_retry [OF inv liv assms(3)] th show ?thesis by simp
qed

lemma live_lock_read:
  assumes "rw_inv T s" "live T NoWake s" "t \<in> T" "pc (threads s t) = Idle" "is_rd k" "lock_read k t s = (s1, w)"
  shows "live T w s1"
  using assms(5,6) live_loop_test [OF assms(1-4), of k] live_set_count [OF assms(2-4)]
  by (fastforce simp: lock_read_def psync_rwlock_check_rdrecursive_in_def Let_def split: if_splits)

lemma live_lock_write:
  assumes "rw_inv T s" "live T NoWake s" "t \<in> T" "pc (threads s t) = Idle" "k \<noteq> KUp" "lock_write k t s = (s1, w)"
  shows "live T w s1"
  using assms(5,6) live_loop_test [OF assms(1-4), of k] live_set_count [OF assms(2-4)]
  by (fastforce simp: lock_write_def psync_rwlock_check_wrrecursive_in_def Let_def split: if_splits)

lemma live_try:
  assumes "rw_inv T s" "live T NoWake s" "t \<in> T" "pc (threads s t) = Idle"
  shows "live T NoWake (fst (psync_rwlock_tryrdlock t s))" "live T NoWake (fst (psync_rwlock_trywrlock t s))"
proof -
  have "fst (psync_rwlock_tryrdlock t s) = (if psync_rwlock_check_rdrecursive_in t s = None \<and> blocked KRd s then s
      else fst (lock_read KRd t s))" "snd (lock_read KRd t s) = NoWake"
    by (auto simp: psync_rwlock_tryrdlock_def lock_read_def loop_test_def acquire_def split: option.split)
  then show "live T NoWake (fst (psync_rwlock_tryrdlock t s))"
    using assms(2) live_lock_read [OF assms, of KRd "fst (lock_read KRd t s)"] by (metis is_rd.simps(1) prod.collapse)
  have "fst (psync_rwlock_trywrlock t s) = (if psync_rwlock_check_wrrecursive_in t s = None \<and> blocked KWr s then s
      else fst (lock_write KWr t s))" "snd (lock_write KWr t s) = NoWake"
    by (auto simp: psync_rwlock_trywrlock_def lock_write_def loop_test_def acquire_def split: option.split)
  then show "live T NoWake (fst (psync_rwlock_trywrlock t s))"
    using assms(2) live_lock_write [OF assms, of KWr "fst (lock_write KWr t s)"] by (metis kind.distinct(35) prod.collapse)
qed

lemma live_exec:
  assumes "rw_inv T s" "live T NoWake s" "t \<in> T" "pc (threads s t) = Idle" "allowed c (threads s t)"
    "exec c t s = (s1, w)"
  shows "live T w s1"
proof (cases c)
  case RsLock
  with assms(6) live_loop_test [OF assms(1-4), of KRs] live_set_count [OF assms(2-4)] show ?thesis
    by (fastforce simp: psync_rwlock_rslock_def Let_def split: if_splits)
next
  case ToWr
  with assms live_towrlock [OF assms(1-4)] show ?thesis by simp
next
  case Unlock
  with assms live_unlock [OF assms(1-4)] show ?thesis by simp
next
  case RdLock
  with assms(6) live_lock_read [OF assms(1-4), of KRd s1 w] show ?thesis by (simp add: psync_rwlock_rdlock_def)
next
  case TimedRd
  with assms(6) live_lock_read [OF assms(1-4), of KTimedRd s1 w] show ?thesis by (simp add: psync_rwlock_timedrdlock_def)
next
  case RdStarve
  with assms(6) live_lock_read [OF assms(1-4), of KStarve s1 w] show ?thesis
    by (simp add: psync_rwlock_rdlock_starvewr_def)
next
  case WrLock
  with assms(6) live_lock_write [OF assms(1-4), of KWr s1 w] show ?thesis by (simp add: psync_rwlock_wrlock_def)
next
  case TimedWr
  with assms(6) live_lock_write [OF assms(1-4), of KTimedWr s1 w] show ?thesis by (simp add: psync_rwlock_timedwrlock_def)
qed (use assms(6) live_try [OF assms(1-4)] in auto)

lemma rwstep_live: "rwstep T s s' \<Longrightarrow> rw_inv T s \<Longrightarrow> live T NoWake s \<Longrightarrow> live T NoWake s'"
proof (induction rule: rwstep.induct)
  case (step_call t s c s1 w s2)
  with live_exec live_wakes show ?case by blast
next
  case (step_retry t s k s1 w s2)
  with live_retry live_wakes show ?case by blast
next
  case (step_spurious t s k)
  have "alert T s \<Longrightarrow> alert T (thr t (\<lambda>x. x\<lparr>pc := Awake k\<rparr>) s)"
    using step_spurious(2) by (intro alert_other [OF _ thr_simps(1)]) auto
  with step_spurious show ?case
    by (intro live_upd [OF _ step_spurious(1) thr_simps(1)]) (auto simp: sleep_ok_def held_def)
next
  case (step_timeout t s k s1 w s2)
  with live_timed_out [of T s t k s1 w] live_wakes [of T w s1 s2] show ?case by blast
qed

lemma reachable_live: "posix_run T n s \<Longrightarrow> finite T \<Longrightarrow> n = 0 \<Longrightarrow> rw_inv T s \<and> live T NoWake s"
proof (induction rule: posix_run.induct)
  case run_init
  then show ?case by (simp add: init_inv) (simp add: live_def psync_rwlock_init_def)
next
  case (run_step n s s')
  with rwstep_inv rwstep_live show ?case by blast
next
  case (run_consume n s t k s1 w s2)
  then have k: "k = KTimedRd" and s: "rw_inv T s" "live T NoWake s" by (auto split: if_splits)
  have "live T w s1" using live_timed_out [OF s] run_consume(2,3,5) k by blast
  moreover have "rw_inv T s2"
    using posix_inv [OF posix_consume [OF run_consume(2-6)] s(1)] .
  ultimately show ?case using live_wakes run_consume(6) by blast
qed

section \<open>Properties\<close>

text \<open>
  C10. Mutual exclusion: in every reachable state, with any scheduling, spurious wake-ups and time-outs, a
  thread that holds the write lock is alone: no other thread holds the lock in any mode; and at most one
  thread is in the reserved mode.
\<close>

theorem rw_mutual_exclusion:
  assumes "(rwstep_posix T)\<^sup>*\<^sup>* psync_rwlock_init s" "finite T" "t \<in> T" "u \<in> T" "t \<noteq> u"
  shows "(psync_rwlock_holding_wrlock t s \<longrightarrow> \<not> psync_rwlock_holding_lock u s) \<and>
    \<not> (cnt1 (threads s t) = PSYNC_WR_RESERVED \<and> cnt1 (threads s u) = PSYNC_WR_RESERVED)"
proof (intro conjI impI notI)
  have inv: "rw_inv T s" by (rule reachable_inv [OF assms(1,2)])
  note Dt = rw_invD [OF inv assms(3)] and Du = rw_invD [OF inv assms(4)]
  assume w: "psync_rwlock_holding_wrlock t s" and l: "psync_rwlock_holding_lock u s"
  from w have "wtr (threads s t)" by (simp add: psync_rwlock_holding_wrlock_def roles)
  with Dt(3) inv have one: "wcount s = 1" "rcount s = 0" "\<not> reserved s" by (auto simp: rw_inv_def)
  from one Du(2,4) have "\<not> rdr (threads s u)" "\<not> rsv (threads s u)" by auto
  with l have "wtr (threads s u)" by (auto simp: psync_rwlock_holding_lock_def roles)
  with \<open>wtr (threads s t)\<close> assms have "2 \<le> tally T wtr (threads s)" by (intro tally_two [of T t u]) auto
  with inv one(1) show False by (simp add: rw_inv_def)
next
  have inv: "rw_inv T s" by (rule reachable_inv [OF assms(1,2)])
  assume "cnt1 (threads s t) = PSYNC_WR_RESERVED \<and> cnt1 (threads s u) = PSYNC_WR_RESERVED"
  with assms have "2 \<le> tally T rsv (threads s)" by (intro tally_two [of T t u]) (auto simp: roles)
  with inv show False by (cases "reserved s") (auto simp: rw_inv_def)
qed

text \<open>A run: thread 1 takes the write lock, 2 and 3 wait for it, 1 releases it and 2 is signalled.\<close>

definition run1 :: rwlock where "run1 = fst (psync_rwlock_wrlock 1 psync_rwlock_init)"
definition run2 :: rwlock where "run2 = fst (psync_rwlock_timedwrlock 2 run1)"
definition run3 :: rwlock where "run3 = fst (psync_rwlock_wrlock 3 run2)"
definition run4 :: rwlock where "run4 = fst (psync_rwlock_unlock 1 run3)"
definition run5 :: rwlock where "run5 = thr 2 (\<lambda>x. x\<lparr>pc := Awake KTimedWr\<rparr>) run4"

lemma run1_eq: "psync_rwlock_wrlock 1 psync_rwlock_init = (run1, NoWake)"
  "rcount run1 = 0" "wcount run1 = 1" "rwait run1 = 0" "wwait run1 = 0" "\<not> reserved run1" "\<not> prefer_read run1"
  "threads run1 = (\<lambda>_. \<lparr>cnt0 = 0, cnt1 = 0, pc = Idle\<rparr>)(1 := \<lparr>cnt0 = 0, cnt1 = 1, pc = Idle\<rparr>)"
  by (simp_all add: run1_def psync_rwlock_init_def psync_rwlock_wrlock_def lock_write_def
      psync_rwlock_check_wrrecursive_in_def loop_test_def acquire_def)

lemma run2_eq: "psync_rwlock_timedwrlock 2 run1 = (run2, NoWake)"
  "rcount run2 = 0" "wcount run2 = 1" "rwait run2 = 0" "wwait run2 = 1" "\<not> reserved run2" "\<not> prefer_read run2"
  "threads run2 = (threads run1)(2 := \<lparr>cnt0 = 0, cnt1 = 0, pc = Asleep KTimedWr\<rparr>)"
  by (simp_all add: run2_def psync_rwlock_timedwrlock_def lock_write_def
      psync_rwlock_check_wrrecursive_in_def loop_test_def run1_eq)

lemma run3_eq: "psync_rwlock_wrlock 3 run2 = (run3, NoWake)"
  "rcount run3 = 0" "wcount run3 = 1" "rwait run3 = 0" "wwait run3 = 2" "\<not> reserved run3" "\<not> prefer_read run3"
  "threads run3 = (threads run2)(3 := \<lparr>cnt0 = 0, cnt1 = 0, pc = Asleep KWr\<rparr>)"
  by (simp_all add: run3_def psync_rwlock_wrlock_def lock_write_def
      psync_rwlock_check_wrrecursive_in_def loop_test_def run2_eq run1_eq)

lemma run4_eq: "psync_rwlock_unlock 1 run3 = (run4, SignalW)"
  "rcount run4 = 0" "wcount run4 = 0" "rwait run4 = 0" "wwait run4 = 2" "\<not> reserved run4" "\<not> prefer_read run4"
  "threads run4 = (threads run3)(1 := \<lparr>cnt0 = 0, cnt1 = 0, pc = Idle\<rparr>)"
  by (simp_all add: run4_def psync_rwlock_unlock_def psync_rwlock_check_recursive_out_def Let_def
      run3_eq run2_eq run1_eq)

lemma shallow_simp [simp]: "shallow \<lparr>cnt0 = 0, cnt1 = 0, pc = p\<rparr>" "shallow \<lparr>cnt0 = 0, cnt1 = Suc 0, pc = p\<rparr>" "shallow \<lparr>cnt0 = 0, cnt1 = 1, pc = p\<rparr>"
  by (simp_all add: shallow_def PSYNC_WR_RESERVED_def)

lemma init_threads: "threads psync_rwlock_init t = \<lparr>cnt0 = 0, cnt1 = 0, pc = Idle\<rparr>"
  by (simp add: psync_rwlock_init_def)

lemma run_reach:
  "rwstep {1, 2, 3} psync_rwlock_init run1" "rwstep {1, 2, 3} run1 run2" "rwstep {1, 2, 3} run2 run3"
  "rwstep {1, 2, 3} run3 run5"
proof -
  show "rwstep {1, 2, 3} psync_rwlock_init run1"
    by (rule step_call [of 1 _ _ WrLock run1 NoWake]) (simp_all add: run1_eq init_threads del: One_nat_def)
  show "rwstep {1, 2, 3} run1 run2"
    by (rule step_call [of 2 _ _ TimedWr run2 NoWake]) (simp_all add: run2_eq run1_eq)
  show "rwstep {1, 2, 3} run2 run3"
    by (rule step_call [of 3 _ _ WrLock run3 NoWake]) (simp_all add: run3_eq run2_eq run1_eq)
  have "wakes {1, 2, 3} SignalW run4 run5"
    unfolding run5_def by (rule wakes_one) (simp_all add: run4_eq run3_eq run2_eq)
  then show "rwstep {1, 2, 3} run3 run5"
    by (intro step_call [of 1 _ _ Unlock run4 SignalW]) (simp_all add: run4_eq run3_eq run2_eq run1_eq del: One_nat_def)
qed

lemma run3_reach: "(rwstep {1, 2, 3})\<^sup>*\<^sup>* psync_rwlock_init run3"
  using run_reach(1-3) by (meson converse_rtranclp_into_rtranclp rtranclp.rtrancl_refl)

lemma run5_reach: "(rwstep {1, 2, 3})\<^sup>*\<^sup>* psync_rwlock_init run5"
  using run3_reach run_reach(4) by (rule rtranclp.rtrancl_into_rtrancl)

lemma run5_posix: "posix_run {1, 2, 3} 0 run5"
  by (intro run_step [OF _ run_reach(4)] run_step [OF _ run_reach(3)] run_step [OF _ run_reach(2)] run_step [OF _ run_reach(1)] run_init)

lemma posix_reach: "(rwstep T)\<^sup>*\<^sup>* a b \<Longrightarrow> (rwstep_posix T)\<^sup>*\<^sup>* a b"
  by (induction rule: rtranclp_induct) (auto intro: posix_step rtranclp.rtrancl_into_rtrancl)

theorem rw_mutual_exclusion_witness:
  "psync_rwlock_holding_wrlock 1 run3 \<and> \<not> psync_rwlock_holding_lock 3 run3"
proof -
  have "psync_rwlock_holding_wrlock 1 run3"
    by (simp add: psync_rwlock_holding_wrlock_def run3_eq run2_eq run1_eq)
  with rw_mutual_exclusion [OF posix_reach [OF run3_reach], of 1 3] show ?thesis by simp
qed

text \<open>
  The counters are exact and the assertions of \<^verbatim>\<open>psync_rwlock_unlock\<close> and \<^verbatim>\<open>psync_rwlock_towrlock\<close> hold:
  there are never readers beside a writer, a thread that releases or upgrades finds its lock counted, the
  reservation is never set under a writer, and the number of waiters is the number of waiting threads.
\<close>

theorem rw_assertions:
  assumes "(rwstep_posix T)\<^sup>*\<^sup>* psync_rwlock_init s" "finite T"
  shows "\<not> (rcount s > 0 \<and> wcount s > 0) \<and> (wcount s > 0 \<longrightarrow> \<not> reserved s) \<and>
    (\<forall>t\<in>T. pc (threads s t) = Idle \<longrightarrow> (psync_rwlock_holding_rdlock t s \<longrightarrow> rcount s > 0 \<and> wcount s = 0) \<and>
       (psync_rwlock_holding_wrlock t s \<longrightarrow> wcount s = 1)) \<and>
    psync_rwlock_num_waiters s = card {t \<in> T. pc (threads s t) \<noteq> Idle}"
proof -
  have inv: "rw_inv T s" by (rule reachable_inv [OF assms])
  have "{t \<in> T. pc (threads s t) \<noteq> Idle} = {t \<in> T. rwt (threads s t)} \<union> {t \<in> T. wwt (threads s t)}"
  proof -
    have "pc x \<noteq> Idle \<longleftrightarrow> rwt x \<or> wwt x" for x by (cases "pc x") (auto simp: roles)
    then show ?thesis by auto
  qed
  moreover have "{t \<in> T. rwt (threads s t)} \<inter> {t \<in> T. wwt (threads s t)} = {}"
    by (auto simp: roles split: option.splits)
  ultimately have "card {t \<in> T. pc (threads s t) \<noteq> Idle} =
      card {t \<in> T. rwt (threads s t)} + card {t \<in> T. wwt (threads s t)}"
    using assms(2) by (simp add: card_Un_disjoint)
  moreover have "(psync_rwlock_holding_rdlock t s \<longrightarrow> rcount s > 0) \<and> (psync_rwlock_holding_wrlock t s \<longrightarrow> wcount s > 0)"
    if "t \<in> T" "pc (threads s t) = Idle" for t
    using rw_invD(2,3) [OF inv that(1)] that(2)
    by (auto simp: roles psync_rwlock_holding_rdlock_def psync_rwlock_holding_wrlock_def)
  ultimately show ?thesis
    using inv by (auto simp: rw_inv_def tally_def psync_rwlock_num_waiters_def)
qed

theorem rw_assertions_witness: "psync_rwlock_num_waiters run3 = card {t \<in> {1, 2, 3}. pc (threads run3 t) \<noteq> Idle}"
  using rw_assertions [OF posix_reach [OF run3_reach]] by simp

text \<open>
  C12. With any scheduling, spurious wake-ups and time-outs, and with all that POSIX allows a time-out to do, but
  for one case: as long as no wait of \<^verbatim>\<open>psync_rwlock_timedwrlock\<close> that times out has consumed a signal (in
  particular in a program that does not call it), no wake-up is lost. Whenever the lock is free and a thread
  waits for it, some waiting thread has been woken and will take the lock when it runs. The case that is left
  out does lose a wake-up: \<open>rw_lost_wakeup_posix\<close>.
\<close>

theorem rw_no_lost_wakeup:
  assumes "posix_run T 0 s" "finite T" "t \<in> T" "pc (threads s t) \<noteq> Idle" "\<not> held s"
  shows "\<exists>u\<in>T. \<exists>k. pc (threads s u) = Awake k \<and> \<not> blocked k (end_wait k u s)"
proof -
  have inv: "rw_inv T s" and liv: "live T NoWake s" using reachable_live [OF assms(1,2) refl] by auto
  have free: "rcount s = 0" "wcount s = 0" "\<not> reserved s" using assms(5) by (auto simp: held_def)
  have no_up: "wk (pc (threads s u)) \<noteq> Some KUp" if "u \<in> T" for u
    using rw_invD(4) [OF inv that] free(3) by (auto simp: roles)
  have al: "\<exists>u\<in>T. \<exists>k. pc (threads s u) = Awake k \<and> \<not> blocked k (end_wait k u s)" if al: "alert T s"
  proof -
    from al obtain u k where u: "u \<in> T" "pc (threads s u) = Awake k" "\<not> is_rd k \<or> k = KStarve"
      by (auto simp: alert_def)
    with no_up [OF u(1)] free have "\<not> blocked k (end_wait k u s)" by (cases k) auto
    with u show ?thesis by blast
  qed
  have sleeper: "alert T s" if "u \<in> T" "pc (threads s u) = Asleep k" "\<not> is_rd k" for u k
    using liv that no_up [OF that(1)] assms(5) by (auto simp: live_def sleep_ok_def)
  have waiter: "alert T s" if "wwait s > 0"
  proof -
    have "0 < tally T wwt (threads s)" using inv that by (simp add: rw_inv_def)
    then have "{u \<in> T. wwt (threads s u)} \<noteq> {}" by (auto simp: tally_def dest: card_gt_0_iff [THEN iffD1])
    then obtain u where u: "u \<in> T" "wwt (threads s u)" by blast
    show ?thesis
    proof (cases "pc (threads s u)")
      case (Asleep k)
      with u sleeper show ?thesis by (auto simp: roles)
    next
      case (Awake k)
      with u show ?thesis by (auto simp: roles alert_def)
    qed (use u in \<open>simp add: roles\<close>)
  qed
  show ?thesis
  proof (cases "wwait s > 0")
    case True
    with waiter al show ?thesis by blast
  next
    case False
    show ?thesis
    proof (cases "pc (threads s t)")
      case (Asleep k)
      with liv assms(3) free False sleeper [OF assms(3)] al show ?thesis
        by (cases "is_rd k") (auto simp: live_def sleep_ok_def)
    next
      case (Awake k)
      with no_up [OF assms(3)] free False have "\<not> blocked k (end_wait k t s)" by (cases k) auto
      with Awake assms(3) show ?thesis by blast
    qed (use assms(4) in simp)
  qed
qed

theorem rw_no_lost_wakeup_witness:
  "pc (threads run5 3) = Asleep KWr \<and> (\<exists>u\<in>{1, 2, 3}. \<exists>k. pc (threads run5 u) = Awake k \<and> \<not> blocked k (end_wait k u run5))"
  using rw_no_lost_wakeup [OF run5_posix, of 3]
  by (simp add: held_def run5_def run4_eq run3_eq)

text \<open>
  With the time-outs POSIX allows, a wake-up is lost: the signal of the release goes to a timed waiter whose
  wait times out at the same moment; \<^verbatim>\<open>psync_rwlock_timedwrlock\<close> passes it on only to readers, and only when no
  writer waits. The lock is then free, a writer sleeps, and nobody is awake to take it.
\<close>

theorem rw_lost_wakeup_posix:
  "\<exists>s. posix_run {1, 2, 3} 1 s \<and> \<not> held s \<and> pc (threads s 3) = Asleep KWr \<and>
     \<not> (\<exists>u\<in>{1, 2, 3}. \<exists>k. pc (threads s u) = Awake k)"
proof -
  let ?s = "fst (timed_out KTimedWr 2 run5)"
  have e: "timed_out KTimedWr 2 run5 = (?s, NoWake)"
    by (simp add: timed_out_def Let_def run5_def run4_eq)
  have "posix_run {1, 2, 3} (if KTimedWr = KTimedWr then Suc 0 else 0) ?s"
    by (rule run_consume [OF run5_posix _ _ _ e]) (simp_all add: run5_def)
  then have "posix_run {1, 2, 3} 1 ?s" by simp
  moreover have "\<not> held ?s \<and> pc (threads ?s 3) = Asleep KWr \<and> \<not> (\<exists>u\<in>{1, 2, 3}. \<exists>k. pc (threads ?s u) = Awake k)"
    by (simp add: timed_out_def Let_def held_def run5_def run4_eq run3_eq)
  ultimately show ?thesis by blast
qed

end
