(* ===== verification/Status.thy ===== *)
theory Status
  imports Prelude
begin

text \<open>
  The client status (\<^verbatim>\<open>pstatus.c\<close>): six component statuses, the overall status computed from them and from
  the transfer counters, the operations that change them, and the waits for combinations of component
  statuses. Results of database queries and of \<^verbatim>\<open>stat\<close> are arguments; \<^verbatim>\<open>psync_send_status_update\<close> is the
  flag that the operations return. Counters are unbounded where the code has 32 or 64 bits.
\<close>

unbundle bit_operations_syntax

section \<open>Constants\<close>

abbreviation (input) "PSTATUS_TYPE_RUN \<equiv> 0 :: nat"
abbreviation (input) "PSTATUS_TYPE_ONLINE \<equiv> 1 :: nat"
abbreviation (input) "PSTATUS_TYPE_AUTH \<equiv> 2 :: nat"
abbreviation (input) "PSTATUS_TYPE_ACCFULL \<equiv> 3 :: nat"
abbreviation (input) "PSTATUS_TYPE_DISKFULL \<equiv> 4 :: nat"
abbreviation (input) "PSTATUS_TYPE_LOCALSCAN \<equiv> 5 :: nat"

abbreviation (input) "PSTATUS_INVALID \<equiv> 0 :: nat"
abbreviation (input) "PSTATUS_RUN_RUN \<equiv> 1 :: nat"
abbreviation (input) "PSTATUS_RUN_PAUSE \<equiv> 2 :: nat"
abbreviation (input) "PSTATUS_RUN_STOP \<equiv> 4 :: nat"
abbreviation (input) "PSTATUS_ONLINE_CONNECTING \<equiv> 1 :: nat"
abbreviation (input) "PSTATUS_ONLINE_SCANNING \<equiv> 2 :: nat"
abbreviation (input) "PSTATUS_ONLINE_ONLINE \<equiv> 4 :: nat"
abbreviation (input) "PSTATUS_ONLINE_OFFLINE \<equiv> 8 :: nat"
abbreviation (input) "PSTATUS_AUTH_PROVIDED \<equiv> 1 :: nat"
abbreviation (input) "PSTATUS_AUTH_REQUIRED \<equiv> 2 :: nat"
abbreviation (input) "PSTATUS_AUTH_MISMATCH \<equiv> 4 :: nat"
abbreviation (input) "PSTATUS_AUTH_BADLOGIN \<equiv> 8 :: nat"
abbreviation (input) "PSTATUS_AUTH_BADTOKEN \<equiv> 16 :: nat"
abbreviation (input) "PSTATUS_AUTH_EXPIRED \<equiv> 32 :: nat"
abbreviation (input) "PSTATUS_AUTH_TFAREQ \<equiv> 64 :: nat"
abbreviation (input) "PSTATUS_AUTH_BADCODE \<equiv> 128 :: nat"
abbreviation (input) "PSTATUS_AUTH_VERIFYREQ \<equiv> 256 :: nat"
abbreviation (input) "PSTATUS_AUTH_RELOCATING \<equiv> 512 :: nat"
abbreviation (input) "PSTATUS_AUTH_RELOCATED \<equiv> 1024 :: nat"
abbreviation (input) "PSTATUS_ACCFULL_QUOTAOK \<equiv> 1 :: nat"
abbreviation (input) "PSTATUS_ACCFULL_OVERQUOTA \<equiv> 2 :: nat"
abbreviation (input) "PSTATUS_DISKFULL_OK \<equiv> 1 :: nat"
abbreviation (input) "PSTATUS_DISKFULL_FULL \<equiv> 2 :: nat"
abbreviation (input) "PSTATUS_LOCALSCAN_SCANNING \<equiv> 1 :: nat"
abbreviation (input) "PSTATUS_LOCALSCAN_READY \<equiv> 2 :: nat"

text \<open>The overall statuses of \<^verbatim>\<open>psynclib.h\<close>, and the \<^verbatim>\<open>(uint32_t)-1\<close> of a component out of range.\<close>

abbreviation (input) "PSTATUS_READY \<equiv> 0 :: nat"
abbreviation (input) "PSTATUS_DOWNLOADING \<equiv> 1 :: nat"
abbreviation (input) "PSTATUS_UPLOADING \<equiv> 2 :: nat"
abbreviation (input) "PSTATUS_DOWNLOADINGANDUPLOADING \<equiv> 3 :: nat"
abbreviation (input) "PSTATUS_LOGIN_REQUIRED \<equiv> 4 :: nat"
abbreviation (input) "PSTATUS_BAD_LOGIN_DATA \<equiv> 5 :: nat"
abbreviation (input) "PSTATUS_BAD_LOGIN_TOKEN \<equiv> 6 :: nat"
abbreviation (input) "PSTATUS_ACCOUNT_FULL \<equiv> 7 :: nat"
abbreviation (input) "PSTATUS_DISK_FULL \<equiv> 8 :: nat"
abbreviation (input) "PSTATUS_PAUSED \<equiv> 9 :: nat"
abbreviation (input) "PSTATUS_STOPPED \<equiv> 10 :: nat"
abbreviation (input) "PSTATUS_OFFLINE \<equiv> 11 :: nat"
abbreviation (input) "PSTATUS_CONNECTING \<equiv> 12 :: nat"
abbreviation (input) "PSTATUS_SCANNING \<equiv> 13 :: nat"
abbreviation (input) "PSTATUS_USER_MISMATCH \<equiv> 14 :: nat"
abbreviation (input) "PSTATUS_ACCOUNT_EXPIRED \<equiv> 15 :: nat"
abbreviation (input) "PSTATUS_TFA_REQUIRED \<equiv> 16 :: nat"
abbreviation (input) "PSTATUS_BAD_TFA_CODE \<equiv> 17 :: nat"
abbreviation (input) "PSTATUS_VERIFY_REQUIRED \<equiv> 18 :: nat"
abbreviation (input) "PSTATUS_RELOCATION \<equiv> 19 :: nat"
abbreviation (input) "PSTATUS_RELOCATED \<equiv> 20 :: nat"
abbreviation (input) "STATUS_MINUS_1 \<equiv> 4294967295 :: nat"

section \<open>State\<close>

type_synonym statuses = "nat \<Rightarrow> nat"

definition statuses_initial :: statuses where
  "statuses_initial = (\<lambda>i. [PSTATUS_INVALID, PSTATUS_ONLINE_OFFLINE, PSTATUS_INVALID, PSTATUS_ACCFULL_QUOTAOK,
     PSTATUS_DISKFULL_OK, PSTATUS_LOCALSCAN_SCANNING] ! i)"

record pstatus =
  bytestodownload :: nat
  downloadspeed :: nat
  bytestoupload :: nat
  uploadspeed :: nat
  status :: nat
  filestodownload :: nat
  filesdownloading :: nat
  filestoupload :: nat
  filesuploading :: nat
  remoteisfull :: bool
  localisfull :: bool

record client =
  sts :: statuses
  pst :: pstatus

section \<open>The overall status\<close>

definition psync_calc_status :: "client \<Rightarrow> nat" where
  "psync_calc_status c =
     (let s = sts c; p = pst c in
      if s PSTATUS_TYPE_AUTH \<noteq> PSTATUS_AUTH_PROVIDED \<and> s PSTATUS_TYPE_AUTH \<noteq> PSTATUS_INVALID then
        (if s PSTATUS_TYPE_AUTH = PSTATUS_AUTH_REQUIRED then PSTATUS_LOGIN_REQUIRED
         else if s PSTATUS_TYPE_AUTH = PSTATUS_AUTH_MISMATCH then PSTATUS_USER_MISMATCH
         else if s PSTATUS_TYPE_AUTH = PSTATUS_AUTH_BADLOGIN then PSTATUS_BAD_LOGIN_DATA
         else if s PSTATUS_TYPE_AUTH = PSTATUS_AUTH_BADTOKEN then PSTATUS_BAD_LOGIN_TOKEN
         else if s PSTATUS_TYPE_AUTH = PSTATUS_AUTH_EXPIRED then PSTATUS_ACCOUNT_EXPIRED
         else if s PSTATUS_TYPE_AUTH = PSTATUS_AUTH_TFAREQ then PSTATUS_TFA_REQUIRED
         else if s PSTATUS_TYPE_AUTH = PSTATUS_AUTH_VERIFYREQ then PSTATUS_VERIFY_REQUIRED
         else if s PSTATUS_TYPE_AUTH = PSTATUS_AUTH_BADCODE then PSTATUS_BAD_TFA_CODE
         else if s PSTATUS_TYPE_AUTH = PSTATUS_AUTH_RELOCATING then PSTATUS_RELOCATION
         else if s PSTATUS_TYPE_AUTH = PSTATUS_AUTH_RELOCATED then PSTATUS_RELOCATED
         else STATUS_MINUS_1)
      else if s PSTATUS_TYPE_RUN \<noteq> PSTATUS_RUN_RUN then
        (if s PSTATUS_TYPE_RUN = PSTATUS_RUN_PAUSE then PSTATUS_PAUSED
         else if s PSTATUS_TYPE_RUN = PSTATUS_RUN_STOP then PSTATUS_STOPPED
         else STATUS_MINUS_1)
      else if s PSTATUS_TYPE_ONLINE \<noteq> PSTATUS_ONLINE_ONLINE then
        (if s PSTATUS_TYPE_ONLINE = PSTATUS_ONLINE_CONNECTING then PSTATUS_CONNECTING
         else if s PSTATUS_TYPE_ONLINE = PSTATUS_ONLINE_SCANNING then PSTATUS_SCANNING
         else if s PSTATUS_TYPE_ONLINE = PSTATUS_ONLINE_OFFLINE then PSTATUS_OFFLINE
         else STATUS_MINUS_1)
      else if s PSTATUS_TYPE_LOCALSCAN \<noteq> PSTATUS_LOCALSCAN_READY then
        (if s PSTATUS_TYPE_LOCALSCAN = PSTATUS_LOCALSCAN_SCANNING then PSTATUS_SCANNING else STATUS_MINUS_1)
      else if s PSTATUS_TYPE_ACCFULL \<noteq> PSTATUS_ACCFULL_QUOTAOK then
        (if s PSTATUS_TYPE_ACCFULL = PSTATUS_ACCFULL_OVERQUOTA then PSTATUS_ACCOUNT_FULL else STATUS_MINUS_1)
      else if s PSTATUS_TYPE_DISKFULL \<noteq> PSTATUS_DISKFULL_OK then
        (if s PSTATUS_TYPE_DISKFULL = PSTATUS_DISKFULL_FULL then PSTATUS_DISK_FULL else STATUS_MINUS_1)
      else if (filesdownloading p > 0 \<or> filestodownload p > 0) \<and> (filesuploading p > 0 \<or> filestoupload p > 0)
      then PSTATUS_DOWNLOADINGANDUPLOADING
      else if filesdownloading p > 0 \<or> filestodownload p > 0 then PSTATUS_DOWNLOADING
      else if filesuploading p > 0 \<or> filestoupload p > 0 then PSTATUS_UPLOADING
      else PSTATUS_READY)"

section \<open>Operations\<close>

definition set_calculated :: "client \<Rightarrow> client" where
  "set_calculated c = c\<lparr>pst := (pst c)\<lparr>status := psync_calc_status c\<rparr>\<rparr>"

text \<open>The row of the query is the number and the total size of the files; \<open>None\<close> is no row.\<close>

definition psync_status_recalc_to_download :: "(nat \<times> nat) option \<Rightarrow> client \<Rightarrow> client" where
  "psync_status_recalc_to_download row c =
     (let (n, b) = (case row of Some r \<Rightarrow> r | None \<Rightarrow> (0, 0));
          p = (pst c)\<lparr>filestodownload := n, bytestodownload := b\<rparr>;
          p = (if n = 0 then p\<lparr>downloadspeed := 0\<rparr> else p)
      in set_calculated (c\<lparr>pst := p\<rparr>))"

text \<open>Per upload task of the file system, the size \<^verbatim>\<open>psync_stat\<close> found, or \<open>None\<close>.\<close>

definition psync_status_recalc_to_upload :: "(nat \<times> nat) option \<Rightarrow> nat option list \<Rightarrow> client \<Rightarrow> client" where
  "psync_status_recalc_to_upload row stats c =
     (let (n, b) = (case row of Some r \<Rightarrow> r | None \<Rightarrow> (0, 0));
          (n, b) = fold (\<lambda>st (n, b). case st of Some sz \<Rightarrow> (n + 1, b + sz) | None \<Rightarrow> (n, b)) stats (n, b);
          p = (pst c)\<lparr>filestoupload := n, bytestoupload := b\<rparr>;
          p = (if n = 0 then p\<lparr>uploadspeed := 0\<rparr> else p)
      in set_calculated (c\<lparr>pst := p\<rparr>))"

text \<open>The stored run status, if there is one in range, and the counters.\<close>

definition psync_status_init ::
    "nat \<Rightarrow> (nat \<times> nat) option \<Rightarrow> (nat \<times> nat) option \<Rightarrow> nat option list \<Rightarrow> statuses \<Rightarrow> client" where
  "psync_status_init runstatus down up stats s =
     (let p = \<lparr>bytestodownload = 0, downloadspeed = 0, bytestoupload = 0, uploadspeed = 0, status = 0,
               filestodownload = 0, filesdownloading = 0, filestoupload = 0, filesuploading = 0,
               remoteisfull = False, localisfull = False\<rparr>;
          r = (if runstatus < PSTATUS_RUN_RUN \<or> runstatus > PSTATUS_RUN_STOP then PSTATUS_RUN_RUN else runstatus);
          c = \<lparr>sts = s(PSTATUS_TYPE_RUN := r), pst = p\<rparr>
      in set_calculated (psync_status_recalc_to_upload up stats (psync_status_recalc_to_download down c)))"

definition psync_status_get :: "nat \<Rightarrow> client \<Rightarrow> nat" where
  "psync_status_get statusid c = sts c statusid"

definition psync_set_status :: "nat \<Rightarrow> nat \<Rightarrow> client \<Rightarrow> client \<times> bool" where
  "psync_set_status statusid st c =
     (let s = (sts c)(statusid := st);
          c = c\<lparr>sts := s, pst := (pst c)\<lparr>remoteisfull := (s PSTATUS_TYPE_ACCFULL = PSTATUS_ACCFULL_OVERQUOTA),
                                        localisfull := (s PSTATUS_TYPE_DISKFULL = PSTATUS_DISKFULL_FULL)\<rparr>\<rparr>;
          new = psync_calc_status c
      in if status (pst c) \<noteq> new then (c\<lparr>pst := (pst c)\<lparr>status := new\<rparr>\<rparr>, True) else (c, False))"

definition psync_status_set_download_speed :: "nat \<Rightarrow> client \<Rightarrow> client \<times> bool" where
  "psync_status_set_download_speed speed c =
     (if downloadspeed (pst c) \<noteq> speed
      then (c\<lparr>pst := (pst c)\<lparr>downloadspeed := (if filesdownloading (pst c) > 0 then speed else 0)\<rparr>\<rparr>, True)
      else (c, False))"

definition psync_status_set_upload_speed :: "nat \<Rightarrow> client \<Rightarrow> client \<times> bool" where
  "psync_status_set_upload_speed speed c =
     (if uploadspeed (pst c) \<noteq> speed
      then (c\<lparr>pst := (pst c)\<lparr>uploadspeed := (if filesuploading (pst c) > 0 then speed else 0)\<rparr>\<rparr>, True)
      else (c, False))"

definition psync_status_send_update :: "client \<Rightarrow> client \<times> bool" where
  "psync_status_send_update c = (set_calculated c, True)"

section \<open>Waiting for statuses\<close>

text \<open>\<^verbatim>\<open>PSTATUS_COMBINE\<close> and its inverse, on 32 bits.\<close>

definition PSTATUS_COMBINE :: "nat \<Rightarrow> nat \<Rightarrow> u32" where
  "PSTATUS_COMBINE type st = push_bit 24 (of_nat type) + of_nat st"

definition combined_ok :: "statuses \<Rightarrow> u32 \<Rightarrow> bool" where
  "combined_ok s cmb \<longleftrightarrow> s (unat (drop_bit 24 cmb)) AND unat (cmb AND 0x00ffffff) \<noteq> 0"

fun psync_statuses_ok_array :: "u32 list \<Rightarrow> statuses \<Rightarrow> bool" where
  "psync_statuses_ok_array [] s = True"
| "psync_statuses_ok_array (c # cs) s = (if \<not> combined_ok s c then False else psync_statuses_ok_array cs s)"

text \<open>
  A wait sees a sequence of statuses: the first is the present one, each return of \<^verbatim>\<open>pthread_cond_wait\<close> moves to
  the next. \<open>None\<close> is a wait that has not ended when the sequence does. \<open>wait_one\<close> is the inner loop,
  \<open>wait_pass\<close> the \<^verbatim>\<open>for\<close> loop with its \<^verbatim>\<open>waited\<close> flag.
\<close>

fun wait_one :: "u32 \<Rightarrow> statuses list \<Rightarrow> bool \<Rightarrow> (statuses list \<times> bool) option" where
  "wait_one c [] waited = None"
| "wait_one c (s # ss) waited = (if combined_ok s c then Some (s # ss, waited) else wait_one c ss True)"

fun wait_pass :: "u32 list \<Rightarrow> statuses list \<Rightarrow> bool \<Rightarrow> (statuses list \<times> bool) option" where
  "wait_pass [] ss waited = Some (ss, waited)"
| "wait_pass (c # cs) ss waited =
     (case wait_one c ss waited of None \<Rightarrow> None | Some (ss, waited) \<Rightarrow> wait_pass cs ss waited)"

lemma wait_one_shrinks:
  "wait_one c ss waited = Some (ss', waited') \<Longrightarrow>
     length ss' \<le> length ss \<and> (waited' \<and> \<not> waited \<longrightarrow> length ss' < length ss) \<and> (waited \<longrightarrow> waited')"
  by (induction c ss waited rule: wait_one.induct) (auto split: if_splits)

lemma wait_pass_shrinks:
  "wait_pass cs ss waited = Some (ss', waited') \<Longrightarrow>
     length ss' \<le> length ss \<and> (waited' \<and> \<not> waited \<longrightarrow> length ss' < length ss) \<and> (waited \<longrightarrow> waited')"
proof (induction cs arbitrary: ss waited)
  case (Cons c cs)
  then obtain ss1 w1 where 1: "wait_one c ss waited = Some (ss1, w1)" "wait_pass cs ss1 w1 = Some (ss', waited')"
    by (auto split: option.splits)
  from wait_one_shrinks [OF 1(1)] Cons.IH [OF 1(2)] show ?case by (cases w1) auto
qed simp

function psync_wait_statuses_array :: "u32 list \<Rightarrow> statuses list \<Rightarrow> statuses list option" where
  "psync_wait_statuses_array cs ss =
     (case wait_pass cs ss False of None \<Rightarrow> None
      | Some (ss', waited) \<Rightarrow> if waited then psync_wait_statuses_array cs ss' else Some ss')"
  by pat_completeness auto
termination
  by (relation "measure (\<lambda>(_, ss). length ss)") (auto dest: wait_pass_shrinks)

declare psync_wait_statuses_array.simps [simp del]

section \<open>What a wait ends with\<close>

lemma wait_one_suffix:
  "wait_one c ss waited = Some (ss', w') \<Longrightarrow> \<exists>pre s rest. ss = pre @ ss' \<and> ss' = s # rest \<and> combined_ok s c \<and>
    (\<not> w' \<longrightarrow> ss' = ss)"
  by (induction c ss waited rule: wait_one.induct) (auto split: if_splits dest: wait_one_shrinks)

lemma wait_pass_suffix:
  "wait_pass cs ss waited = Some (ss', w') \<Longrightarrow> ss \<noteq> [] \<Longrightarrow> \<exists>pre s rest. ss = pre @ ss' \<and> ss' = s # rest \<and>
    (\<not> w' \<longrightarrow> ss' = ss \<and> psync_statuses_ok_array cs s)"
proof (induction cs arbitrary: ss waited)
  case Nil
  then show ?case by (cases ss) auto
next
  case (Cons c cs)
  then obtain ss1 w1 where 1: "wait_one c ss waited = Some (ss1, w1)" "wait_pass cs ss1 w1 = Some (ss', w')"
    by (auto split: option.splits)
  from wait_one_suffix [OF 1(1)] obtain pre s rest where s: "ss = pre @ ss1" "ss1 = s # rest" "combined_ok s c"
    "\<not> w1 \<longrightarrow> ss1 = ss" by blast
  have "ss1 \<noteq> []" using s(2) by simp
  from Cons.IH [OF 1(2) this] obtain pre' s' rest' where r: "ss1 = pre' @ ss'" "ss' = s' # rest'"
    "\<not> w' \<longrightarrow> ss' = ss1 \<and> psync_statuses_ok_array cs s'" by blast
  have "ss = (pre @ pre') @ ss'" using s(1) r(1) by simp
  moreover have "ss' = ss \<and> psync_statuses_ok_array (c # cs) s'" if "\<not> w'"
    using that s r wait_pass_shrinks [OF 1(2)] by auto
  ultimately show ?case using r(2) by blast
qed

lemma wait_one_last:
  "ss \<noteq> [] \<Longrightarrow> combined_ok (last ss) c \<Longrightarrow> \<exists>ss' w'. wait_one c ss waited = Some (ss', w') \<and> ss' \<noteq> [] \<and> last ss' = last ss"
  by (induction c ss waited rule: wait_one.induct) (auto split: if_splits)

lemma wait_pass_last:
  "ss \<noteq> [] \<Longrightarrow> psync_statuses_ok_array cs (last ss) \<Longrightarrow>
    \<exists>ss' w'. wait_pass cs ss waited = Some (ss', w') \<and> ss' \<noteq> [] \<and> last ss' = last ss"
proof (induction cs arbitrary: ss waited)
  case (Cons c cs)
  then obtain ss1 w1 where 1: "wait_one c ss waited = Some (ss1, w1)" "ss1 \<noteq> []" "last ss1 = last ss"
    using wait_one_last by (auto split: if_splits) blast
  with Cons.IH [of ss1 w1] Cons.prems show ?case by (auto split: if_splits)
qed simp

lemma wait_array_last:
  "ss \<noteq> [] \<Longrightarrow> psync_statuses_ok_array cs (last ss) \<Longrightarrow> \<exists>ss'. psync_wait_statuses_array cs ss = Some ss'"
proof (induction cs ss rule: psync_wait_statuses_array.induct)
  case (1 cs ss)
  obtain ss' w' where p: "wait_pass cs ss False = Some (ss', w')" "ss' \<noteq> []" "last ss' = last ss"
    using wait_pass_last [OF 1(2,3)] by blast
  show ?case
  proof (cases w')
    case True
    with 1(1) [OF p(1) refl True] p 1(3) show ?thesis by (simp add: psync_wait_statuses_array.simps [of cs ss])
  qed (simp add: psync_wait_statuses_array.simps [of cs ss] p)
qed

lemma wait_array_suffix:
  "psync_wait_statuses_array cs ss = Some ss' \<Longrightarrow> ss \<noteq> [] \<Longrightarrow>
    \<exists>pre s rest. ss = pre @ ss' \<and> ss' = s # rest \<and> psync_statuses_ok_array cs s"
proof (induction cs ss rule: psync_wait_statuses_array.induct)
  case (1 cs ss)
  from 1(2) obtain ss1 w1 where p: "wait_pass cs ss False = Some (ss1, w1)"
    by (auto simp: psync_wait_statuses_array.simps [of cs ss] split: option.splits)
  from wait_pass_suffix [OF p 1(3)] obtain pre s rest where s: "ss = pre @ ss1" "ss1 = s # rest"
    "\<not> w1 \<longrightarrow> ss1 = ss \<and> psync_statuses_ok_array cs s" by blast
  show ?case
  proof (cases w1)
    case True
    with 1(2) p have "psync_wait_statuses_array cs ss1 = Some ss'"
      by (simp add: psync_wait_statuses_array.simps [of cs ss])
    with 1(1) [OF p refl True] s show ?thesis by auto
  next
    case False
    with 1(2) p have "ss1 = ss'" by (simp add: psync_wait_statuses_array.simps [of cs ss])
    with s False show ?thesis by auto
  qed
qed

lemma combine_decode:
  assumes "type < 256" "st < 2 ^ 24"
  shows "unat (drop_bit 24 (PSTATUS_COMBINE type st)) = type" "unat (PSTATUS_COMBINE type st AND 0x00ffffff) = st"
proof -
  have m: "(0x00ffffff :: u32) = mask 24" by (simp add: mask_eq_exp_minus_1)
  have "PSTATUS_COMBINE type st = of_nat (type * 2 ^ 24 + st)"
    by (simp add: PSTATUS_COMBINE_def push_bit_eq_mult mult.commute)
  moreover have "type * 2 ^ 24 + st < 2 ^ 32" using assms by simp
  then have "unat (of_nat (type * 2 ^ 24 + st) :: u32) = type * 2 ^ 24 + st"
    unfolding unat_of_nat by simp
  ultimately have u: "unat (PSTATUS_COMBINE type st) = type * 2 ^ 24 + st" by simp
  show "unat (drop_bit 24 (PSTATUS_COMBINE type st)) = type"
    unfolding unsigned_drop_bit_eq u using assms by (simp add: drop_bit_eq_div take_bit_eq_mod)
  show "unat (PSTATUS_COMBINE type st AND 0x00ffffff) = st"
    unfolding m take_bit_eq_mask [symmetric] unsigned_take_bit_eq u using assms by (simp add: take_bit_eq_mod)
qed

text \<open>The published status itself is not looked at.\<close>

lemma calc_status_field: "psync_calc_status (c\<lparr>pst := p\<lparr>status := x\<rparr>\<rparr>) = psync_calc_status (c\<lparr>pst := p\<rparr>)"
  by (simp add: psync_calc_status_def Let_def)

section \<open>Properties\<close>

text \<open>The statuses in order of priority: per component, its good values and the status of each other value.\<close>

definition status_table :: "(nat \<times> nat list \<times> (nat \<times> nat) list) list" where
  "status_table =
     [(PSTATUS_TYPE_AUTH, [PSTATUS_AUTH_PROVIDED, PSTATUS_INVALID],
        [(PSTATUS_AUTH_REQUIRED, PSTATUS_LOGIN_REQUIRED), (PSTATUS_AUTH_MISMATCH, PSTATUS_USER_MISMATCH),
         (PSTATUS_AUTH_BADLOGIN, PSTATUS_BAD_LOGIN_DATA), (PSTATUS_AUTH_BADTOKEN, PSTATUS_BAD_LOGIN_TOKEN),
         (PSTATUS_AUTH_EXPIRED, PSTATUS_ACCOUNT_EXPIRED), (PSTATUS_AUTH_TFAREQ, PSTATUS_TFA_REQUIRED),
         (PSTATUS_AUTH_BADCODE, PSTATUS_BAD_TFA_CODE), (PSTATUS_AUTH_VERIFYREQ, PSTATUS_VERIFY_REQUIRED),
         (PSTATUS_AUTH_RELOCATING, PSTATUS_RELOCATION), (PSTATUS_AUTH_RELOCATED, PSTATUS_RELOCATED)]),
      (PSTATUS_TYPE_RUN, [PSTATUS_RUN_RUN], [(PSTATUS_RUN_PAUSE, PSTATUS_PAUSED), (PSTATUS_RUN_STOP, PSTATUS_STOPPED)]),
      (PSTATUS_TYPE_ONLINE, [PSTATUS_ONLINE_ONLINE],
        [(PSTATUS_ONLINE_CONNECTING, PSTATUS_CONNECTING), (PSTATUS_ONLINE_SCANNING, PSTATUS_SCANNING),
         (PSTATUS_ONLINE_OFFLINE, PSTATUS_OFFLINE)]),
      (PSTATUS_TYPE_LOCALSCAN, [PSTATUS_LOCALSCAN_READY], [(PSTATUS_LOCALSCAN_SCANNING, PSTATUS_SCANNING)]),
      (PSTATUS_TYPE_ACCFULL, [PSTATUS_ACCFULL_QUOTAOK], [(PSTATUS_ACCFULL_OVERQUOTA, PSTATUS_ACCOUNT_FULL)]),
      (PSTATUS_TYPE_DISKFULL, [PSTATUS_DISKFULL_OK], [(PSTATUS_DISKFULL_FULL, PSTATUS_DISK_FULL)])]"

definition transfer_status :: "pstatus \<Rightarrow> nat" where
  "transfer_status p = (if filesdownloading p + filestodownload p > 0 then 1 else 0) +
     (if filesuploading p + filestoupload p > 0 then 2 else 0)"

definition valid_statuses :: "statuses \<Rightarrow> bool" where
  "valid_statuses s \<longleftrightarrow> (\<forall>(i, good, bad)\<in>set status_table. s i \<in> set good \<union> fst ` set bad)"

text \<open>
  The overall status is the one of the first component, in the order authentication, run state,
  connection, local scan, quota, disk, that is not good; only if all are good it tells of the transfers.
  With component statuses in their ranges it is never the error value.
\<close>

theorem calc_status_priority:
  "psync_calc_status c =
     (case find (\<lambda>(i, good, _). sts c i \<notin> set good) status_table of
        None \<Rightarrow> transfer_status (pst c)
      | Some (i, _, bad) \<Rightarrow> (case map_of bad (sts c i) of Some st \<Rightarrow> st | None \<Rightarrow> STATUS_MINUS_1)) \<and>
   (valid_statuses (sts c) \<longrightarrow> psync_calc_status c \<le> PSTATUS_RELOCATED)"
proof
  show "psync_calc_status c =
     (case find (\<lambda>(i, good, _). sts c i \<notin> set good) status_table of
        None \<Rightarrow> transfer_status (pst c)
      | Some (i, _, bad) \<Rightarrow> (case map_of bad (sts c i) of Some st \<Rightarrow> st | None \<Rightarrow> STATUS_MINUS_1))"
    by (simp add: psync_calc_status_def status_table_def transfer_status_def Let_def)
  show "valid_statuses (sts c) \<longrightarrow> psync_calc_status c \<le> PSTATUS_RELOCATED"
    by (simp add: psync_calc_status_def valid_statuses_def status_table_def Let_def)
qed

theorem calc_status_priority_witness:
  "psync_calc_status (psync_status_init 2 None None [] (statuses_initial(2 := 1))) \<le> PSTATUS_RELOCATED"
proof -
  have "valid_statuses (sts (psync_status_init 2 None None [] (statuses_initial(2 := 1))))"
  proof -
    have "sts (psync_status_init 2 None None [] (statuses_initial(2 := 1))) = statuses_initial(2 := 1, 0 := 2)"
      by (simp add: psync_status_init_def set_calculated_def psync_status_recalc_to_upload_def
          psync_status_recalc_to_download_def Let_def)
    then show ?thesis by (simp add: valid_statuses_def status_table_def statuses_initial_def)
  qed
  with calc_status_priority show ?thesis by blast
qed

text \<open>
  Setting a component status leaves the published status equal to the calculated one and the two full
  flags equal to the quota and disk statuses, and the client is notified exactly when the published status
  changes.
\<close>

theorem set_status_publishes:
  "psync_set_status i st c = (c', notify) \<Longrightarrow>
    sts c' = (sts c)(i := st) \<and> status (pst c') = psync_calc_status c' \<and>
    (notify \<longleftrightarrow> status (pst c') \<noteq> status (pst c)) \<and>
    (remoteisfull (pst c') \<longleftrightarrow> psync_status_get PSTATUS_TYPE_ACCFULL c' = PSTATUS_ACCFULL_OVERQUOTA) \<and>
    (localisfull (pst c') \<longleftrightarrow> psync_status_get PSTATUS_TYPE_DISKFULL c' = PSTATUS_DISKFULL_FULL)"
  by (auto simp: psync_set_status_def psync_status_get_def Let_def calc_status_field split: if_splits)

theorem set_status_publishes_witness:
  "\<exists>c' notify. psync_set_status 2 2 (psync_status_init 1 None None [] statuses_initial) = (c', notify) \<and>
     status (pst c') = psync_calc_status c'"
proof -
  obtain c' notify where s: "psync_set_status 2 2 (psync_status_init 1 None None [] statuses_initial) = (c', notify)"
    by fastforce
  from set_status_publishes [OF s] s show ?thesis by blast
qed

text \<open>
  A wait for several statuses returns at a moment when all of them hold together (not each at some time
  during the wait), and it does return once they hold together from some moment on.
\<close>

theorem wait_statuses_together:
  assumes "ss \<noteq> []"
  shows "(\<forall>ss'. psync_wait_statuses_array cs ss = Some ss' \<longrightarrow>
      (\<exists>pre s rest. ss = pre @ ss' \<and> ss' = s # rest \<and> psync_statuses_ok_array cs s)) \<and>
    (psync_statuses_ok_array cs (last ss) \<longrightarrow> (\<exists>ss'. psync_wait_statuses_array cs ss = Some ss'))"
  using wait_array_suffix [of cs ss] wait_array_last [of ss cs] assms by blast

theorem wait_statuses_together_witness:
  "\<exists>ss'. psync_wait_statuses_array [PSTATUS_COMBINE 1 4, PSTATUS_COMBINE 0 3]
    [\<lambda>_. 4, (\<lambda>_. 4)(0 := 1, 1 := 8), (\<lambda>_. 4)(0 := 1)] = Some ss'"
proof -
  have "psync_statuses_ok_array [PSTATUS_COMBINE 1 4, PSTATUS_COMBINE 0 3] ((\<lambda>_. 4)(0 := 1))"
    by code_simp
  with wait_statuses_together [of "[\<lambda>_. 4, (\<lambda>_. 4)(0 := 1, 1 := 8), (\<lambda>_. 4)(0 := 1)]"] show ?thesis by simp
qed

text \<open>
  A combined status is taken apart into the type and the mask it was made of, for types below 256 and
  masks below \<open>2 ^ 24\<close>.
\<close>

theorem combined_status_decodes:
  assumes "type < 256" "st < 2 ^ 24"
  shows "combined_ok s (PSTATUS_COMBINE type st) \<longleftrightarrow> s type AND st \<noteq> 0"
  using combine_decode [OF assms] by (simp add: combined_ok_def)

theorem combined_status_decodes_witness:
  "combined_ok (\<lambda>_. 6) (PSTATUS_COMBINE 2 1024) \<longleftrightarrow> (6 :: nat) AND 1024 \<noteq> 0"
  by (rule combined_status_decodes) simp_all

end
