(* ===== verification/ListSort.thy ===== *)
theory ListSort
  imports Prelude "HOL-Library.Multiset"
begin

text \<open>
  The intrusive doubly-linked lists of \<^verbatim>\<open>plist.h\<close> and the in-place merge sort of \<^verbatim>\<open>plist.c\<close>.

  A node (or a list head) is an address, a natural number with 0 for \<^verbatim>\<open>NULL\<close>; the two link fields of
  every node live in the heap record \<open>lheap\<close>. The operations of the header are the same sequences
  of stores as the macros; the sort is written with the variables \<^verbatim>\<open>ls\<close>, \<^verbatim>\<open>tail\<close>, \<^verbatim>\<open>l1\<close>, \<^verbatim>\<open>l2\<close>,
  \<^verbatim>\<open>l1len\<close>, \<^verbatim>\<open>l2len\<close> and \<^verbatim>\<open>depth\<close> of the C function, \<^verbatim>\<open>tail\<close> being a pointer to the variable \<^verbatim>\<open>ls\<close> or
  to the \<^verbatim>\<open>next\<close> field of a node. Loops that follow links are partial functions: that they return is
  proved. \<open>dlist h l xs\<close> says that the list with head \<open>l\<close> holds exactly the nodes \<open>xs\<close>; each operation
  is shown to implement its list counterpart, with the heap outside the list untouched.
\<close>

section \<open>Nodes, heads and the operations of the header\<close>

type_synonym addr = nat

record lheap =
  nxt :: "addr \<Rightarrow> addr"
  prv :: "addr \<Rightarrow> addr"

definition set_nxt :: "addr \<Rightarrow> addr \<Rightarrow> lheap \<Rightarrow> lheap" where
  "set_nxt a v h = h\<lparr>nxt := (nxt h)(a := v)\<rparr>"

definition set_prv :: "addr \<Rightarrow> addr \<Rightarrow> lheap \<Rightarrow> lheap" where
  "set_prv a v h = h\<lparr>prv := (prv h)(a := v)\<rparr>"

lemma nxt_set [simp]:
  "nxt (set_nxt a v h) = (nxt h)(a := v)" "nxt (set_prv a v h) = nxt h"
  "prv (set_prv a v h) = (prv h)(a := v)" "prv (set_nxt a v h) = prv h"
  by (simp_all add: set_nxt_def set_prv_def)

definition psync_list_init :: "addr \<Rightarrow> lheap \<Rightarrow> lheap" where
  "psync_list_init l h = set_prv l l (set_nxt l l h)"

definition psync_list_isempty :: "addr \<Rightarrow> lheap \<Rightarrow> bool" where
  "psync_list_isempty l h \<longleftrightarrow> nxt h l = l"

definition psync_list_is_head :: "addr \<Rightarrow> addr \<Rightarrow> lheap \<Rightarrow> bool" where
  "psync_list_is_head l e h \<longleftrightarrow> nxt h l = e"

definition psync_list_is_tail :: "addr \<Rightarrow> addr \<Rightarrow> lheap \<Rightarrow> bool" where
  "psync_list_is_tail l e h \<longleftrightarrow> prv h l = e"

definition psync_list_add_between :: "addr \<Rightarrow> addr \<Rightarrow> addr \<Rightarrow> lheap \<Rightarrow> lheap" where
  "psync_list_add_between l1 l2 a h =
     set_prv l2 a (set_nxt l1 a (set_prv a l1 (set_nxt a l2 h)))"

definition psync_list_add_head :: "addr \<Rightarrow> addr \<Rightarrow> lheap \<Rightarrow> lheap" where
  "psync_list_add_head l a h = psync_list_add_between l (nxt h l) a h"

definition psync_list_add_tail :: "addr \<Rightarrow> addr \<Rightarrow> lheap \<Rightarrow> lheap" where
  "psync_list_add_tail l a h = psync_list_add_between (prv h l) l a h"

definition psync_list_add_before :: "addr \<Rightarrow> addr \<Rightarrow> lheap \<Rightarrow> lheap" where
  "psync_list_add_before e a h = psync_list_add_between (prv h e) e a h"

definition psync_list_add_after :: "addr \<Rightarrow> addr \<Rightarrow> lheap \<Rightarrow> lheap" where
  "psync_list_add_after e a h = psync_list_add_between e (nxt h e) a h"

definition psync_list_del :: "addr \<Rightarrow> lheap \<Rightarrow> lheap" where
  "psync_list_del a h =
     (let h1 = set_prv (nxt h a) (prv h a) h in set_nxt (prv h1 a) (nxt h1 a) h1)"

definition psync_list_remove_head :: "addr \<Rightarrow> lheap \<Rightarrow> addr \<times> lheap" where
  "psync_list_remove_head l h = (let e = nxt h l in (e, psync_list_del e h))"

section \<open>The merge sort\<close>

datatype tail_ptr = TLs | TNext addr

fun put_tail :: "tail_ptr \<Rightarrow> addr \<Rightarrow> addr \<Rightarrow> (addr \<Rightarrow> addr) \<Rightarrow> addr \<times> (addr \<Rightarrow> addr)" where
  "put_tail TLs v ls nx = (v, nx)"
| "put_tail (TNext a) v ls nx = (ls, nx(a := v))"

fun advance :: "(addr \<Rightarrow> addr) \<Rightarrow> nat \<Rightarrow> nat \<Rightarrow> addr \<Rightarrow> nat \<times> addr" where
  "advance nx 0 i p = (i, p)"
| "advance nx (Suc d) i p = (if p \<noteq> 0 then advance nx d (Suc i) (nx p) else (i, p))"

fun skip_next :: "(addr \<Rightarrow> addr) \<Rightarrow> nat \<Rightarrow> addr \<Rightarrow> addr" where
  "skip_next nx 0 p = p"
| "skip_next nx (Suc n) p = skip_next nx n (nx p)"

fun skip_to_last :: "(addr \<Rightarrow> addr) \<Rightarrow> nat \<Rightarrow> addr \<Rightarrow> addr" where
  "skip_to_last nx 0 p = p"
| "skip_to_last nx (Suc n) p = (if nx p \<noteq> 0 then skip_to_last nx n (nx p) else p)"

type_synonym list_cmp_fn = "addr \<Rightarrow> addr \<Rightarrow> int"

function merge_runs :: "list_cmp_fn \<Rightarrow> nat \<Rightarrow> nat \<Rightarrow> addr \<Rightarrow> addr \<Rightarrow> tail_ptr \<Rightarrow> addr \<Rightarrow> (addr \<Rightarrow> addr) \<Rightarrow>
    addr \<times> tail_ptr \<times> addr \<times> (addr \<Rightarrow> addr)" where
  "merge_runs cmp l1len l2len l1 l2 tp ls nx =
     (if cmp l1 l2 \<le> 0 then
        (case put_tail tp l1 ls nx of (ls, nx) \<Rightarrow>
          if l1len - 1 = 0 then
            (case put_tail (TNext l1) l2 ls nx of (ls, nx) \<Rightarrow>
              (let e = skip_to_last nx (l2len - 1) l2 in (nx e, TNext e, ls, nx)))
          else merge_runs cmp (l1len - 1) l2len (nx l1) l2 (TNext l1) ls nx)
      else
        (case put_tail tp l2 ls nx of (ls, nx) \<Rightarrow>
          if l2len - 1 = 0 \<or> nx l2 = 0 then
            (let r = nx l2 in
              case put_tail (TNext l2) l1 ls nx of (ls, nx) \<Rightarrow>
                (let e = skip_next nx (l1len - 1) l1 in (r, TNext e, ls, nx)))
          else merge_runs cmp l1len (l2len - 1) l1 (nx l2) (TNext l2) ls nx))"
  by pat_completeness auto
termination
  by (relation "measure (\<lambda>(cmp, l1len, l2len, _). l1len + l2len)") auto

declare merge_runs.simps [simp del]

partial_function (option) pass_loop ::
  "list_cmp_fn \<Rightarrow> nat \<Rightarrow> nat \<Rightarrow> addr \<Rightarrow> tail_ptr \<Rightarrow> addr \<Rightarrow> (addr \<Rightarrow> addr) \<Rightarrow>
   (nat \<times> addr \<times> (addr \<Rightarrow> addr)) option" where
  "pass_loop cmp depth cnt l1 tp ls nx =
     (if l1 = 0 then
        (case put_tail tp 0 ls nx of (ls, nx) \<Rightarrow> Some (cnt, ls, nx))
      else
        (case advance nx depth 0 l1 of (i, l2) \<Rightarrow>
          if l2 = 0 then
            (case put_tail tp l1 ls nx of (ls, nx) \<Rightarrow> Some (cnt + 1, ls, nx))
          else
            (case merge_runs cmp i depth l1 l2 tp ls nx of (l1, tp, ls, nx) \<Rightarrow>
              pass_loop cmp depth (cnt + 1) l1 tp ls nx)))"

partial_function (option) sort_loop ::
  "list_cmp_fn \<Rightarrow> nat \<Rightarrow> addr \<Rightarrow> (addr \<Rightarrow> addr) \<Rightarrow> (addr \<times> (addr \<Rightarrow> addr)) option" where
  "sort_loop cmp depth ls nx =
     (case pass_loop cmp depth 0 ls TLs ls nx of
        None \<Rightarrow> None
      | Some (cnt, ls, nx) \<Rightarrow>
          if cnt \<le> 1 then Some (ls, nx) else sort_loop cmp (depth * 2) ls nx)"

partial_function (option) relink_loop :: "addr \<Rightarrow> addr \<Rightarrow> lheap \<Rightarrow> (addr \<times> lheap) option" where
  "relink_loop l1 ls h =
     (if ls = 0 then Some (l1, h) else relink_loop ls (nxt h ls) (set_prv ls l1 h))"

definition psync_list_sort :: "addr \<Rightarrow> list_cmp_fn \<Rightarrow> lheap \<Rightarrow> lheap option" where
  "psync_list_sort l cmp h =
     (if psync_list_isempty l h then Some h
      else
        (let ls = nxt h l;
             h1 = set_nxt (prv h l) 0 h
         in case sort_loop cmp 1 ls (nxt h1) of
              None \<Rightarrow> None
            | Some (ls, nx) \<Rightarrow>
                (case relink_loop l ls (set_nxt l ls (h1\<lparr>nxt := nx\<rparr>)) of
                   None \<Rightarrow> None
                 | Some (l1, h2) \<Rightarrow> Some (set_prv l l1 (set_nxt l1 l h2)))))"

section \<open>Moving out the elements two lists share\<close>

partial_function (option) extract_loop ::
  "list_cmp_fn \<Rightarrow> addr \<Rightarrow> addr \<Rightarrow> addr \<Rightarrow> addr \<Rightarrow> addr \<Rightarrow> addr \<Rightarrow> lheap \<Rightarrow> lheap option" where
  "extract_loop cmp l1 l2 ex1 ex2 li1 li2 h =
     (if li1 \<noteq> l1 \<and> li2 \<noteq> l2 then
        (let cr = cmp li1 li2 in
          if cr < 0 then extract_loop cmp l1 l2 ex1 ex2 (nxt h li1) li2 h
          else if cr > 0 then extract_loop cmp l1 l2 ex1 ex2 li1 (nxt h li2) h
          else
            (let ln1 = nxt h li1;
                 ln2 = nxt h li2;
                 h = psync_list_add_tail ex1 li1 (psync_list_del li1 h);
                 h = psync_list_add_tail ex2 li2 (psync_list_del li2 h)
             in extract_loop cmp l1 l2 ex1 ex2 ln1 ln2 h))
      else Some h)"

definition psync_list_extract_repeating ::
    "addr \<Rightarrow> addr \<Rightarrow> addr \<Rightarrow> addr \<Rightarrow> list_cmp_fn \<Rightarrow> lheap \<Rightarrow> lheap option" where
  "psync_list_extract_repeating l1 l2 ex1 ex2 cmp h =
     (case psync_list_sort l1 cmp h of
        None \<Rightarrow> None
      | Some h \<Rightarrow>
          (case psync_list_sort l2 cmp h of
             None \<Rightarrow> None
           | Some h \<Rightarrow> extract_loop cmp l1 l2 ex1 ex2 (nxt h l1) (nxt h l2) h))"

section \<open>What the sort computes: a bottom-up merge sort of lists\<close>

fun merge_lists :: "('a \<Rightarrow> 'a \<Rightarrow> int) \<Rightarrow> 'a list \<Rightarrow> 'a list \<Rightarrow> 'a list" where
  "merge_lists cmp [] ys = ys"
| "merge_lists cmp xs [] = xs"
| "merge_lists cmp (x # xs) (y # ys) =
     (if cmp x y \<le> 0 then x # merge_lists cmp xs (y # ys)
      else y # merge_lists cmp (x # xs) ys)"

function merge_pass :: "('a \<Rightarrow> 'a \<Rightarrow> int) \<Rightarrow> nat \<Rightarrow> 'a list \<Rightarrow> 'a list" where
  "merge_pass cmp d xs =
     (if length xs \<le> d \<or> d = 0 then xs
      else merge_lists cmp (take d xs) (take d (drop d xs)) @ merge_pass cmp d (drop (2 * d) xs))"
  by pat_completeness auto
termination by (relation "measure (\<lambda>(cmp, d, xs). length xs)") auto

declare merge_pass.simps [simp del]

function pass_count :: "nat \<Rightarrow> nat \<Rightarrow> nat" where
  "pass_count d n =
     (if n = 0 then 0 else if n \<le> d \<or> d = 0 then 1 else Suc (pass_count d (n - 2 * d)))"
  by pat_completeness auto
termination by (relation "measure (\<lambda>(d, n). n)") auto

declare pass_count.simps [simp del]

lemma pass_count_le_1: "0 < d \<Longrightarrow> pass_count d n \<le> 1 \<longleftrightarrow> n \<le> 2 * d"
  by (subst pass_count.simps) (auto simp: pass_count.simps [of d "n - 2 * d"])

lemma merge_induct [case_names Nil1 Nil2 Cons]:
  assumes "\<And>ys. P [] ys" and "\<And>x xs. P (x # xs) []"
    and "\<And>x xs y ys. P xs (y # ys) \<Longrightarrow> P (x # xs) ys \<Longrightarrow> P xs ys \<Longrightarrow>
      P (x # xs) (y # ys)"
  shows "P xs ys"
proof (induction "length xs + length ys" arbitrary: xs ys rule: less_induct)
  case less
  show ?case
  proof (cases xs)
    case Nil
    then show ?thesis using assms(1) by simp
  next
    case xs: (Cons x xs')
    show ?thesis
    proof (cases ys)
      case Nil
      then show ?thesis using assms(2) xs by simp
    next
      case (Cons y ys')
      then show ?thesis using xs assms(3) less.hyps by simp
    qed
  qed
qed

lemma merge_lists_Nil [simp]: "merge_lists cmp xs [] = xs"
  by (cases xs) auto

lemma merge_lists_eq_Nil [simp]: "merge_lists cmp xs ys = [] \<longleftrightarrow> xs = [] \<and> ys = []"
  by (cases xs; cases ys) auto

lemma mset_merge_lists [simp]: "mset (merge_lists cmp xs ys) = mset xs + mset ys"
  by (induction cmp xs ys rule: merge_lists.induct) auto

lemma length_merge_lists [simp]: "length (merge_lists cmp xs ys) = length xs + length ys"
  by (metis mset_merge_lists size_mset size_union)

lemma set_merge_lists [simp]: "set (merge_lists cmp xs ys) = set xs \<union> set ys"
  by (metis mset_merge_lists set_mset_mset set_mset_union)

lemma mset_merge_pass [simp]: "mset (merge_pass cmp d xs) = mset xs"
proof (induction cmp d xs rule: merge_pass.induct)
  case (1 cmp d xs)
  show ?case
  proof (cases "length xs \<le> d \<or> d = 0")
    case True
    then show ?thesis by (simp add: merge_pass.simps)
  next
    case False
    have "mset (take d xs) + mset (take d (drop d xs)) + mset (drop (2 * d) xs) = mset xs"
      unfolding mult_2 drop_drop [symmetric] mset_append [symmetric] append.assoc append_take_drop_id ..
    with 1 False show ?thesis by (simp add: merge_pass.simps [of cmp d xs])
  qed
qed

lemma length_merge_pass [simp]: "length (merge_pass cmp d xs) = length xs"
  by (metis mset_merge_pass size_mset)

lemma set_merge_pass [simp]: "set (merge_pass cmp d xs) = set xs"
  by (metis mset_merge_pass set_mset_mset)

function merge_sort :: "('a \<Rightarrow> 'a \<Rightarrow> int) \<Rightarrow> nat \<Rightarrow> 'a list \<Rightarrow> 'a list" where
  "merge_sort cmp d xs =
     (if length xs \<le> 2 * d \<or> d = 0 then merge_pass cmp d xs
      else merge_sort cmp (d * 2) (merge_pass cmp d xs))"
  by pat_completeness auto
termination by (relation "measure (\<lambda>(cmp, d, xs). length xs - d)") auto

declare merge_sort.simps [simp del]

lemma mset_merge_sort [simp]: "mset (merge_sort cmp d xs) = mset xs"
  by (induction cmp d xs rule: merge_sort.induct) (subst merge_sort.simps, simp)

lemma set_merge_sort [simp]: "set (merge_sort cmp d xs) = set xs"
  by (metis mset_merge_sort set_mset_mset)

lemma distinct_merge_sort [simp]: "distinct (merge_sort cmp d xs) \<longleftrightarrow> distinct xs"
  by (metis mset_merge_sort mset_eq_imp_distinct_iff)

lemma merge_sort_eq_Nil [simp]: "merge_sort cmp d xs = [] \<longleftrightarrow> xs = []"
  by (metis set_merge_sort set_empty)

lemma merge_sort_Nil [simp]: "merge_sort cmp d [] = []"
  by (simp only: merge_sort_eq_Nil)

section \<open>The contract of a comparison\<close>

text \<open>
  What \<^verbatim>\<open>psync_list_sort\<close> relies on: the sign of the comparison is antisymmetric and transitive.
\<close>

locale list_cmp =
  fixes cmp :: "'a \<Rightarrow> 'a \<Rightarrow> int"
  assumes cmp_anti: "sgn (cmp b a) = - sgn (cmp a b)"
    and cmp_trans: "cmp a b \<le> 0 \<Longrightarrow> cmp b c \<le> 0 \<Longrightarrow> cmp a c \<le> 0"
begin

abbreviation ordered :: "'a list \<Rightarrow> bool" where
  "ordered \<equiv> sorted_wrt (\<lambda>a b. cmp a b \<le> 0)"

abbreviation same :: "'a \<Rightarrow> 'a \<Rightarrow> bool" where
  "same k x \<equiv> cmp k x = 0"

lemma cmp_swap: "cmp a b \<le> 0 \<longleftrightarrow> 0 \<le> cmp b a"
  using cmp_anti [of b a] by (auto simp: sgn_if split: if_splits)

lemma cmp_swap_less: "cmp a b < 0 \<longleftrightarrow> 0 < cmp b a"
  using cmp_swap [of b a] by auto

lemma cmp_swap_eq: "cmp a b = 0 \<longleftrightarrow> cmp b a = 0"
  using cmp_swap [of a b] cmp_swap [of b a] by auto

lemma cmp_trans_less: "cmp a b < 0 \<Longrightarrow> cmp b c \<le> 0 \<Longrightarrow> cmp a c < 0"
proof -
  assume a: "cmp a b < 0" and b: "cmp b c \<le> 0"
  have "\<not> cmp c a \<le> 0"
  proof
    assume "cmp c a \<le> 0"
    then have "cmp b a \<le> 0" using cmp_trans [OF b] by blast
    with a show False using cmp_swap_less [of a b] by simp
  qed
  then show ?thesis using cmp_swap_less [of a c] by simp
qed

lemma same_le: "same k x \<Longrightarrow> cmp k y = 0 \<Longrightarrow> cmp x y = 0"
proof -
  assume a: "same k x" and b: "cmp k y = 0"
  have "cmp x k \<le> 0" "cmp k y \<le> 0" "cmp y k \<le> 0" "cmp k x \<le> 0"
    using a b cmp_swap_eq [of k x] cmp_swap_eq [of k y] by auto
  then have "cmp x y \<le> 0" "cmp y x \<le> 0" using cmp_trans by blast+
  then show ?thesis using cmp_swap [of y x] by auto
qed

lemma ordered_merge:
  "ordered xs \<Longrightarrow> ordered ys \<Longrightarrow> ordered (merge_lists cmp xs ys)"
proof (induction xs ys rule: merge_induct)
  case (Cons x xs y ys)
  then show ?case
  proof (cases "cmp x y \<le> 0")
    case True
    have "cmp x z \<le> 0" if "z \<in> set ys" for z
      by (rule cmp_trans [OF True]) (use that Cons.prems(2) in simp)
    with True Cons show ?thesis by auto
  next
    case False
    then have yx: "cmp y x \<le> 0" using cmp_swap_less [of y x] by simp
    have "cmp y z \<le> 0" if "z \<in> set xs" for z
      by (rule cmp_trans [OF yx]) (use that Cons.prems(1) in simp)
    with yx False Cons show ?thesis by auto
  qed
qed auto

lemma same_below: "cmp k y = 0 \<Longrightarrow> 0 < cmp x y \<Longrightarrow> ordered (x # xs) \<Longrightarrow> filter (same k) (x # xs) = []"
proof (rule filter_False, rule ballI, rule notI)
  fix z assume k: "cmp k y = 0" and x: "0 < cmp x y" and o: "ordered (x # xs)"
    and z: "z \<in> set (x # xs)" "same k z"
  have "cmp z y = 0" using z(2) k by (rule same_le)
  moreover have "cmp x z \<le> 0 \<or> z = x" using o z(1) by auto
  ultimately have "cmp x y \<le> 0" using cmp_trans by force
  with x show False by simp
qed

lemma stable_merge:
  "ordered xs \<Longrightarrow> filter (same k) (merge_lists cmp xs ys) = filter (same k) xs @ filter (same k) ys"
proof (induction xs ys rule: merge_induct)
  case (Cons x xs y ys)
  show ?case
  proof (cases "cmp x y \<le> 0")
    case True
    with Cons show ?thesis by simp
  next
    case False
    then have m: "merge_lists cmp (x # xs) (y # ys) = y # merge_lists cmp (x # xs) ys" by simp
    show ?thesis
    proof (cases "same k y")
      case True
      then have "filter (same k) (x # xs) = []" using same_below [of k y x xs] False Cons.prems by simp
      then show ?thesis unfolding m using Cons by (simp del: filter.simps(2) add: filter.simps(2) [of _ y])
    next
      case n: False
      then show ?thesis unfolding m using Cons by simp
    qed
  qed
qed auto

end

text \<open>\<open>runs\<close>: every chunk of \<open>d\<close> elements of the list is sorted, the state before a pass.\<close>

definition runs :: "('a \<Rightarrow> 'a \<Rightarrow> int) \<Rightarrow> nat \<Rightarrow> 'a list \<Rightarrow> bool" where
  "runs cmp d xs \<longleftrightarrow> (\<forall>k. sorted_wrt (\<lambda>a b. cmp a b \<le> 0) (take d (drop (k * d) xs)))"

lemma runs_step:
  "runs cmp d xs \<longleftrightarrow> sorted_wrt (\<lambda>a b. cmp a b \<le> 0) (take d xs) \<and> runs cmp d (drop d xs)"
proof
  assume r: "runs cmp d xs"
  have "sorted_wrt (\<lambda>a b. cmp a b \<le> 0) (take d (drop (0 * d) xs))"
    using r unfolding runs_def by blast
  moreover have "sorted_wrt (\<lambda>a b. cmp a b \<le> 0) (take d (drop (k * d) (drop d xs)))" for k
  proof -
    have "sorted_wrt (\<lambda>a b. cmp a b \<le> 0) (take d (drop (Suc k * d) xs))"
      using r unfolding runs_def by blast
    then show ?thesis by (simp add: add.commute)
  qed
  ultimately show "sorted_wrt (\<lambda>a b. cmp a b \<le> 0) (take d xs) \<and> runs cmp d (drop d xs)"
    by (simp add: runs_def)
next
  assume a: "sorted_wrt (\<lambda>a b. cmp a b \<le> 0) (take d xs) \<and> runs cmp d (drop d xs)"
  have "sorted_wrt (\<lambda>a b. cmp a b \<le> 0) (take d (drop (k * d) xs))" for k
  proof (cases k)
    case 0
    then show ?thesis using a by simp
  next
    case (Suc j)
    have "sorted_wrt (\<lambda>a b. cmp a b \<le> 0) (take d (drop (j * d) (drop d xs)))"
      using a unfolding runs_def by blast
    then show ?thesis using Suc by (simp add: add.commute)
  qed
  then show "runs cmp d xs" unfolding runs_def by blast
qed

lemma runs_Nil [simp]: "runs cmp d []"
  by (simp add: runs_def)

lemma runs_short: "length xs \<le> d \<Longrightarrow> runs cmp d xs \<longleftrightarrow> sorted_wrt (\<lambda>a b. cmp a b \<le> 0) xs"
  by (subst runs_step) simp

lemma runs_1: "runs cmp 1 xs"
proof (induction xs)
  case (Cons x xs)
  then show ?case by (subst runs_step) simp
qed simp

context list_cmp
begin

lemma runs_merge_pass:
  assumes "0 < d" and "runs cmp d xs"
  shows "runs cmp (2 * d) (merge_pass cmp d xs)"
  using assms
proof (induction "length xs" arbitrary: xs rule: less_induct)
  case less
  show ?case
  proof (cases "length xs \<le> d")
    case True
    then show ?thesis
      using less.prems by (simp add: merge_pass.simps runs_short)
  next
    case False
    let ?m = "merge_lists cmp (take d xs) (take d (drop d xs))"
    have o: "ordered (take d xs)" "ordered (take d (drop d xs))" "runs cmp d (drop (2 * d) xs)"
      using less.prems runs_step [of cmp d xs] runs_step [of cmp d "drop d xs"]
      by (simp_all add: mult_2)
    then have m: "ordered ?m" by (simp add: ordered_merge)
    have split: "merge_pass cmp d xs = ?m @ merge_pass cmp d (drop (2 * d) xs)"
      using False less.prems by (simp add: merge_pass.simps [of cmp d xs])
    show ?thesis
    proof (cases "length xs \<le> 2 * d")
      case True
      then have "merge_pass cmp d xs = ?m" using split by (simp add: merge_pass.simps)
      with m True show ?thesis by (simp add: runs_short)
    next
      case False2: False
      have len: "length ?m = 2 * d" using False2 by simp
      have "runs cmp (2 * d) (merge_pass cmp d (drop (2 * d) xs))"
        using less.hyps [of "drop (2 * d) xs"] less.prems False2 o(3) by simp
      with m len split show ?thesis by (subst runs_step) simp
    qed
  qed
qed

lemma stable_merge_pass:
  assumes "0 < d" and "runs cmp d xs"
  shows "filter (same k) (merge_pass cmp d xs) = filter (same k) xs"
  using assms
proof (induction "length xs" arbitrary: xs rule: less_induct)
  case less
  show ?case
  proof (cases "length xs \<le> d")
    case True
    then show ?thesis by (simp add: merge_pass.simps)
  next
    case False
    let ?m = "merge_lists cmp (take d xs) (take d (drop d xs))"
    have o: "ordered (take d xs)" "runs cmp d (drop (2 * d) xs)"
      using less.prems runs_step [of cmp d xs] runs_step [of cmp d "drop d xs"]
      by (simp_all add: mult_2)
    have ih: "filter (same k) (merge_pass cmp d (drop (2 * d) xs)) = filter (same k) (drop (2 * d) xs)"
      using less.hyps [of "drop (2 * d) xs"] less.prems False o(2) by simp
    have split: "merge_pass cmp d xs = ?m @ merge_pass cmp d (drop (2 * d) xs)"
      using False less.prems by (simp add: merge_pass.simps [of cmp d xs])
    have "filter (same k) (merge_pass cmp d xs)
        = filter (same k) (take d xs @ take d (drop d xs) @ drop (2 * d) xs)"
      unfolding split filter_append stable_merge [OF o(1)] ih by simp
    also have "take d xs @ take d (drop d xs) @ drop (2 * d) xs = xs"
      unfolding mult_2 drop_drop [symmetric] append_take_drop_id ..
    finally show ?thesis .
  qed
qed

lemma merge_sort_runs:
  assumes "0 < d" and "runs cmp d xs"
  shows "ordered (merge_sort cmp d xs) \<and> filter (same k) (merge_sort cmp d xs) = filter (same k) xs"
  using assms
proof (induction "length xs - d" arbitrary: d xs rule: less_induct)
  case less
  show ?case
  proof (cases "length xs \<le> 2 * d")
    case True
    have "runs cmp (2 * d) (merge_pass cmp d xs)" using runs_merge_pass less.prems by blast
    then have "ordered (merge_pass cmp d xs)" using True by (simp add: runs_short)
    then show ?thesis using True stable_merge_pass less.prems by (simp add: merge_sort.simps)
  next
    case False
    have "ordered (merge_sort cmp (d * 2) (merge_pass cmp d xs)) \<and>
        filter (same k) (merge_sort cmp (d * 2) (merge_pass cmp d xs)) = filter (same k) (merge_pass cmp d xs)"
      using False less.prems runs_merge_pass [of d xs]
      by (intro less.hyps) (simp_all add: mult.commute)
    then show ?thesis using False less.prems stable_merge_pass [of d xs k]
      by (simp add: merge_sort.simps [of cmp d xs])
  qed
qed

lemmas ordered_merge_sort = merge_sort_runs [OF zero_less_one runs_1, THEN conjunct1]
lemmas stable_merge_sort = merge_sort_runs [OF zero_less_one runs_1, THEN conjunct2]

end

section \<open>Chains of nodes\<close>

text \<open>\<open>seg nx p xs q\<close>: following the links from \<open>p\<close> visits the nodes \<open>xs\<close> and arrives at \<open>q\<close>.\<close>

fun seg :: "(addr \<Rightarrow> addr) \<Rightarrow> addr \<Rightarrow> addr list \<Rightarrow> addr \<Rightarrow> bool" where
  "seg nx p [] q \<longleftrightarrow> p = q"
| "seg nx p (x # xs) q \<longleftrightarrow> p = x \<and> seg nx (nx x) xs q"

lemma seg_append: "seg nx p (xs @ ys) q \<longleftrightarrow> (\<exists>r. seg nx p xs r \<and> seg nx r ys q)"
  by (induction xs arbitrary: p) auto

lemma seg_frame: "\<forall>x\<in>set xs. nx' x = nx x \<Longrightarrow> seg nx' p xs q \<longleftrightarrow> seg nx p xs q"
  by (induction xs arbitrary: p) auto

lemma seg_upd [simp]: "a \<notin> set xs \<Longrightarrow> seg (nx(a := v)) p xs q \<longleftrightarrow> seg nx p xs q"
  by (rule seg_frame) auto

lemma seg_snoc: "seg nx p (xs @ [x]) q \<longleftrightarrow> seg nx p xs x \<and> nx x = q"
  by (auto simp: seg_append)

lemma seg_start: "seg nx p xs q \<Longrightarrow> xs \<noteq> [] \<Longrightarrow> p = hd xs"
  by (cases xs) auto

lemma seg_zero: "seg nx p xs 0 \<Longrightarrow> 0 \<notin> set xs \<Longrightarrow> p = 0 \<longleftrightarrow> xs = []"
  by (cases xs) auto

fun tail_at :: "tail_ptr \<Rightarrow> addr \<Rightarrow> (addr \<Rightarrow> addr) \<Rightarrow> addr list \<Rightarrow> bool" where
  "tail_at TLs ls nx out \<longleftrightarrow> out = []"
| "tail_at (TNext t) ls nx out \<longleftrightarrow> (\<exists>xs. out = xs @ [t] \<and> seg nx ls xs t)"

lemma put_tail_seg:
  assumes "tail_at tp ls nx out" and "distinct out" and "put_tail tp v ls nx = (ls', nx')"
  shows "seg nx' ls' out v" and "\<forall>a. a \<notin> set out \<longrightarrow> nx' a = nx a"
  using assms by (cases tp; auto simp: seg_append)+

lemma tail_at_last: "seg nx ls (xs @ [t]) r \<Longrightarrow> tail_at (TNext t) ls nx (xs @ [t])"
  by (simp add: seg_snoc)

lemma tail_at_lastI: "seg nx ls xs r \<Longrightarrow> xs \<noteq> [] \<Longrightarrow> t = last xs \<Longrightarrow> tail_at (TNext t) ls nx xs"
  using tail_at_last [of nx ls "butlast xs" "last xs" r] by simp

lemma advance_seg:
  "seg nx p xs 0 \<Longrightarrow> 0 \<notin> set xs \<Longrightarrow>
   \<exists>q. advance nx d i p = (i + min d (length xs), q) \<and> seg nx p (take d xs) q \<and> seg nx q (drop d xs) 0"
proof (induction d arbitrary: i p xs)
  case 0
  then show ?case by simp
next
  case (Suc d)
  show ?case
  proof (cases xs)
    case Nil
    with Suc.prems show ?thesis by simp
  next
    case (Cons x ys)
    with Suc.prems have "seg nx (nx x) ys 0" "0 \<notin> set ys" "p = x" "x \<noteq> 0" by auto
    then show ?thesis using Suc.IH [of "nx x" ys "Suc i"] Cons by simp
  qed
qed

lemma skip_next_last: "seg nx p xs z \<Longrightarrow> xs \<noteq> [] \<Longrightarrow> skip_next nx (length xs - 1) p = last xs"
proof (induction xs arbitrary: p)
  case (Cons x xs)
  then show ?case by (cases xs) auto
qed simp

lemma skip_to_last_seg:
  "seg nx p xs 0 \<Longrightarrow> 0 \<notin> set xs \<Longrightarrow> xs \<noteq> [] \<Longrightarrow>
   skip_to_last nx n p = last (take (Suc n) xs) \<and>
   seg nx (nx (skip_to_last nx n p)) (drop (Suc n) xs) 0"
proof (induction n arbitrary: p xs)
  case 0
  then show ?case by (cases xs) auto
next
  case (Suc n)
  then obtain x ys where xs: "xs = x # ys" and p: "p = x" "seg nx (nx x) ys 0" "0 \<notin> set ys"
    by (cases xs) auto
  show ?case
  proof (cases ys)
    case Nil
    then show ?thesis using xs p by simp
  next
    case (Cons y zs)
    then have nz: "nx x \<noteq> 0" using p by auto
    have "skip_to_last nx n (nx x) = last (take (Suc n) ys) \<and>
        seg nx (nx (skip_to_last nx n (nx x))) (drop (Suc n) ys) 0"
      using Suc.IH [of "nx x" ys] p Cons by blast
    moreover have "skip_to_last nx (Suc n) p = skip_to_last nx n (nx x)" using p(1) nz by simp
    moreover have "last (take (Suc (Suc n)) xs) = last (take (Suc n) ys)" using xs Cons by simp
    moreover have "drop (Suc (Suc n)) xs = drop (Suc n) ys" using xs by simp
    ultimately show ?thesis by metis
  qed
qed

lemma merge_runs_correct:
  assumes "tail_at tp ls nx out" and "seg nx l1 xs z" and "xs \<noteq> []" and "l1len = length xs"
    and "seg nx l2 ys 0" and "ys \<noteq> []" and "0 < l2len"
    and "distinct (out @ xs @ ys)" and "0 \<notin> set (xs @ ys)"
  shows "\<exists>r tp' ls' nx'. merge_runs cmp l1len l2len l1 l2 tp ls nx = (r, tp', ls', nx') \<and>
    tail_at tp' ls' nx' (out @ merge_lists cmp xs (take l2len ys)) \<and>
    seg nx' r (drop l2len ys) 0 \<and>
    (\<forall>a. a \<notin> set (out @ xs @ ys) \<longrightarrow> nx' a = nx a)"
  using assms
proof (induction "l1len + l2len" arbitrary: tp ls nx out l1 xs l1len l2 ys l2len rule: less_induct)
  case less
  obtain x xs' where xs: "xs = x # xs'" using less.prems(3) by (cases xs) auto
  obtain y ys' where ys: "ys = y # ys'" using less.prems(6) by (cases ys) auto
  obtain k where k: "l2len = Suc k" using less.prems(7) by (cases l2len) auto
  have l12: "l1 = x" "l2 = y" using less.prems(2,5) xs ys by auto
  have dist: "distinct out" using less.prems(8) by simp
  show ?case
  proof (cases "cmp x y \<le> 0")
    case True
    obtain ls1 nx1 where pt: "put_tail tp x ls nx = (ls1, nx1)" by fastforce
    note p = put_tail_seg [OF less.prems(1) dist pt]
    have fr: "nx1 a = nx a" if "a \<in> set (xs @ ys)" for a
      using p(2) that less.prems(8) by auto
    have s1: "seg nx1 x xs z" using less.prems(2) l12 fr seg_frame [of xs nx1 nx] by auto
    have s2: "seg nx1 y ys 0" using less.prems(5) l12 fr seg_frame [of ys nx1 nx] by auto
    show ?thesis
    proof (cases xs')
      case Nil
      define nx2 where "nx2 = nx1(x := y)"
      have xout: "x \<notin> set out" "x \<notin> set ys" using less.prems(8) xs by auto
      have o2: "seg nx2 ls1 (out @ [x]) y" unfolding nx2_def using p(1) xout by (simp add: seg_snoc)
      have y2: "seg nx2 y ys 0" unfolding nx2_def using s2 xout by simp
      define e where "e = skip_to_last nx2 k y"
      have e: "e = last (take (Suc k) ys)" "seg nx2 (nx2 e) (drop (Suc k) ys) 0"
        using skip_to_last_seg [OF y2, of k] less.prems(9) less.prems(6) unfolding e_def by auto
      obtain r where r: "seg nx2 y (take (Suc k) ys) r"
        using y2 seg_append [of nx2 y "take (Suc k) ys" "drop (Suc k) ys" 0] by auto
      have "seg nx2 ls1 ((out @ [x]) @ take (Suc k) ys) r" using o2 r seg_append by blast
      then have t: "tail_at (TNext e) ls1 nx2 ((out @ [x]) @ take (Suc k) ys)"
        by (rule tail_at_lastI) (use e(1) ys in auto)
      have "merge_runs cmp l1len l2len l1 l2 tp ls nx = (nx2 e, TNext e, ls1, nx2)"
        using True pt l12 Nil xs less.prems(4) k
        by (subst merge_runs.simps) (simp add: nx2_def e_def Let_def)
      moreover have "merge_lists cmp xs (take l2len ys) = x # take (Suc k) ys"
        using True xs ys k Nil by simp
      moreover have "nx2 a = nx a" if "a \<notin> set (out @ xs @ ys)" for a
        using that p(2) xs unfolding nx2_def by auto
      ultimately show ?thesis using t e(2) k by simp
    next
      case (Cons x2 xs2)
      have "\<exists>r tp' ls' nx'. merge_runs cmp (l1len - 1) l2len (nx1 x) y (TNext x) ls1 nx1 = (r, tp', ls', nx') \<and>
          tail_at tp' ls' nx' ((out @ [x]) @ merge_lists cmp xs' (take l2len ys)) \<and>
          seg nx' r (drop l2len ys) 0 \<and>
          (\<forall>a. a \<notin> set ((out @ [x]) @ xs' @ ys) \<longrightarrow> nx' a = nx1 a)"
        using less.prems s1 s2 p(1) xs Cons by (intro less.hyps) auto
      then obtain r tp' ls' nx' where
        m: "merge_runs cmp (l1len - 1) l2len (nx1 x) y (TNext x) ls1 nx1 = (r, tp', ls', nx')"
        and t: "tail_at tp' ls' nx' ((out @ [x]) @ merge_lists cmp xs' (take l2len ys))"
        and r: "seg nx' r (drop l2len ys) 0"
        and f: "\<forall>a. a \<notin> set ((out @ [x]) @ xs' @ ys) \<longrightarrow> nx' a = nx1 a" by blast
      have "merge_runs cmp l1len l2len l1 l2 tp ls nx = (r, tp', ls', nx')"
        using True pt l12 m xs Cons less.prems(4) by (subst merge_runs.simps) simp
      moreover have "merge_lists cmp xs (take l2len ys) = x # merge_lists cmp xs' (take l2len ys)"
        using True xs ys k by simp
      moreover have "nx' a = nx a" if "a \<notin> set (out @ xs @ ys)" for a
        using that f p(2) xs by auto
      ultimately show ?thesis using t r by simp
    qed
  next
    case False
    obtain ls1 nx1 where pt: "put_tail tp y ls nx = (ls1, nx1)" by fastforce
    note p = put_tail_seg [OF less.prems(1) dist pt]
    have fr: "nx1 a = nx a" if "a \<in> set (xs @ ys)" for a
      using p(2) that less.prems(8) by auto
    have s1: "seg nx1 x xs z" using less.prems(2) l12 fr seg_frame [of xs nx1 nx] by auto
    have s2: "seg nx1 y ys 0" using less.prems(5) l12 fr seg_frame [of ys nx1 nx] by auto
    have n0: "nx1 y = 0 \<longleftrightarrow> ys' = []" using s2 ys less.prems(9) seg_zero [of nx1 "nx1 y" ys'] by auto
    have yout: "y \<notin> set out" "y \<notin> set xs" "y \<notin> set ys'" using less.prems(8) ys by auto
    show ?thesis
    proof (cases "k = 0 \<or> nx1 y = 0")
      case fin: True
      define nx2 where "nx2 = nx1(y := x)"
      have o2: "seg nx2 ls1 (out @ [y]) x" unfolding nx2_def using p(1) yout by (simp add: seg_snoc)
      have x2: "seg nx2 x xs z" unfolding nx2_def using s1 yout by simp
      define e where "e = skip_next nx2 (length xs - 1) x"
      have e: "e = last xs" unfolding e_def using skip_next_last x2 less.prems(3) by blast
      have "seg nx2 ls1 ((out @ [y]) @ xs) z" using o2 x2 seg_append by blast
      then have t: "tail_at (TNext e) ls1 nx2 ((out @ [y]) @ xs)"
        by (rule tail_at_lastI) (use e xs in auto)
      have tk: "take l2len ys = [y]" "drop l2len ys = ys'" using fin n0 ys k by auto
      have r: "seg nx2 (nx1 y) (drop l2len ys) 0" using s2 ys yout unfolding nx2_def tk(2) by simp
      have "merge_runs cmp l1len l2len l1 l2 tp ls nx = (nx1 y, TNext e, ls1, nx2)"
        using False pt l12 fin k less.prems(4)
        by (subst merge_runs.simps) (simp add: nx2_def e_def Let_def)
      moreover have "merge_lists cmp xs (take l2len ys) = y # xs"
        using False xs tk by simp
      moreover have "nx2 a = nx a" if "a \<notin> set (out @ xs @ ys)" for a
        using that p(2) ys unfolding nx2_def by auto
      ultimately show ?thesis using t r by simp
    next
      case more: False
      have "\<exists>r tp' ls' nx'. merge_runs cmp l1len k x (nx1 y) (TNext y) ls1 nx1 = (r, tp', ls', nx') \<and>
          tail_at tp' ls' nx' ((out @ [y]) @ merge_lists cmp xs (take k ys')) \<and>
          seg nx' r (drop k ys') 0 \<and>
          (\<forall>a. a \<notin> set ((out @ [y]) @ xs @ ys') \<longrightarrow> nx' a = nx1 a)"
        using less.prems s1 s2 p(1) ys k more n0 by (intro less.hyps) auto
      then obtain r tp' ls' nx' where
        m: "merge_runs cmp l1len k x (nx1 y) (TNext y) ls1 nx1 = (r, tp', ls', nx')"
        and t: "tail_at tp' ls' nx' ((out @ [y]) @ merge_lists cmp xs (take k ys'))"
        and r: "seg nx' r (drop k ys') 0"
        and f: "\<forall>a. a \<notin> set ((out @ [y]) @ xs @ ys') \<longrightarrow> nx' a = nx1 a" by blast
      have "merge_runs cmp l1len l2len l1 l2 tp ls nx = (r, tp', ls', nx')"
        using False pt l12 m k more by (subst merge_runs.simps) simp
      moreover have "merge_lists cmp xs (take l2len ys) = y # merge_lists cmp xs (take k ys')"
        using False xs ys k by simp
      moreover have "nx' a = nx a" if "a \<notin> set (out @ xs @ ys)" for a
        using that f p(2) ys by auto
      ultimately show ?thesis using t r ys k by simp
    qed
  qed
qed

text \<open>
  One pass over the list merges neighbouring runs; the passes with doubled depth return, because
  the depth reaches the length of the list.
\<close>

lemma pass_loop_correct:
  assumes "tail_at tp ls nx out" and "seg nx l1 xs 0" and "0 < d"
    and "distinct (out @ xs)" and "0 \<notin> set xs"
  shows "\<exists>ls' nx'. pass_loop cmp d cnt l1 tp ls nx = Some (cnt + pass_count d (length xs), ls', nx') \<and>
    seg nx' ls' (out @ merge_pass cmp d xs) 0 \<and> (\<forall>a. a \<notin> set (out @ xs) \<longrightarrow> nx' a = nx a)"
  using assms
proof (induction "length xs" arbitrary: tp ls nx out l1 xs cnt rule: less_induct)
  case less
  have z: "l1 = 0 \<longleftrightarrow> xs = []" using seg_zero less.prems(2,5) by blast
  have dist: "distinct out" using less.prems(4) by simp
  obtain q where adv: "advance nx d 0 l1 = (min d (length xs), q)"
    and s1: "seg nx l1 (take d xs) q" and s2: "seg nx q (drop d xs) 0"
    using advance_seg [OF less.prems(2,5), of d 0] by auto
  have "0 \<notin> set (drop d xs)" using less.prems(5) by (meson in_set_dropD)
  then have q0: "q = 0 \<longleftrightarrow> length xs \<le> d" using seg_zero [OF s2] by simp
  show ?case
  proof (cases "length xs \<le> d")
    case True
    have "\<exists>ls' nx'. put_tail tp l1 ls nx = (ls', nx')" by (metis surj_pair)
    then obtain ls' nx' where pt: "put_tail tp l1 ls nx = (ls', nx')" by blast
    note p = put_tail_seg [OF less.prems(1) dist pt]
    have "\<forall>x\<in>set xs. nx' x = nx x" using less.prems(4) p(2) by auto
    then have "seg nx' l1 xs 0" using less.prems(2) seg_frame by blast
    then have "seg nx' ls' (out @ xs) 0" using p(1) seg_append by blast
    moreover have "pass_loop cmp d cnt l1 tp ls nx = Some (cnt + pass_count d (length xs), ls', nx')"
      using True z q0 adv pt by (subst pass_loop.simps) (auto simp: pass_count.simps)
    ultimately show ?thesis using p(2) True by (auto simp: merge_pass.simps)
  next
    case False
    then have ne: "take d xs \<noteq> []" "drop d xs \<noteq> []" using less.prems(3) by auto
    have parts: "take d xs @ drop d xs = xs" by simp
    have prem: "distinct (out @ take d xs @ drop d xs)" "0 \<notin> set (take d xs @ drop d xs)"
      using less.prems(4,5) unfolding parts by blast+
    obtain r tp1 ls1 nx1 where
      m: "merge_runs cmp (length (take d xs)) d l1 q tp ls nx = (r, tp1, ls1, nx1)"
      and t: "tail_at tp1 ls1 nx1 (out @ merge_lists cmp (take d xs) (take d (drop d xs)))"
      and sr: "seg nx1 r (drop d (drop d xs)) 0"
      and f: "\<forall>a. a \<notin> set (out @ take d xs @ drop d xs) \<longrightarrow> nx1 a = nx a"
      using merge_runs_correct [OF less.prems(1) s1 ne(1) refl s2 ne(2) less.prems(3) prem] by blast
    let ?m = "merge_lists cmp (take d xs) (take d (drop d xs))"
    let ?rest = "drop d (drop d xs)"
    have whole: "mset ?m + mset ?rest = mset xs"
      unfolding mset_merge_lists mset_append [symmetric] append.assoc append_take_drop_id ..
    have "mset (out @ xs) = mset ((out @ ?m) @ ?rest)" using whole by (simp add: add.assoc)
    then have "distinct ((out @ ?m) @ ?rest)" using less.prems(4) mset_eq_imp_distinct_iff by blast
    moreover have "0 \<notin> set ?rest" using less.prems(5) by (meson in_set_dropD)
    moreover have "length ?rest < length xs" using False less.prems(3) by simp
    ultimately obtain ls' nx' where
      pl: "pass_loop cmp d (cnt + 1) r tp1 ls1 nx1 = Some (cnt + 1 + pass_count d (length ?rest), ls', nx')"
      and s': "seg nx' ls' ((out @ ?m) @ merge_pass cmp d ?rest) 0"
      and f': "\<forall>a. a \<notin> set ((out @ ?m) @ ?rest) \<longrightarrow> nx' a = nx1 a"
      using less.hyps [OF _ t sr less.prems(3), of "cnt + 1"] by blast
    have sets: "set ((out @ ?m) @ ?rest) = set (out @ xs)"
      using whole by (metis mset_append set_append set_mset_mset append.assoc)
    have "pass_loop cmp d cnt l1 tp ls nx = Some (cnt + pass_count d (length xs), ls', nx')"
      using False z q0 adv m pl less.prems(3)
      by (subst pass_loop.simps) (auto simp: pass_count.simps [of d "length xs"] mult_2)
    moreover have "merge_pass cmp d xs = ?m @ merge_pass cmp d ?rest"
      using False less.prems(3) by (subst merge_pass.simps) (simp add: mult_2)
    moreover have "nx' a = nx a" if "a \<notin> set (out @ xs)" for a
      using that f f' sets parts by (metis append.assoc)
    ultimately show ?thesis using s' by simp
  qed
qed

lemma sort_loop_correct:
  assumes "seg nx ls xs 0" and "0 < d" and "distinct xs" and "0 \<notin> set xs"
  shows "\<exists>ls' nx'. sort_loop cmp d ls nx = Some (ls', nx') \<and>
    seg nx' ls' (merge_sort cmp d xs) 0 \<and> (\<forall>a. a \<notin> set xs \<longrightarrow> nx' a = nx a)"
  using assms
proof (induction "length xs - d" arbitrary: ls nx xs d rule: less_induct)
  case less
  have t: "tail_at TLs ls nx []" by simp
  obtain ls1 nx1 where pl: "pass_loop cmp d 0 ls TLs ls nx = Some (pass_count d (length xs), ls1, nx1)"
    and s1: "seg nx1 ls1 (merge_pass cmp d xs) 0"
    and f1: "\<forall>a. a \<notin> set xs \<longrightarrow> nx1 a = nx a"
    using pass_loop_correct [OF t less.prems(1,2), of cmp 0] less.prems(3,4) by auto
  show ?case
  proof (cases "length xs \<le> 2 * d")
    case True
    then show ?thesis using pl s1 f1 pass_count_le_1 [OF less.prems(2)]
      by (subst sort_loop.simps) (simp add: merge_sort.simps [of cmp d xs])
  next
    case False
    let ?ys = "merge_pass cmp d xs"
    have "distinct ?ys" using less.prems(3) mset_merge_pass mset_eq_imp_distinct_iff by blast
    moreover have "0 \<notin> set ?ys" using less.prems(4) by simp
    moreover have "length ?ys - d * 2 < length xs - d" using False less.prems(2) by simp
    ultimately obtain ls' nx' where sl: "sort_loop cmp (d * 2) ls1 nx1 = Some (ls', nx')"
      and s': "seg nx' ls' (merge_sort cmp (d * 2) ?ys) 0"
      and f': "\<forall>a. a \<notin> set ?ys \<longrightarrow> nx' a = nx1 a"
      using less.hyps [OF _ s1, of "d * 2"] less.prems(2) by auto
    have "sort_loop cmp d ls nx = Some (ls', nx')"
      using pl sl False pass_count_le_1 [OF less.prems(2), of "length xs"]
      by (subst sort_loop.simps) simp
    moreover have "merge_sort cmp d xs = merge_sort cmp (d * 2) ?ys"
      using False less.prems(2) by (simp add: merge_sort.simps [of cmp d xs])
    ultimately show ?thesis using s' f' f1 by simp
  qed
qed

section \<open>Circular lists\<close>

fun linked :: "lheap \<Rightarrow> addr list \<Rightarrow> bool" where
  "linked h (x # y # zs) \<longleftrightarrow> nxt h x = y \<and> prv h y = x \<and> linked h (y # zs)"
| "linked h _ \<longleftrightarrow> True"

definition dlist :: "lheap \<Rightarrow> addr \<Rightarrow> addr list \<Rightarrow> bool" where
  "dlist h l xs \<longleftrightarrow> distinct (l # xs) \<and> 0 \<notin> set (l # xs) \<and> linked h (l # xs @ [l])"

definition same_off :: "addr set \<Rightarrow> lheap \<Rightarrow> lheap \<Rightarrow> bool" where
  "same_off A h h' \<longleftrightarrow> (\<forall>a. a \<notin> A \<longrightarrow> nxt h' a = nxt h a \<and> prv h' a = prv h a)"

lemma linked_append: "linked h (xs @ x # ys) \<longleftrightarrow> linked h (xs @ [x]) \<and> linked h (x # ys)"
  by (induction h xs rule: linked.induct) (cases ys; auto)+

lemma linked_frame:
  "\<forall>x\<in>set (butlast zs). nxt h' x = nxt h x \<Longrightarrow> \<forall>x\<in>set (tl zs). prv h' x = prv h x \<Longrightarrow>
   linked h' zs \<longleftrightarrow> linked h zs"
proof (induction h zs rule: linked.induct)
  case (1 h x y zs)
  then have "linked h' (y # zs) \<longleftrightarrow> linked h (y # zs)" by (cases zs) auto
  with 1 show ?case by simp
qed auto

lemma dlist_frame:
  "same_off A h h' \<Longrightarrow> set (l # xs) \<inter> A = {} \<Longrightarrow> dlist h l xs \<Longrightarrow> dlist h' l xs"
proof -
  assume s: "same_off A h h'" and d: "set (l # xs) \<inter> A = {}" and h: "dlist h l xs"
  have "linked h' (l # xs @ [l]) \<longleftrightarrow> linked h (l # xs @ [l])"
    by (rule linked_frame) (use s d in \<open>auto simp: same_off_def\<close>)
  with h show ?thesis by (simp add: dlist_def)
qed

lemma same_off_refl [simp]: "same_off A h h"
  by (simp add: same_off_def)

lemma same_off_trans: "same_off A h h1 \<Longrightarrow> same_off B h1 h2 \<Longrightarrow> same_off (A \<union> B) h h2"
  by (simp add: same_off_def)

lemma same_off_mono: "same_off A h h' \<Longrightarrow> A \<subseteq> B \<Longrightarrow> same_off B h h'"
  by (auto simp: same_off_def)

lemma linked_add:
  assumes "linked h (ps @ p # n # ns)" and "p \<notin> set ps" and "n \<notin> set ns"
    and "n \<notin> set (tl (ps @ [p]))" and "p \<notin> set (butlast (n # ns))" and "a \<notin> set (ps @ p # n # ns)"
  shows "linked (psync_list_add_between p n a h) (ps @ p # a # n # ns)"
proof -
  let ?h = "psync_list_add_between p n a h"
  have h: "linked h (ps @ [p])" "linked h (n # ns)"
    using assms(1) linked_append [of h ps p "n # ns"] by (auto simp: linked_append [of h "[p]" n])
  have sub: "set (tl (ps @ [p])) \<subseteq> set (ps @ [p])" by (cases ps) auto
  have "linked ?h (ps @ [p]) \<longleftrightarrow> linked h (ps @ [p])"
    by (rule linked_frame) (use assms sub in \<open>auto simp: psync_list_add_between_def\<close>)
  moreover have "linked ?h (n # ns) \<longleftrightarrow> linked h (n # ns)"
    by (rule linked_frame) (use assms in \<open>auto simp: psync_list_add_between_def dest: in_set_butlastD\<close>)
  moreover have "nxt ?h p = a" "prv ?h a = p" "nxt ?h a = n" "prv ?h n = a"
    using assms(6) by (auto simp: psync_list_add_between_def)
  ultimately show ?thesis using h linked_append [of ?h ps p "a # n # ns"] by simp
qed

lemma linked_del:
  assumes "linked h (ps @ p # a # n # ns)" and "p \<notin> set ps" and "n \<notin> set ns"
    and "n \<notin> set (tl (ps @ [p]))" and "p \<notin> set (butlast (n # ns))" and "a \<notin> set (ps @ p # n # ns)"
  shows "linked (psync_list_del a h) (ps @ p # n # ns)"
proof -
  let ?h = "psync_list_del a h"
  have l: "nxt h a = n" "prv h a = p" and h: "linked h (ps @ [p])" "linked h (n # ns)"
    using assms(1) linked_append [of h ps p "a # n # ns"] by auto
  have d: "?h = set_nxt p n (set_prv n p h)"
    using l assms(6) by (auto simp: psync_list_del_def Let_def)
  have "linked ?h (ps @ [p]) \<longleftrightarrow> linked h (ps @ [p])"
    by (rule linked_frame) (use assms in \<open>auto simp: d\<close>)
  moreover have "linked ?h (n # ns) \<longleftrightarrow> linked h (n # ns)"
    by (rule linked_frame) (use assms in \<open>auto simp: d dest: in_set_butlastD\<close>)
  moreover have "nxt ?h p = n" "prv ?h n = p" by (auto simp: d)
  ultimately show ?thesis using h linked_append [of ?h ps p "n # ns"] by simp
qed

lemma dlist_add_between:
  assumes "dlist h l (xs @ ys)" and "a \<notin> set (l # xs @ ys)" and "a \<noteq> 0"
  shows "dlist (psync_list_add_between (last (l # xs)) (hd (ys @ [l])) a h) l (xs @ a # ys)"
proof -
  obtain ps p where p: "l # xs = ps @ [p]" by (metis append_butlast_last_id list.distinct(1))
  obtain n ns where n: "ys @ [l] = n # ns" by (metis append_is_Nil_conv list.distinct(1) list.exhaust)
  have eq: "l # (xs @ ys) @ [l] = ps @ p # n # ns" "l # (xs @ a # ys) @ [l] = ps @ p # a # n # ns"
    using p n by (metis append.assoc append_Cons append_Nil)+
  have tl: "tl (ps @ [p]) = xs" "butlast (n # ns) = ys" using p n by (metis list.sel(3), metis butlast_snoc)
  have dist: "distinct (ps @ [p])" "distinct (n # ns)" "set (ps @ [p]) \<inter> set ys = {}"
    using assms(1) unfolding p [symmetric] n [symmetric] dlist_def by auto
  have nxs: "n \<notin> set xs"
    using assms(1) n unfolding dlist_def by (cases ys) auto
  have all: "a \<notin> set (ps @ p # n # ns)" unfolding eq(1) [symmetric] using assms(2) by auto
  have "linked (psync_list_add_between p n a h) (ps @ p # a # n # ns)"
  proof (rule linked_add)
    show "linked h (ps @ p # n # ns)" using assms(1) unfolding dlist_def eq(1) [symmetric] by simp
    show "p \<notin> set (butlast (n # ns))" unfolding tl using dist by auto
    show "n \<notin> set (tl (ps @ [p]))" unfolding tl using nxs .
  qed (use dist all in auto)
  moreover have "last (l # xs) = p" "hd (ys @ [l]) = n" using p n by simp_all
  ultimately show ?thesis using assms eq by (auto simp: dlist_def)
qed

lemma dlist_del:
  assumes "dlist h l (xs @ a # ys)"
  shows "dlist (psync_list_del a h) l (xs @ ys)"
proof -
  obtain ps p where p: "l # xs = ps @ [p]" by (metis append_butlast_last_id list.distinct(1))
  obtain n ns where n: "ys @ [l] = n # ns" by (metis append_is_Nil_conv list.distinct(1) list.exhaust)
  have eq: "l # (xs @ ys) @ [l] = ps @ p # n # ns" "l # (xs @ a # ys) @ [l] = ps @ p # a # n # ns"
    using p n by (metis append.assoc append_Cons append_Nil)+
  have tl: "tl (ps @ [p]) = xs" "butlast (n # ns) = ys" using p n by (metis list.sel(3), metis butlast_snoc)
  have dist: "distinct (ps @ [p])" "distinct (n # ns)" "set (ps @ [p]) \<inter> set ys = {}"
    using assms(1) unfolding p [symmetric] n [symmetric] dlist_def by auto
  have nxs: "n \<notin> set xs"
    using assms(1) n unfolding dlist_def by (cases ys) auto
  have all: "a \<notin> set (ps @ p # n # ns)" unfolding eq(1) [symmetric] using assms(1) by (auto simp: dlist_def)
  have "linked (psync_list_del a h) (ps @ p # n # ns)"
  proof (rule linked_del)
    show "linked h (ps @ p # a # n # ns)" using assms(1) unfolding dlist_def eq(2) [symmetric] by simp
    show "p \<notin> set (butlast (n # ns))" unfolding tl using dist by auto
    show "n \<notin> set (tl (ps @ [p]))" unfolding tl using nxs .
  qed (use dist all in auto)
  then show ?thesis using assms eq by (auto simp: dlist_def)
qed

lemma dlist_nxt_head: "dlist h l xs \<Longrightarrow> nxt h l = hd (xs @ [l])"
  by (cases xs) (auto simp: dlist_def)

lemma dlist_split:
  assumes "dlist h l (xs @ a # ys)"
  shows "nxt h a = hd (ys @ [l])" and "prv h a = last (l # xs)"
proof -
  have l: "linked h ((l # xs) @ a # ys @ [l])" using assms by (simp add: dlist_def)
  have "linked h (a # ys @ [l])" using l linked_append [of h "l # xs" a "ys @ [l]"] by simp
  then show "nxt h a = hd (ys @ [l])" by (cases ys) auto
  obtain ps p where p: "l # xs = ps @ [p]" by (metis append_butlast_last_id list.distinct(1))
  have "linked h (ps @ p # a # ys @ [l])" using l unfolding p by simp
  then have "linked h (p # a # ys @ [l])" using linked_append [of h ps p] by blast
  then show "prv h a = last (l # xs)" unfolding p by simp
qed

lemma dlist_prv_head: "dlist h l xs \<Longrightarrow> prv h l = last (l # xs)"
proof -
  assume d: "dlist h l xs"
  obtain ps p where p: "l # xs = ps @ [p]" by (metis append_butlast_last_id list.distinct(1))
  have "linked h ((l # xs) @ [l])" using d by (simp add: dlist_def)
  then have "linked h (ps @ p # [l])" unfolding p by simp
  then have "linked h (p # [l])" using linked_append [of h ps p] by blast
  then show ?thesis unfolding p by simp
qed

lemma dlist_init: "l \<noteq> 0 \<Longrightarrow> dlist (psync_list_init l h) l []"
  by (simp add: dlist_def psync_list_init_def)

lemma dlist_isempty: "dlist h l xs \<Longrightarrow> psync_list_isempty l h \<longleftrightarrow> xs = []"
  using dlist_nxt_head [of h l xs] by (cases xs) (auto simp: psync_list_isempty_def dlist_def)

lemma dlist_is_head: "dlist h l xs \<Longrightarrow> psync_list_is_head l e h \<longleftrightarrow> hd (xs @ [l]) = e"
  by (simp add: psync_list_is_head_def dlist_nxt_head)

lemma dlist_is_tail: "dlist h l xs \<Longrightarrow> psync_list_is_tail l e h \<longleftrightarrow> last (l # xs) = e"
  unfolding psync_list_is_tail_def dlist_prv_head ..

lemma dlist_add_head:
  "dlist h l xs \<Longrightarrow> a \<notin> set (l # xs) \<Longrightarrow> a \<noteq> 0 \<Longrightarrow> dlist (psync_list_add_head l a h) l (a # xs)"
  using dlist_add_between [of h l "[]" xs a] by (simp add: psync_list_add_head_def dlist_nxt_head)

lemma dlist_add_tail:
  assumes "dlist h l xs" and "a \<notin> set (l # xs)" and "a \<noteq> 0"
  shows "dlist (psync_list_add_tail l a h) l (xs @ [a])"
  using dlist_add_between [of h l xs "[]" a] assms
  unfolding psync_list_add_tail_def dlist_prv_head [OF assms(1)] by simp

lemma dlist_add_before:
  assumes "dlist h l (xs @ e # ys)" and "a \<notin> set (l # xs @ e # ys)" and "a \<noteq> 0"
  shows "dlist (psync_list_add_before e a h) l (xs @ a # e # ys)"
  using dlist_add_between [of h l xs "e # ys" a] assms
  unfolding psync_list_add_before_def dlist_split(2) [OF assms(1)] by simp

lemma dlist_add_after:
  assumes "dlist h l (xs @ e # ys)" and "a \<notin> set (l # xs @ e # ys)" and "a \<noteq> 0"
  shows "dlist (psync_list_add_after e a h) l (xs @ e # a # ys)"
  using dlist_add_between [of h l "xs @ [e]" ys a] assms
  unfolding psync_list_add_after_def dlist_split(1) [OF assms(1)] by simp

lemma dlist_remove_head:
  assumes "dlist h l (x # xs)"
  shows "\<exists>h'. psync_list_remove_head l h = (x, h') \<and> dlist h' l xs"
  using dlist_del [of h l "[]" x xs] dlist_nxt_head [OF assms] assms
  by (simp add: psync_list_remove_head_def)

lemma add_between_off: "same_off {p, n, a} h (psync_list_add_between p n a h)"
  by (simp add: same_off_def psync_list_add_between_def)

lemma add_tail_off:
  assumes "dlist h l xs" shows "same_off (set (a # l # xs)) h (psync_list_add_tail l a h)"
  unfolding psync_list_add_tail_def dlist_prv_head [OF assms]
  by (rule same_off_mono [OF add_between_off]) auto

lemma del_off:
  assumes "dlist h l (xs @ a # ys)" shows "same_off (set (l # xs @ ys)) h (psync_list_del a h)"
proof -
  define p n where "p = last (l # xs)" and "n = hd (ys @ [l])"
  have p: "p \<in> set (l # xs @ ys)" unfolding p_def by (cases xs) auto
  have n: "n \<in> set (l # xs @ ys)" unfolding n_def by (cases ys) auto
  have na: "n \<noteq> a" using assms by (cases ys) (auto simp: dlist_def n_def)
  have "nxt h a = n" "prv h a = p" using dlist_split [OF assms] unfolding p_def n_def .
  then have "psync_list_del a h = set_nxt p n (set_prv n p h)"
    using na by (simp add: psync_list_del_def Let_def)
  then show ?thesis using p n by (auto simp: same_off_def)
qed

section \<open>The sort implements the merge sort of lists\<close>

lemma dlist_seg:
  assumes "dlist h l xs" shows "seg (nxt h) (nxt h l) xs l"
proof -
  have "linked h (p # zs @ [l]) \<Longrightarrow> seg (nxt h) (nxt h p) zs l" for p zs
    by (induction zs arbitrary: p) auto
  with assms show ?thesis by (simp add: dlist_def)
qed

lemma relink_loop_correct:
  assumes "seg (nxt h) ls ys 0" and "0 \<notin> set ys" and "distinct ys"
    and "ys \<noteq> [] \<Longrightarrow> nxt h l1 = hd ys"
  shows "\<exists>h'. relink_loop l1 ls h = Some (last (l1 # ys), h') \<and> linked h' (l1 # ys) \<and>
    nxt h' = nxt h \<and> (\<forall>a. a \<notin> set ys \<longrightarrow> prv h' a = prv h a)"
  using assms
proof (induction ys arbitrary: l1 ls h)
  case Nil
  then show ?case by (subst relink_loop.simps) auto
next
  case (Cons y ys)
  let ?h1 = "set_prv y l1 h"
  have ls: "ls = y" "y \<noteq> 0" using Cons.prems by auto
  have "seg (nxt ?h1) (nxt h y) ys 0" "0 \<notin> set ys" "distinct ys" "ys \<noteq> [] \<Longrightarrow> nxt ?h1 y = hd ys"
    using Cons.prems by (auto dest: seg_start)
  then obtain h' where r: "relink_loop y (nxt h y) ?h1 = Some (last (y # ys), h')"
    and l: "linked h' (y # ys)" and n: "nxt h' = nxt ?h1"
    and p: "\<forall>a. a \<notin> set ys \<longrightarrow> prv h' a = prv ?h1 a"
    using Cons.IH [of ?h1 "nxt h y" y] by blast
  have "relink_loop l1 ls h = Some (last (l1 # y # ys), h')"
    using r ls by (subst relink_loop.simps) simp
  moreover have "linked h' (l1 # y # ys)" using l n p Cons.prems by auto
  moreover have "\<forall>a. a \<notin> set (y # ys) \<longrightarrow> prv h' a = prv h a" using p by simp
  ultimately show ?case using n by simp
qed

lemma psync_list_sort_dlist:
  assumes "dlist h l xs"
  shows "\<exists>h'. psync_list_sort l cmp h = Some h' \<and> dlist h' l (merge_sort cmp 1 xs) \<and>
    same_off (set (l # xs)) h h'"
proof (cases "xs = []")
  case True
  then show ?thesis using assms dlist_isempty [OF assms] by (simp add: psync_list_sort_def)
next
  case False
  let ?ys = "merge_sort cmp 1 xs"
  define h1 where "h1 = set_nxt (last xs) 0 h"
  have d: "distinct xs" "0 \<notin> set xs" "l \<notin> set xs" using assms by (auto simp: dlist_def)
  obtain zs z where xs: "xs = zs @ [z]" using False by (metis rev_exhaust)
  have s: "seg (nxt h1) (nxt h l) xs 0"
    using dlist_seg [OF assms] d xs by (auto simp: h1_def seg_snoc)
  obtain ls' nx' where sl: "sort_loop cmp 1 (nxt h l) (nxt h1) = Some (ls', nx')"
    and s': "seg nx' ls' ?ys 0" and f: "\<forall>a. a \<notin> set xs \<longrightarrow> nx' a = nxt h1 a"
    using sort_loop_correct [OF s zero_less_one d(1,2)] by blast
  define h2 where "h2 = set_nxt l ls' (h1\<lparr>nxt := nx'\<rparr>)"
  have ys: "0 \<notin> set ?ys" "distinct ?ys" "?ys \<noteq> []" "l \<notin> set ?ys" using d False by auto
  have s2: "seg (nxt h2) ls' ?ys 0" using s' ys by (simp add: h2_def)
  have hd2: "nxt h2 l = hd ?ys" using seg_start [OF s' ys(3)] by (simp add: h2_def)
  obtain h3 where r: "relink_loop l ls' h2 = Some (last (l # ?ys), h3)"
    and lk: "linked h3 (l # ?ys)" and n3: "nxt h3 = nxt h2"
    and p3: "\<forall>a. a \<notin> set ?ys \<longrightarrow> prv h3 a = prv h2 a"
    using relink_loop_correct [OF s2 ys(1,2) hd2] by blast
  define t where "t = last (l # ?ys)"
  define h4 where "h4 = set_prv l t (set_nxt t l h3)"
  have tin: "t \<in> set ?ys" unfolding t_def using last_in_set [OF ys(3)] ys(3) by (simp del: set_merge_sort)
  obtain ws where ws: "?ys = ws @ [t]" unfolding t_def using ys(3) by (metis append_butlast_last_id last_ConsR)
  have "distinct (ws @ [t])" "l \<notin> set (ws @ [t])" using ys(2,4) unfolding ws .
  then have "linked h4 (l # ws @ [t]) \<longleftrightarrow> linked h3 (l # ws @ [t])"
    by (intro linked_frame) (auto simp: h4_def)
  then have "linked h4 ((l # ws) @ [t])" using lk ws by simp
  moreover have "linked h4 [t, l]" by (simp add: h4_def)
  ultimately have "linked h4 ((l # ws) @ t # [l])" using linked_append [of h4 "l # ws" t "[l]"] by simp
  then have "linked h4 (l # ?ys @ [l])" using ws by simp
  then have "dlist h4 l ?ys" using ys assms by (auto simp: dlist_def)
  moreover have "psync_list_sort l cmp h = Some h4"
  proof -
    have pl: "prv h l = last xs" using dlist_prv_head [OF assms] False by simp
    have "\<not> psync_list_isempty l h" using dlist_isempty [OF assms] False by simp
    then show ?thesis unfolding psync_list_sort_def pl Let_def h1_def [symmetric]
      using sl r [folded t_def] by (simp add: h2_def [symmetric] h4_def del: One_nat_def)
  qed
  moreover have "same_off (set (l # xs)) h h4"
  proof -
    have "last xs \<in> set xs" using False by simp
    moreover have "t \<in> set xs" using tin by simp
    ultimately show ?thesis using f n3 p3
      by (auto simp: same_off_def h4_def h2_def h1_def)
  qed
  ultimately show ?thesis by blast
qed

section \<open>Extraction implements the merge join of lists\<close>

fun extract_lists :: "('a \<Rightarrow> 'a \<Rightarrow> int) \<Rightarrow> 'a list \<Rightarrow> 'a list \<Rightarrow> 'a list \<times> 'a list \<times> 'a list \<times> 'a list" where
  "extract_lists cmp (x # xs) (y # ys) =
     (if cmp x y < 0 then (case extract_lists cmp xs (y # ys) of (k1, k2, e1, e2) \<Rightarrow> (x # k1, k2, e1, e2))
      else if cmp x y > 0 then (case extract_lists cmp (x # xs) ys of (k1, k2, e1, e2) \<Rightarrow> (k1, y # k2, e1, e2))
      else (case extract_lists cmp xs ys of (k1, k2, e1, e2) \<Rightarrow> (k1, k2, x # e1, y # e2)))"
| "extract_lists cmp xs ys = (xs, ys, [], [])"

text \<open>The four lists \<^verbatim>\<open>l1\<close>, \<^verbatim>\<open>l2\<close>, \<^verbatim>\<open>extracted1\<close>, \<^verbatim>\<open>extracted2\<close>, with no node in two of them.\<close>

definition four_lists ::
    "lheap \<Rightarrow> addr \<Rightarrow> addr list \<Rightarrow> addr \<Rightarrow> addr list \<Rightarrow> addr \<Rightarrow> addr list \<Rightarrow> addr \<Rightarrow> addr list \<Rightarrow> bool" where
  "four_lists h l1 xs l2 ys e1 us e2 vs \<longleftrightarrow>
     dlist h l1 xs \<and> dlist h l2 ys \<and> dlist h e1 us \<and> dlist h e2 vs \<and>
     distinct ((l1 # xs) @ (l2 # ys) @ (e1 # us) @ (e2 # vs))"

lemma four_lists_move1:
  assumes "four_lists h l1 (xs @ a # ys) l2 zs e1 us e2 vs"
  shows "four_lists (psync_list_add_tail e1 a (psync_list_del a h)) l1 (xs @ ys) l2 zs e1 (us @ [a]) e2 vs"
proof -
  let ?h1 = "psync_list_del a h"
  let ?h2 = "psync_list_add_tail e1 a ?h1"
  have d: "dlist h l1 (xs @ a # ys)" "dlist h l2 zs" "dlist h e1 us" "dlist h e2 vs"
    and dist: "distinct ((l1 # xs @ a # ys) @ (l2 # zs) @ (e1 # us) @ (e2 # vs))"
    using assms by (auto simp: four_lists_def)
  note f1 = del_off [OF d(1)]
  have d1: "dlist ?h1 l1 (xs @ ys)" "dlist ?h1 l2 zs" "dlist ?h1 e1 us" "dlist ?h1 e2 vs"
    using dlist_del [OF d(1)] dlist_frame [OF f1 _ d(2)] dlist_frame [OF f1 _ d(3)]
      dlist_frame [OF f1 _ d(4)] dist by auto
  note f2 = add_tail_off [OF d1(3), of a]
  have a: "a \<notin> set (e1 # us)" "a \<noteq> 0" using dist d(1) by (auto simp: dlist_def)
  have "dlist ?h2 l1 (xs @ ys)" "dlist ?h2 l2 zs" "dlist ?h2 e1 (us @ [a])" "dlist ?h2 e2 vs"
    using dlist_add_tail [OF d1(3) a] dlist_frame [OF f2 _ d1(1)] dlist_frame [OF f2 _ d1(2)]
      dlist_frame [OF f2 _ d1(4)] dist by auto
  with dist show ?thesis by (auto simp: four_lists_def)
qed

lemma four_lists_swap:
  "four_lists h l1 xs l2 ys e1 us e2 vs \<Longrightarrow> four_lists h l2 ys l1 xs e2 vs e1 us"
  by (auto simp: four_lists_def)

lemma extract_loop_correct:
  assumes "four_lists h l1 (d1 @ r1) l2 (d2 @ r2) e1 us e2 vs"
    and "extract_lists cmp r1 r2 = (k1, k2, o1, o2)"
  shows "\<exists>h'. extract_loop cmp l1 l2 e1 e2 (hd (r1 @ [l1])) (hd (r2 @ [l2])) h = Some h' \<and>
    four_lists h' l1 (d1 @ k1) l2 (d2 @ k2) e1 (us @ o1) e2 (vs @ o2)"
  using assms
proof (induction "length r1 + length r2" arbitrary: h d1 r1 d2 r2 us vs k1 k2 o1 o2 rule: less_induct)
  case less
  have d: "dlist h l1 (d1 @ r1)" "dlist h l2 (d2 @ r2)" using less.prems(1) by (auto simp: four_lists_def)
  show ?case
  proof (cases "r1 = [] \<or> r2 = []")
    case True
    then have "extract_lists cmp r1 r2 = (r1, r2, [], [])" by (cases r1) auto
    then show ?thesis using less.prems True by (subst extract_loop.simps) auto
  next
    case False
    then obtain x xs y ys where r: "r1 = x # xs" "r2 = y # ys" by (metis list.exhaust)
    have ne: "x \<noteq> l1" "y \<noteq> l2" using d r by (auto simp: dlist_def)
    have nx: "nxt h x = hd (xs @ [l1])" "nxt h y = hd (ys @ [l2])"
      using dlist_split(1) d unfolding r by blast+
    consider "cmp x y < 0" | "cmp x y > 0" | "cmp x y = 0" by linarith
    then show ?thesis
    proof cases
      case 1
      then obtain k1' where k: "extract_lists cmp xs r2 = (k1', k2, o1, o2)" "k1 = x # k1'"
        using less.prems(2) r by (auto split: prod.splits)
      have "four_lists h l1 ((d1 @ [x]) @ xs) l2 (d2 @ r2) e1 us e2 vs" using less.prems(1) r by simp
      then have "\<exists>h'. extract_loop cmp l1 l2 e1 e2 (hd (xs @ [l1])) (hd (r2 @ [l2])) h = Some h' \<and>
          four_lists h' l1 ((d1 @ [x]) @ k1') l2 (d2 @ k2) e1 (us @ o1) e2 (vs @ o2)"
        using k(1) r by (intro less.hyps) auto
      then show ?thesis using 1 r ne nx k(2) by (subst extract_loop.simps) simp
    next
      case 2
      then obtain k2' where k: "extract_lists cmp r1 ys = (k1, k2', o1, o2)" "k2 = y # k2'"
        using less.prems(2) r by (auto split: prod.splits)
      have "four_lists h l1 (d1 @ r1) l2 ((d2 @ [y]) @ ys) e1 us e2 vs" using less.prems(1) r by simp
      then have "\<exists>h'. extract_loop cmp l1 l2 e1 e2 (hd (r1 @ [l1])) (hd (ys @ [l2])) h = Some h' \<and>
          four_lists h' l1 (d1 @ k1) l2 ((d2 @ [y]) @ k2') e1 (us @ o1) e2 (vs @ o2)"
        using k(1) r by (intro less.hyps) auto
      then show ?thesis using 2 r ne nx k(2) by (subst extract_loop.simps) simp
    next
      case 3
      then obtain o1' o2' where k: "extract_lists cmp xs ys = (k1, k2, o1', o2')" "o1 = x # o1'" "o2 = y # o2'"
        using less.prems(2) r by (auto split: prod.splits)
      define h1 where "h1 = psync_list_add_tail e1 x (psync_list_del x h)"
      define h2 where "h2 = psync_list_add_tail e2 y (psync_list_del y h1)"
      have "four_lists h1 l1 (d1 @ xs) l2 (d2 @ y # ys) e1 (us @ [x]) e2 vs"
        using four_lists_move1 less.prems(1) unfolding r h1_def by blast
      then have "four_lists h2 l1 (d1 @ xs) l2 (d2 @ ys) e1 (us @ [x]) e2 (vs @ [y])"
        unfolding h2_def by (rule four_lists_swap [OF four_lists_move1 [OF four_lists_swap]])
      then have "\<exists>h'. extract_loop cmp l1 l2 e1 e2 (hd (xs @ [l1])) (hd (ys @ [l2])) h2 = Some h' \<and>
          four_lists h' l1 (d1 @ k1) l2 (d2 @ k2) e1 ((us @ [x]) @ o1') e2 ((vs @ [y]) @ o2')"
        using k(1) r by (intro less.hyps) auto
      then show ?thesis using 3 r ne nx k(2,3)
        by (subst extract_loop.simps) (simp add: Let_def h1_def [symmetric] h2_def [symmetric])
    qed
  qed
qed

context list_cmp
begin

lemma extract_lists_spec:
  assumes "ordered xs" and "ordered ys" and "extract_lists cmp xs ys = (k1, k2, o1, o2)"
  shows "mset xs = mset k1 + mset o1 \<and> mset ys = mset k2 + mset o2 \<and>
    list_all2 (\<lambda>a b. cmp a b = 0) o1 o2 \<and> (\<forall>a\<in>set k1. \<forall>b\<in>set k2. cmp a b \<noteq> 0)"
  using assms
proof (induction xs ys arbitrary: k1 k2 o1 o2 rule: merge_induct)
  case (Cons x xs y ys)
  consider "cmp x y < 0" | "cmp x y > 0" | "cmp x y = 0" by linarith
  then show ?case
  proof cases
    case 1
    then obtain k where k: "extract_lists cmp xs (y # ys) = (k, k2, o1, o2)" "k1 = x # k"
      using Cons.prems(3) by (auto split: prod.splits)
    have ih: "mset xs = mset k + mset o1 \<and> mset (y # ys) = mset k2 + mset o2 \<and>
        list_all2 (\<lambda>a b. cmp a b = 0) o1 o2 \<and> (\<forall>a\<in>set k. \<forall>b\<in>set k2. cmp a b \<noteq> 0)"
      using Cons.IH(1) Cons.prems k(1) by simp
    have "set k2 \<subseteq> set (y # ys)" using ih by (metis mset_subset_eq_add_left set_mset_mono set_mset_mset)
    moreover have "cmp x b < 0" if "b \<in> set (y # ys)" for b
      using that 1 Cons.prems(2) by (auto intro: cmp_trans_less)
    ultimately have "\<forall>b\<in>set k2. cmp x b \<noteq> 0" by force
    with ih k(2) show ?thesis by auto
  next
    case 2
    then obtain k where k: "extract_lists cmp (x # xs) ys = (k1, k, o1, o2)" "k2 = y # k"
      using Cons.prems(3) by (auto split: prod.splits)
    have ih: "mset (x # xs) = mset k1 + mset o1 \<and> mset ys = mset k + mset o2 \<and>
        list_all2 (\<lambda>a b. cmp a b = 0) o1 o2 \<and> (\<forall>a\<in>set k1. \<forall>b\<in>set k. cmp a b \<noteq> 0)"
      using Cons.IH(2) Cons.prems k(1) by simp
    have yx: "cmp y x < 0" using 2 cmp_swap_less by blast
    have "set k1 \<subseteq> set (x # xs)" using ih by (metis mset_subset_eq_add_left set_mset_mono set_mset_mset)
    moreover have "cmp y b < 0" if "b \<in> set (x # xs)" for b
      using that yx Cons.prems(1) by (auto intro: cmp_trans_less)
    ultimately have "\<forall>b\<in>set k1. cmp y b \<noteq> 0" by force
    then have "\<forall>b\<in>set k1. cmp b y \<noteq> 0" using cmp_swap_eq by blast
    with ih k(2) show ?thesis by auto
  next
    case 3
    then obtain p q where k: "extract_lists cmp xs ys = (k1, k2, p, q)" "o1 = x # p" "o2 = y # q"
      using Cons.prems(3) by (auto split: prod.splits)
    have "mset xs = mset k1 + mset p \<and> mset ys = mset k2 + mset q \<and>
        list_all2 (\<lambda>a b. cmp a b = 0) p q \<and> (\<forall>a\<in>set k1. \<forall>b\<in>set k2. cmp a b \<noteq> 0)"
      using Cons.IH(3) Cons.prems k(1) by simp
    with 3 k(2,3) show ?thesis by simp
  qed
qed auto

end

section \<open>Properties\<close>

text \<open>
  The list operations of the header implement the operations on sequences: initialisation gives
  the empty list, the emptiness test and the end tests answer correctly, the four insertions put the
  node where they say, and deletion and removal of the head take exactly the named node out.
\<close>
theorem psync_list_operations:
  assumes "dlist h l (xs @ e # ys)" and "a \<notin> set (l # xs @ e # ys)" and "a \<noteq> 0"
  shows "dlist (psync_list_init a h) a [] \<and>
    \<not> psync_list_isempty l h \<and> psync_list_isempty a (psync_list_init a h) \<and>
    (psync_list_is_head l e h \<longleftrightarrow> xs = []) \<and> (psync_list_is_tail l e h \<longleftrightarrow> ys = []) \<and>
    dlist (psync_list_add_head l a h) l (a # xs @ e # ys) \<and>
    dlist (psync_list_add_tail l a h) l (xs @ e # ys @ [a]) \<and>
    dlist (psync_list_add_before e a h) l (xs @ a # e # ys) \<and>
    dlist (psync_list_add_after e a h) l (xs @ e # a # ys) \<and>
    dlist (psync_list_del e h) l (xs @ ys) \<and>
    (case psync_list_remove_head l h of (r, h') \<Rightarrow>
      r = hd (xs @ [e]) \<and> dlist h' l (tl (xs @ e # ys)))"
proof -
  have d: "distinct (l # xs @ e # ys)" using assms(1) by (simp add: dlist_def)
  have init: "dlist (psync_list_init a h) a []" using assms(3) by (rule dlist_init)
  have hd_e: "hd ((xs @ e # ys) @ [l]) = e \<longleftrightarrow> xs = []" using d by (cases xs) auto
  have last_e: "last (l # xs @ e # ys) = e \<longleftrightarrow> ys = []"
    using d last_in_set [of ys] by (cases "ys = []") auto
  obtain z zs where z: "xs @ e # ys = z # zs" by (cases xs) auto
  have "z = hd (xs @ [e])" using z by (cases xs) auto
  then have rm: "\<exists>h'. psync_list_remove_head l h = (hd (xs @ [e]), h') \<and> dlist h' l (tl (xs @ e # ys))"
    using dlist_remove_head [of h l z zs] assms(1) z by simp
  show ?thesis
    using init rm dlist_isempty [OF assms(1)] dlist_isempty [OF init] dlist_is_head [OF assms(1), of e]
      dlist_is_tail [OF assms(1), of e] hd_e last_e dlist_add_head [OF assms] dlist_add_tail [OF assms]
      dlist_add_before [OF assms] dlist_add_after [OF assms] dlist_del [OF assms(1)]
    by auto
qed

definition sample_heap :: lheap where
  "sample_heap = psync_list_add_tail 1 3 (psync_list_add_tail 1 2 (psync_list_add_tail 1 4
     (psync_list_init 1 \<lparr>nxt = (\<lambda>_. 0), prv = (\<lambda>_. 0)\<rparr>)))"

lemma sample_heap_dlist: "dlist sample_heap 1 [4, 2, 3]"
  unfolding sample_heap_def
  using dlist_init [of 1 "\<lparr>nxt = (\<lambda>_. 0), prv = (\<lambda>_. 0)\<rparr>"]
    dlist_add_tail [of _ 1 "[]" 4] dlist_add_tail [of _ 1 "[4]" 2] dlist_add_tail [of _ 1 "[4, 2]" 3]
  by simp

lemma psync_list_operations_witness:
  "dlist (psync_list_del 2 sample_heap) 1 [4, 3]"
  using psync_list_operations [of sample_heap 1 "[4]" 2 "[3]" 9] sample_heap_dlist by simp

text \<open>
  C19. \<^verbatim>\<open>psync_list_sort\<close> returns for every comparison whose sign is antisymmetric and transitive,
  and leaves a list of the same nodes that is ordered and in which nodes that compare equal keep their
  relative order; no link outside the list is written.
\<close>
theorem psync_list_sort_sorts:
  assumes anti: "\<And>a b. sgn (cmp b a) = - sgn (cmp a b)"
    and trans: "\<And>a b c. cmp a b \<le> 0 \<Longrightarrow> cmp b c \<le> 0 \<Longrightarrow> cmp a c \<le> 0"
    and "dlist h l xs"
  shows "\<exists>h' ys. psync_list_sort l cmp h = Some h' \<and> dlist h' l ys \<and>
    mset ys = mset xs \<and> sorted_wrt (\<lambda>a b. cmp a b \<le> 0) ys \<and>
    (\<forall>k. filter (\<lambda>x. cmp k x = 0) ys = filter (\<lambda>x. cmp k x = 0) xs) \<and>
    (\<forall>a. a \<notin> set (l # xs) \<longrightarrow> nxt h' a = nxt h a \<and> prv h' a = prv h a)"
proof -
  have c: "list_cmp cmp" using anti trans by unfold_locales
  obtain h' where "psync_list_sort l cmp h = Some h'" "dlist h' l (merge_sort cmp 1 xs)"
    "same_off (set (l # xs)) h h'"
    using psync_list_sort_dlist [OF assms(3)] by blast
  then show ?thesis
    using list_cmp.ordered_merge_sort [OF c, of xs] list_cmp.stable_merge_sort [OF c, of _ xs] mset_merge_sort
    unfolding same_off_def by blast
qed

lemma psync_list_sort_sorts_witness:
  "\<exists>h' ys. psync_list_sort 1 (\<lambda>a b. int a - int b) sample_heap = Some h' \<and> dlist h' 1 ys \<and>
    mset ys = {#2, 3, 4#} \<and> sorted_wrt (\<lambda>a b. int a - int b \<le> 0) ys"
proof -
  have "\<exists>h' ys. psync_list_sort 1 (\<lambda>a b. int a - int b) sample_heap = Some h' \<and> dlist h' 1 ys \<and>
    mset ys = mset [4, 2, 3] \<and> sorted_wrt (\<lambda>a b. int a - int b \<le> 0) ys \<and>
    (\<forall>k. filter (\<lambda>x. int k - int x = 0) ys = filter (\<lambda>x. int k - int x = 0) [4, 2, 3]) \<and>
    (\<forall>a. a \<notin> set (1 # [4, 2, 3]) \<longrightarrow> nxt h' a = nxt sample_heap a \<and> prv h' a = prv sample_heap a)"
    by (rule psync_list_sort_sorts [OF _ _ sample_heap_dlist]) (auto simp: sgn_if)
  moreover have "mset [4, 2, 3 :: nat] = {#2, 3, 4#}" by simp
  ultimately show ?thesis by metis
qed

text \<open>
  \<^verbatim>\<open>psync_list_extract_repeating\<close> returns and moves, from two lists with no node in common, a
  matching of equal nodes to the two result lists: the nodes at equal positions of the results
  compare equal, no node is lost or duplicated, and no node left in the first list equals a node left
  in the second.
\<close>
theorem psync_list_extract_repeating_matches:
  assumes anti: "\<And>a b. sgn (cmp b a) = - sgn (cmp a b)"
    and trans: "\<And>a b c. cmp a b \<le> 0 \<Longrightarrow> cmp b c \<le> 0 \<Longrightarrow> cmp a c \<le> 0"
    and "four_lists h l1 xs l2 ys e1 us e2 vs"
  shows "\<exists>h' k1 k2 o1 o2. psync_list_extract_repeating l1 l2 e1 e2 cmp h = Some h' \<and>
    four_lists h' l1 k1 l2 k2 e1 (us @ o1) e2 (vs @ o2) \<and>
    mset xs = mset k1 + mset o1 \<and> mset ys = mset k2 + mset o2 \<and>
    list_all2 (\<lambda>a b. cmp a b = 0) o1 o2 \<and> (\<forall>a\<in>set k1. \<forall>b\<in>set k2. cmp a b \<noteq> 0)"
proof -
  have c: "list_cmp cmp" using anti trans by unfold_locales
  let ?xs = "merge_sort cmp 1 xs" and ?ys = "merge_sort cmp 1 ys"
  have d: "dlist h l1 xs" "dlist h l2 ys" "dlist h e1 us" "dlist h e2 vs"
    and dist: "distinct ((l1 # xs) @ (l2 # ys) @ (e1 # us) @ (e2 # vs))"
    using assms(3) by (auto simp: four_lists_def)
  obtain h1 where s1: "psync_list_sort l1 cmp h = Some h1" "dlist h1 l1 ?xs" "same_off (set (l1 # xs)) h h1"
    using psync_list_sort_dlist [OF d(1)] by blast
  note f1 = dlist_frame [OF s1(3)]
  have d1: "dlist h1 l2 ys" "dlist h1 e1 us" "dlist h1 e2 vs"
    using f1 [OF _ d(2)] f1 [OF _ d(3)] f1 [OF _ d(4)] dist by auto
  obtain h2 where s2: "psync_list_sort l2 cmp h1 = Some h2" "dlist h2 l2 ?ys" "same_off (set (l2 # ys)) h1 h2"
    using psync_list_sort_dlist [OF d1(1)] by blast
  note f2 = dlist_frame [OF s2(3)]
  have d2: "dlist h2 l1 ?xs" "dlist h2 e1 us" "dlist h2 e2 vs"
    using f2 [OF _ s1(2)] f2 [OF _ d1(2)] f2 [OF _ d1(3)] dist by (auto simp del: One_nat_def)
  have four: "four_lists h2 l1 ([] @ ?xs) l2 ([] @ ?ys) e1 us e2 vs"
    using d2 s2(2) dist by (auto simp: four_lists_def simp del: One_nat_def)
  obtain k1 k2 o1 o2 where ex: "extract_lists cmp ?xs ?ys = (k1, k2, o1, o2)" by (metis surj_pair)
  obtain h3 where "extract_loop cmp l1 l2 e1 e2 (hd (?xs @ [l1])) (hd (?ys @ [l2])) h2 = Some h3"
    and "four_lists h3 l1 ([] @ k1) l2 ([] @ k2) e1 (us @ o1) e2 (vs @ o2)"
    using extract_loop_correct [OF four ex] by blast
  moreover have "nxt h2 l1 = hd (?xs @ [l1])" "nxt h2 l2 = hd (?ys @ [l2])"
    using dlist_nxt_head d2(1) s2(2) by blast+
  ultimately have "psync_list_extract_repeating l1 l2 e1 e2 cmp h = Some h3 \<and>
      four_lists h3 l1 k1 l2 k2 e1 (us @ o1) e2 (vs @ o2)"
    using s1(1) s2(1) by (simp add: psync_list_extract_repeating_def)
  then show ?thesis
    using list_cmp.extract_lists_spec [OF c list_cmp.ordered_merge_sort [OF c] list_cmp.ordered_merge_sort [OF c] ex]
      mset_merge_sort by metis
qed

lemma sample_four_lists:
  "\<exists>h. four_lists h 10 [2, 3] 20 [5] 30 [] 40 []"
proof -
  define h0 where "h0 = psync_list_init 40 (psync_list_init 30 (psync_list_init 20 (psync_list_init 10
    \<lparr>nxt = (\<lambda>_. 0), prv = (\<lambda>_. 0)\<rparr>)))"
  define h where "h = psync_list_add_tail 20 5 (psync_list_add_tail 10 3 (psync_list_add_tail 10 2 h0))"
  have "four_lists h 10 [2, 3] 20 [5] 30 [] 40 []"
    by (simp add: h_def h0_def four_lists_def dlist_def psync_list_init_def psync_list_add_tail_def
        psync_list_add_between_def)
  then show ?thesis by blast
qed

lemma psync_list_extract_repeating_matches_witness:
  "\<exists>h h' k1 k2 o1 o2. psync_list_extract_repeating 10 20 30 40 (\<lambda>a b. int (a mod 3) - int (b mod 3)) h = Some h' \<and>
    four_lists h' 10 k1 20 k2 30 o1 40 o2 \<and> {#2, 3#} = mset k1 + mset o1 \<and> {#5#} = mset k2 + mset o2"
proof -
  obtain h where h: "four_lists h 10 [2, 3] 20 [5] 30 [] 40 []" using sample_four_lists by blast
  have "\<exists>h' k1 k2 o1 o2. psync_list_extract_repeating 10 20 30 40 (\<lambda>a b. int (a mod 3) - int (b mod 3)) h = Some h' \<and>
    four_lists h' 10 k1 20 k2 30 ([] @ o1) 40 ([] @ o2) \<and>
    mset [2, 3] = mset k1 + mset o1 \<and> mset [5] = mset k2 + mset o2 \<and>
    list_all2 (\<lambda>a b. int (a mod 3) - int (b mod 3) = 0) o1 o2 \<and>
    (\<forall>a\<in>set k1. \<forall>b\<in>set k2. int (a mod 3) - int (b mod 3) \<noteq> 0)"
    by (rule psync_list_extract_repeating_matches [OF _ _ h]) (auto simp: sgn_if)
  then show ?thesis by (simp add: add_mset_commute) blast
qed

end
