(* ===== verification/LocalScan.thy ===== *)
theory LocalScan
  imports Prelude ListSort Codec
begin

text \<open>
  The local scanner of \<^verbatim>\<open>plocalscan.c\<close>, the part that compares directories with the database: the
  ignore patterns (\<^verbatim>\<open>psynclib.c\<close>) and ignored paths, the entry lists of a folder on disk and in the
  database, the comparisons the lists are sorted by, the classification of every entry as new,
  deleted or modified, and the recursion into subfolders. The listing of a directory, \<^verbatim>\<open>stat\<close>, the
  clock, the SHA-256 routine and the rows of the database queries are arguments. Entry lists are
  sequences here; \<open>ListSort\<close> shows that the linked lists implement them.
\<close>

section \<open>Names\<close>

definition isspace :: "u8 \<Rightarrow> bool" where
  "isspace c \<longleftrightarrow> c = 32 \<or> (9 \<le> c \<and> c \<le> 13)"

definition tolower :: "u8 \<Rightarrow> u8" where
  "tolower c = (if 65 \<le> c \<and> c \<le> 90 then c + 32 else c)"

text \<open>\<^verbatim>\<open>strcmp\<close>: bytes are compared as unsigned characters up to the first NUL (the end of a list is a NUL).\<close>

fun strcmp :: "u8 list \<Rightarrow> u8 list \<Rightarrow> int" where
  "strcmp [] [] = 0"
| "strcmp [] (b # bs) = - uint b"
| "strcmp (a # as) [] = uint a"
| "strcmp (a # as) (b # bs) =
     (if a = b then (if a = 0 then 0 else strcmp as bs) else uint a - uint b)"

definition trim_left :: "u8 list \<Rightarrow> u8 list" where
  "trim_left s = dropWhile isspace s"

definition trim_right :: "u8 list \<Rightarrow> u8 list" where
  "trim_right s = rev (dropWhile isspace (rev s))"

function ignore_loop :: "u8 list \<Rightarrow> u8 list \<Rightarrow> bool" where
  "ignore_loop name ign =
     (let pt = trim_right (trim_left (takeWhile (\<lambda>c. c \<noteq> 59) ign));
          sc = dropWhile (\<lambda>c. c \<noteq> 59) ign
      in if psync_match_pattern name pt then True
         else if sc = [] then False
         else ignore_loop name (tl sc))"
  by pat_completeness auto
termination
proof (relation "measure (\<lambda>(name, ign). length ign)")
  fix name ign :: "u8 list" and x xa
  assume x: "xa = dropWhile (\<lambda>c. c \<noteq> 59) ign" and "xa \<noteq> []"
  then have "length (tl xa) < length xa" by simp
  also have "length xa \<le> length ign" unfolding x by (rule length_dropWhile_le)
  finally show "((name, tl xa), name, ign) \<in> measure (\<lambda>(name, ign). length ign)" by simp
qed simp

declare ignore_loop.simps [simp del]

definition psync_is_lname_to_ignore :: "u8 list \<Rightarrow> u8 list \<Rightarrow> bool" where
  "psync_is_lname_to_ignore ignorepatterns name =
     ignore_loop (map tolower (c_str name)) (c_str ignorepatterns)"

definition psync_is_name_to_ignore :: "u8 list \<Rightarrow> u8 list \<Rightarrow> bool" where
  "psync_is_name_to_ignore ignorepatterns name = psync_is_lname_to_ignore ignorepatterns (c_str name)"

section \<open>Ignored paths\<close>

record psync_stat_t =
  st_ino :: u64
  st_dev :: u64
  st_mtime_native :: u64
  st_size :: u64
  st_isdir :: bool

record ign_state =
  ignored_paths :: "(u64 \<times> u64) list"
  ign_paths_alloc :: nat
  ign_last_check :: nat
  ign_checksum :: "u8 list"

type_synonym stat_fn = "u8 list \<Rightarrow> psync_stat_t option"

definition add_ignored_dir :: "stat_fn \<Rightarrow> u8 list \<Rightarrow> ign_state \<Rightarrow> ign_state" where
  "add_ignored_dir fstat path s =
     (case fstat path of
        None \<Rightarrow> s
      | Some st \<Rightarrow>
          (let s = (if ign_paths_alloc s \<le> length (ignored_paths s)
                    then s\<lparr>ign_paths_alloc := (if ign_paths_alloc s = 0 then 8 else ign_paths_alloc s * 2)\<rparr>
                    else s)
           in s\<lparr>ignored_paths := ignored_paths s @ [(st_dev st, st_ino st)]\<rparr>))"

definition ign_end :: "u8 \<Rightarrow> bool" where
  "ign_end c \<longleftrightarrow> c = 59 \<or> c = 10"

definition HOME_VAR :: "u8 list" where
  "HOME_VAR = [36, 72, 79, 77, 69]"

definition expand_home :: "u8 list option \<Rightarrow> u8 list \<Rightarrow> u8 list option" where
  "expand_home home p =
     (if 5 \<le> length p \<and> take 5 p = HOME_VAR
      then (case home of Some h \<Rightarrow> Some (h @ drop 5 p) | None \<Rightarrow> None)
      else Some p)"

function ign_loop :: "stat_fn \<Rightarrow> u8 list option \<Rightarrow> u8 list \<Rightarrow> ign_state \<Rightarrow> ign_state" where
  "ign_loop fstat home next s =
     (let start = dropWhile isspace next in
      if start = [] then s
      else
        (let p = trim_right (takeWhile (\<lambda>c. \<not> ign_end c) start);
             rest = dropWhile (\<lambda>c. \<not> ign_end c) start;
             s = (case expand_home home p of Some dir \<Rightarrow> add_ignored_dir fstat dir s | None \<Rightarrow> s)
         in ign_loop fstat home (tl rest) s))"
  by pat_completeness auto
termination
proof (relation "measure (\<lambda>(fstat, home, next, s). length next)")
  fix fstat :: stat_fn and home and "next" :: "u8 list" and s :: ign_state and x xa xb xc
  assume a: "x = dropWhile isspace next" "x \<noteq> []" "xb = dropWhile (\<lambda>c. \<not> ign_end c) x"
  have "length x \<le> length next" using a(1) by (simp add: length_dropWhile_le)
  moreover have "length xb \<le> length x" using a(3) by (simp add: length_dropWhile_le)
  moreover have "0 < length x" using a(2) by simp
  moreover have "length (tl xb) = length xb - 1" by simp
  ultimately have "length (tl xb) < length next" by linarith
  then show "((fstat, home, tl xb, xc), fstat, home, next, s) \<in> measure (\<lambda>(fstat, home, next, s). length next)"
    by simp
qed simp

declare ign_loop.simps [simp del]

definition reload_ignored_folders ::
    "(u8 list \<Rightarrow> u8 list) \<Rightarrow> stat_fn \<Rightarrow> u8 list option \<Rightarrow> u8 list \<Rightarrow> nat \<Rightarrow> ign_state \<Rightarrow> ign_state" where
  "reload_ignored_folders sha256 fstat home ignorepaths now s =
     (let ign = c_str ignorepaths; checkcurr = sha256 ign in
      if ign_checksum s = checkcurr \<and> ign_last_check s + 3600 < now then s
      else ign_loop fstat home ign
             (s\<lparr>ign_checksum := checkcurr, ign_last_check := now, ignored_paths := []\<rparr>))"

definition is_path_to_ignore :: "ign_state \<Rightarrow> u64 \<Rightarrow> u64 \<Rightarrow> bool" where
  "is_path_to_ignore s dev ino \<longleftrightarrow> (\<exists>(d, i)\<in>set (ignored_paths s). d = dev \<and> i = ino)"

section \<open>Entry lists\<close>

record sync_folderlist =
  localid :: u64
  remoteid :: u64
  localparentfolderid :: u64
  parentfolderid :: u64
  inode :: u64
  deviceid :: u64
  mtimenat :: u64
  fsize :: u64
  fsyncid :: u32
  fsynctype :: u32
  isfolder :: bool
  fname :: "u8 list"

definition psync_deviceid_short :: "u64 \<Rightarrow> u64" where
  "psync_deviceid_short d = d"

text \<open>The four fields that \<^verbatim>\<open>malloc\<close> leaves uninitialised are 0 here; every copy overwrites them.\<close>

definition scanner_local_entry_to_list ::
    "ign_state \<Rightarrow> u8 list \<times> psync_stat_t \<Rightarrow> sync_folderlist list \<Rightarrow> sync_folderlist list" where
  "scanner_local_entry_to_list s e lst =
     (case e of (name, st) \<Rightarrow>
       if is_path_to_ignore s (st_dev st) (st_ino st) then lst
       else lst @ [\<lparr>localid = 0, remoteid = 0, localparentfolderid = 0, parentfolderid = 0,
                    inode = st_ino st, deviceid = st_dev st, mtimenat = st_mtime_native st,
                    fsize = st_size st, fsyncid = 0, fsynctype = 0, isfolder = st_isdir st,
                    fname = name\<rparr>])"

definition scanner_local_folder_to_list ::
    "ign_state \<Rightarrow> (u8 list \<times> psync_stat_t) list \<Rightarrow> sync_folderlist list" where
  "scanner_local_folder_to_list s es = fold (scanner_local_entry_to_list s) es []"

text \<open>
  The rows of the two queries of \<^verbatim>\<open>scanner_db_folder_to_list\<close>. A \<^verbatim>\<open>NULL\<close> remote id is \<open>None\<close>;
  \<^verbatim>\<open>psync_get_number_or_null\<close> reads it as 0.
\<close>

record dbfolder_row =
  dbd_id :: u64
  dbd_folderid :: "u64 option"
  dbd_inode :: u64
  dbd_deviceid :: u64
  dbd_mtimenative :: u64
  dbd_name :: "u8 list"

record dbfile_row =
  dbf_id :: u64
  dbf_fileid :: "u64 option"
  dbf_inode :: u64
  dbf_mtimenative :: u64
  dbf_size :: u64
  dbf_name :: "u8 list"

definition number_or_null :: "u64 option \<Rightarrow> u64" where
  "number_or_null x = (case x of Some v \<Rightarrow> v | None \<Rightarrow> 0)"

definition dbfolder_entry :: "dbfolder_row \<Rightarrow> sync_folderlist" where
  "dbfolder_entry r =
     \<lparr>localid = dbd_id r, remoteid = number_or_null (dbd_folderid r), localparentfolderid = 0,
      parentfolderid = 0, inode = dbd_inode r, deviceid = dbd_deviceid r, mtimenat = dbd_mtimenative r,
      fsize = 0, fsyncid = 0, fsynctype = 0, isfolder = True, fname = dbd_name r\<rparr>"

definition dbfile_entry :: "dbfile_row \<Rightarrow> sync_folderlist" where
  "dbfile_entry r =
     \<lparr>localid = dbf_id r, remoteid = number_or_null (dbf_fileid r), localparentfolderid = 0,
      parentfolderid = 0, inode = dbf_inode r, deviceid = 0, mtimenat = dbf_mtimenative r,
      fsize = dbf_size r, fsyncid = 0, fsynctype = 0, isfolder = False, fname = dbf_name r\<rparr>"

text \<open>The entries, with the ids of the folders and files whose name is ignored and which it tries to delete.\<close>

definition scanner_db_folder_to_list ::
    "u8 list \<Rightarrow> dbfolder_row list \<Rightarrow> dbfile_row list \<Rightarrow> sync_folderlist list \<times> u64 list \<times> u64 list" where
  "scanner_db_folder_to_list ign folders files =
     (map dbfolder_entry (filter (\<lambda>r. \<not> psync_is_lname_to_ignore ign (dbd_name r)) folders) @
        map dbfile_entry (filter (\<lambda>r. \<not> psync_is_lname_to_ignore ign (dbf_name r)) files),
      map dbd_id (filter (\<lambda>r. psync_is_lname_to_ignore ign (dbd_name r)) folders),
      map dbf_id (filter (\<lambda>r. psync_is_lname_to_ignore ign (dbf_name r)) files))"

section \<open>Comparisons\<close>

definition folderlist_cmp :: "sync_folderlist \<Rightarrow> sync_folderlist \<Rightarrow> int" where
  "folderlist_cmp l1 l2 = strcmp (fname l1) (fname l2)"

definition compare_sizeinodemtime :: "sync_folderlist \<Rightarrow> sync_folderlist \<Rightarrow> int" where
  "compare_sizeinodemtime f1 f2 =
     (let d = sint (fsize f1 - fsize f2) in
      if d < 0 then - 1 else if 0 < d then 1
      else let d = sint (inode f1 - inode f2) in
      if d < 0 then - 1 else if 0 < d then 1
      else let d = sint (mtimenat f1 - mtimenat f2) in
      if d < 0 then - 1 else if 0 < d then 1 else 0)"

definition compare_inode :: "sync_folderlist \<Rightarrow> sync_folderlist \<Rightarrow> int" where
  "compare_inode f1 f2 =
     (let d = sint (inode f1 - inode f2) in if d < 0 then - 1 else if 0 < d then 1 else 0)"

section \<open>Scan lists\<close>

definition SCAN_LIST_NEWFILES :: nat where "SCAN_LIST_NEWFILES = 0"
definition SCAN_LIST_DELFILES :: nat where "SCAN_LIST_DELFILES = 1"
definition SCAN_LIST_NEWFOLDERS :: nat where "SCAN_LIST_NEWFOLDERS = 2"
definition SCAN_LIST_DELFOLDERS :: nat where "SCAN_LIST_DELFOLDERS = 3"
definition SCAN_LIST_MODFILES :: nat where "SCAN_LIST_MODFILES = 4"
definition SCAN_LIST_RENFILESFROM :: nat where "SCAN_LIST_RENFILESFROM = 5"
definition SCAN_LIST_RENFILESTO :: nat where "SCAN_LIST_RENFILESTO = 6"
definition SCAN_LIST_RENFOLDERSROM :: nat where "SCAN_LIST_RENFOLDERSROM = 7"
definition SCAN_LIST_RENFOLDERSTO :: nat where "SCAN_LIST_RENFOLDERSTO = 8"

lemmas scan_list_ids =
  SCAN_LIST_NEWFILES_def SCAN_LIST_DELFILES_def SCAN_LIST_NEWFOLDERS_def SCAN_LIST_DELFOLDERS_def
  SCAN_LIST_MODFILES_def SCAN_LIST_RENFILESFROM_def SCAN_LIST_RENFILESTO_def
  SCAN_LIST_RENFOLDERSROM_def SCAN_LIST_RENFOLDERSTO_def

record scan_state =
  scan_lists :: "nat \<Rightarrow> sync_folderlist list"
  localsleepperfolder :: nat
  changes :: nat
  backup_del_events :: "u64 list"
  tried_deletes :: "u64 list \<times> u64 list"

record scan_folder =
  ctx_folderid :: u64
  ctx_localfolderid :: u64
  ctx_syncid :: u32
  ctx_synctype :: u32

definition copy_folderlist_element :: "sync_folderlist \<Rightarrow> scan_folder \<Rightarrow> sync_folderlist" where
  "copy_folderlist_element e c =
     e\<lparr>localparentfolderid := ctx_localfolderid c, parentfolderid := ctx_folderid c,
       fsyncid := ctx_syncid c, fsynctype := ctx_synctype c\<rparr>"

definition add_element_to_scan_list :: "nat \<Rightarrow> sync_folderlist \<Rightarrow> scan_state \<Rightarrow> scan_state" where
  "add_element_to_scan_list i e s =
     s\<lparr>scan_lists := (scan_lists s)(i := scan_lists s i @ [e]), localsleepperfolder := 0,
       changes := changes s + 1\<rparr>"

definition new_element_accepted :: "u8 list \<Rightarrow> u64 \<Rightarrow> sync_folderlist \<Rightarrow> bool" where
  "new_element_accepted ign devid e \<longleftrightarrow>
     \<not> (isfolder e \<and> deviceid e \<noteq> devid) \<and> \<not> psync_is_name_to_ignore ign (fname e) \<and>
     psync_is_valid_utf8 (fname e @ [0]) = Ok True"

definition add_new_element :: "u8 list \<Rightarrow> scan_folder \<Rightarrow> u64 \<Rightarrow> sync_folderlist \<Rightarrow> scan_state \<Rightarrow> scan_state" where
  "add_new_element ign c devid e s =
     (if \<not> new_element_accepted ign devid e then s
      else (let ce = copy_folderlist_element e c in
        if isfolder e then add_element_to_scan_list SCAN_LIST_NEWFOLDERS ce s
        else add_element_to_scan_list SCAN_LIST_NEWFILES ce s))"

definition add_deleted_element :: "scan_folder \<Rightarrow> sync_folderlist \<Rightarrow> scan_state \<Rightarrow> scan_state" where
  "add_deleted_element c e s =
     (let ce = copy_folderlist_element e c in
      if isfolder e then add_element_to_scan_list SCAN_LIST_DELFOLDERS ce s
      else
        (let s = (if ctx_synctype c = 7
                  then s\<lparr>backup_del_events := backup_del_events s @ [remoteid ce]\<rparr> else s)
         in add_element_to_scan_list SCAN_LIST_DELFILES ce s))"

definition add_modified_file :: "scan_folder \<Rightarrow> sync_folderlist \<Rightarrow> scan_state \<Rightarrow> scan_state" where
  "add_modified_file c e s =
     add_element_to_scan_list SCAN_LIST_MODFILES (copy_folderlist_element e c) s"

section \<open>Comparing one folder\<close>

definition link_entry :: "u64 \<Rightarrow> sync_folderlist \<Rightarrow> sync_folderlist \<Rightarrow> sync_folderlist" where
  "link_entry devid fdisk fdb =
     (let f = fdisk\<lparr>localid := localid fdb, remoteid := remoteid fdb\<rparr> in
      if isfolder f \<and> psync_deviceid_short (deviceid f) \<noteq> deviceid fdb \<and> inode f \<noteq> inode fdb \<and>
         deviceid f = devid
      then f\<lparr>localid := 0\<rparr> else f)"

definition file_changed :: "sync_folderlist \<Rightarrow> sync_folderlist \<Rightarrow> bool" where
  "file_changed fdisk fdb \<longleftrightarrow> \<not> isfolder fdisk \<and>
     (mtimenat fdisk \<noteq> mtimenat fdb \<or> fsize fdisk \<noteq> fsize fdb \<or> inode fdisk \<noteq> inode fdb)"

fun scan_compare :: "u8 list \<Rightarrow> scan_folder \<Rightarrow> u64 \<Rightarrow> sync_folderlist list \<Rightarrow> sync_folderlist list \<Rightarrow>
    scan_state \<Rightarrow> sync_folderlist list \<times> scan_state" where
  "scan_compare ign c devid (fdisk # ds) (fdb # bs) s =
     (let cmp = strcmp (fname fdisk) (fname fdb) in
      if cmp = 0 then
        (if isfolder fdisk = isfolder fdb then
           (let f = link_entry devid fdisk fdb;
                s = (if file_changed fdisk fdb then add_modified_file c f s else s);
                r = scan_compare ign c devid ds bs s
            in (f # fst r, snd r))
         else
           (let s = add_deleted_element c fdb s;
                s = add_new_element ign c devid fdisk s;
                r = scan_compare ign c devid ds bs s
            in (fdisk # fst r, snd r)))
      else if cmp < 0 then
        (let r = scan_compare ign c devid ds (fdb # bs) (add_new_element ign c devid fdisk s)
         in (fdisk # fst r, snd r))
      else scan_compare ign c devid (fdisk # ds) bs (add_deleted_element c fdb s))"
| "scan_compare ign c devid (fdisk # ds) [] s =
     (let r = scan_compare ign c devid ds [] (add_new_element ign c devid fdisk s)
      in (fdisk # fst r, snd r))"
| "scan_compare ign c devid [] (fdb # bs) s =
     scan_compare ign c devid [] bs (add_deleted_element c fdb s)"
| "scan_compare ign c devid [] [] s = ([], s)"

section \<open>Scanning a folder and its subfolders\<close>

text \<open>
  What the scan reads: directory listings, the rows of the database, the ignore settings, and the
  clock after the comparison of each folder.
\<close>

record scan_world =
  w_list_dir :: "u8 list \<Rightarrow> (u8 list \<times> psync_stat_t) list option"
  w_folders :: "u32 \<Rightarrow> u64 \<Rightarrow> dbfolder_row list"
  w_files :: "u32 \<Rightarrow> u64 \<Rightarrow> dbfile_row list"
  w_ign :: ign_state
  w_ignorepatterns :: "u8 list"
  w_clock :: "u8 list \<Rightarrow> nat"
  w_starttime :: nat

definition PSYNC_LOCALSCAN_SLEEPSEC_PER_SCAN :: nat where
  "PSYNC_LOCALSCAN_SLEEPSEC_PER_SCAN = 10"

fun fold_opt :: "('a \<Rightarrow> 's \<Rightarrow> 's option) \<Rightarrow> 'a list \<Rightarrow> 's \<Rightarrow> 's option" where
  "fold_opt f [] s = Some s"
| "fold_opt f (x # xs) s = (case f x s of None \<Rightarrow> None | Some s \<Rightarrow> fold_opt f xs s)"

lemma fold_opt_cong [fundef_cong]:
  "xs = ys \<Longrightarrow> s = t \<Longrightarrow> (\<And>x u. x \<in> set ys \<Longrightarrow> f x u = g x u) \<Longrightarrow> fold_opt f xs s = fold_opt g ys t"
  by (induction xs arbitrary: ys s t) (auto split: option.splits)

definition sort_entries :: "sync_folderlist list \<Rightarrow> sync_folderlist list" where
  "sort_entries = merge_sort folderlist_cmp 1"

definition subfolder_path :: "u8 list \<Rightarrow> sync_folderlist \<Rightarrow> u8 list" where
  "subfolder_path path l = psync_strcat [path, [47], fname l]"

definition scan_one_folder :: "scan_world \<Rightarrow> u8 list \<Rightarrow> scan_folder \<Rightarrow> u64 \<Rightarrow>
    (u8 list \<times> psync_stat_t) list \<Rightarrow> scan_state \<Rightarrow> sync_folderlist list \<times> scan_state" where
  "scan_one_folder w path c devid es s =
     (let disk = sort_entries (scanner_local_folder_to_list (w_ign w) es);
          (db, delfolders, delfiles) =
            scanner_db_folder_to_list (w_ignorepatterns w)
              (w_folders w (ctx_syncid c) (ctx_localfolderid c))
              (w_files w (ctx_syncid c) (ctx_localfolderid c));
          s = s\<lparr>tried_deletes := (fst (tried_deletes s) @ delfolders, snd (tried_deletes s) @ delfiles)\<rparr>;
          (disk, s) = scan_compare (w_ignorepatterns w) c devid disk (sort_entries db) s
      in (disk,
          if localsleepperfolder s \<noteq> 0 \<and>
             PSYNC_LOCALSCAN_SLEEPSEC_PER_SCAN * 3 div 2 \<le> w_clock w path - w_starttime w
          then s\<lparr>localsleepperfolder := 0\<rparr> else s))"

definition enters_subfolder :: "u64 \<Rightarrow> sync_folderlist \<Rightarrow> bool" where
  "enters_subfolder devid l \<longleftrightarrow> isfolder l \<and> localid l \<noteq> 0 \<and> deviceid l = devid"

definition subfolder_ctx :: "scan_folder \<Rightarrow> sync_folderlist \<Rightarrow> scan_folder" where
  "subfolder_ctx c l = c\<lparr>ctx_folderid := remoteid l, ctx_localfolderid := localid l\<rparr>"

fun scanner_scan_folder :: "nat \<Rightarrow> scan_world \<Rightarrow> u8 list \<Rightarrow> scan_folder \<Rightarrow> u64 \<Rightarrow> scan_state \<Rightarrow> scan_state option" where
  "scanner_scan_folder 0 w path c devid s = None"
| "scanner_scan_folder (Suc n) w path c devid s =
     (case w_list_dir w path of
        None \<Rightarrow> Some s
      | Some es \<Rightarrow>
          (let (disk, s) = scan_one_folder w path c devid es s
           in fold_opt (\<lambda>l s. if enters_subfolder devid l
                 then scanner_scan_folder n w (subfolder_path path l) (subfolder_ctx c l) devid s
                 else Some s) disk s))"

section \<open>The order of names\<close>

lemma strcmp_anti: "sgn (strcmp b a) = - sgn (strcmp a b)"
proof (induction a b rule: strcmp.induct)
  case (4 a as b bs)
  show ?case
  proof (cases "a = b")
    case True
    with 4 show ?thesis by simp
  next
    case False
    then have "strcmp (b # bs) (a # as) = - strcmp (a # as) (b # bs)" by simp
    then show ?thesis by (simp only: sgn_minus)
  qed
qed auto

lemma strcmp_swap_eq: "strcmp b a = 0 \<longleftrightarrow> strcmp a b = 0"
  using strcmp_anti [of b a] by (metis sgn_0_0 neg_equal_0_iff_equal)

lemma strcmp_swap_less: "strcmp b a < 0 \<longleftrightarrow> 0 < strcmp a b"
  using strcmp_anti [of b a] by (auto simp: sgn_if split: if_splits)

lemma strcmp_eq_0: "strcmp a b = 0 \<longleftrightarrow> c_str a = c_str b"
  by (induction a b rule: strcmp.induct) (auto simp: c_str_def uint_0_iff word_uint_eq_iff [symmetric])

lemma strcmp_nil_le: "strcmp [] b \<le> 0"
  by (cases b) auto

lemma strcmp_zero_le: "strcmp (0 # a) b \<le> 0"
  by (cases b) auto

lemma strcmp_le_nil: "strcmp a [] \<le> 0 \<longleftrightarrow> a = [] \<or> hd a = 0"
  by (cases a) (auto simp: uint_0_iff order_antisym_conv)

lemma strcmp_trans: "strcmp a b \<le> 0 \<Longrightarrow> strcmp b c \<le> 0 \<Longrightarrow> strcmp a c \<le> 0"
proof (induction a arbitrary: b c)
  case Nil
  then show ?case by (simp add: strcmp_nil_le)
next
  case (Cons x xs)
  show ?case
  proof (cases "x = 0")
    case True
    then show ?thesis by (simp add: strcmp_zero_le)
  next
    case x: False
    then have x0: "0 < uint x" using uint_0_iff [of x] uint_ge_0 [of x] by linarith
    then obtain y ys where b: "b = y # ys" "uint x \<le> uint y" using Cons.prems(1)
      by (cases b) (auto split: if_splits)
    then have y0: "0 < uint y" using x0 by simp
    then obtain z zs where c: "c = z # zs" "uint y \<le> uint z" using Cons.prems(2) b
      by (cases c) (auto split: if_splits)
    have "strcmp xs zs \<le> 0" if "x = z"
    proof -
      have "x = y" "y = z" using that b(2) c(2) by (auto simp: word_uint_eq_iff)
      then show ?thesis using Cons.prems Cons.IH [of ys zs] b(1) c(1) x by simp
    qed
    then show ?thesis using b c x by auto
  qed
qed

text \<open>The comparison the two sorted lists are built with meets the contract of the sort.\<close>

interpretation by_name: list_cmp folderlist_cmp
proof
  show "sgn (folderlist_cmp b a) = - sgn (folderlist_cmp a b)" for a b
    unfolding folderlist_cmp_def by (rule strcmp_anti)
  show "folderlist_cmp a b \<le> 0 \<Longrightarrow> folderlist_cmp b c \<le> 0 \<Longrightarrow> folderlist_cmp a c \<le> 0" for a b c
    unfolding folderlist_cmp_def by (rule strcmp_trans)
qed

definition names_distinct :: "sync_folderlist list \<Rightarrow> bool" where
  "names_distinct xs \<longleftrightarrow> distinct (map (\<lambda>e. c_str (fname e)) xs)"

abbreviation name_sorted :: "sync_folderlist list \<Rightarrow> bool" where
  "name_sorted \<equiv> sorted_wrt (\<lambda>a b. strcmp (fname a) (fname b) < 0)"

lemma name_sorted_strict:
  "sorted_wrt (\<lambda>a b. strcmp (fname a) (fname b) \<le> 0) xs \<Longrightarrow> names_distinct xs \<Longrightarrow> name_sorted xs"
proof (induction xs)
  case (Cons x xs)
  have "strcmp (fname x) (fname y) < 0" if "y \<in> set xs" for y
  proof -
    have "strcmp (fname x) (fname y) \<le> 0" using Cons.prems(1) that by simp
    moreover have "c_str (fname x) \<noteq> c_str (fname y)"
      using Cons.prems(2) that unfolding names_distinct_def by force
    then have "strcmp (fname x) (fname y) \<noteq> 0" by (simp add: strcmp_eq_0)
    ultimately show ?thesis by simp
  qed
  with Cons show ?case by (simp add: names_distinct_def)
qed simp

lemma sort_entries_sorted:
  assumes "names_distinct xs" shows "name_sorted (sort_entries xs)"
proof -
  have o: "sorted_wrt (\<lambda>a b. strcmp (fname a) (fname b) \<le> 0) (sort_entries xs)"
    using by_name.ordered_merge_sort [of xs] by (simp add: sort_entries_def folderlist_cmp_def)
  have "mset (map (\<lambda>e. c_str (fname e)) (sort_entries xs)) = mset (map (\<lambda>e. c_str (fname e)) xs)"
    by (simp add: sort_entries_def)
  then have "names_distinct (sort_entries xs)"
    using assms mset_eq_imp_distinct_iff unfolding names_distinct_def by blast
  with o show ?thesis by (rule name_sorted_strict)
qed

lemma set_sort_entries [simp]: "set (sort_entries xs) = set xs"
  by (simp add: sort_entries_def)

lemma mset_sort_entries [simp]: "mset (sort_entries xs) = mset xs"
  by (simp add: sort_entries_def)

section \<open>Classification\<close>

text \<open>
  The declarative reading of a comparison: an entry on disk is new when the database has no entry of
  its name and kind, an entry of the database is deleted when the disk has none, and a file is
  modified when both have it with a different size, inode or time.
\<close>

definition same_entry :: "sync_folderlist \<Rightarrow> sync_folderlist \<Rightarrow> bool" where
  "same_entry a b \<longleftrightarrow> c_str (fname a) = c_str (fname b) \<and> isfolder a = isfolder b"

definition new_on_disk :: "sync_folderlist list \<Rightarrow> sync_folderlist \<Rightarrow> bool" where
  "new_on_disk db f \<longleftrightarrow> \<not> (\<exists>b\<in>set db. same_entry f b)"

definition gone_from_disk :: "sync_folderlist list \<Rightarrow> sync_folderlist \<Rightarrow> bool" where
  "gone_from_disk disk b \<longleftrightarrow> \<not> (\<exists>f\<in>set disk. same_entry f b)"

definition db_match :: "sync_folderlist list \<Rightarrow> sync_folderlist \<Rightarrow> sync_folderlist option" where
  "db_match db f = find (same_entry f) db"

definition linked_to_db :: "u64 \<Rightarrow> sync_folderlist list \<Rightarrow> sync_folderlist \<Rightarrow> sync_folderlist" where
  "linked_to_db devid db f = (case db_match db f of Some b \<Rightarrow> link_entry devid f b | None \<Rightarrow> f)"

definition modified_on_disk :: "sync_folderlist list \<Rightarrow> sync_folderlist \<Rightarrow> bool" where
  "modified_on_disk db f = (case db_match db f of Some b \<Rightarrow> file_changed f b | None \<Rightarrow> False)"

definition class_lists :: "u8 list \<Rightarrow> scan_folder \<Rightarrow> u64 \<Rightarrow> sync_folderlist list \<Rightarrow> sync_folderlist list \<Rightarrow>
    nat \<Rightarrow> sync_folderlist list" where
  "class_lists ign c devid disk db i =
     (let copies = map (\<lambda>e. copy_folderlist_element e c);
          new = filter (\<lambda>f. new_on_disk db f \<and> new_element_accepted ign devid f) disk;
          gone = filter (gone_from_disk disk) db
      in if i = SCAN_LIST_NEWFILES then copies (filter (\<lambda>f. \<not> isfolder f) new)
         else if i = SCAN_LIST_NEWFOLDERS then copies (filter isfolder new)
         else if i = SCAN_LIST_DELFILES then copies (filter (\<lambda>f. \<not> isfolder f) gone)
         else if i = SCAN_LIST_DELFOLDERS then copies (filter isfolder gone)
         else if i = SCAN_LIST_MODFILES then
           copies (map (linked_to_db devid db) (filter (modified_on_disk db) disk))
         else [])"

lemma scan_lists_add [simp]:
  "scan_lists (add_element_to_scan_list i e s) j = (if j = i then scan_lists s i @ [e] else scan_lists s j)"
  by (simp add: add_element_to_scan_list_def)

definition new_class :: "u8 list \<Rightarrow> scan_folder \<Rightarrow> u64 \<Rightarrow> sync_folderlist \<Rightarrow> nat \<Rightarrow> sync_folderlist list" where
  "new_class ign c devid e i =
     (if new_element_accepted ign devid e \<and> i = (if isfolder e then SCAN_LIST_NEWFOLDERS else SCAN_LIST_NEWFILES)
      then [copy_folderlist_element e c] else [])"

definition del_class :: "scan_folder \<Rightarrow> sync_folderlist \<Rightarrow> nat \<Rightarrow> sync_folderlist list" where
  "del_class c e i =
     (if i = (if isfolder e then SCAN_LIST_DELFOLDERS else SCAN_LIST_DELFILES)
      then [copy_folderlist_element e c] else [])"

lemma scan_lists_new:
  "scan_lists (add_new_element ign c devid e s) i = scan_lists s i @ new_class ign c devid e i"
  by (simp add: add_new_element_def new_class_def Let_def)

lemma scan_lists_del:
  "scan_lists (add_deleted_element c e s) i = scan_lists s i @ del_class c e i"
  by (simp add: add_deleted_element_def del_class_def Let_def)

lemma scan_lists_mod:
  "scan_lists (add_modified_file c e s) i =
     scan_lists s i @ (if i = SCAN_LIST_MODFILES then [copy_folderlist_element e c] else [])"
  by (simp add: add_modified_file_def)

definition mod_class :: "scan_folder \<Rightarrow> u64 \<Rightarrow> sync_folderlist \<Rightarrow> sync_folderlist \<Rightarrow> nat \<Rightarrow> sync_folderlist list" where
  "mod_class c devid f b i =
     (if i = SCAN_LIST_MODFILES \<and> file_changed f b then [copy_folderlist_element (link_entry devid f b) c] else [])"

text \<open>
  The classes of two lists, taken apart at the head of one of them: the head of the disk list matches
  nothing, the head of the database list matches nothing, or the two heads match each other.
\<close>

lemma gone_Cons_no_match:
  "\<not> same_entry f b \<Longrightarrow> gone_from_disk (f # disk) b \<longleftrightarrow> gone_from_disk disk b"
  by (simp add: gone_from_disk_def)

lemma new_Cons_no_match:
  "\<not> same_entry f b \<Longrightarrow> new_on_disk (b # db) f \<longleftrightarrow> new_on_disk db f"
  "\<not> same_entry f b \<Longrightarrow> db_match (b # db) f = db_match db f"
  by (simp_all add: new_on_disk_def db_match_def)

lemma class_new_head:
  assumes "\<forall>b\<in>set db. \<not> same_entry f b"
  shows "class_lists ign c devid (f # disk) db i =
    new_class ign c devid f i @ class_lists ign c devid disk db i"
proof -
  have n: "new_on_disk db f" using assms by (auto simp: new_on_disk_def)
  have m: "db_match db f = None" using assms by (auto simp: db_match_def find_None_iff)
  have g: "filter (gone_from_disk (f # disk)) db = filter (gone_from_disk disk) db"
    by (rule filter_cong) (use assms gone_Cons_no_match in auto)
  show ?thesis
    unfolding class_lists_def Let_def g new_class_def
    using n m by (simp add: modified_on_disk_def scan_list_ids)
qed

lemma class_del_head:
  assumes "\<forall>f\<in>set disk. \<not> same_entry f b"
  shows "class_lists ign c devid disk (b # db) i = del_class c b i @ class_lists ign c devid disk db i"
proof -
  have g: "gone_from_disk disk b" using assms by (auto simp: gone_from_disk_def)
  have n: "filter (\<lambda>f. new_on_disk (b # db) f \<and> new_element_accepted ign devid f) disk =
      filter (\<lambda>f. new_on_disk db f \<and> new_element_accepted ign devid f) disk"
    by (rule filter_cong) (use assms new_Cons_no_match in auto)
  have m: "map (linked_to_db devid (b # db)) (filter (modified_on_disk (b # db)) disk) =
      map (linked_to_db devid db) (filter (modified_on_disk db) disk)"
  proof (rule map_cong)
    show "filter (modified_on_disk (b # db)) disk = filter (modified_on_disk db) disk"
      by (rule filter_cong) (use assms new_Cons_no_match in \<open>auto simp: modified_on_disk_def\<close>)
  qed (use assms new_Cons_no_match in \<open>auto simp: linked_to_db_def\<close>)
  show ?thesis
    unfolding class_lists_def Let_def n m del_class_def
    using g by (simp add: scan_list_ids)
qed

lemma class_match_head:
  assumes "same_entry f b" and "\<forall>b'\<in>set db. \<not> same_entry f b'" and "\<forall>f'\<in>set disk. \<not> same_entry f' b"
  shows "class_lists ign c devid (f # disk) (b # db) i =
    mod_class c devid f b i @ class_lists ign c devid disk db i"
proof -
  have "\<not> new_on_disk (b # db) f" "\<not> gone_from_disk (f # disk) b" "db_match (b # db) f = Some b"
    using assms(1) by (auto simp: new_on_disk_def gone_from_disk_def db_match_def)
  moreover have g: "filter (gone_from_disk (f # disk)) db = filter (gone_from_disk disk) db"
    by (rule filter_cong) (use assms(2) gone_Cons_no_match in auto)
  moreover have n: "filter (\<lambda>f. new_on_disk (b # db) f \<and> new_element_accepted ign devid f) disk =
      filter (\<lambda>f. new_on_disk db f \<and> new_element_accepted ign devid f) disk"
    by (rule filter_cong) (use assms(3) new_Cons_no_match in auto)
  moreover have m: "map (linked_to_db devid (b # db)) (filter (modified_on_disk (b # db)) disk) =
      map (linked_to_db devid db) (filter (modified_on_disk db) disk)"
  proof (rule map_cong)
    show "filter (modified_on_disk (b # db)) disk = filter (modified_on_disk db) disk"
      by (rule filter_cong) (use assms(3) new_Cons_no_match in \<open>auto simp: modified_on_disk_def\<close>)
  qed (use assms(3) new_Cons_no_match in \<open>auto simp: linked_to_db_def\<close>)
  ultimately show ?thesis
    by (simp add: class_lists_def Let_def mod_class_def scan_list_ids modified_on_disk_def [of "b # db" f]
        linked_to_db_def [of devid "b # db" f] del: map_map)
qed

lemma not_same_entry: "strcmp (fname a) (fname b) \<noteq> 0 \<Longrightarrow> \<not> same_entry a b"
  by (simp add: same_entry_def strcmp_eq_0)

lemma strcmp_less_trans: "strcmp a b < 0 \<Longrightarrow> strcmp b c \<le> 0 \<Longrightarrow> strcmp a c < 0"
proof (rule ccontr)
  assume a: "strcmp a b < 0" and b: "strcmp b c \<le> 0" and "\<not> strcmp a c < 0"
  then have "strcmp c a \<le> 0" using strcmp_swap_less [of c a] strcmp_swap_eq [of c a] by linarith
  then have "strcmp b a \<le> 0" using b strcmp_trans by blast
  with a show False using strcmp_swap_less [of a b] by simp
qed

lemma name_less_no_match:
  assumes "name_sorted (b # bs)" and "strcmp (fname f) (fname b) < 0"
  shows "\<forall>b'\<in>set (b # bs). \<not> same_entry f b'" and "\<forall>b'\<in>set (b # bs). \<not> same_entry b' f"
proof -
  have lt: "strcmp (fname f) (fname b') < 0" if "b' \<in> set (b # bs)" for b'
    using that assms strcmp_less_trans [OF assms(2), of "fname b'"] by fastforce
  then show "\<forall>b'\<in>set (b # bs). \<not> same_entry f b'" using not_same_entry by (metis less_irrefl)
  then show "\<forall>b'\<in>set (b # bs). \<not> same_entry b' f" by (auto simp: same_entry_def)
qed

lemma name_eq_no_match:
  assumes "name_sorted (b # bs)" and "strcmp (fname f) (fname b) = 0"
  shows "\<forall>b'\<in>set bs. \<not> same_entry f b'" and "\<forall>b'\<in>set bs. \<not> same_entry b' f"
proof -
  have ne: "c_str (fname f) \<noteq> c_str (fname b')" if "b' \<in> set bs" for b'
  proof -
    have "strcmp (fname b) (fname b') \<noteq> 0" using that assms(1) by auto
    then show ?thesis using assms(2) by (simp add: strcmp_eq_0)
  qed
  show "\<forall>b'\<in>set bs. \<not> same_entry f b'" "\<forall>b'\<in>set bs. \<not> same_entry b' f"
    using ne by (force simp: same_entry_def)+
qed

lemma class_lists_Nil [simp]: "class_lists ign c devid [] [] i = []"
  by (simp add: class_lists_def Let_def)

lemma linked_to_db_no_match:
  assumes "\<forall>b\<in>set db. \<not> same_entry f b" shows "linked_to_db devid db f = f"
proof -
  have "db_match db f = None" using assms by (auto simp: db_match_def find_None_iff)
  then show ?thesis by (simp add: linked_to_db_def)
qed

lemma linked_to_db_skip: "\<not> same_entry f b \<Longrightarrow> linked_to_db devid (b # db) f = linked_to_db devid db f"
  by (simp add: linked_to_db_def new_Cons_no_match)

lemma linked_to_db_hit: "same_entry f b \<Longrightarrow> linked_to_db devid (b # db) f = link_entry devid f b"
  by (simp add: linked_to_db_def db_match_def)

lemma new_del_swap: "new_class ign c devid f i @ del_class c b i @ xs = del_class c b i @ new_class ign c devid f i @ xs"
  by (simp add: new_class_def del_class_def scan_list_ids)

lemma map_linked_skip:
  "\<forall>f\<in>set disk. \<not> same_entry f b \<Longrightarrow> map (linked_to_db devid (b # db)) disk = map (linked_to_db devid db) disk"
  by (rule map_cong) (auto simp: linked_to_db_skip)

lemma scan_compare_correct:
  assumes "name_sorted disk" and "name_sorted db"
  shows "scan_lists (snd (scan_compare ign c devid disk db s)) i = scan_lists s i @ class_lists ign c devid disk db i \<and>
    fst (scan_compare ign c devid disk db s) = map (linked_to_db devid db) disk"
  using assms
proof (induction ign c devid disk db s rule: scan_compare.induct)
  case (1 ign c devid f ds b bs s)
  consider (eq) "strcmp (fname f) (fname b) = 0" | (lt) "strcmp (fname f) (fname b) < 0"
    | (gt) "strcmp (fname f) (fname b) > 0" by linarith
  then show ?case
  proof cases
    case eq
    have eq': "strcmp (fname b) (fname f) = 0" using eq strcmp_swap_eq by blast
    note nb = name_eq_no_match(1) [OF "1.prems"(2) eq] and nf = name_eq_no_match(2) [OF "1.prems"(1) eq']
    have sorted: "name_sorted ds" "name_sorted bs" using "1.prems" by auto
    show ?thesis
    proof (cases "isfolder f = isfolder b")
      case True
      then have "same_entry f b" using eq by (simp add: same_entry_def strcmp_eq_0)
      then show ?thesis
        using "1.IH"(1) [OF refl eq True refl refl sorted] eq True class_match_head [OF _ nb nf]
          map_linked_skip [OF nf] linked_to_db_hit
        by (simp add: Let_def scan_lists_mod mod_class_def)
    next
      case False
      then have "\<not> same_entry f b" by (simp add: same_entry_def)
      then show ?thesis
        using "1.IH"(2) [OF refl eq False refl refl sorted] eq False class_new_head [of "b # bs" f]
          class_del_head [OF nf] nb map_linked_skip [OF nf] linked_to_db_no_match [of "b # bs" f]
        by (simp add: Let_def scan_lists_new scan_lists_del new_del_swap)
    qed
  next
    case lt
    note nm = name_less_no_match(1) [OF "1.prems"(2) lt]
    show ?thesis
      using "1.IH"(3) [OF refl _ lt _ "1.prems"(2)] lt "1.prems"(1) class_new_head [OF nm] linked_to_db_no_match [OF nm]
      by (simp add: Let_def scan_lists_new)
  next
    case gt
    then have lt: "strcmp (fname b) (fname f) < 0" using strcmp_swap_less by blast
    note nm = name_less_no_match(2) [OF "1.prems"(1) lt]
    show ?thesis
      using "1.IH"(4) [OF refl _ _ "1.prems"(1)] gt "1.prems"(2) class_del_head [OF nm] map_linked_skip [OF nm]
      by (simp add: Let_def scan_lists_del)
  qed
next
  case (2 ign c devid f ds s)
  then show ?case using class_new_head [of "[]" f] linked_to_db_no_match [of "[]" f]
    by (simp add: Let_def scan_lists_new)
next
  case (3 ign c devid b bs s)
  then show ?case using class_del_head [of "[]" b] by (simp add: Let_def scan_lists_del)
qed auto

section \<open>The recursion returns\<close>

lemma scan_compare_names:
  "map (\<lambda>l. (fname l, isfolder l)) (fst (scan_compare ign c devid disk db s)) = map (\<lambda>l. (fname l, isfolder l)) disk"
  by (induction ign c devid disk db s rule: scan_compare.induct) (auto simp: Let_def link_entry_def)

lemma local_list_names:
  "l \<in> set (scanner_local_folder_to_list ig es) \<Longrightarrow> \<exists>st. (fname l, st) \<in> set es \<and> st_isdir st = isfolder l"
proof -
  have g: "l \<in> set (fold (scanner_local_entry_to_list ig) es acc) \<Longrightarrow>
      l \<in> set acc \<or> (\<exists>st. (fname l, st) \<in> set es \<and> st_isdir st = isfolder l)" for acc
    by (induction es arbitrary: acc)
       (fastforce simp: scanner_local_entry_to_list_def split: prod.splits if_splits)+
  assume "l \<in> set (scanner_local_folder_to_list ig es)"
  then show ?thesis using g [of "[]"] by (simp add: scanner_local_folder_to_list_def)
qed

lemma scan_one_folder_names:
  assumes "l \<in> set (fst (scan_one_folder w path c devid es s))"
  shows "\<exists>st. (fname l, st) \<in> set es \<and> st_isdir st = isfolder l"
proof -
  define disk where "disk = sort_entries (scanner_local_folder_to_list (w_ign w) es)"
  obtain db a b where db: "scanner_db_folder_to_list (w_ignorepatterns w)
      (w_folders w (ctx_syncid c) (ctx_localfolderid c)) (w_files w (ctx_syncid c) (ctx_localfolderid c)) = (db, a, b)"
    by (metis surj_pair)
  have "\<exists>db t. fst (scan_one_folder w path c devid es s) =
      fst (scan_compare (w_ignorepatterns w) c devid disk db t)"
    unfolding scan_one_folder_def disk_def [symmetric] db Let_def case_prod_beta fst_conv by blast
  then obtain db t where "l \<in> set (fst (scan_compare (w_ignorepatterns w) c devid disk db t))"
    using assms by auto
  then have "(fname l, isfolder l) \<in> set (map (\<lambda>l. (fname l, isfolder l))
      (fst (scan_compare (w_ignorepatterns w) c devid disk db t)))" by force
  then have "(fname l, isfolder l) \<in> set (map (\<lambda>l. (fname l, isfolder l)) disk)"
    unfolding scan_compare_names .
  then obtain l' where "l' \<in> set disk" "fname l' = fname l" "isfolder l' = isfolder l" by auto
  then show ?thesis using local_list_names [of l' "w_ign w" es] by (auto simp: disk_def)
qed

lemma fold_opt_total:
  "\<forall>x\<in>set xs. \<forall>s. \<exists>s'. f x s = Some s' \<Longrightarrow> \<exists>s'. fold_opt f xs s = Some s'"
proof (induction xs arbitrary: s)
  case (Cons x xs)
  have "\<exists>s1. f x s = Some s1" using Cons.prems by simp
  then obtain s1 where "f x s = Some s1" ..
  with Cons show ?case by simp
qed simp

lemma scan_fuel:
  assumes "\<forall>p es name st. w_list_dir w p = Some es \<longrightarrow> (name, st) \<in> set es \<longrightarrow> st_isdir st \<longrightarrow>
      rank (psync_strcat [p, [47], name]) < rank p"
    and "rank path < n"
  shows "\<exists>s'. scanner_scan_folder n w path c devid s = Some s'"
  using assms(2)
proof (induction n arbitrary: path c s)
  case (Suc n)
  show ?case
  proof (cases "w_list_dir w path")
    case (Some es)
    obtain disk s1 where o: "scan_one_folder w path c devid es s = (disk, s1)" by fastforce
    have "\<forall>l\<in>set disk. \<forall>t. \<exists>t'. (if enters_subfolder devid l
        then scanner_scan_folder n w (subfolder_path path l) (subfolder_ctx c l) devid t else Some t) = Some t'"
    proof (intro ballI allI)
      fix l t assume "l \<in> set disk"
      then obtain st where st: "(fname l, st) \<in> set es" "st_isdir st = isfolder l"
        using scan_one_folder_names [of l w path c devid es s] o by auto
      show "\<exists>t'. (if enters_subfolder devid l
        then scanner_scan_folder n w (subfolder_path path l) (subfolder_ctx c l) devid t else Some t) = Some t'"
      proof (cases "enters_subfolder devid l")
        case True
        then have "rank (subfolder_path path l) < rank path"
          using assms(1) Some st by (auto simp: enters_subfolder_def subfolder_path_def)
        then show ?thesis using Suc True by simp
      qed simp
    qed
    then have "\<exists>s'. fold_opt (\<lambda>l s. if enters_subfolder devid l
        then scanner_scan_folder n w (subfolder_path path l) (subfolder_ctx c l) devid s else Some s) disk s1 = Some s'"
      by (rule fold_opt_total)
    then show ?thesis using Some o by simp
  qed simp
qed simp

section \<open>Ignored names and paths\<close>

lemma c_str_idem [simp]: "c_str (c_str s) = c_str s"
  by (rule c_str_no_nul) (auto simp: c_str_def dest: set_takeWhileD)

fun split_semi :: "u8 list \<Rightarrow> u8 list list" where
  "split_semi [] = [[]]"
| "split_semi (c # cs) =
     (if c = 59 then [] # split_semi cs
      else (case split_semi cs of p # ps \<Rightarrow> (c # p) # ps | [] \<Rightarrow> [[c]]))"

lemma split_semi_step:
  "split_semi ign = takeWhile (\<lambda>c. c \<noteq> 59) ign #
     (case dropWhile (\<lambda>c. c \<noteq> 59) ign of [] \<Rightarrow> [] | _ # r \<Rightarrow> split_semi r)"
  by (induction ign) (auto split: list.splits)

lemma ignore_loop_split:
  "ignore_loop name ign \<longleftrightarrow> (\<exists>p\<in>set (split_semi ign). glob (trim_right (trim_left p)) name)"
proof (induction name ign rule: ignore_loop.induct)
  case (1 name ign)
  show ?case
  proof (cases "dropWhile (\<lambda>c. c \<noteq> 59) ign")
    case Nil
    then have "split_semi ign = [takeWhile (\<lambda>c. c \<noteq> 59) ign]"
      by (subst split_semi_step) (simp only: list.case)
    then show ?thesis using Nil
      by (subst ignore_loop.simps) (simp only: Let_def if_True match_glob(1) list.set, auto)
  next
    case (Cons c r)
    then show ?thesis using 1
      by (subst ignore_loop.simps) (simp add: split_semi_step [of ign] match_glob(1) Let_def)
  qed
qed

definition ign_bounded :: "ign_state \<Rightarrow> bool" where
  "ign_bounded s \<longleftrightarrow> length (ignored_paths s) \<le> ign_paths_alloc s"

lemma add_ignored_dir_bounded: "ign_bounded s \<Longrightarrow> ign_bounded (add_ignored_dir fstat p s)"
  by (auto simp: ign_bounded_def add_ignored_dir_def Let_def split: option.splits)

lemma ign_loop_bounded: "ign_bounded s \<Longrightarrow> ign_bounded (ign_loop fstat home ps s)"
proof (induction fstat home ps s rule: ign_loop.induct)
  case (1 fstat home ps s)
  then show ?case
    by (subst ign_loop.simps) (auto simp: Let_def add_ignored_dir_bounded split: option.splits)
qed

section \<open>Inode order\<close>

lemma sint_diff:
  fixes a b :: u64
  assumes "\<bar>uint a - uint b\<bar> < 2 ^ 63" shows "sint (a - b) = uint a - uint b"
proof -
  have "sint (a - b) = signed_take_bit 63 (uint a - uint b)"
    unfolding word_sub_wi signed_of_int by simp
  then show ?thesis using assms by (simp add: signed_take_bit_int_eq_self_iff abs_less_iff)
qed

section \<open>Properties\<close>

text \<open>
  C3. The comparison of a folder is exact. When names are unique on disk and in the database, each
  scan list grows by precisely the entries of its class: new files and folders that the database does
  not have and the ignore rules accept, deleted ones that the disk does not have, files that both have
  with another size, inode or time; and each entry on disk is returned with the ids of its row.
\<close>
theorem scan_folder_classifies:
  assumes "disk = scanner_local_folder_to_list (w_ign w) es"
    and "db = fst (scanner_db_folder_to_list (w_ignorepatterns w)
      (w_folders w (ctx_syncid c) (ctx_localfolderid c)) (w_files w (ctx_syncid c) (ctx_localfolderid c)))"
    and "names_distinct disk" and "names_distinct db"
  shows "scan_lists (snd (scan_one_folder w path c devid es s)) i =
      scan_lists s i @ class_lists (w_ignorepatterns w) c devid (sort_entries disk) (sort_entries db) i \<and>
    fst (scan_one_folder w path c devid es s) = map (linked_to_db devid (sort_entries db)) (sort_entries disk)"
proof -
  obtain a b where db: "scanner_db_folder_to_list (w_ignorepatterns w)
      (w_folders w (ctx_syncid c) (ctx_localfolderid c)) (w_files w (ctx_syncid c) (ctx_localfolderid c)) = (db, a, b)"
    using assms(2) by (metis prod.collapse)
  have sorted: "name_sorted (sort_entries disk)" "name_sorted (sort_entries db)"
    using assms(3,4) sort_entries_sorted by blast+
  show ?thesis
    using scan_compare_correct [OF sorted, of "w_ignorepatterns w" c devid]
    unfolding scan_one_folder_def assms(1) [symmetric] db Let_def case_prod_beta fst_conv snd_conv
    by simp
qed

definition sample_entry :: "u64 \<Rightarrow> u64 \<Rightarrow> bool \<Rightarrow> u8 list \<Rightarrow> sync_folderlist" where
  "sample_entry lid sz dir name =
     \<lparr>localid = lid, remoteid = lid, localparentfolderid = 0, parentfolderid = 0, inode = 7, deviceid = 1,
      mtimenat = 5, fsize = sz, fsyncid = 0, fsynctype = 0, isfolder = dir, fname = name\<rparr>"

definition sample_world :: scan_world where
  "sample_world =
     \<lparr>w_list_dir = (\<lambda>p. if p = [47] then Some [([98], \<lparr>st_ino = 7, st_dev = 1, st_mtime_native = 5, st_size = 3,
         st_isdir = False\<rparr>)] else None),
      w_folders = (\<lambda>_ _. []),
      w_files = (\<lambda>_ _. [\<lparr>dbf_id = 4, dbf_fileid = None, dbf_inode = 7, dbf_mtimenative = 5, dbf_size = 3,
         dbf_name = [97]\<rparr>]),
      w_ign = \<lparr>ignored_paths = [], ign_paths_alloc = 0, ign_last_check = 0, ign_checksum = []\<rparr>,
      w_ignorepatterns = [], w_clock = (\<lambda>_. 0), w_starttime = 0\<rparr>"

lemma scan_folder_classifies_witness:
  "scan_lists (snd (scan_one_folder sample_world [47]
      \<lparr>ctx_folderid = 0, ctx_localfolderid = 0, ctx_syncid = 1, ctx_synctype = 3\<rparr> 1
      (the (w_list_dir sample_world [47])) \<lparr>scan_lists = (\<lambda>_. []), localsleepperfolder = 0, changes = 0,
        backup_del_events = [], tried_deletes = ([], [])\<rparr>)) SCAN_LIST_DELFOLDERS = []"
proof -
  let ?c = "\<lparr>ctx_folderid = 0, ctx_localfolderid = 0, ctx_syncid = 1, ctx_synctype = 3\<rparr>"
  let ?es = "the (w_list_dir sample_world [47])"
  let ?db = "fst (scanner_db_folder_to_list (w_ignorepatterns sample_world)
      (w_folders sample_world (ctx_syncid ?c) (ctx_localfolderid ?c)) (w_files sample_world (ctx_syncid ?c) (ctx_localfolderid ?c)))"
  have "names_distinct (scanner_local_folder_to_list (w_ign sample_world) ?es)"
    by (simp add: sample_world_def scanner_local_folder_to_list_def scanner_local_entry_to_list_def
        is_path_to_ignore_def names_distinct_def)
  moreover have "names_distinct ?db"
    by (simp add: sample_world_def scanner_db_folder_to_list_def names_distinct_def)
  moreover have "\<forall>b\<in>set ?db. \<not> isfolder b"
    by (simp add: sample_world_def scanner_db_folder_to_list_def dbfile_entry_def)
  ultimately show ?thesis
    using scan_folder_classifies [OF refl refl, of sample_world ?es ?c "[47]" 1 "\<lparr>scan_lists = (\<lambda>_. []),
        localsleepperfolder = 0, changes = 0, backup_del_events = [], tried_deletes = ([], [])\<rparr>" SCAN_LIST_DELFOLDERS]
    by (simp add: class_lists_def Let_def scan_list_ids filter_empty_conv)
qed

text \<open>
  C22. A folder that matches the database is left alone: when every entry on disk has a row of its
  name and kind with the same attributes and every row has its entry, a scan of the folder adds nothing
  to any scan list, so that nothing is uploaded, renamed or deleted.
\<close>
theorem scan_folder_unchanged:
  assumes "disk = scanner_local_folder_to_list (w_ign w) es"
    and "db = fst (scanner_db_folder_to_list (w_ignorepatterns w)
      (w_folders w (ctx_syncid c) (ctx_localfolderid c)) (w_files w (ctx_syncid c) (ctx_localfolderid c)))"
    and "names_distinct disk" and "names_distinct db"
    and "\<forall>f\<in>set disk. \<exists>b\<in>set db. same_entry f b \<and> \<not> file_changed f b"
    and "\<forall>b\<in>set db. \<exists>f\<in>set disk. same_entry f b"
  shows "scan_lists (snd (scan_one_folder w path c devid es s)) = scan_lists s"
proof -
  have "class_lists ign c devid (sort_entries disk) (sort_entries db) i = []" for ign i
  proof -
    have new: "\<not> new_on_disk (sort_entries db) f" if "f \<in> set (sort_entries disk)" for f
      using that assms(5) by (auto simp: new_on_disk_def)
    have gone: "\<not> gone_from_disk (sort_entries disk) b" if "b \<in> set (sort_entries db)" for b
      using that assms(6) by (auto simp: gone_from_disk_def)
    have modi: "\<not> modified_on_disk (sort_entries db) f" if f: "f \<in> set (sort_entries disk)" for f
    proof -
      obtain b where b: "b \<in> set db" "same_entry f b" "\<not> file_changed f b" using f assms(5) by auto
      have "b' = b" if "find (same_entry f) (sort_entries db) = Some b'" for b'
      proof -
        have b': "b' \<in> set db" "same_entry f b'" using that by (auto simp: find_Some_iff) (metis nth_mem set_sort_entries)
        then have "c_str (fname b') = c_str (fname b)" using b(2) by (simp add: same_entry_def)
        then show ?thesis using b(1) b'(1) assms(4) unfolding names_distinct_def
          by (metis (mono_tags, lifting) distinct_map inj_on_contraD)
      qed
      then show ?thesis using b(3) by (auto simp: modified_on_disk_def db_match_def split: option.splits)
    qed
    show ?thesis using new gone modi
      by (simp add: class_lists_def Let_def cong: filter_cong)
  qed
  moreover have "name_sorted (sort_entries disk)" "name_sorted (sort_entries db)"
    using assms(3,4) sort_entries_sorted by blast+
  ultimately have "scan_lists (snd (scan_compare ign c devid (sort_entries disk) (sort_entries db) t)) = scan_lists t" for ign t
    using scan_compare_correct [of "sort_entries disk" "sort_entries db" ign c devid t] by auto
  moreover obtain a b where "scanner_db_folder_to_list (w_ignorepatterns w)
      (w_folders w (ctx_syncid c) (ctx_localfolderid c)) (w_files w (ctx_syncid c) (ctx_localfolderid c)) = (db, a, b)"
    using assms(2) by (metis prod.collapse)
  ultimately show ?thesis
    unfolding scan_one_folder_def assms(1) [symmetric] Let_def case_prod_beta by simp
qed

definition sample_matching :: scan_world where
  "sample_matching = sample_world\<lparr>w_files := (\<lambda>_ _. [\<lparr>dbf_id = 4, dbf_fileid = None, dbf_inode = 7,
     dbf_mtimenative = 5, dbf_size = 3, dbf_name = [98]\<rparr>])\<rparr>"

lemma no_pattern_ignores: "psync_is_lname_to_ignore [] [98] = False"
  by (simp add: psync_is_lname_to_ignore_def ignore_loop.simps Let_def trim_right_def trim_left_def)

lemma scan_folder_unchanged_witness:
  "scan_lists (snd (scan_one_folder sample_matching [47]
      \<lparr>ctx_folderid = 0, ctx_localfolderid = 0, ctx_syncid = 1, ctx_synctype = 3\<rparr> 1 (the (w_list_dir sample_matching [47]))
      \<lparr>scan_lists = (\<lambda>_. []), localsleepperfolder = 0, changes = 0, backup_del_events = [], tried_deletes = ([], [])\<rparr>)) = (\<lambda>_. [])"
  by (rule scan_folder_unchanged [OF refl refl, THEN trans])
    (simp_all add: sample_matching_def sample_world_def scanner_local_folder_to_list_def
      scanner_local_entry_to_list_def is_path_to_ignore_def scanner_db_folder_to_list_def
      names_distinct_def no_pattern_ignores dbfile_entry_def same_entry_def file_changed_def)

text \<open>
  The scan of a directory tree returns: when subdirectories have a smaller rank than the directory
  that lists them (the depth of a file system without symbolic-link cycles is such a rank), a recursion
  bound above the rank of the start folder is enough, whatever the database holds.
\<close>
theorem scanner_scan_folder_returns:
  assumes "\<forall>p es name st. w_list_dir w p = Some es \<longrightarrow> (name, st) \<in> set es \<longrightarrow> st_isdir st \<longrightarrow>
      rank (psync_strcat [p, [47], name]) < rank p"
    and "rank path < n"
  shows "\<exists>s'. scanner_scan_folder n w path c devid s = Some s'"
  using assms by (rule scan_fuel)

lemma scanner_scan_folder_returns_witness:
  "\<exists>s'. scanner_scan_folder 1 sample_world [47]
      \<lparr>ctx_folderid = 0, ctx_localfolderid = 0, ctx_syncid = 1, ctx_synctype = 3\<rparr> 1
      \<lparr>scan_lists = (\<lambda>_. []), localsleepperfolder = 0, changes = 0, backup_del_events = [], tried_deletes = ([], [])\<rparr> = Some s'"
  by (rule scanner_scan_folder_returns [where rank = "\<lambda>_. 0"])
    (auto simp: sample_world_def split: if_splits)

text \<open>
  The comparisons that pair deleted with new entries subtract 64-bit identifiers and read the sign
  of the difference: they order inodes numerically when these lie less than 2^63 apart.
\<close>
theorem compare_inode_numeric:
  assumes "\<bar>uint (inode a) - uint (inode b)\<bar> < 2 ^ 63"
  shows "compare_inode a b = sgn (uint (inode a) - uint (inode b))"
  using sint_diff [OF assms] by (simp add: compare_inode_def Let_def sgn_if)

lemma compare_inode_numeric_witness:
  "compare_inode (sample_entry 1 0 True [97]) ((sample_entry 2 0 True [98])\<lparr>inode := 9\<rparr>) = - 1"
  using compare_inode_numeric [of "sample_entry 1 0 True [97]" "(sample_entry 2 0 True [98])\<lparr>inode := 9\<rparr>"]
  by (simp add: sample_entry_def)

text \<open>
  Further apart they are not an order: three inodes compare in a circle, so that the lists sorted
  with \<^verbatim>\<open>compare_inode\<close> or \<^verbatim>\<open>compare_sizeinodemtime\<close> before the extraction of renames have no order
  the extraction could rely on.
\<close>
theorem compare_inode_circular:
  "\<exists>a b c. compare_inode a b < 0 \<and> compare_inode b c < 0 \<and> compare_inode c a < 0 \<and>
     compare_sizeinodemtime a b < 0 \<and> compare_sizeinodemtime b c < 0 \<and> compare_sizeinodemtime c a < 0"
proof -
  define e where "e i = (sample_entry 1 0 True [97])\<lparr>inode := i\<rparr>" for i
  have "compare_inode (e 0) (e 0x7fffffffffffffff) < 0 \<and>
      compare_inode (e 0x7fffffffffffffff) (e 0xfffffffffffffffe) < 0 \<and>
      compare_inode (e 0xfffffffffffffffe) (e 0) < 0"
    "compare_sizeinodemtime (e 0) (e 0x7fffffffffffffff) < 0 \<and>
      compare_sizeinodemtime (e 0x7fffffffffffffff) (e 0xfffffffffffffffe) < 0 \<and>
      compare_sizeinodemtime (e 0xfffffffffffffffe) (e 0) < 0"
    by (simp_all add: e_def sample_entry_def compare_inode_def compare_sizeinodemtime_def Let_def)
  then show ?thesis by blast
qed

text \<open>
  A name is ignored exactly when one of the semicolon-separated patterns of the setting, with the
  white space around it removed, matches the lower-cased name in the sense of shell wildcards.
\<close>
theorem ignored_names:
  "psync_is_name_to_ignore ignorepatterns name \<longleftrightarrow>
     (\<exists>p\<in>set (split_semi (c_str ignorepatterns)). glob (trim_right (trim_left p)) (map tolower (c_str name)))"
  unfolding psync_is_name_to_ignore_def psync_is_lname_to_ignore_def ignore_loop_split
  by simp

text \<open>
  The list of ignored paths is never refreshed once an hour has passed: with the same setting,
  a call more than 3600 seconds after the last reading keeps the old device and inode numbers,
  whatever \<^verbatim>\<open>stat\<close> answers now, while a call within the hour reads them anew (the comparison of the
  two times is the wrong way round for a refresh after an hour). Every reading keeps the array within
  its allocation.
\<close>
theorem reload_ignored_folders_stale:
  assumes "ign_checksum s = sha256 (c_str ignorepaths)"
  shows "(ign_last_check s + 3600 < now \<longrightarrow> reload_ignored_folders sha256 fstat home ignorepaths now s = s) \<and>
    (now \<le> ign_last_check s + 3600 \<longrightarrow>
      ign_last_check (reload_ignored_folders sha256 fstat home ignorepaths now s) = now) \<and>
    (ign_bounded s \<longrightarrow> ign_bounded (reload_ignored_folders sha256 fstat home ignorepaths now s))"
proof -
  have keep: "ign_last_check (add_ignored_dir fstat d t) = ign_last_check t" for fstat d t
    by (simp add: add_ignored_dir_def Let_def split: option.splits)
  have "ign_last_check (ign_loop fstat home ps t) = ign_last_check t" for ps t
  proof (induction fstat home ps t rule: ign_loop.induct)
    case (1 fstat home ps t)
    then show ?case
      by (subst ign_loop.simps) (auto simp: Let_def keep split: option.splits)
  qed
  then show ?thesis using assms
    by (auto simp: reload_ignored_folders_def Let_def ign_bounded_def intro!: ign_loop_bounded [unfolded ign_bounded_def])
qed

lemma reload_ignored_folders_stale_witness:
  "reload_ignored_folders (\<lambda>_. []) (\<lambda>_. None) None [] 5000
     \<lparr>ignored_paths = [(1, 2)], ign_paths_alloc = 8, ign_last_check = 0, ign_checksum = []\<rparr> =
     \<lparr>ignored_paths = [(1, 2)], ign_paths_alloc = 8, ign_last_check = 0, ign_checksum = []\<rparr>"
  using reload_ignored_folders_stale [of "\<lparr>ignored_paths = [(1, 2)], ign_paths_alloc = 8, ign_last_check = 0, ign_checksum = []\<rparr>"
      "\<lambda>_. []" "[]" 5000 "\<lambda>_. None" None] by simp

end
