(* ===== verification/SyncDb.thy ===== *)
theory SyncDb
  imports Prelude
begin

text \<open>
  The part of the database the synchronisation works on: the tables of local folders and files, of
  synced folders and of tasks (\<^verbatim>\<open>pdatabase.h\<close>), and the queueing of tasks (\<^verbatim>\<open>ptasks.c\<close>,
  \<^verbatim>\<open>psync_delete_upload_tasks_for_file\<close> of \<^verbatim>\<open>pupload.c\<close>). A table is the sequence of its rows; a statement
  is the function on rows that its SQL text describes, with the unique indices and the automatic ids of
  the schema. A statement that breaks a unique index leaves the table alone, as SQLite's default
  conflict resolution does. The row 0 of \<^verbatim>\<open>localfolder\<close>, which only serves as the parent of the roots, is
  left out. Notifications of other components are recorded in the order they are sent.
\<close>

section \<open>Tables\<close>

record lfolder =
  lfo_id :: u64
  lfo_parent :: u64
  lfo_folderid :: "u64 option"
  lfo_syncid :: u32
  lfo_inode :: u64
  lfo_deviceid :: u64
  lfo_mtime :: u64
  lfo_mtimenative :: u64
  lfo_flags :: u64
  lfo_name :: "u8 list"

record lfile =
  lfi_id :: u64
  lfi_parent :: u64
  lfi_fileid :: "u64 option"
  lfi_syncid :: u32
  lfi_size :: u64
  lfi_inode :: u64
  lfi_mtime :: u64
  lfi_mtimenative :: u64
  lfi_name :: "u8 list"

record task_row =
  t_id :: nat
  t_type :: nat
  t_syncid :: "u32 option"
  t_newsyncid :: "u32 option"
  t_itemid :: u64
  t_localitemid :: u64
  t_newitemid :: "u64 option"
  t_name :: "u8 list option"

text \<open>Calls into the path status cache, the upload and download threads and the status.\<close>

datatype notice =
    TaskAdded u32 u64
  | TaskCompleted u32 u64
  | FolderMoved u64 u32 u64 u32 u64
  | FolderDeleted u32 u64
  | RecalcToUpload
  | RecalcToDownload
  | WakeUpload
  | WakeDownload
  | SendStatusUpdate

record sync_db =
  localfolders :: "lfolder list"
  localfiles :: "lfile list"
  syncedfolders :: "(u32 \<times> u64 \<times> u32) list"
  tasks :: "task_row list"
  folder_seq :: nat
  file_seq :: nat
  uploads :: "(u64 \<times> bool) list"
  notices :: "notice list"

definition notify :: "notice \<Rightarrow> sync_db \<Rightarrow> sync_db" where
  "notify n db = db\<lparr>notices := notices db @ [n]\<rparr>"

section \<open>Task types\<close>

definition PSYNC_TASK_DOWNLOAD :: nat where "PSYNC_TASK_DOWNLOAD = 0"
definition PSYNC_TASK_UPLOAD :: nat where "PSYNC_TASK_UPLOAD = 1"
definition PSYNC_TASK_FOLDER :: nat where "PSYNC_TASK_FOLDER = 0"
definition PSYNC_TASK_FILE :: nat where "PSYNC_TASK_FILE = 2"
definition PSYNC_TASK_TYPE_OFF :: nat where "PSYNC_TASK_TYPE_OFF = 2"
definition PSYNC_TASK_TYPE_CREATE :: nat where "PSYNC_TASK_TYPE_CREATE = 0"
definition PSYNC_TASK_TYPE_DELETE :: nat where "PSYNC_TASK_TYPE_DELETE = 1"
definition PSYNC_TASK_TYPE_DELREC :: nat where "PSYNC_TASK_TYPE_DELREC = 2"
definition PSYNC_TASK_TYPE_RENAME :: nat where "PSYNC_TASK_TYPE_RENAME = 3"

definition task_type :: "nat \<Rightarrow> nat \<Rightarrow> nat \<Rightarrow> nat" where
  "task_type what kind dir = push_bit PSYNC_TASK_TYPE_OFF what + kind + dir"

definition PSYNC_CREATE_LOCAL_FOLDER :: nat where
  "PSYNC_CREATE_LOCAL_FOLDER = task_type PSYNC_TASK_TYPE_CREATE PSYNC_TASK_FOLDER PSYNC_TASK_DOWNLOAD"
definition PSYNC_DELETE_LOCAL_FOLDER :: nat where
  "PSYNC_DELETE_LOCAL_FOLDER = task_type PSYNC_TASK_TYPE_DELETE PSYNC_TASK_FOLDER PSYNC_TASK_DOWNLOAD"
definition PSYNC_DELREC_LOCAL_FOLDER :: nat where
  "PSYNC_DELREC_LOCAL_FOLDER = task_type PSYNC_TASK_TYPE_DELREC PSYNC_TASK_FOLDER PSYNC_TASK_DOWNLOAD"
definition PSYNC_RENAME_LOCAL_FOLDER :: nat where
  "PSYNC_RENAME_LOCAL_FOLDER = task_type PSYNC_TASK_TYPE_RENAME PSYNC_TASK_FOLDER PSYNC_TASK_DOWNLOAD"
definition PSYNC_DOWNLOAD_FILE :: nat where
  "PSYNC_DOWNLOAD_FILE = task_type PSYNC_TASK_TYPE_CREATE PSYNC_TASK_FILE PSYNC_TASK_DOWNLOAD"
definition PSYNC_RENAME_LOCAL_FILE :: nat where
  "PSYNC_RENAME_LOCAL_FILE = task_type PSYNC_TASK_TYPE_RENAME PSYNC_TASK_FILE PSYNC_TASK_DOWNLOAD"
definition PSYNC_DELETE_LOCAL_FILE :: nat where
  "PSYNC_DELETE_LOCAL_FILE = task_type PSYNC_TASK_TYPE_DELETE PSYNC_TASK_FILE PSYNC_TASK_DOWNLOAD"
definition PSYNC_CREATE_REMOTE_FOLDER :: nat where
  "PSYNC_CREATE_REMOTE_FOLDER = task_type PSYNC_TASK_TYPE_CREATE PSYNC_TASK_FOLDER PSYNC_TASK_UPLOAD"
definition PSYNC_RENAME_REMOTE_FOLDER :: nat where
  "PSYNC_RENAME_REMOTE_FOLDER = task_type PSYNC_TASK_TYPE_RENAME PSYNC_TASK_FOLDER PSYNC_TASK_UPLOAD"
definition PSYNC_UPLOAD_FILE :: nat where
  "PSYNC_UPLOAD_FILE = task_type PSYNC_TASK_TYPE_CREATE PSYNC_TASK_FILE PSYNC_TASK_UPLOAD"
definition PSYNC_RENAME_REMOTE_FILE :: nat where
  "PSYNC_RENAME_REMOTE_FILE = task_type PSYNC_TASK_TYPE_RENAME PSYNC_TASK_FILE PSYNC_TASK_UPLOAD"
definition PSYNC_DELETE_REMOTE_FILE :: nat where
  "PSYNC_DELETE_REMOTE_FILE = task_type PSYNC_TASK_TYPE_DELETE PSYNC_TASK_FILE PSYNC_TASK_UPLOAD"
definition PSYNC_DELREC_REMOTE_FOLDER :: nat where
  "PSYNC_DELREC_REMOTE_FOLDER = task_type PSYNC_TASK_TYPE_DELREC PSYNC_TASK_FOLDER PSYNC_TASK_UPLOAD"

lemmas task_type_defs =
  PSYNC_CREATE_LOCAL_FOLDER_def PSYNC_DELETE_LOCAL_FOLDER_def PSYNC_DELREC_LOCAL_FOLDER_def
  PSYNC_RENAME_LOCAL_FOLDER_def PSYNC_DOWNLOAD_FILE_def PSYNC_RENAME_LOCAL_FILE_def
  PSYNC_DELETE_LOCAL_FILE_def PSYNC_CREATE_REMOTE_FOLDER_def PSYNC_RENAME_REMOTE_FOLDER_def
  PSYNC_UPLOAD_FILE_def PSYNC_RENAME_REMOTE_FILE_def PSYNC_DELETE_REMOTE_FILE_def
  PSYNC_DELREC_REMOTE_FOLDER_def task_type_def
  PSYNC_TASK_DOWNLOAD_def PSYNC_TASK_UPLOAD_def PSYNC_TASK_FOLDER_def PSYNC_TASK_FILE_def
  PSYNC_TASK_TYPE_OFF_def PSYNC_TASK_TYPE_CREATE_def PSYNC_TASK_TYPE_DELETE_def
  PSYNC_TASK_TYPE_DELREC_def PSYNC_TASK_TYPE_RENAME_def

section \<open>Queueing tasks\<close>

definition fresh_task_id :: "task_row list \<Rightarrow> nat" where
  "fresh_task_id ts = Suc (fold (\<lambda>t m. max (t_id t) m) ts 0)"

definition insert_task :: "(nat \<Rightarrow> task_row) \<Rightarrow> sync_db \<Rightarrow> sync_db" where
  "insert_task row db = db\<lparr>tasks := tasks db @ [row (fresh_task_id (tasks db))]\<rparr>"

definition create_task1 :: "nat \<Rightarrow> u32 \<Rightarrow> u64 \<Rightarrow> u64 \<Rightarrow> sync_db \<Rightarrow> sync_db" where
  "create_task1 ty syncid entryid localentryid =
     insert_task (\<lambda>i. \<lparr>t_id = i, t_type = ty, t_syncid = Some syncid, t_newsyncid = None, t_itemid = entryid,
       t_localitemid = localentryid, t_newitemid = None, t_name = None\<rparr>)"

definition create_task2 :: "nat \<Rightarrow> u32 \<Rightarrow> u64 \<Rightarrow> u64 \<Rightarrow> u64 \<Rightarrow> u8 list \<Rightarrow> sync_db \<Rightarrow> sync_db" where
  "create_task2 ty syncid entryid localentryid newitemid name =
     insert_task (\<lambda>i. \<lparr>t_id = i, t_type = ty, t_syncid = Some syncid, t_newsyncid = None, t_itemid = entryid,
       t_localitemid = localentryid, t_newitemid = Some newitemid, t_name = Some name\<rparr>)"

definition create_task3 :: "nat \<Rightarrow> u32 \<Rightarrow> u64 \<Rightarrow> u64 \<Rightarrow> u8 list \<Rightarrow> sync_db \<Rightarrow> sync_db" where
  "create_task3 ty syncid entryid localentryid name =
     insert_task (\<lambda>i. \<lparr>t_id = i, t_type = ty, t_syncid = Some syncid, t_newsyncid = None, t_itemid = entryid,
       t_localitemid = localentryid, t_newitemid = None, t_name = Some name\<rparr>)"

definition create_task4 :: "nat \<Rightarrow> u64 \<Rightarrow> u8 list \<Rightarrow> sync_db \<Rightarrow> sync_db" where
  "create_task4 ty entryid name =
     insert_task (\<lambda>i. \<lparr>t_id = i, t_type = ty, t_syncid = None, t_newsyncid = None, t_itemid = entryid,
       t_localitemid = 0, t_newitemid = None, t_name = Some name\<rparr>)"

definition create_task5 :: "nat \<Rightarrow> u32 \<Rightarrow> u64 \<Rightarrow> sync_db \<Rightarrow> sync_db" where
  "create_task5 ty syncid entryid =
     insert_task (\<lambda>i. \<lparr>t_id = i, t_type = ty, t_syncid = Some syncid, t_newsyncid = None, t_itemid = entryid,
       t_localitemid = 0, t_newitemid = None, t_name = None\<rparr>)"

definition create_task6 :: "nat \<Rightarrow> u32 \<Rightarrow> u64 \<Rightarrow> u8 list \<Rightarrow> sync_db \<Rightarrow> sync_db" where
  "create_task6 ty syncid entryid name =
     insert_task (\<lambda>i. \<lparr>t_id = i, t_type = ty, t_syncid = Some syncid, t_newsyncid = None, t_itemid = entryid,
       t_localitemid = 0, t_newitemid = None, t_name = Some name\<rparr>)"

definition rename_task :: "nat \<Rightarrow> u32 \<Rightarrow> u32 \<Rightarrow> u64 \<Rightarrow> u64 \<Rightarrow> u64 \<Rightarrow> u8 list \<Rightarrow> sync_db \<Rightarrow> sync_db" where
  "rename_task ty syncid newsyncid itemid localitemid newitemid name =
     insert_task (\<lambda>i. \<lparr>t_id = i, t_type = ty, t_syncid = Some syncid, t_newsyncid = Some newsyncid, t_itemid = itemid,
       t_localitemid = localitemid, t_newitemid = Some newitemid, t_name = Some name\<rparr>)"

definition psync_task_create_local_folder :: "u32 \<Rightarrow> u64 \<Rightarrow> u64 \<Rightarrow> sync_db \<Rightarrow> sync_db" where
  "psync_task_create_local_folder syncid folderid localfolderid =
     create_task1 PSYNC_CREATE_LOCAL_FOLDER syncid folderid localfolderid"

definition psync_task_delete_local_folder :: "u32 \<Rightarrow> u64 \<Rightarrow> u64 \<Rightarrow> u8 list \<Rightarrow> sync_db \<Rightarrow> sync_db" where
  "psync_task_delete_local_folder syncid folderid localfolderid remotepath =
     create_task3 PSYNC_DELETE_LOCAL_FOLDER syncid folderid localfolderid remotepath"

definition psync_task_delete_local_folder_recursive :: "u32 \<Rightarrow> u64 \<Rightarrow> u64 \<Rightarrow> sync_db \<Rightarrow> sync_db" where
  "psync_task_delete_local_folder_recursive syncid folderid localfolderid =
     create_task1 PSYNC_DELREC_LOCAL_FOLDER syncid folderid localfolderid"

definition psync_task_rename_local_folder :: "u32 \<Rightarrow> u64 \<Rightarrow> u64 \<Rightarrow> u64 \<Rightarrow> u8 list \<Rightarrow> sync_db \<Rightarrow> sync_db" where
  "psync_task_rename_local_folder syncid folderid localfolderid newparent newname =
     create_task2 PSYNC_RENAME_LOCAL_FOLDER syncid folderid localfolderid newparent newname"

definition psync_task_download_file_silent :: "u32 \<Rightarrow> u64 \<Rightarrow> u64 \<Rightarrow> u8 list \<Rightarrow> sync_db \<Rightarrow> sync_db" where
  "psync_task_download_file_silent syncid fileid localfolderid name db =
     create_task3 PSYNC_DOWNLOAD_FILE syncid fileid localfolderid name
       (notify (TaskAdded syncid localfolderid) db)"

definition psync_task_download_file :: "u32 \<Rightarrow> u64 \<Rightarrow> u64 \<Rightarrow> u8 list \<Rightarrow> sync_db \<Rightarrow> sync_db" where
  "psync_task_download_file syncid fileid localfolderid name db =
     notify SendStatusUpdate (notify RecalcToDownload (notify WakeDownload
       (psync_task_download_file_silent syncid fileid localfolderid name db)))"

definition psync_task_rename_local_file :: "u32 \<Rightarrow> u32 \<Rightarrow> u64 \<Rightarrow> u64 \<Rightarrow> u64 \<Rightarrow> u8 list \<Rightarrow> sync_db \<Rightarrow> sync_db" where
  "psync_task_rename_local_file oldsyncid newsyncid fileid oldlocalfolderid newlocalfolderid newname =
     rename_task PSYNC_RENAME_LOCAL_FILE oldsyncid newsyncid fileid oldlocalfolderid newlocalfolderid newname"

definition psync_task_delete_local_file :: "u64 \<Rightarrow> u8 list \<Rightarrow> sync_db \<Rightarrow> sync_db" where
  "psync_task_delete_local_file fileid remotepath = create_task4 PSYNC_DELETE_LOCAL_FILE fileid remotepath"

definition psync_task_delete_local_file_syncid :: "u32 \<Rightarrow> u64 \<Rightarrow> u8 list \<Rightarrow> sync_db \<Rightarrow> sync_db" where
  "psync_task_delete_local_file_syncid syncid fileid remotepath =
     create_task6 PSYNC_DELETE_LOCAL_FILE syncid fileid remotepath"

definition psync_task_create_remote_folder :: "u32 \<Rightarrow> u64 \<Rightarrow> u8 list \<Rightarrow> sync_db \<Rightarrow> sync_db" where
  "psync_task_create_remote_folder syncid localfolderid name =
     create_task3 PSYNC_CREATE_REMOTE_FOLDER syncid 0 localfolderid name"

definition psync_task_upload_file_silent :: "u32 \<Rightarrow> u64 \<Rightarrow> u8 list \<Rightarrow> sync_db \<Rightarrow> sync_db" where
  "psync_task_upload_file_silent syncid localfileid name =
     create_task3 PSYNC_UPLOAD_FILE syncid 0 localfileid name"

definition psync_task_upload_file :: "u32 \<Rightarrow> u64 \<Rightarrow> u8 list \<Rightarrow> sync_db \<Rightarrow> sync_db" where
  "psync_task_upload_file syncid localfileid name db =
     notify RecalcToUpload (notify WakeUpload (create_task3 PSYNC_UPLOAD_FILE syncid 0 localfileid name db))"

definition psync_task_rename_remote_file :: "u32 \<Rightarrow> u32 \<Rightarrow> u64 \<Rightarrow> u64 \<Rightarrow> u8 list \<Rightarrow> sync_db \<Rightarrow> sync_db" where
  "psync_task_rename_remote_file oldsyncid newsyncid localfileid newparent newname =
     rename_task PSYNC_RENAME_REMOTE_FILE oldsyncid newsyncid 0 localfileid newparent newname"

definition psync_task_rename_remote_folder :: "u32 \<Rightarrow> u32 \<Rightarrow> u64 \<Rightarrow> u64 \<Rightarrow> u8 list \<Rightarrow> sync_db \<Rightarrow> sync_db" where
  "psync_task_rename_remote_folder oldsyncid newsyncid localfolderid newparent newname =
     rename_task PSYNC_RENAME_REMOTE_FOLDER oldsyncid newsyncid 0 localfolderid newparent newname"

definition psync_task_delete_remote_file :: "u32 \<Rightarrow> u64 \<Rightarrow> sync_db \<Rightarrow> sync_db" where
  "psync_task_delete_remote_file syncid fileid = create_task5 PSYNC_DELETE_REMOTE_FILE syncid fileid"

definition psync_task_delete_remote_folder :: "u32 \<Rightarrow> u64 \<Rightarrow> sync_db \<Rightarrow> sync_db" where
  "psync_task_delete_remote_folder syncid folderid = create_task5 PSYNC_DELREC_REMOTE_FOLDER syncid folderid"

definition is_upload_of :: "u64 \<Rightarrow> task_row \<Rightarrow> bool" where
  "is_upload_of localfileid t \<longleftrightarrow> t_type t = PSYNC_UPLOAD_FILE \<and> t_localitemid t = localfileid"

definition psync_delete_upload_tasks_for_file :: "u64 \<Rightarrow> sync_db \<Rightarrow> sync_db" where
  "psync_delete_upload_tasks_for_file localfileid db =
     (let affected = (\<exists>t\<in>set (tasks db). is_upload_of localfileid t);
          db = db\<lparr>tasks := filter (\<lambda>t. \<not> is_upload_of localfileid t) (tasks db)\<rparr>;
          db = (if affected then notify RecalcToUpload db else db)
      in db\<lparr>uploads := map (\<lambda>(i, stop). (i, if i = localfileid then True else stop)) (uploads db)\<rparr>)"

section \<open>Row operations\<close>

definition file_key :: "lfile \<Rightarrow> u32 \<times> u64 \<times> u8 list" where
  "file_key r = (lfi_syncid r, lfi_parent r, lfi_name r)"

definition folder_key :: "lfolder \<Rightarrow> u32 \<times> u64 \<times> u8 list" where
  "folder_key r = (lfo_syncid r, lfo_parent r, lfo_name r)"

definition insert_localfile :: "(u64 \<Rightarrow> lfile) \<Rightarrow> sync_db \<Rightarrow> u64 option \<times> sync_db" where
  "insert_localfile row db =
     (let i = of_nat (Suc (file_seq db)); r = row i in
      if file_key r \<in> set (map file_key (localfiles db)) then (None, db)
      else (Some i, db\<lparr>localfiles := localfiles db @ [r], file_seq := Suc (file_seq db)\<rparr>))"

definition insert_localfolder :: "(u64 \<Rightarrow> lfolder) \<Rightarrow> sync_db \<Rightarrow> u64 option \<times> sync_db" where
  "insert_localfolder row db =
     (let i = of_nat (Suc (folder_seq db)); r = row i in
      if folder_key r \<in> set (map folder_key (localfolders db)) then (None, db)
      else (Some i, db\<lparr>localfolders := localfolders db @ [r], folder_seq := Suc (folder_seq db)\<rparr>))"

definition update_localfile :: "(lfile \<Rightarrow> bool) \<Rightarrow> (lfile \<Rightarrow> lfile) \<Rightarrow> sync_db \<Rightarrow> sync_db" where
  "update_localfile p f db =
     (let rows = map (\<lambda>r. if p r then f r else r) (localfiles db) in
      if distinct (map file_key rows) then db\<lparr>localfiles := rows\<rparr> else db)"

definition update_localfolder :: "(lfolder \<Rightarrow> bool) \<Rightarrow> (lfolder \<Rightarrow> lfolder) \<Rightarrow> sync_db \<Rightarrow> sync_db" where
  "update_localfolder p f db =
     (let rows = map (\<lambda>r. if p r then f r else r) (localfolders db) in
      if distinct (map folder_key rows) then db\<lparr>localfolders := rows\<rparr> else db)"

definition delete_localfile :: "(lfile \<Rightarrow> bool) \<Rightarrow> sync_db \<Rightarrow> sync_db" where
  "delete_localfile p db = db\<lparr>localfiles := filter (\<lambda>r. \<not> p r) (localfiles db)\<rparr>"

definition find_localfile :: "u64 \<Rightarrow> sync_db \<Rightarrow> lfile option" where
  "find_localfile i db = find (\<lambda>r. lfi_id r = i) (localfiles db)"

definition find_localfolder :: "u64 \<Rightarrow> sync_db \<Rightarrow> lfolder option" where
  "find_localfolder i db = find (\<lambda>r. lfo_id r = i) (localfolders db)"

end
