(* ===== verification/ScanApply.thy ===== *)
theory ScanApply
  imports SyncDb LocalScan
begin

text \<open>
  The second half of the local scanner: what \<^verbatim>\<open>plocalscan.c\<close> does to the database and the task queue
  for every entry of the scan lists, the recursive deletion of a folder, and the phases in which
  \<^verbatim>\<open>scanner_scan\<close> works off the lists, with the transaction it commits every thousand items.

  A query that is read to its end before the tables change is the list of the rows it selects. The
  recursions over the folder tree carry a bound on their depth; it is shown to suffice.
\<close>

named_theorems db_simps \<open>effects of the statements on each table\<close>

section \<open>Files\<close>

definition psync_mtime_native_to_mtime :: "u64 \<Rightarrow> u64" where
  "psync_mtime_native_to_mtime n = n div 1000000"

definition scan_rename_file :: "sync_folderlist \<Rightarrow> sync_folderlist \<Rightarrow> sync_db \<Rightarrow> sync_db" where
  "scan_rename_file rnfr rnto db =
     (case find_localfile (localid rnfr) db of
        None \<Rightarrow> db
      | Some row \<Rightarrow>
          (let old_syncid = lfi_syncid row;
               old_parentfolderid = lfi_parent row;
               filetoupload =
                 (if fsyncid rnto \<noteq> old_syncid \<or> localparentfolderid rnto \<noteq> old_parentfolderid
                  then (\<exists>t\<in>set (tasks db). is_upload_of (localid rnfr) t) else False);
               db = update_localfile (\<lambda>r. lfi_id r = localid rnfr)
                      (\<lambda>r. r\<lparr>lfi_parent := localparentfolderid rnto, lfi_syncid := fsyncid rnto,
                            lfi_name := fname rnto\<rparr>) db;
               db = psync_task_rename_remote_file (fsyncid rnfr) (fsyncid rnto) (localid rnfr)
                      (localparentfolderid rnto) (fname rnto) db
           in if filetoupload
              then notify (TaskCompleted old_syncid old_parentfolderid)
                     (notify (TaskAdded (fsyncid rnto) (localparentfolderid rnto)) db)
              else db))"

definition new_file_row :: "sync_folderlist \<Rightarrow> u64 \<Rightarrow> lfile" where
  "new_file_row fl i =
     \<lparr>lfi_id = i, lfi_parent = localparentfolderid fl, lfi_fileid = None, lfi_syncid = fsyncid fl,
      lfi_size = fsize fl, lfi_inode = inode fl, lfi_mtime = psync_mtime_native_to_mtime (mtimenat fl),
      lfi_mtimenative = mtimenat fl, lfi_name = fname fl\<rparr>"

definition scan_upload_file :: "sync_folderlist \<Rightarrow> sync_db \<Rightarrow> sync_db" where
  "scan_upload_file fl db =
     (case insert_localfile (new_file_row fl) db of
        (None, db) \<Rightarrow> db
      | (Some localfileid, db) \<Rightarrow>
          notify (TaskAdded (fsyncid fl) (localparentfolderid fl))
            (psync_task_upload_file_silent (fsyncid fl) localfileid (fname fl) db))"

definition scan_upload_modified_file :: "sync_folderlist \<Rightarrow> sync_db \<Rightarrow> sync_db" where
  "scan_upload_modified_file fl db =
     (let db = psync_delete_upload_tasks_for_file (localid fl) db;
          db = update_localfile (\<lambda>r. lfi_id r = localid fl)
                 (\<lambda>r. r\<lparr>lfi_size := fsize fl, lfi_inode := inode fl,
                       lfi_mtime := psync_mtime_native_to_mtime (mtimenat fl), lfi_mtimenative := mtimenat fl\<rparr>) db;
          db = psync_task_upload_file_silent (fsyncid fl) (localid fl) (fname fl) db
      in notify (TaskAdded (fsyncid fl) (localparentfolderid fl)) db)"

definition scan_delete_file :: "sync_folderlist \<Rightarrow> sync_db \<Rightarrow> sync_db" where
  "scan_delete_file fl db =
     (case find_localfile (localid fl) db of
        None \<Rightarrow> db
      | Some row \<Rightarrow>
          (let fileid = number_or_null (lfi_fileid row);
               db = psync_delete_upload_tasks_for_file (localid fl) db;
               db = delete_localfile (\<lambda>r. lfi_id r = localid fl) db;
               db = (if fileid \<noteq> 0 then psync_task_delete_remote_file (fsyncid fl) fileid db else db)
           in notify (TaskCompleted (lfi_syncid row) (lfi_parent row)) db))"

section \<open>Folders\<close>

definition new_folder_row :: "sync_folderlist \<Rightarrow> u64 \<Rightarrow> lfolder" where
  "new_folder_row fl i =
     \<lparr>lfo_id = i, lfo_parent = localparentfolderid fl, lfo_folderid = None, lfo_syncid = fsyncid fl,
      lfo_inode = inode fl, lfo_deviceid = psync_deviceid_short (deviceid fl),
      lfo_mtime = psync_mtime_native_to_mtime (mtimenat fl), lfo_mtimenative = mtimenat fl, lfo_flags = 0,
      lfo_name = fname fl\<rparr>"

definition replace_syncedfolder :: "u32 \<Rightarrow> u64 \<Rightarrow> u32 \<Rightarrow> sync_db \<Rightarrow> sync_db" where
  "replace_syncedfolder syncid localfolderid synctype db =
     db\<lparr>syncedfolders := filter (\<lambda>(s, l, t). \<not> (s = syncid \<and> l = localfolderid)) (syncedfolders db) @
          [(syncid, localfolderid, synctype)]\<rparr>"

text \<open>The entry is returned as well: the id of a new row is stored into it.\<close>

definition scan_create_folder :: "sync_folderlist \<Rightarrow> sync_db \<Rightarrow> sync_folderlist \<times> sync_db" where
  "scan_create_folder fl db =
     (case insert_localfolder (new_folder_row fl) db of
        (None, db) \<Rightarrow>
          (fl, update_localfolder
                 (\<lambda>r. lfo_syncid r = fsyncid fl \<and> lfo_parent r = localparentfolderid fl \<and> lfo_name r = fname fl)
                 (\<lambda>r. r\<lparr>lfo_inode := inode fl, lfo_deviceid := psync_deviceid_short (deviceid fl),
                       lfo_mtime := psync_mtime_native_to_mtime (mtimenat fl), lfo_mtimenative := mtimenat fl,
                       lfo_flags := 0\<rparr>) db)
      | (Some localfolderid, db) \<Rightarrow>
          (fl\<lparr>localid := localfolderid\<rparr>,
           psync_task_create_remote_folder (fsyncid fl) localfolderid (fname fl)
             (replace_syncedfolder (fsyncid fl) localfolderid (fsynctype fl) db)))"

definition child_folders :: "u64 \<Rightarrow> sync_db \<Rightarrow> u64 list" where
  "child_folders i db = map lfo_id (filter (\<lambda>r. lfo_parent r = i) (localfolders db))"

definition child_files :: "u64 \<Rightarrow> sync_db \<Rightarrow> u64 list" where
  "child_files i db = map lfi_id (filter (\<lambda>r. lfi_parent r = i) (localfiles db))"

fun update_syncid_rec :: "nat \<Rightarrow> u64 \<Rightarrow> u32 \<Rightarrow> sync_db \<Rightarrow> sync_db option" where
  "update_syncid_rec 0 localfolderid syncid db = None"
| "update_syncid_rec (Suc n) localfolderid syncid db =
     (let db = update_localfolder (\<lambda>r. lfo_id r = localfolderid) (\<lambda>r. r\<lparr>lfo_syncid := syncid\<rparr>) db;
          db = db\<lparr>syncedfolders := map (\<lambda>(s, l, t). (if l = localfolderid then syncid else s, l, t)) (syncedfolders db)\<rparr>
      in fold_opt (\<lambda>i db. update_syncid_rec n i syncid db) (child_folders localfolderid db) db)"

definition scan_rename_folder :: "nat \<Rightarrow> sync_folderlist \<Rightarrow> sync_folderlist \<Rightarrow> sync_db \<Rightarrow> sync_db option" where
  "scan_rename_folder n rnfr rnto db =
     (case find_localfolder (localid rnfr) db of
        None \<Rightarrow> Some db
      | Some row \<Rightarrow>
          (let db = notify (FolderMoved (localid rnfr) (lfo_syncid row) (lfo_parent row) (fsyncid rnto)
                      (localparentfolderid rnto)) db;
               db = update_localfolder (\<lambda>r. lfo_id r = localid rnfr)
                      (\<lambda>r. r\<lparr>lfo_parent := localparentfolderid rnto, lfo_syncid := fsyncid rnto,
                            lfo_name := fname rnto\<rparr>) db;
               db = db\<lparr>syncedfolders := map (\<lambda>(s, l, t).
                      if l = localid rnfr then (fsyncid rnto, l, fsynctype rnto) else (s, l, t)) (syncedfolders db)\<rparr>
           in case (if fsyncid rnfr \<noteq> fsyncid rnto then update_syncid_rec n (localid rnfr) (fsyncid rnto) db else Some db) of
                None \<Rightarrow> None
              | Some db \<Rightarrow> Some (psync_task_rename_remote_folder (fsyncid rnfr) (fsyncid rnto) (localid rnfr)
                                   (localparentfolderid rnto) (fname rnto) db)))"

text \<open>
  \<^verbatim>\<open>delete_local_folder_rec\<close>. The variable \<^verbatim>\<open>row\<close> that guards the notification of the path status was
  last assigned by the loop over the files, which ends when it is \<^verbatim>\<open>NULL\<close>; the query before the test is
  never fetched.
\<close>

fun delete_local_folder_rec :: "nat \<Rightarrow> u64 \<Rightarrow> sync_db \<Rightarrow> sync_db option" where
  "delete_local_folder_rec 0 localfolderid db = None"
| "delete_local_folder_rec (Suc n) localfolderid db =
     (case fold_opt (delete_local_folder_rec n) (child_folders localfolderid db) db of
        None \<Rightarrow> None
      | Some db \<Rightarrow>
          (let db = fold psync_delete_upload_tasks_for_file (child_files localfolderid db) db;
               row = (None :: u32 option);
               db = delete_localfile (\<lambda>r. lfi_parent r = localfolderid) db;
               db = (case row of Some syncid \<Rightarrow> notify (FolderDeleted syncid localfolderid) db | None \<Rightarrow> db)
           in Some (db\<lparr>localfolders := filter (\<lambda>r. lfo_id r \<noteq> localfolderid) (localfolders db),
                       syncedfolders := filter (\<lambda>(s, l, t). l \<noteq> localfolderid) (syncedfolders db)\<rparr>)))"

text \<open>
  \<^verbatim>\<open>scan_delete_folder\<close> waits for the id of a remote folder that is not created yet: between two tries the
  transaction is committed and other threads may change the database, here by \<open>others k\<close> in try \<open>k\<close>. The
  second component collects the milliseconds slept.
\<close>

function delete_folder_try :: "nat \<Rightarrow> (nat \<Rightarrow> sync_db \<Rightarrow> sync_db) \<Rightarrow> sync_folderlist \<Rightarrow> nat \<Rightarrow> nat list \<Rightarrow> sync_db \<Rightarrow>
    (nat list \<times> sync_db) option" where
  "delete_folder_try n others fl tries slept db =
     (case find_localfolder (localid fl) db of
        None \<Rightarrow> Some (slept, db)
      | Some row \<Rightarrow>
          (let folderid = number_or_null (lfo_folderid row) in
           if folderid = 0 \<and> tries < 50 then
             delete_folder_try n others fl (Suc tries) (slept @ [20 + Suc tries * 20]) (others tries db)
           else
             (let db = (if folderid = 0
                        then db\<lparr>tasks := filter (\<lambda>t. \<not> (t_type t = PSYNC_CREATE_REMOTE_FOLDER \<and>
                               t_syncid t = Some (fsyncid fl) \<and> t_localitemid t = localid fl)) (tasks db)\<rparr>
                        else db)
              in case delete_local_folder_rec n (localid fl) db of
                   None \<Rightarrow> None
                 | Some db \<Rightarrow> Some (slept,
                     if folderid \<noteq> 0 then psync_task_delete_remote_folder (fsyncid fl) folderid db else db))))"
  by pat_completeness auto
termination by (relation "measure (\<lambda>(n, others, fl, tries, slept, db). 50 - tries)") auto

declare delete_folder_try.simps [simp del]

definition scan_delete_folder :: "nat \<Rightarrow> (nat \<Rightarrow> sync_db \<Rightarrow> sync_db) \<Rightarrow> sync_folderlist \<Rightarrow> sync_db \<Rightarrow>
    (nat list \<times> sync_db) option" where
  "scan_delete_folder n others fl db = delete_folder_try n others fl 0 [] db"

section \<open>Working off the scan lists\<close>

text \<open>
  The rows a comparison reads from the database (\<^verbatim>\<open>scanner_db_folder_to_list\<close>), and the world of the
  comparison with these rows.
\<close>

definition db_folder_rows :: "sync_db \<Rightarrow> u32 \<Rightarrow> u64 \<Rightarrow> dbfolder_row list" where
  "db_folder_rows db syncid parent =
     map (\<lambda>r. \<lparr>dbd_id = lfo_id r, dbd_folderid = lfo_folderid r, dbd_inode = lfo_inode r,
               dbd_deviceid = lfo_deviceid r, dbd_mtimenative = lfo_mtimenative r, dbd_name = lfo_name r\<rparr>)
       (filter (\<lambda>r. lfo_parent r = parent \<and> lfo_syncid r = syncid) (localfolders db))"

definition db_file_rows :: "sync_db \<Rightarrow> u32 \<Rightarrow> u64 \<Rightarrow> dbfile_row list" where
  "db_file_rows db syncid parent =
     map (\<lambda>r. \<lparr>dbf_id = lfi_id r, dbf_fileid = lfi_fileid r, dbf_inode = lfi_inode r,
               dbf_mtimenative = lfi_mtimenative r, dbf_size = lfi_size r, dbf_name = lfi_name r\<rparr>)
       (filter (\<lambda>r. lfi_parent r = parent \<and> lfi_syncid r = syncid) (localfiles db))"

definition with_db :: "sync_db \<Rightarrow> scan_world \<Rightarrow> scan_world" where
  "with_db db w = w\<lparr>w_folders := db_folder_rows db, w_files := db_file_rows db\<rparr>"

text \<open>
  The progress of a scan: the database, the items since the last commit (\<^verbatim>\<open>trn\<close>), the commits made on
  the way, and the items worked off (\<^verbatim>\<open>w\<close>).
\<close>

record scan_run =
  run_db :: sync_db
  run_trn :: nat
  run_commits :: nat
  run_w :: nat

definition check_for_query_cnt :: "scan_run \<Rightarrow> scan_run" where
  "check_for_query_cnt r =
     (if 1000 < run_trn r + 1 then r\<lparr>run_trn := 0, run_commits := run_commits r + 1\<rparr>
      else r\<lparr>run_trn := run_trn r + 1\<rparr>)"

definition run_item :: "('a \<Rightarrow> sync_db \<Rightarrow> sync_db option) \<Rightarrow> 'a \<Rightarrow> scan_run \<Rightarrow> scan_run option" where
  "run_item f x r =
     (case f x (run_db r) of None \<Rightarrow> None
      | Some db \<Rightarrow> Some (check_for_query_cnt (r\<lparr>run_db := db, run_w := run_w r + 1\<rparr>)))"

definition extract_renames :: "(sync_folderlist \<Rightarrow> sync_folderlist \<Rightarrow> int) \<Rightarrow> nat \<Rightarrow> nat \<Rightarrow> nat \<Rightarrow> nat \<Rightarrow>
    scan_state \<Rightarrow> scan_state" where
  "extract_renames cmp del new from to s =
     (case extract_lists cmp (merge_sort cmp 1 (scan_lists s del)) (merge_sort cmp 1 (scan_lists s new)) of
        (kd, kn, od, on) \<Rightarrow>
          s\<lparr>scan_lists := (scan_lists s)(del := kd, new := kn, from := scan_lists s from @ od,
                                          to := scan_lists s to @ on)\<rparr>)"

definition file_phase :: "nat \<Rightarrow> (nat \<Rightarrow> sync_db \<Rightarrow> sync_db) \<Rightarrow> scan_state \<Rightarrow> scan_run \<Rightarrow> scan_run option" where
  "file_phase n others s r =
     (let s = extract_renames compare_sizeinodemtime SCAN_LIST_DELFILES SCAN_LIST_NEWFILES
                SCAN_LIST_RENFILESFROM SCAN_LIST_RENFILESTO s;
          l = scan_lists s;
          r = r\<lparr>run_trn := 0\<rparr>
      in Option.bind (fold_opt (run_item (\<lambda>(a, b) db. Some (scan_rename_file a b db)))
            (zip (l SCAN_LIST_RENFILESFROM) (l SCAN_LIST_RENFILESTO)) r) (\<lambda>r.
         Option.bind (fold_opt (run_item (\<lambda>fl db. Some (scan_upload_file fl db))) (l SCAN_LIST_NEWFILES) r) (\<lambda>r.
         Option.bind (fold_opt (run_item (\<lambda>fl db. Some (scan_upload_modified_file fl db))) (l SCAN_LIST_MODFILES) r) (\<lambda>r.
         Option.bind (fold_opt (run_item (\<lambda>fl db. Some (scan_delete_file fl db))) (l SCAN_LIST_DELFILES) r) (\<lambda>r.
         fold_opt (run_item (\<lambda>fl db. map_option snd (scan_delete_folder n others fl db))) (l SCAN_LIST_DELFOLDERS) r)))))"

fun create_folders :: "sync_folderlist list \<Rightarrow> scan_run \<Rightarrow> sync_folderlist list \<times> scan_run" where
  "create_folders [] r = ([], r)"
| "create_folders (fl # fls) r =
     (case scan_create_folder fl (run_db r) of (fl', db) \<Rightarrow>
       (case create_folders fls (check_for_query_cnt (r\<lparr>run_db := db, run_w := run_w r + 1\<rparr>)) of (fls', r) \<Rightarrow>
         (fl' # fls', r)))"

definition scan_created_folder :: "nat \<Rightarrow> (u64 \<Rightarrow> u32 \<Rightarrow> u8 list option) \<Rightarrow> scan_world \<Rightarrow> sync_folderlist \<Rightarrow>
    scan_state \<Rightarrow> scan_state option" where
  "scan_created_folder n local_path w fl s =
     (if localid fl = 0 then Some s
      else (case local_path (localid fl) (fsyncid fl) of
              None \<Rightarrow> Some s
            | Some path \<Rightarrow>
                scanner_scan_folder n w path
                  \<lparr>ctx_folderid = 0, ctx_localfolderid = localid fl, ctx_syncid = fsyncid fl, ctx_synctype = fsynctype fl\<rparr>
                  (deviceid fl) s))"

text \<open>One round of the loop over moved and created folders; the result tells whether another round follows.\<close>

definition folder_round :: "nat \<Rightarrow> (sync_db \<Rightarrow> u64 \<Rightarrow> u32 \<Rightarrow> u8 list option) \<Rightarrow> scan_world \<Rightarrow> scan_state \<Rightarrow> scan_run \<Rightarrow>
    (bool \<times> scan_state \<times> scan_run) option" where
  "folder_round n local_path w s r =
     (let s = extract_renames compare_inode SCAN_LIST_DELFOLDERS SCAN_LIST_NEWFOLDERS
                SCAN_LIST_RENFOLDERSROM SCAN_LIST_RENFOLDERSTO s;
          pairs = zip (scan_lists s SCAN_LIST_RENFOLDERSROM) (scan_lists s SCAN_LIST_RENFOLDERSTO);
          new = scan_lists s SCAN_LIST_NEWFOLDERS;
          work = (scan_lists s SCAN_LIST_RENFOLDERSROM \<noteq> [] \<or> new \<noteq> []);
          r = r\<lparr>run_trn := 0\<rparr>
      in case (if work then
           (case fold_opt (run_item (\<lambda>(a, b) db. scan_rename_folder n a b db)) pairs r of
              None \<Rightarrow> None
            | Some r \<Rightarrow>
                (case create_folders new r of (newtmp, r) \<Rightarrow>
                  (let s = s\<lparr>scan_lists := (scan_lists s)(SCAN_LIST_RENFOLDERSROM := [], SCAN_LIST_RENFOLDERSTO := [],
                                                    SCAN_LIST_NEWFOLDERS := [])\<rparr>
                   in case fold_opt (scan_created_folder n (local_path (run_db r)) (with_db (run_db r) w)) newtmp s of
                        None \<Rightarrow> None
                      | Some s \<Rightarrow> Some (s, r\<lparr>run_commits := run_commits r + 1\<rparr>))))
         else Some (s, r)) of
           None \<Rightarrow> None
         | Some (s, r) \<Rightarrow> Some (pairs \<noteq> [] \<or> new \<noteq> [] \<or> changes s \<noteq> 0, s\<lparr>changes := 0\<rparr>, r))"

section \<open>Deleting a folder\<close>

text \<open>\<open>below rows a\<close>: the folder \<open>a\<close> and everything under it.\<close>

definition child_rel :: "lfolder list \<Rightarrow> (u64 \<times> u64) set" where
  "child_rel rows = {(lfo_parent r, lfo_id r) | r. r \<in> set rows}"

definition below :: "lfolder list \<Rightarrow> u64 \<Rightarrow> u64 set" where
  "below rows a = {b. (a, b) \<in> (child_rel rows)\<^sup>*}"

lemma below_self [simp]: "a \<in> below rows a"
  by (simp add: below_def)

lemma below_closed: "r \<in> set rows \<Longrightarrow> lfo_parent r \<in> below rows a \<Longrightarrow> lfo_id r \<in> below rows a"
  unfolding below_def child_rel_def by (auto intro: rtrancl_into_rtrancl)

lemma below_least:
  assumes "a \<in> S" and "\<And>r. r \<in> set rows \<Longrightarrow> lfo_parent r \<in> S \<Longrightarrow> lfo_id r \<in> S"
  shows "below rows a \<subseteq> S"
proof
  fix b assume "b \<in> below rows a"
  then have "(a, b) \<in> (child_rel rows)\<^sup>*" by (simp add: below_def)
  then show "b \<in> S"
    by (induction rule: rtrancl_induct) (use assms in \<open>auto simp: child_rel_def\<close>)
qed

lemma below_children:
  "below rows a = insert a (\<Union>c\<in>set (map lfo_id (filter (\<lambda>r. lfo_parent r = a) rows)). below rows c)" (is "_ = ?S")
proof
  show "below rows a \<subseteq> ?S"
  proof (rule below_least)
    fix r assume r: "r \<in> set rows" "lfo_parent r \<in> ?S"
    show "lfo_id r \<in> ?S"
    proof (cases "lfo_parent r = a")
      case True
      then have "lfo_id r \<in> set (map lfo_id (filter (\<lambda>r. lfo_parent r = a) rows))" using r(1) by auto
      then show ?thesis by (meson UN_I below_self insertI2)
    next
      case False
      then obtain c where "c \<in> set (map lfo_id (filter (\<lambda>r. lfo_parent r = a) rows))" "lfo_parent r \<in> below rows c"
        using r(2) by blast
      then show ?thesis using below_closed [OF r(1)] by (meson UN_I insertI2)
    qed
  qed simp
next
  have "below rows c \<subseteq> below rows a" if "c \<in> set (map lfo_id (filter (\<lambda>r. lfo_parent r = a) rows))" for c
  proof (rule below_least)
    show "c \<in> below rows a" using that by (auto intro: below_closed)
  qed (rule below_closed)
  then show "?S \<subseteq> below rows a" by auto
qed

lemma below_filter:
  assumes "\<And>r. r \<in> set rows \<Longrightarrow> lfo_parent r \<in> S \<Longrightarrow> lfo_id r \<in> S"
  shows "S \<union> below (filter (\<lambda>r. lfo_id r \<notin> S) rows) a = S \<union> below rows a"
proof -
  have "below (filter (\<lambda>r. lfo_id r \<notin> S) rows) a \<subseteq> below rows a"
    by (rule below_least) (auto intro: below_closed)
  moreover have "below rows a \<subseteq> S \<union> below (filter (\<lambda>r. lfo_id r \<notin> S) rows) a"
    by (rule below_least) (use assms in \<open>auto intro: below_closed\<close>)
  ultimately show ?thesis by blast
qed

text \<open>\<open>removed S db db'\<close>: the folders \<open>S\<close>, the files in them and the upload tasks of these are gone, nothing else.\<close>

definition files_in :: "u64 set \<Rightarrow> sync_db \<Rightarrow> u64 set" where
  "files_in S db = lfi_id ` {f \<in> set (localfiles db). lfi_parent f \<in> S}"

definition removed :: "u64 set \<Rightarrow> sync_db \<Rightarrow> sync_db \<Rightarrow> bool" where
  "removed S db db' \<longleftrightarrow>
     localfolders db' = filter (\<lambda>r. lfo_id r \<notin> S) (localfolders db) \<and>
     localfiles db' = filter (\<lambda>f. lfi_parent f \<notin> S) (localfiles db) \<and>
     syncedfolders db' = filter (\<lambda>(s, l, t). l \<notin> S) (syncedfolders db) \<and>
     tasks db' = filter (\<lambda>t. \<not> (t_type t = PSYNC_UPLOAD_FILE \<and> t_localitemid t \<in> files_in S db)) (tasks db) \<and>
     folder_seq db' = folder_seq db \<and> file_seq db' = file_seq db \<and>
     (\<exists>ns. notices db' = notices db @ ns \<and> set ns \<subseteq> {RecalcToUpload})"

lemma removed_empty [simp]: "removed {} db db"
  by (auto simp: removed_def files_in_def)

lemma removed_trans:
  assumes "removed S db db1" and "removed T db1 db2"
  shows "removed (S \<union> T) db db2"
proof -
  have f: "localfiles db1 = filter (\<lambda>f. lfi_parent f \<notin> S) (localfiles db)" using assms(1) by (simp add: removed_def)
  have fin: "x \<in> files_in (S \<union> T) db \<longleftrightarrow> x \<in> files_in S db \<or> x \<in> files_in T db1" for x
    unfolding files_in_def f by auto
  obtain ns ns' where "notices db1 = notices db @ ns" "set ns \<subseteq> {RecalcToUpload}"
    "notices db2 = notices db1 @ ns'" "set ns' \<subseteq> {RecalcToUpload}"
    using assms by (auto simp: removed_def)
  then have "\<exists>ns. notices db2 = notices db @ ns \<and> set ns \<subseteq> {RecalcToUpload}"
    by (intro exI [of _ "ns @ ns'"]) simp
  with assms show ?thesis
    unfolding removed_def by (auto simp: fin intro!: filter_cong)
qed

lemma delete_upload_simps [simp]:
  "localfolders (psync_delete_upload_tasks_for_file i db) = localfolders db"
  "localfiles (psync_delete_upload_tasks_for_file i db) = localfiles db"
  "syncedfolders (psync_delete_upload_tasks_for_file i db) = syncedfolders db"
  "folder_seq (psync_delete_upload_tasks_for_file i db) = folder_seq db"
  "file_seq (psync_delete_upload_tasks_for_file i db) = file_seq db"
  "tasks (psync_delete_upload_tasks_for_file i db) = filter (\<lambda>t. \<not> is_upload_of i t) (tasks db)"
  by (simp_all add: psync_delete_upload_tasks_for_file_def notify_def Let_def)

lemma delete_upload_notices:
  "\<exists>ns. notices (psync_delete_upload_tasks_for_file i db) = notices db @ ns \<and> set ns \<subseteq> {RecalcToUpload}"
  by (simp add: psync_delete_upload_tasks_for_file_def notify_def Let_def)

lemma fold_delete_upload:
  "localfolders (fold psync_delete_upload_tasks_for_file is db) = localfolders db"
  "localfiles (fold psync_delete_upload_tasks_for_file is db) = localfiles db"
  "syncedfolders (fold psync_delete_upload_tasks_for_file is db) = syncedfolders db"
  "folder_seq (fold psync_delete_upload_tasks_for_file is db) = folder_seq db"
  "file_seq (fold psync_delete_upload_tasks_for_file is db) = file_seq db"
  by (induction "is" arbitrary: db) simp_all

lemma fold_delete_upload_tasks:
  "tasks (fold psync_delete_upload_tasks_for_file is db) =
     filter (\<lambda>t. \<not> (t_type t = PSYNC_UPLOAD_FILE \<and> t_localitemid t \<in> set is)) (tasks db)"
proof (induction "is" arbitrary: db)
  case (Cons i "is")
  have "(\<lambda>t. \<not> (t_type t = PSYNC_UPLOAD_FILE \<and> t_localitemid t \<in> set is) \<and> \<not> is_upload_of i t) =
      (\<lambda>t. \<not> (t_type t = PSYNC_UPLOAD_FILE \<and> t_localitemid t \<in> set (i # is)))"
    by (auto simp: is_upload_of_def)
  with Cons show ?case by (simp add: conj_commute)
qed simp

lemma fold_delete_upload_notices:
  "\<exists>ns. notices (fold psync_delete_upload_tasks_for_file is db) = notices db @ ns \<and> set ns \<subseteq> {RecalcToUpload}"
proof (induction "is" arbitrary: db)
  case (Cons i "is")
  obtain ns where "notices (psync_delete_upload_tasks_for_file i db) = notices db @ ns" "set ns \<subseteq> {RecalcToUpload}"
    using delete_upload_notices by blast
  moreover obtain ns' where "notices (fold psync_delete_upload_tasks_for_file is (psync_delete_upload_tasks_for_file i db)) =
      notices (psync_delete_upload_tasks_for_file i db) @ ns'" "set ns' \<subseteq> {RecalcToUpload}"
    using Cons by blast
  ultimately show ?case by (intro exI [of _ "ns @ ns'"]) simp
qed simp

lemma delete_own_row:
  "removed {a} db
     (let db = fold psync_delete_upload_tasks_for_file (child_files a db) db;
          db = delete_localfile (\<lambda>r. lfi_parent r = a) db
      in db\<lparr>localfolders := filter (\<lambda>r. lfo_id r \<noteq> a) (localfolders db),
            syncedfolders := filter (\<lambda>(s, l, t). l \<noteq> a) (syncedfolders db)\<rparr>)"
proof -
  have "set (child_files a db) = files_in {a} db" by (auto simp: child_files_def files_in_def)
  then show ?thesis using fold_delete_upload_notices [of "child_files a db" db]
    by (simp add: removed_def delete_localfile_def fold_delete_upload fold_delete_upload_tasks Let_def)
qed

definition ranked :: "(u64 \<Rightarrow> nat) \<Rightarrow> sync_db \<Rightarrow> bool" where
  "ranked rank db \<longleftrightarrow> (\<forall>r\<in>set (localfolders db). rank (lfo_id r) < rank (lfo_parent r))"

lemma ranked_removed: "ranked rank db \<Longrightarrow> removed S db db' \<Longrightarrow> ranked rank db'"
  by (simp add: ranked_def removed_def)

lemma delete_rec_correct:
  "ranked rank db \<Longrightarrow> rank a < n \<Longrightarrow>
   \<exists>db'. delete_local_folder_rec n a db = Some db' \<and> removed (below (localfolders db) a) db db'"
proof (induction n arbitrary: a db)
  case (Suc n)
  let ?rows = "localfolders db"
  have fold: "\<exists>db2. fold_opt (delete_local_folder_rec n) cs db1 = Some db2 \<and>
      removed (S \<union> (\<Union>c\<in>set cs. below ?rows c)) db db2"
    if "\<forall>c\<in>set cs. rank c < n" "removed S db db1"
      "\<And>r. r \<in> set ?rows \<Longrightarrow> lfo_parent r \<in> S \<Longrightarrow> lfo_id r \<in> S" for cs S db1
    using that
  proof (induction cs arbitrary: S db1)
    case Nil
    then show ?case by simp
  next
    case (Cons c cs)
    have "ranked rank db1" using ranked_removed Suc.prems(1) Cons.prems(2) by blast
    then obtain db2 where d: "delete_local_folder_rec n c db1 = Some db2"
      and r: "removed (below (localfolders db1) c) db1 db2"
      using Suc.IH Cons.prems(1) by (meson list.set_intros(1))
    have "localfolders db1 = filter (\<lambda>r. lfo_id r \<notin> S) ?rows" using Cons.prems(2) by (simp add: removed_def)
    then have "S \<union> below (localfolders db1) c = S \<union> below ?rows c"
      using below_filter Cons.prems(3) by metis
    then have r2: "removed (S \<union> below ?rows c) db db2"
      using removed_trans [OF Cons.prems(2) r] by simp
    have cl: "lfo_id r \<in> S \<union> below ?rows c" if "r \<in> set ?rows" "lfo_parent r \<in> S \<union> below ?rows c" for r
      using that Cons.prems(3) below_closed by blast
    show ?case using Cons.IH [OF _ r2 cl] Cons.prems(1) d by (simp add: Un_assoc)
  qed
  let ?cs = "child_folders a db"
  have "\<forall>c\<in>set ?cs. rank c < n"
    using Suc.prems by (auto simp: child_folders_def ranked_def)
  then obtain db2 where db2: "fold_opt (delete_local_folder_rec n) ?cs db = Some db2"
    and r: "removed (\<Union>c\<in>set ?cs. below ?rows c) db db2"
    using fold [of ?cs "{}" db] by auto
  have "below ?rows a = (\<Union>c\<in>set ?cs. below ?rows c) \<union> {a}"
    using below_children [of ?rows a] by (simp add: child_folders_def)
  then show ?case using removed_trans [OF r delete_own_row [of a db2]] db2 by (simp add: Let_def)
qed simp

lemma delete_folder_try_correct:
  assumes "\<And>k d. ranked rank d \<Longrightarrow> ranked rank (others k d)" and "rank (localid fl) < n"
  shows "ranked rank db \<Longrightarrow> tries \<le> 50 \<Longrightarrow> slept = map (\<lambda>k. 20 + Suc k * 20) [0..<tries] \<Longrightarrow>
    \<exists>k db'. delete_folder_try n others fl tries slept db = Some (map (\<lambda>k. 20 + Suc k * 20) [0..<k], db') \<and>
      k \<le> 50 \<and> find_localfolder (localid fl) db' = None"
proof (induction "50 - tries" arbitrary: tries slept db)
  case ih: 0
  then have t: "tries = 50" by simp
  show ?case
  proof (cases "find_localfolder (localid fl) db")
    case None
    then show ?thesis using ih.prems by (subst delete_folder_try.simps) auto
  next
    case (Some row)
    define db0 where "db0 = (if number_or_null (lfo_folderid row) = 0
        then db\<lparr>tasks := filter (\<lambda>t. \<not> (t_type t = PSYNC_CREATE_REMOTE_FOLDER \<and>
               t_syncid t = Some (fsyncid fl) \<and> t_localitemid t = localid fl)) (tasks db)\<rparr> else db)"
    have "ranked rank db0" using ih.prems(1) by (simp add: db0_def ranked_def)
    then obtain db1 where d: "delete_local_folder_rec n (localid fl) db0 = Some db1"
      and r: "removed (below (localfolders db0) (localid fl)) db0 db1"
      using delete_rec_correct assms(2) by blast
    have "find_localfolder (localid fl) db1 = None"
      using r by (auto simp: removed_def find_localfolder_def find_None_iff)
    then show ?thesis using Some d ih.prems t db0_def
      by (subst delete_folder_try.simps)
         (auto simp: Let_def find_localfolder_def psync_task_delete_remote_folder_def create_task5_def
           insert_task_def intro!: exI [of _ 50])
  qed
next
  case (Suc m)
  then have t: "tries < 50" by simp
  show ?case
  proof (cases "find_localfolder (localid fl) db")
    case None
    then show ?thesis using Suc.prems by (subst delete_folder_try.simps) auto
  next
    case (Some row)
    show ?thesis
    proof (cases "number_or_null (lfo_folderid row) = 0")
      case True
      have "\<exists>k db'. delete_folder_try n others fl (Suc tries) (slept @ [20 + Suc tries * 20]) (others tries db) =
          Some (map (\<lambda>k. 20 + Suc k * 20) [0..<k], db') \<and> k \<le> 50 \<and> find_localfolder (localid fl) db' = None"
        using Suc.hyps(2) Suc.prems t by (intro Suc.hyps(1)) (auto intro: assms(1))
      then show ?thesis using Some True t by (subst delete_folder_try.simps) (simp add: Let_def)
    next
      case False
      obtain db1 where d: "delete_local_folder_rec n (localid fl) db = Some db1"
        and r: "removed (below (localfolders db) (localid fl)) db db1"
        using delete_rec_correct assms(2) Suc.prems(1) by blast
      have "find_localfolder (localid fl) db1 = None"
        using r by (auto simp: removed_def find_localfolder_def find_None_iff)
      then show ?thesis using Some False d Suc.prems t
        by (subst delete_folder_try.simps)
           (auto simp: Let_def find_localfolder_def psync_task_delete_remote_folder_def create_task5_def
             insert_task_def intro!: exI [of _ tries])
    qed
  qed
qed

section \<open>Batches\<close>

lemma fold_opt_append: "fold_opt f (xs @ ys) s = Option.bind (fold_opt f xs s) (fold_opt f ys)"
  by (induction xs arbitrary: s) (auto split: option.splits)

lemma fold_opt_map: "fold_opt f (map g xs) s = fold_opt (\<lambda>x. f (g x)) xs s"
  by (induction xs arbitrary: s) (auto split: option.splits)

lemma fold_run_item:
  "fold_opt (run_item f) xs r = Some r' \<Longrightarrow> run_trn r \<le> 1000 \<Longrightarrow>
   fold_opt f xs (run_db r) = Some (run_db r') \<and> run_w r' = run_w r + length xs \<and> run_trn r' \<le> 1000 \<and>
   run_commits r' * 1001 + run_trn r' = run_commits r * 1001 + run_trn r + length xs"
proof (induction xs arbitrary: r)
  case (Cons x xs)
  obtain db where db: "f x (run_db r) = Some db" using Cons.prems(1)
    by (cases "f x (run_db r)") (auto simp: run_item_def)
  define r1 where "r1 = check_for_query_cnt (r\<lparr>run_db := db, run_w := run_w r + 1\<rparr>)"
  have r1: "run_db r1 = db" "run_w r1 = run_w r + 1" "run_trn r1 \<le> 1000"
    "run_commits r1 * 1001 + run_trn r1 = run_commits r * 1001 + run_trn r + 1"
    using Cons.prems(2) by (auto simp: r1_def check_for_query_cnt_def)
  have "run_item f x r = Some r1" by (simp add: run_item_def db r1_def)
  then have "fold_opt (run_item f) xs r1 = Some r'" using Cons.prems(1) by simp
  then show ?case using Cons.IH [of r1] r1 db by simp
qed simp

text \<open>The items of the file phase, in the order they are worked off.\<close>

definition file_items :: "nat \<Rightarrow> (nat \<Rightarrow> sync_db \<Rightarrow> sync_db) \<Rightarrow> scan_state \<Rightarrow> (sync_db \<Rightarrow> sync_db option) list" where
  "file_items n others s =
     (let l = scan_lists (extract_renames compare_sizeinodemtime SCAN_LIST_DELFILES SCAN_LIST_NEWFILES
                SCAN_LIST_RENFILESFROM SCAN_LIST_RENFILESTO s)
      in map (\<lambda>(a, b) db. Some (scan_rename_file a b db)) (zip (l SCAN_LIST_RENFILESFROM) (l SCAN_LIST_RENFILESTO)) @
         map (\<lambda>fl db. Some (scan_upload_file fl db)) (l SCAN_LIST_NEWFILES) @
         map (\<lambda>fl db. Some (scan_upload_modified_file fl db)) (l SCAN_LIST_MODFILES) @
         map (\<lambda>fl db. Some (scan_delete_file fl db)) (l SCAN_LIST_DELFILES) @
         map (\<lambda>fl db. map_option snd (scan_delete_folder n others fl db)) (l SCAN_LIST_DELFOLDERS))"

lemma run_item_id: "(\<lambda>x. run_item (\<lambda>f. f) (g x)) = run_item g"
  by (intro ext) (simp add: run_item_def)

lemma fold_run_map: "fold_opt (run_item (\<lambda>f. f)) (map g xs) r = fold_opt (run_item g) xs r"
  unfolding fold_opt_map by (simp only: run_item_id [of g])

lemma file_phase_items:
  "file_phase n others s r = fold_opt (run_item (\<lambda>f. f)) (file_items n others s) (r\<lparr>run_trn := 0\<rparr>)"
  unfolding file_phase_def file_items_def Let_def fold_opt_append fold_run_map by simp

lemma file_items_length:
  "length (file_items n others s) =
     (let l = scan_lists (extract_renames compare_sizeinodemtime SCAN_LIST_DELFILES SCAN_LIST_NEWFILES
                SCAN_LIST_RENFILESFROM SCAN_LIST_RENFILESTO s)
      in min (length (l SCAN_LIST_RENFILESFROM)) (length (l SCAN_LIST_RENFILESTO)) + length (l SCAN_LIST_NEWFILES) +
         length (l SCAN_LIST_MODFILES) + length (l SCAN_LIST_DELFILES) + length (l SCAN_LIST_DELFOLDERS))"
  by (simp add: file_items_def Let_def)

section \<open>Invariant of the tables\<close>

definition db_ok :: "sync_db \<Rightarrow> bool" where
  "db_ok db \<longleftrightarrow> distinct (map lfi_id (localfiles db)) \<and> distinct (map file_key (localfiles db)) \<and>
     (\<forall>f\<in>set (localfiles db). unat (lfi_id f) \<le> file_seq db) \<and>
     distinct (map lfo_id (localfolders db)) \<and> distinct (map folder_key (localfolders db)) \<and>
     (\<forall>f\<in>set (localfolders db). unat (lfo_id f) \<le> folder_seq db) \<and>
     distinct (map (\<lambda>(s, l, t). (l, s)) (syncedfolders db))"

lemma db_ok_cong:
  "localfiles db' = localfiles db \<Longrightarrow> localfolders db' = localfolders db \<Longrightarrow> syncedfolders db' = syncedfolders db \<Longrightarrow>
   file_seq db' = file_seq db \<Longrightarrow> folder_seq db' = folder_seq db \<Longrightarrow> db_ok db' \<longleftrightarrow> db_ok db"
  by (simp add: db_ok_def)

lemma db_ok_task_ops [simp]:
  "db_ok (notify x db) \<longleftrightarrow> db_ok db"
  "db_ok (insert_task row db) \<longleftrightarrow> db_ok db"
  "db_ok (psync_delete_upload_tasks_for_file i db) \<longleftrightarrow> db_ok db"
  by (rule db_ok_cong; simp add: notify_def insert_task_def)+

lemma of_nat_Suc_fresh:
  assumes "Suc n < 2 ^ 64" and "\<forall>x\<in>S. unat (x :: u64) \<le> n" shows "(of_nat (Suc n) :: u64) \<notin> S"
proof
  assume "(of_nat (Suc n) :: u64) \<in> S"
  then have "unat (of_nat (Suc n) :: u64) \<le> n" using assms(2) by blast
  moreover have "unat (of_nat (Suc n) :: u64) = Suc n"
    using assms(1) unfolding unat_of_nat by simp
  ultimately show False by simp
qed

lemma insert_localfile_ok:
  assumes "db_ok db" and "Suc (file_seq db) < 2 ^ 64" and "\<And>i. lfi_id (row i) = i"
  shows "db_ok (snd (insert_localfile row db))"
proof -
  have u: "unat (of_nat (Suc (file_seq db)) :: u64) = Suc (file_seq db)"
    using assms(2) unfolding unat_of_nat by simp
  have "of_nat (Suc (file_seq db)) \<notin> lfi_id ` set (localfiles db)"
    by (rule of_nat_Suc_fresh) (use assms in \<open>auto simp: db_ok_def\<close>)
  then show ?thesis using assms u
    by (auto simp: insert_localfile_def db_ok_def Let_def simp del: of_nat_Suc)
qed

lemma insert_localfolder_ok:
  assumes "db_ok db" and "Suc (folder_seq db) < 2 ^ 64" and "\<And>i. lfo_id (row i) = i"
  shows "db_ok (snd (insert_localfolder row db))"
proof -
  have u: "unat (of_nat (Suc (folder_seq db)) :: u64) = Suc (folder_seq db)"
    using assms(2) unfolding unat_of_nat by simp
  have "of_nat (Suc (folder_seq db)) \<notin> lfo_id ` set (localfolders db)"
    by (rule of_nat_Suc_fresh) (use assms in \<open>auto simp: db_ok_def\<close>)
  then show ?thesis using assms u
    by (auto simp: insert_localfolder_def db_ok_def Let_def simp del: of_nat_Suc)
qed

lemma update_localfile_ok:
  assumes "db_ok db" and "\<And>r. lfi_id (f r) = lfi_id r"
  shows "db_ok (update_localfile p f db)"
proof -
  define rows where "rows = map (\<lambda>r. if p r then f r else r) (localfiles db)"
  have i: "map lfi_id rows = map lfi_id (localfiles db)" using assms(2) by (simp add: rows_def)
  have "\<forall>r\<in>set rows. unat (lfi_id r) \<le> file_seq db"
    using assms by (auto simp: rows_def db_ok_def)
  then show ?thesis using assms(1) i
    unfolding update_localfile_def rows_def [symmetric] Let_def by (simp add: db_ok_def)
qed

lemma update_localfolder_ok:
  assumes "db_ok db" and "\<And>r. lfo_id (f r) = lfo_id r"
  shows "db_ok (update_localfolder p f db)"
proof -
  define rows where "rows = map (\<lambda>r. if p r then f r else r) (localfolders db)"
  have i: "map lfo_id rows = map lfo_id (localfolders db)" using assms(2) by (simp add: rows_def)
  have "\<forall>r\<in>set rows. unat (lfo_id r) \<le> folder_seq db"
    using assms by (auto simp: rows_def db_ok_def)
  then show ?thesis using assms(1) i
    unfolding update_localfolder_def rows_def [symmetric] Let_def by (simp add: db_ok_def)
qed

lemma delete_localfile_ok: "db_ok db \<Longrightarrow> db_ok (delete_localfile p db)"
  by (auto simp: db_ok_def delete_localfile_def distinct_map_filter)

lemma removed_ok: "db_ok db \<Longrightarrow> removed S db db' \<Longrightarrow> db_ok db'"
  by (auto simp: db_ok_def removed_def distinct_map_filter)

lemma replace_syncedfolder_ok: "db_ok db \<Longrightarrow> db_ok (replace_syncedfolder s l t db)"
  by (auto simp: db_ok_def replace_syncedfolder_def distinct_map_filter)

lemmas task_op_defs =
  psync_task_rename_remote_file_def psync_task_upload_file_silent_def psync_task_delete_remote_file_def
  psync_task_create_remote_folder_def psync_task_rename_remote_folder_def psync_task_delete_remote_folder_def
  rename_task_def create_task3_def create_task5_def

lemma scan_rename_file_ok: "db_ok db \<Longrightarrow> db_ok (scan_rename_file a b db)"
  by (auto simp: scan_rename_file_def Let_def task_op_defs intro!: update_localfile_ok split: option.splits)

lemma scan_upload_file_ok:
  assumes "db_ok db" and "Suc (file_seq db) < 2 ^ 64" shows "db_ok (scan_upload_file fl db)"
proof -
  have "db_ok (snd (insert_localfile (new_file_row fl) db))"
    by (rule insert_localfile_ok [OF assms]) (simp add: new_file_row_def)
  then show ?thesis
    by (auto simp: scan_upload_file_def task_op_defs split: prod.splits option.splits)
qed

lemma scan_upload_modified_file_ok: "db_ok db \<Longrightarrow> db_ok (scan_upload_modified_file fl db)"
  by (auto simp: scan_upload_modified_file_def Let_def task_op_defs intro!: update_localfile_ok)

lemma scan_delete_file_ok: "db_ok db \<Longrightarrow> db_ok (scan_delete_file fl db)"
  by (auto simp: scan_delete_file_def Let_def task_op_defs intro!: delete_localfile_ok split: option.splits)

lemma scan_create_folder_ok:
  assumes "db_ok db" and "Suc (folder_seq db) < 2 ^ 64" shows "db_ok (snd (scan_create_folder fl db))"
proof -
  obtain r d where i: "insert_localfolder (new_folder_row fl) db = (r, d)" by fastforce
  have "db_ok d"
    using insert_localfolder_ok [OF assms, of "new_folder_row fl"] i by (simp add: new_folder_row_def)
  then show ?thesis using i
    by (cases r) (auto simp: scan_create_folder_def task_op_defs intro!: update_localfolder_ok replace_syncedfolder_ok)
qed

section \<open>Properties\<close>

definition sample_folder :: "u64 \<Rightarrow> u64 \<Rightarrow> lfolder" where
  "sample_folder i p = \<lparr>lfo_id = i, lfo_parent = p, lfo_folderid = None, lfo_syncid = 1, lfo_inode = i, lfo_deviceid = 1,
     lfo_mtime = 0, lfo_mtimenative = 0, lfo_flags = 0, lfo_name = [97 + ucast i]\<rparr>"

definition sample_file :: "u64 \<Rightarrow> u64 \<Rightarrow> lfile" where
  "sample_file i p = \<lparr>lfi_id = i, lfi_parent = p, lfi_fileid = Some 9, lfi_syncid = 1, lfi_size = 3, lfi_inode = i,
     lfi_mtime = 0, lfi_mtimenative = 0, lfi_name = [97 + ucast i]\<rparr>"

text \<open>Folder 1 holds folder 2, which holds folder 3; a file in 2 waits for its upload, another one is in 4.\<close>

definition sample_db :: sync_db where
  "sample_db = \<lparr>localfolders = [sample_folder 1 0, sample_folder 2 1, sample_folder 3 2, sample_folder 4 0],
     localfiles = [sample_file 1 2, sample_file 2 4], syncedfolders = [(1, 2, 3), (1, 4, 3)],
     tasks = [\<lparr>t_id = 1, t_type = PSYNC_UPLOAD_FILE, t_syncid = Some 1, t_newsyncid = None, t_itemid = 0,
       t_localitemid = 1, t_newitemid = None, t_name = None\<rparr>],
     folder_seq = 4, file_seq = 2, uploads = [], notices = []\<rparr>"

definition sample_rank :: "u64 \<Rightarrow> nat" where
  "sample_rank i = 9 - unat i"

lemma sample_ranked: "ranked sample_rank sample_db"
  by (simp add: ranked_def sample_db_def sample_folder_def sample_rank_def)

text \<open>
  C15. The recursive deletion of a local folder returns and removes exactly the subtree: the folder and
  everything below it, the files in these folders with their waiting uploads, and the rows of the
  synced folders; every other row stays. The recursion needs no more depth than the tree has, here the
  rank of the folder in any numbering that decreases from a folder to its children.
\<close>
theorem delete_local_folder_rec_subtree:
  assumes "ranked rank db" and "rank a < n"
  shows "\<exists>db'. delete_local_folder_rec n a db = Some db' \<and>
    localfolders db' = filter (\<lambda>r. lfo_id r \<notin> below (localfolders db) a) (localfolders db) \<and>
    localfiles db' = filter (\<lambda>f. lfi_parent f \<notin> below (localfolders db) a) (localfiles db) \<and>
    syncedfolders db' = filter (\<lambda>(s, l, t). l \<notin> below (localfolders db) a) (syncedfolders db) \<and>
    tasks db' = filter (\<lambda>t. \<not> (t_type t = PSYNC_UPLOAD_FILE \<and>
      t_localitemid t \<in> files_in (below (localfolders db) a) db)) (tasks db)"
  using delete_rec_correct [OF assms] by (auto simp: removed_def)

lemma delete_local_folder_rec_subtree_witness:
  "\<exists>db'. delete_local_folder_rec 9 1 sample_db = Some db' \<and> (\<forall>r\<in>set (localfolders db'). lfo_id r \<noteq> 1)"
  using delete_local_folder_rec_subtree [OF sample_ranked, of 1 9] by (auto simp: sample_rank_def)

text \<open>
  The deletion never tells the path status that a folder is gone: the notification is guarded by the
  row of the loop before it, which is \<^verbatim>\<open>NULL\<close> when the loop ends, and the query made for it is not fetched.
  Only status recalculations are added to the notices, however many folders are removed.
\<close>
theorem folder_deletion_not_reported:
  assumes "ranked rank db" and "rank a < n"
  shows "\<exists>db' ns. delete_local_folder_rec n a db = Some db' \<and> notices db' = notices db @ ns \<and>
    (\<forall>s i. FolderDeleted s i \<notin> set ns)"
proof -
  obtain db' where d: "delete_local_folder_rec n a db = Some db'" "removed (below (localfolders db) a) db db'"
    using delete_rec_correct [OF assms] by blast
  then obtain ns where "notices db' = notices db @ ns" "set ns \<subseteq> {RecalcToUpload}" by (auto simp: removed_def)
  with d(1) show ?thesis by blast
qed

lemma folder_deletion_not_reported_witness:
  "\<exists>db' ns. delete_local_folder_rec 9 1 sample_db = Some db' \<and> notices db' = notices sample_db @ ns \<and>
    (\<forall>s i. FolderDeleted s i \<notin> set ns)"
  using folder_deletion_not_reported [OF sample_ranked, of 1 9] by (simp add: sample_rank_def)

text \<open>
  The deletion of a folder whose remote counterpart may still be in creation returns, whatever the
  other threads do to the database meanwhile as long as the folders stay a forest: it sleeps at most
  50 times, 26.5 seconds in all, and afterwards no row of the folder is left.
\<close>
theorem scan_delete_folder_returns:
  assumes "\<And>k d. ranked rank d \<Longrightarrow> ranked rank (others k d)" and "rank (localid fl) < n" and "ranked rank db"
  shows "\<exists>slept db'. scan_delete_folder n others fl db = Some (slept, db') \<and> length slept \<le> 50 \<and>
    sum_list slept \<le> 26500 \<and> find_localfolder (localid fl) db' = None"
proof -
  have total: "sum_list (map (\<lambda>k. 20 + Suc k * 20) [0..<k]) = 20 * k + 10 * k * (k + 1)" for k :: nat
    by (induction k) (simp_all add: algebra_simps)
  obtain k db' where "delete_folder_try n others fl 0 [] db = Some (map (\<lambda>k. 20 + Suc k * 20) [0..<k], db')"
    "k \<le> 50" "find_localfolder (localid fl) db' = None"
    using delete_folder_try_correct [of rank others fl n db 0 "[]"] assms by auto
  moreover have "20 * k + 10 * k * (k + 1) \<le> 20 * 50 + 10 * 50 * (50 + 1)" if "k \<le> 50" for k :: nat
    using that by (intro add_mono mult_le_mono) auto
  moreover define slept where "slept = map (\<lambda>k. 20 + Suc k * 20) [0..<k]"
  moreover have "length slept = k" "sum_list slept = 20 * k + 10 * k * (k + 1)"
    unfolding slept_def total by simp_all
  ultimately have "scan_delete_folder n others fl db = Some (slept, db') \<and> length slept \<le> 50 \<and>
      sum_list slept \<le> 20 * 50 + 10 * 50 * (50 + 1) \<and> find_localfolder (localid fl) db' = None"
    unfolding scan_delete_folder_def by metis
  then show ?thesis by auto
qed

lemma scan_delete_folder_returns_witness:
  "\<exists>slept db'. scan_delete_folder 9 (\<lambda>_ d. d) (sample_entry 1 0 True [97]) sample_db = Some (slept, db') \<and>
    length slept \<le> 50 \<and> sum_list slept \<le> 26500 \<and> find_localfolder 1 db' = None"
  using scan_delete_folder_returns [of sample_rank "\<lambda>_ d. d" "sample_entry 1 0 True [97]" 9 sample_db] sample_ranked
  by (simp add: sample_entry_def sample_rank_def)

text \<open>
  Committing on the way does not change the outcome: the file phase has the effect of its items in
  their order (renames, uploads, modifications, deleted files, deleted folders), and it commits after
  every 1001 of them, so that no transaction holds more.
\<close>
theorem file_phase_batches:
  assumes "file_phase n others s r = Some r'"
  shows "fold_opt (\<lambda>f. f) (file_items n others s) (run_db r) = Some (run_db r') \<and>
    run_w r' = run_w r + length (file_items n others s) \<and>
    run_commits r' = run_commits r + length (file_items n others s) div 1001 \<and>
    run_trn r' = length (file_items n others s) mod 1001"
proof -
  let ?k = "length (file_items n others s)"
  have "fold_opt (run_item (\<lambda>f. f)) (file_items n others s) (r\<lparr>run_trn := 0\<rparr>) = Some r'"
    using assms by (simp only: file_phase_items)
  then have f: "fold_opt (\<lambda>f. f) (file_items n others s) (run_db r) = Some (run_db r')" "run_w r' = run_w r + ?k"
    "run_trn r' \<le> 1000" "run_commits r' * 1001 + run_trn r' = run_commits r * 1001 + ?k"
    using fold_run_item by fastforce+
  have "(run_commits r * 1001 + ?k) div 1001 = run_commits r'" unfolding f(4) [symmetric] using f(3) by simp
  moreover have "(run_commits r * 1001 + ?k) mod 1001 = run_trn r'" unfolding f(4) [symmetric] using f(3) by simp
  ultimately show ?thesis using f(1,2) by simp
qed

definition empty_scan :: scan_state where
  "empty_scan = \<lparr>scan_lists = (\<lambda>_. []), localsleepperfolder = 0, changes = 0, backup_del_events = [], tried_deletes = ([], [])\<rparr>"

definition sample_scan :: scan_state where
  "sample_scan = empty_scan\<lparr>scan_lists := (scan_lists empty_scan)(SCAN_LIST_NEWFILES := [sample_entry 0 3 False [98]])\<rparr>"

lemma merge_sort_single: "merge_sort cmp 1 [x] = [x]"
  by (subst merge_sort.simps, subst merge_pass.simps) simp

lemma sample_scan_lists:
  "scan_lists (extract_renames compare_sizeinodemtime SCAN_LIST_DELFILES SCAN_LIST_NEWFILES
     SCAN_LIST_RENFILESFROM SCAN_LIST_RENFILESTO sample_scan) =
   (\<lambda>i. if i = SCAN_LIST_NEWFILES then [sample_entry 0 3 False [98]] else [])"
proof -
  define e where "e = sample_entry 0 3 False [98]"
  have l: "scan_lists sample_scan SCAN_LIST_DELFILES = []" "scan_lists sample_scan SCAN_LIST_NEWFILES = [e]"
    "scan_lists sample_scan = (\<lambda>i. if i = SCAN_LIST_NEWFILES then [e] else [])"
    by (auto simp: sample_scan_def empty_scan_def scan_list_ids e_def)
  have x: "extract_lists compare_sizeinodemtime [] [e] = ([], [e], [], [])" by simp
  show ?thesis
    unfolding extract_renames_def l(1,2) merge_sort_Nil merge_sort_single x prod.case e_def [symmetric]
    unfolding l(3) by (auto simp: scan_list_ids)
qed

lemma file_phase_batches_witness:
  "\<exists>r'. file_phase 9 (\<lambda>_ d. d) sample_scan \<lparr>run_db = sample_db, run_trn = 0, run_commits = 0, run_w = 0\<rparr> = Some r' \<and>
    run_w r' = 1 \<and> run_commits r' = 0"
proof -
  define e where "e = sample_entry 0 3 False [98]"
  have items: "file_items 9 (\<lambda>_ d. d) sample_scan = [\<lambda>db. Some (scan_upload_file e db)]"
    unfolding file_items_def sample_scan_lists Let_def e_def by (simp add: scan_list_ids)
  have "\<exists>r'. file_phase 9 (\<lambda>_ d. d) sample_scan \<lparr>run_db = sample_db, run_trn = 0, run_commits = 0, run_w = 0\<rparr> = Some r'"
    unfolding file_phase_items items by (simp add: run_item_def)
  then obtain r' where r: "file_phase 9 (\<lambda>_ d. d) sample_scan \<lparr>run_db = sample_db, run_trn = 0, run_commits = 0, run_w = 0\<rparr> = Some r'" ..
  then show ?thesis using file_phase_batches [OF r] by (simp add: items)
qed

text \<open>
  The operations of the scanner keep the tables well formed: ids and the unique keys of files,
  folders and synced folders stay distinct and below the counters, as long as these do not wrap around.
\<close>
theorem scan_operations_keep_tables:
  assumes "db_ok db" and "Suc (file_seq db) < 2 ^ 64" and "Suc (folder_seq db) < 2 ^ 64"
  shows "db_ok (scan_rename_file a b db) \<and> db_ok (scan_upload_file fl db) \<and>
    db_ok (scan_upload_modified_file fl db) \<and> db_ok (scan_delete_file fl db) \<and>
    db_ok (snd (scan_create_folder fl db)) \<and>
    (ranked rank db \<and> rank x < n \<longrightarrow> (\<exists>db'. delete_local_folder_rec n x db = Some db' \<and> db_ok db'))"
proof (intro conjI impI)
  assume "ranked rank db \<and> rank x < n"
  then show "\<exists>db'. delete_local_folder_rec n x db = Some db' \<and> db_ok db'"
    using delete_rec_correct removed_ok [OF assms(1)] by blast
qed (rule scan_rename_file_ok scan_upload_file_ok scan_upload_modified_file_ok scan_delete_file_ok
    scan_create_folder_ok assms)+

lemma scan_operations_keep_tables_witness:
  "db_ok sample_db \<and> db_ok (scan_upload_file (sample_entry 0 3 False [98]) sample_db)"
proof -
  have "db_ok sample_db"
    by (simp add: db_ok_def sample_db_def sample_folder_def sample_file_def file_key_def folder_key_def)
  moreover have "Suc (file_seq sample_db) < 2 ^ 64" "Suc (folder_seq sample_db) < 2 ^ 64"
    by (simp_all add: sample_db_def)
  ultimately show ?thesis
    using scan_operations_keep_tables [of sample_db "sample_entry 0 3 False [98]" "sample_entry 0 3 False [98]"
        "sample_entry 0 3 False [98]"] by (simp only: simp_thms)
qed

end
