(* ===== verification/Crypto.thy ===== *)
theory Crypto
  imports Prelude
begin

text \<open>
  The symmetric-encryption layer of \<^verbatim>\<open>pcrypto.c\<close>: HMAC-SHA512, the seekable counter mode, the
  chained mode for file names (``text'') and the authenticated sector mode with ciphertext
  stealing for file contents.

  AES and SHA-512 come from the TLS library the client is linked with and are parameters: a block
  cipher is a pair of functions on 16-byte blocks (\<open>block_cipher\<close> states what the code relies on),
  a hash a function \<open>sha\<close> with 64-byte results. A SHA context is the list of the bytes it was
  fed. \<^verbatim>\<open>unsigned long\<close> has eight bytes and hosts are little endian, as in the builds of the
  client; a pointer's alignment, which selects between two loops of the code, is a boolean argument.
\<close>

unbundle bit_operations_syntax

section \<open>Parameters\<close>

abbreviation BS :: nat where "BS \<equiv> 16"   \<comment> \<open>\<^verbatim>\<open>PSYNC_AES256_BLOCK_SIZE\<close>\<close>
abbreviation KEY_SIZE :: nat where "KEY_SIZE \<equiv> 32"   \<comment> \<open>\<^verbatim>\<open>PSYNC_AES256_KEY_SIZE\<close>\<close>
abbreviation SHA_BLOCK :: nat where "SHA_BLOCK \<equiv> 128"   \<comment> \<open>\<^verbatim>\<open>PSYNC_SHA512_BLOCK_LEN\<close>\<close>

type_synonym bytes = "u8 list"

definition block_cipher :: "(bytes \<Rightarrow> bytes) \<Rightarrow> (bytes \<Rightarrow> bytes) \<Rightarrow> bool" where
  "block_cipher E D \<longleftrightarrow> (\<forall>x. length x = BS \<longrightarrow> length (E x) = BS \<and> length (D x) = BS \<and> D (E x) = x \<and> E (D x) = x)"

definition digest64 :: "(bytes \<Rightarrow> bytes) \<Rightarrow> bool" where
  "digest64 sha \<longleftrightarrow> (\<forall>x. length (sha x) = 64)"

section \<open>HMAC\<close>

record hmac_ctx =
  sha1ctx :: bytes   \<comment> \<open>the bytes the inner hash was fed\<close>
  final :: bytes   \<comment> \<open>the outer key block; the inner digest is put behind it\<close>

definition psync_hmac_sha512_init :: "bytes \<Rightarrow> hmac_ctx" where
  "psync_hmac_sha512_init key =
     (let k = (if SHA_BLOCK < length key then take SHA_BLOCK key else key);
          keyxor = map (\<lambda>b. b XOR 0x36) k @ replicate (SHA_BLOCK - length k) 0x36;
          fin = map (\<lambda>b. b XOR 0x5c) k @ replicate (SHA_BLOCK - length k) 0x5c
      in \<lparr>sha1ctx = keyxor, final = fin\<rparr>)"

definition psync_hmac_sha512_update :: "bytes \<Rightarrow> hmac_ctx \<Rightarrow> hmac_ctx" where
  "psync_hmac_sha512_update data ctx = ctx\<lparr>sha1ctx := sha1ctx ctx @ data\<rparr>"

definition psync_hmac_sha512_final :: "(bytes \<Rightarrow> bytes) \<Rightarrow> hmac_ctx \<Rightarrow> bytes" where
  "psync_hmac_sha512_final sha ctx = sha (final ctx @ sha (sha1ctx ctx))"

definition psync_hmac_sha512 :: "(bytes \<Rightarrow> bytes) \<Rightarrow> bytes \<Rightarrow> bytes \<Rightarrow> bytes" where
  "psync_hmac_sha512 sha msg key =
     (let k = (if SHA_BLOCK < length key then take SHA_BLOCK key else key);
          keyxor = map (\<lambda>b. b XOR 0x36) k @ replicate (SHA_BLOCK - length k) 0x36;
          fin = map (\<lambda>b. b XOR 0x5c) k @ replicate (SHA_BLOCK - length k) 0x5c
      in sha (fin @ sha (keyxor @ msg)))"

section \<open>Exclusive or of blocks\<close>

definition xor_cnt_inplace :: "bytes \<Rightarrow> bytes \<Rightarrow> nat \<Rightarrow> bytes" where
  "xor_cnt_inplace data key count =
     fold (\<lambda>i d. d[i := d ! i XOR key ! i]) [0..<count] data"

definition xor16_unaligned_inplace :: "bytes \<Rightarrow> bytes \<Rightarrow> bytes" where
  "xor16_unaligned_inplace data key =
     fold (\<lambda>i d. d[i := d ! i XOR key ! i]) [0..<BS] data"

definition long_deref :: "bytes \<Rightarrow> nat \<Rightarrow> u64" where
  "long_deref x a = of_nat (le_load (take 8 (drop (8 * a) x)))"

definition set_long :: "bytes \<Rightarrow> nat \<Rightarrow> u64 \<Rightarrow> bytes" where
  "set_long x a w = take (8 * a) x @ le_store 8 (unat w) @ drop (8 * a + 8) x"

definition xor16_aligned_inplace :: "bytes \<Rightarrow> bytes \<Rightarrow> bytes" where
  "xor16_aligned_inplace data key =
     (let data = set_long data 0 (long_deref data 0 XOR long_deref key 0)
      in set_long data 1 (long_deref data 1 XOR long_deref key 1))"

definition xor16 :: "bool \<Rightarrow> bytes \<Rightarrow> bytes \<Rightarrow> bytes" where
  "xor16 aligned data key =
     (if aligned then xor16_aligned_inplace data key else xor16_unaligned_inplace data key)"

definition copy_unaligned :: "bytes \<Rightarrow> bytes" where
  "copy_unaligned src = take BS src"

definition copy_aligned :: "bytes \<Rightarrow> bytes" where
  "copy_aligned src = le_store 8 (unat (long_deref src 0)) @ le_store 8 (unat (long_deref src 1))"

definition copy16 :: "bool \<Rightarrow> bytes \<Rightarrow> bytes" where
  "copy16 aligned src = (if aligned then copy_aligned src else copy_unaligned src)"

definition copy_pad :: "nat \<Rightarrow> bytes \<Rightarrow> bytes \<times> bytes" where
  "copy_pad cnt tx =
     (if cnt \<le> length tx then (take cnt tx, drop cnt tx)
      else (tx @ replicate (cnt - length tx) 0, []))"

definition align_a256_bs :: "nat \<Rightarrow> nat" where
  "align_a256_bs n = ((n + BS - 1) div BS) * BS"

subsection \<open>The loops and the word versions are the same exclusive or\<close>

abbreviation xorb :: "bytes \<Rightarrow> bytes \<Rightarrow> bytes" where
  "xorb a b \<equiv> map2 (XOR) a b"

lemma xor_fold:
  "n \<le> length d \<Longrightarrow> n \<le> length k \<Longrightarrow>
   fold (\<lambda>i d. d[i := d ! i XOR k ! i]) [0..<n] d = xorb (take n d) k @ drop n d"
proof (induction n)
  case 0
  then show ?case by simp
next
  case (Suc n)
  let ?d' = "xorb (take n d) k @ drop n d"
  have len: "length (xorb (take n d) k) = n" using Suc.prems by simp
  have "fold (\<lambda>i d. d[i := d ! i XOR k ! i]) [0..<Suc n] d = ?d'[n := ?d' ! n XOR k ! n]"
    using Suc by simp
  also have "\<dots> = xorb (take n d) k @ (drop n d)[0 := drop n d ! 0 XOR k ! n]"
    using len by (simp add: list_update_append nth_append)
  also have "\<dots> = xorb (take (Suc n) d) k @ drop (Suc n) d"
  proof (intro nth_equalityI)
    fix i assume "i < length (xorb (take n d) k @ (drop n d)[0 := drop n d ! 0 XOR k ! n])"
    then have "i < length d" using Suc.prems by simp
    then show "(xorb (take n d) k @ (drop n d)[0 := drop n d ! 0 XOR k ! n]) ! i
             = (xorb (take (Suc n) d) k @ drop (Suc n) d) ! i"
      using Suc.prems
      by (auto simp: nth_append nth_list_update min_def less_Suc_eq not_less)
  qed (use Suc.prems in simp)
  finally show ?case .
qed

lemma xor_cnt_eq:
  "n \<le> length d \<Longrightarrow> n \<le> length k \<Longrightarrow> xor_cnt_inplace d k n = xorb (take n d) k @ drop n d"
  unfolding xor_cnt_inplace_def by (rule xor_fold)

lemma xor16_unaligned_eq:
  "length d = BS \<Longrightarrow> length k = BS \<Longrightarrow> xor16_unaligned_inplace d k = xorb d k"
  unfolding xor16_unaligned_inplace_def by (simp add: xor_fold)

lemma le_store_xor: "le_store n (x XOR y) = xorb (le_store n x) (le_store n y)"
proof (induction n arbitrary: x y)
  case 0
  then show ?case by simp
next
  case (Suc n)
  have "(x XOR y) div 256 = (x div 256) XOR (y div 256)"
    using drop_bit_xor [of 8 x y] by (simp add: drop_bit_eq_div)
  then show ?case using Suc by (simp add: of_nat_xor_eq)
qed

lemma unat_long_deref:
  assumes "8 * a + 8 \<le> length x"
  shows "unat (long_deref x a) = le_load (take 8 (drop (8 * a) x))"
proof -
  have "length (take 8 (drop (8 * a) x)) = 8" using assms by simp
  then have "le_load (take 8 (drop (8 * a) x)) < 256 ^ 8" using le_load_less by metis
  then have "le_load (take 8 (drop (8 * a) x)) < 2 ^ 64" by simp
  then show ?thesis unfolding long_deref_def by (simp add: unat_of_nat)
qed

lemma store_xor_long:
  assumes "8 * a + 8 \<le> length x" "8 * b + 8 \<le> length y"
  shows "le_store 8 (unat (long_deref x a XOR long_deref y b))
       = xorb (take 8 (drop (8 * a) x)) (take 8 (drop (8 * b) y))"
proof -
  have *: "le_store 8 (le_load (take 8 (drop (8 * c) z))) = take 8 (drop (8 * c) z)"
    if "8 * c + 8 \<le> length z" for c and z :: bytes
    using that by (intro le_store_load) simp
  show ?thesis
    unfolding unsigned_xor_eq le_store_xor unat_long_deref [OF assms(1)] unat_long_deref [OF assms(2)]
      * [OF assms(1)] * [OF assms(2)] ..
qed

lemma split16:
  assumes "length (d :: bytes) = BS"
  obtains a b where "d = a @ b" "length a = 8" "length b = 8"
proof
  show "d = take 8 d @ drop 8 d" by simp
qed (use assms in auto)

lemma xor16_aligned_eq:
  assumes "length d = BS" "length k = BS"
  shows "xor16_aligned_inplace d k = xorb d k"
proof -
  obtain d0 d1 where d: "d = d0 @ d1" "length d0 = 8" "length d1 = 8"
    using assms(1) by (rule split16)
  obtain k0 k1 where k: "k = k0 @ k1" "length k0 = 8" "length k1 = 8"
    using assms(2) by (rule split16)
  have 1: "set_long d 0 (long_deref d 0 XOR long_deref k 0) = xorb d0 k0 @ d1"
    unfolding set_long_def using d k by (simp add: store_xor_long)
  have 2: "set_long (xorb d0 k0 @ d1) 1 (long_deref (xorb d0 k0 @ d1) 1 XOR long_deref k 1)
         = xorb d0 k0 @ xorb d1 k1"
    unfolding set_long_def using d k by (simp add: store_xor_long del: One_nat_def)
  show ?thesis
    unfolding xor16_aligned_inplace_def Let_def 1 2 using d k by simp
qed

lemma xor16_eq: "length d = BS \<Longrightarrow> length k = BS \<Longrightarrow> xor16 al d k = xorb d k"
  by (simp add: xor16_def xor16_aligned_eq xor16_unaligned_eq)

lemma copy_aligned_eq:
  assumes "BS \<le> length src"
  shows "copy_aligned src = take BS src"
proof -
  have *: "le_store 8 (unat (long_deref src c)) = take 8 (drop (8 * c) src)" if "c < 2" for c
  proof -
    have len: "8 * c + 8 \<le> length src" using assms that by simp
    then show ?thesis unfolding unat_long_deref [OF len] by (intro le_store_load) simp
  qed
  have "copy_aligned src = take 8 src @ take 8 (drop 8 src)"
    unfolding copy_aligned_def using * [of 0] * [of 1] by simp
  also have "\<dots> = take BS src" using take_add [of 8 8 src] by simp
  finally show ?thesis .
qed

lemma copy16_eq: "BS \<le> length src \<Longrightarrow> copy16 al src = take BS src"
  by (simp add: copy16_def copy_aligned_eq copy_unaligned_def)

lemma xorb_twice: "length a \<le> length b \<Longrightarrow> xorb (xorb a b) b = a"
proof (induction a arbitrary: b)
  case Nil
  then show ?case by simp
next
  case (Cons x a)
  then show ?case by (cases b) (auto simp: xor.assoc)
qed

lemma xorb_commute: "xorb a b = xorb b a"
proof (induction a arbitrary: b)
  case Nil
  then show ?case by simp
next
  case (Cons x a)
  then show ?case by (cases b) (auto simp: xor.commute)
qed

section \<open>Keys\<close>

text \<open>
  A symmetric key is its bytes (\<^verbatim>\<open>keylen\<close> is their number). The encoders hold the block function the
  library made of the key, or nothing when the library refused it (\<open>mk\<close>), and the bytes of the key
  behind the AES part as initialisation vector.
\<close>

definition psync_crypto_aes256_gen_key_len :: "(nat \<Rightarrow> bytes) \<Rightarrow> nat \<Rightarrow> bytes" where
  "psync_crypto_aes256_gen_key_len rand_strong len = rand_strong len"

definition psync_crypto_aes256_ctr_gen_key :: "(nat \<Rightarrow> bytes) \<Rightarrow> bytes" where
  "psync_crypto_aes256_ctr_gen_key rand_strong =
     psync_crypto_aes256_gen_key_len rand_strong (KEY_SIZE + BS)"

record block_coder =
  coder :: "bytes \<Rightarrow> bytes"
  iv :: bytes

definition psync_crypto_aes256_ctr_encoder_decoder_create ::
  "(bytes \<Rightarrow> (bytes \<Rightarrow> bytes) option) \<Rightarrow> bytes \<Rightarrow> block_coder option" where
  "psync_crypto_aes256_ctr_encoder_decoder_create mk key =
     (if length key < KEY_SIZE + BS then None
      else case mk key of
        None \<Rightarrow> None
      | Some enc \<Rightarrow> Some \<lparr>coder = enc, iv = take BS (drop KEY_SIZE key)\<rparr>)"

definition psync_crypto_aes256_text_encoder_create ::
  "(bytes \<Rightarrow> (bytes \<Rightarrow> bytes) option) \<Rightarrow> bytes \<Rightarrow> block_coder option" where
  "psync_crypto_aes256_text_encoder_create mk_enc key =
     (if length key < KEY_SIZE + BS then None
      else case mk_enc key of
        None \<Rightarrow> None
      | Some enc \<Rightarrow> Some \<lparr>coder = enc, iv = drop KEY_SIZE key\<rparr>)"

definition psync_crypto_aes256_text_decoder_create ::
  "(bytes \<Rightarrow> (bytes \<Rightarrow> bytes) option) \<Rightarrow> bytes \<Rightarrow> block_coder option" where
  "psync_crypto_aes256_text_decoder_create mk_dec key =
     (if length key < KEY_SIZE + BS then None
      else case mk_dec key of
        None \<Rightarrow> None
      | Some enc \<Rightarrow> Some \<lparr>coder = enc, iv = drop KEY_SIZE key\<rparr>)"

text \<open>
  The sector coder holds two block functions. After the decoder was made the code tests the encoder
  a second time, so a missing decoder (a null pointer, \<open>None\<close>) is stored.
\<close>

record sector_coder =
  encoder :: "bytes \<Rightarrow> bytes"
  decoder :: "(bytes \<Rightarrow> bytes) option"
  siv :: bytes

definition psync_crypto_aes256_sector_encoder_decoder_create ::
  "(bytes \<Rightarrow> (bytes \<Rightarrow> bytes) option) \<Rightarrow> (bytes \<Rightarrow> (bytes \<Rightarrow> bytes) option) \<Rightarrow> bytes
     \<Rightarrow> sector_coder option" where
  "psync_crypto_aes256_sector_encoder_decoder_create mk_enc mk_dec key =
     (if length key < KEY_SIZE then None
      else case mk_enc key of
        None \<Rightarrow> None
      | Some enc \<Rightarrow>
          let dec = mk_dec key
          in Some \<lparr>encoder = enc, decoder = dec, siv = drop KEY_SIZE key\<rparr>)"

section \<open>Counter mode\<close>

definition copy_iv_and_xor_with_counter :: "bytes \<Rightarrow> bytes \<Rightarrow> u64 \<Rightarrow> bytes" where
  "copy_iv_and_xor_with_counter dest v counter = set_long dest 0 (long_deref v 0 XOR counter)"

definition ctr_block :: "block_coder \<Rightarrow> bytes \<Rightarrow> u64 \<Rightarrow> bytes" where
  "ctr_block enc aessrc counter = coder enc (copy_iv_and_xor_with_counter aessrc (iv enc) counter)"

text \<open>
  The loop over whole blocks. It returns the processed bytes, the rest of the data and the counter.
\<close>

fun ctr_blocks ::
  "bool \<Rightarrow> block_coder \<Rightarrow> bytes \<Rightarrow> nat \<Rightarrow> u64 \<Rightarrow> bytes \<Rightarrow> bytes \<times> bytes \<times> u64" where
  "ctr_blocks al enc aessrc 0 counter data = ([], data, counter)"
| "ctr_blocks al enc aessrc (Suc blocksrem) counter data =
     (let blk = xor16 al (take BS data) (ctr_block enc aessrc counter);
          (out, rest, c) = ctr_blocks al enc aessrc blocksrem (counter + 1) (drop BS data)
      in (blk @ out, rest, c))"

text \<open>
  The first, partial block always takes \<open>16 - dataoffset mod 16\<close> bytes: when the data is shorter, the
  code writes behind its end and then subtracts past zero. The model stops there with \<open>Overread\<close>.
  Only the high half of \<open>aessrc\<close> is set before the loop; the low half is written for each block.
\<close>

definition psync_crypto_aes256_ctr_encode_decode_inplace ::
  "bool \<Rightarrow> block_coder \<Rightarrow> bytes \<Rightarrow> u64 \<Rightarrow> bytes outcome" where
  "psync_crypto_aes256_ctr_encode_decode_inplace al enc data dataoffset =
     (let counter = dataoffset div 16;
          aessrc = replicate 8 0 @ drop 8 (iv enc);
          off = unat (dataoffset mod 16);
          blocksrem = BS - off
      in bindo
          (if off \<noteq> 0
           then if length data < blocksrem then Overread
                else Ok (xor_cnt_inplace (take blocksrem data)
                           (drop off (ctr_block enc aessrc counter)) blocksrem,
                         drop blocksrem data, counter + 1)
           else Ok ([], data, counter))
          (\<lambda>(done, rest, counter).
             let (blocks, rest, counter) =
                   ctr_blocks al enc aessrc (length rest div BS) counter rest;
                 last_part =
                   (if rest \<noteq> []
                    then xor_cnt_inplace rest (ctr_block enc aessrc counter) (length rest)
                    else [])
             in Ok (done @ blocks @ last_part)))"

section \<open>File names\<close>

text \<open>
  The code chains the blocks of a name; a name longer than one block starts with a block that is
  combined with the HMAC of the rest. \<open>Fail\<close> stands for the failed assertion on \<^verbatim>\<open>ivlen\<close>, \<open>Overread\<close>
  for a write past the \<open>ol\<close> bytes of the allocated output.
\<close>

function encode_text_loop :: "(bytes \<Rightarrow> bytes) \<Rightarrow> bytes \<Rightarrow> bytes \<Rightarrow> bytes" where
  "encode_text_loop E aesdst tx =
     (let (aessrc, tx') = copy_pad BS tx;
          aesdst = E (xor16_aligned_inplace aessrc aesdst)
      in copy_aligned aesdst @ (if tx' = [] then [] else encode_text_loop E aesdst tx'))"
  by pat_completeness auto
termination
  by (relation "measure (\<lambda>(E, aesdst, tx). length tx)")
     (auto simp: copy_pad_def split: if_splits)

definition psync_crypto_aes256_encode_text ::
  "(bytes \<Rightarrow> bytes) \<Rightarrow> block_coder \<Rightarrow> bytes \<Rightarrow> (bytes \<times> nat) outcome" where
  "psync_crypto_aes256_encode_text sha enc tx =
     (let ol = align_a256_bs (length tx)
      in bindo
          (if length tx \<le> BS
           then let (aessrc, tx) = copy_pad BS tx
                in if length (iv enc) < BS then Fail
                   else Ok (copy_aligned (coder enc (xor16_aligned_inplace aessrc (take BS (iv enc)))))
           else let hmac = psync_hmac_sha512 sha (drop BS tx) (iv enc);
                    aesdst = coder enc (xor16_aligned_inplace (copy_unaligned tx) (take BS hmac))
                in Ok (copy_aligned aesdst @ encode_text_loop (coder enc) aesdst (drop BS tx)))
          (\<lambda>out. if ol < length out then Overread else Ok (out, ol)))"

text \<open>The decoder. Its result is a C string; \<open>Fail\<close> is the null pointer.\<close>

fun decode_text_loop :: "bool \<Rightarrow> (bytes \<Rightarrow> bytes) \<Rightarrow> bytes \<Rightarrow> bytes \<Rightarrow> nat \<Rightarrow> bytes" where
  "decode_text_loop al D xorptr data 0 = []"
| "decode_text_loop al D xorptr data (Suc n) =
     copy_aligned (xor16 al (D (copy16 al data)) xorptr)
       @ decode_text_loop al D (take BS data) (drop BS data) n"

definition zero_padding :: "bytes \<Rightarrow> nat \<Rightarrow> nat \<Rightarrow> bool" where
  "zero_padding ret len outptr \<longleftrightarrow> list_all (\<lambda>i. ret ! i = 0) [len..<outptr]"

definition psync_crypto_aes256_decode_text ::
  "(bytes \<Rightarrow> bytes) \<Rightarrow> bool \<Rightarrow> block_coder \<Rightarrow> bytes \<Rightarrow> bytes outcome" where
  "psync_crypto_aes256_decode_text sha al enc data =
     (if length data mod BS \<noteq> 0 \<or> data = [] then Fail
      else if length data div BS = 1
      then let aesdst = coder enc (copy_unaligned data)
           in if length (iv enc) < BS then Fail
              else let ret = copy_aligned (xor16_aligned_inplace aesdst (take BS (iv enc))) @ [0];
                       len = length (c_str ret) + 1
                   in if zero_padding ret len BS then Ok ret else Fail
      else let blk = copy_aligned (coder enc (copy16 al data));
               outptr = length data;
               ret = blk @ decode_text_loop al (coder enc) (take BS data) (drop BS data)
                             (length data div BS - 1) @ [0];
               len = length (c_str (drop BS ret));
               hmac = psync_hmac_sha512 sha (take len (drop BS ret)) (iv enc);
               ret = xor16_aligned_inplace (take BS ret) (take BS hmac) @ drop BS ret;
               len = len + BS + 1
           in if zero_padding ret len outptr then Ok ret else Fail)"

section \<open>Sectors\<close>

text \<open>
  Two and four consecutive blocks; the four-block decoder also combines with \<open>bxor\<close>, one word at a
  time.
\<close>

definition psync_aes256_2blocks_consec :: "(bytes \<Rightarrow> bytes) \<Rightarrow> bytes \<Rightarrow> bytes" where
  "psync_aes256_2blocks_consec F src = F (take BS src) @ F (take BS (drop BS src))"

definition psync_aes256_decode_4blocks_consec_xor_sw ::
  "(bytes \<Rightarrow> bytes) \<Rightarrow> bytes \<Rightarrow> bytes \<Rightarrow> bytes" where
  "psync_aes256_decode_4blocks_consec_xor_sw D src bxor =
     (let dst = D (take BS src) @ D (take BS (drop BS src)) @ D (take BS (drop (2 * BS) src))
                  @ D (take BS (drop (3 * BS) src))
      in fold (\<lambda>i d. set_long d i (long_deref d i XOR long_deref bxor i)) [0..<4 * BS div 8] dst)"

definition memcmp_const :: "bytes \<Rightarrow> bytes \<Rightarrow> nat \<Rightarrow> u32" where
  "memcmp_const s1 s2 cnt =
     (let r = fold (\<lambda>i r. r OR ucast (s1 ! i XOR s2 ! i)) [0..<cnt] (0 :: u32)
      in (drop_bit 8 (r - 1) AND 1) XOR 1)"

definition sector_hmac :: "(bytes \<Rightarrow> bytes) \<Rightarrow> bytes \<Rightarrow> bytes \<Rightarrow> u64 \<Rightarrow> bytes \<Rightarrow> bytes" where
  "sector_hmac sha key data sectorid rnd =
     (let ctx = psync_hmac_sha512_init key;
          ctx = psync_hmac_sha512_update data ctx;
          ctx = psync_hmac_sha512_update (le_store 8 (unat sectorid)) ctx;
          ctx = psync_hmac_sha512_update rnd ctx
      in psync_hmac_sha512_final sha ctx)"

text \<open>The chaining loop of the encoder: the output, the last block and the data that is left.\<close>

fun encode_sector_loop ::
  "bool \<Rightarrow> (bytes \<Rightarrow> bytes) \<Rightarrow> bytes \<Rightarrow> bytes \<Rightarrow> nat \<Rightarrow> bytes \<times> bytes \<times> bytes" where
  "encode_sector_loop al E aessrc data 0 = ([], aessrc, data)"
| "encode_sector_loop al E aessrc data (Suc blocks) =
     (let aesdst = E (xor16 al aessrc (take BS data));
          (out, last, rest) = encode_sector_loop al E aesdst (drop BS data) blocks
      in (copy16 al aesdst @ out, last, rest))"

definition encode_sector_tail :: "(bytes \<Rightarrow> bytes) \<Rightarrow> bytes \<Rightarrow> bytes \<Rightarrow> nat \<Rightarrow> bytes" where
  "encode_sector_tail E aessrc data needsteal =
     (if needsteal = 0 then []
      else let aesdst = E (xor16_unaligned_inplace aessrc (take BS data));
               data = drop BS data;
               stolen = take needsteal aesdst;
               aesdst = xor_cnt_inplace aesdst data needsteal
           in copy_unaligned (E aesdst) @ stolen)"

text \<open>
  The part of the encoder for data of at least a block: unless the length is a multiple of 16, the
  last whole block and the rest are left to the tail.
\<close>

definition encode_sector_body :: "bool \<Rightarrow> (bytes \<Rightarrow> bytes) \<Rightarrow> bytes \<Rightarrow> bytes \<Rightarrow> bytes" where
  "encode_sector_body al E aessrc data =
     (let needsteal = length data mod 16;
          datalen = (if needsteal \<noteq> 0 then length data - (needsteal + BS) else length data);
          (out, last, rest) = encode_sector_loop al E aessrc data (datalen div BS)
      in out @ encode_sector_tail E last rest needsteal)"

definition psync_crypto_aes256_encode_sector ::
  "(bytes \<Rightarrow> bytes) \<Rightarrow> bool \<Rightarrow> sector_coder \<Rightarrow> bytes \<Rightarrow> bytes \<Rightarrow> u64 \<Rightarrow> bytes \<times> bytes" where
  "psync_crypto_aes256_encode_sector sha al enc rnd data sectorid =
     (let hmac = sector_hmac sha (siv enc) data sectorid rnd
      in if length data < BS
      then let aessrc = xor_cnt_inplace rnd data (length data);
               out = take (length data) rnd;
               authout = psync_aes256_2blocks_consec (encoder enc) (aessrc @ take BS hmac)
           in (out, authout)
      else let authout = psync_aes256_2blocks_consec (encoder enc)
                           (take (BS div 2) rnd @ take BS hmac @ drop (BS div 2) rnd)
           in (encode_sector_body al (encoder enc) (take BS hmac) data, authout))"

text \<open>
  The decoder first takes four blocks at a time, then single ones. \<open>aesxor\<close> is the block to combine
  the next decoded block with: the HMAC for the first, then the preceding encrypted block.
\<close>

fun decode_sector_loop4 ::
  "(bytes \<Rightarrow> bytes) \<Rightarrow> bytes \<Rightarrow> bytes \<Rightarrow> nat \<Rightarrow> bytes \<times> bytes \<times> bytes" where
  "decode_sector_loop4 D aesxor data 0 = ([], aesxor, data)"
| "decode_sector_loop4 D aesxor data (Suc n) =
     (let aessrc = take (4 * BS) data;
          aesdst = psync_aes256_decode_4blocks_consec_xor_sw D aessrc (aesxor @ take (3 * BS) aessrc);
          (out, x, rest) =
            decode_sector_loop4 D (drop (3 * BS) aessrc) (drop (4 * BS) data) n
      in (aesdst @ out, x, rest))"

fun decode_sector_loop ::
  "(bytes \<Rightarrow> bytes) \<Rightarrow> bytes \<Rightarrow> bytes \<Rightarrow> nat \<Rightarrow> bytes \<times> bytes \<times> bytes" where
  "decode_sector_loop D aesxor data 0 = ([], aesxor, data)"
| "decode_sector_loop D aesxor data (Suc n) =
     (let aessrc = copy_unaligned data;
          aesdst = xor16_aligned_inplace (D aessrc) aesxor;
          (out, x, rest) = decode_sector_loop D aessrc (drop BS data) n
      in (copy_unaligned aesdst @ out, x, rest))"

definition decode_sector_tail :: "(bytes \<Rightarrow> bytes) \<Rightarrow> bytes \<Rightarrow> bytes \<Rightarrow> nat \<Rightarrow> bytes" where
  "decode_sector_tail D aesxor data needsteal =
     (if needsteal = 0 then []
      else let aesdst = xor_cnt_inplace (D (copy_unaligned data)) (drop BS data) needsteal;
               aessrc = take needsteal (drop BS data);
               stolen = take needsteal aesdst;
               aesdst = aessrc @ drop needsteal aesdst
           in copy_unaligned (xor16_aligned_inplace (D aesdst) aesxor) @ stolen)"

definition decode_sector_body :: "(bytes \<Rightarrow> bytes) \<Rightarrow> bytes \<Rightarrow> bytes \<Rightarrow> bytes" where
  "decode_sector_body D aesxor data =
     (let needsteal = length data mod 16;
          datalen = (if needsteal \<noteq> 0 then length data - (needsteal + BS) else length data);
          (out4, aesxor, rest) = decode_sector_loop4 D aesxor data (datalen div (4 * BS));
          (out1, aesxor, rest) = decode_sector_loop D aesxor rest (datalen mod (4 * BS) div BS)
      in out4 @ out1 @ decode_sector_tail D aesxor rest needsteal)"

text \<open>
  The result is the output and the return value, \<open>0\<close> or \<open>-1\<close>. The tests below (32-byte \<open>auth\<close>, a
  decoder that is not null) are on what the caller passes.
\<close>

definition psync_crypto_aes256_decode_sector ::
  "(bytes \<Rightarrow> bytes) \<Rightarrow> sector_coder \<Rightarrow> bytes \<Rightarrow> bytes \<Rightarrow> u64 \<Rightarrow> (bytes \<times> 32 word) outcome" where
  "psync_crypto_aes256_decode_sector sha enc data auth sectorid =
     (case decoder enc of
        None \<Rightarrow> Overread
      | Some D \<Rightarrow>
          let hmac = psync_aes256_2blocks_consec D auth;
              (out, hmac) =
                (if length data < BS
                 then let hmac = xor_cnt_inplace hmac data (length data);
                          out = take (length data) hmac
                      in (out, data @ drop (length data) hmac)
                 else let aesxor = take BS (drop (BS div 2) hmac);
                          hmac = take (BS div 2) hmac @ drop (BS + BS div 2) hmac @ aesxor
                      in (decode_sector_body D aesxor data, hmac));
              hmacsha1bin = sector_hmac sha (siv enc) out sectorid (take BS hmac)
          in Ok (out, - memcmp_const hmacsha1bin (drop BS hmac) BS))"

definition psync_crypto_sign_auth_sector ::
  "(bytes \<Rightarrow> bytes) \<Rightarrow> sector_coder \<Rightarrow> bytes \<Rightarrow> bytes" where
  "psync_crypto_sign_auth_sector sha enc data =
     psync_aes256_2blocks_consec (encoder enc) (take (2 * BS) (psync_hmac_sha512 sha data (siv enc)))"

section \<open>HMAC is the standard one for keys of at most a block\<close>

text \<open>HMAC as RFC 2104 defines it: a key longer than a block is hashed first.\<close>

definition hmac_rfc2104 :: "(bytes \<Rightarrow> bytes) \<Rightarrow> bytes \<Rightarrow> bytes \<Rightarrow> bytes" where
  "hmac_rfc2104 sha key msg =
     (let k = (if SHA_BLOCK < length key then sha key else key);
          k0 = k @ replicate (SHA_BLOCK - length k) 0
      in sha (map (\<lambda>b. b XOR 0x5c) k0 @ sha (map (\<lambda>b. b XOR 0x36) k0 @ msg)))"

lemma hmac_chunks:
  "sector_hmac sha key data sid rnd = psync_hmac_sha512 sha (data @ le_store 8 (unat sid) @ rnd) key"
  by (simp add: sector_hmac_def psync_hmac_sha512_init_def psync_hmac_sha512_update_def
        psync_hmac_sha512_final_def psync_hmac_sha512_def Let_def)

lemma length_hmac [simp]: "digest64 sha \<Longrightarrow> length (psync_hmac_sha512 sha msg key) = 64"
  by (simp add: psync_hmac_sha512_def Let_def digest64_def)

text \<open>
  HMAC. Feeding a message in pieces gives the one-shot result; for keys of at most 128 bytes this
  is HMAC as RFC 2104 defines it, and a longer key is used as if it were its first 128 bytes, where
  the standard hashes it.
\<close>

theorem hmac_sha512_reference:
  "psync_hmac_sha512_final sha
       (fold psync_hmac_sha512_update chunks (psync_hmac_sha512_init key))
     = psync_hmac_sha512 sha (concat chunks) key
   \<and> psync_hmac_sha512 sha msg key = hmac_rfc2104 sha (take SHA_BLOCK key) msg"
proof -
  have "fold psync_hmac_sha512_update chunks ctx = ctx\<lparr>sha1ctx := sha1ctx ctx @ concat chunks\<rparr>" for ctx
    by (induction chunks arbitrary: ctx) (auto simp: psync_hmac_sha512_update_def)
  then show ?thesis
    by (simp add: psync_hmac_sha512_init_def psync_hmac_sha512_final_def psync_hmac_sha512_def
          hmac_rfc2104_def Let_def)
qed

section \<open>The comparison\<close>

lemma xor_eq_zero: "a XOR b = 0 \<longleftrightarrow> a = b" for a b :: "'a::len word"
proof
  assume "a XOR b = 0"
  then have "(a XOR b) XOR b = 0 XOR b" by simp
  then show "a = b" by (simp add: xor.assoc)
qed simp

lemma memcmp_fold:
  "n \<le> length a \<Longrightarrow> n \<le> length b \<Longrightarrow>
   \<exists>x :: u8. fold (\<lambda>i r. r OR ucast (a ! i XOR b ! i)) [0..<n] (0 :: u32) = ucast x
     \<and> (x = 0 \<longleftrightarrow> take n a = take n b)" for a b :: bytes
proof (induction n)
  case 0
  then show ?case by (auto intro!: exI [of _ 0])
next
  case (Suc n)
  then obtain x :: u8 where x:
    "fold (\<lambda>i r. r OR ucast (a ! i XOR b ! i)) [0..<n] (0 :: u32) = ucast x"
    "x = 0 \<longleftrightarrow> take n a = take n b"
    by auto
  let ?y = "x OR (a ! n XOR b ! n)"
  have "fold (\<lambda>i r. r OR ucast (a ! i XOR b ! i)) [0..<Suc n] (0 :: u32) = ucast ?y"
    using x(1) by (simp add: unsigned_or_eq)
  moreover have "?y = 0 \<longleftrightarrow> take (Suc n) a = take (Suc n) b"
    using x(2) Suc.prems by (simp add: take_Suc_conv_app_nth or_eq_0_iff xor_eq_zero)
  ultimately show ?case by blast
qed

lemma memcmp_eq:
  assumes "cnt \<le> length a" and "cnt \<le> length b"
  shows "memcmp_const a b cnt = (if take cnt a = take cnt b then 0 else 1)"
proof -
  obtain x :: u8 where x:
    "fold (\<lambda>i r. r OR ucast (a ! i XOR b ! i)) [0..<cnt] (0 :: u32) = ucast x"
    "x = 0 \<longleftrightarrow> take cnt a = take cnt b"
    using memcmp_fold [OF assms] by blast
  have "(drop_bit 8 (ucast x - 1 :: u32) AND 1) XOR 1 = (if x = 0 then 0 else 1)"
  proof (cases "x = 0")
    case True
    then show ?thesis by (simp add: mask_eq_exp_minus_1)
  next
    case False
    have x: "0 < uint x" "uint x < 256"
      using False unsigned_less [of x] by (simp_all add: unsigned_eq_0_iff order.strict_iff_order)
    then have "uint (ucast x - 1 :: u32) < 256"
      by (simp add: uint_word_ariths unsigned_ucast_eq take_bit_eq_mod)
    then have "uint (drop_bit 8 (ucast x - 1 :: u32)) = 0"
      by (simp only: unsigned_drop_bit_eq) (simp add: drop_bit_eq_div take_bit_eq_mod)
    then have "drop_bit 8 (ucast x - 1 :: u32) = 0" by (simp add: unsigned_eq_0_iff)
    then show ?thesis using False by simp
  qed
  then show ?thesis unfolding memcmp_const_def Let_def x(1) using x(2) by simp
qed

text \<open>
  \<^verbatim>\<open>memcmp_const\<close> returns 0 exactly when the two areas agree and 1 otherwise; the subtraction that
  replaces the comparison never leaves another value.
\<close>

theorem memcmp_const_zero_iff_equal:
  assumes "cnt \<le> length a" and "cnt \<le> length b"
  shows "memcmp_const a b cnt = (if take cnt a = take cnt b then 0 else 1)"
  using assms by (rule memcmp_eq)

theorem memcmp_const_zero_iff_equal_witness:
  "memcmp_const [1, 2, 3] [1, 2, 4] 3 = (if take 3 [1, 2, 3 :: u8] = take 3 [1, 2, 4] then 0 else 1)"
  by (rule memcmp_const_zero_iff_equal) simp_all

section \<open>Counter mode\<close>

text \<open>
  The key stream of the reference: byte \<open>k\<close> of the file is combined with byte \<open>k mod 16\<close> of the
  encryption of the initialisation vector, whose first half is combined with the number of the block.
\<close>

definition ctr_keystream :: "block_coder \<Rightarrow> nat \<Rightarrow> u8" where
  "ctr_keystream enc k =
     coder enc (xorb (iv enc) (le_store 8 (k div BS) @ replicate 8 0)) ! (k mod BS)"

definition ctr_reference :: "block_coder \<Rightarrow> nat \<Rightarrow> bytes \<Rightarrow> bytes" where
  "ctr_reference enc k data = map (\<lambda>i. data ! i XOR ctr_keystream enc (k + i)) [0..<length data]"

lemma map_upt_split: "map f [0..<m + n] = map f [0..<m] @ map (\<lambda>i. f (m + i)) [0..<n]"
  by (induction n) auto

lemma ctr_reference_append:
  "ctr_reference enc k (a @ b) = ctr_reference enc k a @ ctr_reference enc (k + length a) b"
  by (auto simp: ctr_reference_def map_upt_split nth_append ac_simps intro!: map_cong)

lemma ctr_reference_Nil [simp]: "ctr_reference enc k [] = []"
  by (simp add: ctr_reference_def)

lemma le_store_mod: "le_store n (x mod 256 ^ n) = le_store n x"
proof (induction n arbitrary: x)
  case 0
  then show ?case by simp
next
  case (Suc n)
  have "x mod 256 ^ Suc n = 256 * (x div 256 mod 256 ^ n) + x mod 256"
    by (simp add: mod_mult2_eq)
  then have "x mod 256 ^ Suc n div 256 = x div 256 mod 256 ^ n"
    and "x mod 256 ^ Suc n mod 256 = x mod 256"
    by simp_all
  moreover have "(of_nat (x mod 256 ^ Suc n) :: u8) = of_nat x"
    using \<open>x mod 256 ^ Suc n mod 256 = x mod 256\<close>
    by (simp only: word_unat_eq_iff unat_of_nat_u8)
  ultimately show ?case using Suc by (simp only: le_store.simps)
qed

lemma xorb_zeros: "length a = n \<Longrightarrow> xorb a (replicate n 0) = a"
  by (induction a arbitrary: n) auto

lemma ctr_block_eq:
  assumes "length (iv enc) = BS"
  shows "ctr_block enc (replicate 8 0 @ drop 8 (iv enc)) (of_nat c)
       = coder enc (xorb (iv enc) (le_store 8 c @ replicate 8 0))"
proof -
  obtain a b where iv: "iv enc = a @ b" "length a = 8" "length b = 8"
    using assms by (rule split16)
  have "le_store 8 (unat (of_nat c :: u64)) = le_store 8 c"
    using le_store_mod [of 8 c] by (simp add: unat_of_nat)
  moreover have "le_store 8 (unat (long_deref (iv enc) 0)) = a"
    using iv by (simp add: unat_long_deref le_store_load)
  ultimately have "le_store 8 (unat (long_deref (iv enc) 0 XOR of_nat c)) = xorb a (le_store 8 c)"
    by (simp add: unsigned_xor_eq le_store_xor)
  then show ?thesis
    unfolding ctr_block_def copy_iv_and_xor_with_counter_def set_long_def
    using iv by (simp add: xorb_zeros)
qed

lemma ctr_reference_block:
  assumes "length (coder enc (xorb (iv enc) (le_store 8 c @ replicate 8 0))) = BS"
    and "off + length d \<le> BS" "off < BS"
  shows "ctr_reference enc (BS * c + off) d
       = xorb d (drop off (coder enc (xorb (iv enc) (le_store 8 c @ replicate 8 0))))"
proof (rule nth_equalityI)
  show "length (ctr_reference enc (BS * c + off) d)
      = length (xorb d (drop off (coder enc (xorb (iv enc) (le_store 8 c @ replicate 8 0)))))"
    using assms by (simp add: ctr_reference_def)
next
  fix i assume "i < length (ctr_reference enc (BS * c + off) d)"
  then have i: "i < length d" by (simp add: ctr_reference_def)
  then have "off + i < BS" using assms(2) by simp
  then have "(BS * c + off + i) div BS = c" "(BS * c + off + i) mod BS = off + i"
    by (simp_all add: add.assoc)
  then show "ctr_reference enc (BS * c + off) d ! i
      = xorb d (drop off (coder enc (xorb (iv enc) (le_store 8 c @ replicate 8 0)))) ! i"
    using i assms by (simp add: ctr_reference_def ctr_keystream_def)
qed

lemma ctr_blocks_eq:
  assumes iv: "length (iv enc) = BS" and E: "\<And>x. length x = BS \<Longrightarrow> length (coder enc x) = BS"
  shows "BS * n \<le> length data \<Longrightarrow>
    ctr_blocks al enc (replicate 8 0 @ drop 8 (iv enc)) n (of_nat c) data
      = (ctr_reference enc (BS * c) (take (BS * n) data), drop (BS * n) data, of_nat (c + n))"
proof (induction n arbitrary: c data)
  case 0
  then show ?case by simp
next
  case (Suc n)
  let ?K = "coder enc (xorb (iv enc) (le_store 8 c @ replicate 8 0))"
  have K: "length ?K = BS" using iv by (intro E) simp
  have *: "BS * n \<le> length (drop BS data)" and len: "BS \<le> length data" using Suc.prems by simp_all
  have "xor16 al (take BS data) (ctr_block enc (replicate 8 0 @ drop 8 (iv enc)) (of_nat c))
      = ctr_reference enc (BS * c) (take BS data)"
    using ctr_reference_block [OF K, of 0 "take BS data"] K len
    by (simp add: ctr_block_eq [OF iv] xor16_eq)
  moreover have "ctr_reference enc (BS * c) (take BS data) @
      ctr_reference enc (BS * Suc c) (take (BS * n) (drop BS data))
    = ctr_reference enc (BS * c) (take (BS * Suc n) data)"
    using ctr_reference_append [of enc "BS * c" "take BS data" "take (BS * n) (drop BS data)"] len
    by (simp add: take_add [symmetric] min_absorb2 algebra_simps)
  moreover have "of_nat c + 1 = (of_nat (Suc c) :: u64)" by simp
  ultimately show ?case
    using Suc.IH [OF *, of "Suc c"] by (simp only: ctr_blocks.simps Let_def split_conv)
      (simp add: add.commute)
qed

lemma unat_div_mod_16:
  "x div 16 = of_nat (unat x div 16)" "unat (x mod 16) = unat x mod 16" for x :: u64
  by (simp add: word_arith_nat_div) (simp add: unat_mod_distrib)

definition ctr_key_ok :: "block_coder \<Rightarrow> bool" where
  "ctr_key_ok enc \<longleftrightarrow> length (iv enc) = BS \<and> (\<forall>x. length x = BS \<longrightarrow> length (coder enc x) = BS)"

lemma length_ctr_block:
  "ctr_key_ok enc \<Longrightarrow> length (ctr_block enc (replicate 8 0 @ drop 8 (iv enc)) (of_nat c)) = BS"
  by (simp add: ctr_block_eq ctr_key_ok_def)

lemma ctr_partial_block:
  assumes "ctr_key_ok enc" "off + length d \<le> BS" "off < BS"
  shows "xor_cnt_inplace d (drop off (ctr_block enc (replicate 8 0 @ drop 8 (iv enc)) (of_nat c))) (length d)
       = ctr_reference enc (BS * c + off) d"
  using assms length_ctr_block [of enc c] ctr_reference_block [of enc c off d]
  by (simp add: ctr_key_ok_def ctr_block_eq xor_cnt_eq)

lemma ctr_from_block:
  assumes "ctr_key_ok enc"
  shows "(case ctr_blocks al enc (replicate 8 0 @ drop 8 (iv enc)) (length d div BS) (of_nat c) d of
      (blocks, rest, ctr) \<Rightarrow> Ok (pre @ blocks @
        (if rest \<noteq> []
         then xor_cnt_inplace rest (ctr_block enc (replicate 8 0 @ drop 8 (iv enc)) ctr) (length rest)
         else [])))
   = Ok (pre @ ctr_reference enc (BS * c) d)"
proof -
  define A where "A = replicate 8 0 @ drop 8 (iv enc)"
  define n where "n = length d div BS"
  define t where "t = drop (BS * n) d"
  have n: "BS * n \<le> length d" unfolding n_def by simp
  have len: "length t < BS" unfolding t_def n_def by (simp add: modulo_nat_def [symmetric])
  have "ctr_reference enc (BS * c) d
      = ctr_reference enc (BS * c) (take (BS * n) d) @ ctr_reference enc (BS * (c + n)) t"
    using ctr_reference_append [of enc "BS * c" "take (BS * n) d" t] n
    by (simp add: t_def algebra_simps min_absorb2)
  moreover have "(if t \<noteq> [] then xor_cnt_inplace t (ctr_block enc A (of_nat (c + n))) (length t)
                  else []) = ctr_reference enc (BS * (c + n)) t"
    using ctr_partial_block [OF assms, of 0 t "c + n"] len unfolding A_def by simp
  ultimately show ?thesis
    unfolding n_def [symmetric]
    using ctr_blocks_eq [of enc n d al c] n assms
    by (simp only: ctr_key_ok_def A_def [symmetric] t_def [symmetric] split_conv)
qed

text \<open>
  C31. Counter mode. When the data starts on a block, or reaches the end of the block it starts in,
  byte \<open>k\<close> of the file is combined with byte \<open>k\<close> of the key stream, whatever the alignment of the
  data. Data that starts inside a block and ends before the end of that block makes the code write
  past the end of the data.
\<close>

theorem ctr_encode_decode_reference:
  assumes ok: "length (iv enc) = BS \<and> (\<forall>x. length x = BS \<longrightarrow> length (coder enc x) = BS)"
  shows "psync_crypto_aes256_ctr_encode_decode_inplace al enc data off
       = (if unat off mod BS \<noteq> 0 \<and> length data < BS - unat off mod BS then Overread
          else Ok (ctr_reference enc (unat off) data))"
proof -
  have ok: "ctr_key_ok enc" using ok by (simp add: ctr_key_ok_def)
  define k where "k = unat off"
  define m where "m = BS - k mod BS"
  have "k mod BS < BS" by simp
  then have m: "BS * Suc (k div BS) = k + m" "k mod BS + m = BS" "BS * (k div BS) + k mod BS = k"
    unfolding m_def mult_Suc_right using mult_div_mod_eq [of BS k] by linarith+
  note unf = psync_crypto_aes256_ctr_encode_decode_inplace_def Let_def unat_div_mod_16 k_def [symmetric]
  consider (whole) "k mod BS = 0" | (short) "k mod BS \<noteq> 0" "length data < m"
    | (partial) "k mod BS \<noteq> 0" "m \<le> length data" by linarith
  then show ?thesis
  proof cases
    case whole
    then show ?thesis
      unfolding unf using ctr_from_block [OF ok, where al = al and d = data and c = "k div BS" and pre = "[]"] m by simp
  next
    case short
    then show ?thesis unfolding unf by (simp add: m_def)
  next
    case partial
    have 1: "xor_cnt_inplace (take m data) (drop (k mod BS)
            (ctr_block enc (replicate 8 0 @ drop 8 (iv enc)) (of_nat (k div BS)))) m
        = ctr_reference enc k (take m data)"
      using ctr_partial_block [OF ok, of "k mod BS" "take m data" "k div BS"] partial m
      by (simp add: min_absorb2)
    have 2: "ctr_reference enc k data
        = ctr_reference enc k (take m data) @ ctr_reference enc (BS * Suc (k div BS)) (drop m data)"
      unfolding m(1) using ctr_reference_append [of enc k "take m data" "drop m data"] partial m
      by (simp add: min_absorb2)
    have 3: "of_nat (k div BS) + 1 = (of_nat (Suc (k div BS)) :: u64)" by simp
    have 4: "\<not> length data < m" using partial by simp
    show ?thesis
      unfolding unf m_def [symmetric]
      using ctr_from_block [OF ok, where al = al and d = "drop m data" and c = "Suc (k div BS)"
          and pre = "ctr_reference enc k (take m data)"] partial(1) 4
      by (simp only: 1 2 3 if_True if_False bindo.simps split_conv simp_thms)
  qed
qed

theorem ctr_encode_decode_reference_witness:
  "psync_crypto_aes256_ctr_encode_decode_inplace True \<lparr>coder = rev, iv = replicate 16 9\<rparr>
       (replicate 40 1) 19
     = (if unat (19 :: u64) mod BS \<noteq> 0 \<and> length (replicate 40 (1 :: u8)) < BS - unat (19 :: u64) mod BS
        then Overread
        else Ok (ctr_reference \<lparr>coder = rev, iv = replicate 16 9\<rparr> (unat (19 :: u64)) (replicate 40 1)))"
  by (rule ctr_encode_decode_reference) simp

lemma ctr_reference_twice: "ctr_reference enc k (ctr_reference enc k data) = data"
  by (rule nth_equalityI) (simp_all add: ctr_reference_def xor.assoc)

lemma ctr_on_block:
  assumes "ctr_key_ok enc" "unat off mod BS = 0"
  shows "psync_crypto_aes256_ctr_encode_decode_inplace al enc d off = Ok (ctr_reference enc (unat off) d)"
  using ctr_from_block [OF assms(1), where pre = "[]" and al = al and d = d and c = "unat off div BS"]
    assms unat_div_mod_16 [of off]
  by (auto simp: psync_crypto_aes256_ctr_encode_decode_inplace_def Let_def mult.commute [of BS])

text \<open>
  Counter mode is an involution and may be applied piecewise: decoding with the same key gives
  the data back, and data that is processed in two pieces gives the same bytes as in one, so a reader
  may start at any block.
\<close>

theorem ctr_roundtrip_and_random_access:
  assumes ok: "length (iv enc) = BS \<and> (\<forall>x. length x = BS \<longrightarrow> length (coder enc x) = BS)"
    and off: "unat off mod BS = 0" and a: "length a mod BS = 0"
    and bound: "unat off + length a < 2 ^ 64"
  shows "bindo (psync_crypto_aes256_ctr_encode_decode_inplace al enc data off)
           (\<lambda>c. psync_crypto_aes256_ctr_encode_decode_inplace al' enc c off) = Ok data
       \<and> psync_crypto_aes256_ctr_encode_decode_inplace al enc (a @ b) off
         = bindo (psync_crypto_aes256_ctr_encode_decode_inplace al' enc a off)
             (\<lambda>a'. bindo (psync_crypto_aes256_ctr_encode_decode_inplace al' enc b (off + of_nat (length a)))
               (\<lambda>b'. Ok (a' @ b')))"
proof -
  have 1: "psync_crypto_aes256_ctr_encode_decode_inplace l enc d o1 = Ok (ctr_reference enc (unat o1) d)"
    if "unat o1 mod BS = 0" for l d o1
    using ctr_on_block [of enc o1 l d] that ok by (simp add: ctr_key_ok_def)
  have 2: "unat (off + of_nat (length a)) = unat off + length a"
    using bound by (simp add: unat_word_ariths unat_of_nat)
  then have 3: "unat (off + of_nat (length a)) mod BS = 0"
    using off a by (simp add: mod_add_eq [symmetric, of "unat off"])
  show ?thesis
    using 1 [OF off] 1 [OF 3] 2 by (simp add: ctr_reference_twice ctr_reference_append)
qed

theorem ctr_roundtrip_and_random_access_witness:
  "bindo (psync_crypto_aes256_ctr_encode_decode_inplace True \<lparr>coder = rev, iv = replicate 16 9\<rparr>
             (replicate 5 1) 32)
      (\<lambda>c. psync_crypto_aes256_ctr_encode_decode_inplace False \<lparr>coder = rev, iv = replicate 16 9\<rparr> c 32)
     = Ok (replicate 5 1)"
  using ctr_roundtrip_and_random_access [of "\<lparr>coder = rev, iv = replicate 16 9\<rparr>" 32 "replicate 16 2"]
  by simp

section \<open>Text round trip\<close>

definition padded :: "bytes \<Rightarrow> bytes" where
  "padded tx = tx @ replicate (align_a256_bs (length tx) - length tx) 0"

lemma align_add: "align_a256_bs (BS + n) = BS + align_a256_bs n"
proof -
  have "(BS + n + BS - 1) div BS = Suc ((n + BS - 1) div BS)"
    using div_add_self1 [of BS "n + BS - 1"] by (simp add: ac_simps)
  then show ?thesis by (simp add: align_a256_bs_def)
qed

lemma align_small: "0 < n \<Longrightarrow> n \<le> BS \<Longrightarrow> align_a256_bs n = BS"
proof -
  assume n: "0 < n" "n \<le> BS"
  then have "(n + BS - 1) div BS = 1" by (intro div_nat_eqI) simp_all
  then show ?thesis by (simp add: align_a256_bs_def)
qed

lemma align_ge: "n \<le> align_a256_bs n"
proof -
  have "n + BS - 1 = (n + BS - 1) div BS * BS + (n + BS - 1) mod BS" by simp
  moreover have "(n + BS - 1) mod BS < BS" by simp
  ultimately show ?thesis unfolding align_a256_bs_def by linarith
qed

lemma align_mod [simp]: "align_a256_bs n mod BS = 0"
  by (simp add: align_a256_bs_def)

lemma padded_append: "length a = BS \<Longrightarrow> padded (a @ b) = a @ padded b"
  by (simp add: padded_def align_add)

lemma length_padded: "length (padded tx) = align_a256_bs (length tx)"
  using align_ge by (simp add: padded_def)

lemma copy_pad_cases:
  assumes "tx \<noteq> []"
  obtains (last) "copy_pad BS tx = (padded tx, [])" "align_a256_bs (length tx) = BS"
  | (more) "copy_pad BS tx = (take BS tx, drop BS tx)" "BS < length tx"
      "align_a256_bs (length tx) = BS + align_a256_bs (length (drop BS tx))"
proof (cases "BS < length tx")
  case True
  then show ?thesis
    using more align_add [of "length tx - BS"] by (simp add: copy_pad_def)
next
  case False
  then show ?thesis
    using last assms align_small [of "length tx"] by (auto simp: copy_pad_def padded_def)
qed

declare encode_text_loop.simps [simp del]

lemma encode_text_loop_roundtrip:
  assumes ED: "block_cipher E D"
  shows "tx \<noteq> [] \<Longrightarrow> length prev = BS \<Longrightarrow>
    length (encode_text_loop E prev tx) = align_a256_bs (length tx) \<and>
    decode_text_loop al D prev (encode_text_loop E prev tx @ rest) (align_a256_bs (length tx) div BS)
      = padded tx"
proof (induction tx arbitrary: prev rule: length_induct)
  case (1 tx)
  have step: "length (E (xorb a prev)) = BS" "length (D (E (xorb a prev))) = BS"
    "xorb (D (E (xorb a prev))) prev = a" if "length a = BS" for a
    using ED that 1(3) by (auto simp: block_cipher_def xorb_twice)
  from 1(2) show ?case
  proof (cases rule: copy_pad_cases)
    case last
    then have "length (padded tx) = BS" by (simp add: length_padded)
    with last show ?thesis
      using step [of "padded tx"] 1(3)
      by (simp add: encode_text_loop.simps [of E prev] copy_aligned_eq copy16_eq xor16_eq
          xor16_aligned_eq)
  next
    case more
    let ?t = "drop BS tx" and ?c = "E (xorb (take BS tx) prev)"
    have len: "length (take BS tx) = BS" using more(2) by simp
    have IH: "length (encode_text_loop E ?c ?t) = align_a256_bs (length ?t)"
      "decode_text_loop al D ?c (encode_text_loop E ?c ?t @ rest) (align_a256_bs (length ?t) div BS)
         = padded ?t"
      using 1(1) [rule_format, of ?t ?c] more(2) step(1) [OF len] by simp_all
    have pad: "padded tx = take BS tx @ padded ?t"
      using padded_append [OF len, of ?t] by simp
    have "align_a256_bs (length tx) div BS = Suc (align_a256_bs (length ?t) div BS)"
      unfolding more(3) by simp
    then show ?thesis
      using IH pad step [OF len] more 1(3) len
      by (simp add: encode_text_loop.simps [of E prev tx] copy_aligned_eq copy16_eq xor16_eq
          xor16_aligned_eq Let_def)
  qed
qed

lemma padded_padding:
  assumes "0 \<notin> set tx"
  shows "c_str (padded tx @ 0 # r) = tx"
    and "length tx \<le> i \<Longrightarrow> i < align_a256_bs (length tx) \<Longrightarrow> (padded tx @ r) ! i = 0"
proof -
  show "c_str (padded tx @ 0 # r) = tx"
    unfolding padded_def append_assoc replicate_app_Cons_same using assms by simp
next
  show "length tx \<le> i \<Longrightarrow> i < align_a256_bs (length tx) \<Longrightarrow> (padded tx @ r) ! i = 0"
    by (simp add: padded_def nth_append diff_less_mono)
qed

lemma text_step:
  assumes "block_cipher E D" "length a = BS" "length k = BS"
  shows "length (E (xorb a k)) = BS" "length (D (E (xorb a k))) = BS" "xorb (D (E (xorb a k))) k = a"
  using assms by (auto simp: block_cipher_def xorb_twice)

lemma text_one_block:
  fixes v :: bytes
  assumes ED: "block_cipher E D" and v: "BS \<le> length v" and tx: "0 \<notin> set tx"
    and one: "tx \<noteq> []" "length tx \<le> BS"
  defines "c \<equiv> E (xorb (padded tx) (take BS v))"
  shows "psync_crypto_aes256_encode_text sha \<lparr>coder = E, iv = v\<rparr> tx = Ok (c, BS)"
    and "psync_crypto_aes256_decode_text sha al \<lparr>coder = D, iv = v\<rparr> c = Ok (padded tx @ [0])"
    and "length c = BS"
proof -
  have al: "align_a256_bs (length tx) = BS" using one by (simp add: align_small)
  have pad: "copy_pad BS tx = (padded tx, [])" "length (padded tx) = BS"
    using one al by (auto simp: copy_pad_def padded_def)
  have c: "length c = BS" "length (D c) = BS" "xorb (D c) (take BS v) = padded tx"
    unfolding c_def using text_step [OF ED pad(2), of "take BS v"] v by auto
  show "length c = BS" by fact
  show "psync_crypto_aes256_encode_text sha \<lparr>coder = E, iv = v\<rparr> tx = Ok (c, BS)"
    using one pad v c al
    by (simp add: psync_crypto_aes256_encode_text_def xor16_aligned_eq c_def [symmetric] copy_aligned_eq)
  have "zero_padding (padded tx @ [0]) (Suc (length tx)) BS"
    using padded_padding(2) [OF tx] al by (auto simp: zero_padding_def list_all_iff)
  then show "psync_crypto_aes256_decode_text sha al \<lparr>coder = D, iv = v\<rparr> c = Ok (padded tx @ [0])"
    using c v pad padded_padding(1) [OF tx, of "[]"]
    by (auto simp: psync_crypto_aes256_decode_text_def copy_unaligned_def xor16_aligned_eq
        copy_aligned_eq Let_def)
qed

lemma text_blocks:
  assumes ED: "block_cipher E D" and sha: "digest64 sha" and tx: "0 \<notin> set tx" and more: "BS < length tx"
  shows "\<exists>out. psync_crypto_aes256_encode_text sha \<lparr>coder = E, iv = v\<rparr> tx = Ok (out, length out)
    \<and> length out = align_a256_bs (length tx)
    \<and> psync_crypto_aes256_decode_text sha al \<lparr>coder = D, iv = v\<rparr> out = Ok (padded tx @ [0])"
proof -
  define a b where "a = take BS tx" and "b = drop BS tx"
  have ab: "tx = a @ b" "length a = BS" "b \<noteq> []" "length tx = BS + length b" "0 \<notin> set b"
    using more tx unfolding a_def b_def by (auto dest: in_set_dropD)
  define h where "h = take BS (psync_hmac_sha512 sha b v)"
  have h: "length h = BS" unfolding h_def using sha by simp
  define c where "c = E (xorb a h)"
  note c = text_step [OF ED ab(2) h, folded c_def]
  define r where "r = encode_text_loop E c b"
  define n where "n = align_a256_bs (length b) div BS"
  have r: "length r = align_a256_bs (length b)" "decode_text_loop al D c r n = padded b"
    unfolding r_def n_def using encode_text_loop_roundtrip [OF ED ab(3) c(1), where rest = "[]"] by auto
  have len: "align_a256_bs (length tx) = BS + length r" unfolding ab(4) align_add r(1) ..
  have enc: "psync_crypto_aes256_encode_text sha \<lparr>coder = E, iv = v\<rparr> tx = Ok (c @ r, length (c @ r))"
    unfolding psync_crypto_aes256_encode_text_def Let_def len using more c(1) ab h
    by (simp add: copy_unaligned_def xor16_aligned_eq copy_aligned_eq h_def [symmetric]
        c_def [symmetric] r_def [symmetric])
  have al: "align_a256_bs (length b) = n * BS" unfolding n_def by (simp add: align_a256_bs_def)
  then have "n \<noteq> 0" using ab(3) align_ge [of "length b"] by (cases n) auto
  then have n: "n \<noteq> 0" "length (c @ r) div BS = Suc n" "length (c @ r) mod BS = 0"
    using c(1) r(1) unfolding al by simp_all
  define ret where "ret = D c @ padded b @ [0]"
  have "length (c_str (drop BS ret)) = length b" "take (length b) (drop BS ret) = b"
    unfolding ret_def using c(2) padded_padding(1) [OF ab(5), of "[]"] by (simp_all add: padded_def)
  moreover have "xor16_aligned_inplace (take BS ret) h @ drop BS ret = padded tx @ [0]"
    unfolding ret_def ab(1) padded_append [OF ab(2)] using c h by (simp add: xor16_aligned_eq)
  moreover have "zero_padding (padded tx @ [0]) (length b + BS + 1) (length (c @ r))"
    using padded_padding(2) [OF tx] len ab(4) c(1) by (auto simp: zero_padding_def list_all_iff)
  ultimately have "psync_crypto_aes256_decode_text sha al \<lparr>coder = D, iv = v\<rparr> (c @ r)
      = Ok (padded tx @ [0])"
    unfolding psync_crypto_aes256_decode_text_def Let_def n(2,3)
    using n(1) c r(2)
    by (auto simp: copy_aligned_eq copy16_eq ret_def [symmetric] h_def [symmetric] c(2))
  then show ?thesis using enc len c(1) by auto
qed

lemma text_decodes:
  assumes ED: "block_cipher E D" and sha: "digest64 sha" and v: "BS \<le> length v" and tx: "0 \<notin> set tx"
  shows "(tx = [] \<longrightarrow> psync_crypto_aes256_encode_text sha \<lparr>coder = E, iv = v\<rparr> tx = Overread) \<and>
    (tx \<noteq> [] \<longrightarrow>
      (\<exists>out. psync_crypto_aes256_encode_text sha \<lparr>coder = E, iv = v\<rparr> tx = Ok (out, length out)
        \<and> length out = align_a256_bs (length tx)
        \<and> (\<exists>ret. psync_crypto_aes256_decode_text sha al \<lparr>coder = D, iv = v\<rparr> out = Ok ret
            \<and> c_str ret = tx)))"
proof -
  consider (empty) "tx = []" | (one) "tx \<noteq> []" "length tx \<le> BS" | (more) "BS < length tx"
    by fastforce
  then show ?thesis
  proof cases
    case empty
    then show ?thesis
      using text_step [OF ED, of "replicate BS 0" "take BS v"] v
      by (simp add: psync_crypto_aes256_encode_text_def copy_pad_def xor16_aligned_eq copy_aligned_eq
          align_a256_bs_def)
  next
    case one
    then show ?thesis
      using text_one_block [OF ED v tx one] padded_padding(1) [OF tx, of "[]"] align_small [of "length tx"]
      by auto
  next
    case more
    then show ?thesis
      using text_blocks [OF ED sha tx more] padded_padding(1) [OF tx, of "[]"] by fastforce
  qed
qed

text \<open>
  C29. File names. A non-empty name without NUL bytes is encoded into exactly the memory that was
  allocated, a multiple of 16 bytes, and the decoder gives the name back, on both alignments and
  whatever number of blocks; the empty name overruns the allocation of zero bytes.
\<close>

theorem text_roundtrip:
  assumes ED: "block_cipher E D" and sha: "digest64 sha" and v: "BS \<le> length v" and tx: "0 \<notin> set tx"
  shows "(tx = [] \<longrightarrow> psync_crypto_aes256_encode_text sha \<lparr>coder = E, iv = v\<rparr> tx = Overread) \<and>
    (tx \<noteq> [] \<longrightarrow>
      (\<exists>out. psync_crypto_aes256_encode_text sha \<lparr>coder = E, iv = v\<rparr> tx = Ok (out, length out)
        \<and> length out = align_a256_bs (length tx)
        \<and> (\<exists>ret. psync_crypto_aes256_decode_text sha al \<lparr>coder = D, iv = v\<rparr> out = Ok ret
            \<and> c_str ret = tx)))"
  using assms by (rule text_decodes)

theorem text_roundtrip_witness:
  "\<exists>out ret. psync_crypto_aes256_encode_text (\<lambda>_. replicate 64 7) \<lparr>coder = rev, iv = replicate 20 9\<rparr>
        (replicate 18 65) = Ok (out, length out)
      \<and> psync_crypto_aes256_decode_text (\<lambda>_. replicate 64 7) True \<lparr>coder = rev, iv = replicate 20 9\<rparr> out
        = Ok ret \<and> c_str ret = replicate 18 65"
proof -
  have "block_cipher rev rev" "digest64 (\<lambda>_. replicate 64 7)"
    by (simp_all add: block_cipher_def digest64_def)
  from text_roundtrip [OF this, of "replicate 20 9" "replicate 18 65" True] show ?thesis by auto
qed

section \<open>Sector round trip\<close>

lemma zip_take_left: "zip (take n a) (take n b) = zip (take n a) b"
proof (induction a arbitrary: n b)
  case Nil
  then show ?case by simp
next
  case (Cons x a)
  then show ?case by (cases n; cases b) simp_all
qed

lemma xor_longs:
  assumes "8 * n \<le> length k"
  shows "8 * n \<le> length d \<Longrightarrow>
    fold (\<lambda>i d. set_long d i (long_deref d i XOR long_deref k i)) [0..<n] d
      = xorb (take (8 * n) d) k @ drop (8 * n) d"
  using assms
proof (induction n)
  case 0
  then show ?case by simp
next
  case (Suc n)
  define x where "x = xorb (take (8 * n) d) k"
  have x: "length x = 8 * n" unfolding x_def using Suc.prems by simp
  have "take 8 (drop (8 * n) (x @ drop (8 * n) d)) = take 8 (drop (8 * n) d)" using x by simp
  then have "set_long (x @ drop (8 * n) d) n (long_deref (x @ drop (8 * n) d) n XOR long_deref k n)
      = x @ xorb (take 8 (drop (8 * n) d)) (take 8 (drop (8 * n) k)) @ drop (8 * n + 8) d"
    unfolding set_long_def using Suc.prems x by (simp add: store_xor_long add.commute)
  moreover have "x = xorb (take (8 * n) d) (take (8 * n) k)"
    unfolding x_def by (simp add: zip_take_left)
  then have "x @ xorb (take 8 (drop (8 * n) d)) (take 8 (drop (8 * n) k))
      = xorb (take (8 * n) d @ take 8 (drop (8 * n) d)) (take (8 * n) k @ take 8 (drop (8 * n) k))"
    using Suc.prems by simp
  then have "x @ xorb (take 8 (drop (8 * n) d)) (take 8 (drop (8 * n) k))
      = xorb (take (8 * n + 8) d) k"
    unfolding take_add [symmetric] by (simp add: zip_take_left)
  ultimately show ?case
    using Suc by (simp add: x_def [symmetric] add.commute)
qed

lemma split_block:
  assumes "BS \<le> length (d :: bytes)"
  obtains a b where "d = a @ b" "length a = BS" "length d = BS + length b"
proof
  show "d = take BS d @ drop BS d" by simp
qed (use assms in auto)

lemma decode_sector_loop4_eq:
  assumes "block_cipher E D"
  shows "length x = BS \<Longrightarrow> 4 * BS * n \<le> length data \<Longrightarrow>
    decode_sector_loop4 D x data n = decode_sector_loop D x data (4 * n)"
proof (induction n arbitrary: x data)
  case 0
  then show ?case by simp
next
  case (Suc n)
  have D: "length (D x) = BS" if "length x = BS" for x
    using assms that by (simp add: block_cipher_def)
  have "BS \<le> length data" using Suc.prems by simp
  then obtain a d1 where 1: "data = a @ d1" "length a = BS" "length data = BS + length d1"
    by (rule split_block)
  have "BS \<le> length d1" using Suc.prems 1 by simp
  then obtain b d2 where 2: "d1 = b @ d2" "length b = BS" "length d1 = BS + length d2"
    by (rule split_block)
  have "BS \<le> length d2" using Suc.prems 1 2 by simp
  then obtain c d3 where 3: "d2 = c @ d3" "length c = BS" "length d2 = BS + length d3"
    by (rule split_block)
  have "BS \<le> length d3" using Suc.prems 1 2 3 by simp
  then obtain e d4 where 4: "d3 = e @ d4" "length e = BS" "length d3 = BS + length d4"
    by (rule split_block)
  have IH: "decode_sector_loop4 D e d4 n = decode_sector_loop D e d4 (4 * n)"
    using Suc.prems 1 2 3 4 by (intro Suc.IH) simp_all
  have "psync_aes256_decode_4blocks_consec_xor_sw D (a @ b @ c @ e) (x @ a @ b @ c)
      = xorb (D a) x @ xorb (D b) a @ xorb (D c) b @ xorb (D e) c"
    unfolding psync_aes256_decode_4blocks_consec_xor_sw_def Let_def
    by (subst xor_longs) (simp_all add: D 1 2 3 4 Suc.prems)
  moreover have four: "4 * Suc n = Suc (Suc (Suc (Suc (4 * n))))" by simp
  ultimately show ?case
    unfolding four using 1(2) 2(2) 3(2) 4(2) D Suc.prems
    by (simp add: 1(1) 2(1) 3(1) 4(1) IH Let_def copy_unaligned_def xor16_aligned_eq split: prod.split)
qed

lemma decode_sector_loop_add:
  "decode_sector_loop D x data (m + n) =
    (let (o1, x1, r1) = decode_sector_loop D x data m;
         (o2, x2, r2) = decode_sector_loop D x1 r1 n
     in (o1 @ o2, x2, r2))"
  by (induction m arbitrary: x data) (auto simp: Let_def split: prod.split)

lemma sector_loop_roundtrip:
  assumes ED: "block_cipher E D"
  shows "length x = BS \<Longrightarrow> BS * n \<le> length data \<Longrightarrow>
    \<exists>out last. encode_sector_loop al E x data n = (out, last, drop (BS * n) data)
      \<and> length out = BS * n \<and> length last = BS
      \<and> (\<forall>rest. decode_sector_loop D x (out @ rest) n = (take (BS * n) data, last, rest))"
proof (induction n arbitrary: x data)
  case 0
  then show ?case by simp
next
  case (Suc n)
  have "BS \<le> length data" using Suc.prems by simp
  then obtain a d where d: "data = a @ d" "length a = BS" "length data = BS + length d"
    by (rule split_block)
  let ?c = "E (xorb x a)"
  have c: "length ?c = BS" "length (D ?c) = BS" "xorb (D ?c) x = a"
    using text_step [OF ED d(2) Suc.prems(1)] by (simp_all add: xorb_commute [of x])
  obtain out last where IH: "encode_sector_loop al E ?c d n = (out, last, drop (BS * n) d)"
    "length out = BS * n" "length last = BS"
    "\<And>rest. decode_sector_loop D ?c (out @ rest) n = (take (BS * n) d, last, rest)"
    using Suc.IH [of ?c d] c Suc.prems d by auto
  have "encode_sector_loop al E x data (Suc n) = (?c @ out, last, drop (BS * Suc n) data)"
    using IH(1) d(2) c(1) Suc.prems(1) by (simp add: d(1) Let_def xor16_eq copy16_eq)
  moreover have "decode_sector_loop D x ((?c @ out) @ rest) (Suc n)
      = (take (BS * Suc n) data, last, rest)" for rest
    using IH(4) [of rest] d(2) c Suc.prems(1)
    by (simp add: d(1) Let_def copy_unaligned_def xor16_aligned_eq)
  ultimately show ?case using IH(2,3) c(1) by auto
qed

lemma sector_tail_roundtrip:
  assumes ED: "block_cipher E D" and x: "length x = BS"
    and n: "n < BS" and d: "length data = (if n = 0 then 0 else BS + n)"
  shows "decode_sector_tail D x (encode_sector_tail E x data n) n = data
    \<and> length (encode_sector_tail E x data n) = length data"
proof (cases "n = 0")
  case True
  then show ?thesis using d by (simp add: decode_sector_tail_def encode_sector_tail_def)
next
  case False
  have "BS \<le> length data" using d False by simp
  then obtain a b where ab: "data = a @ b" "length a = BS" "length data = BS + length b"
    by (rule split_block)
  have b: "length b = n" using ab(3) d False by simp
  define c where "c = E (xorb x a)"
  have c: "length c = BS" "length (D c) = BS" "xorb (D c) x = a"
    using text_step [OF ED ab(2) x] by (simp_all add: xorb_commute [of x] c_def)
  define e where "e = xorb (take n c) b @ drop n c"
  have e: "length e = BS" "D (E e) = e" "length (E e) = BS"
    using ED c(1) b n by (auto simp: e_def block_cipher_def)
  have enc: "encode_sector_tail E x data n = E e @ take n c"
    using False ab b n x c(1) e
    by (simp add: encode_sector_tail_def Let_def xor16_unaligned_eq c_def [symmetric] xor_cnt_eq
        e_def [symmetric] copy_unaligned_def)
  have 1: "xor_cnt_inplace e (take n c) n = b @ drop n c"
    using n c(1) b e(1) by (simp add: xor_cnt_eq) (simp add: e_def xorb_twice xorb_commute [of "take n c"])
  have "decode_sector_tail D x (E e @ take n c) n = a @ b"
    using False c e b n x 1 ab(2) by (simp add: decode_sector_tail_def Let_def copy_unaligned_def xor16_aligned_eq min_absorb2)
  then show ?thesis using enc ab(1) e(3) c(1) b n ab(2) by simp
qed

lemma block_step_inverse:
  assumes "block_cipher E D" "length c = BS" "length x = BS"
  shows "length (D c) = BS" "E (xorb x (xorb (D c) x)) = c"
proof -
  show D: "length (D c) = BS" using assms by (auto simp: block_cipher_def)
  have "xorb x (xorb (D c) x) = D c"
    using D assms(3) by (simp add: xorb_twice xorb_commute [of x])
  then show "E (xorb x (xorb (D c) x)) = c" using assms by (auto simp: block_cipher_def)
qed

lemma sector_loop_inverse:
  assumes ED: "block_cipher E D"
  shows "length x = BS \<Longrightarrow> BS * n \<le> length c \<Longrightarrow>
    \<exists>out lst. decode_sector_loop D x c n = (out, lst, drop (BS * n) c)
      \<and> length out = BS * n \<and> length lst = BS
      \<and> (\<forall>rest. encode_sector_loop al E x (out @ rest) n = (take (BS * n) c, lst, rest))"
proof (induction n arbitrary: x c)
  case 0
  then show ?case by simp
next
  case (Suc n)
  have "BS \<le> length c" using Suc.prems by simp
  then obtain a d where d: "c = a @ d" "length a = BS" "length c = BS + length d"
    by (rule split_block)
  note a = block_step_inverse [OF ED d(2) Suc.prems(1)]
  obtain out lst where IH: "decode_sector_loop D a d n = (out, lst, drop (BS * n) d)"
    "length out = BS * n" "length lst = BS"
    "\<And>rest. encode_sector_loop al E a (out @ rest) n = (take (BS * n) d, lst, rest)"
    using Suc.IH [of a d] Suc.prems d by auto
  have "decode_sector_loop D x c (Suc n) = (xorb (D a) x @ out, lst, drop (BS * Suc n) c)"
    using IH(1) d(2) a(1) Suc.prems(1) by (simp add: d(1) Let_def xor16_aligned_eq copy_unaligned_def)
  moreover have "encode_sector_loop al E x ((xorb (D a) x @ out) @ rest) (Suc n)
      = (take (BS * Suc n) c, lst, rest)" for rest
    using IH(4) [of rest] d(2) a Suc.prems(1) by (simp add: d(1) Let_def xor16_eq copy16_eq)
  ultimately show ?case using IH(2,3) a(1) Suc.prems(1) by auto
qed

lemma sector_tail_inverse:
  assumes ED: "block_cipher E D" and x: "length x = BS"
    and n: "n < BS" and c: "length c = (if n = 0 then 0 else BS + n)"
  shows "encode_sector_tail E x (decode_sector_tail D x c n) n = c
    \<and> length (decode_sector_tail D x c n) = length c"
proof (cases "n = 0")
  case True
  then show ?thesis using c by (simp add: decode_sector_tail_def encode_sector_tail_def)
next
  case False
  then have "BS \<le> length c" using c by simp
  then obtain p q where pq: "c = p @ q" "length p = BS" "length c = BS + length q"
    by (rule split_block)
  have q: "length q = n" using pq(3) c False by simp
  have Dp: "length (D p) = BS" "E (D p) = p" using ED pq(2) by (auto simp: block_cipher_def)
  define b where "b = xorb (take n (D p)) q"
  have b: "length b = n" "xorb q b = take n (D p)"
    unfolding b_def using q Dp n by (simp_all add: xorb_twice xorb_commute [of q])
  define e where "e = q @ drop n (D p)"
  have e: "length e = BS" "take n e = q" "drop n e = drop n (D p)" unfolding e_def using q n Dp by simp_all
  note a = block_step_inverse [OF ED e(1) x]
  have dec: "decode_sector_tail D x c n = xorb (D e) x @ b"
    using False pq q n x Dp a(1)
    by (simp add: decode_sector_tail_def Let_def copy_unaligned_def xor_cnt_eq b_def [symmetric] b(1)
        e_def [symmetric] xor16_aligned_eq min_absorb2)
  have "xor_cnt_inplace e b n = D p"
    using n e b by (simp add: xor_cnt_eq)
  then have "encode_sector_tail E x (xorb (D e) x @ b) n = p @ q"
    using False a x b e(2) Dp pq(2)
    by (simp add: encode_sector_tail_def Let_def xor16_unaligned_eq copy_unaligned_def)
  then show ?thesis using dec pq q b(1) a(1) x by simp
qed

lemma body_split:
  assumes len: "BS \<le> length (data :: bytes)"
  obtains n where
    "(if length data mod 16 \<noteq> 0 then length data - (length data mod 16 + BS) else length data) = BS * n"
    "BS * n \<le> length data"
    "length (drop (BS * n) data) = (if length data mod 16 = 0 then 0 else BS + length data mod 16)"
proof -
  define q ns where "q = length data div BS" and "ns = length data mod 16"
  have q: "length data = BS * q + ns" "1 \<le> q" "ns < BS"
    unfolding q_def ns_def using div_le_mono [OF len, of BS] by simp_all
  show thesis
    by (rule that [of "if ns = 0 then q else q - 1"])
       (use q in \<open>auto simp: diff_mult_distrib2\<close>)
qed

lemma decode_sector_body_eq:
  assumes ED: "block_cipher E D" and x: "length x = BS"
    and n: "(if length data mod 16 \<noteq> 0 then length data - (length data mod 16 + BS) else length data) = BS * n"
      "BS * n \<le> length data"
  shows "decode_sector_body D x data =
    (case decode_sector_loop D x data n of
       (out, lst, rest) \<Rightarrow> out @ decode_sector_tail D lst rest (length data mod 16))"
proof -
  have dl: "BS * n mod (4 * BS) = BS * (n mod 4)" "BS * n div (4 * BS) = n div 4"
    using mult_mod_right [of BS n 4] by simp_all
  have "4 * BS * (n div 4) \<le> length data" using n(2) by simp
  then have "decode_sector_loop4 D x data (n div 4) = decode_sector_loop D x data (4 * (n div 4))"
    using decode_sector_loop4_eq [OF ED x] by simp
  moreover have "decode_sector_loop D x data n
      = decode_sector_loop D x data (4 * (n div 4) + n mod 4)" by simp
  ultimately show ?thesis
    unfolding decode_sector_body_def Let_def n(1) dl decode_sector_loop_add
    by (simp add: split: prod.split)
qed

lemma sector_body_roundtrip:
  assumes ED: "block_cipher E D" and x: "length x = BS" and len: "BS \<le> length data"
  shows "decode_sector_body D x (encode_sector_body al E x data) = data
    \<and> length (encode_sector_body al E x data) = length data"
proof -
  obtain n where n: "(if length data mod 16 \<noteq> 0 then length data - (length data mod 16 + BS)
      else length data) = BS * n" "BS * n \<le> length data"
    "length (drop (BS * n) data) = (if length data mod 16 = 0 then 0 else BS + length data mod 16)"
    by (rule body_split [OF len])
  obtain out lst where loop: "encode_sector_loop al E x data n = (out, lst, drop (BS * n) data)"
    "length out = BS * n" "length lst = BS"
    "\<And>rest. decode_sector_loop D x (out @ rest) n = (take (BS * n) data, lst, rest)"
    using sector_loop_roundtrip [OF ED x n(2), of al] by auto
  have ns: "length data mod 16 < BS" by simp
  note tail = sector_tail_roundtrip [OF ED loop(3) ns n(3)]
  define c where "c = out @ encode_sector_tail E lst (drop (BS * n) data) (length data mod 16)"
  have c: "encode_sector_body al E x data = c"
    unfolding encode_sector_body_def Let_def n(1) using loop(1) by (simp add: c_def)
  have len: "length c = length data" unfolding c_def using loop(2) tail n(2) by simp
  show ?thesis
    unfolding c using decode_sector_body_eq [OF ED x, where data = c and n = n, unfolded len, OF n(1,2)]
      len loop(4) tail by (simp add: c_def)
qed

lemma sector_body_inverse:
  assumes ED: "block_cipher E D" and x: "length x = BS" and len: "BS \<le> length c"
  shows "encode_sector_body al E x (decode_sector_body D x c) = c
    \<and> length (decode_sector_body D x c) = length c"
proof -
  obtain n where n: "(if length c mod 16 \<noteq> 0 then length c - (length c mod 16 + BS)
      else length c) = BS * n" "BS * n \<le> length c"
    "length (drop (BS * n) c) = (if length c mod 16 = 0 then 0 else BS + length c mod 16)"
    by (rule body_split [OF len])
  obtain out lst where loop: "decode_sector_loop D x c n = (out, lst, drop (BS * n) c)"
    "length out = BS * n" "length lst = BS"
    "\<And>rest. encode_sector_loop al E x (out @ rest) n = (take (BS * n) c, lst, rest)"
    using sector_loop_inverse [OF ED x n(2), of al] by auto
  have ns: "length c mod 16 < BS" by simp
  note tail = sector_tail_inverse [OF ED loop(3) ns n(3)]
  define d where "d = out @ decode_sector_tail D lst (drop (BS * n) c) (length c mod 16)"
  have d: "decode_sector_body D x c = d"
    using decode_sector_body_eq [OF ED x n(1,2)] loop(1) by (simp add: d_def)
  have len: "length d = length c" unfolding d_def using loop(2) tail n(2) by simp
  show ?thesis
    unfolding d encode_sector_body_def Let_def len n(1) using loop(4) tail by (simp add: d_def)
qed

lemma memcmp_self: "BS \<le> length a \<Longrightarrow> memcmp_const a (take BS a) BS = 0"
proof -
  assume a: "BS \<le> length a"
  have "fold (\<lambda>i r. r OR ucast (a ! i XOR take BS a ! i)) [0..<BS] (0 :: u32) = 0"
  proof -
    have "fold (\<lambda>i r. r OR ucast (a ! i XOR take BS a ! i)) xs r = r"
      if "\<forall>i\<in>set xs. i < BS" for xs and r :: u32
      using that by (induction xs arbitrary: r) auto
    then show ?thesis by simp
  qed
  then show ?thesis by (simp add: memcmp_const_def mask_eq_exp_minus_1 del: upt.simps)
qed

lemma two_blocks_roundtrip:
  assumes "block_cipher E D" "length (x :: bytes) = 2 * BS"
  shows "psync_aes256_2blocks_consec D (psync_aes256_2blocks_consec E x) = x"
    and "length (psync_aes256_2blocks_consec E x) = 2 * BS"
proof -
  have l: "length (take BS x) = BS" "length (drop BS x) = BS" "take BS (drop BS x) = drop BS x"
    using assms(2) by simp_all
  then show "psync_aes256_2blocks_consec D (psync_aes256_2blocks_consec E x) = x"
    and "length (psync_aes256_2blocks_consec E x) = 2 * BS"
    using assms(1) l(1,2) unfolding psync_aes256_2blocks_consec_def l(3) block_cipher_def
    by (simp_all del: length_drop length_take)
qed

lemma sector_short:
  fixes v :: bytes and sectorid :: u64
  assumes ED: "block_cipher E D" and sha: "digest64 sha" and rnd: "length rnd = BS"
    and short: "length data < BS"
  defines "h \<equiv> take BS (sector_hmac sha v data sectorid rnd)"
    and "e \<equiv> \<lparr>encoder = E, decoder = Some D, siv = v\<rparr>"
  defines "auth \<equiv> psync_aes256_2blocks_consec E (xor_cnt_inplace rnd data (length data) @ h)"
  shows "psync_crypto_aes256_encode_sector sha al e rnd data sectorid = (take (length data) rnd, auth)"
    and "psync_crypto_aes256_decode_sector sha e (take (length data) rnd) auth sectorid = Ok (data, 0)"
    and "length auth = 2 * BS"
proof -
  define n where "n = length data"
  have n: "n < BS" "length data = n" using short n_def by auto
  have h: "length h = BS" "h = take BS (sector_hmac sha v data sectorid rnd)"
    unfolding h_def hmac_chunks using sha by simp_all
  have x: "xor_cnt_inplace rnd data n = xorb (take n rnd) data @ drop n rnd"
    using n rnd by (simp add: xor_cnt_eq)
  have auth: "psync_aes256_2blocks_consec D auth = xorb (take n rnd) data @ drop n rnd @ h"
    "length auth = 2 * BS"
    unfolding auth_def n(2) x using two_blocks_roundtrip [OF ED] n rnd h by simp_all
  have undo: "xor_cnt_inplace (xorb (take n rnd) data @ drop n rnd @ h) (take n rnd) n
      = data @ drop n rnd @ h"
    using n rnd by (simp add: xor_cnt_eq xorb_twice xorb_commute [of "take n rnd"])
  show "length auth = 2 * BS" by fact
  show "psync_crypto_aes256_encode_sector sha al e rnd data sectorid = (take (length data) rnd, auth)"
    unfolding psync_crypto_aes256_encode_sector_def Let_def e_def auth_def h_def using short by simp
  have "BS \<le> length (sector_hmac sha v data sectorid rnd)"
    unfolding hmac_chunks using sha by simp
  then have "memcmp_const (sector_hmac sha v data sectorid rnd) h BS = 0"
    unfolding h(2) by (rule memcmp_self)
  then show "psync_crypto_aes256_decode_sector sha e (take (length data) rnd) auth sectorid = Ok (data, 0)"
    unfolding psync_crypto_aes256_decode_sector_def Let_def e_def
    using auth undo n rnd by simp
qed

lemma sector_long:
  fixes v :: bytes and sectorid :: u64 and al :: bool
  assumes ED: "block_cipher E D" and sha: "digest64 sha" and rnd: "length rnd = BS"
    and long: "BS \<le> length data"
  defines "e \<equiv> \<lparr>encoder = E, decoder = Some D, siv = v\<rparr>"
    and "h \<equiv> take BS (sector_hmac sha v data sectorid rnd)"
  defines "auth \<equiv> psync_aes256_2blocks_consec E (take (BS div 2) rnd @ h @ drop (BS div 2) rnd)"
    and "c \<equiv> encode_sector_body al E h data"
  shows "psync_crypto_aes256_encode_sector sha al e rnd data sectorid = (c, auth)"
    and "psync_crypto_aes256_decode_sector sha e c auth sectorid = Ok (data, 0)"
    and "length c = length data" and "length auth = 2 * BS"
proof -
  have H: "length (sector_hmac sha v data sectorid rnd) = 64" unfolding hmac_chunks using sha by simp
  then have h: "length h = BS" unfolding h_def by simp
  have auth: "psync_aes256_2blocks_consec D auth = take (BS div 2) rnd @ h @ drop (BS div 2) rnd"
    "length auth = 2 * BS"
    unfolding auth_def using two_blocks_roundtrip [OF ED] rnd h by simp_all
  note body = sector_body_roundtrip [OF ED h long, of al, folded c_def]
  show "psync_crypto_aes256_encode_sector sha al e rnd data sectorid = (c, auth)"
    unfolding psync_crypto_aes256_encode_sector_def Let_def
    using long by (simp add: auth_def c_def h_def e_def)
  have "memcmp_const (sector_hmac sha v data sectorid rnd) h BS = 0"
    unfolding h_def using H by (intro memcmp_self) simp
  then show "psync_crypto_aes256_decode_sector sha e c auth sectorid = Ok (data, 0)"
    unfolding psync_crypto_aes256_decode_sector_def Let_def e_def
    using long body auth(1) h rnd by simp
  show "length c = length data" "length auth = 2 * BS" using body auth(2) by auto
qed

lemma encode_sector_decodes:
  assumes ED: "block_cipher E D" and sha: "digest64 sha" and rnd: "length rnd = BS"
  shows "(case psync_crypto_aes256_encode_sector sha al
              \<lparr>encoder = E, decoder = Some D, siv = v\<rparr> rnd data sectorid of
           (out, auth) \<Rightarrow> length out = length data \<and> length auth = 2 * BS \<and>
             psync_crypto_aes256_decode_sector sha \<lparr>encoder = E, decoder = Some D, siv = v\<rparr>
               out auth sectorid = Ok (data, 0))"
proof (cases "length data < BS")
  case True
  then show ?thesis using sector_short [OF ED sha rnd True] rnd by simp
next
  case False
  then show ?thesis using sector_long [OF ED sha rnd, of data] by simp
qed

text \<open>
  C24. Sectors. For data of every length, the sector that the encoder writes has the length of the data
  and decodes, with its authentication block and its number, to the data and the return value 0.
\<close>

theorem sector_roundtrip:
  assumes ED: "block_cipher E D" and sha: "digest64 sha" and rnd: "length rnd = BS"
  shows "(case psync_crypto_aes256_encode_sector sha al
              \<lparr>encoder = E, decoder = Some D, siv = v\<rparr> rnd data sectorid of
           (out, auth) \<Rightarrow> length out = length data \<and> length auth = 2 * BS \<and>
             psync_crypto_aes256_decode_sector sha \<lparr>encoder = E, decoder = Some D, siv = v\<rparr>
               out auth sectorid = Ok (data, 0))"
  using assms by (rule encode_sector_decodes)

theorem sector_roundtrip_witness:
  "(case psync_crypto_aes256_encode_sector (\<lambda>_. replicate 64 7) True
        \<lparr>encoder = rev, decoder = Some rev, siv = [1]\<rparr> (replicate 16 3) (replicate 21 65) 4 of
     (out, auth) \<Rightarrow> length out = length (replicate 21 (65 :: u8)) \<and> length auth = 2 * BS \<and>
       psync_crypto_aes256_decode_sector (\<lambda>_. replicate 64 7)
         \<lparr>encoder = rev, decoder = Some rev, siv = [1]\<rparr> out auth 4 = Ok (replicate 21 65, 0))"
  by (rule sector_roundtrip) (simp_all add: block_cipher_def digest64_def)

lemma memcmp_cases: "- memcmp_const a b n = 0 \<or> - memcmp_const a b n = - 1"
proof -
  have "(x AND 1) XOR 1 = 0 \<or> (x AND 1) XOR 1 = 1" for x :: u32
    by (simp add: and_one_eq mod2_eq_if)
  then show ?thesis unfolding memcmp_const_def Let_def by fastforce
qed

text \<open>The decoder, written with the fields it finds in the authentication block.\<close>

lemma block_cipher_sym: "block_cipher E D \<Longrightarrow> block_cipher D E"
  by (simp add: block_cipher_def)

lemma decode_sector_fields:
  fixes v :: bytes and sectorid :: u64 and al :: bool
  assumes ED: "block_cipher E D" and auth: "length auth = 2 * BS"
  defines "e \<equiv> \<lparr>encoder = E, decoder = Some D, siv = v\<rparr>"
  obtains out rnd mac where "length rnd = BS" "length mac = BS" "length out = length data"
    "psync_crypto_aes256_decode_sector sha e data auth sectorid
       = Ok (out, - memcmp_const (sector_hmac sha v out sectorid rnd) mac BS)"
    "mac = take BS (sector_hmac sha v out sectorid rnd) \<longrightarrow>
       psync_crypto_aes256_encode_sector sha al e rnd out sectorid = (data, auth)"
proof -
  define d where "d = psync_aes256_2blocks_consec D auth"
  have d: "length d = 2 * BS" "psync_aes256_2blocks_consec E d = auth"
    unfolding d_def using two_blocks_roundtrip [OF block_cipher_sym [OF ED] auth] by simp_all
  show thesis
  proof (cases "length data < BS")
    case True
    define n where "n = length data"
    have n: "length data = n" "n < BS" using True n_def by auto
    define out rnd where "out = xorb (take n d) data" and "rnd = data @ drop n (take BS d)"
    have x: "xor_cnt_inplace d data n = out @ drop n d" "length out = n" "length rnd = BS"
      unfolding out_def rnd_def using n d by (simp_all add: xor_cnt_eq)
    have t: "take n d @ drop n (take BS d) = take BS d"
      using append_take_drop_id [of n "take BS d"] n by (simp add: min_absorb1)
    have y: "xor_cnt_inplace rnd out n = take BS d"
      unfolding rnd_def using n d x(2)
      by (simp add: xor_cnt_eq out_def xorb_twice xorb_commute [of data] t)
    have z: "take BS (data @ drop n d) = rnd" "drop BS (data @ drop n d) = drop BS d"
      unfolding rnd_def using n by (simp_all add: take_drop)
    show thesis
    proof (rule that [of rnd "drop BS d" out])
      show "psync_crypto_aes256_decode_sector sha e data auth sectorid
          = Ok (out, - memcmp_const (sector_hmac sha v out sectorid rnd) (drop BS d) BS)"
        unfolding psync_crypto_aes256_decode_sector_def Let_def e_def
        using n x z by (simp add: d_def [symmetric])
      show "drop BS d = take BS (sector_hmac sha v out sectorid rnd) \<longrightarrow>
          psync_crypto_aes256_encode_sector sha al e rnd out sectorid = (data, auth)"
        unfolding psync_crypto_aes256_encode_sector_def Let_def e_def
        using n x y d by (auto simp: rnd_def dest: sym)
    qed (use n x d in simp_all)
  next
    case False
    define mac rnd where "mac = take BS (drop (BS div 2) d)"
      and "rnd = take (BS div 2) d @ drop (BS + BS div 2) d"
    have len: "length mac = BS" "length rnd = BS" unfolding mac_def rnd_def using d by simp_all
    have dd: "take (BS div 2) rnd @ mac @ drop (BS div 2) rnd = d"
      unfolding mac_def rnd_def using d(1) append_take_drop_id [of BS "drop (BS div 2) d"] by simp
    define out where "out = decode_sector_body D mac data"
    have ge: "BS \<le> length data" using False by simp
    note body = sector_body_inverse [OF ED len(1) ge, of al, folded out_def]
    show thesis
    proof (rule that [of rnd mac out])
      show "psync_crypto_aes256_decode_sector sha e data auth sectorid
          = Ok (out, - memcmp_const (sector_hmac sha v out sectorid rnd) mac BS)"
        unfolding psync_crypto_aes256_decode_sector_def Let_def e_def
        using False d len by (simp add: d_def [symmetric] mac_def out_def rnd_def)
      show "mac = take BS (sector_hmac sha v out sectorid rnd) \<longrightarrow>
          psync_crypto_aes256_encode_sector sha al e rnd out sectorid = (data, auth)"
        unfolding psync_crypto_aes256_encode_sector_def Let_def e_def
        using body ge d dd by (auto dest: sym)
    qed (use body len in simp_all)
  qed
qed

text \<open>
  C26. The decoder returns 0 exactly for the sectors the encoder can have written: some 16 random
  bytes make it write this data and this authentication block for the number. Otherwise it returns
  -1; in both cases the output has the length of the input.
\<close>

theorem sector_accepted_iff_encoded:
  assumes ED: "block_cipher E D" and auth: "length auth = 2 * BS" and sha: "digest64 sha"
  shows "\<exists>out r. psync_crypto_aes256_decode_sector sha \<lparr>encoder = E, decoder = Some D, siv = v\<rparr>
      data auth sectorid = Ok (out, r) \<and> length out = length data
    \<and> (r = 0 \<longleftrightarrow> (\<exists>rnd. length rnd = BS \<and>
         psync_crypto_aes256_encode_sector sha al \<lparr>encoder = E, decoder = Some D, siv = v\<rparr>
           rnd out sectorid = (data, auth)))
    \<and> (r \<noteq> 0 \<longrightarrow> r = - 1)"
proof -
  obtain out rnd mac where f: "length rnd = BS" "length mac = BS" "length out = length data"
    "psync_crypto_aes256_decode_sector sha \<lparr>encoder = E, decoder = Some D, siv = v\<rparr> data auth sectorid
       = Ok (out, - memcmp_const (sector_hmac sha v out sectorid rnd) mac BS)"
    "mac = take BS (sector_hmac sha v out sectorid rnd) \<longrightarrow>
       psync_crypto_aes256_encode_sector sha al \<lparr>encoder = E, decoder = Some D, siv = v\<rparr> rnd out sectorid
         = (data, auth)"
    by (rule decode_sector_fields [OF ED auth, where data = data and sha = sha and v = v
          and sectorid = sectorid and al = al])
  define r where "r = - memcmp_const (sector_hmac sha v out sectorid rnd) mac BS"
  have "length (sector_hmac sha v out sectorid rnd) = 64" unfolding hmac_chunks using sha by simp
  then have "r = 0 \<Longrightarrow> mac = take BS (sector_hmac sha v out sectorid rnd)"
    unfolding r_def using f(2) memcmp_eq [of BS "sector_hmac sha v out sectorid rnd" mac]
    by (auto split: if_splits)
  moreover have "r = 0" if "length rnd' = BS"
    "psync_crypto_aes256_encode_sector sha al \<lparr>encoder = E, decoder = Some D, siv = v\<rparr> rnd' out sectorid
       = (data, auth)" for rnd'
    using encode_sector_decodes [OF ED sha that(1), where al = al and v = v and data = out
        and sectorid = sectorid] that(2) f(4) by (simp add: r_def)
  moreover have "r = 0 \<or> r = - 1" unfolding r_def by (rule memcmp_cases)
  ultimately show ?thesis using f(1,3,4,5) unfolding r_def [symmetric] by blast
qed

theorem sector_accepted_iff_encoded_witness:
  "\<exists>out r. psync_crypto_aes256_decode_sector (\<lambda>_. replicate 64 7)
        \<lparr>encoder = rev, decoder = Some rev, siv = [1]\<rparr> [1, 2, 3] (replicate 32 5) 4 = Ok (out, r)
    \<and> length out = length [1 :: u8, 2, 3]
    \<and> (r = 0 \<longleftrightarrow> (\<exists>rnd. length rnd = BS \<and>
         psync_crypto_aes256_encode_sector (\<lambda>_. replicate 64 7) False
           \<lparr>encoder = rev, decoder = Some rev, siv = [1]\<rparr> rnd out 4 = ([1, 2, 3], replicate 32 5)))
    \<and> (r \<noteq> 0 \<longrightarrow> r = - 1)"
  by (rule sector_accepted_iff_encoded) (simp_all add: block_cipher_def digest64_def)

section \<open>Creation\<close>

text \<open>A key is the 32 bytes of the cipher's key, followed by the vector.\<close>

lemma created_ctr:
  assumes ED: "block_cipher E D" and k: "length k = KEY_SIZE" and mk: "mk_enc (k @ v) = Some E"
  shows "if BS \<le> length v
    then \<exists>c. psync_crypto_aes256_ctr_encoder_decoder_create mk_enc (k @ v) = Some c
      \<and> (\<forall>al data off. unat off mod BS = 0 \<longrightarrow> psync_crypto_aes256_ctr_encode_decode_inplace al c data off
            = Ok (ctr_reference \<lparr>coder = E, iv = take BS v\<rparr> (unat off) data))
    else psync_crypto_aes256_ctr_encoder_decoder_create mk_enc (k @ v) = None"
proof (cases "BS \<le> length v")
  case True
  have "length (E x) = BS" if "length x = BS" for x using ED that by (auto simp: block_cipher_def)
  then have "ctr_key_ok \<lparr>coder = E, iv = take BS v\<rparr>" using True by (simp add: ctr_key_ok_def)
  from ctr_on_block [OF this] show ?thesis
    using True k mk by (simp add: psync_crypto_aes256_ctr_encoder_decoder_create_def)
next
  case False
  then show ?thesis using k by (simp add: psync_crypto_aes256_ctr_encoder_decoder_create_def)
qed

lemma created_text:
  assumes ED: "block_cipher E D" and sha: "digest64 sha" and k: "length k = KEY_SIZE"
    and mk: "mk_enc (k @ v) = Some E" "mk_dec (k @ v) = Some D"
  shows "if BS \<le> length v
    then \<exists>e d. psync_crypto_aes256_text_encoder_create mk_enc (k @ v) = Some e
      \<and> psync_crypto_aes256_text_decoder_create mk_dec (k @ v) = Some d
      \<and> (\<forall>al tx. tx \<noteq> [] \<longrightarrow> 0 \<notin> set tx \<longrightarrow>
           (\<exists>out ret. psync_crypto_aes256_encode_text sha e tx = Ok (out, length out)
              \<and> psync_crypto_aes256_decode_text sha al d out = Ok ret \<and> c_str ret = tx
              \<and> (length tx \<le> BS \<longrightarrow> out = E (xorb (padded tx) (take BS v)))))
    else psync_crypto_aes256_text_encoder_create mk_enc (k @ v) = None
      \<and> psync_crypto_aes256_text_decoder_create mk_dec (k @ v) = None"
proof (cases "BS \<le> length v")
  case True
  let ?e = "\<lparr>coder = E, iv = v\<rparr>" and ?d = "\<lparr>coder = D, iv = v\<rparr>"
  have c: "psync_crypto_aes256_text_encoder_create mk_enc (k @ v) = Some ?e"
    "psync_crypto_aes256_text_decoder_create mk_dec (k @ v) = Some ?d"
    using True k mk by (simp_all add: psync_crypto_aes256_text_encoder_create_def psync_crypto_aes256_text_decoder_create_def)
  have "\<exists>out ret. psync_crypto_aes256_encode_text sha ?e tx = Ok (out, length out)
      \<and> psync_crypto_aes256_decode_text sha al ?d out = Ok ret \<and> c_str ret = tx
      \<and> (length tx \<le> BS \<longrightarrow> out = E (xorb (padded tx) (take BS v)))" if tx: "tx \<noteq> []" "0 \<notin> set tx" for al tx
    using text_decodes [OF ED sha True tx(2), of al] text_one_block(1) [OF ED True tx(2,1), of sha] tx(1) by fastforce
  then show ?thesis using True c by auto
next
  case False
  then show ?thesis
    using k by (simp add: psync_crypto_aes256_text_encoder_create_def psync_crypto_aes256_text_decoder_create_def)
qed

lemma created_sector:
  assumes ED: "block_cipher E D" and sha: "digest64 sha" and k: "length k = KEY_SIZE" and mk: "mk_enc (k @ v) = Some E"
  shows "\<exists>s. psync_crypto_aes256_sector_encoder_decoder_create mk_enc mk_dec (k @ v) = Some s \<and> siv s = v
    \<and> (mk_dec (k @ v) = Some D \<longrightarrow> (\<forall>al rnd data sectorid. length rnd = BS \<longrightarrow>
         (case psync_crypto_aes256_encode_sector sha al s rnd data sectorid of
            (out, auth) \<Rightarrow> psync_crypto_aes256_decode_sector sha s out auth sectorid = Ok (data, 0))))
    \<and> (mk_dec (k @ v) = None \<longrightarrow> (\<forall>out auth sectorid. psync_crypto_aes256_decode_sector sha s out auth sectorid = Overread))"
proof -
  have "psync_crypto_aes256_sector_encoder_decoder_create mk_enc mk_dec (k @ v)
      = Some \<lparr>encoder = E, decoder = mk_dec (k @ v), siv = v\<rparr>"
    using k mk by (simp add: psync_crypto_aes256_sector_encoder_decoder_create_def)
  moreover have "case psync_crypto_aes256_encode_sector sha al \<lparr>encoder = E, decoder = Some D, siv = v\<rparr> rnd data sectorid of
      (out, auth) \<Rightarrow> psync_crypto_aes256_decode_sector sha \<lparr>encoder = E, decoder = Some D, siv = v\<rparr> out auth sectorid = Ok (data, 0)"
    if "length rnd = BS" for al rnd data sectorid
    using encode_sector_decodes [OF ED sha that, where al = al and v = v and data = data and sectorid = sectorid] by (auto split: prod.splits)
  moreover have "psync_crypto_aes256_decode_sector sha \<lparr>encoder = E, decoder = None, siv = v\<rparr> out auth sectorid = Overread"
    for out auth sectorid by (simp add: psync_crypto_aes256_decode_sector_def)
  ultimately show ?thesis by (intro exI [of _ "\<lparr>encoder = E, decoder = mk_dec (k @ v), siv = v\<rparr>"]) auto
qed

text \<open>
  The coders made from a key of 32 bytes \<open>k\<close> and the rest \<open>v\<close>, for which the library makes the block
  functions \<open>E\<close> and \<open>D\<close>. A counter-mode coder is made exactly when \<open>v\<close> has 16 bytes, and works with the
  key stream of \<open>E\<close> and the first 16 bytes of \<open>v\<close>. A text encoder and decoder are made for the same keys, and names
  that one encodes the other decodes; the encoding is that of \<open>E\<close> with the vector \<open>v\<close>. A sector coder is made from
  every such key and authenticates with \<open>v\<close>; it decodes what it encodes, but when the library has refused
  to make the decoder, every decoding with it follows a null pointer. Generated keys are long enough for
  all coders.
\<close>

theorem created_coders:
  assumes "block_cipher E D" "digest64 sha" "length k = KEY_SIZE" "mk_enc (k @ v) = Some E"
  shows "(if BS \<le> length v
      then \<exists>c. psync_crypto_aes256_ctr_encoder_decoder_create mk_enc (k @ v) = Some c
        \<and> (\<forall>al data off. unat off mod BS = 0 \<longrightarrow> psync_crypto_aes256_ctr_encode_decode_inplace al c data off
              = Ok (ctr_reference \<lparr>coder = E, iv = take BS v\<rparr> (unat off) data))
      else psync_crypto_aes256_ctr_encoder_decoder_create mk_enc (k @ v) = None)
    \<and> (mk_dec (k @ v) = Some D \<longrightarrow> (if BS \<le> length v
      then \<exists>e d. psync_crypto_aes256_text_encoder_create mk_enc (k @ v) = Some e
        \<and> psync_crypto_aes256_text_decoder_create mk_dec (k @ v) = Some d
        \<and> (\<forall>al tx. tx \<noteq> [] \<longrightarrow> 0 \<notin> set tx \<longrightarrow>
             (\<exists>out ret. psync_crypto_aes256_encode_text sha e tx = Ok (out, length out)
                \<and> psync_crypto_aes256_decode_text sha al d out = Ok ret \<and> c_str ret = tx
                \<and> (length tx \<le> BS \<longrightarrow> out = E (xorb (padded tx) (take BS v)))))
      else psync_crypto_aes256_text_encoder_create mk_enc (k @ v) = None
        \<and> psync_crypto_aes256_text_decoder_create mk_dec (k @ v) = None))
    \<and> (\<exists>s. psync_crypto_aes256_sector_encoder_decoder_create mk_enc mk_dec (k @ v) = Some s \<and> siv s = v
      \<and> (mk_dec (k @ v) = Some D \<longrightarrow> (\<forall>al rnd data sectorid. length rnd = BS \<longrightarrow>
           (case psync_crypto_aes256_encode_sector sha al s rnd data sectorid of
              (out, auth) \<Rightarrow> psync_crypto_aes256_decode_sector sha s out auth sectorid = Ok (data, 0))))
      \<and> (mk_dec (k @ v) = None \<longrightarrow> (\<forall>out auth sectorid. psync_crypto_aes256_decode_sector sha s out auth sectorid = Overread)))
    \<and> ((\<forall>n. length (rnd n) = n) \<longrightarrow> length (psync_crypto_aes256_ctr_gen_key rnd) = KEY_SIZE + BS)"
proof -
  have "(\<forall>n. length (rnd n) = n) \<longrightarrow> length (psync_crypto_aes256_ctr_gen_key rnd) = KEY_SIZE + BS"
    by (simp add: psync_crypto_aes256_ctr_gen_key_def psync_crypto_aes256_gen_key_len_def)
  then show ?thesis
    using created_ctr [of E D k mk_enc v] created_text [of E D sha k mk_enc v mk_dec]
      created_sector [of E D sha k mk_enc v mk_dec] assms by blast
qed

theorem created_coders_witness:
  "\<exists>e out. psync_crypto_aes256_text_encoder_create (\<lambda>_. Some rev) (replicate 32 1 @ replicate 16 2) = Some e
     \<and> psync_crypto_aes256_encode_text (\<lambda>_. replicate 64 7) e [65] = Ok (out, length out)
     \<and> out = rev (xorb (padded [65]) (replicate 16 2))"
proof -
  let ?k = "replicate 32 (1 :: u8)" and ?v = "replicate 16 (2 :: u8)" and ?mk = "\<lambda>k. Some (rev :: bytes \<Rightarrow> bytes)"
  have "block_cipher rev rev" "digest64 (\<lambda>_. replicate 64 7)" by (simp_all add: block_cipher_def digest64_def)
  note h = this
  have n: "length ?k = KEY_SIZE" "?mk (?k @ ?v) = Some rev" "BS \<le> length ?v" by simp_all
  obtain e where e: "psync_crypto_aes256_text_encoder_create ?mk (?k @ ?v) = Some e"
    "\<And>tx. tx \<noteq> [] \<Longrightarrow> 0 \<notin> set tx \<Longrightarrow> \<exists>out. psync_crypto_aes256_encode_text (\<lambda>_. replicate 64 7) e tx = Ok (out, length out)
       \<and> (length tx \<le> BS \<longrightarrow> out = rev (xorb (padded tx) (take BS ?v)))"
    using created_coders [where mk_enc = ?mk and mk_dec = ?mk and k = ?k and v = ?v, OF h n(1,2),
        THEN conjunct2, THEN conjunct1, THEN mp, OF n(2), unfolded if_P [OF n(3)]] by blast
  from e(1) e(2) [of "[65]"] show ?thesis by auto
qed

end
