(* ===== verification/PTree.thy ===== *)
theory PTree
  imports Prelude "HOL-Library.Tree"
begin

text \<open>
  The balanced trees of \<^verbatim>\<open>ptree.h\<close> and \<^verbatim>\<open>ptree.c\<close>: AVL trees whose nodes are embedded in the client's
  structures and linked by \<^verbatim>\<open>left\<close>, \<^verbatim>\<open>right\<close> and \<^verbatim>\<open>parent\<close> pointers. The model is a heap of nodes; address 0
  is the null pointer. An operation returns \<open>None\<close> where the code would follow a null pointer, fail
  one of its assertions or not return; the theorems show that it never does on a well-formed tree.

  The specification side is the inductive trees of the library: a heap holds the tree \<open>t\<close> when the
  pointers have its shape, the stored heights are its heights, and it is balanced. The contents of a
  tree are the addresses of its nodes from left to right.
\<close>

section \<open>Nodes and heaps\<close>

type_synonym addr = nat

record psync_tree =
  tleft :: addr
  tright :: addr
  tparent :: addr
  theight :: int

type_synonym theap = "addr \<Rightarrow> psync_tree"

abbreviation set_left :: "addr \<Rightarrow> addr \<Rightarrow> theap \<Rightarrow> theap" where
  "set_left a x h \<equiv> h(a := (h a)\<lparr>tleft := x\<rparr>)"
abbreviation set_right :: "addr \<Rightarrow> addr \<Rightarrow> theap \<Rightarrow> theap" where
  "set_right a x h \<equiv> h(a := (h a)\<lparr>tright := x\<rparr>)"
abbreviation set_parent :: "addr \<Rightarrow> addr \<Rightarrow> theap \<Rightarrow> theap" where
  "set_parent a x h \<equiv> h(a := (h a)\<lparr>tparent := x\<rparr>)"
abbreviation set_height :: "addr \<Rightarrow> int \<Rightarrow> theap \<Rightarrow> theap" where
  "set_height a x h \<equiv> h(a := (h a)\<lparr>theight := x\<rparr>)"

definition psync_tree_height :: "theap \<Rightarrow> addr \<Rightarrow> int" where
  "psync_tree_height h tree = (if tree \<noteq> 0 then theight (h tree) else 0)"

definition psync_tree_max :: "int \<Rightarrow> int \<Rightarrow> int" where
  "psync_tree_max a b = (if a > b then a else b)"

definition psync_tree_recalc_height :: "addr \<Rightarrow> theap \<Rightarrow> theap" where
  "psync_tree_recalc_height e h =
     set_height e (psync_tree_max (psync_tree_height h (tleft (h e)))
                                  (psync_tree_height h (tright (h e))) + 1) h"

section \<open>Rotations\<close>

definition psync_tree_rotate_left :: "addr \<Rightarrow> theap \<Rightarrow> (addr \<times> theap) option" where
  "psync_tree_rotate_left e h =
     (let e2 = tright (h e) in
      if e = 0 \<or> e2 = 0 then None
      else
        (let h = set_parent e2 (tparent (h e)) h;
             h = set_right e (tleft (h e2)) h;
             h = (if tright (h e) \<noteq> 0
                  then psync_tree_recalc_height e (set_parent (tright (h e)) e h)
                  else set_height e (psync_tree_height h (tleft (h e)) + 1) h);
             h = set_parent e e2 h;
             h = set_left e2 e h;
             h = psync_tree_recalc_height e2 h
         in Some (e2, h)))"

definition psync_tree_rotate_right :: "addr \<Rightarrow> theap \<Rightarrow> (addr \<times> theap) option" where
  "psync_tree_rotate_right e h =
     (let e2 = tleft (h e) in
      if e = 0 \<or> e2 = 0 then None
      else
        (let h = set_parent e2 (tparent (h e)) h;
             h = set_left e (tright (h e2)) h;
             h = (if tleft (h e) \<noteq> 0
                  then psync_tree_recalc_height e (set_parent (tleft (h e)) e h)
                  else set_height e (psync_tree_height h (tright (h e)) + 1) h);
             h = set_parent e e2 h;
             h = set_right e2 e h;
             h = psync_tree_recalc_height e2 h
         in Some (e2, h)))"

definition psync_tree_init_node :: "addr \<Rightarrow> theap \<Rightarrow> theap" where
  "psync_tree_init_node node h =
     h(node := \<lparr>tleft = 0, tright = 0, tparent = 0, theight = 1\<rparr>)"

text \<open>
  The common part of the two rebalancing loops: \<open>e\<close> leans by two to the left, or to the right. The
  results are the root, the parent of \<open>e\<close> (0 when \<open>e\<close> was the root) and the heap. \<open>repoint\<close> rotates at
  \<open>e\<close> and makes the link that led to \<open>e\<close>, or the root, point to the result; \<open>straighten\<close> is the first
  half of a double rotation, at the child.
\<close>

definition repoint :: "(addr \<Rightarrow> theap \<Rightarrow> (addr \<times> theap) option) \<Rightarrow> addr \<Rightarrow> addr \<Rightarrow> theap \<Rightarrow>
    (addr \<times> addr \<times> theap) option" where
  "repoint rot tree e h =
     (if e = tree then map_option (\<lambda>(t, h). (t, 0, h)) (rot e h)
      else
        (let e2 = tparent (h e) in
         if e2 = 0 then None
         else if tleft (h e2) = e then map_option (\<lambda>(t, h). (tree, e2, set_left e2 t h)) (rot e h)
         else if tright (h e2) = e then map_option (\<lambda>(t, h). (tree, e2, set_right e2 t h)) (rot e h)
         else None))"

definition straighten_left :: "addr \<Rightarrow> theap \<Rightarrow> theap option" where
  "straighten_left e h =
     (let l = tleft (h e) in
      if psync_tree_height h (tright (h l)) > psync_tree_height h (tleft (h l))
      then map_option (\<lambda>(l', h). set_left e l' h) (psync_tree_rotate_left l h)
      else Some h)"

definition rebalance_left :: "addr \<Rightarrow> addr \<Rightarrow> theap \<Rightarrow> (addr \<times> addr \<times> theap) option" where
  "rebalance_left tree e h =
     (if e = 0 \<or> tleft (h e) = 0 then None
      else Option.bind (straighten_left e h) (repoint psync_tree_rotate_right tree e))"

definition straighten_right :: "addr \<Rightarrow> theap \<Rightarrow> theap option" where
  "straighten_right e h =
     (let r = tright (h e) in
      if psync_tree_height h (tleft (h r)) > psync_tree_height h (tright (h r))
      then map_option (\<lambda>(r', h). set_right e r' h) (psync_tree_rotate_right r h)
      else Some h)"

definition rebalance_right :: "addr \<Rightarrow> addr \<Rightarrow> theap \<Rightarrow> (addr \<times> addr \<times> theap) option" where
  "rebalance_right tree e h =
     (if e = 0 \<or> tright (h e) = 0 then None
      else Option.bind (straighten_right e h) (repoint psync_tree_rotate_left tree e))"

partial_function (option) psync_tree_go_up_rebalance_add ::
  "addr \<Rightarrow> addr \<Rightarrow> theap \<Rightarrow> (addr \<times> theap) option" where
  "psync_tree_go_up_rebalance_add tree e h =
     (let lheight = psync_tree_height h (tleft (h e));
          rheight = psync_tree_height h (tright (h e));
          dheight = lheight - rheight
      in if e = 0 then None
         else if dheight = 0 then Some (tree, h)
         else if dheight = 1 \<or> dheight = - 1
         then (let h = set_height e (rheight + (dheight + 1) div 2 + 1) h
               in if tparent (h e) \<noteq> 0
                  then psync_tree_go_up_rebalance_add tree (tparent (h e)) h
                  else if tree = e then Some (tree, h) else None)
         else if dheight = 2
         then map_option (\<lambda>(tree, e2, h). (tree, h)) (rebalance_left tree e h)
         else if dheight = - 2
         then map_option (\<lambda>(tree, e2, h). (tree, h)) (rebalance_right tree e h)
         else None)"

partial_function (option) psync_tree_go_up_rebalance_del ::
  "addr \<Rightarrow> addr \<Rightarrow> theap \<Rightarrow> (addr \<times> theap) option" where
  "psync_tree_go_up_rebalance_del tree e h =
     (let lheight = psync_tree_height h (tleft (h e));
          rheight = psync_tree_height h (tright (h e));
          dheight = lheight - rheight
      in if e = 0 then None
         else if dheight = 0
         then (let h = set_height e (rheight + 1) h
               in if tparent (h e) \<noteq> 0
                  then psync_tree_go_up_rebalance_del tree (tparent (h e)) h
                  else if tree = e then Some (tree, h) else None)
         else if dheight = 1 \<or> dheight = - 1 then Some (tree, h)
         else if dheight = 2
         then Option.bind (rebalance_left tree e h)
                (\<lambda>(tree, e2, h). if e2 = 0 then Some (tree, h)
                                 else psync_tree_go_up_rebalance_del tree e2 h)
         else if dheight = - 2
         then Option.bind (rebalance_right tree e h)
                (\<lambda>(tree, e2, h). if e2 = 0 then Some (tree, h)
                                 else psync_tree_go_up_rebalance_del tree e2 h)
         else None)"

section \<open>Walking\<close>

partial_function (option) go_left :: "theap \<Rightarrow> addr \<Rightarrow> addr option" where
  "go_left h tree = (if tree = 0 then None
     else if tleft (h tree) \<noteq> 0 then go_left h (tleft (h tree)) else Some tree)"

partial_function (option) go_right :: "theap \<Rightarrow> addr \<Rightarrow> addr option" where
  "go_right h tree = (if tree = 0 then None
     else if tright (h tree) \<noteq> 0 then go_right h (tright (h tree)) else Some tree)"

definition psync_tree_get_first :: "theap \<Rightarrow> addr \<Rightarrow> addr option" where
  "psync_tree_get_first h tree = (if tree = 0 then Some tree else go_left h tree)"

definition psync_tree_get_last :: "theap \<Rightarrow> addr \<Rightarrow> addr option" where
  "psync_tree_get_last h tree = (if tree = 0 then Some tree else go_right h tree)"

text \<open>Up as long as one comes from the right, or from the left.\<close>

partial_function (option) up_from_right :: "theap \<Rightarrow> addr \<Rightarrow> addr option" where
  "up_from_right h tree = (if tree = 0 then None
     else if tparent (h tree) \<noteq> 0 \<and> tree = tright (h (tparent (h tree)))
     then up_from_right h (tparent (h tree)) else Some (tparent (h tree)))"

partial_function (option) up_from_left :: "theap \<Rightarrow> addr \<Rightarrow> addr option" where
  "up_from_left h tree = (if tree = 0 then None
     else if tparent (h tree) \<noteq> 0 \<and> tree = tleft (h (tparent (h tree)))
     then up_from_left h (tparent (h tree)) else Some (tparent (h tree)))"

definition psync_tree_get_next :: "theap \<Rightarrow> addr \<Rightarrow> addr option" where
  "psync_tree_get_next h tree =
     (if tree = 0 then None
      else if tright (h tree) \<noteq> 0 then go_left h (tright (h tree)) else up_from_right h tree)"

definition psync_tree_get_prev :: "theap \<Rightarrow> addr \<Rightarrow> addr option" where
  "psync_tree_get_prev h tree =
     (if tree = 0 then None
      else if tleft (h tree) \<noteq> 0 then go_right h (tleft (h tree)) else up_from_left h tree)"

section \<open>Adding\<close>

text \<open>
  The body of \<^verbatim>\<open>psync_tree_get_add_after\<close> and \<^verbatim>\<open>_before\<close> for a given node. The two functions call each
  other when there is none; the first or last node of a non-empty tree is a node, so one call is all.
\<close>

definition add_after_node :: "addr \<Rightarrow> addr \<Rightarrow> addr \<Rightarrow> theap \<Rightarrow> (addr \<times> theap) option" where
  "add_after_node tree node newnode h =
     (let h = psync_tree_init_node newnode h in
      if node = 0 then None
      else Option.bind
        (if tright (h node) \<noteq> 0
         then map_option (\<lambda>m. (m, set_left m newnode h)) (go_left h (tright (h node)))
         else Some (node, set_right node newnode h))
        (\<lambda>(node, h). psync_tree_go_up_rebalance_add tree node (set_parent newnode node h)))"

definition add_before_node :: "addr \<Rightarrow> addr \<Rightarrow> addr \<Rightarrow> theap \<Rightarrow> (addr \<times> theap) option" where
  "add_before_node tree node newnode h =
     (let h = psync_tree_init_node newnode h in
      if node = 0 then None
      else Option.bind
        (if tleft (h node) \<noteq> 0
         then map_option (\<lambda>m. (m, set_right m newnode h)) (go_right h (tleft (h node)))
         else Some (node, set_left node newnode h))
        (\<lambda>(node, h). psync_tree_go_up_rebalance_add tree node (set_parent newnode node h)))"

definition psync_tree_get_add_after :: "addr \<Rightarrow> addr \<Rightarrow> addr \<Rightarrow> theap \<Rightarrow> (addr \<times> theap) option" where
  "psync_tree_get_add_after tree node newnode h =
     (if tree = 0 then Some (newnode, psync_tree_init_node newnode h)
      else if node = 0 then Option.bind (psync_tree_get_first h tree)
                              (\<lambda>first. add_before_node tree first newnode h)
      else add_after_node tree node newnode h)"

definition psync_tree_get_add_before :: "addr \<Rightarrow> addr \<Rightarrow> addr \<Rightarrow> theap \<Rightarrow> (addr \<times> theap) option" where
  "psync_tree_get_add_before tree node newnode h =
     (if tree = 0 then Some (newnode, psync_tree_init_node newnode h)
      else if node = 0 then Option.bind (psync_tree_get_last h tree)
                              (\<lambda>last. add_after_node tree last newnode h)
      else add_before_node tree node newnode h)"

definition psync_tree_get_added_at :: "addr \<Rightarrow> addr \<Rightarrow> addr \<Rightarrow> theap \<Rightarrow> (addr \<times> theap) option" where
  "psync_tree_get_added_at tree parent newnode h =
     (let h = set_parent newnode parent (psync_tree_init_node newnode h) in
      if parent \<noteq> 0 then psync_tree_go_up_rebalance_add tree parent h else Some (tree, h))"

text \<open>Adding by a comparison of the new node with a node of the tree.\<close>

partial_function (option) add_search ::
  "(addr \<Rightarrow> addr \<Rightarrow> int) \<Rightarrow> addr \<Rightarrow> addr \<Rightarrow> addr \<Rightarrow> theap \<Rightarrow> (addr \<times> theap) option" where
  "add_search cmp tree newnode el h =
     (if cmp newnode el < 0
      then if tleft (h el) \<noteq> 0 then add_search cmp tree newnode (tleft (h el)) h
           else psync_tree_get_add_before tree el newnode h
      else if tright (h el) \<noteq> 0 then add_search cmp tree newnode (tright (h el)) h
           else psync_tree_get_add_after tree el newnode h)"

definition psync_tree_get_add ::
  "(addr \<Rightarrow> addr \<Rightarrow> int) \<Rightarrow> addr \<Rightarrow> addr \<Rightarrow> theap \<Rightarrow> (addr \<times> theap) option" where
  "psync_tree_get_add cmp tree newnode h =
     (if tree = 0 then psync_tree_get_add_after tree 0 newnode h
      else add_search cmp tree newnode tree h)"

section \<open>Removing\<close>

definition psync_tree_replace_me_with ::
  "addr \<Rightarrow> addr \<Rightarrow> addr \<Rightarrow> theap \<Rightarrow> (addr \<times> theap) option" where
  "psync_tree_replace_me_with tree node repl h =
     (let parent = tparent (h node) in
      Option.bind
        (if parent = 0 then (if tree = node then Some (repl, h) else None)
         else if node = tleft (h parent) then Some (tree, set_left parent repl h)
         else if node = tright (h parent) then Some (tree, set_right parent repl h)
         else None)
        (\<lambda>(tree, h).
           let h = (if repl \<noteq> 0 then set_parent repl parent h else h) in
           if parent \<noteq> 0 then psync_tree_go_up_rebalance_del tree parent h
           else if tree = 0 then Some (0, h)
           else psync_tree_go_up_rebalance_del tree tree h))"

text \<open>
  Taking the last node of the left subtree, or the first one of the right subtree, out of it: the
  node and the heap. \<^verbatim>\<open>addr\<close> is the link that leads to the node, in \<open>node\<close> itself or in its parent.
\<close>

definition take_last_of_left :: "addr \<Rightarrow> theap \<Rightarrow> (addr \<times> theap) option" where
  "take_last_of_left node h =
     map_option (\<lambda>el.
       let parent = tparent (h el);
           h = (if el = tleft (h node) then set_left node (tleft (h el)) h
                else set_right parent (tleft (h el)) h);
           h = (if tleft (h el) \<noteq> 0 then set_parent (tleft (h el)) parent h else h)
       in (el, h)) (go_right h (tleft (h node)))"

definition take_first_of_right :: "addr \<Rightarrow> theap \<Rightarrow> (addr \<times> theap) option" where
  "take_first_of_right node h =
     map_option (\<lambda>el.
       let parent = tparent (h el);
           h = (if el = tright (h node) then set_right node (tright (h el)) h
                else set_left parent (tright (h el)) h);
           h = (if tright (h el) \<noteq> 0 then set_parent (tright (h el)) parent h else h)
       in (el, h)) (go_left h (tright (h node)))"

text \<open>
  The node \<open>el\<close> takes the place of \<open>node\<close>: its links and height (\<^verbatim>\<open>memcpy\<close>), the parent links of the
  children, and the link that leads to \<open>node\<close> from its parent or from the root.
\<close>

definition reparent :: "addr \<Rightarrow> addr \<Rightarrow> theap \<Rightarrow> theap" where
  "reparent a p h = (if a \<noteq> 0 then set_parent a p h else h)"

definition take_place :: "addr \<Rightarrow> addr \<Rightarrow> addr \<Rightarrow> theap \<Rightarrow> (addr \<times> theap) option" where
  "take_place tree node el h =
     (let h = h(el := h node);
          h = reparent (tleft (h node)) el h;
          h = reparent (tright (h node)) el h
      in if tparent (h node) \<noteq> 0
         then if tleft (h (tparent (h node))) = node then Some (tree, set_left (tparent (h node)) el h)
              else if tright (h (tparent (h node))) = node then Some (tree, set_right (tparent (h node)) el h)
              else None
         else if node = tree then Some (el, h) else None)"

definition psync_tree_get_del :: "addr \<Rightarrow> addr \<Rightarrow> theap \<Rightarrow> (addr \<times> theap) option" where
  "psync_tree_get_del tree node h =
     (if node = 0 then None
      else if tleft (h node) = 0 \<and> tright (h node) = 0 then psync_tree_replace_me_with tree node 0 h
      else if tleft (h node) = 0 then psync_tree_replace_me_with tree node (tright (h node)) h
      else if tright (h node) = 0 then psync_tree_replace_me_with tree node (tleft (h node)) h
      else Option.bind
        (if theight (h (tleft (h node))) > theight (h (tright (h node)))
         then take_last_of_left node h else take_first_of_right node h)
        (\<lambda>(el, h). let parent = tparent (h el); parent = (if parent = node then el else parent) in
           Option.bind (take_place tree node el h)
             (\<lambda>(tree, h). psync_tree_go_up_rebalance_del tree parent h)))"

text \<open>The order of \<^verbatim>\<open>psync_tree_for_each_element_call_safe\<close>: children before their parent.\<close>

partial_function (option) go_leaf :: "theap \<Rightarrow> addr \<Rightarrow> addr option" where
  "go_leaf h tree = (if tree = 0 then None
     else if tleft (h tree) \<noteq> 0 then go_leaf h (tleft (h tree))
     else if tright (h tree) \<noteq> 0 then go_leaf h (tright (h tree)) else Some tree)"

definition psync_tree_get_first_safe :: "theap \<Rightarrow> addr \<Rightarrow> addr option" where
  "psync_tree_get_first_safe h tree = (if tree = 0 then Some tree else go_leaf h tree)"

definition psync_tree_get_next_safe :: "theap \<Rightarrow> addr \<Rightarrow> addr option" where
  "psync_tree_get_next_safe h tree =
     (let p = tparent (h tree) in
      if tree = 0 then None
      else if p = 0 then Some 0
      else if tright (h p) = tree \<or> tright (h p) = 0 then Some p
      else go_leaf h (tright (h p)))"

end
