(* ===== verification/PTreeInv.thy ===== *)
theory PTreeInv
  imports PTree
begin

text \<open>
  Well-formed trees of \<^verbatim>\<open>ptree.c\<close> on the heap: their shape, their balance, the contexts in
  which a subtree hangs, and what the rotations, the way up to the root and the insertion of a node
  do to them.
\<close>

section \<open>Well-formed trees\<close>

fun shape :: "theap \<Rightarrow> addr \<Rightarrow> addr \<Rightarrow> addr tree \<Rightarrow> bool" where
  "shape h q p Leaf \<longleftrightarrow> p = 0"
| "shape h q p (Node l a r) \<longleftrightarrow> p = a \<and> a \<noteq> 0 \<and> tparent (h a) = q
     \<and> shape h a (tleft (h a)) l \<and> shape h a (tright (h a)) r"

abbreviation ht :: "addr tree \<Rightarrow> int" where
  "ht t \<equiv> int (height t)"

fun avl :: "theap \<Rightarrow> addr tree \<Rightarrow> bool" where
  "avl h Leaf \<longleftrightarrow> True"
| "avl h (Node l a r) \<longleftrightarrow> theight (h a) = max (ht l) (ht r) + 1 \<and> \<bar>ht l - ht r\<bar> \<le> 1
     \<and> avl h l \<and> avl h r"

definition tree_at :: "theap \<Rightarrow> addr \<Rightarrow> addr tree \<Rightarrow> bool" where
  "tree_at h root t \<longleftrightarrow> shape h 0 root t \<and> avl h t \<and> distinct (inorder t)"

definition contents :: "theap \<Rightarrow> addr \<Rightarrow> addr list \<Rightarrow> bool" where
  "contents h root xs \<longleftrightarrow> (\<exists>t. tree_at h root t \<and> inorder t = xs)"

definition same_on :: "addr set \<Rightarrow> theap \<Rightarrow> theap \<Rightarrow> bool" where
  "same_on A h h' \<longleftrightarrow> (\<forall>a\<in>A. h' a = h a)"

lemma shape_frame: "shape h q p t \<Longrightarrow> same_on (set_tree t) h h' \<Longrightarrow> shape h' q p t"
  by (induction h q p t rule: shape.induct) (auto simp: same_on_def)

lemma avl_frame: "avl h t \<Longrightarrow> same_on (set_tree t) h h' \<Longrightarrow> avl h' t"
  by (induction h t rule: avl.induct) (auto simp: same_on_def)

lemma shape_not_zero: "shape h q p t \<Longrightarrow> 0 \<notin> set_tree t"
  by (induction h q p t rule: shape.induct) auto

lemma shape_root: "shape h q p t \<Longrightarrow> p = 0 \<longleftrightarrow> t = Leaf"
  by (cases t) auto

lemma shape_root_in: "shape h q p t \<Longrightarrow> p \<noteq> 0 \<Longrightarrow> p \<in> set_tree t"
  by (cases t) auto

lemma avl_height: "avl h t \<Longrightarrow> shape h q p t \<Longrightarrow> psync_tree_height h p = ht t"
  by (cases t) (auto simp: psync_tree_height_def)

text \<open>Setting the parent of the root, or the fields of a node outside.\<close>

lemma shape_upd_other: "a \<notin> set_tree t \<Longrightarrow> shape (h(a := n)) q p t = shape h q p t"
  by (induction t arbitrary: q p) auto

lemma avl_upd_other: "a \<notin> set_tree t \<Longrightarrow> avl (h(a := n)) t = avl h t"
  by (induction t) auto

lemma shape_reparent:
  "shape h q p t \<Longrightarrow> p \<noteq> 0 \<Longrightarrow> distinct (inorder t) \<Longrightarrow> shape (set_parent p q' h) q' p t"
  by (cases t) (auto simp: shape_upd_other)

lemma avl_upd_links:
  "avl (h(a := (h a)\<lparr>tleft := x\<rparr>)) t = avl h t"
  "avl (h(a := (h a)\<lparr>tright := x\<rparr>)) t = avl h t"
  "avl (h(a := (h a)\<lparr>tparent := x\<rparr>)) t = avl h t"
  by (induction t) auto

lemma shape_upd_height: "shape (h(a := (h a)\<lparr>theight := x\<rparr>)) q p t = shape h q p t"
  by (induction t arbitrary: q p) auto

section \<open>Mirror images\<close>

lemma set_tree_mirror [simp]: "set_tree (mirror t) = set_tree t"
  by (induction t) auto

text \<open>Exchanging left and right in the heap turns a rotation into its counterpart.\<close>

definition swap_heap :: "theap \<Rightarrow> theap" where
  "swap_heap h = (\<lambda>a. (h a)\<lparr>tleft := tright (h a), tright := tleft (h a)\<rparr>)"

lemma swap_fields [simp]:
  "tleft (swap_heap h a) = tright (h a)" "tright (swap_heap h a) = tleft (h a)"
  "tparent (swap_heap h a) = tparent (h a)" "theight (swap_heap h a) = theight (h a)"
  by (simp_all add: swap_heap_def)

lemma swap_updates:
  "swap_heap (set_left a x h) = set_right a x (swap_heap h)"
  "swap_heap (set_right a x h) = set_left a x (swap_heap h)"
  "swap_heap (set_parent a x h) = set_parent a x (swap_heap h)"
  "swap_heap (set_height a i h) = set_height a i (swap_heap h)"
  "swap_heap (swap_heap h) = h"
  by (auto simp: swap_heap_def)

lemma swap_height [simp]: "psync_tree_height (swap_heap h) a = psync_tree_height h a"
  by (simp add: psync_tree_height_def)

lemma swap_recalc:
  "psync_tree_recalc_height e (swap_heap h) = swap_heap (psync_tree_recalc_height e h)"
  by (simp add: psync_tree_recalc_height_def swap_updates psync_tree_max_def del: fun_upd_apply)

lemma rotate_left_mirror:
  "psync_tree_rotate_left e h
     = map_option (\<lambda>(t, h). (t, swap_heap h)) (psync_tree_rotate_right e (swap_heap h))"
  by (simp add: psync_tree_rotate_left_def psync_tree_rotate_right_def Let_def swap_updates(5)
      swap_updates(1-4) [symmetric] swap_recalc if_distrib [of swap_heap] del: fun_upd_apply)

lemma shape_mirror: "shape (swap_heap h) q p (mirror t) = shape h q p t"
  by (induction t arbitrary: q p) auto

lemma avl_mirror: "avl (swap_heap h) (mirror t) = avl h t"
  by (induction t) (auto simp: max.commute abs_minus_commute)

section \<open>Rotations\<close>

text \<open>The heap after a rotation to the right, as a few updates.\<close>

lemma rotate_right_heap:
  assumes "shape h q e (Node (Node ll b lr) e r)" "avl h ll" "avl h lr" "avl h r"
    and "distinct (inorder (Node (Node ll b lr) e r))"
  defines "c \<equiv> tright (h b)"
  defines "h1 \<equiv> (if c \<noteq> 0 then set_parent c e h else h)"
  shows "psync_tree_rotate_right e h = Some (b,
    h1(e := \<lparr>tleft = c, tright = tright (h e), tparent = b, theight = max (ht lr) (ht r) + 1\<rparr>,
       b := \<lparr>tleft = tleft (h b), tright = e, tparent = q,
             theight = max (ht ll) (max (ht lr) (ht r) + 1) + 1\<rparr>))"
proof -
  have s: "tleft (h e) = b" "tright (h b) = c" "tparent (h e) = q" "e \<noteq> 0" "b \<noteq> 0" "b \<noteq> e"
    "shape h b (tleft (h b)) ll" "shape h b c lr" "shape h e (tright (h e)) r"
    using assms(1,5) by (auto simp: c_def)
  have "psync_tree_height h (tleft (h b)) = ht ll" "psync_tree_height h c = ht lr"
    "psync_tree_height h (tright (h e)) = ht r"
    using s(7-9) assms(2-4) by (auto intro: avl_height)
  then have hts: "tleft (h b) \<noteq> 0 \<Longrightarrow> theight (h (tleft (h b))) = ht ll"
    "tleft (h b) = 0 \<Longrightarrow> ht ll = 0"
    "c \<noteq> 0 \<Longrightarrow> theight (h c) = ht lr" "c = 0 \<Longrightarrow> ht lr = 0"
    "tright (h e) \<noteq> 0 \<Longrightarrow> theight (h (tright (h e))) = ht r" "tright (h e) = 0 \<Longrightarrow> ht r = 0"
    by (auto simp: psync_tree_height_def)
  have ne: "c \<noteq> e" "c \<noteq> b" "tleft (h b) \<noteq> e" "tleft (h b) \<noteq> b" "tright (h e) \<noteq> b"
    "tright (h e) \<noteq> e" "c \<noteq> 0 \<Longrightarrow> tleft (h b) \<noteq> c" "c \<noteq> 0 \<Longrightarrow> tright (h e) \<noteq> c"
    using s assms(5) shape_root_in [OF s(7)] shape_root_in [OF s(8)] shape_root_in [OF s(9)] by auto
  show ?thesis
  proof (cases "c = 0")
    case True
    have "psync_tree_rotate_right e h = Some (b, (h
        (b := (h b)\<lparr>tparent := q\<rparr>, e := (h e)\<lparr>tleft := 0, theight := ht r + 1, tparent := b\<rparr>,
         b := (h b)\<lparr>tparent := q, tright := e, theight := max (ht ll) (ht r + 1) + 1\<rparr>)))"
      unfolding psync_tree_rotate_right_def
      using s ne hts(1,2,5,6) True
      by (auto simp: Let_def psync_tree_recalc_height_def psync_tree_height_def psync_tree_max_def max_def)
    then show ?thesis using True hts(4) by (auto simp: h1_def fun_eq_iff)
  next
    case False
    define m where "m = max (ht lr) (ht r) + 1"
    define g where "g = h(b := (h b)\<lparr>tparent := q\<rparr>, e := (h e)\<lparr>tleft := c\<rparr>, c := (h c)\<lparr>tparent := e\<rparr>)"
    define k where "k = g(e := (h e)\<lparr>tleft := c, theight := m, tparent := b\<rparr>,
        b := (h b)\<lparr>tparent := q, tright := e\<rparr>)"
    have g: "g e = (h e)\<lparr>tleft := c\<rparr>" "g b = (h b)\<lparr>tparent := q\<rparr>" "g c = (h c)\<lparr>tparent := e\<rparr>"
      "tright (h e) \<noteq> 0 \<Longrightarrow> g (tright (h e)) = h (tright (h e))"
      "tleft (h b) \<noteq> 0 \<Longrightarrow> g (tleft (h b)) = h (tleft (h b))"
      unfolding g_def using ne s(6) False by simp_all
    have 1: "psync_tree_recalc_height e g = g(e := (h e)\<lparr>tleft := c, theight := m\<rparr>)"
      using g hts(3,5,6) False
      by (cases "tright (h e) = 0")
         (simp_all add: psync_tree_recalc_height_def psync_tree_height_def psync_tree_max_def m_def max_def)
    have k: "k e = (h e)\<lparr>tleft := c, theight := m, tparent := b\<rparr>"
      "k b = (h b)\<lparr>tparent := q, tright := e\<rparr>"
      "tleft (h b) \<noteq> 0 \<Longrightarrow> k (tleft (h b)) = h (tleft (h b))"
      unfolding k_def using ne s(6) g(5) by simp_all
    have 2: "psync_tree_recalc_height b k
        = k(b := (h b)\<lparr>tparent := q, tright := e, theight := max (ht ll) m + 1\<rparr>)"
      using k hts(1,2) s(4)
      by (cases "tleft (h b) = 0")
         (simp_all add: psync_tree_recalc_height_def psync_tree_height_def psync_tree_max_def max_def)
    have "psync_tree_rotate_right e h = Some (b, psync_tree_recalc_height b
        (set_right b e (set_parent e b (psync_tree_recalc_height e g))))"
      unfolding psync_tree_rotate_right_def using s(1-6) ne False by (simp add: Let_def g_def)
    also have "set_right b e (set_parent e b (psync_tree_recalc_height e g)) = k"
      unfolding 1 k_def using g(2) s(6) by (simp add: fun_eq_iff)
    finally show ?thesis
      unfolding 2 using False ne s(6)
      by (auto simp: h1_def fun_eq_iff k_def g_def m_def [symmetric])
  qed
qed

lemma same_on_trans: "same_on A h h' \<Longrightarrow> same_on A h' h'' \<Longrightarrow> same_on A h h''"
  by (simp add: same_on_def)

lemma same_on_mono: "same_on B h h' \<Longrightarrow> A \<subseteq> B \<Longrightarrow> same_on A h h'"
  by (auto simp: same_on_def)

lemma same_on_refl [simp]: "same_on A h h"
  by (simp add: same_on_def)

text \<open>
  A rotation changes nothing outside of the tree it turns; the parent's link to it is left alone.
\<close>

lemma rotate_right_correct:
  assumes t: "shape h q e (Node (Node ll b lr) e r)" "avl h ll" "avl h lr" "avl h r"
    and d: "distinct (inorder (Node (Node ll b lr) e r))"
  obtains h' where "psync_tree_rotate_right e h = Some (b, h')"
    "shape h' q b (Node ll b (Node lr e r))" "avl h' ll" "avl h' lr" "avl h' r"
    "theight (h' e) = max (ht lr) (ht r) + 1"
    "theight (h' b) = max (ht ll) (max (ht lr) (ht r) + 1) + 1"
    "same_on (- set_tree (Node (Node ll b lr) e r)) h h'"
proof
  define c where "c = tright (h b)"
  define h1 where "h1 = (if c \<noteq> 0 then set_parent c e h else h)"
  define h' where "h' = h1(e := \<lparr>tleft = c, tright = tright (h e), tparent = b,
      theight = max (ht lr) (ht r) + 1\<rparr>,
    b := \<lparr>tleft = tleft (h b), tright = e, tparent = q,
          theight = max (ht ll) (max (ht lr) (ht r) + 1) + 1\<rparr>)"
  show "psync_tree_rotate_right e h = Some (b, h')"
    unfolding h'_def h1_def c_def by (rule rotate_right_heap [OF t d])
  have s: "e \<noteq> 0" "b \<noteq> 0" "shape h b (tleft (h b)) ll" "shape h b c lr" "shape h e (tright (h e)) r"
    using t(1) by (auto simp: c_def)
  have c: "c \<noteq> 0 \<Longrightarrow> c \<in> set_tree lr" "c = 0 \<Longrightarrow> lr = Leaf"
    using shape_root_in [OF s(4)] shape_root [OF s(4)] by auto
  have "shape h1 e c lr"
    unfolding h1_def using s(4) c d by (auto intro: shape_reparent)
  moreover have "c \<noteq> 0 \<Longrightarrow> c \<notin> set_tree ll" "c \<noteq> 0 \<Longrightarrow> c \<notin> set_tree r"
    using c(1) d by auto
  then have "shape h1 b (tleft (h b)) ll" "shape h1 e (tright (h e)) r"
    unfolding h1_def using s(3,5) by (simp_all add: shape_upd_other)
  ultimately show "shape h' q b (Node ll b (Node lr e r))"
    unfolding h'_def using s(1,2) d by (auto simp: shape_upd_other)
  have "avl h1 ll" "avl h1 lr" "avl h1 r"
    unfolding h1_def using t(2-4) by (auto simp: avl_upd_links)
  then show "avl h' ll" "avl h' lr" "avl h' r"
    unfolding h'_def using d by (auto simp: avl_upd_other)
  show "theight (h' e) = max (ht lr) (ht r) + 1"
    "theight (h' b) = max (ht ll) (max (ht lr) (ht r) + 1) + 1"
    unfolding h'_def using d by auto
  show "same_on (- set_tree (Node (Node ll b lr) e r)) h h'"
    unfolding h'_def h1_def same_on_def using c by auto
qed

lemma rotate_left_correct:
  assumes t: "shape h q e (Node l e (Node rl b rr))" "avl h l" "avl h rl" "avl h rr"
    and d: "distinct (inorder (Node l e (Node rl b rr)))"
  obtains h' where "psync_tree_rotate_left e h = Some (b, h')"
    "shape h' q b (Node (Node l e rl) b rr)" "avl h' l" "avl h' rl" "avl h' rr"
    "theight (h' e) = max (ht l) (ht rl) + 1"
    "theight (h' b) = max (max (ht l) (ht rl) + 1) (ht rr) + 1"
    "same_on (- set_tree (Node l e (Node rl b rr))) h h'"
proof -
  have m: "shape (swap_heap h) q e (Node (Node (mirror rr) b (mirror rl)) e (mirror l))"
    using t(1) shape_mirror [of h q e "Node l e (Node rl b rr)"] by simp
  have d': "distinct (inorder (Node (Node (mirror rr) b (mirror rl)) e (mirror l)))"
    using d by (auto simp: inorder_mirror)
  obtain g where g: "psync_tree_rotate_right e (swap_heap h) = Some (b, g)"
    "shape g q b (Node (mirror rr) b (Node (mirror rl) e (mirror l)))"
    "avl g (mirror rr)" "avl g (mirror rl)" "avl g (mirror l)"
    "theight (g e) = max (ht rl) (ht l) + 1"
    "theight (g b) = max (ht rr) (max (ht rl) (ht l) + 1) + 1"
    "same_on (- set_tree (Node (Node (mirror rr) b (mirror rl)) e (mirror l))) (swap_heap h) g"
    by (rule rotate_right_correct [OF m _ _ _ d']) (use t in \<open>simp_all add: avl_mirror\<close>)
  show thesis
  proof (rule that [of "swap_heap g"])
    show "psync_tree_rotate_left e h = Some (b, swap_heap g)"
      by (simp add: rotate_left_mirror g(1))
    show "shape (swap_heap g) q b (Node (Node l e rl) b rr)"
      using shape_mirror [of "swap_heap g" q b "Node (Node l e rl) b rr"] g(2)
      by (simp add: swap_updates(5))
    show "avl (swap_heap g) l" "avl (swap_heap g) rl" "avl (swap_heap g) rr"
      using g(3-5) avl_mirror [of "swap_heap g"] by (simp_all add: swap_updates(5))
    show "same_on (- set_tree (Node l e (Node rl b rr))) h (swap_heap g)"
      using g(8) by (auto simp: same_on_def swap_heap_def)
  qed (simp_all add: g(6,7) max.commute)
qed

section \<open>Contexts\<close>

text \<open>
  The way from a subtree up to the root, innermost step first: the subtree is the left child of a
  node with this right child, or the right child of a node with this left child.
\<close>

datatype step = InLeft addr "addr tree" | InRight "addr tree" addr

fun plug :: "step list \<Rightarrow> addr tree \<Rightarrow> addr tree" where
  "plug [] t = t"
| "plug (InLeft a r # c) t = plug c (Node t a r)"
| "plug (InRight l a # c) t = plug c (Node l a t)"

fun cshape :: "theap \<Rightarrow> addr \<Rightarrow> step list \<Rightarrow> addr \<Rightarrow> addr \<Rightarrow> bool" where
  "cshape h root [] p q \<longleftrightarrow> q = 0 \<and> root = p"
| "cshape h root (InLeft a r # c) p q \<longleftrightarrow> q = a \<and> a \<noteq> 0 \<and> tleft (h a) = p
     \<and> shape h a (tright (h a)) r \<and> cshape h root c a (tparent (h a))"
| "cshape h root (InRight l a # c) p q \<longleftrightarrow> q = a \<and> a \<noteq> 0 \<and> tright (h a) = p
     \<and> shape h a (tleft (h a)) l \<and> cshape h root c a (tparent (h a))"

fun cavl :: "theap \<Rightarrow> step list \<Rightarrow> int \<Rightarrow> bool" where
  "cavl h [] n \<longleftrightarrow> True"
| "cavl h (InLeft a r # c) n \<longleftrightarrow> theight (h a) = max n (ht r) + 1 \<and> \<bar>n - ht r\<bar> \<le> 1 \<and> avl h r
     \<and> cavl h c (1 + max n (ht r))"
| "cavl h (InRight l a # c) n \<longleftrightarrow> theight (h a) = max (ht l) n + 1 \<and> \<bar>ht l - n\<bar> \<le> 1 \<and> avl h l
     \<and> cavl h c (1 + max (ht l) n)"

fun cpre :: "step list \<Rightarrow> addr list" where
  "cpre [] = []"
| "cpre (InLeft a r # c) = cpre c"
| "cpre (InRight l a # c) = cpre c @ inorder l @ [a]"

fun cpost :: "step list \<Rightarrow> addr list" where
  "cpost [] = []"
| "cpost (InLeft a r # c) = a # inorder r @ cpost c"
| "cpost (InRight l a # c) = cpost c"

abbreviation cnodes :: "step list \<Rightarrow> addr set" where
  "cnodes c \<equiv> set (cpre c) \<union> set (cpost c)"

lemma inorder_plug: "inorder (plug c t) = cpre c @ inorder t @ cpost c"
  by (induction c t rule: plug.induct) auto

lemma set_plug: "set_tree (plug c t) = cnodes c \<union> set_tree t"
  unfolding set_inorder [symmetric] inorder_plug by auto

lemma plug_append: "plug (c @ c') t = plug c' (plug c t)"
  by (induction c t rule: plug.induct) auto

lemma cpre_append: "cpre (c @ c') = cpre c' @ cpre c"
  by (induction c rule: cpre.induct) auto

lemma cpost_append: "cpost (c @ c') = cpost c @ cpost c'"
  by (induction c rule: cpost.induct) auto

lemma shape_plug: "shape h 0 root (plug c t) \<longleftrightarrow> (\<exists>p q. cshape h root c p q \<and> shape h q p t)"
  by (induction c t rule: plug.induct) auto

lemma avl_plug: "avl h (plug c t) \<longleftrightarrow> avl h t \<and> cavl h c (ht t)"
  by (induction c t rule: plug.induct) (auto simp: of_nat_max)

lemma cshape_frame: "cshape h root c p q \<Longrightarrow> same_on (cnodes c) h h' \<Longrightarrow> cshape h' root c p q"
  by (induction h root c p q rule: cshape.induct) (auto simp: same_on_def intro: shape_frame)

lemma cavl_frame: "cavl h c n \<Longrightarrow> same_on (cnodes c) h h' \<Longrightarrow> cavl h' c n"
  by (induction h c n rule: cavl.induct) (auto simp: same_on_def intro: avl_frame)

lemma cshape_upd_other: "a \<notin> cnodes c \<Longrightarrow> cshape (h(a := n)) root c p q = cshape h root c p q"
  by (induction h root c p q rule: cshape.induct) (auto simp: shape_upd_other)

lemma cavl_upd_links:
  "cavl (h(a := (h a)\<lparr>tleft := x\<rparr>)) c n = cavl h c n"
  "cavl (h(a := (h a)\<lparr>tright := x\<rparr>)) c n = cavl h c n"
  "cavl (h(a := (h a)\<lparr>tparent := x\<rparr>)) c n = cavl h c n"
  by (induction h c n rule: cavl.induct) (auto simp: avl_upd_links)

lemma cshape_root: "cshape h root c p q \<Longrightarrow> c \<noteq> [] \<Longrightarrow> root \<in> cnodes c"
  by (induction h root c p q rule: cshape.induct) (auto, (metis cshape.simps(1))+)

lemma repoint_correct:
  assumes c: "cshape h root c e q" and t: "shape h q e t" "t \<noteq> Leaf"
    and d: "distinct (inorder (plug c t))"
    and rot: "rot e h = Some (b, h1)" "shape h1 q b t'" "same_on (- set_tree t) h h1"
    and t': "set_tree t' = set_tree t"
  obtains root' h' where "repoint rot root e h = Some (root', q, h')" "cshape h' root' c b q"
    "shape h' q b t'" "avl h' = avl h1" "\<And>n. cavl h c n \<Longrightarrow> cavl h' c n"
    "same_on (- set_tree (plug c t)) h h'"
proof -
  have dis: "cnodes c \<inter> set_tree t = {}" "distinct (cpre c @ cpost c)"
    using d by (auto simp: inorder_plug)
  have e: "e \<in> set_tree t" using t shape_root_in shape_root by blast
  have sub: "same_on (cnodes c) h h1" using dis by (intro same_on_mono [OF rot(3)]) auto
  note c1 = cshape_frame [OF c sub]
  have cav: "cavl h1 c n" if "cavl h c n" for n using that sub by (rule cavl_frame)
  have same: "same_on (- set_tree (plug c t)) h h1"
    using rot(3) by (rule same_on_mono) (simp add: set_plug)
  have up: "tparent (h e) = q" using t by (cases t) auto
  have ne: "c \<noteq> [] \<Longrightarrow> e \<noteq> root" using cshape_root [OF c] e dis by auto
  show thesis
  proof (cases c)
    case Nil
    then show thesis
      using that [of b h1] c c1 rot same cav by (simp add: repoint_def)
  next
    case (Cons x c')
    show thesis
    proof (cases x)
      case (InLeft a r)
      note c = c [unfolded Cons InLeft] and c1 = c1 [unfolded Cons InLeft]
      have a: "a \<notin> cnodes c'" "a \<notin> set_tree r" "a \<notin> set_tree t"
        using dis by (auto simp: Cons InLeft)
      show thesis
      proof (rule that [of root "set_left a b h1"])
        show "repoint rot root e h = Some (root, q, set_left a b h1)"
          using c ne rot(1) up by (simp add: repoint_def Let_def Cons)
        show "cshape (set_left a b h1) root c b q"
          using c1 a by (simp add: Cons InLeft cshape_upd_other shape_upd_other)
        show "shape (set_left a b h1) q b t'"
          using rot(2) a t' by (simp add: shape_upd_other)
        show "avl (set_left a b h1) = avl h1" by (simp add: fun_eq_iff avl_upd_links)
        show "cavl (set_left a b h1) c n" if "cavl h c n" for n
          using cav [OF that] by (simp add: cavl_upd_links)
        show "same_on (- set_tree (plug c t)) h (set_left a b h1)"
          using same by (auto simp: same_on_def set_plug Cons InLeft)
      qed
    next
      case (InRight l a)
      note c = c [unfolded Cons InRight] and c1 = c1 [unfolded Cons InRight]
      have a: "a \<notin> cnodes c'" "a \<notin> set_tree l" "a \<notin> set_tree t" "e \<notin> set_tree l"
        using dis e by (auto simp: Cons InRight)
      have "e \<noteq> 0" using e shape_not_zero [OF t(1)] by metis
      then have "tleft (h a) \<noteq> e"
        using c a(4) shape_root_in [of h a "tleft (h a)" l] by auto
      show thesis
      proof (rule that [of root "set_right a b h1"])
        show "repoint rot root e h = Some (root, q, set_right a b h1)"
          using c ne rot(1) up \<open>tleft (h a) \<noteq> e\<close> by (simp add: repoint_def Let_def Cons)
        show "cshape (set_right a b h1) root c b q"
          using c1 a by (simp add: Cons InRight cshape_upd_other shape_upd_other)
        show "shape (set_right a b h1) q b t'"
          using rot(2) a t' by (simp add: shape_upd_other)
        show "avl (set_right a b h1) = avl h1" by (simp add: fun_eq_iff avl_upd_links)
        show "cavl (set_right a b h1) c n" if "cavl h c n" for n
          using cav [OF that] by (simp add: cavl_upd_links)
        show "same_on (- set_tree (plug c t)) h (set_right a b h1)"
          using same by (auto simp: same_on_def set_plug Cons InRight)
      qed
    qed
  qed
qed

section \<open>Rebalancing\<close>

text \<open>A tree leans when its two subtrees have different heights.\<close>

fun lean :: "addr tree \<Rightarrow> bool" where
  "lean Leaf \<longleftrightarrow> False"
| "lean (Node l a r) \<longleftrightarrow> height l \<noteq> height r"

lemma height_pos_Node: "0 < ht t \<Longrightarrow> \<exists>l a r. t = Node l a r"
  by (cases t) auto

lemma straighten_left_correct:
  assumes t: "shape h q e (Node l e r)" "avl h l" "avl h r" and d: "distinct (inorder (Node l e r))"
    and hl: "ht l = ht r + 2"
  obtains k t2 b m t' where "straighten_left e h = Some k" "shape k q e t2"
    "psync_tree_rotate_right e k = Some (b, m)" "shape m q b t'" "avl m t'"
    "inorder t2 = inorder (Node l e r)" "inorder t' = inorder (Node l e r)"
    "ht t' = ht l + (if lean l then 0 else 1)"
    "same_on (- set_tree (Node l e r)) h k" "same_on (- set_tree (Node l e r)) k m"
proof -
  obtain a x b where l: "l = Node a x b" using height_pos_Node [of l] hl by auto
  have s: "e \<noteq> 0" "x \<noteq> 0" "tleft (h e) = x" "tparent (h e) = q" "shape h e x l" "shape h x (tleft (h x)) a"
    "shape h x (tright (h x)) b" "shape h e (tright (h e)) r" "avl h a" "avl h b"
    using t by (auto simp: l)
  have hts: "psync_tree_height h (tleft (h x)) = ht a" "psync_tree_height h (tright (h x)) = ht b"
    using s by (auto intro: avl_height)
  show thesis
  proof (cases "ht b > ht a")
    case False
    obtain g where g: "psync_tree_rotate_right e h = Some (x, g)" "shape g q x (Node a x (Node b e r))"
      "avl g a" "avl g b" "avl g r" "theight (g e) = max (ht b) (ht r) + 1"
      "theight (g x) = max (ht a) (max (ht b) (ht r) + 1) + 1" "same_on (- set_tree (Node l e r)) h g"
      by (rule rotate_right_correct [OF t(1)[unfolded l] s(9,10) t(3) d[unfolded l]]) (simp add: l)
    have "avl g (Node a x (Node b e r)) \<and> ht (Node a x (Node b e r)) = ht l + (if lean l then 0 else 1)"
      using g t(2) False hl by (auto simp: l max_def split: if_splits)
    moreover have "straighten_left e h = Some h"
      using False s(3) hts by (simp add: straighten_left_def)
    ultimately show thesis
      using that [of h "Node l e r" x g "Node a x (Node b e r)"] t(1) g by (auto simp: l)
  next
    case True
    then obtain b1 y b2 where b: "b = Node b1 y b2" using height_pos_Node [of b] by auto
    have dl: "distinct (inorder (Node a x (Node b1 y b2)))" using d by (auto simp: l b)
    obtain g where g: "psync_tree_rotate_left x h = Some (y, g)" "shape g e y (Node (Node a x b1) y b2)"
      "avl g a" "avl g b1" "avl g b2" "theight (g x) = max (ht a) (ht b1) + 1"
      "theight (g y) = max (max (ht a) (ht b1) + 1) (ht b2) + 1" "same_on (- set_tree l) h g"
      by (rule rotate_left_correct [OF s(5)[unfolded l b] s(9) _ _ dl])
         (use s(10) in \<open>simp_all add: l b\<close>)
    define k where "k = set_left e y g"
    define t2 where "t2 = Node (Node (Node a x b1) y b2) e r"
    have ge: "g e = h e" "e \<notin> set_tree l" using g(8) d by (auto simp: same_on_def)
    have "same_on (set_tree r) h g" using d by (intro same_on_mono [OF g(8)]) auto
    then have "shape g e (tright (h e)) r" "avl g r" using s(8) t(3) by (auto intro: shape_frame avl_frame)
    then have t2: "shape k q e t2" "avl k a" "avl k b1" "avl k b2" "avl k r" "k x = g x"
      unfolding k_def t2_def using g(2-5) ge s(1,4) d
      by (auto simp: l b shape_upd_other avl_upd_other)
    have hk: "same_on (- set_tree (Node l e r)) h k"
      using g(8) by (auto simp: k_def same_on_def)
    have d2: "inorder t2 = inorder (Node l e r)" "set_tree t2 = set_tree (Node l e r)"
      by (auto simp: t2_def l b)
    have av: "avl k (Node a x b1)"
      using t2 g(6) t(2) True by (auto simp: l b max_def split: if_splits)
    obtain m where m: "psync_tree_rotate_right e k = Some (y, m)"
      "shape m q y (Node (Node a x b1) y (Node b2 e r))"
      "avl m (Node a x b1)" "avl m b2" "avl m r" "theight (m e) = max (ht b2) (ht r) + 1"
      "theight (m y) = max (ht (Node a x b1)) (max (ht b2) (ht r) + 1) + 1"
      "same_on (- set_tree t2) k m"
      by (rule rotate_right_correct [OF t2(1)[unfolded t2_def] av t2(4,5)])
         (use d2(1) d in \<open>simp_all only: t2_def\<close>)
    have n: "ht r = ht a" "max (ht b1) (ht b2) = ht a" "lean l" "ht l = ht a + 2" "ht b1 \<le> ht a"
      "ht b2 \<le> ht a" "\<bar>ht b1 - ht b2\<bar> \<le> 1"
      using t(2) True hl by (auto simp: l b)
    then have n2: "ht (Node a x b1) = ht a + 1" "ht (Node b2 e r) = ht a + 1" by auto
    moreover have "\<bar>ht b2 - ht r\<bar> \<le> 1" using n(1,2,7) by linarith
    ultimately have "theight (m e) = ht a + 1" "theight (m y) = ht a + 2" "\<bar>ht b2 - ht r\<bar> \<le> 1"
      using m(6,7) by auto
    then have "avl m (Node (Node a x b1) y (Node b2 e r))
      \<and> ht (Node (Node a x b1) y (Node b2 e r)) = ht l + (if lean l then 0 else 1)"
      using m(3-5) n n2 by auto
    moreover have "straighten_left e h = Some k"
      using True s(3) hts g(1) by (simp add: straighten_left_def k_def)
    moreover have "same_on (- set_tree (Node l e r)) k m" using m(8) unfolding d2(2) .
    ultimately show thesis
      using that [OF _ t2(1) m(1,2)] hk d2(1) by (auto simp: l b)
  qed
qed

lemma straighten_right_mirror:
  "straighten_right e h = map_option swap_heap (straighten_left e (swap_heap h))"
proof -
  have "psync_tree_rotate_right a h = map_option (\<lambda>(t, h). (t, swap_heap h)) (psync_tree_rotate_left a (swap_heap h))"
    for a h by (cases "psync_tree_rotate_right a h") (auto simp: rotate_left_mirror swap_updates(5))
  then show ?thesis
    by (simp add: straighten_right_def straighten_left_def Let_def option.map_comp comp_def split_def
        swap_updates del: fun_upd_apply)
qed

lemma straighten_right_correct:
  assumes t: "shape h q e (Node l e r)" "avl h l" "avl h r" and d: "distinct (inorder (Node l e r))"
    and hr: "ht r = ht l + 2"
  obtains k t2 b m t' where "straighten_right e h = Some k" "shape k q e t2"
    "psync_tree_rotate_left e k = Some (b, m)" "shape m q b t'" "avl m t'"
    "inorder t2 = inorder (Node l e r)" "inorder t' = inorder (Node l e r)"
    "ht t' = ht r + (if lean r then 0 else 1)"
    "same_on (- set_tree (Node l e r)) h k" "same_on (- set_tree (Node l e r)) k m"
proof -
  have m: "shape (swap_heap h) q e (Node (mirror r) e (mirror l))"
    using t(1) shape_mirror [of h q e "Node l e r"] by simp
  obtain k t2 b g t' where g: "straighten_left e (swap_heap h) = Some k" "shape k q e t2"
    "psync_tree_rotate_right e k = Some (b, g)" "shape g q b t'" "avl g t'"
    "inorder t2 = inorder (Node (mirror r) e (mirror l))" "inorder t' = inorder (Node (mirror r) e (mirror l))"
    "ht t' = ht (mirror r) + (if lean (mirror r) then 0 else 1)"
    "same_on (- set_tree (Node (mirror r) e (mirror l))) (swap_heap h) k"
    "same_on (- set_tree (Node (mirror r) e (mirror l))) k g"
    by (rule straighten_left_correct [OF m]) (use t d hr in \<open>auto simp: avl_mirror inorder_mirror\<close>)
  have inv: "mirror (mirror t) = t" for t :: "addr tree" by (induction t) auto
  have lm: "lean (mirror r) = lean r" by (cases r) auto
  show thesis
  proof (rule that [of "swap_heap k" "mirror t2" b "swap_heap g" "mirror t'"])
    show "straighten_right e h = Some (swap_heap k)" by (simp add: straighten_right_mirror g(1))
    show "shape (swap_heap k) q e (mirror t2)" "shape (swap_heap g) q b (mirror t')"
      using g(2,4) by (simp_all add: shape_mirror)
    show "psync_tree_rotate_left e (swap_heap k) = Some (b, swap_heap g)"
      by (simp add: rotate_left_mirror swap_updates(5) g(3))
    show "avl (swap_heap g) (mirror t')" using g(5) by (simp add: avl_mirror)
    show "inorder (mirror t2) = inorder (Node l e r)" "inorder (mirror t') = inorder (Node l e r)"
      using g(6,7) by (simp_all add: inorder_mirror)
    show "ht (mirror t') = ht r + (if lean r then 0 else 1)" using g(8) lm by simp
    show "same_on (- set_tree (Node l e r)) h (swap_heap k)"
      "same_on (- set_tree (Node l e r)) (swap_heap k) (swap_heap g)"
      using g(9,10) by (auto simp: same_on_def swap_heap_def)
  qed
qed

lemma repoint_in_context:
  assumes c: "cshape h root c e q" and d: "distinct (inorder (plug c t))" and t: "t \<noteq> Leaf"
    and k: "shape k q e t2" "rot e k = Some (b, m)" "shape m q b t'" "avl m t'"
      "inorder t2 = inorder t" "inorder t' = inorder t"
      "same_on (- set_tree t) h k" "same_on (- set_tree t) k m"
  obtains root' h' where "repoint rot root e k = Some (root', q, h')" "cshape h' root' c b q"
    "shape h' q b t'" "avl h' t'" "\<And>n. cavl h c n \<Longrightarrow> cavl h' c n"
    "same_on (- set_tree (plug c t)) h h'"
proof -
  have set: "set_tree t2 = set_tree t" "set_tree t' = set_tree t"
    using k(5,6) by (metis set_inorder)+
  have dis: "cnodes c \<inter> set_tree t = {}" using d by (auto simp: inorder_plug)
  have sub: "same_on (cnodes c) h k" using dis by (intro same_on_mono [OF k(7)]) auto
  have t2: "t2 \<noteq> Leaf" using k(5) t by (cases t) auto
  have d2: "distinct (inorder (plug c t2))" using d k(5) by (simp add: inorder_plug)
  obtain root' h' where R: "repoint rot root e k = Some (root', q, h')" "cshape h' root' c b q"
    "shape h' q b t'" "avl h' = avl m" "\<And>n. cavl k c n \<Longrightarrow> cavl h' c n"
    "same_on (- set_tree (plug c t2)) k h'"
    by (rule repoint_correct [where rot = rot, OF cshape_frame [OF c sub] k(1) t2 d2 k(2,3)])
       (use k(8) set in simp_all)
  have "same_on (- set_tree (plug c t)) h h'"
  proof (rule same_on_trans)
    show "same_on (- set_tree (plug c t)) h k" by (rule same_on_mono [OF k(7)]) (auto simp: set_plug)
    show "same_on (- set_tree (plug c t)) k h'" using R(6) by (simp add: set_plug set)
  qed
  then show thesis
    using that [OF R(1-3)] R(4) k(4) R(5) [OF cavl_frame [OF _ sub]] by simp
qed

text \<open>
  The result of rebalancing at \<open>e\<close>: the subtree has the same nodes in the same order, is balanced, and
  its height is that of the taller child, or one more when that child did not lean.
\<close>

lemma rebalance_left_correct:
  assumes c: "cshape h root c e q" and t: "shape h q e (Node l e r)" "avl h l" "avl h r"
    and d: "distinct (inorder (plug c (Node l e r)))" and hl: "ht l = ht r + 2"
  obtains root' h' b t' where "rebalance_left root e h = Some (root', q, h')"
    "cshape h' root' c b q" "shape h' q b t'" "avl h' t'" "inorder t' = inorder (Node l e r)"
    "ht t' = ht l + (if lean l then 0 else 1)" "\<And>n. cavl h c n \<Longrightarrow> cavl h' c n"
    "same_on (- set_tree (plug c (Node l e r))) h h'"
proof -
  have dt: "distinct (inorder (Node l e r))" using d unfolding inorder_plug distinct_append by blast
  obtain k t2 b m t' where k: "straighten_left e h = Some k" "shape k q e t2"
    "psync_tree_rotate_right e k = Some (b, m)" "shape m q b t'" "avl m t'"
    "inorder t2 = inorder (Node l e r)" "inorder t' = inorder (Node l e r)"
    "ht t' = ht l + (if lean l then 0 else 1)"
    "same_on (- set_tree (Node l e r)) h k" "same_on (- set_tree (Node l e r)) k m"
    by (rule straighten_left_correct [OF t dt hl])
  obtain root' h' where R: "repoint psync_tree_rotate_right root e k = Some (root', q, h')"
    "cshape h' root' c b q" "shape h' q b t'" "avl h' t'" "\<And>n. cavl h c n \<Longrightarrow> cavl h' c n"
    "same_on (- set_tree (plug c (Node l e r))) h h'"
    by (rule repoint_in_context [where rot = psync_tree_rotate_right, OF c d tree.distinct(2) k(2-7,9,10)]) blast
  have "tleft (h e) \<noteq> 0" "e \<noteq> 0" using t hl by (cases l; simp)+
  then show thesis using that [OF _ R(2-4) k(7,8) R(5,6)] R(1) k(1) by (simp add: rebalance_left_def)
qed

lemma rebalance_right_correct:
  assumes c: "cshape h root c e q" and t: "shape h q e (Node l e r)" "avl h l" "avl h r"
    and d: "distinct (inorder (plug c (Node l e r)))" and hr: "ht r = ht l + 2"
  obtains root' h' b t' where "rebalance_right root e h = Some (root', q, h')"
    "cshape h' root' c b q" "shape h' q b t'" "avl h' t'" "inorder t' = inorder (Node l e r)"
    "ht t' = ht r + (if lean r then 0 else 1)" "\<And>n. cavl h c n \<Longrightarrow> cavl h' c n"
    "same_on (- set_tree (plug c (Node l e r))) h h'"
proof -
  have dt: "distinct (inorder (Node l e r))" using d unfolding inorder_plug distinct_append by blast
  obtain k t2 b m t' where k: "straighten_right e h = Some k" "shape k q e t2"
    "psync_tree_rotate_left e k = Some (b, m)" "shape m q b t'" "avl m t'"
    "inorder t2 = inorder (Node l e r)" "inorder t' = inorder (Node l e r)"
    "ht t' = ht r + (if lean r then 0 else 1)"
    "same_on (- set_tree (Node l e r)) h k" "same_on (- set_tree (Node l e r)) k m"
    by (rule straighten_right_correct [OF t dt hr])
  obtain root' h' where R: "repoint psync_tree_rotate_left root e k = Some (root', q, h')"
    "cshape h' root' c b q" "shape h' q b t'" "avl h' t'" "\<And>n. cavl h c n \<Longrightarrow> cavl h' c n"
    "same_on (- set_tree (plug c (Node l e r))) h h'"
    by (rule repoint_in_context [where rot = psync_tree_rotate_left, OF c d tree.distinct(2) k(2-7,9,10)]) blast
  have "tright (h e) \<noteq> 0" "e \<noteq> 0" using t hr by (cases r; simp)+
  then show thesis using that [OF _ R(2-4) k(7,8) R(5,6)] R(1) k(1) by (simp add: rebalance_right_def)
qed

text \<open>
  Going up after an insertion. The subtree at \<open>e\<close> had height \<open>n\<close>, which its node and the nodes above
  still record; one of its children has grown by one, and leans if it is now the taller by two.
\<close>

definition grown :: "addr tree \<Rightarrow> addr tree \<Rightarrow> int \<Rightarrow> bool" where
  "grown l r n \<longleftrightarrow> (ht l = ht r \<and> n = ht l + 1)
     \<or> (ht l = ht r + 1 \<and> n = ht l) \<or> (ht r = ht l + 1 \<and> n = ht r)
     \<or> (ht l = ht r + 2 \<and> n = ht l \<and> lean l) \<or> (ht r = ht l + 2 \<and> n = ht r \<and> lean r)"

lemma rebuild:
  assumes "cshape h root c p q" "shape h q p t" "avl h t" "cavl h c (ht t)" "distinct (inorder (plug c t))"
  shows "tree_at h root (plug c t)"
  unfolding tree_at_def using assms shape_plug avl_plug by blast

lemma set_height_links:
  "tleft ((h(a := (h a)\<lparr>theight := i\<rparr>)) b) = tleft (h b)"
  "tright ((h(a := (h a)\<lparr>theight := i\<rparr>)) b) = tright (h b)"
  "tparent ((h(a := (h a)\<lparr>theight := i\<rparr>)) b) = tparent (h b)"
  by simp_all

lemma cshape_upd_height:
  "cshape (h(a := (h a)\<lparr>theight := i\<rparr>)) root c p q = cshape h root c p q"
  by (induction h root c p q rule: cshape.induct)
     (simp_all add: shape_upd_height set_height_links del: fun_upd_apply)

lemma go_up_add_step:
  assumes c: "cshape h root c e q" and t: "shape h q e (Node l e r)" "avl h l" "avl h r"
    and n: "cavl h c n" "theight (h e) = n" "grown l r n" and d: "distinct (inorder (plug c (Node l e r)))"
  defines "h1 \<equiv> set_height e (max (ht l) (ht r) + 1) h"
  shows "(\<exists>root' h' t'. psync_tree_go_up_rebalance_add root e h = Some (root', h')
      \<and> tree_at h' root' t' \<and> inorder t' = inorder (plug c (Node l e r))
      \<and> same_on (- set_tree (plug c (Node l e r))) h h')
    \<or> (\<bar>ht l - ht r\<bar> = 1 \<and> n = max (ht l) (ht r) \<and>
       psync_tree_go_up_rebalance_add root e h =
        (if q \<noteq> 0 then psync_tree_go_up_rebalance_add root q h1
         else if root = e then Some (root, h1) else None))"
proof -
  have s: "e \<noteq> 0" "tparent (h e) = q" using t by auto
  have hts: "psync_tree_height h (tleft (h e)) = ht l" "psync_tree_height h (tright (h e)) = ht r"
    using t by (auto intro: avl_height)
  note unf = psync_tree_go_up_rebalance_add.simps [of root e h] Let_def hts
  consider (eq) "ht l = ht r" | (one) "\<bar>ht l - ht r\<bar> = 1" | (left) "ht l = ht r + 2" | (right) "ht r = ht l + 2"
    using n(3) unfolding grown_def by linarith
  then show ?thesis
  proof cases
    case eq
    then have "tree_at h root (plug c (Node l e r))"
      using n t by (intro rebuild [OF c t(1) _ _ d]) (auto simp: grown_def add.commute)
    then show ?thesis unfolding unf using eq s(1) by auto
  next
    case one
    have "(ht l - ht r + 1) div 2 = (if ht l > ht r then 1 else 0)" using one by (auto simp: abs_if split: if_splits)
    then have "ht r + (ht l - ht r + 1) div 2 + 1 = max (ht l) (ht r) + 1" using one by auto
    then have "psync_tree_go_up_rebalance_add root e h =
        (if q \<noteq> 0 then psync_tree_go_up_rebalance_add root q h1
         else if root = e then Some (root, h1) else None)"
      unfolding unf using one s by (auto simp: h1_def)
    moreover have "n = max (ht l) (ht r)" using n(3) one unfolding grown_def by auto
    ultimately show ?thesis using one by blast
  next
    case left
    obtain root' h' b t' where R: "rebalance_left root e h = Some (root', q, h')"
      "cshape h' root' c b q" "shape h' q b t'" "avl h' t'" "inorder t' = inorder (Node l e r)"
      "ht t' = ht l + (if lean l then 0 else 1)" "\<And>n. cavl h c n \<Longrightarrow> cavl h' c n"
      "same_on (- set_tree (plug c (Node l e r))) h h'"
      by (rule rebalance_left_correct [OF c t d left]) blast
    have "ht t' = n" using R(6) n(3) left by (auto simp: grown_def)
    moreover have o: "inorder (plug c t') = inorder (plug c (Node l e r))" by (simp add: inorder_plug R(5))
    ultimately have "tree_at h' root' (plug c t')"
      using R(7) [OF n(1)] d by (intro rebuild [OF R(2-4)]) simp_all
    moreover have "psync_tree_go_up_rebalance_add root e h = Some (root', h')"
      unfolding unf using left s(1) R(1) by simp
    ultimately show ?thesis using o R(8) by blast
  next
    case right
    obtain root' h' b t' where R: "rebalance_right root e h = Some (root', q, h')"
      "cshape h' root' c b q" "shape h' q b t'" "avl h' t'" "inorder t' = inorder (Node l e r)"
      "ht t' = ht r + (if lean r then 0 else 1)" "\<And>n. cavl h c n \<Longrightarrow> cavl h' c n"
      "same_on (- set_tree (plug c (Node l e r))) h h'"
      by (rule rebalance_right_correct [OF c t d right]) blast
    have "ht t' = n" using R(6) n(3) right by (auto simp: grown_def)
    moreover have o: "inorder (plug c t') = inorder (plug c (Node l e r))" by (simp add: inorder_plug R(5))
    ultimately have "tree_at h' root' (plug c t')"
      using R(7) [OF n(1)] d by (intro rebuild [OF R(2-4)]) simp_all
    moreover have "psync_tree_go_up_rebalance_add root e h = Some (root', h')"
      unfolding unf using right s(1) R(1) by simp
    ultimately show ?thesis using o R(8) by blast
  qed
qed

lemma grown_parent:
  assumes "ht A = n + 1" "lean A" "\<bar>n - ht B\<bar> \<le> 1"
  shows "grown A B (1 + max n (ht B))" "grown B A (1 + max (ht B) n)"
proof -
  consider "ht B = n + 1" | "ht B = n" | "ht B = n - 1" using assms(3) by linarith
  then have "grown A B (1 + max n (ht B)) \<and> grown B A (1 + max (ht B) n)"
    using assms(1,2) by cases (simp_all add: grown_def)
  then show "grown A B (1 + max n (ht B))" "grown B A (1 + max (ht B) n)" by blast+
qed

lemma go_up_add_correct:
  assumes "cshape h root c e q" "shape h q e (Node l e r)" "avl h l" "avl h r" "cavl h c n"
    "theight (h e) = n" "grown l r n" "distinct (inorder (plug c (Node l e r)))"
  shows "\<exists>root' h' t'. psync_tree_go_up_rebalance_add root e h = Some (root', h')
    \<and> tree_at h' root' t' \<and> inorder t' = inorder (plug c (Node l e r))
    \<and> same_on (- set_tree (plug c (Node l e r))) h h'"
  using assms
proof (induction c arbitrary: h e q l r n)
  case Nil
  have "q = 0" "root = e" using Nil.prems(1) by auto
  define h1 where "h1 = set_height e (max (ht l) (ht r) + 1) h"
  have d: "e \<notin> set_tree l" "e \<notin> set_tree r" using Nil.prems(8) by (auto simp: inorder_plug)
  have "tree_at h1 e (Node l e r)" if "\<bar>ht l - ht r\<bar> = 1"
    using Nil.prems(2-4,8) that d unfolding tree_at_def h1_def \<open>q = 0\<close>
    by (auto simp: shape_upd_other avl_upd_other)
  moreover have "same_on (- set_tree (Node l e r)) h h1" by (simp add: h1_def same_on_def)
  ultimately have "\<bar>ht l - ht r\<bar> = 1 \<Longrightarrow> tree_at h1 e (Node l e r) \<and> same_on (- set_tree (Node l e r)) h h1"
    by blast
  then show ?case
    using go_up_add_step [OF Nil.prems] \<open>q = 0\<close> \<open>root = e\<close> unfolding h1_def [symmetric] plug.simps
    by (elim disjE) (blast, metis)
next
  case (Cons x c)
  let ?A = "Node l e r"
  define h1 where "h1 = set_height e (max (ht l) (ht r) + 1) h"
  have d: "e \<notin> set_tree l" "e \<notin> set_tree r" "e \<notin> cnodes (x # c)"
    using Cons.prems(8) by (auto simp: inorder_plug)
  have same: "same_on (- set_tree (plug (x # c) ?A)) h h1"
    by (auto simp: h1_def same_on_def set_plug)
  have c1: "cshape h1 root (x # c) e q"
    unfolding h1_def using Cons.prems(1) by (simp only: cshape_upd_height)
  have s1: "shape h1 q e ?A"
    unfolding h1_def using Cons.prems(2) by (simp only: shape_upd_height)
  have cav: "cavl h1 (x # c) n"
    using Cons.prems(5) by (rule cavl_frame) (use d(3) in \<open>auto simp: h1_def same_on_def\<close>)
  note step = go_up_add_step [OF Cons.prems]
  show ?case
  proof (cases "\<bar>ht l - ht r\<bar> = 1 \<and> n = max (ht l) (ht r) \<and>
       psync_tree_go_up_rebalance_add root e h =
        (if q \<noteq> 0 then psync_tree_go_up_rebalance_add root q h1
         else if root = e then Some (root, h1) else None)")
    case False
    then show ?thesis using step unfolding h1_def by blast
  next
    case True
    have av: "avl h1 ?A" using Cons.prems(3,4) True d by (auto simp: h1_def avl_upd_other)
    have hA: "ht ?A = n + 1" using True by simp
    have le: "lean ?A" using True by auto
    show ?thesis
    proof (cases x)
      case (InLeft a b)
      have "grown ?A b (1 + max n (ht b))"
        using cav by (intro grown_parent [OF hA le]) (simp add: InLeft)
      then have "\<exists>root' h' t'. psync_tree_go_up_rebalance_add root a h1 = Some (root', h')
          \<and> tree_at h' root' t' \<and> inorder t' = inorder (plug c (Node ?A a b))
          \<and> same_on (- set_tree (plug c (Node ?A a b))) h1 h'"
        using c1 s1 av cav Cons.prems(8)
        by (intro Cons.IH [of h1 a "tparent (h1 a)" _ _ "1 + max n (ht b)"]) (auto simp: InLeft)
      moreover have "q = a" "a \<noteq> 0" using c1 by (auto simp: InLeft)
      ultimately show ?thesis
        unfolding InLeft plug.simps using True same [unfolded InLeft plug.simps] same_on_trans
        by (metis (no_types, lifting))
    next
      case (InRight b a)
      have "grown b ?A (1 + max (ht b) n)"
        using cav by (intro grown_parent [OF hA le]) (simp add: InRight abs_minus_commute)
      then have "\<exists>root' h' t'. psync_tree_go_up_rebalance_add root a h1 = Some (root', h')
          \<and> tree_at h' root' t' \<and> inorder t' = inorder (plug c (Node b a ?A))
          \<and> same_on (- set_tree (plug c (Node b a ?A))) h1 h'"
        using c1 s1 av cav Cons.prems(8)
        by (intro Cons.IH [of h1 a "tparent (h1 a)" _ _ "1 + max (ht b) n"]) (auto simp: InRight)
      moreover have "q = a" "a \<noteq> 0" using c1 by (auto simp: InRight)
      ultimately show ?thesis
        unfolding InRight plug.simps using True same [unfolded InRight plug.simps] same_on_trans
        by (metis (no_types, lifting))
    qed
  qed
qed

section \<open>Walking a well-formed tree\<close>

lemma locate: "a \<in> set_tree t \<Longrightarrow> \<exists>c l r. t = plug c (Node l a r)"
proof (induction t)
  case Leaf
  then show ?case by simp
next
  case (Node l x r)
  consider "a = x" | "a \<in> set_tree l" | "a \<in> set_tree r" using Node.prems by auto
  then show ?case
  proof cases
    case 1
    then show ?thesis by (metis plug.simps(1))
  next
    case 2
    then obtain c l' r' where "l = plug c (Node l' a r')" using Node.IH by blast
    then have "Node l x r = plug (c @ [InLeft x r]) (Node l' a r')" by (simp add: plug_append)
    then show ?thesis by blast
  next
    case 3
    then obtain c l' r' where "r = plug c (Node l' a r')" using Node.IH by blast
    then have "Node l x r = plug (c @ [InRight l x]) (Node l' a r')" by (simp add: plug_append)
    then show ?thesis by blast
  qed
qed

lemma go_left_correct:
  "shape h q p t \<Longrightarrow> t \<noteq> Leaf \<Longrightarrow>
   \<exists>c m r. go_left h p = Some m \<and> t = plug c (Node Leaf m r) \<and> cpre c = []"
proof (induction t arbitrary: q p)
  case Leaf
  then show ?case by simp
next
  case (Node l x r)
  show ?case
  proof (cases "l = Leaf")
    case True
    then have "go_left h p = Some x" using Node.prems by (subst go_left.simps) auto
    then show ?thesis using True by (metis plug.simps(1) cpre.simps(1))
  next
    case False
    have "shape h x (tleft (h x)) l" "p = x" using Node.prems by auto
    with Node.IH(1) False obtain c m r' where
      m: "go_left h (tleft (h x)) = Some m" "l = plug c (Node Leaf m r')" "cpre c = []"
      by blast
    moreover have "go_left h p = go_left h (tleft (h x))"
      using Node.prems False by (subst go_left.simps) (auto dest: shape_root)
    moreover have "Node l x r = plug (c @ [InLeft x r]) (Node Leaf m r')" "cpre (c @ [InLeft x r]) = []"
      using m by (simp_all add: plug_append cpre_append)
    ultimately show ?thesis by metis
  qed
qed

lemma go_right_correct:
  "shape h q p t \<Longrightarrow> t \<noteq> Leaf \<Longrightarrow>
   \<exists>c m l. go_right h p = Some m \<and> t = plug c (Node l m Leaf) \<and> cpost c = []"
proof (induction t arbitrary: q p)
  case Leaf
  then show ?case by simp
next
  case (Node l x r)
  show ?case
  proof (cases "r = Leaf")
    case True
    then have "go_right h p = Some x" using Node.prems by (subst go_right.simps) auto
    then show ?thesis using True by (metis plug.simps(1) cpost.simps(1))
  next
    case False
    have "shape h x (tright (h x)) r" "p = x" using Node.prems by auto
    with Node.IH(2) False obtain c m l' where
      m: "go_right h (tright (h x)) = Some m" "r = plug c (Node l' m Leaf)" "cpost c = []"
      by blast
    moreover have "go_right h p = go_right h (tright (h x))"
      using Node.prems False by (subst go_right.simps) (auto dest: shape_root)
    moreover have "Node l x r = plug (c @ [InRight l x]) (Node l' m Leaf)" "cpost (c @ [InRight l x]) = []"
      using m by (simp_all add: plug_append cpost_append)
    ultimately show ?thesis by metis
  qed
qed

section \<open>Adding\<close>

lemma attach_left:
  assumes t: "tree_at h root (plug c (Node Leaf m r))" and new: "new \<notin> set_tree (plug c (Node Leaf m r))" "new \<noteq> 0"
  shows "\<exists>root' h' t'. psync_tree_go_up_rebalance_add root m
        (set_parent new m (set_left m new (psync_tree_init_node new h))) = Some (root', h')
    \<and> tree_at h' root' t' \<and> inorder t' = cpre c @ new # m # inorder r @ cpost c
    \<and> same_on (- insert new (set_tree (plug c (Node Leaf m r)))) h h'"
proof -
  let ?h = "set_parent new m (set_left m new (psync_tree_init_node new h))"
  obtain q where c: "cshape h root c m q" "shape h q m (Node Leaf m r)"
    using t by (auto simp: tree_at_def shape_plug)
  have av: "avl h (Node Leaf m r)" "cavl h c (ht (Node Leaf m r))" "distinct (inorder (plug c (Node Leaf m r)))"
    using t by (auto simp: tree_at_def avl_plug)
  have n: "new \<notin> cnodes c" "new \<noteq> m" "new \<notin> set_tree r" "m \<notin> cnodes c" "m \<notin> set_tree r"
    using new av(3) by (auto simp: set_plug inorder_plug)
  define N where "N = Node Leaf new (Leaf :: addr tree)"
  have "\<exists>root' h' t'. psync_tree_go_up_rebalance_add root m ?h = Some (root', h')
    \<and> tree_at h' root' t' \<and> inorder t' = inorder (plug c (Node N m r))
    \<and> same_on (- set_tree (plug c (Node N m r))) ?h h'"
  proof (rule go_up_add_correct)
    show "cshape ?h root c m q" using c(1) n by (simp add: psync_tree_init_node_def cshape_upd_other)
    show "shape ?h q m (Node N m r)"
      using c(2) n new(2) by (simp add: N_def psync_tree_init_node_def shape_upd_other)
    show "avl ?h N" by (simp add: N_def psync_tree_init_node_def n(2))
    show "avl ?h r" using av(1) n by (simp add: psync_tree_init_node_def avl_upd_other)
    show "cavl ?h c (ht (Node Leaf m r))"
      by (rule cavl_frame [OF av(2)]) (use n in \<open>auto simp: same_on_def psync_tree_init_node_def\<close>)
    show "theight (?h m) = ht (Node Leaf m r)" using av(1) n(2) by (simp add: psync_tree_init_node_def)
    show "grown N r (ht (Node Leaf m r))" using av(1) by (cases r) (auto simp: N_def grown_def)
    show "distinct (inorder (plug c (Node N m r)))"
      using av(3) n by (auto simp: inorder_plug N_def)
  qed
  then obtain root' h' t' where R: "psync_tree_go_up_rebalance_add root m ?h = Some (root', h')"
    "tree_at h' root' t'" "inorder t' = inorder (plug c (Node N m r))"
    "same_on (- set_tree (plug c (Node N m r))) ?h h'" by blast
  have "same_on (- insert new (set_tree (plug c (Node Leaf m r)))) h ?h"
    by (auto simp: same_on_def psync_tree_init_node_def set_plug)
  moreover have "- insert new (set_tree (plug c (Node Leaf m r))) = - set_tree (plug c (Node N m r))"
    by (auto simp: set_plug N_def)
  ultimately have "same_on (- insert new (set_tree (plug c (Node Leaf m r)))) h h'"
    using R(4) same_on_trans by simp
  then show ?thesis using R(1-3) by (auto simp: inorder_plug N_def)
qed

lemma attach_right:
  assumes t: "tree_at h root (plug c (Node l m Leaf))" and new: "new \<notin> set_tree (plug c (Node l m Leaf))" "new \<noteq> 0"
  shows "\<exists>root' h' t'. psync_tree_go_up_rebalance_add root m
        (set_parent new m (set_right m new (psync_tree_init_node new h))) = Some (root', h')
    \<and> tree_at h' root' t' \<and> inorder t' = cpre c @ inorder l @ m # new # cpost c
    \<and> same_on (- insert new (set_tree (plug c (Node l m Leaf)))) h h'"
proof -
  let ?h = "set_parent new m (set_right m new (psync_tree_init_node new h))"
  obtain q where c: "cshape h root c m q" "shape h q m (Node l m Leaf)"
    using t by (auto simp: tree_at_def shape_plug)
  have av: "avl h (Node l m Leaf)" "cavl h c (ht (Node l m Leaf))" "distinct (inorder (plug c (Node l m Leaf)))"
    using t by (auto simp: tree_at_def avl_plug)
  have n: "new \<notin> cnodes c" "new \<noteq> m" "new \<notin> set_tree l" "m \<notin> cnodes c" "m \<notin> set_tree l"
    using new av(3) by (auto simp: set_plug inorder_plug)
  define N where "N = Node Leaf new (Leaf :: addr tree)"
  have "\<exists>root' h' t'. psync_tree_go_up_rebalance_add root m ?h = Some (root', h')
    \<and> tree_at h' root' t' \<and> inorder t' = inorder (plug c (Node l m N))
    \<and> same_on (- set_tree (plug c (Node l m N))) ?h h'"
  proof (rule go_up_add_correct)
    show "cshape ?h root c m q" using c(1) n by (simp add: psync_tree_init_node_def cshape_upd_other)
    show "shape ?h q m (Node l m N)"
      using c(2) n new(2) by (simp add: N_def psync_tree_init_node_def shape_upd_other)
    show "avl ?h N" by (simp add: N_def psync_tree_init_node_def n(2))
    show "avl ?h l" using av(1) n by (simp add: psync_tree_init_node_def avl_upd_other)
    show "cavl ?h c (ht (Node l m Leaf))"
      by (rule cavl_frame [OF av(2)]) (use n in \<open>auto simp: same_on_def psync_tree_init_node_def\<close>)
    show "theight (?h m) = ht (Node l m Leaf)" using av(1) n(2) by (simp add: psync_tree_init_node_def)
    show "grown l N (ht (Node l m Leaf))" using av(1) by (cases l) (auto simp: N_def grown_def)
    show "distinct (inorder (plug c (Node l m N)))"
      using av(3) n by (auto simp: inorder_plug N_def)
  qed
  then obtain root' h' t' where R: "psync_tree_go_up_rebalance_add root m ?h = Some (root', h')"
    "tree_at h' root' t'" "inorder t' = inorder (plug c (Node l m N))"
    "same_on (- set_tree (plug c (Node l m N))) ?h h'" by blast
  have "same_on (- insert new (set_tree (plug c (Node l m Leaf)))) h ?h"
    by (auto simp: same_on_def psync_tree_init_node_def set_plug)
  moreover have "- insert new (set_tree (plug c (Node l m Leaf))) = - set_tree (plug c (Node l m N))"
    by (auto simp: set_plug N_def)
  ultimately have "same_on (- insert new (set_tree (plug c (Node l m Leaf)))) h h'"
    using R(4) same_on_trans by simp
  then show ?thesis using R(1-3) by (auto simp: inorder_plug N_def)
qed

text \<open>The interface: what an operation does to the sequence of nodes.\<close>

lemma contents_split:
  assumes "contents h root (xs @ node # ys)"
  obtains c l r where "tree_at h root (plug c (Node l node r))"
    "xs = cpre c @ inorder l" "ys = inorder r @ cpost c"
proof -
  obtain t where t: "tree_at h root t" "inorder t = xs @ node # ys"
    using assms by (auto simp: contents_def)
  then have "node \<in> set_tree t" by (simp flip: set_inorder)
  then obtain c l r where c: "t = plug c (Node l node r)" using locate by blast
  have "distinct (xs @ node # ys)" using t by (simp add: tree_at_def)
  then have "node \<notin> set xs" "node \<notin> set ys" by auto
  moreover have "xs @ node # ys = (cpre c @ inorder l) @ node # (inorder r @ cpost c)"
    using t(2) c by (simp add: inorder_plug)
  ultimately have "xs = cpre c @ inorder l" "ys = inorder r @ cpost c"
    using append_Cons_eq_iff [of node xs ys] by blast+
  then show thesis using that t(1) c by blast
qed

lemma contents_Nil [simp]: "contents h root [] \<longleftrightarrow> root = 0"
  by (auto simp: contents_def tree_at_def intro!: exI [of _ Leaf])

lemma contents_root: "contents h root xs \<Longrightarrow> root = 0 \<longleftrightarrow> xs = []"
proof -
  assume "contents h root xs"
  then obtain t where "shape h 0 root t" "inorder t = xs" by (auto simp: contents_def tree_at_def)
  then show ?thesis using shape_root [of h 0 root t] by (cases t) auto
qed

lemma contents_nodes: "contents h root xs \<Longrightarrow> 0 \<notin> set xs \<and> distinct xs"
  by (auto simp: contents_def tree_at_def dest: shape_not_zero)

lemma contents_single: "new \<noteq> 0 \<Longrightarrow> contents (psync_tree_init_node new h) new [new]"
  unfolding contents_def
  by (rule exI [of _ "Node Leaf new Leaf"]) (simp add: tree_at_def psync_tree_init_node_def)

lemma shape_init_frame:
  "new \<notin> set_tree t \<Longrightarrow> shape (psync_tree_init_node new h) q p t = shape h q p t"
  by (simp add: psync_tree_init_node_def shape_upd_other)

lemma add_after_node_correct:
  assumes "contents h root (xs @ node # ys)" "new \<notin> set (xs @ node # ys)" "new \<noteq> 0"
  shows "\<exists>root' h'. add_after_node root node new h = Some (root', h')
    \<and> contents h' root' (xs @ node # new # ys) \<and> same_on (- insert new (set (xs @ node # ys))) h h'"
proof -
  obtain c l r where t: "tree_at h root (plug c (Node l node r))"
    "xs = cpre c @ inorder l" "ys = inorder r @ cpost c"
    using assms(1) by (rule contents_split)
  have set: "set_tree (plug c (Node l node r)) = set (xs @ node # ys)"
    using t(2,3) by (auto simp: set_plug)
  obtain q where q: "shape h q node (Node l node r)" using t(1) by (auto simp: tree_at_def shape_plug)
  have n: "new \<noteq> node" "node \<noteq> 0" "new \<notin> set_tree r" using assms(2) q t(3) by auto
  let ?i = "psync_tree_init_node new h"
  show ?thesis
  proof (cases "r = Leaf")
    case True
    then have "tright (?i node) = 0" using q n by (simp add: psync_tree_init_node_def)
    then have "add_after_node root node new h
        = psync_tree_go_up_rebalance_add root node (set_parent new node (set_right node new ?i))"
      using n(2) by (simp add: add_after_node_def Let_def)
    moreover note attach_right [OF t(1)[unfolded True]]
    ultimately show ?thesis
      using assms(2,3) set True t(2,3) by (simp add: contents_def) blast
  next
    case False
    have "shape ?i node (tright (?i node)) r"
      using q n by (simp add: shape_init_frame psync_tree_init_node_def[of new h] shape_upd_other)
    then obtain d m b where m: "go_left ?i (tright (?i node)) = Some m" "r = plug d (Node Leaf m b)" "cpre d = []"
      using go_left_correct False by blast
    have "tright (?i node) \<noteq> 0" using q n False by (auto simp: psync_tree_init_node_def dest: shape_root)
    then have "add_after_node root node new h
        = psync_tree_go_up_rebalance_add root m (set_parent new m (set_left m new ?i))"
      using n(2) m(1) by (simp add: add_after_node_def Let_def)
    moreover have p: "plug c (Node l node r) = plug (d @ InRight l node # c) (Node Leaf m b)"
      using m(2) by (simp add: plug_append)
    moreover have "cpre (d @ InRight l node # c) = xs @ [node]" "ys = m # inorder b @ cpost (d @ InRight l node # c)"
      using m t(2,3) by (simp_all add: cpre_append cpost_append inorder_plug)
    ultimately show ?thesis
      using attach_left [OF t(1)[unfolded p]] assms(2,3) set by (simp add: contents_def) blast
  qed
qed

lemma add_before_node_correct:
  assumes "contents h root (xs @ node # ys)" "new \<notin> set (xs @ node # ys)" "new \<noteq> 0"
  shows "\<exists>root' h'. add_before_node root node new h = Some (root', h')
    \<and> contents h' root' (xs @ new # node # ys) \<and> same_on (- insert new (set (xs @ node # ys))) h h'"
proof -
  obtain c l r where t: "tree_at h root (plug c (Node l node r))"
    "xs = cpre c @ inorder l" "ys = inorder r @ cpost c"
    using assms(1) by (rule contents_split)
  have set: "set_tree (plug c (Node l node r)) = set (xs @ node # ys)"
    using t(2,3) by (auto simp: set_plug)
  obtain q where q: "shape h q node (Node l node r)" using t(1) by (auto simp: tree_at_def shape_plug)
  have n: "new \<noteq> node" "node \<noteq> 0" "new \<notin> set_tree l" using assms(2) q t(2) by auto
  let ?i = "psync_tree_init_node new h"
  show ?thesis
  proof (cases "l = Leaf")
    case True
    then have "tleft (?i node) = 0" using q n by (simp add: psync_tree_init_node_def)
    then have "add_before_node root node new h
        = psync_tree_go_up_rebalance_add root node (set_parent new node (set_left node new ?i))"
      using n(2) by (simp add: add_before_node_def Let_def)
    moreover note attach_left [OF t(1)[unfolded True]]
    ultimately show ?thesis
      using assms(2,3) set True t(2,3) by (simp add: contents_def) blast
  next
    case False
    have "shape ?i node (tleft (?i node)) l"
      using q n by (simp add: shape_init_frame psync_tree_init_node_def[of new h] shape_upd_other)
    then obtain d m b where m: "go_right ?i (tleft (?i node)) = Some m" "l = plug d (Node b m Leaf)" "cpost d = []"
      using go_right_correct False by blast
    have "tleft (?i node) \<noteq> 0" using q n False by (auto simp: psync_tree_init_node_def dest: shape_root)
    then have "add_before_node root node new h
        = psync_tree_go_up_rebalance_add root m (set_parent new m (set_right m new ?i))"
      using n(2) m(1) by (simp add: add_before_node_def Let_def)
    moreover have p: "plug c (Node l node r) = plug (d @ InLeft node r # c) (Node b m Leaf)"
      using m(2) by (simp add: plug_append)
    moreover have "xs = cpre (d @ InLeft node r # c) @ inorder b @ [m]" "cpost (d @ InLeft node r # c) = node # ys"
      using m t(2,3) by (simp_all add: cpre_append cpost_append inorder_plug)
    ultimately show ?thesis
      using attach_right [OF t(1)[unfolded p]] assms(2,3) set by (simp add: contents_def) blast
  qed
qed

section \<open>Going up after a removal\<close>

text \<open>
  The subtree at \<open>e\<close> had height \<open>n\<close>, which its node and the nodes above still record; one of its
  children may have shrunk by one.
\<close>

definition shrunk :: "addr tree \<Rightarrow> addr tree \<Rightarrow> int \<Rightarrow> bool" where
  "shrunk l r n \<longleftrightarrow> (\<bar>ht l - ht r\<bar> \<le> 2 \<and> n = max (ht l) (ht r) + 1) \<or> (ht l = ht r \<and> n = ht l + 2)"

lemma shrunk_parent:
  assumes "ht A = n \<or> ht A = n - 1" "\<bar>n - ht B\<bar> \<le> 1"
  shows "shrunk A B (1 + max n (ht B))" "shrunk B A (1 + max (ht B) n)"
proof -
  consider "ht B = n + 1" | "ht B = n" | "ht B = n - 1" using assms(2) by linarith
  then have "shrunk A B (1 + max n (ht B)) \<and> shrunk B A (1 + max (ht B) n)"
    using assms(1) by cases (auto simp: shrunk_def)
  then show "shrunk A B (1 + max n (ht B))" "shrunk B A (1 + max (ht B) n)" by blast+
qed

lemma cshape_top: "cshape h root c p 0 \<Longrightarrow> c = [] \<and> root = p"
  by (cases "(h, root, c, p, 0 :: addr)" rule: cshape.cases) auto

lemma go_up_del_step:
  assumes c: "cshape h root c e q" and t: "shape h q e (Node l e r)" "avl h l" "avl h r"
    and n: "cavl h c n" "theight (h e) = n" "shrunk l r n" and d: "distinct (inorder (plug c (Node l e r)))"
  shows "(\<exists>root' h' t'. psync_tree_go_up_rebalance_del root e h = Some (root', h')
      \<and> tree_at h' root' t' \<and> inorder t' = inorder (plug c (Node l e r))
      \<and> same_on (- set_tree (plug c (Node l e r))) h h')
    \<or> (q \<noteq> 0 \<and> (\<exists>root1 h1 b A. psync_tree_go_up_rebalance_del root e h = psync_tree_go_up_rebalance_del root1 q h1
      \<and> cshape h1 root1 c b q \<and> shape h1 q b A \<and> avl h1 A \<and> cavl h1 c n \<and> (ht A = n \<or> ht A = n - 1)
      \<and> inorder A = inorder (Node l e r) \<and> same_on (- set_tree (plug c (Node l e r))) h h1))"
    (is "?done \<or> (q \<noteq> 0 \<and> ?more)")
proof -
  have s: "e \<noteq> 0" "tparent (h e) = q" using t by auto
  have hts: "psync_tree_height h (tleft (h e)) = ht l" "psync_tree_height h (tright (h e)) = ht r"
    using t by (auto intro: avl_height)
  note unf = psync_tree_go_up_rebalance_del.simps [of root e h] Let_def hts
  have dn: "e \<notin> set_tree l" "e \<notin> set_tree r" "e \<notin> cnodes c"
    using d by (auto simp: inorder_plug)
  have finish: "tree_at h1 root1 A \<and> inorder A = inorder (plug c (Node l e r))"
    if "q = 0" "cshape h1 root1 c b q" "shape h1 q b A" "avl h1 A" "inorder A = inorder (Node l e r)" for h1 root1 b A
  proof -
    have "c = []" using c that(1) cshape_top by blast
    then show ?thesis using that d by (auto simp: tree_at_def)
  qed
  consider (eq) "ht l = ht r" | (one) "\<bar>ht l - ht r\<bar> = 1" | (left) "ht l = ht r + 2" | (right) "ht r = ht l + 2"
    using n(3) unfolding shrunk_def by linarith
  then show ?thesis
  proof cases
    case eq
    define h1 where "h1 = set_height e (ht r + 1) h"
    have 1: "cshape h1 root c e q" "shape h1 q e (Node l e r)"
      unfolding h1_def using c t(1) by (simp_all only: cshape_upd_height shape_upd_height)
    have 2: "avl h1 (Node l e r)" using t(2,3) dn eq by (simp add: h1_def avl_upd_other)
    have 3: "cavl h1 c n" using n(1) by (rule cavl_frame) (use dn(3) in \<open>auto simp: h1_def same_on_def\<close>)
    have 4: "same_on (- set_tree (plug c (Node l e r))) h h1" by (auto simp: h1_def same_on_def set_plug)
    have 5: "ht (Node l e r) = n \<or> ht (Node l e r) = n - 1" using n(3) eq by (auto simp: shrunk_def)
    have run: "psync_tree_go_up_rebalance_del root e h = (if q \<noteq> 0 then psync_tree_go_up_rebalance_del root q h1
        else if root = e then Some (root, h1) else None)"
      unfolding unf using eq s by (simp add: h1_def)
    show ?thesis
    proof (cases "q = 0")
      case True
      moreover have "root = e" using c True cshape_top by blast
      ultimately have ?done using run finish [OF True 1 2] 4 by auto
      then show ?thesis ..
    next
      case False
      then have "psync_tree_go_up_rebalance_del root e h = psync_tree_go_up_rebalance_del root q h1"
        using run by simp
      then have ?more using 1 2 3 4 5 by blast
      then show ?thesis using False by blast
    qed
  next
    case one
    have "max (ht l) (ht r) + 1 = n" using n(3) one by (auto simp: shrunk_def)
    then have "tree_at h root (plug c (Node l e r))"
      using n t one by (intro rebuild [OF c t(1) _ _ d]) (auto simp: add.commute of_nat_max)
    then show ?thesis unfolding unf using one s(1) by auto
  next
    case left
    obtain root' h' b t' where R: "rebalance_left root e h = Some (root', q, h')"
      "cshape h' root' c b q" "shape h' q b t'" "avl h' t'" "inorder t' = inorder (Node l e r)"
      "ht t' = ht l + (if lean l then 0 else 1)" "\<And>n. cavl h c n \<Longrightarrow> cavl h' c n"
      "same_on (- set_tree (plug c (Node l e r))) h h'"
      by (rule rebalance_left_correct [OF c t d left]) blast
    have 5: "ht t' = n \<or> ht t' = n - 1" using R(6) n(3) left by (auto simp: shrunk_def)
    have run: "psync_tree_go_up_rebalance_del root e h =
        (if q = 0 then Some (root', h') else psync_tree_go_up_rebalance_del root' q h')"
      unfolding unf using left s(1) R(1) by simp
    show ?thesis
      using finish [OF _ R(2-5)] run R(2-5) R(7) [OF n(1)] R(8) 5 by (cases "q = 0") (simp_all, blast+)
  next
    case right
    obtain root' h' b t' where R: "rebalance_right root e h = Some (root', q, h')"
      "cshape h' root' c b q" "shape h' q b t'" "avl h' t'" "inorder t' = inorder (Node l e r)"
      "ht t' = ht r + (if lean r then 0 else 1)" "\<And>n. cavl h c n \<Longrightarrow> cavl h' c n"
      "same_on (- set_tree (plug c (Node l e r))) h h'"
      by (rule rebalance_right_correct [OF c t d right]) blast
    have 5: "ht t' = n \<or> ht t' = n - 1" using R(6) n(3) right by (auto simp: shrunk_def)
    have run: "psync_tree_go_up_rebalance_del root e h =
        (if q = 0 then Some (root', h') else psync_tree_go_up_rebalance_del root' q h')"
      unfolding unf using right s(1) R(1) by simp
    show ?thesis
      using finish [OF _ R(2-5)] run R(2-5) R(7) [OF n(1)] R(8) 5 by (cases "q = 0") (simp_all, blast+)
  qed
qed

lemma go_up_del_correct:
  assumes "cshape h root c e q" "shape h q e (Node l e r)" "avl h l" "avl h r" "cavl h c n"
    "theight (h e) = n" "shrunk l r n" "distinct (inorder (plug c (Node l e r)))"
  shows "\<exists>root' h' t'. psync_tree_go_up_rebalance_del root e h = Some (root', h')
    \<and> tree_at h' root' t' \<and> inorder t' = inorder (plug c (Node l e r))
    \<and> same_on (- set_tree (plug c (Node l e r))) h h'"
  using assms
proof (induction c arbitrary: h root e q l r n)
  case Nil
  then show ?case using go_up_del_step [OF Nil.prems] by auto
next
  case (Cons x c)
  let ?A = "Node l e r"
  consider (stop) "\<exists>root' h' t'. psync_tree_go_up_rebalance_del root e h = Some (root', h')
      \<and> tree_at h' root' t' \<and> inorder t' = inorder (plug (x # c) ?A)
      \<and> same_on (- set_tree (plug (x # c) ?A)) h h'"
    | (more) root1 h1 b A where "q \<noteq> 0"
      "psync_tree_go_up_rebalance_del root e h = psync_tree_go_up_rebalance_del root1 q h1"
      "cshape h1 root1 (x # c) b q" "shape h1 q b A" "avl h1 A" "cavl h1 (x # c) n" "ht A = n \<or> ht A = n - 1"
      "inorder A = inorder ?A" "same_on (- set_tree (plug (x # c) ?A)) h h1"
    using go_up_del_step [OF Cons.prems] by blast
  then show ?case
  proof cases
    case stop
    then show ?thesis .
  next
    case more
    have io: "inorder (plug (x # c) A) = inorder (plug (x # c) ?A)" by (simp only: inorder_plug more(8))
    then have st: "set_tree (plug (x # c) A) = set_tree (plug (x # c) ?A)" by (metis set_inorder)
    have "\<exists>root' h' t'. psync_tree_go_up_rebalance_del root1 q h1 = Some (root', h')
        \<and> tree_at h' root' t' \<and> inorder t' = inorder (plug (x # c) A)
        \<and> same_on (- set_tree (plug (x # c) A)) h1 h'"
    proof (cases x)
      case (InLeft a B)
      have "shrunk A B (1 + max n (ht B))"
        using more(6) by (intro shrunk_parent [OF more(7)]) (simp add: InLeft)
      then show ?thesis
        using more(3-6) Cons.prems(8) io
          Cons.IH [of h1 root1 a "tparent (h1 a)" A B "1 + max n (ht B)"] by (simp add: InLeft)
    next
      case (InRight B a)
      have "shrunk B A (1 + max (ht B) n)"
        using more(6) by (intro shrunk_parent [OF more(7)]) (simp add: InRight abs_minus_commute)
      then show ?thesis
        using more(3-6) Cons.prems(8) io
          Cons.IH [of h1 root1 a "tparent (h1 a)" B A "1 + max (ht B) n"] by (simp add: InRight)
    qed
    then show ?thesis using more(2,9) io st same_on_trans by (metis (no_types, lifting))
  qed
qed

end
