(* ===== verification/PTreeDel.thy ===== *)
theory PTreeDel
  imports PTreeInv
begin

text \<open>
  Removing a node from the AVL tree of \<^verbatim>\<open>ptree.c\<close>, and walking over the tree in order.
\<close>

section \<open>Removing\<close>

text \<open>
  Making the innermost step of a context lead to the tree at \<open>s\<close>, and that tree's parent link to the
  node of the step.
\<close>

fun link_hole :: "step list \<Rightarrow> addr \<Rightarrow> theap \<Rightarrow> theap" where
  "link_hole [] s h = (if s \<noteq> 0 then set_parent s 0 h else h)"
| "link_hole (InLeft a r # c) s h = (let h = set_left a s h in if s \<noteq> 0 then set_parent s a h else h)"
| "link_hole (InRight l a # c) s h = (let h = set_right a s h in if s \<noteq> 0 then set_parent s a h else h)"

fun hole_parent :: "step list \<Rightarrow> addr" where
  "hole_parent [] = 0"
| "hole_parent (InLeft a r # c) = a"
| "hole_parent (InRight l a # c) = a"

lemma cshape_parent: "cshape h root c p q \<Longrightarrow> q = hole_parent c"
  by (cases "(h, root, c, p, q)" rule: cshape.cases) auto

lemma link_hole_same: "same_on (- ((if s = 0 then {} else {s}) \<union> cnodes c)) h (link_hole c s h)"
  by (cases "(c, s, h)" rule: link_hole.cases) (auto simp: same_on_def Let_def)

lemma link_hole_height: "theight (link_hole c s h a) = theight (h a)"
  by (cases "(c, s, h)" rule: link_hole.cases) (auto simp: Let_def)

lemma splice:
  assumes c: "cshape h root c p q" and S: "shape h x s S" "distinct (inorder S)"
    and d: "distinct (cpre c @ cpost c)" "set_tree S \<inter> cnodes c = {}"
  defines "root' \<equiv> if c = [] then s else root"
  shows "cshape (link_hole c s h) root' c s q" "shape (link_hole c s h) q s S"
proof -
  have s: "s \<noteq> 0 \<Longrightarrow> s \<in> set_tree S" using shape_root_in [OF S(1)] .
  have "cshape (link_hole c s h) root' c s q \<and> shape (link_hole c s h) q s S"
  proof (cases "(c, s, h)" rule: link_hole.cases)
    case (1 s h)
    then show ?thesis
      using c S by (cases "s = 0") (auto simp: root'_def intro!: shape_reparent dest: shape_root)
  next
    case (2 a r c' s' h')
    have a: "a \<notin> cnodes c'" "a \<notin> set_tree r" "a \<notin> set_tree S"
      "s \<noteq> 0 \<Longrightarrow> s \<notin> cnodes c'" "s \<noteq> 0 \<Longrightarrow> s \<notin> set_tree r" "s \<noteq> 0 \<Longrightarrow> s \<noteq> a"
      using d s 2 by auto
    have sl: "shape (set_left a s h) x s S" using S(1) a(3) by (simp add: shape_upd_other)
    have "shape (link_hole c s h) a s S"
    proof (cases "s = 0")
      case True
      then show ?thesis using S(1) by (cases S) (auto simp: 2)
    next
      case False
      then have hole: "link_hole c s h = set_parent s a (set_left a s h)" using 2 by (auto simp: Let_def)
      show ?thesis unfolding hole by (rule shape_reparent [OF sl False S(2)])
    qed
    then show ?thesis
      using c 2 a by (auto simp: root'_def Let_def cshape_upd_other shape_upd_other)
  next
    case (3 l a c' s' h')
    have a: "a \<notin> cnodes c'" "a \<notin> set_tree l" "a \<notin> set_tree S"
      "s \<noteq> 0 \<Longrightarrow> s \<notin> cnodes c'" "s \<noteq> 0 \<Longrightarrow> s \<notin> set_tree l" "s \<noteq> 0 \<Longrightarrow> s \<noteq> a"
      using d s 3 by auto
    have sl: "shape (set_right a s h) x s S" using S(1) a(3) by (simp add: shape_upd_other)
    have "shape (link_hole c s h) a s S"
    proof (cases "s = 0")
      case True
      then show ?thesis using S(1) by (cases S) (auto simp: 3)
    next
      case False
      then have hole: "link_hole c s h = set_parent s a (set_right a s h)" using 3 by (auto simp: Let_def)
      show ?thesis unfolding hole by (rule shape_reparent [OF sl False S(2)])
    qed
    then show ?thesis
      using c 3 a by (auto simp: root'_def Let_def cshape_upd_other shape_upd_other)
  qed
  then show "cshape (link_hole c s h) root' c s q" "shape (link_hole c s h) q s S" by auto
qed

lemma avl_heights: "avl h t \<Longrightarrow> (\<forall>a\<in>set_tree t. theight (h' a) = theight (h a)) \<Longrightarrow> avl h' t"
  by (induction t) auto

lemma cavl_heights: "cavl h c n \<Longrightarrow> (\<forall>a\<in>cnodes c. theight (h' a) = theight (h a)) \<Longrightarrow> cavl h' c n"
  by (induction h c n rule: cavl.induct) (auto intro: avl_heights)

text \<open>Rebalancing after the subtree at the hole has become one lower.\<close>

lemma go_up_from_hole:
  assumes c: "cshape h root c s q" "c \<noteq> []" and S: "shape h q s S" "avl h S"
    and n: "cavl h c n" "ht S = n \<or> ht S = n - 1" and d: "distinct (inorder (plug c S))"
  shows "\<exists>root' h' t'. psync_tree_go_up_rebalance_del root (hole_parent c) h = Some (root', h')
    \<and> tree_at h' root' t' \<and> inorder t' = inorder (plug c S) \<and> same_on (- set_tree (plug c S)) h h'"
proof (cases c)
  case (Cons x c')
  show ?thesis
  proof (cases x)
    case (InLeft a B)
    have "shrunk S B (1 + max n (ht B))"
      using n(1) by (intro shrunk_parent [OF n(2)]) (simp add: Cons InLeft)
    then show ?thesis
      using go_up_del_correct [of h root c' a "tparent (h a)" S B "1 + max n (ht B)"] c S n d
      by (simp add: Cons InLeft)
  next
    case (InRight B a)
    have "shrunk B S (1 + max (ht B) n)"
      using n(1) by (intro shrunk_parent [OF n(2)]) (simp add: Cons InRight abs_minus_commute)
    then show ?thesis
      using go_up_del_correct [of h root c' a "tparent (h a)" B S "1 + max (ht B) n"] c S n d
      by (simp add: Cons InRight)
  qed
qed (use c in simp)

text \<open>How the code finds the link that leads to a node.\<close>

lemma link_choice:
  assumes "cshape h root c p q" "c \<noteq> []" "p \<noteq> 0" "p \<notin> cnodes c"
  shows "(if p = tleft (h q) then set_left q s h else if p = tright (h q) then set_right q s h else g)
       = (case c of InLeft a r # _ \<Rightarrow> set_left a s h | InRight l a # _ \<Rightarrow> set_right a s h)"
    and "q \<noteq> 0" and "p = tleft (h q) \<or> p = tright (h q)"
proof -
  have "tleft (h a) \<noteq> p" if "c = InRight l a # c'" for l a c'
    using that assms(1,3,4) shape_root_in [of h a "tleft (h a)" l] by auto
  with assms(1,2) show "(if p = tleft (h q) then set_left q s h else if p = tright (h q) then set_right q s h else g)
       = (case c of InLeft a r # _ \<Rightarrow> set_left a s h | InRight l a # _ \<Rightarrow> set_right a s h)"
    and "q \<noteq> 0" and "p = tleft (h q) \<or> p = tright (h q)"
    by (cases "(h, root, c, p, q)" rule: cshape.cases; auto)+
qed

lemma link_hole_alt:
  "c \<noteq> [] \<Longrightarrow> link_hole c s h =
    (let h = (case c of InLeft a r # _ \<Rightarrow> set_left a s h | InRight l a # _ \<Rightarrow> set_right a s h)
     in if s \<noteq> 0 then set_parent s (hole_parent c) h else h)"
  by (cases "(c, s, h)" rule: link_hole.cases) (auto simp: Let_def)

lemma replace_me_with_correct:
  assumes t: "tree_at h root (plug c (Node l node r))"
    and S: "l = Leaf \<and> S = r \<and> s = tright (h node) \<or> r = Leaf \<and> S = l \<and> s = tleft (h node)"
  shows "\<exists>root' h' t'. psync_tree_replace_me_with root node s h = Some (root', h')
    \<and> tree_at h' root' t' \<and> inorder t' = cpre c @ inorder S @ cpost c
    \<and> same_on (- set_tree (plug c (Node l node r))) h h'"
proof -
  obtain q where c: "cshape h root c node q" "shape h q node (Node l node r)"
    using t by (auto simp: tree_at_def shape_plug)
  have av: "avl h (Node l node r)" "cavl h c (ht (Node l node r))" and
    d: "distinct (inorder (plug c (Node l node r)))"
    using t by (auto simp: tree_at_def avl_plug)
  have node: "node \<noteq> 0" "tparent (h node) = q" "node \<notin> cnodes c" "q = hole_parent c"
    using c d cshape_parent [OF c(1)] by (auto simp: inorder_plug)
  have s: "shape h node s S" "avl h S" "ht (Node l node r) = ht S + 1" "distinct (inorder S)"
    using S c(2) av(1) d by (auto simp: inorder_plug)
  have dS: "distinct (cpre c @ cpost c)" "set_tree S \<inter> cnodes c = {}" "distinct (inorder (plug c S))"
    "set_tree S \<subseteq> set_tree (Node l node r)"
    using S d by (auto simp: inorder_plug)
  let ?h = "link_hole c s h"
  have sp: "cshape ?h (if c = [] then s else root) c s q" "shape ?h q s S"
    using splice [OF c(1) s(1,4) dS(1,2)] by auto
  have sav: "avl ?h S" "cavl ?h c (ht (Node l node r))"
    using s(2) av(2) by (auto intro: avl_heights cavl_heights simp: link_hole_height)
  have same: "same_on (- set_tree (plug c (Node l node r))) h ?h"
  proof (rule same_on_mono [OF link_hole_same])
    show "- set_tree (plug c (Node l node r)) \<subseteq> - ((if s = 0 then {} else {s}) \<union> cnodes c)"
      using shape_root_in [OF s(1)] dS(4) by (auto simp: set_plug)
  qed
  have mono: "same_on (- set_tree (plug c (Node l node r))) h h'" if "same_on (- set_tree (plug c S)) ?h h'" for h'
    by (rule same_on_trans [OF same same_on_mono [OF that]]) (use dS(4) in \<open>auto simp: set_plug\<close>)
  show ?thesis
  proof (cases "c = []")
    case False
    note ch = link_choice [OF c(1) False node(1,3)]
    have "psync_tree_replace_me_with root node s h = psync_tree_go_up_rebalance_del root (hole_parent c) ?h"
    proof (cases "node = tleft (h q)")
      case True
      have e: "set_left q s h = (case c of InLeft a r # _ \<Rightarrow> set_left a s h | InRight l a # _ \<Rightarrow> set_right a s h)"
        by (rule trans [OF if_P [OF True, symmetric] ch(1)])
      show ?thesis
        unfolding psync_tree_replace_me_with_def link_hole_alt [OF False] Let_def node(2) node(4) [symmetric]
          e [symmetric] by (simp only: ch(2) True [symmetric] if_True if_False bind.simps prod.case simp_thms)
    next
      case n: False
      then have r: "node = tright (h q)" using ch(3) by simp
      have e: "set_right q s h = (case c of InLeft a r # _ \<Rightarrow> set_left a s h | InRight l a # _ \<Rightarrow> set_right a s h)"
        by (rule trans [OF trans [OF if_P [OF r, symmetric] if_not_P [OF n, symmetric]] ch(1)])
      show ?thesis
        unfolding psync_tree_replace_me_with_def link_hole_alt [OF False] Let_def node(2) node(4) [symmetric]
          e [symmetric] by (simp only: ch(2) n r [symmetric] if_True if_False bind.simps prod.case simp_thms)
    qed
    moreover have "\<exists>root' h' t'. psync_tree_go_up_rebalance_del root (hole_parent c) ?h = Some (root', h')
        \<and> tree_at h' root' t' \<and> inorder t' = inorder (plug c S) \<and> same_on (- set_tree (plug c S)) ?h h'"
      by (rule go_up_from_hole [OF _ False sp(2) sav _ dS(3)]) (use sp(1) False s(3) in simp_all)
    ultimately show ?thesis using mono by (simp add: inorder_plug) blast
  next
    case True
    have r: "root = node" "q = 0" using c(1) True by auto
    show ?thesis
    proof (cases S)
      case Leaf
      then have "s = 0" using s(1) by simp
      then have "psync_tree_replace_me_with root node s h = Some (0, h)"
        using r node(2) by (simp add: psync_tree_replace_me_with_def Let_def)
      moreover have "tree_at h 0 Leaf" by (simp add: tree_at_def)
      ultimately show ?thesis using Leaf True by (metis append_Nil cpost.simps(1) cpre.simps(1) inorder.simps(1) same_on_refl)
    next
      case (Node a x b)
      then have x: "s = x" "s \<noteq> 0" using s(1) by auto
      have "psync_tree_replace_me_with root node s h = psync_tree_go_up_rebalance_del s s ?h"
        using r node(2) x(2) True by (simp add: psync_tree_replace_me_with_def Let_def)
      moreover have "\<exists>root' h' t'. psync_tree_go_up_rebalance_del s s ?h = Some (root', h')
          \<and> tree_at h' root' t' \<and> inorder t' = inorder (plug [] (Node a s b))
          \<and> same_on (- set_tree (plug [] (Node a s b))) ?h h'"
      proof (rule go_up_del_correct)
        show "cshape ?h s [] s 0" by simp
        show "shape ?h 0 s (Node a s b)" "avl ?h a" "avl ?h b" using sp(2) sav(1) r(2) Node x by auto
        show "cavl ?h [] (theight (?h s))" by simp
        show "shrunk a b (theight (?h s))" using sav(1) Node x by (auto simp: shrunk_def)
        show "distinct (inorder (plug [] (Node a s b)))" using s(4) Node x by simp
      qed (use x in simp_all)
      ultimately show ?thesis using mono True x by (simp add: Node) blast
    qed
  qed
qed

section \<open>Taking the place of a node\<close>

lemma shape_root_parent: "shape h q p t \<Longrightarrow> p \<noteq> 0 \<Longrightarrow> p \<in> set_tree t \<and> tparent (h p) = q"
  by (cases t) auto

text \<open>The links between the nodes of a tree, node by node.\<close>

lemma shape_links:
  assumes "shape h q p t" "distinct (inorder t)" "a \<in> set_tree t" "q \<notin> set_tree t"
  shows "tleft (h a) \<noteq> a" "tright (h a) \<noteq> a" "tparent (h a) \<noteq> a"
    and "tleft (h a) \<noteq> 0 \<Longrightarrow> tleft (h a) \<in> set_tree t \<and> tparent (h (tleft (h a))) = a \<and> tright (h a) \<noteq> tleft (h a)"
    and "tright (h a) \<noteq> 0 \<Longrightarrow> tright (h a) \<in> set_tree t \<and> tparent (h (tright (h a))) = a"
    and "tparent (h a) = q \<and> a = p \<or> tparent (h a) \<in> set_tree t
      \<and> (tleft (h (tparent (h a))) = a \<or> tright (h (tparent (h a))) = a)"
proof -
  have "tleft (h a) \<noteq> a \<and> tright (h a) \<noteq> a \<and> tparent (h a) \<noteq> a
    \<and> (tleft (h a) \<noteq> 0 \<longrightarrow> tleft (h a) \<in> set_tree t \<and> tparent (h (tleft (h a))) = a \<and> tright (h a) \<noteq> tleft (h a))
    \<and> (tright (h a) \<noteq> 0 \<longrightarrow> tright (h a) \<in> set_tree t \<and> tparent (h (tright (h a))) = a)
    \<and> (tparent (h a) = q \<and> a = p \<or> tparent (h a) \<in> set_tree t
      \<and> (tleft (h (tparent (h a))) = a \<or> tright (h (tparent (h a))) = a))"
    using assms
  proof (induction t arbitrary: q p)
    case Leaf
    then show ?case by simp
  next
    case (Node l x r)
    have l: "shape h x (tleft (h x)) l" "tleft (h x) \<noteq> 0 \<Longrightarrow> tleft (h x) \<in> set_tree l"
      "tleft (h x) \<noteq> 0 \<Longrightarrow> tparent (h (tleft (h x))) = x" "x \<notin> set_tree l"
      using Node.prems shape_root_parent [of h x "tleft (h x)" l] by auto
    have r: "shape h x (tright (h x)) r" "tright (h x) \<noteq> 0 \<Longrightarrow> tright (h x) \<in> set_tree r"
      "tright (h x) \<noteq> 0 \<Longrightarrow> tparent (h (tright (h x))) = x" "x \<notin> set_tree r"
      using Node.prems shape_root_parent [of h x "tright (h x)" r] by auto
    consider "a = x" | "a \<in> set_tree l" | "a \<in> set_tree r" using Node.prems(3) by auto
    then show ?case
    proof cases
      case 1
      then show ?thesis using Node.prems l r shape_not_zero [OF Node.prems(1)] by auto
    next
      case 2
      have "q \<notin> set_tree l" "distinct (inorder l)" using Node.prems by auto
      then show ?thesis using Node.IH(1) [OF l(1) _ 2 l(4)] Node.prems(1) by auto
    next
      case 3
      have "q \<notin> set_tree r" "distinct (inorder r)" using Node.prems by auto
      then show ?thesis using Node.IH(2) [OF r(1) _ 3 r(4)] Node.prems(1) by auto
    qed
  qed
  then show "tleft (h a) \<noteq> a" "tright (h a) \<noteq> a" "tparent (h a) \<noteq> a"
    "tleft (h a) \<noteq> 0 \<Longrightarrow> tleft (h a) \<in> set_tree t \<and> tparent (h (tleft (h a))) = a \<and> tright (h a) \<noteq> tleft (h a)"
    "tright (h a) \<noteq> 0 \<Longrightarrow> tright (h a) \<in> set_tree t \<and> tparent (h (tright (h a))) = a"
    "tparent (h a) = q \<and> a = p \<or> tparent (h a) \<in> set_tree t
      \<and> (tleft (h (tparent (h a))) = a \<or> tright (h (tparent (h a))) = a)" by auto
qed

text \<open>Renaming a node of a tree: the records that change are those that mention it.\<close>

definition rename_links :: "(addr \<Rightarrow> addr) \<Rightarrow> psync_tree \<Rightarrow> psync_tree" where
  "rename_links f n = n\<lparr>tleft := f (tleft n), tright := f (tright n), tparent := f (tparent n)\<rparr>"

lemma rename_links_sel [simp]:
  "tleft (rename_links f n) = f (tleft n)" "tright (rename_links f n) = f (tright n)"
  "tparent (rename_links f n) = f (tparent n)" "theight (rename_links f n) = theight n"
  by (simp_all add: rename_links_def)

fun rename_step :: "(addr \<Rightarrow> addr) \<Rightarrow> step \<Rightarrow> step" where
  "rename_step f (InLeft a r) = InLeft (f a) (map_tree f r)"
| "rename_step f (InRight l a) = InRight (map_tree f l) (f a)"

definition renamed :: "(addr \<Rightarrow> addr) \<Rightarrow> addr set \<Rightarrow> theap \<Rightarrow> theap \<Rightarrow> bool" where
  "renamed f A h h' \<longleftrightarrow> f 0 = 0 \<and> (\<forall>a\<in>A. f a \<noteq> 0 \<and> h' (f a) = rename_links f (h a))"

lemma renamed_mono: "renamed f A h h' \<Longrightarrow> B \<subseteq> A \<Longrightarrow> renamed f B h h'"
  by (auto simp: renamed_def)

lemma shape_rename: "shape h q p t \<Longrightarrow> renamed f (set_tree t) h h' \<Longrightarrow> shape h' (f q) (f p) (map_tree f t)"
  by (induction h q p t rule: shape.induct) (auto simp: renamed_def)

lemma avl_rename: "avl h t \<Longrightarrow> renamed f (set_tree t) h h' \<Longrightarrow> avl h' (map_tree f t)"
  by (induction h t rule: avl.induct) (auto simp: renamed_def)

lemma cshape_rename:
  "cshape h root c p q \<Longrightarrow> renamed f (cnodes c) h h' \<Longrightarrow> cshape h' (f root) (map (rename_step f) c) (f p) (f q)"
  by (induction h root c p q rule: cshape.induct)
     (auto simp: renamed_def intro!: shape_rename)

lemma cavl_rename: "cavl h c n \<Longrightarrow> renamed f (cnodes c) h h' \<Longrightarrow> cavl h' (map (rename_step f) c) n"
  by (induction h c n rule: cavl.induct) (auto simp: renamed_def intro!: avl_rename)

lemma plug_rename: "plug (map (rename_step f) c) (map_tree f t) = map_tree f (plug c t)"
  by (induction c t rule: plug.induct) auto

lemma hole_parent_rename: "f 0 = 0 \<Longrightarrow> hole_parent (map (rename_step f) c) = f (hole_parent c)"
  by (cases c rule: hole_parent.cases) auto

text \<open>The node \<open>el\<close>, not yet in the tree, takes the place of \<open>node\<close>.\<close>

lemma take_place_correct:
  assumes t: "shape h 0 root t" "distinct (inorder t)" "node \<in> set_tree t"
    and el: "el \<notin> set_tree t" "el \<noteq> 0"
  defines "f \<equiv> id(node := el)"
  shows "\<exists>h'. take_place root node el h = Some (f root, h') \<and> renamed f (set_tree t) h h'
    \<and> same_on (- insert el (set_tree t)) h h'"
proof -
  let ?L = "tleft (h node)" and ?R = "tright (h node)" and ?P = "tparent (h node)"
  have nz: "0 \<notin> set_tree t" using shape_not_zero [OF t(1)] .
  note lk = shape_links [OF t(1,2) _ nz]
  have n0: "node \<noteq> 0" "0 \<noteq> el" using t(3) nz el(2) by metis+
  have "node \<noteq> el" "?L \<noteq> el" "?R \<noteq> el" "?P \<noteq> el"
    using t(3) el(1) n0 lk(4-6) [OF t(3)] by auto
  note n = n0(1) this
  have P0: "?P = 0 \<longleftrightarrow> node = root"
    using lk(6) [OF t(3)] nz shape_root_parent [OF t(1)] n(1) by auto
  define g where "g = (\<lambda>x. if x = el then h node else
    (h x)\<lparr>tparent := if x \<noteq> 0 \<and> (x = ?L \<or> x = ?R) then el else tparent (h x)\<rparr>)"
  have g: "tleft (g x) = tleft (h x)" "tright (g x) = tright (h x)" if "x \<noteq> el" for x
    using that by (auto simp: g_def)
  have gn: "g node = h node" "g el = h node"
    using n lk(1,2) [OF t(3)] by (simp_all add: g_def)
  define h0 where "h0 = h(el := h node)"
  define k where "k = reparent ?L el h0"
  have h0n: "h0 node = h node" using n(2) by (simp add: h0_def)
  have kn: "k node = h node" using n(2) lk(1) [OF t(3)] h0n by (simp add: k_def reparent_def)
  have kg: "reparent ?R el k = g"
    using n by (intro ext) (auto simp: k_def h0_def g_def reparent_def)
  have tp: "take_place root node el h =
      (if ?P \<noteq> 0 then if tleft (g ?P) = node then Some (root, set_left ?P el g)
         else if tright (g ?P) = node then Some (root, set_right ?P el g) else None
       else if node = root then Some (el, g) else None)"
    unfolding take_place_def h0_def [symmetric] Let_def h0n k_def [symmetric] kn kg gn ..
  define h' where "h' = (if ?P = 0 then g else if tleft (h ?P) = node then set_left ?P el g else set_right ?P el g)"
  have "take_place root node el h = Some (f root, h')"
  proof (cases "?P = 0")
    case True
    then show ?thesis unfolding tp using P0 by (simp add: h'_def f_def)
  next
    case False
    then have "tleft (h ?P) = node \<or> tright (h ?P) = node" "root \<noteq> node"
      using lk(6) [OF t(3)] P0 by auto
    then show ?thesis unfolding tp using False n(5) by (auto simp: h'_def f_def g)
  qed
  moreover have "renamed f (set_tree t) h h'"
  proof -
    have "f a \<noteq> 0 \<and> h' (f a) = rename_links f (h a)" if a: "a \<in> set_tree t" for a
    proof (cases "a = node")
      case True
      have "h' el = h node" using n(5) gn(2) by (simp add: h'_def)
      then show ?thesis using True lk(1-3) [OF t(3)] el(2) by (simp add: f_def rename_links_def)
    next
      case False
      have a0: "a \<noteq> 0" "a \<noteq> el" using a nz el(1) by metis+
      have "tleft (h a) = node \<longleftrightarrow> a = ?P \<and> tleft (h ?P) = node"
        using lk(4) [OF a] n(1) by metis
      moreover have "tright (h a) = node \<longleftrightarrow> a = ?P \<and> tleft (h ?P) \<noteq> node"
        using lk(4,5) [OF a] lk(6) [OF t(3)] n(1) a0(1) by metis
      moreover have "tparent (h a) = node \<longleftrightarrow> a = ?L \<or> a = ?R"
        using lk(6) [OF a] lk(4,5) [OF t(3)] n(1) a0(1) by metis
      ultimately have eq: "tleft (h a) = node \<longleftrightarrow> a = ?P \<and> tleft (h ?P) = node"
        "tright (h a) = node \<longleftrightarrow> a = ?P \<and> tleft (h ?P) \<noteq> node"
        "tparent (h a) = node \<longleftrightarrow> a = ?L \<or> a = ?R" "a \<noteq> el" "a \<noteq> 0"
        using a0 by blast+
      have "h' a = (g a)\<lparr>tleft := if a = ?P \<and> tleft (h ?P) = node then el else tleft (h a),
          tright := if a = ?P \<and> tleft (h ?P) \<noteq> node then el else tright (h a)\<rparr>"
        using eq(4,5) by (auto simp: h'_def g_def)
      then show ?thesis using False eq by (simp add: f_def g_def rename_links_def)
    qed
    then show ?thesis using n(1) by (simp add: renamed_def f_def)
  qed
  moreover have "same_on (- insert el (set_tree t)) h h'"
    using lk(4-6) [OF t(3)] nz by (auto simp: same_on_def h'_def g_def)
  ultimately show ?thesis by blast
qed

lemma link_hole_outside: "a \<noteq> s \<Longrightarrow> a \<notin> cnodes c \<Longrightarrow> link_hole c s h a = h a"
  by (cases "(c, s, h)" rule: link_hole.cases) (auto simp: Let_def)

text \<open>
  The node \<open>el\<close>, with at most one child, is taken out of its place and put into that of \<open>node\<close>, which
  is above it.
\<close>

lemma move_into_place:
  assumes t: "tree_at h root (plug c (Node A el B))" and node: "node \<in> cnodes c"
    and S: "A = Leaf \<and> S = B \<and> s = tright (h el) \<or> B = Leaf \<and> S = A \<and> s = tleft (h el)"
  defines "f \<equiv> id(node := el)" and "h1 \<equiv> link_hole c s h"
  shows "tparent (h1 el) = hole_parent c \<and> (\<exists>root' h'. Option.bind (take_place root node el h1)
      (\<lambda>(tree, h). psync_tree_go_up_rebalance_del tree (f (hole_parent c)) h) = Some (root', h')
    \<and> contents h' root' (map f (cpre c @ inorder S @ cpost c))
    \<and> same_on (- set_tree (plug c (Node A el B))) h h')"
proof -
  obtain q where c: "cshape h root c el q" "shape h q el (Node A el B)"
    using t by (auto simp: tree_at_def shape_plug)
  have av: "avl h (Node A el B)" "cavl h c (ht (Node A el B))"
    and d: "distinct (inorder (plug c (Node A el B)))"
    using t by (auto simp: tree_at_def avl_plug)
  have ne: "c \<noteq> []" using node by auto
  have s: "shape h el s S" "avl h S" "ht (Node A el B) = ht S + 1" "distinct (inorder S)"
    using S c(2) av(1) d by (auto simp: inorder_plug)
  have dS: "distinct (cpre c @ cpost c)" "set_tree S \<inter> cnodes c = {}" "distinct (inorder (plug c S))"
    "set_tree S \<subseteq> set_tree (Node A el B)" "el \<notin> set_tree (plug c S)" "el \<noteq> 0"
    using S d c(2) by (auto simp: inorder_plug set_plug)
  have sp: "cshape h1 root c s q" "shape h1 q s S"
    using splice [OF c(1) s(1,4) dS(1,2)] ne by (auto simp: h1_def)
  have sav: "avl h1 S" "cavl h1 c (ht (Node A el B))"
    using s(2) av(2) by (auto intro: avl_heights cavl_heights simp: link_hole_height h1_def)
  have s0: "s \<noteq> 0 \<Longrightarrow> s \<in> set_tree S" using shape_root_in [OF s(1)] .
  have "el \<noteq> s" using s0 dS(5,6) by (auto simp: set_plug)
  then have "h1 el = h el" unfolding h1_def using dS(5) by (intro link_hole_outside) (auto simp: set_plug)
  then have par: "tparent (h1 el) = hole_parent c" using c cshape_parent [OF c(1)] by simp
  have T: "shape h1 0 root (plug c S)" "node \<in> set_tree (plug c S)"
    using sp node by (auto simp: shape_plug set_plug)
  obtain h2 where h2: "take_place root node el h1 = Some (f root, h2)"
    "renamed f (set_tree (plug c S)) h1 h2" "same_on (- insert el (set_tree (plug c S))) h1 h2"
    using take_place_correct [OF T(1) dS(3) T(2) dS(5,6)] unfolding f_def by blast
  have ren: "renamed f (cnodes c) h1 h2" "renamed f (set_tree S) h1 h2"
    using h2(2) by (auto intro: renamed_mono simp: set_plug)
  have inj: "inj_on f (set_tree (plug c S))" using dS(5) by (auto simp: f_def inj_on_def)
  have dm: "distinct (inorder (plug (map (rename_step f) c) (map_tree f S)))"
    using inj dS(3) by (simp add: plug_rename inorder_map distinct_map)
  have hts: "ht (map_tree f S) = ht S" by simp
  obtain root' h' t' where up: "psync_tree_go_up_rebalance_del (f root) (f (hole_parent c)) h2 = Some (root', h')"
    "tree_at h' root' t'" "inorder t' = map f (inorder (plug c S))"
    "same_on (- set_tree (map_tree f (plug c S))) h2 h'"
    using go_up_from_hole [OF cshape_rename [OF sp(1) ren(1)] _ shape_rename [OF sp(2) ren(2)]
        avl_rename [OF sav(1) ren(2)] cavl_rename [OF sav(2) ren(1)] _ dm] ne s(3) ren(1)
    by (auto simp: plug_rename inorder_map hole_parent_rename renamed_def)
  have "same_on (- set_tree (plug c (Node A el B))) h h1"
    unfolding h1_def
  proof (rule same_on_mono [OF link_hole_same])
    show "- set_tree (plug c (Node A el B)) \<subseteq> - ((if s = 0 then {} else {s}) \<union> cnodes c)"
      using s0 dS(4) by (auto simp: set_plug)
  qed
  moreover have "same_on (- set_tree (plug c (Node A el B))) h1 h2"
    by (rule same_on_mono [OF h2(3)]) (use dS(4) in \<open>auto simp: set_plug\<close>)
  moreover have "same_on (- set_tree (plug c (Node A el B))) h2 h'"
    by (rule same_on_mono [OF up(4)]) (use dS(4) in \<open>auto simp: set_plug tree.set_map f_def\<close>)
  ultimately have "same_on (- set_tree (plug c (Node A el B))) h h'"
    using same_on_trans by blast
  then show ?thesis using par h2(1) up(1-3) by (auto simp: contents_def inorder_plug)
qed

lemma take_last_of_left_correct:
  assumes t: "tree_at h root (plug c (Node l node r))" and l: "l \<noteq> Leaf"
  obtains d el A where "l = plug d (Node A el Leaf)" "cpost d = []"
    "take_last_of_left node h = Some (el, link_hole (d @ InLeft node r # c) (tleft (h el)) h)"
proof -
  obtain q where n: "shape h q node (Node l node r)" using t by (auto simp: tree_at_def shape_plug)
  obtain d el A where el: "go_right h (tleft (h node)) = Some el" "l = plug d (Node A el Leaf)" "cpost d = []"
    using go_right_correct [of h node "tleft (h node)" l] n l by auto
  let ?c = "d @ InLeft node r # c"
  have "shape h 0 root (plug ?c (Node A el Leaf))" using t by (simp add: tree_at_def el(2) plug_append)
  then obtain p where c: "cshape h root ?c el p" "shape h p el (Node A el Leaf)"
    unfolding shape_plug by auto
  have d: "distinct (inorder (plug c (Node l node r)))" using t by (simp add: tree_at_def)
  have up: "tparent (h (tleft (h node))) = node" using n l by (cases l) auto
  have elp: "tparent (h el) = hole_parent ?c" using c cshape_parent [OF c(1)] by simp
  have "take_last_of_left node h = Some (el, link_hole ?c (tleft (h el)) h)"
  proof (cases d)
    case Nil
    have "el = tleft (h node)" using c(1) by (simp add: Nil)
    moreover have "el \<noteq> node" using d by (auto simp: el(2) inorder_plug)
    ultimately show ?thesis using el(1) elp by (simp add: take_last_of_left_def Nil Let_def)
  next
    case (Cons x d')
    then obtain m a where x: "x = InRight m a" using el(3) by (cases x) auto
    have "a \<noteq> node" using d by (auto simp: el(2) Cons x inorder_plug)
    then have "el \<noteq> tleft (h node)" using up elp by (auto simp: Cons x)
    then show ?thesis using el(1) elp by (simp add: take_last_of_left_def Cons x Let_def)
  qed
  then show thesis using el(2,3) that by blast
qed

lemma take_first_of_right_correct:
  assumes t: "tree_at h root (plug c (Node l node r))" and r: "r \<noteq> Leaf"
  obtains d el B where "r = plug d (Node Leaf el B)" "cpre d = []"
    "take_first_of_right node h = Some (el, link_hole (d @ InRight l node # c) (tright (h el)) h)"
proof -
  obtain q where n: "shape h q node (Node l node r)" using t by (auto simp: tree_at_def shape_plug)
  obtain d el B where el: "go_left h (tright (h node)) = Some el" "r = plug d (Node Leaf el B)" "cpre d = []"
    using go_left_correct [of h node "tright (h node)" r] n r by auto
  let ?c = "d @ InRight l node # c"
  have "shape h 0 root (plug ?c (Node Leaf el B))" using t by (simp add: tree_at_def el(2) plug_append)
  then obtain p where c: "cshape h root ?c el p" "shape h p el (Node Leaf el B)"
    unfolding shape_plug by auto
  have d: "distinct (inorder (plug c (Node l node r)))" using t by (simp add: tree_at_def)
  have up: "tparent (h (tright (h node))) = node" using n r by (cases r) auto
  have elp: "tparent (h el) = hole_parent ?c" using c cshape_parent [OF c(1)] by simp
  have "take_first_of_right node h = Some (el, link_hole ?c (tright (h el)) h)"
  proof (cases d)
    case Nil
    have "el = tright (h node)" using c(1) by (simp add: Nil)
    moreover have "el \<noteq> node" using d by (auto simp: el(2) inorder_plug)
    ultimately show ?thesis using el(1) elp by (simp add: take_first_of_right_def Nil Let_def)
  next
    case (Cons x d')
    then obtain m a where x: "x = InLeft a m" using el(3) by (cases x) auto
    have "a \<noteq> node" using d by (auto simp: el(2) Cons x inorder_plug)
    then have "el \<noteq> tright (h node)" using up elp by (auto simp: Cons x)
    then show ?thesis using el(1) elp by (simp add: take_first_of_right_def Cons x Let_def)
  qed
  then show thesis using el(2,3) that by blast
qed

lemma map_put: "node \<notin> set xs \<Longrightarrow> map (id(node := el)) xs = xs"
  by (rule map_idI) auto

lemma get_del_inner:
  assumes t: "tree_at h root (plug c (Node l node r))" and lr: "l \<noteq> Leaf" "r \<noteq> Leaf"
  shows "\<exists>root' h'. psync_tree_get_del root node h = Some (root', h')
    \<and> contents h' root' (cpre c @ inorder l @ inorder r @ cpost c)
    \<and> same_on (- set_tree (plug c (Node l node r))) h h'"
proof -
  obtain q where n: "shape h q node (Node l node r)" using t by (auto simp: tree_at_def shape_plug)
  have nz: "node \<noteq> 0" "tleft (h node) \<noteq> 0" "tright (h node) \<noteq> 0"
    using n lr shape_root [of h node _ l] shape_root [of h node _ r] by auto
  have d: "distinct (inorder (plug c (Node l node r)))" using t by (simp add: tree_at_def)
  have nin: "node \<notin> set (cpre c @ inorder l @ inorder r @ cpost c)"
    using d by (auto simp: inorder_plug)
  show ?thesis
  proof (cases "theight (h (tleft (h node))) > theight (h (tright (h node)))")
    case True
    obtain e el A where e: "l = plug e (Node A el Leaf)" "cpost e = []"
      "take_last_of_left node h = Some (el, link_hole (e @ InLeft node r # c) (tleft (h el)) h)"
      using take_last_of_left_correct [OF t lr(1)] .
    have mv: "tree_at h root (plug (e @ InLeft node r # c) (Node A el Leaf))"
      using t by (simp add: e(1) plug_append)
    have "map (id(node := el)) (cpre (e @ InLeft node r # c) @ inorder A @ cpost (e @ InLeft node r # c))
        = cpre c @ inorder l @ inorder r @ cpost c"
      using nin by (simp add: e(1,2) cpre_append cpost_append inorder_plug map_put)
    then show ?thesis
      using move_into_place [OF mv, of node A "tleft (h el)"] nz True e(3)
      by (auto simp: psync_tree_get_del_def Let_def cpre_append cpost_append plug_append e(1))
  next
    case False
    obtain e el B where e: "r = plug e (Node Leaf el B)" "cpre e = []"
      "take_first_of_right node h = Some (el, link_hole (e @ InRight l node # c) (tright (h el)) h)"
      using take_first_of_right_correct [OF t lr(2)] .
    have mv: "tree_at h root (plug (e @ InRight l node # c) (Node Leaf el B))"
      using t by (simp add: e(1) plug_append)
    have "map (id(node := el)) (cpre (e @ InRight l node # c) @ inorder B @ cpost (e @ InRight l node # c))
        = cpre c @ inorder l @ inorder r @ cpost c"
      using nin by (simp add: e(1,2) cpre_append cpost_append inorder_plug map_put)
    then show ?thesis
      using move_into_place [OF mv, of node B "tright (h el)"] nz False e(3)
      by (auto simp: psync_tree_get_del_def Let_def cpre_append cpost_append plug_append e(1))
  qed
qed

lemma get_del_correct:
  assumes "contents h root (xs @ node # ys)"
  shows "\<exists>root' h'. psync_tree_get_del root node h = Some (root', h') \<and> contents h' root' (xs @ ys)
    \<and> same_on (- set (xs @ node # ys)) h h'"
proof -
  obtain c l r where t: "tree_at h root (plug c (Node l node r))"
    "xs = cpre c @ inorder l" "ys = inorder r @ cpost c"
    using contents_split [OF assms] .
  obtain q where n: "shape h q node (Node l node r)" using t(1) by (auto simp: tree_at_def shape_plug)
  have ch: "node \<noteq> 0" "tleft (h node) = 0 \<longleftrightarrow> l = Leaf" "tright (h node) = 0 \<longleftrightarrow> r = Leaf"
    using n shape_root [of h node _ l] shape_root [of h node _ r] by auto
  have st: "set (xs @ node # ys) = set_tree (plug c (Node l node r))" by (auto simp: t(2,3) set_plug)
  show ?thesis
  proof (cases "l = Leaf \<or> r = Leaf")
    case True
    define S s where "S = (if l = Leaf then r else l)" and "s = (if l = Leaf then tright (h node) else tleft (h node))"
    have "psync_tree_get_del root node h = psync_tree_replace_me_with root node s h"
      using True ch by (auto simp: psync_tree_get_del_def s_def)
    moreover have "l = Leaf \<and> S = r \<and> s = tright (h node) \<or> r = Leaf \<and> S = l \<and> s = tleft (h node)"
      using True by (auto simp: S_def s_def)
    moreover have "xs @ ys = cpre c @ inorder S @ cpost c" using True by (auto simp: t(2,3) S_def)
    ultimately show ?thesis
      using replace_me_with_correct [OF t(1), of S s] unfolding st by (auto simp: contents_def)
  next
    case False
    then show ?thesis using get_del_inner [OF t(1)] unfolding st by (simp add: t(2,3))
  qed
qed

end
