(* ===== verification/PTreeWalk.thy ===== *)
theory PTreeWalk
  imports PTreeDel
begin

text \<open>
  Walking over the AVL tree of \<^verbatim>\<open>ptree.h\<close> in order and with removal, searching the place of a new node,
  and the properties of the tree's operations.
\<close>

section \<open>In order\<close>

lemma up_from_right_correct:
  "cshape h root c a q \<Longrightarrow> tparent (h a) = q \<Longrightarrow> a \<noteq> 0 \<Longrightarrow> a \<notin> cnodes c \<Longrightarrow> distinct (cpre c @ cpost c)
   \<Longrightarrow> up_from_right h a = Some (case cpost c of [] \<Rightarrow> 0 | y # _ \<Rightarrow> y)"
proof (induction h root c a q rule: cshape.induct)
  case (1 h root p q)
  then show ?case by (subst up_from_right.simps) simp
next
  case (2 h root a r c p q)
  have "p \<noteq> tright (h a)" using 2 shape_root_in [of h a "tright (h a)" r] by auto
  then show ?case using 2 by (subst up_from_right.simps) auto
next
  case (3 h root l a c p q)
  then have "up_from_right h p = up_from_right h a" by (subst up_from_right.simps) auto
  moreover have "a \<notin> cnodes c" "distinct (cpre c @ cpost c)" using 3 by auto
  ultimately show ?case using 3 by auto
qed

lemma up_from_left_correct:
  "cshape h root c a q \<Longrightarrow> tparent (h a) = q \<Longrightarrow> a \<noteq> 0 \<Longrightarrow> a \<notin> cnodes c \<Longrightarrow> distinct (cpre c @ cpost c)
   \<Longrightarrow> up_from_left h a = Some (if cpre c = [] then 0 else last (cpre c))"
proof (induction h root c a q rule: cshape.induct)
  case (1 h root p q)
  then show ?case by (subst up_from_left.simps) simp
next
  case (2 h root a r c p q)
  then have "up_from_left h p = up_from_left h a" by (subst up_from_left.simps) auto
  moreover have "a \<notin> cnodes c" "distinct (cpre c @ cpost c)" using 2 by auto
  ultimately show ?case using 2 by auto
next
  case (3 h root l a c p q)
  have "p \<noteq> tleft (h a)" using 3 shape_root_in [of h a "tleft (h a)" l] by auto
  then show ?case using 3 by (subst up_from_left.simps) auto
qed

lemma go_left_hd: "shape h q p t \<Longrightarrow> t \<noteq> Leaf \<Longrightarrow> go_left h p = Some (hd (inorder t))"
  using go_left_correct [of h q p t] by (auto simp: inorder_plug)

lemma go_right_last: "shape h q p t \<Longrightarrow> t \<noteq> Leaf \<Longrightarrow> go_right h p = Some (last (inorder t))"
  using go_right_correct [of h q p t] by (auto simp: inorder_plug)

lemma get_first_correct:
  "contents h root xs \<Longrightarrow> psync_tree_get_first h root = Some (if xs = [] then 0 else hd xs)"
  using go_left_hd [of h 0 root] shape_root [of h 0 root]
  by (auto simp: contents_def tree_at_def psync_tree_get_first_def)

lemma get_last_correct:
  "contents h root xs \<Longrightarrow> psync_tree_get_last h root = Some (if xs = [] then 0 else last xs)"
  using go_right_last [of h 0 root] shape_root [of h 0 root]
  by (auto simp: contents_def tree_at_def psync_tree_get_last_def)

lemma get_next_correct:
  assumes "contents h root (xs @ a # ys)"
  shows "psync_tree_get_next h a = Some (case ys of [] \<Rightarrow> 0 | y # _ \<Rightarrow> y)"
proof -
  obtain c l r where t: "tree_at h root (plug c (Node l a r))" "ys = inorder r @ cpost c"
    using contents_split [OF assms] .
  have d: "distinct (inorder (plug c (Node l a r)))" using t(1) by (simp add: tree_at_def)
  obtain q where c: "cshape h root c a q" "shape h q a (Node l a r)"
    using t(1) by (auto simp: tree_at_def shape_plug)
  show ?thesis
  proof (cases "r = Leaf")
    case True
    then show ?thesis
      using up_from_right_correct [OF c(1)] c(2) d t(2) by (auto simp: psync_tree_get_next_def inorder_plug)
  next
    case False
    then show ?thesis
      using go_left_hd [of h a "tright (h a)" r] c(2) t(2) shape_root [of h a "tright (h a)" r]
      by (cases "inorder r") (auto simp: psync_tree_get_next_def)
  qed
qed

lemma get_prev_correct:
  assumes "contents h root (xs @ a # ys)"
  shows "psync_tree_get_prev h a = Some (if xs = [] then 0 else last xs)"
proof -
  obtain c l r where t: "tree_at h root (plug c (Node l a r))" "xs = cpre c @ inorder l"
    using contents_split [OF assms] .
  have d: "distinct (inorder (plug c (Node l a r)))" using t(1) by (simp add: tree_at_def)
  obtain q where c: "cshape h root c a q" "shape h q a (Node l a r)"
    using t(1) by (auto simp: tree_at_def shape_plug)
  show ?thesis
  proof (cases "l = Leaf")
    case True
    then show ?thesis
      using up_from_left_correct [OF c(1)] c(2) d t(2)
      by (auto simp: psync_tree_get_prev_def inorder_plug Int_Un_distrib)
  next
    case False
    then have "inorder l \<noteq> []" by (cases l) auto
    then show ?thesis
      using go_right_last [of h a "tleft (h a)" l] c(2) t(2) False shape_root [of h a "tleft (h a)" l]
      by (auto simp: psync_tree_get_prev_def)
  qed
qed

text \<open>The macros \<^verbatim>\<open>psync_tree_for_each\<close>: the nodes in the order of the visit.\<close>

partial_function (option) walk_from :: "theap \<Rightarrow> addr \<Rightarrow> addr list option" where
  "walk_from h a = (if a = 0 then Some []
     else Option.bind (psync_tree_get_next h a) 
            (\<lambda>b. Option.bind (walk_from h b) (\<lambda>l. Some (a # l))))"

definition psync_tree_for_each :: "theap \<Rightarrow> addr \<Rightarrow> addr list option" where
  "psync_tree_for_each h l = Option.bind (psync_tree_get_first h l) (walk_from h)"

lemma walk_from_correct:
  "contents h root (xs @ ys) \<Longrightarrow> walk_from h (case ys of [] \<Rightarrow> 0 | y # _ \<Rightarrow> y) = Some ys"
proof (induction ys arbitrary: xs)
  case Nil
  then show ?case by (subst walk_from.simps) simp
next
  case (Cons a ys)
  have "a \<noteq> 0" using contents_nodes [OF Cons.prems] by auto
  moreover have "walk_from h (case ys of [] \<Rightarrow> 0 | y # _ \<Rightarrow> y) = Some ys"
    using Cons.IH [of "xs @ [a]"] Cons.prems by simp
  ultimately show ?case
    using get_next_correct [OF Cons.prems] by (subst walk_from.simps) simp
qed

lemma for_each_correct: "contents h root xs \<Longrightarrow> psync_tree_for_each h root = Some xs"
  using get_first_correct [of h root xs] walk_from_correct [of h root "[]" xs]
  by (cases xs) (auto simp: psync_tree_for_each_def)

section \<open>Children first\<close>

text \<open>
  The macro \<^verbatim>\<open>psync_tree_for_each_element_call_safe\<close>: the next node is found before the callback runs,
  which may free the current one. \<open>c a h\<close> is the heap after the callback on \<open>a\<close>.
\<close>

partial_function (option) call_safe_from ::
  "(addr \<Rightarrow> theap \<Rightarrow> theap) \<Rightarrow> theap \<Rightarrow> addr \<Rightarrow> (addr list \<times> theap) option" where
  "call_safe_from c h a = (if a = 0 then Some ([], h)
     else Option.bind (psync_tree_get_next_safe h a)
            (\<lambda>b. Option.bind (call_safe_from c (c a h) b) (\<lambda>(l, h). Some (a # l, h))))"

definition psync_tree_for_each_element_call_safe ::
  "(addr \<Rightarrow> theap \<Rightarrow> theap) \<Rightarrow> theap \<Rightarrow> addr \<Rightarrow> (addr list \<times> theap) option" where
  "psync_tree_for_each_element_call_safe c h l =
     Option.bind (psync_tree_get_first_safe h l) (call_safe_from c h)"

lemma go_leaf_Node:
  "shape h q p (Node l a r) \<Longrightarrow> go_leaf h p =
    (if l \<noteq> Leaf then go_leaf h (tleft (h a)) else if r \<noteq> Leaf then go_leaf h (tright (h a)) else Some a)"
  using shape_root [of h a "tleft (h a)" l] shape_root [of h a "tright (h a)" r]
  by (subst go_leaf.simps) auto

lemma go_leaf_frame: "shape h q p t \<Longrightarrow> same_on (set_tree t) h k \<Longrightarrow> go_leaf k p = go_leaf h p"
proof (induction t arbitrary: q p)
  case Leaf
  then show ?case by (simp add: go_leaf.simps)
next
  case (Node l a r)
  have "tleft (k a) = tleft (h a)" "tright (k a) = tright (h a)" using Node.prems(2) by (auto simp: same_on_def)
  moreover have "go_leaf k (tleft (h a)) = go_leaf h (tleft (h a))"
    using Node.prems by (intro Node.IH(1) [of a]) (auto simp: same_on_def)
  moreover have "go_leaf k (tright (h a)) = go_leaf h (tright (h a))"
    using Node.prems by (intro Node.IH(2) [of a]) (auto simp: same_on_def)
  ultimately show ?case
    using go_leaf_Node [OF Node.prems(1)] go_leaf_Node [OF shape_frame [OF Node.prems]] by simp
qed

text \<open>
  From the first leaf of a subtree the walk reaches the root of the subtree, with all nodes below it
  visited and nothing outside them touched.
\<close>

definition reaches :: "(addr \<Rightarrow> theap \<Rightarrow> theap) \<Rightarrow> theap \<Rightarrow> addr \<Rightarrow> addr tree \<Rightarrow> bool" where
  "reaches c h p t \<longleftrightarrow> (\<exists>b h'. go_leaf h p = Some b \<and> b \<noteq> 0
     \<and> call_safe_from c h b = map_option (\<lambda>(l, k). (butlast (postorder t) @ l, k)) (call_safe_from c h' p)
     \<and> same_on (- (set_tree t - {p})) h h')"

lemma bind_map: "Option.bind m (\<lambda>(l, k). Some (a # l, k)) = map_option (\<lambda>(l, k). (a # l, k)) m"
  by (cases m) auto

lemma map_option_append:
  "map_option (\<lambda>(l, k). (xs @ l, k)) (map_option (\<lambda>(l, k). (ys @ l, k)) m)
     = map_option (\<lambda>(l, k). ((xs @ ys) @ l, k)) m"
  "map_option (\<lambda>(l, k). (xs @ l, k)) (map_option (\<lambda>(l, k). (a # l, k)) m)
     = map_option (\<lambda>(l, k). ((xs @ [a]) @ l, k)) m"
  "map_option (\<lambda>(l, k). ([] @ l, k)) m = m"
  by (cases m; auto)+

lemma call_safe_root:
  assumes "p \<noteq> 0" "psync_tree_get_next_safe h p = Some b"
  shows "call_safe_from c h p = map_option (\<lambda>(l, k). (p # l, k)) (call_safe_from c (c p h) b)"
  using assms by (subst call_safe_from.simps) (simp add: bind_map)

lemma postorder_last: "t \<noteq> Leaf \<Longrightarrow> shape h q p t \<Longrightarrow> postorder t = butlast (postorder t) @ [p]"
  by (cases t) (auto simp: butlast_append)

lemma same_on_step:
  "same_on (- (A - {p})) h h1 \<Longrightarrow> same_on (- {p}) h1 h2 \<Longrightarrow> p \<in> A \<Longrightarrow> same_on (- A) h h2"
  unfolding same_on_def by (metis ComplD ComplI DiffE singletonD)

lemma reaches_correct:
  assumes c: "\<And>a h. same_on (- {a}) h (c a h)"
  shows "shape h q p t \<Longrightarrow> distinct (inorder t) \<Longrightarrow> t \<noteq> Leaf \<Longrightarrow> reaches c h p t"
proof (induction t arbitrary: h q p)
  case Leaf
  then show ?case by simp
next
  case (Node l a r)
  let ?x = "tleft (h a)" and ?y = "tright (h a)"
  have p: "p = a" "a \<noteq> 0" and l: "shape h a ?x l" and r: "shape h a ?y r"
    and d: "a \<notin> set_tree l" "a \<notin> set_tree r" "set_tree l \<inter> set_tree r = {}"
      "distinct (inorder l)" "distinct (inorder r)"
    using Node.prems by auto
  note first = go_leaf_Node [OF Node.prems(1)]
  have right: "\<exists>b h'. go_leaf k ?y = Some b \<and> b \<noteq> 0
      \<and> call_safe_from c k b = map_option (\<lambda>(m, j). (postorder r @ m, j)) (call_safe_from c h' a)
      \<and> same_on (- set_tree r) k h'" if k: "same_on (insert a (set_tree r)) h k" "r \<noteq> Leaf" for k
  proof -
    have kr: "shape k a ?y r" by (rule shape_frame [OF r]) (use k in \<open>auto simp: same_on_def\<close>)
    have y: "?y \<noteq> 0" "?y \<in> set_tree r" "?y \<noteq> a"
      using shape_root_in [OF r] shape_root [OF r] k(2) d(2) by auto
    obtain b h1 where b: "go_leaf k ?y = Some b" "b \<noteq> 0"
      "call_safe_from c k b = map_option (\<lambda>(m, j). (butlast (postorder r) @ m, j)) (call_safe_from c h1 ?y)"
      "same_on (- (set_tree r - {?y})) k h1"
      using Node.IH(2) [OF kr d(5) k(2)] by (auto simp: reaches_def)
    have "tparent (h1 ?y) = a" "tright (h1 a) = ?y"
      using b(4) k(1) d(2) y shape_root_parent [OF kr] by (auto simp: same_on_def)
    then have "psync_tree_get_next_safe h1 ?y = Some a"
      using y(1) p(2) by (simp add: psync_tree_get_next_safe_def)
    note run = call_safe_root [OF y(1) this, of c]
    have "call_safe_from c k b = map_option (\<lambda>(m, j). (postorder r @ m, j)) (call_safe_from c (c ?y h1) a)"
      unfolding b(3) run map_option_append postorder_last [OF k(2) r, symmetric] ..
    moreover have "same_on (- set_tree r) k (c ?y h1)"
      by (rule same_on_step [OF b(4) c y(2)])
    ultimately show ?thesis using b(1,2) by blast
  qed
  show ?case
  proof (cases "l = Leaf")
    case lL: True
    show ?thesis
    proof (cases "r = Leaf")
      case True
      then have "go_leaf h p = Some p" using first lL p by simp
      then show ?thesis using True lL p
        by (auto simp: reaches_def option.map_id intro!: exI [of _ h] split: option.split)
    next
      case False
      have "go_leaf h p = go_leaf h ?y" using first lL False by simp
      moreover have "- (set_tree (Node l a r) - {p}) \<subseteq> - set_tree r" using p d by auto
      ultimately show ?thesis
        using right [OF same_on_refl False] lL unfolding reaches_def
        by (auto simp: p(1) intro: same_on_mono)
    qed
  next
    case False
    have x: "?x \<noteq> 0" "?x \<in> set_tree l" "?x \<noteq> a" "?x \<noteq> ?y" "?x \<notin> set_tree r"
      using shape_root_in [OF l] shape_root [OF l] False d shape_root_in [OF r] by auto
    obtain b h1 where b: "go_leaf h ?x = Some b" "b \<noteq> 0"
      "call_safe_from c h b = map_option (\<lambda>(m, j). (butlast (postorder l) @ m, j)) (call_safe_from c h1 ?x)"
      "same_on (- (set_tree l - {?x})) h h1"
      using Node.IH(1) [OF l d(4) False] by (auto simp: reaches_def)
    have fst: "go_leaf h p = Some b" using first False b(1) by simp
    have ht: "tparent (h1 ?x) = a" "tright (h1 a) = ?y"
      using b(4) d(1) x shape_root_parent [OF l] by (auto simp: same_on_def)
    have "same_on (- set_tree l) h (c ?x h1)" by (rule same_on_step [OF b(4) c x(2)])
    moreover have "same_on (- set_tree l) h h1" by (rule same_on_mono [OF b(4)]) auto
    moreover have "insert a (set_tree r) \<subseteq> - set_tree l" using d by auto
    ultimately have s1: "same_on (insert a (set_tree r)) h (c ?x h1)" "same_on (- set_tree l) h (c ?x h1)"
      "same_on (insert a (set_tree r)) h h1" using same_on_mono by blast+
    show ?thesis
    proof (cases "r = Leaf")
      case True
      then have "?y = 0" using shape_root [OF r] by simp
      then have "psync_tree_get_next_safe h1 ?x = Some a"
        using ht x(1) p(2) by (simp add: psync_tree_get_next_safe_def)
      note run = call_safe_root [OF x(1) this, of c]
      have "call_safe_from c h b = map_option (\<lambda>(m, j). (postorder l @ m, j)) (call_safe_from c (c ?x h1) a)"
        unfolding b(3) run map_option_append postorder_last [OF False l, symmetric] ..
      moreover have "- (set_tree (Node l a r) - {p}) \<subseteq> - set_tree l" using p d by auto
      ultimately show ?thesis using fst b(2) s1(2) True unfolding reaches_def
        by (auto simp: p(1) intro: same_on_mono)
    next
      case rN: False
      then have y0: "?y \<noteq> 0" using shape_root [OF r] by simp
      have ny: "psync_tree_get_next_safe h1 ?x = go_leaf h1 ?y"
        using ht x(1,4) p(2) y0 by (simp add: psync_tree_get_next_safe_def)
      have fr: "go_leaf (c ?x h1) ?y = go_leaf h1 ?y"
        using go_leaf_frame [OF r same_on_mono [OF s1(1)]] go_leaf_frame [OF r same_on_mono [OF s1(3)]]
        by (simp add: subset_insertI)
      obtain b2 h2 where b2: "go_leaf (c ?x h1) ?y = Some b2"
        "call_safe_from c (c ?x h1) b2 = map_option (\<lambda>(m, j). (postorder r @ m, j)) (call_safe_from c h2 a)"
        "same_on (- set_tree r) (c ?x h1) h2"
        using right [OF s1(1) rN] by blast
      note run = call_safe_root [OF x(1) ny [unfolded fr [symmetric] b2(1)], of c]
      have "call_safe_from c h b
          = map_option (\<lambda>(m, j). ((postorder l @ postorder r) @ m, j)) (call_safe_from c h2 a)"
        unfolding b(3) run b2(2) map_option_append postorder_last [OF False l, symmetric] ..
      moreover have "same_on (- (set_tree (Node l a r) - {p})) h h2"
        using s1(2) b2(3) p(1) d by (auto simp: same_on_def)
      ultimately show ?thesis using fst b(2) p(1) by (auto simp: reaches_def butlast_append)
    qed
  qed
qed

lemma call_safe_correct:
  assumes c: "\<And>a h. same_on (- {a}) h (c a h)" and t: "tree_at h root t"
  shows "\<exists>h'. psync_tree_for_each_element_call_safe c h root = Some (postorder t, h')
    \<and> same_on (- set_tree t) h h'"
proof (cases "t = Leaf")
  case True
  then show ?thesis using t
    by (auto simp: tree_at_def psync_tree_for_each_element_call_safe_def psync_tree_get_first_safe_def
        call_safe_from.simps)
next
  case False
  have s: "shape h 0 root t" "distinct (inorder t)" using t by (auto simp: tree_at_def)
  have root: "root \<noteq> 0" "root \<in> set_tree t" "tparent (h root) = 0"
    using s(1) False shape_root shape_root_parent by blast+
  obtain b h1 where b: "go_leaf h root = Some b"
    "call_safe_from c h b = map_option (\<lambda>(l, k). (butlast (postorder t) @ l, k)) (call_safe_from c h1 root)"
    "same_on (- (set_tree t - {root})) h h1"
    using reaches_correct [OF c s False] by (auto simp: reaches_def)
  have "tparent (h1 root) = 0" using b(3) root(3) by (auto simp: same_on_def)
  then have "psync_tree_get_next_safe h1 root = Some 0"
    using root(1) by (simp add: psync_tree_get_next_safe_def)
  then have "call_safe_from c h b = Some (postorder t, c root h1)"
    unfolding b(2) using root(1) postorder_last [OF False s(1)]
    by (simp add: call_safe_root call_safe_from.simps [of c _ 0])
  moreover have "same_on (- set_tree t) h (c root h1)"
    by (rule same_on_step [OF b(3) c root(2)])
  ultimately show ?thesis
    using root(1) b(1) by (auto simp: psync_tree_for_each_element_call_safe_def psync_tree_get_first_safe_def)
qed

section \<open>Searching the place of a new node\<close>

lemma takeWhile_stop: "\<not> P x \<Longrightarrow> takeWhile P (xs @ x # ys) = takeWhile P xs
    \<and> dropWhile P (xs @ x # ys) = dropWhile P xs @ x # ys"
  by (induction xs) auto

lemma takeWhile_pass: "\<forall>a\<in>set xs. P a \<Longrightarrow> P x \<Longrightarrow> takeWhile P (xs @ x # ys) = xs @ x # takeWhile P ys
    \<and> dropWhile P (xs @ x # ys) = dropWhile P ys"
  by (induction xs) auto

lemma add_search_correct:
  fixes cmp :: "addr \<Rightarrow> addr \<Rightarrow> int" and new :: addr
  defines "P \<equiv> \<lambda>a. 0 \<le> cmp new a"
  assumes "new \<noteq> 0" and new: "new \<notin> set xs"
  shows "contents h root (A @ inorder t @ B) \<Longrightarrow> xs = A @ inorder t @ B \<Longrightarrow> shape h q p t \<Longrightarrow> t \<noteq> Leaf
    \<Longrightarrow> sorted_wrt (\<lambda>a b. P b \<longrightarrow> P a) (inorder t)
    \<Longrightarrow> \<exists>root' h'. add_search cmp root new p h = Some (root', h')
      \<and> contents h' root' (A @ takeWhile P (inorder t) @ new # dropWhile P (inorder t) @ B)
      \<and> same_on (- insert new (set xs)) h h'"
proof (induction t arbitrary: A B q p)
  case Leaf
  then show ?case by simp
next
  case (Node l x r)
  have p: "p = x" "x \<noteq> 0" and l: "shape h x (tleft (h x)) l" and r: "shape h x (tright (h x)) r"
    using Node.prems by auto
  have root: "root \<noteq> 0" using contents_root [OF Node.prems(1)] by auto
  show ?case
  proof (cases "cmp new x < 0")
    case True
    then have st: "takeWhile P (inorder l @ x # inorder r) = takeWhile P (inorder l)"
      "dropWhile P (inorder l @ x # inorder r) = dropWhile P (inorder l) @ x # inorder r"
      using takeWhile_stop [of P x] by (auto simp: P_def)
    show ?thesis
    proof (cases "l = Leaf")
      case lL: True
      then have "add_search cmp root new p h = add_before_node root x new h"
        using True p l root by (subst add_search.simps) (simp add: psync_tree_get_add_before_def)
      then show ?thesis
        using add_before_node_correct [of h root A x "inorder r @ B" new] Node.prems(1,2) new assms(2) lL st
        by simp
    next
      case False
      then have "add_search cmp root new p h = add_search cmp root new (tleft (h x)) h"
        using True p shape_root [OF l] by (subst add_search.simps) simp
      moreover have "sorted_wrt (\<lambda>a b. P b \<longrightarrow> P a) (inorder l)" using Node.prems(5) by (simp add: sorted_wrt_append)
      ultimately show ?thesis
        using Node.IH(1) [of A "x # inorder r @ B", OF _ _ l False] Node.prems(1,2) st by simp
    qed
  next
    case False
    then have "\<forall>a\<in>set (inorder l). P a" "P x" using Node.prems(5) by (auto simp: sorted_wrt_append P_def)
    note st = takeWhile_pass [OF this, of "inorder r"]
    show ?thesis
    proof (cases "r = Leaf")
      case rL: True
      then have "add_search cmp root new p h = add_after_node root x new h"
        using False p r root by (subst add_search.simps) (simp add: psync_tree_get_add_after_def)
      then have "\<exists>root' h'. add_search cmp root new p h = Some (root', h')
          \<and> contents h' root' (A @ (inorder l @ [x]) @ new # [] @ B) \<and> same_on (- insert new (set xs)) h h'"
        using add_after_node_correct [of h root "A @ inorder l" x B new] Node.prems(1,2) new assms(2) rL
        by simp
      moreover have "takeWhile P (inorder (Node l x r)) = inorder l @ [x]" "dropWhile P (inorder (Node l x r)) = []"
        using st rL by simp_all
      ultimately show ?thesis by presburger
    next
      case rN: False
      then have "add_search cmp root new p h = add_search cmp root new (tright (h x)) h"
        using False p shape_root [OF r] by (subst add_search.simps) simp
      moreover have "sorted_wrt (\<lambda>a b. P b \<longrightarrow> P a) (inorder r)" using Node.prems(5) by (simp add: sorted_wrt_append)
      ultimately show ?thesis
        using Node.IH(2) [of "A @ inorder l @ [x]" B, OF _ _ r rN] Node.prems(1,2) st by simp
    qed
  qed
qed

lemma get_add_correct:
  assumes "contents h root xs" "new \<notin> set xs" "new \<noteq> 0"
    and "sorted_wrt (\<lambda>a b. 0 \<le> cmp new b \<longrightarrow> 0 \<le> cmp new a) xs"
  shows "\<exists>root' h'. psync_tree_get_add cmp root new h = Some (root', h')
    \<and> contents h' root' (takeWhile (\<lambda>a. 0 \<le> cmp new a) xs @ new # dropWhile (\<lambda>a. 0 \<le> cmp new a) xs)
    \<and> same_on (- insert new (set xs)) h h'"
proof (cases "root = 0")
  case True
  then have "xs = []" using contents_root [OF assms(1)] by simp
  then show ?thesis
    using True contents_single [OF assms(3)]
    by (simp add: psync_tree_get_add_def psync_tree_get_add_after_def psync_tree_init_node_def same_on_def)
next
  case False
  obtain t where t: "tree_at h root t" "inorder t = xs" using assms(1) by (auto simp: contents_def)
  have "t \<noteq> Leaf" using False t(1) by (auto simp: tree_at_def)
  then have "\<exists>root' h'. add_search cmp root new root h = Some (root', h')
    \<and> contents h' root' ([] @ takeWhile (\<lambda>a. 0 \<le> cmp new a) (inorder t) @ new
        # dropWhile (\<lambda>a. 0 \<le> cmp new a) (inorder t) @ [])
    \<and> same_on (- insert new (set xs)) h h'"
    using assms t by (intro add_search_correct [where q = 0]) (simp_all add: tree_at_def)
  then show ?thesis using False by (simp add: psync_tree_get_add_def t(2))
qed

section \<open>Properties\<close>

lemma avl_size: "avl h t \<Longrightarrow> 2 ^ (height t div 2) \<le> size1 t"
proof (induction t)
  case Leaf
  then show ?case by simp
next
  case (Node l a r)
  have bal: "height l \<le> height r + 1" "height r \<le> height l + 1" using Node.prems by auto
  show ?case
  proof (cases "2 \<le> height (Node l a r)")
    case True
    let ?k = "(height (Node l a r) - 2) div 2"
    have "?k \<le> height l div 2" "?k \<le> height r div 2" using bal by (auto simp: max_def intro: div_le_mono)
    then have "(2::nat) ^ ?k \<le> size1 l" "(2::nat) ^ ?k \<le> size1 r"
      using Node by (auto intro: order_trans [OF power_increasing [of _ _ "2::nat"]])
    moreover have "height (Node l a r) div 2 = Suc ?k" using True by (metis add_2_eq_Suc' le_add_diff_inverse2 div2_Suc_Suc)
    ultimately show ?thesis by (simp only: power_Suc size1.simps)
  next
    case False
    then have "height (Node l a r) div 2 = 0" by simp
    then show ?thesis by (simp only: size1_size) simp
  qed
qed

text \<open>A tree of three nodes, on which the properties are tried.\<close>

definition sample_heap :: theap where
  "sample_heap = (\<lambda>a. if a = 2 then \<lparr>tleft = 1, tright = 3, tparent = 0, theight = 2\<rparr>
     else if a = 1 \<or> a = 3 then \<lparr>tleft = 0, tright = 0, tparent = 2, theight = 1\<rparr>
     else \<lparr>tleft = 0, tright = 0, tparent = 0, theight = 0\<rparr>)"

lemma sample_tree: "tree_at sample_heap 2 (Node (Node Leaf 1 Leaf) 2 (Node Leaf 3 Leaf))"
  by (simp add: tree_at_def sample_heap_def)

lemma sample_contents: "contents sample_heap 2 [1, 2, 3]"
  using sample_tree by (force simp: contents_def)

text \<open>
  C17. Adding next to a node of the tree: \<^verbatim>\<open>psync_tree_get_add_after\<close> returns (no null pointer is followed and
  no assertion fails) with a balanced tree that has the new node right after the given one, and
  \<^verbatim>\<open>_before\<close> right before it; nothing but the nodes of the tree and the new one is written.
\<close>

theorem psync_tree_add_next_to:
  assumes "contents h root (xs @ node # ys)" "new \<notin> set (xs @ node # ys)" "new \<noteq> 0"
  shows "(\<exists>root' h'. psync_tree_get_add_after root node new h = Some (root', h')
      \<and> contents h' root' (xs @ node # new # ys) \<and> same_on (- insert new (set (xs @ node # ys))) h h')
    \<and> (\<exists>root' h'. psync_tree_get_add_before root node new h = Some (root', h')
      \<and> contents h' root' (xs @ new # node # ys) \<and> same_on (- insert new (set (xs @ node # ys))) h h')"
proof -
  have "root \<noteq> 0" "node \<noteq> 0" using contents_root [OF assms(1)] contents_nodes [OF assms(1)] by auto
  then show ?thesis
    using add_after_node_correct [OF assms] add_before_node_correct [OF assms]
    by (simp add: psync_tree_get_add_after_def psync_tree_get_add_before_def)
qed

theorem psync_tree_add_next_to_witness:
  "(\<exists>root' h'. psync_tree_get_add_after 2 2 9 sample_heap = Some (root', h') \<and> contents h' root' [1, 2, 9, 3])
   \<and> (\<exists>root' h'. psync_tree_get_add_before 2 2 9 sample_heap = Some (root', h') \<and> contents h' root' [1, 9, 2, 3])"
  using psync_tree_add_next_to [of sample_heap 2 "[1]" 2 "[3]" 9] sample_contents by auto

text \<open>
  C7. Removing a node: \<^verbatim>\<open>psync_tree_get_del\<close> returns with a balanced tree that holds the other nodes in
  their old order, whichever of its four cases applies, and writes to no memory but the nodes of the
  tree.
\<close>

theorem psync_tree_del_removes:
  assumes "contents h root (xs @ node # ys)"
  shows "\<exists>root' h'. psync_tree_get_del root node h = Some (root', h') \<and> contents h' root' (xs @ ys)
    \<and> same_on (- set (xs @ node # ys)) h h'"
  using get_del_correct [OF assms] .

theorem psync_tree_del_removes_witness:
  "\<exists>root' h'. psync_tree_get_del 2 2 sample_heap = Some (root', h') \<and> contents h' root' [1, 3]"
  using psync_tree_del_removes [of sample_heap 2 "[1]" 2 "[3]"] sample_contents by auto

text \<open>
  Adding by a comparison: when the nodes that do not compare greater than the new one come first, the
  new node is put behind all of them, so that nodes that compare equal keep the order of their
  insertion.
\<close>

theorem psync_tree_add_position:
  assumes "contents h root xs" "new \<notin> set xs" "new \<noteq> 0"
    and "sorted_wrt (\<lambda>a b. 0 \<le> cmp new b \<longrightarrow> 0 \<le> cmp new a) xs"
  shows "\<exists>root' h'. psync_tree_get_add cmp root new h = Some (root', h')
    \<and> contents h' root' (takeWhile (\<lambda>a. 0 \<le> cmp new a) xs @ new # dropWhile (\<lambda>a. 0 \<le> cmp new a) xs)
    \<and> same_on (- insert new (set xs)) h h'"
  by (rule get_add_correct) (fact assms)+

theorem psync_tree_add_position_witness:
  "\<exists>root' h'. psync_tree_get_add (\<lambda>a b. int a div 4 - int b) 2 9 sample_heap = Some (root', h')
    \<and> contents h' root' [1, 2, 9, 3]"
  using psync_tree_add_position [of sample_heap 2 "[1, 2, 3]" 9 "\<lambda>a b. int a div 4 - int b"] sample_contents
  by simp blast

text \<open>
  The walks over a tree end and visit its nodes in order: the macro \<^verbatim>\<open>psync_tree_for_each\<close> yields all
  of them, and from a node \<^verbatim>\<open>psync_tree_get_next\<close> and \<^verbatim>\<open>psync_tree_get_prev\<close> lead to its neighbours, to null
  at the ends.
\<close>

theorem psync_tree_walks_in_order:
  assumes "contents h root (xs @ a # ys)"
  shows "psync_tree_for_each h root = Some (xs @ a # ys)
    \<and> psync_tree_get_next h a = Some (case ys of [] \<Rightarrow> 0 | y # _ \<Rightarrow> y)
    \<and> psync_tree_get_prev h a = Some (if xs = [] then 0 else last xs)"
  using for_each_correct [OF assms] get_next_correct [OF assms] get_prev_correct [OF assms] by blast

theorem psync_tree_walks_in_order_witness:
  "psync_tree_for_each sample_heap 2 = Some [1, 2, 3] \<and> psync_tree_get_next sample_heap 3 = Some 0
   \<and> psync_tree_get_prev sample_heap 3 = Some 2"
  using psync_tree_walks_in_order [of sample_heap 2 "[1, 2]" 3 "[]"] sample_contents by simp

text \<open>
  Freeing a whole tree: the macro \<^verbatim>\<open>psync_tree_for_each_element_call_safe\<close> calls its argument on every node
  once, children before their parent, whatever the callback does to the memory of the node it is
  given: the walk never reads a node after it has been passed to the callback.
\<close>

theorem psync_tree_call_safe_visits_all:
  assumes "\<And>a h. same_on (- {a}) h (c a h)" "tree_at h root t"
  shows "\<exists>h'. psync_tree_for_each_element_call_safe c h root = Some (postorder t, h')
    \<and> same_on (- set_tree t) h h'"
  using call_safe_correct [OF assms] .

theorem psync_tree_call_safe_visits_all_witness:
  "\<exists>h'. psync_tree_for_each_element_call_safe
      (\<lambda>a h. h(a := \<lparr>tleft = 7, tright = 7, tparent = 7, theight = 7\<rparr>)) sample_heap 2 = Some ([1, 3, 2], h')"
  using psync_tree_call_safe_visits_all
    [of "\<lambda>a h. h(a := \<lparr>tleft = 7, tright = 7, tparent = 7, theight = 7\<rparr>)", OF _ sample_tree]
  by (auto simp: same_on_def)

text \<open>
  The trees stay shallow: the height stored in the root is the height of the tree, and a tree of that
  height has at least two to the half of it minus one nodes. A search therefore takes at most about
  twice the logarithm of the number of nodes, and the \<^verbatim>\<open>long int\<close> heights cannot overflow.
\<close>

theorem psync_tree_height_bound:
  assumes "contents h root xs"
  shows "0 \<le> psync_tree_height h root \<and> 2 ^ (nat (psync_tree_height h root) div 2) \<le> length xs + 1"
proof -
  obtain t where t: "tree_at h root t" "inorder t = xs" using assms by (auto simp: contents_def)
  then have "psync_tree_height h root = ht t" "avl h t" using avl_height by (auto simp: tree_at_def)
  moreover have "size1 t = length xs + 1" using t(2) by (auto simp: size1_size)
  ultimately show ?thesis using avl_size by (metis nat_int of_nat_0_le_iff)
qed

theorem psync_tree_height_bound_witness:
  "2 ^ (nat (psync_tree_height sample_heap 2) div 2) \<le> length [1, 2, 3 :: nat] + 1"
  using psync_tree_height_bound [OF sample_contents] by simp

end
