(* ===== verification/FsTaskTree.thy ===== *)
theory FsTaskTree
  imports PTreeWalk LocalScan
begin

text \<open>
  The trees of \<^verbatim>\<open>pfstasks.c\<close> on the heap of \<^verbatim>\<open>ptree.c\<close>: the tree of the folders with pending changes, keyed by
  folder id, and in each folder the trees of its pending changes, keyed by name. The searches and
  insertions of \<^verbatim>\<open>pfstasks.c\<close> are loops of their own; they are shown to be those of an ordered list.

  A key comparison \<open>kc\<close> gives for a node the sign of the sought key compared with the key of the node,
  \<^verbatim>\<open>psync_filename_cmp(name, node name)\<close> (which is \<^verbatim>\<open>strcmp\<close>) or the difference of the ids, and \<open>tid\<close> the task
  id stored in a node.
\<close>

section \<open>Searching\<close>

partial_function (option) search_loop :: "(addr \<Rightarrow> int) \<Rightarrow> theap \<Rightarrow> addr \<Rightarrow> addr option" where
  "search_loop kc h tree =
     (if tree = 0 then Some 0
      else if kc tree < 0 then search_loop kc h (tleft (h tree))
      else if kc tree > 0 then search_loop kc h (tright (h tree))
      else Some tree)"

text \<open>The two loops over the neighbours of a node with the same name, by \<^verbatim>\<open>psync_tree_get_prev\<close> and \<^verbatim>\<open>_next\<close>.\<close>

partial_function (option) scan_same ::
  "(theap \<Rightarrow> addr \<Rightarrow> addr option) \<Rightarrow> (addr \<Rightarrow> int) \<Rightarrow> (addr \<Rightarrow> nat) \<Rightarrow> nat \<Rightarrow> theap \<Rightarrow> addr \<Rightarrow> addr option" where
  "scan_same step kc tid taskid h tn =
     (if tn = 0 \<or> kc tn \<noteq> 0 then Some 0
      else if tid tn = taskid then Some tn
      else Option.bind (step h tn) (scan_same step kc tid taskid h))"

definition psync_fstask_search_tree ::
  "(addr \<Rightarrow> int) \<Rightarrow> (addr \<Rightarrow> nat) \<Rightarrow> nat \<Rightarrow> theap \<Rightarrow> addr \<Rightarrow> addr option" where
  "psync_fstask_search_tree kc tid taskid h tree =
     Option.bind (search_loop kc h tree)
       (\<lambda>t. if t = 0 \<or> taskid = 0 \<or> tid t = taskid then Some t
            else Option.bind (Option.bind (psync_tree_get_prev h t) (scan_same psync_tree_get_prev kc tid taskid h))
              (\<lambda>tn. if tn \<noteq> 0 then Some tn
                    else Option.bind (psync_tree_get_next h t) (scan_same psync_tree_get_next kc tid taskid h)))"

partial_function (option) walk_for :: "(addr \<Rightarrow> nat) \<Rightarrow> nat \<Rightarrow> theap \<Rightarrow> addr \<Rightarrow> addr option" where
  "walk_for tid taskid h tree =
     (if tree = 0 then Some 0 else if tid tree = taskid then Some tree
      else Option.bind (psync_tree_get_next h tree) (walk_for tid taskid h))"

definition psync_fstask_walk_tree :: "(addr \<Rightarrow> nat) \<Rightarrow> nat \<Rightarrow> theap \<Rightarrow> addr \<Rightarrow> addr option" where
  "psync_fstask_walk_tree tid taskid h tree = Option.bind (psync_tree_get_first h tree) (walk_for tid taskid h)"

section \<open>Inserting\<close>

text \<open>
  The loop of \<^verbatim>\<open>psync_fstask_insert_into_tree\<close> is that of \<^verbatim>\<open>psync_tree_get_add\<close>: to the left when the new
  name is less, to the right otherwise.
\<close>

definition psync_fstask_insert_into_tree ::
  "(addr \<Rightarrow> int) \<Rightarrow> addr \<Rightarrow> addr \<Rightarrow> theap \<Rightarrow> (addr \<times> theap) option" where
  "psync_fstask_insert_into_tree kc tree element h =
     (if tree = 0 then psync_tree_get_add_after tree 0 element h
      else add_search (\<lambda>_. kc) tree element tree h)"

text \<open>
  The loop of \<^verbatim>\<open>psync_fstask_get_or_create_folder_tasks_locked\<close>: the folder found, or the node the new
  folder is added next to and the difference \<open>d\<close> of the ids there (\<open>- 1\<close> before the first comparison).
\<close>

partial_function (option) folder_loop :: "(addr \<Rightarrow> int) \<Rightarrow> theap \<Rightarrow> addr \<Rightarrow> (addr + addr \<times> int) option" where
  "folder_loop kc h tr =
     (if kc tr < 0 then if tleft (h tr) \<noteq> 0 then folder_loop kc h (tleft (h tr)) else Some (Inr (tr, kc tr))
      else if kc tr > 0 then if tright (h tr) \<noteq> 0 then folder_loop kc h (tright (h tr)) else Some (Inr (tr, kc tr))
      else Some (Inl tr))"

definition get_or_create_folder ::
  "(addr \<Rightarrow> int) \<Rightarrow> addr \<Rightarrow> addr \<Rightarrow> theap \<Rightarrow> (addr \<times> addr \<times> theap) option" where
  "get_or_create_folder kc folders new h =
     Option.bind (if folders = 0 then Some (Inr (0, - 1)) else folder_loop kc h folders)
       (\<lambda>r. case r of
              Inl f \<Rightarrow> Some (f, folders, h)
            | Inr (tr, d) \<Rightarrow>
                map_option (\<lambda>(folders, h). (new, folders, h))
                  (if d < 0 then psync_tree_get_add_before folders tr new h
                   else psync_tree_get_add_after folders tr new h))"

section \<open>Ordered keys\<close>

text \<open>
  What the trees need of a comparison of keys; \<open>psync_fstask_insert_into_tree\<close> and the searches compare
  the sought key with that of a node.
\<close>

locale key_order =
  fixes cmp :: "'k \<Rightarrow> 'k \<Rightarrow> int"
  assumes cmp_anti: "sgn (cmp y x) = - sgn (cmp x y)"
    and cmp_trans: "cmp x y \<le> 0 \<Longrightarrow> cmp y z \<le> 0 \<Longrightarrow> cmp x z \<le> 0"
begin

definition ordered :: "('n \<Rightarrow> 'k) \<Rightarrow> 'n list \<Rightarrow> bool" where
  "ordered key xs \<longleftrightarrow> sorted_wrt (\<lambda>a b. cmp (key a) (key b) \<le> 0) xs"

lemma cmp_sym: "cmp y x < 0 \<longleftrightarrow> 0 < cmp x y" "cmp y x = 0 \<longleftrightarrow> cmp x y = 0" "cmp y x \<le> 0 \<longleftrightarrow> 0 \<le> cmp x y"
  using cmp_anti [of y x] by (auto simp: sgn_if split: if_splits)

lemma cmp_mono: "cmp y z \<le> 0 \<Longrightarrow> cmp x y < 0 \<Longrightarrow> cmp x z < 0" "cmp y z \<le> 0 \<Longrightarrow> cmp x y \<le> 0 \<Longrightarrow> cmp x z \<le> 0"
proof -
  show "cmp y z \<le> 0 \<Longrightarrow> cmp x y \<le> 0 \<Longrightarrow> cmp x z \<le> 0" using cmp_trans by blast
  assume a: "cmp y z \<le> 0" "cmp x y < 0"
  show "cmp x z < 0"
  proof (rule ccontr)
    assume "\<not> cmp x z < 0"
    then have "cmp z x \<le> 0" using cmp_sym [of z x] by linarith
    then have "cmp y x \<le> 0" using a(1) cmp_trans by blast
    then show False using a(2) cmp_sym [of x y] by linarith
  qed
qed

lemma ordered_sought:
  assumes "ordered key xs"
  shows "sorted_wrt (\<lambda>a b. (cmp k (key a) < 0 \<longrightarrow> cmp k (key b) < 0) \<and> (cmp k (key a) \<le> 0 \<longrightarrow> cmp k (key b) \<le> 0)) xs"
  using assms unfolding ordered_def by (rule sorted_wrt_mono_rel [rotated]) (blast intro: cmp_mono)

lemma ordered_insert:
  assumes "ordered key xs"
  shows "ordered key (takeWhile (\<lambda>a. 0 \<le> cmp (key n) (key a)) xs @ n # dropWhile (\<lambda>a. 0 \<le> cmp (key n) (key a)) xs)"
    (is "ordered key (?t @ n # ?d)")
proof -
  let ?P = "\<lambda>a. 0 \<le> cmp (key n) (key a)"
  have s: "sorted_wrt (\<lambda>a b. cmp (key a) (key b) \<le> 0) (?t @ ?d)"
    using assms by (simp only: ordered_def takeWhile_dropWhile_id)
  have t: "cmp (key a) (key n) \<le> 0" if "a \<in> set ?t" for a
    using set_takeWhileD [OF that] cmp_sym(3) [of "key a" "key n"] by simp
  have d: "cmp (key n) (key a) \<le> 0" if "a \<in> set ?d" for a
  proof -
    obtain b bs where b: "?d = b # bs" using \<open>a \<in> set ?d\<close> by (cases ?d) auto
    then have nb: "\<not> ?P b" using hd_dropWhile [of ?P xs] by auto
    show ?thesis
    proof (cases "a = b")
      case True
      then show ?thesis using nb by simp
    next
      case False
      then have "cmp (key b) (key a) \<le> 0" using s that unfolding sorted_wrt_append b by auto
      then show ?thesis using nb cmp_trans [of "key n" "key b" "key a"] by linarith
    qed
  qed
  have "cmp (key a) (key b) \<le> 0" if "a \<in> set ?t" "b \<in> set ?d" for a b
    using s that unfolding sorted_wrt_append by blast
  then show ?thesis using s t d unfolding ordered_def sorted_wrt_append by auto
qed

end

interpretation name_order: key_order strcmp
proof
  show "sgn (strcmp y x) = - sgn (strcmp x y)" for x y by (rule strcmp_anti)
  show "strcmp x y \<le> 0 \<Longrightarrow> strcmp y z \<le> 0 \<Longrightarrow> strcmp x z \<le> 0" for x y z by (rule strcmp_trans)
qed

interpretation id_order: key_order "\<lambda>x y :: int. x - y"
  by unfold_locales (auto simp: sgn_if)

section \<open>The searches find\<close>

abbreviation sought :: "(addr \<Rightarrow> int) \<Rightarrow> addr list \<Rightarrow> bool" where
  "sought kc xs \<equiv> sorted_wrt (\<lambda>a b. (kc a < 0 \<longrightarrow> kc b < 0) \<and> (kc a \<le> 0 \<longrightarrow> kc b \<le> 0)) xs"

lemma search_loop_correct:
  "shape h q p t \<Longrightarrow> sought kc (inorder t) \<Longrightarrow>
   \<exists>r. search_loop kc h p = Some r \<and> (r \<in> set_tree t \<and> kc r = 0 \<or> r = 0 \<and> (\<forall>a\<in>set_tree t. kc a \<noteq> 0))"
proof (induction t arbitrary: q p)
  case Leaf
  then show ?case by (subst search_loop.simps) simp
next
  case (Node l x r)
  have sl: "sought kc (inorder l)" and sr: "sought kc (inorder r)"
    and lx: "\<forall>a\<in>set_tree l. (kc a < 0 \<longrightarrow> kc x < 0) \<and> (kc a \<le> 0 \<longrightarrow> kc x \<le> 0)"
    and xr: "\<forall>b\<in>set_tree r. (kc x < 0 \<longrightarrow> kc b < 0) \<and> (kc x \<le> 0 \<longrightarrow> kc b \<le> 0)"
    using Node.prems(2) by (auto simp: sorted_wrt_append)
  have p: "p = x" "x \<noteq> 0" and l: "shape h x (tleft (h x)) l" and r: "shape h x (tright (h x)) r"
    using Node.prems(1) by auto
  consider "kc x < 0" | "0 < kc x" | "kc x = 0" by linarith
  then show ?case
  proof cases
    case 1
    then have "search_loop kc h p = search_loop kc h (tleft (h x))" using p by (subst search_loop.simps) simp
    moreover have "\<forall>b\<in>set_tree r. kc b \<noteq> 0" using xr 1 by fastforce
    ultimately show ?thesis using Node.IH(1) [OF l sl] 1 by auto
  next
    case 2
    then have "search_loop kc h p = search_loop kc h (tright (h x))" using p by (subst search_loop.simps) simp
    moreover have "\<forall>a\<in>set_tree l. kc a \<noteq> 0" using lx 2 by fastforce
    ultimately show ?thesis using Node.IH(2) [OF r sr] 2 by auto
  next
    case 3
    then show ?thesis using p by (subst search_loop.simps) simp
  qed
qed

lemma search_loop_contents:
  assumes "contents h root xs" "sought kc xs"
  obtains r where "search_loop kc h root = Some r"
    "r \<in> set xs \<and> kc r = 0 \<or> r = 0 \<and> (\<forall>a\<in>set xs. kc a \<noteq> 0)"
  using assms search_loop_correct [of h 0 root _ kc] by (auto simp: contents_def tree_at_def) blast

lemma scan_prev_correct:
  "contents h root (xs @ ys) \<Longrightarrow> sought kc xs \<Longrightarrow> (\<forall>a\<in>set xs. 0 \<le> kc a) \<Longrightarrow>
   \<exists>r. scan_same psync_tree_get_prev kc tid k h (if xs = [] then 0 else last xs) = Some r
     \<and> (r \<in> set xs \<and> kc r = 0 \<and> tid r = k \<or> r = 0 \<and> (\<forall>a\<in>set xs. kc a = 0 \<longrightarrow> tid a \<noteq> k))"
proof (induction xs arbitrary: ys rule: rev_induct)
  case Nil
  then show ?case by (subst scan_same.simps) simp
next
  case (snoc a xs)
  have a: "a \<noteq> 0" using contents_nodes [OF snoc.prems(1)] by auto
  have c: "contents h root (xs @ a # ys)" using snoc.prems(1) by simp
  have s: "sought kc xs" "\<forall>b\<in>set xs. kc b \<le> 0 \<longrightarrow> kc a \<le> 0" "\<forall>b\<in>set xs. 0 \<le> kc b" "0 \<le> kc a"
    using snoc.prems(2,3) by (auto simp: sorted_wrt_append)
  have up: "scan_same psync_tree_get_prev kc tid k h a = (if kc a \<noteq> 0 then Some 0 else if tid a = k then Some a
      else scan_same psync_tree_get_prev kc tid k h (if xs = [] then 0 else last xs))"
    using a get_prev_correct [OF c] by (subst scan_same.simps) simp
  show ?case
  proof (cases "kc a = 0")
    case True
    then show ?thesis using up snoc.IH [OF c s(1,3)] by auto
  next
    case False
    then have "\<forall>b\<in>set xs. kc b \<noteq> 0" using s(2,4) by fastforce
    then show ?thesis using up False by simp
  qed
qed

lemma scan_next_correct:
  "contents h root (xs @ ys) \<Longrightarrow> sought kc ys \<Longrightarrow> (\<forall>a\<in>set ys. kc a \<le> 0) \<Longrightarrow>
   \<exists>r. scan_same psync_tree_get_next kc tid k h (case ys of [] \<Rightarrow> 0 | y # _ \<Rightarrow> y) = Some r
     \<and> (r \<in> set ys \<and> kc r = 0 \<and> tid r = k \<or> r = 0 \<and> (\<forall>a\<in>set ys. kc a = 0 \<longrightarrow> tid a \<noteq> k))"
proof (induction ys arbitrary: xs)
  case Nil
  then show ?case by (subst scan_same.simps) simp
next
  case (Cons a ys)
  have a: "a \<noteq> 0" using contents_nodes [OF Cons.prems(1)] by auto
  have c: "contents h root ((xs @ [a]) @ ys)" using Cons.prems(1) by simp
  have s: "sought kc ys" "\<forall>b\<in>set ys. kc a < 0 \<longrightarrow> kc b < 0" "\<forall>b\<in>set ys. kc b \<le> 0" "kc a \<le> 0"
    using Cons.prems(2,3) by auto
  have up: "scan_same psync_tree_get_next kc tid k h a = (if kc a \<noteq> 0 then Some 0 else if tid a = k then Some a
      else scan_same psync_tree_get_next kc tid k h (case ys of [] \<Rightarrow> 0 | y # _ \<Rightarrow> y))"
    using a get_next_correct [OF Cons.prems(1)] by (subst scan_same.simps) simp
  show ?case
  proof (cases "kc a = 0")
    case True
    then show ?thesis using up Cons.IH [OF c s(1,3)] by auto
  next
    case False
    then have "\<forall>b\<in>set ys. kc b \<noteq> 0" using s(2,4) by fastforce
    then show ?thesis using up False by simp
  qed
qed

lemma search_tree_correct:
  assumes c: "contents h root xs" and s: "sought kc xs"
  shows "\<exists>r. psync_fstask_search_tree kc tid k h root = Some r
    \<and> (r \<in> set xs \<and> kc r = 0 \<and> (k = 0 \<or> tid r = k)
       \<or> r = 0 \<and> (\<forall>a\<in>set xs. kc a = 0 \<longrightarrow> k \<noteq> 0 \<and> tid a \<noteq> k))"
proof -
  obtain t where t: "search_loop kc h root = Some t"
    "t \<in> set xs \<and> kc t = 0 \<or> t = 0 \<and> (\<forall>a\<in>set xs. kc a \<noteq> 0)"
    using search_loop_contents [OF c s] .
  show ?thesis
  proof (cases "t = 0 \<or> k = 0 \<or> tid t = k")
    case True
    moreover have "0 \<notin> set xs" using contents_nodes [OF c] by simp
    ultimately show ?thesis using t by (auto simp: psync_fstask_search_tree_def)
  next
    case False
    then have tx: "t \<in> set xs" "kc t = 0" using t(2) by auto
    then obtain us vs where x: "xs = us @ t # vs" by (meson split_list)
    have su: "sought kc us" "\<forall>a\<in>set us. 0 \<le> kc a" and sv: "sought kc vs" "\<forall>a\<in>set vs. kc a \<le> 0"
      using s tx(2) by (force simp: x sorted_wrt_append)+
    have cu: "contents h root (us @ t # vs)" and cv: "contents h root ((us @ [t]) @ vs)" using c x by auto
    note pv = get_prev_correct [OF cu] and nx = get_next_correct [OF cu]
    obtain r1 where r1: "scan_same psync_tree_get_prev kc tid k h (if us = [] then 0 else last us) = Some r1"
      "r1 \<in> set us \<and> kc r1 = 0 \<and> tid r1 = k \<or> r1 = 0 \<and> (\<forall>a\<in>set us. kc a = 0 \<longrightarrow> tid a \<noteq> k)"
      using scan_prev_correct [OF cu su] by blast
    obtain r2 where r2: "scan_same psync_tree_get_next kc tid k h (case vs of [] \<Rightarrow> 0 | y # _ \<Rightarrow> y) = Some r2"
      "r2 \<in> set vs \<and> kc r2 = 0 \<and> tid r2 = k \<or> r2 = 0 \<and> (\<forall>a\<in>set vs. kc a = 0 \<longrightarrow> tid a \<noteq> k)"
      using scan_next_correct [OF cv sv] by blast
    have "psync_fstask_search_tree kc tid k h root = Some (if r1 \<noteq> 0 then r1 else r2)"
      using False t(1) pv nx r1(1) r2(1) by (simp add: psync_fstask_search_tree_def)
    then show ?thesis using r1(2) r2(2) False by (auto simp: x)
  qed
qed

lemma walk_for_correct:
  "contents h root (xs @ ys) \<Longrightarrow>
   walk_for tid k h (case ys of [] \<Rightarrow> 0 | y # _ \<Rightarrow> y)
     = Some (case find (\<lambda>a. tid a = k) ys of None \<Rightarrow> 0 | Some a \<Rightarrow> a)"
proof (induction ys arbitrary: xs)
  case Nil
  then show ?case by (subst walk_for.simps) simp
next
  case (Cons a ys)
  have "a \<noteq> 0" using contents_nodes [OF Cons.prems] by auto
  moreover have "contents h root ((xs @ [a]) @ ys)" using Cons.prems by simp
  ultimately show ?case
    using get_next_correct [OF Cons.prems] Cons.IH [of "xs @ [a]"] by (subst walk_for.simps) simp
qed

lemma walk_tree_correct:
  "contents h root xs \<Longrightarrow>
   psync_fstask_walk_tree tid k h root = Some (case find (\<lambda>a. tid a = k) xs of None \<Rightarrow> 0 | Some a \<Rightarrow> a)"
  using get_first_correct [of h root xs] walk_for_correct [of h root "[]" xs tid k]
  by (cases xs) (auto simp: psync_fstask_walk_tree_def)

section \<open>Insertions keep the order\<close>

lemma insert_is_get_add: "psync_fstask_insert_into_tree kc = psync_tree_get_add (\<lambda>_. kc)"
  by (intro ext) (simp add: psync_fstask_insert_into_tree_def psync_tree_get_add_def)

context key_order
begin

lemma insert_correct:
  assumes "contents h root xs" "el \<notin> set xs" "el \<noteq> 0" "ordered key xs"
  shows "\<exists>root' h'. psync_fstask_insert_into_tree (\<lambda>a. cmp (key el) (key a)) root el h = Some (root', h')
    \<and> contents h' root' (takeWhile (\<lambda>a. 0 \<le> cmp (key el) (key a)) xs @ el
        # dropWhile (\<lambda>a. 0 \<le> cmp (key el) (key a)) xs)
    \<and> same_on (- insert el (set xs)) h h'"
proof -
  have "sorted_wrt (\<lambda>a b. 0 \<le> cmp (key el) (key b) \<longrightarrow> 0 \<le> cmp (key el) (key a)) xs"
    by (rule sorted_wrt_mono_rel [OF _ ordered_sought [OF assms(4), of "key el"]]) (auto simp: not_less [symmetric])
  then show ?thesis
    unfolding insert_is_get_add using get_add_correct [OF assms(1-3), of "\<lambda>_ a. cmp (key el) (key a)"] by simp
qed

lemma insert_ordered:
  assumes "contents h root xs" "el \<notin> set xs" "el \<noteq> 0" "ordered key xs"
  obtains root' h' ys where
    "psync_fstask_insert_into_tree (\<lambda>a. cmp (key el) (key a)) root el h = Some (root', h')"
    "contents h' root' ys" "ordered key ys" "set ys = insert el (set xs)" "same_on (- insert el (set xs)) h h'"
proof -
  let ?ys = "takeWhile (\<lambda>a. 0 \<le> cmp (key el) (key a)) xs @ el # dropWhile (\<lambda>a. 0 \<le> cmp (key el) (key a)) xs"
  have "set ?ys = insert el (set (takeWhile (\<lambda>a. 0 \<le> cmp (key el) (key a)) xs @ dropWhile (\<lambda>a. 0 \<le> cmp (key el) (key a)) xs))"
    by (simp only: set_append set_simps) blast
  then have "set ?ys = insert el (set xs)" by (simp only: takeWhile_dropWhile_id)
  then show thesis using insert_correct [OF assms] ordered_insert [OF assms(4), of el] that by blast
qed

lemma search_correct:
  assumes "contents h root xs" "ordered key xs"
  shows "\<exists>r. psync_fstask_search_tree (\<lambda>a. cmp k (key a)) tid i h root = Some r
    \<and> (r \<in> set xs \<and> cmp k (key r) = 0 \<and> (i = 0 \<or> tid r = i)
       \<or> r = 0 \<and> (\<forall>a\<in>set xs. cmp k (key a) = 0 \<longrightarrow> i \<noteq> 0 \<and> tid a \<noteq> i))"
  by (rule search_tree_correct [OF assms(1) ordered_sought [OF assms(2)]])

end

text \<open>What the loop yields: a node with the sought id, or the neighbour of the gap where it belongs.\<close>

definition gap :: "(addr \<Rightarrow> int) \<Rightarrow> addr list \<Rightarrow> addr \<Rightarrow> int \<Rightarrow> addr list \<Rightarrow> addr list \<Rightarrow> bool" where
  "gap kc xs tr d us vs \<longleftrightarrow> xs = us @ vs \<and> (\<forall>a\<in>set us. 0 < kc a) \<and> (\<forall>a\<in>set vs. kc a < 0)
     \<and> (if d < 0 then vs \<noteq> [] \<and> hd vs = tr else us \<noteq> [] \<and> last us = tr)"

fun loop_result :: "(addr \<Rightarrow> int) \<Rightarrow> addr list \<Rightarrow> addr + addr \<times> int \<Rightarrow> bool" where
  "loop_result kc xs (Inl f) \<longleftrightarrow> f \<in> set xs \<and> kc f = 0"
| "loop_result kc xs (Inr (tr, d)) \<longleftrightarrow> (\<exists>us vs. gap kc xs tr d us vs)"

lemma gap_before: "gap kc xs tr d us vs \<Longrightarrow> \<forall>a\<in>set ys. kc a < 0 \<Longrightarrow> gap kc (xs @ ys) tr d us (vs @ ys)"
  by (auto simp: gap_def split: if_splits)

lemma gap_after: "gap kc xs tr d us vs \<Longrightarrow> \<forall>a\<in>set ys. 0 < kc a \<Longrightarrow> gap kc (ys @ xs) tr d (ys @ us) vs"
  by (auto simp: gap_def split: if_splits)

lemma loop_result_before: "loop_result kc xs r \<Longrightarrow> \<forall>a\<in>set ys. kc a < 0 \<Longrightarrow> loop_result kc (xs @ ys) r"
  by (cases "(kc, xs, r)" rule: loop_result.cases) (auto dest: gap_before)

lemma loop_result_after: "loop_result kc xs r \<Longrightarrow> \<forall>a\<in>set ys. 0 < kc a \<Longrightarrow> loop_result kc (ys @ xs) r"
  by (cases "(kc, xs, r)" rule: loop_result.cases) (auto dest: gap_after)

lemma folder_loop_correct:
  "shape h q p t \<Longrightarrow> t \<noteq> Leaf \<Longrightarrow> sought kc (inorder t) \<Longrightarrow>
   \<exists>r. folder_loop kc h p = Some r \<and> loop_result kc (inorder t) r"
proof (induction t arbitrary: q p)
  case Leaf
  then show ?case by simp
next
  case (Node l x r)
  have sl: "sought kc (inorder l)" and sr: "sought kc (inorder r)"
    and lx: "\<forall>a\<in>set_tree l. kc a \<le> 0 \<longrightarrow> kc x \<le> 0" and xr: "\<forall>b\<in>set_tree r. kc x < 0 \<longrightarrow> kc b < 0"
    using Node.prems(3) by (auto simp: sorted_wrt_append)
  have p: "p = x" and l: "shape h x (tleft (h x)) l" and r: "shape h x (tright (h x)) r"
    using Node.prems(1) by auto
  note lr = shape_root [OF l] shape_root [OF r]
  consider "kc x < 0" | "0 < kc x" | "kc x = 0" by linarith
  then show ?case
  proof cases
    case 1
    then have rn: "\<forall>b\<in>set (x # inorder r). kc b < 0" using xr by auto
    show ?thesis
    proof (cases "l = Leaf")
      case True
      then have "folder_loop kc h p = Some (Inr (x, kc x))" using 1 p lr by (subst folder_loop.simps) simp
      moreover have "gap kc (inorder (Node l x r)) x (kc x) [] (x # inorder r)"
        using True 1 rn by (simp add: gap_def)
      ultimately show ?thesis using loop_result.simps(2) by blast
    next
      case False
      then have "folder_loop kc h p = folder_loop kc h (tleft (h x))" using 1 p lr by (subst folder_loop.simps) simp
      then show ?thesis using Node.IH(1) [OF l False sl] loop_result_before [OF _ rn] by auto
    qed
  next
    case 2
    then have ln: "\<forall>b\<in>set (inorder l @ [x]). 0 < kc b" using lx by force
    show ?thesis
    proof (cases "r = Leaf")
      case True
      then have "folder_loop kc h p = Some (Inr (x, kc x))" using 2 p lr by (subst folder_loop.simps) simp
      moreover have "gap kc (inorder (Node l x r)) x (kc x) (inorder l @ [x]) []"
        using True 2 ln by (simp add: gap_def)
      ultimately show ?thesis using loop_result.simps(2) by blast
    next
      case False
      then have "folder_loop kc h p = folder_loop kc h (tright (h x))" using 2 p lr by (subst folder_loop.simps) simp
      then show ?thesis using Node.IH(2) [OF r False sr] loop_result_after [OF _ ln] by auto
    qed
  next
    case 3
    then have "folder_loop kc h p = Some (Inl x)" using p by (subst folder_loop.simps) simp
    then show ?thesis using 3 by auto
  qed
qed

lemma get_or_create_correct:
  assumes c: "contents h root xs" and s: "sought kc xs" and new: "new \<notin> set xs" "new \<noteq> 0"
  shows "(\<exists>f. get_or_create_folder kc root new h = Some (f, root, h) \<and> f \<in> set xs \<and> kc f = 0)
    \<or> (\<exists>root' h' us vs. get_or_create_folder kc root new h = Some (new, root', h') \<and> xs = us @ vs
        \<and> contents h' root' (us @ new # vs) \<and> (\<forall>a\<in>set us. 0 < kc a) \<and> (\<forall>a\<in>set vs. kc a < 0))"
proof (cases "root = 0")
  case True
  then have "xs = []" using contents_root [OF c] by simp
  moreover have "get_or_create_folder kc root new h = Some (new, new, psync_tree_init_node new h)"
    using True by (simp add: get_or_create_folder_def psync_tree_get_add_before_def)
  ultimately show ?thesis using contents_single [OF new(2), of h] by force
next
  case False
  obtain t where t: "tree_at h root t" "inorder t = xs" using c by (auto simp: contents_def)
  have tL: "t \<noteq> Leaf" "shape h 0 root t" using False t(1) by (auto simp: tree_at_def)
  have st: "sought kc (inorder t)" using s t(2) by simp
  obtain r where r: "folder_loop kc h root = Some r" "loop_result kc xs r"
    using folder_loop_correct [OF tL(2,1) st] t(2) by blast
  show ?thesis
  proof (cases r)
    case (Inl f)
    then show ?thesis using False r by (auto simp: get_or_create_folder_def)
  next
    case (Inr d')
    then obtain tr d us vs where d: "r = Inr (tr, d)" "gap kc xs tr d us vs" using r(2) by (cases d') auto
    have x: "xs = us @ vs" "\<forall>a\<in>set us. 0 < kc a" "\<forall>a\<in>set vs. kc a < 0" using d(2) by (auto simp: gap_def)
    show ?thesis
    proof (cases "d < 0")
      case True
      then obtain ws where v: "vs = tr # ws" using d(2) by (cases vs) (auto simp: gap_def)
      have "tr \<noteq> 0" using contents_nodes [OF c] by (auto simp: x(1) v)
      then obtain root' h' where "get_or_create_folder kc root new h = Some (new, root', h')"
        "contents h' root' (us @ new # vs)"
        using add_before_node_correct [of h root us tr ws new] c new False True r(1)
        by (auto simp: get_or_create_folder_def psync_tree_get_add_before_def d(1) x(1) v)
      then show ?thesis using x by blast
    next
      case dn: False
      then obtain ws where u: "us = ws @ [tr]" using d(2) by (auto simp: gap_def) (metis append_butlast_last_id)
      have "tr \<noteq> 0" using contents_nodes [OF c] by (auto simp: x(1) u)
      then obtain root' h' where "get_or_create_folder kc root new h = Some (new, root', h')"
        "contents h' root' (us @ new # vs)"
        using add_after_node_correct [of h root ws tr vs new] c new False dn r(1)
        by (auto simp: get_or_create_folder_def psync_tree_get_add_after_def d(1) x(1) u)
      then show ?thesis using x by blast
    qed
  qed
qed

section \<open>Properties\<close>

text \<open>
  Searching the pending changes of a folder: in a tree ordered by name the search for a name and a
  task id returns a node with that name (and that task id, unless 0 is asked for) whenever there is
  one, also among several with the same name, and null otherwise.
\<close>

theorem psync_fstask_search_finds:
  assumes "contents h root xs" "name_order.ordered nm xs"
  shows "\<exists>r. psync_fstask_search_tree (\<lambda>a. strcmp name (nm a)) tid taskid h root = Some r
    \<and> (r \<in> set xs \<and> strcmp name (nm r) = 0 \<and> (taskid = 0 \<or> tid r = taskid)
       \<or> r = 0 \<and> (\<forall>a\<in>set xs. strcmp name (nm a) = 0 \<longrightarrow> taskid \<noteq> 0 \<and> tid a \<noteq> taskid))"
  by (rule name_order.search_correct [OF assms])

definition sample_name :: "addr \<Rightarrow> u8 list" where
  "sample_name a = (if a = 1 then [97] else if a = 9 then [98, 99] else [98])"

lemma sample_ordered: "name_order.ordered sample_name [1, 2, 3]"
  by (simp add: name_order.ordered_def sample_name_def)

theorem psync_fstask_search_finds_witness:
  "\<exists>r. psync_fstask_search_tree (\<lambda>a. strcmp [98] (sample_name a)) (\<lambda>a. a + 5) 8 PTreeWalk.sample_heap 2 = Some r \<and> r = 3"
  using psync_fstask_search_finds [OF sample_contents sample_ordered, of "[98]" "\<lambda>a. a + 5" 8]
  by (auto simp: sample_name_def)

text \<open>
  Inserting a pending change by its name keeps the tree balanced and ordered by name and adds just
  the new node.
\<close>

theorem psync_fstask_insert_keeps_order:
  assumes "contents h root xs" "el \<notin> set xs" "el \<noteq> 0" "name_order.ordered nm xs"
  shows "\<exists>root' h' ys. psync_fstask_insert_into_tree (\<lambda>a. strcmp (nm el) (nm a)) root el h = Some (root', h')
    \<and> contents h' root' ys \<and> name_order.ordered nm ys \<and> set ys = insert el (set xs)
    \<and> same_on (- insert el (set xs)) h h'"
  using name_order.insert_ordered [OF assms] by metis

theorem psync_fstask_insert_keeps_order_witness:
  "\<exists>root' h' ys. psync_fstask_insert_into_tree (\<lambda>a. strcmp (sample_name 9) (sample_name a)) 2 9 PTreeWalk.sample_heap = Some (root', h')
    \<and> contents h' root' ys \<and> set ys = {1, 2, 3, 9}"
  using psync_fstask_insert_keeps_order [OF sample_contents _ _ sample_ordered, of 9] by auto

text \<open>
  Finding or creating the record of a folder: in the tree ordered by folder id the search either
  returns the record with that id and changes nothing, or there is none and the new record is put
  between the smaller and the greater ids.
\<close>

theorem get_or_create_folder_finds_or_adds:
  assumes "contents h root xs" "id_order.ordered fid xs" "new \<notin> set xs" "new \<noteq> 0"
  shows "(\<exists>f. get_or_create_folder (\<lambda>a. folderid - fid a) root new h = Some (f, root, h)
        \<and> f \<in> set xs \<and> fid f = folderid)
    \<or> (\<exists>root' h' us vs. get_or_create_folder (\<lambda>a. folderid - fid a) root new h = Some (new, root', h')
        \<and> xs = us @ vs \<and> contents h' root' (us @ new # vs)
        \<and> (\<forall>a\<in>set us. fid a < folderid) \<and> (\<forall>a\<in>set vs. folderid < fid a))"
  using get_or_create_correct [OF assms(1) id_order.ordered_sought [OF assms(2), of folderid] assms(3,4)]
  by (simp add: eq_commute [of folderid])

theorem get_or_create_folder_finds_or_adds_witness:
  "\<exists>root' h' us vs. get_or_create_folder (\<lambda>a. 25 - int a * 10) 2 9 PTreeWalk.sample_heap = Some (9, root', h')
    \<and> contents h' root' (us @ 9 # vs) \<and> us @ vs = [1, 2, 3]"
proof -
  have "id_order.ordered (\<lambda>a. int a * 10) [1, 2, 3]" by (simp add: id_order.ordered_def)
  from get_or_create_folder_finds_or_adds [OF sample_contents this, of 9 25] show ?thesis by auto metis
qed

text \<open>
  \<^verbatim>\<open>psync_fstask_inject_unlink\<close> and \<^verbatim>\<open>psync_init_task_renfile_to\<close> put an unlink record into the tree of unlink
  records with the offset of the name in a creat record, which has one 64-bit field more. The names
  they compare are the bytes 8 behind the start of the real ones, \<open>nm8\<close>.
\<close>

definition psync_fstask_inject_unlink_tree ::
  "(addr \<Rightarrow> u8 list) \<Rightarrow> addr \<Rightarrow> addr \<Rightarrow> theap \<Rightarrow> (addr \<times> theap) option" where
  "psync_fstask_inject_unlink_tree nm8 tree un h =
     psync_fstask_insert_into_tree (\<lambda>a. strcmp (nm8 un) (nm8 a)) tree un h"

lemma inject_run:
  assumes "kc 1 > 0" "kc' 1 < 0"
  defines "h1 \<equiv> psync_tree_init_node 1 (\<lambda>_. \<lparr>tleft = 0, tright = 0, tparent = 0, theight = 0\<rparr>)"
  shows "\<exists>root' h'. psync_fstask_insert_into_tree kc 1 2 h1 = Some (root', h')
    \<and> search_loop kc' h' root' = Some 0"
proof -
  have "psync_fstask_insert_into_tree kc 1 2 h1 = add_after_node 1 1 2 h1"
    using assms(1)
    by (subst psync_fstask_insert_into_tree_def, subst add_search.simps)
       (simp add: h1_def psync_tree_init_node_def psync_tree_get_add_after_def)
  also have "\<exists>h'. add_after_node 1 1 2 h1 = Some (1, h') \<and> tleft (h' 1) = 0"
    unfolding add_after_node_def h1_def psync_tree_init_node_def Let_def
    by (simp, subst psync_tree_go_up_rebalance_add.simps) (simp add: psync_tree_height_def Let_def)
  finally obtain h' where h': "psync_fstask_insert_into_tree kc 1 2 h1 = Some (1, h')" "tleft (h' 1) = 0" by blast
  have "search_loop kc' h' 1 = search_loop kc' h' 0" using assms(2) h'(2) by (subst search_loop.simps) simp
  also have "\<dots> = Some 0" by (subst search_loop.simps) simp
  finally show ?thesis using h'(1) by blast
qed

text \<open>
  An unlink record that is put into its tree with the wrong offset may not be found under its name
  afterwards: with the records of two files whose names order differently after their first eight
  bytes, the search for the new one returns null, so that the file it stands for stays visible.
\<close>

theorem psync_fstask_inject_unlink_not_found:
  "\<exists>(nm :: addr \<Rightarrow> u8 list) h root xs un root' h'.
     contents h root xs \<and> name_order.ordered nm xs \<and> un \<notin> set xs \<and> un \<noteq> 0 \<and> (\<forall>a. 8 \<le> length (nm a))
     \<and> psync_fstask_inject_unlink_tree (\<lambda>a. drop 8 (nm a)) root un h = Some (root', h')
     \<and> psync_fstask_search_tree (\<lambda>a. strcmp (nm un) (nm a)) (\<lambda>_. 1) 0 h' root' = Some 0"
proof -
  let ?nm = "\<lambda>a :: addr. if a = 1 then [98, 98, 98, 98, 98, 98, 98, 98, 49] else [97, 97, 97, 97, 97, 97, 97, 97, 50] :: u8 list"
  let ?h = "psync_tree_init_node 1 (\<lambda>_. \<lparr>tleft = 0, tright = 0, tparent = 0, theight = 0\<rparr>)"
  obtain root' h' where run: "psync_fstask_inject_unlink_tree (\<lambda>a. drop 8 (?nm a)) 1 2 ?h = Some (root', h')"
    "search_loop (\<lambda>a. strcmp (?nm 2) (?nm a)) h' root' = Some 0"
    using inject_run [of "\<lambda>a. strcmp (drop 8 (?nm 2)) (drop 8 (?nm a))" "\<lambda>a. strcmp (?nm 2) (?nm a)"]
    by (auto simp: psync_fstask_inject_unlink_tree_def)
  have "contents ?h 1 [1]" by (rule contents_single) simp
  moreover have "name_order.ordered ?nm [1]" by (simp add: name_order.ordered_def)
  moreover have "\<forall>a. 8 \<le> length (?nm a)" by simp
  moreover have "psync_fstask_search_tree (\<lambda>a. strcmp (?nm 2) (?nm a)) (\<lambda>_. 1) 0 h' root' = Some 0"
    using run(2) by (simp add: psync_fstask_search_tree_def)
  moreover have "(2 :: addr) \<notin> set [1]" "(2 :: addr) \<noteq> 0" by simp_all
  ultimately show ?thesis using run(1) by blast
qed

end
