(* ===== verification/FsTasks.thy ===== *)
theory FsTasks
  imports FsTaskTree
begin

unbundle bit_operations_syntax

text \<open>
  The pending changes of the mounted drive, \<^verbatim>\<open>pfstasks.c\<close>: every change the user makes on the drive is
  written to the table \<^verbatim>\<open>fstask\<close> for the upload thread and kept in memory, in the record of its folder, so
  that the drive shows it at once. Here are the records, the tables, the operations the drive calls, and
  the reload of the records from the table when the client starts.

  A tree of records is the list of its nodes in order; \<open>FsTaskTree\<close> shows that the searches and insertions
  of the code do on the trees what \<open>search_list\<close> and \<open>insert_list\<close> do on the lists. Of several records with
  the name the search of the tree without a task id finds some one and that of the list the first; of
  removals the code then only asks whether there is one, and new folders and files have one record for a
  name (but see \<open>psync_fstask_rename_folder\<close>). A pointer to a folder
  record is the id of the folder. Task and file ids are unbounded; the counters have the width of the
  code. What the code reads from elsewhere (the clock, the outcome of a commit, a new key, a cached
  location, whether an upload is running) is the environment \<open>fs_env\<close>, and its calls of other components
  are the events of \<open>fs_note\<close>.
\<close>

section \<open>Records\<close>

type_synonym fname = "u8 list"

record mkdir_t =
  mk_folderid :: int
  mk_taskid :: nat
  mk_ctime :: int
  mk_mtime :: int
  mk_subdircnt :: int
  mk_flags :: u32
  mk_name :: fname

record rmdir_t =
  rm_folderid :: int
  rm_taskid :: nat
  rm_name :: fname

record creat_t =
  cr_fileid :: int
  cr_rfileid :: int
  cr_taskid :: nat
  cr_name :: fname

record unlink_t =
  un_fileid :: int
  un_taskid :: nat
  un_name :: fname

record folder_t =
  fl_folderid :: int
  fl_mkdirs :: "mkdir_t list"
  fl_rmdirs :: "rmdir_t list"
  fl_creats :: "creat_t list"
  fl_unlinks :: "unlink_t list"
  fl_taskscnt :: u32
  fl_refcnt :: u32

section \<open>Tables\<close>

record fstask_row =
  ft_id :: nat
  ft_type :: nat
  ft_status :: nat
  ft_folderid :: int
  ft_sfolderid :: "int option"
  ft_fileid :: "int option"
  ft_text1 :: "fname option"
  ft_text2 :: "u8 list option"
  ft_int1 :: "int option"
  ft_int2 :: "int option"

record folder_row =
  fo_id :: int
  fo_parent :: "int option"
  fo_name :: fname
  fo_flags :: u32
  fo_permissions :: u32
  fo_userid :: nat
  fo_ctime :: int
  fo_mtime :: int
  fo_subdircnt :: int

record file_row =
  fi_id :: int
  fi_parent :: int
  fi_name :: fname
  fi_ctime :: int
  fi_mtime :: int
  fi_size :: u64
  fi_hash :: int

record fs_db =
  fstasks :: "fstask_row list"
  fsdepends :: "(nat \<times> nat) list"
  folder_tab :: "folder_row list"
  file_tab :: "file_row list"

text \<open>Calls of other components, in order.\<close>

datatype fs_note =
    UploadWake
  | DriveFolderChanged int
  | StopUpload int
  | OpenfileDeleted int
  | OpenfileRenamed int int fname
  | HistoryAdd int int fname
  | DebugBug
  | BackupFileDeleted

record fs_state =
  fs_folders :: "folder_t list"
  fs_db :: fs_db
  fs_local_taskid :: nat
  fs_notes :: "fs_note list"

record fs_env =
  env_now :: int
  env_commit :: bool
  env_new_key :: "u8 list + int"
  env_history :: "int \<Rightarrow> (int \<times> fname) option"
  env_in_batch :: "int \<Rightarrow> bool"
  env_junk :: nat
  env_misread :: "fname \<Rightarrow> fname"

definition PSYNC_FOLDER_FLAG_ENCRYPTED :: u32 where "PSYNC_FOLDER_FLAG_ENCRYPTED = 1"
definition PSYNC_FOLDER_FLAG_INVISIBLE :: u32 where "PSYNC_FOLDER_FLAG_INVISIBLE = 2"

definition PSYNC_FS_TASK_MKDIR :: nat where "PSYNC_FS_TASK_MKDIR = 1"
definition PSYNC_FS_TASK_RMDIR :: nat where "PSYNC_FS_TASK_RMDIR = 2"
definition PSYNC_FS_TASK_CREAT :: nat where "PSYNC_FS_TASK_CREAT = 3"
definition PSYNC_FS_TASK_UNLINK :: nat where "PSYNC_FS_TASK_UNLINK = 4"
definition PSYNC_FS_TASK_RENFILE_FROM :: nat where "PSYNC_FS_TASK_RENFILE_FROM = 5"
definition PSYNC_FS_TASK_RENFILE_TO :: nat where "PSYNC_FS_TASK_RENFILE_TO = 6"
definition PSYNC_FS_TASK_RENFOLDER_FROM :: nat where "PSYNC_FS_TASK_RENFOLDER_FROM = 7"
definition PSYNC_FS_TASK_RENFOLDER_TO :: nat where "PSYNC_FS_TASK_RENFOLDER_TO = 8"
definition PSYNC_FS_TASK_MODIFY :: nat where "PSYNC_FS_TASK_MODIFY = 9"
definition PSYNC_FS_TASK_UN_SET_REV :: nat where "PSYNC_FS_TASK_UN_SET_REV = 10"
definition PSYNC_FS_TASK_SET_FILE_MOD :: nat where "PSYNC_FS_TASK_SET_FILE_MOD = 11"
definition PSYNC_FS_TASK_SET_FILE_CR :: nat where "PSYNC_FS_TASK_SET_FILE_CR = 12"

lemmas task_types = PSYNC_FS_TASK_MKDIR_def PSYNC_FS_TASK_RMDIR_def PSYNC_FS_TASK_CREAT_def
  PSYNC_FS_TASK_UNLINK_def PSYNC_FS_TASK_RENFILE_FROM_def PSYNC_FS_TASK_RENFILE_TO_def
  PSYNC_FS_TASK_RENFOLDER_FROM_def PSYNC_FS_TASK_RENFOLDER_TO_def PSYNC_FS_TASK_MODIFY_def
  PSYNC_FS_TASK_UN_SET_REV_def PSYNC_FS_TASK_SET_FILE_MOD_def PSYNC_FS_TASK_SET_FILE_CR_def

definition EEXIST :: int where "EEXIST = 17"
definition ENOENT :: int where "ENOENT = 2"
definition ENOTEMPTY :: int where "ENOTEMPTY = 39"
definition EACCES :: int where "EACCES = 13"
definition EIO :: int where "EIO = 5"

lemmas errnos = EEXIST_def ENOENT_def ENOTEMPTY_def EACCES_def EIO_def

definition emit :: "fs_note \<Rightarrow> fs_state \<Rightarrow> fs_state" where
  "emit n s = s\<lparr>fs_notes := fs_notes s @ [n]\<rparr>"

section \<open>Folder records\<close>

definition search_list :: "('a \<Rightarrow> fname) \<Rightarrow> ('a \<Rightarrow> nat) \<Rightarrow> fname \<Rightarrow> nat \<Rightarrow> 'a list \<Rightarrow> 'a option" where
  "search_list nm tid n taskid xs = find (\<lambda>a. strcmp n (nm a) = 0 \<and> (taskid = 0 \<or> tid a = taskid)) xs"

definition insert_list :: "('a \<Rightarrow> fname) \<Rightarrow> 'a \<Rightarrow> 'a list \<Rightarrow> 'a list" where
  "insert_list nm e xs = takeWhile (\<lambda>a. 0 \<le> strcmp (nm e) (nm a)) xs @ e # dropWhile (\<lambda>a. 0 \<le> strcmp (nm e) (nm a)) xs"

definition psync_fstask_find_mkdir :: "fname \<Rightarrow> nat \<Rightarrow> folder_t \<Rightarrow> mkdir_t option" where
  "psync_fstask_find_mkdir n t f = search_list mk_name mk_taskid n t (fl_mkdirs f)"
definition psync_fstask_find_rmdir :: "fname \<Rightarrow> nat \<Rightarrow> folder_t \<Rightarrow> rmdir_t option" where
  "psync_fstask_find_rmdir n t f = search_list rm_name rm_taskid n t (fl_rmdirs f)"
definition psync_fstask_find_creat :: "fname \<Rightarrow> nat \<Rightarrow> folder_t \<Rightarrow> creat_t option" where
  "psync_fstask_find_creat n t f = search_list cr_name cr_taskid n t (fl_creats f)"
definition psync_fstask_find_unlink :: "fname \<Rightarrow> nat \<Rightarrow> folder_t \<Rightarrow> unlink_t option" where
  "psync_fstask_find_unlink n t f = search_list un_name un_taskid n t (fl_unlinks f)"

definition psync_fstask_find_mkdir_by_folderid :: "int \<Rightarrow> folder_t \<Rightarrow> mkdir_t option" where
  "psync_fstask_find_mkdir_by_folderid i f = find (\<lambda>m. mk_folderid m = i) (fl_mkdirs f)"
definition psync_fstask_find_creat_by_fileid :: "int \<Rightarrow> folder_t \<Rightarrow> creat_t option" where
  "psync_fstask_find_creat_by_fileid i f = find (\<lambda>c. cr_fileid c = i) (fl_creats f)"

definition new_folder :: "int \<Rightarrow> folder_t" where
  "new_folder i = \<lparr>fl_folderid = i, fl_mkdirs = [], fl_rmdirs = [], fl_creats = [], fl_unlinks = [],
     fl_taskscnt = 0, fl_refcnt = 0\<rparr>"

definition get_folder :: "int \<Rightarrow> fs_state \<Rightarrow> folder_t option" where
  "get_folder i s = find (\<lambda>f. fl_folderid f = i) (fs_folders s)"

text \<open>The record behind a pointer; the operations use it for folders that are there.\<close>

definition fld :: "int \<Rightarrow> fs_state \<Rightarrow> folder_t" where
  "fld i s = (case get_folder i s of Some f \<Rightarrow> f | None \<Rightarrow> new_folder i)"

definition upd :: "int \<Rightarrow> (folder_t \<Rightarrow> folder_t) \<Rightarrow> fs_state \<Rightarrow> fs_state" where
  "upd i g s = s\<lparr>fs_folders := map (\<lambda>f. if fl_folderid f = i then g f else f) (fs_folders s)\<rparr>"

definition insert_folder :: "folder_t \<Rightarrow> folder_t list \<Rightarrow> folder_t list" where
  "insert_folder f fs = takeWhile (\<lambda>a. fl_folderid a \<le> fl_folderid f) fs @ f
     # dropWhile (\<lambda>a. fl_folderid a \<le> fl_folderid f) fs"

definition psync_fstask_get_or_create_folder_tasks_locked :: "int \<Rightarrow> fs_state \<Rightarrow> fs_state" where
  "psync_fstask_get_or_create_folder_tasks_locked i s =
     (case get_folder i s of
        Some f \<Rightarrow> upd i (\<lambda>f. f\<lparr>fl_refcnt := fl_refcnt f + 1\<rparr>) s
      | None \<Rightarrow> s\<lparr>fs_folders := insert_folder ((new_folder i)\<lparr>fl_refcnt := 1\<rparr>) (fs_folders s)\<rparr>)"

definition psync_fstask_get_folder_tasks_locked :: "int \<Rightarrow> fs_state \<Rightarrow> folder_t option \<times> fs_state" where
  "psync_fstask_get_folder_tasks_locked i s =
     (case get_folder i s of
        Some f \<Rightarrow> (Some f, upd i (\<lambda>f. f\<lparr>fl_refcnt := fl_refcnt f + 1\<rparr>) s)
      | None \<Rightarrow> (None, s))"

definition psync_fstask_get_ref_locked :: "int \<Rightarrow> fs_state \<Rightarrow> fs_state" where
  "psync_fstask_get_ref_locked i = upd i (\<lambda>f. f\<lparr>fl_refcnt := fl_refcnt f + 1\<rparr>)"

definition psync_fstask_release_folder_tasks_locked :: "int \<Rightarrow> fs_state \<Rightarrow> fs_state" where
  "psync_fstask_release_folder_tasks_locked i s =
     (let s = upd i (\<lambda>f. f\<lparr>fl_refcnt := fl_refcnt f - 1\<rparr>) s in
      if fl_refcnt (fld i s) = 0 \<and> fl_taskscnt (fld i s) = 0
      then s\<lparr>fs_folders := filter (\<lambda>f. fl_folderid f \<noteq> i) (fs_folders s)\<rparr> else s)"

abbreviation release_if :: "folder_t option \<Rightarrow> int \<Rightarrow> fs_state \<Rightarrow> fs_state" where
  "release_if f i s \<equiv> (if f \<noteq> None then psync_fstask_release_folder_tasks_locked i s else s)"

text \<open>Adding a record to its tree, or deleting it, together with the task counter.\<close>

definition add_mkdir :: "mkdir_t \<Rightarrow> folder_t \<Rightarrow> folder_t" where
  "add_mkdir m f = f\<lparr>fl_mkdirs := insert_list mk_name m (fl_mkdirs f), fl_taskscnt := fl_taskscnt f + 1\<rparr>"
definition add_rmdir :: "rmdir_t \<Rightarrow> folder_t \<Rightarrow> folder_t" where
  "add_rmdir r f = f\<lparr>fl_rmdirs := insert_list rm_name r (fl_rmdirs f), fl_taskscnt := fl_taskscnt f + 1\<rparr>"
definition add_creat :: "creat_t \<Rightarrow> folder_t \<Rightarrow> folder_t" where
  "add_creat c f = f\<lparr>fl_creats := insert_list cr_name c (fl_creats f), fl_taskscnt := fl_taskscnt f + 1\<rparr>"
definition add_unlink :: "unlink_t \<Rightarrow> folder_t \<Rightarrow> folder_t" where
  "add_unlink u f = f\<lparr>fl_unlinks := insert_list un_name u (fl_unlinks f), fl_taskscnt := fl_taskscnt f + 1\<rparr>"

definition del_mkdir :: "mkdir_t \<Rightarrow> folder_t \<Rightarrow> folder_t" where
  "del_mkdir m f = f\<lparr>fl_mkdirs := remove1 m (fl_mkdirs f), fl_taskscnt := fl_taskscnt f - 1\<rparr>"
definition del_rmdir :: "rmdir_t \<Rightarrow> folder_t \<Rightarrow> folder_t" where
  "del_rmdir r f = f\<lparr>fl_rmdirs := remove1 r (fl_rmdirs f), fl_taskscnt := fl_taskscnt f - 1\<rparr>"
definition del_creat :: "creat_t \<Rightarrow> folder_t \<Rightarrow> folder_t" where
  "del_creat c f = f\<lparr>fl_creats := remove1 c (fl_creats f), fl_taskscnt := fl_taskscnt f - 1\<rparr>"
definition del_unlink :: "unlink_t \<Rightarrow> folder_t \<Rightarrow> folder_t" where
  "del_unlink u f = f\<lparr>fl_unlinks := remove1 u (fl_unlinks f), fl_taskscnt := fl_taskscnt f - 1\<rparr>"

lemmas folder_op_defs = add_mkdir_def add_rmdir_def add_creat_def add_unlink_def
  del_mkdir_def del_rmdir_def del_creat_def del_unlink_def

section \<open>Queries\<close>

definition db_folder :: "int \<Rightarrow> fname \<Rightarrow> fs_db \<Rightarrow> folder_row option" where
  "db_folder i n db = find (\<lambda>r. fo_parent r = Some i \<and> fo_name r = n) (folder_tab db)"
definition db_file :: "int \<Rightarrow> fname \<Rightarrow> fs_db \<Rightarrow> file_row option" where
  "db_file i n db = find (\<lambda>r. fi_parent r = i \<and> fi_name r = n) (file_tab db)"

definition row_name :: "fstask_row \<Rightarrow> fname" where
  "row_name r = (case ft_text1 r of Some n \<Rightarrow> n | None \<Rightarrow> [])"

definition num :: "int option \<Rightarrow> int" where
  "num v = (case v of Some n \<Rightarrow> n | None \<Rightarrow> 0)"

text \<open>A new row of \<^verbatim>\<open>fstask\<close> gets the id after the greatest one (an SQLite rowid).\<close>

definition next_taskid :: "fs_db \<Rightarrow> nat" where
  "next_taskid db = Suc (fold max (map ft_id (fstasks db)) 0)"

definition blank_row :: fstask_row where
  "blank_row = \<lparr>ft_id = 0, ft_type = 0, ft_status = 0, ft_folderid = 0, ft_sfolderid = None, ft_fileid = None,
     ft_text1 = None, ft_text2 = None, ft_int1 = None, ft_int2 = None\<rparr>"

definition insert_task :: "fstask_row \<Rightarrow> fs_db \<Rightarrow> fs_db" where
  "insert_task r db = db\<lparr>fstasks := fstasks db @ [r\<lparr>ft_id := next_taskid db\<rparr>]\<rparr>"

definition depend_add :: "nat \<times> nat \<Rightarrow> (nat \<times> nat) list \<Rightarrow> (nat \<times> nat) list" where
  "depend_add p ds = (if p \<in> set ds then ds else ds @ [p])"

definition psync_fstask_depend :: "nat \<Rightarrow> nat \<Rightarrow> fs_db \<Rightarrow> fs_db" where
  "psync_fstask_depend taskid dep db = db\<lparr>fsdepends := depend_add (taskid, dep) (fsdepends db)\<rparr>"

text \<open>The number of rows that were inserted, and the table.\<close>

definition depend_on_rows :: "nat \<Rightarrow> (fstask_row \<Rightarrow> bool) \<Rightarrow> fs_db \<Rightarrow> nat \<times> fs_db" where
  "depend_on_rows taskid P db =
     (let db' = fold (\<lambda>r. psync_fstask_depend taskid (ft_id r)) (filter P (fstasks db)) db
      in (length (fsdepends db') - length (fsdepends db), db'))"

definition psync_fstask_depend_on_name :: "nat \<Rightarrow> int \<Rightarrow> fname \<Rightarrow> fs_db \<Rightarrow> nat \<times> fs_db" where
  "psync_fstask_depend_on_name taskid folderid name =
     depend_on_rows taskid (\<lambda>r. ft_folderid r = folderid \<and> ft_text1 r = Some name \<and> ft_id r \<noteq> taskid \<and> ft_status r \<noteq> 3)"

definition psync_fstask_depend_on_name2 :: "nat \<Rightarrow> nat \<Rightarrow> int \<Rightarrow> fname \<Rightarrow> fs_db \<Rightarrow> nat \<times> fs_db" where
  "psync_fstask_depend_on_name2 taskid taskid2 folderid name =
     depend_on_rows taskid (\<lambda>r. ft_folderid r = folderid \<and> ft_text1 r = Some name
       \<and> ft_id r \<noteq> taskid \<and> ft_id r \<noteq> taskid2 \<and> ft_status r \<noteq> 3)"

section \<open>Creating and removing folders\<close>

abbreviation goc :: "int \<Rightarrow> fs_state \<Rightarrow> fs_state" where
  "goc \<equiv> psync_fstask_get_or_create_folder_tasks_locked"
abbreviation release :: "int \<Rightarrow> fs_state \<Rightarrow> fs_state" where
  "release \<equiv> psync_fstask_release_folder_tasks_locked"

definition emit_if :: "bool \<Rightarrow> fs_note \<Rightarrow> fs_state \<Rightarrow> fs_state" where
  "emit_if b n s = (if b then emit n s else s)"

definition set_db :: "fs_db \<Rightarrow> fs_state \<Rightarrow> fs_state" where
  "set_db db s = s\<lparr>fs_db := db\<rparr>"

definition mkdir_insert :: "fs_env \<Rightarrow> int \<Rightarrow> fname \<Rightarrow> u8 list option \<Rightarrow> u32 \<Rightarrow> fs_state \<Rightarrow> int \<times> fs_state" where
  "mkdir_insert e folderid name key folderflags s =
     (let taskid = next_taskid (fs_db s);
          db = insert_task (blank_row\<lparr>ft_type := PSYNC_FS_TASK_MKDIR, ft_folderid := folderid,
            ft_sfolderid := Some folderid, ft_text1 := Some name, ft_text2 := key, ft_int1 := Some (env_now e)\<rparr>) (fs_db s);
          depend = (if folderid < 0 then 1 else 0);
          db = (if folderid < 0 then psync_fstask_depend taskid (nat (- folderid)) db else db);
          p = psync_fstask_depend_on_name taskid folderid name db
      in if \<not> env_commit e then (- EIO, release folderid s)
         else
           (let task = \<lparr>mk_folderid = - int taskid, mk_taskid = taskid, mk_ctime = env_now e, mk_mtime = env_now e,
                  mk_subdircnt = 0, mk_flags = folderflags AND PSYNC_FOLDER_FLAG_ENCRYPTED, mk_name = name\<rparr>;
                s = release folderid (upd folderid (add_mkdir task) (set_db (snd p) s));
                s = emit_if (depend + fst p = 0) UploadWake s
            in (0, emit_if (0 \<le> folderid) (DriveFolderChanged folderid) s)))"

definition psync_fstask_mkdir :: "fs_env \<Rightarrow> int \<Rightarrow> fname \<Rightarrow> u32 \<Rightarrow> fs_state \<Rightarrow> int \<times> fs_state" where
  "psync_fstask_mkdir e folderid name folderflags s =
     (let s = goc folderid s; f = fld folderid s in
      if 0 \<le> folderid \<and> db_folder folderid name (fs_db s) \<noteq> None \<and> psync_fstask_find_rmdir name 0 f = None
      then (- EEXIST, release folderid s)
      else case psync_fstask_find_mkdir name 0 f of
        Some task \<Rightarrow> (if mk_flags task AND PSYNC_FOLDER_FLAG_INVISIBLE \<noteq> 0 then - EACCES else - EEXIST, release folderid s)
      | None \<Rightarrow>
          if folderflags AND PSYNC_FOLDER_FLAG_ENCRYPTED = 0 then mkdir_insert e folderid name None folderflags s
          else (case env_new_key e of
                  Inr err \<Rightarrow> (- err, release folderid s)
                | Inl key \<Rightarrow> mkdir_insert e folderid name (Some key) folderflags s))"

text \<open>
  The loops over the files and folders of the table that decide whether a folder is empty: \<open>cf\<close> is its
  record, null when it has none.
\<close>

definition has_remote_entries :: "folder_t option \<Rightarrow> int \<Rightarrow> fs_db \<Rightarrow> bool" where
  "has_remote_entries cf cfolderid db \<longleftrightarrow> 0 \<le> cfolderid \<and>
     (list_ex (\<lambda>r. fi_parent r = cfolderid \<and> (case cf of None \<Rightarrow> True
        | Some c \<Rightarrow> psync_fstask_find_unlink (fi_name r) 0 c = None)) (file_tab db)
      \<or> list_ex (\<lambda>r. fo_parent r = Some cfolderid \<and> (case cf of None \<Rightarrow> True
        | Some c \<Rightarrow> psync_fstask_find_rmdir (fo_name r) 0 c = None)) (folder_tab db))"

definition has_local_entries :: "folder_t option \<Rightarrow> bool" where
  "has_local_entries cf \<longleftrightarrow> (case cf of None \<Rightarrow> False | Some c \<Rightarrow> fl_creats c \<noteq> [] \<or> fl_mkdirs c \<noteq> [])"

text \<open>
  \<^verbatim>\<open>psync_fstask_can_rmdir\<close>; \<open>None\<close> where the code releases a null folder: the folder has no record and the
  table no such subfolder.
\<close>

definition psync_fstask_can_rmdir :: "int \<Rightarrow> u32 \<Rightarrow> fname \<Rightarrow> fs_state \<Rightarrow> (int \<times> fs_state) option" where
  "psync_fstask_can_rmdir folderid parentflags name s =
     (let (folder, s) = psync_fstask_get_folder_tasks_locked folderid s;
          mk = Option.bind folder (psync_fstask_find_mkdir name 0);
          row = db_folder folderid name (fs_db s);
          final = (\<lambda>cfolderid s.
            let (cf, s) = psync_fstask_get_folder_tasks_locked cfolderid s in
            if has_local_entries cf \<or> has_remote_entries cf cfolderid (fs_db s)
            then (- ENOTEMPTY, release_if folder folderid (release_if cf cfolderid s))
            else (0, release_if folder folderid (release_if cf cfolderid s)))
      in case mk of
           Some m \<Rightarrow> Some (final (mk_folderid m) s)
         | None \<Rightarrow>
           (case row of
              None \<Rightarrow> if folder = None then None else Some (- ENOENT, release folderid s)
            | Some r \<Rightarrow>
              if folder \<noteq> None \<and> Option.bind folder (psync_fstask_find_rmdir name 0) \<noteq> None
              then Some (- ENOENT, release folderid s)
              else if fo_flags r AND PSYNC_FOLDER_FLAG_ENCRYPTED \<noteq> 0 \<and> parentflags AND PSYNC_FOLDER_FLAG_ENCRYPTED = 0
              then Some (- EACCES, release_if folder folderid s)
              else Some (final (fo_id r) s)))"

text \<open>
  \<^verbatim>\<open>psync_fstask_rmdir\<close>. When the folder was created on the drive (\<open>mk\<close>), the task counter goes down before
  the folder is checked to be empty, and the record is deleted after.
\<close>

definition rmdir_insert :: "fs_env \<Rightarrow> int \<Rightarrow> int \<Rightarrow> fname \<Rightarrow> nat \<Rightarrow> fs_state \<Rightarrow> int \<times> fs_state" where
  "rmdir_insert e folderid cfolderid name depend s =
     (let taskid = next_taskid (fs_db s);
          db = insert_task (blank_row\<lparr>ft_type := PSYNC_FS_TASK_RMDIR, ft_folderid := folderid,
            ft_sfolderid := Some cfolderid, ft_text1 := Some name\<rparr>) (fs_db s);
          db = (if depend \<noteq> 0 then psync_fstask_depend taskid depend db else db);
          inside = filter (\<lambda>r. ft_folderid r = cfolderid) (fstasks db);
          db = fold (\<lambda>r. psync_fstask_depend taskid (ft_id r)) inside db;
          db = snd (psync_fstask_depend_on_name taskid folderid name db)
      in if \<not> env_commit e then (- EIO, release folderid s)
         else
           (let task = \<lparr>rm_folderid = cfolderid, rm_taskid = taskid, rm_name = name\<rparr>;
                s = release folderid (upd folderid (add_rmdir task) (set_db db s))
            in (0, emit_if (depend + length inside = 0) UploadWake s)))"

definition rmdir_check :: "fs_env \<Rightarrow> int \<Rightarrow> int \<Rightarrow> fname \<Rightarrow> nat \<Rightarrow> mkdir_t option \<Rightarrow> fs_state \<Rightarrow> int \<times> fs_state" where
  "rmdir_check e folderid cfolderid name depend mk s =
     (let (cf, s) = psync_fstask_get_folder_tasks_locked cfolderid s in
      if has_local_entries cf \<or> has_remote_entries cf cfolderid (fs_db s)
      then (- ENOTEMPTY, release folderid (release_if cf cfolderid s))
      else
        (let s = (case mk of None \<Rightarrow> s
                    | Some m \<Rightarrow> upd folderid (\<lambda>f. f\<lparr>fl_mkdirs := remove1 m (fl_mkdirs f)\<rparr>) s)
         in rmdir_insert e folderid cfolderid name depend (release_if cf cfolderid s)))"

definition psync_fstask_rmdir :: "fs_env \<Rightarrow> int \<Rightarrow> u32 \<Rightarrow> fname \<Rightarrow> fs_state \<Rightarrow> int \<times> fs_state" where
  "psync_fstask_rmdir e folderid parentflags name s =
     (let s = goc folderid s
      in case psync_fstask_find_mkdir name 0 (fld folderid s) of
           None \<Rightarrow>
             (case db_folder folderid name (fs_db s) of
                None \<Rightarrow> (- ENOENT, release folderid s)
              | Some r \<Rightarrow>
                if psync_fstask_find_rmdir name 0 (fld folderid s) \<noteq> None then (- ENOENT, release folderid s)
                else if fo_flags r AND PSYNC_FOLDER_FLAG_ENCRYPTED \<noteq> 0 \<and> parentflags AND PSYNC_FOLDER_FLAG_ENCRYPTED = 0
                then (- EACCES, release folderid s)
                else rmdir_check e folderid (fo_id r) name 0 None s)
         | Some m \<Rightarrow>
             rmdir_check e folderid (mk_folderid m) name (mk_taskid m) (Some m)
               (upd folderid (\<lambda>f. f\<lparr>fl_taskscnt := fl_taskscnt f - 1\<rparr>) s))"

section \<open>Creating and modifying files\<close>

text \<open>The folder is held by the caller; the result is the new record, null when the commit fails.\<close>

definition creat_row :: "nat \<Rightarrow> int \<Rightarrow> fname \<Rightarrow> int \<Rightarrow> u8 list option \<Rightarrow> int option \<Rightarrow> fstask_row" where
  "creat_row type folderid name fileid key hash = blank_row\<lparr>ft_type := type, ft_status := 1,
     ft_folderid := folderid, ft_fileid := Some fileid, ft_sfolderid := Some folderid, ft_text1 := Some name,
     ft_text2 := key, ft_int1 := Some 0, ft_int2 := hash\<rparr>"

definition creat_depends :: "nat \<Rightarrow> int \<Rightarrow> fname \<Rightarrow> fs_db \<Rightarrow> fs_db" where
  "creat_depends taskid folderid name db =
     snd (psync_fstask_depend_on_name taskid folderid name
       (if folderid < 0 then psync_fstask_depend taskid (nat (- folderid)) db else db))"

definition psync_fstask_add_creat ::
  "fs_env \<Rightarrow> int \<Rightarrow> fname \<Rightarrow> int \<Rightarrow> u8 list option \<Rightarrow> fs_state \<Rightarrow> creat_t option \<times> fs_state" where
  "psync_fstask_add_creat e folderid name fileid encsymkey s =
     (let taskid = next_taskid (fs_db s);
          db = insert_task (creat_row PSYNC_FS_TASK_CREAT folderid name fileid encsymkey None) (fs_db s);
          db = creat_depends taskid folderid name db
      in if \<not> env_commit e then (None, s)
         else
           (let un = \<lparr>un_fileid = - int taskid, un_taskid = taskid, un_name = name\<rparr>;
                task = \<lparr>cr_fileid = - int taskid, cr_rfileid = fileid, cr_taskid = taskid, cr_name = name\<rparr>;
                s = upd folderid (add_creat task) (upd folderid (add_unlink un) (set_db db s))
            in (Some task, emit_if (0 \<le> folderid) (DriveFolderChanged folderid) s)))"

definition psync_fstask_inject_creat :: "int \<Rightarrow> creat_t \<Rightarrow> fs_state \<Rightarrow> fs_state" where
  "psync_fstask_inject_creat folderid cr = upd folderid (add_creat cr)"

text \<open>The unlink record goes to a place found by misread names, see \<open>psync_fstask_inject_unlink_tree\<close>.\<close>

definition add_unlink_misread :: "fs_env \<Rightarrow> unlink_t \<Rightarrow> folder_t \<Rightarrow> folder_t" where
  "add_unlink_misread e u f = f\<lparr>fl_unlinks := insert_list (\<lambda>u. env_misread e (un_name u)) u (fl_unlinks f),
     fl_taskscnt := fl_taskscnt f + 1\<rparr>"

definition psync_fstask_inject_unlink :: "fs_env \<Rightarrow> int \<Rightarrow> unlink_t \<Rightarrow> fs_state \<Rightarrow> fs_state" where
  "psync_fstask_inject_unlink e folderid un = upd folderid (add_unlink_misread e un)"

definition psync_fstask_add_modified_file ::
  "fs_env \<Rightarrow> int \<Rightarrow> fname \<Rightarrow> int \<Rightarrow> int \<Rightarrow> u8 list option \<Rightarrow> fs_state \<Rightarrow> creat_t option \<times> fs_state" where
  "psync_fstask_add_modified_file e folderid name fileid hash encsymkey s =
     (let taskid = next_taskid (fs_db s);
          db = insert_task (creat_row PSYNC_FS_TASK_MODIFY folderid name fileid encsymkey (Some hash)) (fs_db s);
          db = creat_depends taskid folderid name db;
          (db, s) = (case psync_fstask_find_creat name 0 (fld folderid s) of
             Some c \<Rightarrow> (psync_fstask_depend taskid (cr_taskid c) db, upd folderid (del_creat c) s)
           | None \<Rightarrow> (db, s))
      in if \<not> env_commit e then (None, s)
         else
           (let un = \<lparr>un_fileid = fileid, un_taskid = taskid, un_name = name\<rparr>;
                task = \<lparr>cr_fileid = - int taskid, cr_rfileid = fileid, cr_taskid = taskid, cr_name = name\<rparr>;
                s = upd folderid (add_creat task) (upd folderid (add_unlink un) (set_db db s))
            in (Some task, emit_if (0 \<le> folderid) (DriveFolderChanged folderid) s)))"

definition psync_fstask_set_mtime :: "fs_env \<Rightarrow> int \<Rightarrow> int \<Rightarrow> int \<Rightarrow> bool \<Rightarrow> fs_state \<Rightarrow> int \<times> fs_state" where
  "psync_fstask_set_mtime e fileid oldtm newtm is_ctime s =
     (let db = (fs_db s)\<lparr>file_tab := map (\<lambda>r. if fi_id r = fileid
            then if is_ctime then r\<lparr>fi_ctime := newtm\<rparr> else r\<lparr>fi_mtime := newtm\<rparr> else r) (file_tab (fs_db s))\<rparr>;
          db = insert_task (blank_row\<lparr>ft_type := if is_ctime then PSYNC_FS_TASK_SET_FILE_CR else PSYNC_FS_TASK_SET_FILE_MOD,
            ft_fileid := Some fileid, ft_int1 := Some oldtm, ft_int2 := Some newtm\<rparr>) db
      in if \<not> env_commit e then (- EIO, s) else (0, emit UploadWake (set_db db s)))"

definition psync_fstask_add_local_creat_static :: "int \<Rightarrow> fname \<Rightarrow> fs_state \<Rightarrow> int \<times> fs_state" where
  "psync_fstask_add_local_creat_static folderid name s =
     (let s = goc folderid s; f = fld folderid s in
      if psync_fstask_find_creat name 0 f \<noteq> None then (- 1, release folderid s)
      else if 0 \<le> folderid \<and> psync_fstask_find_unlink name 0 f = None \<and> db_file folderid name (fs_db s) \<noteq> None
      then (- 1, release folderid s)
      else
        (let un = \<lparr>un_fileid = 0, un_taskid = fs_local_taskid s, un_name = name\<rparr>;
             cr = \<lparr>cr_fileid = 0, cr_rfileid = 0, cr_taskid = fs_local_taskid s, cr_name = name\<rparr>;
             s = upd folderid (add_creat cr) (upd folderid (add_unlink un) s);
             s = s\<lparr>fs_local_taskid := fs_local_taskid s - 1\<rparr>
         in (0, release folderid s)))"

section \<open>Removing files\<close>

definition get_file_at_old_location :: "fs_env \<Rightarrow> int \<Rightarrow> fs_state \<Rightarrow> int \<times> fs_state" where
  "get_file_at_old_location e fileid s =
     (if fileid < 0 then (0, s)
      else case env_history e fileid of
        None \<Rightarrow> (0, s)
      | Some (rfolderid, rname) \<Rightarrow>
        (let (folder, s) = psync_fstask_get_folder_tasks_locked rfolderid s;
             cr = Option.bind folder (psync_fstask_find_creat rname 0);
             un = Option.bind folder (psync_fstask_find_unlink rname 0);
             s = release_if folder rfolderid s
         in case cr of
              Some c \<Rightarrow> (cr_fileid c, s)
            | None \<Rightarrow>
              if un \<noteq> None then (0, s)
              else (case db_file rfolderid rname (fs_db s) of Some r \<Rightarrow> fi_id r | None \<Rightarrow> 0, s)))"

definition psync_fstask_stop_and_delete_file :: "fs_env \<Rightarrow> int \<Rightarrow> fs_state \<Rightarrow> fs_state" where
  "psync_fstask_stop_and_delete_file e fileid s =
     (if env_in_batch e (- fileid) then s
      else
        (let s = emit (StopUpload (- fileid)) s;
             t = map (\<lambda>r. if int (ft_id r) = - fileid then r\<lparr>ft_status := 11\<rparr> else r) (fstasks (fs_db s));
             t = map (\<lambda>r. if ft_fileid r = Some fileid \<and> ft_status r \<noteq> 10 then r\<lparr>ft_status := 11\<rparr> else r) t
         in emit (OpenfileDeleted (- fileid)) (set_db ((fs_db s)\<lparr>fstasks := t\<rparr>) s)))"

definition psync_fstask_can_unlink :: "int \<Rightarrow> fname \<Rightarrow> fs_state \<Rightarrow> int \<times> fs_state" where
  "psync_fstask_can_unlink folderid name s =
     (let (folder, s) = psync_fstask_get_folder_tasks_locked folderid s in
      if Option.bind folder (psync_fstask_find_creat name 0) \<noteq> None then (0, release folderid s)
      else if db_file folderid name (fs_db s) = None \<or> Option.bind folder (psync_fstask_find_unlink name 0) \<noteq> None
      then (- ENOENT, release_if folder folderid s)
      else (0, release_if folder folderid s))"

text \<open>The second half of \<^verbatim>\<open>psync_fstask_unlink\<close>, when the file to remove is known.\<close>

definition unlink_row :: "int \<Rightarrow> fname \<Rightarrow> int \<Rightarrow> int \<Rightarrow> int \<Rightarrow> fstask_row" where
  "unlink_row folderid name fileid rfileid revoffileid =
     (if revoffileid \<noteq> 0
      then blank_row\<lparr>ft_type := PSYNC_FS_TASK_UN_SET_REV, ft_folderid := folderid, ft_fileid := Some revoffileid,
        ft_int1 := Some fileid, ft_text1 := Some name, ft_int2 := Some rfileid\<rparr>
      else blank_row\<lparr>ft_type := PSYNC_FS_TASK_UNLINK, ft_status := if fileid < 0 then 11 else 0,
        ft_folderid := folderid, ft_fileid := Some fileid, ft_text1 := Some name, ft_int2 := Some rfileid\<rparr>)"

definition unlink_depends :: "nat \<Rightarrow> int \<Rightarrow> fname \<Rightarrow> nat \<Rightarrow> int \<Rightarrow> int \<Rightarrow> fs_db \<Rightarrow> fs_db" where
  "unlink_depends taskid folderid name depend fileid revoffileid db =
     (let db = (if depend \<noteq> 0 then psync_fstask_depend taskid depend db else db);
          db = (if revoffileid < 0 then psync_fstask_depend taskid (nat (- revoffileid)) db else db);
          db = (if fileid < 0 \<and> - fileid \<noteq> int depend then psync_fstask_depend taskid (nat (- fileid)) db else db)
      in snd (psync_fstask_depend_on_name taskid folderid name db))"

definition unlink_insert :: "fs_env \<Rightarrow> int \<Rightarrow> fname \<Rightarrow> nat \<Rightarrow> int \<Rightarrow> int \<Rightarrow> fs_state \<Rightarrow> int \<times> fs_state" where
  "unlink_insert e folderid name depend fileid rfileid s =
     (let (revoffileid, s) = get_file_at_old_location e fileid s;
          saved = fs_db s;
          s = (if fileid < 0 then psync_fstask_stop_and_delete_file e fileid s else s);
          taskid = next_taskid (fs_db s);
          db = insert_task (unlink_row folderid name fileid rfileid revoffileid) (fs_db s);
          db = unlink_depends taskid folderid name depend fileid revoffileid db
      in if \<not> env_commit e then (- EIO, release folderid (set_db saved s))
         else
           (let task = \<lparr>un_fileid = fileid, un_taskid = taskid, un_name = name\<rparr>;
                s = release folderid (upd folderid (add_unlink task) (set_db db s))
            in (0, emit_if (depend = 0 \<or> fileid < 0) UploadWake s)))"

definition psync_fstask_unlink :: "fs_env \<Rightarrow> int \<Rightarrow> fname \<Rightarrow> fs_state \<Rightarrow> int \<times> fs_state" where
  "psync_fstask_unlink e folderid name s =
     (let s = goc folderid s; f = fld folderid s in
      case psync_fstask_find_creat name 0 f of
        None \<Rightarrow>
          (case db_file folderid name (fs_db s) of
             None \<Rightarrow> (- ENOENT, release folderid s)
           | Some r \<Rightarrow>
             if psync_fstask_find_unlink name 0 f \<noteq> None then (- ENOENT, release folderid s)
             else unlink_insert e folderid name 0 (fi_id r) 0 s)
      | Some cr \<Rightarrow>
          if cr_fileid cr = 0
          then
            (let s = (case psync_fstask_find_unlink (cr_name cr) (cr_taskid cr) f of
                        Some task \<Rightarrow> upd folderid (del_unlink task) s | None \<Rightarrow> s)
             in (0, release folderid (upd folderid (del_creat cr) s)))
          else
            (let s = upd folderid (del_creat cr) s;
                 s = emit_if (0 \<le> folderid) (DriveFolderChanged folderid) s
             in unlink_insert e folderid name (cr_taskid cr) (cr_fileid cr) (cr_rfileid cr) s))"

section \<open>Renaming\<close>

text \<open>A missing new name (null) is the old one; the caller of the model passes the name that applies.\<close>

definition psync_fstask_rename_file ::
  "fs_env \<Rightarrow> int \<Rightarrow> int \<Rightarrow> fname \<Rightarrow> int \<Rightarrow> fname \<Rightarrow> fs_state \<Rightarrow> int \<times> fs_state" where
  "psync_fstask_rename_file e fileid parentid name to_folderid new_name s =
     (let s = goc parentid s;
          cr = psync_fstask_find_creat name 0 (fld parentid s);
          rfileid = (case cr of Some c \<Rightarrow> cr_rfileid c | None \<Rightarrow> 0);
          ftaskid = next_taskid (fs_db s);
          db = insert_task (blank_row\<lparr>ft_type := PSYNC_FS_TASK_RENFILE_FROM, ft_status := 10,
            ft_folderid := parentid, ft_fileid := Some fileid, ft_text1 := Some name\<rparr>) (fs_db s);
          ttaskid = next_taskid db;
          db = insert_task (blank_row\<lparr>ft_type := PSYNC_FS_TASK_RENFILE_TO, ft_folderid := to_folderid,
            ft_fileid := Some fileid, ft_text1 := Some new_name, ft_int1 := Some (int ftaskid), ft_int2 := Some rfileid\<rparr>) db;
          db = (if fileid < 0
            then psync_fstask_depend ttaskid (nat (- fileid)) (db\<lparr>fstasks := map (\<lambda>r. if int (ft_id r) = - fileid
              then r\<lparr>ft_sfolderid := Some to_folderid\<rparr> else r) (fstasks db)\<rparr>) else db);
          db = (if parentid < 0 then psync_fstask_depend ttaskid (nat (- parentid)) db else db);
          db = (if to_folderid < 0 \<and> to_folderid \<noteq> parentid
                then psync_fstask_depend ttaskid (nat (- to_folderid)) db else db);
          db = snd (psync_fstask_depend_on_name2 ttaskid ftaskid parentid name db);
          db = snd (psync_fstask_depend_on_name ttaskid to_folderid new_name db);
          db = (case cr of Some c \<Rightarrow> psync_fstask_depend ttaskid (cr_taskid c) db | None \<Rightarrow> db)
      in if \<not> env_commit e then (- EIO, release parentid s)
         else
           (let s = set_db db s;
                s = (case cr of
                  Some c \<Rightarrow> emit_if (0 \<le> parentid) (DriveFolderChanged parentid) (upd parentid (del_creat c) s)
                | None \<Rightarrow> s);
                s = emit (OpenfileRenamed fileid to_folderid new_name) s;
                rm = \<lparr>un_fileid = fileid, un_taskid = ftaskid, un_name = name\<rparr>;
                s = release parentid (upd parentid (add_unlink rm) s);
                s = goc to_folderid s;
                s = (case psync_fstask_find_creat new_name 0 (fld to_folderid s) of
                  Some c \<Rightarrow> upd to_folderid (del_creat c)
                    (if cr_fileid c < 0 then psync_fstask_stop_and_delete_file e (cr_fileid c) s else s)
                | None \<Rightarrow> s);
                un = \<lparr>un_fileid = fileid, un_taskid = ttaskid, un_name = new_name\<rparr>;
                c' = \<lparr>cr_fileid = fileid, cr_rfileid = rfileid, cr_taskid = ttaskid, cr_name = new_name\<rparr>;
                s = release to_folderid (upd to_folderid (add_creat c') (upd to_folderid (add_unlink un) s));
                s = emit UploadWake s;
                s = (if fileid > 0 \<and> 0 \<le> parentid then emit (HistoryAdd fileid parentid name) s
                     else emit_if (rfileid > 0 \<and> 0 \<le> parentid) (HistoryAdd rfileid parentid name) s)
            in (0, emit_if (0 \<le> to_folderid) (DriveFolderChanged to_folderid) s)))"

definition fill_mkdir_data :: "fs_env \<Rightarrow> int \<Rightarrow> fs_db \<Rightarrow> mkdir_t \<Rightarrow> mkdir_t" where
  "fill_mkdir_data e folderid db mkdir =
     (let mkdir = mkdir\<lparr>mk_ctime := env_now e, mk_mtime := env_now e, mk_subdircnt := 0\<rparr> in
      if folderid < 0
      then (case find (\<lambda>r. int (ft_id r) = - folderid) (fstasks db) of
              Some r \<Rightarrow> (let t = (case ft_int1 r of Some t \<Rightarrow> t | None \<Rightarrow> 0) in mkdir\<lparr>mk_ctime := t, mk_mtime := t\<rparr>)
            | None \<Rightarrow> mkdir)
      else (case find (\<lambda>r. fo_id r = folderid) (folder_tab db) of
              Some r \<Rightarrow> mkdir\<lparr>mk_ctime := fo_ctime r, mk_mtime := fo_mtime r, mk_subdircnt := fo_subdircnt r\<rparr>
            | None \<Rightarrow> mkdir))"

definition psync_fstask_delete_folder_if_ex :: "int \<Rightarrow> fname \<Rightarrow> int \<Rightarrow> fs_state \<Rightarrow> nat \<times> fs_state" where
  "psync_fstask_delete_folder_if_ex folderid name from_fid s =
     (let (folder, s) = psync_fstask_get_folder_tasks_locked folderid s;
          mk = Option.bind folder (psync_fstask_find_mkdir name 0);
          rm = Option.bind folder (psync_fstask_find_rmdir name 0);
          s = release_if folder folderid s
      in if mk = None \<and> rm \<noteq> None then (0, s)
         else
           (let (cfolderid, depend) = (case mk of Some m \<Rightarrow> (mk_folderid m, mk_taskid m) | None \<Rightarrow> (0, 0));
                cfolderid = (if cfolderid \<noteq> 0 \<or> folderid < 0 then cfolderid
                  else case find (\<lambda>r. fo_parent r = Some folderid \<and> fo_id r \<noteq> from_fid \<and> fo_name r = name) (folder_tab (fs_db s)) of
                         Some r \<Rightarrow> fo_id r | None \<Rightarrow> 0)
            in if cfolderid = 0 then (0, s)
               else
                 (let taskid = next_taskid (fs_db s);
                      db = insert_task (blank_row\<lparr>ft_type := PSYNC_FS_TASK_RMDIR, ft_folderid := folderid,
                        ft_sfolderid := Some cfolderid, ft_text1 := Some name\<rparr>) (fs_db s);
                      db = (if depend \<noteq> 0 then psync_fstask_depend taskid depend db else db);
                      db = (if cfolderid < 0 then psync_fstask_depend taskid (nat (- cfolderid)) db else db)
                  in (taskid, set_db db s))))"

text \<open>
  \<^verbatim>\<open>psync_fstask_rename_folder\<close> as it is: the tasks it waits for by name are those of the moved folder with the
  new name, and the pending folder it replaces in the target is looked up by the old name.
\<close>

definition psync_fstask_rename_folder ::
  "fs_env \<Rightarrow> int \<Rightarrow> int \<Rightarrow> fname \<Rightarrow> int \<Rightarrow> fname \<Rightarrow> u32 \<Rightarrow> fs_state \<Rightarrow> int \<times> fs_state" where
  "psync_fstask_rename_folder e folderid parentid name to_folderid new_name targetflags s =
     (let saved = fs_db s;
          (rmtask, s) = psync_fstask_delete_folder_if_ex to_folderid new_name folderid s;
          ftaskid = next_taskid (fs_db s);
          db = insert_task (blank_row\<lparr>ft_type := PSYNC_FS_TASK_RENFOLDER_FROM, ft_status := 10,
            ft_folderid := parentid, ft_sfolderid := Some folderid, ft_text1 := Some name\<rparr>) (fs_db s);
          ttaskid = next_taskid db;
          db = insert_task (blank_row\<lparr>ft_type := PSYNC_FS_TASK_RENFOLDER_TO, ft_folderid := to_folderid,
            ft_sfolderid := Some folderid, ft_text1 := Some new_name, ft_int1 := Some (int ftaskid),
            ft_int2 := Some (uint targetflags)\<rparr>) db;
          db = (if folderid < 0
            then psync_fstask_depend ttaskid (nat (- folderid)) (db\<lparr>fstasks := map (\<lambda>r. if int (ft_id r) = - folderid
              then r\<lparr>ft_sfolderid := Some to_folderid\<rparr> else r) (fstasks db)\<rparr>) else db);
          db = (if rmtask \<noteq> 0 then psync_fstask_depend ttaskid rmtask db else db);
          db = (if parentid < 0 then psync_fstask_depend ttaskid (nat (- parentid)) db else db);
          db = (if to_folderid < 0 \<and> to_folderid \<noteq> parentid
                then psync_fstask_depend ttaskid (nat (- to_folderid)) db else db);
          db = snd (psync_fstask_depend_on_name2 ttaskid ftaskid parentid name db);
          db = snd (psync_fstask_depend_on_name ttaskid folderid new_name db);
          s = goc parentid s;
          mk = psync_fstask_find_mkdir name 0 (fld parentid s);
          db = (case mk of Some m \<Rightarrow> psync_fstask_depend ttaskid (mk_taskid m) db | None \<Rightarrow> db)
      in if \<not> env_commit e then (- EIO, release parentid (set_db saved s))
         else
           (let s = set_db db s;
                s = (case mk of Some m \<Rightarrow> upd parentid (del_mkdir m) s | None \<Rightarrow> s);
                rm = \<lparr>rm_folderid = folderid, rm_taskid = ftaskid, rm_name = name\<rparr>;
                s = release parentid (upd parentid (add_rmdir rm) s);
                s = goc to_folderid s;
                s = (case psync_fstask_find_mkdir name 0 (fld to_folderid s) of
                       Some m \<Rightarrow> upd to_folderid (del_mkdir m) s | None \<Rightarrow> s);
                rm = \<lparr>rm_folderid = folderid, rm_taskid = ttaskid, rm_name = new_name\<rparr>;
                m' = fill_mkdir_data e folderid (fs_db s) \<lparr>mk_folderid = folderid, mk_taskid = ttaskid, mk_ctime = 0,
                  mk_mtime = 0, mk_subdircnt = 0, mk_flags = targetflags, mk_name = new_name\<rparr>;
                s = release to_folderid (upd to_folderid (add_mkdir m') (upd to_folderid (add_rmdir rm) s));
                s = emit UploadWake s
            in (0, emit_if (0 \<le> to_folderid) (DriveFolderChanged to_folderid) s)))"

section \<open>Completion of tasks\<close>

text \<open>
  The upload thread reports here that a task is done, after the change is in the tables of the drive.
\<close>

definition psync_fstask_folder_created :: "int \<Rightarrow> nat \<Rightarrow> int \<Rightarrow> fname \<Rightarrow> fs_state \<Rightarrow> fs_state" where
  "psync_fstask_folder_created parentid taskid folderid name s =
     (let (folder, s) = psync_fstask_get_folder_tasks_locked parentid s;
          mk = Option.bind folder (psync_fstask_find_mkdir name taskid);
          s = (case mk of Some m \<Rightarrow> upd parentid (del_mkdir m) s | None \<Rightarrow> s);
          s = release_if folder parentid s;
          s = (if mk \<noteq> None then s
               else case find (\<lambda>r. ft_id r = taskid) (fstasks (fs_db s)) of
                 None \<Rightarrow> s
               | Some r \<Rightarrow>
                 (let sfolderid = (case ft_sfolderid r of Some i \<Rightarrow> i | None \<Rightarrow> 0);
                      (sf, s) = psync_fstask_get_folder_tasks_locked sfolderid s;
                      m = Option.bind sf (psync_fstask_find_mkdir_by_folderid (- int taskid));
                      s = (case m of Some m \<Rightarrow> upd sfolderid (\<lambda>f. f\<lparr>fl_mkdirs :=
                             map (\<lambda>x. if x = m then x\<lparr>mk_folderid := folderid\<rparr> else x) (fl_mkdirs f)\<rparr>) s | None \<Rightarrow> s)
                  in release_if sf sfolderid s));
          (own, s) = psync_fstask_get_folder_tasks_locked (- int taskid) s;
          s = (if own = None then s
               else
                 (let f = fld (- int taskid) s;
                      s = s\<lparr>fs_folders := filter (\<lambda>f. fl_folderid f \<noteq> - int taskid) (fs_folders s)\<rparr>;
                      s = s\<lparr>fs_folders := insert_folder (f\<lparr>fl_folderid := folderid\<rparr>) (fs_folders s)\<rparr>
                  in emit (DriveFolderChanged folderid) (release folderid s)))
      in emit_if (mk \<noteq> None) (DriveFolderChanged parentid) s)"

definition psync_fstask_folder_deleted :: "int \<Rightarrow> nat \<Rightarrow> fname \<Rightarrow> fs_state \<Rightarrow> fs_state" where
  "psync_fstask_folder_deleted parentid taskid name s =
     (let (folder, s) = psync_fstask_get_folder_tasks_locked parentid s;
          s = (case Option.bind folder (psync_fstask_find_rmdir name taskid) of
                 Some r \<Rightarrow> upd parentid (del_rmdir r) s | None \<Rightarrow> s)
      in release_if folder parentid s)"

definition psync_fstask_look_for_creat_in_db :: "nat \<Rightarrow> int \<Rightarrow> fs_state \<Rightarrow> fs_state" where
  "psync_fstask_look_for_creat_in_db taskid fileid s =
     (case find (\<lambda>r. ft_id r = taskid) (fstasks (fs_db s)) of
        None \<Rightarrow> s
      | Some r \<Rightarrow>
        (let sfolderid = (case ft_sfolderid r of Some i \<Rightarrow> i | None \<Rightarrow> 0);
             (sf, s) = psync_fstask_get_folder_tasks_locked sfolderid s;
             c = Option.bind sf (psync_fstask_find_creat_by_fileid (- int taskid));
             s = (case c of Some c \<Rightarrow> upd sfolderid (\<lambda>f. f\<lparr>fl_creats :=
                    map (\<lambda>x. if x = c then x\<lparr>cr_fileid := fileid\<rparr> else x) (fl_creats f)\<rparr>) s | None \<Rightarrow> s)
         in release_if sf sfolderid s))"

text \<open>\<^verbatim>\<open>psync_fstask_file_created\<close> and \<^verbatim>\<open>psync_fstask_file_modified\<close> differ in their log messages only.\<close>

definition psync_fstask_file_created :: "int \<Rightarrow> nat \<Rightarrow> fname \<Rightarrow> int \<Rightarrow> fs_state \<Rightarrow> fs_state" where
  "psync_fstask_file_created parentid taskid name fileid s =
     (let (folder, s) = psync_fstask_get_folder_tasks_locked parentid s;
          cr = Option.bind folder (psync_fstask_find_creat name taskid);
          s = (case cr of Some c \<Rightarrow> upd parentid (del_creat c) s | None \<Rightarrow> s);
          s = (case Option.bind folder (psync_fstask_find_unlink name taskid) of
                 Some u \<Rightarrow> upd parentid (del_unlink u) s | None \<Rightarrow> s);
          s = release_if folder parentid s;
          s = emit_if (cr \<noteq> None) (DriveFolderChanged parentid) s
      in if cr = None then psync_fstask_look_for_creat_in_db taskid fileid s else s)"

definition psync_fstask_file_modified :: "int \<Rightarrow> nat \<Rightarrow> fname \<Rightarrow> int \<Rightarrow> fs_state \<Rightarrow> fs_state" where
  "psync_fstask_file_modified = psync_fstask_file_created"

definition psync_fstask_file_deleted :: "int \<Rightarrow> nat \<Rightarrow> fname \<Rightarrow> fs_state \<Rightarrow> fs_state" where
  "psync_fstask_file_deleted parentid taskid name s =
     (let (folder, s) = psync_fstask_get_folder_tasks_locked parentid s;
          s = (case Option.bind folder (psync_fstask_find_unlink name taskid) of
                 Some u \<Rightarrow> upd parentid (del_unlink u) s | None \<Rightarrow> s)
      in release_if folder parentid s)"

text \<open>
  The row of the first half of a rename goes with its dependencies (\<^verbatim>\<open>ON DELETE CASCADE\<close>); the uploads wake
  up when another task waited for it.
\<close>

definition delete_from_task :: "nat \<Rightarrow> fs_state \<Rightarrow> fs_state" where
  "delete_from_task t s =
     (let db = fs_db s;
          waited = list_ex (\<lambda>p. snd p = t) (fsdepends db);
          db = db\<lparr>fsdepends := filter (\<lambda>p. snd p \<noteq> t) (fsdepends db)\<rparr>;
          s = emit_if waited UploadWake (set_db db s);
          has = list_ex (\<lambda>r. ft_id r = t) (fstasks db)
      in set_db (db\<lparr>fstasks := filter (\<lambda>r. ft_id r \<noteq> t) (fstasks db),
                    fsdepends := if has then filter (\<lambda>p. fst p \<noteq> t) (fsdepends db) else fsdepends db\<rparr>) s)"

definition psync_fstask_file_renamed :: "int \<Rightarrow> nat \<Rightarrow> fname \<Rightarrow> nat \<Rightarrow> fs_state \<Rightarrow> fs_state" where
  "psync_fstask_file_renamed folderid taskid name frtaskid s =
     (let (folder, s) = psync_fstask_get_folder_tasks_locked folderid s;
          s = (case Option.bind folder (psync_fstask_find_unlink name taskid) of
                 Some u \<Rightarrow> upd folderid (del_unlink u) s | None \<Rightarrow> s);
          cr = Option.bind folder (psync_fstask_find_creat name taskid);
          s = (case cr of Some c \<Rightarrow> upd folderid (del_creat c) s | None \<Rightarrow> s);
          s = release_if folder folderid s;
          s = emit_if (cr \<noteq> None) (DriveFolderChanged folderid) s;
          s = (case find (\<lambda>r. ft_id r = frtaskid) (fstasks (fs_db s)) of
                 None \<Rightarrow> s
               | Some r \<Rightarrow>
                 (let (ff, s) = psync_fstask_get_folder_tasks_locked (ft_folderid r) s;
                      s = (case Option.bind ff (psync_fstask_find_unlink (row_name r) frtaskid) of
                             Some u \<Rightarrow> upd (ft_folderid r) (del_unlink u) s | None \<Rightarrow> s)
                  in release_if ff (ft_folderid r) s))
      in delete_from_task frtaskid s)"

definition psync_fstask_folder_renamed :: "int \<Rightarrow> nat \<Rightarrow> fname \<Rightarrow> nat \<Rightarrow> fs_state \<Rightarrow> fs_state" where
  "psync_fstask_folder_renamed parentid taskid name frtaskid s =
     (let (folder, s) = psync_fstask_get_folder_tasks_locked parentid s;
          mk = Option.bind folder (psync_fstask_find_mkdir name taskid);
          s = (case mk of Some m \<Rightarrow> upd parentid (del_mkdir m) s | None \<Rightarrow> s);
          s = (case Option.bind folder (psync_fstask_find_rmdir name taskid) of
                 Some r \<Rightarrow> upd parentid (del_rmdir r) s | None \<Rightarrow> s);
          s = release_if folder parentid s;
          s = emit_if (mk \<noteq> None) (DriveFolderChanged parentid) s;
          s = (case find (\<lambda>r. ft_id r = frtaskid) (fstasks (fs_db s)) of
                 None \<Rightarrow> s
               | Some r \<Rightarrow>
                 (let (ff, s) = psync_fstask_get_folder_tasks_locked (ft_folderid r) s;
                      s = (case Option.bind ff (psync_fstask_find_rmdir (row_name r) frtaskid) of
                             Some x \<Rightarrow> upd (ft_folderid r) (del_rmdir x) s | None \<Rightarrow> s)
                  in release_if ff (ft_folderid r) s))
      in delete_from_task frtaskid s)"

section \<open>Loading the pending changes\<close>

text \<open>One function for each type of row; they run when the client starts, before the drive is mounted.\<close>

definition psync_init_task_mkdir :: "fs_env \<Rightarrow> fstask_row \<Rightarrow> fs_state \<Rightarrow> fs_state" where
  "psync_init_task_mkdir e r s =
     (let i = ft_folderid r;
          task = \<lparr>mk_folderid = - int (ft_id r), mk_taskid = ft_id r, mk_ctime = num (ft_int1 r), mk_mtime = num (ft_int1 r),
            mk_subdircnt = 0, mk_flags = if ft_text2 r = None then 0 else PSYNC_FOLDER_FLAG_ENCRYPTED, mk_name = row_name r\<rparr>
      in emit_if (0 \<le> i) (DriveFolderChanged i) (release i (upd i (add_mkdir task) (goc i s))))"

definition psync_init_task_rmdir :: "fs_env \<Rightarrow> fstask_row \<Rightarrow> fs_state \<Rightarrow> fs_state" where
  "psync_init_task_rmdir e r s =
     (let i = ft_folderid r;
          s = goc i s;
          s = (case psync_fstask_find_mkdir (row_name r) 0 (fld i s) of Some m \<Rightarrow> upd i (del_mkdir m) s | None \<Rightarrow> s);
          task = \<lparr>rm_folderid = num (ft_sfolderid r), rm_taskid = ft_id r, rm_name = row_name r\<rparr>
      in release i (upd i (add_rmdir task) s))"

definition psync_init_task_creat :: "fs_env \<Rightarrow> fstask_row \<Rightarrow> fs_state \<Rightarrow> fs_state" where
  "psync_init_task_creat e r s =
     (let i = ft_folderid r;
          un = \<lparr>un_fileid = - int (ft_id r), un_taskid = ft_id r, un_name = row_name r\<rparr>;
          task = \<lparr>cr_fileid = - int (ft_id r), cr_rfileid = num (ft_fileid r), cr_taskid = ft_id r, cr_name = row_name r\<rparr>;
          s = release i (upd i (add_creat task) (upd i (add_unlink un) (goc i s)))
      in emit_if (0 \<le> i) (DriveFolderChanged i) s)"

definition psync_init_do_task_unlink :: "nat \<Rightarrow> int \<Rightarrow> fname \<Rightarrow> int \<Rightarrow> fs_state \<Rightarrow> fs_state" where
  "psync_init_do_task_unlink taskid i name fileid s =
     (let s = goc i s;
          s = (case psync_fstask_find_creat name 0 (fld i s) of Some c \<Rightarrow> upd i (del_creat c) s | None \<Rightarrow> s);
          task = \<lparr>un_fileid = fileid, un_taskid = taskid, un_name = name\<rparr>
      in release i (upd i (add_unlink task) s))"

definition psync_init_task_unlink :: "fs_env \<Rightarrow> fstask_row \<Rightarrow> fs_state \<Rightarrow> fs_state" where
  "psync_init_task_unlink e r = psync_init_do_task_unlink (ft_id r) (ft_folderid r) (row_name r) (num (ft_fileid r))"

definition psync_init_task_unlink_set_rev :: "fs_env \<Rightarrow> fstask_row \<Rightarrow> fs_state \<Rightarrow> fs_state" where
  "psync_init_task_unlink_set_rev e r = psync_init_do_task_unlink (ft_id r) (ft_folderid r) (row_name r) (num (ft_int1 r))"

definition psync_init_task_renfile_from :: "fs_env \<Rightarrow> fstask_row \<Rightarrow> fs_state \<Rightarrow> fs_state" where
  "psync_init_task_renfile_from e r s =
     (let i = ft_folderid r;
          s = goc i s;
          s = (case psync_fstask_find_creat (row_name r) 0 (fld i s) of Some c \<Rightarrow> upd i (del_creat c) s | None \<Rightarrow> s);
          rm = \<lparr>un_fileid = num (ft_fileid r), un_taskid = ft_id r, un_name = row_name r\<rparr>
      in release i (upd i (add_unlink rm) s))"

definition psync_init_task_renfile_to :: "fs_env \<Rightarrow> fstask_row \<Rightarrow> fs_state \<Rightarrow> fs_state" where
  "psync_init_task_renfile_to e r s =
     (let i = ft_folderid r;
          s = goc i s;
          s = (case psync_fstask_find_creat (row_name r) 0 (fld i s) of Some c \<Rightarrow> upd i (del_creat c) s | None \<Rightarrow> s);
          un = \<lparr>un_fileid = num (ft_fileid r), un_taskid = ft_id r, un_name = row_name r\<rparr>;
          cr = \<lparr>cr_fileid = num (ft_fileid r), cr_rfileid = num (ft_int2 r), cr_taskid = ft_id r, cr_name = row_name r\<rparr>;
          s = release i (upd i (add_creat cr) (upd i (add_unlink_misread e un) s));
          s = emit (OpenfileRenamed (cr_fileid cr) i (row_name r)) s
      in emit_if (0 \<le> i) (DriveFolderChanged i) s)"

definition psync_init_task_renfolder_from :: "fs_env \<Rightarrow> fstask_row \<Rightarrow> fs_state \<Rightarrow> fs_state" where
  "psync_init_task_renfolder_from e r s =
     (let i = ft_folderid r;
          s = goc i s;
          s = (case psync_fstask_find_mkdir (row_name r) 0 (fld i s) of Some m \<Rightarrow> upd i (del_mkdir m) s | None \<Rightarrow> s);
          rm = \<lparr>rm_folderid = num (ft_sfolderid r), rm_taskid = ft_id r, rm_name = row_name r\<rparr>
      in release i (upd i (add_rmdir rm) s))"

definition psync_init_task_renfolder_to :: "fs_env \<Rightarrow> fstask_row \<Rightarrow> fs_state \<Rightarrow> fs_state" where
  "psync_init_task_renfolder_to e r s =
     (let i = ft_folderid r;
          s = goc i s;
          rm = \<lparr>rm_folderid = num (ft_sfolderid r), rm_taskid = ft_id r, rm_name = row_name r\<rparr>;
          mk = fill_mkdir_data e (num (ft_sfolderid r)) (fs_db s) \<lparr>mk_folderid = num (ft_sfolderid r), mk_taskid = ft_id r,
            mk_ctime = 0, mk_mtime = 0, mk_subdircnt = 0, mk_flags = word_of_int (num (ft_int2 r)), mk_name = row_name r\<rparr>;
          s = release i (upd i (add_mkdir mk) (upd i (add_rmdir rm) s))
      in emit_if (0 \<le> num (ft_sfolderid r)) (DriveFolderChanged (num (ft_sfolderid r))) s)"

text \<open>
  The new record's file id is computed from its task id before that is set: from what the memory of the
  record held, \<open>env_junk\<close>.
\<close>

definition psync_init_task_modify :: "fs_env \<Rightarrow> fstask_row \<Rightarrow> fs_state \<Rightarrow> fs_state" where
  "psync_init_task_modify e r s =
     (let i = ft_folderid r;
          s = goc i s;
          s = (case psync_fstask_find_creat (row_name r) 0 (fld i s) of Some c \<Rightarrow> upd i (del_creat c) s | None \<Rightarrow> s);
          un = \<lparr>un_fileid = num (ft_fileid r), un_taskid = ft_id r, un_name = row_name r\<rparr>;
          cr = \<lparr>cr_fileid = - int (env_junk e), cr_rfileid = num (ft_fileid r), cr_taskid = ft_id r, cr_name = row_name r\<rparr>;
          s = upd i (add_creat cr) (upd i (add_unlink un) s);
          s = emit_if (0 \<le> i) (DriveFolderChanged i) s
      in release i s)"

definition psync_init_task_func :: "(fs_env \<Rightarrow> fstask_row \<Rightarrow> fs_state \<Rightarrow> fs_state) list" where
  "psync_init_task_func =
     [\<lambda>e r s. s, psync_init_task_mkdir, psync_init_task_rmdir, psync_init_task_creat, psync_init_task_unlink,
      psync_init_task_renfile_from, psync_init_task_renfile_to, psync_init_task_renfolder_from,
      psync_init_task_renfolder_to, psync_init_task_modify, psync_init_task_unlink_set_rev]"

definition init_task :: "fs_env \<Rightarrow> fstask_row \<Rightarrow> fs_state \<Rightarrow> fs_state" where
  "init_task e r s =
     (if ft_type r = 0 \<or> length psync_init_task_func \<le> ft_type r then emit DebugBug s
      else (psync_init_task_func ! ft_type r) e r s)"

definition init_status :: "fstask_row \<Rightarrow> fstask_row" where
  "init_status r = (if ft_status r \<in> {1, 2} then r\<lparr>ft_status := 0\<rparr>
     else if ft_status r = 12 then r\<lparr>ft_status := 11\<rparr> else r)"

definition psync_fstask_init :: "fs_env \<Rightarrow> fs_state \<Rightarrow> fs_state" where
  "psync_fstask_init e s =
     (let s = set_db ((fs_db s)\<lparr>fstasks := map init_status (fstasks (fs_db s))\<rparr>) s
      in fold (init_task e) (filter (\<lambda>r. ft_status r \<noteq> 3) (fstasks (fs_db s))) s)"

section \<open>Leaving the drive\<close>

definition psync_fstask_clean :: "fs_state \<Rightarrow> fs_state" where
  "psync_fstask_clean s = s\<lparr>fs_folders := map (\<lambda>f. f\<lparr>fl_creats := [], fl_unlinks := [], fl_mkdirs := [],
     fl_rmdirs := [], fl_taskscnt := 0\<rparr>) (filter (\<lambda>f. fl_refcnt f \<noteq> 0) (fs_folders s))\<rparr>"

definition psync_fstask_add_banned_folder :: "int \<Rightarrow> fname \<Rightarrow> fs_state \<Rightarrow> fs_state" where
  "psync_fstask_add_banned_folder folderid name s =
     (let mk = \<lparr>mk_folderid = 0, mk_taskid = 0, mk_ctime = 0, mk_mtime = 0, mk_subdircnt = 0,
            mk_flags = PSYNC_FOLDER_FLAG_INVISIBLE, mk_name = name\<rparr>;
          rm = \<lparr>rm_folderid = 0, rm_taskid = 0, rm_name = name\<rparr>
      in release folderid (upd folderid (add_rmdir rm) (upd folderid (add_mkdir mk) (goc folderid s))))"

end
