(* ===== verification/FsTasksView.thy ===== *)
theory FsTasksView
  imports FsTasks
begin

text \<open>
  What the drive shows of the pending changes: the view of a state is the contents of every folder record,
  whether or not the record is there and however often it is referenced. The operations of \<open>FsTasks\<close> are
  described by what they do to the view; the invariant of the task counters, the reload of the records
  at the next start and the names the drive shows follow from that.
\<close>

named_theorems view_simps \<open>the effect of the basic operations on records and views\<close>

section \<open>Views\<close>

definition view :: "fs_state \<Rightarrow> int \<Rightarrow> folder_t" where
  "view s i = (fld i s)\<lparr>fl_refcnt := 0\<rparr>"

definition entries :: "folder_t \<Rightarrow> nat" where
  "entries f = length (fl_mkdirs f) + length (fl_rmdirs f) + length (fl_creats f) + length (fl_unlinks f)"

text \<open>The task counter of a folder is the number of its records.\<close>

definition counted :: "folder_t \<Rightarrow> bool" where
  "counted f \<longleftrightarrow> fl_taskscnt f = of_nat (entries f) \<and> entries f < 2 ^ 32"

definition exists :: "int \<Rightarrow> fs_state \<Rightarrow> bool" where
  "exists i s \<longleftrightarrow> get_folder i s \<noteq> None"

definition keeps_id :: "(folder_t \<Rightarrow> folder_t) \<Rightarrow> bool" where
  "keeps_id g \<longleftrightarrow> (\<forall>f. fl_folderid (g f) = fl_folderid f)"

lemma find_map_same:
  assumes "\<And>f. P (g f) = P f"
  shows "find P (map g xs) = map_option g (find P xs)"
  using assms by (induction xs) auto

lemma get_folder_upd: "keeps_id g \<Longrightarrow> get_folder j (upd i g s) = map_option (\<lambda>f. if j = i then g f else f) (get_folder j s)"
proof -
  assume g: "keeps_id g"
  have "find (\<lambda>f. fl_folderid f = j) (map (\<lambda>f. if fl_folderid f = i then g f else f) (fs_folders s))
      = map_option (\<lambda>f. if fl_folderid f = i then g f else f) (find (\<lambda>f. fl_folderid f = j) (fs_folders s))"
    using g by (intro find_map_same) (auto simp: keeps_id_def)
  moreover have "map_option (\<lambda>f. if fl_folderid f = i then g f else f) (find (\<lambda>f. fl_folderid f = j) fs)
      = map_option (\<lambda>f. if j = i then g f else f) (find (\<lambda>f. fl_folderid f = j) fs)" for fs
    by (induction fs) auto
  ultimately show ?thesis by (simp add: get_folder_def upd_def)
qed

lemma exists_upd [view_simps]: "keeps_id g \<Longrightarrow> exists j (upd i g s) = exists j s"
  by (simp add: exists_def get_folder_upd)

lemma fld_upd: "keeps_id g \<Longrightarrow> exists i s \<Longrightarrow> fld j (upd i g s) = (if j = i then g (fld i s) else fld j s)"
  by (auto simp: fld_def get_folder_upd exists_def split: option.splits)

lemma fld_id: "fl_folderid (fld i s) = i"
  by (auto simp: fld_def get_folder_def new_folder_def find_Some_iff split: option.splits)

lemma find_filter_same: "(\<And>x. P x \<Longrightarrow> Q x) \<Longrightarrow> find P (filter Q xs) = find P xs"
  by (induction xs) auto

lemma find_insert: "find P (takeWhile Q xs @ f # dropWhile Q xs) = (if P f \<and> find P (takeWhile Q xs) = None then Some f else find P xs)"
  by (induction xs) auto

lemma find_takeWhile_None: "find P xs = None \<Longrightarrow> find P (takeWhile Q xs) = None"
  by (auto simp: find_None_iff dest: set_takeWhileD)

lemma get_folder_goc: "get_folder j (goc i s) = (if j = i then Some ((fld i s)\<lparr>fl_refcnt := fl_refcnt (fld i s) + 1\<rparr>) else get_folder j s)"
proof (cases "get_folder i s")
  case None
  then have "get_folder j (goc i s) = (if j = i then Some ((new_folder i)\<lparr>fl_refcnt := 1\<rparr>) else get_folder j s)"
    using find_takeWhile_None [of "\<lambda>f. fl_folderid f = i" "fs_folders s"]
    by (simp add: psync_fstask_get_or_create_folder_tasks_locked_def insert_folder_def get_folder_def find_insert new_folder_def)
  then show ?thesis using None by (simp add: fld_def new_folder_def)
next
  case (Some f)
  then show ?thesis
    using get_folder_upd [of "\<lambda>f. f\<lparr>fl_refcnt := fl_refcnt f + 1\<rparr>" j i s]
    by (cases "j = i") (auto simp: psync_fstask_get_or_create_folder_tasks_locked_def keeps_id_def fld_def option.map_ident)
qed

lemma exists_goc [view_simps]: "exists j (goc i s) = (j = i \<or> exists j s)"
  by (simp add: exists_def get_folder_goc)

lemma fld_goc: "fld j (goc i s) = (if j = i then (fld i s)\<lparr>fl_refcnt := fl_refcnt (fld i s) + 1\<rparr> else fld j s)"
  by (simp add: fld_def [of j] get_folder_goc)

lemma view_goc [view_simps]: "view (goc i s) = view s"
  by (simp add: view_def fld_goc fun_eq_iff)

text \<open>A change of a record that does not look at its reference counter.\<close>

definition on_view :: "(folder_t \<Rightarrow> folder_t) \<Rightarrow> bool" where
  "on_view g \<longleftrightarrow> keeps_id g \<and> (\<forall>f c. g (f\<lparr>fl_refcnt := c\<rparr>) = (g f)\<lparr>fl_refcnt := c\<rparr>)"

lemma view_upd [view_simps]: "on_view g \<Longrightarrow> exists i s \<Longrightarrow> view (upd i g s) = (view s)(i := g (view s i))"
  by (auto simp: on_view_def view_def fld_upd fun_eq_iff)

lemma view_ref [view_simps]:
  "exists i s \<Longrightarrow> view (upd i (\<lambda>f. f\<lparr>fl_refcnt := c f\<rparr>) s) = view s"
  "exists j (upd i (\<lambda>f. f\<lparr>fl_refcnt := c f\<rparr>) s) = exists j s"
  by (auto simp: view_def fld_upd exists_upd keeps_id_def fun_eq_iff)

lemma on_view_ops [view_simps]:
  "on_view (add_mkdir m)" "on_view (add_rmdir r)" "on_view (add_creat c)" "on_view (add_unlink u)"
  "on_view (del_mkdir m)" "on_view (del_rmdir r)" "on_view (del_creat c)" "on_view (del_unlink u)"
  "(\<And>f c. k (f\<lparr>fl_refcnt := c\<rparr>) = k f) \<Longrightarrow> on_view (\<lambda>f. f\<lparr>fl_mkdirs := k f\<rparr>)"
  "on_view (\<lambda>f. f\<lparr>fl_taskscnt := fl_taskscnt f - 1\<rparr>)"
  by (auto simp: on_view_def keeps_id_def folder_op_defs)

lemma on_view_keeps [view_simps]: "on_view g \<Longrightarrow> keeps_id g"
  by (simp add: on_view_def)

lemma counted_empty: "counted f \<Longrightarrow> fl_taskscnt f = 0 \<Longrightarrow> f\<lparr>fl_refcnt := 0\<rparr> = new_folder (fl_folderid f)"
proof -
  assume "counted f" "fl_taskscnt f = 0"
  then have "of_nat (entries f) = (0 :: u32)" "entries f < 2 ^ 32" by (auto simp: counted_def)
  then have "entries f = 0" by (auto simp: word_of_nat_eq_0_iff dest: dvd_imp_le)
  then show ?thesis using \<open>fl_taskscnt f = 0\<close> by (cases f) (auto simp: entries_def new_folder_def)
qed

lemma view_release [view_simps]:
  assumes "exists i s" "counted (view s i)"
  shows "view (release i s) = view s"
proof -
  let ?s = "upd i (\<lambda>f. f\<lparr>fl_refcnt := fl_refcnt f - 1\<rparr>) s"
  have v: "view ?s = view s" using assms(1) by (simp add: view_simps)
  show ?thesis
  proof (cases "fl_refcnt (fld i ?s) = 0 \<and> fl_taskscnt (fld i ?s) = 0")
    case True
    then have "release i s = ?s\<lparr>fs_folders := filter (\<lambda>f. fl_folderid f \<noteq> i) (fs_folders ?s)\<rparr>"
      by (simp add: psync_fstask_release_folder_tasks_locked_def Let_def)
    moreover have "get_folder j (?s\<lparr>fs_folders := filter (\<lambda>f. fl_folderid f \<noteq> i) (fs_folders ?s)\<rparr>)
        = (if j = i then None else get_folder j ?s)" for j
      using find_filter_same [of "\<lambda>f. fl_folderid f = j" "\<lambda>f. fl_folderid f \<noteq> i"]
      by (auto simp: get_folder_def find_None_iff)
    moreover have "view ?s i = new_folder i"
    proof -
      have "counted (view ?s i)" using assms(2) v by simp
      moreover have "fl_taskscnt (view ?s i) = 0" using True by (simp add: view_def)
      ultimately have "counted (view ?s i)" "fl_taskscnt (view ?s i) = 0" .
      then show ?thesis using counted_empty [of "view ?s i"] by (simp add: view_def fld_id)
    qed
    ultimately have "view (release i s) j = view ?s j" for j
      by (auto simp: view_def fld_def new_folder_def)
    then show ?thesis using v by auto
  next
    case False
    then have "release i s = ?s" by (simp only: psync_fstask_release_folder_tasks_locked_def Let_def if_False)
    then show ?thesis using v by simp
  qed
qed

lemma view_db [view_simps]:
  "view (set_db db s) = view s" "exists i (set_db db s) = exists i s" "view (emit n s) = view s"
  "view (emit_if b n s) = view s" "exists i (emit n s) = exists i s" "exists i (emit_if b n s) = exists i s"
  "fld i (set_db db s) = fld i s" "fld i (emit_if b n s) = fld i s"
  by (auto simp: view_def fld_def get_folder_def set_db_def emit_def emit_if_def exists_def)

lemma db_ops [view_simps]:
  "fs_db (goc i s) = fs_db s" "fs_db (release i s) = fs_db s" "fs_db (upd i g s) = fs_db s"
  "fs_db (emit n s) = fs_db s" "fs_db (emit_if b n s) = fs_db s" "fs_db (set_db db s) = db"
  by (auto simp: psync_fstask_get_or_create_folder_tasks_locked_def psync_fstask_release_folder_tasks_locked_def
      upd_def emit_def emit_if_def set_db_def Let_def split: option.splits)

lemma find_view [view_simps]:
  "psync_fstask_find_mkdir n t (fld i s) = psync_fstask_find_mkdir n t (view s i)"
  "psync_fstask_find_rmdir n t (fld i s) = psync_fstask_find_rmdir n t (view s i)"
  "psync_fstask_find_creat n t (fld i s) = psync_fstask_find_creat n t (view s i)"
  "psync_fstask_find_unlink n t (fld i s) = psync_fstask_find_unlink n t (view s i)"
  by (simp_all add: view_def psync_fstask_find_mkdir_def psync_fstask_find_rmdir_def
      psync_fstask_find_creat_def psync_fstask_find_unlink_def)

lemma find_member:
  "psync_fstask_find_mkdir n t f = Some m \<Longrightarrow> m \<in> set (fl_mkdirs f)"
  "psync_fstask_find_rmdir n t f = Some r \<Longrightarrow> r \<in> set (fl_rmdirs f)"
  "psync_fstask_find_creat n t f = Some c \<Longrightarrow> c \<in> set (fl_creats f)"
  "psync_fstask_find_unlink n t f = Some u \<Longrightarrow> u \<in> set (fl_unlinks f)"
  by (auto simp: psync_fstask_find_mkdir_def psync_fstask_find_rmdir_def psync_fstask_find_creat_def
      psync_fstask_find_unlink_def search_list_def find_Some_iff)

section \<open>The task counter\<close>

lemma length_insert_list [simp]: "length (insert_list nm e xs) = Suc (length xs)"
proof -
  have "length (insert_list nm e xs) = Suc (length (takeWhile (\<lambda>a. 0 \<le> strcmp (nm e) (nm a)) xs
      @ dropWhile (\<lambda>a. 0 \<le> strcmp (nm e) (nm a)) xs))"
    unfolding insert_list_def by (simp only: length_append list.size)
  then show ?thesis by (simp only: takeWhile_dropWhile_id)
qed

lemma set_insert_list [simp]: "set (insert_list nm e xs) = insert e (set xs)"
proof -
  have "set (insert_list nm e xs) = insert e (set (takeWhile (\<lambda>a. 0 \<le> strcmp (nm e) (nm a)) xs
      @ dropWhile (\<lambda>a. 0 \<le> strcmp (nm e) (nm a)) xs))"
    unfolding insert_list_def by (simp only: set_append list.set) auto
  then show ?thesis by (simp only: takeWhile_dropWhile_id)
qed

lemma entries_ops [simp]:
  "entries (add_mkdir m f) = Suc (entries f)" "entries (add_rmdir r f) = Suc (entries f)"
  "entries (add_creat c f) = Suc (entries f)" "entries (add_unlink u f) = Suc (entries f)"
  "m \<in> set (fl_mkdirs f) \<Longrightarrow> Suc (entries (del_mkdir m f)) = entries f"
  "r \<in> set (fl_rmdirs f) \<Longrightarrow> Suc (entries (del_rmdir r f)) = entries f"
  "c \<in> set (fl_creats f) \<Longrightarrow> Suc (entries (del_creat c f)) = entries f"
  "u \<in> set (fl_unlinks f) \<Longrightarrow> Suc (entries (del_unlink u f)) = entries f"
  by (auto simp: entries_def folder_op_defs length_remove1 dest: length_pos_if_in_set)

lemma counted_add [intro]:
  assumes "counted f" "Suc (entries f) < 2 ^ 32"
  shows "counted (add_mkdir m f)" "counted (add_rmdir r f)" "counted (add_creat c f)" "counted (add_unlink u f)"
  using assms by (auto simp: counted_def) (auto simp: folder_op_defs)

lemma taskscnt_ops:
  "fl_taskscnt (add_mkdir m f) = fl_taskscnt f + 1" "fl_taskscnt (add_rmdir r f) = fl_taskscnt f + 1"
  "fl_taskscnt (add_creat c f) = fl_taskscnt f + 1" "fl_taskscnt (add_unlink u f) = fl_taskscnt f + 1"
  "fl_taskscnt (del_mkdir m f) = fl_taskscnt f - 1" "fl_taskscnt (del_rmdir r f) = fl_taskscnt f - 1"
  "fl_taskscnt (del_creat c f) = fl_taskscnt f - 1" "fl_taskscnt (del_unlink u f) = fl_taskscnt f - 1"
  by (simp_all add: folder_op_defs)

lemma counted_step:
  "counted f \<Longrightarrow> Suc (entries g) = entries f \<Longrightarrow> fl_taskscnt g = fl_taskscnt f - 1 \<Longrightarrow> counted g"
  unfolding counted_def by (metis Suc_lessD add_diff_cancel_right' of_nat_Suc add.commute)

lemma counted_del [intro]:
  "counted f \<Longrightarrow> m \<in> set (fl_mkdirs f) \<Longrightarrow> counted (del_mkdir m f)"
  "counted f \<Longrightarrow> r \<in> set (fl_rmdirs f) \<Longrightarrow> counted (del_rmdir r f)"
  "counted f \<Longrightarrow> c \<in> set (fl_creats f) \<Longrightarrow> counted (del_creat c f)"
  "counted f \<Longrightarrow> u \<in> set (fl_unlinks f) \<Longrightarrow> counted (del_unlink u f)"
  by (auto intro: counted_step simp: taskscnt_ops)

section \<open>The effect of an operation\<close>

text \<open>Holding a record, changing it and letting it go.\<close>

lemma view_net:
  "on_view g \<Longrightarrow> counted (g (view s i)) \<Longrightarrow> view (release i (upd i g (goc i s))) = (view s)(i := g (view s i))"
  by (simp add: view_simps)

text \<open>What a row of \<^verbatim>\<open>fstask\<close> stands for in the view, for folders and files that are created and removed.\<close>

definition put_mkdir :: "mkdir_t \<Rightarrow> folder_t \<Rightarrow> folder_t" where
  "put_mkdir m f = add_mkdir m f"

definition put_rmdir :: "rmdir_t \<Rightarrow> folder_t \<Rightarrow> folder_t" where
  "put_rmdir r f = add_rmdir r (case psync_fstask_find_mkdir (rm_name r) 0 f of Some m \<Rightarrow> del_mkdir m f | None \<Rightarrow> f)"

definition put_creat :: "creat_t \<Rightarrow> folder_t \<Rightarrow> folder_t" where
  "put_creat c f = add_creat c (add_unlink \<lparr>un_fileid = cr_fileid c, un_taskid = cr_taskid c, un_name = cr_name c\<rparr> f)"

definition put_unlink :: "unlink_t \<Rightarrow> folder_t \<Rightarrow> folder_t" where
  "put_unlink u f = add_unlink u (case psync_fstask_find_creat (un_name u) 0 f of Some c \<Rightarrow> del_creat c f | None \<Rightarrow> f)"

definition row_effect :: "fstask_row \<Rightarrow> folder_t \<Rightarrow> folder_t" where
  "row_effect r =
     (if ft_type r = PSYNC_FS_TASK_MKDIR then put_mkdir \<lparr>mk_folderid = - int (ft_id r), mk_taskid = ft_id r,
        mk_ctime = num (ft_int1 r), mk_mtime = num (ft_int1 r), mk_subdircnt = 0,
        mk_flags = if ft_text2 r = None then 0 else PSYNC_FOLDER_FLAG_ENCRYPTED, mk_name = row_name r\<rparr>
      else if ft_type r = PSYNC_FS_TASK_RMDIR
      then put_rmdir \<lparr>rm_folderid = num (ft_sfolderid r), rm_taskid = ft_id r, rm_name = row_name r\<rparr>
      else if ft_type r = PSYNC_FS_TASK_CREAT then put_creat \<lparr>cr_fileid = - int (ft_id r),
        cr_rfileid = num (ft_fileid r), cr_taskid = ft_id r, cr_name = row_name r\<rparr>
      else put_unlink \<lparr>un_fileid = num (if ft_type r = PSYNC_FS_TASK_UNLINK then ft_fileid r else ft_int1 r),
        un_taskid = ft_id r, un_name = row_name r\<rparr>)"

definition plain :: "fstask_row \<Rightarrow> bool" where
  "plain r \<longleftrightarrow> ft_type r \<in> {PSYNC_FS_TASK_MKDIR, PSYNC_FS_TASK_RMDIR, PSYNC_FS_TASK_CREAT, PSYNC_FS_TASK_UNLINK,
     PSYNC_FS_TASK_UN_SET_REV}"

lemma entries_del_le: "entries (del_mkdir m f) \<le> entries f" "entries (del_creat c f) \<le> entries f"
  by (auto simp: entries_def folder_op_defs length_remove1)

lemma find_entries:
  "entries (case psync_fstask_find_mkdir n t f of Some m \<Rightarrow> del_mkdir m f | None \<Rightarrow> f) \<le> entries f"
  "entries (case psync_fstask_find_creat n t f of Some c \<Rightarrow> del_creat c f | None \<Rightarrow> f) \<le> entries f"
  by (auto simp: entries_del_le split: option.splits)

lemma counted_find:
  assumes "counted f"
  shows "counted (case psync_fstask_find_mkdir n t f of Some m \<Rightarrow> del_mkdir m f | None \<Rightarrow> f)"
    and "counted (case psync_fstask_find_creat n t f of Some c \<Rightarrow> del_creat c f | None \<Rightarrow> f)"
  using assms find_member(1) [of n t f] find_member(3) [of n t f] by (auto split: option.splits)

lemma put_counted:
  assumes f: "counted f" "entries f + 2 < 2 ^ 32"
  shows "counted (put_mkdir m f) \<and> entries (put_mkdir m f) \<le> entries f + 2"
    and "counted (put_rmdir r f) \<and> entries (put_rmdir r f) \<le> entries f + 2"
    and "counted (put_creat c f) \<and> entries (put_creat c f) \<le> entries f + 2"
    and "counted (put_unlink u f) \<and> entries (put_unlink u f) \<le> entries f + 2"
proof -
  have add: "Suc (entries g) < 2 ^ 32" if "entries g \<le> entries f" for g using that f(2) by linarith
  show "counted (put_mkdir m f) \<and> entries (put_mkdir m f) \<le> entries f + 2"
    using f add [of f] by (auto simp: put_mkdir_def)
  show "counted (put_creat c f) \<and> entries (put_creat c f) \<le> entries f + 2"
    using f unfolding put_creat_def entries_ops by (intro conjI counted_add(3) counted_add(4)) simp_all
  show "counted (put_rmdir r f) \<and> entries (put_rmdir r f) \<le> entries f + 2"
    unfolding put_rmdir_def entries_ops
    using counted_find(1) [OF f(1), of "rm_name r" 0] find_entries(1) [of f "rm_name r" 0] add
    by (intro conjI counted_add(2)) (assumption, blast, linarith)
  show "counted (put_unlink u f) \<and> entries (put_unlink u f) \<le> entries f + 2"
    unfolding put_unlink_def entries_ops
    using counted_find(2) [OF f(1), of "un_name u" 0] find_entries(2) [of f "un_name u" 0] add
    by (intro conjI counted_add(4)) (assumption, blast, linarith)
qed

lemma row_effect_counted:
  assumes "counted f" "entries f + 2 < 2 ^ 32"
  shows "counted (row_effect r f)" "entries (row_effect r f) \<le> entries f + 2"
  unfolding row_effect_def using put_counted [OF assms] by simp_all

lemma upd_upd: "keeps_id g \<Longrightarrow> upd i k (upd i g s) = upd i (\<lambda>f. k (g f)) s"
  by (auto simp: upd_def keeps_id_def)

lemma init_task_row:
  assumes "plain r" "counted (view s (ft_folderid r))" "entries (view s (ft_folderid r)) + 2 < 2 ^ 32"
  shows "view (init_task e r s) = (view s)(ft_folderid r := row_effect r (view s (ft_folderid r)))"
proof -
  let ?i = "ft_folderid r"
  have c: "counted (row_effect r (view s ?i))" by (rule row_effect_counted(1)) (fact assms)+
  have m: "upd ?i (\<lambda>f. a f) (case psync_fstask_find_mkdir n 0 (fld ?i (goc ?i s)) of Some m \<Rightarrow> upd ?i (del_mkdir m) (goc ?i s) | None \<Rightarrow> goc ?i s)
     = upd ?i (\<lambda>f. a (case psync_fstask_find_mkdir n 0 (view s ?i) of Some m \<Rightarrow> del_mkdir m f | None \<Rightarrow> f)) (goc ?i s)" for a n
    by (auto simp: view_simps upd_upd split: option.split)
  have k: "upd ?i (\<lambda>f. a f) (case psync_fstask_find_creat n 0 (fld ?i (goc ?i s)) of Some m \<Rightarrow> upd ?i (del_creat m) (goc ?i s) | None \<Rightarrow> goc ?i s)
     = upd ?i (\<lambda>f. a (case psync_fstask_find_creat n 0 (view s ?i) of Some m \<Rightarrow> del_creat m f | None \<Rightarrow> f)) (goc ?i s)" for a n
    by (auto simp: view_simps upd_upd split: option.split)
  have ov: "on_view (\<lambda>f. add_rmdir a (case psync_fstask_find_mkdir n 0 (view s ?i) of Some m \<Rightarrow> del_mkdir m f | None \<Rightarrow> f))"
    "on_view (\<lambda>f. add_unlink b (case psync_fstask_find_creat n 0 (view s ?i) of Some m \<Rightarrow> del_creat m f | None \<Rightarrow> f))"
    "on_view (\<lambda>f. add_creat d (add_unlink b f))" for a b d n
    by (auto simp: on_view_def keeps_id_def folder_op_defs split: option.split)
  consider "ft_type r = PSYNC_FS_TASK_MKDIR" | "ft_type r = PSYNC_FS_TASK_RMDIR" | "ft_type r = PSYNC_FS_TASK_CREAT"
    | "ft_type r = PSYNC_FS_TASK_UNLINK" | "ft_type r = PSYNC_FS_TASK_UN_SET_REV"
    using assms(1) by (auto simp: plain_def)
  then show ?thesis
  proof cases
    case 1
    then have "init_task e r s = psync_init_task_mkdir e r s" by (simp add: init_task_def psync_init_task_func_def task_types)
    then show ?thesis using 1 c
      by (simp add: psync_init_task_mkdir_def Let_def row_effect_def put_mkdir_def view_simps)
  next
    case 2
    then have "init_task e r s = psync_init_task_rmdir e r s" by (simp add: init_task_def psync_init_task_func_def task_types)
    then show ?thesis using 2 c m [of "add_rmdir _"] view_net [OF ov(1)]
      by (simp add: psync_init_task_rmdir_def Let_def row_effect_def put_rmdir_def task_types)
  next
    case 3
    then have "init_task e r s = psync_init_task_creat e r s" by (simp add: init_task_def psync_init_task_func_def task_types)
    then show ?thesis using 3 c view_net [OF ov(3)]
      by (simp add: psync_init_task_creat_def Let_def row_effect_def put_creat_def task_types upd_upd view_simps)
  next
    case 4
    then have "init_task e r s = psync_init_task_unlink e r s" by (simp add: init_task_def psync_init_task_func_def task_types)
    then show ?thesis using 4 c k [of "add_unlink _"] view_net [OF ov(2)]
      by (simp add: psync_init_task_unlink_def psync_init_do_task_unlink_def Let_def row_effect_def put_unlink_def task_types)
  next
    case 5
    then have "init_task e r s = psync_init_task_unlink_set_rev e r s" by (simp add: init_task_def psync_init_task_func_def task_types)
    then show ?thesis using 5 c k [of "add_unlink _"] view_net [OF ov(2)]
      by (simp add: psync_init_task_unlink_set_rev_def psync_init_do_task_unlink_def Let_def row_effect_def put_unlink_def task_types)
  qed
qed

section \<open>The reload of the pending changes\<close>

definition apply_rows :: "fstask_row list \<Rightarrow> (int \<Rightarrow> folder_t) \<Rightarrow> int \<Rightarrow> folder_t" where
  "apply_rows = fold (\<lambda>r V. V(ft_folderid r := row_effect r (V (ft_folderid r))))"

lemma apply_rows_simps [simp]:
  "apply_rows [] V = V"
  "apply_rows (r # rs) V = apply_rows rs (V(ft_folderid r := row_effect r (V (ft_folderid r))))"
  "apply_rows (rs @ ss) V = apply_rows ss (apply_rows rs V)"
  by (simp_all add: apply_rows_def)

definition bounded :: "nat \<Rightarrow> (int \<Rightarrow> folder_t) \<Rightarrow> bool" where
  "bounded n V \<longleftrightarrow> (\<forall>i. counted (V i) \<and> entries (V i) \<le> n)"

lemma bounded_step:
  assumes "bounded n V" "n + 2 < 2 ^ 32"
  shows "bounded (n + 2) (V(i := row_effect r (V i)))"
proof -
  have c: "counted (V j)" "entries (V j) \<le> n" for j using assms(1) by (auto simp: bounded_def)
  have "entries (V i) + 2 < 2 ^ 32" using c(2) [of i] assms(2) by linarith
  note e = row_effect_counted [OF c(1) this, of r]
  show ?thesis
    unfolding bounded_def
  proof (intro allI)
    fix j
    show "counted ((V(i := row_effect r (V i))) j) \<and> entries ((V(i := row_effect r (V i))) j) \<le> n + 2"
      using e c [of j] c(2) [of i] by (cases "j = i") auto
  qed
qed

lemma bounded_rows: "bounded n V \<Longrightarrow> n + 2 * length rs < 2 ^ 32 \<Longrightarrow> bounded (n + 2 * length rs) (apply_rows rs V)"
proof (induction rs arbitrary: n V)
  case Nil
  then show ?case by simp
next
  case (Cons r rs)
  have "bounded (n + 2) (V(ft_folderid r := row_effect r (V (ft_folderid r))))"
    using Cons.prems by (intro bounded_step) auto
  from Cons.IH [OF this] show ?case using Cons.prems(2) by (simp add: algebra_simps del: fun_upd_apply)
qed

lemma bounded_new: "bounded 0 new_folder"
  by (simp add: bounded_def counted_def entries_def new_folder_def)

lemma init_rows:
  "(\<forall>r\<in>set rs. plain r) \<Longrightarrow> bounded n (view s) \<Longrightarrow> n + 2 * length rs < 2 ^ 32
   \<Longrightarrow> view (fold (init_task e) rs s) = apply_rows rs (view s)"
proof (induction rs arbitrary: n s)
  case Nil
  then show ?case by simp
next
  case (Cons r rs)
  have c: "counted (view s j)" "entries (view s j) \<le> n" for j using Cons.prems(2) by (auto simp: bounded_def)
  have "entries (view s (ft_folderid r)) + 2 < 2 ^ 32"
    using c(2) [of "ft_folderid r"] Cons.prems(3) by (simp add: algebra_simps)
  then have v: "view (init_task e r s) = (view s)(ft_folderid r := row_effect r (view s (ft_folderid r)))"
    using Cons.prems(1) c by (intro init_task_row) auto
  have "bounded (n + 2) (view (init_task e r s))"
    unfolding v using Cons.prems by (intro bounded_step) auto
  from Cons.IH [OF _ this] show ?case using Cons.prems v by (simp add: algebra_simps del: fun_upd_apply)
qed

lemma init_status_same [simp]:
  "ft_folderid (init_status r) = ft_folderid r" "row_effect (init_status r) = row_effect r"
  "plain (init_status r) = plain r" "ft_status (init_status r) = 3 \<longleftrightarrow> ft_status r = 3"
  by (auto simp: init_status_def row_effect_def plain_def row_name_def)

lemma apply_rows_map:
  "(\<forall>r\<in>set rs. ft_folderid (f r) = ft_folderid r \<and> row_effect (f r) = row_effect r)
   \<Longrightarrow> apply_rows (map f rs) V = apply_rows rs V"
  by (induction rs arbitrary: V) auto

text \<open>The client starts anew with the tables as they are.\<close>

definition restart :: "fs_env \<Rightarrow> fs_state \<Rightarrow> fs_state" where
  "restart e s = psync_fstask_init e (s\<lparr>fs_folders := []\<rparr>)"

definition reloadable :: "fs_db \<Rightarrow> bool" where
  "reloadable db \<longleftrightarrow> (\<forall>r\<in>set (fstasks db). plain r \<and> ft_status r \<noteq> 3)"

lemma view_restart:
  assumes "reloadable (fs_db s)" "2 * length (fstasks (fs_db s)) < 2 ^ 32"
  shows "view (restart e s) = apply_rows (fstasks (fs_db s)) new_folder"
proof -
  let ?s = "set_db ((fs_db s)\<lparr>fstasks := map init_status (fstasks (fs_db s))\<rparr>) (s\<lparr>fs_folders := []\<rparr>)"
  have v: "view ?s = new_folder"
    by (auto simp: view_db) (auto simp: view_def fld_def get_folder_def new_folder_def)
  have f: "filter (\<lambda>r. ft_status r \<noteq> 3) (map init_status (fstasks (fs_db s))) = map init_status (fstasks (fs_db s))"
    using assms(1) by (auto simp: reloadable_def intro!: filter_True)
  have "view (fold (init_task e) (map init_status (fstasks (fs_db s))) ?s)
      = apply_rows (map init_status (fstasks (fs_db s))) (view ?s)"
    using assms by (intro init_rows [of _ 0]) (auto simp: v bounded_new reloadable_def)
  moreover have "restart e s = fold (init_task e) (map init_status (fstasks (fs_db s))) ?s"
    by (simp add: restart_def psync_fstask_init_def Let_def set_db_def f)
  ultimately show ?thesis by (simp only: v) (simp add: apply_rows_map)
qed

end
