(* ===== verification/FsTasksLog.thy ===== *)
theory FsTasksLog
  imports FsTasksView
begin

text \<open>
  The table \<^verbatim>\<open>fstask\<close> and the records in memory say the same: an operation of the drive that succeeds, or
  fails before it changed anything, leaves the records as the rows of the table would load them. So what
  the drive shows survives a restart of the client.
\<close>

section \<open>References\<close>

definition refs :: "fs_state \<Rightarrow> int \<Rightarrow> u32" where
  "refs s i = fl_refcnt (fld i s)"

lemma refs_goc [view_simps]: "refs (goc i s) = (refs s)(i := refs s i + 1)"
  by (auto simp: refs_def fld_goc fun_eq_iff)

lemma refs_upd [view_simps]: "on_view g \<Longrightarrow> refs (upd i g s) = refs s"
proof -
  assume g: "on_view g"
  have "fl_refcnt (g f) = fl_refcnt f" for f
  proof -
    have "g (f\<lparr>fl_refcnt := fl_refcnt f\<rparr>) = (g f)\<lparr>fl_refcnt := fl_refcnt f\<rparr>"
      using g by (simp only: on_view_def)
    then have "g f = (g f)\<lparr>fl_refcnt := fl_refcnt f\<rparr>" by simp
    then show ?thesis by (metis folder_t.select_convs(7) folder_t.surjective folder_t.update_convs(7))
  qed
  moreover have "fld j (upd i g s) = (if j = i \<and> exists i s then g (fld i s) else fld j s)" for j
    using g get_folder_upd [of g j i s] by (auto simp: on_view_def fld_def exists_def split: option.splits)
  ultimately show ?thesis by (auto simp: refs_def fun_eq_iff)
qed

lemma get_folder_release:
  "get_folder j (release i s) = (if j = i then
     (case get_folder i s of None \<Rightarrow> None
      | Some f \<Rightarrow> if fl_refcnt f = 1 \<and> fl_taskscnt f = 0 then None else Some (f\<lparr>fl_refcnt := fl_refcnt f - 1\<rparr>))
   else get_folder j s)"
proof -
  let ?s = "upd i (\<lambda>f. f\<lparr>fl_refcnt := fl_refcnt f - 1\<rparr>) s"
  have g: "get_folder k ?s = map_option (\<lambda>f. if k = i then f\<lparr>fl_refcnt := fl_refcnt f - 1\<rparr> else f) (get_folder k s)" for k
    by (simp add: get_folder_upd keeps_id_def)
  have f: "get_folder j (?s\<lparr>fs_folders := filter (\<lambda>f. fl_folderid f \<noteq> i) (fs_folders ?s)\<rparr>)
        = (if j = i then None else get_folder j ?s)"
    using find_filter_same [of "\<lambda>f. fl_folderid f = j" "\<lambda>f. fl_folderid f \<noteq> i"]
    by (auto simp: get_folder_def find_None_iff)
  have r: "release i s = (if fl_refcnt (fld i ?s) = 0 \<and> fl_taskscnt (fld i ?s) = 0
      then ?s\<lparr>fs_folders := filter (\<lambda>f. fl_folderid f \<noteq> i) (fs_folders ?s)\<rparr> else ?s)"
    by (simp add: psync_fstask_release_folder_tasks_locked_def Let_def)
  show ?thesis
  proof (cases "get_folder i s")
    case None
    then show ?thesis using f g [of j] unfolding r by (auto simp: option.map_ident)
  next
    case (Some x)
    then have "fld i ?s = x\<lparr>fl_refcnt := fl_refcnt x - 1\<rparr>" using g [of i] by (simp add: fld_def)
    then show ?thesis using f g [of j] Some unfolding r by (auto simp: option.map_ident)
  qed
qed

lemma refs_release [view_simps]: "exists i s \<Longrightarrow> refs (release i s) = (refs s)(i := refs s i - 1)"
  by (auto simp: refs_def fld_def get_folder_release exists_def new_folder_def fun_eq_iff split: option.splits)

lemma exists_release [view_simps]: "exists i s \<Longrightarrow> refs s i \<noteq> 1 \<or> i \<noteq> j \<Longrightarrow> exists i (release j s)"
  by (auto simp: exists_def get_folder_release refs_def fld_def)

lemma refs_db [view_simps]:
  "refs (set_db db s) = refs s" "refs (emit n s) = refs s" "refs (emit_if b n s) = refs s"
  by (auto simp: refs_def fld_def get_folder_def set_db_def emit_def emit_if_def)

text \<open>Looking at another folder's record and letting it go.\<close>

lemma get_view:
  assumes "psync_fstask_get_folder_tasks_locked j s = (cf, t)"
  shows "view t = view s" "fs_db t = fs_db s" "exists i t = exists i s" "cf \<noteq> None \<longleftrightarrow> exists j s"
    "refs t = (if cf = None then refs s else (refs s)(j := refs s j + 1))" "cf = get_folder j s"
proof -
  have k: "keeps_id (\<lambda>f. f\<lparr>fl_refcnt := fl_refcnt f + 1\<rparr>)" by (simp add: keeps_id_def)
  show "view t = view s" "exists i t = exists i s" "fs_db t = fs_db s" "cf \<noteq> None \<longleftrightarrow> exists j s" "cf = get_folder j s"
    using assms view_ref [where i = j and s = s and c = "\<lambda>f. fl_refcnt f + 1"]
    by (auto simp: psync_fstask_get_folder_tasks_locked_def db_ops exists_def [of j] split: option.splits)
  show "refs t = (if cf = None then refs s else (refs s)(j := refs s j + 1))"
    using assms fld_upd [OF k] by (auto simp: psync_fstask_get_folder_tasks_locked_def exists_def refs_def fun_eq_iff split: option.splits)
qed

lemma release_if_view:
  assumes "psync_fstask_get_folder_tasks_locked j s = (cf, t)" "exists j s \<Longrightarrow> exists j u" "counted (view u j)"
    "refs u = refs t"
  shows "view (release_if cf j u) = view u" "fs_db (release_if cf j u) = fs_db u" "refs (release_if cf j u) = refs s"
    "exists i u \<Longrightarrow> exists i s \<Longrightarrow> refs s i \<noteq> 0 \<Longrightarrow> exists i (release_if cf j u)"
proof -
  note g = get_view [OF assms(1)]
  show "view (release_if cf j u) = view u" using assms(2,3) g(4) by (auto simp: view_simps)
  show "fs_db (release_if cf j u) = fs_db u" by (simp add: view_simps)
  show "refs (release_if cf j u) = refs s"
    using assms(2,4) g(4,5) by (auto simp: view_simps)
  show "exists i (release_if cf j u)" if "exists i u" "exists i s" "refs s i \<noteq> 0"
    using that assms(2,4) g(4,5) by (cases "i = j") (auto simp: exists_release)
qed

section \<open>Operations that are logged\<close>

lemma blank_row_simps [simp]:
  "ft_status blank_row = 0" "ft_sfolderid blank_row = None" "ft_fileid blank_row = None" "ft_text1 blank_row = None"
  "ft_text2 blank_row = None" "ft_int1 blank_row = None" "ft_int2 blank_row = None"
  by (simp_all add: blank_row_def)

lemma fstasks_depend [simp]: "fstasks (psync_fstask_depend t d db) = fstasks db"
  by (simp add: psync_fstask_depend_def)

lemma fstasks_insert [simp]: "fstasks (insert_task r db) = fstasks db @ [r\<lparr>ft_id := next_taskid db\<rparr>]"
  by (simp add: insert_task_def)

lemma fstasks_fold [simp]: "fstasks (fold (\<lambda>r. psync_fstask_depend t (ft_id r)) rs db) = fstasks db"
  by (induction rs arbitrary: db) auto

lemma fstasks_name [simp]: "fstasks (snd (psync_fstask_depend_on_name t i n db)) = fstasks db"
  by (simp add: psync_fstask_depend_on_name_def depend_on_rows_def Let_def)

text \<open>The tables of the account.\<close>

definition account :: "fs_db \<Rightarrow> folder_row list \<times> file_row list" where
  "account db = (folder_tab db, file_tab db)"

lemma account_ops [simp]:
  "account (psync_fstask_depend t d db) = account db" "account (insert_task r db) = account db"
  "account (fold (\<lambda>r. psync_fstask_depend t (ft_id r)) rs db) = account db"
  "account (db\<lparr>fstasks := ts\<rparr>) = account db"
proof -
  show a: "account (psync_fstask_depend t d db) = account db" for t d db
    by (simp add: account_def psync_fstask_depend_def)
  show "account (insert_task r db) = account db" "account (db\<lparr>fstasks := ts\<rparr>) = account db"
    by (simp_all add: account_def insert_task_def)
  show "account (fold (\<lambda>r. psync_fstask_depend t (ft_id r)) rs db) = account db"
    by (induction rs arbitrary: db) (auto simp: a)
qed

lemma account_name [simp]: "account (snd (psync_fstask_depend_on_name t i n db)) = account db"
  by (simp add: psync_fstask_depend_on_name_def depend_on_rows_def Let_def)

text \<open>
  Either nothing changed, or a row was added and the view changed as the row says; the statuses of other
  rows may have changed.
\<close>

definition same :: "fs_state \<Rightarrow> fs_state \<Rightarrow> bool" where
  "same s t \<longleftrightarrow> view t = view s \<and> fs_db t = fs_db s \<and> refs t = refs s"

definition log_step :: "(fstask_row \<Rightarrow> nat) \<Rightarrow> fstask_row \<Rightarrow> fs_state \<Rightarrow> fs_state \<Rightarrow> bool" where
  "log_step k r s s' \<longleftrightarrow> plain r \<and> ft_status r \<noteq> 3 \<and> (\<forall>x. k x = 3 \<longrightarrow> ft_status x = 3)
     \<and> fstasks (fs_db s') = map (\<lambda>x. x\<lparr>ft_status := k x\<rparr>) (fstasks (fs_db s)) @ [r]
     \<and> ft_id r = next_taskid (fs_db s) \<and> account (fs_db s') = account (fs_db s)
     \<and> view s' = (view s)(ft_folderid r := row_effect r (view s (ft_folderid r))) \<and> refs s' = refs s"

text \<open>An operation with result \<open>ret\<close> on name \<open>n\<close> of folder \<open>i\<close> that adds a row of one of the types.\<close>

definition logged :: "int \<Rightarrow> nat set \<Rightarrow> int \<Rightarrow> fname \<Rightarrow> fs_state \<Rightarrow> fs_state \<Rightarrow> bool" where
  "logged ret tys i n s s' \<longleftrightarrow> ret \<noteq> 0 \<and> same s s'
     \<or> ret = 0 \<and> (\<exists>k r. log_step k r s s' \<and> ft_type r \<in> tys \<and> ft_folderid r = i \<and> row_name r = n)"

lemma logged_same: "same s s' \<Longrightarrow> ret \<noteq> 0 \<Longrightarrow> logged ret tys i n s s'" by (simp add: logged_def)

lemma logged_row:
  assumes "plain r" "ft_status r \<noteq> 3" "fstasks (fs_db s') = fstasks (fs_db s) @ [r]" "ft_id r = next_taskid (fs_db s)"
    "view s' = (view s)(ft_folderid r := row_effect r (view s (ft_folderid r)))" "refs s' = refs s"
    "account (fs_db s') = account (fs_db s)" "ft_type r \<in> tys" "ft_folderid r = i" "row_name r = n"
  shows "logged 0 tys i n s s'"
proof -
  have "log_step ft_status r s s'" using assms by (simp add: log_step_def)
  then show ?thesis using assms(8-10) by (auto simp: logged_def)
qed

definition roomy :: "fs_state \<Rightarrow> bool" where
  "roomy s \<longleftrightarrow> (\<forall>i. counted (view s i) \<and> entries (view s i) + 2 < 2 ^ 32 \<and> refs s i = 0)"

lemma roomyD: "roomy s \<Longrightarrow> counted (view s i)" "roomy s \<Longrightarrow> entries (view s i) + 2 < 2 ^ 32" "roomy s \<Longrightarrow> refs s i = 0"
  by (auto simp: roomy_def)

lemma refs_idle [simp]: "roomy s \<Longrightarrow> (refs s)(i := 0) = refs s"
  by (auto simp: roomyD)

lemma release_goc: "roomy s \<Longrightarrow> same s (release i (goc i s))"
  by (simp add: view_simps roomyD same_def)

section \<open>New folders\<close>

lemma encrypted_flag: "(fl :: u32) AND PSYNC_FOLDER_FLAG_ENCRYPTED \<noteq> 0 \<Longrightarrow> fl AND PSYNC_FOLDER_FLAG_ENCRYPTED = PSYNC_FOLDER_FLAG_ENCRYPTED"
  by (simp add: PSYNC_FOLDER_FLAG_ENCRYPTED_def and_one_eq split: if_splits)

lemma mkdir_insert_logged:
  assumes s: "roomy s" and key: "key = None \<longleftrightarrow> fl AND PSYNC_FOLDER_FLAG_ENCRYPTED = 0"
    and op: "mkdir_insert e i n key fl (goc i s) = (ret, s')"
  shows "logged ret {PSYNC_FS_TASK_MKDIR} i n s s'"
proof (cases "env_commit e")
  case False
  then show ?thesis
    using op release_goc [OF s, of i] by (auto simp: mkdir_insert_def Let_def errnos intro!: logged_same)
next
  case True
  let ?t = "next_taskid (fs_db s)"
  let ?r = "blank_row\<lparr>ft_id := ?t, ft_type := PSYNC_FS_TASK_MKDIR, ft_folderid := i,
              ft_sfolderid := Some i, ft_text1 := Some n, ft_text2 := key, ft_int1 := Some (env_now e)\<rparr>"
  let ?m = "\<lparr>mk_folderid = - int ?t, mk_taskid = ?t, mk_ctime = env_now e, mk_mtime = env_now e,
                    mk_subdircnt = 0, mk_flags = fl AND PSYNC_FOLDER_FLAG_ENCRYPTED, mk_name = n\<rparr>"
  have eff: "row_effect ?r = add_mkdir ?m"
    using key encrypted_flag [of fl]
    by (auto simp: row_effect_def put_mkdir_def num_def row_name_def fun_eq_iff)
  have c: "counted (add_mkdir ?m (view s i))" using roomyD [OF s, of i] by auto
  have "ret = 0" using op True by (simp add: mkdir_insert_def Let_def)
  moreover have "logged 0 {PSYNC_FS_TASK_MKDIR} i n s s'"
    using op True c
    by (intro logged_row [of ?r]) (auto simp: mkdir_insert_def Let_def view_simps eff plain_def roomyD s row_name_def)
  ultimately show ?thesis by simp
qed

lemma mkdir_logged:
  assumes s: "roomy s" and key: "env_new_key e \<noteq> Inr 0" and op: "psync_fstask_mkdir e i n fl s = (ret, s')"
  shows "logged ret {PSYNC_FS_TASK_MKDIR} i n s s'"
proof -
  note rel = logged_same [OF release_goc [OF s, of i]]
  show ?thesis
    using op key rel mkdir_insert_logged [OF s, of None fl e i n ret s'] mkdir_insert_logged [OF s, of "Some _" fl e i n ret s']
    unfolding psync_fstask_mkdir_def Let_def
    by (auto simp: errnos split: if_splits option.splits sum.splits)
qed

section \<open>Removed folders\<close>

lemma put_rmdir_view:
  "put_rmdir r f = add_rmdir r (case psync_fstask_find_mkdir (rm_name r) 0 f of Some m \<Rightarrow> del_mkdir m f | None \<Rightarrow> f)"
  by (simp add: put_rmdir_def)

lemma rmdir_insert_logged:
  assumes s: "roomy s" and ok: "env_commit e"
    and t: "exists i t" "refs t = (refs s)(i := 1)" "fs_db t = fs_db s"
      "view t = (view s)(i := case psync_fstask_find_mkdir n 0 (view s i) of Some m \<Rightarrow> del_mkdir m (view s i) | None \<Rightarrow> view s i)"
    and op: "rmdir_insert e i j n d t = (ret, s')"
  shows "logged ret {PSYNC_FS_TASK_RMDIR} i n s s'"
proof -
  let ?t = "next_taskid (fs_db s)"
  let ?r = "blank_row\<lparr>ft_id := ?t, ft_type := PSYNC_FS_TASK_RMDIR, ft_folderid := i, ft_sfolderid := Some j, ft_text1 := Some n\<rparr>"
  let ?x = "\<lparr>rm_folderid = j, rm_taskid = ?t, rm_name = n\<rparr>"
  have eff: "row_effect ?r = put_rmdir ?x"
    by (simp add: row_effect_def num_def row_name_def task_types)
  have c: "counted (put_rmdir ?x (view s i))" by (rule put_counted(2) [THEN conjunct1]) (use roomyD [OF s, of i] in auto)
  then have p: "put_rmdir ?x (view s i) = add_rmdir ?x (view t i)" by (simp add: put_rmdir_view t(4))
  have "ret = 0" using op ok by (simp add: rmdir_insert_def Let_def)
  moreover have "logged 0 {PSYNC_FS_TASK_RMDIR} i n s s'"
    using op ok c
    by (intro logged_row [of ?r])
      (auto simp: rmdir_insert_def Let_def view_simps eff plain_def t p s row_name_def)
  ultimately show ?thesis by simp
qed


text \<open>The first half of \<^verbatim>\<open>del_mkdir\<close> is done before the folder is checked.\<close>

definition uncounted :: "mkdir_t option \<Rightarrow> folder_t \<Rightarrow> folder_t" where
  "uncounted mk f = (case mk of None \<Rightarrow> f | Some m \<Rightarrow> f\<lparr>fl_taskscnt := fl_taskscnt f - 1\<rparr>)"

lemma rmdir_check_done:
  assumes s: "roomy s" and ok: "env_commit e" "ret \<noteq> - ENOTEMPTY"
    and mk: "mk = psync_fstask_find_mkdir n 0 (view s i)"
    and u: "exists i u" "refs u = (refs s)(i := 1)" "fs_db u = fs_db s" "view u = (view s)(i := uncounted mk (view s i))"
    and op: "rmdir_check e i j n d mk u = (ret, s')"
  shows "logged ret {PSYNC_FS_TASK_RMDIR} i n s s'"
proof -
  let ?del = "\<lambda>m f. f\<lparr>fl_mkdirs := remove1 m (fl_mkdirs f)\<rparr>"
  obtain cf t where g: "psync_fstask_get_folder_tasks_locked j u = (cf, t)" by fastforce
  note t = get_view [OF g]
  define w where "w = (case mk of None \<Rightarrow> t | Some m \<Rightarrow> upd i (?del m) t)"
  have ov: "on_view (?del m)" for m by (simp add: on_view_ops)
  have w: "view w = (view s)(i := case mk of Some m \<Rightarrow> del_mkdir m (view s i) | None \<Rightarrow> view s i)"
    "fs_db w = fs_db s" "refs w = refs t" "exists k w = exists k u" for k
    using t u ov
    by (auto simp: w_def view_simps uncounted_def del_mkdir_def split: option.split)
  have c: "counted (view w j)"
    using counted_find(1) [OF roomyD(1) [OF s, of i], of n 0] roomyD(1) [OF s, of j] by (auto simp: w(1) mk)
  have o: "rmdir_insert e i j n d (release_if cf j w) = (ret, s')"
    using op ok(2) g by (auto simp: rmdir_check_def w_def split: if_splits)
  note r = release_if_view [OF g _ c w(3)]
  have "exists i (release_if cf j w)"
    using r(4) u(1,2) w(4) by (metis fun_upd_same one_neq_zero)
  moreover have "refs (release_if cf j w) = (refs s)(i := 1)" using r(3) w(4) u(2) by metis
  moreover have "view (release_if cf j w) = (view s)(i := case mk of Some m \<Rightarrow> del_mkdir m (view s i) | None \<Rightarrow> view s i)"
    using r(1) w(1,4) by metis
  moreover have "fs_db (release_if cf j w) = fs_db s" using r(2) w(2,4) by metis
  ultimately show ?thesis
    using o unfolding mk by (intro rmdir_insert_logged [OF s ok(1)])
qed

lemma rmdir_check_failed:
  assumes s: "roomy s" and no: "\<not> (env_commit e \<and> ret \<noteq> - ENOTEMPTY)"
    and u: "exists i u" "refs u = (refs s)(i := 1)" "fs_db u = fs_db s" "view u = view s"
    and op: "rmdir_check e i j n d None u = (ret, s')"
  shows "same s s' \<and> ret \<noteq> 0"
proof -
  obtain cf t where g: "psync_fstask_get_folder_tasks_locked j u = (cf, t)" by fastforce
  note t = get_view [OF g]
  have "counted (view t j)" using t(1) u(4) roomyD(1) [OF s, of j] by simp
  note r = release_if_view [OF g _ this refl]
  have x: "exists k t = exists k u" for k by (rule t(3))
  have s': "s' = release i (release_if cf j t)" "ret \<noteq> 0"
    using op g no by (auto simp: rmdir_check_def rmdir_insert_def Let_def errnos split: if_splits)
  have "exists i (release_if cf j t)" using r(4) [of i] u(1,2) x by (metis fun_upd_same one_neq_zero)
  moreover have "refs (release_if cf j t) = (refs s)(i := 1)" "view (release_if cf j t) = view s" "fs_db (release_if cf j t) = fs_db s"
    using r(1-3) x u t(1,2) by simp_all
  ultimately have "same s (release i (release_if cf j t))"
    using roomyD(1,3) [OF s] by (simp add: same_def view_simps refs_idle [OF s])
  then show ?thesis using s' by simp
qed

lemma rmdir_check_logged:
  assumes s: "roomy s" and ok: "mk = None \<or> env_commit e \<and> ret \<noteq> - ENOTEMPTY"
    and mk: "mk = psync_fstask_find_mkdir n 0 (view s i)"
    and u: "exists i u" "refs u = (refs s)(i := 1)" "fs_db u = fs_db s" "view u = (view s)(i := uncounted mk (view s i))"
    and op: "rmdir_check e i j n d mk u = (ret, s')"
  shows "logged ret {PSYNC_FS_TASK_RMDIR} i n s s'"
proof (cases "env_commit e \<and> ret \<noteq> - ENOTEMPTY")
  case True
  then show ?thesis using rmdir_check_done [OF s _ _ mk u op] by blast
next
  case False
  then have mk: "mk = None" using ok by blast
  then have v: "view u = view s" using u(4) by (simp add: uncounted_def)
  show ?thesis using rmdir_check_failed [OF s False u(1-3) v op [unfolded mk]] by (simp add: logged_same)
qed

lemma rmdir_logged:
  assumes s: "roomy s" and ok: "psync_fstask_find_mkdir n 0 (view s i) = None \<or> env_commit e \<and> ret \<noteq> - ENOTEMPTY"
    and op: "psync_fstask_rmdir e i fl n s = (ret, s')"
  shows "logged ret {PSYNC_FS_TASK_RMDIR} i n s s'"
proof -
  note rel = logged_same [OF release_goc [OF s, of i]]
  have a: "exists i (goc i s)" "refs (goc i s) = (refs s)(i := 1)" "fs_db (goc i s) = fs_db s" "view (goc i s) = view s"
    using roomyD(3) [OF s] by (simp_all add: view_simps)
  show ?thesis
  proof (cases "psync_fstask_find_mkdir n 0 (view s i)")
    case None
    then have "uncounted None (view s i) = view s i" by (simp add: uncounted_def)
    then show ?thesis
      using op rel None a rmdir_check_logged [OF s _ None [symmetric], where u = "goc i s" and d = 0 and e = e and ret = ret]
      unfolding psync_fstask_rmdir_def Let_def
      by (auto simp: find_view errnos split: if_splits option.splits)
  next
    case (Some m)
    let ?u = "upd i (\<lambda>f. f\<lparr>fl_taskscnt := fl_taskscnt f - 1\<rparr>) (goc i s)"
    have o: "on_view (\<lambda>f. f\<lparr>fl_taskscnt := fl_taskscnt f - 1\<rparr>)" by (simp add: on_view_ops)
    have "view ?u = (view s)(i := uncounted (Some m) (view s i))" "exists i ?u" "refs ?u = (refs s)(i := 1)" "fs_db ?u = fs_db s"
      using a o by (simp_all add: view_simps uncounted_def)
    moreover have "rmdir_check e i (mk_folderid m) n (mk_taskid m) (Some m) ?u = (ret, s')"
      using op Some a(4) unfolding psync_fstask_rmdir_def Let_def by (simp add: find_view)
    ultimately show ?thesis using Some ok by (intro rmdir_check_logged [OF s]) auto
  qed
qed

section \<open>New files\<close>

lemma creat_failed:
  assumes s: "roomy s" and op: "psync_fstask_add_creat e i n fileid key (goc i s) = (None, t)"
  shows "same s (release i t)"
proof -
  have "t = goc i s" using op by (auto simp: psync_fstask_add_creat_def Let_def split: if_splits)
  then show ?thesis using release_goc [OF s, of i] by simp
qed

lemma creat_logged:
  assumes s: "roomy s" and op: "psync_fstask_add_creat e i n fileid key (goc i s) = (Some c, t)"
  shows "logged 0 {PSYNC_FS_TASK_CREAT} i n s (release i t)"
proof -
  let ?t = "next_taskid (fs_db s)"
  let ?r = "(creat_row PSYNC_FS_TASK_CREAT i n fileid key None)\<lparr>ft_id := ?t\<rparr>"
  let ?c = "\<lparr>cr_fileid = - int ?t, cr_rfileid = fileid, cr_taskid = ?t, cr_name = n\<rparr>"
  let ?u = "\<lparr>un_fileid = - int ?t, un_taskid = ?t, un_name = n\<rparr>"
  have eff: "row_effect ?r f = add_creat ?c (add_unlink ?u f)" for f
    by (simp add: row_effect_def creat_row_def put_creat_def num_def row_name_def task_types)
  have c: "counted (add_creat ?c (add_unlink ?u (view s i)))"
    using put_counted(3) [OF roomyD(1,2) [OF s], of ?c i] by (simp add: put_creat_def)
  have r: "plain ?r" "ft_status ?r \<noteq> 3" "ft_folderid ?r = i" "ft_id ?r = ?t" "ft_type ?r = PSYNC_FS_TASK_CREAT" "row_name ?r = n"
    by (simp_all add: plain_def creat_row_def row_name_def)
  have "env_commit e" using op by (auto simp: psync_fstask_add_creat_def Let_def split: if_splits)
  then obtain b m db where t: "t = emit_if b m (upd i (add_creat ?c) (upd i (add_unlink ?u) (set_db db (goc i s))))"
    "fstasks db = fstasks (fs_db s) @ [?r]" "account db = account (fs_db s)"
    using op by (auto simp: psync_fstask_add_creat_def Let_def view_simps creat_depends_def)
  show ?thesis
    using c by (intro logged_row [OF r(1,2)]) (simp_all only: eff r, simp_all add: t view_simps s roomyD)
qed

section \<open>Removed files\<close>

lemma old_location_same:
  assumes "roomy s" "view u = (view s)(i := f)" "counted f" "exists i u" "refs u i \<noteq> 0"
    and "get_file_at_old_location e fileid u = (rv, t)"
  shows "same u t" "exists i t"
proof -
  have "same u t \<and> exists i t"
  proof (cases "fileid < 0 \<or> env_history e fileid = None")
    case True
    then have "t = u" using assms(6) by (cases "fileid < 0") (auto simp: get_file_at_old_location_def)
    then show ?thesis using assms(4) by (simp add: same_def)
  next
    case False
    then obtain j rn where h: "\<not> fileid < 0" "env_history e fileid = Some (j, rn)" by auto
    obtain cf w where g: "psync_fstask_get_folder_tasks_locked j u = (cf, w)" by fastforce
    note w = get_view [OF g]
    have c: "counted (view w j)" using w(1) assms(2,3) roomyD(1) [OF assms(1), of j] by (cases "j = i") auto
    note r = release_if_view [OF g _ c refl]
    have "t = release_if cf j w"
      using assms(6) h g by (auto simp: get_file_at_old_location_def Let_def split: option.splits if_splits)
    then show ?thesis
      using r(1-4) w(1-3) assms(4,5) by (simp add: same_def)
  qed
  then show "same u t" "exists i t" by auto
qed

definition stop_status :: "fs_env \<Rightarrow> int \<Rightarrow> fstask_row \<Rightarrow> nat" where
  "stop_status e fileid r = (if fileid < 0 \<and> \<not> env_in_batch e (- fileid)
       \<and> (int (ft_id r) = - fileid \<or> ft_fileid r = Some fileid \<and> ft_status r \<noteq> 10)
     then 11 else ft_status r)"

lemma stop_same:
  assumes "t = (if fileid < 0 then psync_fstask_stop_and_delete_file e fileid s else s)"
  shows "view t = view s" "refs t = refs s" "exists i t = exists i s"
    "fstasks (fs_db t) = map (\<lambda>x. x\<lparr>ft_status := stop_status e fileid x\<rparr>) (fstasks (fs_db s))"
    "account (fs_db t) = account (fs_db s)"
  using assms by (auto simp: psync_fstask_stop_and_delete_file_def Let_def view_simps stop_status_def comp_def)

lemma fstasks_unlink_depends [simp]:
  "fstasks (unlink_depends t i n d f r db) = fstasks db" "account (unlink_depends t i n d f r db) = account db"
  by (simp_all add: unlink_depends_def Let_def)

lemma unlink_row_simps [simp]:
  "plain (unlink_row i n f rf r\<lparr>ft_id := t\<rparr>)" "ft_folderid (unlink_row i n f rf r) = i" "ft_status (unlink_row i n f rf r) \<noteq> 3"
  "row_effect (unlink_row i n f rf r\<lparr>ft_id := t\<rparr>) = put_unlink \<lparr>un_fileid = f, un_taskid = t, un_name = n\<rparr>"
  "ft_type (unlink_row i n f rf r) \<in> {PSYNC_FS_TASK_UNLINK, PSYNC_FS_TASK_UN_SET_REV}" "ft_text1 (unlink_row i n f rf r) = Some n"
  by (simp_all add: unlink_row_def plain_def row_effect_def num_def row_name_def task_types)

lemma next_taskid_map: "map ft_id (fstasks db) = map ft_id (fstasks db') \<Longrightarrow> next_taskid db = next_taskid db'"
  by (simp add: next_taskid_def)

lemma unlink_insert_logged:
  assumes s: "roomy s" and ok: "env_commit e"
    and u: "exists i u" "refs u = (refs s)(i := 1)" "fs_db u = fs_db s"
      "view u = (view s)(i := case psync_fstask_find_creat n 0 (view s i) of Some c \<Rightarrow> del_creat c (view s i) | None \<Rightarrow> view s i)"
    and op: "unlink_insert e i n d fileid rfileid u = (ret, s')"
  shows "logged ret {PSYNC_FS_TASK_UNLINK, PSYNC_FS_TASK_UN_SET_REV} i n s s'"
proof -
  let ?f = "case psync_fstask_find_creat n 0 (view s i) of Some c \<Rightarrow> del_creat c (view s i) | None \<Rightarrow> view s i"
  obtain rv t where g: "get_file_at_old_location e fileid u = (rv, t)" by fastforce
  have cf: "counted ?f" using counted_find(2) [OF roomyD(1) [OF s, of i], of n 0] .
  have t: "same u t" "exists i t" using old_location_same [OF s u(4) cf u(1) _ g] u(2) by auto
  define w where "w = (if fileid < 0 then psync_fstask_stop_and_delete_file e fileid t else t)"
  note w = stop_same [OF w_def]
  have ids: "next_taskid (fs_db w) = next_taskid (fs_db s)"
    using w(4) t(1) u(3) by (intro next_taskid_map) (simp add: same_def comp_def)
  let ?t = "next_taskid (fs_db s)"
  let ?r = "unlink_row i n fileid rfileid rv\<lparr>ft_id := ?t\<rparr>"
  let ?x = "\<lparr>un_fileid = fileid, un_taskid = ?t, un_name = n\<rparr>"
  have c: "counted (put_unlink ?x (view s i))" by (rule put_counted(4) [THEN conjunct1]) (use roomyD [OF s, of i] in auto)
  then have p: "put_unlink ?x (view s i) = add_unlink ?x (view u i)" by (simp add: put_unlink_def u(4))
  have v: "view w = view u" "refs w = (refs s)(i := 1)" "exists i w" using w t u(2) by (simp_all add: same_def)
  have rows: "fstasks (fs_db w) = map (\<lambda>x. x\<lparr>ft_status := stop_status e fileid x\<rparr>) (fstasks (fs_db s))"
    using w(4) t(1) u(3) by (simp add: same_def)
  have acc: "account (fs_db w) = account (fs_db s)" using w(5) t(1) u(3) by (simp add: same_def)
  obtain b db where s': "s' = emit_if b UploadWake (release i (upd i (add_unlink ?x) (set_db db w)))"
    "fstasks db = fstasks (fs_db w) @ [?r]" "account db = account (fs_db w)" "ret = 0"
    using op [unfolded unlink_insert_def g Let_def prod.case w_def [symmetric] ids] ok that
    by (auto simp: ids)
  have "log_step (stop_status e fileid) ?r s s'"
    unfolding log_step_def
    using c s' rows acc by (auto simp: stop_status_def view_simps v p u(4) s)
  then show ?thesis using s'(4) unlink_row_simps(5,6) [of i n fileid rfileid rv]
    by (auto simp: logged_def row_name_def intro!: exI [of _ "stop_status e fileid"] exI [of _ ?r])
qed

lemma unlink_insert_failed:
  assumes s: "roomy s" and no: "\<not> env_commit e"
    and u: "exists i u" "refs u = (refs s)(i := 1)" "fs_db u = fs_db s" "view u = view s"
    and op: "unlink_insert e i n d fileid rfileid u = (ret, s')"
  shows "same s s' \<and> ret \<noteq> 0"
proof -
  obtain rv t where g: "get_file_at_old_location e fileid u = (rv, t)" by fastforce
  have v: "view u = (view s)(i := view s i)" using u(4) by simp
  have t: "same u t" "exists i t" using old_location_same [OF s v roomyD(1) [OF s] u(1) _ g] u(2) by auto
  define w where "w = (if fileid < 0 then psync_fstask_stop_and_delete_file e fileid t else t)"
  note w = stop_same [OF w_def]
  have "s' = release i (set_db (fs_db t) w)" "ret \<noteq> 0"
    using op no by (auto simp: unlink_insert_def g Let_def w_def errnos)
  moreover have "exists i w" "view w = view s" "refs w = (refs s)(i := 1)" "fs_db t = fs_db s"
    using w t u by (simp_all add: same_def)
  ultimately show ?thesis using roomyD(1,3) [OF s] by (simp add: same_def view_simps refs_idle [OF s])
qed

lemma unlink_logged:
  assumes s: "roomy s" and ok: "psync_fstask_find_creat n 0 (view s i) = None \<or> env_commit e" "\<forall>c\<in>set (fl_creats (view s i)). cr_fileid c \<noteq> 0"
    and op: "psync_fstask_unlink e i n s = (ret, s')"
  shows "logged ret {PSYNC_FS_TASK_UNLINK, PSYNC_FS_TASK_UN_SET_REV} i n s s'"
proof -
  note rel = logged_same [OF release_goc [OF s, of i]]
  have a: "exists i (goc i s)" "refs (goc i s) = (refs s)(i := 1)" "fs_db (goc i s) = fs_db s" "view (goc i s) = view s"
    using roomyD(3) [OF s] by (simp_all add: view_simps)
  note u = unlink_insert_logged [OF s _, where i = i and n = n and ret = ret and s' = s']
  show ?thesis
  proof (cases "psync_fstask_find_creat n 0 (view s i)")
    case None
    have "logged ret {PSYNC_FS_TASK_UNLINK, PSYNC_FS_TASK_UN_SET_REV} i n s s'"
      if "unlink_insert e i n 0 fileid 0 (goc i s) = (ret, s')" for fileid
    proof (cases "env_commit e")
      case True
      then show ?thesis using u [of e "goc i s" 0 fileid 0] that a None by simp
    next
      case False
      show ?thesis using unlink_insert_failed [OF s False a that] by (simp add: logged_same)
    qed
    then show ?thesis
      using op rel None a unfolding psync_fstask_unlink_def Let_def
      by (auto simp: find_view errnos split: if_splits option.splits)
  next
    case (Some c)
    let ?u = "emit_if (0 \<le> i) (DriveFolderChanged i) (upd i (del_creat c) (goc i s))"
    have "cr_fileid c \<noteq> 0" using ok(2) find_member(3) [OF Some] by auto
    then have "unlink_insert e i n (cr_taskid c) (cr_fileid c) (cr_rfileid c) ?u = (ret, s')"
      using op Some a(4) unfolding psync_fstask_unlink_def Let_def by (simp add: find_view)
    moreover have "exists i ?u" "refs ?u = (refs s)(i := 1)" "fs_db ?u = fs_db s" "view ?u = (view s)(i := del_creat c (view s i))"
      using a by (simp_all add: view_simps)
    ultimately show ?thesis using Some ok(1) by (intro u [of e ?u]) auto
  qed
qed

section \<open>Reachable states\<close>

text \<open>
  The operations that create and remove folders and files, as the drive calls them, with their results: the
  folder is held while a file is added (as in \<^verbatim>\<open>psync_fs_creat\<close>, which returns \<^verbatim>\<open>EIO\<close> for a null record),
  and a file is only added under a name without a new file. The names are C strings. Meanwhile the tables of
  the account may change to what the server has.

  Two results are left out, because the records are changed before the operation fails: the removal of a
  folder that is a pending change itself and is not empty or whose commit fails, and the removal of a pending
  new file whose commit fails. What the first does to the counters is a property of its own. Left out as well are
  renaming, files that are modified, the completion of changes by the upload, the references of open
  files, the files that make the file manager refresh, and the static files.
\<close>

datatype fs_call = Call_mkdir int fname | Call_rmdir int fname | Call_creat int fname | Call_unlink int fname

definition account_ok :: "fs_db \<Rightarrow> bool" where
  "account_ok db \<longleftrightarrow> (\<forall>r\<in>set (folder_tab db). 0 \<notin> set (fo_name r) \<and> 0 \<le> fo_id r \<and> (\<forall>p. fo_parent r = Some p \<longrightarrow> 0 \<le> p))
     \<and> (\<forall>r\<in>set (file_tab db). 0 \<notin> set (fi_name r) \<and> 0 < fi_id r \<and> 0 \<le> fi_parent r)"

inductive fs_op :: "fs_call \<Rightarrow> int \<Rightarrow> fs_state \<Rightarrow> fs_state \<Rightarrow> bool" where
  Mkdir: "psync_fstask_mkdir e i n fl s = (ret, s') \<Longrightarrow> 0 \<notin> set n \<Longrightarrow> env_new_key e \<noteq> Inr 0
    \<Longrightarrow> fs_op (Call_mkdir i n) ret s s'"
| Rmdir: "psync_fstask_rmdir e i fl n s = (ret, s') \<Longrightarrow> 0 \<notin> set n
    \<Longrightarrow> psync_fstask_find_mkdir n 0 (view s i) = None \<or> env_commit e \<and> ret \<noteq> - ENOTEMPTY
    \<Longrightarrow> fs_op (Call_rmdir i n) ret s s'"
| Creat: "psync_fstask_add_creat e i n fileid key (goc i s) = (c, t) \<Longrightarrow> 0 \<notin> set n
    \<Longrightarrow> psync_fstask_find_creat n 0 (view s i) = None
    \<Longrightarrow> fs_op (Call_creat i n) (if c = None then - EIO else 0) s (release i t)"
| Unlink: "psync_fstask_unlink e i n s = (ret, s') \<Longrightarrow> 0 \<notin> set n
    \<Longrightarrow> psync_fstask_find_creat n 0 (view s i) = None \<or> env_commit e
    \<Longrightarrow> fs_op (Call_unlink i n) ret s s'"

inductive fs_step :: "fs_state \<Rightarrow> fs_state \<Rightarrow> bool" where
  Op: "fs_op c ret s s' \<Longrightarrow> fs_step s s'"
| Diff: "account_ok db \<Longrightarrow> fstasks db = fstasks (fs_db s) \<Longrightarrow> fs_step s (set_db db s)"

inductive_cases fs_opE: "fs_op c ret s s'"
inductive_cases fs_stepE: "fs_step s s'"

text \<open>The drive starts without pending changes, whatever the tables of the account hold.\<close>

inductive fs_run :: "nat \<Rightarrow> fs_state \<Rightarrow> bool" where
  Start: "fs_folders s = [] \<Longrightarrow> fstasks (fs_db s) = [] \<Longrightarrow> account_ok (fs_db s) \<Longrightarrow> fs_run 0 s"
| Step: "fs_run n s \<Longrightarrow> fs_step s s' \<Longrightarrow> fs_run (Suc n) s'"

definition in_log :: "fs_state \<Rightarrow> bool" where
  "in_log s \<longleftrightarrow> view s = apply_rows (fstasks (fs_db s)) new_folder \<and> reloadable (fs_db s)
     \<and> (\<forall>r\<in>set (fstasks (fs_db s)). 0 < ft_id r) \<and> (\<forall>i. refs s i = 0)"

definition fits :: "fs_state \<Rightarrow> bool" where
  "fits s \<longleftrightarrow> 2 * length (fstasks (fs_db s)) + 2 < 2 ^ 32"

lemma in_log_roomy:
  assumes "in_log s" "fits s" shows "roomy s"
proof -
  have "bounded (0 + 2 * length (fstasks (fs_db s))) (apply_rows (fstasks (fs_db s)) new_folder)"
    using assms(2) by (intro bounded_rows bounded_new) (auto simp: fits_def)
  then have b: "bounded (2 * length (fstasks (fs_db s))) (view s)" using assms(1) by (simp add: in_log_def)
  have "entries (view s i) + 2 < 2 ^ 32" for i
  proof -
    have "entries (view s i) \<le> 2 * length (fstasks (fs_db s))" using b by (simp add: bounded_def)
    then show ?thesis using assms(2) unfolding fits_def by linarith
  qed
  then show ?thesis using assms(1) b by (auto simp: roomy_def bounded_def in_log_def)
qed

lemma row_effect_creats:
  "c \<in> set (fl_creats (row_effect r f)) \<Longrightarrow> cr_fileid c = - int (ft_id r) \<or> c \<in> set (fl_creats f)"
  by (auto simp: row_effect_def put_mkdir_def put_rmdir_def put_creat_def put_unlink_def folder_op_defs
      dest: notin_set_remove1 set_mp [OF set_remove1_subset] split: if_splits option.splits)

lemma apply_rows_creats:
  "c \<in> set (fl_creats (apply_rows rs V i)) \<Longrightarrow> \<forall>r\<in>set rs. 0 < ft_id r \<Longrightarrow> \<forall>i. \<forall>c\<in>set (fl_creats (V i)). cr_fileid c \<noteq> 0
   \<Longrightarrow> cr_fileid c \<noteq> 0"
proof (induction rs arbitrary: V)
  case Nil
  then show ?case by auto
next
  case (Cons r rs)
  have "\<forall>j. \<forall>c\<in>set (fl_creats ((V(ft_folderid r := row_effect r (V (ft_folderid r)))) j)). cr_fileid c \<noteq> 0"
  proof (intro allI ballI)
    fix j c
    assume c: "c \<in> set (fl_creats ((V(ft_folderid r := row_effect r (V (ft_folderid r)))) j))"
    show "cr_fileid c \<noteq> 0"
      using c Cons.prems(2,3) row_effect_creats [of c r "V (ft_folderid r)"] by (cases "j = ft_folderid r") auto
  qed
  then show ?case using Cons.IH [of "V(ft_folderid r := row_effect r (V (ft_folderid r)))"] Cons.prems(1,2)
    by (simp del: fun_upd_apply)
qed

lemma in_log_no_static: "in_log s \<Longrightarrow> c \<in> set (fl_creats (view s i)) \<Longrightarrow> cr_fileid c \<noteq> 0"
  by (rule apply_rows_creats [of c "fstasks (fs_db s)" new_folder i]) (auto simp: in_log_def new_folder_def)

lemma in_log_logged:
  assumes "in_log s" "logged ret tys i n s s'" shows "in_log s'"
proof -
  consider "same s s'" | k r where "log_step k r s s'" using assms(2) by (auto simp: logged_def)
  then show ?thesis
  proof cases
    case 1
    then show ?thesis using assms(1) by (simp add: in_log_def same_def)
  next
    case (2 k r)
    have "apply_rows (map (\<lambda>x. x\<lparr>ft_status := k x\<rparr>) (fstasks (fs_db s))) new_folder
        = apply_rows (fstasks (fs_db s)) new_folder"
      by (intro apply_rows_map) (auto simp: row_effect_def row_name_def)
    then show ?thesis using 2 assms(1)
      by (auto simp: in_log_def log_step_def reloadable_def plain_def next_taskid_def simp del: fun_upd_apply)
  qed
qed

lemma op_logged:
  assumes "fs_op c ret s s'" "in_log s" "fits s"
  shows "\<exists>ret tys i n. logged ret tys i n s s'"
proof -
  note r = in_log_roomy [OF assms(2,3)]
  from assms(1) show ?thesis
  proof cases
    case (Creat e i n fileid key c t)
    then show ?thesis
      using creat_failed [OF r, of e i n fileid key t] creat_logged [OF r, of e i n fileid key _ t]
      by (cases c) (auto simp: errnos dest!: logged_same [where ret = 1])
  qed (use r in_log_no_static [OF assms(2)] in \<open>blast intro: mkdir_logged rmdir_logged unlink_logged\<close>)+
qed

lemma in_log_diff: "in_log s \<Longrightarrow> fstasks db = fstasks (fs_db s) \<Longrightarrow> in_log (set_db db s)"
  by (auto simp: in_log_def view_simps reloadable_def)

lemma logged_rows: "logged ret tys i n s s' \<Longrightarrow> length (fstasks (fs_db s')) \<le> Suc (length (fstasks (fs_db s)))"
  by (auto simp: logged_def same_def log_step_def)

lemma run_in_log: "fs_run n s \<Longrightarrow> 2 * n + 2 < 2 ^ 32 \<Longrightarrow> in_log s \<and> length (fstasks (fs_db s)) \<le> n"
proof (induction rule: fs_run.induct)
  case (Start s)
  then have "view s = new_folder" "refs s = (\<lambda>i. 0)"
    by (auto simp: view_def refs_def fld_def get_folder_def new_folder_def)
  then show ?case using Start by (simp add: in_log_def reloadable_def)
next
  case (Step n s s')
  then have s: "in_log s" "length (fstasks (fs_db s)) \<le> n" by auto
  then have "fits s" using Step.prems by (simp add: fits_def)
  from Step.hyps(2) show ?case
  proof cases
    case Op
    then obtain ret tys i m where l: "logged ret tys i m s s'" using op_logged s(1) \<open>fits s\<close> by blast
    then show ?thesis using in_log_logged [OF s(1) l] logged_rows [OF l] s(2) by linarith
  next
    case (Diff db)
    then show ?thesis using in_log_diff [OF s(1)] s(2) by (simp add: view_simps)
  qed
qed

section \<open>A folder that is not empty\<close>

lemma view_found: "get_folder i s = Some f \<Longrightarrow> view s i = f\<lparr>fl_refcnt := 0\<rparr>"
  by (simp add: view_def fld_def)

lemma view_none: "get_folder i s = None \<Longrightarrow> view s i = new_folder i"
  by (simp add: view_def fld_def new_folder_def)

lemma find_new [simp]:
  "psync_fstask_find_mkdir n t (new_folder i) = None" "psync_fstask_find_rmdir n t (new_folder i) = None"
  "psync_fstask_find_creat n t (new_folder i) = None" "psync_fstask_find_unlink n t (new_folder i) = None"
  by (simp_all add: psync_fstask_find_mkdir_def psync_fstask_find_rmdir_def psync_fstask_find_creat_def
      psync_fstask_find_unlink_def search_list_def new_folder_def)

lemma rmdir_nonempty_folder:
  assumes s: "roomy s" and mk: "psync_fstask_find_mkdir n 0 (view s i) = Some m"
    and full: "has_local_entries (get_folder (mk_folderid m) s)"
    and op: "psync_fstask_rmdir e i fl n s = (ret, t)"
  shows "ret = - ENOTEMPTY" "fs_db t = fs_db s"
    "get_folder k t = (if k = i then if fl_taskscnt (fld i s) = 1 then None
       else Some ((fld i s)\<lparr>fl_taskscnt := fl_taskscnt (fld i s) - 1\<rparr>) else get_folder k s)"
proof -
  let ?j = "mk_folderid m" and ?d = "\<lambda>f. f\<lparr>fl_taskscnt := fl_taskscnt f - 1\<rparr>"
  let ?r = "\<lambda>f. f\<lparr>fl_refcnt := fl_refcnt f + 1\<rparr>"
  define u where "u = upd i ?d (goc i s)"
  have ids: "keeps_id ?d" "keeps_id ?r" by (simp_all add: keeps_id_def)
  obtain f where f: "get_folder i s = Some f" using mk by (cases "get_folder i s") (simp_all add: view_none)
  obtain c where c: "get_folder ?j s = Some c" "fl_creats c \<noteq> [] \<or> fl_mkdirs c \<noteq> []"
    using full by (auto simp: has_local_entries_def split: option.splits)
  have r: "fl_refcnt f = 0" "fl_refcnt c = 0" using roomyD(3) [OF s] f c by (metis refs_def fld_def option.simps(5))+
  have n: "fl_taskscnt c \<noteq> 0"
  proof -
    have "counted (view s ?j)" by (rule roomyD(1) [OF s])
    then have "fl_taskscnt c = of_nat (entries c)" "entries c < 2 ^ 32" using c by (simp_all add: view_found counted_def entries_def)
    moreover have "0 < entries c" using c(2) by (auto simp: entries_def)
    ultimately have "unat (fl_taskscnt c) = entries c" by (simp add: unat_of_nat)
    then show ?thesis using \<open>0 < entries c\<close> by auto
  qed
  have u: "get_folder k u = (if k = i then Some (f\<lparr>fl_refcnt := 1, fl_taskscnt := fl_taskscnt f - 1\<rparr>) else get_folder k s)" for k
    using f r by (simp add: u_def get_folder_upd ids get_folder_goc fld_def option.map_ident)
  define cu where "cu = the (get_folder ?j u)"
  have cu: "get_folder ?j u = Some cu" "fl_creats cu \<noteq> [] \<or> fl_mkdirs cu \<noteq> []"
    using u [of ?j] c f by (auto simp: cu_def split: if_splits)
  have "view (goc i s) = view s" by (simp add: view_simps)
  then have "psync_fstask_find_mkdir n 0 (fld i (goc i s)) = Some m" using mk by (simp only: find_view)
  then have "(ret, t) = rmdir_check e i ?j n (mk_taskid m) (Some m) u"
    using op unfolding psync_fstask_rmdir_def Let_def by (simp add: u_def)
  then have t: "ret = - ENOTEMPTY" "t = release i (release ?j (upd ?j ?r u))"
    using cu by (auto simp: rmdir_check_def psync_fstask_get_folder_tasks_locked_def has_local_entries_def)
  show "ret = - ENOTEMPTY" "fs_db t = fs_db s" using t by (simp_all add: view_simps u_def)
  show "get_folder k t = (if k = i then if fl_taskscnt (fld i s) = 1 then None
       else Some ((fld i s)\<lparr>fl_taskscnt := fl_taskscnt (fld i s) - 1\<rparr>) else get_folder k s)"
    unfolding t(2) using r n f c u by (auto simp: get_folder_release get_folder_upd ids fld_def option.map_ident)
qed

lemma run_roomy: "fs_run n s \<Longrightarrow> 2 * n + 2 < 2 ^ 32 \<Longrightarrow> roomy s"
  using run_in_log [of n s] by (intro in_log_roomy) (auto simp: fits_def)

definition sample_env :: fs_env where
  "sample_env = \<lparr>env_now = 5, env_commit = True, env_new_key = Inl [7], env_history = (\<lambda>i. None),
     env_in_batch = (\<lambda>i. False), env_junk = 0, env_misread = id\<rparr>"

definition sample_start :: fs_state where
  "sample_start = \<lparr>fs_folders = [], fs_db = \<lparr>fstasks = [], fsdepends = [], folder_tab = [], file_tab = []\<rparr>,
     fs_local_taskid = 0, fs_notes = []\<rparr>"

definition sample_mkdir :: fs_state where
  "sample_mkdir = snd (psync_fstask_mkdir sample_env 0 [97] 0 sample_start)"

lemma sample_start_run: "fs_run 0 sample_start"
  by (rule Start) (simp_all add: sample_start_def account_ok_def)

lemma sample_mkdir_run: "fs_run 1 sample_mkdir"
proof -
  have "psync_fstask_mkdir sample_env 0 [97] 0 sample_start = (fst (psync_fstask_mkdir sample_env 0 [97] 0 sample_start), sample_mkdir)"
    by (simp add: sample_mkdir_def)
  from Step [OF sample_start_run Op [OF Mkdir [OF this]]] show ?thesis by (simp add: sample_env_def)
qed

lemma sample_mkdir_shown: "map mk_name (fl_mkdirs (view sample_mkdir 0)) = [[97]]"
  by code_simp

definition sample_inner :: fs_state where
  "sample_inner = snd (psync_fstask_mkdir sample_env (- 1) [98] 0 sample_mkdir)"

lemma sample_inner_run: "fs_run 2 sample_inner"
proof -
  have "psync_fstask_mkdir sample_env (- 1) [98] 0 sample_mkdir
      = (fst (psync_fstask_mkdir sample_env (- 1) [98] 0 sample_mkdir), sample_inner)"
    by (simp add: sample_inner_def)
  from Step [OF sample_mkdir_run Op [OF Mkdir [OF this]]] have "fs_run (Suc 1) sample_inner" by (simp add: sample_env_def)
  then show ?thesis by (simp only: Suc_1)
qed

lemma sample_inner_shown:
  "map_option mk_folderid (psync_fstask_find_mkdir [97] 0 (view sample_inner 0)) = Some (- 1)"
  "has_local_entries (get_folder (- 1) sample_inner)" "entries (view sample_inner 0) = 1" "fl_mkdirs (view sample_inner 0) \<noteq> []"
  by code_simp+

section \<open>Properties\<close>

text \<open>
  C28. What the drive shows of the pending changes is what it shows after the client is stopped and started
  again: the records that the operations leave in memory are those that \<^verbatim>\<open>psync_fstask_init\<close> loads from the
  table. This is for the changes that folders and files are made and removed, whatever the results, but for
  the two that \<open>fs_op\<close> leaves out: the removal of a pending folder that is not empty or is not committed, and
  the removal of a pending file that is not committed; renamed and modified files are not among the changes.
  The bound keeps the number of records below the range of the task counters.
\<close>

theorem fstask_survives_restart: "fs_run n s \<Longrightarrow> 2 * n + 2 < 2 ^ 32 \<Longrightarrow> view (restart e s) = view s"
proof -
  assume r: "fs_run n s" "2 * n + 2 < 2 ^ 32"
  then have i: "in_log s" "length (fstasks (fs_db s)) \<le> n" using run_in_log by auto
  then have "2 * length (fstasks (fs_db s)) < 2 ^ 32" using r(2) by linarith
  then show ?thesis using view_restart [of s e] i(1) by (simp add: in_log_def)
qed

theorem fstask_survives_restart_witness:
  "view (restart sample_env sample_mkdir) = view sample_mkdir \<and> map mk_name (fl_mkdirs (view sample_mkdir 0)) = [[97]]"
  using fstask_survives_restart [OF sample_mkdir_run, of sample_env] sample_mkdir_shown by simp

text \<open>
  C36. The task counter of a folder is the number of its pending changes, so that a record is freed by
  \<^verbatim>\<open>psync_fstask_release_folder_tasks_locked\<close> only when it is empty. The operations are those of \<open>fs_op\<close>: the
  removal of a pending folder that is not empty is not among them, and breaks it (next property).
\<close>

theorem fstask_counters:
  "fs_run n s \<Longrightarrow> 2 * n + 2 < 2 ^ 32 \<Longrightarrow> unat (fl_taskscnt (fld i s)) = entries (fld i s) \<and> fl_refcnt (fld i s) = 0"
proof -
  assume r: "fs_run n s" "2 * n + 2 < 2 ^ 32"
  then have "counted (view s i)" "refs s i = 0" using run_roomy by (auto simp: roomy_def)
  moreover have "entries (view s i) = entries (fld i s)" by (simp add: view_def entries_def)
  ultimately show ?thesis
    by (auto simp: counted_def view_def refs_def unat_of_nat)
qed

theorem fstask_counters_witness: "unat (fl_taskscnt (fld 0 sample_mkdir)) = 1 \<and> entries (fld 0 sample_mkdir) = 1"
proof -
  have "entries (fld 0 sample_mkdir) = 1" by code_simp
  then show ?thesis using fstask_counters [OF sample_mkdir_run, of 0] by simp
qed

text \<open>
  C37. Removing a pending folder \<open>n\<close> of folder \<open>i\<close> that has pending entries is refused with \<^verbatim>\<open>ENOTEMPTY\<close>,
  but the task counter of \<open>i\<close> has gone down and stays one below its entries. When \<open>n\<close> is the only
  pending change of \<open>i\<close>, the record of \<open>i\<close> is freed, and \<open>n\<close> is no longer there, until the next start of
  the client loads it again from the table.
\<close>

theorem rmdir_nonempty_miscounts:
  assumes run: "fs_run k s" "2 * k + 2 < 2 ^ 32" and mk: "psync_fstask_find_mkdir n 0 (view s i) = Some m"
    and full: "has_local_entries (get_folder (mk_folderid m) s)" and op: "psync_fstask_rmdir e i fl n s = (ret, t)"
  shows "ret = - ENOTEMPTY \<and> fs_db t = fs_db s
    \<and> view t = (view s)(i := if entries (view s i) = 1 then new_folder i
         else (view s i)\<lparr>fl_taskscnt := of_nat (entries (view s i) - 1)\<rparr>)
    \<and> view (restart e' t) = view s"
proof -
  have i: "in_log s" "length (fstasks (fs_db s)) \<le> k" using run run_in_log by auto
  then have "2 * length (fstasks (fs_db s)) < 2 ^ 32" using run(2) by linarith
  moreover note r = rmdir_nonempty_folder [OF run_roomy [OF run] mk full op]
  ultimately have "view (restart e' t) = view s"
    using view_restart [of t e'] i(1) by (simp add: in_log_def)
  moreover have c: "fl_taskscnt (fld i s) = of_nat (entries (view s i))" "entries (view s i) < 2 ^ 32"
    using roomyD(1) [OF run_roomy [OF run], of i] by (simp_all add: counted_def view_def)
  have one: "fl_taskscnt (fld i s) = 1 \<longleftrightarrow> entries (view s i) = 1"
    using c by (simp add: word_unat_eq_iff unat_of_nat)
  have e: "0 < entries (view s i)" using find_member(1) [OF mk] by (auto simp: entries_def)
  have "view t k = ((view s)(i := if entries (view s i) = 1 then new_folder i
         else (view s i)\<lparr>fl_taskscnt := of_nat (entries (view s i) - 1)\<rparr>)) k" for k
    using r(3) [of k] one e c(1) by (auto simp: view_def fld_def new_folder_def of_nat_diff)
  ultimately show ?thesis using r(1,2) by auto
qed

theorem rmdir_nonempty_miscounts_witness:
  "\<exists>t. psync_fstask_rmdir sample_env 0 0 [97] sample_inner = (- ENOTEMPTY, t)
     \<and> fl_mkdirs (view sample_inner 0) \<noteq> [] \<and> view t 0 = new_folder 0 \<and> view (restart sample_env t) = view sample_inner"
proof -
  obtain ret t where op: "psync_fstask_rmdir sample_env 0 0 [97] sample_inner = (ret, t)" by fastforce
  obtain m where m: "psync_fstask_find_mkdir [97] 0 (view sample_inner 0) = Some m" "mk_folderid m = - 1"
    using sample_inner_shown(1) by (auto simp: map_option_eq_Some)
  show ?thesis
    using rmdir_nonempty_miscounts [OF sample_inner_run _ m(1) _ op, of sample_env] sample_inner_shown(2-) m(2) op by simp
qed

end
