(* ===== verification/FsPaths.thy ===== *)
theory FsPaths
  imports FsTasksLog
begin

unbundle bit_operations_syntax

text \<open>
  The paths of the mounted drive, \<^verbatim>\<open>pfsfolder.c\<close>: the walk along the components of a path through the pending
  changes and the table of folders, in the three forms the drive uses. The walks are compared with the
  resolution of a list of names, and the walk to the parent of an entry with the walk to a folder.

  Given by other code, in \<open>path_env\<close>: the encryption of names in an encrypted folder and its inverse (an
  encoder or an error code), the user's id, the shares, the prefix of the files that make the file manager
  refresh, whether there is no login yet, and whether the crypto subscription is expired.
\<close>

section \<open>The walks\<close>

record path_env =
  pe_encoder :: "int \<Rightarrow> (fname \<Rightarrow> fname) + int"
  pe_userid :: nat
  pe_share :: "nat \<Rightarrow> int \<Rightarrow> u32 option"
  pe_prefix :: fname
  pe_decoder :: "int \<Rightarrow> (fname \<Rightarrow> fname option) + int"
  pe_waiting :: bool
  pe_expired :: bool

record fspath =
  fp_folderid :: int
  fp_name :: fname
  fp_shareid :: u32
  fp_permissions :: "16 word"
  fp_flags :: "16 word"

definition PSYNC_PERM_READ :: u32 where "PSYNC_PERM_READ = 1"
definition PSYNC_PERM_CREATE :: u32 where "PSYNC_PERM_CREATE = 2"
definition PSYNC_PERM_MODIFY :: u32 where "PSYNC_PERM_MODIFY = 4"
definition PSYNC_PERM_DELETE :: u32 where "PSYNC_PERM_DELETE = 8"
definition PSYNC_PERM_ALL :: u32 where
  "PSYNC_PERM_ALL = PSYNC_PERM_READ OR PSYNC_PERM_CREATE OR PSYNC_PERM_MODIFY OR PSYNC_PERM_DELETE"

definition slash :: u8 where "slash = 47"

text \<open>The results carry the thread's \<^verbatim>\<open>cryptoerr\<close>, 0 when there was no error.\<close>

definition get_encname_for_folder :: "path_env \<Rightarrow> int \<Rightarrow> fname \<Rightarrow> fname + int" where
  "get_encname_for_folder pe folderid name =
     (case pe_encoder pe folderid of Inr err \<Rightarrow> Inr err | Inl enc \<Rightarrow> Inl (enc name))"

definition ret_folder_data :: "path_env \<Rightarrow> int \<Rightarrow> fname \<Rightarrow> u32 \<Rightarrow> u32 \<Rightarrow> u32 \<Rightarrow> fspath option \<times> int" where
  "ret_folder_data pe folderid name permissions flags shareid =
     (let fp = \<lparr>fp_folderid = folderid, fp_name = name, fp_shareid = shareid, fp_permissions = ucast permissions,
            fp_flags = ucast flags\<rparr> in
      if flags AND PSYNC_FOLDER_FLAG_ENCRYPTED \<noteq> 0 \<and> take (length (pe_prefix pe)) name \<noteq> pe_prefix pe
      then (case pe_encoder pe folderid of Inr err \<Rightarrow> (None, err) | Inl enc \<Rightarrow> (Some (fp\<lparr>fp_name := enc name\<rparr>), 0))
      else (Some fp, 0))"

definition check_userid :: "path_env \<Rightarrow> nat \<Rightarrow> int \<Rightarrow> u32 \<Rightarrow> u32" where
  "check_userid pe userid folderid shareid =
     (if userid = pe_userid pe \<or> shareid \<noteq> 0 then shareid
      else case pe_share pe userid folderid of Some i \<Rightarrow> i | None \<Rightarrow> shareid)"

text \<open>
  One folder on the way, with its name as it is stored: its id, permissions, flags and share. In a folder
  that has a record of pending changes the permissions are combined with those so far, in others they
  replace them.
\<close>

definition resolve_step :: "path_env \<Rightarrow> fs_state \<Rightarrow> int \<Rightarrow> fname \<Rightarrow> u32 \<Rightarrow> u32 \<Rightarrow> (int \<times> u32 \<times> u32 \<times> u32) option" where
  "resolve_step pe s cfolderid name permissions shareid =
     (let row = db_folder cfolderid name (fs_db s) in
      case get_folder cfolderid s of
        Some folder \<Rightarrow>
          (case psync_fstask_find_mkdir name 0 folder of
             Some mk \<Rightarrow> if mk_flags mk AND PSYNC_FOLDER_FLAG_INVISIBLE \<noteq> 0 then None
               else Some (mk_folderid mk, permissions, mk_flags mk, shareid)
           | None \<Rightarrow>
             (case row of
                Some r \<Rightarrow> if psync_fstask_find_rmdir name 0 folder = None
                  then Some (fo_id r, permissions AND fo_permissions r, fo_flags r, check_userid pe (fo_userid r) (fo_id r) shareid)
                  else None
              | None \<Rightarrow> None))
      | None \<Rightarrow>
          (case row of
             Some r \<Rightarrow> Some (fo_id r, fo_permissions r, fo_flags r, check_userid pe (fo_userid r) (fo_id r) shareid)
           | None \<Rightarrow> None))"

definition stored_name :: "path_env \<Rightarrow> u32 \<Rightarrow> int \<Rightarrow> fname \<Rightarrow> fname + int" where
  "stored_name pe flags cfolderid name =
     (if flags AND PSYNC_FOLDER_FLAG_ENCRYPTED \<noteq> 0 then get_encname_for_folder pe cfolderid name else Inl name)"

lemma shorter_path: "length (dropWhile ((\<noteq>) slash) (dropWhile ((=) slash) path)) < length path"
  if "dropWhile ((=) slash) path \<noteq> []"
proof -
  let ?p = "dropWhile ((=) slash) path"
  have "hd ?p \<noteq> slash" using hd_dropWhile [OF that] by auto
  then have "length (dropWhile ((\<noteq>) slash) ?p) < length ?p"
    using that by (cases ?p) (auto intro: le_imp_less_Suc length_dropWhile_le)
  then show ?thesis using length_dropWhile_le [of "(=) slash" path] by linarith
qed

function resolve_loop :: "path_env \<Rightarrow> fs_state \<Rightarrow> u8 list \<Rightarrow> int \<Rightarrow> u32 \<Rightarrow> u32 \<Rightarrow> u32 \<Rightarrow> fspath option \<times> int" where
  "resolve_loop pe s path cfolderid permissions flags shareid =
     (let path = dropWhile ((=) slash) path in
      if path = [] then (None, 0)
      else if slash \<notin> set path then ret_folder_data pe cfolderid path permissions flags shareid
      else case stored_name pe flags cfolderid (takeWhile ((\<noteq>) slash) path) of
             Inr err \<Rightarrow> (None, err)
           | Inl ename \<Rightarrow>
             (case resolve_step pe s cfolderid ename permissions shareid of
                None \<Rightarrow> (None, 0)
              | Some (cfolderid, permissions, flags, shareid) \<Rightarrow>
                  resolve_loop pe s (dropWhile ((\<noteq>) slash) path) cfolderid permissions flags shareid))"
  by pat_completeness auto
termination by (relation "measure (\<lambda>(pe, s, path, c, p, f, sh). length path)") (auto simp: shorter_path)

declare resolve_loop.simps [simp del]

definition psync_fsfolder_resolve_path :: "path_env \<Rightarrow> u8 list \<Rightarrow> fs_state \<Rightarrow> fspath option \<times> int" where
  "psync_fsfolder_resolve_path pe path s =
     (if path = [] \<or> hd path \<noteq> slash then (None, 0) else resolve_loop pe s path 0 PSYNC_PERM_ALL 0 0)"

text \<open>The walks to a folder do not look at the flag of invisible folders.\<close>

definition by_path_step :: "fs_state \<Rightarrow> int \<Rightarrow> fname \<Rightarrow> u32 \<Rightarrow> (int \<times> u32 \<times> u32) option" where
  "by_path_step s cfolderid name permissions =
     (let row = db_folder cfolderid name (fs_db s) in
      case get_folder cfolderid s of
        Some folder \<Rightarrow>
          (case psync_fstask_find_mkdir name 0 folder of
             Some mk \<Rightarrow> Some (mk_folderid mk, permissions, mk_flags mk)
           | None \<Rightarrow>
             (case row of
                Some r \<Rightarrow> if psync_fstask_find_rmdir name 0 folder = None
                  then Some (fo_id r, fo_permissions r, fo_flags r) else None
              | None \<Rightarrow> None))
      | None \<Rightarrow> (case row of Some r \<Rightarrow> Some (fo_id r, fo_permissions r, fo_flags r) | None \<Rightarrow> None))"

function by_path_loop :: "path_env \<Rightarrow> fs_state \<Rightarrow> u8 list \<Rightarrow> int \<Rightarrow> u32 \<Rightarrow> u32 \<Rightarrow> (int \<times> u32) option \<times> u32 \<times> int" where
  "by_path_loop pe s path cfolderid permissions flags =
     (let path = dropWhile ((=) slash) path in
      if path = [] then (Some (cfolderid, flags), permissions, 0)
      else case stored_name pe flags cfolderid (takeWhile ((\<noteq>) slash) path) of
             Inr err \<Rightarrow> (None, permissions, err)
           | Inl ename \<Rightarrow>
             (case by_path_step s cfolderid ename permissions of
                None \<Rightarrow> (None, permissions, 0)
              | Some (cfolderid, permissions, flags) \<Rightarrow>
                  by_path_loop pe s (dropWhile ((\<noteq>) slash) path) cfolderid permissions flags))"
  by pat_completeness auto
termination by (relation "measure (\<lambda>(pe, s, path, c, p, f). length path)") (auto simp: shorter_path)

declare by_path_loop.simps [simp del]

text \<open>
  Both functions have the same loop; the second returns the permissions through a pointer. The invalid
  folder id is \<open>None\<close>.
\<close>

definition psync_fsfolderidperm_by_path :: "path_env \<Rightarrow> u8 list \<Rightarrow> fs_state \<Rightarrow> (int \<times> u32) option \<times> u32 \<times> int" where
  "psync_fsfolderidperm_by_path pe path s =
     (if path = [] \<or> hd path \<noteq> slash then (None, 0, 0) else by_path_loop pe s path 0 0 0)"

definition psync_fsfolderid_by_path :: "path_env \<Rightarrow> u8 list \<Rightarrow> fs_state \<Rightarrow> (int \<times> u32) option \<times> int" where
  "psync_fsfolderid_by_path pe path s =
     (if path = [] \<or> hd path \<noteq> slash then (None, 0)
      else case by_path_loop pe s path 0 0 0 of (r, _, err) \<Rightarrow> (r, err))"

definition psync_fsfolderflags_by_id :: "int \<Rightarrow> fs_db \<Rightarrow> u32 \<times> u32" where
  "psync_fsfolderflags_by_id folderid db =
     (case find (\<lambda>r. fo_id r = folderid) (folder_tab db) of
        None \<Rightarrow> (0, 0)
      | Some r \<Rightarrow> (fo_flags r, fo_permissions r))"

definition psync_get_folderid :: "int \<Rightarrow> fname \<Rightarrow> fs_db \<Rightarrow> int" where
  "psync_get_folderid parent_fid name db = (case db_folder parent_fid name db of Some r \<Rightarrow> fo_id r | None \<Rightarrow> - 1)"

section \<open>The folder of a name\<close>

text \<open>What the drive shows under a name of a folder: the pending folder, or the one of the table unless it is removed.\<close>

definition subfolder :: "fs_state \<Rightarrow> int \<Rightarrow> fname \<Rightarrow> (int \<times> u32) option" where
  "subfolder s i n =
     (case psync_fstask_find_mkdir n 0 (view s i) of
        Some mk \<Rightarrow> Some (mk_folderid mk, mk_flags mk)
      | None \<Rightarrow>
        (if psync_fstask_find_rmdir n 0 (view s i) \<noteq> None then None
         else map_option (\<lambda>r. (fo_id r, fo_flags r)) (db_folder i n (fs_db s))))"

definition hidden :: "fs_state \<Rightarrow> int \<Rightarrow> fname \<Rightarrow> bool" where
  "hidden s i n \<longleftrightarrow> (case psync_fstask_find_mkdir n 0 (view s i) of
     Some mk \<Rightarrow> mk_flags mk AND PSYNC_FOLDER_FLAG_INVISIBLE \<noteq> 0 | None \<Rightarrow> False)"

lemma find_refcnt [simp]:
  "psync_fstask_find_mkdir n t (f\<lparr>fl_refcnt := c\<rparr>) = psync_fstask_find_mkdir n t f"
  "psync_fstask_find_rmdir n t (f\<lparr>fl_refcnt := c\<rparr>) = psync_fstask_find_rmdir n t f"
  "psync_fstask_find_creat n t (f\<lparr>fl_refcnt := c\<rparr>) = psync_fstask_find_creat n t f"
  "psync_fstask_find_unlink n t (f\<lparr>fl_refcnt := c\<rparr>) = psync_fstask_find_unlink n t f"
  by (simp_all add: psync_fstask_find_mkdir_def psync_fstask_find_rmdir_def psync_fstask_find_creat_def
      psync_fstask_find_unlink_def)

lemma by_path_step_subfolder: "map_option (\<lambda>(c, p, f). (c, f)) (by_path_step s i n p) = subfolder s i n"
  by (cases "get_folder i s")
    (auto simp: by_path_step_def subfolder_def view_found view_none split: option.split)

lemma resolve_step_subfolder:
  "map_option (\<lambda>(c, p, f, sh). (c, f)) (resolve_step pe s i n p sh) = (if hidden s i n then None else subfolder s i n)"
  by (cases "get_folder i s")
    (auto simp: resolve_step_def subfolder_def hidden_def view_found view_none split: option.split)

section \<open>Lists of names\<close>

text \<open>The names of a path; repeated slashes are one.\<close>

function names :: "u8 list \<Rightarrow> fname list" where
  "names path = (let path = dropWhile ((=) slash) path in
     if path = [] then [] else takeWhile ((\<noteq>) slash) path # names (dropWhile ((\<noteq>) slash) path))"
  by pat_completeness auto
termination by (relation "measure length") (auto simp: shorter_path)

declare names.simps [simp del]

text \<open>The folder that a list of names leads to, from a folder with its flags.\<close>

fun walk_names :: "path_env \<Rightarrow> fs_state \<Rightarrow> fname list \<Rightarrow> int \<times> u32 \<Rightarrow> (int \<times> u32) option \<times> int" where
  "walk_names pe s [] cf = (Some cf, 0)"
| "walk_names pe s (n # ns) (c, flags) =
     (case stored_name pe flags c n of
        Inr err \<Rightarrow> (None, err)
      | Inl en \<Rightarrow> (case subfolder s c en of None \<Rightarrow> (None, 0) | Some cf \<Rightarrow> walk_names pe s ns cf))"

text \<open>No folder on the way is a hidden one.\<close>

fun no_hidden :: "path_env \<Rightarrow> fs_state \<Rightarrow> fname list \<Rightarrow> int \<times> u32 \<Rightarrow> bool" where
  "no_hidden pe s [] cf = True"
| "no_hidden pe s (n # ns) (c, flags) =
     (case stored_name pe flags c n of
        Inr err \<Rightarrow> True
      | Inl en \<Rightarrow> \<not> hidden s c en \<and> (case subfolder s c en of None \<Rightarrow> True | Some cf \<Rightarrow> no_hidden pe s ns cf))"

lemma by_path_loop_names:
  "(case by_path_loop pe s path c p f of (r, q, err) \<Rightarrow> (r, err)) = walk_names pe s (names path) (c, f)"
proof (induction path arbitrary: c p f rule: names.induct)
  case (1 path)
  let ?p = "dropWhile ((=) slash) path"
  show ?case
  proof (cases "?p = []")
    case True
    then show ?thesis by (simp add: by_path_loop.simps names.simps)
  next
    case False
    let ?n = "takeWhile ((\<noteq>) slash) ?p" and ?r = "dropWhile ((\<noteq>) slash) ?p"
    have n: "names path = ?n # names ?r" using False by (subst names.simps) (simp add: Let_def)
    show ?thesis
    proof (cases "stored_name pe f c ?n")
      case (Inr err)
      then show ?thesis using False by (simp add: n by_path_loop.simps [of pe s path] Let_def)
    next
      case (Inl en)
      show ?thesis
      proof (cases "by_path_step s c en p")
        case None
        then have "subfolder s c en = None" using by_path_step_subfolder [of s c en p] by simp
        then show ?thesis using False Inl None by (simp add: n by_path_loop.simps [of pe s path] Let_def)
      next
        case (Some x)
        obtain c' p' f' where x: "x = (c', p', f')" by (cases x)
        then have "subfolder s c en = Some (c', f')" using by_path_step_subfolder [of s c en p] Some by simp
        then show ?thesis using False Inl Some "1.IH" [OF refl False, of c' p' f']
          by (auto simp: n x by_path_loop.simps [of pe s path] Let_def)
      qed
    qed
  qed
qed

lemma takeWhile_all: "slash \<notin> set n \<Longrightarrow> takeWhile ((\<noteq>) slash) n = n" "slash \<notin> set n \<Longrightarrow> dropWhile ((\<noteq>) slash) n = []"
  by auto

lemma dropWhile_hd: "n \<noteq> [] \<Longrightarrow> hd n \<noteq> slash \<Longrightarrow> dropWhile ((=) slash) n = n"
  by (cases n) auto

lemma names_one: "slash \<notin> set n \<Longrightarrow> n \<noteq> [] \<Longrightarrow> names n = [n]"
proof -
  assume n: "slash \<notin> set n" "n \<noteq> []"
  then have "dropWhile ((=) slash) n = n" using dropWhile_hd [of n] by (metis hd_in_set)
  then show ?thesis using n by (subst names.simps) (auto simp: takeWhile_all names.simps [of "[]"])
qed

lemma names_slash: "names (slash # q) = names q"
  by (subst (1 2) names.simps) simp

lemma names_append: "names (p @ slash # q) = names p @ names q"
proof (induction p rule: names.induct)
  case (1 p)
  let ?p = "dropWhile ((=) slash) p"
  show ?case
  proof (cases "?p = []")
    case True
    then have "dropWhile ((=) slash) (p @ slash # q) = dropWhile ((=) slash) (slash # q)" by (induction p) auto
    then have "names (p @ slash # q) = names (slash # q)" by (subst (1 2) names.simps) simp
    then show ?thesis using True by (subst (2) names.simps) (simp add: names_slash)
  next
    case False
    then have d: "dropWhile ((=) slash) (p @ slash # q) = ?p @ slash # q" by (induction p) auto
    have t: "takeWhile ((\<noteq>) slash) (xs @ slash # q) = takeWhile ((\<noteq>) slash) xs"
      "dropWhile ((\<noteq>) slash) (xs @ slash # q) = dropWhile ((\<noteq>) slash) xs @ slash # q" for xs
      by (induction xs) auto
    have "names (p @ slash # q) = takeWhile ((\<noteq>) slash) ?p # names (dropWhile ((\<noteq>) slash) ?p @ slash # q)"
      by (subst names.simps) (simp add: Let_def d t)
    also have "\<dots> = takeWhile ((\<noteq>) slash) ?p # names (dropWhile ((\<noteq>) slash) ?p) @ names q"
      using "1.IH" [OF refl False] by simp
    also have "\<dots> = names p @ names q" using False by (subst (2) names.simps) (simp add: Let_def)
    finally show ?thesis .
  qed
qed

text \<open>The walk to the parent of the last name.\<close>

lemma resolve_loop_names:
  assumes "slash \<notin> set n" "n \<noteq> []"
  shows "no_hidden pe s (names d) (c, f) \<Longrightarrow> \<exists>q sh'. resolve_loop pe s (d @ slash # n) c p f sh =
     (case walk_names pe s (names d) (c, f) of (None, err) \<Rightarrow> (None, err)
      | (Some (i, fl), _) \<Rightarrow> ret_folder_data pe i n q fl sh')"
proof (induction d arbitrary: c p f sh rule: names.induct)
  case (1 d)
  let ?d = "dropWhile ((=) slash) d"
  show ?case
  proof (cases "?d = []")
    case True
    have n: "dropWhile ((=) slash) n = n" using assms dropWhile_hd [of n] by (metis hd_in_set)
    then have "dropWhile ((=) slash) (d @ slash # n) = n" using True by (induction d) (auto split: if_splits)
    then have "resolve_loop pe s (d @ slash # n) c p f sh = ret_folder_data pe c n p f sh"
      using assms by (subst resolve_loop.simps) simp
    moreover have "names d = []" using True by (subst names.simps) simp
    ultimately show ?thesis by auto
  next
    case False
    then have d: "dropWhile ((=) slash) (d @ slash # n) = ?d @ slash # n" by (induction d) auto
    let ?m = "takeWhile ((\<noteq>) slash) ?d" and ?r = "dropWhile ((\<noteq>) slash) ?d"
    have t: "takeWhile ((\<noteq>) slash) (xs @ slash # n) = takeWhile ((\<noteq>) slash) xs"
      "dropWhile ((\<noteq>) slash) (xs @ slash # n) = dropWhile ((\<noteq>) slash) xs @ slash # n" for xs
      by (induction xs) auto
    have l: "resolve_loop pe s (d @ slash # n) c p f sh =
      (case stored_name pe f c ?m of Inr err \<Rightarrow> (None, err)
       | Inl en \<Rightarrow> (case resolve_step pe s c en p sh of None \<Rightarrow> (None, 0)
          | Some (c', p', f', sh') \<Rightarrow> resolve_loop pe s (?r @ slash # n) c' p' f' sh'))"
      by (subst resolve_loop.simps, unfold Let_def d t) simp
    have nm: "names d = ?m # names ?r" using False by (subst names.simps) (simp add: Let_def)
    show ?thesis
    proof (cases "stored_name pe f c ?m")
      case (Inr err)
      then show ?thesis by (simp add: l nm)
    next
      case (Inl en)
      then have h: "\<not> hidden s c en" using "1.prems" by (simp add: nm)
      show ?thesis
      proof (cases "resolve_step pe s c en p sh")
        case None
        then have "subfolder s c en = None" using resolve_step_subfolder [of pe s c en p sh] h by simp
        then show ?thesis using Inl None by (simp add: l nm)
      next
        case (Some x)
        obtain c' p' f' sh' where x: "x = (c', p', f', sh')" by (cases x)
        then have v: "subfolder s c en = Some (c', f')" using resolve_step_subfolder [of pe s c en p sh] Some h by simp
        then have "no_hidden pe s (names ?r) (c', f')" using "1.prems" Inl by (simp add: nm)
        from "1.IH" [OF refl False this, of p' sh'] show ?thesis using Inl Some v by (simp add: l nm x)
      qed
    qed
  qed
qed

section \<open>Properties\<close>

text \<open>
  The walk to a folder follows the names of the path: each is looked up in the folder before it, as it is
  stored there, and the walk ends at the folder of the last name, or without one at the first name that
  is not there.
\<close>

theorem psync_fsfolderid_by_path_walks:
  "psync_fsfolderid_by_path pe (slash # path) s = walk_names pe s (names path) (0, 0)"
  using by_path_loop_names [of pe s "slash # path" 0 0 0]
  by (simp add: psync_fsfolderid_by_path_def names_slash)

text \<open>
  The walk to the parent of an entry and the walk to a folder agree: the path of an entry leads to the
  folder that the path before its name leads to, with the name as it is stored there.
\<close>

theorem psync_fsfolder_resolve_path_parent:
  assumes "slash \<notin> set n" "n \<noteq> []" "no_hidden pe s (names dir) (0, 0)"
  shows "\<exists>q sh. psync_fsfolder_resolve_path pe (slash # dir @ slash # n) s =
     (case psync_fsfolderid_by_path pe (slash # dir) s of (None, err) \<Rightarrow> (None, err)
      | (Some (i, fl), _) \<Rightarrow> ret_folder_data pe i n q fl sh)"
  using resolve_loop_names [OF assms(1,2), of pe s "slash # dir" 0 0] assms(3)
    by_path_loop_names [of pe s "slash # dir" 0 0 0]
  by (simp add: psync_fsfolder_resolve_path_def psync_fsfolderid_by_path_def names_slash)

definition sample_paths :: path_env where
  "sample_paths = \<lparr>pe_encoder = (\<lambda>i. Inr (- 1)), pe_userid = 1, pe_share = (\<lambda>u i. None), pe_prefix = [46],
     pe_decoder = (\<lambda>i. Inr (- 1)), pe_waiting = False, pe_expired = False\<rparr>"

lemma sample_paths_names: "names [97] = [[97]]"
  by (rule names_one) (simp_all add: slash_def)

lemma sample_paths_shown:
  "subfolder sample_mkdir 0 [97] = Some (- 1, 0)" "hidden sample_mkdir 0 [97] = False"
  by code_simp+

theorem psync_fsfolder_resolve_path_parent_witness:
  "\<exists>q sh. psync_fsfolder_resolve_path sample_paths (slash # [97] @ slash # [98]) sample_mkdir
     = ret_folder_data sample_paths (- 1) [98] q 0 sh"
  using psync_fsfolder_resolve_path_parent [of "[98]" sample_paths sample_mkdir "[97]"]
    by_path_loop_names [of sample_paths sample_mkdir "slash # [97]" 0 0 0]
  by (simp add: psync_fsfolderid_by_path_def names_slash sample_paths_names sample_paths_shown stored_name_def)
    (simp add: slash_def)

end
