(* ===== verification/CryptoLayout.thy ===== *)
theory CryptoLayout
  imports Prelude
begin

text \<open>
  Where the sectors of an encrypted file are, the first part of \<^verbatim>\<open>pfscrypto.c\<close>: after every 128 sectors of data
  comes a sector with their 128 authentication records, after every 128 of those a sector with their
  records, and so on; the incomplete last sectors of all levels and a record for the whole file are at the
  end. The functions compute offsets with words of the width the code has. They are proved to tile the
  file, and the layout that is computed from the size of an encrypted file is the one that was computed
  from the size of its contents.
\<close>

section \<open>Sizes and offsets\<close>

definition PSYNC_CRYPTO_SECTOR_SIZE :: nat where "PSYNC_CRYPTO_SECTOR_SIZE = 4096"
definition PSYNC_CRYPTO_AUTH_SIZE :: nat where "PSYNC_CRYPTO_AUTH_SIZE = 32"
definition PSYNC_CRYPTO_HASH_TREE_SECTORS :: nat where
  "PSYNC_CRYPTO_HASH_TREE_SECTORS = PSYNC_CRYPTO_SECTOR_SIZE div PSYNC_CRYPTO_AUTH_SIZE"
definition PSYNC_CRYPTO_MAX_HASH_TREE_LEVEL :: nat where "PSYNC_CRYPTO_MAX_HASH_TREE_LEVEL = 6"

lemmas layout_sizes = PSYNC_CRYPTO_SECTOR_SIZE_def PSYNC_CRYPTO_AUTH_SIZE_def
  PSYNC_CRYPTO_HASH_TREE_SECTORS_def PSYNC_CRYPTO_MAX_HASH_TREE_LEVEL_def

definition max_level_size :: "u64 list" where
  "max_level_size = [0x1000, 0x81000, 0x4081000, 0x204081000, 0x10204081000, 0x810204081000, 0x40810204081000]"

text \<open>The arrays of the record have six elements.\<close>

record psync_crypto_offsets =
  masterauthoff :: u64
  plainsize :: u64
  lastauthsectoroff :: "u64 list"
  lastauthsectorlen :: "u16 list"
  treelevels :: u8
  needmasterauth :: u8

definition no_offsets :: psync_crypto_offsets where
  "no_offsets = \<lparr>masterauthoff = 0, plainsize = 0, lastauthsectoroff = replicate 6 0, lastauthsectorlen = replicate 6 0,
     treelevels = 0, needmasterauth = 0\<rparr>"

lemma div128_less [termination_simp]: "\<not> (s :: u32) < 128 \<Longrightarrow> unat (s div 128) < unat s"
  by (simp add: unat_div word_less_nat_alt)

function data_sectorid_loop :: "u32 \<Rightarrow> u32 \<Rightarrow> u32" where
  "data_sectorid_loop sectorid sect = (if sectorid < of_nat PSYNC_CRYPTO_HASH_TREE_SECTORS then sect
     else let sectorid = sectorid div of_nat PSYNC_CRYPTO_HASH_TREE_SECTORS in data_sectorid_loop sectorid (sect + sectorid))"
  by pat_completeness auto
termination by (relation "measure (\<lambda>(s, _). unat s)") (auto simp: layout_sizes div128_less)

definition psync_fs_crypto_data_sectorid_by_sectorid :: "u32 \<Rightarrow> u32" where
  "psync_fs_crypto_data_sectorid_by_sectorid sectorid = data_sectorid_loop sectorid sectorid"

function data_offset_loop :: "u32 \<Rightarrow> u64 \<Rightarrow> u64" where
  "data_offset_loop sectorid off = (if sectorid < of_nat PSYNC_CRYPTO_HASH_TREE_SECTORS then off
     else let sectorid = sectorid div of_nat PSYNC_CRYPTO_HASH_TREE_SECTORS
       in data_offset_loop sectorid (off + ucast sectorid * of_nat PSYNC_CRYPTO_SECTOR_SIZE))"
  by pat_completeness auto
termination by (relation "measure (\<lambda>(s, _). unat s)") (auto simp: layout_sizes div128_less)

definition psync_fs_crypto_data_offset_by_sectorid :: "u32 \<Rightarrow> u64" where
  "psync_fs_crypto_data_offset_by_sectorid sectorid =
     data_offset_loop sectorid (ucast sectorid * of_nat PSYNC_CRYPTO_SECTOR_SIZE)"

text \<open>The products with the sector size have 32 bits here.\<close>

function auth_offset_loop :: "u32 \<Rightarrow> u64 \<Rightarrow> u64" where
  "auth_offset_loop sid ret = (if sid < of_nat PSYNC_CRYPTO_HASH_TREE_SECTORS then ret
     else let sid = sid div of_nat PSYNC_CRYPTO_HASH_TREE_SECTORS
       in auth_offset_loop sid (ret + ucast (sid * of_nat PSYNC_CRYPTO_SECTOR_SIZE)))"
  by pat_completeness auto
termination by (relation "measure (\<lambda>(s, _). unat s)") (auto simp: layout_sizes div128_less)

definition psync_fs_crypto_auth_offset :: "nat \<Rightarrow> u32 \<Rightarrow> u64" where
  "psync_fs_crypto_auth_offset level sid =
     auth_offset_loop sid (max_level_size ! (level + 1) * ucast (sid + 1) - of_nat PSYNC_CRYPTO_SECTOR_SIZE)"

declare data_sectorid_loop.simps [simp del] data_offset_loop.simps [simp del] auth_offset_loop.simps [simp del]

text \<open>A store into the arrays; none behind their end.\<close>

definition put_last :: "nat \<Rightarrow> u64 \<Rightarrow> u16 \<Rightarrow> psync_crypto_offsets \<Rightarrow> psync_crypto_offsets option" where
  "put_last level off len o' = (if level < length (lastauthsectoroff o') \<and> level < length (lastauthsectorlen o')
     then Some (o'\<lparr>lastauthsectoroff := (lastauthsectoroff o')[level := off],
                   lastauthsectorlen := (lastauthsectorlen o')[level := len]\<rparr>) else None)"

lemma shrink_less [termination_simp]: "1 < (127 + n :: u64) div 128 \<Longrightarrow> unat ((127 + n) div 128) < unat n"
proof -
  assume a: "1 < (127 + n) div 128"
  have d: "unat ((127 + n) div 128) = unat (127 + n) div 128" by (simp add: unat_div)
  moreover have "unat (127 + n) \<le> unat n + 127" by (simp add: unat_word_ariths)
  moreover have "1 < unat ((127 + n) div 128)" using a by (simp add: word_less_nat_alt)
  ultimately show ?thesis by linarith
qed

text \<open>
  The loop over the levels, from the size in sectors; the size is tested after the body. Sums of a size and a
  constant less than the divisor do not wrap for the sizes of files, see below.
\<close>

function plain_levels :: "u64 \<Rightarrow> u64 \<Rightarrow> nat \<Rightarrow> psync_crypto_offsets \<Rightarrow> (u64 \<times> nat \<times> psync_crypto_offsets) option" where
  "plain_levels fsize off level o' =
     (let sz = fsize mod of_nat PSYNC_CRYPTO_HASH_TREE_SECTORS;
          fsize' = (fsize + of_nat PSYNC_CRYPTO_HASH_TREE_SECTORS - 1) div of_nat PSYNC_CRYPTO_HASH_TREE_SECTORS;
          sz = (if sz = 0 then of_nat PSYNC_CRYPTO_HASH_TREE_SECTORS else sz) * of_nat PSYNC_CRYPTO_AUTH_SIZE
      in case put_last level off (ucast sz) o' of
           None \<Rightarrow> None
         | Some o' \<Rightarrow> if 1 < fsize' then plain_levels fsize' (off + sz) (level + 1) o' else Some (off + sz, level + 1, o'))"
  by pat_completeness auto
termination by (relation "measure (\<lambda>(fsize, _). unat fsize)") (auto simp: layout_sizes shrink_less)

declare plain_levels.simps [simp del]

definition psync_fs_crypto_offsets_by_plainsize :: "u64 \<Rightarrow> psync_crypto_offsets option" where
  "psync_fs_crypto_offsets_by_plainsize fsize =
     (let o' = no_offsets\<lparr>plainsize := fsize, needmasterauth := if of_nat PSYNC_CRYPTO_SECTOR_SIZE < fsize then 1 else 0\<rparr> in
      if fsize = 0 then Some o'
      else
        (let sid = (ucast (fsize div of_nat PSYNC_CRYPTO_SECTOR_SIZE) :: u32);
             ssize = (ucast (fsize mod of_nat PSYNC_CRYPTO_SECTOR_SIZE) :: u32);
             (sid, ssize) = (if ssize = 0 then (sid - 1, of_nat PSYNC_CRYPTO_SECTOR_SIZE) else (sid, ssize));
             off = psync_fs_crypto_data_offset_by_sectorid sid + ucast ssize;
             sectors = (fsize + of_nat PSYNC_CRYPTO_SECTOR_SIZE - 1) div of_nat PSYNC_CRYPTO_SECTOR_SIZE
         in case plain_levels sectors off 0 o' of
              None \<Rightarrow> None
            | Some (off, level, o') \<Rightarrow>
              (case put_last level off (of_nat PSYNC_CRYPTO_AUTH_SIZE) o' of
                 None \<Rightarrow> None
               | Some o' \<Rightarrow> Some (o'\<lparr>masterauthoff := off, treelevels := of_nat level\<rparr>))))"

text \<open>The first level from 1 whose trees have room for the size; 7 when none has.\<close>

definition find_level :: "u64 \<Rightarrow> nat" where
  "find_level fsize = (case find (\<lambda>l. fsize \<le> max_level_size ! l) [1..<PSYNC_CRYPTO_MAX_HASH_TREE_LEVEL + 1] of
     Some l \<Rightarrow> l | None \<Rightarrow> PSYNC_CRYPTO_MAX_HASH_TREE_LEVEL + 1)"

fun crypto_levels :: "nat \<Rightarrow> u64 \<Rightarrow> u64 \<Rightarrow> psync_crypto_offsets \<Rightarrow> (u64 \<times> psync_crypto_offsets) option" where
  "crypto_levels 0 fsize off o' = Some (fsize, o')"
| "crypto_levels (Suc level) fsize off o' =
     (let m = max_level_size ! level + of_nat PSYNC_CRYPTO_AUTH_SIZE;
          cnt = (fsize + m - 1) div m;
          fsize = fsize - cnt * of_nat PSYNC_CRYPTO_AUTH_SIZE;
          cnt = cnt mod of_nat PSYNC_CRYPTO_HASH_TREE_SECTORS;
          cnt = (if cnt = 0 then of_nat PSYNC_CRYPTO_HASH_TREE_SECTORS else cnt);
          off = off - cnt * of_nat PSYNC_CRYPTO_AUTH_SIZE
      in case put_last level off (ucast (cnt * of_nat PSYNC_CRYPTO_AUTH_SIZE)) o' of
           None \<Rightarrow> None
         | Some o' \<Rightarrow> crypto_levels level fsize off o')"

text \<open>\<open>None\<close> is the failed assertion, or a store behind the end of an array.\<close>

definition psync_fs_crypto_offsets_by_cryptosize :: "u64 \<Rightarrow> psync_crypto_offsets option" where
  "psync_fs_crypto_offsets_by_cryptosize fsize =
     (if fsize \<le> of_nat PSYNC_CRYPTO_AUTH_SIZE then Some no_offsets
      else
        (let need = of_nat PSYNC_CRYPTO_SECTOR_SIZE + of_nat PSYNC_CRYPTO_AUTH_SIZE < fsize;
             fsize = (if need then fsize - of_nat PSYNC_CRYPTO_AUTH_SIZE else fsize);
             level = find_level fsize
         in if PSYNC_CRYPTO_MAX_HASH_TREE_LEVEL < level then None
            else case put_last level fsize (of_nat PSYNC_CRYPTO_AUTH_SIZE)
                   (no_offsets\<lparr>needmasterauth := if need then 1 else 0, masterauthoff := fsize, treelevels := of_nat level\<rparr>) of
                   None \<Rightarrow> None
                 | Some o' \<Rightarrow> map_option (\<lambda>(sz, o'). o'\<lparr>plainsize := sz\<rparr>) (crypto_levels level fsize fsize o')))"

definition psync_fs_crypto_plain_size :: "u64 \<Rightarrow> u64 option" where
  "psync_fs_crypto_plain_size cryptosize = map_option plainsize (psync_fs_crypto_offsets_by_cryptosize cryptosize)"

definition psync_fs_crypto_crypto_size :: "u64 \<Rightarrow> u64 option" where
  "psync_fs_crypto_crypto_size psize = map_option
     (\<lambda>o'. masterauthoff o' + (if needmasterauth o' \<noteq> 0 then of_nat PSYNC_CRYPTO_AUTH_SIZE else 0))
     (psync_fs_crypto_offsets_by_plainsize psize)"

definition get_last_sectorid_by_size :: "u64 \<Rightarrow> u32" where
  "get_last_sectorid_by_size fsize = (if fsize = 0 then 0 else ucast ((fsize - 1) div of_nat PSYNC_CRYPTO_SECTOR_SIZE))"

fun auth_level_loop :: "nat \<Rightarrow> u32 \<Rightarrow> u32 \<Rightarrow> u32 \<Rightarrow> u32 \<times> u32 \<times> u32" where
  "auth_level_loop 0 sizesecd secd aid = (sizesecd, secd, aid)"
| "auth_level_loop (Suc k) sizesecd secd aid =
     auth_level_loop k (sizesecd div of_nat PSYNC_CRYPTO_HASH_TREE_SECTORS) (secd div of_nat PSYNC_CRYPTO_HASH_TREE_SECTORS)
       (secd mod of_nat PSYNC_CRYPTO_HASH_TREE_SECTORS)"

text \<open>The offset and size of the sector with a sector's record at a level, and the index of the record.\<close>

definition psync_fs_crypto_get_auth_sector_off :: "u32 \<Rightarrow> nat \<Rightarrow> psync_crypto_offsets \<Rightarrow> (u64 \<times> u32 \<times> u32) option" where
  "psync_fs_crypto_get_auth_sector_off sectorid level offsets =
     (let sizesecd = get_last_sectorid_by_size (plainsize offsets) div of_nat PSYNC_CRYPTO_HASH_TREE_SECTORS;
          secd = sectorid div of_nat PSYNC_CRYPTO_HASH_TREE_SECTORS;
          aid = sectorid mod of_nat PSYNC_CRYPTO_HASH_TREE_SECTORS;
          (sizesecd, secd, aid) = auth_level_loop level sizesecd secd aid
      in if secd = sizesecd then Some (lastauthsectoroff offsets ! level, ucast (lastauthsectorlen offsets ! level), aid)
         else if secd < sizesecd then Some (psync_fs_crypto_auth_offset level secd, of_nat PSYNC_CRYPTO_SECTOR_SIZE, aid)
         else None)"

section \<open>Words and numbers\<close>

named_theorems u64_of_nat \<open>operations on words that are numbers below the bound\<close>

lemma unat_u64 [u64_of_nat]: "a < 2 ^ 64 \<Longrightarrow> unat (of_nat a :: u64) = a"
  by (simp add: unat_of_nat)

lemma unat_u32 [u64_of_nat]: "a < 2 ^ 32 \<Longrightarrow> unat (of_nat a :: u32) = a"
  by (simp add: unat_of_nat)

lemma word_nat_unat_id: "of_nat (unat w) = w"
  by simp

lemma unat_u32_up: "unat (ucast (x :: u32) :: u64) = unat x"
  by transfer (simp add: take_bit_eq_mod)

lemma u64_div [u64_of_nat]:
  assumes "a < 2 ^ 64" "b < 2 ^ 64"
  shows "(of_nat a :: u64) div of_nat b = of_nat (a div b)" "(of_nat a :: u64) mod of_nat b = of_nat (a mod b)"
proof -
  have "a div b \<le> a" "a mod b \<le> a" by simp_all
  then have "a div b < 2 ^ 64" "a mod b < 2 ^ 64" using assms(1) by linarith+
  then show "(of_nat a :: u64) div of_nat b = of_nat (a div b)" "(of_nat a :: u64) mod of_nat b = of_nat (a mod b)"
    using assms by (simp_all add: word_unat_eq_iff unat_div unat_mod unat_u64)
qed

lemma u64_less [u64_of_nat]:
  assumes "a < 2 ^ 64" "b < 2 ^ 64"
  shows "(of_nat a :: u64) < of_nat b \<longleftrightarrow> a < b" "(of_nat a :: u64) \<le> of_nat b \<longleftrightarrow> a \<le> b" "(of_nat a :: u64) = of_nat b \<longleftrightarrow> a = b"
  using assms by (simp_all add: word_less_nat_alt word_le_nat_alt word_unat_eq_iff unat_u64)

lemma u64_diff [u64_of_nat]: "b \<le> a \<Longrightarrow> (of_nat a :: u64) - of_nat b = of_nat (a - b)"
  by simp

lemma layout_words:
  "of_nat PSYNC_CRYPTO_SECTOR_SIZE = (4096 :: 'a :: len word)" "of_nat PSYNC_CRYPTO_AUTH_SIZE = (32 :: 'a :: len word)"
  "of_nat PSYNC_CRYPTO_HASH_TREE_SECTORS = (128 :: 'a :: len word)"
  by (simp_all add: layout_sizes)

section \<open>The layout in numbers\<close>

text \<open>The sectors of authentication records in front of a data sector.\<close>

fun auth_before :: "nat \<Rightarrow> nat" where
  "auth_before k = (if k < 128 then 0 else k div 128 + auth_before (k div 128))"

declare auth_before.simps [simp del]

lemma auth_before_bound: "127 * auth_before k \<le> k"
proof (induction k rule: auth_before.induct)
  case (1 k)
  show ?case
  proof (cases "k < 128")
    case True
    then show ?thesis by (subst auth_before.simps) simp
  next
    case False
    then have "127 * auth_before (k div 128) \<le> k div 128" using 1 by simp
    then have "127 * (k div 128 + auth_before (k div 128)) \<le> 128 * (k div 128)" by simp
    also have "\<dots> \<le> k" by simp
    finally show ?thesis using False by (subst auth_before.simps) simp
  qed
qed

lemma auth_before_sum: "k div 128 ^ l = 0 \<Longrightarrow> auth_before k = (\<Sum>j<l. k div 128 ^ Suc j)"
proof (induction l arbitrary: k)
  case 0
  then show ?case by (subst auth_before.simps) simp
next
  case (Suc l)
  have "(k div 128) div 128 ^ l = 0" using Suc.prems by (simp add: div_mult2_eq)
  from Suc.IH [OF this] have "auth_before (k div 128) = (\<Sum>j<l. k div 128 ^ Suc (Suc j))"
    by (simp only: power_Suc div_mult2_eq)
  moreover have "auth_before k = k div 128 + auth_before (k div 128)"
    by (subst auth_before.simps) (auto simp: auth_before.simps [of 0])
  moreover have "(\<Sum>j<Suc l. k div 128 ^ Suc j) = k div 128 + (\<Sum>j<l. k div 128 ^ Suc (Suc j))"
    by (subst sum.lessThan_Suc_shift) simp
  ultimately show ?case by simp
qed

lemma data_offset_loop_correct:
  "unat off + 4096 * auth_before (unat s) < 2 ^ 64 \<Longrightarrow> unat (data_offset_loop s off) = unat off + 4096 * auth_before (unat s)"
proof (induction s off rule: data_offset_loop.induct)
  case (1 s off)
  show ?case
  proof (cases "unat s < 128")
    case True
    then have "s < 128" by (simp add: word_less_nat_alt)
    then show ?thesis using True by (subst data_offset_loop.simps) (simp add: layout_sizes auth_before.simps)
  next
    case False
    then have f: "\<not> s < 128" by (simp add: word_less_nat_alt)
    have a: "auth_before (unat s) = unat s div 128 + auth_before (unat s div 128)"
      using False by (subst auth_before.simps) simp
    have d: "unat (s div 128) = unat s div 128" by (simp add: unat_div)
    have s: "unat s < 2 ^ 32" using unsigned_less [of s] by simp
    have m: "unat (ucast (s div 128) * 4096 :: u64) = 4096 * (unat s div 128)"
      using s by (simp add: unat_word_ariths unat_u32_up d)
    have o: "unat (off + ucast (s div 128) * 4096) = unat off + 4096 * (unat s div 128)"
      using "1.prems" m by (simp add: unat_word_ariths a)
    show ?thesis
      using "1.IH" [of "s div 128"] "1.prems" f o d a
      by (subst data_offset_loop.simps) (simp add: layout_sizes Let_def)
  qed
qed

text \<open>The offset of a data sector.\<close>

definition data_at :: "nat \<Rightarrow> nat" where
  "data_at k = 4096 * (k + auth_before k)"

lemma data_offset_correct: "unat (psync_fs_crypto_data_offset_by_sectorid s) = data_at (unat s)"
proof -
  have s: "unat s < 2 ^ 32" using unsigned_less [of s] by simp
  have "unat (ucast s * 4096 :: u64) = 4096 * unat s" using s by (simp add: unat_word_ariths unat_u32_up)
  moreover have "4096 * unat s + 4096 * auth_before (unat s) < 2 ^ 64"
    using auth_before_bound [of "unat s"] s by simp
  ultimately show ?thesis
    using data_offset_loop_correct [of "ucast s * 4096" s]
    by (simp add: psync_fs_crypto_data_offset_by_sectorid_def layout_sizes data_at_def)
qed

text \<open>The size of a full tree, and the offset of a sector of authentication records.\<close>

fun tree_size :: "nat \<Rightarrow> nat" where
  "tree_size 0 = 4096"
| "tree_size (Suc l) = 128 * (tree_size l + 32)"

definition auth_at :: "nat \<Rightarrow> nat \<Rightarrow> nat" where
  "auth_at l i = tree_size (l + 1) * (i + 1) - 4096 + 4096 * auth_before i"

lemma tree_size_power: "127 * tree_size l + 4096 = 4096 * 128 ^ Suc l"
  by (induction l) auto

lemma tree_size_ge: "4096 \<le> tree_size l"
  by (induction l) auto

lemma max_level_size: "l \<le> 6 \<Longrightarrow> max_level_size ! l = of_nat (tree_size l)"
proof -
  assume "l \<le> 6"
  then have "l = 0 \<or> l = Suc 0 \<or> l = Suc (Suc 0) \<or> l = Suc (Suc (Suc 0)) \<or> l = Suc (Suc (Suc (Suc 0)))
      \<or> l = Suc (Suc (Suc (Suc (Suc 0)))) \<or> l = Suc (Suc (Suc (Suc (Suc (Suc 0)))))" by linarith
  then show ?thesis by (elim disjE) (simp_all add: max_level_size_def)
qed

lemma auth_before_rec: "auth_before k = k div 128 + auth_before (k div 128)"
  by (subst auth_before.simps) (auto simp: auth_before.simps [of 0])

lemma auth_offset_loop_correct:
  "unat i < 2 ^ 25 \<Longrightarrow> unat r + 4096 * auth_before (unat i) < 2 ^ 64 \<Longrightarrow> unat (auth_offset_loop i r) = unat r + 4096 * auth_before (unat i)"
proof (induction i r rule: auth_offset_loop.induct)
  case (1 i r)
  show ?case
  proof (cases "unat i < 128")
    case True
    then have "i < 128" by (simp add: word_less_nat_alt)
    then show ?thesis using True by (subst auth_offset_loop.simps) (simp add: layout_sizes auth_before.simps)
  next
    case False
    then have f: "\<not> i < 128" by (simp add: word_less_nat_alt)
    have d: "unat (i div 128) = unat i div 128" by (simp add: unat_div)
    have m: "unat (i div 128 * 4096) = 4096 * (unat i div 128)"
      using "1.prems"(1) by (simp add: unat_word_ariths d)
    have a: "auth_before (unat i) = unat i div 128 + auth_before (unat i div 128)" by (rule auth_before_rec)
    have o: "unat (r + ucast (i div 128 * 4096)) = unat r + 4096 * (unat i div 128)"
      using "1.prems"(2) m by (simp add: unat_word_ariths unat_u32_up a)
    show ?thesis
      using "1.IH" [of "i div 128"] "1.prems" f o d a
      by (subst auth_offset_loop.simps) (simp add: layout_sizes Let_def)
  qed
qed

lemma tree_size_bound: "(i + 1) * 128 ^ (l + 1) \<le> 2 ^ 32 \<Longrightarrow> tree_size (l + 1) * (i + 1) \<le> 2 ^ 45"
proof -
  assume a: "(i + 1) * 128 ^ (l + 1) \<le> 2 ^ 32"
  have "127 * tree_size (l + 1) \<le> 4096 * 128 * 128 ^ (l + 1)" using tree_size_power [of "l + 1"] by simp
  then have "127 * (tree_size (l + 1) * (i + 1)) \<le> 4096 * 128 * (128 ^ (l + 1) * (i + 1))"
    by (metis mult.assoc mult_le_mono1)
  also have "\<dots> \<le> 4096 * 128 * 2 ^ 32" using a by (simp add: mult.commute)
  finally show ?thesis by simp
qed

lemma auth_offset_correct:
  assumes "l < 6" "(i + 1) * 128 ^ (l + 1) \<le> 2 ^ 32"
  shows "unat (psync_fs_crypto_auth_offset l (of_nat i)) = auth_at l i"
proof -
  have p: "128 ^ (l + 1) \<ge> (128 :: nat)" by simp
  have "(i + 1) * 128 \<le> (i + 1) * 128 ^ (l + 1)" using p by (intro mult_le_mono2)
  then have i: "i + 1 \<le> 2 ^ 25" using assms(2) by simp
  have u: "unat (of_nat i :: u32) = i" "unat (of_nat i + 1 :: u32) = i + 1"
    using i by (simp_all add: unat_of_nat unat_word_ariths)
  have t: "tree_size (l + 1) * (i + 1) \<le> 2 ^ 45" by (rule tree_size_bound) (rule assms)
  have g: "4096 \<le> tree_size (l + 1) * (i + 1)" using tree_size_ge [of "l + 1"] by (metis le_add2 le_trans mult.right_neutral mult_le_mono2)
  have "ucast (of_nat i + 1 :: u32) = (of_nat (i + 1) :: u64)"
    using i u(2) by (simp add: word_unat_eq_iff unat_u32_up unat_word_ariths unat_of_nat)
  then have "max_level_size ! (l + 1) * ucast (of_nat i + 1 :: u32) - 4096 = (of_nat (tree_size (l + 1) * (i + 1) - 4096) :: u64)"
    using assms(1) max_level_size [of "l + 1"] g by (simp only: of_nat_mult of_nat_diff) simp
  moreover have "unat (of_nat (tree_size (l + 1) * (i + 1) - 4096) :: u64) = tree_size (l + 1) * (i + 1) - 4096"
    using t by (intro unat_u64) (simp add: less_imp_diff_less)
  moreover have "auth_before i \<le> 2 ^ 25" using auth_before_bound [of i] i by simp
  ultimately show ?thesis
    using auth_offset_loop_correct [of "of_nat i" "of_nat (tree_size (l + 1) * (i + 1) - 4096)"] u t i
    by (simp add: psync_fs_crypto_auth_offset_def layout_sizes auth_at_def)
qed

text \<open>The number of full trees that end in front of a data sector.\<close>

fun trees_ending :: "nat \<Rightarrow> nat" where
  "trees_ending k = (if k = 0 \<or> k mod 128 \<noteq> 0 then 0 else Suc (trees_ending (k div 128)))"

declare trees_ending.simps [simp del]

lemma auth_before_Suc: "auth_before (Suc k) = auth_before k + trees_ending (Suc k)"
proof (induction k rule: less_induct)
  case (less k)
  show ?case
  proof (cases "Suc k mod 128 = 0")
    case True
    then have d: "Suc k div 128 = Suc (k div 128)" by (subst div_Suc) simp
    have "k div 128 < k" using True by (cases "k = 0") auto
    then have "auth_before (Suc (k div 128)) = auth_before (k div 128) + trees_ending (Suc (k div 128))" by (rule less)
    moreover have "trees_ending (Suc k) = Suc (trees_ending (Suc (k div 128)))"
      using True d by (subst trees_ending.simps) simp
    ultimately show ?thesis using auth_before_rec [of k] auth_before_rec [of "Suc k"] d by simp
  next
    case False
    then have "Suc k div 128 = k div 128" by (subst div_Suc) simp
    moreover have "trees_ending (Suc k) = 0" using False by (subst trees_ending.simps) simp
    ultimately show ?thesis using auth_before_rec [of k] auth_before_rec [of "Suc k"] by simp
  qed
qed

lemma data_at_Suc: "data_at (Suc k) = data_at k + 4096 * (1 + trees_ending (Suc k))"
  by (simp add: data_at_def auth_before_Suc)

lemma trees_ending_dvd: "l < trees_ending k \<Longrightarrow> 128 ^ Suc l dvd k \<and> 0 < k"
proof (induction k arbitrary: l rule: trees_ending.induct)
  case (1 k)
  then have k: "k \<noteq> 0" "k mod 128 = 0" by (auto simp: trees_ending.simps split: if_splits)
  show ?case
  proof (cases l)
    case 0
    then show ?thesis using k by (simp add: dvd_eq_mod_eq_0)
  next
    case (Suc m)
    obtain c where c: "k = 128 * c" using k(2) by auto
    have "m < trees_ending c" using 1(2) k Suc by (simp add: trees_ending.simps [of "128 * c"] c)
    then have "128 ^ Suc m dvd c" using 1(1) [of m] k by (auto simp: c)
    then have "128 * 128 ^ Suc m dvd k" unfolding c by (rule mult_dvd_mono [OF dvd_refl])
    then show ?thesis using k Suc by simp
  qed
qed

lemma auth_before_last:
  "4096 * ((i + 1) * 128 ^ l - 1 + auth_before ((i + 1) * 128 ^ l - 1) + l) + 4096 = tree_size l * (i + 1) + 4096 * auth_before i"
proof (induction l)
  case 0
  then show ?case by simp
next
  case (Suc l)
  define q where "q = (i + 1) * 128 ^ l"
  have q: "0 < q" "(i + 1) * 128 ^ Suc l = 128 * q" by (simp_all add: q_def)
  then obtain r where r: "q = Suc r" by (metis gr0_implies_Suc)
  then have "(128 * q - 1) div 128 = q - 1" by simp
  then have a: "auth_before (128 * q - 1) = q - 1 + auth_before (q - 1)"
    using auth_before_rec [of "128 * q - 1"] by simp
  have "tree_size (Suc l) = tree_size l + 4096 * 128 ^ Suc l"
    using tree_size_power [of l] tree_size_power [of "Suc l"] by simp
  then have "tree_size (Suc l) * (i + 1) = tree_size l * (i + 1) + 4096 * (128 * q)"
    by (simp only: distrib_right) (simp add: q_def algebra_simps)
  moreover have "4096 * (q - 1 + auth_before (q - 1) + l) + 4096 = tree_size l * (i + 1) + 4096 * auth_before i"
    using Suc by (simp only: q_def)
  moreover have "x = y + 4096 * (128 * q) \<Longrightarrow> 4096 * (q - 1 + b + l) + 4096 = y + z \<Longrightarrow> a = q - 1 + b
      \<Longrightarrow> 4096 * (128 * q - 1 + a + Suc l) + 4096 = x + z" for x y z a b :: nat
    by (simp add: r algebra_simps)
  ultimately show ?case using a unfolding q(2) by blast
qed

lemma auth_at_after: "auth_at l i = data_at ((i + 1) * 128 ^ (l + 1) - 1) + 4096 * (l + 1)"
proof -
  have "4096 \<le> tree_size (l + 1) * (i + 1)"
    using tree_size_ge [of "l + 1"] by (metis le_add2 le_trans mult.right_neutral mult_le_mono2)
  then show ?thesis using auth_before_last [of i "l + 1"] by (simp add: auth_at_def data_at_def algebra_simps)
qed

section \<open>The layout of a file\<close>

text \<open>
  For a file of \<open>n > 0\<close> bytes with the last sector \<open>k\<close>: the last record of a level, the bytes of the level's
  incomplete sector and its offset, and the size of the trees of a level one after another.
\<close>

definition last_sector :: "nat \<Rightarrow> nat" where
  "last_sector n = (n - 1) div 4096"

definition level_len :: "nat \<Rightarrow> nat \<Rightarrow> nat" where
  "level_len k l = 32 * (k div 128 ^ l mod 128 + 1)"

definition level_off :: "nat \<Rightarrow> nat \<Rightarrow> nat" where
  "level_off n l = n + 4096 * auth_before (last_sector n) + (\<Sum>j<l. level_len (last_sector n) j)"

definition trees_len :: "nat \<Rightarrow> nat \<Rightarrow> nat" where
  "trees_len n l = n + 32 * (\<Sum>j<l. last_sector n div 128 ^ j + 1)"

lemma level_split: "32 * (x + 1) = 32 * (x mod 128 + 1) + 4096 * (x div 128)" for x :: nat
proof -
  have "128 * q + r = x \<Longrightarrow> 32 * (x + 1) = 32 * (r + 1) + 4096 * q" for q r by auto
  then show ?thesis using mult_div_mod_eq [of 128 x] by blast
qed

lemma level_off_last:
  assumes "last_sector n div 128 ^ l = 0" shows "level_off n l = trees_len n l"
proof -
  let ?k = "last_sector n"
  have "4096 * (\<Sum>j<l. ?k div 128 ^ Suc j) + (\<Sum>j<l. level_len ?k j) = (\<Sum>j<l. 4096 * (?k div 128 ^ Suc j) + level_len ?k j)"
    by (simp add: sum_distrib_left sum.distrib)
  also have "\<dots> = (\<Sum>j<l. 32 * (?k div 128 ^ j + 1))"
  proof (rule sum.cong [OF refl])
    fix j
    have "?k div 128 ^ Suc j = ?k div 128 ^ j div 128" by (simp only: power_Suc2 div_mult2_eq)
    then show "4096 * (?k div 128 ^ Suc j) + level_len ?k j = 32 * (?k div 128 ^ j + 1)"
      using level_split [of "?k div 128 ^ j"] by (simp only: level_len_def)
  qed
  also have "\<dots> = 32 * (\<Sum>j<l. ?k div 128 ^ j + 1)" by (simp only: sum_distrib_left)
  finally show ?thesis using auth_before_sum [OF assms] by (simp add: level_off_def trees_len_def)
qed

lemma last_sector_bounds: "0 < n \<Longrightarrow> last_sector n * 4096 < n \<and> n \<le> (last_sector n + 1) * 4096"
  unfolding last_sector_def by (cases n) (auto, linarith?)

lemma trees_len_bounds:
  assumes "0 < n"
  shows "(last_sector n div 128 ^ l) * tree_size l < trees_len n l \<and> trees_len n l \<le> (last_sector n div 128 ^ l + 1) * tree_size l"
proof (induction l)
  case 0
  then show ?case using last_sector_bounds [OF assms] by (simp add: trees_len_def)
next
  case (Suc l)
  define x where "x = last_sector n div 128 ^ l"
  have d: "last_sector n div 128 ^ Suc l = x div 128" by (simp only: power_Suc2 div_mult2_eq x_def)
  have t: "trees_len n (Suc l) = trees_len n l + 32 * (x + 1)" by (simp add: trees_len_def x_def)
  have s: "x * tree_size l < trees_len n l" "trees_len n l \<le> (x + 1) * tree_size l" using Suc by (auto simp: x_def)
  have "(x div 128) * tree_size (Suc l) = (128 * (x div 128)) * (tree_size l + 32)" by (simp add: algebra_simps)
  also have "\<dots> \<le> x * (tree_size l + 32)" by (intro mult_le_mono1) simp
  also have "\<dots> < trees_len n l + 32 * (x + 1)" using s(1) by (simp add: algebra_simps)
  finally have lo: "(x div 128) * tree_size (Suc l) < trees_len n (Suc l)" by (simp only: t)
  have "trees_len n l + 32 * (x + 1) \<le> (x + 1) * (tree_size l + 32)" using s(2) by (simp add: algebra_simps)
  also have "\<dots> \<le> (128 * (x div 128 + 1)) * (tree_size l + 32)"
  proof (intro mult_le_mono1)
    have "x < 128 + 128 * (x div 128)" by (rule dividend_less_times_div) simp
    then show "x + 1 \<le> 128 * (x div 128 + 1)" by simp
  qed
  also have "\<dots> = (x div 128 + 1) * tree_size (Suc l)" by (simp add: algebra_simps)
  finally show ?case using lo by (simp only: t d)
qed

lemma trees_len_mono: "l \<le> m \<Longrightarrow> trees_len n l \<le> trees_len n m"
  unfolding trees_len_def by (intro add_left_mono mult_le_mono2 sum_mono2) auto

lemma level_off_mono: "l \<le> m \<Longrightarrow> level_off n l \<le> level_off n m"
  unfolding level_off_def by (intro add_left_mono sum_mono2) auto

text \<open>The number of levels.\<close>

definition tree_levels :: "nat \<Rightarrow> nat \<Rightarrow> bool" where
  "tree_levels n l \<longleftrightarrow> 1 \<le> l \<and> l \<le> 5 \<and> last_sector n div 128 ^ l = 0 \<and> (\<forall>j. 1 \<le> j \<and> j < l \<longrightarrow> last_sector n div 128 ^ j \<noteq> 0)"

lemma tree_levels_exist: "n \<le> 2 ^ 44 \<Longrightarrow> \<exists>l. tree_levels n l"
proof -
  assume "n \<le> 2 ^ 44"
  then have "last_sector n < 2 ^ 32" by (simp add: last_sector_def)
  then have z: "last_sector n div 128 ^ 5 = 0" by simp
  let ?l = "LEAST l. 1 \<le> l \<and> last_sector n div 128 ^ l = 0"
  have "1 \<le> ?l \<and> last_sector n div 128 ^ ?l = 0" by (rule LeastI [of _ 5]) (use z in simp)
  moreover have "?l \<le> 5" by (rule Least_le) (use z in simp)
  moreover have "last_sector n div 128 ^ j \<noteq> 0" if "1 \<le> j" "j < ?l" for j
    using not_less_Least [OF that(2)] that(1) by simp
  ultimately show ?thesis unfolding tree_levels_def by blast
qed

lemma tree_levels_size:
  assumes "0 < n" "tree_levels n l" shows "trees_len n l \<le> tree_size l" "trees_len n l < 2 ^ 48"
    "1 \<le> j \<Longrightarrow> j < l \<Longrightarrow> tree_size j < trees_len n l"
proof -
  show l: "trees_len n l \<le> tree_size l" using trees_len_bounds [OF assms(1), of l] assms(2) by (simp add: tree_levels_def)
  have "128 ^ Suc l \<le> (128 :: nat) ^ 6" using assms(2) by (intro power_increasing) (auto simp: tree_levels_def)
  then have "127 * tree_size l \<le> 4096 * 128 ^ 6" using tree_size_power [of l] by linarith
  then show "trees_len n l < 2 ^ 48" using l by simp
  assume j: "1 \<le> j" "j < l"
  then have "1 * tree_size j \<le> (last_sector n div 128 ^ j) * tree_size j"
    using assms(2) by (intro mult_le_mono1) (auto simp: tree_levels_def Suc_le_eq)
  then show "tree_size j < trees_len n l"
    using trees_len_bounds [OF assms(1), of j] trees_len_mono [of j l n] j by linarith
qed

text \<open>The record with the entries of some levels filled in.\<close>

definition fill :: "nat \<Rightarrow> nat set \<Rightarrow> psync_crypto_offsets \<Rightarrow> psync_crypto_offsets" where
  "fill n js o' = o'\<lparr>
     lastauthsectoroff := map (\<lambda>j. if j \<in> js then of_nat (level_off n j) else lastauthsectoroff o' ! j) [0..<6],
     lastauthsectorlen := map (\<lambda>j. if j \<in> js then of_nat (level_len (last_sector n) j) else lastauthsectorlen o' ! j) [0..<6]\<rparr>"

lemma fill_update:
  "l < 6 \<Longrightarrow> (map (\<lambda>j. if j \<in> js then g j else h j) [0..<6])[l := g l] = map (\<lambda>j. if j \<in> insert l js then g j else h j) [0..<6]"
  by (rule nth_equalityI) (auto simp: nth_list_update)

lemma put_last_fill:
  "l < 6 \<Longrightarrow> put_last l (of_nat (level_off n l)) (of_nat (level_len (last_sector n) l)) (fill n js o') = Some (fill n (insert l js) o')"
  unfolding put_last_def fill_def
  using fill_update [of l js "\<lambda>j. of_nat (level_off n j) :: u64"] fill_update [of l js "\<lambda>j. of_nat (level_len (last_sector n) j) :: u16"] by simp

lemma last_sector_less: "n \<le> 2 ^ 44 \<Longrightarrow> last_sector n div 128 ^ l < 2 ^ 45"
proof -
  assume "n \<le> 2 ^ 44"
  then have n: "n \<le> 17592186044416" by simp
  have "last_sector n div 128 ^ l \<le> last_sector n" "last_sector n \<le> n - 1"
    unfolding last_sector_def by (rule div_le_dividend)+
  then have "last_sector n div 128 ^ l \<le> 17592186044416" using n by linarith
  then show ?thesis by simp
qed

lemma level_len_bound: "level_len k l \<le> 4096" "32 \<le> level_len k l"
proof -
  have "k div 128 ^ l mod 128 < 128" by simp
  then show "level_len k l \<le> 4096" by (simp add: level_len_def)
qed (simp add: level_len_def)

lemma level_words:
  assumes "x < 2 ^ 63"
  shows "(if (of_nat (x + 1) :: u64) mod 128 = 0 then 128 else of_nat (x + 1) mod 128) * 32 = (of_nat (32 * (x mod 128 + 1)) :: u64)"
proof -
  have m: "(of_nat (x + 1) :: u64) mod 128 = of_nat ((x + 1) mod 128)"
    using u64_div(2) [of "x + 1" 128] assms by simp
  have b: "(x + 1) mod 128 < 128" by simp
  have z: "(of_nat ((x + 1) mod 128) :: u64) = 0 \<longleftrightarrow> (x + 1) mod 128 = 0"
    using u64_less(3) [of "(x + 1) mod 128" 0] b by simp
  have "x mod 128 + 1 = (if (x + 1) mod 128 = 0 then 128 else (x + 1) mod 128)"
    by (simp add: mod_Suc)
  then have "(of_nat (32 * (x mod 128 + 1)) :: u64) = of_nat (if (x + 1) mod 128 = 0 then 128 else (x + 1) mod 128) * 32"
    by (simp add: mult.commute)
  then show ?thesis unfolding m z by (cases "(x + 1) mod 128 = 0") simp_all
qed

lemma plain_levels_correct:
  assumes n: "0 < n" "n \<le> 2 ^ 44" and lv: "tree_levels n m"
  shows "l < m \<Longrightarrow> plain_levels (of_nat (last_sector n div 128 ^ l + 1)) (of_nat (level_off n l)) l (fill n js o')
    = Some (of_nat (level_off n m), m, fill n (js \<union> {l..<m}) o')"
proof (induction "m - l" arbitrary: l js)
  case 0
  then show ?case by simp
next
  case (Suc d)
  define x where "x = last_sector n div 128 ^ l"
  have x: "x < 2 ^ 45" using last_sector_less [OF n(2)] by (simp add: x_def)
  have nx: "last_sector n div 128 ^ (l + 1) = x div 128" by (simp only: x_def power_add power_one_right div_mult2_eq)
  have "(of_nat (x + 1) + 128 - 1 :: u64) = of_nat (x + 128)" by simp
  moreover have "of_nat (x + 128) div of_nat 128 = (of_nat ((x + 128) div 128) :: u64)"
    by (rule u64_div) (use x in simp_all)
  moreover have "(x + 128) div 128 = x div 128 + 1" by simp
  ultimately have s: "(of_nat (x + 1) + 128 - 1) div 128 = (of_nat (x div 128 + 1) :: u64)"
    by (simp only: of_nat_numeral)
  have g: "1 < (of_nat (x div 128 + 1) :: u64) \<longleftrightarrow> x div 128 \<noteq> 0"
    using u64_less(1) [of 1 "x div 128 + 1"] x by simp
  have len: "ucast (of_nat (level_len (last_sector n) l) :: u64) = (of_nat (level_len (last_sector n) l) :: u16)"
    using level_len_bound(1) [of "last_sector n" l] by (simp add: word_unat_eq_iff unat_of_nat unsigned_ucast_eq take_bit_eq_mod)
  have w: "(if (of_nat (x + 1) :: u64) mod 128 = 0 then 128 else of_nat (x + 1) mod 128) * 32 = (of_nat (level_len (last_sector n) l) :: u64)"
    using level_words [of x] x by (simp add: level_len_def x_def)
  have off: "(of_nat (level_off n l) + of_nat (level_len (last_sector n) l) :: u64) = of_nat (level_off n (l + 1))"
    by (simp add: level_off_def)
  have l6: "l < 6" using Suc.prems lv by (simp add: tree_levels_def)
  have step: "plain_levels (of_nat (x + 1)) (of_nat (level_off n l)) l (fill n js o') =
    (if x div 128 \<noteq> 0 then plain_levels (of_nat (x div 128 + 1)) (of_nat (level_off n (l + 1))) (l + 1) (fill n (insert l js) o')
     else Some (of_nat (level_off n (l + 1)), l + 1, fill n (insert l js) o'))"
    using l6 by (subst plain_levels.simps)
      (simp only: layout_words Let_def s w g len off put_last_fill option.case)
  show ?case
  proof (cases "l + 1 < m")
    case True
    then have "last_sector n div 128 ^ (l + 1) \<noteq> 0" using lv unfolding tree_levels_def by (metis le_add2)
    then have "x div 128 \<noteq> 0" using nx by metis
    moreover have "insert l js \<union> {l + 1..<m} = js \<union> {l..<m}" using True by auto
    ultimately show ?thesis using Suc.hyps(1) [of "l + 1" "insert l js"] Suc.hyps(2) True
      unfolding x_def [symmetric] step nx by simp
  next
    case False
    then have m: "m = l + 1" using Suc.prems by simp
    then have "x div 128 = 0" using lv nx by (simp only: tree_levels_def)
    moreover have "insert l js = js \<union> {l..<m}" using m by auto
    ultimately show ?thesis unfolding x_def [symmetric] step by (simp add: m)
  qed
qed

lemma crypto_levels_correct:
  assumes n: "0 < n" "n \<le> 2 ^ 44" and lv: "tree_levels n m"
  shows "l \<le> m \<Longrightarrow> crypto_levels l (of_nat (trees_len n l)) (of_nat (level_off n l)) (fill n js o')
    = Some (of_nat n, fill n (js \<union> {..<l}) o')"
proof (induction l arbitrary: js)
  case 0
  then show ?case by (simp add: trees_len_def)
next
  case (Suc l)
  define x where "x = last_sector n div 128 ^ l"
  define M where "M = tree_size l + 32"
  have x: "x < 2 ^ 45" using last_sector_less [OF n(2)] by (simp add: x_def)
  have l6: "l < 6" "l \<le> 5" using Suc.prems lv by (simp_all add: tree_levels_def)
  have t: "trees_len n (Suc l) = trees_len n l + 32 * (x + 1)" by (simp add: trees_len_def x_def)
  have tb: "trees_len n (Suc l) < 2 ^ 48"
    using trees_len_mono [OF Suc.prems, of n] tree_levels_size(2) [OF n(1) lv] by linarith
  have "(128 :: nat) ^ Suc l \<le> 128 ^ 6" using l6 by (intro power_increasing) auto
  then have "127 * tree_size l \<le> 4096 * 128 ^ 6" using tree_size_power [of l] by linarith
  then have mb: "M < 2 ^ 50" "0 < M" by (simp_all add: M_def)
  have b: "x * tree_size l < trees_len n l" "trees_len n l \<le> (x + 1) * tree_size l"
    using trees_len_bounds [OF n(1), of l] by (simp_all add: x_def)
  have q: "(trees_len n (Suc l) + M - 1) div M = x + 1"
  proof (rule div_nat_eqI)
    have "x * M + M \<le> trees_len n (Suc l) + M - 1" using b(1) mb(2) by (simp add: t M_def algebra_simps)
    then show "M * (x + 1) \<le> trees_len n (Suc l) + M - 1" by (simp add: algebra_simps)
    have "trees_len n (Suc l) \<le> (x + 1) * M" using b(2) by (simp add: t M_def algebra_simps)
    then show "trees_len n (Suc l) + M - 1 < M * Suc (x + 1)" using mb(2) by (simp add: algebra_simps)
  qed
  have m: "max_level_size ! l + 32 = (of_nat M :: u64)" using max_level_size [of l] l6 by (simp add: M_def)
  have "(of_nat (trees_len n (Suc l)) + of_nat M - 1 :: u64) = of_nat (trees_len n (Suc l) + M - 1)"
    using mb(2) by simp
  then have c: "(of_nat (trees_len n (Suc l)) + of_nat M - 1 :: u64) div of_nat M = of_nat (x + 1)"
    using u64_div(1) [of "trees_len n (Suc l) + M - 1" M] tb mb q by simp
  have sz: "of_nat (trees_len n (Suc l)) - of_nat (x + 1) * 32 = (of_nat (trees_len n l) :: u64)"
    by (simp add: t)
  have w: "(if (of_nat (x + 1) :: u64) mod 128 = 0 then 128 else of_nat (x + 1) mod 128) * 32 = (of_nat (level_len (last_sector n) l) :: u64)"
    using level_words [of x] x by (simp add: level_len_def x_def)
  have len: "ucast (of_nat (level_len (last_sector n) l) :: u64) = (of_nat (level_len (last_sector n) l) :: u16)"
    using level_len_bound(1) [of "last_sector n" l] by (simp add: word_unat_eq_iff unat_of_nat unsigned_ucast_eq take_bit_eq_mod)
  have off: "of_nat (level_off n (Suc l)) - of_nat (level_len (last_sector n) l) = (of_nat (level_off n l) :: u64)"
    by (simp add: level_off_def)
  have "crypto_levels (Suc l) (of_nat (trees_len n (Suc l))) (of_nat (level_off n (Suc l))) (fill n js o')
     = crypto_levels l (of_nat (trees_len n l)) (of_nat (level_off n l)) (fill n (insert l js) o')"
    using l6(1) by (simp only: crypto_levels.simps layout_words Let_def m c sz w len off put_last_fill option.case)
  moreover have "insert l js \<union> {..<l} = js \<union> {..<Suc l}" by auto
  ultimately show ?case using Suc.IH [of "insert l js"] Suc.prems by simp
qed

lemma find_level_correct:
  assumes "0 < n" "tree_levels n m" shows "find_level (of_nat (trees_len n m)) = m"
proof -
  have t: "trees_len n m < 2 ^ 48" by (rule tree_levels_size(2) [OF assms])
  have le: "of_nat (trees_len n m) \<le> max_level_size ! j \<longleftrightarrow> trees_len n m \<le> tree_size j" if "j \<le> 5" for j
  proof -
    have "(128 :: nat) ^ Suc j \<le> 128 ^ 6" using that by (intro power_increasing) auto
    then have "127 * tree_size j \<le> 4096 * 128 ^ 6" using tree_size_power [of j] by linarith
    then have "tree_size j < 2 ^ 64" by simp
    then show ?thesis using max_level_size [of j] that t u64_less(2) [of "trees_len n m" "tree_size j"] by simp
  qed
  have m: "1 \<le> m" "m \<le> 5" using assms(2) by (simp_all add: tree_levels_def)
  have "[1..<7] = [1..<m] @ m # [Suc m..<7]" using upt_add_eq_append [of 1 m "7 - m"] m by (simp add: upt_conv_Cons)
  moreover have "find (\<lambda>l. of_nat (trees_len n m) \<le> max_level_size ! l) [1..<m] = None"
    using le tree_levels_size(3) [OF assms] m by (fastforce simp: find_None_iff)
  moreover have "of_nat (trees_len n m) \<le> max_level_size ! m" using le [of m] m tree_levels_size(1) [OF assms] by simp
  moreover have "find P (xs @ y # ys) = Some y" if "find P xs = None" "P y" for P and xs ys :: "nat list" and y
    using that by (induction xs) (auto split: if_splits)
  ultimately show ?thesis by (simp add: find_level_def layout_sizes)
qed

definition layout_of :: "nat \<Rightarrow> nat \<Rightarrow> psync_crypto_offsets" where
  "layout_of n m = fill n {..m} (no_offsets\<lparr>plainsize := of_nat n, needmasterauth := if 4096 < n then 1 else 0,
     masterauthoff := of_nat (trees_len n m), treelevels := of_nat m\<rparr>)"

lemma fill_empty: "length (lastauthsectoroff o') = 6 \<Longrightarrow> length (lastauthsectorlen o') = 6 \<Longrightarrow> fill n {} o' = o'"
proof -
  assume l: "length (lastauthsectoroff o') = 6" "length (lastauthsectorlen o') = 6"
  have "map ((!) (lastauthsectoroff o')) [0..<6] = lastauthsectoroff o'" using map_nth [of "lastauthsectoroff o'"] l(1) by simp
  moreover have "map ((!) (lastauthsectorlen o')) [0..<6] = lastauthsectorlen o'" using map_nth [of "lastauthsectorlen o'"] l(2) by simp
  ultimately show ?thesis by (simp add: fill_def)
qed

lemma fill_fields:
  "(fill n js o')\<lparr>masterauthoff := a\<rparr> = fill n js (o'\<lparr>masterauthoff := a\<rparr>)"
  "(fill n js o')\<lparr>treelevels := t\<rparr> = fill n js (o'\<lparr>treelevels := t\<rparr>)"
  "(fill n js o')\<lparr>plainsize := b\<rparr> = fill n js (o'\<lparr>plainsize := b\<rparr>)"
  by (simp_all add: fill_def)

lemma level_len_last: "tree_levels n m \<Longrightarrow> level_len (last_sector n) m = 32"
  by (simp add: level_len_def tree_levels_def)

lemma offsets_by_plainsize_correct:
  assumes n: "0 < n" "n \<le> 2 ^ 44" and lv: "tree_levels n m"
  shows "psync_fs_crypto_offsets_by_plainsize (of_nat n) = Some (layout_of n m)"
proof -
  let ?k = "last_sector n"
  have k: "?k < 2 ^ 32" using n(2) by (simp add: last_sector_def)
  have m: "m < 6" "1 \<le> m" using lv by (simp_all add: tree_levels_def)
  have "(of_nat n + 4096 - 1 :: u64) = of_nat (n + 4095)" by simp
  moreover have "of_nat (n + 4095) div of_nat 4096 = (of_nat ((n + 4095) div 4096) :: u64)"
    by (rule u64_div) (use n(2) in simp_all)
  moreover have "(n + 4095) div 4096 = ?k + 1" using n(1) by (cases n) (simp_all add: last_sector_def)
  ultimately have sec: "(of_nat n + 4096 - 1) div 4096 = (of_nat (?k + 1) :: u64)"
    by (simp only: of_nat_numeral)
  define sid ssz where "sid = (ucast ((of_nat n :: u64) div 4096) :: u32)" and "ssz = (ucast ((of_nat n :: u64) mod 4096) :: u32)"
  have d: "(of_nat n :: u64) div 4096 = of_nat (n div 4096)" "(of_nat n :: u64) mod 4096 = of_nat (n mod 4096)"
    using u64_div [of n 4096] n(2) by simp_all
  have s: "sid = of_nat (n div 4096)" "ssz = of_nat (n mod 4096)"
    using n(2) by (simp_all add: sid_def ssz_def d word_unat_eq_iff unat_of_nat unsigned_ucast_eq take_bit_eq_mod)
  have r: "n mod 4096 < 4096" by simp
  have "psync_fs_crypto_data_offset_by_sectorid (of_nat ?k) = of_nat (data_at ?k)"
    using data_offset_correct [of "of_nat ?k"] k by (metis unat_u32 word_nat_unat_id)
  then have da: "psync_fs_crypto_data_offset_by_sectorid (of_nat ?k) + of_nat (n - 4096 * ?k) = of_nat (level_off n 0)"
  proof -
    have "data_at ?k + (n - 4096 * ?k) = level_off n 0"
      using last_sector_bounds [OF n(1)] by (simp add: data_at_def level_off_def)
    then show ?thesis using \<open>psync_fs_crypto_data_offset_by_sectorid (of_nat ?k) = of_nat (data_at ?k)\<close>
      by (metis of_nat_add)
  qed
  have up: "ucast (of_nat j :: u32) = (of_nat j :: u64)" if "j \<le> 4096" for j
    using that by (simp add: word_unat_eq_iff unat_u32_up unat_of_nat)
  have off: "psync_fs_crypto_data_offset_by_sectorid (fst sp) + ucast (snd sp) = (of_nat (level_off n 0) :: u64)"
    if sp: "sp = (if ssz = 0 then (sid - 1, 4096) else (sid, ssz))" for sp
  proof (cases "n mod 4096 = 0")
    case True
    then obtain c where c: "n = 4096 * Suc c" using n(1) by (metis mod_0_imp_dvd dvdE gr0_conv_Suc mult_0_right not_gr_zero)
    then have "?k = c" by (simp add: last_sector_def)
    then show ?thesis using da up [of 4096] True c sp by (simp add: s)
  next
    case False
    have "ssz \<noteq> 0" using False r by (simp add: s word_unat_eq_iff unat_of_nat)
    moreover have kk: "?k = n div 4096"
    proof -
      obtain c d where cd: "n = c * 4096 + d" "0 < d" "d < 4096" using False by (metis div_mod_decomp mod_less_divisor neq0_conv zero_less_numeral)
      then have "n - 1 = c * 4096 + (d - 1)" by simp
      then have "(n - 1) div 4096 = c" using cd(3) by simp
      then show ?thesis using cd by (simp add: last_sector_def)
    qed
    moreover have "n - 4096 * (n div 4096) = n mod 4096" by (simp add: minus_mult_div_eq_mod)
    ultimately show ?thesis using da up [of "n mod 4096"] r sp by (simp add: s)
  qed
  define o0 where "o0 = no_offsets\<lparr>plainsize := of_nat n, needmasterauth := if 4096 < n then 1 else 0\<rparr>"
  have "fill n {} o0 = o0" by (rule fill_empty) (simp_all add: o0_def no_offsets_def)
  then have pl: "plain_levels (of_nat (?k + 1)) (of_nat (level_off n 0)) 0 o0 = Some (of_nat (level_off n m), m, fill n {0..<m} o0)"
    using plain_levels_correct [OF n lv, of 0 "{}" o0] m by simp
  have put: "put_last m (of_nat (level_off n m)) 32 (fill n {0..<m} o0) = Some (fill n {..m} o0)"
    using put_last_fill [OF m(1), of n "{0..<m}" o0] level_len_last [OF lv] by (simp add: atLeast0LessThan lessThan_Suc_atMost flip: lessThan_Suc)
  have nz: "(of_nat n :: u64) \<noteq> 0" "4096 < (of_nat n :: u64) \<longleftrightarrow> 4096 < n"
    using u64_less(3) [of n 0] u64_less(1) [of 4096 n] n by simp_all
  have last: "level_off n m = trees_len n m" by (rule level_off_last) (use lv in \<open>simp add: tree_levels_def\<close>)
  have "psync_fs_crypto_offsets_by_plainsize (of_nat n) = Some ((fill n {..m} o0)\<lparr>masterauthoff := of_nat (level_off n m), treelevels := of_nat m\<rparr>)"
    unfolding psync_fs_crypto_offsets_by_plainsize_def layout_words Let_def nz(2) sec sid_def [symmetric] ssz_def [symmetric] o0_def [symmetric]
    using nz(1) off pl put by (simp add: case_prod_beta)
  also have "\<dots> = Some (layout_of n m)" by (simp add: fill_fields o0_def layout_of_def last)
  finally show ?thesis .
qed

text \<open>The size of an encrypted file.\<close>

definition file_len :: "nat \<Rightarrow> nat \<Rightarrow> nat" where
  "file_len n m = trees_len n m + (if 4096 < n then 32 else 0)"

lemma file_len_bounds:
  assumes n: "0 < n" and lv: "tree_levels n m"
  shows "32 < file_len n m" "file_len n m < 2 ^ 49" "4128 < file_len n m \<longleftrightarrow> 4096 < n"
proof -
  have t1: "trees_len n 1 = n + 32 * (last_sector n + 1)" by (simp add: trees_len_def)
  have ge: "trees_len n 1 \<le> trees_len n m" using lv by (intro trees_len_mono) (simp add: tree_levels_def)
  show "32 < file_len n m" using ge n t1 by (simp add: file_len_def)
  show "file_len n m < 2 ^ 49" using tree_levels_size(2) [OF n lv] by (simp add: file_len_def)
  show "4128 < file_len n m \<longleftrightarrow> 4096 < n"
  proof (cases "4096 < n")
    case True
    then show ?thesis using ge t1 by (simp add: file_len_def)
  next
    case False
    then have k: "last_sector n = 0" using n by (simp add: last_sector_def)
    have "\<not> 1 < m"
    proof
      assume "1 < m"
      then have "last_sector n div 128 ^ 1 \<noteq> 0" using lv unfolding tree_levels_def by blast
      then show False using k by simp
    qed
    then have "m = 1" using lv by (simp add: tree_levels_def)
    then show ?thesis using False t1 k by (simp add: file_len_def)
  qed
qed

lemma crypto_size_correct:
  assumes n: "0 < n" "n \<le> 2 ^ 44" and lv: "tree_levels n m"
  shows "psync_fs_crypto_crypto_size (of_nat n) = Some (of_nat (file_len n m))"
  unfolding psync_fs_crypto_crypto_size_def offsets_by_plainsize_correct [OF assms] layout_words
  by (simp add: layout_of_def fill_def file_len_def)

lemma offsets_by_cryptosize_correct:
  assumes n: "0 < n" "n \<le> 2 ^ 44" and lv: "tree_levels n m"
  shows "psync_fs_crypto_offsets_by_cryptosize (of_nat (file_len n m)) = Some (layout_of n m)"
proof -
  note b = file_len_bounds [OF n(1) lv]
  have m: "m < 6" using lv by (simp add: tree_levels_def)
  have c: "\<not> (of_nat (file_len n m) :: u64) \<le> 32" "4096 + 32 < (of_nat (file_len n m) :: u64) \<longleftrightarrow> 4096 < n"
    using u64_less(2) [of "file_len n m" 32] u64_less(1) [of 4128 "file_len n m"] b by simp_all
  have sz: "(if 4096 < n then of_nat (file_len n m) - 32 else of_nat (file_len n m)) = (of_nat (trees_len n m) :: u64)"
    by (simp add: file_len_def)
  define o0 where "o0 = no_offsets\<lparr>needmasterauth := if 4096 < n then 1 else 0, masterauthoff := of_nat (trees_len n m), treelevels := of_nat m\<rparr>"
  have last: "level_off n m = trees_len n m" by (rule level_off_last) (use lv in \<open>simp add: tree_levels_def\<close>)
  have "fill n {} o0 = o0" by (rule fill_empty) (simp_all add: o0_def no_offsets_def)
  then have put: "put_last m (of_nat (trees_len n m)) 32 o0 = Some (fill n {m} o0)"
    using put_last_fill [OF m, of n "{}" o0] level_len_last [OF lv] by (simp add: last)
  have u: "insert m {..<m} = {..m}" by auto
  have lev: "crypto_levels m (of_nat (trees_len n m)) (of_nat (trees_len n m)) (fill n {m} o0) = Some (of_nat n, fill n {..m} o0)"
    using crypto_levels_correct [OF n lv, of m "{m}" o0] by (simp add: last u)
  have "psync_fs_crypto_offsets_by_cryptosize (of_nat (file_len n m)) = Some ((fill n {..m} o0)\<lparr>plainsize := of_nat n\<rparr>)"
    unfolding psync_fs_crypto_offsets_by_cryptosize_def layout_words Let_def c(2) sz find_level_correct [OF n(1) lv] o0_def [symmetric] put
    using c(1) lev m by (simp add: layout_sizes)
  also have "\<dots> = Some (layout_of n m)" by (simp add: fill_fields o0_def layout_of_def no_offsets_def)
  finally show ?thesis .
qed

lemma auth_level_loop_correct:
  "auth_level_loop l z y a = (of_nat (unat z div 128 ^ l), of_nat (unat y div 128 ^ l),
     if l = 0 then a else of_nat (unat y div 128 ^ (l - 1) mod 128))"
proof (induction l arbitrary: z y a)
  case 0
  then show ?case by simp
next
  case (Suc l)
  have "unat (z div 128) = unat z div 128" "unat (y div 128) = unat y div 128" by (simp_all add: unat_div)
  then have d: "unat (z div 128) div 128 ^ l = unat z div 128 ^ Suc l" "unat (y div 128) div 128 ^ l = unat y div 128 ^ Suc l"
    by (simp_all only: power_Suc div_mult2_eq)
  have "unat y mod 128 < 128" by simp
  then have "unat y mod 128 < 2 ^ 32" by simp
  then have "y mod 128 = of_nat (unat y mod 128)" using unat_u32 by (simp add: word_unat_eq_iff unat_mod)
  moreover have "unat (y div 128) div 128 ^ (l - 1) = unat y div 128 ^ l" if "l \<noteq> 0"
    using that by (cases l) (simp_all only: diff_Suc_1 power_Suc div_mult2_eq unat_div unat_numeral, simp_all add: unat_div)
  ultimately show ?case by (simp only: auth_level_loop.simps layout_words Suc d) auto
qed

lemma last_sectorid_correct: "0 < n \<Longrightarrow> n \<le> 2 ^ 44 \<Longrightarrow> get_last_sectorid_by_size (of_nat n) = of_nat (last_sector n)"
proof -
  assume n: "0 < n" "n \<le> 2 ^ 44"
  have "(of_nat n :: u64) \<noteq> 0" using u64_less(3) [of n 0] n by simp
  moreover have "(of_nat n - 1 :: u64) = of_nat (n - 1)" using n(1) by simp
  moreover have "of_nat (n - 1) div of_nat 4096 = (of_nat (last_sector n) :: u64)"
    unfolding last_sector_def by (rule u64_div) (use n(2) in simp_all)
  moreover have "ucast (of_nat (last_sector n) :: u64) = (of_nat (last_sector n) :: u32)"
    using last_sector_less [OF n(2), of 0]
    by (simp add: word_unat_eq_iff unat_of_nat unsigned_ucast_eq take_bit_eq_mod mod_mod_cancel)
  ultimately show ?thesis by (simp add: get_last_sectorid_by_size_def layout_words)
qed

lemma data_at_mono: "j \<le> k \<Longrightarrow> data_at j \<le> data_at k"
  by (rule lift_Suc_mono_le [of data_at]) (simp_all add: data_at_Suc)

lemma trees_ending_ge: "128 ^ Suc l dvd k \<Longrightarrow> 0 < k \<Longrightarrow> l < trees_ending k"
proof (induction l arbitrary: k)
  case 0
  then show ?case by (subst trees_ending.simps) (simp add: mod_eq_0_iff_dvd)
next
  case (Suc l)
  obtain c where c: "k = 128 * 128 ^ Suc l * c" using Suc.prems(1) by (auto simp: dvd_def)
  then have d: "k div 128 = 128 ^ Suc l * c" "k mod 128 = 0" by (simp_all add: mult.assoc)
  have "l < trees_ending (k div 128)" using Suc.prems(2) c by (intro Suc.IH) (auto simp: d)
  then show ?case using Suc.prems(2) d(2) by (subst trees_ending.simps) simp
qed

lemma auth_at_end:
  "auth_at l i + 4096 \<le> data_at ((i + 1) * 128 ^ (l + 1))"
proof -
  let ?q = "(i + 1) * 128 ^ (l + 1)"
  obtain r where r: "?q = Suc r" by (metis gr0_implies_Suc nat_0_less_mult_iff zero_less_Suc Suc_eq_plus1 zero_less_power zero_less_numeral)
  have "l < trees_ending ?q" by (rule trees_ending_ge) (simp_all only: Suc_eq_plus1 dvd_triv_right, simp)
  then show ?thesis using auth_at_after [of l i] data_at_Suc [of r] unfolding r by simp
qed

section \<open>Properties\<close>

text \<open>
  C30. Where an encrypted file keeps its sectors: between a data sector and the next are just the
  authentication sectors of the trees that end there, one of each level, from the lowest to the highest,
  so that no two sectors overlap and there are no gaps.
\<close>

theorem crypto_layout_tiles:
  assumes "unat s + 1 < 2 ^ 32"
  shows "unat (psync_fs_crypto_data_offset_by_sectorid (s + 1))
      = unat (psync_fs_crypto_data_offset_by_sectorid s) + 4096 * (1 + trees_ending (unat s + 1))
    \<and> (\<forall>l < trees_ending (unat s + 1).
      unat (psync_fs_crypto_auth_offset l (of_nat ((unat s + 1) div 128 ^ (l + 1) - 1)))
        = unat (psync_fs_crypto_data_offset_by_sectorid s) + 4096 * (1 + l))"
proof (intro conjI allI impI)
  have s1: "unat (s + 1) = Suc (unat s)" using assms by (simp add: unat_word_ariths)
  then show "unat (psync_fs_crypto_data_offset_by_sectorid (s + 1))
      = unat (psync_fs_crypto_data_offset_by_sectorid s) + 4096 * (1 + trees_ending (unat s + 1))"
    by (simp only: data_offset_correct s1 data_at_Suc Suc_eq_plus1 [symmetric])
  fix l assume "l < trees_ending (unat s + 1)"
  then obtain c where c: "unat s + 1 = 128 ^ Suc l * c" using trees_ending_dvd by (metis dvdE)
  then have "0 < c" by (cases c) auto
  then obtain i where i: "c = i + 1" by (metis Suc_eq_plus1 gr0_implies_Suc)
  then have q: "unat s + 1 = (i + 1) * 128 ^ (l + 1)" "(unat s + 1) div 128 ^ (l + 1) - 1 = i" using c by simp_all
  have "128 ^ (l + 1) \<le> unat s + 1" unfolding q(1) by simp
  then have "128 ^ (l + 1) < (2 :: nat) ^ 32" using assms by linarith
  then have "(128 :: nat) ^ (l + 1) < 128 ^ 5" by simp
  then have "l + 1 < 5" by (simp only: power_strict_increasing_iff)
  then have "unat (psync_fs_crypto_auth_offset l (of_nat i)) = auth_at l i"
    using assms q(1) by (intro auth_offset_correct) linarith+
  also have "\<dots> = data_at (unat s) + 4096 * (l + 1)"
    using auth_at_after [of l i] by (simp only: q(1) [symmetric] add_diff_cancel_right')
  finally show "unat (psync_fs_crypto_auth_offset l (of_nat ((unat s + 1) div 128 ^ (l + 1) - 1)))
        = unat (psync_fs_crypto_data_offset_by_sectorid s) + 4096 * (1 + l)"
    unfolding q(2) data_offset_correct by simp
qed

theorem crypto_layout_tiles_witness:
  "trees_ending 16384 = 2 \<and> unat (psync_fs_crypto_data_offset_by_sectorid 16384)
     = unat (psync_fs_crypto_data_offset_by_sectorid 16383) + 12288
   \<and> unat (psync_fs_crypto_auth_offset 1 0) = unat (psync_fs_crypto_data_offset_by_sectorid 16383) + 8192"
proof -
  have t: "trees_ending (unat (16383 :: u32) + 1) = 2"
    by (simp add: trees_ending.simps [of 16384] trees_ending.simps [of 128] trees_ending.simps [of "Suc 0"])
  then show ?thesis using crypto_layout_tiles [of 16383] by (auto dest: spec [of _ 1])
qed

text \<open>
  C11. The layout computed from the size of an encrypted file is the layout computed from the size of its
  contents, down to every field, and so the size of the contents is recovered, for up to 16 TB.
\<close>

theorem crypto_layout_roundtrip:
  assumes "n \<le> 2 ^ 44"
  shows "\<exists>c o'. psync_fs_crypto_crypto_size n = Some c \<and> psync_fs_crypto_offsets_by_plainsize n = Some o'
    \<and> psync_fs_crypto_offsets_by_cryptosize c = Some o' \<and> psync_fs_crypto_plain_size c = Some n"
proof (cases "n = 0")
  case True
  then show ?thesis
    by (simp add: psync_fs_crypto_crypto_size_def psync_fs_crypto_plain_size_def psync_fs_crypto_offsets_by_plainsize_def
        psync_fs_crypto_offsets_by_cryptosize_def layout_words no_offsets_def Let_def)
next
  case False
  have n: "0 < unat n" "unat n \<le> 2 ^ 44" using assms False by (simp_all add: word_le_nat_alt unat_gt_0)
  obtain m where lv: "tree_levels (unat n) m" using tree_levels_exist [OF n(2)] by blast
  show ?thesis
    using crypto_size_correct [OF n lv] offsets_by_plainsize_correct [OF n lv] offsets_by_cryptosize_correct [OF n lv]
    by (simp add: psync_fs_crypto_plain_size_def layout_of_def fill_def)
qed

theorem crypto_layout_roundtrip_witness:
  "\<exists>c. psync_fs_crypto_crypto_size 1000000 = Some c \<and> psync_fs_crypto_plain_size c = Some 1000000"
  using crypto_layout_roundtrip [of 1000000] by auto

lemma auth_record:
  assumes "0 < n" "n \<le> 2 ^ 44" "unat sid * 4096 < unat n" "psync_fs_crypto_offsets_by_plainsize n = Some o'"
    "level \<le> unat (treelevels o')"
  shows "\<exists>off len aid. psync_fs_crypto_get_auth_sector_off sid level o' = Some (off, len, aid)
    \<and> unat off + unat len \<le> unat (masterauthoff o') + (if level = unat (treelevels o') then 32 else 0)
    \<and> (level = unat (treelevels o') \<longrightarrow> off = masterauthoff o' \<and> len = 32)
    \<and> unat aid = unat sid div 128 ^ level mod 128 \<and> 32 * (unat aid + 1) \<le> unat len"
proof -
  have n: "0 < unat n" "unat n \<le> 2 ^ 44" using assms by (simp_all add: word_le_nat_alt unat_gt_0)
  obtain m where lv: "tree_levels (unat n) m" using tree_levels_exist [OF n(2)] by blast
  have m: "1 \<le> m" "m \<le> 5" "last_sector (unat n) div 128 ^ m = 0" using lv by (simp_all add: tree_levels_def)
  let ?k = "last_sector (unat n)"
  have o': "o' = layout_of (unat n) m" using offsets_by_plainsize_correct [OF n lv] assms(4) by simp
  have tl: "unat (treelevels o') = m" using m by (simp add: o' layout_of_def fill_def unat_of_nat)
  then have lm: "level \<le> m" using assms(5) by simp
  have k: "?k < 2 ^ 32" using n(2) by (simp add: last_sector_def)
  have sk: "unat sid \<le> ?k" 
  proof -
    have "unat sid * 4096 < (?k + 1) * 4096"
      using assms(3) conjunct2 [OF last_sector_bounds [OF n(1)]] by (rule less_le_trans)
    then show ?thesis by simp
  qed
  define i j where "i = unat sid div 128 ^ Suc level" and "j = ?k div 128 ^ Suc level"
  have ij: "i \<le> j" unfolding i_def j_def using sk by (rule div_le_mono)
  have jk: "j \<le> ?k" by (simp add: j_def)
  have small: "x < 2 ^ 32" if "x \<le> ?k" for x using that k by linarith
  have loop: "auth_level_loop level (of_nat ?k div 128) (sid div 128) (sid mod 128)
      = (of_nat j, of_nat i, of_nat (unat sid div 128 ^ level mod 128))"
  proof -
    have "unat (of_nat ?k div 128 :: u32) div 128 ^ level = j" "unat (sid div 128) div 128 ^ level = i"
      using k by (simp_all add: unat_div unat_u32 i_def j_def div_mult2_eq)
    moreover have "(if level = 0 then sid mod 128 else of_nat (unat (sid div 128) div 128 ^ (level - 1) mod 128))
        = (of_nat (unat sid div 128 ^ level mod 128) :: u32)"
      by (cases level) (simp_all add: unat_div div_mult2_eq word_unat_eq_iff unat_mod unat_of_nat)
    ultimately show ?thesis by (simp only: auth_level_loop_correct)
  qed
  have get: "psync_fs_crypto_get_auth_sector_off sid level o' =
    (if i = j then Some (lastauthsectoroff o' ! level, ucast (lastauthsectorlen o' ! level), of_nat (unat sid div 128 ^ level mod 128))
     else Some (psync_fs_crypto_auth_offset level (of_nat i), 4096, of_nat (unat sid div 128 ^ level mod 128)))"
  proof -
    have "plainsize o' = of_nat (unat n)" by (simp add: o' layout_of_def fill_def)
    moreover have "(of_nat i :: u32) = of_nat j \<longleftrightarrow> i = j" "(of_nat i :: u32) < of_nat j \<longleftrightarrow> i < j"
      using small [of i] small [of j] ij jk by (simp_all add: word_unat_eq_iff word_less_nat_alt unat_u32)
    ultimately show ?thesis
      using ij unfolding psync_fs_crypto_get_auth_sector_off_def layout_words
      by (simp only: last_sectorid_correct [OF n] loop Let_def prod.case) auto
  qed
  have aid: "unat (of_nat (unat sid div 128 ^ level mod 128) :: u32) = unat sid div 128 ^ level mod 128"
  proof -
    have "unat sid div 128 ^ level mod 128 < 128" by simp
    then show ?thesis by (intro unat_u32) simp
  qed
  have master: "unat (masterauthoff o') = level_off (unat n) m"
    using tree_levels_size(2) [OF n(1) lv] level_off_last [OF m(3)] by (simp add: o' layout_of_def fill_def unat_of_nat)
  have off: "level_off (unat n) m < 2 ^ 48" using tree_levels_size(2) [OF n(1) lv] level_off_last [OF m(3)] by simp
  show ?thesis
  proof (cases "i = j")
    case True
    have l: "level < 6" using lm m by simp
    have o: "unat (lastauthsectoroff o' ! level) = level_off (unat n) level"
      using level_off_mono [OF lm, of "unat n"] off lm l by (simp add: o' layout_of_def fill_def unat_of_nat)
    have e: "unat (ucast (lastauthsectorlen o' ! level) :: u32) = level_len ?k level"
      using level_len_bound(1) [of ?k level] lm l
      by (simp add: o' layout_of_def fill_def unat_of_nat unsigned_ucast_eq take_bit_eq_mod)
    have "level_off (unat n) level + level_len ?k level = level_off (unat n) (Suc level)" by (simp add: level_off_def)
    moreover have "level_off (unat n) (Suc level) \<le> level_off (unat n) m" if "level < m" using that by (intro level_off_mono) simp
    moreover have "level_len ?k m = 32" using level_len_last [OF lv] .
    ultimately have end': "level_off (unat n) level + level_len ?k level \<le> level_off (unat n) m + (if level = m then 32 else 0)"
      using lm by (cases "level = m") auto
    have "unat sid div 128 ^ level mod 128 \<le> ?k div 128 ^ level mod 128"
    proof -
      define a b where "a = unat sid div 128 ^ level" and "b = ?k div 128 ^ level"
      have "a \<le> b" unfolding a_def b_def using sk by (rule div_le_mono)
      moreover have "a div 128 = b div 128" using True by (simp only: i_def j_def a_def b_def power_Suc2 div_mult2_eq)
      ultimately have "128 * (a div 128) + a mod 128 \<le> 128 * (a div 128) + b mod 128" by (metis mult_div_mod_eq)
      then have "a mod 128 \<le> b mod 128" by (simp only: add_le_cancel_left)
      then show ?thesis by (simp only: a_def b_def)
    qed
    then have "32 * (unat sid div 128 ^ level mod 128 + 1) \<le> level_len ?k level" by (simp add: level_len_def)
    moreover have "lastauthsectoroff o' ! level = masterauthoff o' \<and> (ucast (lastauthsectorlen o' ! level) :: u32) = 32" if "level = m"
      using that o e master level_len_last [OF lv] by (simp add: word_unat_eq_iff)
    ultimately show ?thesis using get True o e aid end' by (simp add: tl master)
  next
    case False
    have l: "level < 6" using lm m by simp
    have ij: "i + 1 \<le> j" using ij False by simp
    have "j * 128 ^ (level + 1) \<le> ?k" by (simp add: j_def)
    then have q: "(i + 1) * 128 ^ (level + 1) \<le> ?k" using mult_le_mono1 [OF ij, of "128 ^ (level + 1)"] by linarith
    then have "unat (psync_fs_crypto_auth_offset level (of_nat i)) = auth_at level i"
      using k by (intro auth_offset_correct l) linarith
    moreover have "auth_at level i + 4096 \<le> level_off (unat n) 0"
      using auth_at_end [of level i] data_at_mono [OF q] last_sector_bounds [OF n(1)] by (simp add: data_at_def level_off_def)
    moreover have "level_off (unat n) 0 \<le> level_off (unat n) m" by (rule level_off_mono) simp
    moreover have "unat sid div 128 ^ level mod 128 < 128" by simp
    moreover have "level \<noteq> m"
    proof
      assume "level = m"
      then have "j = 0" using m(3) by (simp add: j_def div_mult2_eq power_Suc2 del: power_Suc)
      then show False using ij by simp
    qed
    ultimately show ?thesis using get False aid by (simp add: master tl)
  qed
qed

lemma needs_master: "psync_fs_crypto_offsets_by_plainsize n = Some o' \<Longrightarrow> 0 < n \<Longrightarrow> n \<le> 2 ^ 44 \<Longrightarrow>
  psync_fs_crypto_crypto_size n = Some c \<Longrightarrow> unat c = unat (masterauthoff o') + (if n \<le> 4096 then 0 else 32)"
proof -
  assume a: "psync_fs_crypto_offsets_by_plainsize n = Some o'" "0 < n" "n \<le> 2 ^ 44" "psync_fs_crypto_crypto_size n = Some c"
  have n: "0 < unat n" "unat n \<le> 2 ^ 44" using a by (simp_all add: word_le_nat_alt unat_gt_0)
  obtain m where lv: "tree_levels (unat n) m" using tree_levels_exist [OF n(2)] by blast
  have e: "o' = layout_of (unat n) m" "c = of_nat (file_len (unat n) m)"
    using offsets_by_plainsize_correct [OF n lv] crypto_size_correct [OF n lv] a(1,4) by simp_all
  have "unat c = file_len (unat n) m"
    using file_len_bounds(2) [OF n(1) lv] by (simp only: e(2) unat_of_nat) simp
  moreover have "unat (masterauthoff o') = trees_len (unat n) m"
    using tree_levels_size(2) [OF n(1) lv] by (simp add: e(1) layout_of_def fill_def unat_of_nat)
  moreover have "n \<le> 4096 \<longleftrightarrow> unat n \<le> 4096" by (simp add: word_le_nat_alt)
  ultimately show ?thesis by (simp add: file_len_def)
qed

text \<open>
  C32. The sector with the authentication record of a sector at any level, up to the record of the whole file: it
  lies in the encrypted file, of size \<open>c\<close>, and has the record at the index that is returned, which is that
  of the sector's ancestor in its group of 128. One case is outside: a file of a single sector has no record
  of the whole file, and for it, which callers ask for as well, the place at the end of the file is returned.
\<close>

theorem crypto_auth_record_inside:
  assumes "0 < n" "n \<le> 2 ^ 44" "unat sid * 4096 < unat n" "psync_fs_crypto_offsets_by_plainsize n = Some o'"
    "psync_fs_crypto_crypto_size n = Some c" "level \<le> unat (treelevels o')"
  shows "\<exists>off len aid. psync_fs_crypto_get_auth_sector_off sid level o' = Some (off, len, aid)
    \<and> (if level = unat (treelevels o') \<and> n \<le> 4096 then off = c \<and> len = 32 else unat off + unat len \<le> unat c)
    \<and> unat aid = unat sid div 128 ^ level mod 128 \<and> 32 * (unat aid + 1) \<le> unat len"
proof -
  have c: "unat c = unat (masterauthoff o') + (if n \<le> 4096 then 0 else 32)" by (rule needs_master) (fact assms)+
  obtain off len aid where r: "psync_fs_crypto_get_auth_sector_off sid level o' = Some (off, len, aid)"
    "unat off + unat len \<le> unat (masterauthoff o') + (if level = unat (treelevels o') then 32 else 0)"
    "level = unat (treelevels o') \<longrightarrow> off = masterauthoff o' \<and> len = 32"
    "unat aid = unat sid div 128 ^ level mod 128" "32 * (unat aid + 1) \<le> unat len"
    using auth_record [OF assms(1-4,6)] by blast
  moreover have "if level = unat (treelevels o') \<and> n \<le> 4096 then off = c \<and> len = 32 else unat off + unat len \<le> unat c"
    using r(2,3) c by (auto simp: word_unat_eq_iff split: if_splits)
  ultimately show ?thesis by blast
qed

theorem crypto_auth_record_inside_witness:
  "\<exists>o' c off len aid. psync_fs_crypto_offsets_by_plainsize 1000000 = Some o' \<and> psync_fs_crypto_crypto_size 1000000 = Some c
    \<and> psync_fs_crypto_get_auth_sector_off 200 0 o' = Some (off, len, aid) \<and> unat off + unat len \<le> unat c \<and> unat aid = 72"
proof -
  have n: "0 < unat (1000000 :: u64)" "unat (1000000 :: u64) \<le> 2 ^ 44" by simp_all
  obtain m where lv: "tree_levels (unat (1000000 :: u64)) m" using tree_levels_exist [OF n(2)] by blast
  obtain o' c where o': "psync_fs_crypto_offsets_by_plainsize 1000000 = Some o'" "psync_fs_crypto_crypto_size 1000000 = Some c"
    using offsets_by_plainsize_correct [OF n lv] crypto_size_correct [OF n lv] by simp
  then show ?thesis using crypto_auth_record_inside [of 1000000 200 o' c 0] by auto
qed

text \<open>
  The assertion in the computation from the encrypted size admits six levels, and the tables of the
  record have entries for six, from 0 to 5: for every size that needs six levels the store at the sixth
  is behind the end of both arrays. The size comes from the server.
\<close>

theorem crypto_layout_overrun:
  assumes "0x810204081020 < c" "c \<le> 0x40810204081020"
  shows "find_level (c - 32) = PSYNC_CRYPTO_MAX_HASH_TREE_LEVEL \<and> psync_fs_crypto_offsets_by_cryptosize c = None"
proof -
  have c: "\<not> c \<le> 32" "4096 + 32 < c" using assms by (auto simp: word_less_nat_alt word_le_nat_alt)
  have u: "unat (c - 32) = unat c - 32" using c by (simp add: unat_sub word_le_nat_alt)
  have "\<not> c - 32 \<le> 0x81000" "\<not> c - 32 \<le> 0x4081000" "\<not> c - 32 \<le> 0x204081000" "\<not> c - 32 \<le> 0x10204081000"
    "\<not> c - 32 \<le> 0x810204081000" "c - 32 \<le> 0x40810204081000"
    using assms by (simp_all add: word_less_nat_alt word_le_nat_alt u)
  moreover have "[1..<7] = [1, 2, 3, 4, 5, 6 :: nat]" by (simp add: upt_conv_Cons)
  ultimately have f: "find_level (c - 32) = 6" by (simp add: find_level_def layout_sizes max_level_size_def)
  moreover have "put_last 6 a b (no_offsets\<lparr>needmasterauth := x, masterauthoff := y, treelevels := z\<rparr>) = None" for a b x y z
    by (simp add: put_last_def no_offsets_def)
  ultimately show ?thesis using c
    by (simp add: psync_fs_crypto_offsets_by_cryptosize_def layout_sizes Let_def)
qed

theorem crypto_layout_overrun_witness: "psync_fs_crypto_offsets_by_cryptosize 0x820000000000 = None"
  using crypto_layout_overrun [of "0x820000000000"] by simp

end
