(* ===== verification/FsDrive.thy ===== *)
theory FsDrive
  imports FsPaths CryptoLayout
begin

unbundle bit_operations_syntax

text \<open>
  The operations of the mounted drive on paths, \<^verbatim>\<open>pfs.c\<close>, as the file system calls them on Linux: the
  attributes of an entry, the listing of a folder, making and removing folders and files, opening and
  renaming. A folder shows the rows of the tables of the account together with its pending changes.

  Given by other code, in \<open>stat_env\<close>: the user and group, the clock, the first unused id of the files that
  make the file manager refresh, the modification time and size of the data file of a new file, the size
  of an open file with the modification time of its log, the creation time and length of a static
  file, and what the plain size is for sizes whose layout overruns its arrays. A folder's record has a field \<^verbatim>\<open>mtime\<close> that is read here but never set, so it stays 0.
\<close>

section \<open>Attributes\<close>

record stat_t =
  st_ino :: u64
  st_ctime :: int
  st_mtime :: int
  st_atime :: int
  st_mode :: u32
  st_nlink :: int
  st_size :: u64
  st_blocks :: u64
  st_blksize :: nat
  st_uid :: nat
  st_gid :: nat

record stat_env =
  se_uid :: nat
  se_gid :: nat
  se_now :: int
  se_fake_fileid :: int
  se_data :: "int \<Rightarrow> (int \<times> u64) option"
  se_open :: "int \<Rightarrow> (u64 \<times> int option) option"
  se_static :: "nat \<Rightarrow> int \<times> u64"
  se_overrun :: "u64 \<Rightarrow> u64"

definition FS_BLOCK_SIZE :: nat where "FS_BLOCK_SIZE = 4096"

definition S_IFDIR :: u32 where "S_IFDIR = 0x4000"
definition S_IFREG :: u32 where "S_IFREG = 0x8000"

definition ENOTCONN :: int where "ENOTCONN = 107"
definition EINVAL :: int where "EINVAL = 22"
definition EPERM :: int where "EPERM = 1"
definition ENOTDIR :: int where "ENOTDIR = 20"
definition EISDIR :: int where "EISDIR = 21"
definition EROFS :: int where "EROFS = 30"
definition EXDEV :: int where "EXDEV = 18"
definition ENOMEM :: int where "ENOMEM = 12"

lemmas drive_errnos = errnos ENOTCONN_def EINVAL_def EPERM_def ENOTDIR_def EISDIR_def EROFS_def EXDEV_def ENOMEM_def

definition PSYNC_FOLDER_FLAG_PUBLIC_ROOT :: u32 where "PSYNC_FOLDER_FLAG_PUBLIC_ROOT = 4"
definition PSYNC_FOLDER_FLAG_BACKUP_DEVICE_LIST :: u32 where "PSYNC_FOLDER_FLAG_BACKUP_DEVICE_LIST = 8"
definition PSYNC_FOLDER_FLAG_BACKUP_DEVICE :: u32 where "PSYNC_FOLDER_FLAG_BACKUP_DEVICE = 16"
definition PSYNC_FOLDER_FLAG_BACKUP_ROOT :: u32 where "PSYNC_FOLDER_FLAG_BACKUP_ROOT = 32"
definition PSYNC_FOLDER_FLAG_BACKUP :: u32 where "PSYNC_FOLDER_FLAG_BACKUP = 64"

definition folderid_to_inode :: "int \<Rightarrow> u64" where "folderid_to_inode folderid = word_of_int folderid * 3"
definition fileid_to_inode :: "int \<Rightarrow> u64" where "fileid_to_inode fileid = word_of_int fileid * 3 + 1"
definition taskid_to_inode :: "int \<Rightarrow> u64" where "taskid_to_inode taskid = word_of_int taskid * 3 + 2"

text \<open>What the functions have in common: a cleared buffer with the owner.\<close>

definition folder_stat :: "stat_env \<Rightarrow> u64 \<Rightarrow> int \<Rightarrow> int \<Rightarrow> stat_t" where
  "folder_stat se ino mtime subdircnt = \<lparr>st_ino = ino, st_ctime = mtime, st_mtime = mtime, st_atime = mtime,
     st_mode = S_IFDIR OR 0x1ed, st_nlink = subdircnt + 2, st_size = of_nat FS_BLOCK_SIZE, st_blocks = 1,
     st_blksize = FS_BLOCK_SIZE, st_uid = se_uid se, st_gid = se_gid se\<rparr>"

definition file_stat :: "stat_env \<Rightarrow> u64 \<Rightarrow> int \<Rightarrow> u64 \<Rightarrow> stat_t" where
  "file_stat se ino mtime sz = \<lparr>st_ino = ino, st_ctime = mtime, st_mtime = mtime, st_atime = mtime,
     st_mode = S_IFREG OR 0x1a4, st_nlink = 1, st_size = sz, st_blocks = (sz + 511) div 512,
     st_blksize = FS_BLOCK_SIZE, st_uid = se_uid se, st_gid = se_gid se\<rparr>"

definition plain_size :: "stat_env \<Rightarrow> u64 \<Rightarrow> u64" where
  "plain_size se sz = (case psync_fs_crypto_plain_size sz of Some n \<Rightarrow> n | None \<Rightarrow> se_overrun se sz)"

definition psync_row_to_folder_stat :: "stat_env \<Rightarrow> folder_row \<Rightarrow> stat_t" where
  "psync_row_to_folder_stat se r = folder_stat se (folderid_to_inode (fo_id r)) (fo_mtime r) (fo_subdircnt r)"

text \<open>The inode number is stored before the buffer is cleared, so it is 0.\<close>

definition psync_row_to_file_stat :: "stat_env \<Rightarrow> file_row \<Rightarrow> u32 \<Rightarrow> stat_t" where
  "psync_row_to_file_stat se r flags = file_stat se 0 (fi_mtime r)
     (if flags AND PSYNC_FOLDER_FLAG_ENCRYPTED \<noteq> 0 then plain_size se (fi_size r) else fi_size r)"

definition psync_mkdir_to_folder_stat :: "stat_env \<Rightarrow> mkdir_t \<Rightarrow> stat_t" where
  "psync_mkdir_to_folder_stat se mk =
     folder_stat se (if 0 \<le> mk_folderid mk then folderid_to_inode (mk_folderid mk) else taskid_to_inode (- mk_folderid mk))
       (mk_mtime mk) (mk_subdircnt mk)"

definition psync_creat_db_to_file_stat :: "stat_env \<Rightarrow> int \<Rightarrow> u32 \<Rightarrow> fs_db \<Rightarrow> stat_t option" where
  "psync_creat_db_to_file_stat se fileid flags db =
     map_option (\<lambda>r. psync_row_to_file_stat se r flags) (find (\<lambda>r. fi_id r = fileid) (file_tab db))"

definition psync_creat_stat_fake_file :: "stat_env \<Rightarrow> stat_t" where
  "psync_creat_stat_fake_file se = file_stat se 0 (se_now se) 0"

text \<open>
  For a file that is open \<^verbatim>\<open>se_data\<close> is that of its data file, otherwise that of the file in the cache. In an
  encrypted folder the size of an open file is its current one, and the time that of its log.
\<close>

definition psync_creat_local_to_file_stat :: "stat_env \<Rightarrow> creat_t \<Rightarrow> u32 \<Rightarrow> stat_t option" where
  "psync_creat_local_to_file_stat se cr folderflags =
     (if cr_fileid cr < se_fake_fileid se then Some (psync_creat_stat_fake_file se)
      else case se_data se (cr_fileid cr) of
             None \<Rightarrow> None
           | Some (mtime, sz) \<Rightarrow>
             (let st = file_stat se (taskid_to_inode (- cr_fileid cr)) mtime in
              Some (if folderflags AND PSYNC_FOLDER_FLAG_ENCRYPTED \<noteq> 0
                    then (case se_open se (cr_fileid cr) of
                            Some (current, log) \<Rightarrow>
                              (case log of Some t \<Rightarrow> (st current)\<lparr>st_mtime := t\<rparr> | None \<Rightarrow> st current)
                          | None \<Rightarrow> st (plain_size se sz))
                    else st sz)))"

definition psync_creat_static_to_file_stat :: "stat_env \<Rightarrow> creat_t \<Rightarrow> stat_t" where
  "psync_creat_static_to_file_stat se cr =
     (case se_static se (cr_taskid cr) of (ctime, datalen) \<Rightarrow> file_stat se (of_nat (cr_taskid cr)) ctime datalen)"

definition psync_creat_to_file_stat :: "stat_env \<Rightarrow> creat_t \<Rightarrow> u32 \<Rightarrow> fs_db \<Rightarrow> stat_t option" where
  "psync_creat_to_file_stat se cr folderflags db =
     (if cr_fileid cr > 0 then psync_creat_db_to_file_stat se (cr_fileid cr) folderflags db
      else if cr_fileid cr < 0 then psync_creat_local_to_file_stat se cr folderflags
      else Some (psync_creat_static_to_file_stat se cr))"

definition psync_fs_crypto_err_to_errno :: "int \<Rightarrow> int" where
  "psync_fs_crypto_err_to_errno cryptoerr =
     (if cryptoerr = - 1 then EACCES
      else if cryptoerr = - 2 then EIO
      else if cryptoerr = - 3 then ENOENT
      else if cryptoerr = - 4 then ENOENT
      else if cryptoerr = - 5 then EIO
      else if cryptoerr = - 6 then ENOTCONN
      else if cryptoerr = - 7 then EINVAL
      else if cryptoerr = - 8 then EINVAL
      else EINVAL)"

section \<open>One entry\<close>

text \<open>\<open>None\<close> for an entry that is not shown; the pointer to the record of the folder is \<open>folder\<close>.\<close>

definition getattr_entry :: "stat_env \<Rightarrow> int \<Rightarrow> fname \<Rightarrow> u32 \<Rightarrow> fs_state \<Rightarrow> stat_t option" where
  "getattr_entry se folderid name flags s =
     (let folder = get_folder folderid s in
      case Option.bind folder (psync_fstask_find_mkdir name 0) of
        Some mk \<Rightarrow> if mk_flags mk AND PSYNC_FOLDER_FLAG_INVISIBLE \<noteq> 0 then None else Some (psync_mkdir_to_folder_stat se mk)
      | None \<Rightarrow>
        (case (if Option.bind folder (psync_fstask_find_rmdir name 0) = None then db_folder folderid name (fs_db s) else None) of
           Some r \<Rightarrow> Some (psync_row_to_folder_stat se r)
         | None \<Rightarrow>
           (let row = db_file folderid name (fs_db s);
                row = (if Option.bind folder (psync_fstask_find_unlink name 0) \<noteq> None then None else row) in
            case row of
              Some r \<Rightarrow> Some (psync_row_to_file_stat se r flags)
            | None \<Rightarrow>
              (case Option.bind folder (psync_fstask_find_creat name 0) of
                 Some cr \<Rightarrow> psync_creat_to_file_stat se cr flags (fs_db s)
               | None \<Rightarrow> None))))"

definition psync_fs_getrootattr :: "stat_env \<Rightarrow> fs_state \<Rightarrow> int \<times> stat_t option" where
  "psync_fs_getrootattr se s =
     (0, map_option (\<lambda>r. folder_stat se (folderid_to_inode 0) (fo_mtime r) (fo_subdircnt r))
           (find (\<lambda>r. fo_id r = 0) (folder_tab (fs_db s))))"

text \<open>The return code, and the buffer when it was filled.\<close>

definition psync_fs_getattr :: "path_env \<Rightarrow> stat_env \<Rightarrow> u8 list \<Rightarrow> fs_state \<Rightarrow> int \<times> stat_t option" where
  "psync_fs_getattr pe se path s =
     (if path = [slash] then psync_fs_getrootattr se s
      else if pe_waiting pe then (- EACCES, None)
      else case psync_fsfolder_resolve_path pe path s of
             (None, crr) \<Rightarrow> (if crr \<noteq> 0 then - psync_fs_crypto_err_to_errno crr else - ENOENT, None)
           | (Some fp, _) \<Rightarrow>
             (case getattr_entry se (fp_folderid fp) (fp_name fp) (ucast (fp_flags fp)) s of
                Some st \<Rightarrow> (0, Some st)
              | None \<Rightarrow> (- ENOENT, None)))"

section \<open>The entries of a folder\<close>

definition readdir_rows :: "stat_env \<Rightarrow> int \<Rightarrow> u32 \<Rightarrow> fs_state \<Rightarrow> (fname \<times> stat_t) list" where
  "readdir_rows se folderid flags s =
     (let folder = get_folder folderid s; usable = (\<lambda>n. n \<noteq> [] \<and> hd n \<noteq> 0) in
      if 0 \<le> folderid
      then map (\<lambda>r. (fo_name r, psync_row_to_folder_stat se r))
             (filter (\<lambda>r. fo_parent r = Some folderid \<and> usable (fo_name r)
                \<and> Option.bind folder (psync_fstask_find_rmdir (fo_name r) 0) = None
                \<and> Option.bind folder (psync_fstask_find_mkdir (fo_name r) 0) = None) (folder_tab (fs_db s)))
         @ map (\<lambda>r. (fi_name r, psync_row_to_file_stat se r flags))
             (filter (\<lambda>r. fi_parent r = folderid \<and> usable (fi_name r)
                \<and> Option.bind folder (psync_fstask_find_unlink (fi_name r) 0) = None) (file_tab (fs_db s)))
      else [])"

definition readdir_pending :: "stat_env \<Rightarrow> int \<Rightarrow> u32 \<Rightarrow> fs_state \<Rightarrow> (fname \<times> stat_t) list" where
  "readdir_pending se folderid flags s =
     (case get_folder folderid s of
        None \<Rightarrow> []
      | Some folder \<Rightarrow>
          map (\<lambda>mk. (mk_name mk, psync_mkdir_to_folder_stat se mk))
            (filter (\<lambda>mk. mk_flags mk AND PSYNC_FOLDER_FLAG_INVISIBLE = 0) (fl_mkdirs folder))
          @ List.map_filter (\<lambda>cr. map_option (\<lambda>st. (cr_name cr, st)) (psync_creat_to_file_stat se cr flags (fs_db s)))
              (fl_creats folder))"

text \<open>A name that cannot be decoded is left out.\<close>

definition filler_decoded :: "(fname \<Rightarrow> fname option) option \<Rightarrow> fname \<times> stat_t \<Rightarrow> (fname \<times> stat_t option) option" where
  "filler_decoded dec e =
     (case dec of
        Some d \<Rightarrow> map_option (\<lambda>namedec. (namedec, Some (snd e))) (d (fst e))
      | None \<Rightarrow> Some (fst e, Some (snd e)))"

definition dot :: fname where "dot = [46]"
definition dotdot :: fname where "dotdot = [46, 46]"

definition psync_fs_readdir :: "path_env \<Rightarrow> stat_env \<Rightarrow> u8 list \<Rightarrow> fs_state \<Rightarrow> int \<times> (fname \<times> stat_t option) list" where
  "psync_fs_readdir pe se path s =
     (if pe_waiting pe then (- EACCES, [])
      else case psync_fsfolderid_by_path pe path s of
             (None, crr) \<Rightarrow> (if crr \<noteq> 0 then - psync_fs_crypto_err_to_errno crr else - ENOENT, [])
           | (Some (folderid, flags), _) \<Rightarrow>
             (case (if flags AND PSYNC_FOLDER_FLAG_ENCRYPTED \<noteq> 0 then map_sum Some id (pe_decoder pe folderid) else Inl None) of
                Inr err \<Rightarrow> (- psync_fs_crypto_err_to_errno err, [])
              | Inl dec \<Rightarrow>
                  (0, (dot, None) # (if folderid \<noteq> 0 then [(dotdot, None)] else [])
                      @ List.map_filter (filler_decoded dec)
                          (readdir_rows se folderid flags s @ readdir_pending se folderid flags s))))"

section \<open>Making and removing entries\<close>

text \<open>Running when there is no login yet, and with the path resolved.\<close>

definition psync_fs_mkdir :: "fs_env \<Rightarrow> path_env \<Rightarrow> u8 list \<Rightarrow> fs_state \<Rightarrow> int \<times> fs_state" where
  "psync_fs_mkdir e pe path s =
     (if pe_waiting pe then (- EACCES, s)
      else case fst (psync_fsfolder_resolve_path pe path s) of
             None \<Rightarrow> (- ENOENT, s)
           | Some fp \<Rightarrow>
             if ucast (fp_permissions fp) AND PSYNC_PERM_CREATE = 0 then (- EACCES, s)
             else if ucast (fp_flags fp) AND (PSYNC_FOLDER_FLAG_BACKUP_DEVICE_LIST OR PSYNC_FOLDER_FLAG_BACKUP_DEVICE) \<noteq> 0
             then (- EACCES, s)
             else if ucast (fp_flags fp) AND PSYNC_FOLDER_FLAG_ENCRYPTED \<noteq> 0 \<and> pe_expired pe then (- EROFS, s)
             else psync_fstask_mkdir e (fp_folderid fp) (fp_name fp) (ucast (fp_flags fp)) s)"

definition psync_fs_can_rmdir :: "path_env \<Rightarrow> u8 list \<Rightarrow> fs_state \<Rightarrow> (int \<times> fs_state) option" where
  "psync_fs_can_rmdir pe path s =
     (case fst (psync_fsfolder_resolve_path pe path s) of
        None \<Rightarrow> Some (- ENOENT, s)
      | Some fp \<Rightarrow>
        if ucast (fp_permissions fp) AND PSYNC_PERM_DELETE = 0 then Some (- EACCES, s)
        else psync_fstask_can_rmdir (fp_folderid fp) (ucast (fp_flags fp)) (fp_name fp) s)"

definition psync_fs_rmdir :: "fs_env \<Rightarrow> path_env \<Rightarrow> u8 list \<Rightarrow> fs_state \<Rightarrow> int \<times> fs_state" where
  "psync_fs_rmdir e pe path s =
     (if pe_waiting pe then (- EACCES, s)
      else case fst (psync_fsfolder_resolve_path pe path s) of
             None \<Rightarrow> (- ENOENT, s)
           | Some fp \<Rightarrow>
             if ucast (fp_permissions fp) AND PSYNC_PERM_DELETE = 0 then (- EACCES, s)
             else psync_fstask_rmdir e (fp_folderid fp) (ucast (fp_flags fp)) (fp_name fp) s)"

definition psync_fs_can_unlink :: "path_env \<Rightarrow> u8 list \<Rightarrow> fs_state \<Rightarrow> int \<times> fs_state" where
  "psync_fs_can_unlink pe path s =
     (case fst (psync_fsfolder_resolve_path pe path s) of
        None \<Rightarrow> (- ENOENT, s)
      | Some fp \<Rightarrow>
        if ucast (fp_permissions fp) AND PSYNC_PERM_DELETE = 0 then (- EACCES, s)
        else psync_fstask_can_unlink (fp_folderid fp) (fp_name fp) s)"

text \<open>After the unlock the flags of the path are read, whether or not there is one: \<open>None\<close> when there is none.\<close>

definition psync_fs_unlink :: "fs_env \<Rightarrow> path_env \<Rightarrow> u8 list \<Rightarrow> fs_state \<Rightarrow> (int \<times> fs_state) option" where
  "psync_fs_unlink e pe path s =
     (if pe_waiting pe then Some (- EACCES, s)
      else case fst (psync_fsfolder_resolve_path pe path s) of
             None \<Rightarrow> None
           | Some fp \<Rightarrow>
             (let (ret, s) = (if ucast (fp_permissions fp) AND PSYNC_PERM_DELETE = 0 then (- EACCES, s)
                    else psync_fstask_unlink e (fp_folderid fp) (fp_name fp) s)
              in Some (ret, emit_if (ucast (fp_flags fp) AND PSYNC_FOLDER_FLAG_BACKUP \<noteq> 0 \<and> ret = 0) BackupFileDeleted s)))"

section \<open>Renaming\<close>

definition psync_fs_can_move :: "int \<Rightarrow> u32 \<Rightarrow> int \<Rightarrow> u32 \<Rightarrow> bool \<Rightarrow> bool" where
  "psync_fs_can_move fromfolderid frompermissions tofolderid topermissions sameshare =
     (if fromfolderid = tofolderid then frompermissions AND PSYNC_PERM_MODIFY = PSYNC_PERM_MODIFY
      else if frompermissions AND PSYNC_PERM_ALL = PSYNC_PERM_ALL \<and> topermissions AND PSYNC_PERM_ALL = PSYNC_PERM_ALL then True
      else if frompermissions AND (PSYNC_PERM_DELETE OR PSYNC_PERM_MODIFY) = 0
        \<or> topermissions AND (PSYNC_PERM_CREATE OR PSYNC_PERM_MODIFY) = 0 then False
      else if sameshare then frompermissions AND PSYNC_PERM_MODIFY \<noteq> 0
      else frompermissions AND PSYNC_PERM_DELETE \<noteq> 0 \<and> topermissions AND PSYNC_PERM_CREATE \<noteq> 0)"

text \<open>The folders that are compared are the moved one and the target, not its parent and the target.\<close>

definition psync_fs_rename_folder ::
  "fs_env \<Rightarrow> int \<Rightarrow> int \<Rightarrow> fname \<Rightarrow> u32 \<Rightarrow> int \<Rightarrow> fname \<Rightarrow> u32 \<Rightarrow> u32 \<Rightarrow> bool \<Rightarrow> fs_state \<Rightarrow> int \<times> fs_state" where
  "psync_fs_rename_folder e folderid pfolderid name srcpermissions to_folderid new_name targetperms targetflags sameshare s =
     (if \<not> psync_fs_can_move folderid srcpermissions to_folderid targetperms sameshare then (- EACCES, s)
      else psync_fstask_rename_folder e folderid pfolderid name to_folderid new_name targetflags s)"

definition psync_fs_rename_file ::
  "fs_env \<Rightarrow> int \<Rightarrow> int \<Rightarrow> fname \<Rightarrow> u32 \<Rightarrow> int \<Rightarrow> fname \<Rightarrow> u32 \<Rightarrow> bool \<Rightarrow> fs_state \<Rightarrow> int \<times> fs_state" where
  "psync_fs_rename_file e fileid pfolderid name srcpermissions to_folderid new_name targetperms sameshare s =
     (if \<not> psync_fs_can_move pfolderid srcpermissions to_folderid targetperms sameshare then (- EACCES, s)
      else psync_fstask_rename_file e fileid pfolderid name to_folderid new_name s)"

text \<open>
  \<^verbatim>\<open>psync_fs_rename_static_file\<close>; the source folder is held by the caller. \<open>None\<close> when the new name is that of
  the source record itself: it is freed as the target and then read.
\<close>

definition psync_fs_rename_static_file ::
  "fs_env \<Rightarrow> int \<Rightarrow> creat_t \<Rightarrow> int \<Rightarrow> fname \<Rightarrow> fs_state \<Rightarrow> (int \<times> fs_state) option" where
  "psync_fs_rename_static_file e srcfolder srccr to_folderid new_name s =
     (let s = goc to_folderid s;
          cr = psync_fstask_find_creat new_name 0 (fld to_folderid s)
      in if srcfolder = to_folderid \<and> cr = Some srccr then None
         else
           (let s = (case cr of
                  None \<Rightarrow> s
                | Some c \<Rightarrow>
                  (let s = (case psync_fstask_find_unlink new_name (cr_taskid c) (fld to_folderid s) of
                              Some u \<Rightarrow> upd to_folderid (del_unlink u) s | None \<Rightarrow> s)
                   in upd to_folderid (del_creat c) s));
                un = \<lparr>un_fileid = 0, un_taskid = cr_taskid srccr, un_name = new_name\<rparr>;
                s = psync_fstask_inject_unlink e to_folderid un s;
                c = \<lparr>cr_fileid = 0, cr_rfileid = 0, cr_taskid = cr_taskid srccr, cr_name = new_name\<rparr>;
                s = release to_folderid (psync_fstask_inject_creat to_folderid c s);
                s = (case psync_fstask_find_unlink (cr_name srccr) (cr_taskid srccr) (fld srcfolder s) of
                       Some u \<Rightarrow> upd srcfolder (del_unlink u) s | None \<Rightarrow> s)
            in Some (0, upd srcfolder (del_creat srccr) s)))"

definition psync_fs_is_file :: "int \<Rightarrow> fname \<Rightarrow> fs_state \<Rightarrow> bool \<times> fs_state" where
  "psync_fs_is_file folderid name s =
     (let (folder, s) = psync_fstask_get_folder_tasks_locked folderid s;
          ret = (if Option.bind folder (psync_fstask_find_creat name 0) \<noteq> None then 2
            else if Option.bind folder (psync_fstask_find_unlink name 0) \<noteq> None then 1 else (0 :: nat));
          s = release_if folder folderid s
      in if ret \<noteq> 0 then (ret = 2, s) else (db_file folderid name (fs_db s) \<noteq> None, s))"

definition psync_fs_is_folder :: "int \<Rightarrow> fname \<Rightarrow> fs_state \<Rightarrow> bool \<times> fs_state" where
  "psync_fs_is_folder folderid name s =
     (let (folder, s) = psync_fstask_get_folder_tasks_locked folderid s;
          ret = (if Option.bind folder (psync_fstask_find_mkdir name 0) \<noteq> None then 2
            else if Option.bind folder (psync_fstask_find_rmdir name 0) \<noteq> None then 1 else (0 :: nat));
          s = release_if folder folderid s
      in if ret \<noteq> 0 then (ret = 2, s) else (db_folder folderid name (fs_db s) \<noteq> None, s))"

definition psync_fs_is_folder_nonempty :: "int \<Rightarrow> fs_state \<Rightarrow> bool \<times> fs_state" where
  "psync_fs_is_folder_nonempty folderid s =
     (let (folder, s) = psync_fstask_get_folder_tasks_locked folderid s
      in (has_local_entries folder \<or> has_remote_entries folder folderid (fs_db s), release_if folder folderid s))"

definition psync_fs_is_nonempty_folder :: "int \<Rightarrow> fname \<Rightarrow> fs_state \<Rightarrow> bool \<times> fs_state" where
  "psync_fs_is_nonempty_folder parent_folderid name s =
     (let (folder, s) = psync_fstask_get_folder_tasks_locked parent_folderid s;
          (ret, s) = (case Option.bind folder (psync_fstask_find_mkdir name 0) of
              Some mk \<Rightarrow> (let (ne, s) = psync_fs_is_folder_nonempty (mk_folderid mk) s in (if ne then 2 else 1, s))
            | None \<Rightarrow> (if Option.bind folder (psync_fstask_find_rmdir name 0) \<noteq> None then 1 else (0 :: nat), s));
          s = release_if folder parent_folderid s
      in if ret \<noteq> 0 then (ret = 2, s)
         else case db_folder parent_folderid name (fs_db s) of
                Some r \<Rightarrow> psync_fs_is_folder_nonempty (fo_id r) s
              | None \<Rightarrow> (False, s))"

text \<open>
  The three ways of \<^verbatim>\<open>psync_fs_rename\<close>: the source is a folder \<open>fid\<close>, or a file \<open>fid\<close>. The folder ids of both
  names in the table, \<^verbatim>\<open>- 1\<close> without one, are to tell apart the renaming of a folder to itself.
\<close>

definition rename_dir :: "fs_env \<Rightarrow> int \<Rightarrow> fspath \<Rightarrow> fspath \<Rightarrow> bool \<Rightarrow> fs_state \<Rightarrow> int \<times> fs_state" where
  "rename_dir e fid old new other s =
     (let (file, s) = psync_fs_is_file (fp_folderid new) (fp_name new) s in
      if file then (- ENOTDIR, s)
      else
        (let (nonempty, s) = psync_fs_is_nonempty_folder (fp_folderid new) (fp_name new) s in
         if nonempty \<and> other then (- ENOTEMPTY, s)
         else psync_fs_rename_folder e fid (fp_folderid old) (fp_name old) (ucast (fp_permissions old)) (fp_folderid new)
                (fp_name new) (ucast (fp_permissions new)) (ucast (fp_flags new)) (fp_shareid old = fp_shareid new) s))"

definition rename_reg :: "fs_env \<Rightarrow> int \<Rightarrow> fspath \<Rightarrow> fspath \<Rightarrow> fs_state \<Rightarrow> int \<times> fs_state" where
  "rename_reg e fid old new s =
     psync_fs_rename_file e fid (fp_folderid old) (fp_name old) (ucast (fp_permissions old)) (fp_folderid new)
       (fp_name new) (ucast (fp_permissions new)) (fp_shareid old = fp_shareid new) s"

definition rename_creat :: "fs_env \<Rightarrow> creat_t \<Rightarrow> fspath \<Rightarrow> fspath \<Rightarrow> fs_state \<Rightarrow> (int \<times> fs_state) option" where
  "rename_creat e cr old new s =
     (let (dir, s) = psync_fs_is_folder (fp_folderid new) (fp_name new) s in
      if dir then Some (- EISDIR, s)
      else if cr_fileid cr = 0
      then psync_fs_rename_static_file e (fp_folderid old) cr (fp_folderid new) (fp_name new) s
      else Some (rename_reg e (cr_fileid cr) old new s))"

text \<open>The rows of the tables, when there is no pending folder or file with the name.\<close>

definition rename_row :: "fs_env \<Rightarrow> folder_t option \<Rightarrow> fspath \<Rightarrow> fspath \<Rightarrow> bool \<Rightarrow> fs_state \<Rightarrow> int \<times> fs_state" where
  "rename_row e folder old new other s =
     (case (if Option.bind folder (psync_fstask_find_rmdir (fp_name old) 0) = None
            then db_folder (fp_folderid old) (fp_name old) (fs_db s) else None) of
        Some r \<Rightarrow>
          if fp_folderid old \<noteq> fp_folderid new \<and> fo_flags r AND (PSYNC_FOLDER_FLAG_PUBLIC_ROOT
            OR PSYNC_FOLDER_FLAG_BACKUP_DEVICE_LIST OR PSYNC_FOLDER_FLAG_BACKUP_DEVICE OR PSYNC_FOLDER_FLAG_BACKUP_ROOT) \<noteq> 0
          then (- EPERM, s)
          else rename_dir e (fo_id r) old new other s
      | None \<Rightarrow>
        (case (if Option.bind folder (psync_fstask_find_unlink (fp_name old) 0) = None
               then db_file (fp_folderid old) (fp_name old) (fs_db s) else None) of
           Some r \<Rightarrow>
             (let (dir, s) = psync_fs_is_folder (fp_folderid new) (fp_name new) s in
              if dir then (- EISDIR, s) else rename_reg e (fi_id r) old new s)
         | None \<Rightarrow> (- ENOENT, s)))"

definition psync_fs_rename :: "fs_env \<Rightarrow> path_env \<Rightarrow> u8 list \<Rightarrow> u8 list \<Rightarrow> fs_state \<Rightarrow> (int \<times> fs_state) option" where
  "psync_fs_rename e pe old_path new_path s =
     (if pe_waiting pe then Some (- EACCES, s)
      else case (fst (psync_fsfolder_resolve_path pe old_path s), fst (psync_fsfolder_resolve_path pe new_path s)) of
        (Some old, Some new) \<Rightarrow>
          if (ucast (fp_flags old) :: u32) AND PSYNC_FOLDER_FLAG_ENCRYPTED \<noteq> ucast (fp_flags new) AND PSYNC_FOLDER_FLAG_ENCRYPTED
          then Some (- EXDEV, s)
          else if fp_folderid old \<noteq> fp_folderid new \<and> ucast (fp_flags old OR fp_flags new)
            AND (PSYNC_FOLDER_FLAG_BACKUP_DEVICE_LIST OR PSYNC_FOLDER_FLAG_BACKUP_DEVICE) \<noteq> 0
          then Some (- EACCES, s)
          else
            (let (folder, s) = psync_fstask_get_folder_tasks_locked (fp_folderid old) s;
                 new_fid = psync_get_folderid (fp_folderid new) (fp_name new) (fs_db s);
                 old_fid = psync_get_folderid (fp_folderid old) (fp_name old) (fs_db s);
                 mk = Option.bind folder (psync_fstask_find_mkdir (fp_name old) 0);
                 cr = Option.bind folder (psync_fstask_find_creat (fp_name old) 0)
             in map_option (\<lambda>(ret, s). (ret, release_if folder (fp_folderid old) s))
                  (case mk of
                     Some m \<Rightarrow> Some (rename_dir e (mk_folderid m) old new (new_fid \<noteq> old_fid) s)
                   | None \<Rightarrow>
                     (case cr of
                        Some c \<Rightarrow> rename_creat e c old new s
                      | None \<Rightarrow> Some (rename_row e folder old new (new_fid \<noteq> old_fid) s))))
      | _ \<Rightarrow> Some (- ENOENT, s))"

section \<open>Files that cannot be created\<close>

definition psync_fs_file_exists_in_folder :: "folder_t \<Rightarrow> fname \<Rightarrow> fs_db \<Rightarrow> bool" where
  "psync_fs_file_exists_in_folder folder name db =
     (if psync_fstask_find_creat name 0 folder \<noteq> None then True
      else if fl_folderid folder < 0 then False
      else if psync_fstask_find_unlink name 0 folder \<noteq> None then False
      else db_file (fl_folderid folder) name db \<noteq> None)"

text \<open>
  \<^verbatim>\<open>psync_fs_del_creat\<close>, when the local file of a new file \<open>fileid\<close> cannot be opened: its row goes and the
  record of the new file, but not the record that hides the file it replaces.
\<close>

definition psync_fs_del_creat :: "int \<Rightarrow> fspath \<Rightarrow> fs_state \<Rightarrow> fs_state" where
  "psync_fs_del_creat fileid fp s =
     (let t = nat (- fileid); i = fp_folderid fp;
          s = goc i (delete_from_task t s);
          s = (case psync_fstask_find_creat (fp_name fp) 0 (fld i s) of Some c \<Rightarrow> upd i (del_creat c) s | None \<Rightarrow> s)
      in release i s)"

end
