(* ===== verification/FsDriveView.thy ===== *)
theory FsDriveView
  imports FsDrive
begin

unbundle bit_operations_syntax

text \<open>
  The drive as a tree of named entries: a folder shows under each name at most one folder and at most one
  file, from the tables of the account and the pending changes. The operations of the drive are those on
  the abstract tree (\<open>dirs\<close>, \<open>regs\<close>), and the listing of a folder shows what the attributes of its entries
  are found for.
\<close>

section \<open>Names\<close>

text \<open>The name of an entry is a C string.\<close>

definition cname :: "fname \<Rightarrow> bool" where
  "cname n \<longleftrightarrow> 0 \<notin> set n"

lemma strcmp_cname: "cname a \<Longrightarrow> cname b \<Longrightarrow> strcmp a b = 0 \<longleftrightarrow> a = b"
  by (induction a b rule: strcmp.induct) (auto simp: cname_def uint_0_iff word_uint_eq_iff [symmetric])

lemma search_insert_other:
  "cname n \<Longrightarrow> cname (nm x) \<Longrightarrow> n \<noteq> nm x \<Longrightarrow> search_list nm tid n 0 (insert_list nm x xs) = search_list nm tid n 0 xs"
  unfolding search_list_def insert_list_def find_insert by (simp add: strcmp_cname)

lemma search_insert_new:
  assumes "cname (nm x)" "search_list nm tid (nm x) 0 xs = None"
  shows "search_list nm tid (nm x) 0 (insert_list nm x xs) = Some x"
  using assms find_takeWhile_None [of "\<lambda>a. strcmp (nm x) (nm a) = 0" xs]
  unfolding search_list_def insert_list_def find_insert by (simp add: strcmp_cname)

lemma search_None:
  "\<forall>a\<in>set xs. cname (nm a) \<Longrightarrow> cname n \<Longrightarrow> search_list nm tid n 0 xs = None \<longleftrightarrow> n \<notin> nm ` set xs"
  by (auto simp: search_list_def find_None_iff strcmp_cname image_iff)

lemma search_Some:
  "search_list nm tid n 0 xs = Some a \<Longrightarrow> \<forall>a\<in>set xs. cname (nm a) \<Longrightarrow> cname n \<Longrightarrow> a \<in> set xs \<and> nm a = n"
  by (auto simp: search_list_def find_Some_iff strcmp_cname)

lemma search_remove:
  assumes "\<forall>a\<in>set xs. cname (nm a)" "cname n" "distinct (map nm xs)" "x \<in> set xs"
  shows "search_list nm tid n 0 (remove1 x xs) = (if n = nm x then None else search_list nm tid n 0 xs)"
  using assms
proof (induction xs)
  case Nil
  then show ?case by simp
next
  case (Cons a xs)
  show ?case
  proof (cases "a = x")
    case True
    then have s: "search_list nm tid n 0 (a # xs) = (if n = nm x then Some a else search_list nm tid n 0 xs)"
      using Cons.prems(1,2) by (simp add: search_list_def strcmp_cname)
    have "n = nm x \<Longrightarrow> search_list nm tid n 0 xs = None"
      using Cons.prems True search_None [of xs nm n tid] by (auto simp: image_iff)
    then show ?thesis using True s by simp
  next
    case False
    then have "nm a \<noteq> nm x" using Cons.prems(3,4) by (auto simp: rev_image_eqI)
    then show ?thesis using Cons False by (auto simp: search_list_def strcmp_cname)
  qed
qed

lemma insert_list_names: "distinct (map nm (insert_list nm x xs)) \<longleftrightarrow> distinct (nm x # map nm xs)"
proof -
  let ?Q = "\<lambda>a. 0 \<le> strcmp (nm x) (nm a)"
  have m: "map nm xs = map nm (takeWhile ?Q xs) @ map nm (dropWhile ?Q xs)"
    by (simp only: map_append [symmetric] takeWhile_dropWhile_id)
  show ?thesis unfolding insert_list_def by (subst m) auto
qed

section \<open>Folders with well-formed records\<close>

text \<open>
  Names are C strings and unique among the new folders and among the new files, none of the new folders is
  a hidden one, and a new file hides what it replaces.
\<close>

definition named :: "folder_t \<Rightarrow> bool" where
  "named f \<longleftrightarrow> (\<forall>m\<in>set (fl_mkdirs f). cname (mk_name m) \<and> mk_flags m AND PSYNC_FOLDER_FLAG_INVISIBLE = 0)
     \<and> (\<forall>r\<in>set (fl_rmdirs f). cname (rm_name r)) \<and> (\<forall>c\<in>set (fl_creats f). cname (cr_name c))
     \<and> (\<forall>u\<in>set (fl_unlinks f). cname (un_name u)) \<and> distinct (map mk_name (fl_mkdirs f))
     \<and> distinct (map cr_name (fl_creats f)) \<and> cr_name ` set (fl_creats f) \<subseteq> un_name ` set (fl_unlinks f)"

lemma named_new: "named (new_folder i)"
  by (simp add: named_def new_folder_def)

lemmas finds = psync_fstask_find_mkdir_def psync_fstask_find_rmdir_def psync_fstask_find_creat_def psync_fstask_find_unlink_def

lemma find_ops:
  "psync_fstask_find_mkdir n t (add_rmdir r f) = psync_fstask_find_mkdir n t f"
  "psync_fstask_find_mkdir n t (add_creat c f) = psync_fstask_find_mkdir n t f"
  "psync_fstask_find_mkdir n t (add_unlink u f) = psync_fstask_find_mkdir n t f"
  "psync_fstask_find_mkdir n t (del_creat c f) = psync_fstask_find_mkdir n t f"
  "psync_fstask_find_rmdir n t (add_mkdir m f) = psync_fstask_find_rmdir n t f"
  "psync_fstask_find_rmdir n t (add_creat c f) = psync_fstask_find_rmdir n t f"
  "psync_fstask_find_rmdir n t (add_unlink u f) = psync_fstask_find_rmdir n t f"
  "psync_fstask_find_rmdir n t (del_mkdir m f) = psync_fstask_find_rmdir n t f"
  "psync_fstask_find_rmdir n t (del_creat c f) = psync_fstask_find_rmdir n t f"
  "psync_fstask_find_creat n t (add_mkdir m f) = psync_fstask_find_creat n t f"
  "psync_fstask_find_creat n t (add_rmdir r f) = psync_fstask_find_creat n t f"
  "psync_fstask_find_creat n t (add_unlink u f) = psync_fstask_find_creat n t f"
  "psync_fstask_find_creat n t (del_mkdir m f) = psync_fstask_find_creat n t f"
  "psync_fstask_find_unlink n t (add_mkdir m f) = psync_fstask_find_unlink n t f"
  "psync_fstask_find_unlink n t (add_rmdir r f) = psync_fstask_find_unlink n t f"
  "psync_fstask_find_unlink n t (add_creat c f) = psync_fstask_find_unlink n t f"
  "psync_fstask_find_unlink n t (del_mkdir m f) = psync_fstask_find_unlink n t f"
  "psync_fstask_find_unlink n t (del_creat c f) = psync_fstask_find_unlink n t f"
  by (simp_all add: finds folder_op_defs)

lemma find_add:
  "cname n \<Longrightarrow> cname (mk_name m) \<Longrightarrow> psync_fstask_find_mkdir (mk_name m) 0 f = None \<Longrightarrow>
     psync_fstask_find_mkdir n 0 (add_mkdir m f) = (if n = mk_name m then Some m else psync_fstask_find_mkdir n 0 f)"
  "cname n \<Longrightarrow> cname (cr_name c) \<Longrightarrow> psync_fstask_find_creat (cr_name c) 0 f = None \<Longrightarrow>
     psync_fstask_find_creat n 0 (add_creat c f) = (if n = cr_name c then Some c else psync_fstask_find_creat n 0 f)"
  by (auto simp: finds folder_op_defs search_insert_new search_insert_other)

lemma find_add_gone:
  "cname n \<Longrightarrow> cname (rm_name r) \<Longrightarrow> psync_fstask_find_rmdir n 0 (add_rmdir r f) = None \<longleftrightarrow>
     n \<noteq> rm_name r \<and> psync_fstask_find_rmdir n 0 f = None"
  "cname n \<Longrightarrow> cname (un_name u) \<Longrightarrow> psync_fstask_find_unlink n 0 (add_unlink u f) = None \<longleftrightarrow>
     n \<noteq> un_name u \<and> psync_fstask_find_unlink n 0 f = None"
  by (auto simp: finds folder_op_defs search_list_def find_None_iff strcmp_cname)

lemma find_del:
  "named f \<Longrightarrow> cname n \<Longrightarrow> m \<in> set (fl_mkdirs f) \<Longrightarrow>
     psync_fstask_find_mkdir n 0 (del_mkdir m f) = (if n = mk_name m then None else psync_fstask_find_mkdir n 0 f)"
  "named f \<Longrightarrow> cname n \<Longrightarrow> c \<in> set (fl_creats f) \<Longrightarrow>
     psync_fstask_find_creat n 0 (del_creat c f) = (if n = cr_name c then None else psync_fstask_find_creat n 0 f)"
  by (simp_all add: finds folder_op_defs search_remove named_def)

lemma find_named:
  "named f \<Longrightarrow> cname n \<Longrightarrow> psync_fstask_find_mkdir n 0 f = Some m \<Longrightarrow> m \<in> set (fl_mkdirs f) \<and> mk_name m = n
     \<and> mk_flags m AND PSYNC_FOLDER_FLAG_INVISIBLE = 0"
  "named f \<Longrightarrow> cname n \<Longrightarrow> psync_fstask_find_creat n 0 f = Some c \<Longrightarrow> c \<in> set (fl_creats f) \<and> cr_name c = n"
  using search_Some [of mk_name mk_taskid n "fl_mkdirs f" m] search_Some [of cr_name cr_taskid n "fl_creats f" c]
  by (auto simp: finds named_def)

lemma find_names:
  "named f \<Longrightarrow> cname n \<Longrightarrow> psync_fstask_find_mkdir n 0 f = None \<longleftrightarrow> n \<notin> mk_name ` set (fl_mkdirs f)"
  "named f \<Longrightarrow> cname n \<Longrightarrow> psync_fstask_find_rmdir n 0 f = None \<longleftrightarrow> n \<notin> rm_name ` set (fl_rmdirs f)"
  "named f \<Longrightarrow> cname n \<Longrightarrow> psync_fstask_find_creat n 0 f = None \<longleftrightarrow> n \<notin> cr_name ` set (fl_creats f)"
  "named f \<Longrightarrow> cname n \<Longrightarrow> psync_fstask_find_unlink n 0 f = None \<longleftrightarrow> n \<notin> un_name ` set (fl_unlinks f)"
  by (simp_all add: finds named_def search_None)

lemma named_mkdir:
  assumes "named f" "cname (mk_name m)" "mk_flags m AND PSYNC_FOLDER_FLAG_INVISIBLE = 0"
    "psync_fstask_find_mkdir (mk_name m) 0 f = None"
  shows "named (add_mkdir m f)"
  using assms find_names(1) [of f "mk_name m"] by (auto simp: named_def add_mkdir_def insert_list_names)

lemma named_rmdir: "named f \<Longrightarrow> cname (rm_name r) \<Longrightarrow> named (add_rmdir r f)"
  by (auto simp: named_def add_rmdir_def)

lemma named_unlink: "named f \<Longrightarrow> cname (un_name u) \<Longrightarrow> named (add_unlink u f)"
  by (auto simp: named_def add_unlink_def)

lemma named_creat:
  assumes "named f" "cname (cr_name c)" "psync_fstask_find_creat (cr_name c) 0 f = None" "psync_fstask_find_unlink (cr_name c) 0 f \<noteq> None"
  shows "named (add_creat c f)"
  using assms find_names(3,4) [of f "cr_name c"] by (auto simp: named_def add_creat_def insert_list_names)

lemma named_del: "named f \<Longrightarrow> named (del_mkdir m f)" "named f \<Longrightarrow> named (del_creat c f)"
  unfolding named_def del_mkdir_def del_creat_def
  using set_remove1_subset [of m "fl_mkdirs f"] set_remove1_subset [of c "fl_creats f"]
  by (auto simp: distinct_map inj_on_def)

section \<open>The rows of the pending changes\<close>

lemma named_row:
  assumes f: "named f" and r: "plain r" "cname (row_name r)"
    and new: "ft_type r = PSYNC_FS_TASK_MKDIR \<Longrightarrow> psync_fstask_find_mkdir (row_name r) 0 f = None"
      "ft_type r = PSYNC_FS_TASK_CREAT \<Longrightarrow> psync_fstask_find_creat (row_name r) 0 f = None"
  shows "named (row_effect r f)"
proof -
  have d: "named (case psync_fstask_find_mkdir n 0 f of Some m \<Rightarrow> del_mkdir m f | None \<Rightarrow> f)"
    "named (case psync_fstask_find_creat n 0 f of Some c \<Rightarrow> del_creat c f | None \<Rightarrow> f)" for n
    using f by (auto intro: named_del split: option.split)
  consider "ft_type r = PSYNC_FS_TASK_MKDIR" | "ft_type r = PSYNC_FS_TASK_RMDIR" | "ft_type r = PSYNC_FS_TASK_CREAT"
    | "ft_type r = PSYNC_FS_TASK_UNLINK \<or> ft_type r = PSYNC_FS_TASK_UN_SET_REV"
    using r(1) by (auto simp: plain_def)
  then show ?thesis
  proof cases
    case 1
    then show ?thesis using f r(2) new(1)
      by (auto simp: row_effect_def put_mkdir_def PSYNC_FOLDER_FLAG_INVISIBLE_def PSYNC_FOLDER_FLAG_ENCRYPTED_def intro: named_mkdir)
  next
    case 2
    then show ?thesis using d(1) r(2) by (simp add: row_effect_def put_rmdir_def task_types named_rmdir)
  next
    case 3
    then have "row_effect r f = put_creat \<lparr>cr_fileid = - int (ft_id r), cr_rfileid = num (ft_fileid r),
        cr_taskid = ft_id r, cr_name = row_name r\<rparr> f"
      by (simp add: row_effect_def task_types)
    moreover have "named (add_unlink \<lparr>un_fileid = - int (ft_id r), un_taskid = ft_id r, un_name = row_name r\<rparr> f)" (is "named ?g")
      using f r(2) by (simp add: named_unlink)
    moreover have "psync_fstask_find_unlink (row_name r) 0 ?g \<noteq> None"
      by (simp only: find_add_gone(2) r(2) unlink_t.select_convs) simp
    ultimately show ?thesis using r(2) new(2) 3
      by (simp only: put_creat_def) (intro named_creat, simp_all add: find_ops)
  next
    case 4
    then show ?thesis using d(2) r(2) by (auto simp: row_effect_def put_unlink_def task_types named_unlink)
  qed
qed

section \<open>The abstract tree\<close>

definition subfile :: "fs_state \<Rightarrow> int \<Rightarrow> fname \<Rightarrow> int option" where
  "subfile s i n =
     (case psync_fstask_find_creat n 0 (view s i) of
        Some c \<Rightarrow> Some (cr_fileid c)
      | None \<Rightarrow> if psync_fstask_find_unlink n 0 (view s i) \<noteq> None then None else map_option fi_id (db_file i n (fs_db s)))"

text \<open>The folders, with their flags, and the files that the drive shows under a name of a folder.\<close>

definition dirs :: "fs_state \<Rightarrow> int \<times> fname \<Rightarrow> (int \<times> u32) option" where
  "dirs s = (\<lambda>(i, n). if cname n then subfolder s i n else None)"

definition regs :: "fs_state \<Rightarrow> int \<times> fname \<Rightarrow> int option" where
  "regs s = (\<lambda>(i, n). if cname n then subfile s i n else None)"

lemma dirs_regs_same: "view t = view s \<Longrightarrow> account (fs_db t) = account (fs_db s) \<Longrightarrow> dirs t = dirs s \<and> regs t = regs s"
  by (auto simp: dirs_def regs_def subfolder_def subfile_def db_folder_def db_file_def account_def fun_eq_iff split: option.split)

lemma same_shows: "same s t \<Longrightarrow> dirs t = dirs s \<and> regs t = regs s"
  by (auto intro!: dirs_regs_same simp: same_def)

text \<open>The change of the abstract tree that a row stands for.\<close>

definition row_dirs :: "fstask_row \<Rightarrow> (int \<times> fname \<Rightarrow> (int \<times> u32) option) \<Rightarrow> int \<times> fname \<Rightarrow> (int \<times> u32) option" where
  "row_dirs r D =
     (if ft_type r = PSYNC_FS_TASK_MKDIR
      then D((ft_folderid r, row_name r) := Some (- int (ft_id r), if ft_text2 r = None then 0 else PSYNC_FOLDER_FLAG_ENCRYPTED))
      else if ft_type r = PSYNC_FS_TASK_RMDIR then D((ft_folderid r, row_name r) := None) else D)"

definition row_regs :: "fstask_row \<Rightarrow> (int \<times> fname \<Rightarrow> int option) \<Rightarrow> int \<times> fname \<Rightarrow> int option" where
  "row_regs r F =
     (if ft_type r = PSYNC_FS_TASK_CREAT then F((ft_folderid r, row_name r) := Some (- int (ft_id r)))
      else if ft_type r \<in> {PSYNC_FS_TASK_UNLINK, PSYNC_FS_TASK_UN_SET_REV} then F((ft_folderid r, row_name r) := None) else F)"

lemma subfolder_account: "account (fs_db t) = account (fs_db s) \<Longrightarrow> db_folder i n (fs_db t) = db_folder i n (fs_db s)"
  and subfile_account: "account (fs_db t) = account (fs_db s) \<Longrightarrow> db_file i n (fs_db t) = db_file i n (fs_db s)"
  by (simp_all add: db_folder_def db_file_def account_def)

lemma find_del_found:
  assumes "named f" "cname n" "cname m"
  shows "psync_fstask_find_mkdir m 0 (case psync_fstask_find_mkdir n 0 f of Some x \<Rightarrow> del_mkdir x f | None \<Rightarrow> f)
      = (if m = n then None else psync_fstask_find_mkdir m 0 f)"
    and "psync_fstask_find_creat m 0 (case psync_fstask_find_creat n 0 f of Some x \<Rightarrow> del_creat x f | None \<Rightarrow> f)
      = (if m = n then None else psync_fstask_find_creat m 0 f)"
  using assms find_named(1) [OF assms(1,2)] find_named(2) [OF assms(1,2)]
  by (auto simp: find_del split: option.split)

lemma find_case:
  "psync_fstask_find_rmdir m 0 (case x of Some y \<Rightarrow> del_mkdir y f | None \<Rightarrow> f) = psync_fstask_find_rmdir m 0 f"
  "psync_fstask_find_creat m 0 (case x of Some y \<Rightarrow> del_mkdir y f | None \<Rightarrow> f) = psync_fstask_find_creat m 0 f"
  "psync_fstask_find_unlink m 0 (case x of Some y \<Rightarrow> del_mkdir y f | None \<Rightarrow> f) = psync_fstask_find_unlink m 0 f"
  "psync_fstask_find_mkdir m 0 (case z of Some y \<Rightarrow> del_creat y f | None \<Rightarrow> f) = psync_fstask_find_mkdir m 0 f"
  "psync_fstask_find_rmdir m 0 (case z of Some y \<Rightarrow> del_creat y f | None \<Rightarrow> f) = psync_fstask_find_rmdir m 0 f"
  "psync_fstask_find_unlink m 0 (case z of Some y \<Rightarrow> del_creat y f | None \<Rightarrow> f) = psync_fstask_find_unlink m 0 f"
  by (auto simp: find_ops split: option.split)

lemma row_shows:
  assumes V: "view t = (view s)(ft_folderid r := row_effect r (view s (ft_folderid r)))"
    and acc: "account (fs_db t) = account (fs_db s)"
    and f: "named (view s (ft_folderid r))" and r: "plain r" "cname (row_name r)"
    and new: "ft_type r = PSYNC_FS_TASK_MKDIR \<Longrightarrow> psync_fstask_find_mkdir (row_name r) 0 (view s (ft_folderid r)) = None"
      "ft_type r = PSYNC_FS_TASK_CREAT \<Longrightarrow> psync_fstask_find_creat (row_name r) 0 (view s (ft_folderid r)) = None"
  shows "dirs t = row_dirs r (dirs s)" "regs t = row_regs r (regs s)"
proof -
  let ?i = "ft_folderid r" and ?n = "row_name r" and ?f = "view s (ft_folderid r)"
  note simps = row_effect_def put_mkdir_def put_rmdir_def put_creat_def put_unlink_def task_types find_ops find_case
    find_add find_add_gone find_del_found [OF f r(2)] r(2)
  have d: "subfolder t i n = row_dirs r (dirs s) (i, n)" and g: "subfile t i n = row_regs r (regs s) (i, n)" if n: "cname n" for i n
  proof -
    consider "ft_type r = PSYNC_FS_TASK_MKDIR" | "ft_type r = PSYNC_FS_TASK_RMDIR" | "ft_type r = PSYNC_FS_TASK_CREAT"
      | "ft_type r = PSYNC_FS_TASK_UNLINK \<or> ft_type r = PSYNC_FS_TASK_UN_SET_REV"
      using r(1) by (auto simp: plain_def)
    note c = this
    show "subfolder t i n = row_dirs r (dirs s) (i, n)"
      using c by cases (use n new in \<open>auto simp: subfolder_def V subfolder_account [OF acc] row_dirs_def dirs_def simps
        simp del: not_None_eq split: option.split\<close>)
    show "subfile t i n = row_regs r (regs s) (i, n)"
      using c by cases (use n new in \<open>auto simp: subfile_def V subfile_account [OF acc] row_regs_def regs_def simps
        simp del: not_None_eq split: option.split\<close>)
  qed
  show "dirs t = row_dirs r (dirs s)" using d r(2) by (auto simp: fun_eq_iff dirs_def [of t]) (auto simp: row_dirs_def dirs_def)
  show "regs t = row_regs r (regs s)" using g r(2) by (auto simp: fun_eq_iff regs_def [of t]) (auto simp: row_regs_def regs_def)
qed

section \<open>The operations on the tree\<close>

lemma mkdir_new:
  assumes "psync_fstask_mkdir e i n fl s = (0, s')" "env_new_key e \<noteq> Inr 0" "account_ok (fs_db s)"
  shows "psync_fstask_find_mkdir n 0 (view s i) = None \<and> subfolder s i n = None"
proof -
  have m: "psync_fstask_find_mkdir n 0 (view s i) = None"
    using assms(1,2) unfolding psync_fstask_mkdir_def Let_def
    by (auto simp: view_simps errnos split: if_splits option.splits)
  moreover have "\<not> (0 \<le> i \<and> db_folder i n (fs_db s) \<noteq> None \<and> psync_fstask_find_rmdir n 0 (view s i) = None)"
    using assms(1) unfolding psync_fstask_mkdir_def Let_def by (auto simp: view_simps errnos split: if_splits)
  moreover have "i < 0 \<Longrightarrow> db_folder i n (fs_db s) = None"
    using assms(3) by (force simp: db_folder_def find_None_iff account_ok_def)
  ultimately show ?thesis by (auto simp: subfolder_def)
qed

lemma mkdir_exists:
  assumes "psync_fstask_mkdir e i n fl s = (ret, s')" "account_ok (fs_db s)" "named (view s i)" "cname n"
    and d: "subfolder s i n \<noteq> None"
  shows "ret = - EEXIST"
proof -
  have "i < 0 \<Longrightarrow> db_folder i n (fs_db s) = None"
    using assms(2) by (force simp: db_folder_def find_None_iff account_ok_def)
  then have "(0 \<le> i \<and> db_folder i n (fs_db s) \<noteq> None \<and> psync_fstask_find_rmdir n 0 (view s i) = None)
      \<or> psync_fstask_find_mkdir n 0 (view s i) \<noteq> None"
    using d by (cases "i < 0") (auto simp: subfolder_def split: if_splits option.splits)
  then show ?thesis
    using assms(1) find_named(1) [OF assms(3,4)] unfolding psync_fstask_mkdir_def Let_def
    by (auto simp: view_simps split: if_splits)
qed

lemma empty_folder:
  assumes "\<not> has_local_entries (get_folder j s)" "\<not> has_remote_entries (get_folder j s) j (fs_db s)" "account_ok (fs_db s)"
  shows "subfolder s j m = None" "subfile s j m = None"
proof -
  have p: "j < 0 \<Longrightarrow> db_folder j m (fs_db s) = None" "j < 0 \<Longrightarrow> db_file j m (fs_db s) = None"
    using assms(3) by (force simp: db_folder_def db_file_def find_None_iff account_ok_def)+
  have n: "psync_fstask_find_mkdir m 0 (view s j) = None" "psync_fstask_find_creat m 0 (view s j) = None"
    using assms(1) by (cases "get_folder j s"; simp add: has_local_entries_def view_found view_none;
        simp add: finds search_list_def)+
  have d: "db_folder j m (fs_db s) = None \<or> psync_fstask_find_rmdir m 0 (view s j) \<noteq> None"
    if "0 \<le> j"
  proof (cases "db_folder j m (fs_db s)")
    case (Some r)
    then have r: "r \<in> set (folder_tab (fs_db s))" "fo_parent r = Some j" "fo_name r = m"
      by (auto simp: db_folder_def find_Some_iff)
    then show ?thesis using assms(2) that
      by (cases "get_folder j s") (auto simp: has_remote_entries_def list_ex_iff view_found)
  qed simp
  have f: "db_file j m (fs_db s) = None \<or> psync_fstask_find_unlink m 0 (view s j) \<noteq> None"
    if "0 \<le> j"
  proof (cases "db_file j m (fs_db s)")
    case (Some r)
    then have r: "r \<in> set (file_tab (fs_db s))" "fi_parent r = j" "fi_name r = m"
      by (auto simp: db_file_def find_Some_iff)
    then show ?thesis using assms(2) that
      by (cases "get_folder j s") (auto simp: has_remote_entries_def list_ex_iff view_found)
  qed simp
  show "subfolder s j m = None" using n d p by (cases "0 \<le> j") (auto simp: subfolder_def)
  show "subfile s j m = None" using n f p by (cases "0 \<le> j") (auto simp: subfile_def)
qed

lemma find_uncounted:
  "psync_fstask_find_mkdir m 0 (uncounted x f) = psync_fstask_find_mkdir m 0 f"
  "psync_fstask_find_rmdir m 0 (uncounted x f) = psync_fstask_find_rmdir m 0 f"
  "psync_fstask_find_creat m 0 (uncounted x f) = psync_fstask_find_creat m 0 f"
  "psync_fstask_find_unlink m 0 (uncounted x f) = psync_fstask_find_unlink m 0 f"
  by (auto simp: finds uncounted_def split: option.split)

lemma uncounted_shows:
  assumes "view u = (view s)(i := uncounted x (view s i))" "fs_db u = fs_db s"
  shows "subfolder u j m = subfolder s j m" "subfile u j m = subfile s j m"
  using assms by (auto simp: subfolder_def subfile_def find_uncounted split: option.split)

lemma rmdir_check_empty:
  assumes "rmdir_check e i j n d mk u = (0, s')" "account_ok (fs_db u)"
  shows "subfolder u j m = None" "subfile u j m = None"
proof -
  obtain cf t where g: "psync_fstask_get_folder_tasks_locked j u = (cf, t)" by fastforce
  have "cf = get_folder j u" "fs_db t = fs_db u" using get_view [OF g] by simp_all
  then have "\<not> has_local_entries (get_folder j u)" "\<not> has_remote_entries (get_folder j u) j (fs_db u)"
    using assms(1) g by (auto simp: rmdir_check_def errnos split: if_splits)
  from empty_folder [OF this assms(2)] show "subfolder u j m = None" "subfile u j m = None" .
qed

lemma rmdir_of_empty:
  assumes "psync_fstask_rmdir e i fl n s = (0, s')" "account_ok (fs_db s)"
  shows "\<exists>j f. subfolder s i n = Some (j, f) \<and> (\<forall>m. subfolder s j m = None \<and> subfile s j m = None)"
proof -
  have a: "exists i (goc i s)" "fs_db (goc i s) = fs_db s" "view (goc i s) = view s" by (simp_all add: view_simps)
  show ?thesis
  proof (cases "psync_fstask_find_mkdir n 0 (view s i)")
    case None
    then obtain r where r: "db_folder i n (fs_db s) = Some r" "psync_fstask_find_rmdir n 0 (view s i) = None"
      "rmdir_check e i (fo_id r) n 0 None (goc i s) = (0, s')"
      using assms(1) a unfolding psync_fstask_rmdir_def Let_def
      by (auto simp: find_view errnos split: if_splits option.splits)
    have "subfolder s i n = Some (fo_id r, fo_flags r)" using None r by (simp add: subfolder_def)
    moreover have "view (goc i s) = (view s)(i := uncounted None (view s i))" using a by (simp add: uncounted_def)
    ultimately show ?thesis
      using rmdir_check_empty [OF r(3)] assms(2) a uncounted_shows [of "goc i s" s i None] by auto
  next
    case (Some x)
    let ?u = "upd i (\<lambda>f. f\<lparr>fl_taskscnt := fl_taskscnt f - 1\<rparr>) (goc i s)"
    have o: "on_view (\<lambda>f. f\<lparr>fl_taskscnt := fl_taskscnt f - 1\<rparr>)" by (simp add: on_view_ops)
    have u: "view ?u = (view s)(i := uncounted (Some x) (view s i))" "fs_db ?u = fs_db s"
      using a o by (simp_all add: view_simps uncounted_def)
    have c: "rmdir_check e i (mk_folderid x) n (mk_taskid x) (Some x) ?u = (0, s')"
      using assms(1) Some a unfolding psync_fstask_rmdir_def Let_def by (simp add: find_view)
    have "subfolder s i n = Some (mk_folderid x, mk_flags x)" using Some by (simp add: subfolder_def)
    then show ?thesis using rmdir_check_empty [OF c] assms(2) u(2) uncounted_shows [OF u] by auto
  qed
qed

lemma unlink_of_file:
  assumes "psync_fstask_unlink e i n s = (0, s')"
  shows "subfile s i n \<noteq> None"
  using assms unfolding psync_fstask_unlink_def Let_def
  by (auto simp: view_simps subfile_def errnos split: if_splits option.splits)

section \<open>Reachable states\<close>

definition drive_ok :: "fs_state \<Rightarrow> bool" where
  "drive_ok s \<longleftrightarrow> in_log s \<and> account_ok (fs_db s) \<and> (\<forall>i. named (view s i))"

text \<open>The rows that an operation adds are for names that its folder has no new entry for.\<close>

definition fresh_row :: "fs_state \<Rightarrow> fstask_row \<Rightarrow> bool" where
  "fresh_row s r \<longleftrightarrow> cname (row_name r)
     \<and> (ft_type r = PSYNC_FS_TASK_MKDIR \<longrightarrow> psync_fstask_find_mkdir (row_name r) 0 (view s (ft_folderid r)) = None)
     \<and> (ft_type r = PSYNC_FS_TASK_CREAT \<longrightarrow> psync_fstask_find_creat (row_name r) 0 (view s (ft_folderid r)) = None)"

lemma log_step_shows:
  assumes l: "log_step k r s t" and s: "drive_ok s" and r: "fresh_row s r"
  shows "drive_ok t" "dirs t = row_dirs r (dirs s)" "regs t = row_regs r (regs s)"
proof -
  let ?i = "ft_folderid r"
  have V: "view t = (view s)(?i := row_effect r (view s ?i))" and acc: "account (fs_db t) = account (fs_db s)" and p: "plain r"
    using l by (simp_all add: log_step_def)
  have n: "named (view s ?i)" using s by (simp add: drive_ok_def)
  show "dirs t = row_dirs r (dirs s)" "regs t = row_regs r (regs s)"
    using row_shows [OF V acc n p] r by (auto simp: fresh_row_def)
  have "in_log t" using in_log_logged [of s 0 "{ft_type r}" "?i" "row_name r" t] l s by (auto simp: logged_def drive_ok_def)
  moreover have "account_ok (fs_db t)" using acc s by (simp add: drive_ok_def account_ok_def account_def)
  moreover have "named (view t i)" for i
    using named_row [OF n p] r s by (simp add: V fresh_row_def drive_ok_def)
  ultimately show "drive_ok t" by (simp add: drive_ok_def)
qed

text \<open>An operation that succeeds adds one row, and one that fails changes nothing.\<close>

lemma logged_shows:
  assumes l: "logged ret tys i n s t" and s: "drive_ok s" and n: "cname n"
    and new: "PSYNC_FS_TASK_MKDIR \<in> tys \<Longrightarrow> ret = 0 \<Longrightarrow> psync_fstask_find_mkdir n 0 (view s i) = None"
      "PSYNC_FS_TASK_CREAT \<in> tys \<Longrightarrow> ret = 0 \<Longrightarrow> psync_fstask_find_creat n 0 (view s i) = None"
  shows "drive_ok t"
    and "ret \<noteq> 0 \<Longrightarrow> dirs t = dirs s \<and> regs t = regs s"
    and "ret = 0 \<Longrightarrow> \<exists>r. ft_type r \<in> tys \<and> ft_folderid r = i \<and> row_name r = n \<and> ft_id r = next_taskid (fs_db s)
      \<and> dirs t = row_dirs r (dirs s) \<and> regs t = row_regs r (regs s)"
proof -
  have "drive_ok t \<and> (ret \<noteq> 0 \<longrightarrow> dirs t = dirs s \<and> regs t = regs s)
    \<and> (ret = 0 \<longrightarrow> (\<exists>r. ft_type r \<in> tys \<and> ft_folderid r = i \<and> row_name r = n \<and> ft_id r = next_taskid (fs_db s)
      \<and> dirs t = row_dirs r (dirs s) \<and> regs t = row_regs r (regs s)))"
  proof (cases "ret = 0")
    case False
    then have "same s t" using l by (simp add: logged_def)
    then show ?thesis
      using s False same_shows by (auto simp: drive_ok_def in_log_def same_def)
  next
    case True
    then obtain k r where r: "log_step k r s t" "ft_type r \<in> tys" "ft_folderid r = i" "row_name r = n"
      using l by (auto simp: logged_def)
    then have "fresh_row s r" using n new True by (auto simp: fresh_row_def)
    from log_step_shows [OF r(1) s this] show ?thesis using True r by (auto simp: log_step_def)
  qed
  then show "drive_ok t" "ret \<noteq> 0 \<Longrightarrow> dirs t = dirs s \<and> regs t = regs s"
    "ret = 0 \<Longrightarrow> \<exists>r. ft_type r \<in> tys \<and> ft_folderid r = i \<and> row_name r = n \<and> ft_id r = next_taskid (fs_db s)
      \<and> dirs t = row_dirs r (dirs s) \<and> regs t = row_regs r (regs s)" by blast+
qed

lemma no_static: "drive_ok s \<Longrightarrow> \<forall>c\<in>set (fl_creats (view s i)). cr_fileid c \<noteq> 0"
  using in_log_no_static [of s] by (auto simp: drive_ok_def)

lemma ready: "drive_ok s \<Longrightarrow> fits s \<Longrightarrow> roomy s"
  using in_log_roomy [of s] by (simp add: drive_ok_def)

lemma op_ok:
  assumes "fs_op c ret s t" "drive_ok s" "fits s"
  shows "drive_ok t"
  using assms(1)
proof cases
  case (Mkdir e i n fl)
  have "ret = 0 \<Longrightarrow> psync_fstask_find_mkdir n 0 (view s i) = None"
    using mkdir_new [of e i n fl s t] Mkdir assms(2) by (simp add: drive_ok_def)
  then show ?thesis
    using logged_shows(1) [OF mkdir_logged [OF ready [OF assms(2,3)] Mkdir(4) Mkdir(2)] assms(2)] Mkdir(3)
    by (simp add: cname_def task_types)
next
  case (Rmdir e i fl n)
  then show ?thesis
    using logged_shows(1) [OF rmdir_logged [OF ready [OF assms(2,3)] Rmdir(4) Rmdir(2)] assms(2)]
    by (simp add: cname_def task_types)
next
  case (Creat e i n fileid key x u)
  show ?thesis
  proof (cases x)
    case None
    then have "same s t" using creat_failed [OF ready [OF assms(2,3)], of e i n fileid key u] Creat by simp
    then show ?thesis using assms(2) by (auto simp: drive_ok_def in_log_def same_def)
  next
    case (Some y)
    then show ?thesis
      using Creat logged_shows(1) [OF creat_logged [OF ready [OF assms(2,3)], of e i n fileid key y u] assms(2)]
      by (simp add: cname_def task_types)
  qed
next
  case (Unlink e i n)
  then show ?thesis
    using logged_shows(1) [OF unlink_logged [OF ready [OF assms(2,3)] Unlink(4) no_static [OF assms(2)] Unlink(2)] assms(2)]
    by (simp add: cname_def task_types)
qed

lemma run_ok: "fs_run k s \<Longrightarrow> 2 * k + 2 < 2 ^ 32 \<Longrightarrow> drive_ok s \<and> fits s"
proof (induction rule: fs_run.induct)
  case (Start s)
  have "fs_run 0 s" by (rule fs_run.Start) (fact Start.hyps)+
  then have i: "in_log s" "length (fstasks (fs_db s)) \<le> 0" using run_in_log [of 0 s] by auto
  have "view s = new_folder" using Start by (auto simp: view_def fld_def get_folder_def new_folder_def)
  then show ?case using i Start by (simp add: drive_ok_def fits_def named_new)
next
  case (Step k s t)
  then have s: "drive_ok s" "fits s" by auto
  have r: "fs_run (Suc k) t" by (rule fs_run.Step) (fact Step.hyps)+
  have "length (fstasks (fs_db t)) \<le> Suc k" using run_in_log [OF r Step.prems] by simp
  then have f: "fits t" using Step.prems by (simp add: fits_def)
  from Step.hyps(2) show ?case
  proof cases
    case Op
    then show ?thesis using op_ok s f by simp
  next
    case (Diff db)
    then show ?thesis using s f in_log_diff [of s db] by (simp add: drive_ok_def view_simps)
  qed
qed

section \<open>New ids\<close>

lemma next_taskid_above: "r \<in> set (fstasks db) \<Longrightarrow> ft_id r < next_taskid db"
proof -
  have "x \<in> set xs \<Longrightarrow> x \<le> fold max xs m" "m \<le> fold max xs m" for x m :: nat and xs
    by (induction xs arbitrary: m) (auto intro: order_trans [OF max.cobounded2] order_trans [OF max.cobounded1])
  then show "r \<in> set (fstasks db) \<Longrightarrow> ft_id r < next_taskid db"
    by (simp add: next_taskid_def less_Suc_eq_le)
qed

definition made_by :: "fstask_row set \<Rightarrow> folder_t \<Rightarrow> bool" where
  "made_by R f \<longleftrightarrow> (\<forall>m\<in>set (fl_mkdirs f). \<exists>r\<in>R. mk_folderid m = - int (ft_id r))
     \<and> (\<forall>c\<in>set (fl_creats f). \<exists>r\<in>R. cr_fileid c = - int (ft_id r))"

lemma made_by_row: "made_by R f \<Longrightarrow> made_by (insert r R) (row_effect r f)"
  using set_remove1_subset [of _ "fl_mkdirs f"] set_remove1_subset [of _ "fl_creats f"]
  by (fastforce simp: made_by_def row_effect_def put_mkdir_def put_rmdir_def put_creat_def put_unlink_def folder_op_defs
      split: option.split)

lemma made_by_mono: "made_by R f \<Longrightarrow> R \<subseteq> S \<Longrightarrow> made_by S f"
  by (fastforce simp: made_by_def)

lemma made_by_rows: "(\<forall>i. made_by R (V i)) \<Longrightarrow> made_by (R \<union> set rs) (apply_rows rs V i)"
proof (induction rs arbitrary: R V)
  case Nil
  then show ?case by simp
next
  case (Cons r rs)
  have "\<forall>i. made_by (insert r R) ((V(ft_folderid r := row_effect r (V (ft_folderid r)))) i)"
    using Cons.prems made_by_row [of R _ r] made_by_mono [of R _ "insert r R"] by auto
  from Cons.IH [OF this] show ?case by (simp del: fun_upd_apply)
qed

lemma shown_ids:
  assumes s: "drive_ok s"
  shows "dirs s p \<noteq> Some (- int (next_taskid (fs_db s)), fl)" "regs s p \<noteq> Some (- int (next_taskid (fs_db s)))"
proof -
  obtain i n where p: "p = (i, n)" by (cases p)
  let ?R = "set (fstasks (fs_db s))"
  have "made_by ({} \<union> ?R) (apply_rows (fstasks (fs_db s)) new_folder i)"
    by (intro made_by_rows) (simp add: made_by_def new_folder_def)
  then have m: "made_by ?R (view s i)" using s by (simp add: drive_ok_def in_log_def)
  have a: "r \<in> ?R \<Longrightarrow> ft_id r \<noteq> next_taskid (fs_db s)" for r using next_taskid_above [of r "fs_db s"] by auto
  have n: "0 < next_taskid (fs_db s)" by (simp add: next_taskid_def)
  have d: "db_folder i n (fs_db s) = Some r \<Longrightarrow> 0 \<le> fo_id r" "db_file i n (fs_db s) = Some q \<Longrightarrow> 0 < fi_id q" for r q
    using s by (auto simp: drive_ok_def account_ok_def db_folder_def db_file_def find_Some_iff)
  show "dirs s p \<noteq> Some (- int (next_taskid (fs_db s)), fl)"
    using m a n d(1) find_member(1) [of n 0 "view s i"]
    by (fastforce simp: dirs_def p subfolder_def made_by_def split: if_splits option.splits)
  show "regs s p \<noteq> Some (- int (next_taskid (fs_db s)))"
    using m a n d(2) find_member(3) [of n 0 "view s i"]
    by (fastforce simp: regs_def p subfile_def made_by_def split: if_splits option.splits)
qed

section \<open>Operations of the abstract tree\<close>

type_synonym tree = "(int \<times> fname \<Rightarrow> (int \<times> u32) option) \<times> (int \<times> fname \<Rightarrow> int option)"

definition vacant :: "tree \<Rightarrow> int \<Rightarrow> bool" where
  "vacant T j \<longleftrightarrow> (\<forall>m. fst T (j, m) = None \<and> snd T (j, m) = None)"

text \<open>
  The results with which an operation is refused. A folder whose name is taken is not made, only with
  \<^verbatim>\<open>EEXIST\<close>; when the name is free, the commit or the new key can fail. What is not there is not removed,
  with \<^verbatim>\<open>ENOENT\<close>; a folder that shows an entry is not removed either, and one that is encrypted may be
  denied; otherwise only the commit can fail.
\<close>

fun refused :: "fs_call \<Rightarrow> tree \<Rightarrow> int set" where
  "refused (Call_mkdir i n) T = (if fst T (i, n) \<noteq> None then {- EEXIST} else - {0})"
| "refused (Call_rmdir i n) T = (case fst T (i, n) of None \<Rightarrow> {- ENOENT}
     | Some (j, fl) \<Rightarrow> (if fl AND PSYNC_FOLDER_FLAG_ENCRYPTED = 0 then {} else {- EACCES})
         \<union> (if vacant T j then {- EIO} else {- ENOTEMPTY}))"
| "refused (Call_creat i n) T = {- EIO}"
| "refused (Call_unlink i n) T = (if snd T (i, n) = None then {- ENOENT} else {- EIO})"

text \<open>
  What an operation with a result does to a tree of folders and files. When it is refused, nothing. With
  the result 0 it adds a folder with a new id under its name, which had none; removes the folder of its name,
  which shows nothing; puts a file with a new id under its name; or removes the file of its name.
\<close>

inductive tree_step :: "fs_call \<Rightarrow> int \<Rightarrow> tree \<Rightarrow> tree \<Rightarrow> bool" where
  Refused: "ret \<in> refused c T \<Longrightarrow> tree_step c ret T T"
| Dir_added: "D (i, n) = None \<Longrightarrow> \<forall>q fl. D q \<noteq> Some (k, fl)
    \<Longrightarrow> tree_step (Call_mkdir i n) 0 (D, F) (D((i, n) := Some (k, flags)), F)"
| Dir_removed: "D (i, n) = Some (j, flags) \<Longrightarrow> vacant (D, F) j \<Longrightarrow> tree_step (Call_rmdir i n) 0 (D, F) (D((i, n) := None), F)"
| File_added: "\<forall>q. F q \<noteq> Some k \<Longrightarrow> tree_step (Call_creat i n) 0 (D, F) (D, F((i, n) := Some k))"
| File_removed: "F (i, n) \<noteq> None \<Longrightarrow> tree_step (Call_unlink i n) 0 (D, F) (D, F((i, n) := None))"

lemma refused_not_done: "0 \<notin> refused c T"
  by (cases c) (auto simp: errnos split: option.split)

lemma full_folder:
  assumes full: "has_local_entries (get_folder j s) \<or> has_remote_entries (get_folder j s) j (fs_db s)"
    and a: "account_ok (fs_db s)" and v: "named (view s j)"
  shows "\<exists>m. cname m \<and> (subfolder s j m \<noteq> None \<or> subfile s j m \<noteq> None)"
proof -
  let ?f = "view s j"
  consider c where "c \<in> set (fl_creats ?f)" | m where "m \<in> set (fl_mkdirs ?f)"
    | r where "r \<in> set (file_tab (fs_db s))" "fi_parent r = j" "psync_fstask_find_unlink (fi_name r) 0 ?f = None"
    | r where "r \<in> set (folder_tab (fs_db s))" "fo_parent r = Some j" "psync_fstask_find_rmdir (fo_name r) 0 ?f = None"
    using full
    by (cases "get_folder j s")
      (auto simp: has_local_entries_def has_remote_entries_def list_ex_iff view_found view_none
        set_empty [symmetric] ex_in_conv [symmetric] simp del: set_empty)
  then show ?thesis
  proof cases
    case (1 c)
    then have "cname (cr_name c)" "psync_fstask_find_creat (cr_name c) 0 ?f \<noteq> None"
      using v find_names(3) [OF v, of "cr_name c"] by (auto simp: named_def)
    then show ?thesis by (auto simp: subfile_def)
  next
    case (2 m)
    then have "cname (mk_name m)" "psync_fstask_find_mkdir (mk_name m) 0 ?f \<noteq> None"
      using v find_names(1) [OF v, of "mk_name m"] by (auto simp: named_def)
    then show ?thesis by (auto simp: subfolder_def)
  next
    case (3 r)
    then have "cname (fi_name r)" "db_file j (fi_name r) (fs_db s) \<noteq> None"
      using a by (auto simp: account_ok_def cname_def db_file_def find_None_iff)
    then show ?thesis using 3(3) by (intro exI [of _ "fi_name r"]) (auto simp: subfile_def split: option.split)
  next
    case (4 r)
    then have "cname (fo_name r)" "db_folder j (fo_name r) (fs_db s) \<noteq> None"
      using a by (auto simp: account_ok_def cname_def db_folder_def find_None_iff)
    then show ?thesis using 4(3) by (intro exI [of _ "fo_name r"]) (auto simp: subfolder_def split: option.split)
  qed
qed

lemma rmdir_check_refused:
  assumes "rmdir_check e i j n d mk u = (ret, t)" "ret \<noteq> 0" "account_ok (fs_db u)" "named (view u j)"
  shows "ret = (if \<forall>m. cname m \<longrightarrow> subfolder u j m = None \<and> subfile u j m = None then - EIO else - ENOTEMPTY)"
proof -
  obtain cf w where g: "psync_fstask_get_folder_tasks_locked j u = (cf, w)" by fastforce
  have c: "cf = get_folder j u" "fs_db w = fs_db u" using get_view [OF g] by simp_all
  show ?thesis
  proof (cases "has_local_entries cf \<or> has_remote_entries cf j (fs_db u)")
    case True
    then have "ret = - ENOTEMPTY" using assms(1) g c by (auto simp: rmdir_check_def)
    moreover have "\<exists>m. cname m \<and> (subfolder u j m \<noteq> None \<or> subfile u j m \<noteq> None)"
      using full_folder [of j u] True c assms(3,4) by simp
    ultimately show ?thesis by auto
  next
    case False
    then have "ret = - EIO"
      using assms(1,2) g c by (auto simp: rmdir_check_def rmdir_insert_def Let_def split: if_splits)
    moreover have "subfolder u j m = None \<and> subfile u j m = None" for m
      using empty_folder [of j u m] False c assms(3) by auto
    ultimately show ?thesis by auto
  qed
qed

lemma vacant_shown: "vacant (dirs s, regs s) j \<longleftrightarrow> (\<forall>m. cname m \<longrightarrow> subfolder s j m = None \<and> subfile s j m = None)"
  by (auto simp: vacant_def dirs_def regs_def)

lemma named_uncounted: "named (uncounted x f) = named f"
  by (simp add: named_def uncounted_def split: option.split)

lemma rmdir_refused:
  assumes op: "psync_fstask_rmdir e i fl n s = (ret, t)" "ret \<noteq> 0" and s: "drive_ok s" and n: "cname n"
  shows "ret \<in> refused (Call_rmdir i n) (dirs s, regs s)"
proof -
  have a: "exists i (goc i s)" "fs_db (goc i s) = fs_db s" "view (goc i s) = view s" by (simp_all add: view_simps)
  have ok: "account_ok (fs_db s)" "named (view s k)" for k using s by (simp_all add: drive_ok_def)
  have d: "dirs s (i, n) = subfolder s i n" using n by (simp add: dirs_def)
  have chk: "ret = (if vacant (dirs s, regs s) j then - EIO else - ENOTEMPTY)"
    if c: "rmdir_check e i j n d mk u = (ret, t)" and u: "view u = (view s)(i := uncounted x (view s i))" "fs_db u = fs_db s" for j d mk u x
  proof -
    have "named (view u j)" using u(1) ok(2) by (simp add: named_uncounted)
    then show ?thesis
      using rmdir_check_refused [OF c op(2)] ok(1) u(2) uncounted_shows [OF u] by (simp add: vacant_shown)
  qed
  show ?thesis
  proof (cases "psync_fstask_find_mkdir n 0 (view s i)")
    case None
    have v: "view (goc i s) = (view s)(i := uncounted None (view s i))" using a by (simp add: uncounted_def)
    show ?thesis
      using op(1) None a d unfolding psync_fstask_rmdir_def Let_def
      by (auto simp: find_view subfolder_def dest!: chk [OF _ v a(2)] split: if_splits option.splits)
  next
    case (Some x)
    let ?u = "upd i (\<lambda>f. f\<lparr>fl_taskscnt := fl_taskscnt f - 1\<rparr>) (goc i s)"
    have "on_view (\<lambda>f. f\<lparr>fl_taskscnt := fl_taskscnt f - 1\<rparr>)" by (simp add: on_view_ops)
    then have u: "view ?u = (view s)(i := uncounted (Some x) (view s i))" "fs_db ?u = fs_db s"
      using a by (simp_all add: view_simps uncounted_def)
    have "rmdir_check e i (mk_folderid x) n (mk_taskid x) (Some x) ?u = (ret, t)"
      using op(1) Some a unfolding psync_fstask_rmdir_def Let_def by (simp add: find_view)
    from chk [OF this u] show ?thesis using Some d by (simp add: subfolder_def)
  qed
qed

lemma unlink_refused:
  assumes op: "psync_fstask_unlink e i n s = (ret, t)" "ret \<noteq> 0" and n: "cname n"
  shows "ret \<in> refused (Call_unlink i n) (dirs s, regs s)"
proof -
  have i: "r = 0 \<or> r = - EIO" if "unlink_insert e i n d f rf u = (r, w)" for d f rf u r w
    using that by (auto simp: unlink_insert_def Let_def split: prod.splits if_splits)
  have v: "view (goc i s) = view s" "fs_db (goc i s) = fs_db s" by (simp_all add: view_simps)
  show ?thesis
  proof (cases "psync_fstask_find_creat n 0 (view s i)")
    case None
    then show ?thesis
      using op v n unfolding psync_fstask_unlink_def Let_def
      by (auto simp: find_view regs_def subfile_def dest!: i split: if_splits option.splits)
  next
    case (Some c)
    then have "ret = - EIO"
      using op v unfolding psync_fstask_unlink_def Let_def
      by (auto simp: find_view dest!: i split: if_splits option.splits)
    then show ?thesis using Some n by (simp add: regs_def subfile_def)
  qed
qed

lemma mkdir_tree:
  assumes s: "drive_ok s" "fits s" and n: "cname n" and key: "env_new_key e \<noteq> Inr 0"
    and op: "psync_fstask_mkdir e i n fl s = (ret, t)"
  shows "dirs s (i, n) \<noteq> None \<Longrightarrow> ret = - EEXIST"
    and "ret \<noteq> 0 \<Longrightarrow> dirs t = dirs s \<and> regs t = regs s"
    and "ret = 0 \<Longrightarrow> \<exists>f. dirs t = (dirs s)((i, n) := Some (- int (next_taskid (fs_db s)), f)) \<and> regs t = regs s \<and> dirs s (i, n) = None"
proof -
  have a: "account_ok (fs_db s)" "named (view s i)" using s by (simp_all add: drive_ok_def)
  have m: "ret = 0 \<Longrightarrow> psync_fstask_find_mkdir n 0 (view s i) = None \<and> subfolder s i n = None"
    using mkdir_new [of e i n fl s t] op key a by simp
  note l = logged_shows [OF mkdir_logged [OF ready [OF s] key op] s(1) n]
  show "dirs s (i, n) \<noteq> None \<Longrightarrow> ret = - EEXIST"
    using mkdir_exists [OF op a n] by (simp add: dirs_def n)
  show "ret \<noteq> 0 \<Longrightarrow> dirs t = dirs s \<and> regs t = regs s" using l(2) m by (simp add: task_types)
  assume z: "ret = 0"
  then obtain r where "ft_type r = PSYNC_FS_TASK_MKDIR" "ft_folderid r = i" "row_name r = n" "ft_id r = next_taskid (fs_db s)"
    "dirs t = row_dirs r (dirs s)" "regs t = row_regs r (regs s)" using l(3) m by (auto simp: task_types)
  then show "\<exists>f. dirs t = (dirs s)((i, n) := Some (- int (next_taskid (fs_db s)), f)) \<and> regs t = regs s \<and> dirs s (i, n) = None"
    using m z by (auto simp: row_dirs_def row_regs_def task_types dirs_def)
qed

lemma rmdir_tree:
  assumes s: "drive_ok s" "fits s" and n: "cname n" and ok: "psync_fstask_find_mkdir n 0 (view s i) = None \<or> env_commit e \<and> ret \<noteq> - ENOTEMPTY"
    and op: "psync_fstask_rmdir e i fl n s = (ret, t)"
  shows "ret \<noteq> 0 \<Longrightarrow> dirs t = dirs s \<and> regs t = regs s"
    and "ret = 0 \<Longrightarrow> \<exists>j f. dirs s (i, n) = Some (j, f) \<and> (\<forall>m. dirs s (j, m) = None \<and> regs s (j, m) = None)
      \<and> dirs t = (dirs s)((i, n) := None) \<and> regs t = regs s"
proof -
  note l = logged_shows [OF rmdir_logged [OF ready [OF s] ok op] s(1) n]
  show "ret \<noteq> 0 \<Longrightarrow> dirs t = dirs s \<and> regs t = regs s" using l(2) by (simp add: task_types)
  assume z: "ret = 0"
  then obtain r where "ft_type r = PSYNC_FS_TASK_RMDIR" "ft_folderid r = i" "row_name r = n"
    "dirs t = row_dirs r (dirs s)" "regs t = row_regs r (regs s)" using l(3) by (auto simp: task_types)
  moreover have "\<exists>j f. subfolder s i n = Some (j, f) \<and> (\<forall>m. subfolder s j m = None \<and> subfile s j m = None)"
    using rmdir_of_empty op z s by (simp add: drive_ok_def)
  ultimately show "\<exists>j f. dirs s (i, n) = Some (j, f) \<and> (\<forall>m. dirs s (j, m) = None \<and> regs s (j, m) = None)
      \<and> dirs t = (dirs s)((i, n) := None) \<and> regs t = regs s"
    using n by (auto simp: row_dirs_def row_regs_def task_types dirs_def [of s] regs_def [of s])
qed

lemma unlink_tree:
  assumes s: "drive_ok s" "fits s" and n: "cname n" and ok: "psync_fstask_find_creat n 0 (view s i) = None \<or> env_commit e"
    and op: "psync_fstask_unlink e i n s = (ret, t)"
  shows "ret \<noteq> 0 \<Longrightarrow> dirs t = dirs s \<and> regs t = regs s"
    and "ret = 0 \<Longrightarrow> regs s (i, n) \<noteq> None \<and> dirs t = dirs s \<and> regs t = (regs s)((i, n) := None)"
proof -
  note l = logged_shows [OF unlink_logged [OF ready [OF s] ok no_static [OF s(1)] op] s(1) n]
  show "ret \<noteq> 0 \<Longrightarrow> dirs t = dirs s \<and> regs t = regs s" using l(2) by (simp add: task_types)
  assume z: "ret = 0"
  then obtain r where "ft_type r \<in> {PSYNC_FS_TASK_UNLINK, PSYNC_FS_TASK_UN_SET_REV}" "ft_folderid r = i" "row_name r = n"
    "dirs t = row_dirs r (dirs s)" "regs t = row_regs r (regs s)" using l(3) by (auto simp: task_types)
  moreover have "subfile s i n \<noteq> None" using unlink_of_file op z by simp
  ultimately show "regs s (i, n) \<noteq> None \<and> dirs t = dirs s \<and> regs t = (regs s)((i, n) := None)"
    using n by (auto simp: row_dirs_def row_regs_def task_types regs_def [of s])
qed

lemma creat_tree:
  assumes s: "drive_ok s" "fits s" and n: "cname n" "psync_fstask_find_creat n 0 (view s i) = None"
    and op: "psync_fstask_add_creat e i n fileid key (goc i s) = (Some c, t)"
  shows "dirs (release i t) = dirs s \<and> regs (release i t) = (regs s)((i, n) := Some (- int (next_taskid (fs_db s))))"
proof -
  obtain r where "ft_type r = PSYNC_FS_TASK_CREAT" "ft_folderid r = i" "row_name r = n" "ft_id r = next_taskid (fs_db s)"
    "dirs (release i t) = row_dirs r (dirs s)" "regs (release i t) = row_regs r (regs s)"
    using logged_shows(3) [OF creat_logged [OF ready [OF s] op] s(1) n(1)] n(2) by (auto simp: task_types)
  then show ?thesis by (auto simp: row_dirs_def row_regs_def task_types)
qed

section \<open>Properties\<close>

text \<open>
  C6. The operations of the drive are operations of a tree: what the drive shows before and after making or
  removing a folder, adding a file or removing one, with the result that is returned, is related by the step
  of the abstract tree for this operation, name and result. So a folder is made exactly when 0 is returned, and
  then its name was free and its id is new; a removed folder was there and empty; a refused operation
  changes nothing and its result says why; and no operation changes an entry but its own.

  The states are those that runs of \<open>fs_op\<close> and changes of the account's tables lead to, and the operations
  those of \<open>fs_op\<close>: not among them are renaming, modified files, completed changes, and the removal of a
  pending folder that is not empty or of a pending entry with a commit that fails.
\<close>

theorem fstask_refines_tree:
  assumes "fs_run k s" "2 * k + 2 < 2 ^ 32" "fs_op c ret s t"
  shows "tree_step c ret (dirs s, regs s) (dirs t, regs t)"
proof -
  have s: "drive_ok s" "fits s" using run_ok assms(1,2) by auto
  note ids = shown_ids [OF s(1)]
  from assms(3) show ?thesis
  proof cases
    case (Mkdir e i n fl)
    then have n: "cname n" by (simp add: cname_def)
    note m = mkdir_tree [OF s n Mkdir(4) Mkdir(2)]
    show ?thesis
    proof (cases "ret = 0")
      case True
      then show ?thesis using m(3) ids Mkdir(1) by (auto intro!: Dir_added)
    next
      case False
      then show ?thesis using m(1,2) Mkdir(1) by (auto intro!: Refused)
    qed
  next
    case (Rmdir e i fl n)
    then have n: "cname n" by (simp add: cname_def)
    note m = rmdir_tree [OF s n Rmdir(4) Rmdir(2)]
    show ?thesis
    proof (cases "ret = 0")
      case True
      then obtain j f where "dirs s (i, n) = Some (j, f)" "vacant (dirs s, regs s) j"
        "dirs t = (dirs s)((i, n) := None)" "regs t = regs s"
        using m(2) by (auto simp: vacant_def)
      then show ?thesis using Dir_removed [of "dirs s" i n j f "regs s"] True Rmdir(1) by simp
    next
      case False
      then show ?thesis using m(1) rmdir_refused [OF Rmdir(2) False s(1) n] Rmdir(1) by (auto intro: Refused)
    qed
  next
    case (Creat e i n fileid key x u)
    then have n: "cname n" by (simp add: cname_def)
    show ?thesis
    proof (cases x)
      case None
      then show ?thesis
        using same_shows [OF creat_failed [OF ready [OF s], of e i n fileid key u]] Creat by (auto intro: Refused)
    next
      case (Some y)
      then show ?thesis using Creat creat_tree [OF s n Creat(6), of e fileid key y u] ids by (auto intro!: File_added)
    qed
  next
    case (Unlink e i n)
    then have n: "cname n" by (simp add: cname_def)
    note m = unlink_tree [OF s n Unlink(4) Unlink(2)]
    show ?thesis
    proof (cases "ret = 0")
      case True
      then show ?thesis using m(2) Unlink(1) by (auto intro: File_removed)
    next
      case False
      then show ?thesis using m(1) unlink_refused [OF Unlink(2) False n] Unlink(1) by (auto intro: Refused)
    qed
  qed
qed

lemma sample_mkdir_op: "fs_op (Call_mkdir 0 [97]) 0 sample_start sample_mkdir"
proof -
  have "fst (psync_fstask_mkdir sample_env 0 [97] 0 sample_start) = 0" by code_simp
  then have "psync_fstask_mkdir sample_env 0 [97] 0 sample_start = (0, sample_mkdir)"
    by (simp add: sample_mkdir_def prod_eq_iff)
  from Mkdir [OF this] show ?thesis by (simp add: sample_env_def)
qed

lemma sample_shown: "subfolder sample_mkdir 0 [97] = Some (- 1, 0)" "subfolder sample_start 0 [97] = None"
  by code_simp+

theorem fstask_refines_tree_witness:
  "tree_step (Call_mkdir 0 [97]) 0 (dirs sample_start, regs sample_start) (dirs sample_mkdir, regs sample_mkdir)
   \<and> dirs sample_start (0, [97]) = None \<and> dirs sample_mkdir (0, [97]) = Some (- 1, 0)"
  using fstask_refines_tree [OF sample_start_run _ sample_mkdir_op] sample_shown by (simp add: dirs_def cname_def)

end
