(* ===== verification/IntervalTree.thy ===== *)
theory IntervalTree
  imports PTreeWalk
begin

text \<open>
  Sets of file positions as trees of intervals, \<^verbatim>\<open>pintervaltree.c\<close> and \<^verbatim>\<open>pintervaltree.h\<close>, on the trees of
  \<open>PTree\<close>: which parts of a modified file are in its local file. A node \<open>a\<close> holds the positions from
  \<open>fst (v a)\<close> to before \<open>snd (v a)\<close>; the intervals of a tree are in order and do not touch.

  The functions on lists of intervals are the reference: each function on the trees does on the intervals
  in order what the one on the list does, and these add, remove or cut positions. Where the code allocates
  a node, the model has the address \<open>new\<close>; a node that the code removes without freeing it is not special
  here.
\<close>

type_synonym ivs = "addr \<Rightarrow> u64 \<times> u64"

section \<open>Trees of intervals\<close>

partial_function (option) consume_intervals :: "addr \<Rightarrow> addr \<Rightarrow> theap \<Rightarrow> ivs \<Rightarrow> (addr \<times> theap \<times> ivs) option" where
  "consume_intervals tree e h v =
     Option.bind (psync_tree_get_next h e)
       (\<lambda>next. if next = 0 \<or> fst (v next) > snd (v e) then Some (tree, h, v)
               else Option.bind (psync_tree_get_del tree next h)
                 (\<lambda>(tree, h). if snd (v next) \<ge> snd (v e) then Some (tree, h, v(e := (fst (v e), snd (v next))))
                              else consume_intervals tree e h v))"

definition add_before_interval ::
  "addr \<Rightarrow> addr \<Rightarrow> addr \<Rightarrow> u64 \<Rightarrow> u64 \<Rightarrow> theap \<Rightarrow> ivs \<Rightarrow> (addr \<times> theap \<times> ivs) option" where
  "add_before_interval tree e new from to h v =
     Option.bind (psync_tree_get_add_before tree e new h)
       (\<lambda>(tree, h). consume_intervals tree new h (v(new := (from, to))))"

definition add_after_interval ::
  "addr \<Rightarrow> addr \<Rightarrow> addr \<Rightarrow> u64 \<Rightarrow> u64 \<Rightarrow> theap \<Rightarrow> ivs \<Rightarrow> (addr \<times> theap \<times> ivs) option" where
  "add_after_interval tree e new from to h v =
     Option.bind (psync_tree_get_add_after tree e new h)
       (\<lambda>(tree, h). consume_intervals tree new h (v(new := (from, to))))"

partial_function (option) add_interval_loop ::
  "addr \<Rightarrow> addr \<Rightarrow> addr \<Rightarrow> u64 \<Rightarrow> u64 \<Rightarrow> theap \<Rightarrow> ivs \<Rightarrow> (addr \<times> theap \<times> ivs) option" where
  "add_interval_loop tree e new from to h v =
     (if fst (v e) \<le> from \<and> snd (v e) \<ge> from then
        if snd (v e) \<ge> to then Some (tree, h, v)
        else consume_intervals tree e h (v(e := (fst (v e), to)))
      else if fst (v e) > from then
        if tleft (h e) \<noteq> 0 then add_interval_loop tree (tleft (h e)) new from to h v
        else if fst (v e) \<le> to \<and> snd (v e) \<ge> to then Some (tree, h, v(e := (from, snd (v e))))
        else add_before_interval tree e new from to h v
      else
        if tright (h e) \<noteq> 0 then add_interval_loop tree (tright (h e)) new from to h v
        else add_after_interval tree e new from to h v)"

text \<open>\<open>None\<close> for an empty interval: the assertion at the start fails and aborts. The two in the loop always hold.\<close>

definition psync_interval_tree_get_add ::
  "addr \<Rightarrow> addr \<Rightarrow> u64 \<Rightarrow> u64 \<Rightarrow> theap \<Rightarrow> ivs \<Rightarrow> (addr \<times> theap \<times> ivs) option" where
  "psync_interval_tree_get_add tree new from to h v =
     (if \<not> to > from then None
      else if tree = 0
      then map_option (\<lambda>(tree, h). (tree, h, v(new := (from, to)))) (psync_tree_get_add_after 0 0 new h)
      else add_interval_loop tree tree new from to h v)"

partial_function (option) psync_interval_tree_first_interval_containing_or_after ::
  "theap \<Rightarrow> ivs \<Rightarrow> addr \<Rightarrow> u64 \<Rightarrow> addr option" where
  "psync_interval_tree_first_interval_containing_or_after h v tree point =
     (if tree = 0 then Some tree
      else if point \<ge> snd (v tree) then
        if tright (h tree) \<noteq> 0
        then psync_interval_tree_first_interval_containing_or_after h v (tright (h tree)) point
        else psync_tree_get_next h tree
      else if point \<ge> fst (v tree) \<or> tleft (h tree) = 0 then Some tree
      else psync_interval_tree_first_interval_containing_or_after h v (tleft (h tree)) point)"

partial_function (option) remove_interval_loop ::
  "addr \<Rightarrow> addr \<Rightarrow> addr \<Rightarrow> u64 \<Rightarrow> u64 \<Rightarrow> theap \<Rightarrow> ivs \<Rightarrow> (addr \<times> theap \<times> ivs) option" where
  "remove_interval_loop tree tr new from to h v =
     (if tr = 0 then Some (tree, h, v)
      else if fst (v tr) < from \<and> snd (v tr) > to then
        map_option (\<lambda>(tree, h). (tree, h, v(new := (to, snd (v tr)), tr := (fst (v tr), from))))
          (psync_tree_get_add_after tree tr new h)
      else
        Option.bind (psync_tree_get_next h tr)
          (\<lambda>ntr. if from \<le> fst (v tr) \<and> fst (v tr) < to then
                   let v = v(tr := (to, snd (v tr))) in
                   if fst (v tr) \<ge> snd (v tr)
                   then Option.bind (psync_tree_get_del tree tr h) (\<lambda>(tree, h). remove_interval_loop tree ntr new from to h v)
                   else remove_interval_loop tree ntr new from to h v
                 else if fst (v tr) < from then remove_interval_loop tree ntr new from to h (v(tr := (fst (v tr), from)))
                 else Some (tree, h, v)))"

definition psync_interval_tree_remove ::
  "addr \<Rightarrow> addr \<Rightarrow> u64 \<Rightarrow> u64 \<Rightarrow> theap \<Rightarrow> ivs \<Rightarrow> (addr \<times> theap \<times> ivs) option" where
  "psync_interval_tree_remove tree new from to h v =
     Option.bind (psync_interval_tree_first_interval_containing_or_after h v tree from)
       (\<lambda>tr. remove_interval_loop tree tr new from to h v)"

partial_function (option) cut_end_loop :: "addr \<Rightarrow> addr \<Rightarrow> u64 \<Rightarrow> theap \<Rightarrow> ivs \<Rightarrow> (addr \<times> theap \<times> ivs) option" where
  "cut_end_loop tree lst end' h v =
     (if lst = 0 \<or> snd (v lst) \<le> end' then Some (tree, h, v)
      else if fst (v lst) < end' then Some (tree, h, v(lst := (fst (v lst), end')))
      else Option.bind (psync_tree_get_prev h lst)
        (\<lambda>prev. Option.bind (psync_tree_get_del tree lst h) (\<lambda>(tree, h). cut_end_loop tree prev end' h v)))"

definition psync_interval_tree_get_cut_end :: "addr \<Rightarrow> u64 \<Rightarrow> theap \<Rightarrow> ivs \<Rightarrow> (addr \<times> theap \<times> ivs) option" where
  "psync_interval_tree_get_cut_end tree end' h v =
     Option.bind (psync_tree_get_last h tree) (\<lambda>lst. cut_end_loop tree lst end' h v)"

section \<open>Lists of intervals\<close>

fun ivl_consume :: "u64 \<times> u64 \<Rightarrow> (u64 \<times> u64) list \<Rightarrow> (u64 \<times> u64) list" where
  "ivl_consume e [] = [e]"
| "ivl_consume (f, t) ((a, b) # xs) =
     (if a > t then (f, t) # (a, b) # xs else if b \<ge> t then (f, b) # xs else ivl_consume (f, t) xs)"

fun ivl_add :: "u64 \<Rightarrow> u64 \<Rightarrow> (u64 \<times> u64) list \<Rightarrow> (u64 \<times> u64) list" where
  "ivl_add f t [] = [(f, t)]"
| "ivl_add f t ((a, b) # xs) =
     (if b < f then (a, b) # ivl_add f t xs
      else if a \<le> f then if b \<ge> t then (a, b) # xs else ivl_consume (a, t) xs
      else ivl_consume (f, t) ((a, b) # xs))"

fun ivl_remove :: "u64 \<Rightarrow> u64 \<Rightarrow> (u64 \<times> u64) list \<Rightarrow> (u64 \<times> u64) list" where
  "ivl_remove f t [] = []"
| "ivl_remove f t ((a, b) # xs) =
     (if a < min b f then [(a, min b f)] else []) @ (if max a t < b then [(max a t, b)] else []) @ ivl_remove f t xs"

fun ivl_cut :: "u64 \<Rightarrow> (u64 \<times> u64) list \<Rightarrow> (u64 \<times> u64) list" where
  "ivl_cut e [] = []"
| "ivl_cut e ((a, b) # xs) = (if a < e then (a, min b e) # ivl_cut e xs else [])"

definition ivl_first :: "u64 \<Rightarrow> (u64 \<times> u64) list \<Rightarrow> (u64 \<times> u64) option" where
  "ivl_first p = find (\<lambda>x. p < snd x)"

text \<open>The positions, and the order: no interval is empty and there is a gap between any two.\<close>

definition points :: "(u64 \<times> u64) list \<Rightarrow> u64 set" where
  "points xs = (\<Union>(a, b)\<in>set xs. {a..<b})"

fun ivl_ok :: "(u64 \<times> u64) list \<Rightarrow> bool" where
  "ivl_ok [] \<longleftrightarrow> True"
| "ivl_ok ((a, b) # xs) \<longleftrightarrow> a < b \<and> (\<forall>x\<in>set xs. b < fst x) \<and> ivl_ok xs"

lemma points_simps [simp]:
  "points [] = {}" "points ((a, b) # xs) = {a..<b} \<union> points xs" "points (xs @ ys) = points xs \<union> points ys"
  by (auto simp: points_def)

lemma ivl_ok_append: "ivl_ok (xs @ ys) \<longleftrightarrow> ivl_ok xs \<and> ivl_ok ys \<and> (\<forall>x\<in>set xs. \<forall>y\<in>set ys. snd x < fst y)"
  by (induction xs) (fastforce simp: ball_Un)+

lemma ivl_ok_le: "ivl_ok xs \<Longrightarrow> x \<in> set xs \<Longrightarrow> fst x < snd x"
  by (induction xs) auto

lemma consume_ok:
  "ivl_ok xs \<Longrightarrow> f < t \<Longrightarrow> (\<forall>x\<in>set xs. f \<le> fst x) \<Longrightarrow>
   ivl_ok (ivl_consume (f, t) xs) \<and> points (ivl_consume (f, t) xs) = {f..<t} \<union> points xs
   \<and> (\<forall>x\<in>set (ivl_consume (f, t) xs). f \<le> fst x)"
proof (induction "(f, t)" xs arbitrary: f t rule: ivl_consume.induct)
  case (2 f t a b xs)
  consider "t < a" | "a \<le> t" "t \<le> b" | "a \<le> t" "b < t" by fastforce
  then show ?case
  proof cases
    case 1
    then show ?thesis using "2.prems" by auto
  next
    case c: 2
    have "{f..<b} = {f..<t} \<union> {a..<b}" using c "2.prems" by auto
    then show ?thesis using "2.prems" c by (auto simp: not_less)
  next
    case 3
    have "{a..<b} \<subseteq> {f..<t}" using 3 "2.prems" by auto
    then show ?thesis using 2 3 by (auto simp: not_less)
  qed
qed auto

lemma add_ok:
  "ivl_ok xs \<Longrightarrow> f < t \<Longrightarrow> ivl_ok (ivl_add f t xs) \<and> points (ivl_add f t xs) = {f..<t} \<union> points xs
    \<and> (\<forall>c. (\<forall>x\<in>set xs. c < fst x) \<longrightarrow> c < f \<longrightarrow> (\<forall>x\<in>set (ivl_add f t xs). c < fst x))"
proof (induction f t xs rule: ivl_add.induct)
  case (2 f t a b xs)
  have g: "ivl_ok xs" "\<forall>x\<in>set xs. b < fst x" "a < b" using "2.prems" by auto
  consider "b < f" | "f \<le> b" "a \<le> f" "t \<le> b" | "f \<le> b" "a \<le> f" "b < t" | "f \<le> b" "f < a" by fastforce
  then show ?case
  proof cases
    case 1
    then show ?thesis using 2 g by auto
  next
    case c: 2
    then have "{f..<t} \<subseteq> {a..<b}" by auto
    then show ?thesis using c "2.prems" by (auto simp: not_less)
  next
    case 3
    have "\<forall>x\<in>set xs. a \<le> fst x" using g by force
    then have o: "ivl_ok (ivl_consume (a, t) xs)" "points (ivl_consume (a, t) xs) = {a..<t} \<union> points xs"
      "\<forall>x\<in>set (ivl_consume (a, t) xs). a \<le> fst x" using consume_ok [of xs a t] g(1) 3 "2.prems"(2) by auto
    have p: "{a..<t} = {f..<t} \<union> {a..<b}" using 3 g "2.prems" by auto
    show ?thesis using 3 o p by (auto simp: not_less intro: order.strict_trans2)
  next
    case 4
    have "\<forall>x\<in>set ((a, b) # xs). f \<le> fst x" using g 4 by force
    then have o: "ivl_ok (ivl_consume (f, t) ((a, b) # xs))"
      "points (ivl_consume (f, t) ((a, b) # xs)) = {f..<t} \<union> points ((a, b) # xs)"
      "\<forall>x\<in>set (ivl_consume (f, t) ((a, b) # xs)). f \<le> fst x"
      using consume_ok [of "(a, b) # xs" f t] "2.prems" by blast+
    have e: "ivl_add f t ((a, b) # xs) = ivl_consume (f, t) ((a, b) # xs)" using 4 by auto
    show ?thesis unfolding e using o by (blast intro: order.strict_trans2)
  qed
qed auto

lemma remove_ok:
  "ivl_ok xs \<Longrightarrow> f < t \<Longrightarrow> ivl_ok (ivl_remove f t xs) \<and> points (ivl_remove f t xs) = points xs - {f..<t}
    \<and> (\<forall>c. (\<forall>x\<in>set xs. c < fst x) \<longrightarrow> (\<forall>x\<in>set (ivl_remove f t xs). c < fst x))"
proof (induction f t xs rule: ivl_remove.induct)
  case (2 f t a b xs)
  let ?p = "(if a < min b f then [(a, min b f)] else []) @ (if max a t < b then [(max a t, b)] else [])"
  have g: "ivl_ok xs" "\<forall>x\<in>set xs. b < fst x" "a < b" "f < t" using "2.prems" by auto
  have p: "ivl_ok ?p" "points ?p = {a..<b} - {f..<t}" "\<forall>x\<in>set ?p. a \<le> fst x \<and> snd x \<le> b"
    using g by (auto simp: min_def max_def not_less split: if_splits)
  have r: "ivl_ok (ivl_remove f t xs)" "points (ivl_remove f t xs) = points xs - {f..<t}"
    "\<forall>c. (\<forall>x\<in>set xs. c < fst x) \<longrightarrow> (\<forall>x\<in>set (ivl_remove f t xs). c < fst x)" using 2 by auto
  have q: "\<forall>x\<in>set (ivl_remove f t xs). b < fst x" using r(3) g(2) by blast
  have e: "ivl_remove f t ((a, b) # xs) = ?p @ ivl_remove f t xs" by simp
  show ?case
  proof (intro conjI allI impI)
    show "ivl_ok (ivl_remove f t ((a, b) # xs))"
    proof -
      have "ivl_ok (ps @ rs)" if "ivl_ok ps" "ivl_ok rs" "\<forall>x\<in>set ps. a \<le> fst x \<and> snd x \<le> b" "\<forall>x\<in>set rs. b < fst x" for ps rs
        unfolding ivl_ok_append using that by (blast intro: order.strict_trans1)
      from this [OF p(1) r(1) p(3) q] show ?thesis unfolding e .
    qed
    show "points (ivl_remove f t ((a, b) # xs)) = points ((a, b) # xs) - {f..<t}"
      unfolding e points_simps(3) [of ?p] p(2) r(2) points_simps(2) by blast
    show "\<forall>x\<in>set (ivl_remove f t ((a, b) # xs)). c < fst x" if "\<forall>x\<in>set ((a, b) # xs). c < fst x" for c
      unfolding e using that p(3) q g(3) by (auto dest: order.strict_trans2) 
  qed
qed auto

lemma cut_ok:
  "ivl_ok xs \<Longrightarrow> ivl_ok (ivl_cut e xs) \<and> points (ivl_cut e xs) = points xs \<inter> {..<e}
    \<and> (\<forall>c. (\<forall>x\<in>set xs. c < fst x) \<longrightarrow> (\<forall>x\<in>set (ivl_cut e xs). c < fst x))"
proof (induction e xs rule: ivl_cut.induct)
  case (2 e a b xs)
  show ?case
  proof (cases "a < e")
    case True
    have "{a..<b} \<inter> {..<e} = {a..<min b e}" by auto
    then show ?thesis using 2 True by (auto 0 4 simp: Int_Un_distrib2 min_less_iff_disj)
  next
    case False
    have "points ((a, b) # xs) \<inter> {..<e} = {}" using 2(2) False by (fastforce simp: points_def)
    then show ?thesis using False by auto
  qed
qed auto

section \<open>The trees hold what the lists hold\<close>

lemma consume_correct:
  "contents h root (us @ e # ws) \<Longrightarrow>
   \<exists>root' h' v' ws'. consume_intervals root e h v = Some (root', h', v') \<and> contents h' root' (us @ e # ws')
     \<and> map v' (e # ws') = ivl_consume (v e) (map v ws) \<and> (\<forall>a. a \<noteq> e \<longrightarrow> v' a = v a) \<and> set ws' \<subseteq> set ws"
proof (induction ws arbitrary: h root)
  case Nil
  then have "consume_intervals root e h v = Some (root, h, v)"
    using get_next_correct [OF Nil] by (subst consume_intervals.simps) simp
  then show ?case using Nil by auto
next
  case (Cons n ws)
  have n: "n \<noteq> 0" "e \<noteq> n" "e \<notin> set ws" "n \<notin> set ws" using contents_nodes [OF Cons.prems] by auto
  obtain f t a b where v: "v e = (f, t)" "v n = (a, b)" by fastforce
  have "contents h root ((us @ [e]) @ n # ws)" using Cons.prems by simp
  then obtain root1 h1 where d: "psync_tree_get_del root n h = Some (root1, h1)" "contents h1 root1 (us @ e # ws)"
    using get_del_correct [of h root "us @ [e]" n ws] by auto
  have step: "consume_intervals root e h v = (if t < a then Some (root, h, v)
      else if t \<le> b then Some (root1, h1, v(e := (f, b))) else consume_intervals root1 e h1 v)"
    using get_next_correct [OF Cons.prems] n d v by (subst consume_intervals.simps) simp
  consider "t < a" | "\<not> t < a" "t \<le> b" | "\<not> t < a" "\<not> t \<le> b" by blast
  then show ?case
  proof cases
    case 1
    then show ?thesis using step Cons.prems v by (auto intro!: exI [of _ "n # ws"])
  next
    case 2
    moreover have "map (v(e := (f, b))) ws = map v ws" using n by auto
    ultimately show ?thesis using step d(2) v by (auto intro!: exI [of _ ws])
  next
    case 3
    from Cons.IH [OF d(2)] obtain root' h' v' ws' where
      "consume_intervals root1 e h1 v = Some (root', h', v')" "contents h' root' (us @ e # ws')"
      "map v' (e # ws') = ivl_consume (v e) (map v ws)" "\<forall>a. a \<noteq> e \<longrightarrow> v' a = v a" "set ws' \<subseteq> set ws" by blast
    then show ?thesis using step 3 v by (auto intro!: exI [of _ ws'])
  qed
qed

text \<open>The step at the node where the search ends.\<close>

definition add_interval_at ::
  "addr \<Rightarrow> addr \<Rightarrow> addr \<Rightarrow> u64 \<Rightarrow> u64 \<Rightarrow> theap \<Rightarrow> ivs \<Rightarrow> (addr \<times> theap \<times> ivs) option" where
  "add_interval_at tree e new from to h v =
     (if fst (v e) \<le> from \<and> snd (v e) \<ge> from then
        if snd (v e) \<ge> to then Some (tree, h, v) else consume_intervals tree e h (v(e := (fst (v e), to)))
      else if fst (v e) > from then
        if fst (v e) \<le> to \<and> snd (v e) \<ge> to then Some (tree, h, v(e := (from, snd (v e))))
        else add_before_interval tree e new from to h v
      else add_after_interval tree e new from to h v)"

definition ends_at :: "ivs \<Rightarrow> u64 \<Rightarrow> addr list \<Rightarrow> addr \<Rightarrow> addr list \<Rightarrow> bool" where
  "ends_at v from us x vs \<longleftrightarrow> fst (v x) \<le> from \<and> snd (v x) \<ge> from
     \<or> fst (v x) > from \<and> (\<forall>a\<in>set us. snd (v a) < from) \<or> snd (v x) < from \<and> (\<forall>b\<in>set vs. fst (v b) > from)"

lemma add_interval_descends:
  "shape h q p t \<Longrightarrow> t \<noteq> Leaf \<Longrightarrow> ivl_ok (map v (inorder t)) \<Longrightarrow>
   \<exists>us x vs. inorder t = us @ x # vs \<and> add_interval_loop root p new from to h v = add_interval_at root x new from to h v
     \<and> ends_at v from us x vs"
proof (induction t arbitrary: q p)
  case Leaf
  then show ?case by simp
next
  case (Node l x r)
  have p: "p = x" and l: "shape h x (tleft (h x)) l" and r: "shape h x (tright (h x)) r"
    using Node.prems(1) by auto
  have ok: "ivl_ok (map v (inorder l))" "ivl_ok (map v (inorder r))" "fst (v x) < snd (v x)"
    "\<forall>a\<in>set_tree l. snd (v a) < fst (v x)" "\<forall>b\<in>set_tree r. snd (v x) < fst (v b)"
    using Node.prems(3) by (cases "v x"; auto simp: ivl_ok_append)+
  note lr = shape_root [OF l] shape_root [OF r]
  consider "fst (v x) \<le> from" "snd (v x) \<ge> from" | "fst (v x) > from" | "snd (v x) < from" by fastforce
  then show ?case
  proof cases
    case 1
    then show ?thesis using p
      by (intro exI [of _ "inorder l"] exI [of _ x] exI [of _ "inorder r"])
        (subst add_interval_loop.simps, simp add: add_interval_at_def ends_at_def)
  next
    case 2
    then have "\<not> fst (v x) \<le> from" by (simp add: not_le)
    show ?thesis
    proof (cases "l = Leaf")
      case True
      then show ?thesis using 2 p lr
        by (intro exI [of _ "[]"] exI [of _ x] exI [of _ "inorder r"])
          (subst add_interval_loop.simps, simp add: add_interval_at_def ends_at_def)
    next
      case False
      then have "add_interval_loop root p new from to h v = add_interval_loop root (tleft (h x)) new from to h v"
        using \<open>\<not> fst (v x) \<le> from\<close> 2 p lr by (subst add_interval_loop.simps) simp
      moreover obtain us y vs where y: "inorder l = us @ y # vs"
        "add_interval_loop root (tleft (h x)) new from to h v = add_interval_at root y new from to h v" "ends_at v from us y vs"
        using Node.IH(1) [OF l False ok(1)] by blast
      moreover have "\<forall>b\<in>set (x # inorder r). fst (v b) > from" using 2 ok(3,5) by fastforce
      then have "ends_at v from us y (vs @ x # inorder r)" using y(3) by (auto simp: ends_at_def)
      ultimately show ?thesis by (intro exI [of _ us] exI [of _ y] exI [of _ "vs @ x # inorder r"]) simp
    qed
  next
    case 3
    show ?thesis
    proof (cases "r = Leaf")
      case True
      then show ?thesis using 3 p lr ok(3)
        by (intro exI [of _ "inorder l"] exI [of _ x] exI [of _ "[]"])
          (subst add_interval_loop.simps, auto simp: add_interval_at_def ends_at_def)
    next
      case False
      then have "add_interval_loop root p new from to h v = add_interval_loop root (tright (h x)) new from to h v"
        using 3 p lr ok(3) by (subst add_interval_loop.simps) auto
      moreover obtain us y vs where y: "inorder r = us @ y # vs"
        "add_interval_loop root (tright (h x)) new from to h v = add_interval_at root y new from to h v" "ends_at v from us y vs"
        using Node.IH(2) [OF r False ok(2)] by blast
      moreover have "\<forall>b\<in>set (inorder l @ [x]). snd (v b) < from" using 3 ok(3,4) by fastforce
      then have "ends_at v from (inorder l @ x # us) y vs" using y(3) by (auto simp: ends_at_def)
      ultimately show ?thesis by (intro exI [of _ "inorder l @ x # us"] exI [of _ y] exI [of _ vs]) simp
    qed
  qed
qed

lemma ivl_add_skip: "\<forall>x\<in>set us. snd x < f \<Longrightarrow> ivl_add f t (us @ xs) = us @ ivl_add f t xs"
  by (induction us) auto

lemma ivl_add_front: "\<forall>x\<in>set xs. fst x > f \<and> fst x < snd x \<Longrightarrow> ivl_add f t xs = ivl_consume (f, t) xs"
  by (cases xs) (auto simp: not_less)

lemma map_frame: "\<forall>a. a \<noteq> e \<longrightarrow> v' a = v a \<Longrightarrow> e \<notin> set xs \<Longrightarrow> map v' xs = map v xs"
  by auto

text \<open>A new interval next to a node, and what follows it.\<close>

lemma new_interval:
  assumes "contents h1 root1 (us @ new # ws)"
  shows "\<exists>root' h' v' ws'. consume_intervals root1 new h1 (v(new := (from, to))) = Some (root', h', v')
     \<and> contents h' root' (us @ new # ws') \<and> map v' (us @ new # ws') = map v us @ ivl_consume (from, to) (map v ws)
     \<and> set ws' \<subseteq> set ws"
proof -
  have n: "new \<notin> set us" "new \<notin> set ws" using contents_nodes [OF assms] by auto
  obtain root' h' v' ws' where c: "consume_intervals root1 new h1 (v(new := (from, to))) = Some (root', h', v')"
    "contents h' root' (us @ new # ws')" "map v' (new # ws') = ivl_consume (from, to) (map (v(new := (from, to))) ws)"
    "\<forall>a. a \<noteq> new \<longrightarrow> v' a = v a" "set ws' \<subseteq> set ws"
    using consume_correct [OF assms, of "v(new := (from, to))"] by auto
  have m: "map (v(new := (from, to))) ws = map v ws" "map v' us = map v us" using n c(4) by auto
  have "map v' (us @ new # ws') = map v us @ ivl_consume (from, to) (map v ws)" using c(3) unfolding m(1) by (simp add: m(2))
  then show ?thesis using c(1,2,5) by blast
qed

lemma get_add_interval_correct:
  assumes c: "contents h root xs" and ok: "ivl_ok (map v xs)" and new: "new \<notin> set xs" "new \<noteq> 0" and lt: "from < to"
  shows "\<exists>root' h' v' ys. psync_interval_tree_get_add root new from to h v = Some (root', h', v')
    \<and> contents h' root' ys \<and> map v' ys = ivl_add from to (map v xs) \<and> set ys \<subseteq> insert new (set xs)"
proof (cases "root = 0")
  case True
  then have "xs = []" using contents_root [OF c] by simp
  then show ?thesis
    using True lt contents_single [OF new(2), of h]
    by (auto simp: psync_interval_tree_get_add_def psync_tree_get_add_after_def intro!: exI [of _ "[new]"])
next
  case False
  obtain t where t: "shape h 0 root t" "inorder t = xs" using c by (auto simp: contents_def tree_at_def)
  have tL: "t \<noteq> Leaf" using shape_root [OF t(1)] False by simp
  obtain us x vs where x: "xs = us @ x # vs" "ends_at v from us x vs"
    "psync_interval_tree_get_add root new from to h v = add_interval_at root x new from to h v"
    using add_interval_descends [OF t(1) tL, of v root new "from" to] ok t(2) False lt
    by (auto simp: psync_interval_tree_get_add_def)
  have cx: "contents h root (us @ x # vs)" using c x(1) by simp
  have nx: "new \<notin> set (us @ x # vs)" using new(1) x(1) by simp
  have ok': "fst (v x) < snd (v x)" "\<forall>a\<in>set us. snd (v a) < fst (v x)" "\<forall>b\<in>set vs. snd (v x) < fst (v b)"
    "\<forall>b\<in>set vs. fst (v b) < snd (v b)"
    using ok ivl_ok_le [OF ok] by (cases "v x"; auto simp: x(1) ivl_ok_append)+
  have xd: "x \<notin> set us" "x \<notin> set vs" using contents_nodes [OF cx] by auto
  have root: "root \<noteq> 0" "x \<noteq> 0" using False contents_nodes [OF cx] by auto
  obtain a b where v: "v x = (a, b)" by fastforce
  consider "a \<le> from" "from \<le> b" | "a > from" "\<forall>a\<in>set us. snd (v a) < from" | "b < from" "\<forall>b\<in>set vs. fst (v b) > from"
    using x(2) by (auto simp: ends_at_def v)
  then show ?thesis
  proof cases
    case 1
    have "\<forall>y\<in>set (map v us). snd y < from" using ok'(2) 1 v by (auto intro: order.strict_trans2)
    then have i: "ivl_add from to (map v xs) = map v us @ ivl_add from to ((a, b) # map v vs)"
      using ivl_add_skip [of "map v us"] by (simp add: x(1) v)
    show ?thesis
    proof (cases "to \<le> b")
      case True
      then have "add_interval_at root x new from to h v = Some (root, h, v)" using 1 v by (simp add: add_interval_at_def)
      then show ?thesis using x i 1 True v cx by (auto intro!: exI [of _ xs])
    next
      case False
      then have "add_interval_at root x new from to h v = consume_intervals root x h (v(x := (a, to)))"
        using 1 v by (simp add: add_interval_at_def)
      moreover obtain root' h' v' ws' where w: "consume_intervals root x h (v(x := (a, to))) = Some (root', h', v')"
        "contents h' root' (us @ x # ws')" "map v' (us @ x # ws') = map v us @ ivl_consume (a, to) (map v vs)" "set ws' \<subseteq> set vs"
        using new_interval [OF cx, of v a to] by blast
      ultimately show ?thesis using x(1,3) i 1 False w by (auto intro!: exI [of _ "us @ x # ws'"])
    qed
  next
    case 2
    then have i: "ivl_add from to (map v xs) = map v us @ ivl_consume (from, to) ((a, b) # map v vs)"
      using ivl_add_skip [of "map v us" "from"] ok' v by (auto simp: x(1))
    show ?thesis
    proof (cases "a \<le> to \<and> to \<le> b")
      case True
      then have "add_interval_at root x new from to h v = Some (root, h, v(x := (from, b)))"
        using 2 v by (auto simp: add_interval_at_def)
      moreover have "map (v(x := (from, b))) xs = map v us @ (from, b) # map v vs" using xd by (simp add: x(1))
      ultimately show ?thesis using x(3) i True c
        by (auto intro!: exI [of _ xs] simp del: map_eq_conv)
    next
      case F: False
      obtain root1 h1 where n1: "psync_tree_get_add_before root x new h = Some (root1, h1)" "contents h1 root1 (us @ new # x # vs)"
        using add_before_node_correct [OF cx nx new(2)] root by (auto simp: psync_tree_get_add_before_def)
      have "add_interval_at root x new from to h v = consume_intervals root1 new h1 (v(new := (from, to)))"
        using 2 v F n1(1) by (auto simp: add_interval_at_def add_before_interval_def)
      moreover obtain root' h' v' ws' where w: "consume_intervals root1 new h1 (v(new := (from, to))) = Some (root', h', v')"
        "contents h' root' (us @ new # ws')" "map v' (us @ new # ws') = map v us @ ivl_consume (from, to) (map v (x # vs))"
        "set ws' \<subseteq> set (x # vs)"
        using new_interval [OF n1(2), of v "from" to] by blast
      ultimately show ?thesis using x(1,3) i v w by (auto intro!: exI [of _ "us @ new # ws'"])
    qed
  next
    case 3
    have "\<forall>y\<in>set (map v (us @ [x])). snd y < from" using ok'(1,2) 3 v by (auto dest!: bspec)
    moreover have "ivl_add from to (map v vs) = ivl_consume (from, to) (map v vs)"
      using ivl_add_front [of "map v vs"] 3 ok'(4) by simp
    ultimately have i: "ivl_add from to (map v xs) = map v (us @ [x]) @ ivl_consume (from, to) (map v vs)"
      using ivl_add_skip [of "map v (us @ [x])" "from" to "map v vs"] by (simp add: x(1))
    obtain root1 h1 where n1: "psync_tree_get_add_after root x new h = Some (root1, h1)" "contents h1 root1 (us @ x # new # vs)"
      using add_after_node_correct [OF cx nx new(2)] root by (auto simp: psync_tree_get_add_after_def)
    have "add_interval_at root x new from to h v = consume_intervals root1 new h1 (v(new := (from, to)))"
      using 3 v ok'(1) n1(1) by (auto simp: add_interval_at_def add_after_interval_def)
    moreover obtain root' h' v' ws' where w: "consume_intervals root1 new h1 (v(new := (from, to))) = Some (root', h', v')"
      "contents h' root' ((us @ [x]) @ new # ws')"
      "map v' ((us @ [x]) @ new # ws') = map v (us @ [x]) @ ivl_consume (from, to) (map v vs)" "set ws' \<subseteq> set vs"
      using new_interval [of h1 root1 "us @ [x]" new vs v "from" to] n1(2) by auto
    ultimately show ?thesis using x(1,3) i w by (auto intro!: exI [of _ "(us @ [x]) @ new # ws'"])
  qed
qed

end
