(* ===== verification/IntervalSet.thy ===== *)
theory IntervalSet
  imports IntervalTree
begin

text \<open>
  The interval trees of \<^verbatim>\<open>pintervaltree.c\<close> as sets of positions: the search, the removal and the cut of
  \<open>IntervalTree\<close> do on the intervals in order what the functions on lists do, and so adding, removing and
  cutting are the union, the difference and the intersection of sets of positions.
\<close>

lemmas neg = leD not_le [THEN iffD2]

section \<open>The search\<close>

definition first_of :: "addr list \<Rightarrow> addr" where
  "first_of xs = (case xs of [] \<Rightarrow> 0 | x # _ \<Rightarrow> x)"

lemma first_of_simps [simp]: "first_of [] = 0" "first_of (x # xs) = x"
  by (simp_all add: first_of_def)

lemma first_interval_descends:
  "shape h q p t \<Longrightarrow> t \<noteq> Leaf \<Longrightarrow> ivl_ok (map v (inorder t)) \<Longrightarrow> contents h root (us @ inorder t @ ws) \<Longrightarrow>
   psync_interval_tree_first_interval_containing_or_after h v p k
     = Some (case find (\<lambda>a. k < snd (v a)) (inorder t) of None \<Rightarrow> first_of ws | Some a \<Rightarrow> a)"
proof (induction t arbitrary: q p us ws)
  case Leaf
  then show ?case by simp
next
  case (Node l x r)
  have p: "p = x" "x \<noteq> 0" and l: "shape h x (tleft (h x)) l" and r: "shape h x (tright (h x)) r"
    using Node.prems(1) by auto
  have ok: "ivl_ok (map v (inorder l))" "ivl_ok (map v (inorder r))" "fst (v x) < snd (v x)"
    "\<forall>a\<in>set (inorder l). snd (v a) < fst (v x)"
    using Node.prems(3) by (cases "v x"; auto simp: ivl_ok_append)+
  have c: "contents h root ((us @ inorder l) @ x # inorder r @ ws)" "contents h root (us @ inorder l @ (x # inorder r @ ws))"
    "contents h root ((us @ inorder l @ [x]) @ inorder r @ ws)"
    using Node.prems(4) by simp_all
  note lr = shape_root [OF l] shape_root [OF r]
  have find_app: "find P (ys @ zs) = (case find P ys of None \<Rightarrow> find P zs | Some a \<Rightarrow> Some a)"
    for P and ys zs :: "addr list" by (induction ys) auto
  have none: "find (\<lambda>a. k < snd (v a)) (inorder l) = None" if "fst (v x) \<le> k"
    using ok(4) that by (fastforce simp: find_None_iff)
  consider "snd (v x) \<le> k" | "fst (v x) \<le> k" "k < snd (v x)" | "k < fst (v x)" by fastforce
  then show ?case
  proof cases
    case 1
    then have nl: "find (\<lambda>a. k < snd (v a)) (inorder l) = None" using none ok(3) by simp
    show ?thesis
    proof (cases "r = Leaf")
      case True
      then show ?thesis using 1 p lr nl leD [OF 1] get_next_correct [OF c(1), folded first_of_def]
        by (subst psync_interval_tree_first_interval_containing_or_after.simps) (simp add: find_app)
    next
      case False
      then show ?thesis using 1 p lr nl leD [OF 1] Node.IH(2) [OF r False ok(2) c(3)]
        by (subst psync_interval_tree_first_interval_containing_or_after.simps) (simp add: find_app)
    qed
  next
    case 2
    then have "\<not> snd (v x) \<le> k" by (simp add: not_le)
    with 2 show ?thesis using p none
      by (subst psync_interval_tree_first_interval_containing_or_after.simps) (simp add: find_app)
  next
    case 3
    then have lt: "k < snd (v x)" using ok(3) by simp
    show ?thesis
    proof (cases "l = Leaf")
      case True
      then show ?thesis using lt p lr
        by (subst psync_interval_tree_first_interval_containing_or_after.simps) (simp add: neg)
    next
      case False
      then show ?thesis using 3 lt p lr Node.IH(1) [OF l False ok(1) c(2)]
        by (subst psync_interval_tree_first_interval_containing_or_after.simps) (simp add: find_app neg split: option.split)
    qed
  qed
qed

lemma first_interval_correct:
  assumes "contents h root xs" "ivl_ok (map v xs)"
  shows "psync_interval_tree_first_interval_containing_or_after h v root k
    = Some (first_of (dropWhile (\<lambda>a. snd (v a) \<le> k) xs))"
proof (cases "root = 0")
  case True
  then have "xs = []" using contents_root [OF assms(1)] by simp
  then show ?thesis using True by (subst psync_interval_tree_first_interval_containing_or_after.simps) simp
next
  case False
  obtain t where t: "shape h 0 root t" "inorder t = xs" using assms(1) by (auto simp: contents_def tree_at_def)
  have f: "(case find (\<lambda>a. k < snd (v a)) ys of None \<Rightarrow> first_of [] | Some a \<Rightarrow> a) = first_of (dropWhile (\<lambda>a. snd (v a) \<le> k) ys)" for ys
    by (induction ys) (auto simp: not_less)
  have "t \<noteq> Leaf" using shape_root [OF t(1)] False by simp
  from first_interval_descends [OF t(1) this, of v root "[]" "[]" k] show ?thesis
    using assms t(2) f [of xs] by (simp del: first_of_simps)
qed

section \<open>Removing and cutting\<close>

lemma ivl_remove_after: "f < t \<Longrightarrow> \<forall>x\<in>set xs. t \<le> fst x \<and> fst x < snd x \<Longrightarrow> ivl_remove f t xs = xs"
  by (induction xs) (auto simp: min_def max_def)

lemma remove_interval_loop_correct:
  "contents h root (us @ ws) \<Longrightarrow> ivl_ok (map v ws) \<Longrightarrow> \<forall>x\<in>set ws. from < snd (v x) \<Longrightarrow> from < to \<Longrightarrow>
   new \<notin> set (us @ ws) \<Longrightarrow> new \<noteq> 0 \<Longrightarrow>
   \<exists>root' h' v' ws'. remove_interval_loop root (first_of ws) new from to h v = Some (root', h', v')
     \<and> contents h' root' (us @ ws') \<and> map v' ws' = ivl_remove from to (map v ws)
     \<and> (\<forall>a. a \<notin> insert new (set ws) \<longrightarrow> v' a = v a) \<and> set ws' \<subseteq> insert new (set ws)"
proof (induction ws arbitrary: us h root v)
  case Nil
  then show ?case by (subst remove_interval_loop.simps) (auto intro!: exI [of _ "[]"])
next
  case (Cons n ws)
  note c = Cons.prems(1)
  have n: "n \<noteq> 0" "n \<noteq> new" "n \<notin> set ws" "n \<notin> set us" "new \<notin> set ws" "new \<notin> set us"
    using contents_nodes [OF c] Cons.prems(5) by auto
  obtain a b where v: "v n = (a, b)" by fastforce
  have ok: "a < b" "from < b" "ivl_ok (map v ws)" "\<forall>x\<in>set ws. b < fst (v x) \<and> fst (v x) < snd (v x)"
    "\<forall>x\<in>set ws. from < snd (v x)"
    using Cons.prems(2,3) ivl_ok_le [of "map v ws"] v by auto
  note nx = get_next_correct [OF c, folded first_of_def]
  have ih: "\<exists>root' h' v' ws'. remove_interval_loop root1 (first_of ws) new from to h1 (v(n := z)) = Some (root', h', v')
     \<and> contents h' root' (us1 @ ws') \<and> map v' ws' = ivl_remove from to (map v ws) \<and> v' n = z
     \<and> (\<forall>a. a \<notin> insert new (set (n # ws)) \<longrightarrow> v' a = v a) \<and> set ws' \<subseteq> insert new (set ws)"
    if c1: "contents h1 root1 (us1 @ ws)" "new \<notin> set us1" for us1 h1 root1 z
  proof -
    have m: "map (v(n := z)) ws = map v ws" using n by auto
    have p: "ivl_ok (map (v(n := z)) ws)" "\<forall>x\<in>set ws. from < snd ((v(n := z)) x)" "new \<notin> set (us1 @ ws)"
      unfolding m using ok(3,5) n c1(2) by auto
    from Cons.IH [OF c1(1) p(1,2) Cons.prems(4) p(3) Cons.prems(6)] show ?thesis
      unfolding m using n by (elim exE conjE) (intro exI conjI, assumption+, auto)
  qed
  consider "a < from" "to < b" | "a < from" "b \<le> to" | "from \<le> a" "a < to" "to < b" | "from \<le> a" "a < to" "b \<le> to"
    | "to \<le> a" using Cons.prems(4) by fastforce
  then show ?case
  proof cases
    case 1
    have "n \<notin> set us" "new \<notin> set (us @ n # ws)" using n by auto
    then obtain root1 h1 where d: "psync_tree_get_add_after root n new h = Some (root1, h1)"
      "contents h1 root1 (us @ n # new # ws)"
      using add_after_node_correct [OF c _ Cons.prems(6)] contents_root [OF c] n(1) by (auto simp: psync_tree_get_add_after_def)
    let ?v = "v(new := (to, b), n := (a, from))"
    have "\<forall>x\<in>set (map v ws). to \<le> fst x \<and> fst x < snd x" using ok(4) 1 by (auto intro: less_imp_le [OF order.strict_trans])
    then have "ivl_remove from to (map v ws) = map v ws" using ivl_remove_after [OF Cons.prems(4)] by blast
    moreover have "map ?v ws = map v ws" using n by auto
    ultimately have "map ?v (n # new # ws) = ivl_remove from to (map v (n # ws))"
      using 1 n v ok(2)[unfolded not_le [symmetric]] 1(1) Cons.prems(4) by (simp add: min_absorb2 max_absorb2 less_imp_le)
    moreover have "remove_interval_loop root n new from to h v = Some (root1, h1, ?v)"
      using 1 v n d(1) by (subst remove_interval_loop.simps) (simp add: neg)
    ultimately show ?thesis using d(2) by (auto intro!: exI [of _ "n # new # ws"] simp del: map_eq_conv)
  next
    case 2
    have "remove_interval_loop root n new from to h v = remove_interval_loop root (first_of ws) new from to h (v(n := (a, from)))"
      using 2 v n nx by (subst remove_interval_loop.simps) (simp add: neg)
    moreover obtain root' h' v' ws' where w:
      "remove_interval_loop root (first_of ws) new from to h (v(n := (a, from))) = Some (root', h', v')"
      "contents h' root' ((us @ [n]) @ ws')" "map v' ws' = ivl_remove from to (map v ws)" "v' n = (a, from)"
      "\<forall>a. a \<notin> insert new (set (n # ws)) \<longrightarrow> v' a = v a" "set ws' \<subseteq> insert new (set ws)"
      using ih [of h root "us @ [n]" "(a, from)"] c n by auto
    moreover have "map v' (n # ws') = ivl_remove from to (map v (n # ws))"
      using w(3,4) 2 v ok(1,2) n by (simp add: min_def max_def neg)
    ultimately show ?thesis by (intro exI [of _ root'] exI [of _ h'] exI [of _ v'] exI [of _ "n # ws'"]) auto
  next
    case 3
    have "remove_interval_loop root n new from to h v = remove_interval_loop root (first_of ws) new from to h (v(n := (to, b)))"
      using 3 v n nx by (subst remove_interval_loop.simps) (simp add: neg)
    moreover obtain root' h' v' ws' where w:
      "remove_interval_loop root (first_of ws) new from to h (v(n := (to, b))) = Some (root', h', v')"
      "contents h' root' ((us @ [n]) @ ws')" "map v' ws' = ivl_remove from to (map v ws)" "v' n = (to, b)"
      "\<forall>a. a \<notin> insert new (set (n # ws)) \<longrightarrow> v' a = v a" "set ws' \<subseteq> insert new (set ws)"
      using ih [of h root "us @ [n]" "(to, b)"] c n by auto
    moreover have e: "max a to = to" "(to < b) = True" "(a < min b from) = False" using 3 ok(2) by (auto simp: max_def min_def)
    moreover have "map v' (n # ws') = ivl_remove from to (map v (n # ws))"
      using w(3,4) by (simp only: list.map v ivl_remove.simps e if_False if_True append_Nil append_Cons)
    ultimately show ?thesis by (intro exI [of _ root'] exI [of _ h'] exI [of _ v'] exI [of _ "n # ws'"]) auto
  next
    case 4
    obtain root1 h1 where d: "psync_tree_get_del root n h = Some (root1, h1)" "contents h1 root1 (us @ ws)"
      using get_del_correct [OF c] by blast
    have "remove_interval_loop root n new from to h v = remove_interval_loop root1 (first_of ws) new from to h1 (v(n := (to, b)))"
      using 4 v n nx d(1) by (subst remove_interval_loop.simps) (simp add: neg)
    moreover have "ivl_remove from to (map v (n # ws)) = ivl_remove from to (map v ws)"
      using 4 v ok(1,2) by (simp add: min_def max_def neg)
    ultimately show ?thesis using ih [OF d(2) n(6), of "(to, b)"] by fastforce
  next
    case 5
    have "\<forall>x\<in>set (map v (n # ws)). to \<le> fst x \<and> fst x < snd x"
      using ok(1,4) 5 v by (auto intro: less_imp_le [OF order.strict_trans1 [OF _ order.strict_trans]])
    then have "ivl_remove from to (map v (n # ws)) = map v (n # ws)" using ivl_remove_after [OF Cons.prems(4)] by blast
    moreover have "remove_interval_loop root n new from to h v = Some (root, h, v)"
      using 5 v n nx Cons.prems(4) by (subst remove_interval_loop.simps) auto
    ultimately show ?thesis using c by (auto intro!: exI [of _ "n # ws"] simp del: map_eq_conv)
  qed
qed

lemma remove_interval_correct:
  assumes c: "contents h root xs" "ivl_ok (map v xs)" and f: "from < to" and new: "new \<notin> set xs" "new \<noteq> 0"
  shows "\<exists>root' h' v' ys. psync_interval_tree_remove root new from to h v = Some (root', h', v')
    \<and> contents h' root' ys \<and> map v' ys = ivl_remove from to (map v xs) \<and> set ys \<subseteq> insert new (set xs)"
proof -
  let ?us = "takeWhile (\<lambda>a. snd (v a) \<le> from) xs" and ?ws = "dropWhile (\<lambda>a. snd (v a) \<le> from) xs"
  have x: "xs = ?us @ ?ws" by simp
  have "distinct (?us @ ?ws)" using contents_nodes [OF c(1)] by simp
  then have d: "set ?us \<inter> set ?ws = {}" by (simp only: distinct_append)
  have ok: "ivl_ok (map v ?us)" "ivl_ok (map v ?ws)" "\<forall>a\<in>set ?us. \<forall>b\<in>set ?ws. snd (v a) < fst (v b)"
    using c(2) unfolding ivl_ok_append [of "map v ?us" "map v ?ws", folded map_append, folded x] by auto
  have s: "\<forall>a\<in>set ?ws. from < snd (v a)"
  proof (cases ?ws)
    case (Cons w ws)
    then have "from < snd (v w)" using hd_dropWhile [of "\<lambda>a. snd (v a) \<le> from" xs] by (auto simp: not_le)
    moreover have "\<forall>x\<in>set ws. snd (v w) < fst (v x)" using ok(2) Cons by (cases "v w") simp
    moreover have "\<forall>x\<in>set ws. fst (v x) < snd (v x)" using ivl_ok_le [OF ok(2)] Cons by simp
    ultimately show ?thesis unfolding Cons by simp (meson order.strict_trans)
  next
    case Nil
    then show ?thesis by (simp only: list.set ball_empty)
  qed
  have r: "ivl_remove from to (map v us @ zs) = map v us @ ivl_remove from to zs"
    if "\<forall>a\<in>set us. fst (v a) < snd (v a) \<and> snd (v a) \<le> from" for us zs
    using that
  proof (induction us)
    case (Cons a us)
    then have "ivl_remove from to (v a # zs') = v a # ivl_remove from to zs'" for zs'
      using f by (cases "v a") (auto simp: min_def max_def)
    then show ?case using Cons by simp
  qed simp
  have u: "\<forall>a\<in>set ?us. fst (v a) < snd (v a) \<and> snd (v a) \<le> from"
    using ivl_ok_le [OF ok(1)] by (auto dest: set_takeWhileD)
  have new': "new \<notin> set (?us @ ?ws)" using new(1) x by simp
  have fr: "map v' us = map v us"
    if "\<forall>a. a \<notin> insert new (set ws) \<longrightarrow> v' a = v a" "set us \<inter> set ws = {}" "new \<notin> set (us @ ws)" for v' us ws
    using that by auto
  obtain root' h' v' ws' where l: "remove_interval_loop root (first_of ?ws) new from to h v = Some (root', h', v')"
    "contents h' root' (?us @ ws')" "map v' ws' = ivl_remove from to (map v ?ws)"
    "\<forall>a. a \<notin> insert new (set ?ws) \<longrightarrow> v' a = v a" "set ws' \<subseteq> insert new (set ?ws)"
    using remove_interval_loop_correct [of h root ?us ?ws v "from" to new, OF _ ok(2) s f new' new(2)] c(1)
    unfolding x [symmetric] by blast
  have "map v' ?us = map v ?us" using fr [OF l(4) d new'] .
  moreover have rm: "psync_interval_tree_remove root new from to h v = Some (root', h', v')"
    using l(1) first_interval_correct [OF c, of "from"] by (simp add: psync_interval_tree_remove_def)
  moreover have map_x: "map v xs = map v ?us @ map v ?ws" by (metis map_append x)
  ultimately have "map v' (?us @ ws') = ivl_remove from to (map v xs)"
    using r [OF u, of "map v ?ws"] l(3) by (simp only: map_append map_x)
  moreover have "set (?us @ ws') \<subseteq> insert new (set xs)"
    using l(5) by (auto dest: set_takeWhileD set_dropWhileD)
  ultimately show ?thesis
    using l(2) rm by blast
qed

lemma ivl_cut_keep: "\<forall>x\<in>set xs. fst x < e \<and> snd x \<le> e \<Longrightarrow> ivl_cut e (xs @ ys) = xs @ ivl_cut e ys"
  by (induction xs) (auto simp: min_def)

lemma ivl_cut_last: "e \<le> fst x \<Longrightarrow> ivl_cut e (xs @ [x]) = ivl_cut e xs"
  by (cases x, induction xs) auto

lemma cut_end_correct:
  "contents h root xs \<Longrightarrow> ivl_ok (map v xs) \<Longrightarrow>
   \<exists>root' h' v' ys. cut_end_loop root (if xs = [] then 0 else last xs) e h v = Some (root', h', v')
     \<and> contents h' root' ys \<and> map v' ys = ivl_cut e (map v xs) \<and> set ys \<subseteq> set xs"
proof (induction xs arbitrary: h root v rule: rev_induct)
  case Nil
  then show ?case by (subst cut_end_loop.simps) (auto intro!: exI [of _ "[]"])
next
  case (snoc n xs)
  note c = snoc.prems(1)
  have n: "n \<noteq> 0" "n \<notin> set xs" using contents_nodes [OF c] by auto
  obtain a b where v: "v n = (a, b)" by fastforce
  have ok: "a < b" "ivl_ok (map v xs)" "\<forall>x\<in>set xs. snd (v x) < a" "\<forall>x\<in>set xs. fst (v x) < snd (v x)"
    using snoc.prems(2) ivl_ok_le [of "map v xs"] v by (auto simp: ivl_ok_append)
  note pv = get_prev_correct [OF c]
  have le: "\<forall>x\<in>set xs. fst (v x) < z \<and> snd (v x) \<le> z" if "a \<le> z" for z
    using ok(3,4) that by (meson less_le_not_le order.trans)
  consider "b \<le> e" | "a < e" "e < b" | "e \<le> a" by fastforce
  then show ?case
  proof cases
    case 1
    have "\<forall>x\<in>set (map v (xs @ [n])). fst x < e \<and> snd x \<le> e"
      using 1 v ok(1) le [of e] by auto
    then have "ivl_cut e (map v (xs @ [n])) = map v (xs @ [n])" using ivl_cut_keep [of "map v (xs @ [n])" e "[]"] by simp
    moreover have "cut_end_loop root n e h v = Some (root, h, v)" using 1 v by (subst cut_end_loop.simps) (simp add: neg)
    ultimately show ?thesis using c by (auto intro!: exI [of _ "xs @ [n]"] simp del: map_append map_eq_conv)
  next
    case 2
    let ?v = "v(n := (a, e))"
    have "\<forall>x\<in>set (map v xs). fst x < e \<and> snd x \<le> e" using 2 le [of e] by auto
    then have "ivl_cut e (map v (xs @ [n])) = map v xs @ [(a, e)]" using ivl_cut_keep [of "map v xs" e "[v n]"] 2 v by simp
    moreover have "map ?v (xs @ [n]) = map v xs @ [(a, e)]" using n by simp
    moreover have "cut_end_loop root n e h v = Some (root, h, ?v)" using 2 2(2)[unfolded not_le [symmetric]] v n by (subst cut_end_loop.simps) (simp add: neg)
    ultimately show ?thesis using c by (auto intro!: exI [of _ "xs @ [n]"] simp del: map_append map_eq_conv)
  next
    case 3
    obtain root1 h1 where d: "psync_tree_get_del root n h = Some (root1, h1)" "contents h1 root1 xs"
      using get_del_correct [of h root xs n "[]"] c by auto
    have "cut_end_loop root n e h v = cut_end_loop root1 (if xs = [] then 0 else last xs) e h1 v"
      using 3 v n pv d(1) order.strict_trans1 [OF 3 ok(1)] by (subst cut_end_loop.simps) (simp add: neg)
    moreover have "ivl_cut e (map v (xs @ [n])) = ivl_cut e (map v xs)" using ivl_cut_last [of e "v n" "map v xs"] 3 v by simp
    moreover obtain root' h' v' ys where
      "cut_end_loop root1 (if xs = [] then 0 else last xs) e h1 v = Some (root', h', v')"
      "contents h' root' ys" "map v' ys = ivl_cut e (map v xs)" "set ys \<subseteq> set xs" using snoc.IH [OF d(2) ok(2)] by blast
    ultimately show ?thesis
      by (intro exI [of _ root'] exI [of _ h'] exI [of _ v'] exI [of _ ys]) auto
  qed
qed

section \<open>Sets of positions\<close>

definition holds :: "theap \<Rightarrow> addr \<Rightarrow> ivs \<Rightarrow> addr list \<Rightarrow> u64 set \<Rightarrow> bool" where
  "holds h root v xs P \<longleftrightarrow> contents h root xs \<and> ivl_ok (map v xs) \<and> points (map v xs) = P"

text \<open>
  C18. Adding an interval, removing one and cutting at an end always end, and on a tree that holds a set of
  positions they give a tree that holds the union with the interval, the difference from it, and the
  positions below the end: in order, none empty and with a gap between any two, on the old nodes and at most
  the new one.
\<close>

theorem interval_tree_is_a_set:
  assumes "holds h root v xs P" "f < t" "new \<notin> set xs" "new \<noteq> 0"
  shows "(\<exists>root' h' v' ys. psync_interval_tree_get_add root new f t h v = Some (root', h', v')
      \<and> holds h' root' v' ys (P \<union> {f..<t}) \<and> set ys \<subseteq> insert new (set xs))
    \<and> (\<exists>root' h' v' ys. psync_interval_tree_remove root new f t h v = Some (root', h', v')
      \<and> holds h' root' v' ys (P - {f..<t}) \<and> set ys \<subseteq> insert new (set xs))
    \<and> (\<exists>root' h' v' ys. psync_interval_tree_get_cut_end root t h v = Some (root', h', v')
      \<and> holds h' root' v' ys (P \<inter> {..<t}) \<and> set ys \<subseteq> set xs)"
proof -
  have c: "contents h root xs" "ivl_ok (map v xs)" and P: "P = points (map v xs)" using assms(1) by (auto simp: holds_def)
  have "ivl_ok (ivl_add f t (map v xs))" "points (ivl_add f t (map v xs)) = P \<union> {f..<t}"
    using add_ok [OF c(2) assms(2)] P by auto
  moreover have "ivl_ok (ivl_remove f t (map v xs))" "points (ivl_remove f t (map v xs)) = P - {f..<t}"
    using remove_ok [OF c(2) assms(2)] P by auto
  moreover have "ivl_ok (ivl_cut t (map v xs))" "points (ivl_cut t (map v xs)) = P \<inter> {..<t}"
    using cut_ok [OF c(2), of t] P by auto
  moreover note get_add_interval_correct [OF c assms(3,4,2)] remove_interval_correct [OF c assms(2-4), of]
    cut_end_correct [OF c, of t] get_last_correct [OF c(1)]
  ultimately show ?thesis unfolding holds_def psync_interval_tree_get_cut_end_def by (intro conjI) fastforce+
qed

theorem interval_tree_is_a_set_witness:
  "\<exists>root' h' v' ys. psync_interval_tree_get_add 2 4 15 35 sample_heap
        ((\<lambda>_. (0, 0))(1 := (10, 20), 2 := (30, 40), 3 := (50, 60))) = Some (root', h', v')
      \<and> holds h' root' v' ys ({10..<20} \<union> {30..<40} \<union> {50..<60} \<union> {15..<35}) \<and> set ys \<subseteq> {1, 2, 3, 4}"
proof -
  let ?v = "(\<lambda>_. (0, 0))(1 := (10, 20), 2 := (30, 40), 3 := (50, 60)) :: ivs"
  have "holds sample_heap 2 ?v [1, 2, 3] ({10..<20} \<union> {30..<40} \<union> {50..<60})"
    using sample_contents by (auto simp: holds_def Un_assoc)
  from interval_tree_is_a_set [OF this, of 15 35 4] show ?thesis by (auto simp: insert_commute)
qed

text \<open>
  The search for a position \<open>k\<close> finds the interval that tells its callers how far they may go: \<open>k\<close> is held
  when the interval starts at or before it, up to the end of the interval the held positions from \<open>k\<close> on
  are those of the interval, and when there is none no position from \<open>k\<close> on is held.
\<close>

theorem interval_tree_search:
  assumes "holds h root v xs P"
  shows "\<exists>a. psync_interval_tree_first_interval_containing_or_after h v root k = Some a
    \<and> (a = 0 \<longrightarrow> P \<inter> {k..} = {})
    \<and> (a \<noteq> 0 \<longrightarrow> a \<in> set xs \<and> k < snd (v a) \<and> P \<inter> {k..<snd (v a)} = {max k (fst (v a))..<snd (v a)})
    \<and> (k \<in> P \<longleftrightarrow> a \<noteq> 0 \<and> fst (v a) \<le> k)"
proof -
  let ?us = "takeWhile (\<lambda>a. snd (v a) \<le> k) xs" and ?ws = "dropWhile (\<lambda>a. snd (v a) \<le> k) xs"
  have c: "contents h root xs" "ivl_ok (map v xs)" "P = points (map v xs)" using assms by (auto simp: holds_def)
  have x: "xs = ?us @ ?ws" by simp
  have P: "P = points (map v ?us) \<union> points (map v ?ws)" using c(3) x by (metis map_append points_simps(3))
  have below: "points ys \<inter> {k..} = {}" if "\<forall>y\<in>set ys. snd y \<le> k" for ys
    using that by (fastforce simp: points_def neg dest: order.strict_trans2)
  have "points (map v ?us) \<inter> {k..} = {}" by (rule below) (auto dest: set_takeWhileD)
  then have K: "P \<inter> {k..} = points (map v ?ws) \<inter> {k..}" using P by blast
  note f = first_interval_correct [OF c(1,2), of k]
  show ?thesis
  proof (cases ?ws)
    case Nil
    then have "P \<inter> {k..} = {}" using K by (simp only: list.map points_simps Int_empty_left)
    moreover from this have "k \<notin> P" by auto
    ultimately show ?thesis using f unfolding Nil by simp
  next
    case (Cons w ws)
    obtain a b where w: "v w = (a, b)" by fastforce
    have kb: "k < b" using hd_dropWhile [of "\<lambda>a. snd (v a) \<le> k" xs] Cons w by (auto simp: not_le)
    have "ivl_ok (map v ?us @ map v ?ws)" using c(2) x by (metis map_append)
    then have "\<forall>x\<in>set (map v ws). b < fst x" using Cons w by (simp add: ivl_ok_append)
    then have "points (map v ws) \<inter> {..<b} = {}" by (fastforce simp: points_def neg dest: order.strict_trans2)
    then have "points (map v ?ws) \<inter> {..<b} = {a..<b}" using Cons w by auto
    then have i: "P \<inter> {k..<b} = {max k a..<b}" using K kb by (auto 0 4)
    have "w \<in> set xs" using Cons x by (metis in_set_conv_decomp)
    moreover from this have "w \<noteq> 0" using contents_nodes [OF c(1)] by metis
    moreover have "k \<in> P \<longleftrightarrow> a \<le> k" using i kb by (auto simp: set_eq_iff)
    ultimately show ?thesis using f Cons w kb i by simp
  qed
qed

theorem interval_tree_search_witness:
  "\<exists>a. psync_interval_tree_first_interval_containing_or_after sample_heap
      ((\<lambda>_. (0, 0))(1 := (10, 20), 2 := (30, 40), 3 := (50, 60))) 2 35 = Some a
    \<and> (a \<noteq> 0 \<longrightarrow> a \<in> {1, 2, 3}) \<and> a \<noteq> 0"
proof -
  let ?v = "(\<lambda>_. (0, 0))(1 := (10, 20), 2 := (30, 40), 3 := (50, 60)) :: ivs"
  have "holds sample_heap 2 ?v [1, 2, 3] ({10..<20} \<union> {30..<40} \<union> {50..<60})"
    using sample_contents by (auto simp: holds_def Un_assoc)
  from interval_tree_search [OF this, of 35] show ?thesis by auto
qed

end
