(* ===== verification/FsFile.thy ===== *)
theory FsFile
  imports IntervalSet FsTasks
begin

text \<open>
  The content of a file of the drive that is open for writing, from \<^verbatim>\<open>pfs.c\<close>, \<^verbatim>\<open>ppagecache.c\<close> and
  \<^verbatim>\<open>pfsupload.c\<close>: a new file is a local file; a modified file is a revision on the server with a local
  sparse file over it, a tree of the intervals that the local file holds and an index file with one record
  per write, from which the tree is built again after a restart and when the changes are uploaded. The
  branches of encrypted files are left out (they go to \<^verbatim>\<open>pfscrypto.c\<close>).

  The intervals are the list that \<open>IntervalTree\<close> and \<open>IntervalSet\<close> show the trees to stand for. A local file
  is the bytes it has and the index file its records, \<open>(0, 0)\<close> where nothing was written, and whether it has
  its header. What the operating system answers to each call is an argument: for a read or write \<open>IoErr\<close> or how
  many bytes it took, for the others whether they succeed; a record of the index is written whole or not at
  all. \<open>None\<close> is the end of the process by a failed assertion; assertions are on by default (\<^verbatim>\<open>plibs.h\<close>).
\<close>

type_synonym recs = "(u64 \<times> u64) list"

record openfile =
  newfile :: bool
  fmodified :: bool
  datafile :: "u8 list"
  indexfile :: recs
  indexhdr :: bool
  dataopen :: bool
  indexopen :: bool
  currentsize :: u64
  initialsize :: u64
  indexoff :: nat
  writeintervals :: recs

datatype io = IoErr | IoWrote nat

section \<open>Local files\<close>

definition patch :: "'a \<Rightarrow> nat \<Rightarrow> 'a list \<Rightarrow> 'a list \<Rightarrow> 'a list" where
  "patch z off b f = take off f @ replicate (off - length f) z @ b @ drop (off + length b) f"

definition resize :: "'a \<Rightarrow> nat \<Rightarrow> 'a list \<Rightarrow> 'a list" where
  "resize z n f = take n f @ replicate (n - length f) z"

definition psync_file_pwrite :: "io \<Rightarrow> u8 list \<Rightarrow> nat \<Rightarrow> u8 list \<Rightarrow> int \<times> u8 list" where
  "psync_file_pwrite r buf off f =
     (case r of IoErr \<Rightarrow> (-1, f)
      | IoWrote n \<Rightarrow> (int (length (take n buf)), if take n buf = [] then f else patch 0 off (take n buf) f))"

section \<open>The index file\<close>

text \<open>The tree asserts that the interval is not empty.\<close>

definition psync_interval_tree_add :: "u64 \<Rightarrow> u64 \<Rightarrow> recs \<Rightarrow> recs option" where
  "psync_interval_tree_add a b tree = (if b > a then Some (ivl_add a b tree) else None)"

primrec add_records :: "recs \<Rightarrow> recs \<Rightarrow> recs option" where
  "add_records [] tree = Some tree"
| "add_records (rec # rs) tree = Option.bind (psync_interval_tree_add (fst rec) (fst rec + snd rec) tree) (add_records rs)"

text \<open>The records are read 512 at a time; \<open>pr i\<close> tells whether the read that starts at record \<open>i\<close> succeeds.\<close>

function load_records :: "(nat \<Rightarrow> bool) \<Rightarrow> nat \<Rightarrow> recs \<Rightarrow> recs \<Rightarrow> (bool \<times> recs) option" where
  "load_records pr i rs tree =
     (if rs = [] then Some (True, tree)
      else if \<not> pr i then Some (False, tree)
      else Option.bind (add_records (take 512 rs) tree) (\<lambda>tree. load_records pr (i + 512) (drop 512 rs) tree))"
  by auto
termination by (relation "measure (\<lambda>(pr, i, rs, tree). length rs)") auto

declare load_records.simps [simp del]

definition psync_fs_load_interval_tree :: "(nat \<Rightarrow> bool) \<Rightarrow> recs \<Rightarrow> recs \<Rightarrow> (int \<times> recs) option" where
  "psync_fs_load_interval_tree pr rs tree =
     map_option (\<lambda>(ok, tree). (if ok then int (length rs) else -1, tree)) (load_records pr 0 rs tree)"

text \<open>\<open>sz\<close> and \<open>hw\<close> tell whether the size of the index file is known and its missing header can be written.\<close>

definition load_interval_tree :: "bool \<Rightarrow> bool \<Rightarrow> (nat \<Rightarrow> bool) \<Rightarrow> openfile \<Rightarrow> (int \<times> openfile) option" where
  "load_interval_tree sz hw pr f =
     (if \<not> sz then Some (-1, f)
      else if \<not> indexhdr f then Some (if hw then (0, f\<lparr>indexhdr := True\<rparr>) else (-1, f))
      else
        Option.bind (psync_fs_load_interval_tree pr (indexfile f) (writeintervals f)) (\<lambda>(ifs, tree).
          let f = f\<lparr>writeintervals := tree\<rparr> in
          Some (if ifs = -1 then (-1, f) else (0, f\<lparr>indexoff := nat ifs\<rparr>))))"

section \<open>Writing\<close>

text \<open>The interval that is added here is not empty.\<close>

definition psync_fs_modfile_check_size_ok :: "bool \<Rightarrow> bool \<Rightarrow> u64 \<Rightarrow> openfile \<Rightarrow> int \<times> openfile" where
  "psync_fs_modfile_check_size_ok tr ix size' f =
     (if currentsize f < size' then
        if \<not> tr then (-1, f)
        else
          let f = f\<lparr>datafile := resize 0 (unat size') (datafile f)\<rparr> in
          if newfile f then (0, f)
          else
            let ioff = indexoff f; f = f\<lparr>indexoff := ioff + 1\<rparr>; rec = (currentsize f, size' - currentsize f) in
            if \<not> ix then (-1, f)
            else (0, f\<lparr>indexfile := patch (0, 0) ioff [rec] (indexfile f),
                       writeintervals := ivl_add (currentsize f) size' (writeintervals f), currentsize := size'\<rparr>)
      else (0, f))"

record write_io =
  io_trunc :: bool
  io_ext :: bool
  io_data :: io
  io_index :: bool

definition psync_fs_write_modified :: "write_io \<Rightarrow> u8 list \<Rightarrow> u64 \<Rightarrow> openfile \<Rightarrow> (int \<times> openfile) option" where
  "psync_fs_write_modified r buf offset f =
     (let (ret, f) = psync_fs_modfile_check_size_ok (io_trunc r) (io_ext r) offset f in
      if ret \<noteq> 0 then Some (- EIO, f)
      else
        let ioff = indexoff f; f = f\<lparr>indexoff := ioff + 1\<rparr>;
            (bw, data) = psync_file_pwrite (io_data r) buf (unat offset) (datafile f) in
        if bw = -1 then Some (- EIO, f)
        else
          let f = f\<lparr>datafile := data\<rparr> in
          if \<not> io_index r then Some (- EIO, f)
          else
            let f = f\<lparr>indexfile := patch (0, 0) ioff [(offset, of_int bw)] (indexfile f)\<rparr> in
            Option.bind (psync_interval_tree_add offset (offset + of_int bw) (writeintervals f)) (\<lambda>tree.
              let f = f\<lparr>writeintervals := tree\<rparr> in
              Some (bw, if currentsize f < offset + of_nat (length buf)
                        then f\<lparr>currentsize := offset + of_nat (length buf)\<rparr> else f)))"

definition psync_fs_write_newfile :: "io \<Rightarrow> u8 list \<Rightarrow> u64 \<Rightarrow> openfile \<Rightarrow> int \<times> openfile" where
  "psync_fs_write_newfile r buf offset f =
     (let (bw, data) = psync_file_pwrite r buf (unat offset) (datafile f); f = f\<lparr>datafile := data\<rparr> in
      (bw, if currentsize f < offset + of_nat (length buf) \<and> bw \<noteq> -1
           then f\<lparr>currentsize := offset + of_nat (length buf)\<rparr> else f))"

text \<open>
  Changing the size of a file that is new or modified already. \<open>tr\<close> and \<open>ix\<close> are for the change of size and the
  record in \<^verbatim>\<open>psync_fs_modfile_check_size_ok\<close>, \<open>tr2\<close> for the change of size after it.
\<close>

definition ftruncate_writable :: "bool \<Rightarrow> bool \<Rightarrow> bool \<Rightarrow> u64 \<Rightarrow> openfile \<Rightarrow> int \<times> openfile" where
  "ftruncate_writable tr ix tr2 size' f =
     (if currentsize f = size' then (0, f)
      else
        let (ret, f) = psync_fs_modfile_check_size_ok tr ix size' f in
        if ret \<noteq> 0 then (- EIO, f)
        else if currentsize f \<noteq> size' \<and> \<not> tr2 then (- EIO, f)
        else
          let f = (if currentsize f \<noteq> size' then f\<lparr>datafile := resize 0 (unat size') (datafile f)\<rparr> else f) in
          (0, f\<lparr>currentsize := size'\<rparr>))"

section \<open>Opening the local files\<close>

record open_io =
  io_dopen :: bool
  io_dsize :: bool
  io_iopen :: bool
  io_isize :: bool
  io_ihdr :: bool
  io_iread :: "nat \<Rightarrow> bool"
  io_trunc0 :: bool

definition open_write_files :: "open_io \<Rightarrow> bool \<Rightarrow> openfile \<Rightarrow> (int \<times> openfile) option" where
  "open_write_files r trunc f =
     (if dataopen f then
        Some (if trunc then ftruncate_writable True True (io_trunc0 r) 0 f else (0, f))
      else if \<not> io_dopen r then Some (- EIO, f)
      else
        let f = f\<lparr>dataopen := True, datafile := (if trunc then [] else datafile f)\<rparr> in
        if \<not> io_dsize r then Some (- EIO, f)
        else
          let f = f\<lparr>currentsize := of_nat (length (datafile f))\<rparr> in
          if \<not> newfile f \<and> \<not> indexopen f then
            if \<not> io_iopen r then Some (- EIO, f)
            else
              let f = f\<lparr>indexopen := True, indexfile := (if trunc then [] else indexfile f), indexhdr := indexhdr f \<and> \<not> trunc\<rparr> in
              Option.bind (load_interval_tree (io_isize r) (io_ihdr r) (io_iread r) f) (\<lambda>(ret, f).
                Some (if ret \<noteq> 0 then (- EIO, f) else (0, f)))
          else Some (0, f))"

text \<open>
  The first write to a file. \<open>cached\<close> is the file when all its pages are in the page cache and it is small
  enough to be treated as a new file; \<open>task\<close> tells whether the task was added and \<open>copy\<close> whether the pages
  could be written. The result is 1 when the caller has to look at the file again.
\<close>

definition psync_fs_reopen_file_for_writing ::
  "open_io \<Rightarrow> bool \<Rightarrow> bool \<Rightarrow> bool \<Rightarrow> u8 list option \<Rightarrow> openfile \<Rightarrow> (int \<times> openfile) option" where
  "psync_fs_reopen_file_for_writing r task copy tr cached f =
     (if initialsize f = 0 \<or> cached \<noteq> None then
        if \<not> task then Some (- EIO, f)
        else
          Option.bind (open_write_files r False (f\<lparr>newfile := True, fmodified := True\<rparr>)) (\<lambda>(ret, f). Some (
            if ret \<noteq> 0 then (ret, f)
            else if initialsize f \<noteq> 0 \<and> \<not> copy then (- EIO, f)
            else
              let f = (if initialsize f \<noteq> 0 then f\<lparr>datafile := patch 0 0 (the cached) (datafile f)\<rparr> else f) in
              (1, f\<lparr>currentsize := initialsize f\<rparr>)))
      else if \<not> task then Some (- EIO, f)
      else
        Option.bind (open_write_files r False f) (\<lambda>(ret, f). Some (
          if ret \<noteq> 0 then (ret, f)
          else if \<not> tr then (- EIO, f)
          else (0, f\<lparr>datafile := resize 0 (unat (initialsize f)) (datafile f), fmodified := True, indexoff := 0,
                     currentsize := initialsize f\<rparr>))))"

text \<open>
  The calls of the users of the drive: a file that is neither new nor modified is reopened for writing first
  and looked at again when that made it a new file. \<open>space\<close> is the result of the check for space in the
  cache. (The counter of writes, which stops an upload that is running, and static files are left out.)
\<close>

definition psync_fs_ftruncate_of_locked ::
  "open_io \<Rightarrow> bool \<Rightarrow> bool \<Rightarrow> u8 list option \<Rightarrow> write_io \<Rightarrow> bool \<Rightarrow> u64 \<Rightarrow> openfile \<Rightarrow> (int \<times> openfile) option" where
  "psync_fs_ftruncate_of_locked r task copy cached w tr2 size' f =
     (if currentsize f = size' then Some (0, f)
      else if \<not> newfile f \<and> \<not> fmodified f then
        Option.bind (psync_fs_reopen_file_for_writing r task copy (io_trunc0 r) cached f) (\<lambda>(ret, f).
          Some (if ret < 0 then (ret, f) else ftruncate_writable (io_trunc w) (io_ext w) tr2 size' f))
      else Some (ftruncate_writable (io_trunc w) (io_ext w) tr2 size' f))"

definition write_writable :: "write_io \<Rightarrow> u8 list \<Rightarrow> u64 \<Rightarrow> openfile \<Rightarrow> (int \<times> openfile) option" where
  "write_writable w buf offset f =
     (if newfile f then
        let (ret, f) = psync_fs_write_newfile (io_data w) buf offset f in Some (if ret = -1 then - EIO else ret, f)
      else psync_fs_write_modified w buf offset f)"

definition psync_fs_write ::
  "int \<Rightarrow> open_io \<Rightarrow> bool \<Rightarrow> bool \<Rightarrow> u8 list option \<Rightarrow> write_io \<Rightarrow> u8 list \<Rightarrow> u64 \<Rightarrow> openfile \<Rightarrow> (int \<times> openfile) option" where
  "psync_fs_write space r task copy cached w buf offset f =
     (if space \<le> 0 then Some (space, f)
      else if \<not> newfile f \<and> \<not> fmodified f then
        Option.bind (psync_fs_reopen_file_for_writing r task copy (io_trunc0 r) cached f) (\<lambda>(ret, f).
          if ret < 0 then Some (ret, f) else write_writable w buf offset f)
      else write_writable w buf offset f)"

definition psync_fs_check_modified_file_write_space :: "nat \<Rightarrow> u64 \<Rightarrow> openfile \<Rightarrow> bool" where
  "psync_fs_check_modified_file_write_space size' offset f =
     (case dropWhile (\<lambda>x. snd x \<le> offset) (writeintervals f) of
        [] \<Rightarrow> False | x # _ \<Rightarrow> fst x \<le> offset \<and> offset + of_nat size' \<le> snd x)"

section \<open>Reading\<close>

text \<open>A read of \<open>n\<close> bytes into the buffer at \<open>pos\<close>: the result, and the buffer with what was read.\<close>

definition psync_file_pread :: "io \<Rightarrow> nat \<Rightarrow> nat \<Rightarrow> nat \<Rightarrow> u8 list \<Rightarrow> u8 list \<Rightarrow> int \<times> u8 list" where
  "psync_file_pread r n off pos data buf =
     (case r of IoErr \<Rightarrow> (-1, buf)
      | IoWrote m \<Rightarrow> let b = take (min n m) (drop off data) in (int (length b), patch 0 pos b buf))"

definition psync_read_newfile :: "io \<Rightarrow> u8 list \<Rightarrow> nat \<Rightarrow> nat \<Rightarrow> openfile \<Rightarrow> int \<times> u8 list" where
  "psync_read_newfile rd buf size' offset f =
     (let (br, buf) = psync_file_pread rd size' offset 0 (datafile f) buf in (if br = -1 then - EIO else br, buf))"

text \<open>
  The part of a read that the page cache serves is an argument, \<open>pages\<close>: the bytes of the revision on the
  server from an offset on, or none when they cannot be had. \<open>buf\<close> is the buffer of the caller.
\<close>

definition psync_pagecache_read_unmodified_locked ::
  "(nat \<Rightarrow> nat \<Rightarrow> u8 list option) \<Rightarrow> u8 list \<Rightarrow> nat \<Rightarrow> u64 \<Rightarrow> openfile \<Rightarrow> int \<times> u8 list" where
  "psync_pagecache_read_unmodified_locked pages buf size' offset f =
     (if offset \<ge> initialsize f then (0, buf)
      else
        let size' = (if unat offset + size' > unat (initialsize f) then unat (initialsize f) - unat offset else size') in
        case pages size' (unat offset) of None \<Rightarrow> (- EIO, buf) | Some b \<Rightarrow> (int (length b), patch 0 0 b buf))"

definition read_local_part :: "io \<Rightarrow> u8 list \<Rightarrow> nat \<Rightarrow> nat \<Rightarrow> u64 \<times> u64 \<Rightarrow> int \<times> u8 list \<Rightarrow> bool \<times> int \<times> u8 list" where
  "read_local_part r data size' offset fi st =
     (let (rd, buf) = st; ioffset = unat (fst fi); isize = unat (snd fi) - unat (fst fi);
          isize = (if ioffset < offset then isize - (offset - ioffset) else isize);
          ioffset = (if ioffset < offset then offset else ioffset);
          isize = (if ioffset + isize > offset + size' then offset + size' - ioffset else isize);
          (br, buf) = psync_file_pread r isize ioffset (ioffset - offset) data buf in
      if br = -1 then (False, - EIO, buf)
      else (True, if rd \<noteq> int size' \<and> br + int ioffset - int offset > rd then br + int ioffset - int offset else rd, buf))"

text \<open>\<open>r k\<close> is what the operating system does with the read for the interval \<open>k\<close> after the first one.\<close>

primrec read_local_parts :: "(nat \<Rightarrow> io) \<Rightarrow> nat \<Rightarrow> u8 list \<Rightarrow> nat \<Rightarrow> nat \<Rightarrow> recs \<Rightarrow> int \<times> u8 list \<Rightarrow> int \<times> u8 list" where
  "read_local_parts r k data size' offset [] st = st"
| "read_local_parts r k data size' offset (fi # fis) st =
     (if unat (fst fi) < offset + size' then
        let (ok, st) = read_local_part (r k) data size' offset fi st in
        if ok then read_local_parts r (k + 1) data size' offset fis st else st
      else st)"

definition psync_pagecache_read_modified_locked ::
  "(nat \<Rightarrow> io) \<Rightarrow> (nat \<Rightarrow> nat \<Rightarrow> u8 list option) \<Rightarrow> u8 list \<Rightarrow> nat \<Rightarrow> u64 \<Rightarrow> openfile \<Rightarrow> int \<times> u8 list" where
  "psync_pagecache_read_modified_locked r pages buf size' offset f =
     (let fis = dropWhile (\<lambda>x. snd x \<le> offset) (writeintervals f) in
      if fis \<noteq> [] \<and> fst (hd fis) \<le> offset \<and> unat (snd (hd fis)) \<ge> unat offset + size'
      then let (br, buf) = psync_file_pread (r 0) size' (unat offset) 0 (datafile f) buf in (if br = -1 then - EIO else br, buf)
      else
        let (rd, buf) = psync_pagecache_read_unmodified_locked pages buf size' offset f in
        if rd < 0 then (rd, buf)
        else read_local_parts r 0 (datafile f) size' (unat offset) fis (rd, buf))"

section \<open>Uploading the changes\<close>

datatype up_req = CopyFrom int int | SendLocal int int

definition PSYNC_MAX_COPY_FROM_REQ :: int where "PSYNC_MAX_COPY_FROM_REQ = 32 * 1024 * 1024"

definition i64min :: "int \<Rightarrow> int \<Rightarrow> int" where
  "i64min a b = (if a < b then a else b)"

text \<open>
  The requests of \<^verbatim>\<open>upload_modify\<close> for a local file of \<open>fsz\<close> bytes, from the offset \<open>coff\<close> and the interval
  at hand on; the last branch of the cases is the one the code calls a broken interval tree. A length that is
  not positive, for an interval from \<open>2 ^ 63\<close> on, ends the model where the code would go back.
\<close>

function upload_requests :: "int \<Rightarrow> int \<Rightarrow> recs \<Rightarrow> up_req list" where
  "upload_requests fsz coff cs =
     (if coff < fsz then
        case cs of
          [] \<Rightarrow> let len = i64min (fsz - coff) PSYNC_MAX_COPY_FROM_REQ in
                CopyFrom coff len # upload_requests fsz (coff + len) cs
        | (from, to) # rest \<Rightarrow>
            if uint from > coff then
              let len = i64min (i64min (sint from) fsz - coff) PSYNC_MAX_COPY_FROM_REQ in
              if len \<le> 0 then [CopyFrom coff len] else
              CopyFrom coff len # upload_requests fsz (coff + len) cs
            else if uint from \<le> coff \<and> uint to > coff then
              SendLocal coff (i64min (sint to) fsz - coff) # upload_requests fsz (uint to) rest
            else []
      else [])"
  by pat_completeness auto
termination
  by (relation "measure (\<lambda>(fsz, coff, cs). nat (fsz - coff))")
    (auto simp: i64min_def PSYNC_MAX_COPY_FROM_REQ_def)

declare upload_requests.simps [simp del]

end
