(* ===== verification/FsFileView.thy ===== *)
theory FsFileView
  imports FsFile
begin

text \<open>
  What the file of \<open>FsFile\<close> contains: every byte below the current size is the one of the local file where
  the intervals hold its position and the one of the revision on the server elsewhere. Writing and changing
  the size do to this content what they do to an ordinary file, reading returns it, opening the local files
  again finds it, and the upload sends exactly the pieces it is made of.
\<close>

section \<open>Bytes and positions\<close>

lemma length_patch [simp]: "length (patch z off b f) = max (off + length b) (length f)"
  by (auto simp: patch_def)

lemma nth_patch:
  "k < off + length b \<or> k < length f \<Longrightarrow> patch z off b f ! k =
    (if k < off then if k < length f then f ! k else z else if k < off + length b then b ! (k - off) else f ! k)"
  by (auto simp: patch_def nth_append min_def not_less)

lemma patch_end: "patch z (length f) b f = f @ b"
  by (simp add: patch_def)

lemma length_resize [simp]: "length (resize z n f) = n"
  by (simp add: resize_def)

lemma nth_resize: "k < n \<Longrightarrow> resize z n f ! k = (if k < length f then f ! k else z)"
  by (auto simp: resize_def nth_append min_def)

definition npoints :: "recs \<Rightarrow> nat set" where
  "npoints xs = unat ` points xs"

lemma unat_interval: "unat ` {a..<b :: u64} = {unat a..<unat b}"
proof
  show "{unat a..<unat b} \<subseteq> unat ` {a..<b}"
  proof
    fix k assume k: "k \<in> {unat a..<unat b}"
    have "unat b < 18446744073709551616" using unsigned_less [of b] by simp
    then have "unat (of_nat k :: u64) = k" using k by (simp add: unat_of_nat)
    then show "k \<in> unat ` {a..<b}"
      using k by (intro image_eqI [of _ _ "of_nat k"]) (auto simp: word_le_nat_alt word_less_nat_alt)
  qed
qed (auto simp: word_le_nat_alt word_less_nat_alt)

lemma npoints_Nil [simp]: "npoints [] = {}"
  by (simp add: npoints_def)

lemma npoints_Cons [simp]: "npoints (x # xs) = {unat (fst x)..<unat (snd x)} \<union> npoints xs"
  by (cases x) (simp add: npoints_def image_Un unat_interval)

lemma npoints_add: "ivl_ok xs \<Longrightarrow> f < t \<Longrightarrow> npoints (ivl_add f t xs) = {unat f..<unat t} \<union> npoints xs"
  using add_ok [of xs f t] by (simp add: npoints_def image_Un unat_interval)

lemma npoints_bound: "ivl_ok xs \<Longrightarrow> npoints xs \<subseteq> {..<n} \<Longrightarrow> (a, b) \<in> set xs \<Longrightarrow> unat b \<le> n"
proof (induction xs)
  case (Cons x xs)
  show ?case
  proof (cases "x = (a, b)")
    case True
    then have "unat a < unat b" using Cons.prems(1) by (auto simp: word_less_nat_alt)
    then have "unat b - 1 \<in> npoints (x # xs)" using True by auto
    then have "unat b - 1 < n" using Cons.prems(2) by blast
    then show ?thesis by simp
  next
    case False
    then show ?thesis using Cons.IH Cons.prems by (cases x) auto
  qed
qed simp

section \<open>The content and the invariant\<close>

definition max_size :: nat where "max_size = 2 ^ 63 - 1"

definition fcontent :: "u8 list \<Rightarrow> openfile \<Rightarrow> u8 list" where
  "fcontent remote f =
     map (\<lambda>k. if k \<in> npoints (writeintervals f) then datafile f ! k else remote ! k) [0..<unat (currentsize f)]"

lemma length_fcontent [simp]: "length (fcontent remote f) = unat (currentsize f)"
  by (simp add: fcontent_def)

lemma nth_fcontent: "k < unat (currentsize f) \<Longrightarrow>
  fcontent remote f ! k = (if k \<in> npoints (writeintervals f) then datafile f ! k else remote ! k)"
  by (simp add: fcontent_def)

definition file_ok :: "u8 list \<Rightarrow> openfile \<Rightarrow> bool" where
  "file_ok remote f \<longleftrightarrow> fmodified f \<and> \<not> newfile f \<and> dataopen f \<and> indexopen f \<and> indexhdr f
     \<and> ivl_ok (writeintervals f) \<and> npoints (writeintervals f) \<subseteq> {..<max_size}
     \<and> unat (currentsize f) \<le> max_size \<and> length (datafile f) = unat (currentsize f)
     \<and> length remote = unat (initialsize f) \<and> (\<forall>k<unat (currentsize f). k \<notin> npoints (writeintervals f) \<longrightarrow> k < length remote)
     \<and> indexoff f = length (indexfile f) \<and> add_records (indexfile f) [] = Some (writeintervals f)"

lemma add_records_append [simp]: "add_records (rs @ rs') tree = Option.bind (add_records rs tree) (add_records rs')"
proof (induction rs arbitrary: tree)
  case (Cons r rs)
  then show ?case by (cases "psync_interval_tree_add (fst r) (fst r + snd r) tree") simp_all
qed simp

lemma interval_tree_add [simp]: "a < b \<Longrightarrow> psync_interval_tree_add a b tree = Some (ivl_add a b tree)"
  by (simp add: psync_interval_tree_add_def)

lemma check_size_ok:
  assumes ok: "file_ok remote f" and m: "unat n \<le> max_size"
  obtains f' where "psync_fs_modfile_check_size_ok True True n f = (0, f')" "file_ok remote f'"
    "currentsize f' = max (currentsize f) n"
    "fcontent remote f' = fcontent remote f @ replicate (unat n - unat (currentsize f)) 0"
    "initialsize f' = initialsize f"
proof (cases "currentsize f < n")
  case False
  then have "unat n \<le> unat (currentsize f)" by (simp add: word_le_nat_alt not_less)
  then show ?thesis using that [of f] False ok by (simp add: psync_fs_modfile_check_size_ok_def max_def not_less)
next
  case True
  then have lt: "unat (currentsize f) < unat n" by (simp add: word_less_nat_alt)
  note okd = ok [unfolded file_ok_def]
  let ?f = "f\<lparr>datafile := resize 0 (unat n) (datafile f), indexoff := indexoff f + 1,
    indexfile := indexfile f @ [(currentsize f, n - currentsize f)],
    writeintervals := ivl_add (currentsize f) n (writeintervals f), currentsize := n\<rparr>"
  have np: "npoints (ivl_add (currentsize f) n (writeintervals f))
      = {unat (currentsize f)..<unat n} \<union> npoints (writeintervals f)"
    using npoints_add okd True by blast
  have "psync_fs_modfile_check_size_ok True True n f = (0, ?f)"
    using True okd by (simp add: psync_fs_modfile_check_size_ok_def patch_end Let_def)
  moreover have "file_ok remote ?f"
    using okd True m lt np add_ok [of "writeintervals f" "currentsize f" n]
    by (auto simp: file_ok_def)
  moreover have "fcontent remote ?f = fcontent remote f @ replicate (unat n - unat (currentsize f)) 0"
    using lt okd by (intro nth_equalityI) (auto simp: nth_fcontent nth_append np nth_resize)
  ultimately show ?thesis using that [of ?f] True by simp
qed

lemma write_modified_ok:
  assumes ok: "file_ok remote f" and b: "buf \<noteq> []" "unat offset + length buf \<le> max_size"
    and r: "io_trunc r" "io_ext r" "io_data r = IoWrote n" "length buf \<le> n" "io_index r"
  obtains f' where "psync_fs_write_modified r buf offset f = Some (int (length buf), f')" "file_ok remote f'"
    "fcontent remote f' = patch 0 (unat offset) buf (fcontent remote f)" "initialsize f' = initialsize f"
proof -
  obtain g where g: "psync_fs_modfile_check_size_ok True True offset f = (0, g)" "file_ok remote g"
    "currentsize g = max (currentsize f) offset" "initialsize g = initialsize f"
    "fcontent remote g = fcontent remote f @ replicate (unat offset - unat (currentsize f)) 0"
    using check_size_ok [OF ok, of offset] b(2) by auto
  note okd = g(2) [unfolded file_ok_def]
  let ?e = "offset + of_nat (length buf)"
  have e: "unat ?e = unat offset + length buf"
    using b(2) by (simp add: unat_word_ariths unat_of_nat max_size_def)
  have oe: "offset < ?e" using e b(1) by (simp add: word_less_nat_alt)
  have og: "unat offset \<le> unat (currentsize g)" using g(3) by (simp add: max_def word_le_nat_alt)
  let ?g = "g\<lparr>indexoff := indexoff g + 1, datafile := patch 0 (unat offset) buf (datafile g),
    indexfile := indexfile g @ [(offset, of_nat (length buf))],
    writeintervals := ivl_add offset ?e (writeintervals g), currentsize := max (currentsize g) ?e\<rparr>"
  have np: "npoints (ivl_add offset ?e (writeintervals g)) = {unat offset..<unat offset + length buf} \<union> npoints (writeintervals g)"
    using npoints_add [OF _ oe] okd e by simp
  have mx: "unat (max (currentsize g) ?e) = max (unat (currentsize g)) (unat offset + length buf)"
    using e by (simp add: max_def word_le_nat_alt)
  have "psync_fs_write_modified r buf offset f = Some (int (length buf), ?g)"
    using r g(1) b(1) okd oe by (simp add: psync_fs_write_modified_def psync_file_pwrite_def patch_end Let_def max_def not_less)
  moreover have "file_ok remote ?g"
    using okd mx np b(2) og oe add_ok [OF _ oe, of "writeintervals g"] by (auto simp: file_ok_def)
  moreover have "fcontent remote ?g = patch 0 (unat offset) buf (fcontent remote g)"
    using mx okd og by (intro nth_equalityI) (auto simp: nth_fcontent np nth_patch less_max_iff_disj)
  moreover have "patch 0 (unat offset) buf (fcontent remote g) = patch 0 (unat offset) buf (fcontent remote f)"
    unfolding g(5) by (auto simp: patch_def)
  ultimately show ?thesis using that [of ?g] g(4) by simp
qed

lemma ftruncate_ok:
  assumes ok: "file_ok remote f" and m: "unat n \<le> max_size"
  obtains f' where "ftruncate_writable True True True n f = (0, f')" "file_ok remote f'"
    "fcontent remote f' = resize 0 (unat n) (fcontent remote f)" "initialsize f' = initialsize f"
proof (cases "currentsize f < n")
  case True
  obtain g where g: "psync_fs_modfile_check_size_ok True True n f = (0, g)" "file_ok remote g"
    "currentsize g = max (currentsize f) n" "initialsize g = initialsize f"
    "fcontent remote g = fcontent remote f @ replicate (unat n - unat (currentsize f)) 0"
    using check_size_ok [OF ok m] by auto
  have n: "currentsize g = n" using g(3) True by (simp add: max_def less_imp_le)
  have "g\<lparr>currentsize := n\<rparr> = g" unfolding n [symmetric] by simp
  moreover have "currentsize f \<noteq> n" using True by auto
  ultimately have "ftruncate_writable True True True n f = (0, g)"
    using g(1) n by (simp add: ftruncate_writable_def)
  then show ?thesis using that [of g] True g by (auto simp: resize_def word_less_nat_alt)
next
  case False
  then have le: "unat n \<le> unat (currentsize f)" by (simp add: word_le_nat_alt not_less)
  let ?f = "if currentsize f = n then f else f\<lparr>datafile := resize 0 (unat n) (datafile f), currentsize := n\<rparr>"
  have "ftruncate_writable True True True n f = (0, ?f)"
    using False by (simp add: ftruncate_writable_def psync_fs_modfile_check_size_ok_def)
  moreover have "file_ok remote ?f" using ok le by (auto simp: file_ok_def)
  moreover have "fcontent remote ?f = resize 0 (unat n) (fcontent remote f)"
    using le ok by (intro nth_equalityI) (auto simp: nth_fcontent nth_resize file_ok_def)
  ultimately show ?thesis using that [of ?f] by simp
qed

section \<open>Opening the local files again\<close>

lemma load_records_all: "\<forall>i. pr i \<Longrightarrow> load_records pr i rs tree = map_option (Pair True) (add_records rs tree)"
proof (induction pr i rs tree rule: load_records.induct)
  case (1 pr i rs tree)
  have a: "add_records rs tree = Option.bind (add_records (take 512 rs) tree) (add_records (drop 512 rs))"
    by (simp flip: add_records_append)
  show ?case
  proof (cases "rs = []")
    case False
    then have "load_records pr i rs tree
        = Option.bind (add_records (take 512 rs) tree) (\<lambda>tree. load_records pr (i + 512) (drop 512 rs) tree)"
      using 1(2) by (subst load_records.simps) simp
    moreover have "load_records pr (i + 512) (drop 512 rs) t = map_option (Pair True) (add_records (drop 512 rs) t)"
      if "add_records (take 512 rs) tree = Some t" for t using 1 False that by blast
    ultimately show ?thesis unfolding a by (cases "add_records (take 512 rs) tree") simp_all
  qed (subst load_records.simps, simp)
qed

lemma load_tree_all:
  "\<forall>i. pr i \<Longrightarrow> psync_fs_load_interval_tree pr rs tree = map_option (Pair (int (length rs))) (add_records rs tree)"
  by (cases "add_records rs tree") (simp_all add: psync_fs_load_interval_tree_def load_records_all)

text \<open>What is known of the file before its local files are opened: a new process has only these files.\<close>

definition not_opened :: "openfile \<Rightarrow> openfile" where
  "not_opened f = f\<lparr>dataopen := False, indexopen := False, currentsize := 0, indexoff := 0, writeintervals := []\<rparr>"

definition open_ok :: "open_io \<Rightarrow> bool" where
  "open_ok r \<longleftrightarrow> io_dopen r \<and> io_dsize r \<and> io_iopen r \<and> io_isize r \<and> io_ihdr r \<and> (\<forall>i. io_iread r i) \<and> io_trunc0 r"

lemma open_again:
  assumes "file_ok remote f" "open_ok r"
  shows "open_write_files r False (not_opened f) = Some (0, f)"
proof -
  have c: "(of_nat (unat (currentsize f)) :: u64) = currentsize f" by simp
  show ?thesis using assms c
    by (simp add: open_write_files_def not_opened_def open_ok_def file_ok_def load_interval_tree_def load_tree_all Let_def)
qed

section \<open>Reading\<close>

lemma npoints_iff: "k \<in> npoints xs \<longleftrightarrow> (\<exists>x\<in>set xs. unat (fst x) \<le> k \<and> k < unat (snd x))"
  by (induction xs) auto

text \<open>The local file is read whole.\<close>

definition reads_ok :: "nat \<Rightarrow> (nat \<Rightarrow> io) \<Rightarrow> bool" where
  "reads_ok s r \<longleftrightarrow> (\<forall>k. \<exists>n\<ge>s. r k = IoWrote n)"

lemma pread_whole:
  assumes "reads_ok s r" "n \<le> s" "off + n \<le> length data"
  shows "psync_file_pread (r k) n off pos data buf = (int n, patch 0 pos (take n (drop off data)) buf)"
proof -
  obtain m where "r k = IoWrote m" "s \<le> m" using assms(1) by (auto simp: reads_ok_def)
  moreover from this have "min n m = n" using assms(2) by simp
  ultimately show ?thesis using assms(2,3) by (simp add: psync_file_pread_def)
qed

lemma read_local_part_step:
  assumes "reads_ok s r" "unat (fst fi) < offset + s" "offset < unat (snd fi)" "offset + s \<le> length data" "length buf = s" "m \<le> s" "0 < s"
  defines "lo \<equiv> max (unat (fst fi)) offset" and "hi \<equiv> min (unat (snd fi)) (offset + s)"
  defines "buf' \<equiv> patch 0 (lo - offset) (take (hi - lo) (drop lo data)) buf"
  assumes "unat (fst fi) < unat (snd fi)"
  shows "read_local_part (r k) data s offset fi (int m, buf) = (True, int (max m (hi - offset)), buf')"
    "length buf' = s"
    "\<And>j. j < s \<Longrightarrow> buf' ! j = (if lo \<le> offset + j \<and> offset + j < hi then data ! (offset + j) else buf ! j)"
proof -
  have lo: "offset \<le> lo" "lo < offset + s" "hi \<le> offset + s" "unat (fst fi) \<le> lo" "lo < hi" using assms(2,3,7,11) by (auto simp: lo_def hi_def)
  define b where "b = take (hi - lo) (drop lo data)"
  have b: "length b = hi - lo" "\<And>i. i < hi - lo \<Longrightarrow> b ! i = data ! (lo + i)" using lo assms(4) by (auto simp: b_def)
  have e: "buf' = patch 0 (lo - offset) b buf" by (simp add: buf'_def b_def)
  show "length buf' = s" unfolding e using lo b(1) assms(5) by simp
  show "buf' ! j = (if lo \<le> offset + j \<and> offset + j < hi then data ! (offset + j) else buf ! j)" if "j < s" for j
  proof -
    have n: "j < lo - offset + length b \<or> j < length buf" using that assms(5) by simp
    consider "offset + j < lo" | "lo \<le> offset + j" "offset + j < hi" | "lo \<le> offset + j" "hi \<le> offset + j" by linarith
    then show ?thesis
    proof cases
      case 1
      then have "j < lo - offset" by linarith
      then show ?thesis using 1 that assms(5) unfolding e nth_patch [OF n] by simp
    next
      case 2
      then have "\<not> j < lo - offset" "j < lo - offset + length b" "lo + (j - (lo - offset)) = offset + j"
        "j - (lo - offset) < hi - lo" using lo b(1) by linarith+
      then show ?thesis using 2 unfolding e nth_patch [OF n] by (simp add: b(2) add.commute)
    next
      case 3
      then have "\<not> j < lo - offset" "\<not> j < lo - offset + length b" using lo b(1) by linarith+
      then show ?thesis using 3 unfolding e nth_patch [OF n] by simp
    qed
  qed
  have i: "(if unat (fst fi) < offset then unat (snd fi) - unat (fst fi) - (offset - unat (fst fi))
      else unat (snd fi) - unat (fst fi)) = unat (snd fi) - lo" "(if unat (fst fi) < offset then offset else unat (fst fi)) = lo"
    by (auto simp: lo_def)
  have i3: "(if offset + s < lo + (unat (snd fi) - lo) then offset + s - lo else unat (snd fi) - lo) = hi - lo"
    using lo(2) by (auto simp: hi_def)
  have "psync_file_pread (r k) (hi - lo) lo (lo - offset) data buf = (int (hi - lo), buf')"
    unfolding buf'_def using lo assms(4) by (intro pread_whole [OF assms(1)]) linarith+
  moreover have "(if int m \<noteq> int s \<and> int m < int (hi - lo) + int lo - int offset
      then int (hi - lo) + int lo - int offset else int m) = int (max m (hi - offset))" using lo assms(6) by auto
  ultimately show "read_local_part (r k) data s offset fi (int m, buf) = (True, int (max m (hi - offset)), buf')"
    unfolding read_local_part_def Let_def prod.case i i3 by simp
qed

lemma read_local_parts_ok:
  assumes "reads_ok s r" "offset + s \<le> length data" "length C = length data" "0 < s"
  shows "ivl_ok fis \<Longrightarrow> \<forall>x\<in>set fis. offset < unat (snd x) \<Longrightarrow> \<forall>i\<in>npoints fis. i < offset + s \<longrightarrow> C ! i = data ! i \<Longrightarrow>
    length buf = s \<Longrightarrow> m \<le> s \<Longrightarrow> \<forall>j<m. offset + j \<notin> npoints fis \<longrightarrow> buf ! j = C ! (offset + j) \<Longrightarrow>
    \<forall>j. m \<le> j \<and> j < s \<longrightarrow> offset + j \<in> npoints fis \<Longrightarrow>
    read_local_parts r k data s offset fis (int m, buf) = (int s, take s (drop offset C))"
proof (induction fis arbitrary: buf m k)
  case Nil
  then have "m = s" by fastforce
  then show ?case using Nil assms by (auto intro!: nth_equalityI)
next
  case (Cons fi fis)
  have fi: "unat (fst fi) < unat (snd fi)" "\<forall>x\<in>set fis. unat (snd fi) < unat (fst x)" "ivl_ok fis"
    using Cons.prems(1) by (cases fi; auto simp: word_less_nat_alt)+
  show ?case
  proof (cases "unat (fst fi) < offset + s")
    case False
    then have n: "i \<notin> npoints (fi # fis)" if "i < offset + s" for i using fi(1,2) that by (fastforce simp: npoints_iff)
    then have "m = s" using Cons.prems(5,7) by (metis add_less_cancel_left le_neq_implies_less le_refl)
    moreover have "buf ! j = C ! (offset + j)" if "j < s" for j using Cons.prems(6) n [of "offset + j"] that \<open>m = s\<close> by simp
    ultimately show ?thesis using Cons.prems(4) False assms by (auto intro!: nth_equalityI)
  next
    case True
    let ?lo = "max (unat (fst fi)) offset" and ?hi = "min (unat (snd fi)) (offset + s)"
    define buf' where "buf' = patch 0 (?lo - offset) (take (?hi - ?lo) (drop ?lo data)) buf"
    define m' where "m' = max m (?hi - offset)"
    have b: "offset < unat (snd fi)" using Cons.prems(2) by simp
    note st = read_local_part_step [OF assms(1) True b assms(2) Cons.prems(4,5) assms(4) fi(1), folded buf'_def m'_def]
    have "read_local_parts r (k + 1) data s offset fis (int m', buf') = (int s, take s (drop offset C))"
    proof (rule Cons.IH [OF fi(3)])
      show "\<forall>x\<in>set fis. offset < unat (snd x)" using Cons.prems(2) by simp
      show "\<forall>i\<in>npoints fis. i < offset + s \<longrightarrow> C ! i = data ! i" using Cons.prems(3) by simp
      show "length buf' = s" by (rule st(2))
      show "m' \<le> s" using Cons.prems(5) by (auto simp: m'_def)
      show "\<forall>j<m'. offset + j \<notin> npoints fis \<longrightarrow> buf' ! j = C ! (offset + j)"
      proof (intro allI impI)
        fix j assume j: "j < m'" "offset + j \<notin> npoints fis"
        then have js: "j < s" using Cons.prems(5) by (auto simp: m'_def)
        show "buf' ! j = C ! (offset + j)"
        proof (cases "?lo \<le> offset + j \<and> offset + j < ?hi")
          case True
          then show ?thesis using st(3) [OF js] Cons.prems(3) by simp
        next
          case False
          then have n: "offset + j \<notin> npoints (fi # fis)" using j(2) js by auto
          then have "j < m" using Cons.prems(7) js by (meson not_le)
          then have "buf ! j = C ! (offset + j)" using Cons.prems(6) n by blast
          then show ?thesis unfolding st(3) [OF js] if_not_P [OF False] .
        qed
      qed
      show "\<forall>j. m' \<le> j \<and> j < s \<longrightarrow> offset + j \<in> npoints fis"
      proof (intro allI impI, elim conjE)
        fix j assume j: "m' \<le> j" "j < s"
        then have "offset + j \<in> npoints (fi # fis)" using Cons.prems(7) by (simp add: m'_def)
        moreover have "\<not> offset + j < unat (snd fi)" using j unfolding m'_def by linarith
        ultimately show "offset + j \<in> npoints fis" by simp
      qed
    qed
    then show ?thesis using True st(1) by simp
  qed
qed

definition pages_ok :: "u8 list \<Rightarrow> (nat \<Rightarrow> nat \<Rightarrow> u8 list option) \<Rightarrow> bool" where
  "pages_ok remote pages \<longleftrightarrow> (\<forall>n off. pages n off = Some (take n (drop off remote)))"

text \<open>
  C25. Reading a part of the file that is within its size returns the whole of that part of its content, whatever
  mixture of local intervals and parts of the revision on the server it is made of and whatever was in the
  buffer, when the page cache delivers the bytes of that revision and the local file can be read.
\<close>

theorem modified_read_returns_content:
  assumes ok: "file_ok remote f" and p: "pages_ok remote pages" and r: "reads_ok s r"
    and s: "0 < s" "unat offset + s \<le> unat (currentsize f)" "length buf = s"
  shows "psync_pagecache_read_modified_locked r pages buf s offset f = (int s, take s (drop (unat offset) (fcontent remote f)))"
proof -
  note okd = ok [unfolded file_ok_def]
  let ?us = "takeWhile (\<lambda>x. snd x \<le> offset) (writeintervals f)" and ?fis = "dropWhile (\<lambda>x. snd x \<le> offset) (writeintervals f)"
  let ?C = "fcontent remote f"
  have fis: "ivl_ok ?fis" using okd ivl_ok_append [of ?us ?fis] by simp
  have pos: "\<forall>x\<in>set ?fis. offset < snd x"
  proof (cases ?fis)
    case (Cons w ws)
    then have "offset < snd w" using hd_dropWhile [of "\<lambda>x. snd x \<le> offset" "writeintervals f"] by (auto simp: not_le)
    moreover have "\<forall>x\<in>set ws. snd w < fst x" using fis Cons by (cases w) simp
    moreover have "\<forall>x\<in>set ws. fst x < snd x" using ivl_ok_le [OF fis] Cons by simp
    ultimately show ?thesis unfolding Cons by simp (meson order.strict_trans)
  next
    case Nil
    then show ?thesis by (simp only: list.set ball_empty)
  qed
  have covered: "k \<in> npoints (writeintervals f) \<or> k < length remote" if "k < unat (currentsize f)" for k
    using okd that by blast
  have us: "\<forall>x\<in>set ?us. unat (snd x) \<le> unat offset" by (auto dest: set_takeWhileD simp: word_le_nat_alt)
  have npu: "npoints (writeintervals f) = npoints ?us \<union> npoints ?fis"
    unfolding npoints_def by (metis image_Un points_simps(3) takeWhile_dropWhile_id)
  then have np: "k \<in> npoints (writeintervals f) \<longleftrightarrow> k \<in> npoints ?fis" if "unat offset \<le> k" for k
    using us that by (fastforce simp: npoints_iff)
  have C: "?C ! k = (if k \<in> npoints ?fis then datafile f ! k else remote ! k)" if "unat offset \<le> k" "k < unat offset + s" for k
    using that s np by (simp add: nth_fcontent)
  have len: "length ?C = length (datafile f)" using okd by simp
  show ?thesis
  proof (cases "?fis \<noteq> [] \<and> fst (hd ?fis) \<le> offset \<and> unat (snd (hd ?fis)) \<ge> unat offset + s")
    case True
    then have "k \<in> npoints ?fis" if "unat offset \<le> k" "k < unat offset + s" for k
      using that by (cases ?fis) (auto simp: word_le_nat_alt)
    then have "take s (drop (unat offset) ?C) = take s (drop (unat offset) (datafile f))"
      using C len by (intro nth_equalityI) auto
    moreover have "patch 0 0 (take s (drop (unat offset) (datafile f))) buf = take s (drop (unat offset) (datafile f))"
      using s okd by (simp add: patch_def)
    ultimately show ?thesis using True s okd pread_whole [OF r order_refl, of "unat offset" "datafile f"]
      by (simp add: psync_pagecache_read_modified_locked_def)
  next
    case False
    define b where "b = take s (drop (unat offset) remote)"
    have bl: "length b \<le> s" "patch 0 0 b buf = b @ drop (length b) buf" using s by (auto simp: b_def patch_def)
    have un: "psync_pagecache_read_unmodified_locked pages buf s offset f = (int (length b), b @ drop (length b) buf)"
      using p okd bl(2) by (auto simp: psync_pagecache_read_unmodified_locked_def pages_ok_def b_def Let_def word_le_nat_alt)
    have "read_local_parts r 0 (datafile f) s (unat offset) ?fis (int (length b), b @ drop (length b) buf)
        = (int s, take s (drop (unat offset) ?C))"
    proof (rule read_local_parts_ok [OF r _ len s(1) fis])
      show "unat offset + s \<le> length (datafile f)" using s okd by simp
      show "\<forall>x\<in>set ?fis. unat offset < unat (snd x)" using pos by (simp add: word_less_nat_alt)
      show "\<forall>k\<in>npoints ?fis. k < unat offset + s \<longrightarrow> ?C ! k = datafile f ! k"
      proof (intro ballI impI)
        fix k assume k: "k \<in> npoints ?fis" "k < unat offset + s"
        then have "k \<in> npoints (writeintervals f)" using npu by blast
        then show "?C ! k = datafile f ! k" using k(2) s(2) by (simp add: nth_fcontent)
      qed
      show "length (b @ drop (length b) buf) = s" "length b \<le> s" using bl(1) s(3) by simp_all
      show "\<forall>j<length b. unat offset + j \<notin> npoints ?fis \<longrightarrow> (b @ drop (length b) buf) ! j = ?C ! (unat offset + j)"
        using C by (auto simp: b_def nth_append)
      show "\<forall>j. length b \<le> j \<and> j < s \<longrightarrow> unat offset + j \<in> npoints ?fis"
      proof (intro allI impI, elim conjE)
        fix j assume j: "length b \<le> j" "j < s"
        then have "length remote \<le> unat offset + j" by (auto simp: b_def min_def split: if_splits)
        then have "unat offset + j \<in> npoints (writeintervals f)" using covered [of "unat offset + j"] s(2) j(2) by linarith
        then show "unat offset + j \<in> npoints ?fis" using np by simp
      qed
    qed
    then show ?thesis unfolding psync_pagecache_read_modified_locked_def Let_def if_not_P [OF False] un by simp
  qed
qed

definition sample_remote :: "u8 list" where "sample_remote = [10, 11, 12, 13, 14, 15]"

definition sample_changed :: openfile where
  "sample_changed = \<lparr>newfile = False, fmodified = True, datafile = [0, 0, 0, 7, 0, 0], indexfile = [(3, 1)], indexhdr = True,
     dataopen = True, indexopen = True, currentsize = 6, initialsize = 6, indexoff = 1, writeintervals = [(3, 4)]\<rparr>"

lemma sample_changed_ok: "file_ok sample_remote sample_changed"
  by (auto simp: file_ok_def sample_remote_def sample_changed_def max_size_def psync_interval_tree_add_def)

theorem modified_read_returns_content_witness:
  "psync_pagecache_read_modified_locked (\<lambda>_. IoWrote 4) (\<lambda>n off. Some (take n (drop off sample_remote))) [1, 1, 1, 1] 4 2 sample_changed
     = (4, [12, 7, 14, 15])"
proof -
  have "take 4 (drop 2 (fcontent sample_remote sample_changed)) = [12, 7, 14, 15]"
    by (simp add: fcontent_def sample_remote_def sample_changed_def upt_rec)
  then show ?thesis
    using modified_read_returns_content [OF sample_changed_ok, of "\<lambda>n off. Some (take n (drop off sample_remote))" 4 "\<lambda>_. IoWrote 4" 2 "[1, 1, 1, 1]"]
    by (simp add: pages_ok_def reads_ok_def sample_changed_def)
qed

end
