(* ===== verification/FsFileUp.thy ===== *)
theory FsFileUp
  imports FsFileView
begin

text \<open>
  Runs of operations on a modified file, its restart from the local files, and the upload of the changes
  (\<^verbatim>\<open>upload_modify\<close> of \<^verbatim>\<open>pfsupload.c\<close>), against the content of \<open>FsFileView\<close>.
\<close>

section \<open>The upload\<close>

text \<open>
  What the server does with the requests of an upload: \<^verbatim>\<open>upload_writefromfile\<close> copies bytes of the revision
  to the offset they have there and \<^verbatim>\<open>upload_write\<close> puts the bytes it is sent at an offset.
\<close>

fun req_apply :: "u8 list \<Rightarrow> u8 list \<Rightarrow> up_req \<Rightarrow> u8 list \<Rightarrow> u8 list" where
  "req_apply remote data (CopyFrom off len) file = patch 0 (nat off) (take (nat len) (drop (nat off) remote)) file"
| "req_apply remote data (SendLocal off len) file = patch 0 (nat off) (take (nat len) (drop (nat off) data)) file"

fun req_inside :: "u8 list \<Rightarrow> u8 list \<Rightarrow> up_req \<Rightarrow> bool" where
  "req_inside remote data (CopyFrom off len) \<longleftrightarrow>
     0 \<le> off \<and> 0 < len \<and> len \<le> PSYNC_MAX_COPY_FROM_REQ \<and> off + len \<le> int (length remote)"
| "req_inside remote data (SendLocal off len) \<longleftrightarrow> 0 \<le> off \<and> 0 < len \<and> off + len \<le> int (length data)"

lemma patch_extends:
  assumes "p + l \<le> length C" "p + l \<le> length src" "\<And>k. p \<le> k \<Longrightarrow> k < p + l \<Longrightarrow> C ! k = src ! k"
  shows "patch 0 p (take l (drop p src)) (take p C) = take (p + l) C"
  using assms by (intro nth_equalityI) (auto simp: nth_patch)

lemma sint_small: "unat (a :: u64) \<le> max_size \<Longrightarrow> sint a = int (unat a)"
proof -
  assume "unat a \<le> max_size"
  then have "unat a < 9223372036854775808" unfolding max_size_def by simp
  then have u: "uint a < 9223372036854775808" unfolding uint_nat by linarith
  have "sint a = signed_take_bit 63 (uint a)" by (simp add: sint_uint)
  moreover have "- (2 ^ 63) \<le> uint a" using uint_ge_0 [of a] by (simp del: uint_ge_0, linarith)
  then have "signed_take_bit 63 (uint a) = uint a" using u by (simp add: signed_take_bit_int_eq_self)
  ultimately show ?thesis by simp
qed

lemma copy_len: "p < A \<Longrightarrow> p < n \<Longrightarrow> \<exists>l. i64min (i64min (int A) (int n) - int p) PSYNC_MAX_COPY_FROM_REQ = int l
    \<and> 0 < l \<and> p + l \<le> n \<and> p + l \<le> A \<and> int l \<le> PSYNC_MAX_COPY_FROM_REQ"
  by (rule exI [of _ "min (min A n - p) (nat PSYNC_MAX_COPY_FROM_REQ)"]) (auto simp: i64min_def PSYNC_MAX_COPY_FROM_REQ_def)

lemma local_len: "p < B \<Longrightarrow> p < n \<Longrightarrow> \<exists>l. i64min (int B) (int n) - int p = int l \<and> 0 < l \<and> p + l = min B n"
  by (rule exI [of _ "min B n - p"]) (auto simp: i64min_def)

lemma upload_requests_ok:
  assumes C: "length C = length data" "length data \<le> max_size"
  shows "ivl_ok cs \<Longrightarrow> \<forall>x\<in>set cs. p < unat (snd x) \<and> unat (snd x) \<le> max_size \<Longrightarrow>
    \<forall>k. p \<le> k \<and> k < length data \<longrightarrow> (if k \<in> npoints cs then C ! k = data ! k else C ! k = remote ! k \<and> k < length remote) \<Longrightarrow>
    fold (req_apply remote data) (upload_requests (int (length data)) (int p) cs) (take p C) = C
    \<and> (\<forall>r\<in>set (upload_requests (int (length data)) (int p) cs). req_inside remote data r)"
proof (induction "length data - p" arbitrary: p cs rule: less_induct)
  case less
  let ?n = "length data"
  show ?case
  proof (cases "p < ?n")
    case False
    then show ?thesis using C by (simp add: upload_requests.simps [of _ _ cs])
  next
    case pn: True
    show ?thesis
    proof (cases cs)
      case Nil
      define l where "l = nat (i64min (int ?n - int p) PSYNC_MAX_COPY_FROM_REQ)"
      have l: "i64min (int ?n - int p) PSYNC_MAX_COPY_FROM_REQ = int l" "0 < l" "p + l \<le> ?n" "int l \<le> PSYNC_MAX_COPY_FROM_REQ"
        using pn by (auto simp: l_def i64min_def PSYNC_MAX_COPY_FROM_REQ_def)
      have K: "C ! k = remote ! k \<and> k < length remote" if "p \<le> k" "k < ?n" for k using less.prems(3) that Nil by simp
      have r: "p + l \<le> length remote" using conjunct2 [OF K, of "p + l - 1"] l(2,3) by linarith
      have e: "upload_requests (int ?n) (int p) cs = CopyFrom (int p) (int l) # upload_requests (int ?n) (int (p + l)) cs"
        using pn by (subst upload_requests.simps) (simp add: Nil l(1) Let_def)
      have "patch 0 p (take l (drop p remote)) (take p C) = take (p + l) C"
        using K l(3) r C by (intro patch_extends) auto
      then show ?thesis using less.hyps [of "p + l" cs] less.prems l r pn unfolding e by (simp add: Nil)
    next
      case (Cons x rest)
      obtain a b where x: "x = (a, b)" by fastforce
      have ab: "unat a < unat b" "p < unat b" "unat b \<le> max_size" "ivl_ok rest" "\<forall>y\<in>set rest. unat b < unat (fst y)"
        using less.prems(1,2) Cons x by (auto simp: word_less_nat_alt)
      have sa: "sint a = int (unat a)" "sint b = int (unat b)" using ab sint_small by auto
      show ?thesis
      proof (cases "p < unat a")
        case True
        have pa: "int p < uint a" using True unfolding uint_nat by (simp only: of_nat_less_iff)
        obtain l where l: "i64min (i64min (int (unat a)) (int ?n) - int p) PSYNC_MAX_COPY_FROM_REQ = int l"
          "0 < l" "p + l \<le> ?n" "p + l \<le> unat a" "int l \<le> PSYNC_MAX_COPY_FROM_REQ"
          using copy_len [OF True pn] by blast
        have "k \<notin> npoints cs" if "k < unat a" for k using that ab Cons x by (fastforce simp: npoints_iff)
        then have K: "C ! k = remote ! k \<and> k < length remote" if "p \<le> k" "k < p + l" for k
          using less.prems(3) that l(3,4) by (meson order.strict_trans2)
        have r: "p + l \<le> length remote" using conjunct2 [OF K, of "p + l - 1"] l(2) by linarith
        have e: "upload_requests (int ?n) (int p) cs = CopyFrom (int p) (int l) # upload_requests (int ?n) (int (p + l)) cs"
          using pn l(1,2) pa by (subst upload_requests.simps) (simp add: Cons x sa Let_def)
        have "patch 0 p (take l (drop p remote)) (take p C) = take (p + l) C"
          using K l(3) r C by (intro patch_extends) auto
        moreover have "\<forall>x\<in>set cs. p + l < unat (snd x) \<and> unat (snd x) \<le> max_size"
        proof
          fix y assume y: "y \<in> set cs"
          then have "p + l < unat (snd y)"
          proof (cases "y = x")
            case False
            then have r: "y \<in> set rest" using y Cons by simp
            then have "unat b < unat (fst y)" "unat (fst y) < unat (snd y)"
              using ab(5) ivl_ok_le [OF ab(4)] by (auto simp: word_less_nat_alt)
            then show ?thesis using l(4) ab(1) by linarith
          qed (use l(4) ab(1) x in simp)
          then show "p + l < unat (snd y) \<and> unat (snd y) \<le> max_size" using less.prems(2) y by blast
        qed
        ultimately show ?thesis using less.hyps [of "p + l" cs] less.prems(1,3) l r pn unfolding e by simp
      next
        case False
        have pb: "\<not> int p < uint a" "int p < uint b" using False ab(2) unfolding uint_nat by (simp_all only: of_nat_less_iff not_False_eq_True)
        obtain l where l: "i64min (int (unat b)) (int ?n) - int p = int l" "0 < l" "p + l = min (unat b) ?n"
          using local_len [OF ab(2) pn] by blast
        have K: "C ! k = data ! k" if "p \<le> k" "k < p + l" for k
        proof -
          have "k \<in> npoints cs" using that l(3) False Cons x by simp
          then show ?thesis using less.prems(3) that l(3) by (metis min_less_iff_conj)
        qed
        have e: "upload_requests (int ?n) (int p) cs = SendLocal (int p) (int l) # upload_requests (int ?n) (int (unat b)) rest"
          using pn l(1) pb by (subst upload_requests.simps) (simp add: Cons x sa Let_def)
        have "patch 0 p (take l (drop p data)) (take p C) = take (p + l) C"
          using K l(3) C by (intro patch_extends) auto
        also have "\<dots> = take (unat b) C" using l(3) C by (auto simp: min_def)
        finally have "patch 0 p (take l (drop p data)) (take p C) = take (unat b) C" .
        moreover have "\<forall>k. unat b \<le> k \<and> k < ?n \<longrightarrow>
            (if k \<in> npoints rest then C ! k = data ! k else C ! k = remote ! k \<and> k < length remote)"
          using less.prems(3) Cons x ab(2) by auto
        moreover have "\<forall>x\<in>set rest. unat b < unat (snd x) \<and> unat (snd x) \<le> max_size"
          using less.prems(2) ab(4,5) ivl_ok_le [OF ab(4)] Cons by (fastforce simp: word_less_nat_alt)
        ultimately show ?thesis using less.hyps [of "unat b" rest] ab(2,4) l pn unfolding e by simp
      qed
    qed
  qed
qed

section \<open>The file as its users see it\<close>

datatype file_op = FWrite "u8 list" u64 | FTruncate u64

primrec op_fits :: "file_op \<Rightarrow> bool" where
  "op_fits (FWrite buf offset) \<longleftrightarrow> buf \<noteq> [] \<and> unat offset + length buf \<le> max_size"
| "op_fits (FTruncate n) \<longleftrightarrow> unat n \<le> max_size"

text \<open>An operation on the file, when the operating system does all it is asked, and what it does to bytes.\<close>

definition all_done :: "nat \<Rightarrow> write_io" where
  "all_done n = \<lparr>io_trunc = True, io_ext = True, io_data = IoWrote n, io_index = True\<rparr>"

primrec op_run :: "open_io \<Rightarrow> file_op \<Rightarrow> openfile \<Rightarrow> (int \<times> openfile) option" where
  "op_run r (FWrite buf offset) f = psync_fs_write 1 r True True None (all_done (length buf)) buf offset f"
| "op_run r (FTruncate n) f = psync_fs_ftruncate_of_locked r True True None (all_done 0) True n f"

primrec op_bytes :: "file_op \<Rightarrow> u8 list \<Rightarrow> u8 list" where
  "op_bytes (FWrite buf offset) c = patch 0 (unat offset) buf c"
| "op_bytes (FTruncate n) c = resize 0 (unat n) c"

primrec op_result :: "file_op \<Rightarrow> int" where
  "op_result (FWrite buf offset) = int (length buf)"
| "op_result (FTruncate n) = 0"

primrec ops_run :: "open_io \<Rightarrow> file_op list \<Rightarrow> openfile \<Rightarrow> (int list \<times> openfile) option" where
  "ops_run r [] f = Some ([], f)"
| "ops_run r (p # ps) f =
     Option.bind (op_run r p f) (\<lambda>(ret, f). map_option (\<lambda>(rets, f). (ret # rets, f)) (ops_run r ps f))"

text \<open>A file of the server, of at least one byte, that was opened and not written to yet.\<close>

definition only_remote :: "u8 list \<Rightarrow> openfile \<Rightarrow> bool" where
  "only_remote remote f \<longleftrightarrow> \<not> newfile f \<and> \<not> fmodified f \<and> \<not> dataopen f \<and> \<not> indexopen f \<and> datafile f = []
     \<and> indexfile f = [] \<and> \<not> indexhdr f \<and> writeintervals f = [] \<and> length remote = unat (initialsize f) \<and> remote \<noteq> []
     \<and> length remote \<le> max_size \<and> currentsize f = initialsize f"

lemma only_remote_content: "only_remote remote f \<Longrightarrow> fcontent remote f = remote"
  using map_nth [of remote] by (simp add: only_remote_def fcontent_def)

lemma reopen_ok:
  assumes "only_remote remote f" "open_ok r"
  obtains f' where "psync_fs_reopen_file_for_writing r True copy True None f = Some (0, f')" "file_ok remote f'"
    "fcontent remote f' = remote" "currentsize f' = currentsize f"
proof -
  note o = assms [unfolded only_remote_def open_ok_def]
  let ?f = "f\<lparr>dataopen := True, indexopen := True, indexhdr := True, fmodified := True, currentsize := initialsize f, indexoff := 0,
    datafile := replicate (unat (initialsize f)) 0\<rparr>"
  have "psync_fs_reopen_file_for_writing r True copy True None f = Some (0, ?f)"
    using o by (auto simp: psync_fs_reopen_file_for_writing_def open_write_files_def load_interval_tree_def Let_def resize_def)
  moreover have "file_ok remote ?f" using o by (simp add: file_ok_def)
  moreover have "fcontent remote ?f = remote" using o map_nth [of remote] by (simp add: fcontent_def)
  ultimately show ?thesis using that o by simp
qed

lemma op_run_writable:
  assumes "file_ok remote f" "op_fits p"
  obtains f' where "op_run r p f = Some (op_result p, f')" "file_ok remote f'" "fcontent remote f' = op_bytes p (fcontent remote f)"
proof (cases p)
  case (FWrite buf offset)
  have "op_run r p f = psync_fs_write_modified (all_done (length buf)) buf offset f"
    using assms(1) FWrite by (simp add: psync_fs_write_def write_writable_def file_ok_def)
  then show ?thesis
    using assms FWrite that write_modified_ok [of remote f buf offset "all_done (length buf)" "length buf"]
    by (simp add: all_done_def) metis
next
  case (FTruncate n)
  have "op_run r p f = Some (ftruncate_writable True True True n f)"
    using assms(1) FTruncate by (simp add: psync_fs_ftruncate_of_locked_def file_ok_def all_done_def ftruncate_writable_def)
  then show ?thesis using assms FTruncate that ftruncate_ok [of remote f n] by simp metis
qed

lemma op_run_untouched:
  assumes f: "only_remote remote f" "open_ok r" and p: "op_fits p"
  obtains f' where "op_run r p f = Some (op_result p, f')" "only_remote remote f' \<or> file_ok remote f'"
    "fcontent remote f' = op_bytes p remote"
proof -
  obtain g where g: "psync_fs_reopen_file_for_writing r True True True None f = Some (0, g)" "file_ok remote g"
    "fcontent remote g = remote" "currentsize g = currentsize f" using reopen_ok [OF f] .
  have t: "io_trunc0 r" "\<not> newfile f" "\<not> fmodified f" "fmodified g" using f g(2) by (auto simp: open_ok_def only_remote_def file_ok_def)
  show ?thesis
  proof (cases "p = FTruncate (currentsize f)")
    case True
    have "op_bytes p remote = remote" using True f(1) by (simp add: only_remote_def resize_def)
    then show ?thesis using that [of f] True f(1) only_remote_content [OF f(1)] by (simp add: psync_fs_ftruncate_of_locked_def)
  next
    case False
    then have "op_run r p f = op_run r p g"
      using g(1,4) t by (cases p) (auto simp: psync_fs_write_def psync_fs_ftruncate_of_locked_def)
    then show ?thesis using that op_run_writable [OF g(2) p, of r] g(3) by metis
  qed
qed

lemma ops_run_ok:
  "only_remote remote f \<or> file_ok remote f \<Longrightarrow> open_ok r \<Longrightarrow> list_all op_fits ps \<Longrightarrow>
   \<exists>f'. ops_run r ps f = Some (map op_result ps, f') \<and> (only_remote remote f' \<or> file_ok remote f')
     \<and> (file_ok remote f \<longrightarrow> file_ok remote f') \<and> fcontent remote f' = fold op_bytes ps (fcontent remote f)"
proof (induction ps arbitrary: f)
  case (Cons p ps)
  obtain f1 where f1: "op_run r p f = Some (op_result p, f1)" "only_remote remote f1 \<or> file_ok remote f1"
    "file_ok remote f \<longrightarrow> file_ok remote f1" "fcontent remote f1 = op_bytes p (fcontent remote f)"
  proof (cases "file_ok remote f")
    case True
    then show ?thesis using that op_run_writable [OF True, of p r] Cons.prems(3) by simp metis
  next
    case False
    then have u: "only_remote remote f" using Cons.prems(1) by blast
    show ?thesis using that op_run_untouched [OF u Cons.prems(2), of p] Cons.prems(3) only_remote_content [OF u] False by simp metis
  qed
  then show ?case using Cons.IH [OF f1(2) Cons.prems(2)] Cons.prems(3) by auto
qed simp

text \<open>
  C5. A file of the server that is changed behaves as its bytes to which the writes and changes of size are
  applied in order: each returns what it is expected to and the last state contains the result, with the
  invariant that ties the local file, the intervals, the index file and the size together from the first
  change on. Holes before a write past the end read as zeros.
\<close>

theorem modified_file_refines_bytes:
  assumes "only_remote remote f" "open_ok r" "list_all op_fits ps"
  shows "\<exists>f'. ops_run r ps f = Some (map op_result ps, f') \<and> (only_remote remote f' \<or> file_ok remote f')
    \<and> fcontent remote f' = fold op_bytes ps remote"
  using ops_run_ok [OF disjI1 [OF assms(1)] assms(2,3)] only_remote_content [OF assms(1)] by auto

definition sample_file :: openfile where
  "sample_file = \<lparr>newfile = False, fmodified = False, datafile = [], indexfile = [], indexhdr = False, dataopen = False, indexopen = False,
     currentsize = 6, initialsize = 6, indexoff = 0, writeintervals = []\<rparr>"

definition sample_open :: open_io where
  "sample_open = \<lparr>io_dopen = True, io_dsize = True, io_iopen = True, io_isize = True, io_ihdr = True, io_iread = (\<lambda>_. True), io_trunc0 = True\<rparr>"

theorem modified_file_refines_bytes_witness:
  "\<exists>f'. ops_run sample_open [FWrite [1, 2] 8, FTruncate 4, FWrite [3] 5] sample_file = Some ([2, 0, 1], f')
    \<and> (only_remote sample_remote f' \<or> file_ok sample_remote f') \<and> fcontent sample_remote f' = [10, 11, 12, 13, 0, 3]"
proof -
  have "only_remote sample_remote sample_file" "open_ok sample_open"
    by (simp_all add: only_remote_def sample_remote_def sample_file_def max_size_def open_ok_def sample_open_def)
  from modified_file_refines_bytes [OF this, of "[FWrite [1, 2] 8, FTruncate 4, FWrite [3] 5]"]
  show ?thesis by (simp add: max_size_def sample_remote_def patch_def resize_def del: ops_run.simps)
qed

text \<open>
  C23. The state of a modified file is in its two local files: a new process that opens them after any run of
  operations has the same intervals, size and place in the index as the process that wrote them, so the
  content is the same.
\<close>

theorem modified_file_survives_restart:
  assumes "file_ok remote f" "list_all op_fits ps" "open_ok r"
  shows "\<exists>f'. ops_run r ps f = Some (map op_result ps, f') \<and> open_write_files r False (not_opened f') = Some (0, f')
    \<and> fcontent remote f' = fold op_bytes ps (fcontent remote f)"
proof -
  obtain f' where "ops_run r ps f = Some (map op_result ps, f')" "file_ok remote f'"
    "fcontent remote f' = fold op_bytes ps (fcontent remote f)" using ops_run_ok [OF disjI2 [OF assms(1)] assms(3,2)] assms(1) by blast
  then show ?thesis using open_again [OF _ assms(3)] by simp
qed

theorem modified_file_survives_restart_witness:
  "\<exists>f'. ops_run sample_open [FWrite [1] 0] sample_changed = Some ([1], f')
    \<and> open_write_files sample_open False (not_opened f') = Some (0, f') \<and> fcontent sample_remote f' = [1, 11, 12, 7, 14, 15]"
proof -
  have c: "fcontent sample_remote sample_changed = [10, 11, 12, 7, 14, 15]"
    by (simp add: fcontent_def sample_remote_def sample_changed_def upt_rec)
  have e: "fold op_bytes [FWrite [1] 0] [10, 11, 12, 7, 14, 15] = [1, 11, 12, 7, 14, 15]" by (simp add: patch_def)
  have "list_all op_fits [FWrite [1] 0]" "open_ok sample_open" by (simp_all add: max_size_def open_ok_def sample_open_def)
  from modified_file_survives_restart [OF sample_changed_ok this, unfolded c e] show ?thesis by (simp del: ops_run.simps)
qed

text \<open>
  C16. The upload of a modified file: the local file and the intervals loaded from its index give requests that
  rebuild the content of the file on the server, in pieces that lie inside the revision or the local file, no
  copy longer than \<^verbatim>\<open>PSYNC_MAX_COPY_FROM_REQ\<close>.
\<close>

theorem upload_rebuilds_content:
  assumes "file_ok remote f" "\<forall>i. pr i"
  shows "\<exists>tree. psync_fs_load_interval_tree pr (indexfile f) [] = Some (int (length (indexfile f)), tree)
    \<and> fold (req_apply remote (datafile f)) (upload_requests (int (length (datafile f))) 0 tree) [] = fcontent remote f
    \<and> list_all (req_inside remote (datafile f)) (upload_requests (int (length (datafile f))) 0 tree)"
proof -
  note ok = assms(1) [unfolded file_ok_def]
  have "\<forall>x\<in>set (writeintervals f). 0 < unat (snd x) \<and> unat (snd x) \<le> max_size"
    using ok ivl_ok_le [of "writeintervals f"] npoints_bound [of "writeintervals f" max_size]
    by (fastforce simp: word_less_nat_alt)
  moreover have "\<forall>k<length (datafile f). if k \<in> npoints (writeintervals f) then fcontent remote f ! k = datafile f ! k
      else fcontent remote f ! k = remote ! k \<and> k < length remote"
    using ok by (auto simp: nth_fcontent)
  ultimately have "fold (req_apply remote (datafile f)) (upload_requests (int (length (datafile f))) 0 (writeintervals f)) []
      = fcontent remote f
    \<and> (\<forall>q\<in>set (upload_requests (int (length (datafile f))) 0 (writeintervals f)). req_inside remote (datafile f) q)"
    using upload_requests_ok [of "fcontent remote f" "datafile f" "writeintervals f" 0 remote] ok by simp
  then show ?thesis
    using ok load_tree_all [OF assms(2)] by (simp add: list_all_iff)
qed

theorem upload_rebuilds_content_witness:
  "\<exists>tree. psync_fs_load_interval_tree (\<lambda>_. True) [(3, 1)] [] = Some (1, tree)
    \<and> fold (req_apply sample_remote [0, 0, 0, 7, 0, 0]) (upload_requests 6 0 tree) [] = [10, 11, 12, 7, 14, 15]"
  using upload_rebuilds_content [OF sample_changed_ok, of "\<lambda>_. True"]
  by (auto simp: sample_changed_def fcontent_def sample_remote_def upt_rec)

text \<open>
  C35. A record of the index is reserved before the local file is written, and not given back when that write
  fails. When a write to a modified file fails, the disk being full for instance, and the next one succeeds, the
  index has a record between them that was never written and is read as an empty interval. From then on
  loading the index ends the process by the assertion that an interval is not empty: both in the upload of the
  file and when it is opened again after a restart.
\<close>

theorem failed_write_aborts_load:
  assumes ok: "file_ok remote f" and w: "offset \<le> currentsize f" "offset2 \<le> currentsize f" "buf2 \<noteq> []"
    "unat offset2 + length buf2 \<le> max_size" and r: "open_ok r" "\<forall>i. pr i"
  defines "bad \<equiv> \<lparr>io_trunc = True, io_ext = True, io_data = IoErr, io_index = True\<rparr>"
    and "good \<equiv> \<lparr>io_trunc = True, io_ext = True, io_data = IoWrote (length buf2), io_index = True\<rparr>"
  shows "\<exists>f1 f2. psync_fs_write_modified bad buf offset f = Some (- EIO, f1)
    \<and> psync_fs_write_modified good buf2 offset2 f1 = Some (int (length buf2), f2)
    \<and> indexfile f2 = indexfile f @ [(0, 0), (offset2, of_nat (length buf2))]
    \<and> psync_fs_load_interval_tree pr (indexfile f2) [] = None
    \<and> open_write_files r False (not_opened f2) = None"
proof -
  note okd = ok [unfolded file_ok_def]
  let ?f1 = "f\<lparr>indexoff := indexoff f + 1\<rparr>" and ?e = "offset2 + of_nat (length buf2)"
  have "unat ?e = unat offset2 + length buf2" using w(4) by (simp add: unat_word_ariths unat_of_nat max_size_def)
  then have lt: "offset2 < ?e" using w(3) by (simp add: word_less_nat_alt)
  have 1: "psync_fs_write_modified bad buf offset f = Some (- EIO, ?f1)"
    using w(1) by (simp add: psync_fs_write_modified_def psync_fs_modfile_check_size_ok_def psync_file_pwrite_def bad_def leD)
  let ?i = "indexfile f @ [(0, 0), (offset2, of_nat (length buf2))]"
  have p: "patch (0, 0) (indexoff f + 1) [(offset2, of_nat (length buf2))] (indexfile f) = ?i"
    using okd by (simp add: patch_def)
  obtain f2 where 2: "psync_fs_write_modified good buf2 offset2 ?f1 = Some (int (length buf2), f2)" "indexfile f2 = ?i"
    "newfile f2 = newfile f" "indexhdr f2 = indexhdr f"
    using w(2,3) lt p by (auto simp: psync_fs_write_modified_def psync_fs_modfile_check_size_ok_def psync_file_pwrite_def good_def leD Let_def)
  have "add_records (indexfile f2) [] = None" unfolding 2(2) using okd by (simp add: psync_interval_tree_add_def)
  then have n: "psync_fs_load_interval_tree q (indexfile f2) [] = None" if "\<forall>i. q i" for q
    using load_tree_all [OF that] by simp
  have "open_write_files r False (not_opened f2) = None"
    using r(1) n [of "io_iread r"] 2(3,4) okd by (simp add: open_write_files_def not_opened_def open_ok_def load_interval_tree_def Let_def)
  then show ?thesis using 1 2(1,2) n [OF r(2)] by blast
qed

theorem failed_write_aborts_load_witness:
  "\<exists>f1 f2. psync_fs_write_modified \<lparr>io_trunc = True, io_ext = True, io_data = IoErr, io_index = True\<rparr> [9] 2 sample_changed = Some (- EIO, f1)
    \<and> psync_fs_write_modified \<lparr>io_trunc = True, io_ext = True, io_data = IoWrote 1, io_index = True\<rparr> [9] 0 f1 = Some (1, f2)
    \<and> indexfile f2 = [(3, 1), (0, 0), (0, 1)] \<and> open_write_files sample_open False (not_opened f2) = None"
  using failed_write_aborts_load [OF sample_changed_ok, of 2 0 "[9]" sample_open "\<lambda>_. True" "[9]"]
  by (auto simp: sample_changed_def max_size_def open_ok_def sample_open_def)

end
