(* ===== verification/CryptoLog.thy ===== *)
theory CryptoLog
  imports FsFileView CryptoLayout
begin

text \<open>
  The log of an encrypted file, from \<^verbatim>\<open>pfscrypto.c\<close>: sectors, authentication records and intervals are written
  to a log file first; when the log is complete a record in its first sector, with the length, a hash and a
  checksum, makes it final, and only then it is applied to the data file and to the index file. After a crash
  the logs that are found are applied again.

  Files are bytes, the index file its records. The hash (\<^verbatim>\<open>psync_fast_hash256\<close>, an argument) is of the bytes
  that were fed to it in order, and the checksum (\<^verbatim>\<open>psync_crc32c\<close>) is an argument too.
\<close>

section \<open>Writing the log\<close>

record log_t =
  logfile :: "u8 list"
  logoffset :: nat
  loghashctx :: "u8 list"

definition PSYNC_CRYPTO_LOG_DATA :: nat where "PSYNC_CRYPTO_LOG_DATA = 1"
definition PSYNC_CRYPTO_LOG_INT :: nat where "PSYNC_CRYPTO_LOG_INT = 2"
definition PSYNC_LOG_STATUS_FINALIZED :: nat where "PSYNC_LOG_STATUS_FINALIZED = 1"
definition PSYNC_LOG_HASHID_FH256 :: nat where "PSYNC_LOG_HASHID_FH256 = 0"

text \<open>The header of a record: type, a byte that is not used, a short and a long length, an offset.\<close>

definition log_header :: "nat \<Rightarrow> u8 \<Rightarrow> nat \<Rightarrow> nat \<Rightarrow> nat \<Rightarrow> u8 list" where
  "log_header type junk len longlengthlo offset =
     of_nat type # junk # le_store 2 len @ le_store 4 longlengthlo @ le_store 8 offset"

definition psync_fs_crypto_init_log :: "io \<Rightarrow> log_t \<Rightarrow> int \<times> log_t" where
  "psync_fs_crypto_init_log r l =
     (let (wrt, file) = psync_file_pwrite r (replicate PSYNC_CRYPTO_SECTOR_SIZE 0xff) 0 (logfile l); l = l\<lparr>logfile := file\<rparr> in
      if wrt \<noteq> int PSYNC_CRYPTO_SECTOR_SIZE then (- EIO, l)
      else (0, l\<lparr>logoffset := PSYNC_CRYPTO_SECTOR_SIZE, loghashctx := []\<rparr>))"

text \<open>What every writer of a record does with its bytes.\<close>

definition log_append :: "io \<Rightarrow> u8 list \<Rightarrow> log_t \<Rightarrow> int \<times> log_t" where
  "log_append r bytes l =
     (let (wrt, file) = psync_file_pwrite r bytes (logoffset l) (logfile l); l = l\<lparr>logfile := file\<rparr> in
      if wrt \<noteq> int (length bytes) then (- EIO, l)
      else (0, l\<lparr>logoffset := logoffset l + length bytes, loghashctx := loghashctx l @ bytes\<rparr>))"

text \<open>
  A failed write is cut off again; a log that cannot be cut is started anew (the size of the open file, which
  is then taken from the data file, is not part of this state).
\<close>

definition psync_fs_crypto_reset_log_to_off :: "bool \<Rightarrow> io \<Rightarrow> nat \<Rightarrow> log_t \<Rightarrow> log_t" where
  "psync_fs_crypto_reset_log_to_off tr r off l =
     (if length (logfile l) < off \<or> (length (logfile l) > off \<and> \<not> tr)
      then snd (psync_fs_crypto_init_log r (l\<lparr>logfile := []\<rparr>))
      else l\<lparr>logfile := take off (logfile l)\<rparr>)"

text \<open>\<open>data\<close> is the sector as the coder has encoded it.\<close>

definition psync_fs_crypto_write_newfile_full_sector ::
  "io \<Rightarrow> bool \<Rightarrow> io \<Rightarrow> u8 list \<Rightarrow> u32 \<Rightarrow> log_t \<Rightarrow> int \<times> log_t" where
  "psync_fs_crypto_write_newfile_full_sector r tr r2 data sectorid l =
     (let hdr = log_header PSYNC_CRYPTO_LOG_DATA 0 (length data) 0 (unat (psync_fs_crypto_data_offset_by_sectorid sectorid));
          (ret, l) = log_append r (hdr @ data) l in
      if ret \<noteq> 0 then (- EIO, psync_fs_crypto_reset_log_to_off tr r2 (logoffset l) l) else (0, l))"

definition interval_header :: "u8 \<Rightarrow> u64 \<times> u64 \<Rightarrow> u8 list" where
  "interval_header junk x =
     (let len = snd x - fst x in
      log_header PSYNC_CRYPTO_LOG_INT junk (unat (drop_bit 32 len)) (unat (take_bit 32 len)) (unat (fst x)))"

text \<open>The intervals, 256 to a write.\<close>

function psync_fs_write_interval_tree_to_log :: "(nat \<Rightarrow> io) \<Rightarrow> u8 \<Rightarrow> recs \<Rightarrow> log_t \<Rightarrow> int \<times> log_t" where
  "psync_fs_write_interval_tree_to_log r junk ivs l =
     (if ivs = [] then (0, l)
      else
        let (ret, l) = log_append (r (length ivs)) (concat (map (interval_header junk) (take 256 ivs))) l in
        if ret \<noteq> 0 then (- EIO, l) else psync_fs_write_interval_tree_to_log r junk (drop 256 ivs) l)"
  by auto
termination by (relation "measure (\<lambda>(r, junk, ivs, l). length ivs)") auto

declare psync_fs_write_interval_tree_to_log.simps [simp del]

type_synonym bytes_hash = "u8 list \<Rightarrow> u8 list"
type_synonym bytes_crc = "u8 list \<Rightarrow> u32"

definition master_start :: "u8 list \<Rightarrow> nat \<Rightarrow> nat \<Rightarrow> u8 list" where
  "master_start hash logsize filesize =
     le_store 4 PSYNC_LOG_STATUS_FINALIZED @ le_store 4 PSYNC_LOG_HASHID_FH256 @ le_store 8 logsize @ le_store 8 filesize @ hash"

definition psync_fs_crypto_mark_log_finalized ::
  "bytes_hash \<Rightarrow> bytes_crc \<Rightarrow> u8 list \<Rightarrow> io \<Rightarrow> nat \<Rightarrow> log_t \<Rightarrow> int \<times> log_t" where
  "psync_fs_crypto_mark_log_finalized fhash crc padding r filesize l =
     (let mr = master_start (fhash (loghashctx l)) (length (logfile l)) filesize;
          (wrt, file) = psync_file_pwrite r (mr @ le_store 4 (unat (crc mr)) @ padding) 0 (logfile l);
          l = l\<lparr>logfile := file\<rparr> in
      if wrt \<noteq> 64 then (- EIO, l) else (0, l))"

section \<open>Applying the log\<close>

definition pread :: "'a list \<Rightarrow> nat \<Rightarrow> nat \<Rightarrow> 'a list" where
  "pread f n off = take n (drop off f)"

definition field :: "nat \<Rightarrow> nat \<Rightarrow> u8 list \<Rightarrow> nat" where
  "field n off b = le_load (take n (drop off b))"

definition psync_fs_crypto_check_log_hash :: "bytes_hash \<Rightarrow> u8 list \<Rightarrow> u8 list \<Rightarrow> int" where
  "psync_fs_crypto_check_log_hash fhash lf mr =
     (if field 4 4 mr \<noteq> PSYNC_LOG_HASHID_FH256 then -1
      else if fhash (drop PSYNC_CRYPTO_SECTOR_SIZE lf) \<noteq> take 32 (drop 24 mr) then -1 else 0)"

text \<open>
  What the operating system does: whether the three changes of size succeed, what becomes of the write of
  the data record at a position of the log, and whether index records can be written at that position. The
  index file is missing for new files. The result is \<open>None\<close> when an assertion ends the process: a data record
  longer than a sector or behind index records that are not written yet (both use one buffer), or an index
  record when there is no index file.
\<close>

record replay_io =
  rl_trunc :: bool
  rl_trunc_index :: bool
  rl_trunc_end :: bool
  rl_data :: "nat \<Rightarrow> io"
  rl_index :: "nat \<Rightarrow> bool"

definition flush_records :: "bool \<Rightarrow> recs \<Rightarrow> nat \<Rightarrow> recs option \<Rightarrow> recs option \<times> bool" where
  "flush_records ok records ioff ifd =
     (case ifd of None \<Rightarrow> (None, False) | Some i \<Rightarrow> if ok then (Some (patch (0, 0) ioff records i), True) else (Some i, False))"

function process_records ::
  "replay_io \<Rightarrow> u8 list \<Rightarrow> nat \<Rightarrow> nat \<Rightarrow> u8 list \<Rightarrow> recs option \<Rightarrow> recs \<Rightarrow> nat \<Rightarrow> int option \<times> u8 list \<times> recs option" where
  "process_records r lf size' off dfd ifd records ioff =
     (let hdr = pread lf 16 off in
      if hdr = [] then
        if records \<noteq> [] then let (ifd, ok) = flush_records (rl_index r off) records ioff ifd in (Some (if ok then 0 else -1), dfd, ifd)
        else (Some 0, dfd, ifd)
      else if length hdr \<noteq> 16 then (Some (-1), dfd, ifd)
      else
        let off = off + 16; hlen = field 2 2 hdr; hoffset = field 8 8 hdr in
        if unat (hd hdr) = PSYNC_CRYPTO_LOG_DATA then
          if hlen > PSYNC_CRYPTO_SECTOR_SIZE \<or> records \<noteq> [] then (None, dfd, ifd)
          else if (hoffset + hlen) mod 2 ^ 64 > size' then process_records r lf size' (off + hlen) dfd ifd records ioff
          else
            let buff = pread lf hlen off in
            if length buff \<noteq> hlen then (Some (-1), dfd, ifd)
            else
              let (wr, dfd) = psync_file_pwrite (rl_data r off) buff hoffset dfd in
              if wr \<noteq> int hlen then (Some (-1), dfd, ifd) else process_records r lf size' (off + hlen) dfd ifd records ioff
        else if unat (hd hdr) = PSYNC_CRYPTO_LOG_INT then
          if ifd = None then (None, dfd, ifd) else
          let records = records @ [(of_nat hoffset, of_nat (field 4 4 hdr + hlen * 2 ^ 32))] in
          if length records \<ge> 256 then
            let (ifd, ok) = flush_records (rl_index r off) records ioff ifd in
            if \<not> ok then (Some (-1), dfd, ifd) else process_records r lf size' off dfd ifd [] (ioff + length records)
          else process_records r lf size' off dfd ifd records ioff
        else (Some (-1), dfd, ifd))"
  by auto
termination
  by (relation "measure (\<lambda>(r, lf, size', off, dfd, ifd, records, ioff). length lf - off)") (auto simp: pread_def)

declare process_records.simps [simp del]

definition psync_fs_crypto_process_log ::
  "bytes_hash \<Rightarrow> bytes_crc \<Rightarrow> replay_io \<Rightarrow> bool \<Rightarrow> u8 list \<Rightarrow> u8 list \<Rightarrow> recs option \<Rightarrow> int option \<times> u8 list \<times> recs option" where
  "psync_fs_crypto_process_log fhash crc r checkhash lf dfd ifd =
     (let mr = pread lf 64 0; size' = field 8 16 mr in
      if length mr \<noteq> 64 \<or> field 4 0 mr \<noteq> PSYNC_LOG_STATUS_FINALIZED \<or> field 8 8 mr \<noteq> length lf
        \<or> field 4 56 mr \<noteq> unat (crc (take 56 mr)) \<or> checkhash \<and> psync_fs_crypto_check_log_hash fhash lf mr \<noteq> 0
      then (Some (-1), dfd, ifd)
      else if \<not> rl_trunc r then (Some (-1), dfd, ifd)
      else
        let dfd = resize 0 size' dfd in
        if ifd \<noteq> None \<and> \<not> rl_trunc_index r then (Some (-1), dfd, ifd)
        else
          let ifd = map_option (\<lambda>_. []) ifd;
              (ret, dfd, ifd) = process_records r lf size' PSYNC_CRYPTO_SECTOR_SIZE dfd ifd [] 0 in
          if ret \<noteq> Some 0 then (ret, dfd, ifd)
          else if \<not> rl_trunc_end r then (Some (-1), dfd, ifd)
          else (Some 0, resize 0 size' dfd, ifd))"

end
