(* ===== verification/CryptoLogView.thy ===== *)
theory CryptoLogView
  imports CryptoLog
begin

text \<open>
  What a log does to the files, and why a crash does not matter: applying a log again gives the same files
  whatever part of it had been applied before, a log that was written and made final is applied as it was
  written, and one that was not made final changes nothing.
\<close>

section \<open>The parts of a log\<close>

datatype log_part = LData nat "u8 list" | LInt nat nat

text \<open>
  The records of a log that are applied to a file of a size when \<open>k\<close> index records are in the buffer; none when
  the log is broken.
\<close>

function log_parts :: "nat \<Rightarrow> nat \<Rightarrow> u8 list \<Rightarrow> log_part list option" where
  "log_parts size' k bs =
     (if bs = [] then Some []
      else if length bs < 16 then None
      else
        let hlen = field 2 2 bs; hoffset = field 8 8 bs in
        if unat (hd bs) = PSYNC_CRYPTO_LOG_DATA then
          if hlen > PSYNC_CRYPTO_SECTOR_SIZE \<or> k \<noteq> 0 then None
          else if (hoffset + hlen) mod 2 ^ 64 > size' then log_parts size' k (drop (16 + hlen) bs)
          else if length bs < 16 + hlen then None
          else map_option (Cons (LData hoffset (take hlen (drop 16 bs)))) (log_parts size' k (drop (16 + hlen) bs))
        else if unat (hd bs) = PSYNC_CRYPTO_LOG_INT then
          map_option (Cons (LInt hoffset (field 4 4 bs + hlen * 2 ^ 32))) (log_parts size' (if k + 1 \<ge> 256 then 0 else k + 1) (drop 16 bs))
        else None)"
  by auto
termination by (relation "measure (\<lambda>(size', k, bs). length bs)") auto

declare log_parts.simps [simp del]

fun part_data :: "log_part \<Rightarrow> u8 list \<Rightarrow> u8 list" where
  "part_data (LData off b) d = (if b = [] then d else patch 0 off b d)"
| "part_data (LInt off len) d = d"

fun part_record :: "log_part \<Rightarrow> recs" where
  "part_record (LData off b) = []"
| "part_record (LInt off len) = [(of_nat off, of_nat len)]"

fun part_touches :: "log_part \<Rightarrow> nat set" where
  "part_touches (LData off b) = {off..<off + length b}"
| "part_touches (LInt off len) = {}"

definition touched :: "log_part list \<Rightarrow> nat set" where
  "touched ps = (\<Union>p\<in>set ps. part_touches p)"

lemma touched_simps [simp]: "touched [] = {}" "touched (p # ps) = part_touches p \<union> touched ps"
  by (simp_all add: touched_def)

definition records_of :: "log_part list \<Rightarrow> recs" where
  "records_of ps = concat (map part_record ps)"

lemma records_of_simps [simp]: "records_of [] = []" "records_of (p # ps) = part_record p @ records_of ps"
  by (simp_all add: records_of_def)

text \<open>A byte of a file, zero from its end on.\<close>

definition byte :: "u8 list \<Rightarrow> nat \<Rightarrow> u8" where
  "byte d k = (if k < length d then d ! k else 0)"

lemma byte_patch: "byte (patch 0 off b d) k = (if off \<le> k \<and> k < off + length b then b ! (k - off) else byte d k)"
  by (auto simp: byte_def nth_patch)

lemma byte_resize: "byte (resize 0 n d) k = (if k < n then byte d k else 0)"
  by (auto simp: byte_def nth_resize)

lemma resize_cong: "\<forall>k<n. byte d k = byte d' k \<Longrightarrow> resize 0 n d = resize 0 n d'"
  by (intro nth_equalityI) (auto simp: nth_resize byte_def)

lemma byte_parts:
  "k \<notin> touched ps \<longrightarrow> byte d k = byte d' k \<Longrightarrow> byte (fold part_data ps d) k = byte (fold part_data ps d') k"
proof (induction ps arbitrary: d d')
  case (Cons p ps)
  have "k \<notin> touched ps \<longrightarrow> byte (part_data p d) k = byte (part_data p d') k"
    using Cons.prems by (cases p) (auto simp: byte_patch)
  then show ?case using Cons.IH by simp
qed simp

lemma length_parts_eq: "length d = length d' \<Longrightarrow> length (fold part_data ps d) = length (fold part_data ps d')"
proof (induction ps arbitrary: d d')
  case (Cons p ps)
  have "length (part_data p d) = length (part_data p d')" using Cons.prems by (cases p) simp_all
  from Cons.IH [OF this] show ?case by simp
qed simp

section \<open>Applying the parts\<close>

text \<open>The operating system does all it is asked.\<close>

definition replay_ok :: "replay_io \<Rightarrow> bool" where
  "replay_ok r \<longleftrightarrow> rl_trunc r \<and> rl_trunc_index r \<and> rl_trunc_end r \<and> (\<forall>k. \<exists>n\<ge>2 ^ 16. rl_data r k = IoWrote n) \<and> (\<forall>k. rl_index r k)"

lemma field_less: "field n off b < 256 ^ n"
proof -
  have "le_load (take n (drop off b)) < 256 ^ length (take n (drop off b))" by (rule le_load_less)
  also have "\<dots> \<le> 256 ^ n" by (intro power_increasing) auto
  finally show ?thesis by (simp add: field_def)
qed

lemma hdr_fields:
  "16 \<le> length bs \<Longrightarrow> field 2 2 (take 16 bs) = field 2 2 bs \<and> field 4 4 (take 16 bs) = field 4 4 bs
    \<and> field 8 8 (take 16 bs) = field 8 8 bs \<and> hd (take 16 bs) = hd bs"
  by (cases bs) (auto simp: field_def drop_take)

lemma write_whole:
  assumes "replay_ok r" "length b < 2 ^ 16"
  shows "psync_file_pwrite (rl_data r k) b off d = (int (length b), part_data (LData off b) d)"
proof -
  obtain n where "rl_data r k = IoWrote n" "2 ^ 16 \<le> n" using assms(1) by (auto simp: replay_ok_def)
  then show ?thesis using assms(2) by (simp add: psync_file_pwrite_def)
qed

lemma flush_ok:
  "replay_ok r \<Longrightarrow> length i = ioff \<Longrightarrow> flush_records (rl_index r off) records ioff (Some i) = (Some (i @ records), True)"
  using patch_end [of "(0, 0)" i records] by (simp add: flush_records_def replay_ok_def)

text \<open>Without failures the parts are applied in order and the index gets the records of the intervals.\<close>

lemma process_records_ok:
  assumes r: "replay_ok r"
  shows "log_parts size' (length records) (drop off lf) = Some ps \<Longrightarrow> length i = ioff \<Longrightarrow>
    process_records r lf size' off d (Some i) records ioff = (Some 0, fold part_data ps d, Some (i @ records @ records_of ps))"
proof (induction "length lf - off" arbitrary: off ps d i records ioff rule: less_induct)
  case less
  let ?bs = "drop off lf"
  note P = less.prems(1) [unfolded log_parts.simps [of _ _ ?bs]]
  show ?case
  proof (cases "?bs = []")
    case True
    then have "ps = []" "pread lf 16 off = []" using P by (simp_all add: pread_def)
    then show ?thesis using flush_ok [OF r less.prems(2)] less.prems(2) by (subst process_records.simps) (simp add: Let_def)
  next
    case False
    then have l16: "16 \<le> length ?bs" using P by (auto split: if_splits)
    then have off: "off + 16 \<le> length lf" by simp
    have h: "pread lf 16 off = take 16 ?bs" by (simp add: pread_def)
    have h0: "take 16 ?bs \<noteq> []" "length (take 16 ?bs) = 16" using False l16 by auto
    note hf = hdr_fields [OF l16]
    let ?hlen = "field 2 2 ?bs" and ?ho = "field 8 8 ?bs"
    have hl: "?hlen < 2 ^ 16" using field_less [of 2 2 ?bs] by simp
    consider (data) "unat (hd ?bs) = PSYNC_CRYPTO_LOG_DATA"
      | (int) "unat (hd ?bs) = PSYNC_CRYPTO_LOG_INT" "unat (hd ?bs) \<noteq> PSYNC_CRYPTO_LOG_DATA"
      using P False l16 by (auto simp: Let_def split: if_splits)
    then show ?thesis
    proof cases
      case data
      then have g: "\<not> PSYNC_CRYPTO_SECTOR_SIZE < ?hlen" "records = []" using P False l16 by (auto simp: Let_def split: if_splits)
      show ?thesis
      proof (cases "(?ho + ?hlen) mod 2 ^ 64 > size'")
        case True
        then have "log_parts size' (length records) (drop (off + 16 + ?hlen) lf) = Some ps"
          using P False l16 data g by (simp add: Let_def ac_simps)
        from less.hyps [OF _ this less.prems(2)] off
        have "process_records r lf size' (off + 16 + ?hlen) d (Some i) records ioff = (Some 0, fold part_data ps d, Some (i @ records @ records_of ps))"
          by simp
        then show ?thesis using True data h0 hf g by (subst process_records.simps) (simp add: h Let_def)
      next
        case F: False
        then obtain qs where q: "length ?bs \<ge> 16 + ?hlen" "ps = LData ?ho (take ?hlen (drop 16 ?bs)) # qs"
          "log_parts size' (length records) (drop (off + 16 + ?hlen) lf) = Some qs"
          using P False l16 data g by (auto simp: Let_def ac_simps split: if_splits)
        let ?b = "take ?hlen (drop 16 ?bs)"
        have b: "pread lf ?hlen (off + 16) = ?b" "length ?b = ?hlen" using q(1) by (auto simp: pread_def ac_simps)
        from less.hyps [OF _ q(3) less.prems(2), of "part_data (LData ?ho ?b) d"] off
        have "process_records r lf size' (off + 16 + ?hlen) (part_data (LData ?ho ?b) d) (Some i) records ioff
            = (Some 0, fold part_data ps d, Some (i @ records @ records_of ps))"
          unfolding q(2) by simp
        then show ?thesis using F data h0 hf g write_whole [OF r, of ?b "off + 16" ?ho d] hl b
          by (subst process_records.simps) (simp add: h Let_def)
      qed
    next
      case int
      let ?rec = "(of_nat ?ho, of_nat (field 4 4 ?bs + ?hlen * 2 ^ 32)) :: u64 \<times> u64"
      obtain qs where q: "ps = LInt ?ho (field 4 4 ?bs + ?hlen * 2 ^ 32) # qs" "log_parts size' (if length records + 1 \<ge> 256 then 0 else length records + 1) (drop (off + 16) lf) = Some qs"
        using P False l16 int by (auto simp: Let_def ac_simps)
      show ?thesis
      proof (cases "length (records @ [?rec]) \<ge> 256")
        case True
        then have "log_parts size' (length ([] :: recs)) (drop (off + 16) lf) = Some qs" using q(2) by simp
        from less.hyps [OF _ this, of "i @ records @ [?rec]" "ioff + length (records @ [?rec])" d] off less.prems(2)
        have "process_records r lf size' (off + 16) d (Some (i @ records @ [?rec])) [] (ioff + length (records @ [?rec]))
            = (Some 0, fold part_data ps d, Some (i @ records @ records_of ps))"
          unfolding q(1) by simp
        then show ?thesis using True int h0 hf flush_ok [OF r less.prems(2), of "off + 16" "records @ [?rec]"]
          by (subst process_records.simps) (simp add: h Let_def)
      next
        case F: False
        then have "log_parts size' (length (records @ [?rec])) (drop (off + 16) lf) = Some qs" using q(2) by simp
        from less.hyps [OF _ this less.prems(2), of d] off
        have "process_records r lf size' (off + 16) d (Some i) (records @ [?rec]) ioff
            = (Some 0, fold part_data ps d, Some (i @ records @ records_of ps))"
          unfolding q(1) by simp
        then show ?thesis using F int h0 hf by (subst process_records.simps) (simp add: h Let_def)
      qed
    qed
  qed
qed

text \<open>One step, on what is left of the log.\<close>

lemma process_records_step:
  fixes lf off
  defines "bs \<equiv> drop off lf"
  defines "hlen \<equiv> field 2 2 bs" and "ho \<equiv> field 8 8 bs"
  shows "process_records r lf size' off d ifd records ioff =
    (if bs = [] then
       if records \<noteq> [] then let (ifd, ok) = flush_records (rl_index r off) records ioff ifd in (Some (if ok then 0 else -1), d, ifd)
       else (Some 0, d, ifd)
     else if length bs < 16 then (Some (-1), d, ifd)
     else if unat (hd bs) = PSYNC_CRYPTO_LOG_DATA then
       if hlen > PSYNC_CRYPTO_SECTOR_SIZE \<or> records \<noteq> [] then (None, d, ifd)
       else if (ho + hlen) mod 2 ^ 64 > size' then process_records r lf size' (off + 16 + hlen) d ifd records ioff
       else if length bs < 16 + hlen then (Some (-1), d, ifd)
       else
         let (wr, d) = psync_file_pwrite (rl_data r (off + 16)) (take hlen (drop 16 bs)) ho d in
         if wr \<noteq> int hlen then (Some (-1), d, ifd) else process_records r lf size' (off + 16 + hlen) d ifd records ioff
     else if unat (hd bs) = PSYNC_CRYPTO_LOG_INT then
       if ifd = None then (None, d, ifd) else
       let records = records @ [(of_nat ho, of_nat (field 4 4 bs + hlen * 2 ^ 32))] in
       if length records \<ge> 256 then
         let (ifd, ok) = flush_records (rl_index r (off + 16)) records ioff ifd in
         if \<not> ok then (Some (-1), d, ifd) else process_records r lf size' (off + 16) d ifd [] (ioff + length records)
       else process_records r lf size' (off + 16) d ifd records ioff
     else (Some (-1), d, ifd))"
proof -
  have h: "pread lf 16 off = take 16 bs" by (simp add: pread_def bs_def)
  have b: "pread lf hlen (off + 16) = take hlen (drop 16 bs)" by (simp add: pread_def bs_def ac_simps)
  have l: "length (take hlen (drop 16 bs)) = hlen \<longleftrightarrow> \<not> length bs < 16 + hlen" if "16 \<le> length bs" using that by auto
  show ?thesis
  proof (cases "16 \<le> length bs")
    case True
    then have "bs \<noteq> []" "take 16 bs \<noteq> []" "length (take 16 bs) = 16" by auto
    then show ?thesis
      using hdr_fields [OF True] l [OF True] True b unfolding hlen_def ho_def
      by (subst process_records.simps) (simp add: h Let_def)
  next
    case False
    then have "length (take 16 bs) \<noteq> 16" "take 16 bs = [] \<longleftrightarrow> bs = []" by auto
    then show ?thesis using False by (subst process_records.simps) (simp add: h Let_def)
  qed
qed

lemma log_parts_step:
  fixes lf off
  defines "bs \<equiv> drop off lf"
  defines "hlen \<equiv> field 2 2 bs" and "ho \<equiv> field 8 8 bs"
  shows "log_parts size' k bs =
    (if bs = [] then Some []
     else if length bs < 16 then None
     else if unat (hd bs) = PSYNC_CRYPTO_LOG_DATA then
       if hlen > PSYNC_CRYPTO_SECTOR_SIZE \<or> k \<noteq> 0 then None
       else if (ho + hlen) mod 2 ^ 64 > size' then log_parts size' k (drop (off + 16 + hlen) lf)
       else if length bs < 16 + hlen then None
       else map_option (Cons (LData ho (take hlen (drop 16 bs)))) (log_parts size' k (drop (off + 16 + hlen) lf))
     else if unat (hd bs) = PSYNC_CRYPTO_LOG_INT then
       map_option (Cons (LInt ho (field 4 4 bs + hlen * 2 ^ 32))) (log_parts size' (if k + 1 \<ge> 256 then 0 else k + 1) (drop (off + 16) lf))
     else None)"
  by (subst log_parts.simps) (simp add: Let_def bs_def hlen_def ho_def ac_simps)

lemma write_touches:
  "psync_file_pwrite io b off d = (wr, d') \<Longrightarrow> \<not> (off \<le> k \<and> k < off + length b) \<Longrightarrow> byte d' k = byte d k"
  by (auto simp: psync_file_pwrite_def byte_patch split: io.splits if_splits)

text \<open>A run that fails anywhere has changed only bytes that the log writes.\<close>

lemma process_records_touches:
  "process_records r lf size' off d ifd records ioff = (ret, d', i') \<Longrightarrow> log_parts size' (length records) (drop off lf) = Some ps \<Longrightarrow>
   (\<forall>k. k \<notin> touched ps \<longrightarrow> byte d' k = byte d k) \<and> (i' = None \<longleftrightarrow> ifd = None)"
proof (induction "length lf - off" arbitrary: off ps d ifd records ioff rule: less_induct)
  case less
  let ?bs = "drop off lf"
  let ?hlen = "field 2 2 ?bs" and ?ho = "field 8 8 ?bs"
  note S = less.prems(1) [unfolded process_records_step [of r lf size' off]] and P = less.prems(2) [unfolded log_parts_step [of size' "length records" off lf]]
  have fl: "i1 = None \<longleftrightarrow> ifd = None" if "flush_records ok rs io ifd = (i1, x)" for ok rs io i1 x
    using that by (auto simp: flush_records_def split: option.splits if_splits)
  show ?case
  proof (cases "?bs = []")
    case True
    then show ?thesis using S fl by (auto split: if_splits prod.splits)
  next
    case False
    then have l16: "\<not> length ?bs < 16" and off: "length lf - (off + 16 + n) < length lf - off" for n
      using P by (auto split: if_splits)
    show ?thesis
    proof (cases "unat (hd ?bs) = PSYNC_CRYPTO_LOG_DATA")
      case data: True
      then have g: "\<not> PSYNC_CRYPTO_SECTOR_SIZE < ?hlen" "records = []" using P False l16 by (auto split: if_splits)
      show ?thesis
      proof (cases "(?ho + ?hlen) mod 2 ^ 64 > size'")
        case True
        then show ?thesis using less.hyps [OF off, of ?hlen d ifd records ioff ps] S P data g False l16 by simp
      next
        case F: False
        let ?b = "take ?hlen (drop 16 ?bs)"
        obtain qs where q: "ps = LData ?ho ?b # qs" "log_parts size' (length records) (drop (off + 16 + ?hlen) lf) = Some qs" "\<not> length ?bs < 16 + ?hlen"
          using P data g F False l16 by (auto split: if_splits)
        obtain wr d1 where w: "psync_file_pwrite (rl_data r (off + 16)) ?b ?ho d = (wr, d1)" by fastforce
        have b: "byte d1 k = byte d k" if "k \<notin> touched ps" for k using write_touches [OF w] that q(1) by simp
        show ?thesis
        proof (cases "wr = int ?hlen")
          case True
          then have "process_records r lf size' (off + 16 + ?hlen) d1 ifd records ioff = (ret, d', i')"
            using S data g F False l16 q(3) w by simp
          from less.hyps [OF off this q(2)] show ?thesis using b q(1) by auto
        next
          case fail: False
          then show ?thesis using S data g F False l16 q(3) w b by simp
        qed
      qed
    next
      case nd: False
      then have int: "unat (hd ?bs) = PSYNC_CRYPTO_LOG_INT" using P False l16 by (auto split: if_splits)
      let ?rs = "records @ [(of_nat ?ho, of_nat (field 4 4 ?bs + ?hlen * 2 ^ 32))]"
      obtain qs where q: "ps = LInt ?ho (field 4 4 ?bs + ?hlen * 2 ^ 32) # qs" "log_parts size' (if length records + 1 \<ge> 256 then 0 else length records + 1) (drop (off + 16) lf) = Some qs"
        using P False l16 nd int by auto
      obtain i1 x where f: "flush_records (rl_index r (off + 16)) ?rs ioff ifd = (i1, x)" by fastforce
      note off0 = off [of 0, unfolded add_0_right]
      show ?thesis
      proof (cases "ifd = None")
        case True
        then show ?thesis using S nd int False l16 by simp
      next
        case some: False
        show ?thesis
        proof (cases "length ?rs \<ge> 256")
          case True
          then have q0: "log_parts size' (length ([] :: recs)) (drop (off + 16) lf) = Some qs" using q(2) by simp
          have "if x then process_records r lf size' (off + 16) d i1 [] (ioff + length ?rs) = (ret, d', i') else d' = d \<and> i' = i1"
            using S nd int False l16 f True some by (auto simp: Let_def split: if_splits)
          then show ?thesis using less.hyps [OF off0 _ q0, of d i1 "ioff + length ?rs"] fl [OF f] q(1) by (cases x) auto
        next
          case F: False
          then have q1: "log_parts size' (length ?rs) (drop (off + 16) lf) = Some qs" using q(2) by simp
          have "process_records r lf size' (off + 16) d ifd ?rs ioff = (ret, d', i')"
            using S nd int False l16 F some by (auto simp: Let_def split: if_splits)
          from less.hyps [OF off0 this q1] show ?thesis using q(1) by simp
        qed
      qed
    qed
  qed
qed

text \<open>A log that can be applied has parts, and with intervals in it there is an index file.\<close>

lemma process_records_parts:
  "process_records r lf size' off d ifd records ioff = (Some 0, d', i') \<Longrightarrow>
   \<exists>ps. log_parts size' (length records) (drop off lf) = Some ps \<and> (ifd = None \<longrightarrow> records @ records_of ps = [])"
proof (induction "length lf - off" arbitrary: off d ifd records ioff rule: less_induct)
  case less
  let ?bs = "drop off lf"
  let ?hlen = "field 2 2 ?bs" and ?ho = "field 8 8 ?bs"
  note S = less.prems(1) [unfolded process_records_step [of r lf size' off]] and P = log_parts_step [of size' "length records" off lf]
  have fl: "ok \<and> ifd \<noteq> None \<and> i1 \<noteq> None" if "flush_records ok rs io ifd = (i1, True)" for ok rs io i1
    using that by (auto simp: flush_records_def split: option.splits if_splits)
  show ?case
  proof (cases "?bs = []")
    case True
    then show ?thesis using S fl P by (cases "records = []") (auto split: if_splits prod.splits)
  next
    case False
    then have l16: "\<not> length ?bs < 16" and off: "length lf - (off + 16 + n) < length lf - off" for n
      using S by (auto split: if_splits)
    show ?thesis
    proof (cases "unat (hd ?bs) = PSYNC_CRYPTO_LOG_DATA")
      case data: True
      then have g: "\<not> PSYNC_CRYPTO_SECTOR_SIZE < ?hlen" "records = []" using S False l16 by (auto split: if_splits)
      show ?thesis
      proof (cases "(?ho + ?hlen) mod 2 ^ 64 > size'")
        case True
        then show ?thesis using less.hyps [OF off, of ?hlen d ifd records ioff] S P data g False l16 by simp
      next
        case F: False
        let ?b = "take ?hlen (drop 16 ?bs)"
        obtain wr d1 where w: "psync_file_pwrite (rl_data r (off + 16)) ?b ?ho d = (wr, d1)" by fastforce
        have q: "\<not> length ?bs < 16 + ?hlen" "process_records r lf size' (off + 16 + ?hlen) d1 ifd records ioff = (Some 0, d', i')"
          using S data g F False l16 w by (auto split: if_splits)
        from less.hyps [OF off q(2)] show ?thesis using P data g F False l16 q(1) by auto
      qed
    next
      case nd: False
      then have int: "unat (hd ?bs) = PSYNC_CRYPTO_LOG_INT" using S False l16 by (auto split: if_splits)
      let ?rs = "records @ [(of_nat ?ho, of_nat (field 4 4 ?bs + ?hlen * 2 ^ 32))]"
      obtain i1 x where f: "flush_records (rl_index r (off + 16)) ?rs ioff ifd = (i1, x)" by fastforce
      note off0 = off [of 0, unfolded add_0_right]
      have some: "ifd \<noteq> None" using S nd int False l16 by (auto split: if_splits)
      show ?thesis
      proof (cases "length ?rs \<ge> 256")
        case True
        then have x: "process_records r lf size' (off + 16) d i1 [] (ioff + length ?rs) = (Some 0, d', i')"
          using S nd int False l16 f some by (auto simp: Let_def split: if_splits)
        from less.hyps [OF off0 x] show ?thesis using True P nd int False l16 some by auto
      next
        case F: False
        then have x: "process_records r lf size' (off + 16) d ifd ?rs ioff = (Some 0, d', i')"
          using S nd int False l16 some F by (auto simp: Let_def split: if_splits)
        from less.hyps [OF off0 x] show ?thesis using F P nd int False l16 some by auto
      qed
    qed
  qed
qed

lemma process_records_plain:
  assumes r: "replay_ok r"
  shows "log_parts size' (0) (drop off lf) = Some ps \<Longrightarrow> records_of ps = [] \<Longrightarrow>
    process_records r lf size' off d ifd [] ioff = (Some 0, fold part_data ps d, ifd)"
proof (induction "length lf - off" arbitrary: off ps d rule: less_induct)
  case less
  let ?bs = "drop off lf"
  let ?hlen = "field 2 2 ?bs" and ?ho = "field 8 8 ?bs"
  note P = less.prems(1) [unfolded log_parts_step [of size' 0 off lf]] and S = process_records_step [of r lf size' off d ifd "[]" ioff]
  show ?case
  proof (cases "?bs = []")
    case True
    then show ?thesis using S P by simp
  next
    case False
    then have l16: "\<not> length ?bs < 16" and off: "length lf - (off + 16 + n) < length lf - off" for n
      using P by (auto split: if_splits)
    have hl: "?hlen < 2 ^ 16" using field_less [of 2 2 ?bs] by simp
    have data: "unat (hd ?bs) = PSYNC_CRYPTO_LOG_DATA" using P False l16 less.prems(2) by (auto split: if_splits)
    then have g: "\<not> PSYNC_CRYPTO_SECTOR_SIZE < ?hlen" using P False l16 by (auto split: if_splits)
    show ?thesis
    proof (cases "(?ho + ?hlen) mod 2 ^ 64 > size'")
      case True
      then show ?thesis using less.hyps [OF off, of ?hlen ps] S P data g False l16 less.prems(2) by simp
    next
      case F: False
      let ?b = "take ?hlen (drop 16 ?bs)"
      obtain qs where q: "ps = LData ?ho ?b # qs" "log_parts size' (0) (drop (off + 16 + ?hlen) lf) = Some qs" "\<not> length ?bs < 16 + ?hlen"
        using P data g F False l16 by (auto split: if_splits)
      have b: "length ?b = ?hlen" using q(3) by auto
      then show ?thesis
        using less.hyps [OF off q(2), of "part_data (LData ?ho ?b) d"] less.prems(2) q(1,3) S data g F False l16 hl
          write_whole [OF r, of ?b "off + 16" ?ho d] by simp
    qed
  qed
qed

lemma process_records_any:
  assumes "replay_ok r" "log_parts size' (0) (drop off lf) = Some ps" "ifd = None \<longrightarrow> records_of ps = []"
  shows "process_records r lf size' off d (map_option (\<lambda>_. []) ifd) [] 0 = (Some 0, fold part_data ps d, map_option (\<lambda>_. records_of ps) ifd)"
  using process_records_ok [of r size' "[]" off lf ps "[]" 0 d] process_records_plain [OF assms(1,2), of d None 0] assms(3)
  by (cases ifd) (auto simp: assms(1,2))

section \<open>Crashes\<close>

definition log_size :: "u8 list \<Rightarrow> nat" where
  "log_size lf = field 8 16 (pread lf 64 0)"

definition log_content :: "u8 list \<Rightarrow> log_part list" where
  "log_content lf = the (log_parts (log_size lf) 0 (drop PSYNC_CRYPTO_SECTOR_SIZE lf))"

text \<open>What the first sector must say.\<close>

definition log_valid :: "bytes_hash \<Rightarrow> bytes_crc \<Rightarrow> bool \<Rightarrow> u8 list \<Rightarrow> bool" where
  "log_valid fhash crc checkhash lf \<longleftrightarrow>
     (let mr = pread lf 64 0 in
      length mr = 64 \<and> field 4 0 mr = PSYNC_LOG_STATUS_FINALIZED \<and> field 8 8 mr = length lf
      \<and> field 4 56 mr = unat (crc (take 56 mr)) \<and> (checkhash \<longrightarrow> psync_fs_crypto_check_log_hash fhash lf mr = 0))"

lemma process_log_unfold:
  "psync_fs_crypto_process_log fhash crc r checkhash lf d i =
     (if \<not> log_valid fhash crc checkhash lf \<or> \<not> rl_trunc r then (Some (-1), d, i)
      else if i \<noteq> None \<and> \<not> rl_trunc_index r then (Some (-1), resize 0 (log_size lf) d, i)
      else
        let (ret, d, i) = process_records r lf (log_size lf) PSYNC_CRYPTO_SECTOR_SIZE (resize 0 (log_size lf) d) (map_option (\<lambda>_. []) i) [] 0 in
        if ret \<noteq> Some 0 then (ret, d, i) else if \<not> rl_trunc_end r then (Some (-1), d, i) else (Some 0, resize 0 (log_size lf) d, i))"
  unfolding psync_fs_crypto_process_log_def log_valid_def log_size_def Let_def by auto

lemma process_log_parts:
  assumes "psync_fs_crypto_process_log fhash crc r checkhash lf d i = (Some 0, d1, i1)" "replay_ok r"
  shows "log_valid fhash crc checkhash lf" "log_parts (log_size lf) 0 (drop PSYNC_CRYPTO_SECTOR_SIZE lf) = Some (log_content lf)"
    "i = None \<longrightarrow> records_of (log_content lf) = []"
    "d1 = resize 0 (log_size lf) (fold part_data (log_content lf) (resize 0 (log_size lf) d))"
    "i1 = map_option (\<lambda>_. records_of (log_content lf)) i"
proof -
  note U = assms(1) [unfolded process_log_unfold]
  show v: "log_valid fhash crc checkhash lf" using U by (auto split: if_splits)
  obtain d2 i2 where p: "process_records r lf (log_size lf) PSYNC_CRYPTO_SECTOR_SIZE (resize 0 (log_size lf) d)
      (map_option (\<lambda>_. []) i) [] 0 = (Some 0, d2, i2)" "d1 = resize 0 (log_size lf) d2" "i1 = i2"
    using U by (auto split: if_splits prod.splits)
  from process_records_parts [OF p(1)] obtain ps where ps: "log_parts (log_size lf) 0 (drop PSYNC_CRYPTO_SECTOR_SIZE lf) = Some ps"
    "i = None \<longrightarrow> records_of ps = []" by auto
  then have c: "log_content lf = ps" by (simp add: log_content_def)
  show "log_parts (log_size lf) 0 (drop PSYNC_CRYPTO_SECTOR_SIZE lf) = Some (log_content lf)" "i = None \<longrightarrow> records_of (log_content lf) = []"
    using ps c by auto
  show "d1 = resize 0 (log_size lf) (fold part_data (log_content lf) (resize 0 (log_size lf) d))"
    "i1 = map_option (\<lambda>_. records_of (log_content lf)) i"
    using process_records_any [OF assms(2) ps, of "resize 0 (log_size lf) d"] p c by auto
qed

lemma process_log_ok:
  assumes "replay_ok r" "log_valid fhash crc checkhash lf"
    "log_parts (log_size lf) 0 (drop PSYNC_CRYPTO_SECTOR_SIZE lf) = Some ps" "i = None \<longrightarrow> records_of ps = []"
  shows "psync_fs_crypto_process_log fhash crc r checkhash lf d i
    = (Some 0, resize 0 (log_size lf) (fold part_data ps (resize 0 (log_size lf) d)), map_option (\<lambda>_. records_of ps) i)"
  using assms(1,2) process_records_any [OF assms(1,3,4)] by (simp add: process_log_unfold replay_ok_def)

lemma crash:
  assumes "replay_ok r" "psync_fs_crypto_process_log fhash crc r checkhash lf d i = (Some 0, d1, i1)"
    "\<forall>k<log_size lf. k \<notin> touched (log_content lf) \<longrightarrow> byte d' k = byte d k" "i' = None \<longleftrightarrow> i = None"
  shows "psync_fs_crypto_process_log fhash crc r checkhash lf d' i' = (Some 0, d1, i1)"
proof -
  note p = process_log_parts [OF assms(2,1)]
  let ?n = "log_size lf" and ?ps = "log_content lf"
  have "byte (fold part_data ?ps (resize 0 ?n d')) k = byte (fold part_data ?ps (resize 0 ?n d)) k" for k
    using assms(3) by (intro byte_parts) (auto simp: byte_resize)
  then have "resize 0 ?n (fold part_data ?ps (resize 0 ?n d')) = d1" unfolding p(4) by (intro resize_cong) simp
  moreover have "map_option (\<lambda>_. records_of ?ps) i' = i1" using assms(4) unfolding p(5) by (cases i; cases i') auto
  ultimately show ?thesis using process_log_ok [OF assms(1) p(1,2), of i' d'] p(3) assms(4) by simp
qed

lemma interrupted:
  assumes "replay_ok r" "psync_fs_crypto_process_log fhash crc r checkhash lf d i = (Some 0, d1, i1)"
    "psync_fs_crypto_process_log fhash crc r' checkhash' lf d i = (ret, d', i')"
  shows "psync_fs_crypto_process_log fhash crc r checkhash lf d' i' = (Some 0, d1, i1)"
proof -
  note p = process_log_parts [OF assms(2,1)]
  let ?n = "log_size lf"
  have t: "(\<forall>k. k \<notin> touched (log_content lf) \<longrightarrow> byte d2 k = byte (resize 0 ?n d) k) \<and> (i2 = None \<longleftrightarrow> i = None)"
    if "process_records r' lf ?n PSYNC_CRYPTO_SECTOR_SIZE (resize 0 ?n d) (map_option (\<lambda>_. []) i) [] 0 = (ret2, d2, i2)" for ret2 d2 i2
    using process_records_touches [OF that, of "log_content lf"] p(2) by auto
  have "(\<forall>k<?n. k \<notin> touched (log_content lf) \<longrightarrow> byte d' k = byte d k) \<and> (i' = None \<longleftrightarrow> i = None)"
    using assms(3) t unfolding process_log_unfold by (auto simp: byte_resize split: if_splits prod.splits)
  then show ?thesis using crash [OF assms(1,2)] by blast
qed

end
