(* ===== verification/CryptoLogUse.thy ===== *)
theory CryptoLogUse
  imports CryptoLogView
begin

text \<open>
  Logs from their first byte to their last application: a log that was written and made final does to the
  files what was written to it, one that was not made final does nothing, and the start of the program
  applies and removes the logs it finds; it also computes the number of a task from the name of a log.
\<close>

section \<open>Writing a log without failures\<close>

definition done_io :: io where "done_io = IoWrote (2 ^ 16)"

definition log_is :: "log_t \<Rightarrow> u8 list \<Rightarrow> bool" where
  "log_is l bs \<longleftrightarrow> logfile l = replicate PSYNC_CRYPTO_SECTOR_SIZE 0xff @ bs
     \<and> logoffset l = PSYNC_CRYPTO_SECTOR_SIZE + length bs \<and> loghashctx l = bs"

lemma init_log_is: "logfile l = [] \<Longrightarrow> \<exists>l'. psync_fs_crypto_init_log done_io l = (0, l') \<and> log_is l' []"
  by (simp add: psync_fs_crypto_init_log_def psync_file_pwrite_def done_io_def log_is_def patch_def PSYNC_CRYPTO_SECTOR_SIZE_def)

lemma log_append_is:
  assumes "log_is l bs" "length b \<le> 2 ^ 16"
  shows "\<exists>l'. log_append done_io b l = (0, l') \<and> log_is l' (bs @ b)"
proof (cases "b = []")
  case True
  then show ?thesis using assms by (simp add: log_append_def psync_file_pwrite_def done_io_def)
next
  case False
  have "patch 0 (logoffset l) b (logfile l) = logfile l @ b"
    using assms(1) patch_end [of 0 "logfile l" b] by (simp add: log_is_def)
  then show ?thesis using assms False
    by (simp add: log_append_def psync_file_pwrite_def done_io_def log_is_def)
qed

definition sector_record :: "u32 \<times> u8 list \<Rightarrow> u8 list" where
  "sector_record s = log_header PSYNC_CRYPTO_LOG_DATA 0 (length (snd s)) 0 (unat (psync_fs_crypto_data_offset_by_sectorid (fst s))) @ snd s"

lemma length_log_header [simp]: "length (log_header t j a b c) = 16"
  by (simp add: log_header_def)

lemma log_header_not_Nil [simp]: "log_header t j a b c \<noteq> []"
  by (simp add: log_header_def)

primrec write_sectors :: "(u32 \<times> u8 list) list \<Rightarrow> log_t \<Rightarrow> int \<times> log_t" where
  "write_sectors [] l = (0, l)"
| "write_sectors (s # ss) l =
     (let (ret, l) = psync_fs_crypto_write_newfile_full_sector done_io True done_io (snd s) (fst s) l in
      if ret \<noteq> 0 then (ret, l) else write_sectors ss l)"

lemma write_sectors_is:
  "log_is l bs \<Longrightarrow> \<forall>s\<in>set ss. length (snd s) \<le> PSYNC_CRYPTO_SECTOR_SIZE \<Longrightarrow>
   \<exists>l'. write_sectors ss l = (0, l') \<and> log_is l' (bs @ concat (map sector_record ss))"
proof (induction ss arbitrary: l bs)
  case (Cons s ss)
  have "length (sector_record s) \<le> 2 ^ 16" using Cons.prems(2) by (simp add: sector_record_def PSYNC_CRYPTO_SECTOR_SIZE_def)
  from log_append_is [OF Cons.prems(1) this] obtain l1 where
    l1: "log_append done_io (sector_record s) l = (0, l1)" "log_is l1 (bs @ sector_record s)" by blast
  have "psync_fs_crypto_write_newfile_full_sector done_io True done_io (snd s) (fst s) l = (0, l1)"
    using l1(1) by (simp add: psync_fs_crypto_write_newfile_full_sector_def sector_record_def)
  then show ?case using Cons.IH [OF l1(2)] Cons.prems(2) by simp
qed simp

lemma length_interval_headers: "length (concat (map (interval_header junk) ivs)) = 16 * length ivs"
  by (induction ivs) (simp_all add: interval_header_def Let_def)

lemma write_intervals_is:
  "log_is l bs \<Longrightarrow> \<exists>l'. psync_fs_write_interval_tree_to_log (\<lambda>_. done_io) junk ivs l = (0, l')
    \<and> log_is l' (bs @ concat (map (interval_header junk) ivs))"
proof (induction "length ivs" arbitrary: ivs l bs rule: less_induct)
  case less
  show ?case
  proof (cases "ivs = []")
    case True
    then show ?thesis using less.prems by (subst psync_fs_write_interval_tree_to_log.simps) simp
  next
    case False
    let ?b = "concat (map (interval_header junk) (take 256 ivs))"
    have "length ?b \<le> 2 ^ 16" by (simp add: length_interval_headers)
    from log_append_is [OF less.prems this] obtain l1 where
      l1: "log_append done_io ?b l = (0, l1)" "log_is l1 (bs @ ?b)" by blast
    have "length (drop 256 ivs) < length ivs" using False by simp
    from less.hyps [OF this l1(2)] obtain l2 where
      l2: "psync_fs_write_interval_tree_to_log (\<lambda>_. done_io) junk (drop 256 ivs) l1 = (0, l2)"
      "log_is l2 ((bs @ ?b) @ concat (map (interval_header junk) (drop 256 ivs)))" by blast
    have "(bs @ ?b) @ concat (map (interval_header junk) (drop 256 ivs)) = bs @ concat (map (interval_header junk) ivs)"
      by (simp flip: concat_append map_append)
    then show ?thesis using l1(1) l2 False by (subst psync_fs_write_interval_tree_to_log.simps) simp
  qed
qed

definition write_records :: "u8 \<Rightarrow> (u32 \<times> u8 list) list \<Rightarrow> recs \<Rightarrow> log_t \<Rightarrow> int \<times> log_t" where
  "write_records junk ss ivs l =
     (let (ret, l) = psync_fs_crypto_init_log done_io l in
      if ret \<noteq> 0 then (ret, l)
      else
        let (ret, l) = write_sectors ss l in
        if ret \<noteq> 0 then (ret, l) else psync_fs_write_interval_tree_to_log (\<lambda>_. done_io) junk ivs l)"

definition log_bytes :: "u8 \<Rightarrow> (u32 \<times> u8 list) list \<Rightarrow> recs \<Rightarrow> u8 list" where
  "log_bytes junk ss ivs = concat (map sector_record ss) @ concat (map (interval_header junk) ivs)"

lemma write_records_is:
  assumes "logfile l = []" "\<forall>s\<in>set ss. length (snd s) \<le> PSYNC_CRYPTO_SECTOR_SIZE"
  shows "\<exists>l'. write_records junk ss ivs l = (0, l') \<and> log_is l' (log_bytes junk ss ivs)"
proof -
  obtain l1 where l1: "psync_fs_crypto_init_log done_io l = (0, l1)" "log_is l1 []" using init_log_is [OF assms(1)] by blast
  obtain l2 where l2: "write_sectors ss l1 = (0, l2)" "log_is l2 (concat (map sector_record ss))"
    using write_sectors_is [OF l1(2) assms(2)] by auto
  show ?thesis using write_intervals_is [OF l2(2), of junk ivs] l1(1) l2(1) by (simp add: write_records_def log_bytes_def)
qed

definition write_log :: "bytes_hash \<Rightarrow> bytes_crc \<Rightarrow> u8 list \<Rightarrow> u8 \<Rightarrow> (u32 \<times> u8 list) list \<Rightarrow> recs \<Rightarrow> nat \<Rightarrow> log_t \<Rightarrow> int \<times> log_t" where
  "write_log fhash crc padding junk ss ivs filesize l =
     (let (ret, l) = write_records junk ss ivs l in
      if ret \<noteq> 0 then (ret, l) else psync_fs_crypto_mark_log_finalized fhash crc padding done_io filesize l)"

section \<open>Reading it back\<close>

lemma header_fields:
  assumes "a < 2 ^ 16" "b < 2 ^ 32" "c < 2 ^ 64"
  shows "field 2 2 (log_header t j a b c @ xs) = a" "field 4 4 (log_header t j a b c @ xs) = b"
    "field 8 8 (log_header t j a b c @ xs) = c" "hd (log_header t j a b c @ xs) = of_nat t"
  using assms by (simp_all add: field_def log_header_def le_load_store)

lemma log_parts_sector:
  assumes "length (snd s) \<le> PSYNC_CRYPTO_SECTOR_SIZE"
    "unat (psync_fs_crypto_data_offset_by_sectorid (fst s)) + length (snd s) \<le> size'" "size' < 2 ^ 64"
  shows "log_parts size' 0 (sector_record s @ xs)
    = map_option (Cons (LData (unat (psync_fs_crypto_data_offset_by_sectorid (fst s))) (snd s))) (log_parts size' 0 xs)"
proof -
  let ?o = "unat (psync_fs_crypto_data_offset_by_sectorid (fst s))"
  have l: "length (snd s) < 2 ^ 16" "?o < 2 ^ 64" using assms by (auto simp: PSYNC_CRYPTO_SECTOR_SIZE_def)
  note f = header_fields [OF l(1) _ l(2), of 0 PSYNC_CRYPTO_LOG_DATA 0 "snd s @ xs", simplified]
  have "(?o + length (snd s)) mod 2 ^ 64 = ?o + length (snd s)" using assms(2,3) by (intro mod_less) linarith
  then show ?thesis using assms(1,2) f unfolding sector_record_def
    by (subst log_parts.simps) (simp add: Let_def PSYNC_CRYPTO_LOG_DATA_def)
qed

lemma log_parts_interval:
  assumes "unat (snd x - fst x) < 2 ^ 48"
  shows "log_parts size' k (interval_header junk x @ xs)
    = map_option (Cons (LInt (unat (fst x)) (unat (snd x - fst x)))) (log_parts size' (if k + 1 \<ge> 256 then 0 else k + 1) xs)"
proof -
  let ?l = "snd x - fst x"
  have h: "unat (drop_bit 32 ?l) = unat ?l div 2 ^ 32" "unat (take_bit 32 ?l) = unat ?l mod 2 ^ 32"
    unfolding unat_drop_bit_eq unsigned_take_bit_eq by (simp_all only: drop_bit_eq_div take_bit_eq_mod)
  have b: "unat (drop_bit 32 ?l) < 2 ^ 16" "unat (take_bit 32 ?l) < 2 ^ 32" "unat (fst x) < 2 ^ 64"
    unfolding h using assms unsigned_less [of "fst x"] by (auto simp: less_mult_imp_div_less)
  note f = header_fields [OF b, of PSYNC_CRYPTO_LOG_INT junk xs]
  have s: "unat (take_bit 32 ?l) + unat (drop_bit 32 ?l) * 2 ^ 32 = unat ?l" unfolding h by simp
  show ?thesis using f s unfolding interval_header_def Let_def
    by (subst log_parts.simps) (simp add: Let_def PSYNC_CRYPTO_LOG_DATA_def PSYNC_CRYPTO_LOG_INT_def)
qed

definition sector_parts :: "(u32 \<times> u8 list) list \<Rightarrow> log_part list" where
  "sector_parts ss = map (\<lambda>s. LData (unat (psync_fs_crypto_data_offset_by_sectorid (fst s))) (snd s)) ss"

definition interval_parts :: "recs \<Rightarrow> log_part list" where
  "interval_parts ivs = map (\<lambda>x. LInt (unat (fst x)) (unat (snd x - fst x))) ivs"

lemma log_parts_bytes:
  assumes "\<forall>s\<in>set ss. length (snd s) \<le> PSYNC_CRYPTO_SECTOR_SIZE
      \<and> unat (psync_fs_crypto_data_offset_by_sectorid (fst s)) + length (snd s) \<le> size'"
    "\<forall>x\<in>set ivs. unat (snd x - fst x) < 2 ^ 48" "size' < 2 ^ 64"
  shows "log_parts size' 0 (log_bytes junk ss ivs) = Some (sector_parts ss @ interval_parts ivs)"
proof -
  have i: "log_parts size' k (concat (map (interval_header junk) ivs)) = Some (interval_parts ivs)" for k
    using assms(2)
  proof (induction ivs arbitrary: k)
    case Nil
    then show ?case by (subst log_parts.simps) (simp add: interval_parts_def)
  next
    case (Cons x ivs)
    then show ?case using log_parts_interval [of x size' k junk] by (simp add: interval_parts_def)
  qed
  show ?thesis unfolding log_bytes_def using assms(1)
  proof (induction ss)
    case Nil
    then show ?case using i by (simp add: sector_parts_def)
  next
    case (Cons s ss)
    then show ?case using log_parts_sector [of s size'] assms(3) by (simp add: sector_parts_def)
  qed
qed

lemma records_of_parts: "records_of (sector_parts ss @ interval_parts ivs) = map (\<lambda>x. (fst x, snd x - fst x)) ivs"
  by (simp add: records_of_def sector_parts_def interval_parts_def map_concat [symmetric] comp_def)

lemma fold_interval_parts: "fold part_data (interval_parts ivs) d = d"
  by (induction ivs) (simp_all add: interval_parts_def)

lemma reload_intervals: "ivl_ok ivs \<Longrightarrow> add_records (map (\<lambda>x. (fst x, snd x - fst x)) ivs) [] = Some ivs"
proof (induction ivs rule: rev_induct)
  case (snoc x ivs)
  have "\<forall>y\<in>set ivs. snd y < fst x" "ivl_ok ivs" "fst x < snd x" using snoc.prems by (cases x; auto simp: ivl_ok_append)+
  then show ?case using snoc.IH ivl_add_skip [of ivs "fst x" "snd x" "[]"] by simp
qed simp

section \<open>From the first byte to the last application\<close>

lemma final_log:
  assumes l: "log_is l bs" and h: "\<forall>b. length (fhash b) = 32" "length padding = 4"
    and n: "filesize < 2 ^ 64" "PSYNC_CRYPTO_SECTOR_SIZE + length bs < 2 ^ 64"
  shows "\<exists>l'. psync_fs_crypto_mark_log_finalized fhash crc padding done_io filesize l = (0, l')
    \<and> log_valid fhash crc True (logfile l') \<and> log_size (logfile l') = filesize \<and> drop PSYNC_CRYPTO_SECTOR_SIZE (logfile l') = bs"
proof -
  let ?ms = "master_start (fhash bs) (PSYNC_CRYPTO_SECTOR_SIZE + length bs) filesize"
  let ?m = "?ms @ le_store 4 (unat (crc ?ms)) @ padding"
  have l56: "length ?ms = 56" by (simp add: master_start_def h)
  have l64: "length ?m = 64" using l56 h(2) by simp
  let ?lf = "?m @ replicate (PSYNC_CRYPTO_SECTOR_SIZE - 64) 0xff @ bs"
  have p: "patch 0 0 ?m (logfile l) = ?lf" using l l64 by (simp add: patch_def log_is_def PSYNC_CRYPTO_SECTOR_SIZE_def)
  have ll: "length (logfile l) = PSYNC_CRYPTO_SECTOR_SIZE + length bs" "loghashctx l = bs" using l by (simp_all add: log_is_def)
  have "?m \<noteq> []" "take (2 ^ 16) ?m = ?m" using l64 by auto
  then have w: "psync_file_pwrite done_io ?m 0 (logfile l) = (64, ?lf)" using p l64 by (simp only: psync_file_pwrite_def done_io_def io.case if_False of_nat_numeral)
  have "psync_fs_crypto_mark_log_finalized fhash crc padding done_io filesize l = (0, l\<lparr>logfile := ?lf\<rparr>)"
    using w ll by (simp add: psync_fs_crypto_mark_log_finalized_def Let_def)
  moreover have pr: "pread ?lf 64 0 = ?m" using l64 by (simp add: pread_def)
  have f: "field 4 0 ?m = 1" "field 4 4 ?m = 0" "field 8 8 ?m = PSYNC_CRYPTO_SECTOR_SIZE + length bs" "field 8 16 ?m = filesize"
    "take 32 (drop 24 ?m) = fhash bs"
    using n h by (simp_all add: field_def master_start_def le_load_store PSYNC_LOG_STATUS_FINALIZED_def PSYNC_LOG_HASHID_FH256_def)
  have crc_less: "unat (crc ?ms) < 4294967296" using unsigned_less [of "crc ?ms"] by simp
  have c: "field 4 56 ?m = unat (crc ?ms)" "take 56 ?m = ?ms"
    using l56 crc_less by (simp_all add: field_def le_load_store)
  have d: "drop PSYNC_CRYPTO_SECTOR_SIZE ?lf = bs" "length ?lf = PSYNC_CRYPTO_SECTOR_SIZE + length bs"
    using l64 by (simp_all add: PSYNC_CRYPTO_SECTOR_SIZE_def)
  have "log_valid fhash crc True ?lf"
    unfolding log_valid_def Let_def pr psync_fs_crypto_check_log_hash_def d
    using f c l64 by (simp add: PSYNC_LOG_STATUS_FINALIZED_def PSYNC_LOG_HASHID_FH256_def)
  moreover have "log_size ?lf = filesize" unfolding log_size_def pr using f by simp
  ultimately show ?thesis using d by simp
qed

text \<open>The sectors lie inside the new size and no interval has \<open>2 ^ 48\<close> bytes.\<close>

definition log_fits :: "(u32 \<times> u8 list) list \<Rightarrow> recs \<Rightarrow> nat \<Rightarrow> bool" where
  "log_fits ss ivs filesize \<longleftrightarrow> filesize < 2 ^ 64
     \<and> (\<forall>s\<in>set ss. length (snd s) \<le> PSYNC_CRYPTO_SECTOR_SIZE
          \<and> unat (psync_fs_crypto_data_offset_by_sectorid (fst s)) + length (snd s) \<le> filesize)
     \<and> ivl_ok ivs \<and> (\<forall>x\<in>set ivs. unat (snd x - fst x) < 2 ^ 48)
     \<and> PSYNC_CRYPTO_SECTOR_SIZE + length (log_bytes 0 ss ivs) < 2 ^ 64"

lemma length_log_bytes: "length (log_bytes junk ss ivs) = length (log_bytes 0 ss ivs)"
  by (simp add: log_bytes_def length_interval_headers)

lemma log_written:
  assumes "logfile l = []" "log_fits ss ivs filesize" "length padding = 4" "\<forall>b. length (fhash b) = 32"
  shows "\<exists>l'. write_log fhash crc padding junk ss ivs filesize l = (0, l') \<and> log_valid fhash crc True (logfile l')
    \<and> log_size (logfile l') = filesize
    \<and> log_parts filesize 0 (drop PSYNC_CRYPTO_SECTOR_SIZE (logfile l')) = Some (sector_parts ss @ interval_parts ivs)"
proof -
  note f = assms(2) [unfolded log_fits_def]
  obtain l1 where l1: "write_records junk ss ivs l = (0, l1)" "log_is l1 (log_bytes junk ss ivs)"
    using write_records_is [OF assms(1), of ss junk ivs] f by auto
  obtain l2 where l2: "psync_fs_crypto_mark_log_finalized fhash crc padding done_io filesize l1 = (0, l2)"
    "log_valid fhash crc True (logfile l2)" "log_size (logfile l2) = filesize"
    "drop PSYNC_CRYPTO_SECTOR_SIZE (logfile l2) = log_bytes junk ss ivs"
    using final_log [OF l1(2) assms(4,3), of filesize crc] f length_log_bytes [of junk ss ivs] by auto
  then show ?thesis using l1(1) log_parts_bytes [of ss filesize ivs junk] f by (simp add: write_log_def)
qed

text \<open>
  C21. A log that is written from sectors and intervals and made final is accepted, with its hash, and gives the
  files what was written: the sectors in order in the data file of the new size, and an index file from which
  the same intervals are loaded.
\<close>

theorem log_applied_as_written:
  assumes "logfile l = []" "log_fits ss ivs filesize" "length padding = 4" "\<forall>b. length (fhash b) = 32" "replay_ok r"
  shows "\<exists>l' idx. write_log fhash crc padding junk ss ivs filesize l = (0, l')
    \<and> psync_fs_crypto_process_log fhash crc r True (logfile l') d (Some i)
      = (Some 0, resize 0 filesize (fold part_data (sector_parts ss) (resize 0 filesize d)), Some idx)
    \<and> psync_fs_load_interval_tree (\<lambda>_. True) idx [] = Some (int (length ivs), ivs)"
proof -
  obtain l2 where l2: "write_log fhash crc padding junk ss ivs filesize l = (0, l2)" "log_valid fhash crc True (logfile l2)"
    "log_size (logfile l2) = filesize"
    "log_parts filesize 0 (drop PSYNC_CRYPTO_SECTOR_SIZE (logfile l2)) = Some (sector_parts ss @ interval_parts ivs)"
    using log_written [OF assms(1-4)] by blast
  let ?idx = "map (\<lambda>x. (fst x, snd x - fst x)) ivs"
  have "psync_fs_crypto_process_log fhash crc r True (logfile l2) d (Some i)
      = (Some 0, resize 0 filesize (fold part_data (sector_parts ss) (resize 0 filesize d)), Some ?idx)"
    using process_log_ok [OF assms(5) l2(2), of "sector_parts ss @ interval_parts ivs" "Some i" d] l2(3,4)
    by (simp add: records_of_parts fold_interval_parts)
  moreover have "ivl_ok ivs" using assms(2) by (simp add: log_fits_def)
  then have "psync_fs_load_interval_tree (\<lambda>_. True) ?idx [] = Some (int (length ivs), ivs)"
    using load_tree_all [of "\<lambda>_. True" ?idx "[]"] reload_intervals [of ivs] by simp
  ultimately show ?thesis using l2(1) by blast
qed

definition sample_replay :: replay_io where
  "sample_replay = \<lparr>rl_trunc = True, rl_trunc_index = True, rl_trunc_end = True, rl_data = (\<lambda>_. done_io), rl_index = (\<lambda>_. True)\<rparr>"

definition sample_log :: log_t where "sample_log = \<lparr>logfile = [], logoffset = 0, loghashctx = []\<rparr>"

lemma sample_replay_ok: "replay_ok sample_replay"
  by (auto simp: replay_ok_def sample_replay_def done_io_def)

lemma sample_log_fits: "log_fits [(0, [1, 2, 3])] [(0, 3)] 4"
  by (simp add: log_fits_def PSYNC_CRYPTO_SECTOR_SIZE_def log_bytes_def sector_record_def interval_header_def Let_def
      psync_fs_crypto_data_offset_by_sectorid_def data_offset_loop.simps PSYNC_CRYPTO_HASH_TREE_SECTORS_def PSYNC_CRYPTO_AUTH_SIZE_def)

lemma sector_zero: "psync_fs_crypto_data_offset_by_sectorid 0 = 0"
  by (simp add: psync_fs_crypto_data_offset_by_sectorid_def data_offset_loop.simps
      PSYNC_CRYPTO_HASH_TREE_SECTORS_def PSYNC_CRYPTO_AUTH_SIZE_def PSYNC_CRYPTO_SECTOR_SIZE_def)

theorem log_applied_as_written_witness:
  "\<exists>l' idx. write_log (\<lambda>_. replicate 32 0) (\<lambda>_. 7) [0, 0, 0, 0] 0 [(0, [1, 2, 3])] [(0, 3)] 4 sample_log = (0, l')
    \<and> psync_fs_crypto_process_log (\<lambda>_. replicate 32 0) (\<lambda>_. 7) sample_replay True (logfile l') [9, 9, 9, 9, 9] (Some [])
      = (Some 0, [1, 2, 3, 9], Some idx)
    \<and> psync_fs_load_interval_tree (\<lambda>_. True) idx [] = Some (1, [(0, 3)])"
  using log_applied_as_written [of sample_log "[(0, [1, 2, 3])]" "[(0, 3)]" 4 "[0, 0, 0, 0]" "\<lambda>_. replicate 32 0" sample_replay
      "\<lambda>_. 7" 0 "[9, 9, 9, 9, 9]" "[]"] sample_log_fits sample_replay_ok
  by (simp add: sample_log_def sector_parts_def sector_zero patch_def resize_def)

lemma sample_log_run:
  "\<exists>lf. psync_fs_crypto_process_log (\<lambda>_. replicate 32 0) (\<lambda>_. 7) sample_replay True lf [9, 9, 9, 9] (Some [])
      = (Some 0, [1, 2, 3, 9], Some [(0, 3)])
    \<and> log_size lf = 4 \<and> log_content lf = [LData 0 [1, 2, 3], LInt 0 3]"
proof -
  obtain l' :: log_t where l': "log_valid (\<lambda>_. replicate 32 0) (\<lambda>_. 7) True (logfile l')" "log_size (logfile l') = 4"
    "log_parts 4 0 (drop PSYNC_CRYPTO_SECTOR_SIZE (logfile l')) = Some [LData 0 [1, 2, 3], LInt 0 3]"
    using log_written [of sample_log "[(0, [1, 2, 3])]" "[(0, 3)]" 4 "[0, 0, 0, 0]" "\<lambda>_. replicate 32 0" "\<lambda>_. 7" 0] sample_log_fits
    by (auto simp: sample_log_def sector_parts_def interval_parts_def sector_zero)
  have "psync_fs_crypto_process_log (\<lambda>_. replicate 32 0) (\<lambda>_. 7) sample_replay True (logfile l') [9, 9, 9, 9] (Some [])
      = (Some 0, [1, 2, 3, 9], Some [(0, 3)])"
    using process_log_ok [OF sample_replay_ok l'(1), of "[LData 0 [1, 2, 3], LInt 0 3]" "Some []" "[9, 9, 9, 9]"] l'(2,3)
    by (simp add: patch_def resize_def)
  then show ?thesis using l'(2,3) by (auto simp: log_content_def)
qed

text \<open>
  C8. Applying a log again after a crash. In the crash the operating system may have kept any of the changes of an
  earlier run and lost others, so all that is known of the data file is that the bytes which the log does not
  write are the old ones, and the index file may be anything. The log then gives the same two files as a run
  that was not interrupted.
\<close>

theorem log_replay_after_crash:
  assumes "replay_ok r" "psync_fs_crypto_process_log fhash crc r checkhash lf d i = (Some 0, d1, i1)"
    "\<forall>k<log_size lf. k \<notin> touched (log_content lf) \<longrightarrow> byte d' k = byte d k" "i' = None \<longleftrightarrow> i = None"
  shows "psync_fs_crypto_process_log fhash crc r checkhash lf d' i' = (Some 0, d1, i1)"
  by (rule crash [OF assms])

theorem log_replay_after_crash_witness:
  "\<exists>lf. psync_fs_crypto_process_log (\<lambda>_. replicate 32 0) (\<lambda>_. 7) sample_replay True lf [1, 9, 3, 9, 5] (Some [(7, 7)])
    = (Some 0, [1, 2, 3, 9], Some [(0, 3)])"
proof -
  obtain lf where lf: "psync_fs_crypto_process_log (\<lambda>_. replicate 32 0) (\<lambda>_. 7) sample_replay True lf [9, 9, 9, 9] (Some [])
      = (Some 0, [1, 2, 3, 9], Some [(0, 3)])" "log_size lf = 4" "log_content lf = [LData 0 [1, 2, 3], LInt 0 3]"
    using sample_log_run by blast
  have "\<forall>k<log_size lf. k \<notin> touched (log_content lf) \<longrightarrow> byte [1, 9, 3, 9, 5] k = byte [9, 9, 9, 9] k"
  proof (intro allI impI)
    fix k assume "k < log_size lf" "k \<notin> touched (log_content lf)"
    then have "k = 3" using lf(2,3) by simp
    then show "byte [1, 9, 3, 9, 5] k = byte [9, 9, 9, 9] k" by (simp add: byte_def)
  qed
  from log_replay_after_crash [OF sample_replay_ok lf(1) this, of "Some [(7, 7)]"] show ?thesis by auto
qed

text \<open>
  In particular a run that stops anywhere, because a write fails or takes only a part of the bytes or because
  the process ends, is made good by the next run on the files it left.
\<close>

theorem log_replay_interrupted:
  assumes "replay_ok r" "psync_fs_crypto_process_log fhash crc r checkhash lf d i = (Some 0, d1, i1)"
    "psync_fs_crypto_process_log fhash crc r' checkhash' lf d i = (ret, d', i')"
  shows "psync_fs_crypto_process_log fhash crc r checkhash lf d' i' = (Some 0, d1, i1)"
  by (rule interrupted [OF assms])

theorem log_replay_interrupted_witness:
  "\<exists>lf ret d' i'. psync_fs_crypto_process_log (\<lambda>_. replicate 32 0) (\<lambda>_. 7) (sample_replay\<lparr>rl_data := (\<lambda>_. IoWrote 1)\<rparr>) True lf
       [9, 9, 9, 9] (Some []) = (ret, d', i')
    \<and> psync_fs_crypto_process_log (\<lambda>_. replicate 32 0) (\<lambda>_. 7) sample_replay True lf d' i' = (Some 0, [1, 2, 3, 9], Some [(0, 3)])"
proof -
  obtain lf where lf: "psync_fs_crypto_process_log (\<lambda>_. replicate 32 0) (\<lambda>_. 7) sample_replay True lf [9, 9, 9, 9] (Some [])
      = (Some 0, [1, 2, 3, 9], Some [(0, 3)])" using sample_log_run by blast
  obtain ret d' i' where q: "psync_fs_crypto_process_log (\<lambda>_. replicate 32 0) (\<lambda>_. 7) (sample_replay\<lparr>rl_data := (\<lambda>_. IoWrote 1)\<rparr>) True lf
      [9, 9, 9, 9] (Some []) = (ret, d', i')" by (cases rule: prod_cases3) blast
  from log_replay_interrupted [OF sample_replay_ok lf q] q show ?thesis by blast
qed

text \<open>
  The log that the program finds at its start: applied with the check of its hash and removed, also when it
  could not be applied, unless a failed assertion ends the process. A missing file is one that cannot be opened.
\<close>

record log_outcome =
  lo_log_kept :: bool
  lo_data :: "u8 list option"
  lo_index :: "recs option"
  lo_paused :: "u64 option"

fun isxdigit :: "u8 \<Rightarrow> bool" where
  "isxdigit c \<longleftrightarrow> 48 \<le> c \<and> c \<le> 57 \<or> 65 \<le> c \<and> c \<le> 70 \<or> 97 \<le> c \<and> c \<le> 102"

definition conv_xdigit :: "u8 \<Rightarrow> u32" where
  "conv_xdigit dig =
     (if 48 \<le> dig \<and> dig \<le> 57 then ucast dig - 48 else if 97 \<le> dig \<and> dig \<le> 102 then ucast dig - 97 + 10
      else scast dig - 65 + 10)"

text \<open>A character of a C string, and the NUL behind its end.\<close>

definition at :: "u8 list \<Rightarrow> nat \<Rightarrow> u8" where
  "at s k = (if k < length s then s ! k else 0)"

function pause_taskid :: "u8 list \<Rightarrow> u64 \<Rightarrow> u64 \<Rightarrow> u64" where
  "pause_taskid fn taskid mul =
     (if isxdigit (at fn 0) \<and> isxdigit (at fn 1) then
        let fn = drop 2 fn in
        pause_taskid fn (taskid + mul * ucast (conv_xdigit (at fn 0) * 16 + conv_xdigit (at fn 1))) (mul * 256)
      else taskid)"
  by auto
termination
proof (relation "measure (\<lambda>(fn, taskid, mul). length fn)", goal_cases)
  case (2 fn taskid mul x)
  then have "fn \<noteq> []" by (auto simp: at_def)
  then show ?case using 2 by simp
qed simp

declare pause_taskid.simps [simp del]

definition psync_fs_pause_task_by_name :: "u8 list \<Rightarrow> u64" where
  "psync_fs_pause_task_by_name fn = pause_taskid fn 0 1"

definition psync_fs_crypto_check_log ::
  "bytes_hash \<Rightarrow> bytes_crc \<Rightarrow> replay_io \<Rightarrow> u8 list \<Rightarrow> u8 list option \<Rightarrow> u8 list option \<Rightarrow> recs option \<Rightarrow> int option \<times> log_outcome" where
  "psync_fs_crypto_check_log fhash crc r fn lfd dfd ifd =
     (case lfd of
        None \<Rightarrow> (Some (-1), \<lparr>lo_log_kept = True, lo_data = dfd, lo_index = ifd, lo_paused = Some (psync_fs_pause_task_by_name fn)\<rparr>)
      | Some lf \<Rightarrow>
          (case dfd of
             None \<Rightarrow> (Some (-1), \<lparr>lo_log_kept = False, lo_data = None, lo_index = ifd, lo_paused = None\<rparr>)
           | Some d \<Rightarrow>
               let (ret, d, i) = psync_fs_crypto_process_log fhash crc r True lf d ifd in
               (ret, \<lparr>lo_log_kept = ret = None, lo_data = Some d, lo_index = i, lo_paused = None\<rparr>)))"

text \<open>
  C33. A log that was not made final, as the process leaves it that ends while it writes a log, is found at the
  start, changes neither file, and is removed.
\<close>

theorem unfinished_log_ignored:
  assumes "logfile l = []" "\<forall>s\<in>set ss. length (snd s) \<le> PSYNC_CRYPTO_SECTOR_SIZE"
  shows "\<exists>l'. write_records junk ss ivs l = (0, l')
    \<and> psync_fs_crypto_check_log fhash crc r fn (Some (logfile l')) (Some d) i
      = (Some (-1), \<lparr>lo_log_kept = False, lo_data = Some d, lo_index = i, lo_paused = None\<rparr>)"
proof -
  obtain l' where l': "write_records junk ss ivs l = (0, l')" "log_is l' (log_bytes junk ss ivs)"
    using write_records_is [OF assms] by blast
  have four: "replicate 4 (255 :: u8) = [255, 255, 255, 255]" by (simp add: eval_nat_numeral)
  have "pread (logfile l') 64 0 = replicate 64 0xff" using l'(2) by (simp add: pread_def log_is_def PSYNC_CRYPTO_SECTOR_SIZE_def)
  then have "field 4 0 (pread (logfile l') 64 0) \<noteq> PSYNC_LOG_STATUS_FINALIZED"
    by (simp add: field_def PSYNC_LOG_STATUS_FINALIZED_def four)
  then have "\<not> log_valid fhash crc True (logfile l')" by (simp add: log_valid_def Let_def)
  then show ?thesis using l'(1) by (simp add: psync_fs_crypto_check_log_def process_log_unfold)
qed

theorem unfinished_log_ignored_witness:
  "\<exists>l'. write_records 0 [(0, [1, 2, 3])] [(0, 3)] sample_log = (0, l')
    \<and> psync_fs_crypto_check_log (\<lambda>_. replicate 32 0) (\<lambda>_. 7) sample_replay [] (Some (logfile l')) (Some [9]) (Some [])
      = (Some (-1), \<lparr>lo_log_kept = False, lo_data = Some [9], lo_index = Some [], lo_paused = None\<rparr>)"
  using unfinished_log_ignored [of sample_log "[(0, [1, 2, 3])]" 0 "[(0, 3)]" "\<lambda>_. replicate 32 0" "\<lambda>_. 7" sample_replay "[]" "[9]" "Some []"]
  by (simp add: sample_log_def PSYNC_CRYPTO_SECTOR_SIZE_def)

section \<open>The number of the task\<close>

text \<open>
  The name of a log: of the number of its task the lowest four of the eight bytes, lowest first and of two
  digits each, because the letter is put behind as many digits as the number has bytes.
\<close>

definition hex_digit :: "u8 \<Rightarrow> u8" where
  "hex_digit n = (if n < 10 then n + 48 else n + 87)"

definition psync_binhex :: "u8 list \<Rightarrow> u8 list" where
  "psync_binhex bs = concat (map (\<lambda>b. [hex_digit (b div 16), hex_digit (b mod 16)]) bs)"

definition log_name :: "u64 \<Rightarrow> u8 \<Rightarrow> u8 list" where
  "log_name taskid letter = take 8 (psync_binhex (le_store 8 (unat taskid))) @ [letter]"

lemma hex_digit_ok: "n < 16 \<Longrightarrow> isxdigit (hex_digit n) \<and> conv_xdigit (hex_digit n) = ucast n"
proof -
  assume "n < 16"
  then have "unat n \<in> set [0..<16]" by (simp add: word_less_nat_alt)
  moreover have "n = of_nat (unat n)" by simp
  ultimately have "n \<in> set (map of_nat [0..<16])" by (metis image_eqI set_map)
  then have "n = 0 \<or> n = 1 \<or> n = 2 \<or> n = 3 \<or> n = 4 \<or> n = 5 \<or> n = 6 \<or> n = 7 \<or> n = 8 \<or> n = 9 \<or> n = 10 \<or> n = 11
      \<or> n = 12 \<or> n = 13 \<or> n = 14 \<or> n = 15"
    by (simp add: upt_rec)
  then show ?thesis by (elim disjE) (simp_all add: hex_digit_def conv_xdigit_def)
qed

lemma ucast_of_nat: "(ucast (w :: u8) :: u32) = of_nat (unat w)" "(ucast (v :: u32) :: u64) = of_nat (unat v)"
  "unat (ucast (w :: u8) :: u32) = unat w"
proof -
  have "unat w < 256" using unsigned_less [of w] by simp
  then show "unat (ucast w :: u32) = unat w" by (simp add: unsigned_ucast_eq take_bit_nat_eq_self)
qed simp_all

lemma ucast_twice: "(ucast (ucast (w :: u8) :: u32) :: u64) = of_nat (unat w)"
  by (simp only: ucast_of_nat(2,3))

lemma byte_of_digits: "(ucast (b div 16) :: u32) * 16 + ucast (b mod 16) = ucast (b :: u8)"
proof -
  have d: "unat (b div 16) = unat b div 16" "unat (b mod 16) = unat b mod 16" by (simp_all add: unat_div unat_mod)
  have "of_nat (unat b div 16) * 16 + of_nat (unat b mod 16) = (of_nat (unat b div 16 * 16 + unat b mod 16) :: u32)"
    by (simp only: of_nat_add of_nat_mult of_nat_numeral)
  then show ?thesis unfolding ucast_of_nat(1) d div_mult_mod_eq .
qed

lemma psync_binhex_Cons: "psync_binhex (b # bs) = hex_digit (b div 16) # hex_digit (b mod 16) # psync_binhex bs"
  by (simp add: psync_binhex_def)

lemma nibbles: "(b :: u8) div 16 < 16" "b mod 16 < 16"
proof -
  have "unat b < 256" using unsigned_less [of b] by simp
  then show "b div 16 < 16" "b mod 16 < 16" by (auto simp: word_less_nat_alt unat_div unat_mod)
qed

lemma pause_taskid_byte:
  assumes "psync_binhex bs @ s = x # y # rest"
  shows "pause_taskid (psync_binhex (b # bs) @ s) taskid mul
    = pause_taskid (psync_binhex bs @ s) (taskid + mul * ucast (conv_xdigit x * 16 + conv_xdigit y)) (mul * 256)"
  using hex_digit_ok nibbles [of b] assms
  by (subst pause_taskid.simps) (simp add: psync_binhex_Cons at_def Let_def del: isxdigit.simps)

lemma pause_taskid_last:
  "pause_taskid (psync_binhex [b] @ [c]) taskid mul = taskid + mul * ucast (conv_xdigit c * 16 + conv_xdigit 0)"
  using hex_digit_ok nibbles [of b]
  by (subst pause_taskid.simps, subst pause_taskid.simps)
    (simp add: psync_binhex_Cons at_def Let_def psync_binhex_def del: isxdigit.simps, simp)

lemma pause_taskid_name:
  "pause_taskid (psync_binhex (b # bs) @ [c]) taskid mul
    = taskid + mul * (of_nat (le_load bs) + 256 ^ length bs * ucast (conv_xdigit c * 16 + conv_xdigit 0))"
proof (induction bs arbitrary: b taskid mul)
  case Nil
  then show ?case using pause_taskid_last by simp
next
  case (Cons b' bs)
  have d: "(ucast (conv_xdigit (hex_digit (b' div 16)) * 16 + conv_xdigit (hex_digit (b' mod 16))) :: u64) = of_nat (unat b')"
  proof -
    have "conv_xdigit (hex_digit (b' div 16)) * 16 + conv_xdigit (hex_digit (b' mod 16)) = ucast b'"
      using hex_digit_ok nibbles [of b'] byte_of_digits [of b'] by simp
    then show ?thesis by (simp only: ucast_twice)
  qed
  have "pause_taskid (psync_binhex (b # b' # bs) @ [c]) taskid mul
      = pause_taskid (psync_binhex (b' # bs) @ [c]) (taskid + mul * of_nat (unat b')) (mul * 256)"
    using pause_taskid_byte [of "b' # bs" "[c]" _ _ _ b taskid mul] unfolding d [symmetric] by (simp add: psync_binhex_Cons)
  then show ?case unfolding Cons.IH by (simp add: algebra_simps)
qed

lemma le_store_add: "le_store (a + b) x = le_store a x @ le_store b (x div 256 ^ a)"
  by (induction a arbitrary: x) (simp_all add: div_mult2_eq)

lemma log_name_bytes: "log_name taskid letter = psync_binhex (le_store 4 (unat taskid)) @ [letter]"
proof -
  have n: "length (psync_binhex bs) = 2 * length bs" "psync_binhex (as @ bs) = psync_binhex as @ psync_binhex bs" for as bs
    by (induction bs) (simp_all add: psync_binhex_def)
  show ?thesis using le_store_add [of 4 4 "unat taskid"] by (simp add: log_name_def n)
qed

text \<open>
  When a log cannot be opened, the task that it belongs to is to be paused. The loop that reads the number of
  the task from the name of the log moves on before it reads, so it skips the lowest byte, takes the letter at
  the end and the NUL behind it for the last byte, and pauses another task: for a final log of task 261 the
  task 3103784961, which does not exist.
\<close>

theorem wrong_task_paused:
  assumes "taskid < 2 ^ 24" "letter = 102 \<or> letter = 108"
  shows "psync_fs_pause_task_by_name (log_name taskid letter) = taskid div 256 + 2 ^ 24 * (if letter = 102 then 185 else 793)
    \<and> psync_fs_pause_task_by_name (log_name taskid letter) \<noteq> taskid"
proof -
  define n where "n = unat taskid"
  have n: "n < 2 ^ 24" "taskid = of_nat n" using assms(1) by (simp_all add: n_def word_less_nat_alt)
  have cs: "le_store 4 n = of_nat n # le_store 3 (n div 256)" using le_store_add [of 1 3 n] by simp
  have ld: "le_load (le_store 3 (n div 256)) = n div 256" using n(1) by (simp add: le_load_store)
  have v: "psync_fs_pause_task_by_name (log_name taskid letter) = of_nat (n div 256) + 2 ^ 24 * (if letter = 102 then 185 else 793)"
    using assms(2) unfolding psync_fs_pause_task_by_name_def log_name_bytes n_def [symmetric] cs pause_taskid_name ld
    by (auto simp: conv_xdigit_def)
  have d: "taskid div 256 = of_nat (n div 256)" by (rule word_unat_eq_iff [THEN iffD2]) (use n in \<open>simp add: unat_div unat_of_nat n_def [symmetric]\<close>)
  have "unat (of_nat (n div 256) + 2 ^ 24 * (if letter = 102 then 185 else 793) :: u64) = n div 256 + 2 ^ 24 * (if letter = 102 then 185 else 793)"
    using n(1) by (simp add: unat_word_ariths unat_of_nat)
  then have "psync_fs_pause_task_by_name (log_name taskid letter) \<noteq> taskid"
    using n(1) v by (auto simp: n_def)
  then show ?thesis using v d by simp
qed

theorem wrong_task_paused_witness:
  "psync_fs_pause_task_by_name (log_name 261 102) = 3103784961"
  using wrong_task_paused [of 261 102] by simp

end
