(* ===== verification/Crc.thy ===== *)
theory Crc
  imports CrcTable
begin

unbundle bit_operations_syntax

text \<open>
  CRC-32C, \<^verbatim>\<open>psync_crc32c\<close> of \<^verbatim>\<open>pcrc32c.c\<close>: with tables, eight bytes at a time, or with the CRC instruction of the
  processor, three parts of the data side by side that are then joined with another table. Both compute the
  CRC bit by bit, which is the reference here, on data of every length and alignment.

  The instruction is given by its documentation: it accumulates the CRC-32C of its operand, lowest bit first.
  Data is the bytes from the address \<open>addr\<close>; the code is that of 64-bit hosts, and the upper half of its 64-bit
  variable for the CRC is zero.
\<close>

section \<open>Bit by bit\<close>

definition crc_bit :: "u32 \<Rightarrow> bool \<Rightarrow> u32" where
  "crc_bit c b = drop_bit 1 c XOR (if bit c 0 = b then 0 else 0x82f63b78)"

definition crc32_insn :: "nat \<Rightarrow> u32 \<Rightarrow> 'a :: len word \<Rightarrow> u32" where
  "crc32_insn n c src = fold (\<lambda>i c. crc_bit c (bit src i)) [0..<n] c"

definition crc32c :: "u32 \<Rightarrow> u8 list \<Rightarrow> u32" where
  "crc32c c bs = fold (\<lambda>b c. crc32_insn 8 c b) bs c"

definition sh :: "u32 \<Rightarrow> u32" where "sh c = crc_bit c False"

lemma sh_def': "sh c = drop_bit 1 c XOR (if bit c 0 then 0x82f63b78 else 0)"
  by (simp add: sh_def crc_bit_def)

lemma sh_xor: "sh (a XOR b) = sh a XOR sh b"
  by (auto simp: sh_def' bit_xor_iff drop_bit_xor ac_simps)

lemma shn_xor: "(sh ^^ n) (a XOR b) = (sh ^^ n) a XOR (sh ^^ n) b"
  by (induction n) (simp_all add: sh_xor)

lemma sh_0 [simp]: "sh 0 = 0" by (simp add: sh_def')

lemma shn_0 [simp]: "(sh ^^ n) 0 = 0" by (induction n) simp_all

lemma crc_bit_sh: "crc_bit c b = sh (c XOR (if b then 1 else 0))"
proof -
  have "drop_bit 1 (1 :: u32) = 0" by simp
  then show ?thesis by (auto simp: sh_def' crc_bit_def bit_xor_iff drop_bit_xor)
qed

lemma shn_drop: "\<forall>i<n. \<not> bit u i \<Longrightarrow> (sh ^^ n) u = drop_bit n u"
proof (induction n)
  case (Suc n)
  then have "(sh ^^ Suc n) u = sh (drop_bit n u)" by simp
  also have "\<dots> = drop_bit 1 (drop_bit n u)" using Suc.prems by (simp add: sh_def' bit_drop_bit_eq)
  also have "\<dots> = drop_bit (Suc n) u" by (simp add: drop_bit_drop_bit)
  finally show ?case .
qed simp

lemma bit_word_exp: "bit (2 ^ n :: 'a :: len word) i \<longleftrightarrow> i = n \<and> n < LENGTH('a)"
  by (auto simp: bit_exp_iff dest: bit_imp_le_length)

lemma shn_exp: "n < 32 \<Longrightarrow> (sh ^^ n) (2 ^ n) = 1"
  by (subst shn_drop) (auto simp: bit_word_exp bit_1_iff bit_drop_bit_eq intro!: bit_word_eqI)

lemma take_bit_Suc_xor: "take_bit (Suc n) (w :: 'a :: len word) = take_bit n w XOR (if bit w n then 2 ^ n else 0)"
  by (rule bit_word_eqI) (auto simp: bit_take_bit_iff bit_xor_iff bit_word_exp less_Suc_eq)

lemma insn_sh: "n \<le> 32 \<Longrightarrow> crc32_insn n c src = (sh ^^ n) (c XOR ucast (take_bit n src))"
proof (induction n)
  case (Suc n)
  have "(sh ^^ n) (c XOR ucast (take_bit n src)) XOR (if bit src n then 1 else 0)
      = (sh ^^ n) (c XOR ucast (take_bit (Suc n) src))"
  proof -
    have "(if bit src n then 1 else 0) = (sh ^^ n) (ucast (if bit src n then 2 ^ n else 0 :: 'a word))"
    proof (cases "bit src n")
      case True
      then have "n < LENGTH('a)" using bit_imp_le_length by blast
      then have "ucast (2 ^ n :: 'a word) = (2 ^ n :: u32)"
        using Suc.prems by (intro bit_word_eqI) (auto simp: bit_ucast_iff bit_word_exp)
      then show ?thesis using True shn_exp [of n] Suc.prems by simp
    qed simp
    then show ?thesis by (simp add: take_bit_Suc_xor unsigned_xor_eq shn_xor ac_simps)
  qed
  then show ?case using Suc by (simp add: crc32_insn_def crc_bit_sh)
qed (simp add: crc32_insn_def)

lemma insn_8: "crc32_insn 8 c (b :: u8) = (sh ^^ 8) (c XOR ucast b)"
proof -
  have "take_bit 8 b = b" by (rule bit_word_eqI) (simp add: bit_take_bit_iff)
  then show ?thesis by (simp add: insn_sh)
qed

lemma crc32c_simps [simp]: "crc32c c [] = c" "crc32c c (b # bs) = crc32c ((sh ^^ 8) (c XOR ucast b)) bs"
  by (simp_all add: crc32c_def insn_8)

lemma crc32c_append: "crc32c c (as @ bs) = crc32c (crc32c c as) bs"
  by (simp add: crc32c_def)

lemma crc32c_xor: "crc32c (a XOR b) bs = (sh ^^ (8 * length bs)) a XOR crc32c b bs"
proof (induction bs arbitrary: a b)
  case (Cons x bs)
  have "(sh ^^ (8 * length bs)) ((sh ^^ 8) a) = (sh ^^ (8 * length (x # bs))) a"
    by (simp add: funpow_add [symmetric, THEN fun_cong, unfolded o_def] algebra_simps)
  then show ?case using Cons.IH [of "(sh ^^ 8) a"] by (simp add: shn_xor xor.assoc)
qed simp

section \<open>With tables\<close>

definition crc_tab :: "nat \<Rightarrow> u32 \<Rightarrow> u32" where
  "crc_tab k i = crc32c_table ! k ! unat (i AND 0xff)"

definition CRC32C_64BIT :: "u32 \<Rightarrow> u8 list \<Rightarrow> u32" where
  "CRC32C_64BIT crc data =
     (let crc = crc XOR of_nat (le_load (take 4 data)) in
      crc_tab 7 crc XOR crc_tab 6 (drop_bit 8 crc) XOR crc_tab 5 (drop_bit 16 crc) XOR crc_tab 4 (drop_bit 24 crc)
      XOR crc_tab 3 (ucast (data ! 4)) XOR crc_tab 2 (ucast (data ! 5)) XOR crc_tab 1 (ucast (data ! 6)) XOR crc_tab 0 (ucast (data ! 7)))"

definition CRC32C_64BIT_UINT :: "u64 \<Rightarrow> u64 \<Rightarrow> u64" where
  "CRC32C_64BIT_UINT crc data =
     (let crc = crc XOR (data AND 0xffffffff); t = (\<lambda>k (i :: u64). ucast (crc32c_table ! k ! unat (i AND 0xff)) :: u64) in
      t 7 crc XOR t 6 (drop_bit 8 crc) XOR t 5 (drop_bit 16 crc) XOR t 4 (drop_bit 24 crc)
      XOR t 3 (drop_bit 32 data) XOR t 2 (drop_bit 40 data) XOR t 1 (drop_bit 48 data) XOR t 0 (drop_bit 56 data))"

definition CRC32C_8BIT :: "u32 \<Rightarrow> u8 \<Rightarrow> u32" where
  "CRC32C_8BIT crc data = crc_tab 0 (crc XOR ucast data) XOR drop_bit 8 crc"

text \<open>The loop up to an aligned address, and the one over the rest, for any step on a byte.\<close>

fun crc_aligning :: "nat \<Rightarrow> (u32 \<Rightarrow> u8 \<Rightarrow> u32) \<Rightarrow> nat \<Rightarrow> u32 \<Rightarrow> u8 list \<Rightarrow> u32 \<times> u8 list" where
  "crc_aligning w step addr crc [] = (crc, [])"
| "crc_aligning w step addr crc (b # data) =
     (if addr mod w \<noteq> 0 then crc_aligning w step (addr + 1) (step crc b) data else (crc, b # data))"

primrec crc_rest :: "(u32 \<Rightarrow> u8 \<Rightarrow> u32) \<Rightarrow> u32 \<Rightarrow> u8 list \<Rightarrow> u32" where
  "crc_rest step crc [] = crc"
| "crc_rest step crc (b # data) = crc_rest step (step crc b) data"

text \<open>The loops over blocks of \<open>n\<close> groups of eight bytes.\<close>

primrec crc_groups :: "nat \<Rightarrow> (u32 \<Rightarrow> u8 list \<Rightarrow> u32) \<Rightarrow> u32 \<Rightarrow> u8 list \<Rightarrow> u32 \<times> u8 list" where
  "crc_groups 0 step crc data = (crc, data)"
| "crc_groups (Suc n) step crc data = crc_groups n step (step crc data) (drop 8 data)"

function crc_blocks :: "nat \<Rightarrow> (u32 \<Rightarrow> u8 list \<Rightarrow> u32) \<Rightarrow> u32 \<Rightarrow> u8 list \<Rightarrow> u32 \<times> u8 list" where
  "crc_blocks n step crc data =
     (if 0 < n \<and> 8 * n \<le> length data
      then let (crc, data) = crc_groups n step crc data in crc_blocks n step crc data
      else (crc, data))"
  by auto

lemma snd_crc_groups: "snd (crc_groups n step crc data) = drop (8 * n) data"
  by (induction n arbitrary: crc data) (simp_all add: algebra_simps)

termination crc_blocks
proof (relation "measure (\<lambda>(n, step, crc, data). length data)", goal_cases)
  case (2 n step crc data x crc' data')
  then show ?case using snd_crc_groups [of n step crc data] by (cases "crc_groups n step crc data") auto
qed simp

declare crc_blocks.simps [simp del]

definition psync_crc32c_sw :: "u32 \<Rightarrow> nat \<Rightarrow> u8 list \<Rightarrow> u32" where
  "psync_crc32c_sw crc addr data =
     (let (crc, data) = crc_aligning 4 CRC32C_8BIT addr crc data;
          (crc, data) = crc_blocks 8 CRC32C_64BIT crc data;
          (crc, data) = crc_blocks 1 CRC32C_64BIT crc data in
      crc_rest CRC32C_8BIT crc data)"

section \<open>With the instruction\<close>

definition CRC32_PARALLEL_CHUNK :: nat where "CRC32_PARALLEL_CHUNK = 1360"

definition CRC32_WORD_HW :: "u32 \<Rightarrow> u8 list \<Rightarrow> u32" where
  "CRC32_WORD_HW crc data = crc32_insn 64 crc (of_nat (le_load (take 8 data)) :: u64)"

definition CRC32C_8BIT_HW :: "u32 \<Rightarrow> u8 \<Rightarrow> u32" where
  "CRC32C_8BIT_HW crc data = crc32_insn 8 crc data"

definition crc32c_shift_chunk :: "u32 \<Rightarrow> u32" where
  "crc32c_shift_chunk crc =
     crc32c_shift_chunk_table1360_0 ! unat (crc AND 0xff) XOR
     crc32c_shift_chunk_table1360_1 ! unat (drop_bit 8 crc AND 0xff) XOR
     crc32c_shift_chunk_table1360_2 ! unat (drop_bit 16 crc AND 0xff) XOR
     crc32c_shift_chunk_table1360_3 ! unat (drop_bit 24 crc)"

text \<open>The three parts side by side; \<open>left\<close> bytes of each are left.\<close>

function crc_parallel :: "nat \<Rightarrow> u32 \<Rightarrow> u32 \<Rightarrow> u32 \<Rightarrow> u8 list \<Rightarrow> u32 \<times> u32 \<times> u32 \<times> u8 list" where
  "crc_parallel left crc0 crc1 crc2 data0 =
     (let crc0 = CRC32_WORD_HW crc0 data0;
          crc1 = CRC32_WORD_HW crc1 (drop CRC32_PARALLEL_CHUNK data0);
          crc2 = CRC32_WORD_HW crc2 (drop (CRC32_PARALLEL_CHUNK * 2) data0);
          data0 = drop 8 data0 in
      if 8 < left then crc_parallel (left - 8) crc0 crc1 crc2 data0 else (crc0, crc1, crc2, data0))"
  by auto
termination by (relation "measure (\<lambda>(left, crc0, crc1, crc2, data0). left)") auto

declare crc_parallel.simps [simp del]

lemma snd_crc_parallel: "snd (snd (snd (crc_parallel (8 * Suc n) crc0 crc1 crc2 data0))) = drop (8 * Suc n) data0"
proof (induction n arbitrary: crc0 crc1 crc2 data0)
  case (Suc n)
  then show ?case by (subst crc_parallel.simps) (simp add: Let_def)
qed (simp add: crc_parallel.simps [of 8])

lemma crc_left: "8 * Suc 169 = 1360" by simp

function crc_chunks :: "u32 \<Rightarrow> u8 list \<Rightarrow> u32 \<times> u8 list" where
  "crc_chunks crc0 data0 =
     (if CRC32_PARALLEL_CHUNK * 3 \<le> length data0 then
        let (crc0, crc1, crc2, data0) = crc_parallel CRC32_PARALLEL_CHUNK crc0 0 0 data0;
            data0 = drop (CRC32_PARALLEL_CHUNK * 2) data0;
            crc0 = crc32c_shift_chunk crc0 XOR crc1;
            crc0 = crc32c_shift_chunk crc0 XOR crc2 in
        crc_chunks crc0 data0
      else (crc0, data0))"
  by auto
termination
proof (relation "measure (\<lambda>(crc0, data0). length data0)", goal_cases)
  case (2 crc0 data0 x c0 y c1 z c2 data1 data2 c3 c4)
  then have "(c0, c1, c2, data1) = crc_parallel 1360 crc0 0 0 data0" by (simp add: CRC32_PARALLEL_CHUNK_def)
  then have "data1 = drop 1360 data0" using snd_crc_parallel [of 169 crc0 0 0 data0] by (metis crc_left snd_conv)
  then show ?case using 2 by (simp add: CRC32_PARALLEL_CHUNK_def)
qed simp

declare crc_chunks.simps [simp del]

definition psync_crc32c_hw :: "u32 \<Rightarrow> nat \<Rightarrow> u8 list \<Rightarrow> u32" where
  "psync_crc32c_hw crc0 addr data0 =
     (let (crc0, data0) = crc_aligning 8 CRC32C_8BIT_HW addr crc0 data0;
          (crc0, data0) = crc_chunks crc0 data0;
          (crc0, data0) = crc_blocks 4 CRC32_WORD_HW crc0 data0;
          (crc0, data0) = crc_blocks 1 CRC32_WORD_HW crc0 data0 in
      crc_rest CRC32C_8BIT_HW crc0 data0)"

text \<open>
  What the processor has is asked for once and kept in \<open>crc_hashw\<close>: 0 when it is not known yet, 1 without and 2
  with the instruction. (A build for processors that all have it goes straight to \<open>psync_crc32c_hw\<close>.)
\<close>

definition psync_crc32c_init :: "bool \<Rightarrow> u32 \<Rightarrow> nat \<Rightarrow> u8 list \<Rightarrow> u32 \<times> nat" where
  "psync_crc32c_init has_hw crc addr data =
     (let crc_hashw = (if has_hw then 1 else 0) + 1 in
      (if crc_hashw = 2 then psync_crc32c_hw crc addr data else psync_crc32c_sw crc addr data, crc_hashw))"

definition psync_crc32c :: "bool \<Rightarrow> nat \<Rightarrow> u32 \<Rightarrow> nat \<Rightarrow> u8 list \<Rightarrow> u32 \<times> nat" where
  "psync_crc32c has_hw crc_hashw crc addr data =
     (if crc_hashw = 2 then (psync_crc32c_hw crc addr data, crc_hashw)
      else if crc_hashw = 1 then (psync_crc32c_sw crc addr data, crc_hashw)
      else psync_crc32c_init has_hw crc addr data)"

end
