(* ===== verification/CrcView.thy ===== *)
theory CrcView
  imports Crc
begin

unbundle bit_operations_syntax

text \<open>
  The CRC computed with the tables or with the instruction is the one computed bit by bit: both are linear
  over exclusive or, so it is enough that the tables are right at the powers of two.
\<close>

section \<open>Linear functions and their tables\<close>

lemma length_xor_span: "length (xor_span bs) = 2 ^ length bs"
  by (induction bs) (simp_all add: length_concat sum_list_triv o_def)

lemma nth_doubled: "i < 2 * length xs \<Longrightarrow> concat (map (\<lambda>x. [x, f x]) xs) ! i = (if even i then xs ! (i div 2) else f (xs ! (i div 2)))"
proof (induction xs arbitrary: i)
  case (Cons x xs)
  show ?case
  proof (cases "i < 2")
    case True
    then have "i = 0 \<or> i = 1" by auto
    then show ?thesis by auto
  next
    case False
    then obtain j where j: "i = Suc (Suc j)" using that [of "i - 2"] by simp
    then have "j < 2 * length xs" using Cons.prems by simp
    from Cons.IH [OF this] show ?thesis unfolding j by (simp only: list.map concat.simps append_Cons append_Nil nth_Cons_Suc even_Suc_Suc_iff div2_Suc_Suc)
  qed
qed simp

lemma nth_xor_span:
  assumes lin: "\<And>a b. f (a XOR b) = f a XOR f b"
  shows "i < 2 ^ n \<Longrightarrow> xor_span (map (\<lambda>j. f (2 ^ (j + m))) [0..<n]) ! i = f (push_bit m (of_nat i :: u32))"
proof (induction n arbitrary: i m)
  case 0
  have "f (0 XOR 0) = f 0 XOR f 0" by (rule lin)
  then show ?case using 0 by simp
next
  case (Suc n)
  have f0: "f 0 = 0" using lin [of 0 0] by simp
  let ?bs = "map (\<lambda>j. f (2 ^ (j + Suc m))) [0..<n]"
  have bs: "map (\<lambda>j. f (2 ^ (j + m))) [0..<Suc n] = f (2 ^ m) # ?bs"
    by (simp add: upt_conv_Cons map_Suc_upt [symmetric] del: upt_Suc)
  have l: "i < 2 * length (xor_span ?bs)" using Suc.prems by (simp add: length_xor_span)
  have half: "xor_span ?bs ! (i div 2) = f (push_bit (Suc m) (of_nat (i div 2)))"
    by (rule Suc.IH) (use Suc.prems in auto)
  have i: "(of_nat i :: u32) = push_bit 1 (of_nat (i div 2)) XOR (if even i then 0 else 1)"
  proof (cases "even i")
    case True
    then show ?thesis by (auto simp: push_bit_eq_mult elim!: evenE)
  next
    case False
    then obtain q where q: "i = 2 * q + 1" by (elim oddE)
    have "push_bit 1 (of_nat q :: u32) XOR 1 = push_bit 1 (of_nat q) + 1" by (simp add: xor_one_eq push_bit_eq_mult)
    then show ?thesis using q by (simp add: push_bit_eq_mult)
  qed
  have "push_bit m (of_nat i :: u32) = push_bit (Suc m) (of_nat (i div 2)) XOR (if even i then 0 else 2 ^ m)"
    by (subst i) (simp add: push_bit_xor)
  then show ?case using nth_doubled [OF l, of "\<lambda>x. x XOR f (2 ^ m)"] half f0 unfolding bs by (simp add: lin)
qed

section \<open>The tables\<close>

lemma sh_numeral:
  "sh (numeral (num.Bit0 k)) = drop_bit 1 (numeral (num.Bit0 k))"
  "sh (numeral (num.Bit1 k)) = drop_bit 1 (numeral (num.Bit1 k)) XOR 0x82f63b78"
  "sh 1 = 0x82f63b78"
  by (auto simp: sh_def' bit_0)

lemma pow8: "(sh ^^ 8) x = sh (sh (sh (sh (sh (sh (sh (sh x)))))))"
  by (simp add: eval_nat_numeral)

definition basis :: "nat \<Rightarrow> u32 list" where
  "basis k = map (\<lambda>j. (sh ^^ (8 * Suc k)) (2 ^ (j + 0))) [0..<8]"

lemma basis_Suc: "basis (Suc k) = map (sh ^^ 8) (basis k)"
proof -
  have "(sh ^^ 8) ((sh ^^ (8 * Suc k)) x) = (sh ^^ (8 * Suc (Suc k))) x" for x
    by (simp add: funpow_add [symmetric, THEN fun_cong, unfolded o_def])
  then show ?thesis by (simp only: basis_def map_map o_def)
qed

lemma basis_step: "basis j = bs \<Longrightarrow> k = Suc j \<Longrightarrow> basis k = map (sh ^^ 8) bs"
  by (simp add: basis_Suc)

lemma basis_0: "basis 0 =
    [0xf26b8303, 0xe13b70f7, 0xc79a971f, 0x8ad958cf, 0x105ec76f, 0x20bd8ede, 0x417b1dbc, 0x82f63b78]"
  by (simp add: basis_def upt_rec pow8 sh_numeral)

lemma basis_1: "basis 1 =
    [0x13a29877, 0x274530ee, 0x4e8a61dc, 0x9d14c3b8, 0x3fc5f181, 0x7f8be302, 0xff17c604, 0xfbc3faf9]"
  using basis_step [OF basis_0, of 1] by (simp add: pow8 sh_numeral)

lemma basis_2: "basis 2 =
    [0xa541927e, 0x4f6f520d, 0x9edea41a, 0x38513ec5, 0x70a27d8a, 0xe144fb14, 0xc76580d9, 0x8b277743]"
  using basis_step [OF basis_1, of 2] by (simp add: pow8 sh_numeral)

lemma basis_3: "basis 3 =
    [0xdd45aab8, 0xbf672381, 0x7b2231f3, 0xf64463e6, 0xe964b13d, 0xd725148b, 0xaba65fe7, 0x52a0c93f]"
  using basis_step [OF basis_2, of 3] by (simp add: pow8 sh_numeral)

lemma basis_4: "basis 4 =
    [0x38116fac, 0x7022df58, 0xe045beb0, 0xc5670b91, 0x8f2261d3, 0x1ba8b557, 0x37516aae, 0x6ea2d55c]"
  using basis_step [OF basis_3, of 4] by (simp add: pow8 sh_numeral)

lemma basis_5: "basis 5 =
    [0xef306b19, 0xdb8ca0c3, 0xb2f53777, 0x6006181f, 0xc00c303e, 0x85f4168d, 0x0e045beb, 0x1c08b7d6]"
  using basis_step [OF basis_4, of 5] by (simp add: pow8 sh_numeral)

lemma basis_6: "basis 6 =
    [0x68032cc8, 0xd0065990, 0xa5e0c5d1, 0x4e2dfd53, 0x9c5bfaa6, 0x3d5b83bd, 0x7ab7077a, 0xf56e0ef4]"
  using basis_step [OF basis_5, of 6] by (simp add: pow8 sh_numeral)

lemma basis_7: "basis 7 =
    [0x493c7d27, 0x9278fa4e, 0x211d826d, 0x423b04da, 0x847609b4, 0x0d006599, 0x1a00cb32, 0x34019664]"
  using basis_step [OF basis_6, of 7] by (simp add: pow8 sh_numeral)

lemma crc_tab_lookup: "k < 8 \<Longrightarrow> i < 256 \<Longrightarrow> crc32c_table ! k ! i = (sh ^^ (8 * Suc k)) (of_nat i)"
proof -
  assume k: "k < 8" and i: "i < 256"
  have "k \<in> {0, 1, 2, 3, 4, 5, 6, 7}" using k by auto
  then have "crc32c_table ! k = xor_span (basis k)"
    by (auto simp: crc32c_table_def
      basis_0 basis_1 [unfolded One_nat_def] basis_2 basis_3 basis_4 basis_5 basis_6 basis_7
      crc32c_table_0_span crc32c_table_1_span crc32c_table_2_span crc32c_table_3_span
      crc32c_table_4_span crc32c_table_5_span crc32c_table_6_span crc32c_table_7_span simp del: xor_span.simps)
  moreover have "xor_span (basis k) ! i = (sh ^^ (8 * Suc k)) (push_bit 0 (of_nat i))"
    unfolding basis_def by (rule nth_xor_span) (use i in \<open>auto simp: shn_xor\<close>)
  ultimately show ?thesis by simp
qed

end
