(* ===== verification/CrcShift.thy ===== *)
theory CrcShift
  imports CrcView
begin

unbundle bit_operations_syntax

text \<open>
  The table that joins the three parts of the data: it moves a CRC over a part of 1360 bytes. The 10880 steps are
  computed by doubling: the CRC after \<open>m + n\<close> steps is the product of those after \<open>m\<close> and after \<open>n\<close> steps.
\<close>

primrec mulx :: "bool list \<Rightarrow> u32 \<Rightarrow> u32" where
  "mulx [] v = 0"
| "mulx (b # bs) v = (if b then v else 0) XOR mulx bs (sh v)"

definition bits_of :: "u32 \<Rightarrow> bool list" where
  "bits_of u = map (bit u) (rev [0..<32])"

lemma sh_exp: "0 < m \<Longrightarrow> m < 32 \<Longrightarrow> sh (2 ^ m) = 2 ^ (m - 1)"
  by (rule bit_word_eqI) (auto simp: sh_def' bit_word_exp bit_drop_bit_eq)

lemma mulx_take: "m \<le> 32 \<Longrightarrow> mulx (map (bit u) (rev [0..<m])) ((sh ^^ k) (2 ^ (m - 1))) = (sh ^^ k) (take_bit m u)"
proof (induction m)
  case (Suc m)
  have "sh ((sh ^^ k) (2 ^ m)) = (sh ^^ k) (2 ^ (m - 1))" if "0 < m"
    using sh_exp [of m] that Suc.prems by (simp add: funpow_swap1)
  then show ?case using Suc by (cases "m = 0") (auto simp: take_bit_Suc_xor shn_xor xor.commute)
qed simp

lemma mulx_shn: "(sh ^^ n) u = mulx (bits_of u) ((sh ^^ n) 0x80000000)"
proof -
  have "take_bit 32 u = u" by (rule bit_word_eqI) (simp add: bit_take_bit_iff)
  then show ?thesis using mulx_take [of 32 u n] by (simp add: bits_of_def)
qed

definition pw :: "nat \<Rightarrow> u32" where "pw n = (sh ^^ n) 0x80000000"

lemma pw_add: "pw (n + m) = mulx (bits_of (pw m)) (pw n)"
  by (simp add: pw_def mulx_shn [symmetric] funpow_add)

lemma pw_double: "pw n = v \<Longrightarrow> m = n + n \<Longrightarrow> pw m = mulx (bits_of v) v"
  by (simp add: pw_add)

lemma pw_32: "pw 32 = 0x82f63b78"
proof -
  have "(sh ^^ 31) (2 ^ 31) = 1" by (rule shn_exp) simp
  then show ?thesis using funpow.simps(2) [of 31 sh] by (simp add: pw_def sh_numeral)
qed

lemma pw_64: "pw 64 = 0x6ea2d55c"
  by (subst pw_double [OF pw_32]) (simp_all add: bits_of_def upt_rec sh_numeral)

lemma pw_128: "pw 128 = 0x18b8ea18"
  by (subst pw_double [OF pw_64]) (simp_all add: bits_of_def upt_rec sh_numeral)

lemma pw_256: "pw 256 = 0x510ac59a"
  by (subst pw_double [OF pw_128]) (simp_all add: bits_of_def upt_rec sh_numeral)

lemma pw_512: "pw 512 = 0xb82be955"
  by (subst pw_double [OF pw_256]) (simp_all add: bits_of_def upt_rec sh_numeral)

lemma pw_1024: "pw 1024 = 0xb8fdb1e7"
  by (subst pw_double [OF pw_512]) (simp_all add: bits_of_def upt_rec sh_numeral)

lemma pw_2048: "pw 2048 = 0x88e56f72"
  by (subst pw_double [OF pw_1024]) (simp_all add: bits_of_def upt_rec sh_numeral)

lemma pw_4096: "pw 4096 = 0x74c360a4"
  by (subst pw_double [OF pw_2048]) (simp_all add: bits_of_def upt_rec sh_numeral)

lemma pw_8192: "pw 8192 = 0xe4172b16"
  by (subst pw_double [OF pw_4096]) (simp_all add: bits_of_def upt_rec sh_numeral)

lemma pw_join: "pw n = v \<Longrightarrow> pw m = w \<Longrightarrow> k = n + m \<Longrightarrow> pw k = mulx (bits_of w) v"
  by (simp add: pw_add)

lemma pw_10240: "pw 10240 = 0x71892b1b"
  by (subst pw_join [OF pw_8192 pw_2048]) (simp_all add: bits_of_def upt_rec sh_numeral)

lemma pw_10752: "pw 10752 = 0xd27285db"
  by (subst pw_join [OF pw_10240 pw_512]) (simp_all add: bits_of_def upt_rec sh_numeral)

lemma pw_10880: "pw 10880 = 0xd6a79573"
  by (subst pw_join [OF pw_10752 pw_128]) (simp_all add: bits_of_def upt_rec sh_numeral)


text \<open>The images of the powers of two, from the highest down, each the next step of the one before.\<close>

definition images :: "nat \<Rightarrow> u32 list" where
  "images k = map (\<lambda>j. (sh ^^ 10880) (2 ^ (j + 8 * k))) [0..<8]"

primrec steps_from :: "nat \<Rightarrow> u32 \<Rightarrow> u32 list" where
  "steps_from 0 v = []"
| "steps_from (Suc n) v = v # steps_from n (sh v)"

lemma steps_from_exp:
  "n \<le> m + 1 \<Longrightarrow> m < 32 \<Longrightarrow> steps_from n ((sh ^^ k) (2 ^ m)) = map (\<lambda>j. (sh ^^ k) (2 ^ (m - j))) [0..<n]"
proof (induction n arbitrary: m)
  case (Suc n)
  show ?case
  proof (cases "n = 0")
    case False
    have "sh ((sh ^^ k) (2 ^ m)) = (sh ^^ k) (2 ^ (m - 1))"
      using sh_exp [of m] False Suc.prems by (simp add: funpow_swap1)
    moreover have "map (\<lambda>j. (sh ^^ k) (2 ^ (m - j))) [0..<Suc n] = (sh ^^ k) (2 ^ m) # map (\<lambda>j. (sh ^^ k) (2 ^ (m - 1 - j))) [0..<n]"
      by (simp add: upt_conv_Cons map_Suc_upt [symmetric] del: upt_Suc)
    ultimately show ?thesis using Suc.IH [of "m - 1"] Suc.prems False by simp
  qed simp
qed simp


definition cols :: "u32 list" where
  "cols = [0xd6a79573, 0xe9a5f1c1, 0xf624c398, 0x7b1261cc, 0x3d8930e6, 0x1ec49873, 0x8d947741, 0xc43c00d8, 0x621e006c, 0x310f0036, 0x1887801b, 0x8eb5fb75, 0xc5acc6c2, 0x62d66361, 0xb39d0ac8, 0x59ce8564, 0x2ce742b2, 0x1673a159, 0x89cfebd4, 0x44e7f5ea, 0x2273faf5, 0x93cfc602, 0x49e7e301, 0xa605caf8, 0x5302e57c, 0x298172be, 0x14c0b95f, 0x889667d7, 0xc6bd0893, 0xe1a8bf31, 0xf22264e0, 0x79113270]"

lemma steps_from_numeral: "steps_from (numeral k) v = v # steps_from (pred_numeral k) (sh v)"
  by (simp add: numeral_eq_Suc)

lemma cols_steps: "cols = steps_from 32 (pw 10880)"
  unfolding pw_10880 by (simp add: cols_def steps_from_numeral sh_numeral)

lemma cols_nth: "j < 32 \<Longrightarrow> (sh ^^ 10880) (2 ^ j) = cols ! (31 - j)"
proof -
  assume j: "j < 32"
  have "[0..<32] ! (31 - j) = 31 - j" using nth_upt [of 0 "31 - j" 32] j by simp
  then show ?thesis using steps_from_exp [of 32 31 10880] j by (simp add: cols_steps pw_def del: upt_Suc)
qed

lemma images_cols: "k < 4 \<Longrightarrow> images k = map (\<lambda>j. cols ! (31 - (j + 8 * k))) [0..<8]"
  unfolding images_def by (rule map_cong) (auto intro!: cols_nth)

lemma images_0: "images 0 = [0x79113270, 0xf22264e0, 0xe1a8bf31, 0xc6bd0893, 0x889667d7, 0x14c0b95f, 0x298172be, 0x5302e57c]"
  by (simp add: images_cols cols_def upt_rec)

lemma images_1: "images 1 = [0xa605caf8, 0x49e7e301, 0x93cfc602, 0x2273faf5, 0x44e7f5ea, 0x89cfebd4, 0x1673a159, 0x2ce742b2]"
  by (simp add: images_cols cols_def upt_rec)

lemma images_2: "images 2 = [0x59ce8564, 0xb39d0ac8, 0x62d66361, 0xc5acc6c2, 0x8eb5fb75, 0x1887801b, 0x310f0036, 0x621e006c]"
  by (simp add: images_cols cols_def upt_rec)

lemma images_3: "images 3 = [0xc43c00d8, 0x8d947741, 0x1ec49873, 0x3d8930e6, 0x7b1261cc, 0xf624c398, 0xe9a5f1c1, 0xd6a79573]"
  by (simp add: images_cols cols_def upt_rec)

lemma nth_images: "i < 256 \<Longrightarrow> xor_span (images k) ! i = (sh ^^ 10880) (push_bit (8 * k) (of_nat i))"
  unfolding images_def by (rule nth_xor_span) (auto simp: shn_xor)

lemma shift_tables:
  assumes "i < 256"
  shows "crc32c_shift_chunk_table1360_0 ! i = (sh ^^ 10880) (of_nat i)"
    "crc32c_shift_chunk_table1360_1 ! i = (sh ^^ 10880) (push_bit 8 (of_nat i))"
    "crc32c_shift_chunk_table1360_2 ! i = (sh ^^ 10880) (push_bit 16 (of_nat i))"
    "crc32c_shift_chunk_table1360_3 ! i = (sh ^^ 10880) (push_bit 24 (of_nat i))"
  unfolding crc32c_shift_chunk_table1360_0_span crc32c_shift_chunk_table1360_1_span
    crc32c_shift_chunk_table1360_2_span crc32c_shift_chunk_table1360_3_span
    images_0 [symmetric] images_1 [symmetric] images_2 [symmetric] images_3 [symmetric] nth_images [OF assms]
  by simp_all

lemma quarters:
  "c = (c AND 0xff) XOR push_bit 8 (drop_bit 8 c AND 0xff) XOR push_bit 16 (drop_bit 16 c AND 0xff) XOR push_bit 24 (drop_bit 24 c :: u32)"
proof -
  have m: "(0xff :: u32) = mask 8" by (simp add: mask_eq_exp_minus_1)
  show ?thesis unfolding m
    by (rule bit_word_eqI) (auto simp: bit_xor_iff bit_and_iff bit_mask_iff bit_push_bit_iff bit_drop_bit_eq)
qed

lemma crc32c_shift_chunk_sh: "crc32c_shift_chunk c = (sh ^^ 10880) c"
proof -
  have u: "unat (a AND 0xff) < 256" for a :: u32
  proof -
    have "a AND 0xff = take_bit 8 a" by (simp add: take_bit_eq_mask mask_eq_exp_minus_1)
    then show ?thesis using take_bit_nat_less_exp [of 8 "unat a"] by (simp add: unsigned_take_bit_eq)
  qed
  have "unat c < 2 ^ 32" using unsigned_less [of c] by simp
  then have t: "unat (drop_bit 24 c) < 256" by (simp add: unat_div drop_bit_eq_div)
  have inv: "of_nat (unat a) = a" for a :: u32 by simp
  have "(sh ^^ 10880) c = (sh ^^ 10880) ((c AND 0xff) XOR push_bit 8 (drop_bit 8 c AND 0xff)
      XOR push_bit 16 (drop_bit 16 c AND 0xff) XOR push_bit 24 (drop_bit 24 c))"
    using quarters [of c] by simp
  then show ?thesis
    using shift_tables(1) [OF u [of c]] shift_tables(2) [OF u [of "drop_bit 8 c"]] shift_tables(3) [OF u [of "drop_bit 16 c"]]
      shift_tables(4) [OF t]
    by (simp only: crc32c_shift_chunk_def shn_xor inv)
qed

end
