(* ===== verification/CrcUse.thy ===== *)
theory CrcUse
  imports CrcShift
begin

unbundle bit_operations_syntax

text \<open>
  \<^verbatim>\<open>psync_crc32c\<close> computes the CRC bit by bit, whatever the processor, the alignment and the length; and the CRC
  tells messages apart that differ in up to four adjacent bytes.
\<close>

section \<open>Bytes of words\<close>

lemma byte_plus: "bit (unat b + 256 * m) i \<longleftrightarrow> (if i < 8 then bit (b :: u8) i else bit m (i - 8))"
proof -
  have "unat b + 256 * m = unat b OR push_bit 8 m"
  proof -
    have "unat b AND push_bit 8 m = 0"
      by (rule bit_eqI) (auto simp: bit_and_iff bit_push_bit_iff bit_unsigned_iff dest: bit_imp_le_length)
    then show ?thesis using disjunctive_add_eq_or [of "unat b" "push_bit 8 m"] by (simp add: push_bit_eq_mult)
  qed
  then show ?thesis
    by (auto simp: bit_or_iff bit_push_bit_iff bit_unsigned_iff dest: bit_imp_le_length)
qed

lemma bit_le_load: "bit (le_load bs) i \<longleftrightarrow> i div 8 < length bs \<and> bit (bs ! (i div 8)) (i mod 8)"
proof (induction bs arbitrary: i)
  case (Cons b bs)
  show ?case
  proof (cases "i < 8")
    case True
    then show ?thesis unfolding le_load.simps byte_plus by simp
  next
    case False
    then obtain j where j: "i = j + 8" using that [of "i - 8"] by simp
    then have "i div 8 = Suc (j div 8)" "i mod 8 = j mod 8" by simp_all
    then show ?thesis using Cons.IH [of j] j unfolding le_load.simps byte_plus by simp
  qed
qed simp

lemma bit_word_of_nat: "bit (of_nat n :: 'a :: len word) i \<longleftrightarrow> i < LENGTH('a) \<and> bit n i"
  by transfer (simp add: bit_take_bit_iff bit_of_nat_iff_bit)

lemma insn_bytes:
  "\<forall>i<8 * length bs. bit src i \<longleftrightarrow> bit (bs ! (i div 8)) (i mod 8) \<Longrightarrow> crc32_insn (8 * length bs) c src = crc32c c bs"
proof (induction bs rule: rev_induct)
  case Nil
  then show ?case by (simp add: crc32_insn_def)
next
  case (snoc b bs)
  have b: "bit src (8 * length bs + i) = bit b i" if "i < 8" for i
    using snoc.prems [rule_format, of "8 * length bs + i"] that by simp
  have bs: "\<forall>i<8 * length bs. bit src i \<longleftrightarrow> bit (bs ! (i div 8)) (i mod 8)"
    using snoc.prems by (auto simp: nth_append split: if_splits)
  have u: "[0..<8 * length (bs @ [b])] = [0..<8 * length bs] @ map (\<lambda>i. 8 * length bs + i) [0..<8]"
    using upt_add_eq_append [of 0 "8 * length bs" 8] map_add_upt [of "8 * length bs" 8] by (simp add: add.commute)
  have "crc32_insn (8 * length (bs @ [b])) c src = fold (\<lambda>i c. crc_bit c (bit b i)) [0..<8] (crc32_insn (8 * length bs) c src)"
    unfolding crc32_insn_def u fold_append o_apply fold_map by (intro fold_cong) (auto simp: b)
  also have "\<dots> = crc32_insn 8 (crc32c c bs) b" using snoc.IH [OF bs] by (simp add: crc32_insn_def)
  also have "\<dots> = crc32c c (bs @ [b])" by (simp add: crc32c_append insn_8)
  finally show ?case .
qed

section \<open>The steps of the tables\<close>

lemma shn_shn: "(sh ^^ a) ((sh ^^ b) x) = (sh ^^ (a + b)) x"
  by (simp add: funpow_add)

lemma crc_tab_sh: "k < 8 \<Longrightarrow> crc_tab k i = (sh ^^ (8 * Suc k)) (i AND 0xff)"
proof -
  assume k: "k < 8"
  have "i AND 0xff = take_bit 8 i" by (simp add: take_bit_eq_mask mask_eq_exp_minus_1)
  then have "unat (i AND 0xff) < 256" using take_bit_nat_less_exp [of 8 "unat i"] by (simp add: unsigned_take_bit_eq)
  then show ?thesis using crc_tab_lookup [OF k] by (simp add: crc_tab_def)
qed

lemma sh8_split: "(sh ^^ 8) u = (sh ^^ 8) (u AND 0xff) XOR drop_bit 8 u"
proof -
  have m: "(0xff :: u32) = mask 8" by (simp add: mask_eq_exp_minus_1)
  have u: "u = (u AND 0xff) XOR push_bit 8 (drop_bit 8 u)"
    unfolding m by (rule bit_word_eqI) (auto simp: bit_xor_iff bit_and_iff bit_mask_iff bit_push_bit_iff bit_drop_bit_eq)
  have "(sh ^^ 8) (push_bit 8 (drop_bit 8 u)) = drop_bit 8 (push_bit 8 (drop_bit 8 u))"
    by (rule shn_drop) (simp add: bit_push_bit_iff)
  also have "\<dots> = drop_bit 8 u" by (rule bit_word_eqI) (auto simp: bit_push_bit_iff bit_drop_bit_eq dest: bit_imp_le_length)
  finally show ?thesis by (subst u) (simp only: shn_xor)
qed

lemma CRC32C_8BIT_insn: "CRC32C_8BIT c b = crc32_insn 8 c b"
proof -
  have "drop_bit 8 (c XOR ucast b) = drop_bit 8 c"
    by (rule bit_word_eqI) (auto simp: bit_drop_bit_eq bit_xor_iff bit_ucast_iff dest: bit_imp_le_length)
  then show ?thesis using sh8_split [of "c XOR ucast b"] by (simp add: CRC32C_8BIT_def crc_tab_sh insn_8)
qed

lemma sh_quarters:
  "(sh ^^ (n + 32)) c = (sh ^^ (n + 32)) (c AND 0xff) XOR (sh ^^ (n + 24)) (drop_bit 8 c AND 0xff)
     XOR (sh ^^ (n + 16)) (drop_bit 16 c AND 0xff) XOR (sh ^^ (n + 8)) (drop_bit 24 c AND 0xff)"
proof -
  have s: "(sh ^^ (m + 8)) u = (sh ^^ (m + 8)) (u AND 0xff) XOR (sh ^^ m) (drop_bit 8 u)" for m u
    using sh8_split [of u] by (simp add: funpow_add shn_xor)
  have "drop_bit 8 (drop_bit 24 c) = 0"
    by (rule bit_word_eqI) (auto simp: bit_drop_bit_eq dest: bit_imp_le_length)
  then show ?thesis
    using s [of "n + 24" c] s [of "n + 16" "drop_bit 8 c"] s [of "n + 8" "drop_bit 16 c"] s [of n "drop_bit 24 c"]
    by (simp add: add.assoc xor.assoc)
qed

lemma mask_ff: "(0xff :: 'a :: len word) = mask 8" by (simp add: mask_eq_exp_minus_1)

lemma byte_of_load:
  "j < length bs \<Longrightarrow> 8 * length bs \<le> LENGTH('a) \<Longrightarrow> drop_bit (8 * j) (of_nat (le_load bs) :: 'a :: len word) AND 0xff = ucast (bs ! j)"
  unfolding mask_ff
proof (rule bit_word_eqI)
  fix n assume a: "j < length bs" "8 * length bs \<le> LENGTH('a)" "n < LENGTH('a)"
  have "bit (bs ! j) n \<Longrightarrow> n < 8" using bit_imp_le_length [of "bs ! j" n] by simp
  then show "bit (drop_bit (8 * j) (of_nat (le_load bs) :: 'a word) AND mask 8) n \<longleftrightarrow> bit (ucast (bs ! j) :: 'a word) n"
    using a by (auto simp: bit_and_iff bit_drop_bit_eq bit_word_of_nat bit_le_load bit_mask_iff bit_ucast_iff)
qed

lemma ucast_byte [simp]: "ucast (b :: u8) AND (0xff :: u32) = ucast b"
  unfolding mask_ff by (rule bit_word_eqI) (auto simp: bit_and_iff bit_mask_iff bit_ucast_iff dest: bit_imp_le_length)

lemma and_xor: "(a XOR b) AND m = (a AND m) XOR (b AND (m :: 'a :: len word))"
  by (rule bit_word_eqI) (auto simp: bit_and_iff bit_xor_iff)

lemma eight_bytes: "8 \<le> length d \<Longrightarrow> \<exists>a b c e f g h i r. d = a # b # c # e # f # g # h # i # r"
  by (auto simp: Suc_le_length_iff eval_nat_numeral)

lemma crc32c_8:
  "crc32c c [d0, d1, d2, d3, d4, d5, d6, d7] =
     (sh ^^ 64) (c AND 0xff XOR ucast d0) XOR (sh ^^ 56) (drop_bit 8 c AND 0xff XOR ucast d1)
     XOR (sh ^^ 48) (drop_bit 16 c AND 0xff XOR ucast d2) XOR (sh ^^ 40) (drop_bit 24 c AND 0xff XOR ucast d3)
     XOR (sh ^^ 32) (ucast d4) XOR (sh ^^ 24) (ucast d5) XOR (sh ^^ 16) (ucast d6) XOR (sh ^^ 8) (ucast d7)"
  using sh_quarters [of 32 c] by (simp only: crc32c_simps shn_xor shn_shn, simp add: ac_simps)

lemma CRC32C_64BIT_crc: "8 \<le> length d \<Longrightarrow> CRC32C_64BIT c d = crc32c c (take 8 d)"
proof -
  assume "8 \<le> length d"
  then obtain d0 d1 d2 d3 d4 d5 d6 d7 r where d: "d = d0 # d1 # d2 # d3 # d4 # d5 # d6 # d7 # r" using eight_bytes by blast
  have l: "drop_bit (8 * j) (of_nat (le_load [d0, d1, d2, d3]) :: u32) AND 0xff = ucast ([d0, d1, d2, d3] ! j)" if "j < 4" for j
    by (rule byte_of_load) (use that in auto)
  have "of_nat (le_load [d0, d1, d2, d3]) AND (0xff :: u32) = ucast d0"
    "drop_bit 8 (of_nat (le_load [d0, d1, d2, d3])) AND (0xff :: u32) = ucast d1"
    "drop_bit 16 (of_nat (le_load [d0, d1, d2, d3])) AND (0xff :: u32) = ucast d2"
    "drop_bit 24 (of_nat (le_load [d0, d1, d2, d3])) AND (0xff :: u32) = ucast d3"
    using l [of 0] l [of 1] l [of 2] l [of 3] by (simp_all del: le_load.simps)
  then show ?thesis unfolding d CRC32C_64BIT_def
    by (simp add: Let_def crc_tab_sh drop_bit_xor and_xor crc32c_8 del: le_load.simps crc32c_simps)
qed

lemma CRC32_WORD_HW_crc: "8 \<le> length d \<Longrightarrow> CRC32_WORD_HW c d = crc32c c (take 8 d)"
proof -
  assume "8 \<le> length d"
  then have l: "length (take 8 d) = 8" by simp
  have "crc32_insn (8 * length (take 8 d)) c (of_nat (le_load (take 8 d)) :: u64) = crc32c c (take 8 d)"
    by (rule insn_bytes) (auto simp: bit_word_of_nat bit_le_load l)
  then show ?thesis by (simp only: CRC32_WORD_HW_def l mult_numeral_left_semiring_numeral, simp)
qed

section \<open>The loops\<close>

text \<open>What the two variants have in common: a step on a byte and one on eight bytes.\<close>

locale crc_steps =
  fixes byte :: "u32 \<Rightarrow> u8 \<Rightarrow> u32" and group :: "u32 \<Rightarrow> u8 list \<Rightarrow> u32"
  assumes byte: "byte c b = crc32_insn 8 c b"
    and group: "8 \<le> length d \<Longrightarrow> group c d = crc32c c (take 8 d)"
begin

lemma aligning: "crc_aligning w byte addr c d = (c', d') \<Longrightarrow> crc32c c' d' = crc32c c d"
  by (induction d arbitrary: addr c) (auto simp: byte insn_8 split: if_splits)

lemma rest: "crc_rest byte c d = crc32c c d"
  by (induction d arbitrary: c) (simp_all add: byte insn_8)

lemma groups: "8 * n \<le> length d \<Longrightarrow> crc_groups n group c d = (c', d') \<Longrightarrow> crc32c c' d' = crc32c c d"
proof (induction n arbitrary: c d)
  case (Suc n)
  have "crc32c c d = crc32c (group c d) (drop 8 d)"
    using crc32c_append [of c "take 8 d" "drop 8 d"] group [of d c] Suc.prems by simp
  then show ?case using Suc.IH [of "drop 8 d" "group c d"] Suc.prems by simp
qed simp

lemma blocks: "crc_blocks n group c d = (c', d') \<Longrightarrow> crc32c c' d' = crc32c c d"
proof (induction "length d" arbitrary: c d rule: less_induct)
  case less
  show ?case
  proof (cases "0 < n \<and> 8 * n \<le> length d")
    case True
    obtain c1 d1 where g: "crc_groups n group c d = (c1, d1)" by (cases "crc_groups n group c d") simp
    have "length d1 < length d" using snd_crc_groups [of n group c d] g True by auto
    moreover have "crc_blocks n group c1 d1 = (c', d')" using less.prems True g by (subst (asm) crc_blocks.simps) simp
    ultimately show ?thesis using less.hyps groups [OF _ g] True by simp
  next
    case False
    then show ?thesis using less.prems by (subst (asm) crc_blocks.simps) auto
  qed
qed

end

interpretation tables: crc_steps CRC32C_8BIT CRC32C_64BIT
  by unfold_locales (simp_all add: CRC32C_8BIT_insn CRC32C_64BIT_crc)

interpretation insn: crc_steps CRC32C_8BIT_HW CRC32_WORD_HW
  by unfold_locales (simp_all add: CRC32C_8BIT_HW_def CRC32_WORD_HW_crc)

section \<open>The three parts\<close>

lemma take_8_more: "8 + n \<le> length d \<Longrightarrow> crc32c (CRC32_WORD_HW c d) (take n (drop 8 d)) = crc32c c (take (8 + n) d)"
  by (simp add: CRC32_WORD_HW_crc take_add crc32c_append)

lemma crc_parallel_crc:
  "2720 + 8 * Suc n \<le> length d \<Longrightarrow>
   crc_parallel (8 * Suc n) c0 c1 c2 d =
     (crc32c c0 (take (8 * Suc n) d), crc32c c1 (take (8 * Suc n) (drop 1360 d)),
      crc32c c2 (take (8 * Suc n) (drop 2720 d)), drop (8 * Suc n) d)"
proof (induction n arbitrary: c0 c1 c2 d)
  case 0
  then show ?case by (simp add: crc_parallel.simps [of 8] Let_def CRC32_PARALLEL_CHUNK_def CRC32_WORD_HW_crc)
next
  case (Suc n)
  have d: "drop a (drop 8 d) = drop 8 (drop a d)" for a by (simp add: add.commute)
  have n: "8 * Suc (Suc n) - 8 = 8 * Suc n" "8 * Suc (Suc n) = 8 + 8 * Suc n" "8 < 8 * Suc (Suc n)" by simp_all
  have l: "2720 + 8 * Suc n \<le> length (drop 8 d)" using Suc.prems by simp
  have "crc_parallel (8 * Suc (Suc n)) c0 c1 c2 d =
      crc_parallel (8 * Suc n) (CRC32_WORD_HW c0 d) (CRC32_WORD_HW c1 (drop 1360 d)) (CRC32_WORD_HW c2 (drop 2720 d)) (drop 8 d)"
    by (subst crc_parallel.simps) (simp only: Let_def n if_True CRC32_PARALLEL_CHUNK_def, simp)
  also have "\<dots> = (crc32c c0 (take (8 + 8 * Suc n) d), crc32c c1 (take (8 + 8 * Suc n) (drop 1360 d)),
      crc32c c2 (take (8 + 8 * Suc n) (drop 2720 d)), drop (8 + 8 * Suc n) d)"
  proof -
    have "crc32c (CRC32_WORD_HW c (drop a d)) (take (8 * Suc n) (drop a (drop 8 d))) = crc32c c (take (8 + 8 * Suc n) (drop a d))"
      if "a \<le> 2720" for c a
      unfolding d by (rule take_8_more) (use that Suc.prems in simp)
    from this [of 0 c0] this [of 1360 c1] this [of 2720 c2] show ?thesis
      unfolding Suc.IH [OF l] by (simp only: drop_0, simp only: drop_drop add.commute)
  qed
  finally show ?case by (simp only: n)
qed

lemma crc_join: "length ys = 1360 \<Longrightarrow> crc32c_shift_chunk (crc32c c xs) XOR crc32c 0 ys = crc32c c (xs @ ys)"
  using crc32c_xor [of "crc32c c xs" 0 ys] by (simp add: crc32c_append crc32c_shift_chunk_sh)

lemma crc_chunks_crc: "crc_chunks c d = (c', d') \<Longrightarrow> crc32c c' d' = crc32c c d"
proof (induction "length d" arbitrary: c d rule: less_induct)
  case less
  show ?case
  proof (cases "4080 \<le> length d")
    case True
    let ?x = "take 1360 d" and ?y = "take 1360 (drop 1360 d)" and ?z = "take 1360 (drop 2720 d)"
    let ?c = "crc32c c (?x @ ?y @ ?z)"
    have "crc_parallel 1360 c 0 0 d = (crc32c c ?x, crc32c 0 ?y, crc32c 0 ?z, drop 1360 d)"
      using crc_parallel_crc [of 169 d c 0 0] True by simp
    moreover have "crc32c_shift_chunk (crc32c_shift_chunk (crc32c c ?x) XOR crc32c 0 ?y) XOR crc32c 0 ?z = ?c"
      using crc_join [of ?y c ?x] crc_join [of ?z c "?x @ ?y"] True by simp
    ultimately have "crc_chunks c d = crc_chunks ?c (drop 4080 d)"
      using True by (subst crc_chunks.simps) (simp add: CRC32_PARALLEL_CHUNK_def Let_def)
    then have "crc32c c' d' = crc32c ?c (drop 4080 d)" using less True by simp
    also have "\<dots> = crc32c c ((?x @ ?y @ ?z) @ drop 4080 d)" by (simp only: crc32c_append)
    also have "(?x @ ?y @ ?z) @ drop 4080 d = d"
      using take_add [of 1360 1360 d] take_add [of 2720 1360 d] append_take_drop_id [of 4080 d] by simp
    finally show ?thesis .
  next
    case False
    then show ?thesis using less.prems by (subst (asm) crc_chunks.simps) (simp add: CRC32_PARALLEL_CHUNK_def)
  qed
qed

lemma psync_crc32c_sw_crc: "psync_crc32c_sw c addr d = crc32c c d"
  by (auto simp: psync_crc32c_sw_def tables.rest split: prod.split dest!: tables.aligning tables.blocks)

lemma psync_crc32c_hw_crc: "psync_crc32c_hw c addr d = crc32c c d"
  by (auto simp: psync_crc32c_hw_def insn.rest split: prod.split dest!: insn.aligning insn.blocks crc_chunks_crc)

lemma fst_psync_crc32c: "fst (psync_crc32c has_hw crc_hashw crc addr data) = crc32c crc data"
  by (simp add: psync_crc32c_def psync_crc32c_init_def psync_crc32c_sw_crc psync_crc32c_hw_crc Let_def)

text \<open>
  C20. The checksum is the CRC computed bit by bit, with or without the instruction of the processor, wherever the
  data is in memory.
\<close>

theorem psync_crc32c_correct: "fst (psync_crc32c has_hw crc_hashw crc addr data) = crc32c crc data"
  by (rule fst_psync_crc32c)

section \<open>What the CRC detects\<close>

lemma sh_inj: "sh a = sh b \<Longrightarrow> a = b"
proof -
  assume ab: "sh a = sh b"
  have top: "bit (sh c) 31 = bit c 0" for c
    by (auto simp: sh_def' bit_xor_iff bit_drop_bit_eq dest: bit_imp_le_length)
  have low: "bit c (Suc i) = (bit (sh c) i \<noteq> (bit c 0 \<and> bit (0x82f63b78 :: u32) i))" for c i
    by (auto simp: sh_def' bit_xor_iff bit_drop_bit_eq)
  have z: "bit a 0 = bit b 0" using ab top by metis
  have "bit a i = bit b i" for i
    by (cases i) (use z ab low in simp_all)
  then show "a = b" by (intro bit_word_eqI) simp
qed

lemma shn_inj: "(sh ^^ n) a = (sh ^^ n) b \<Longrightarrow> a = b"
  by (induction n) (auto dest: sh_inj)

lemma xor_right_eq: "a XOR b = c XOR b \<Longrightarrow> a = (c :: u32)"
proof -
  assume "a XOR b = c XOR b"
  then have "(a XOR b) XOR b = (c XOR b) XOR b" by simp
  then show "a = c" by (simp only: xor.assoc xor_self_eq xor.right_neutral)
qed

lemma crc32c_inj: "crc32c a bs = crc32c b bs \<Longrightarrow> a = b"
proof -
  assume "crc32c a bs = crc32c b bs"
  then have "(sh ^^ (8 * length bs)) a XOR crc32c 0 bs = (sh ^^ (8 * length bs)) b XOR crc32c 0 bs"
    using crc32c_xor [of a 0 bs] crc32c_xor [of b 0 bs] by simp
  from shn_inj [OF xor_right_eq [OF this]] show "a = b" .
qed

lemma crc32c_short: "length bs \<le> 4 \<Longrightarrow> crc32c c bs = (sh ^^ (8 * length bs)) (c XOR of_nat (le_load bs))"
proof -
  assume l: "length bs \<le> 4"
  have i: "crc32_insn (8 * length bs) c (of_nat (le_load bs) :: u32) = crc32c c bs"
    by (rule insn_bytes) (use l in \<open>auto simp: bit_word_of_nat bit_le_load\<close>)
  have "take_bit (8 * length bs) (of_nat (le_load bs) :: u32) = of_nat (le_load bs)"
    by (rule bit_word_eqI) (auto simp: bit_take_bit_iff bit_word_of_nat bit_le_load)
  then show ?thesis using i insn_sh [of "8 * length bs" c "of_nat (le_load bs) :: u32"] l by simp
qed

lemma crc_burst:
  assumes "length x = length y" "length x \<le> 4" "x \<noteq> y"
  shows "crc32c crc (pre @ x @ suf) \<noteq> crc32c crc (pre @ y @ suf)"
proof
  assume "crc32c crc (pre @ x @ suf) = crc32c crc (pre @ y @ suf)"
  then have "crc32c (crc32c (crc32c crc pre) x) suf = crc32c (crc32c (crc32c crc pre) y) suf" by (simp only: crc32c_append)
  from crc32c_inj [OF this] have "of_nat (le_load x) XOR crc32c crc pre = of_nat (le_load y) XOR crc32c crc pre"
    using assms(1,2) shn_inj [of "8 * length y"] by (simp add: crc32c_short xor.commute)
  from xor_right_eq [OF this] have e: "(of_nat (le_load x) :: u32) = of_nat (le_load y)" .
  have "le_load b < 2 ^ 32" if "length b \<le> 4" for b
  proof -
    have "(256 :: nat) ^ length b \<le> 256 ^ 4" using that by (intro power_increasing) auto
    then show ?thesis using le_load_less [of b] by simp
  qed
  then have "unat (of_nat (le_load b) :: u32) = le_load b" if "length b \<le> 4" for b
    using that by (simp add: unat_of_nat)
  then have "le_load x = le_load y" using e assms(1,2) by metis
  then show False using assms(1,3) le_store_load by metis
qed

text \<open>
  Two messages that differ only in up to four adjacent bytes have different checksums.
\<close>

theorem crc_detects_burst:
  assumes "length x = length y" "length x \<le> 4" "x \<noteq> y"
  shows "fst (psync_crc32c has_hw crc_hashw crc addr (pre @ x @ suf)) \<noteq> fst (psync_crc32c has_hw' crc_hashw' crc addr' (pre @ y @ suf))"
  unfolding fst_psync_crc32c by (rule crc_burst [OF assms])

theorem crc_detects_burst_witness:
  "fst (psync_crc32c True 0 0 0 [1, 2, 3]) \<noteq> fst (psync_crc32c False 1 0 0 [1, 7, 3])"
  using crc_detects_burst [of "[2]" "[7]" True 0 0 0 "[1]" "[3]" False 1 0] by simp

end
