(* ===== verification/FastHash.thy ===== *)
theory FastHash
  imports CrcUse
begin

unbundle bit_operations_syntax

text \<open>
  The hash of the logs, \<^verbatim>\<open>psync_fast_hash256\<close> of \<^verbatim>\<open>pcrc32c.c\<close>: six words of state, blocks of 64 bytes, and a buffer
  of 64 bytes for an incomplete block, whose last byte is the number of bytes it holds. The hash depends on
  the bytes only, not on how they were cut into updates nor on the processor. What the processor has,
  \<^verbatim>\<open>crc_hashw\<close>, is an argument; the first initialisation of a context asks for it as \<open>psync_crc32c_init\<close> does.
\<close>

section \<open>The code\<close>

definition k0 :: u64 where "k0 = 0xc3a5c85c97cb3127"
definition k1 :: u64 where "k1 = 0xb492b66fbe98f273"
definition k2 :: u64 where "k2 = 0x9ae16a3b2f90404f"

definition PSYNC_FAST_HASH256_BLOCK_LEN :: nat where "PSYNC_FAST_HASH256_BLOCK_LEN = 64"

record fast_hash256_ctx =
  hstate :: "u64 list"
  hlength :: u64
  hbuff :: "u8 list"

definition memcpy :: "u8 list \<Rightarrow> nat \<Rightarrow> u8 list \<Rightarrow> u8 list" where
  "memcpy dst off src = take off dst @ src @ drop (off + length src) dst"

text \<open>The bytes of a table from its entry 2 on, and the words they are.\<close>

definition from_entry_2 :: "u32 list \<Rightarrow> u8 list" where
  "from_entry_2 t = concat (map (\<lambda>w. le_store 4 (unat w)) (drop 2 t))"

definition fh_load64 :: "u8 list \<Rightarrow> nat \<Rightarrow> u64" where
  "fh_load64 p i = of_nat (le_load (take 8 (drop (8 * i) p)))"

definition psync_fast_hash256_init :: "fast_hash256_ctx \<Rightarrow> fast_hash256_ctx" where
  "psync_fast_hash256_init ctx =
     ctx\<lparr>hstate := map (fh_load64 (from_entry_2 crc32c_table_0)) [0..<6],
         hlength := 0, hbuff := (hbuff ctx)[PSYNC_FAST_HASH256_BLOCK_LEN - 1 := 0]\<rparr>"

definition fh_shiftmix :: "u64 \<Rightarrow> u64" where "fh_shiftmix val = val XOR drop_bit 47 val"

definition fh_rotate64 :: "u64 \<Rightarrow> nat \<Rightarrow> u64" where
  "fh_rotate64 val shift = (if shift \<noteq> 0 then drop_bit shift val OR push_bit (64 - shift) val else val)"

definition fh_hashmul3 :: "u64 \<Rightarrow> u64 \<Rightarrow> u64 \<Rightarrow> u64" where
  "fh_hashmul3 u v mul = fh_shiftmix ((fh_shiftmix ((u XOR v) * mul) XOR v) * mul) * mul"

definition fh_hashmul2 :: "u64 \<Rightarrow> u64 \<Rightarrow> u64" where
  "fh_hashmul2 u v = fh_hashmul3 u v 0x9ddfea08eb382d69"

definition fh_crc32_64sw :: "u64 \<Rightarrow> u64 \<Rightarrow> u64" where
  "fh_crc32_64sw crc data = CRC32C_64BIT_UINT crc data"

definition fh_crc32_64hw :: "u64 \<Rightarrow> u64 \<Rightarrow> u64" where
  "fh_crc32_64hw crc data = ucast (crc32_insn 64 (ucast crc) data)"

text \<open>One round over the words \<open>w\<close> of a block, with the two rotations of the variables at its end.\<close>

definition ROUND_GEN :: "(u64 \<Rightarrow> u64 \<Rightarrow> u64) \<Rightarrow> (nat \<Rightarrow> u64) \<Rightarrow> u64 list \<Rightarrow> u64 list" where
  "ROUND_GEN crc w st =
     (let a = st ! 0; b = st ! 1; c = st ! 2; d = st ! 3; x = st ! 4; y = st ! 5;
          a = a + w 0; b = b + w 1; c = c + w 2; d = d + w 3;
          b = b XOR fh_rotate64 a 21; d = d XOR fh_rotate64 c 17;
          x = crc x (a + b); y = crc y (c + d);
          a = a + w 4; b = b + w 5; c = c + w 6; d = d + w 7;
          a = a XOR fh_rotate64 b 13; c = c XOR fh_rotate64 d 16;
          x = crc x (a + b); y = crc y (c + d) in
      [d, a, b, c, y, x])"

function fh_rounds :: "(u64 \<Rightarrow> u64 \<Rightarrow> u64) \<Rightarrow> u64 list \<Rightarrow> u8 list \<Rightarrow> u64 list \<times> u8 list" where
  "fh_rounds crc st cdata =
     (if PSYNC_FAST_HASH256_BLOCK_LEN \<le> length cdata
      then fh_rounds crc (ROUND_GEN crc (fh_load64 cdata) st) (drop PSYNC_FAST_HASH256_BLOCK_LEN cdata)
      else (st, cdata))"
  by auto
termination
  by (relation "measure (\<lambda>(crc, st, cdata). length cdata)") (auto simp: PSYNC_FAST_HASH256_BLOCK_LEN_def)

declare fh_rounds.simps [simp del]

definition psync_fast_hash256_update_short_sw :: "fast_hash256_ctx \<Rightarrow> u8 list \<Rightarrow> fast_hash256_ctx" where
  "psync_fast_hash256_update_short_sw ctx cdata =
     (let l = hbuff ctx ! (PSYNC_FAST_HASH256_BLOCK_LEN - 1);
          buff = (hbuff ctx)[PSYNC_FAST_HASH256_BLOCK_LEN - 1 := l + of_nat (length cdata)] in
      ctx\<lparr>hbuff := memcpy buff (unat l) cdata\<rparr>)"

text \<open>The variants with and without the instruction differ in \<open>crc\<close> only.\<close>

definition psync_fast_hash256_update_long :: "(u64 \<Rightarrow> u64 \<Rightarrow> u64) \<Rightarrow> fast_hash256_ctx \<Rightarrow> u8 list \<Rightarrow> fast_hash256_ctx" where
  "psync_fast_hash256_update_long crc ctx cdata =
     (let l = unat (hbuff ctx ! (PSYNC_FAST_HASH256_BLOCK_LEN - 1));
          (st, buff, cdata) =
            (if l \<noteq> 0 then
               let buff = memcpy (hbuff ctx) l (take (PSYNC_FAST_HASH256_BLOCK_LEN - l) cdata) in
               (ROUND_GEN crc (fh_load64 buff) (hstate ctx), buff, drop (PSYNC_FAST_HASH256_BLOCK_LEN - l) cdata)
             else (hstate ctx, hbuff ctx, cdata));
          (st, cdata) = fh_rounds crc st cdata;
          buff = memcpy buff 0 cdata in
      ctx\<lparr>hstate := st, hbuff := buff[PSYNC_FAST_HASH256_BLOCK_LEN - 1 := of_nat (length cdata)]\<rparr>)"

definition psync_fast_hash256_update :: "nat \<Rightarrow> u8 list \<Rightarrow> fast_hash256_ctx \<Rightarrow> fast_hash256_ctx" where
  "psync_fast_hash256_update crc_hashw data ctx =
     (let ctx = ctx\<lparr>hlength := hlength ctx + of_nat (length data)\<rparr> in
      if length data + unat (hbuff ctx ! (PSYNC_FAST_HASH256_BLOCK_LEN - 1)) < PSYNC_FAST_HASH256_BLOCK_LEN
      then psync_fast_hash256_update_short_sw ctx data
      else if crc_hashw = 2 then psync_fast_hash256_update_long fh_crc32_64hw ctx data
      else psync_fast_hash256_update_long fh_crc32_64sw ctx data)"

text \<open>The end of the hash, on the buffer filled up.\<close>

definition fh_finish :: "(u64 \<Rightarrow> u64 \<Rightarrow> u64) \<Rightarrow> u64 list \<Rightarrow> u64 \<Rightarrow> u8 list \<Rightarrow> u8 list" where
  "fh_finish crc st len buff =
     (let w = (fh_load64 buff)(0 := fh_load64 buff 0 + len * k0, 1 := fh_load64 buff 1 XOR fh_hashmul2 len k0,
                2 := fh_load64 buff 2 XOR len * k1, 3 := fh_load64 buff 3 - len * k2);
          st = ROUND_GEN crc w st;
          a = st ! 0; b = st ! 1; c = st ! 2; d = st ! 3; x = st ! 4; y = st ! 5;
          d = d XOR fh_rotate64 a 43; a = a + fh_rotate64 b 42; b = b XOR fh_rotate64 c 41; c = c + fh_rotate64 d 40;
          a = fh_hashmul2 a (x + b); b = fh_hashmul2 b (y + c); c = fh_hashmul2 c (x + d); d = fh_hashmul2 d (y + a);
          h0 = a + b + y + x;
          h1 = fh_shiftmix ((a + x) * k0) * k0 + b;
          h2 = fh_shiftmix ((c XOR y) * k1) * k1 + d;
          h3 = fh_shiftmix ((x - y) * k2) * k2 + (c XOR d) in
      concat (map (\<lambda>h. le_store 8 (unat h)) [h0, h1, h2, h3]))"

definition psync_fast_hash256_final :: "nat \<Rightarrow> fast_hash256_ctx \<Rightarrow> u8 list" where
  "psync_fast_hash256_final crc_hashw ctx =
     (let len = unat (hbuff ctx ! (PSYNC_FAST_HASH256_BLOCK_LEN - 1));
          buff = memcpy (hbuff ctx) len (take (PSYNC_FAST_HASH256_BLOCK_LEN - len) (from_entry_2 crc32c_table_1)) in
      fh_finish (if crc_hashw = 2 then fh_crc32_64hw else fh_crc32_64sw) (hstate ctx) (hlength ctx) buff)"

text \<open>A seed is added to the bytes of the state.\<close>

definition psync_fast_hash256_init_seed :: "fast_hash256_ctx \<Rightarrow> u8 list \<Rightarrow> fast_hash256_ctx" where
  "psync_fast_hash256_init_seed ctx seed =
     (let ctx = psync_fast_hash256_init ctx; seedlen = min (length seed) 48 in
      ctx\<lparr>hstate := fold (\<lambda>i st. st[i div 8 := st ! (i div 8) XOR push_bit (8 * (i mod 8)) (ucast (seed ! i))])
            [0..<seedlen] (hstate ctx)\<rparr>)"

section \<open>The hash of all bytes at once\<close>

definition fast_hash256 :: "u8 list \<Rightarrow> u8 list" where
  "fast_hash256 data =
     (let (st, rest) = fh_rounds fh_crc32_64hw (map (fh_load64 (from_entry_2 crc32c_table_0)) [0..<6]) data in
      fh_finish fh_crc32_64hw st (of_nat (length data)) (rest @ take (64 - length rest) (from_entry_2 crc32c_table_1)))"

section \<open>With or without the instruction\<close>

lemma bytes_of_u64:
  "crc32_insn 64 c (d :: u64) = crc32c c [ucast d, ucast (drop_bit 8 d), ucast (drop_bit 16 d), ucast (drop_bit 24 d),
     ucast (drop_bit 32 d), ucast (drop_bit 40 d), ucast (drop_bit 48 d), ucast (drop_bit 56 d)]"
proof -
  let ?bs = "map (\<lambda>j. ucast (drop_bit (8 * j) d) :: u8) [0..<8]"
  have "crc32_insn (8 * length ?bs) c d = crc32c c ?bs"
    by (rule insn_bytes) (auto simp: bit_ucast_iff bit_drop_bit_eq less_mult_imp_div_less)
  then show ?thesis by (simp add: upt_rec)
qed

lemma tab_u64: "k < 8 \<Longrightarrow> (ucast (crc32c_table ! k ! unat ((i :: u64) AND 0xff)) :: u64) = ucast ((sh ^^ (8 * Suc k)) (ucast i AND 0xff))"
proof -
  assume k: "k < 8"
  have "ucast (i AND 0xff) = (ucast i :: u32) AND 0xff"
    unfolding mask_ff by (rule bit_word_eqI) (auto simp: bit_and_iff bit_ucast_iff bit_mask_iff)
  moreover have "unat (ucast (i AND 0xff) :: u32) = unat (i AND 0xff)"
  proof -
    have "i AND 0xff = take_bit 8 i" by (simp add: take_bit_eq_mask mask_eq_exp_minus_1)
    then have "unat (i AND 0xff) < 256" using take_bit_nat_less_exp [of 8 "unat i"] by (simp add: unsigned_take_bit_eq)
    then show ?thesis by (simp add: unsigned_ucast_eq take_bit_nat_eq_self)
  qed
  ultimately have "unat (i AND 0xff) = unat ((ucast i :: u32) AND 0xff)" by simp
  then show ?thesis using crc_tab_sh [OF k, of "ucast i"] by (simp add: crc_tab_def)
qed

lemma low_half:
  assumes "j < 4"
  shows "(ucast (drop_bit (8 * j) ((crc :: u64) XOR (d AND 0xffffffff))) :: u32) AND 0xff
    = drop_bit (8 * j) (ucast crc) AND 0xff XOR ucast (ucast (drop_bit (8 * j) d) :: u8)"
proof -
  have m: "(0xffffffff :: u64) = mask 32" by (simp add: mask_eq_exp_minus_1)
  show ?thesis unfolding m mask_ff using assms
    by (intro bit_word_eqI) (auto simp: bit_and_iff bit_xor_iff bit_ucast_iff bit_mask_iff bit_drop_bit_eq)
qed

lemma high_half: "(ucast (d :: u64) :: u32) AND 0xff = ucast (ucast d :: u8)"
  unfolding mask_ff by (rule bit_word_eqI) (auto simp: bit_and_iff bit_ucast_iff bit_mask_iff)

lemma fh_crc32_sw_hw: "fh_crc32_64sw = fh_crc32_64hw"
proof (intro ext)
  fix crc d :: u64
  define u where "u = crc XOR (d AND 0xffffffff)"
  have q: "(ucast u :: u32) AND 0xff = ucast crc AND 0xff XOR ucast (ucast d :: u8)"
    "(ucast (drop_bit 8 u) :: u32) AND 0xff = drop_bit 8 (ucast crc) AND 0xff XOR ucast (ucast (drop_bit 8 d) :: u8)"
    "(ucast (drop_bit 16 u) :: u32) AND 0xff = drop_bit 16 (ucast crc) AND 0xff XOR ucast (ucast (drop_bit 16 d) :: u8)"
    "(ucast (drop_bit 24 u) :: u32) AND 0xff = drop_bit 24 (ucast crc) AND 0xff XOR ucast (ucast (drop_bit 24 d) :: u8)"
    using low_half [of 0 crc d, folded u_def] low_half [of 1 crc d, folded u_def] low_half [of 2 crc d, folded u_def]
      low_half [of 3 crc d, folded u_def] by simp_all
  have n: "8 * Suc 7 = 64" "8 * Suc 6 = 56" "8 * Suc 5 = 48" "8 * Suc 4 = 40" "8 * Suc 3 = 32" "8 * Suc 2 = 24" "8 * Suc 1 = 16" "8 * Suc 0 = 8"
    by simp_all
  have k: "(7 :: nat) < 8" "(6 :: nat) < 8" "(5 :: nat) < 8" "(4 :: nat) < 8" "(3 :: nat) < 8" "(2 :: nat) < 8" "(1 :: nat) < 8" "(0 :: nat) < 8"
    by simp_all
  show "fh_crc32_64sw crc d = fh_crc32_64hw crc d"
    unfolding fh_crc32_64sw_def fh_crc32_64hw_def CRC32C_64BIT_UINT_def u_def [symmetric] Let_def bytes_of_u64 crc32c_8
    by (simp only: k [THEN tab_u64] n q high_half [of "drop_bit 32 d"] high_half [of "drop_bit 40 d"]
        high_half [of "drop_bit 48 d"] high_half [of "drop_bit 56 d"] unsigned_xor_eq)
qed

section \<open>Updates\<close>

text \<open>A context that has been fed \<open>data\<close>.\<close>

definition fed :: "fast_hash256_ctx \<Rightarrow> u8 list \<Rightarrow> bool" where
  "fed ctx data \<longleftrightarrow> length (hbuff ctx) = 64 \<and> hlength ctx = of_nat (length data)
     \<and> unat (hbuff ctx ! 63) < 64
     \<and> fh_rounds fh_crc32_64hw (map (fh_load64 (from_entry_2 crc32c_table_0)) [0..<6]) data
        = (hstate ctx, take (unat (hbuff ctx ! 63)) (hbuff ctx))"

lemma length_memcpy: "off + length src \<le> length dst \<Longrightarrow> length (memcpy dst off src) = length dst"
  by (simp add: memcpy_def)

lemma fh_rounds_append: "fh_rounds crc st xs = (st', r) \<Longrightarrow> fh_rounds crc st (xs @ ys) = fh_rounds crc st' (r @ ys)"
proof (induction crc st xs rule: fh_rounds.induct)
  case (1 crc st xs)
  show ?case
  proof (cases "64 \<le> length xs")
    case True
    have w: "fh_load64 (xs @ ys) i = fh_load64 xs i" if "i < 8" for i
      using that True by (simp add: fh_load64_def)
    have "ROUND_GEN crc (fh_load64 (xs @ ys)) st = ROUND_GEN crc (fh_load64 xs) st" by (simp add: ROUND_GEN_def w)
    then show ?thesis using 1 True by (simp add: fh_rounds.simps [of crc st] PSYNC_FAST_HASH256_BLOCK_LEN_def)
  next
    case False
    then show ?thesis using 1(2) by (simp add: fh_rounds.simps [of crc st xs] PSYNC_FAST_HASH256_BLOCK_LEN_def)
  qed
qed

lemma fh_rounds_rest: "fh_rounds crc st xs = (st', r) \<Longrightarrow> length r < 64"
proof (induction crc st xs rule: fh_rounds.induct)
  case (1 crc st xs)
  then show ?case
    by (cases "64 \<le> length xs") (auto simp: fh_rounds.simps [of crc st xs] PSYNC_FAST_HASH256_BLOCK_LEN_def)
qed

lemma fh_rounds_short: "length xs < 64 \<Longrightarrow> fh_rounds crc st xs = (st, xs)"
  by (simp add: fh_rounds.simps PSYNC_FAST_HASH256_BLOCK_LEN_def)

lemma fed_init: "length (hbuff ctx) = 64 \<Longrightarrow> fed (psync_fast_hash256_init ctx) []"
  by (simp add: fed_def psync_fast_hash256_init_def PSYNC_FAST_HASH256_BLOCK_LEN_def fh_rounds_short)

lemma fed_short:
  assumes "fed ctx data" "length x + unat (hbuff ctx ! 63) < 64"
  shows "fed (psync_fast_hash256_update hw x ctx) (data @ x)"
proof -
  define l where "l = unat (hbuff ctx ! 63)"
  have f: "length (hbuff ctx) = 64" "hlength ctx = of_nat (length data)"
    "fh_rounds fh_crc32_64hw (map (fh_load64 (from_entry_2 crc32c_table_0)) [0..<6]) data = (hstate ctx, take l (hbuff ctx))"
    using assms(1) by (simp_all add: fed_def l_def)
  have l: "length x + l < 64" using assms(2) by (simp add: l_def)
  define buff where "buff = memcpy ((hbuff ctx)[63 := of_nat l + of_nat (length x)]) l x"
  have u: "psync_fast_hash256_update hw x ctx = ctx\<lparr>hlength := hlength ctx + of_nat (length x), hbuff := buff\<rparr>"
    using l by (simp add: psync_fast_hash256_update_def psync_fast_hash256_update_short_sw_def PSYNC_FAST_HASH256_BLOCK_LEN_def
        buff_def l_def Let_def)
  have b63: "buff ! 63 = of_nat (l + length x)"
  proof -
    have "\<not> 63 - l < length x" using l by arith
    then show ?thesis using l f(1) by (simp add: buff_def memcpy_def nth_append)
  qed
  have b: "unat (buff ! 63) = l + length x" unfolding b63 unat_of_nat_u8 using l by simp
  have t: "take (l + length x) buff = take l (hbuff ctx) @ x"
    using l f(1) by (simp add: buff_def memcpy_def)
  have "fh_rounds fh_crc32_64hw (map (fh_load64 (from_entry_2 crc32c_table_0)) [0..<6]) (data @ x)
      = (hstate ctx, take l (hbuff ctx) @ x)"
    using fh_rounds_append [OF f(3)] f(1) l by (simp add: fh_rounds_short)
  moreover have "length buff = 64" unfolding buff_def using f(1) l by (simp add: length_memcpy)
  ultimately show ?thesis using b t l f(2) by (simp add: fed_def u)
qed

lemma fh_rounds_block: "length b = 64 \<Longrightarrow> fh_rounds crc st (b @ r) = fh_rounds crc (ROUND_GEN crc (fh_load64 b) st) r"
proof -
  assume b: "length b = 64"
  have w: "fh_load64 (b @ r) i = fh_load64 b i" if "i < 8" for i
    using that b by (simp add: fh_load64_def)
  have "ROUND_GEN crc (fh_load64 (b @ r)) st = ROUND_GEN crc (fh_load64 b) st" by (simp add: ROUND_GEN_def w)
  then show ?thesis using b by (simp add: fh_rounds.simps [of crc st] PSYNC_FAST_HASH256_BLOCK_LEN_def)
qed

lemma fed_long:
  assumes "fed ctx data" "64 \<le> length x + unat (hbuff ctx ! 63)"
  shows "fed (psync_fast_hash256_update hw x ctx) (data @ x)"
proof -
  define l where "l = unat (hbuff ctx ! 63)"
  let ?c = "fh_crc32_64hw"
  have f: "length (hbuff ctx) = 64" "hlength ctx = of_nat (length data)" "l < 64"
    "fh_rounds ?c (map (fh_load64 (from_entry_2 crc32c_table_0)) [0..<6]) data = (hstate ctx, take l (hbuff ctx))"
    using assms(1) by (simp_all add: fed_def l_def)
  have l: "64 \<le> length x + l" using assms(2) by (simp add: l_def)
  define buff where "buff = (if l = 0 then hbuff ctx else memcpy (hbuff ctx) l (take (64 - l) x))"
  obtain st r where r: "fh_rounds ?c (hstate ctx) (take l (hbuff ctx) @ x) = (st, r)" by force
  have buff: "length buff = 64" using f(1,3) l by (simp add: buff_def length_memcpy)
  have first: "fh_rounds ?c (if l = 0 then hstate ctx else ROUND_GEN ?c (fh_load64 buff) (hstate ctx)) (if l = 0 then x else drop (64 - l) x) = (st, r)"
  proof (cases "l = 0")
    case False
    have "buff = take l (hbuff ctx) @ take (64 - l) x" using False f l by (simp add: buff_def memcpy_def)
    then have "take l (hbuff ctx) @ x = buff @ drop (64 - l) x" by simp
    then show ?thesis using r fh_rounds_block [OF buff, of ?c "hstate ctx" "drop (64 - l) x"] False by simp
  qed (use r in simp)
  have lr: "length r < 64" by (rule fh_rounds_rest [OF r])
  let ?b = "(memcpy buff 0 r)[63 := of_nat (length r)]"
  have u: "psync_fast_hash256_update hw x ctx = ctx\<lparr>hlength := hlength ctx + of_nat (length x), hstate := st, hbuff := ?b\<rparr>"
    using l first by (cases "l = 0")
      (simp_all add: psync_fast_hash256_update_def psync_fast_hash256_update_long_def PSYNC_FAST_HASH256_BLOCK_LEN_def
        buff_def l_def [symmetric] Let_def fh_crc32_sw_hw)
  have m: "length (memcpy buff 0 r) = 64" using buff lr by (simp add: length_memcpy)
  then have b: "unat (?b ! 63) = length r" using lr by (simp add: unat_of_nat)
  have "take (length r) ?b = r" using lr by (simp add: memcpy_def)
  then show ?thesis using b m lr f(2) r fh_rounds_append [OF f(4), of x] by (simp add: fed_def u)
qed

lemma fed_update: "fed ctx data \<Longrightarrow> fed (psync_fast_hash256_update hw x ctx) (data @ x)"
  using fed_short fed_long by (cases "length x + unat (hbuff ctx ! 63) < 64") auto

lemma length_padding: "length (from_entry_2 crc32c_table_1) = 1016"
proof -
  have "length (from_entry_2 t) = 4 * (length t - 2)" for t
    by (simp add: from_entry_2_def length_concat o_def sum_list_triv)
  then show ?thesis by (simp add: crc32c_table_1_span length_xor_span del: xor_span.simps)
qed

lemma fed_final: "fed ctx data \<Longrightarrow> psync_fast_hash256_final hw ctx = fast_hash256 data"
  by (auto simp: length_padding fed_def psync_fast_hash256_final_def fast_hash256_def fh_crc32_sw_hw memcpy_def PSYNC_FAST_HASH256_BLOCK_LEN_def Let_def)

lemma fed_updates: "fed ctx data \<Longrightarrow> fed (fold (\<lambda>(hw, x). psync_fast_hash256_update hw x) updates ctx) (data @ concat (map snd updates))"
proof (induction updates arbitrary: ctx data)
  case (Cons u updates)
  from Cons.IH [OF fed_update [OF Cons.prems, of "fst u" "snd u"]] show ?case by (simp add: case_prod_beta)
qed simp

text \<open>
  C27. The hash is that of the bytes at once, however they are cut into updates, whether or not the instruction is
  used for each of them, and whatever the buffer held before.
\<close>

theorem fast_hash256_updates:
  assumes "length (hbuff ctx) = PSYNC_FAST_HASH256_BLOCK_LEN"
  shows "psync_fast_hash256_final hw (fold (\<lambda>(hw, x). psync_fast_hash256_update hw x) updates (psync_fast_hash256_init ctx))
    = fast_hash256 (concat (map snd updates))"
  using fed_final [OF fed_updates [OF fed_init]] assms by (simp add: PSYNC_FAST_HASH256_BLOCK_LEN_def)

theorem fast_hash256_updates_witness:
  "psync_fast_hash256_final 2 (fold (\<lambda>(hw, x). psync_fast_hash256_update hw x) [(2, [1, 2]), (1, replicate 70 3)]
      (psync_fast_hash256_init \<lparr>hstate = [], hlength = 9, hbuff = replicate 64 7\<rparr>))
    = fast_hash256 ([1, 2] @ replicate 70 3)"
  using fast_hash256_updates [of "\<lparr>hstate = [], hlength = 9, hbuff = replicate 64 7\<rparr>" 2 "[(2, [1, 2]), (1, replicate 70 3)]"]
  by (simp add: PSYNC_FAST_HASH256_BLOCK_LEN_def)

lemma length_fast_hash256: "length (fast_hash256 data) = 32"
  by (simp add: fast_hash256_def fh_finish_def Let_def split: prod.split)

end
