(* ===== verification/LogCrc.thy ===== *)
theory LogCrc
  imports CryptoLogUse FastHash
begin

unbundle bit_operations_syntax

text \<open>
  The log of an encrypted file with the hash and the checksum that the program uses: the log theories hold for
  all functions of the bytes, \<open>FastHash\<close> and \<open>CrcUse\<close> show that the program's are such, and the checksum makes
  damage to the first sector visible.
\<close>

definition PSYNC_CRC_INITIAL :: u32 where "PSYNC_CRC_INITIAL = 0"

definition log_crc :: "bool \<Rightarrow> nat \<Rightarrow> nat \<Rightarrow> bytes_crc" where
  "log_crc has_hw crc_hashw addr bs = fst (psync_crc32c has_hw crc_hashw PSYNC_CRC_INITIAL addr bs)"

text \<open>The hash of a log is fed record by record as the log is written, and sector by sector when it is checked.\<close>

definition log_hash :: "nat \<Rightarrow> u8 list list \<Rightarrow> fast_hash256_ctx \<Rightarrow> u8 list" where
  "log_hash hw pieces ctx = psync_fast_hash256_final hw (fold (psync_fast_hash256_update hw) pieces (psync_fast_hash256_init ctx))"

lemma log_hash_is:
  assumes "length (hbuff ctx) = PSYNC_FAST_HASH256_BLOCK_LEN"
  shows "log_hash hw pieces ctx = fast_hash256 (concat pieces)"
proof -
  have "fold (\<lambda>(h, x). psync_fast_hash256_update h x) (map (Pair hw) pieces) c = fold (psync_fast_hash256_update hw) pieces c" for c
    by (induction pieces arbitrary: c) simp_all
  then show ?thesis
    using fed_final [OF fed_updates [OF fed_init], of ctx hw "map (Pair hw) pieces"] assms
    by (simp add: log_hash_def PSYNC_FAST_HASH256_BLOCK_LEN_def o_def)
qed

text \<open>The stored checksum is the right one when the checksum of the fields with it behind them is 0.\<close>

lemma log_sh_0: "(sh ^^ n) 0 = 0"
proof (induction n)
  case (Suc n)
  have "sh 0 = sh (0 XOR 0)" by simp
  also have "\<dots> = sh 0 XOR sh 0" by (rule sh_xor)
  finally have "sh 0 = 0" by simp
  then show ?case using Suc by simp
qed simp

lemma stored_crc:
  assumes "length t = 4"
  shows "le_load t = unat (crc32c c m) \<longleftrightarrow> crc32c c (m @ t) = 0"
proof -
  have "crc32c c (m @ t) = (sh ^^ 32) (crc32c c m XOR of_nat (le_load t))"
    using crc32c_short [of t "crc32c c m"] assms by (simp add: crc32c_append)
  then have "crc32c c (m @ t) = 0 \<longleftrightarrow> crc32c c m XOR of_nat (le_load t) = 0" using shn_inj [of 32 _ 0] log_sh_0 [of 32] by auto
  also have "\<dots> \<longleftrightarrow> of_nat (le_load t) = crc32c c m" using xor_right_eq [of "crc32c c m" "of_nat (le_load t)" "of_nat (le_load t)"] by auto
  also have "\<dots> \<longleftrightarrow> le_load t = unat (crc32c c m)"
  proof -
    have "le_load t < 2 ^ 32" using le_load_less [of t] assms by simp
    then show ?thesis by (auto simp: word_unat_eq_iff unat_of_nat)
  qed
  finally show ?thesis by simp
qed

text \<open>
  C34. A final log of whose first sixty bytes, the fields of the record that makes it final and their checksum, up to
  four adjacent ones are damaged is not applied: both files stay as they are. (The four bytes of padding
  that end the record are never looked at.)
\<close>

theorem damaged_log_rejected:
  assumes "psync_fs_crypto_process_log fhash (log_crc has_hw crc_hashw addr) r checkhash (pre @ x @ suf) d0 i0 = (Some 0, d1, i1)"
    "replay_ok r" "length y = length x" "length x \<le> 4" "y \<noteq> x" "length pre + length x \<le> 60"
  shows "psync_fs_crypto_process_log fhash (log_crc has_hw' crc_hashw' addr') r' checkhash' (pre @ y @ suf) d i = (Some (-1), d, i)"
proof -
  have v: "log_valid fhash (log_crc has_hw crc_hashw addr) checkhash (pre @ x @ suf)" by (rule process_log_parts [OF assms(1,2)])
  have z: "crc32c PSYNC_CRC_INITIAL (take 60 lf) = 0"
    if "log_valid fhash (log_crc h c a) ch lf" for h c a ch lf
  proof -
    define mr where "mr = pread lf 64 0"
    have m: "length mr = 64" "field 4 56 mr = unat (crc32c PSYNC_CRC_INITIAL (take 56 mr))"
      using that by (simp_all add: log_valid_def Let_def log_crc_def fst_psync_crc32c mr_def)
    have "take 60 lf = take 60 mr" by (simp add: mr_def pread_def)
    also have "\<dots> = take 56 mr @ take 4 (drop 56 mr)" by (simp flip: take_add)
    finally show ?thesis using stored_crc [of "take 4 (drop 56 mr)" PSYNC_CRC_INITIAL "take 56 mr"] m by (simp add: field_def)
  qed
  have t: "take 60 (pre @ w @ suf) = pre @ w @ take (60 - length pre - length w) suf" if "length w = length x" for w
    using assms(6) that by simp
  have "crc32c PSYNC_CRC_INITIAL (take 60 (pre @ y @ suf)) \<noteq> crc32c PSYNC_CRC_INITIAL (take 60 (pre @ x @ suf))"
    unfolding t [OF refl] t [OF assms(3)] assms(3) using assms(3-5) by (intro crc_burst) auto
  then have "\<not> log_valid fhash (log_crc has_hw' crc_hashw' addr') checkhash' (pre @ y @ suf)" using z [OF v] z by metis
  then show ?thesis by (simp add: process_log_unfold)
qed

theorem damaged_log_rejected_witness:
  "\<exists>pre suf. psync_fs_crypto_process_log fast_hash256 (log_crc True 0 0) sample_replay True (pre @ [1] @ suf) [9, 9, 9, 9] (Some [])
      = (Some 0, [1, 2, 3, 9], Some [(0, 3)])
    \<and> psync_fs_crypto_process_log fast_hash256 (log_crc True 0 0) sample_replay True (pre @ [2] @ suf) [9, 9, 9, 9] (Some [])
      = (Some (-1), [9, 9, 9, 9], Some [])"
proof -
  obtain l' :: log_t where l': "log_valid fast_hash256 (log_crc True 0 0) True (logfile l')" "log_size (logfile l') = 4"
    "log_parts 4 0 (drop PSYNC_CRYPTO_SECTOR_SIZE (logfile l')) = Some [LData 0 [1, 2, 3], LInt 0 3]"
    using log_written [of sample_log "[(0, [1, 2, 3])]" "[(0, 3)]" 4 "[0, 0, 0, 0]" fast_hash256 "log_crc True 0 0" 0] sample_log_fits
    by (auto simp: sample_log_def sector_parts_def interval_parts_def sector_zero length_fast_hash256)
  have run: "psync_fs_crypto_process_log fast_hash256 (log_crc True 0 0) sample_replay True (logfile l') [9, 9, 9, 9] (Some [])
      = (Some 0, [1, 2, 3, 9], Some [(0, 3)])"
    using process_log_ok [OF sample_replay_ok l'(1), of "[LData 0 [1, 2, 3], LInt 0 3]" "Some []" "[9, 9, 9, 9]"] l'(2,3)
    by (simp add: patch_def resize_def)
  obtain lf where lf: "logfile l' = lf" by simp
  have "lf \<noteq> [] \<and> hd lf = 1"
  proof -
    have st: "le_load (take 4 (take 64 lf)) = 1" "length (take 64 lf) = 64"
      using l'(1) lf by (simp_all add: log_valid_def Let_def pread_def field_def PSYNC_LOG_STATUS_FINALIZED_def)
    then obtain a b where ab: "lf = a # b" by (cases lf) auto
    then have "unat a + 256 * le_load (take 3 (take 63 b)) = 1" using st(1) by (simp add: take_Cons')
    then have "unat a = 1" by presburger
    then have "a = 1" by (metis unat_1 word_unat_eq_iff)
    then show ?thesis using ab by simp
  qed
  then have lf1: "lf = [] @ [1] @ tl lf" by (cases lf) auto
  have ok: "psync_fs_crypto_process_log fast_hash256 (log_crc True 0 0) sample_replay True ([] @ [1] @ tl lf) [9, 9, 9, 9] (Some [])
      = (Some 0, [1, 2, 3, 9], Some [(0, 3)])" using run lf1 lf by metis
  have "psync_fs_crypto_process_log fast_hash256 (log_crc True 0 0) sample_replay True ([] @ [2] @ tl lf) [9, 9, 9, 9] (Some [])
      = (Some (-1), [9, 9, 9, 9], Some [])"
    by (rule damaged_log_rejected [OF ok sample_replay_ok]) simp_all
  then show ?thesis using ok by blast
qed

end
