(* ===== verification/Spec2Isabelle.thy ===== *)
theory Spec2Isabelle
  imports ApiSend Timer Codec RwLock Status ListSort LocalScan ScanApply Crypto FsDriveView FsFileUp LogCrc
begin

text \<open>
  A verification development for the synchronisation library of the pCloud console client
  (\<^verbatim>\<open>src/pCloudCC/lib/pclsync\<close>; file names below are relative to it).

  \<^bold>\<open>The program.\<close> The client keeps local folders and a mounted drive in step with an account on a server. The
  local scanner compares directories with a database and queues tasks; the drive is a file system whose
  changes are recorded in memory and in the database and are uploaded later; files in encrypted folders are
  encrypted in sectors with a tree of authentication records. All parts talk to the server over one binary
  protocol, share the timer, the reader/writer lock of the database and the client status, and are built on
  intrusive lists, balanced trees and interval trees.

  \<^bold>\<open>Theories and sources.\<close>
  \<^item> \<open>Prelude\<close>: machine words, the outcome of code that reads through pointers, little-endian bytes.
  \<^item> \<open>ApiParse\<close>, \<open>ApiSend\<close> (\<^verbatim>\<open>papi.c\<close>): the two passes of the response parser over the bytes of a message, with
    every read past the end visible as \<open>Overread\<close>; the serialisation of requests; blocking and resumable
    framing. Memory safety, round trips with an encoder, independence of how the bytes arrive.
  \<^item> \<open>Timer\<close> (\<^verbatim>\<open>ptimer.c\<close>): the wheel of three levels, its sweep, registration and stop. A timer fires when it is
    due, and again after every period.
  \<^item> \<open>Codec\<close> (\<^verbatim>\<open>plibs.c\<close>): base32, base64, UTF-8, patterns, numbers, names.
  \<^item> \<open>RwLock\<close> (\<^verbatim>\<open>plocks.c\<close>): an inductive relation whose steps are the critical sections; exclusion, the
    assertions of the code; no lost wake-up, but for a timed-out wait for the write lock that consumes a signal.
  \<^item> \<open>Status\<close> (\<^verbatim>\<open>pstatus.c\<close>): the status computed from six components, and the waits for it.
  \<^item> \<open>ListSort\<close> (\<^verbatim>\<open>plist.h\<close>, \<^verbatim>\<open>plist.c\<close>): lists and their merge sort on a heap of links.
  \<^item> \<open>LocalScan\<close>, \<open>SyncDb\<close>, \<open>ScanApply\<close> (\<^verbatim>\<open>plocalscan.c\<close>, \<^verbatim>\<open>ptasks.c\<close>, parts of \<^verbatim>\<open>psynclib.c\<close>, \<^verbatim>\<open>pupload.c\<close>,
    \<^verbatim>\<open>pdatabase.h\<close>): comparing a directory with the database, and what is done to the tables for each difference.
  \<^item> \<open>PTree\<close>, \<open>PTreeInv\<close>, \<open>PTreeDel\<close>, \<open>PTreeWalk\<close> (\<^verbatim>\<open>ptree.h\<close>, \<^verbatim>\<open>ptree.c\<close>): AVL trees with parent links on a heap;
    each operation refines the one on the sequence of nodes and keeps the balance.
  \<^item> \<open>IntervalTree\<close>, \<open>IntervalSet\<close> (\<^verbatim>\<open>pintervaltree.c\<close>): sets of file positions on these trees.
  \<^item> \<open>FsTaskTree\<close>, \<open>FsTasks\<close>, \<open>FsTasksView\<close>, \<open>FsTasksLog\<close> (\<^verbatim>\<open>pfstasks.c\<close>): the pending changes of the drive, in
    memory and in the table \<^verbatim>\<open>fstask\<close>; counters, reload after a restart. The runs that these properties are about
    (\<open>fs_op\<close>) make and remove folders and files, with every result but two: the refused removal of a pending folder that is
    not empty, whose effect is a property of its own, and a failing commit after a pending entry was removed.
    Renames, modified files and the completion of changes are modelled but are not part of the runs.
  \<^item> \<open>FsPaths\<close> (\<^verbatim>\<open>pfsfolder.c\<close>) and \<open>FsDrive\<close>, \<open>FsDriveView\<close> (\<^verbatim>\<open>pfs.c\<close>): paths, and the operations of the drive on
    names; in the same runs they refine those on an abstract tree of named folders and files, each operation with
    its result.
  \<^item> \<open>FsFile\<close>, \<open>FsFileView\<close>, \<open>FsFileUp\<close> (\<^verbatim>\<open>pfs.c\<close>, \<^verbatim>\<open>ppagecache.c\<close>, \<^verbatim>\<open>pfsupload.c\<close>): the content of a file open for
    writing as a revision on the server, a sparse local file and an index of intervals; runs of operations
    refine those on bytes, the restart gives them again, and the upload rebuilds them on the server; after a failed
    write the index cannot be loaded any more.
  \<^item> \<open>Crypto\<close> (\<^verbatim>\<open>pcrypto.c\<close>): HMAC, counter mode, file names, sectors with ciphertext stealing.
  \<^item> \<open>CryptoLayout\<close>, \<open>CryptoLog\<close>, \<open>CryptoLogView\<close>, \<open>CryptoLogUse\<close> (\<^verbatim>\<open>pfscrypto.c\<close>): where the sectors of an encrypted
    file are, and the log that makes changes to it atomic: what a crash leaves is repaired by applying the
    log again.
  \<^item> \<open>CrcTable\<close>, \<open>Crc\<close>, \<open>CrcView\<close>, \<open>CrcShift\<close>, \<open>CrcUse\<close>, \<open>FastHash\<close> (\<^verbatim>\<open>pcrc32c.c\<close>): the checksum and the hash of these logs,
    with their tables; \<open>LogCrc\<close> puts them into the log.

  \<^bold>\<open>How the code is modelled.\<close> A function of the code is a definition of the same name; its state is a record
  or a heap (a function from addresses, 0 is \<^verbatim>\<open>NULL\<close>); integers are words of their width wherever they can
  wrap. An error is a negative result as in the code, or \<open>None\<close> for an assertion that fails, a null pointer
  or a loop that does not return; the theorems show results, so that \<open>None\<close> does not occur, but for those
  that are about an assertion that fails. What the system
  or the server answers is an argument. A loop over links of a heap is a \<open>partial_function\<close>; the walks over the folder tables
  have a depth bound, the number of rows, which is shown to be enough because every step leaves a row behind.

  \<^bold>\<open>How the proofs are built.\<close> Lists, trees and interval trees are first shown to implement sequences; the
  components on top (tasks, open files) use the sequences, and the theorems that join them are
  in the theories named \<open>View\<close>, \<open>Log\<close>, \<open>Set\<close>, \<open>Use\<close> and \<open>Up\<close>. Interfaces that several models share are locales,
  interpreted on the models' own definitions.

  \<^bold>\<open>Not modelled.\<close> AES, SHA-512, RSA, TLS and SQLite are third-party code: the first two are arguments, and statements of
  SQL are functions on the rows of tables. The threads that talk to the server (\<^verbatim>\<open>pdiff.c\<close>, \<^verbatim>\<open>pdownload.c\<close>, most of \<^verbatim>\<open>pupload.c\<close> and
  \<^verbatim>\<open>pfsupload.c\<close>, \<^verbatim>\<open>pnetlibs.c\<close>, \<^verbatim>\<open>pp2p.c\<close>), the operating system layer (\<^verbatim>\<open>pcompat.c\<close>), the page cache, the key
  management (\<^verbatim>\<open>pcloudcrypto.c\<close>) and the command line are left out: they are sequences of system calls and requests whose
  results the modelled parts take as arguments. Of \<^verbatim>\<open>pfscrypto.c\<close> the tree of authentication records of
  files being written and the partial sectors are left out. Vendored code (SQLite, mbed TLS, miniz) is not part of the client.
\<close>

end
